(* ===== verification/Prelude.thy ===== *)
theory Prelude
  imports Complex_Main "HOL-Library.AList" "HOL-Library.Multiset" "HOL-Library.Word"
begin

text \<open>
  Shared vocabulary of the development: names for the types several components use, the
  generic facts on lists, options and association lists their proofs share, and the locale of
  a system whose steps keep an invariant.
\<close>

section \<open>Types\<close>

type_synonym byte = "8 word"
type_synonym bytes = "byte list"
type_synonym instant = int

text \<open>
  A Go \<^verbatim>\<open>map\<close> is an association list with distinct keys. The order of the list stands for the
  order in which one \<^verbatim>\<open>range\<close> over the map happens to visit it: Go leaves it open, and a theorem
  that holds for every list holds for every order.
\<close>

type_synonym ('k, 'v) gomap = "('k \<times> 'v) list"

abbreviation keys :: "('k, 'v) gomap \<Rightarrow> 'k list" where
  "keys m \<equiv> map fst m"

section \<open>Association lists\<close>

named_theorems gomap_simps "facts about lookups and keys of updated maps"

lemma map_of_update [gomap_simps]: "map_of (AList.update k v m) = (map_of m)(k \<mapsto> v)"
  by (rule update_conv')

lemma map_of_delete [gomap_simps]: "map_of (AList.delete k m) = (map_of m)(k := None)"
  by (rule delete_conv')

lemma distinct_keys_update [gomap_simps]:
  "distinct (keys m) \<Longrightarrow> distinct (keys (AList.update k v m))"
  by (rule distinct_update)

lemma distinct_keys_delete [gomap_simps]:
  "distinct (keys m) \<Longrightarrow> distinct (keys (AList.delete k m))"
  by (rule distinct_delete)

lemma map_of_Some_iff:
  "distinct (keys m) \<Longrightarrow> map_of m k = Some v \<longleftrightarrow> (k, v) \<in> set m"
  by (rule map_of_eq_Some_iff)

text \<open>Folds of conditional deletions and of insertions over a list of keys.\<close>

lemma map_of_fold_delete:
  "map_of (fold (\<lambda>x l. AList.delete (f x) l) xs m) k =
     (if k \<in> f ` set xs then None else map_of m k)"
  by (induction xs arbitrary: m) (auto simp: gomap_simps)

lemma distinct_keys_fold_delete:
  "distinct (keys m) \<Longrightarrow> distinct (keys (fold (\<lambda>x l. AList.delete (f x) l) xs m))"
  by (induction xs arbitrary: m) (auto simp: gomap_simps)

lemma map_of_fold_update:
  "map_of (fold (\<lambda>k l. AList.update k v l) ks m) j =
     (if j \<in> set ks then Some v else map_of m j)"
  by (induction ks arbitrary: m) (auto simp: gomap_simps)

lemma distinct_keys_fold_update:
  "distinct (keys m) \<Longrightarrow> distinct (keys (fold (\<lambda>k l. AList.update k v l) ks m))"
  by (induction ks arbitrary: m) (auto simp: gomap_simps)

section \<open>Bytes\<close>

text \<open>\<^verbatim>\<open>bytes.IndexByte\<close>: where a byte first occurs.\<close>

fun index_byte :: "byte \<Rightarrow> bytes \<Rightarrow> nat option" where
  "index_byte b [] = None"
| "index_byte b (x # xs) = (if x = b then Some 0 else map_option Suc (index_byte b xs))"

named_theorems byte_simps "facts about searching bytes"

lemma index_byte_None [byte_simps]: "index_byte b xs = None \<longleftrightarrow> b \<notin> set xs"
  by (induction xs) auto

lemma index_byte_Some:
  "index_byte b xs = Some i \<Longrightarrow> i < length xs \<and> xs ! i = b \<and> b \<notin> set (take i xs)"
proof (induction xs arbitrary: i)
  case Nil
  then show ?case by simp
next
  case (Cons x xs)
  then show ?case by (cases i) (auto split: if_splits)
qed

lemma index_byte_append [byte_simps]:
  "b \<notin> set xs \<Longrightarrow> index_byte b (xs @ ys) = map_option (\<lambda>i. length xs + i) (index_byte b ys)"
  by (cases "index_byte b ys"; induction xs) auto

lemma index_byte_append_Some [byte_simps]:
  "index_byte b xs = Some i \<Longrightarrow> index_byte b (xs @ ys) = Some i"
  by (induction xs arbitrary: i) (auto split: if_splits)

text \<open>\<^verbatim>\<open>\n\<close> and \<^verbatim>\<open>\r\<close>.\<close>

abbreviation newline :: byte where "newline \<equiv> 10"
abbreviation carriage_return :: byte where "carriage_return \<equiv> 13"

section \<open>Systems with an invariant\<close>

text \<open>
  The contract several state machines of the program share: a set of initial states, a step
  relation, and a predicate that holds initially and that every step keeps. The client's facts
  (every reachable state satisfies the predicate; a relation every step keeps holds along a
  run) are proved once here.
\<close>

locale invariant_system =
  fixes init :: "'s \<Rightarrow> bool"
    and step :: "'s \<Rightarrow> 's \<Rightarrow> bool"
    and inv :: "'s \<Rightarrow> bool"
  assumes inv_init: "init s \<Longrightarrow> inv s"
    and inv_step: "inv s \<Longrightarrow> step s t \<Longrightarrow> inv t"
begin

lemma inv_run:
  assumes "inv s" and "step\<^sup>*\<^sup>* s t"
  shows "inv t"
  using assms(2,1) by (induction rule: rtranclp_induct) (auto intro: inv_step)

lemma inv_reachable:
  assumes "init s" and "step\<^sup>*\<^sup>* s t"
  shows "inv t"
  using inv_init [OF assms(1)] assms(2) by (rule inv_run)

lemma run_preserves:
  assumes run: "step\<^sup>*\<^sup>* s t" and "inv s" and "Q s"
    and keep: "\<And>u v. inv u \<Longrightarrow> Q u \<Longrightarrow> step u v \<Longrightarrow> Q v"
  shows "Q t"
proof -
  from run have "inv t \<and> Q t"
    by (induction rule: rtranclp_induct) (use assms in \<open>auto intro: inv_step keep\<close>)
  then show ?thesis ..
qed

end

end
