(* ===== verification/Tasks.thy ===== *)
theory Tasks
  imports Prelude
begin

text \<open>
  The background-task manager, \<^verbatim>\<open>internal/tasks/manager.go\<close>: the task table, the path locks,
  every operation of the manager as a function of its state (each runs under the manager's one
  mutex, so it is one atomic step), the sweeper's pass, and the watch cells that outlive the
  table.

  What the code reads from outside is an argument: the UUID of a new task (\<^verbatim>\<open>uuid.NewString\<close>,
  required to be one no task ever had) and the current time.
\<close>

section \<open>Tasks\<close>

text \<open>
  \<^verbatim>\<open>NoStatus\<close> is the empty string that leaves a task's status as it is in an update, and
  \<^verbatim>\<open>OtherStatus\<close> any other string a caller of \<^verbatim>\<open>Update\<close> may pass: the Go type is a string.
\<close>

datatype status = NoStatus | Queued | Running | Completed | Failed | Cancelled | Cancelling | OtherStatus string

definition is_end :: "status \<Rightarrow> bool" where
  "is_end s \<longleftrightarrow> s = Completed \<or> s = Failed \<or> s = Cancelled"

text \<open>
  A worker's progress function reads counters that change as time passes: it is a function of
  the instant it is called at.
\<close>

type_synonym progress_fn = "instant \<Rightarrow> rat \<times> bool"
type_synonym count_fn = "instant \<Rightarrow> int \<times> int"

text \<open>
  \<^verbatim>\<open>cancel\<close> is a function or nil in the code; here \<open>cancellable\<close> says it is set. The task's
  \<^verbatim>\<open>done\<close> channel, its \<^verbatim>\<open>end\<close> and its context are shared by pointer with its clones and its
  watches; they are the task's cell (below), found by the task's id.
\<close>

record 'r task =
  taskID :: string
  taskPath :: string
  operation :: string
  cliCommand :: string
  taskStatus :: status
  startedAt :: instant
  completedAt :: "instant option"
  taskError :: string
  taskResult :: "'r option"
  progressFn :: "progress_fn option"
  bytesFn :: "count_fn option"
  filesFn :: "count_fn option"
  cancellable :: bool
  settled :: bool
  held :: "string list"
  subtask :: bool
  stoppable :: bool

definition is_terminal :: "'r task \<Rightarrow> bool" where
  "is_terminal t \<longleftrightarrow> is_end (taskStatus t)"

definition task_progress :: "'r task \<Rightarrow> instant \<Rightarrow> rat option" where
  "task_progress t now =
     (case progressFn t of None \<Rightarrow> None
      | Some f \<Rightarrow> (case f now of (fraction, known) \<Rightarrow> if known then Some fraction else None))"

definition task_bytes :: "'r task \<Rightarrow> instant \<Rightarrow> (int \<times> int) option" where
  "task_bytes t now = (case bytesFn t of None \<Rightarrow> None | Some f \<Rightarrow> Some (f now))"

definition task_files :: "'r task \<Rightarrow> instant \<Rightarrow> (int \<times> int) option" where
  "task_files t now = (case filesFn t of None \<Rightarrow> None | Some f \<Rightarrow> Some (f now))"

text \<open>
  The cell of a task: whether its \<^verbatim>\<open>done\<close> channel is closed, what its \<^verbatim>\<open>end\<close> says, and whether
  its context has been canceled. A watch is a reference to a cell.
\<close>

record cell =
  closed :: bool
  endStatus :: status
  endError :: string
  ctxCanceled :: bool

definition new_cell :: cell where
  "new_cell = \<lparr>closed = False, endStatus = NoStatus, endError = '''', ctxCanceled = False\<rparr>"

section \<open>The manager\<close>

text \<open>
  \<open>cells\<close> is the heap of the cells, keyed by the id of the task they were made with; nothing is
  ever removed from it. \<open>panicked\<close> records that a step hit a Go panic: a channel closed twice, or
  a slice taken past its end.
\<close>

record 'r manager =
  tasks :: "(string, 'r task) gomap"
  pathLocks :: "(string, string) gomap"
  maxTasks :: int
  ttl :: int
  sweepInterval :: int
  cells :: "string \<Rightarrow> cell option"
  panicked :: bool

text \<open>Times are nanoseconds.\<close>

definition default_max_tasks :: int where "default_max_tasks = 256"
definition default_sweep_interval :: int where
  "default_sweep_interval = 5 * 60 * 1000 * 1000 * 1000"

text \<open>\<^verbatim>\<open>New\<close>: \<open>env_ttl\<close> is what \<^verbatim>\<open>config.TaskTTL\<close> reads from the environment.\<close>

definition new_manager :: "int \<Rightarrow> int \<Rightarrow> int \<Rightarrow> int \<Rightarrow> 'r manager" where
  "new_manager env_ttl cfg_ttl cfg_sweep cfg_max =
     \<lparr>tasks = [], pathLocks = [],
      maxTasks = (if cfg_max \<le> 0 then default_max_tasks else cfg_max),
      ttl = (if cfg_ttl \<le> 0 then env_ttl else cfg_ttl),
      sweepInterval = (if cfg_sweep \<le> 0 then default_sweep_interval else cfg_sweep),
      cells = (\<lambda>_. None), panicked = False\<rparr>"

text \<open>A write through a task pointer: the table's entry of that id.\<close>

definition put_task :: "'r task \<Rightarrow> 'r manager \<Rightarrow> 'r manager" where
  "put_task t m = m\<lparr>tasks := AList.update (taskID t) t (tasks m)\<rparr>"

definition cell_of :: "'r manager \<Rightarrow> string \<Rightarrow> cell" where
  "cell_of m i = (case cells m i of Some c \<Rightarrow> c | None \<Rightarrow> new_cell)"

definition put_cell :: "string \<Rightarrow> cell \<Rightarrow> 'r manager \<Rightarrow> 'r manager" where
  "put_cell i c m = m\<lparr>cells := (cells m)(i \<mapsto> c)\<rparr>"

definition cancel_ctx :: "'r task \<Rightarrow> 'r manager \<Rightarrow> 'r manager" where
  "cancel_ctx t m = put_cell (taskID t) ((cell_of m (taskID t))\<lparr>ctxCanceled := True\<rparr>) m"

definition close_end_locked :: "'r task \<Rightarrow> 'r manager \<Rightarrow> 'r manager" where
  "close_end_locked t m =
     (let c = cell_of m (taskID t)
      in (put_cell (taskID t)
            (c\<lparr>endStatus := taskStatus t, endError := taskError t, closed := True\<rparr>) m)
         \<lparr>panicked := panicked m \<or> closed c\<rparr>)"

definition release_lock :: "'r task \<Rightarrow> string \<Rightarrow> (string, string) gomap \<Rightarrow> (string, string) gomap" where
  "release_lock t path locks =
     (case map_of locks path of
        Some holder \<Rightarrow> if holder = taskID t then AList.delete path locks else locks
      | None \<Rightarrow> locks)"

definition release_paths_locked :: "'r task \<Rightarrow> 'r manager \<Rightarrow> 'r manager" where
  "release_paths_locked t m = m\<lparr>pathLocks := fold (release_lock t) (held t) (pathLocks m)\<rparr>"

definition end_locked :: "'r task \<Rightarrow> status \<Rightarrow> instant \<Rightarrow> 'r manager \<Rightarrow> 'r manager" where
  "end_locked t s now m =
     (let t' = t\<lparr>taskStatus := s, completedAt := Some now\<rparr>
      in release_paths_locked t' (close_end_locked t' (put_task t' m)))"

definition running_holder_locked :: "string \<Rightarrow> 'r manager \<Rightarrow> 'r task option \<times> 'r manager" where
  "running_holder_locked path m =
     (case map_of (pathLocks m) path of
        None \<Rightarrow> (None, m)
      | Some holderID \<Rightarrow>
          (case map_of (tasks m) holderID of
             Some holder \<Rightarrow>
               if \<not> is_terminal holder then (Some holder, m)
               else (None, m\<lparr>pathLocks := AList.delete path (pathLocks m)\<rparr>)
           | None \<Rightarrow> (None, m\<lparr>pathLocks := AList.delete path (pathLocks m)\<rparr>)))"

text \<open>\<^verbatim>\<open>uniquePaths\<close>: the loop keeps the paths seen so far.\<close>

fun unique_paths_from :: "string list \<Rightarrow> string list \<Rightarrow> string list" where
  "unique_paths_from unique [] = unique"
| "unique_paths_from unique (path # paths) =
     (if path \<in> set unique then unique_paths_from unique paths
      else unique_paths_from (unique @ [path]) paths)"

definition unique_paths :: "string list \<Rightarrow> string list" where
  "unique_paths paths = unique_paths_from [] paths"

definition finished_of_class :: "bool \<Rightarrow> 'r manager \<Rightarrow> 'r task list" where
  "finished_of_class sub m =
     filter (\<lambda>t. subtask t = sub \<and> is_terminal t \<and> completedAt t \<noteq> None) (map snd (tasks m))"

definition drop_oldest_finished_locked :: "bool \<Rightarrow> 'r manager \<Rightarrow> 'r manager" where
  "drop_oldest_finished_locked sub m =
     (let finished = finished_of_class sub m;
          n = int (length finished) + 1 - maxTasks m
      in if n \<le> 0 then m
         else let oldest_first = sort_key (\<lambda>t. the (completedAt t)) finished
              in m\<lparr>tasks := fold (\<lambda>t ts. AList.delete (taskID t) ts)
                               (take (nat n) oldest_first) (tasks m),
                   panicked := panicked m \<or> nat n > length finished\<rparr>)"

section \<open>Creating tasks\<close>

record new_task =
  nt_operation :: string
  nt_path :: string
  nt_held :: "string list"
  nt_subtask :: bool
  nt_cancellable :: bool
  nt_stoppable :: bool

text \<open>The first loop of \<^verbatim>\<open>createLocked\<close>: the running holder of the first key that has one.\<close>

fun find_running_holder :: "string list \<Rightarrow> 'r manager \<Rightarrow> ('r task \<times> string) option \<times> 'r manager" where
  "find_running_holder [] m = (None, m)"
| "find_running_holder (key # ks) m =
     (case running_holder_locked key m of
        (Some running, m') \<Rightarrow> (Some (running, key), m')
      | (None, m') \<Rightarrow> find_running_holder ks m')"

definition fresh_task :: "new_task \<Rightarrow> string \<Rightarrow> instant \<Rightarrow> 'r task" where
  "fresh_task spec uuid now =
     \<lparr>taskID = uuid, taskPath = nt_path spec, operation = nt_operation spec, cliCommand = '''',
      taskStatus = Queued, startedAt = now, completedAt = None, taskError = '''',
      taskResult = None, progressFn = None, bytesFn = None, filesFn = None,
      cancellable = nt_cancellable spec, settled = False, held = nt_held spec,
      subtask = nt_subtask spec, stoppable = nt_stoppable spec\<rparr>"

definition create_locked ::
  "new_task \<Rightarrow> string \<Rightarrow> instant \<Rightarrow> 'r manager \<Rightarrow> ('r task \<times> string \<times> bool) \<times> 'r manager" where
  "create_locked spec uuid now m =
     (case find_running_holder (nt_held spec) m of
        (Some (running, key), m') \<Rightarrow> ((running, key, False), m')
      | (None, m') \<Rightarrow>
          (let t = fresh_task spec uuid now;
               m1 = put_cell uuid new_cell (put_task t m');
               m2 = m1\<lparr>pathLocks := fold (\<lambda>key l. AList.update key uuid l) (nt_held spec) (pathLocks m1)\<rparr>
           in ((t, '''', True), drop_oldest_finished_locked (nt_subtask spec) m2)))"

definition cancellable_key :: "string \<Rightarrow> string \<Rightarrow> string" where
  "cancellable_key op path = op @ '':'' @ path"

text \<open>\<^verbatim>\<open>held[0]\<close> of an empty list is a Go panic; the variadic call names at least one path.\<close>

definition create_holding ::
  "string \<Rightarrow> string list \<Rightarrow> string \<Rightarrow> instant \<Rightarrow> 'r manager
   \<Rightarrow> (('r task \<times> string \<times> bool) option) \<times> 'r manager" where
  "create_holding op paths uuid now m =
     (case unique_paths paths of
        [] \<Rightarrow> (None, m\<lparr>panicked := True\<rparr>)
      | p # ps \<Rightarrow>
          apfst Some (create_locked
            \<lparr>nt_operation = op, nt_path = p, nt_held = p # ps, nt_subtask = False,
             nt_cancellable = False, nt_stoppable = False\<rparr> uuid now m))"

definition drop_key :: "('r task \<times> string \<times> bool) \<times> 'r manager \<Rightarrow> ('r task \<times> bool) \<times> 'r manager" where
  "drop_key r = (case r of ((t, _, isNew), m) \<Rightarrow> ((t, isNew), m))"

definition create ::
  "string \<Rightarrow> string \<Rightarrow> string \<Rightarrow> instant \<Rightarrow> 'r manager \<Rightarrow> (('r task \<times> bool) option) \<times> 'r manager" where
  "create path op uuid now m =
     (case create_holding op [path] uuid now m of
        (None, m') \<Rightarrow> (None, m')
      | (Some (t, _, isNew), m') \<Rightarrow> (Some (t, isNew), m'))"

definition create_subtask ::
  "string \<Rightarrow> string \<Rightarrow> string \<Rightarrow> instant \<Rightarrow> 'r manager \<Rightarrow> ('r task \<times> bool) \<times> 'r manager" where
  "create_subtask path op uuid now m =
     drop_key (create_locked
       \<lparr>nt_operation = op, nt_path = path, nt_held = [path], nt_subtask = True,
        nt_cancellable = False, nt_stoppable = False\<rparr> uuid now m)"

definition create_keyed ::
  "string \<Rightarrow> string \<Rightarrow> string \<Rightarrow> string \<Rightarrow> instant \<Rightarrow> 'r manager \<Rightarrow> ('r task \<times> bool) \<times> 'r manager" where
  "create_keyed op path key uuid now m =
     drop_key (create_locked
       \<lparr>nt_operation = op, nt_path = path, nt_held = [key], nt_subtask = False,
        nt_cancellable = False, nt_stoppable = False\<rparr> uuid now m)"

text \<open>
  The context a caller of \<^verbatim>\<open>CreateCancellable\<close> gets is the one of the returned task's cell, so
  the returned task stands for it too.
\<close>

definition create_cancellable ::
  "string \<Rightarrow> string \<Rightarrow> string \<Rightarrow> instant \<Rightarrow> 'r manager \<Rightarrow> ('r task \<times> bool) \<times> 'r manager" where
  "create_cancellable path op uuid now m =
     drop_key (create_locked
       \<lparr>nt_operation = op, nt_path = path, nt_held = [cancellable_key op path],
        nt_subtask = False, nt_cancellable = True, nt_stoppable = False\<rparr> uuid now m)"

definition create_stoppable ::
  "string \<Rightarrow> string \<Rightarrow> string \<Rightarrow> instant \<Rightarrow> 'r manager \<Rightarrow> ('r task \<times> bool) \<times> 'r manager" where
  "create_stoppable path op uuid now m =
     drop_key (create_locked
       \<lparr>nt_operation = op, nt_path = path, nt_held = [cancellable_key op path],
        nt_subtask = False, nt_cancellable = True, nt_stoppable = True\<rparr> uuid now m)"

section \<open>Stopping and ending tasks\<close>

definition stopped :: "string \<Rightarrow> instant \<Rightarrow> 'r manager \<Rightarrow> 'r manager" where
  "stopped i now m =
     (case map_of (tasks m) i of
        Some t \<Rightarrow> if taskStatus t = Cancelling then end_locked t Cancelled now m else m
      | None \<Rightarrow> m)"

definition settle :: "string \<Rightarrow> 'r manager \<Rightarrow> bool \<times> 'r manager" where
  "settle i m =
     (case map_of (tasks m) i of
        None \<Rightarrow> (False, m)
      | Some t \<Rightarrow>
          if taskStatus t = Cancelled \<or> taskStatus t = Cancelling then (False, m)
          else (True, put_task (t\<lparr>settled := True\<rparr>) m))"

datatype cancel_error = ErrTaskNotFound | ErrNotCancellable | ErrTaskEnded

text \<open>\<^verbatim>\<open>Cancel\<close>: \<open>None\<close> is Go's nil error.\<close>

definition cancel :: "string \<Rightarrow> instant \<Rightarrow> 'r manager \<Rightarrow> cancel_error option \<times> 'r manager" where
  "cancel i now m =
     (case map_of (tasks m) i of
        None \<Rightarrow> (Some ErrTaskNotFound, m)
      | Some t \<Rightarrow>
          if \<not> cancellable t then (Some ErrNotCancellable, m)
          else if taskStatus t = Cancelling then (None, m)
          else if is_terminal t \<or> settled t then (Some ErrTaskEnded, m)
          else
            (let m1 = cancel_ctx t m
             in if stoppable t then (None, put_task (t\<lparr>taskStatus := Cancelling\<rparr>) m1)
                else (None, end_locked t Cancelled now m1)))"

definition update_fields :: "status \<Rightarrow> string \<Rightarrow> 'r option \<Rightarrow> 'r task \<Rightarrow> 'r task" where
  "update_fields s errMsg result t =
     (let t1 = (if s \<noteq> NoStatus then t\<lparr>taskStatus := s\<rparr> else t);
          t2 = (if errMsg \<noteq> '''' then t1\<lparr>taskError := errMsg\<rparr> else t1)
      in if result \<noteq> None then t2\<lparr>taskResult := result\<rparr> else t2)"

definition update ::
  "string \<Rightarrow> status \<Rightarrow> string \<Rightarrow> 'r option \<Rightarrow> instant \<Rightarrow> 'r manager \<Rightarrow> bool \<times> 'r manager" where
  "update i s errMsg result now m =
     (case map_of (tasks m) i of
        None \<Rightarrow> (False, m)
      | Some t \<Rightarrow>
          if taskStatus t = Cancelling then
            (True, if is_end s then end_locked t Cancelled now m else m)
          else if is_terminal t then (True, m)
          else
            (let t1 = update_fields s errMsg result t
             in if is_terminal t1 then
                  (let m1 = close_end_locked t1 m;
                       t2 = t1\<lparr>completedAt := Some now\<rparr>;
                       m2 = release_paths_locked t2 (put_task t2 m1)
                   in (True, if cancellable t2 then cancel_ctx t2 m2 else m2))
                else (True, put_task t1 m)))"

definition mark_running :: "string \<Rightarrow> instant \<Rightarrow> 'r manager \<Rightarrow> bool \<times> 'r manager" where
  "mark_running i now m = update i Running '''' None now m"

definition complete :: "string \<Rightarrow> 'r option \<Rightarrow> instant \<Rightarrow> 'r manager \<Rightarrow> bool \<times> 'r manager" where
  "complete i result now m = update i Completed '''' result now m"

definition fail :: "string \<Rightarrow> string \<Rightarrow> instant \<Rightarrow> 'r manager \<Rightarrow> bool \<times> 'r manager" where
  "fail i errMsg now m = update i Failed errMsg None now m"

section \<open>Reading and reporting\<close>

text \<open>A watch names its task's cell; \<^verbatim>\<open>Done\<close> and \<^verbatim>\<open>Watch\<close> hand out the same channel.\<close>

definition done_of :: "string \<Rightarrow> 'r manager \<Rightarrow> string option" where
  "done_of i m = (case map_of (tasks m) i of None \<Rightarrow> None | Some t \<Rightarrow> Some (taskID t))"

definition watch :: "string \<Rightarrow> 'r manager \<Rightarrow> string option" where
  "watch i m = (case map_of (tasks m) i of None \<Rightarrow> None | Some t \<Rightarrow> Some (taskID t))"

definition watch_end :: "string \<Rightarrow> 'r manager \<Rightarrow> status \<times> string" where
  "watch_end w m = (endStatus (cell_of m w), endError (cell_of m w))"

definition holder :: "string \<Rightarrow> 'r manager \<Rightarrow> 'r task option \<times> 'r manager" where
  "holder path m = running_holder_locked path m"

definition cancellable_holder :: "string \<Rightarrow> string \<Rightarrow> 'r manager \<Rightarrow> 'r task option \<times> 'r manager" where
  "cancellable_holder path op m = holder (cancellable_key op path) m"

definition on_task :: "('r task \<Rightarrow> 'r task) \<Rightarrow> string \<Rightarrow> 'r manager \<Rightarrow> bool \<times> 'r manager" where
  "on_task f i m =
     (case map_of (tasks m) i of None \<Rightarrow> (False, m) | Some t \<Rightarrow> (True, put_task (f t) m))"

definition report_progress :: "string \<Rightarrow> progress_fn \<Rightarrow> 'r manager \<Rightarrow> bool \<times> 'r manager" where
  "report_progress i f m = on_task (\<lambda>t. t\<lparr>progressFn := Some f\<rparr>) i m"

definition set_cli_command :: "string \<Rightarrow> string \<Rightarrow> 'r manager \<Rightarrow> bool \<times> 'r manager" where
  "set_cli_command i command m = on_task (\<lambda>t. t\<lparr>cliCommand := command\<rparr>) i m"

definition report_files :: "string \<Rightarrow> count_fn \<Rightarrow> 'r manager \<Rightarrow> bool \<times> 'r manager" where
  "report_files i f m = on_task (\<lambda>t. t\<lparr>filesFn := Some f\<rparr>) i m"

definition report_bytes :: "string \<Rightarrow> count_fn \<Rightarrow> 'r manager \<Rightarrow> bool \<times> 'r manager" where
  "report_bytes i f m = on_task (\<lambda>t. t\<lparr>bytesFn := Some f\<rparr>) i m"

definition get_task :: "string \<Rightarrow> 'r manager \<Rightarrow> 'r task option" where
  "get_task i m = map_of (tasks m) i"

definition list_tasks :: "'r manager \<Rightarrow> 'r task list" where
  "list_tasks m = map snd (tasks m)"

definition active_path_lock_count :: "'r manager \<Rightarrow> nat" where
  "active_path_lock_count m = length (pathLocks m)"

definition table_size :: "'r manager \<Rightarrow> nat" where
  "table_size m = length (tasks m)"

section \<open>The sweeper's pass\<close>

text \<open>The body of the loop of \<^verbatim>\<open>sweep\<close>, over the entries the range visits.\<close>

definition sweep_entry :: "instant \<Rightarrow> string \<times> 'r task \<Rightarrow> 'r manager \<times> nat \<Rightarrow> 'r manager \<times> nat" where
  "sweep_entry now e acc =
     (case e of (i, t) \<Rightarrow> case acc of (m, removed) \<Rightarrow>
        if \<not> is_terminal t then (m, removed)
        else (case completedAt t of
                None \<Rightarrow> (m, removed)
              | Some ended \<Rightarrow>
                  if now - ended > ttl m
                  then (release_paths_locked t (m\<lparr>tasks := AList.delete i (tasks m)\<rparr>), Suc removed)
                  else (m, removed)))"

definition sweep :: "instant \<Rightarrow> 'r manager \<Rightarrow> nat \<times> 'r manager" where
  "sweep now m = prod.swap (fold (sweep_entry now) (tasks m) (m, 0))"

end
