(* ===== verification/TaskInvariant.thy ===== *)
theory TaskInvariant
  imports Tasks
begin

text \<open>
  The manager's invariant, that every operation keeps it, and what follows from it: two
  unfinished tasks never share a key, a task ends once, no operation panics.
\<close>

section \<open>The invariant\<close>

text \<open>
  A task and its cell agree: the channel is closed exactly when the task has ended, the end
  then says how, and the context of a task is canceled only by a cancel or an end.
\<close>

definition cell_ok :: "'r task \<Rightarrow> cell \<Rightarrow> bool" where
  "cell_ok t c \<longleftrightarrow>
     closed c = is_terminal t \<and>
     (is_terminal t \<longrightarrow> endStatus c = taskStatus t \<and> endError c = taskError t) \<and>
     (ctxCanceled c \<longrightarrow> is_terminal t \<or> taskStatus t = Cancelling)"

definition task_ok :: "string \<Rightarrow> 'r task \<Rightarrow> cell \<Rightarrow> bool" where
  "task_ok i t c \<longleftrightarrow>
     taskID t = i \<and> taskStatus t \<noteq> NoStatus \<and>
     (is_terminal t \<longleftrightarrow> completedAt t \<noteq> None) \<and>
     cell_ok t c"

text \<open>A key is locked exactly when an unfinished task of the table holds it.\<close>

definition locks_ok :: "'r manager \<Rightarrow> bool" where
  "locks_ok m \<longleftrightarrow>
     (\<forall>k i. map_of (pathLocks m) k = Some i \<longleftrightarrow>
        (\<exists>t. map_of (tasks m) i = Some t \<and> \<not> is_terminal t \<and> k \<in> set (held t)))"

definition manager_inv :: "'r manager \<Rightarrow> bool" where
  "manager_inv m \<longleftrightarrow>
     distinct (keys (tasks m)) \<and> distinct (keys (pathLocks m)) \<and>
     (\<forall>i t. map_of (tasks m) i = Some t \<longrightarrow> (\<exists>c. cells m i = Some c \<and> task_ok i t c)) \<and>
     locks_ok m \<and> 1 \<le> maxTasks m \<and> \<not> panicked m"

lemma manager_inv_task:
  assumes "manager_inv m" and "map_of (tasks m) i = Some t"
  obtains c where "cells m i = Some c" and "cell_of m i = c" and "task_ok i t c" and "taskID t = i"
proof -
  from assms obtain c where "cells m i = Some c" "task_ok i t c"
    unfolding manager_inv_def by blast
  then show ?thesis by (intro that) (auto simp: cell_of_def task_ok_def)
qed

lemma manager_inv_lock:
  assumes "manager_inv m"
  shows "map_of (pathLocks m) k = Some i \<longleftrightarrow>
    (\<exists>t. map_of (tasks m) i = Some t \<and> \<not> is_terminal t \<and> k \<in> set (held t))"
  using assms unfolding manager_inv_def locks_ok_def by blast

lemma new_manager_inv: "manager_inv (new_manager env_ttl cfg_ttl cfg_sweep cfg_max)"
  by (auto simp: manager_inv_def locks_ok_def new_manager_def default_max_tasks_def)

section \<open>The primitive transitions\<close>

text \<open>Releasing a task's keys removes exactly the locks that name it.\<close>

lemma map_of_fold_release:
  "map_of (fold (release_lock t) ks l) k =
     (if k \<in> set ks \<and> map_of l k = Some (taskID t) then None else map_of l k)"
proof (induction ks arbitrary: l)
  case Nil
  then show ?case by simp
next
  case (Cons a ks)
  then show ?case
    by (auto simp: release_lock_def gomap_simps split: option.splits)
qed

lemma distinct_keys_fold_release:
  "distinct (keys l) \<Longrightarrow> distinct (keys (fold (release_lock t) ks l))"
  by (induction ks arbitrary: l) (auto simp: release_lock_def gomap_simps split: option.splits)

text \<open>
  One task is rewritten in place, with its cell; its locks go when it has ended. Every update of
  a task that is in the table is an instance.
\<close>

lemma manager_inv_modify:
  assumes inv: "manager_inv m"
    and old: "map_of (tasks m) i = Some t"
    and tasks': "tasks m' = AList.update i t' (tasks m)"
    and cells': "cells m' = (cells m)(i \<mapsto> c')"
    and ok: "task_ok i t' c'"
    and same: "held t' = held t" and mono: "is_terminal t \<Longrightarrow> is_terminal t'"
    and locks': "map_of (pathLocks m') = (\<lambda>k. if is_terminal t' \<and> map_of (pathLocks m) k = Some i
        then None else map_of (pathLocks m) k)"
    and distinct': "distinct (keys (pathLocks m'))"
    and max': "maxTasks m' = maxTasks m" and panic': "\<not> panicked m'"
  shows "manager_inv m'"
proof -
  have "distinct (keys (tasks m'))"
    using inv by (simp add: tasks' distinct_keys_update manager_inv_def)
  moreover have "\<exists>c. cells m' j = Some c \<and> task_ok j u c"
    if "map_of (tasks m') j = Some u" for j u
    using that ok inv by (cases "j = i") (auto simp: tasks' cells' map_of_update manager_inv_def)
  moreover have "locks_ok m'"
    unfolding locks_ok_def
  proof (intro allI)
    fix k j
    show "map_of (pathLocks m') k = Some j \<longleftrightarrow>
      (\<exists>u. map_of (tasks m') j = Some u \<and> \<not> is_terminal u \<and> k \<in> set (held u))"
      using manager_inv_lock [OF inv, of k j] old mono same
      by (cases "j = i") (auto simp: locks' tasks' map_of_update)
  qed
  ultimately show ?thesis
    using inv distinct' max' panic' unfolding manager_inv_def by auto
qed

text \<open>A write of a task's fields that keeps it live (or ended) and keeps its cell.\<close>

lemma manager_inv_put_task:
  assumes inv: "manager_inv m" and old: "map_of (tasks m) i = Some t"
    and "taskID t' = i" and "task_ok i t' (cell_of m i)"
    and "held t' = held t" and "is_terminal t' = is_terminal t"
  shows "manager_inv (put_task t' m)"
proof -
  obtain c where c: "cells m i = Some c" "cell_of m i = c"
    using manager_inv_task [OF inv old] by metis
  have "map_of (pathLocks m) k \<noteq> Some i" if "is_terminal t'" for k
    using that manager_inv_lock [OF inv, of k i] old assms(6) by auto
  then have "map_of (pathLocks (put_task t' m)) =
      (\<lambda>k. if is_terminal t' \<and> map_of (pathLocks m) k = Some i then None else map_of (pathLocks m) k)"
    by (auto simp: put_task_def fun_eq_iff)
  then show ?thesis
    using assms c inv
    by (intro manager_inv_modify [OF inv old, where t' = t' and c' = c])
       (auto simp: put_task_def manager_inv_def fun_upd_idem)
qed

text \<open>The end of a task: its cell closed, its end time set, its locks released.\<close>

definition ended_manager :: "'r task \<Rightarrow> cell \<Rightarrow> 'r manager \<Rightarrow> 'r manager" where
  "ended_manager t c m =
     m\<lparr>tasks := AList.update (taskID t) t (tasks m),
       pathLocks := fold (release_lock t) (held t) (pathLocks m),
       cells := (cells m)(taskID t \<mapsto> c)\<rparr>"

lemma manager_inv_ended:
  assumes inv: "manager_inv m" and old: "map_of (tasks m) i = Some t"
    and id': "taskID t' = i" and ok: "task_ok i t' c'" and held': "held t' = held t"
    and term': "is_terminal t'" and live: "\<not> is_terminal t"
  shows "manager_inv (ended_manager t' c' m)"
proof (rule manager_inv_modify [OF inv old _ _ ok held'])
  have locked: "map_of (pathLocks m) k = Some i \<Longrightarrow> k \<in> set (held t')" for k
    using manager_inv_lock [OF inv, of k i] old held' by auto
  show "map_of (pathLocks (ended_manager t' c' m)) =
      (\<lambda>k. if is_terminal t' \<and> map_of (pathLocks m) k = Some i then None else map_of (pathLocks m) k)"
    using term' locked by (auto simp: ended_manager_def map_of_fold_release id' fun_eq_iff)
qed (use assms in \<open>auto simp: ended_manager_def distinct_keys_fold_release manager_inv_def\<close>)

text \<open>Tasks that have ended leave the table.\<close>

lemma manager_inv_remove:
  assumes inv: "manager_inv m"
    and keys': "distinct (keys (tasks m'))"
    and tasks': "\<And>i. map_of (tasks m') i = (if i \<in> R then None else map_of (tasks m) i)"
    and ended: "\<And>i t. i \<in> R \<Longrightarrow> map_of (tasks m) i = Some t \<Longrightarrow> is_terminal t"
    and rest: "pathLocks m' = pathLocks m" "cells m' = cells m" "maxTasks m' = maxTasks m"
      "\<not> panicked m'"
  shows "manager_inv m'"
proof -
  have "locks_ok m'"
    unfolding locks_ok_def
  proof (intro allI)
    fix k i
    show "map_of (pathLocks m') k = Some i \<longleftrightarrow>
      (\<exists>t. map_of (tasks m') i = Some t \<and> \<not> is_terminal t \<and> k \<in> set (held t))"
      using manager_inv_lock [OF inv, of k i] ended [of i] by (auto simp: rest tasks')
  qed
  then show ?thesis
    using assms unfolding manager_inv_def by auto
qed

section \<open>The operations keep the invariant\<close>

text \<open>In a state of the invariant no lock is stale: looking a holder up changes nothing.\<close>

lemma running_holder_inv:
  assumes "manager_inv m"
  shows "running_holder_locked k m =
    (case map_of (pathLocks m) k of None \<Rightarrow> None | Some i \<Rightarrow> map_of (tasks m) i, m)"
proof (cases "map_of (pathLocks m) k")
  case None
  then show ?thesis by (simp add: running_holder_locked_def)
next
  case (Some i)
  with manager_inv_lock [OF assms, of k i] obtain t
    where "map_of (tasks m) i = Some t" "\<not> is_terminal t" by auto
  with Some show ?thesis by (simp add: running_holder_locked_def)
qed

lemma running_holder_None_iff:
  assumes "manager_inv m"
  shows "fst (running_holder_locked k m) = None \<longleftrightarrow> map_of (pathLocks m) k = None"
proof (cases "map_of (pathLocks m) k")
  case None
  then show ?thesis by (simp add: running_holder_locked_def)
next
  case (Some i)
  with manager_inv_lock [OF assms, of k i] obtain t
    where "map_of (tasks m) i = Some t" "\<not> is_terminal t" by auto
  with Some show ?thesis by (simp add: running_holder_locked_def)
qed

lemma running_holder_Some:
  assumes "manager_inv m" and "fst (running_holder_locked k m) = Some t"
  shows "\<not> is_terminal t" and "k \<in> set (held t)" and "map_of (tasks m) (taskID t) = Some t"
    and "map_of (pathLocks m) k = Some (taskID t)"
proof -
  from assms obtain i where i: "map_of (pathLocks m) k = Some i" "map_of (tasks m) i = Some t"
    by (auto simp: running_holder_inv split: option.splits)
  moreover from assms(1) i(2) have "taskID t = i"
    by (rule manager_inv_task)
  ultimately show "\<not> is_terminal t" "k \<in> set (held t)" "map_of (tasks m) (taskID t) = Some t"
    "map_of (pathLocks m) k = Some (taskID t)"
    using manager_inv_lock [OF assms(1), of k i] by auto
qed

lemma find_running_holder_inv:
  assumes "manager_inv m"
  shows "find_running_holder ks m =
    (map_option (\<lambda>k. (the (fst (running_holder_locked k m)), k))
       (find (\<lambda>k. map_of (pathLocks m) k \<noteq> None) ks), m)"
proof (induction ks)
  case Nil
  then show ?case by simp
next
  case (Cons k ks)
  obtain r where r: "running_holder_locked k m = (r, m)"
    using running_holder_inv [OF assms] by metis
  with running_holder_None_iff [OF assms, of k] Cons show ?case
    by (cases r) auto
qed

lemma end_locked_eq:
  assumes "\<not> closed (cell_of m (taskID t))"
  shows "end_locked t s now m =
    ended_manager (t\<lparr>taskStatus := s, completedAt := Some now\<rparr>)
      ((cell_of m (taskID t))\<lparr>endStatus := s, endError := taskError t, closed := True\<rparr>) m"
  using assms
  by (simp add: end_locked_def ended_manager_def close_end_locked_def release_paths_locked_def
      put_task_def put_cell_def cell_of_def Let_def)

lemma ended_manager_put_cell [simp]:
  "ended_manager t c (put_cell (taskID t) c' m) = ended_manager t c m"
  by (simp add: ended_manager_def put_cell_def)

lemma cell_of_put_cell [simp]: "cell_of (put_cell i c m) i = c"
  by (simp add: cell_of_def put_cell_def)

lemma stopped_inv: "manager_inv m \<Longrightarrow> manager_inv (stopped i now m)"
proof (cases "map_of (tasks m) i")
  case None
  then show "manager_inv m \<Longrightarrow> ?thesis" by (simp add: stopped_def)
next
  case (Some t)
  assume inv: "manager_inv m"
  obtain c where c: "cell_of m i = c" "task_ok i t c" "taskID t = i"
    using manager_inv_task [OF inv Some] by metis
  show ?thesis
  proof (cases "taskStatus t = Cancelling")
    case True
    then have live: "\<not> is_terminal t" by (simp add: is_terminal_def is_end_def)
    then have "\<not> closed (cell_of m (taskID t))" using c by (simp add: task_ok_def cell_ok_def)
    then show ?thesis
      using Some True live c
      by (auto simp: stopped_def end_locked_eq task_ok_def cell_ok_def is_terminal_def is_end_def
          intro!: manager_inv_ended [OF inv Some])
  qed (simp add: stopped_def Some inv)
qed

lemma settle_inv: "manager_inv m \<Longrightarrow> manager_inv (snd (settle i m))"
proof (cases "map_of (tasks m) i")
  case None
  then show "manager_inv m \<Longrightarrow> ?thesis" by (simp add: settle_def)
next
  case (Some t)
  assume inv: "manager_inv m"
  obtain c where "cell_of m i = c" "task_ok i t c" "taskID t = i"
    using manager_inv_task [OF inv Some] by metis
  then show ?thesis
    using inv Some
    by (auto simp: settle_def task_ok_def cell_ok_def is_terminal_def
        intro!: manager_inv_put_task [OF inv Some])
qed

lemma on_task_inv:
  assumes inv: "manager_inv m"
    and f: "\<And>t. taskID (f t) = taskID t \<and> taskStatus (f t) = taskStatus t \<and>
      completedAt (f t) = completedAt t \<and> taskError (f t) = taskError t \<and>
      cancellable (f t) = cancellable t \<and> settled (f t) = settled t \<and>
      held (f t) = held t \<and> stoppable (f t) = stoppable t"
  shows "manager_inv (snd (on_task f i m))"
proof (cases "map_of (tasks m) i")
  case None
  then show ?thesis by (simp add: on_task_def inv)
next
  case (Some t)
  obtain c where "cell_of m i = c" "task_ok i t c" "taskID t = i"
    using manager_inv_task [OF inv Some] by metis
  then show ?thesis
    using inv Some f [of t]
    by (auto simp: on_task_def task_ok_def cell_ok_def is_terminal_def
        intro!: manager_inv_put_task [OF inv Some])
qed

lemma cancel_inv: "manager_inv m \<Longrightarrow> manager_inv (snd (cancel i now m))"
proof (cases "map_of (tasks m) i")
  case None
  then show "manager_inv m \<Longrightarrow> ?thesis" by (simp add: cancel_def)
next
  case (Some t)
  assume inv: "manager_inv m"
  obtain c where c: "cells m i = Some c" "cell_of m i = c" "task_ok i t c" "taskID t = i"
    using manager_inv_task [OF inv Some] by metis
  show ?thesis
  proof (cases "cancellable t \<and> taskStatus t \<noteq> Cancelling \<and> \<not> is_terminal t \<and> \<not> settled t")
    case False
    then show ?thesis using inv Some by (auto simp: cancel_def)
  next
    case True
    show ?thesis
    proof (cases "stoppable t")
      case True
      have "manager_inv (put_task (t\<lparr>taskStatus := Cancelling\<rparr>) (cancel_ctx t m))"
        using c inv True \<open>cancellable t \<and> _\<close>
        by (intro manager_inv_modify [OF inv Some, where t' = "t\<lparr>taskStatus := Cancelling\<rparr>"
              and c' = "c\<lparr>ctxCanceled := True\<rparr>"])
           (auto simp: put_task_def cancel_ctx_def put_cell_def task_ok_def cell_ok_def
             is_terminal_def is_end_def manager_inv_def)
      then show ?thesis
        using Some True \<open>cancellable t \<and> _\<close> by (simp add: cancel_def)
    next
      case False
      have "\<not> closed (cell_of (cancel_ctx t m) (taskID t))"
        using c \<open>cancellable t \<and> _\<close> by (simp add: cancel_ctx_def task_ok_def cell_ok_def)
      then have "end_locked t Cancelled now (cancel_ctx t m) =
          ended_manager (t\<lparr>taskStatus := Cancelled, completedAt := Some now\<rparr>)
            (c\<lparr>ctxCanceled := True, endStatus := Cancelled, endError := taskError t, closed := True\<rparr>) m"
        using c ended_manager_put_cell [of "t\<lparr>taskStatus := Cancelled, completedAt := Some now\<rparr>"]
        by (simp add: end_locked_eq cancel_ctx_def)
      then have "manager_inv (end_locked t Cancelled now (cancel_ctx t m))"
        using c \<open>cancellable t \<and> _\<close>
        by (auto simp: task_ok_def cell_ok_def is_terminal_def is_end_def
            intro!: manager_inv_ended [OF inv Some])
      then show ?thesis
        using Some False \<open>cancellable t \<and> _\<close> by (simp add: cancel_def)
    qed
  qed
qed

lemma update_fields_simps [simp]:
  "taskID (update_fields s e r t) = taskID t"
  "taskStatus (update_fields s e r t) = (if s \<noteq> NoStatus then s else taskStatus t)"
  "taskError (update_fields s e r t) = (if e \<noteq> '''' then e else taskError t)"
  "completedAt (update_fields s e r t) = completedAt t"
  "cancellable (update_fields s e r t) = cancellable t"
  "settled (update_fields s e r t) = settled t"
  "held (update_fields s e r t) = held t"
  "subtask (update_fields s e r t) = subtask t"
  "stoppable (update_fields s e r t) = stoppable t"
  by (simp_all add: update_fields_def Let_def)

definition updated_end :: "'r task \<Rightarrow> instant \<Rightarrow> 'r manager \<Rightarrow> 'r manager" where
  "updated_end t1 now m =
     (let c = cell_of m (taskID t1)
      in ended_manager (t1\<lparr>completedAt := Some now\<rparr>)
           (c\<lparr>endStatus := taskStatus t1, endError := taskError t1, closed := True,
              ctxCanceled := cancellable t1 \<or> ctxCanceled c\<rparr>) m)"

lemma release_lock_completedAt [simp]: "release_lock (t\<lparr>completedAt := x\<rparr>) = release_lock t"
  by (simp add: release_lock_def fun_eq_iff split: option.splits)

lemma update_live:
  assumes "map_of (tasks m) i = Some t" and "taskStatus t \<noteq> Cancelling" and "\<not> is_terminal t"
    and "taskID t = i" and "\<not> closed (cell_of m i)"
  shows "update i s e r now m =
    (let t1 = update_fields s e r t
     in (True, if is_terminal t1 then updated_end t1 now m else put_task t1 m))"
  using assms
  by (auto simp: update_def Let_def updated_end_def ended_manager_def close_end_locked_def
      put_task_def put_cell_def cell_of_def release_paths_locked_def cancel_ctx_def)

lemma update_inv:
  assumes inv: "manager_inv m"
  shows "manager_inv (snd (update i s e r now m))"
proof (cases "map_of (tasks m) i")
  case None
  then show ?thesis using inv by (simp add: update_def)
next
  case (Some t)
  obtain c where c: "cells m i = Some c" "cell_of m i = c" "task_ok i t c" "taskID t = i"
    using manager_inv_task [OF inv Some] by metis
  consider "taskStatus t = Cancelling" | "is_terminal t"
    | "taskStatus t \<noteq> Cancelling" "\<not> is_terminal t" by blast
  then show ?thesis
  proof cases
    case 1
    then have "manager_inv (end_locked t Cancelled now m)"
      using stopped_inv [OF inv, of i now] Some by (simp add: stopped_def)
    then show ?thesis using 1 Some inv by (simp add: update_def)
  next
    case 2
    then show ?thesis using Some inv by (auto simp: update_def is_terminal_def is_end_def)
  next
    case 3
    have open_cell: "\<not> closed (cell_of m i)" using c 3 by (simp add: task_ok_def cell_ok_def)
    let ?t1 = "update_fields s e r t"
    show ?thesis
    proof (cases "is_terminal ?t1")
      case True
      then have "manager_inv (updated_end ?t1 now m)"
        using c 3 unfolding updated_end_def Let_def
        by (auto simp: task_ok_def cell_ok_def is_terminal_def
            intro!: manager_inv_ended [OF inv Some])
      then show ?thesis
        using update_live [OF Some 3 c(4) open_cell] True by (simp add: Let_def)
    next
      case False
      then have "manager_inv (put_task ?t1 m)"
        using c 3
        by (auto simp: task_ok_def cell_ok_def is_terminal_def
            intro!: manager_inv_put_task [OF inv Some])
      then show ?thesis
        using update_live [OF Some 3 c(4) open_cell] False by (simp add: Let_def)
    qed
  qed
qed

subsection \<open>Creating a task\<close>

lemma finished_of_class_task:
  assumes "manager_inv m" and "t \<in> set (finished_of_class sub m)"
  shows "map_of (tasks m) (taskID t) = Some t" and "is_terminal t" and "subtask t = sub"
proof -
  from assms(2) obtain i where "(i, t) \<in> set (tasks m)"
    by (auto simp: finished_of_class_def)
  with assms(1) have "map_of (tasks m) i = Some t"
    by (simp add: manager_inv_def map_of_Some_iff)
  moreover from assms(1) this have "taskID t = i" by (rule manager_inv_task)
  ultimately show "map_of (tasks m) (taskID t) = Some t" by simp
  from assms(2) show "is_terminal t" "subtask t = sub" by (auto simp: finished_of_class_def)
qed

text \<open>The tasks the cap drops: the oldest finished ones past the cap.\<close>

definition dropped_tasks :: "bool \<Rightarrow> 'r manager \<Rightarrow> 'r task list" where
  "dropped_tasks sub m =
     (let finished = finished_of_class sub m
      in take (nat (int (length finished) + 1 - maxTasks m))
           (sort_key (\<lambda>t. the (completedAt t)) finished))"

lemma set_dropped_tasks: "set (dropped_tasks sub m) \<subseteq> set (finished_of_class sub m)"
  by (auto simp: dropped_tasks_def Let_def dest: in_set_takeD)

lemma drop_oldest_eq:
  assumes "1 \<le> maxTasks m"
  shows "drop_oldest_finished_locked sub m =
    m\<lparr>tasks := fold (\<lambda>t ts. AList.delete (taskID t) ts) (dropped_tasks sub m) (tasks m)\<rparr>"
proof -
  have "\<not> length (finished_of_class sub m) <
      nat (int (length (finished_of_class sub m)) + 1 - maxTasks m)"
    using assms by linarith
  then show ?thesis
    by (cases m) (simp add: drop_oldest_finished_locked_def dropped_tasks_def Let_def)
qed

lemma drop_oldest_tasks:
  assumes "1 \<le> maxTasks m"
  shows "map_of (tasks (drop_oldest_finished_locked sub m)) i =
    (if i \<in> taskID ` set (dropped_tasks sub m) then None else map_of (tasks m) i)"
  by (simp add: drop_oldest_eq [OF assms] map_of_fold_delete)

lemma drop_oldest_inv:
  assumes inv: "manager_inv m"
  shows "manager_inv (drop_oldest_finished_locked sub m)"
proof (rule manager_inv_remove [OF inv, where R = "taskID ` set (dropped_tasks sub m)"])
  from inv have max: "1 \<le> maxTasks m" by (simp add: manager_inv_def)
  show "map_of (tasks (drop_oldest_finished_locked sub m)) i =
    (if i \<in> taskID ` set (dropped_tasks sub m) then None else map_of (tasks m) i)" for i
    by (rule drop_oldest_tasks [OF max])
  show "distinct (keys (tasks (drop_oldest_finished_locked sub m)))"
    using inv by (simp add: drop_oldest_eq [OF max] distinct_keys_fold_delete manager_inv_def)
  fix i t
  assume "i \<in> taskID ` set (dropped_tasks sub m)" "map_of (tasks m) i = Some t"
  then obtain u where "u \<in> set (finished_of_class sub m)" "taskID u = i"
    using set_dropped_tasks by force
  with finished_of_class_task [OF inv this(1)] \<open>map_of (tasks m) i = Some t\<close>
  show "is_terminal t" by simp
qed (use inv in \<open>auto simp: drop_oldest_eq manager_inv_def\<close>)

definition insert_task :: "new_task \<Rightarrow> string \<Rightarrow> instant \<Rightarrow> 'r manager \<Rightarrow> 'r manager" where
  "insert_task spec uuid now m =
     (let m1 = put_cell uuid new_cell (put_task (fresh_task spec uuid now) m)
      in m1\<lparr>pathLocks := fold (\<lambda>key l. AList.update key uuid l) (nt_held spec) (pathLocks m1)\<rparr>)"

lemma fresh_task_simps [simp]:
  "taskID (fresh_task spec uuid now) = uuid" "held (fresh_task spec uuid now) = nt_held spec"
  "taskStatus (fresh_task spec uuid now) = Queued" "\<not> is_terminal (fresh_task spec uuid now)"
  "subtask (fresh_task spec uuid now) = nt_subtask spec"
  "completedAt (fresh_task spec uuid now) = None"
  by (simp_all add: fresh_task_def is_terminal_def is_end_def)

lemma insert_task_sel:
  "map_of (tasks (insert_task spec uuid now m)) =
     (map_of (tasks m))(uuid \<mapsto> fresh_task spec uuid now)"
  "map_of (pathLocks (insert_task spec uuid now m)) k =
     (if k \<in> set (nt_held spec) then Some uuid else map_of (pathLocks m) k)"
  "cells (insert_task spec uuid now m) = (cells m)(uuid \<mapsto> new_cell)"
  "maxTasks (insert_task spec uuid now m) = maxTasks m"
  "ttl (insert_task spec uuid now m) = ttl m"
  "panicked (insert_task spec uuid now m) = panicked m"
  by (simp_all add: insert_task_def Let_def put_cell_def put_task_def gomap_simps map_of_fold_update)

lemma insert_task_inv:
  assumes inv: "manager_inv m" and new: "cells m uuid = None"
    and free: "\<And>k. k \<in> set (nt_held spec) \<Longrightarrow> map_of (pathLocks m) k = None"
  shows "manager_inv (insert_task spec uuid now m)"
proof -
  have absent: "map_of (tasks m) uuid = None"
    using inv new unfolding manager_inv_def by (metis option.exhaust option.simps(3))
  have "task_ok uuid (fresh_task spec uuid now) new_cell"
    by (simp add: task_ok_def cell_ok_def new_cell_def fresh_task_def is_terminal_def is_end_def)
  then have "\<exists>c. cells (insert_task spec uuid now m) j = Some c \<and> task_ok j u c"
    if "map_of (tasks (insert_task spec uuid now m)) j = Some u" for j u
    using that inv by (auto simp: insert_task_sel manager_inv_def split: if_splits)
  moreover have "locks_ok (insert_task spec uuid now m)"
    unfolding locks_ok_def
  proof (intro allI)
    fix k j
    show "map_of (pathLocks (insert_task spec uuid now m)) k = Some j \<longleftrightarrow>
      (\<exists>t. map_of (tasks (insert_task spec uuid now m)) j = Some t \<and> \<not> is_terminal t \<and> k \<in> set (held t))"
      using manager_inv_lock [OF inv, of k j] free [of k] absent
      by (auto simp: insert_task_sel)
  qed
  moreover have "distinct (keys (tasks (insert_task spec uuid now m)))"
    "distinct (keys (pathLocks (insert_task spec uuid now m)))"
    using inv by (simp_all add: insert_task_def Let_def put_cell_def put_task_def manager_inv_def
        distinct_keys_update distinct_keys_fold_update)
  ultimately show ?thesis
    using inv unfolding manager_inv_def by (simp add: insert_task_sel)
qed

text \<open>
  What creating does in a state of the invariant: join the running holder of the first key that
  has one and change nothing, or insert the new task and apply the cap.
\<close>

lemma create_locked_eq:
  assumes inv: "manager_inv m"
  shows "create_locked spec uuid now m =
    (case find (\<lambda>k. map_of (pathLocks m) k \<noteq> None) (nt_held spec) of
       Some k \<Rightarrow> ((the (fst (running_holder_locked k m)), k, False), m)
     | None \<Rightarrow> ((fresh_task spec uuid now, '''', True),
                drop_oldest_finished_locked (nt_subtask spec) (insert_task spec uuid now m)))"
  by (simp add: create_locked_def find_running_holder_inv [OF inv] insert_task_def Let_def
      split: option.splits)

lemma find_None_all: "find P xs = None \<longleftrightarrow> (\<forall>x \<in> set xs. \<not> P x)"
  by (induction xs) auto

lemma create_locked_inv:
  assumes "manager_inv m" and "cells m uuid = None"
  shows "manager_inv (snd (create_locked spec uuid now m))"
  using assms
  by (auto simp: create_locked_eq find_None_all split: option.splits
      intro!: drop_oldest_inv insert_task_inv)

subsection \<open>The sweep\<close>

definition expired :: "instant \<Rightarrow> 'r manager \<Rightarrow> 'r task \<Rightarrow> bool" where
  "expired now m t \<longleftrightarrow>
     is_terminal t \<and> (\<exists>ended. completedAt t = Some ended \<and> now - ended > ttl m)"

lemma release_paths_noop:
  assumes "\<And>k. map_of (pathLocks m) k \<noteq> Some (taskID t)"
  shows "release_paths_locked t m = m"
proof -
  have "fold (release_lock t) ks (pathLocks m) = pathLocks m" for ks
    using assms by (induction ks) (auto simp: release_lock_def split: option.splits)
  then show ?thesis by (simp add: release_paths_locked_def)
qed

lemma sweep_fold:
  assumes "\<And>i t k. (i, t) \<in> set es \<Longrightarrow> is_terminal t \<Longrightarrow> map_of (pathLocks m) k \<noteq> Some (taskID t)"
  shows "fold (sweep_entry now) es (m, n) =
    (m\<lparr>tasks := fold (\<lambda>e ts. AList.delete (fst e) ts) (filter (\<lambda>e. expired now m (snd e)) es) (tasks m)\<rparr>,
     n + length (filter (\<lambda>e. expired now m (snd e)) es))"
  using assms
proof (induction es arbitrary: m n)
  case Nil
  then show ?case by simp
next
  case (Cons e es)
  obtain i t where e: "e = (i, t)" by force
  show ?case
  proof (cases "expired now m t")
    case True
    let ?m = "m\<lparr>tasks := AList.delete i (tasks m)\<rparr>"
    have "release_paths_locked t ?m = ?m"
      using Cons.prems [of i t] True e by (intro release_paths_noop) (auto simp: expired_def)
    then have "sweep_entry now e (m, n) = (?m, Suc n)"
      using True by (auto simp: sweep_entry_def e expired_def)
    moreover have "fold (sweep_entry now) es (?m, Suc n) =
        (?m\<lparr>tasks := fold (\<lambda>e ts. AList.delete (fst e) ts) (filter (\<lambda>e. expired now ?m (snd e)) es) (tasks ?m)\<rparr>,
         Suc n + length (filter (\<lambda>e. expired now ?m (snd e)) es))"
      using Cons.prems by (intro Cons.IH) auto
    moreover have "expired now ?m = expired now m" by (simp add: expired_def fun_eq_iff)
    ultimately show ?thesis using True by (simp add: e)
  next
    case False
    then have "sweep_entry now e (m, n) = (m, n)"
      by (auto simp: sweep_entry_def e expired_def split: option.splits)
    moreover have "fold (sweep_entry now) es (m, n) =
        (m\<lparr>tasks := fold (\<lambda>e ts. AList.delete (fst e) ts) (filter (\<lambda>e. expired now m (snd e)) es) (tasks m)\<rparr>,
         n + length (filter (\<lambda>e. expired now m (snd e)) es))"
      using Cons.prems by (intro Cons.IH) auto
    ultimately show ?thesis using False by (simp add: e)
  qed
qed

lemma sweep_eq:
  assumes inv: "manager_inv m"
  shows "sweep now m =
    (length (filter (\<lambda>e. expired now m (snd e)) (tasks m)),
     m\<lparr>tasks := fold (\<lambda>e ts. AList.delete (fst e) ts) (filter (\<lambda>e. expired now m (snd e)) (tasks m)) (tasks m)\<rparr>)"
proof -
  have "map_of (pathLocks m) k \<noteq> Some (taskID t)" if "(i, t) \<in> set (tasks m)" "is_terminal t" for i t k
  proof -
    from that inv have t: "map_of (tasks m) i = Some t"
      by (simp add: manager_inv_def map_of_Some_iff)
    moreover from inv t have "taskID t = i" by (rule manager_inv_task)
    ultimately show ?thesis using manager_inv_lock [OF inv, of k i] that(2) by auto
  qed
  then show ?thesis unfolding sweep_def by (subst sweep_fold) auto
qed

lemma sweep_tasks:
  assumes inv: "manager_inv m"
  shows "map_of (tasks (snd (sweep now m))) i =
    (case map_of (tasks m) i of Some t \<Rightarrow> if expired now m t then None else Some t | None \<Rightarrow> None)"
proof -
  have d: "distinct (keys (tasks m))" using inv by (simp add: manager_inv_def)
  show ?thesis
  proof (cases "map_of (tasks m) i")
    case None
    then show ?thesis by (simp add: sweep_eq [OF inv] map_of_fold_delete)
  next
    case (Some t)
    then have "i \<in> fst ` set (filter (\<lambda>e. expired now m (snd e)) (tasks m)) \<longleftrightarrow> expired now m t"
      using d by (force simp: map_of_Some_iff dest: eq_key_imp_eq_value)
    with Some show ?thesis by (simp add: sweep_eq [OF inv] map_of_fold_delete)
  qed
qed

lemma sweep_inv:
  assumes inv: "manager_inv m"
  shows "manager_inv (snd (sweep now m))"
proof (rule manager_inv_remove [OF inv, where R = "{i. \<exists>t. map_of (tasks m) i = Some t \<and> expired now m t}"])
  show "map_of (tasks (snd (sweep now m))) i =
    (if i \<in> {i. \<exists>t. map_of (tasks m) i = Some t \<and> expired now m t} then None else map_of (tasks m) i)" for i
    by (auto simp: sweep_tasks [OF inv] split: option.splits)
qed (use inv in \<open>auto simp: sweep_eq distinct_keys_fold_delete manager_inv_def expired_def\<close>)

end
