(* ===== verification/TaskSteps.thy ===== *)
theory TaskSteps
  imports TaskInvariant
begin

text \<open>
  The manager as a state machine: one step per call of a public method, in any order (each runs
  under the mutex, so any interleaving of concurrent callers is such a sequence), and what holds
  in every state the steps can reach.
\<close>

section \<open>The steps\<close>

text \<open>
  A creating call gets a UUID no task had before. The names of the rules are the methods'. The
  last public method, \<^verbatim>\<open>Update\<close>, takes any status: it is a rule of its own below, so that
  \<open>method_step\<close> are the calls that the repository's callers make.
\<close>

inductive method_step :: "'r manager \<Rightarrow> 'r manager \<Rightarrow> bool" where
  CreateHolding: "cells m uuid = None \<Longrightarrow> paths \<noteq> [] \<Longrightarrow>
    method_step m (snd (create_holding op paths uuid now m))"
| Create: "cells m uuid = None \<Longrightarrow> method_step m (snd (create path op uuid now m))"
| CreateSubtask: "cells m uuid = None \<Longrightarrow> method_step m (snd (create_subtask path op uuid now m))"
| CreateKeyed: "cells m uuid = None \<Longrightarrow> method_step m (snd (create_keyed op path key uuid now m))"
| CreateCancellable: "cells m uuid = None \<Longrightarrow> method_step m (snd (create_cancellable path op uuid now m))"
| CreateStoppable: "cells m uuid = None \<Longrightarrow> method_step m (snd (create_stoppable path op uuid now m))"
| Stopped: "method_step m (stopped i now m)"
| Settle: "method_step m (snd (settle i m))"
| Cancel: "method_step m (snd (cancel i now m))"
| MarkRunning: "method_step m (snd (mark_running i now m))"
| Complete: "method_step m (snd (complete i result now m))"
| Fail: "method_step m (snd (fail i errMsg now m))"
| Holder: "method_step m (snd (holder path m))"
| CancellableHolder: "method_step m (snd (cancellable_holder path op m))"
| ReportProgress: "method_step m (snd (report_progress i pf m))"
| SetCLICommand: "method_step m (snd (set_cli_command i command m))"
| ReportFiles: "method_step m (snd (report_files i cf m))"
| ReportBytes: "method_step m (snd (report_bytes i cf m))"
| Sweep: "method_step m (snd (sweep now m))"

inductive mgr_step :: "'r manager \<Rightarrow> 'r manager \<Rightarrow> bool" where
  Method: "method_step m m' \<Longrightarrow> mgr_step m m'"
| Update: "mgr_step m (snd (update i s e r now m))"

text \<open>Steps in which nobody sets the status of task \<open>i\<close> to a cancel's by \<^verbatim>\<open>Update\<close>.\<close>

inductive uncancelled_step :: "string \<Rightarrow> 'r manager \<Rightarrow> 'r manager \<Rightarrow> bool" for i where
  Method: "method_step m m' \<Longrightarrow> uncancelled_step i m m'"
| Update: "j = i \<longrightarrow> s \<noteq> Cancelled \<and> s \<noteq> Cancelling \<Longrightarrow> uncancelled_step i m (snd (update j s e r now m))"

lemma uncancelled_is_step: "uncancelled_step i m m' \<Longrightarrow> mgr_step m m'"
  by (auto elim!: uncancelled_step.cases intro: mgr_step.intros)

text \<open>
  The six creating calls are \<^verbatim>\<open>createLocked\<close> of some task description.
\<close>

lemma unique_paths_from_props:
  "set (unique_paths_from u ps) = set u \<union> set ps"
  "distinct u \<Longrightarrow> distinct (unique_paths_from u ps)"
  by (induction ps arbitrary: u) auto

lemma unique_paths_nonempty: "ps \<noteq> [] \<Longrightarrow> unique_paths ps \<noteq> []"
  using unique_paths_from_props(1) [of "[]" ps] unfolding unique_paths_def
  by (metis Un_empty_left list.set(1) set_empty)

lemma create_holding_spec:
  assumes "paths \<noteq> []"
  shows "\<exists>spec. snd (create_holding op paths uuid now m) = snd (create_locked spec uuid now m) \<and>
    nt_held spec = unique_paths paths \<and> \<not> nt_subtask spec"
proof -
  from unique_paths_nonempty [OF assms] obtain p ps where "unique_paths paths = p # ps"
    by (cases "unique_paths paths") auto
  then show ?thesis
    by (intro exI [of _ "\<lparr>nt_operation = op, nt_path = p, nt_held = p # ps, nt_subtask = False,
             nt_cancellable = False, nt_stoppable = False\<rparr>"])
       (simp add: create_holding_def apfst_def map_prod_def split: prod.splits)
qed

lemma snd_drop_key [simp]: "snd (drop_key r) = snd r"
  by (cases r) (auto simp: drop_key_def)

lemma create_is_locked:
  "\<exists>spec. snd (create path op uuid now m) = snd (create_locked spec uuid now m)"
  using create_holding_spec [of "[path]" op uuid now m]
  by (auto simp: create_def split: option.splits prod.splits)

text \<open>
  So a step is one of eight kinds; this is the case analysis the proofs below use.
\<close>

text \<open>The updates of \<^verbatim>\<open>MarkRunning\<close>, \<^verbatim>\<open>Complete\<close> and \<^verbatim>\<open>Fail\<close>.\<close>

definition worker_status :: "status \<Rightarrow> bool" where
  "worker_status s \<longleftrightarrow> s = Running \<or> s = Completed \<or> s = Failed"

lemma method_step_kinds:
  assumes "method_step m m'"
  obtains (make) spec uuid now where "cells m uuid = None" "m' = snd (create_locked spec uuid now m)"
  | (stop) i now where "m' = stopped i now m"
  | (settle) i where "m' = snd (settle i m)"
  | (cancel) i now where "m' = snd (cancel i now m)"
  | (work) i s e r now where "worker_status s" "m' = snd (update i s e r now m)"
  | (look) k where "m' = snd (running_holder_locked k m)"
  | (report) f i where "m' = snd (on_task f i m)"
      "\<And>t. taskID (f t) = taskID t \<and> taskStatus (f t) = taskStatus t \<and>
      completedAt (f t) = completedAt t \<and> taskError (f t) = taskError t \<and>
      cancellable (f t) = cancellable t \<and> settled (f t) = settled t \<and>
      held (f t) = held t \<and> stoppable (f t) = stoppable t \<and>
      taskPath (f t) = taskPath t \<and> operation (f t) = operation t \<and> taskResult (f t) = taskResult t"
  | (sweep) now where "m' = snd (sweep now m)"
  using assms
proof (cases rule: method_step.cases)
  case (CreateHolding uuid paths op now)
  then show ?thesis using create_holding_spec make by metis
next
  case (Create uuid path op now)
  then show ?thesis using create_is_locked make by metis
next
  case (CreateSubtask uuid path op now)
  then show ?thesis by (intro make) (auto simp: create_subtask_def)
next
  case (CreateKeyed uuid op path key now)
  then show ?thesis by (intro make) (auto simp: create_keyed_def)
next
  case (CreateCancellable uuid path op now)
  then show ?thesis by (intro make) (auto simp: create_cancellable_def)
next
  case (CreateStoppable uuid path op now)
  then show ?thesis by (intro make) (auto simp: create_stoppable_def)
next
  case (MarkRunning i now)
  then show ?thesis by (intro work) (auto simp: worker_status_def mark_running_def)
next
  case (Complete i result now)
  then show ?thesis by (intro work [of Completed]) (auto simp: worker_status_def complete_def)
next
  case (Fail i errMsg now)
  then show ?thesis by (intro work [of Failed]) (auto simp: worker_status_def fail_def)
next
  case (ReportProgress i pf)
  then show ?thesis by (intro report [of "\<lambda>t. t\<lparr>progressFn := Some pf\<rparr>"]) (auto simp: report_progress_def)
next
  case (SetCLICommand i command)
  then show ?thesis by (intro report [of "\<lambda>t. t\<lparr>cliCommand := command\<rparr>"]) (auto simp: set_cli_command_def)
next
  case (ReportFiles i cf)
  then show ?thesis by (intro report [of "\<lambda>t. t\<lparr>filesFn := Some cf\<rparr>"]) (auto simp: report_files_def)
next
  case (ReportBytes i cf)
  then show ?thesis by (intro report [of "\<lambda>t. t\<lparr>bytesFn := Some cf\<rparr>"]) (auto simp: report_bytes_def)
qed (auto intro: stop settle cancel look sweep simp: holder_def cancellable_holder_def)

lemma mgr_step_kinds:
  assumes "mgr_step m m'"
  obtains (make) spec uuid now where "cells m uuid = None" "m' = snd (create_locked spec uuid now m)"
  | (stop) i now where "m' = stopped i now m"
  | (settle) i where "m' = snd (settle i m)"
  | (cancel) i now where "m' = snd (cancel i now m)"
  | (work) i s e r now where "m' = snd (update i s e r now m)"
  | (look) k where "m' = snd (running_holder_locked k m)"
  | (report) f i where "m' = snd (on_task f i m)"
      "\<And>t. taskID (f t) = taskID t \<and> taskStatus (f t) = taskStatus t \<and>
      completedAt (f t) = completedAt t \<and> taskError (f t) = taskError t \<and>
      cancellable (f t) = cancellable t \<and> settled (f t) = settled t \<and>
      held (f t) = held t \<and> stoppable (f t) = stoppable t \<and>
      taskPath (f t) = taskPath t \<and> operation (f t) = operation t \<and> taskResult (f t) = taskResult t"
  | (sweep) now where "m' = snd (sweep now m)"
  using assms
proof (cases rule: mgr_step.cases)
  case Method
  then show ?thesis
  proof (cases rule: method_step_kinds)
    case (report f i)
    show ?thesis by (rule that(7) [OF report])
  qed (use that in metis)+
qed (rule work)

lemma mgr_step_inv:
  assumes inv: "manager_inv m" and "mgr_step m m'"
  shows "manager_inv m'"
  using assms(2)
proof (cases rule: mgr_step_kinds)
  case (look k)
  then show ?thesis using running_holder_inv [OF inv, of k] inv by simp
next
  case (report f i)
  then show ?thesis using on_task_inv [OF inv, of f i] by simp
qed (use inv in \<open>auto intro: create_locked_inv stopped_inv settle_inv cancel_inv update_inv sweep_inv\<close>)

definition is_new_manager :: "'r manager \<Rightarrow> bool" where
  "is_new_manager m \<longleftrightarrow> (\<exists>env_ttl cfg_ttl cfg_sweep cfg_max.
     m = new_manager env_ttl cfg_ttl cfg_sweep cfg_max)"

interpretation mgr: invariant_system is_new_manager mgr_step manager_inv
  by unfold_locales (auto simp: is_new_manager_def new_manager_inv intro: mgr_step_inv)

section \<open>What a step leaves alone\<close>

text \<open>
  The cell of a task that has ended is final; a live task stays in the table, under its id,
  with its keys and its operation, and a settled one stays settled.
\<close>

definition cells_kept :: "'r manager \<Rightarrow> 'r manager \<Rightarrow> bool" where
  "cells_kept m m' \<longleftrightarrow> (\<forall>j c. cells m j = Some c \<and> closed c \<longrightarrow> cells m' j = Some c)"

definition live_kept :: "'r manager \<Rightarrow> 'r manager \<Rightarrow> bool" where
  "live_kept m m' \<longleftrightarrow>
     (\<forall>j t. map_of (tasks m) j = Some t \<and> \<not> is_terminal t \<longrightarrow>
        (\<exists>t'. map_of (tasks m') j = Some t' \<and> held t' = held t \<and> taskPath t' = taskPath t \<and>
           operation t' = operation t \<and> (settled t \<longrightarrow> settled t')))"

lemma cells_kept_refl [simp]: "cells_kept m m" by (simp add: cells_kept_def)
lemma live_kept_refl [simp]: "live_kept m m" by (auto simp: live_kept_def)

lemma update_fields_more [simp]:
  "taskPath (update_fields s e r t) = taskPath t" "operation (update_fields s e r t) = operation t"
  by (simp_all add: update_fields_def Let_def)

text \<open>Rewriting one live task and its cell keeps both.\<close>

lemma kept_one:
  assumes "map_of (tasks m) i = Some t" and "\<not> closed (cell_of m i)"
    and "map_of (tasks m') = (map_of (tasks m))(i \<mapsto> t')"
    and "\<And>j. j \<noteq> i \<Longrightarrow> cells m' j = cells m j"
    and "held t' = held t" "taskPath t' = taskPath t" "operation t' = operation t"
    and "settled t \<Longrightarrow> settled t'"
  shows "cells_kept m m' \<and> live_kept m m'"
proof
  show "cells_kept m m'"
    unfolding cells_kept_def
  proof (intro allI impI)
    fix j c assume "cells m j = Some c \<and> closed c"
    moreover from this assms(2) have "j \<noteq> i" by (auto simp: cell_of_def)
    ultimately show "cells m' j = Some c" using assms(4) by simp
  qed
  show "live_kept m m'" using assms by (auto simp: live_kept_def)
qed

lemma kept_put_task:
  assumes "map_of (tasks m) i = Some t" and "taskID t' = i"
    and "held t' = held t" "taskPath t' = taskPath t" "operation t' = operation t"
    and "settled t \<Longrightarrow> settled t'"
  shows "cells_kept m (put_task t' m) \<and> live_kept m (put_task t' m)"
  using assms by (auto simp: cells_kept_def live_kept_def put_task_def map_of_update)

lemma kept_ended:
  assumes "map_of (tasks m) i = Some t" and "\<not> closed (cell_of m i)" and "taskID t' = i"
    and "held t' = held t" "taskPath t' = taskPath t" "operation t' = operation t"
    and "settled t \<Longrightarrow> settled t'"
  shows "cells_kept m (ended_manager t' c m) \<and> live_kept m (ended_manager t' c m)"
  using assms by (intro kept_one [OF assms(1,2), where t' = t']) (auto simp: ended_manager_def map_of_update)

lemma kept_stopped:
  assumes inv: "manager_inv m"
  shows "cells_kept m (stopped i now m) \<and> live_kept m (stopped i now m)"
proof (cases "\<exists>t. map_of (tasks m) i = Some t \<and> taskStatus t = Cancelling")
  case False
  then show ?thesis by (auto simp: stopped_def split: option.splits)
next
  case True
  then obtain t where t: "map_of (tasks m) i = Some t" "taskStatus t = Cancelling" by blast
  obtain c where c: "cell_of m i = c" "task_ok i t c" "taskID t = i"
    using manager_inv_task [OF inv t(1)] by metis
  have "\<not> closed (cell_of m i)" using c t by (simp add: task_ok_def cell_ok_def is_terminal_def is_end_def)
  then have "stopped i now m = ended_manager (t\<lparr>taskStatus := Cancelled, completedAt := Some now\<rparr>)
      (c\<lparr>endStatus := Cancelled, endError := taskError t, closed := True\<rparr>) m"
    using t c by (simp add: stopped_def end_locked_eq)
  then show ?thesis
    using t c \<open>\<not> closed (cell_of m i)\<close> by (simp add: kept_ended)
qed

lemma kept_cancel:
  assumes inv: "manager_inv m"
  shows "cells_kept m (snd (cancel i now m)) \<and> live_kept m (snd (cancel i now m))"
proof (cases "\<exists>t. map_of (tasks m) i = Some t \<and> cancellable t \<and> taskStatus t \<noteq> Cancelling \<and>
    \<not> is_terminal t \<and> \<not> settled t")
  case False
  then show ?thesis by (auto simp: cancel_def split: option.splits)
next
  case True
  then obtain t where t: "map_of (tasks m) i = Some t" "cancellable t" "taskStatus t \<noteq> Cancelling"
    "\<not> is_terminal t" "\<not> settled t" by blast
  obtain c where c: "cell_of m i = c" "task_ok i t c" "taskID t = i"
    using manager_inv_task [OF inv t(1)] by metis
  have open_cell: "\<not> closed (cell_of m i)" using c t by (simp add: task_ok_def cell_ok_def)
  have "cells_kept m (put_task (t\<lparr>taskStatus := Cancelling\<rparr>) (cancel_ctx t m)) \<and>
      live_kept m (put_task (t\<lparr>taskStatus := Cancelling\<rparr>) (cancel_ctx t m))"
    using c
    by (intro kept_one [OF t(1) open_cell, where t' = "t\<lparr>taskStatus := Cancelling\<rparr>"])
       (auto simp: put_task_def cancel_ctx_def put_cell_def map_of_update)
  moreover have "cells_kept m (end_locked t Cancelled now (cancel_ctx t m)) \<and>
      live_kept m (end_locked t Cancelled now (cancel_ctx t m))"
    using c
    by (intro kept_one [OF t(1) open_cell,
          where t' = "t\<lparr>taskStatus := Cancelled, completedAt := Some now\<rparr>"])
       (auto simp: end_locked_def close_end_locked_def release_paths_locked_def put_task_def
         cancel_ctx_def put_cell_def map_of_update Let_def)
  ultimately show ?thesis using t by (simp add: cancel_def Let_def)
qed

lemma kept_update:
  assumes inv: "manager_inv m"
  shows "cells_kept m (snd (update i s e r now m)) \<and> live_kept m (snd (update i s e r now m))"
proof (cases "map_of (tasks m) i")
  case None
  then show ?thesis by (simp add: update_def)
next
  case (Some t)
  obtain c where c: "cell_of m i = c" "task_ok i t c" "taskID t = i"
    using manager_inv_task [OF inv Some] by metis
  consider "taskStatus t = Cancelling" | "taskStatus t \<noteq> Cancelling" "is_terminal t"
    | "taskStatus t \<noteq> Cancelling" "\<not> is_terminal t" by blast
  then show ?thesis
  proof cases
    case 1
    then show ?thesis
      using kept_stopped [OF inv, of i now] Some by (simp add: update_def stopped_def)
  next
    case 2
    then show ?thesis using Some by (simp add: update_def)
  next
    case 3
    have "\<not> closed (cell_of m i)" using c 3 by (simp add: task_ok_def cell_ok_def)
    then show ?thesis
      using c kept_ended [OF Some] kept_put_task [OF Some]
      by (simp add: update_live [OF Some 3] Let_def updated_end_def)
  qed
qed

lemma dropped_terminal:
  assumes "manager_inv m" and "map_of (tasks m) j = Some t" and "\<not> is_terminal t"
  shows "j \<notin> taskID ` set (dropped_tasks sub m)"
proof
  assume "j \<in> taskID ` set (dropped_tasks sub m)"
  then obtain u where "u \<in> set (finished_of_class sub m)" "taskID u = j"
    using set_dropped_tasks by force
  with finished_of_class_task [OF assms(1) this(1)] assms(2,3) show False by simp
qed

lemma kept_create:
  assumes inv: "manager_inv m" and new: "cells m uuid = None"
  shows "cells_kept m (snd (create_locked spec uuid now m)) \<and>
    live_kept m (snd (create_locked spec uuid now m))"
proof (cases "find (\<lambda>k. map_of (pathLocks m) k \<noteq> None) (nt_held spec)")
  case (Some k)
  then show ?thesis by (simp add: create_locked_eq [OF inv])
next
  case None
  let ?m1 = "insert_task spec uuid now m"
  have inv1: "manager_inv ?m1"
    using None by (intro insert_task_inv inv new) (auto simp: find_None_all)
  have max: "1 \<le> maxTasks ?m1" using inv1 by (simp add: manager_inv_def)
  have absent: "map_of (tasks m) uuid = None"
    using inv new unfolding manager_inv_def by (metis option.exhaust option.simps(3))
  have "cells_kept m (drop_oldest_finished_locked sub ?m1)" for sub
    using new by (auto simp: cells_kept_def drop_oldest_eq [OF max] insert_task_sel)
  moreover have "live_kept m (drop_oldest_finished_locked sub ?m1)" for sub
    unfolding live_kept_def
  proof (intro allI impI)
    fix j t assume t: "map_of (tasks m) j = Some t \<and> \<not> is_terminal t"
    then have "map_of (tasks ?m1) j = Some t" using absent by (auto simp: insert_task_sel)
    moreover from dropped_terminal [OF inv1 this] t
    have "j \<notin> taskID ` set (dropped_tasks sub ?m1)" by blast
    ultimately show "\<exists>t'. map_of (tasks (drop_oldest_finished_locked sub ?m1)) j = Some t' \<and>
        held t' = held t \<and> taskPath t' = taskPath t \<and> operation t' = operation t \<and> (settled t \<longrightarrow> settled t')"
      by (simp add: drop_oldest_tasks [OF max])
  qed
  ultimately show ?thesis using None by (simp add: create_locked_eq [OF inv])
qed

lemma kept_on_task:
  assumes inv: "manager_inv m"
    and f: "\<And>t. taskID (f t) = taskID t \<and> settled (f t) = settled t \<and> held (f t) = held t \<and>
      taskPath (f t) = taskPath t \<and> operation (f t) = operation t \<and> taskResult (f t) = taskResult t"
  shows "cells_kept m (snd (on_task f i m)) \<and> live_kept m (snd (on_task f i m))"
proof (cases "map_of (tasks m) i")
  case (Some t)
  then have "taskID t = i" by (rule manager_inv_task [OF inv])
  then show ?thesis using kept_put_task [OF Some, of "f t"] f [of t] Some by (simp add: on_task_def)
qed (simp add: on_task_def)

lemma kept_settle:
  assumes inv: "manager_inv m"
  shows "cells_kept m (snd (settle i m)) \<and> live_kept m (snd (settle i m))"
proof (cases "map_of (tasks m) i")
  case (Some t)
  then have "taskID t = i" by (rule manager_inv_task [OF inv])
  then show ?thesis
    using kept_put_task [OF Some, of "t\<lparr>settled := True\<rparr>"] Some by (simp add: settle_def)
qed (simp add: settle_def)

lemma mgr_step_kept:
  assumes inv: "manager_inv m" and "mgr_step m m'"
  shows "cells_kept m m' \<and> live_kept m m'"
  using assms(2)
proof (cases rule: mgr_step_kinds)
  case (settle i)
  then show ?thesis
    by (simp add: kept_settle [OF inv])
next
  case (look k)
  then show ?thesis using running_holder_inv [OF inv, of k] by simp
next
  case (report f i)
  then show ?thesis
    by (simp add: kept_on_task [OF inv])
next
  case (sweep now)
  have "cells_kept m m'" using sweep by (simp add: sweep_eq [OF inv] cells_kept_def)
  moreover have "live_kept m m'"
    using sweep by (auto simp: live_kept_def sweep_tasks [OF inv] expired_def)
  ultimately show ?thesis ..
qed (use inv in \<open>auto simp: kept_stopped kept_cancel kept_update dest: kept_create\<close>)

section \<open>Facts of the reachable states\<close>

definition reachable_manager :: "'r manager \<Rightarrow> bool" where
  "reachable_manager m \<longleftrightarrow> (\<exists>m0. is_new_manager m0 \<and> mgr_step\<^sup>*\<^sup>* m0 m)"

lemma reachable_inv: "reachable_manager m \<Longrightarrow> manager_inv m"
  by (auto simp: reachable_manager_def intro: mgr.inv_reachable)

lemma reachable_new: "reachable_manager (new_manager a b c d)"
  unfolding reachable_manager_def is_new_manager_def by blast

lemma reachable_step: "reachable_manager m \<Longrightarrow> mgr_step m m' \<Longrightarrow> reachable_manager m'"
  unfolding reachable_manager_def by (meson rtranclp.rtrancl_into_rtrancl)

lemma reachable_run: "reachable_manager m \<Longrightarrow> mgr_step\<^sup>*\<^sup>* m m' \<Longrightarrow> reachable_manager m'"
  unfolding reachable_manager_def by (meson rtranclp_trans)

lemma cells_kept_run:
  assumes "manager_inv m" and "mgr_step\<^sup>*\<^sup>* m m'" and "cells m w = Some c" and "closed c"
  shows "cells m' w = Some c"
proof (rule mgr.run_preserves [OF assms(2,1), where Q = "\<lambda>m. cells m w = Some c"])
  show "cells m w = Some c" by fact
  fix u v :: "'a manager" assume "manager_inv u" "cells u w = Some c" "mgr_step u v"
  then show "cells v w = Some c"
    using mgr_step_kept [of u v] assms(4) by (auto simp: cells_kept_def)
qed

text \<open>
  What one step does to an unfinished task of the table: nothing that matters here, or it is a
  cancel, a \<^verbatim>\<open>Stopped\<close> or an update of that very task.
\<close>

definition untouched :: "string \<Rightarrow> 'r task \<Rightarrow> 'r manager \<Rightarrow> 'r manager \<Rightarrow> bool" where
  "untouched i t m m' \<longleftrightarrow> cells m' i = cells m i \<and>
     (\<exists>t'. map_of (tasks m') i = Some t' \<and> taskStatus t' = taskStatus t \<and> held t' = held t \<and>
        taskError t' = taskError t \<and> taskResult t' = taskResult t \<and> cancellable t' = cancellable t \<and>
        stoppable t' = stoppable t \<and> (settled t \<longrightarrow> settled t'))"

lemma untouched_refl: "map_of (tasks m) i = Some t \<Longrightarrow> untouched i t m m"
  by (simp add: untouched_def)

lemma untouched_eq: "map_of (tasks m') i = Some t \<Longrightarrow> cells m' i = cells m i \<Longrightarrow> untouched i t m m'"
  by (simp add: untouched_def)

text \<open>A method that writes another task.\<close>

lemma other_task:
  assumes inv: "manager_inv m" and t: "map_of (tasks m) i = Some t" and j: "j \<noteq> i"
  shows "untouched i t m (stopped j now m)" and "untouched i t m (snd (cancel j now m))"
    and "untouched i t m (snd (update j s e r now m))"
proof -
  have same: "taskID u = j" if "map_of (tasks m) j = Some u" for u using manager_inv_task [OF inv that] by metis
  have ended: "map_of (tasks (end_locked u st now n)) i = map_of (tasks n) i" "cells (end_locked u st now n) i = cells n i"
    "map_of (tasks (put_task u n)) i = map_of (tasks n) i" "cells (put_task u n) i = cells n i"
    "map_of (tasks (cancel_ctx u n)) i = map_of (tasks n) i" "cells (cancel_ctx u n) i = cells n i"
    "map_of (tasks (close_end_locked u n)) i = map_of (tasks n) i" "cells (close_end_locked u n) i = cells n i"
    "map_of (tasks (release_paths_locked u n)) i = map_of (tasks n) i" "cells (release_paths_locked u n) i = cells n i"
    if "taskID u = j" for u :: "'a task" and st n
    using that j by (simp_all add: end_locked_def close_end_locked_def release_paths_locked_def put_task_def cancel_ctx_def
        put_cell_def map_of_update Let_def)
  show "untouched i t m (stopped j now m)" "untouched i t m (snd (cancel j now m))"
    "untouched i t m (snd (update j s e r now m))"
    using t same
    by (auto simp: stopped_def cancel_def update_def ended Let_def intro!: untouched_eq split: option.split)
qed

text \<open>The sweeper, the cap and the other methods leave an unfinished task alone.\<close>

lemma create_untouched:
  assumes inv: "manager_inv m" and t: "map_of (tasks m) i = Some t" "\<not> is_terminal t" and new: "cells m uuid = None"
  shows "untouched i t m (snd (create_locked spec uuid now m))"
proof (cases "find (\<lambda>k. map_of (pathLocks m) k \<noteq> None) (nt_held spec)")
  case (Some k)
  then show ?thesis using t by (simp add: create_locked_eq [OF inv] untouched_refl)
next
  case None
  let ?m1 = "insert_task spec uuid now m"
  have inv1: "manager_inv ?m1"
    using None by (intro insert_task_inv inv new) (auto simp: find_None_all)
  have max: "1 \<le> maxTasks ?m1" using inv1 by (simp add: manager_inv_def)
  obtain c where "cells m i = Some c" using manager_inv_task [OF inv t(1)] by metis
  then have i: "i \<noteq> uuid" using new by auto
  then have t1: "map_of (tasks ?m1) i = Some t" using t by (simp add: insert_task_sel)
  have "untouched i t m (drop_oldest_finished_locked sub ?m1)" for sub
    using dropped_terminal [OF inv1 t1 t(2), of sub] t1 i
    by (intro untouched_eq) (simp_all add: drop_oldest_tasks [OF max], simp add: drop_oldest_eq [OF max] insert_task_sel)
  then show ?thesis using None by (simp add: create_locked_eq [OF inv])
qed

lemma on_task_untouched:
  assumes inv: "manager_inv m" and t: "map_of (tasks m) i = Some t"
    and f: "\<And>t. taskID (f t) = taskID t \<and> taskStatus (f t) = taskStatus t \<and> taskError (f t) = taskError t \<and>
      taskResult (f t) = taskResult t \<and> cancellable (f t) = cancellable t \<and> stoppable (f t) = stoppable t \<and>
      held (f t) = held t \<and> (settled t \<longrightarrow> settled (f t))"
  shows "untouched i t m (snd (on_task f j m))"
proof (cases "map_of (tasks m) j")
  case (Some u)
  then have "taskID u = j" by (rule manager_inv_task [OF inv])
  then show ?thesis
    using t f [of u] Some by (cases "j = i") (auto simp: untouched_def on_task_def put_task_def map_of_update)
qed (simp add: on_task_def untouched_refl [OF t])

lemma live_step:
  assumes inv: "manager_inv m" and t: "map_of (tasks m) i = Some t" "\<not> is_terminal t" and step: "method_step m m'"
  obtains (same) "untouched i t m m'" | (cancel) now where "m' = snd (cancel i now m)"
  | (stop) now where "m' = stopped i now m" | (work) s e r now where "m' = snd (update i s e r now m)" "worker_status s"
  using step
proof (cases rule: method_step_kinds)
  case (make spec uuid now)
  then show ?thesis using create_untouched [OF inv t] same by blast
next
  case (stop j now)
  then show ?thesis using other_task(1) [OF inv t(1)] same that(3) by metis
next
  case (settle j)
  have "snd (settle j m) = m \<or> snd (settle j m) = snd (on_task (\<lambda>t. t\<lparr>settled := True\<rparr>) j m)"
    by (auto simp: settle_def on_task_def split: option.split)
  then show ?thesis
    using settle on_task_untouched [OF inv t(1), of "\<lambda>t. t\<lparr>settled := True\<rparr>" j] untouched_refl [OF t(1)] same by auto
next
  case (cancel j now)
  then show ?thesis using other_task(2) [OF inv t(1)] same that(2) by metis
next
  case (work j s e r now)
  then show ?thesis using other_task(3) [OF inv t(1)] same that(4) by metis
next
  case (look k)
  then show ?thesis using running_holder_inv [OF inv, of k] untouched_refl [OF t(1)] same by simp
next
  case (report f j)
  have "untouched i t m m'" unfolding report(1) by (rule on_task_untouched [OF inv t(1)]) (simp add: report(2))
  then show ?thesis by (rule same)
next
  case (sweep now)
  have "map_of (tasks m') i = Some t" using t sweep by (simp add: sweep_tasks [OF inv] expired_def)
  moreover have "cells m' = cells m" using sweep by (simp add: sweep_eq [OF inv])
  ultimately have "untouched i t m m'" by (simp add: untouched_eq)
  then show ?thesis by (rule same)
qed

section \<open>A settled task\<close>

text \<open>
  A settled task that nobody sets cancelled by hand is not cancelled, or has ended otherwise.
\<close>

definition settled_safe :: "string \<Rightarrow> 'r manager \<Rightarrow> bool" where
  "settled_safe i m \<longleftrightarrow>
     (\<exists>t. map_of (tasks m) i = Some t \<and> settled t \<and> \<not> is_terminal t \<and> taskStatus t \<noteq> Cancelling) \<or>
     (\<exists>c. cells m i = Some c \<and> closed c \<and> endStatus c \<noteq> Cancelled)"

lemma settled_update:
  assumes inv: "manager_inv m" and t: "map_of (tasks m) i = Some t" "settled t" "\<not> is_terminal t" "taskStatus t \<noteq> Cancelling"
    and s: "s \<noteq> Cancelled" "s \<noteq> Cancelling"
  shows "settled_safe i (snd (update i s e r now m))"
proof -
  obtain c where c: "cell_of m i = c" "task_ok i t c" "taskID t = i" using manager_inv_task [OF inv t(1)] by metis
  have "\<not> closed (cell_of m i)" using c t by (simp add: task_ok_def cell_ok_def)
  then show ?thesis
    using t s c
    by (auto simp: update_live [OF t(1,4,3)] Let_def settled_safe_def updated_end_def ended_manager_def put_task_def map_of_update
        is_terminal_def is_end_def)
qed

lemma settled_safe_step:
  assumes inv: "manager_inv m" and safe: "settled_safe i m" and step: "uncancelled_step i m m'"
  shows "settled_safe i m'"
proof (cases "\<exists>c. cells m i = Some c \<and> closed c \<and> endStatus c \<noteq> Cancelled")
  case True
  then show ?thesis
    using mgr_step_kept [OF inv uncancelled_is_step [OF step]] unfolding cells_kept_def settled_safe_def by blast
next
  case False
  then obtain t where t: "map_of (tasks m) i = Some t" "settled t" "\<not> is_terminal t" "taskStatus t \<noteq> Cancelling"
    using safe unfolding settled_safe_def by blast
  have same: "settled_safe i m'" if "untouched i t m m'" for m'
    using that t by (auto simp: untouched_def settled_safe_def is_terminal_def)
  from step show ?thesis
  proof cases
    case Method
    from inv t(1,3) this show ?thesis
    proof (cases rule: live_step)
      case (work s e r now)
      then show ?thesis using settled_update [OF inv t] by (auto simp: worker_status_def)
    qed (use same t in \<open>auto simp: cancel_def stopped_def settled_safe_def\<close>)
  next
    case (Update j s e r now)
    then show ?thesis
      using same [OF other_task(3) [OF inv t(1)]] settled_update [OF inv t] by (cases "j = i") auto
  qed
qed

text \<open>What a safe task answers to a cancel.\<close>

lemma settled_safe_cancel:
  assumes inv: "manager_inv m" and safe: "settled_safe i m"
  shows "get_task i m = Some t \<Longrightarrow> taskStatus t \<noteq> Cancelled \<and> taskStatus t \<noteq> Cancelling"
    and "closed (cell_of m i) \<Longrightarrow> fst (watch_end i m) \<noteq> Cancelled"
    and "cancel i now m = (Some (case get_task i m of None \<Rightarrow> ErrTaskNotFound
      | Some t \<Rightarrow> if cancellable t then ErrTaskEnded else ErrNotCancellable), m)"
proof -
  have st: "taskStatus t \<noteq> Cancelled \<and> taskStatus t \<noteq> Cancelling \<and> (is_terminal t \<or> settled t)"
    if t: "map_of (tasks m) i = Some t" for t
  proof -
    obtain c where "cells m i = Some c" "task_ok i t c" using manager_inv_task [OF inv t] by metis
    then show ?thesis
      using safe t by (auto simp: settled_safe_def task_ok_def cell_ok_def is_terminal_def is_end_def)
  qed
  then show "get_task i m = Some t \<Longrightarrow> taskStatus t \<noteq> Cancelled \<and> taskStatus t \<noteq> Cancelling"
    by (simp add: get_task_def)
  show "cancel i now m = (Some (case get_task i m of None \<Rightarrow> ErrTaskNotFound
      | Some t \<Rightarrow> if cancellable t then ErrTaskEnded else ErrNotCancellable), m)"
    using st by (auto simp: cancel_def get_task_def split: option.split)
  assume closed: "closed (cell_of m i)"
  show "fst (watch_end i m) \<noteq> Cancelled"
  proof (cases "map_of (tasks m) i")
    case (Some t)
    obtain c where "cell_of m i = c" "task_ok i t c" using manager_inv_task [OF inv Some] by metis
    then show ?thesis using st [OF Some] closed by (auto simp: task_ok_def cell_ok_def watch_end_def)
  next
    case None
    then show ?thesis using safe by (auto simp: settled_safe_def watch_end_def cell_of_def)
  qed
qed

section \<open>A task asked to stop\<close>

text \<open>A cancelling task: its context is canceled, and it is otherwise as \<open>t\<close> was at the cancel.\<close>

definition stopping :: "string \<Rightarrow> 'r task \<Rightarrow> 'r manager \<Rightarrow> bool" where
  "stopping i t m \<longleftrightarrow> ctxCanceled (cell_of m i) \<and>
     (\<exists>t'. get_task i m = Some t' \<and> taskStatus t' = Cancelling \<and> cancellable t' \<and> held t' = held t \<and>
        taskError t' = taskError t \<and> taskResult t' = taskResult t)"

lemma stopping_step:
  assumes inv: "manager_inv m" and st: "stopping i t m" and step: "mgr_step m m'"
  shows "stopping i t m' \<or> (\<exists>now. m' = stopped i now m)"
proof -
  obtain u where u: "map_of (tasks m) i = Some u" "taskStatus u = Cancelling" "held u = held t"
    "taskError u = taskError t" "taskResult u = taskResult t" "cancellable u" "ctxCanceled (cell_of m i)"
    using st by (auto simp: stopping_def get_task_def)
  have live: "\<not> is_terminal u" using u by (simp add: is_terminal_def is_end_def)
  have same: "stopping i t m'" if "untouched i u m m'" for m'
    using that u by (auto simp: untouched_def stopping_def get_task_def cell_of_def)
  have upd: "snd (update i s e r now m) = (if is_end s then stopped i now m else m)" for s e r now
    using u by (simp add: update_def stopped_def)
  from step show ?thesis
  proof cases
    case Method
    from inv u(1) live this show ?thesis
      by (cases rule: live_step) (use same st upd u in \<open>auto simp: cancel_def\<close>)
  next
    case (Update j s e r now)
    then show ?thesis using same [OF other_task(3) [OF inv u(1)]] st upd by (cases "j = i") auto
  qed
qed

text \<open>The end of a cancelling task.\<close>

lemma stopping_end:
  assumes inv: "manager_inv m" and st: "stopping i t m"
  shows "\<exists>t'. get_task i (stopped i now m) = Some t' \<and> taskStatus t' = Cancelled \<and> completedAt t' = Some now \<and>
      taskError t' = taskError t \<and> taskResult t' = taskResult t"
    and "k \<in> set (held t) \<Longrightarrow> map_of (pathLocks (stopped i now m)) k = None"
    and "cells (stopped i now m) i = Some ((cell_of m i)\<lparr>endStatus := Cancelled, endError := taskError t, closed := True\<rparr>)"
    and "is_end s \<Longrightarrow> snd (update i s e r now m) = stopped i now m"
    and "k \<in> set (held t) \<Longrightarrow> \<exists>t'. get_task i m = Some t' \<and> fst (holder k m) = Some t'"
proof -
  obtain u where u: "map_of (tasks m) i = Some u" "taskStatus u = Cancelling" "held u = held t"
    "taskError u = taskError t" "taskResult u = taskResult t"
    using st by (auto simp: stopping_def get_task_def)
  have live: "\<not> is_terminal u" using u by (simp add: is_terminal_def is_end_def)
  obtain c where c: "cell_of m i = c" "task_ok i u c" "taskID u = i" using manager_inv_task [OF inv u(1)] by metis
  have "\<not> closed (cell_of m i)" using c live by (simp add: task_ok_def cell_ok_def)
  then have eq: "stopped i now m = ended_manager (u\<lparr>taskStatus := Cancelled, completedAt := Some now\<rparr>)
      (c\<lparr>endStatus := Cancelled, endError := taskError u, closed := True\<rparr>) m"
    using u c by (simp add: stopped_def end_locked_eq)
  have locks: "map_of (pathLocks m) k = Some i" if "k \<in> set (held t)" for k
    using that u live by (auto simp: manager_inv_lock [OF inv])
  show "\<exists>t'. get_task i (stopped i now m) = Some t' \<and> taskStatus t' = Cancelled \<and> completedAt t' = Some now \<and>
      taskError t' = taskError t \<and> taskResult t' = taskResult t"
    "cells (stopped i now m) i = Some ((cell_of m i)\<lparr>endStatus := Cancelled, endError := taskError t, closed := True\<rparr>)"
    using u c by (simp_all add: eq ended_manager_def get_task_def map_of_update)
  show "map_of (pathLocks (stopped i now m)) k = None" if "k \<in> set (held t)"
    using that locks u c by (simp add: eq ended_manager_def map_of_fold_release)
  show "snd (update i s e r now m) = stopped i now m" if "is_end s"
    using that u by (simp add: update_def stopped_def)
  show "\<exists>t'. get_task i m = Some t' \<and> fst (holder k m) = Some t'" if "k \<in> set (held t)"
    using locks [OF that] u by (simp add: holder_def running_holder_inv [OF inv] get_task_def)
qed

lemma stopping_open:
  assumes inv: "manager_inv m" and st: "stopping i t m"
  shows "\<not> closed (cell_of m i)"
proof -
  obtain u where u: "map_of (tasks m) i = Some u" "taskStatus u = Cancelling"
    using st by (auto simp: stopping_def get_task_def)
  obtain c where "cell_of m i = c" "task_ok i u c" using manager_inv_task [OF inv u(1)] by metis
  then show ?thesis using u by (simp add: task_ok_def cell_ok_def is_terminal_def is_end_def)
qed

text \<open>Runs, from a settled and from a cancelling task on.\<close>

lemma uncancelled_run:
  assumes "(uncancelled_step i)\<^sup>*\<^sup>* m m'" and "manager_inv m" and "settled_safe i m"
  shows "manager_inv m' \<and> settled_safe i m'"
  using assms by (induction rule: rtranclp_induct)
    (auto intro: settled_safe_step mgr_step_inv uncancelled_is_step)

lemma stopping_run:
  assumes "mgr_step\<^sup>*\<^sup>* m m'" and "manager_inv m" and "stopping i t m"
  shows "manager_inv m' \<and> (stopping i t m' \<or>
    (\<exists>c. cells m' i = Some c \<and> closed c \<and> endStatus c = Cancelled \<and> endError c = taskError t))"
  using assms
proof (induction rule: rtranclp_induct)
  case (step u v)
  then have inv: "manager_inv u" "manager_inv v" using mgr_step_inv by blast+
  show ?case
  proof (cases "stopping i t u")
    case True
    then consider "stopping i t v" | now where "v = stopped i now u" using stopping_step [OF inv(1) _ step(2)] by blast
    then show ?thesis
      by cases (use inv stopping_end(3) [OF inv(1) True] in auto)
  next
    case False
    then show ?thesis
      using step mgr_step_kept [OF inv(1) step(2)] inv unfolding cells_kept_def by blast
  qed
qed simp

section \<open>The cap\<close>

text \<open>The cap: how many finished tasks stay, and that the oldest go.\<close>

lemma fold_delete_filter:
  "fold (\<lambda>x l. AList.delete (f x) l) xs m = filter (\<lambda>e. fst e \<notin> f ` set xs) m"
  by (induction xs arbitrary: m) (auto simp: AList.delete_eq filter_filter intro: filter_cong)

lemma distinct_finished:
  assumes inv: "manager_inv m"
  shows "distinct (map taskID (finished_of_class sub m))"
proof -
  have "fst e = taskID (snd e)" if "e \<in> set (tasks m)" for e
  proof -
    from that inv have "map_of (tasks m) (fst e) = Some (snd e)"
      by (simp add: manager_inv_def map_of_Some_iff)
    then show ?thesis using manager_inv_task [OF inv] by metis
  qed
  then have "map (taskID \<circ> snd) (tasks m) = keys (tasks m)" by simp
  then have "distinct (map (taskID \<circ> snd) (tasks m))"
    using inv by (simp only: manager_inv_def)
  then have "distinct (map taskID (map snd (tasks m)))" by (simp only: map_map)
  then show ?thesis
    unfolding finished_of_class_def by (rule distinct_map_filter)
qed

lemma finished_after_drop:
  assumes inv: "manager_inv m"
  shows "finished_of_class sub (drop_oldest_finished_locked sub m) =
    filter (\<lambda>t. taskID t \<notin> taskID ` set (dropped_tasks sub m)) (finished_of_class sub m)"
proof -
  have max: "1 \<le> maxTasks m" using inv by (simp add: manager_inv_def)
  have "fst e = taskID (snd e)" if "e \<in> set (tasks m)" for e
  proof -
    from that inv have "map_of (tasks m) (fst e) = Some (snd e)"
      by (simp add: manager_inv_def map_of_Some_iff)
    then show ?thesis using manager_inv_task [OF inv] by metis
  qed
  then have "map snd (filter (\<lambda>e. fst e \<notin> D) (tasks m)) = filter (\<lambda>t. taskID t \<notin> D) (map snd (tasks m))" for D
    by (auto simp: filter_map intro!: arg_cong [where f = "map snd"] filter_cong)
  then show ?thesis
    by (simp add: finished_of_class_def drop_oldest_eq [OF max] fold_delete_filter filter_filter conj_commute)
qed

lemma length_finished_after_drop:
  assumes inv: "manager_inv m"
  shows "int (length (finished_of_class sub (drop_oldest_finished_locked sub m))) + 1 \<le> maxTasks m"
proof -
  let ?F = "finished_of_class sub m"
  let ?S = "sort_key (\<lambda>t. the (completedAt t)) ?F"
  let ?n = "nat (int (length ?F) + 1 - maxTasks m)"
  have max: "1 \<le> maxTasks m" using inv by (simp add: manager_inv_def)
  let ?P = "\<lambda>t. taskID t \<notin> taskID ` set (take ?n ?S)"
  have "mset (filter ?P ?F) = mset (filter ?P ?S)" by (simp only: mset_filter mset_sort)
  then have "length (filter ?P ?F) = length (filter ?P ?S)" by (rule mset_eq_length)
  also have "\<dots> = length (filter ?P (take ?n ?S @ drop ?n ?S))" by simp
  also have "\<dots> = length (filter ?P (take ?n ?S)) + length (filter ?P (drop ?n ?S))"
    by (simp only: filter_append length_append)
  also have "filter ?P (take ?n ?S) = []" by (auto simp: filter_empty_conv)
  also have "length (filter ?P (drop ?n ?S)) \<le> length ?F - ?n"
    using length_filter_le [of ?P "drop ?n ?S"] by (simp only: length_drop length_sort)
  finally have "length (filter ?P ?F) \<le> length ?F - ?n" by simp
  then show ?thesis
    using max by (simp add: finished_after_drop [OF inv] dropped_tasks_def Let_def)
qed

lemma dropped_oldest:
  assumes "u \<in> set (dropped_tasks sub m)" and "v \<in> set (finished_of_class sub m)"
    and "v \<notin> set (dropped_tasks sub m)"
  shows "the (completedAt u) \<le> the (completedAt v)"
proof -
  let ?S = "sort_key (\<lambda>t. the (completedAt t)) (finished_of_class sub m)"
  let ?n = "nat (int (length (finished_of_class sub m)) + 1 - maxTasks m)"
  have u: "u \<in> set (take ?n ?S)" using assms(1) by (simp add: dropped_tasks_def Let_def)
  have "v \<in> set (take ?n ?S @ drop ?n ?S)" using assms(2) by simp
  then have v: "v \<in> set (drop ?n ?S)"
    using assms(3) by (simp only: dropped_tasks_def Let_def set_append) blast
  have "sorted (map (\<lambda>t. the (completedAt t)) (take ?n ?S @ drop ?n ?S))" by simp
  then show ?thesis using u v by (simp only: map_append sorted_append) auto
qed

end
