(* ===== verification/TaskProps.thy ===== *)
theory TaskProps
  imports TaskSteps
begin

text \<open>
  The properties of the task manager over every state its steps reach, each with a witness on a
  concrete run.
\<close>

text \<open>
  Claim C2. Whatever the order of the calls, two unfinished tasks of the table never hold the
  same key: two tasks that hold one key are one task, and the key's lock names it. A rebuild, a
  compression and an index of one path never run at once.
\<close>

theorem task_keys_exclusive:
  assumes "reachable_manager m"
    and "get_task i m = Some t" and "get_task j m = Some u"
    and "\<not> is_terminal t" and "\<not> is_terminal u"
    and "k \<in> set (held t)" and "k \<in> set (held u)"
  shows "i = j \<and> map_of (pathLocks m) k = Some i"
proof -
  have inv: "manager_inv m" using assms(1) by (rule reachable_inv)
  have "map_of (pathLocks m) k = Some i" "map_of (pathLocks m) k = Some j"
    using assms(2-7) by (auto simp: manager_inv_lock [OF inv] get_task_def)
  then show ?thesis by simp
qed

lemma find_Some_in: "find P xs = Some x \<Longrightarrow> x \<in> set xs \<and> P x"
  by (induction xs) (auto split: if_splits)

text \<open>A concrete run the witnesses share: one stoppable task, running.\<close>

definition m0 :: "string manager" where "m0 = new_manager 60 0 0 1"

definition m1 :: "string manager" where
  "m1 = snd (create_stoppable ''/d'' ''index'' ''u1'' 5 m0)"

definition m2 :: "string manager" where "m2 = snd (mark_running ''u1'' 6 m1)"

definition t1 :: "string task" where
  "t1 = (fresh_task \<lparr>nt_operation = ''index'', nt_path = ''/d'', nt_held = [''index:/d''],
     nt_subtask = False, nt_cancellable = True, nt_stoppable = True\<rparr> ''u1'' 5)\<lparr>taskStatus := Running\<rparr>"

lemma m1_reachable: "reachable_manager m1"
  unfolding m1_def m0_def
  by (rule reachable_step [OF reachable_new], rule mgr_step.Method, rule method_step.CreateStoppable) (simp add: new_manager_def)

lemma m2_reachable: "reachable_manager m2"
  unfolding m2_def by (rule reachable_step [OF m1_reachable], rule mgr_step.Method, rule method_step.MarkRunning)

lemmas run_defs = create_stoppable_def create_locked_def drop_key_def running_holder_locked_def
  m0_def new_manager_def fresh_task_def put_task_def put_cell_def drop_oldest_finished_locked_def
  finished_of_class_def is_terminal_def is_end_def cancellable_key_def new_cell_def
  mark_running_def update_def update_fields_def Let_def

lemma m1_eq: "m1 = \<lparr>tasks = [(''u1'', t1\<lparr>taskStatus := Queued\<rparr>)], pathLocks = [(''index:/d'', ''u1'')],
   maxTasks = 1, ttl = 60, sweepInterval = default_sweep_interval, cells = [''u1'' \<mapsto> new_cell], panicked = False\<rparr>"
  by (simp add: m1_def t1_def run_defs)

lemma m2_eq: "m2 = \<lparr>tasks = [(''u1'', t1)], pathLocks = [(''index:/d'', ''u1'')],
   maxTasks = 1, ttl = 60, sweepInterval = default_sweep_interval, cells = [''u1'' \<mapsto> new_cell], panicked = False\<rparr>"
  by (simp add: m2_def m1_eq t1_def run_defs)

theorem task_keys_exclusive_witness:
  "get_task ''u1'' m2 = Some t1 \<and> \<not> is_terminal t1 \<and> ''index:/d'' \<in> set (held t1) \<and>
   map_of (pathLocks m2) ''index:/d'' = Some ''u1''"
proof -
  have h: "get_task ''u1'' m2 = Some t1" "\<not> is_terminal t1" "''index:/d'' \<in> set (held t1)"
    by (simp_all add: get_task_def m2_eq t1_def is_terminal_def is_end_def fresh_task_def)
  from task_keys_exclusive [OF m2_reachable h(1) h(1) h(2) h(2) h(3) h(3)] h
  show ?thesis by blast
qed

text \<open>
  Claim C3. The first end of a task is the only one: once a task's done channel is closed, no
  later call by anyone, the sweeper and the cap included, changes how a watch says it ended, and
  no call ever closes the channel again or otherwise panics.
\<close>

theorem first_end_wins:
  assumes "reachable_manager m" and "mgr_step\<^sup>*\<^sup>* m m'"
    and "cells m w = Some c" and "closed c"
  shows "closed (cell_of m' w) \<and> watch_end w m' = watch_end w m \<and> \<not> panicked m'"
proof -
  have "cells m' w = Some c"
    using reachable_inv [OF assms(1)] assms(2-4) by (rule cells_kept_run)
  moreover have "manager_inv m'" using reachable_run [OF assms(1,2)] by (rule reachable_inv)
  ultimately show ?thesis
    using assms(3,4) by (simp add: cell_of_def watch_end_def manager_inv_def)
qed

definition m3 :: "string manager" where "m3 = snd (fail ''u1'' ''disk full'' 7 m2)"

lemma m3_reachable: "reachable_manager m3"
  unfolding m3_def by (rule reachable_step [OF m2_reachable], rule mgr_step.Method, rule method_step.Fail)

lemma m3_eq: "m3 = \<lparr>tasks = [(''u1'', t1\<lparr>taskStatus := Failed, taskError := ''disk full'', completedAt := Some 7\<rparr>)],
   pathLocks = [], maxTasks = 1, ttl = 60, sweepInterval = default_sweep_interval,
   cells = [''u1'' \<mapsto> \<lparr>closed = True, endStatus = Failed, endError = ''disk full'', ctxCanceled = True\<rparr>],
   panicked = False\<rparr>"
  by (simp add: m3_def m2_eq t1_def fail_def update_def update_fields_def Let_def is_end_def
      is_terminal_def fresh_task_def close_end_locked_def put_cell_def put_task_def cell_of_def
      release_paths_locked_def cancel_ctx_def new_cell_def release_lock_def)

lemma m3_cell: "cells m3 ''u1'' = Some \<lparr>closed = True, endStatus = Failed, endError = ''disk full'', ctxCanceled = True\<rparr>"
  by (simp add: m3_eq)

theorem first_end_wins_witness:
  "watch_end ''u1'' (snd (complete ''u1'' (Some ''result'') 8 m3)) = (Failed, ''disk full'')"
proof -
  let ?m = "snd (complete ''u1'' (Some ''result'') 8 m3)"
  have "mgr_step m3 ?m" by (rule mgr_step.Method, rule method_step.Complete)
  then have run: "mgr_step\<^sup>*\<^sup>* m3 ?m" by blast
  from first_end_wins [OF m3_reachable run m3_cell] show ?thesis
    by (simp add: watch_end_def cell_of_def m3_cell)
qed

text \<open>
  Claim C4. Creating a task that holds several paths is all or nothing. When a running task holds
  one of them, that task is returned with the path it holds and the manager is unchanged; when
  none does, the new task holds every path, each once, and each path's lock names it.
\<close>

theorem create_holding_all_or_nothing:
  assumes "reachable_manager m" and "cells m uuid = None" and "paths \<noteq> []"
    and "create_holding op paths uuid now m = (Some (t, k, isNew), m')"
  shows "(isNew \<longleftrightarrow> (\<forall>p \<in> set paths. map_of (pathLocks m) p = None)) \<and>
    (\<not> isNew \<longrightarrow> m' = m \<and> k \<in> set paths \<and> k \<in> set (held t) \<and> \<not> is_terminal t \<and>
       get_task (taskID t) m = Some t) \<and>
    (isNew \<longrightarrow> taskID t = uuid \<and> get_task uuid m' = Some t \<and> distinct (held t) \<and>
       set (held t) = set paths \<and> (\<forall>p \<in> set paths. map_of (pathLocks m') p = Some uuid))"
proof -
  have inv: "manager_inv m" using assms(1) by (rule reachable_inv)
  obtain p ps where u: "unique_paths paths = p # ps"
    using unique_paths_nonempty [OF assms(3)] by (cases "unique_paths paths") auto
  have us: "set (p # ps) = set paths" "distinct (p # ps)"
    using unique_paths_from_props [of "[]" paths] u by (simp_all add: unique_paths_def)
  define spec where "spec = \<lparr>nt_operation = op, nt_path = p, nt_held = p # ps, nt_subtask = False,
             nt_cancellable = False, nt_stoppable = False\<rparr>"
  have held: "nt_held spec = p # ps" by (simp add: spec_def)
  have made: "create_locked spec uuid now m = ((t, k, isNew), m')"
    using assms(4) u by (auto simp: create_holding_def spec_def apfst_def map_prod_def split: prod.splits)
  show ?thesis
  proof (cases "find (\<lambda>k. map_of (pathLocks m) k \<noteq> None) (p # ps)")
    case (Some key)
    then have key: "key \<in> set paths" "map_of (pathLocks m) key \<noteq> None"
      using us(1) find_Some_in [OF Some] by auto
    then obtain r where r: "fst (running_holder_locked key m) = Some r"
      using running_holder_None_iff [OF inv, of key] by auto
    have "t = r" "k = key" "\<not> isNew" "m' = m"
      using made Some r by (simp_all add: create_locked_eq [OF inv] held)
    then show ?thesis using running_holder_Some [OF inv r] key by (auto simp: get_task_def)
  next
    case None
    then have free: "\<forall>p \<in> set paths. map_of (pathLocks m) p = None"
      using us(1) unfolding find_None_all by auto
    let ?m1 = "insert_task spec uuid now m"
    have inv1: "manager_inv ?m1"
      using free us(1) by (intro insert_task_inv inv assms(2)) (simp add: held)
    have max: "1 \<le> maxTasks ?m1" using inv1 by (simp add: manager_inv_def)
    have new: "t = fresh_task spec uuid now" "isNew" "m' = drop_oldest_finished_locked (nt_subtask spec) ?m1"
      using made None by (simp_all add: create_locked_eq [OF inv] held)
    have "map_of (tasks ?m1) uuid = Some t" using new by (simp add: insert_task_sel)
    moreover from this have "uuid \<notin> taskID ` set (dropped_tasks sub ?m1)" for sub
      using new by (intro dropped_terminal [OF inv1]) auto
    ultimately have "get_task uuid m' = Some t"
      by (simp add: get_task_def new(3) drop_oldest_tasks [OF max])
    moreover have "pathLocks m' = pathLocks ?m1" by (simp add: new(3) drop_oldest_eq [OF max])
    ultimately show ?thesis using new free us by (simp add: held insert_task_sel)
  qed
qed

theorem create_holding_all_or_nothing_witness:
  "\<exists>t m'. create_holding ''compress'' [''/a'', ''/a.zst'', ''/a''] ''u9'' 3 m0 = (Some (t, '''', True), m') \<and>
     held t = [''/a'', ''/a.zst''] \<and> map_of (pathLocks m') ''/a.zst'' = Some ''u9''"
proof -
  let ?r = "create_holding ''compress'' [''/a'', ''/a.zst'', ''/a''] ''u9'' 3 m0"
  have "fst ?r = Some (fresh_task \<lparr>nt_operation = ''compress'', nt_path = ''/a'',
      nt_held = [''/a'', ''/a.zst''], nt_subtask = False, nt_cancellable = False, nt_stoppable = False\<rparr> ''u9'' 3, '''', True)"
    by (simp add: create_holding_def unique_paths_def run_defs)
  then obtain t m' where r: "?r = (Some (t, '''', True), m')" "held t = [''/a'', ''/a.zst'']"
    by (cases ?r) (auto simp: fresh_task_def)
  have "reachable_manager m0" "cells m0 ''u9'' = None"
    by (auto simp: m0_def reachable_new) (simp add: new_manager_def)
  from create_holding_all_or_nothing [OF this _ r(1)] r show ?thesis by auto
qed

text \<open>
  Claim C12. The cap. After a creating call the finished tasks of the new task's class are fewer
  than the cap, by one at least, so that the class stays within it when the new task ends. The
  cap removes nothing else: every task that left was a finished one of that class, none of which
  ended later than a finished one that stayed, and unfinished tasks all stay.
\<close>

theorem create_respects_cap:
  assumes "reachable_manager m" and "cells m uuid = None"
    and "create_locked spec uuid now m = ((t, k, True), m')"
  shows "int (length (finished_of_class (nt_subtask spec) m')) + 1 \<le> maxTasks m' \<and>
    (\<forall>i u. get_task i m = Some u \<and> get_task i m' \<noteq> Some u \<longrightarrow>
       get_task i m' = None \<and> is_terminal u \<and> subtask u = nt_subtask spec \<and>
       (\<forall>v \<in> set (finished_of_class (nt_subtask spec) m').
          the (completedAt u) \<le> the (completedAt v)))"
proof -
  have inv: "manager_inv m" using assms(1) by (rule reachable_inv)
  let ?sub = "nt_subtask spec" and ?m1 = "insert_task spec uuid now m"
  have none: "find (\<lambda>k. map_of (pathLocks m) k \<noteq> None) (nt_held spec) = None"
    using assms(3) by (auto simp: create_locked_eq [OF inv] split: option.splits)
  have inv1: "manager_inv ?m1"
    using none by (intro insert_task_inv inv assms(2)) (auto simp: find_None_all)
  have max: "1 \<le> maxTasks ?m1" using inv1 by (simp add: manager_inv_def)
  have m': "m' = drop_oldest_finished_locked ?sub ?m1"
    using assms(3) none by (simp add: create_locked_eq [OF inv])
  have absent: "map_of (tasks m) uuid = None"
    using inv assms(2) unfolding manager_inv_def by (metis option.exhaust option.simps(3))
  have "get_task i m' = None \<and> is_terminal u \<and> subtask u = ?sub \<and>
       (\<forall>v \<in> set (finished_of_class ?sub m'). the (completedAt u) \<le> the (completedAt v))"
    if u: "get_task i m = Some u" and gone: "get_task i m' \<noteq> Some u" for i u
  proof -
    have u1: "map_of (tasks ?m1) i = Some u"
      using u absent by (auto simp: insert_task_sel get_task_def)
    then have i: "i \<in> taskID ` set (dropped_tasks ?sub ?m1)"
      using gone by (auto simp: m' get_task_def drop_oldest_tasks [OF max] split: if_splits)
    then obtain w where w: "w \<in> set (dropped_tasks ?sub ?m1)" "taskID w = i" by auto
    then have "w \<in> set (finished_of_class ?sub ?m1)" using set_dropped_tasks by blast
    from finished_of_class_task [OF inv1 this] w(2) u1 have "w = u" "is_terminal u" "subtask u = ?sub"
      by simp_all
    moreover have "the (completedAt u) \<le> the (completedAt v)"
      if "v \<in> set (finished_of_class ?sub m')" for v
      using that dropped_oldest [OF w(1), of v] \<open>w = u\<close>
      by (auto simp: m' finished_after_drop [OF inv1])
    ultimately show ?thesis
      using i by (simp add: m' get_task_def drop_oldest_tasks [OF max])
  qed
  moreover have "int (length (finished_of_class ?sub m')) + 1 \<le> maxTasks m'"
    using length_finished_after_drop [OF inv1, of ?sub]
    by (simp only: m') (simp add: drop_oldest_eq [OF max])
  ultimately show ?thesis by blast
qed

text \<open>With a cap of one, the finished task of \<^verbatim>\<open>m3\<close> leaves when the next one is made.\<close>

definition spec_b :: new_task where
  "spec_b = \<lparr>nt_operation = ''index'', nt_path = ''/b'', nt_held = [''/b''], nt_subtask = False,
     nt_cancellable = False, nt_stoppable = False\<rparr>"

lemma m3_create: "\<exists>t m'. create_locked spec_b ''u2'' 9 m3 = ((t, '''', True), m')"
  by (simp add: m3_eq create_locked_def spec_b_def running_holder_locked_def Let_def)

theorem create_respects_cap_witness:
  "\<exists>t m'. create_locked spec_b ''u2'' 9 m3 = ((t, '''', True), m') \<and> finished_of_class False m' = []"
proof -
  obtain t m' where r: "create_locked spec_b ''u2'' 9 m3 = ((t, '''', True), m')"
    using m3_create by blast
  have "maxTasks m' = 1"
    using arg_cong [OF r, of "\<lambda>x. maxTasks (snd x)"]
    by (simp add: m3_eq create_locked_def spec_b_def running_holder_locked_def Let_def
        drop_oldest_finished_locked_def put_task_def put_cell_def split: if_splits)
  moreover have "cells m3 ''u2'' = None" by (simp add: m3_eq)
  ultimately show ?thesis
    using create_respects_cap [OF m3_reachable _ r] r by (auto simp: spec_b_def)
qed

text \<open>
  Claim C13. After a successful settle the task is never cancelled: in no later state is it
  cancelled or cancelling in the table, no watch of it ever says it was cancelled, and every
  Cancel of it is refused, as ended when the task is cancellable, and leaves the whole manager as
  it was, the task and its context included. This holds whatever calls come between, as long as
  none is an Update that itself sets this task cancelled or cancelling, which none of the
  repository's callers makes. So a worker that has settled may write its answer.
\<close>

theorem settled_never_cancelled:
  assumes "reachable_manager m" and "settle i m = (True, m')" and "(uncancelled_step i)\<^sup>*\<^sup>* m' m''"
  shows "(\<forall>t. get_task i m'' = Some t \<longrightarrow> taskStatus t \<noteq> Cancelled \<and> taskStatus t \<noteq> Cancelling) \<and>
    (closed (cell_of m'' i) \<longrightarrow> fst (watch_end i m'') \<noteq> Cancelled) \<and>
    cancel i now m'' = (Some (case get_task i m'' of None \<Rightarrow> ErrTaskNotFound
      | Some t \<Rightarrow> if cancellable t then ErrTaskEnded else ErrNotCancellable), m'')"
proof -
  have inv: "manager_inv m" using assms(1) by (rule reachable_inv)
  have "mgr_step m m'" using mgr_step.Method [OF method_step.Settle, of m i] assms(2) by simp
  then have inv': "manager_inv m'" by (rule mgr_step_inv [OF inv])
  obtain t where t: "map_of (tasks m) i = Some t" "m' = put_task (t\<lparr>settled := True\<rparr>) m"
    "taskStatus t \<noteq> Cancelled" "taskStatus t \<noteq> Cancelling"
    using assms(2) by (auto simp: settle_def split: option.splits if_splits)
  obtain c where c: "cells m i = Some c" "task_ok i t c" "taskID t = i" using manager_inv_task [OF inv t(1)] by metis
  have "settled_safe i m'"
    using t c by (cases "is_terminal t")
      (auto simp: settled_safe_def put_task_def map_of_update task_ok_def cell_ok_def is_terminal_def)
  from uncancelled_run [OF assms(3) inv' this] show ?thesis using settled_safe_cancel by blast
qed

theorem settled_never_cancelled_witness:
  "\<exists>m'. settle ''u1'' m2 = (True, m') \<and> fst (cancel ''u1'' 8 m') = Some ErrTaskEnded \<and>
     fst (watch_end ''u1'' (snd (complete ''u1'' None 9 (snd (cancel ''u1'' 8 m'))))) = Completed"
proof -
  define m' where "m' = snd (settle ''u1'' m2)"
  have s: "settle ''u1'' m2 = (True, m')"
    unfolding m'_def by (simp add: settle_def m2_eq t1_def fresh_task_def)
  let ?m = "snd (complete ''u1'' None 9 (snd (cancel ''u1'' 8 m')))"
  have run: "(uncancelled_step ''u1'')\<^sup>*\<^sup>* m' ?m"
    by (meson method_step.Cancel method_step.Complete uncancelled_step.Method r_into_rtranclp rtranclp.rtrancl_into_rtrancl)
  have e: "watch_end ''u1'' ?m = (Completed, '''')" "closed (cell_of ?m ''u1'')"
    unfolding m'_def
    by (simp_all add: settle_def m2_eq t1_def fresh_task_def cancel_def complete_def update_def
        update_fields_def put_task_def is_terminal_def is_end_def close_end_locked_def put_cell_def
        cell_of_def release_paths_locked_def cancel_ctx_def new_cell_def release_lock_def watch_end_def Let_def)
  have "fst (watch_end ''u1'' ?m) \<noteq> Cancelled"
    using settled_never_cancelled [OF m2_reachable s run] e(2) by blast
  have "get_task ''u1'' m' = Some (t1\<lparr>settled := True\<rparr>)" "cancellable (t1\<lparr>settled := True\<rparr>)"
    unfolding m'_def by (simp_all add: settle_def m2_eq t1_def fresh_task_def put_task_def get_task_def)
  then have "fst (cancel ''u1'' 8 m') = Some ErrTaskEnded"
    using settled_never_cancelled [OF m2_reachable s rtranclp.rtrancl_refl, of 8] by simp
  then show ?thesis using s e(1) by auto
qed



text \<open>
  Claim C15. A sweep removes exactly the finished tasks that ended more than the retention time
  ago, counts them, and leaves every other task, every lock and every watch as it was.
\<close>

theorem sweep_removes_expired:
  assumes "reachable_manager m" and "sweep now m = (n, m')"
  shows "get_task i m' = (case get_task i m of None \<Rightarrow> None
      | Some t \<Rightarrow> if is_terminal t \<and> now - the (completedAt t) > ttl m then None else Some t) \<and>
    n + table_size m' = table_size m \<and> pathLocks m' = pathLocks m \<and> cells m' = cells m"
proof -
  have inv: "manager_inv m" using assms(1) by (rule reachable_inv)
  have m': "n = length (filter (\<lambda>e. expired now m (snd e)) (tasks m))"
    "m' = m\<lparr>tasks := fold (\<lambda>e ts. AList.delete (fst e) ts) (filter (\<lambda>e. expired now m (snd e)) (tasks m)) (tasks m)\<rparr>"
    using trans [OF assms(2) [symmetric] sweep_eq [OF inv]] by (simp_all only: prod.inject)
  have ended: "expired now m t \<longleftrightarrow> is_terminal t \<and> now - the (completedAt t) > ttl m"
    if t: "map_of (tasks m) i = Some t" for i t
  proof -
    obtain c where "task_ok i t c" using manager_inv_task [OF inv t] by metis
    then show ?thesis by (auto simp: expired_def task_ok_def)
  qed
  have "map_of (tasks m') i = (case map_of (tasks m) i of Some t \<Rightarrow> if expired now m t then None else Some t | None \<Rightarrow> None)"
    using sweep_tasks [OF inv, of now i] assms(2) by simp
  then have "get_task i m' = (case get_task i m of None \<Rightarrow> None
      | Some t \<Rightarrow> if is_terminal t \<and> now - the (completedAt t) > ttl m then None else Some t)"
    using ended by (auto simp: get_task_def split: option.splits)
  moreover have "tasks m' = filter (\<lambda>e. \<not> expired now m (snd e)) (tasks m)"
    using inv
    by (auto simp: m' fold_delete_filter manager_inv_def intro!: filter_cong dest: eq_key_imp_eq_value)
  then have "n + table_size m' = table_size m"
    using sum_length_filter_compl [of "\<lambda>e. expired now m (snd e)" "tasks m"] by (simp add: m'(1) table_size_def)
  ultimately show ?thesis by (simp add: m'(2))
qed

theorem sweep_removes_expired_witness:
  "get_task ''u1'' (snd (sweep 67 m3)) = get_task ''u1'' m3 \<and> get_task ''u1'' (snd (sweep 68 m3)) = None"
proof -
  have t: "get_task ''u1'' m3 = Some (t1\<lparr>taskStatus := Failed, taskError := ''disk full'', completedAt := Some 7\<rparr>)"
    "ttl m3 = 60" by (simp_all add: get_task_def m3_eq)
  have "get_task ''u1'' (snd (sweep now m3)) = (if now - 7 > 60 then None else get_task ''u1'' m3)" for now
    using sweep_removes_expired [OF m3_reachable surjective_pairing, of "''u1''" now] t
    by (simp add: is_terminal_def is_end_def)
  then show ?thesis by simp
qed

end
