(* ===== verification/Lines.thy ===== *)
theory Lines
  imports Prelude
begin

text \<open>
  Cutting a stream of text into lines: the splitter of \<^verbatim>\<open>internal/sigscan/lines.go\<close>. The text
  comes in pieces of any size; a line that spans pieces is carried as its first bytes and its
  length. The theorem says that the pieces do not matter: the line function sees the lines of the
  whole text, with the views the whole lines have.
\<close>

section \<open>Lines and their views\<close>

text \<open>\<^verbatim>\<open>line\<close> of \<^verbatim>\<open>walk.go\<close>: a line of the text as the matchers see it.\<close>

record line =
  lview :: bytes
  llength :: int
  lstart :: int
  lnext :: int
  lshift :: int
  stamped :: bool
  stampMs :: int
  stampOff :: int

definition utf8BOM :: bytes where "utf8BOM = [0xEF, 0xBB, 0xBF]"

definition last_byte :: "bytes \<Rightarrow> byte" where
  "last_byte b = (if b = [] then 0 else last b)"

definition is_blank :: "bytes \<Rightarrow> bool" where
  "is_blank v = list_all (\<lambda>c. c = 32 \<or> c = 9) v"

text \<open>The three cuts of \<^verbatim>\<open>lineView\<close>, in the code's order.\<close>

definition drop_cr :: "bytes \<Rightarrow> int \<Rightarrow> byte \<Rightarrow> bool \<Rightarrow> bytes \<times> int" where
  "drop_cr content len lst ended =
     (if ended \<and> len > 0 \<and> lst = carriage_return
      then (if int (length content) > len - 1 then take (nat (len - 1)) content else content, len - 1)
      else (content, len))"

definition drop_bom :: "bytes \<Rightarrow> int \<Rightarrow> int \<Rightarrow> bytes \<times> int \<times> int" where
  "drop_bom content len start =
     (if start = 0 \<and> len \<ge> int (length utf8BOM) \<and> take (length utf8BOM) content = utf8BOM
      then (drop (length utf8BOM) content, len - int (length utf8BOM), int (length utf8BOM))
      else (content, len, 0))"

definition line_view :: "bytes \<Rightarrow> int \<Rightarrow> byte \<Rightarrow> int \<Rightarrow> bool \<Rightarrow> nat \<Rightarrow> bytes \<times> int \<times> int" where
  "line_view content len lst start ended lineBytes =
     (case drop_cr content len lst ended of (content1, len1) \<Rightarrow>
      case drop_bom content1 len1 start of (content2, len2, shift) \<Rightarrow>
        (if length content2 > lineBytes then take lineBytes content2 else content2, len2, shift))"

section \<open>The splitter\<close>

text \<open>
  The line function keeps a state of its own and says whether to go on; the splitter holds that
  state.
\<close>

type_synonym 's line_func = "'s \<Rightarrow> line \<Rightarrow> 's \<times> bool"

record 's splitter =
  lineBytes :: nat
  sp_pos :: int
  sp_limit :: int
  partialStart :: int
  partial :: bytes
  partialLen :: int
  partialLast :: byte
  sp_keep :: nat
  sp_stopped :: bool
  sp_state :: 's

definition no_limit :: int where "no_limit = 2 ^ 63 - 1"

definition new_splitter :: "nat \<Rightarrow> int \<Rightarrow> int \<Rightarrow> 's \<Rightarrow> 's splitter" where
  "new_splitter lb pos limit st =
     \<lparr>lineBytes = lb, sp_pos = pos, sp_limit = limit, partialStart = 0, partial = [],
      partialLen = 0, partialLast = 0, sp_keep = lb + length utf8BOM, sp_stopped = False,
      sp_state = st\<rparr>"

definition emit ::
  "'s line_func \<Rightarrow> bytes \<Rightarrow> int \<Rightarrow> byte \<Rightarrow> int \<Rightarrow> bool \<Rightarrow> 's splitter \<Rightarrow> 's splitter" where
  "emit fn content len lst start ended s =
     (case line_view content len lst start ended (lineBytes s) of (v, vlen, shift) \<Rightarrow>
        let next = (if ended then start + len + 1 else start + len);
            l = \<lparr>lview = v, llength = vlen, lstart = start, lnext = next, lshift = shift,
                 stamped = False, stampMs = 0, stampOff = 0\<rparr>
        in case fn (sp_state s) l of (st, go) \<Rightarrow>
             s\<lparr>sp_state := st, sp_stopped := (if go then sp_stopped s else True)\<rparr>)"

definition add_partial :: "bytes \<Rightarrow> 's splitter \<Rightarrow> 's splitter" where
  "add_partial b s =
     (if b = [] then s
      else (let s1 = (if partialLen s = 0 then s\<lparr>partialStart := sp_pos s\<rparr> else s);
                room = int (sp_keep s) - int (length (partial s));
                s2 = (if room > 0 then s1\<lparr>partial := partial s @ take (min (nat room) (length b)) b\<rparr> else s1)
            in s2\<lparr>partialLen := partialLen s + int (length b), partialLast := last b,
                  sp_pos := sp_pos s + int (length b)\<rparr>))"

text \<open>One line of \<^verbatim>\<open>push\<close>: the piece holds a line break at \<open>i\<close>.\<close>

definition push_line :: "'s line_func \<Rightarrow> bytes \<Rightarrow> nat \<Rightarrow> 's splitter \<Rightarrow> 's splitter" where
  "push_line fn data i s =
     (if partialLen s = 0
      then emit fn (take i data) (int i) (last_byte (take i data)) (sp_pos s) True
             (s\<lparr>sp_pos := sp_pos s + int i + 1\<rparr>)
      else (let s1 = add_partial (take i data) s;
                s2 = s1\<lparr>sp_pos := sp_pos s1 + 1\<rparr>;
                s3 = emit fn (partial s2) (partialLen s2) (partialLast s2) (partialStart s2) True s2
            in s3\<lparr>partial := [], partialLen := 0\<rparr>))"

text \<open>\<^verbatim>\<open>push\<close> answers whether the walk goes on: \<open>\<not> sp_stopped\<close> of the splitter it leaves.\<close>

function push :: "'s line_func \<Rightarrow> bytes \<Rightarrow> 's splitter \<Rightarrow> 's splitter" where
  "push fn data s =
     (if data = [] then s
      else if sp_stopped s then s
      else if partialLen s = 0 \<and> sp_pos s > sp_limit s then s\<lparr>sp_stopped := True\<rparr>
      else case index_byte newline data of
             None \<Rightarrow> add_partial data s
           | Some i \<Rightarrow> push fn (drop (Suc i) data) (push_line fn data i s))"
  by pat_completeness auto
termination
  by (relation "measure (\<lambda>(fn, data, s). length data)") (auto dest: index_byte_Some)

declare push.simps [simp del]

definition finish :: "'s line_func \<Rightarrow> 's splitter \<Rightarrow> 's splitter" where
  "finish fn s =
     (if partialLen s > 0 \<and> \<not> sp_stopped s
      then (emit fn (partial s) (partialLen s) (partialLast s) (partialStart s) False s)
             \<lparr>partial := [], partialLen := 0\<rparr>
      else s)"

section \<open>The lines of a text\<close>

text \<open>
  The reference: the lines of a text whose first byte is at offset \<open>start\<close>, each made from its
  whole content; and feeding them to a line function up to the first that starts after a limit.
\<close>

definition mk_line :: "nat \<Rightarrow> int \<Rightarrow> bytes \<Rightarrow> bool \<Rightarrow> line" where
  "mk_line lb start content ended =
     (case line_view content (int (length content)) (last_byte content) start ended lb of (v, vlen, shift) \<Rightarrow>
        \<lparr>lview = v, llength = vlen, lstart = start,
         lnext = start + int (length content) + (if ended then 1 else 0), lshift = shift,
         stamped = False, stampMs = 0, stampOff = 0\<rparr>)"

function text_lines :: "nat \<Rightarrow> int \<Rightarrow> bytes \<Rightarrow> line list" where
  "text_lines lb start text =
     (if text = [] then []
      else case index_byte newline text of
             None \<Rightarrow> [mk_line lb start text False]
           | Some i \<Rightarrow> mk_line lb start (take i text) True
                        # text_lines lb (start + int i + 1) (drop (Suc i) text))"
  by pat_completeness auto
termination
  by (relation "measure (\<lambda>(lb, start, text). length text)") (auto dest: index_byte_Some)

declare text_lines.simps [simp del]

fun feed_lines :: "'s line_func \<Rightarrow> int \<Rightarrow> line list \<Rightarrow> 's \<Rightarrow> 's \<times> bool" where
  "feed_lines fn limit [] st = (st, False)"
| "feed_lines fn limit (l # ls) st =
     (if lstart l > limit then (st, True)
      else case fn st l of (st', go) \<Rightarrow> if go then feed_lines fn limit ls st' else (st', True))"

section \<open>A carried line has the view of the whole line\<close>

lemma mk_line_sel [simp]:
  "lstart (mk_line lb start content ended) = start"
  "lnext (mk_line lb start content ended) =
     start + int (length content) + (if ended then 1 else 0)"
  by (simp_all add: mk_line_def split: prod.splits)

lemma drop_cr_prefix:
  assumes "len = int (length full)"
  shows "drop_cr (take k full) len lst ended =
    (take k (fst (drop_cr full len lst ended)), snd (drop_cr full len lst ended))"
  using assms by (auto simp: drop_cr_def min_def nat_diff_distrib)

lemma drop_bom_prefix:
  "snd (drop_bom (take (lb + length utf8BOM) c) n start) = snd (drop_bom c n start)"
  "take lb (fst (drop_bom (take (lb + length utf8BOM) c) n start)) = take lb (fst (drop_bom c n start))"
  by (simp_all add: drop_bom_def drop_take min_def)

lemma line_view_alt:
  "line_view content len lst ended_start ended lb =
     (let c = drop_cr content len lst ended; d = drop_bom (fst c) (snd c) ended_start
      in (take lb (fst d), snd d))"
  by (simp add: line_view_def Let_def split: prod.splits)

lemma line_view_prefix:
  assumes len: "len = int (length full)"
  shows "line_view (take (lb + length utf8BOM) full) len lst start ended lb =
    line_view full len lst start ended lb"
  by (simp add: line_view_alt Let_def drop_cr_prefix [OF len] drop_bom_prefix)

section \<open>The pieces do not matter\<close>

text \<open>
  What an unstopped splitter remembers of the line it is in: \<open>p\<close> is the part of that line pushed
  so far, whole.
\<close>

definition carries :: "'s splitter \<Rightarrow> bytes \<Rightarrow> bool" where
  "carries s p \<longleftrightarrow>
     \<not> sp_stopped s \<and> newline \<notin> set p \<and> partialLen s = int (length p) \<and>
     partial s = take (lineBytes s + length utf8BOM) p \<and>
     sp_keep s = lineBytes s + length utf8BOM \<and>
     (p \<noteq> [] \<longrightarrow> partialLast s = last p \<and> partialStart s = sp_pos s - int (length p) \<and>
        partialStart s \<le> sp_limit s)"

definition line_start :: "'s splitter \<Rightarrow> bytes \<Rightarrow> int" where
  "line_start s p = sp_pos s - int (length p)"

lemma carries_new: "carries (new_splitter lb pos limit st) []"
  by (simp add: carries_def new_splitter_def)

lemma emit_whole:
  assumes "content = take (lineBytes s + length utf8BOM) full" and "len = int (length full)"
    and "lst = last_byte full"
  shows "emit fn content len lst start ended s =
    (case fn (sp_state s) (mk_line (lineBytes s) start full ended) of (st, go) \<Rightarrow>
       s\<lparr>sp_state := st, sp_stopped := (if go then sp_stopped s else True)\<rparr>)"
  using assms by (simp add: emit_def mk_line_def line_view_prefix Let_def split: prod.splits)

lemma take_last_byte:
  assumes "content = take k full" "length full \<le> k \<or> content = full"
  shows "content = full"
  using assms by auto

lemma text_lines_break:
  assumes "newline \<notin> set p" and "index_byte newline d = Some i"
  shows "text_lines lb start (p @ d @ e) =
    mk_line lb start (p @ take i d) True
      # text_lines lb (start + int (length p + i) + 1) (drop (Suc i) d @ e)"
proof -
  have i: "i < length d" using assms(2) by (auto dest: index_byte_Some)
  have "index_byte newline (p @ d @ e) = Some (length p + i)"
    using assms by (simp add: index_byte_append index_byte_append_Some)
  moreover have "p @ d @ e \<noteq> []" using i by auto
  ultimately show ?thesis
    using i by (subst text_lines.simps) (simp add: Suc_diff_le algebra_simps)
qed

lemma add_partial_carries:
  assumes s: "carries s p" and d: "newline \<notin> set d"
    and limit: "\<not> (partialLen s = 0 \<and> sp_pos s > sp_limit s)"
  shows "carries (add_partial d s) (p @ d)" and "line_start (add_partial d s) (p @ d) = line_start s p"
    and "sp_state (add_partial d s) = sp_state s" and "lineBytes (add_partial d s) = lineBytes s"
    and "sp_limit (add_partial d s) = sp_limit s"
proof -
  define k where "k = lineBytes s + length utf8BOM"
  have c: "\<not> sp_stopped s" "newline \<notin> set p" "partialLen s = int (length p)" "partial s = take k p"
    "sp_keep s = k" using s by (simp_all add: carries_def k_def)
  have room: "nat (int k - int (length p)) = k - length p" by linarith
  have "partial (add_partial d s) = take k (p @ d) \<and> sp_state (add_partial d s) = sp_state s \<and>
      lineBytes (add_partial d s) = lineBytes s \<and> sp_limit (add_partial d s) = sp_limit s \<and>
      sp_keep (add_partial d s) = sp_keep s \<and> sp_stopped (add_partial d s) = sp_stopped s \<and>
      partialLen (add_partial d s) = int (length (p @ d)) \<and>
      sp_pos (add_partial d s) = sp_pos s + int (length d)"
  proof (cases "length p < k")
    case True
    then show ?thesis using c room by (simp add: add_partial_def Let_def min_def)
  next
    case False
    then show ?thesis using c by (simp add: add_partial_def Let_def)
  qed
  moreover have "partialLast (add_partial d s) = last (p @ d)"
    "partialStart (add_partial d s) = line_start s p" "line_start s p \<le> sp_limit s" if "p @ d \<noteq> []"
    using that s limit
    by (cases "d = []"; cases "p = []"; simp add: add_partial_def carries_def line_start_def Let_def)+
  ultimately show "carries (add_partial d s) (p @ d)" "line_start (add_partial d s) (p @ d) = line_start s p"
    "sp_state (add_partial d s) = sp_state s" "lineBytes (add_partial d s) = lineBytes s"
    "sp_limit (add_partial d s) = sp_limit s"
    using c d by (simp_all add: carries_def line_start_def k_def)
qed

lemma push_line_whole:
  assumes s: "carries s p" and i: "i < length d" "newline \<notin> set (take i d)"
    and limit: "\<not> (partialLen s = 0 \<and> sp_pos s > sp_limit s)"
    and fn: "fn (sp_state s) (mk_line (lineBytes s) (line_start s p) (p @ take i d) True) = (st, go)"
  shows "lineBytes (push_line fn d i s) = lineBytes s" and "sp_limit (push_line fn d i s) = sp_limit s"
    and "sp_state (push_line fn d i s) = st" and "sp_stopped (push_line fn d i s) = (\<not> go)"
    and "go \<Longrightarrow> carries (push_line fn d i s) []"
    and "line_start (push_line fn d i s) [] = line_start s p + int (length p + i) + 1"
proof -
  let ?full = "p @ take i d"
  have "\<exists>s2. push_line fn d i s = s2\<lparr>sp_state := st, sp_stopped := \<not> go\<rparr> \<and> lineBytes s2 = lineBytes s \<and>
      sp_limit s2 = sp_limit s \<and> sp_keep s2 = sp_keep s \<and> partial s2 = [] \<and> partialLen s2 = 0 \<and>
      sp_pos s2 = line_start s p + int (length ?full) + 1"
  proof (cases "p = []")
    case True
    let ?s2 = "s\<lparr>sp_pos := sp_pos s + int i + 1\<rparr>"
    have "push_line fn d i s = emit fn (take i d) (int i) (last_byte (take i d)) (sp_pos s) True ?s2"
      using True s by (simp add: push_line_def carries_def)
    also have "\<dots> = ?s2\<lparr>sp_state := st, sp_stopped := \<not> go\<rparr>"
      using True s fn i by (auto simp: emit_def mk_line_def carries_def line_start_def Let_def split: prod.splits)
    finally show ?thesis
      using True s i by (intro exI [of _ ?s2]) (simp add: carries_def line_start_def)
  next
    case False
    let ?s1 = "add_partial (take i d) s"
    let ?s2 = "?s1\<lparr>sp_pos := sp_pos ?s1 + 1\<rparr>"
    note a = add_partial_carries [OF s i(2) limit]
    have c: "partial ?s2 = take (lineBytes ?s2 + length utf8BOM) ?full" "partialLen ?s2 = int (length ?full)"
      "partialLast ?s2 = last_byte ?full" "partialStart ?s2 = line_start s p" "partialLen s \<noteq> 0"
      using a(1,2,4) False s by (auto simp: carries_def last_byte_def line_start_def)
    have "emit fn (partial ?s2) (partialLen ?s2) (partialLast ?s2) (partialStart ?s2) True ?s2 =
        ?s2\<lparr>sp_state := st, sp_stopped := \<not> go\<rparr>"
      using a(1,3,4) c(4) fn unfolding emit_whole [OF c(1-3)] by (simp add: carries_def)
    then have "push_line fn d i s = (?s2\<lparr>sp_state := st, sp_stopped := \<not> go\<rparr>)\<lparr>partial := [], partialLen := 0\<rparr>"
      using c(5) unfolding push_line_def Let_def by (simp only: if_False)
    then show ?thesis
      using a i by (intro exI [of _ "?s2\<lparr>partial := [], partialLen := 0\<rparr>"])
        (auto simp: carries_def line_start_def s [unfolded carries_def])
  qed
  then show "lineBytes (push_line fn d i s) = lineBytes s" "sp_limit (push_line fn d i s) = sp_limit s"
    "sp_state (push_line fn d i s) = st" "sp_stopped (push_line fn d i s) = (\<not> go)"
    "go \<Longrightarrow> carries (push_line fn d i s) []"
    "line_start (push_line fn d i s) [] = line_start s p + int (length p + i) + 1"
    using s i by (auto simp: carries_def line_start_def)
qed

text \<open>
  One piece: feeding the rest of the text from before the piece is feeding it from after, or the
  splitter has stopped where the reference stops.
\<close>

lemma push_feed:
  assumes "carries s p" and "s' = push fn d s"
  shows "lineBytes s' = lineBytes s \<and> sp_limit s' = sp_limit s \<and>
    (if sp_stopped s'
     then feed_lines fn (sp_limit s) (text_lines (lineBytes s) (line_start s p) (p @ d @ e)) (sp_state s)
            = (sp_state s', True)
     else \<exists>p'. carries s' p' \<and>
       feed_lines fn (sp_limit s) (text_lines (lineBytes s) (line_start s p) (p @ d @ e)) (sp_state s)
         = feed_lines fn (sp_limit s) (text_lines (lineBytes s) (line_start s' p') (p' @ e)) (sp_state s'))"
  using assms
proof (induction fn d s arbitrary: p s' rule: push.induct)
  case (1 fn d s)
  note s' = "1.prems"(2) and car = "1.prems"(1) and IH = "1.IH"
  consider (empty) "d = []" | (limit) "d \<noteq> []" "partialLen s = 0" "sp_pos s > sp_limit s"
    | (cont) "d \<noteq> []" "\<not> (partialLen s = 0 \<and> sp_pos s > sp_limit s)" "index_byte newline d = None"
    | (brk) i where "d \<noteq> []" "\<not> (partialLen s = 0 \<and> sp_pos s > sp_limit s)" "index_byte newline d = Some i"
    by fastforce
  then show ?case
  proof cases
    case empty
    then have "s' = s" unfolding s' by (subst push.simps) simp
    then show ?thesis using car empty by (auto simp: carries_def)
  next
    case limit
    then have "push fn d s = s\<lparr>sp_stopped := True\<rparr>"
      using car by (subst push.simps) (simp add: carries_def)
    moreover have "p = []" using car limit by (simp add: carries_def)
    moreover have "\<exists>l ls. text_lines lb start (d @ e) = l # ls \<and> lstart l = start" for lb start
      using limit(1) by (subst text_lines.simps) (auto split: option.splits)
    then obtain l ls where "text_lines (lineBytes s) (sp_pos s) (d @ e) = l # ls" "lstart l = sp_pos s"
      by blast
    ultimately show ?thesis using limit by (simp add: line_start_def s')
  next
    case cont
    then have "push fn d s = add_partial d s"
      using car by (subst push.simps) (auto simp: carries_def)
    moreover have "newline \<notin> set d" using cont by (simp add: index_byte_None)
    moreover note add_partial_carries [OF car this cont(2)]
    moreover have "\<not> sp_stopped (add_partial d s)" using calculation(3) by (simp add: carries_def)
    ultimately show ?thesis by (auto simp: s' intro!: exI [of _ "p @ d"])
  next
    case brk
    let ?s1 = "push_line fn d i s"
    have push: "push fn d s = push fn (drop (Suc i) d) ?s1"
      using brk car by (subst push.simps) (auto simp: carries_def)
    have i: "i < length d" "newline \<notin> set (take i d)" using brk by (auto dest: index_byte_Some)
    let ?full = "p @ take i d"
    obtain st go where fn: "fn (sp_state s) (mk_line (lineBytes s) (line_start s p) ?full True) = (st, go)"
      by force
    have s1: "lineBytes ?s1 = lineBytes s" "sp_limit ?s1 = sp_limit s" "sp_state ?s1 = st"
      "sp_stopped ?s1 = (\<not> go)" "go \<Longrightarrow> carries ?s1 []"
      "line_start ?s1 [] = line_start s p + int (length p + i) + 1"
      using push_line_whole [OF car i brk(2), of fn st go] fn by simp_all
    have start: "line_start s p \<le> sp_limit s"
      using car brk(2) by (auto simp: carries_def line_start_def)
    have feed: "feed_lines fn (sp_limit s) (text_lines (lineBytes s) (line_start s p) (p @ d @ e)) (sp_state s) =
        (if go then feed_lines fn (sp_limit s)
            (text_lines (lineBytes s) (line_start ?s1 []) (drop (Suc i) d @ e)) st else (st, True))"
      using car brk(3) start fn s1(6) by (simp add: text_lines_break carries_def)
    show ?thesis
    proof (cases go)
      case True
      have "\<not> sp_stopped s" using car by (simp add: carries_def)
      note ih = IH [OF brk(1) this brk(2,3) s1(5) [OF True] refl, unfolded s1(1,2,3) append_Nil]
      show ?thesis unfolding s' push feed if_P [OF True] by (rule ih)
    next
      case False
      have "push fn x ?s1 = ?s1" for x
        using s1(4) False by (subst push.simps) simp
      then show ?thesis unfolding s' push feed using s1 False by simp
    qed
  qed
qed

lemma finish_feed:
  assumes "carries s p"
  shows "feed_lines fn (sp_limit s) (text_lines (lineBytes s) (line_start s p) p) (sp_state s) =
    (sp_state (finish fn s), sp_stopped (finish fn s))"
proof (cases "p = []")
  case True
  then show ?thesis
    using assms by (subst text_lines.simps) (simp add: finish_def carries_def)
next
  case False
  have c: "partial s = take (lineBytes s + length utf8BOM) p" "partialLen s = int (length p)"
    "partialLast s = last_byte p" "partialStart s = line_start s p" "newline \<notin> set p"
    "\<not> sp_stopped s" "line_start s p \<le> sp_limit s"
    using assms False by (auto simp: carries_def last_byte_def line_start_def)
  have "text_lines (lineBytes s) (line_start s p) p = [mk_line (lineBytes s) (line_start s p) p False]"
    using False c(5) by (subst text_lines.simps) (simp add: index_byte_None [THEN iffD2])
  moreover have "emit fn (partial s) (partialLen s) (partialLast s) (partialStart s) False s =
      (case fn (sp_state s) (mk_line (lineBytes s) (line_start s p) p False) of (st, go) \<Rightarrow>
       s\<lparr>sp_state := st, sp_stopped := (if go then sp_stopped s else True)\<rparr>)"
    unfolding emit_whole [OF c(1-3)] c(4) ..
  ultimately show ?thesis
    using c False by (auto simp: finish_def split: prod.splits)
qed

lemma finish_stopped: "sp_stopped s \<Longrightarrow> finish fn s = s"
  by (simp add: finish_def)

lemma push_stopped: "sp_stopped s \<Longrightarrow> push fn d s = s"
  by (subst push.simps) simp

text \<open>All the pieces, then the end of the text.\<close>

definition split_all :: "'s line_func \<Rightarrow> bytes list \<Rightarrow> 's splitter \<Rightarrow> 's splitter" where
  "split_all fn pieces s = finish fn (fold (push fn) pieces s)"

lemma split_all_carries:
  assumes "carries s p"
  shows "feed_lines fn (sp_limit s) (text_lines (lineBytes s) (line_start s p) (p @ concat pieces)) (sp_state s) =
    (sp_state (split_all fn pieces s), sp_stopped (split_all fn pieces s))"
  using assms
proof (induction pieces arbitrary: s p)
  case Nil
  then show ?case by (simp add: split_all_def finish_feed)
next
  case (Cons d pieces)
  let ?s' = "push fn d s"
  have all: "split_all fn (d # pieces) s = split_all fn pieces ?s'" by (simp add: split_all_def)
  show ?case
  proof (cases "sp_stopped ?s'")
    case True
    have "fold (push fn) pieces ?s' = ?s'"
      using True by (induction pieces) (simp_all add: push_stopped)
    then have "split_all fn pieces ?s' = ?s'" using True by (simp add: split_all_def finish_stopped)
    then show ?thesis
      using push_feed [OF Cons.prems refl, of fn d "concat pieces"] True unfolding all by simp
  next
    case False
    then obtain p' where "carries ?s' p'" and
      "feed_lines fn (sp_limit s) (text_lines (lineBytes s) (line_start s p) (p @ d @ concat pieces)) (sp_state s)
        = feed_lines fn (sp_limit s) (text_lines (lineBytes s) (line_start ?s' p') (p' @ concat pieces)) (sp_state ?s')"
      "lineBytes ?s' = lineBytes s" "sp_limit ?s' = sp_limit s"
      using push_feed [OF Cons.prems refl, of fn d "concat pieces"] by auto
    with Cons.IH [OF this(1)] show ?thesis unfolding all by simp
  qed
qed

text \<open>
  Claim C16. Cutting a text into lines does not depend on how its bytes arrive: whatever the sizes
  of the pieces, and however long a line spanning them, the line function is called with exactly
  the lines of the whole text, in order, each with the view, length and offsets of the whole line,
  up to the first line that starts after the limit or that the function refuses; and the splitter
  says it stopped exactly then.
\<close>

theorem splitter_pieces:
  "feed_lines fn limit (text_lines lb pos (concat pieces)) st =
    (let s = split_all fn pieces (new_splitter lb pos limit st) in (sp_state s, sp_stopped s))"
  using split_all_carries [OF carries_new [of lb pos limit st], of fn pieces]
  by (simp add: new_splitter_def line_start_def Let_def)

end
