(* ===== verification/ChunkWalk.thy ===== *)
theory ChunkWalk
  imports Lines
begin

text \<open>
  Walking one chunk of a text, \<^verbatim>\<open>internal/sigscan/chunks.go\<close>: a chunk is a nominal byte range,
  and owns the lines that start inside it. Chunks next to each other meet at one line start
  wherever the nominal boundary falls, and the chunks of a text own each of its lines exactly once.
\<close>

section \<open>Cursors\<close>

text \<open>
  A cursor is what its next calls answer, in order: a piece of the text, or an error; after the
  last one it answers \<^verbatim>\<open>io.EOF\<close>.
\<close>

datatype read = Piece bytes | ReadErr string

record chunk_plan =
  cp_seq :: nat
  cp_from :: int
  cp_to :: int
  cp_frame :: nat
  cp_endFrame :: nat

text \<open>
  The first loop of \<^verbatim>\<open>walkChunk\<close>: skip to the first line that starts after \<^verbatim>\<open>from\<close>. It ends at
  the end of the text, with an error, past the chunk's end, or with the line's start, the rest of
  the piece and the cursor.
\<close>

datatype skip_result =
    SkipEnd int bool
  | SkipErr string
  | SkipFound int bytes "read list"

fun skip_to_line :: "int \<Rightarrow> int \<Rightarrow> read list \<Rightarrow> skip_result" where
  "skip_to_line to pos [] = SkipEnd pos True"
| "skip_to_line to pos (ReadErr e # reads) = SkipErr e"
| "skip_to_line to pos (Piece b # reads) =
     (case index_byte newline b of
        Some i \<Rightarrow> SkipFound (pos + int i + 1) (drop (Suc i) b) reads
      | None \<Rightarrow>
          (let pos' = pos + int (length b)
           in if pos' \<ge> to then SkipEnd pos' False else skip_to_line to pos' reads))"

text \<open>
  The second loop: \<open>ctx n\<close> is what the n-th look at the context answers.
\<close>

fun walk_pieces ::
  "'s line_func \<Rightarrow> (nat \<Rightarrow> string option) \<Rightarrow> nat \<Rightarrow> read list \<Rightarrow> 's splitter
   \<Rightarrow> (string + bool) \<times> 's splitter" where
  "walk_pieces fn ctx n [] s =
     (case ctx n of Some e \<Rightarrow> (Inl e, s)
      | None \<Rightarrow> (let s' = finish fn s in (Inr (\<not> sp_stopped s'), s')))"
| "walk_pieces fn ctx n (r # reads) s =
     (case ctx n of Some e \<Rightarrow> (Inl e, s)
      | None \<Rightarrow>
          (case r of
             ReadErr e \<Rightarrow> (Inl e, s)
           | Piece b \<Rightarrow>
               (let s' = push fn b s
                in if sp_stopped s' then (Inr False, s') else walk_pieces fn ctx (Suc n) reads s')))"

text \<open>\<^verbatim>\<open>walkChunk\<close>: where the chunk's lines start and whether the walk reached the end of the text.\<close>

definition walk_chunk ::
  "(nat \<Rightarrow> string option) \<Rightarrow> read list \<Rightarrow> chunk_plan \<Rightarrow> nat \<Rightarrow> 's line_func \<Rightarrow> 's
   \<Rightarrow> (string + int \<times> bool) \<times> 's" where
  "walk_chunk ctx reads c lb fn st =
     (case (if cp_from c > 0 then skip_to_line (cp_to c) (cp_from c) reads
            else SkipFound (cp_from c) [] reads) of
        SkipEnd pos final \<Rightarrow> (Inr (pos, final), st)
      | SkipErr e \<Rightarrow> (Inl e, st)
      | SkipFound start rest reads' \<Rightarrow>
          (let sp = push fn rest (new_splitter lb start (cp_to c) st)
           in if sp_stopped sp then (Inr (start, False), sp_state sp)
              else case walk_pieces fn ctx 0 reads' sp of
                     (Inl e, sp') \<Rightarrow> (Inl e, sp_state sp')
                   | (Inr final, sp') \<Rightarrow> (Inr (start, final), sp_state sp')))"

text \<open>\<^verbatim>\<open>walkFrom\<close>: the merge's second walk of a chunk; \<open>None\<close> is no error.\<close>

fun walk_from_pieces :: "'s line_func \<Rightarrow> read list \<Rightarrow> 's splitter \<Rightarrow> string option \<times> 's" where
  "walk_from_pieces fn [] s = (None, sp_state (finish fn s))"
| "walk_from_pieces fn (ReadErr e # reads) s = (Some e, sp_state s)"
| "walk_from_pieces fn (Piece b # reads) s =
     (let s' = push fn b s
      in if sp_stopped s' then (None, sp_state s') else walk_from_pieces fn reads s')"

definition walk_from ::
  "read list \<Rightarrow> int \<Rightarrow> int \<Rightarrow> nat \<Rightarrow> 's line_func \<Rightarrow> 's \<Rightarrow> string option \<times> 's" where
  "walk_from reads start limit lb fn st = walk_from_pieces fn reads (new_splitter lb start limit st)"

section \<open>A plain file's cursor\<close>

text \<open>
  The \<^verbatim>\<open>io.ReaderAt\<close> of the file: what a \<^verbatim>\<open>ReadAt\<close> at an offset with a buffer of some length
  fills in, and its error, \<^verbatim>\<open>io.EOF\<close> or another. The cursor's \<^verbatim>\<open>size\<close> is the file's size when the scan
  began.
\<close>

datatype read_at_error = AtEOF | ReadAtError string

type_synonym reader_at = "int \<Rightarrow> int \<Rightarrow> bytes \<times> read_at_error option"

record plain_cursor =
  pc_pos :: int
  pc_size :: int
  pc_edge :: int
  pc_readBytes :: int
  pc_edgeReadBytes :: int
  pc_progressTo :: int
  pc_progress :: int

definition err_file_changed :: string where
  "err_file_changed = ''the file changed while it was scanned''"

text \<open>The reader of a file that holds \<open>content\<close>.\<close>

definition read_at :: "bytes \<Rightarrow> int \<Rightarrow> int \<Rightarrow> bytes" where
  "read_at content pos n = take (nat n) (drop (nat pos) content)"

definition file_at :: "bytes \<Rightarrow> reader_at" where
  "file_at content pos n =
     (let got = read_at content pos n in (got, if int (length got) < n then Some AtEOF else None))"

definition plain_next :: "reader_at \<Rightarrow> plain_cursor \<Rightarrow> read option \<times> plain_cursor" where
  "plain_next r c =
     (if pc_pos c \<ge> pc_size c then (None, c)
      else (let n0 = (if pc_pos c \<ge> pc_edge c then pc_edgeReadBytes c else pc_readBytes c);
                n = min n0 (pc_size c - pc_pos c);
                (got, err) = r (pc_pos c) n
            in if int (length got) < n
               then (case err of
                       Some (ReadAtError e) \<Rightarrow> (Some (ReadErr e), c)
                     | _ \<Rightarrow> (Some (ReadErr err_file_changed), c))
               else (Some (Piece got),
                     c\<lparr>pc_progress := (if pc_pos c < pc_progressTo c
                          then pc_progress c + (min (pc_pos c + n) (pc_progressTo c) - pc_pos c)
                          else pc_progress c),
                       pc_pos := pc_pos c + n\<rparr>)))"

text \<open>The answers of up to \<open>fuel\<close> calls: fuel \<open>size - pos\<close> always reaches the end (below).\<close>

fun plain_reads :: "nat \<Rightarrow> reader_at \<Rightarrow> plain_cursor \<Rightarrow> read list option" where
  "plain_reads 0 r c = (if pc_pos c \<ge> pc_size c then Some [] else None)"
| "plain_reads (Suc fuel) r c =
     (case plain_next r c of
        (None, _) \<Rightarrow> Some []
      | (Some (ReadErr e), _) \<Rightarrow> Some [ReadErr e]
      | (Some (Piece b), c') \<Rightarrow> map_option ((#) (Piece b)) (plain_reads fuel r c'))"

section \<open>The lines of a text and where they start\<close>

lemma text_lines_Nil [simp]: "text_lines lb start [] = []"
  by (subst text_lines.simps) simp

lemma text_lines_starts:
  "l \<in> set (text_lines lb s tx) \<Longrightarrow>
    (lstart l = s \<and> tx \<noteq> []) \<or> (\<exists>k. Suc k < length tx \<and> tx ! k = newline \<and> lstart l = s + int k + 1)"
proof (induction lb s tx rule: text_lines.induct)
  case (1 lb s tx)
  show ?case
  proof (cases "index_byte newline tx")
    case None
    then show ?thesis using "1.prems" by (subst (asm) text_lines.simps) (auto split: if_splits)
  next
    case (Some i)
    then have i: "i < length tx" "tx ! i = newline" using index_byte_Some by blast+
    then have ne: "tx \<noteq> []" by auto
    have eq: "text_lines lb s tx = mk_line lb s (take i tx) True
        # text_lines lb (s + int i + 1) (drop (Suc i) tx)"
      using Some ne by (subst text_lines.simps) simp
    from "1.prems" consider "lstart l = s" | "l \<in> set (text_lines lb (s + int i + 1) (drop (Suc i) tx))"
      unfolding eq by auto
    then show ?thesis
    proof cases
      case 1
      then show ?thesis using ne by simp
    next
      case 2
      from "1.IH" [OF ne Some 2] show ?thesis
      proof (elim disjE exE conjE)
        assume "lstart l = s + int i + 1" "drop (Suc i) tx \<noteq> []"
        then show ?thesis using i by (intro disjI2 exI [of _ i]) auto
      next
        fix k assume "Suc k < length (drop (Suc i) tx)" "drop (Suc i) tx ! k = newline"
          "lstart l = s + int i + 1 + int k + 1"
        then show ?thesis by (intro disjI2 exI [of _ "Suc i + k"]) auto
      qed
    qed
  qed
qed

lemma text_lines_ge: "l \<in> set (text_lines lb s tx) \<Longrightarrow> s \<le> lstart l \<and> lstart l < s + int (length tx)"
  by (drule text_lines_starts) auto

lemma text_lines_append:
  "text_lines lb s (xs @ [newline] @ ys) =
    text_lines lb s (xs @ [newline]) @ text_lines lb (s + int (length xs) + 1) ys"
proof (induction lb s xs rule: text_lines.induct)
  case (1 lb s xs)
  show ?case
  proof (cases "index_byte newline xs")
    case None
    then have n: "newline \<notin> set xs" by (simp add: index_byte_None)
    from text_lines_break [OF n, of "[newline]" 0 lb s ys] text_lines_break [OF n, of "[newline]" 0 lb s "[]"]
    show ?thesis by simp
  next
    case (Some i)
    then have "i < length xs" using index_byte_Some by blast
    with "1.IH" [OF _ Some] text_lines_break [of "[]" xs i lb s "[newline] @ ys"]
      text_lines_break [of "[]" xs i lb s "[newline]"] Some
    show ?thesis by (cases "xs = []") (auto simp: algebra_simps)
  qed
qed

lemma text_lines_sorted: "sorted_wrt (\<lambda>a b. lstart a < lstart b) (text_lines lb s tx)"
proof (induction lb s tx rule: text_lines.induct)
  case (1 lb s tx)
  show ?case
  proof (cases "tx = [] \<or> index_byte newline tx = None")
    case True
    then show ?thesis by (subst text_lines.simps) auto
  next
    case False
    then obtain i where i: "index_byte newline tx = Some i" "tx \<noteq> []" by auto
    with "1.IH" [OF i(2,1)] show ?thesis
      by (subst text_lines.simps) (auto dest!: text_lines_ge)
  qed
qed

section \<open>What a chunk owns\<close>

definition owned :: "int \<Rightarrow> int \<Rightarrow> line \<Rightarrow> bool" where
  "owned from to l \<longleftrightarrow> (if from = 0 then lstart l \<le> to else from < lstart l \<and> lstart l \<le> to)"

text \<open>The line function that keeps every line it is given.\<close>

definition collect :: "line list line_func" where
  "collect acc l = (acc @ [l], True)"

lemma feed_collect:
  "sorted_wrt (\<lambda>a b. lstart a < lstart b) ls \<Longrightarrow>
    feed_lines collect limit ls acc =
      (acc @ filter (\<lambda>l. lstart l \<le> limit) ls, \<exists>l \<in> set ls. lstart l > limit)"
proof (induction ls arbitrary: acc)
  case Nil
  then show ?case by simp
next
  case (Cons l ls)
  show ?case
  proof (cases "lstart l > limit")
    case True
    then have "filter (\<lambda>l. lstart l \<le> limit) ls = []"
      using Cons.prems by (force simp: filter_empty_conv)
    then show ?thesis using True by simp
  next
    case False
    then show ?thesis using Cons by (simp add: collect_def)
  qed
qed

lemma skip_to_line_pieces:
  "case skip_to_line to pos (map Piece ps) of
     SkipFound start rest reads \<Rightarrow> (\<exists>y qs. newline \<notin> set y \<and> concat ps = y @ [newline] @ rest @ concat qs \<and>
        reads = map Piece qs \<and> start = pos + int (length y) + 1)
   | SkipEnd p final \<Rightarrow> (\<exists>y z. newline \<notin> set y \<and> concat ps = y @ z \<and> (z = [] \<or> pos + int (length y) \<ge> to))
   | SkipErr e \<Rightarrow> False"
proof (induction ps arbitrary: pos)
  case Nil
  then show ?case by simp
next
  case (Cons b ps)
  show ?case
  proof (cases "index_byte newline b")
    case (Some i)
    then have "i < length b" "b ! i = newline" "newline \<notin> set (take i b)" using index_byte_Some by blast+
    then have "b = take i b @ [newline] @ drop (Suc i) b" using id_take_nth_drop [of i b] by simp
    then have "concat (b # ps) = take i b @ [newline] @ drop (Suc i) b @ concat ps"
      by (metis append.assoc concat.simps(2))
    with Some \<open>newline \<notin> set (take i b)\<close> \<open>i < length b\<close> show ?thesis
      by (auto intro!: exI [of _ "take i b"] exI [of _ ps])
  next
    case None
    then have n: "newline \<notin> set b" by (simp add: index_byte_None)
    show ?thesis
    proof (cases "pos + int (length b) \<ge> to")
      case True
      have "\<exists>y z. newline \<notin> set y \<and> concat (b # ps) = y @ z \<and> (z = [] \<or> pos + int (length y) \<ge> to)"
        by (rule exI [of _ b], rule exI [of _ "concat ps"]) (use n True in simp)
      then show ?thesis using None True by simp
    next
      case False
      let ?r = "skip_to_line to (pos + int (length b)) (map Piece ps)"
      have "skip_to_line to pos (map Piece (b # ps)) = ?r" using None False by simp
      moreover note Cons.IH [of "pos + int (length b)"]
      ultimately show ?thesis
      proof (cases ?r)
        case (SkipEnd p final)
        with Cons.IH [of "pos + int (length b)"] obtain y z where
          "newline \<notin> set y" "concat ps = y @ z" "z = [] \<or> pos + int (length b) + int (length y) \<ge> to" by auto
        then have "\<exists>y z. newline \<notin> set y \<and> concat (b # ps) = y @ z \<and> (z = [] \<or> pos + int (length y) \<ge> to)"
          by - (rule exI [of _ "b @ y"], rule exI [of _ z], use n in auto)
        with SkipEnd None False show ?thesis by (simp add: Let_def)
      next
        case (SkipFound start rest reads)
        with Cons.IH [of "pos + int (length b)"] obtain y qs where
          "newline \<notin> set y" "concat ps = y @ [newline] @ rest @ concat qs" "reads = map Piece qs"
          "start = pos + int (length b) + int (length y) + 1" by auto
        with n SkipFound None False show ?thesis
          by (auto intro!: exI [of _ "b @ y"] exI [of _ qs])
      qed auto
    qed
  qed
qed

lemma fold_push_stopped: "sp_stopped s \<Longrightarrow> fold (push fn) ps s = s"
  by (induction ps) (simp_all add: push_stopped)

lemma walk_pieces_all:
  "\<not> sp_stopped s \<Longrightarrow> walk_pieces fn (\<lambda>_. None) n (map Piece ps) s =
    (Inr (\<not> sp_stopped (split_all fn ps s)), split_all fn ps s)"
proof (induction ps arbitrary: s n)
  case Nil
  then show ?case by (simp add: split_all_def Let_def)
next
  case (Cons b ps)
  show ?case
  proof (cases "sp_stopped (push fn b s)")
    case True
    then have "split_all fn (b # ps) s = push fn b s"
      by (simp add: split_all_def fold_push_stopped finish_stopped)
    then show ?thesis using True by simp
  next
    case False
    then show ?thesis using Cons.IH [OF False] by (simp add: split_all_def Let_def)
  qed
qed

lemma split_all_new:
  "feed_lines fn limit (text_lines lb pos (concat pieces)) st =
    (sp_state (split_all fn pieces (new_splitter lb pos limit st)),
     sp_stopped (split_all fn pieces (new_splitter lb pos limit st)))"
  using split_all_carries [OF carries_new [of lb pos limit st], of fn pieces]
  by (simp add: new_splitter_def line_start_def)

text \<open>After the skip, a chunk's walk is one splitter over the rest.\<close>

lemma walk_chunk_found:
  assumes "(if cp_from c > 0 then skip_to_line (cp_to c) (cp_from c) reads
            else SkipFound (cp_from c) [] reads) = SkipFound start rest (map Piece ps)"
  shows "walk_chunk (\<lambda>_. None) reads c lb fn st =
    (case feed_lines fn (cp_to c) (text_lines lb start (rest @ concat ps)) st of (st', stop) \<Rightarrow>
       (Inr (start, \<not> stop), st'))"
proof -
  let ?sp = "push fn rest (new_splitter lb start (cp_to c) st)"
  have all: "split_all fn (rest # ps) (new_splitter lb start (cp_to c) st) = split_all fn ps ?sp"
    by (simp add: split_all_def)
  have feed: "feed_lines fn (cp_to c) (text_lines lb start (rest @ concat ps)) st =
      (sp_state (split_all fn ps ?sp), sp_stopped (split_all fn ps ?sp))"
    using split_all_new [of fn "cp_to c" lb start "rest # ps" st] all by simp
  show ?thesis
  proof (cases "sp_stopped ?sp")
    case True
    then have "split_all fn ps ?sp = ?sp"
      by (simp add: split_all_def fold_push_stopped finish_stopped)
    then show ?thesis using assms True feed by (simp add: walk_chunk_def Let_def)
  next
    case False
    then show ?thesis using assms feed by (simp add: walk_chunk_def Let_def walk_pieces_all)
  qed
qed

text \<open>No line is owned that would start inside bytes that hold no line break.\<close>

lemma filter_owned_none:
  assumes y: "newline \<notin> set y" and pos: "from > 0"
    and z: "length z \<le> 1 \<or> from + int (length y) \<ge> to"
    and x: "from = int (length x) \<or> (y @ z = [] \<and> from \<ge> int (length x))"
  shows "filter (owned from to) (text_lines lb 0 (x @ y @ z)) = []"
proof -
  have "\<not> owned from to l" if l: "l \<in> set (text_lines lb 0 (x @ y @ z))" for l
    using text_lines_starts [OF l]
  proof (elim disjE exE conjE)
    assume "lstart l = 0"
    then show ?thesis using pos by (simp add: owned_def)
  next
    fix k assume k: "Suc k < length (x @ y @ z)" "(x @ y @ z) ! k = newline" "lstart l = 0 + int k + 1"
    show ?thesis
    proof
      assume "owned from to l"
      then have o: "from \<le> int k" "int k < to" using k pos by (simp_all add: owned_def)
      then have lx: "from = int (length x)" using x k(1) by auto
      then have "length x \<le> k" "k - length x < length y" using o k(1) z by auto
      then have "(x @ y @ z) ! k = y ! (k - length x)" by (simp add: nth_append)
      then have "newline \<in> set y" using k(2) \<open>k - length x < length y\<close> nth_mem by metis
      then show False using y by simp
    qed
  qed
  then show ?thesis by (simp add: filter_empty_conv)
qed

lemma chunk_walk_lines:
  assumes "0 \<le> cp_from c" and "cp_from c \<le> cp_to c"
    and "concat ps = drop (nat (cp_from c)) tx"
  shows "\<exists>start final. walk_chunk (\<lambda>_. None) (map Piece ps) c lb collect acc =
    (Inr (start, final), acc @ filter (owned (cp_from c) (cp_to c)) (text_lines lb 0 tx))"
proof (cases "cp_from c > 0")
  case False
  then have c0: "cp_from c = 0" using assms(1) by simp
  have "walk_chunk (\<lambda>_. None) (map Piece ps) c lb collect acc =
      (case feed_lines collect (cp_to c) (text_lines lb 0 tx) acc of (st', stop) \<Rightarrow> (Inr (0, \<not> stop), st'))"
    using walk_chunk_found [of c "map Piece ps" "0" "[]" ps lb collect acc] c0 assms(3) by simp
  then show ?thesis
    by (simp add: feed_collect text_lines_sorted owned_def [abs_def] c0)
next
  case True
  let ?r = "skip_to_line (cp_to c) (cp_from c) (map Piece ps)"
  define x where "x = take (nat (cp_from c)) tx"
  have tx: "tx = x @ concat ps" using assms(3) by (simp add: x_def)
  have x: "cp_from c = int (length x) \<or> (concat ps = [] \<and> cp_from c \<ge> int (length x))"
    using assms True by (auto simp: x_def)
  note skip = skip_to_line_pieces [where to = "cp_to c" and pos = "cp_from c" and ps = ps]
  show ?thesis
  proof (cases ?r)
    case (SkipErr e)
    then show ?thesis using skip by simp
  next
    case (SkipEnd p final)
    then obtain y z where y: "newline \<notin> set y" "concat ps = y @ z"
      "z = [] \<or> cp_from c + int (length y) \<ge> cp_to c" using skip by auto
    then have "filter (owned (cp_from c) (cp_to c)) (text_lines lb 0 tx) = []"
      unfolding tx y(2) using True x [unfolded y(2)] by (intro filter_owned_none) auto
    then show ?thesis using SkipEnd True by (simp add: walk_chunk_def)
  next
    case (SkipFound start rest reads)
    then obtain y qs where y: "newline \<notin> set y" "concat ps = y @ [newline] @ rest @ concat qs"
      "reads = map Piece qs" "start = cp_from c + int (length y) + 1" using skip by auto
    then have lx: "cp_from c = int (length x)" using x by auto
    have "filter (owned (cp_from c) (cp_to c)) (text_lines lb 0 (x @ y @ [newline])) = []"
      using y True lx by (intro filter_owned_none) auto
    moreover have "text_lines lb 0 tx =
        text_lines lb 0 (x @ y @ [newline]) @ text_lines lb start (rest @ concat qs)"
      using text_lines_append [of lb 0 "x @ y" "rest @ concat qs"] y lx by (simp add: tx)
    moreover have "filter (owned (cp_from c) (cp_to c)) (text_lines lb start (rest @ concat qs)) =
        filter (\<lambda>l. lstart l \<le> cp_to c) (text_lines lb start (rest @ concat qs))"
      using y(4) True by (intro filter_cong) (auto simp: owned_def dest: text_lines_ge)
    ultimately show ?thesis
      using walk_chunk_found [of c "map Piece ps" start rest qs lb collect acc] SkipFound True y(3)
      by (simp add: feed_collect text_lines_sorted)
  qed
qed

text \<open>
  Claim C17. A chunk's walk hands over exactly the lines that start in its nominal range (after
  its first byte, for a chunk that does not begin the text), with the views, lengths and offsets
  they have in the whole text, whatever the sizes of the pieces the cursor yields and wherever the
  range cuts a line.
\<close>

theorem walk_chunk_owned:
  assumes "0 \<le> cp_from c" and "cp_from c \<le> cp_to c"
    and "concat ps = drop (nat (cp_from c)) tx"
  shows "\<exists>start final. walk_chunk (\<lambda>_. None) (map Piece ps) c lb collect acc =
    (Inr (start, final), acc @ filter (owned (cp_from c) (cp_to c)) (text_lines lb 0 tx))"
  using chunk_walk_lines [OF assms] .

theorem walk_chunk_owned_witness:
  "\<exists>start final. walk_chunk (\<lambda>_. None) (map Piece [[98], [10, 99], [100]])
      \<lparr>cp_seq = 1, cp_from = 1, cp_to = 4, cp_frame = 0, cp_endFrame = 0\<rparr> 8 collect [] =
    (Inr (start, final), [] @ filter (owned
        (cp_from \<lparr>cp_seq = 1, cp_from = 1, cp_to = 4, cp_frame = 0, cp_endFrame = 0\<rparr>)
        (cp_to \<lparr>cp_seq = 1, cp_from = 1, cp_to = 4, cp_frame = 0, cp_endFrame = 0\<rparr>))
      (text_lines 8 0 [97, 98, 10, 99, 100]))"
  by (rule walk_chunk_owned) simp_all

end
