(* ===== verification/ScanPlan.thy ===== *)
theory ScanPlan
  imports ChunkWalk
begin

text \<open>
  How one pass over a file is cut and put together again, \<^verbatim>\<open>internal/sigscan/scan.go\<close>: the plans
  of a plain and of a seekable file, the cursors over a plain file's chunks, and the merge of
  chunk results that arrive in any order. A plan tiles the text, so its chunks own every line of
  the text exactly once.
\<close>

section \<open>Sizes\<close>

text \<open>The fields of \<^verbatim>\<open>tuning\<close> that plan and read chunks.\<close>

record tuning =
  chunksPerWorker :: int
  minChunkBytes :: int
  readBytes :: int
  edgeReadBytes :: int
  batchBytes :: int
  inFlightPerWorker :: int
  chunkBytes :: int
  chunkLines :: int
  framesPerChunk :: nat

definition default_tuning :: tuning where
  "default_tuning =
     \<lparr>chunksPerWorker = 8, minChunkBytes = 4 * 2 ^ 20, readBytes = 4 * 2 ^ 20,
      edgeReadBytes = 64 * 2 ^ 10, batchBytes = 4 * 2 ^ 20, inFlightPerWorker = 2,
      chunkBytes = 0, chunkLines = 0, framesPerChunk = 0\<rparr>"

definition max_workers :: int where "max_workers = 256"

definition scan_workers :: "int \<Rightarrow> int" where
  "scan_workers workerCount = min (max workerCount 1) max_workers"

definition chunk_target :: "tuning \<Rightarrow> int \<Rightarrow> int \<Rightarrow> int" where
  "chunk_target t workers tx =
     (if chunkBytes t > 0 then chunkBytes t
      else (let perChunk = (tx + chunksPerWorker t * workers - 1) div (chunksPerWorker t * workers)
            in max perChunk (minChunkBytes t)))"

section \<open>Planning\<close>

definition mk_plan :: "nat \<Rightarrow> int \<Rightarrow> int \<Rightarrow> chunk_plan" where
  "mk_plan seq from to = \<lparr>cp_seq = seq, cp_from = from, cp_to = to, cp_frame = 0, cp_endFrame = 0\<rparr>"

text \<open>\<^verbatim>\<open>planPlain\<close> without the knob \<^verbatim>\<open>chunkLines\<close> of the tests.\<close>

definition plan_plain :: "tuning \<Rightarrow> int \<Rightarrow> int \<Rightarrow> chunk_plan list" where
  "plan_plain t workers fsize =
     (let target = chunk_target t workers fsize;
          n = max ((fsize + target - 1) div target) 1
      in map (\<lambda>k. mk_plan k (int k * fsize div n) ((int k + 1) * fsize div n)) [0..<nat n])"

text \<open>What the plans of a seekable file read of its seek table (\<^verbatim>\<open>seekable.FrameInfo\<close>).\<close>

record frame_span =
  fs_offset :: int
  fs_size :: int

definition fs_end :: "frame_span \<Rightarrow> int" where "fs_end f = fs_offset f + fs_size f"

text \<open>The inner loop of \<^verbatim>\<open>planSeekable\<close>: the first frame after the chunk that begins with frame \<open>a\<close>.\<close>

function seek_chunk_end :: "tuning \<Rightarrow> int \<Rightarrow> frame_span list \<Rightarrow> nat \<Rightarrow> nat \<Rightarrow> int \<Rightarrow> nat" where
  "seek_chunk_end t target frames a b sz =
     (if b < length frames \<and> (b = a \<or> sz < target)
      then if framesPerChunk t > 0 \<and> b - a = framesPerChunk t then b
           else seek_chunk_end t target frames a (Suc b) (sz + fs_size (frames ! b))
      else b)"
  by pat_completeness auto
termination
  by (relation "measure (\<lambda>(t, target, frames, a, b, sz). length frames - b)") auto

declare seek_chunk_end.simps [simp del]

lemma seek_chunk_end_ge: "b \<le> seek_chunk_end t target frames a b sz"
proof (induction t target frames a b sz rule: seek_chunk_end.induct)
  case (1 t target frames a b sz)
  then show ?case by (subst seek_chunk_end.simps) (auto split: if_splits)
qed

lemma seek_chunk_end_gt:
  assumes "a < length frames"
  shows "a < seek_chunk_end t target frames a a sz"
  using seek_chunk_end_ge [of "Suc a" t target frames a] assms
  by (subst seek_chunk_end.simps) (auto simp: Suc_le_eq)

lemma seek_chunk_end_le:
  "b \<le> length frames \<Longrightarrow> seek_chunk_end t target frames a b sz \<le> length frames"
proof (induction t target frames a b sz rule: seek_chunk_end.induct)
  case (1 t target frames a b sz)
  then show ?case by (subst seek_chunk_end.simps) (auto split: if_splits)
qed

function seek_plans :: "tuning \<Rightarrow> int \<Rightarrow> frame_span list \<Rightarrow> nat \<Rightarrow> nat \<Rightarrow> chunk_plan list" where
  "seek_plans t target frames a seq =
     (if a < length frames
      then (let b = seek_chunk_end t target frames a a 0
            in \<lparr>cp_seq = seq, cp_from = fs_offset (frames ! a), cp_to = fs_end (frames ! (b - 1)),
                cp_frame = a, cp_endFrame = b\<rparr> # seek_plans t target frames b (Suc seq))
      else [])"
  by pat_completeness auto
termination
  by (relation "measure (\<lambda>(t, target, frames, a, seq). length frames - a)")
    (use seek_chunk_end_gt in \<open>auto intro: diff_less_mono2\<close>)

declare seek_plans.simps [simp del]

definition plan_seekable :: "tuning \<Rightarrow> int \<Rightarrow> frame_span list \<Rightarrow> chunk_plan list" where
  "plan_seekable t workers frames =
     (if frames = [] then [mk_plan 0 0 0]
      else seek_plans t (chunk_target t workers (fs_end (last frames))) frames 0 0)"

section \<open>Cursors over a plain file's chunks\<close>

definition walk_cursor :: "tuning \<Rightarrow> int \<Rightarrow> chunk_plan \<Rightarrow> plain_cursor" where
  "walk_cursor t fsize c =
     \<lparr>pc_pos = cp_from c, pc_size = fsize, pc_edge = cp_to c, pc_readBytes = readBytes t,
      pc_edgeReadBytes = edgeReadBytes t, pc_progressTo = cp_to c, pc_progress = 0\<rparr>"

definition rewalk_cursor :: "tuning \<Rightarrow> int \<Rightarrow> int \<Rightarrow> plain_cursor" where
  "rewalk_cursor t fsize start =
     \<lparr>pc_pos = start, pc_size = fsize, pc_edge = start, pc_readBytes = edgeReadBytes t,
      pc_edgeReadBytes = edgeReadBytes t, pc_progressTo = 0, pc_progress = 0\<rparr>"

text \<open>One chunk of a plain file, \<^verbatim>\<open>walkOne\<close>, with the line function and its state as arguments.\<close>

definition walk_one_plain ::
  "tuning \<Rightarrow> reader_at \<Rightarrow> int \<Rightarrow> nat \<Rightarrow> 's line_func \<Rightarrow> 's \<Rightarrow> chunk_plan \<Rightarrow> ((string + int \<times> bool) \<times> 's) option" where
  "walk_one_plain t r fsize lb fn st c =
     map_option (\<lambda>reads. walk_chunk (\<lambda>_. None) reads c lb fn st)
       (plain_reads (nat (fsize - cp_from c)) r (walk_cursor t fsize c))"

section \<open>Merging in sequence order\<close>

text \<open>
  \<^verbatim>\<open>mergeInOrder\<close>: results arrive in any order, each waits in \<^verbatim>\<open>pending\<close> until those before it are
  merged. \<open>madd\<close> is the merger's \<^verbatim>\<open>add\<close>, which may fail. What the loop receives, one \<^verbatim>\<open>select\<close> after
  another: a worker's outcome, the end of a stream's decoder (its error, or how many batches it sent),
  or the end of the context. Giving back a chunk's place in the window or a batch's buffer
  (\<^verbatim>\<open>release\<close>) is not part of the merge's state and is left out.
\<close>

datatype 'r received = Outcome nat "string + 'r" | Ended "string + nat" | ContextDone string

fun merge_ready ::
  "nat \<Rightarrow> ('r \<Rightarrow> 'm \<Rightarrow> string + 'm) \<Rightarrow> (nat, 'r) gomap \<Rightarrow> nat \<Rightarrow> 'm
   \<Rightarrow> string + (nat, 'r) gomap \<times> nat \<times> 'm" where
  "merge_ready 0 madd pending nxt m = Inr (pending, nxt, m)"
| "merge_ready (Suc fuel) madd pending nxt m =
     (case map_of pending nxt of
        None \<Rightarrow> Inr (pending, nxt, m)
      | Some r \<Rightarrow>
          (case madd r m of
             Inl e \<Rightarrow> Inl e
           | Inr m' \<Rightarrow> merge_ready fuel madd (AList.delete nxt pending) (Suc nxt) m'))"

text \<open>
  Each round deletes an entry of \<open>pending\<close>, so its length is fuel enough. \<open>total\<close> is \<open>- 1\<close> until a
  stream's decoder has reported it; after that the channel \<^verbatim>\<open>ended\<close> is nil and never selected, which
  \<open>opened\<close> says. \<open>None\<close>: nothing more arrives before all results are merged, and the code waits.
\<close>

fun merge_in_order ::
  "('r \<Rightarrow> 'm \<Rightarrow> string + 'm) \<Rightarrow> bool \<Rightarrow> int \<Rightarrow> 'r received list \<Rightarrow> (nat, 'r) gomap \<Rightarrow> nat \<Rightarrow> 'm
   \<Rightarrow> (string + 'm) option" where
  "merge_in_order madd opened ntotal [] pending nxt m =
     (if ntotal < 0 \<or> int nxt < ntotal then None else Some (Inr m))"
| "merge_in_order madd opened ntotal (x # xs) pending nxt m =
     (let merge_on = (\<lambda>opened' ntotal' pending'.
            case merge_ready (length pending') madd pending' nxt m of
              Inl e \<Rightarrow> Some (Inl e)
            | Inr (p, n, m') \<Rightarrow> merge_in_order madd opened' ntotal' xs p n m')
      in if \<not> (ntotal < 0 \<or> int nxt < ntotal) then Some (Inr m)
         else case x of
                Outcome seq (Inl e) \<Rightarrow> Some (Inl e)
              | Outcome seq (Inr r) \<Rightarrow> merge_on opened ntotal (AList.update seq r pending)
              | Ended over \<Rightarrow>
                  if \<not> opened then merge_in_order madd opened ntotal xs pending nxt m
                  else (case over of Inl e \<Rightarrow> Some (Inl e) | Inr batches \<Rightarrow> merge_on False (int batches) pending)
              | ContextDone e \<Rightarrow> Some (Inl e))"

section \<open>A plain cursor reads its chunk to the end of the text\<close>

definition reads_ok :: "plain_cursor \<Rightarrow> bool" where
  "reads_ok c \<longleftrightarrow> 0 \<le> pc_pos c \<and> 0 < pc_readBytes c \<and> 0 < pc_edgeReadBytes c"

lemma plain_next_short:
  assumes "pc_pos c < pc_size c"
    and "n = min (if pc_pos c \<ge> pc_edge c then pc_edgeReadBytes c else pc_readBytes c) (pc_size c - pc_pos c)"
    and "int (length (read_at content (pc_pos c) n)) < n"
  shows "plain_next (file_at content) c = (Some (ReadErr err_file_changed), c)"
  using assms(1,3) unfolding plain_next_def Let_def assms(2) [symmetric] by (simp add: file_at_def)

lemma plain_next_full:
  assumes "pc_pos c < pc_size c" and "reads_ok c"
    and "n = min (if pc_pos c \<ge> pc_edge c then pc_edgeReadBytes c else pc_readBytes c) (pc_size c - pc_pos c)"
    and "\<not> int (length (read_at content (pc_pos c) n)) < n"
  obtains c' where "plain_next (file_at content) c = (Some (Piece (read_at content (pc_pos c) n)), c')"
    and "pc_pos c' = pc_pos c + n" and "pc_size c' = pc_size c" and "reads_ok c'" and "0 < n"
proof -
  have "0 < n" using assms(1,2,3) by (auto simp: reads_ok_def)
  then show thesis
    using assms(1,2,4) that unfolding plain_next_def Let_def assms(3) [symmetric]
    by (auto simp: reads_ok_def file_at_def)
qed

lemma plain_reads_all:
  assumes "reads_ok c" and "nat (pc_size c - pc_pos c) \<le> fuel" and "pc_size c \<le> int (length content)"
  shows "\<exists>ps. plain_reads fuel (file_at content) c = Some (map Piece ps) \<and>
    concat ps = take (nat (pc_size c - pc_pos c)) (drop (nat (pc_pos c)) content)"
  using assms
proof (induction fuel arbitrary: c)
  case 0
  then show ?case by (intro exI [of _ "[]"]) auto
next
  case (Suc fuel)
  show ?case
  proof (cases "pc_pos c \<ge> pc_size c")
    case True
    then show ?thesis by (intro exI [of _ "[]"]) (simp add: plain_next_def)
  next
    case False
    define n where "n = min (if pc_pos c \<ge> pc_edge c then pc_edgeReadBytes c else pc_readBytes c) (pc_size c - pc_pos c)"
    have n: "0 < n" "n \<le> pc_size c - pc_pos c" using Suc.prems(1) False by (auto simp: n_def reads_ok_def)
    define got where "got = read_at content (pc_pos c) n"
    have len: "int (length got) = n"
      
    proof -
      have "nat (pc_pos c) + nat n \<le> length content"
        using n Suc.prems(3) conjunct1 [OF Suc.prems(1) [unfolded reads_ok_def]]
        by linarith
      then show ?thesis using n(1) by (simp add: got_def read_at_def)
    qed
    obtain c' where c': "plain_next (file_at content) c = (Some (Piece got), c')" "pc_pos c' = pc_pos c + n"
      "pc_size c' = pc_size c" "reads_ok c'"
      using plain_next_full [OF _ Suc.prems(1) n_def, of content] False len unfolding got_def by auto
    have "nat (pc_size c' - pc_pos c') \<le> fuel" using c' n Suc.prems(2) by simp
    with Suc.IH [OF c'(4)] c'(3) Suc.prems(3) obtain ps where ps:
      "plain_reads fuel (file_at content) c' = Some (map Piece ps)"
      "concat ps = take (nat (pc_size c' - pc_pos c')) (drop (nat (pc_pos c')) content)" by auto
    have "take (nat (pc_size c - pc_pos c)) (drop (nat (pc_pos c)) content) =
        got @ concat ps"
    proof -
      have "nat (pc_size c - pc_pos c) = nat n + nat (pc_size c' - pc_pos c')"
        "nat (pc_pos c') = nat n + nat (pc_pos c)"
        using c' n Suc.prems(1) by (auto simp: reads_ok_def)
      then show ?thesis by (simp add: ps(2) got_def read_at_def take_add)
    qed
    then show ?thesis using c'(1) ps(1) by (intro exI [of _ "got # ps"]) simp
  qed
qed

text \<open>A file that ends before the size the scan began with fails the read that finds it.\<close>

lemma plain_reads_changed:
  assumes "reads_ok c" and "nat (pc_size c - pc_pos c) \<le> fuel"
    and "int (length content) < pc_size c" and "pc_pos c < pc_size c"
  shows "\<exists>ps. plain_reads fuel (file_at content) c = Some (map Piece ps @ [ReadErr err_file_changed])"
  using assms
proof (induction fuel arbitrary: c)
  case 0
  then show ?case by simp
next
  case (Suc fuel)
  define n where "n = min (if pc_pos c \<ge> pc_edge c then pc_edgeReadBytes c else pc_readBytes c) (pc_size c - pc_pos c)"
  have n: "0 < n" "n \<le> pc_size c - pc_pos c" using Suc.prems by (auto simp: n_def reads_ok_def)
  define got where "got = read_at content (pc_pos c) n"
  show ?case
  proof (cases "int (length got) < n")
    case True
    then have "plain_next (file_at content) c = (Some (ReadErr err_file_changed), c)"
      using plain_next_short [OF Suc.prems(4) n_def] by (simp add: got_def)
    then show ?thesis by (intro exI [of _ "[]"]) simp
  next
    case False
    obtain c' where c': "plain_next (file_at content) c = (Some (Piece got), c')" "pc_pos c' = pc_pos c + n"
      "pc_size c' = pc_size c" "reads_ok c'"
      using plain_next_full [OF Suc.prems(4,1) n_def, of content] False unfolding got_def by auto
    have "pc_pos c + n \<le> int (length content)"
      using False n Suc.prems by (auto simp: got_def read_at_def reads_ok_def)
    then have "pc_pos c' < pc_size c'" using c' Suc.prems by simp
    moreover have "nat (pc_size c' - pc_pos c') \<le> fuel" using c' n Suc.prems(2) by linarith
    ultimately obtain ps where
      "plain_reads fuel (file_at content) c' = Some (map Piece ps @ [ReadErr err_file_changed])"
      using Suc.IH [OF c'(4)] c'(3) Suc.prems(3) by auto
    then show ?thesis using c'(1) by (intro exI [of _ "got # ps"]) simp
  qed
qed

text \<open>
  A cursor reports the end of its text only behind the last byte of it: whatever the reader does,
  the pieces before an end have the size the scan began with.
\<close>

definition fills_at_most :: "reader_at \<Rightarrow> bool" where
  "fills_at_most r \<longleftrightarrow> (\<forall>pos n. int (length (fst (r pos n))) \<le> max 0 n)"

lemma plain_next_piece:
  assumes "fills_at_most r" and "reads_ok c" and "plain_next r c = (Some (Piece b), c')"
  shows "pc_pos c' = pc_pos c + int (length b)" and "pc_size c' = pc_size c" and "reads_ok c'"
    and "pc_pos c' \<le> pc_size c'"
proof -
  define n where "n = min (if pc_pos c \<ge> pc_edge c then pc_edgeReadBytes c else pc_readBytes c) (pc_size c - pc_pos c)"
  have lt: "pc_pos c < pc_size c" using assms(3) by (auto simp: plain_next_def split: if_splits)
  then have n: "0 < n" "n \<le> pc_size c - pc_pos c" using assms(2) by (auto simp: n_def reads_ok_def)
  obtain got err where r: "r (pc_pos c) n = (got, err)" by fastforce
  have le: "int (length got) \<le> n" using assms(1) r n(1) unfolding fills_at_most_def by (metis fst_conv max_def order.strict_implies_order)
  have nx: "plain_next r c = (if int (length got) < n
      then (case err of Some (ReadAtError e) \<Rightarrow> (Some (ReadErr e), c) | _ \<Rightarrow> (Some (ReadErr err_file_changed), c))
      else (Some (Piece got),
        c\<lparr>pc_progress := (if pc_pos c < pc_progressTo c
             then pc_progress c + (min (pc_pos c + n) (pc_progressTo c) - pc_pos c) else pc_progress c),
          pc_pos := pc_pos c + n\<rparr>))"
    using lt r unfolding plain_next_def Let_def n_def [symmetric] by simp
  then have "\<not> int (length got) < n" using assms(3) by (auto split: option.splits read_at_error.splits)
  then show "pc_pos c' = pc_pos c + int (length b)" "pc_size c' = pc_size c" "reads_ok c'" "pc_pos c' \<le> pc_size c'"
    using assms(2,3) nx n le by (auto simp: reads_ok_def)
qed

lemma plain_reads_end:
  assumes "fills_at_most r"
  shows "reads_ok c \<Longrightarrow> pc_pos c \<le> pc_size c \<Longrightarrow> plain_reads fuel r c = Some (map Piece ps) \<Longrightarrow>
    pc_pos c + int (length (concat ps)) = pc_size c"
proof (induction fuel arbitrary: c ps)
  case 0
  then show ?case by (simp split: if_splits)
next
  case (Suc fuel)
  obtain x c' where x: "plain_next r c = (x, c')" by fastforce
  show ?case
  proof (cases x)
    case None
    then have "pc_pos c \<ge> pc_size c"
      using x by (auto simp: plain_next_def Let_def split: if_splits prod.splits option.splits read_at_error.splits)
    then show ?thesis using Suc.prems x None by simp
  next
    case (Some y)
    show ?thesis
    proof (cases y)
      case (ReadErr e)
      then have "map Piece ps = [ReadErr e]" using Suc.prems(3) x Some by simp
      then show ?thesis by auto
    next
      case (Piece b)
      then obtain qs where qs: "plain_reads fuel r c' = Some (map Piece qs)" "ps = b # qs"
        using Suc.prems(3) x Some by (cases ps) auto
      note nx = plain_next_piece [OF assms Suc.prems(1), of b c']
      show ?thesis using Suc.IH [OF _ _ qs(1)] nx x Some Piece qs(2) by simp
    qed
  qed
qed

section \<open>Plans tile the text\<close>

fun tiles :: "int \<Rightarrow> chunk_plan list \<Rightarrow> int \<Rightarrow> bool" where
  "tiles a [] b = False"
| "tiles a [c] b = (cp_from c = a \<and> a \<le> cp_to c \<and> cp_to c = b)"
| "tiles a (c # cs) b = (cp_from c = a \<and> a < cp_to c \<and> tiles (cp_to c) cs b)"

lemma tiles_le: "tiles a cs b \<Longrightarrow> a \<le> b"
  by (induction a cs b rule: tiles.induct) auto

lemma tiles_bounds: "tiles a cs b \<Longrightarrow> c \<in> set cs \<Longrightarrow> a \<le> cp_from c \<and> cp_from c \<le> cp_to c \<and> cp_to c \<le> b"
  by (induction a cs b rule: tiles.induct) (auto dest: tiles_le)

lemma sorted_filter_split:
  assumes "sorted_wrt (\<lambda>a b. lstart a < lstart b) ls"
  shows "filter (\<lambda>l. P l \<and> lstart l \<le> t) ls @ filter (\<lambda>l. P l \<and> t < lstart l) ls = filter P ls"
  using assms
proof (induction ls)
  case (Cons l ls)
  then have "filter (\<lambda>l. P l \<and> lstart l \<le> t) ls = []" if "t < lstart l"
    using that by (force simp: filter_empty_conv)
  with Cons show ?case by auto
qed simp

lemma tiles_owned:
  assumes "tiles a cs b" and "sorted_wrt (\<lambda>a b. lstart a < lstart b) ls" and "0 \<le> a"
  shows "concat (map (\<lambda>c. filter (owned (cp_from c) (cp_to c)) ls) cs) = filter (owned a b) ls"
  using assms(1,3)
proof (induction a cs b rule: tiles.induct)
  case (3 a c c' cs b)
  let ?t = "cp_to c"
  have t: "cp_from c = a" "a < ?t" "tiles ?t (c' # cs) b" "?t \<le> b"
    using "3.prems" tiles_le [of ?t "c' # cs" b] by auto
  have "filter (owned a ?t) ls = filter (\<lambda>l. owned a b l \<and> lstart l \<le> ?t) ls"
    using t by (intro filter_cong) (auto simp: owned_def)
  moreover have "filter (owned ?t b) ls = filter (\<lambda>l. owned a b l \<and> ?t < lstart l) ls"
    using t "3.prems" by (intro filter_cong) (auto simp: owned_def)
  ultimately show ?case
    using "3.IH" [OF t(3)] t "3.prems" sorted_filter_split [OF assms(2), of "owned a b" ?t] by simp
qed auto

lemma tiles_upt:
  assumes "\<And>k. k < n \<Longrightarrow> cp_from (f k) = g k \<and> cp_to (f k) = g (Suc k)"
    and "\<And>k. k < n \<Longrightarrow> g k \<le> g (Suc k)" and "\<And>k. Suc k < n \<Longrightarrow> g k < g (Suc k)"
    and "j < n"
  shows "tiles (g j) (map f [j..<n]) (g n)"
  using assms(4)
proof (induction "n - j" arbitrary: j)
  case (Suc m)
  show ?case
  proof (cases "Suc j < n")
    case True
    then have "tiles (g (Suc j)) (map f [Suc j..<n]) (g n)" using Suc by auto
    moreover have "[j..<n] = j # Suc j # [Suc (Suc j)..<n]" "[Suc j..<n] = Suc j # [Suc (Suc j)..<n]"
      using True by (simp_all add: upt_conv_Cons)
    ultimately show ?thesis using assms True by simp
  next
    case False
    then have "Suc j = n" using Suc by simp
    then have "[j..<n] = [j]" by (simp add: upt_conv_Cons)
    then show ?thesis using assms \<open>Suc j = n\<close> by auto
  qed
qed simp

definition tuning_ok :: "tuning \<Rightarrow> bool" where
  "tuning_ok t \<longleftrightarrow> 0 < minChunkBytes t \<and> 0 < readBytes t \<and> 0 < edgeReadBytes t"

lemma chunk_target_pos: "tuning_ok t \<Longrightarrow> 0 < chunk_target t workers tx"
  by (auto simp: chunk_target_def tuning_ok_def Let_def)

lemma plan_plain_tiles:
  assumes "tuning_ok t" and "0 \<le> fsize"
  shows "tiles 0 (plan_plain t workers fsize) fsize"
proof -
  define target where "target = chunk_target t workers fsize"
  define n where "n = max ((fsize + target - 1) div target) 1"
  have tg: "1 \<le> target" using chunk_target_pos [OF assms(1)] by (simp add: target_def int_one_le_iff_zero_less)
  have n1: "1 \<le> n" by (simp add: n_def)
  have ns: "n \<le> fsize" if "n \<noteq> 1"
  proof -
    have "fsize \<noteq> 0" using that tg by (auto simp: n_def)
    then have "0 \<le> (fsize - 1) * (target - 1)" using assms(2) tg by simp
    then have "fsize + target - 1 \<le> fsize * target" by (simp add: algebra_simps)
    then have "(fsize + target - 1) div target \<le> fsize * target div target"
      using tg by (intro zdiv_mono1) auto
    then have "(fsize + target - 1) div target \<le> fsize" using tg by simp
    then show ?thesis using that \<open>fsize \<noteq> 0\<close> assms(2) by (simp add: n_def)
  qed
  let ?g = "\<lambda>k. int k * fsize div n"
  have mono: "?g k \<le> ?g (Suc k)" for k
    using n1 assms(2) by (intro zdiv_mono1) (auto simp: algebra_simps)
  have strict: "?g k < ?g (Suc k)" if "Suc k < nat n" for k
  proof -
    have "n \<le> fsize" using ns that by auto
    then have "(int k * fsize + 1 * n) div n \<le> ?g (Suc k)"
      using n1 by (intro zdiv_mono1) (auto simp: algebra_simps)
    then show ?thesis using n1 by simp
  qed
  have "tiles (?g 0) (map (\<lambda>k. mk_plan k (?g k) ((int k + 1) * fsize div n)) [0..<nat n]) (?g (nat n))"
    by (rule tiles_upt) (use mono strict n1 in \<open>auto simp: mk_plan_def algebra_simps\<close>)
  then show ?thesis
    using n1 by (simp add: plan_plain_def Let_def target_def [symmetric] n_def [symmetric])
qed

text \<open>A seek table's frames follow each other from the start of the text.\<close>

fun frames_from :: "int \<Rightarrow> frame_span list \<Rightarrow> bool" where
  "frames_from a [] = True"
| "frames_from a (f # fs) = (fs_offset f = a \<and> 0 \<le> fs_size f \<and> frames_from (fs_end f) fs)"

lemma frames_from_nth:
  "frames_from a fs \<Longrightarrow> i < length fs \<Longrightarrow>
     0 \<le> fs_size (fs ! i) \<and> (i = 0 \<longrightarrow> fs_offset (fs ! i) = a) \<and>
     (Suc i < length fs \<longrightarrow> fs_offset (fs ! Suc i) = fs_end (fs ! i))"
proof (induction fs arbitrary: a i)
  case (Cons f fs)
  then show ?case
  proof (cases i)
    case 0
    then show ?thesis using Cons.prems by (cases fs) auto
  next
    case (Suc j)
    then show ?thesis using Cons.prems Cons.IH [of "fs_end f" j] by auto
  qed
qed simp

lemma seek_chunk_end_target:
  assumes "frames_from 0 frames" and "framesPerChunk t = 0" and "0 < target"
    and "a < length frames" and "b \<le> length frames" and "a \<le> b"
    and "sz = (if b = a then 0 else fs_end (frames ! (b - 1)) - fs_offset (frames ! a))"
    and "r = seek_chunk_end t target frames a b sz"
  shows "r = length frames \<or> target \<le> fs_end (frames ! (r - 1)) - fs_offset (frames ! a)"
  using assms
proof (induction t target frames a b sz rule: seek_chunk_end.induct)
  case (1 t target frames a b sz)
  show ?case
  proof (cases "b < length frames \<and> (b = a \<or> sz < target)")
    case False
    then have "r = b" unfolding "1.prems"(8) by (subst seek_chunk_end.simps) (simp only: if_False)
    then show ?thesis using False "1.prems"(1-7) by auto
  next
    case True
    have r: "r = seek_chunk_end t target frames a (Suc b) (sz + fs_size (frames ! b))"
      using True "1.prems"(2) unfolding "1.prems"(8) by (subst seek_chunk_end.simps) simp
    have sz: "sz + fs_size (frames ! b) = fs_end (frames ! b) - fs_offset (frames ! a)"
    proof (cases "b = a")
      case False
      then have "fs_offset (frames ! b) = fs_end (frames ! (b - 1))"
        using frames_from_nth [OF "1.prems"(1), of "b - 1"] "1.prems"(6) True by auto
      then show ?thesis using False "1.prems"(7) by (simp add: fs_end_def)
    qed (use "1.prems"(7) in \<open>simp add: fs_end_def\<close>)
    show ?thesis
      by (rule "1.IH" [OF True _ "1.prems"(1-4) _ _ _ r]) (use True "1.prems"(2,6) sz in auto)
  qed
qed

lemma seek_plans_tiles:
  assumes "frames_from 0 frames" and "framesPerChunk t = 0" and "0 < target"
    and "a < length frames"
  shows "tiles (fs_offset (frames ! a)) (seek_plans t target frames a seq) (fs_end (last frames))"
  using assms
proof (induction t target frames a seq rule: seek_plans.induct)
  case (1 t target frames a seq)
  define b where "b = seek_chunk_end t target frames a a 0"
  define c where "c = \<lparr>cp_seq = seq, cp_from = fs_offset (frames ! a),
    cp_to = fs_end (frames ! (b - 1)), cp_frame = a, cp_endFrame = b\<rparr>"
  have b: "a < b" "b \<le> length frames"
    using "1.prems"(4) by (simp_all add: b_def seek_chunk_end_gt seek_chunk_end_le)
  have plans: "seek_plans t target frames a seq = c # seek_plans t target frames b (Suc seq)"
    using "1.prems"(4) by (subst seek_plans.simps) (simp add: b_def c_def Let_def)
  have mono: "fs_offset (frames ! a) \<le> fs_end (frames ! j)" if "a \<le> j" "j < length frames" for j
    using that
  proof (induction j rule: dec_induct)
    case base
    then show ?case using frames_from_nth [OF "1.prems"(1)] by (auto simp: fs_end_def)
  next
    case (step m)
    then show ?case
      using frames_from_nth [OF "1.prems"(1), of m] frames_from_nth [OF "1.prems"(1), of "Suc m"]
      by (auto simp: fs_end_def)
  qed
  show ?case
  proof (cases "b = length frames")
    case True
    then have "seek_plans t target frames b (Suc seq) = []" by (subst seek_plans.simps) simp
    moreover have "last frames = frames ! (b - 1)" using True b(1) last_conv_nth [of frames] by force
    ultimately show ?thesis using plans mono [of "b - 1"] b by (auto simp: c_def)
  next
    case False
    then have lt: "b < length frames" using b by simp
    have "target \<le> fs_end (frames ! (b - 1)) - fs_offset (frames ! a)"
      using seek_chunk_end_target [OF "1.prems" _ order_refl _ b_def] "1.prems"(4) False by auto
    moreover have "fs_offset (frames ! b) = fs_end (frames ! (b - 1))"
      using frames_from_nth [OF "1.prems"(1), of "b - 1"] b lt by auto
    moreover have "tiles (fs_offset (frames ! b)) (seek_plans t target frames b (Suc seq)) (fs_end (last frames))"
      using "1.IH" [OF "1.prems"(4) b_def] "1.prems" lt by auto
    moreover obtain d ds where "seek_plans t target frames b (Suc seq) = d # ds"
      using lt seek_plans.simps [of t target frames b "Suc seq"] by (auto simp: Let_def)
    ultimately show ?thesis using plans "1.prems"(3) by (simp add: c_def)
  qed
qed

lemma plan_seekable_tiles:
  assumes "tuning_ok t" and "framesPerChunk t = 0" and "frames_from 0 frames"
  shows "tiles 0 (plan_seekable t workers frames) (if frames = [] then 0 else fs_end (last frames))"
  using seek_plans_tiles [OF assms(3,2) chunk_target_pos [OF assms(1)], of 0]
    frames_from_nth [OF assms(3), of 0]
  by (auto simp: plan_seekable_def mk_plan_def)

section \<open>Merging in order\<close>

fun merge_all :: "('r \<Rightarrow> 'm \<Rightarrow> string + 'm) \<Rightarrow> 'r list \<Rightarrow> 'm \<Rightarrow> string + 'm" where
  "merge_all madd [] m = Inr m"
| "merge_all madd (r # rs) m = (case madd r m of Inl e \<Rightarrow> Inl e | Inr m' \<Rightarrow> merge_all madd rs m')"

lemma merge_all_append:
  "merge_all madd (rs @ rs') m =
    (case merge_all madd rs m of Inl e \<Rightarrow> Inl e | Inr m' \<Rightarrow> merge_all madd rs' m')"
  by (induction rs arbitrary: m) (simp_all split: sum.splits)

lemma merge_ready_upto:
  assumes "map_of pending = (\<lambda>k. if k \<in> K then Some (r k) else None)" and "distinct (keys pending)"
    and "length pending \<le> fuel"
  shows "\<exists>n'. nxt \<le> n' \<and> {nxt..<n'} \<subseteq> K \<and>
    (case merge_ready fuel madd pending nxt m of
       Inl e \<Rightarrow> merge_all madd (map r [nxt..<n']) m = Inl e
     | Inr (p, n, m') \<Rightarrow> n = n' \<and> merge_all madd (map r [nxt..<n']) m = Inr m' \<and> n' \<notin> K \<and>
         distinct (keys p) \<and> map_of p = (\<lambda>k. if k \<in> K - {nxt..<n'} then Some (r k) else None))"
  using assms
proof (induction fuel arbitrary: pending K nxt m)
  case 0
  then have "K = {}" by (auto simp: fun_eq_iff split: if_splits)
  then show ?case using 0 by (intro exI [of _ nxt]) auto
next
  case (Suc fuel)
  show ?case
  proof (cases "nxt \<in> K")
    case False
    then have "map_of pending nxt = None" using Suc.prems(1) by simp
    then show ?thesis using False Suc.prems by (intro exI [of _ nxt]) auto
  next
    case True
    then have look: "map_of pending nxt = Some (r nxt)" using Suc.prems(1) by simp
    show ?thesis
    proof (cases "madd (r nxt) m")
      case (Inl e)
      then show ?thesis using True look by (intro exI [of _ "Suc nxt"]) (auto simp: upt_conv_Cons)
    next
      case (Inr m')
      let ?p = "AList.delete nxt pending" and ?K = "K - {nxt}"
      have "nxt \<in> fst ` set pending" using look by (metis map_of_eq_None_iff option.distinct(1))
      then have "length ?p < length pending" by (auto simp: AList.delete_eq intro: length_filter_less)
      then have "length ?p \<le> fuel" using Suc.prems(3) by simp
      moreover have "map_of ?p = (\<lambda>k. if k \<in> ?K then Some (r k) else None)"
        using Suc.prems(1) by (auto simp: gomap_simps)
      moreover have "distinct (keys ?p)" using Suc.prems(2) by (simp add: gomap_simps)
      ultimately obtain n' where n': "Suc nxt \<le> n'" "{Suc nxt..<n'} \<subseteq> ?K"
        "case merge_ready fuel madd ?p (Suc nxt) m' of
           Inl e \<Rightarrow> merge_all madd (map r [Suc nxt..<n']) m' = Inl e
         | Inr (p, n, m'') \<Rightarrow> n = n' \<and> merge_all madd (map r [Suc nxt..<n']) m' = Inr m'' \<and> n' \<notin> ?K \<and>
             distinct (keys p) \<and> map_of p = (\<lambda>k. if k \<in> ?K - {Suc nxt..<n'} then Some (r k) else None)"
        using Suc.IH by blast
      have sub: "{nxt..<n'} \<subseteq> K"
      proof
        fix x assume "x \<in> {nxt..<n'}"
        then have "x = nxt \<or> x \<in> {Suc nxt..<n'}" by auto
        then show "x \<in> K" using True n'(2) by blast
      qed
      have upt: "[nxt..<n'] = nxt # [Suc nxt..<n']" and "?K - {Suc nxt..<n'} = K - {nxt..<n'}"
        and "n' \<notin> ?K \<longleftrightarrow> n' \<notin> K"
        using n'(1) by (auto simp: upt_conv_Cons)
      then show ?thesis
        using n'(1,3) sub True look Inr by (intro exI [of _ n']) (simp split: sum.splits prod.splits)
    qed
  qed
qed

text \<open>
  What holds before each receipt: \<open>K\<close> are the results that wait, \<open>S\<close> those that are still to come.
\<close>

definition waiting :: "(nat \<Rightarrow> 'r) \<Rightarrow> nat \<Rightarrow> nat set \<Rightarrow> nat set \<Rightarrow> (nat, 'r) gomap \<Rightarrow> nat \<Rightarrow> bool" where
  "waiting r n K S pending nxt \<longleftrightarrow> map_of pending = (\<lambda>k. if k \<in> K then Some (r k) else None) \<and> distinct (keys pending) \<and>
     K \<inter> S = {} \<and> K \<union> S = {nxt..<n} \<and> nxt \<notin> K \<and> nxt \<le> n"

text \<open>One outcome either ends the merge as merging all would, or leaves the rest to be merged.\<close>

lemma merge_ready_step:
  assumes w: "waiting r n K (insert s S) pending nxt" and s: "s \<notin> S"
  shows "case merge_ready (length (AList.update s (r s) pending)) madd (AList.update s (r s) pending) nxt m of
    Inl e \<Rightarrow> merge_all madd (map r [nxt..<n]) m = Inl e
  | Inr (p, n', m') \<Rightarrow> (\<exists>K'. waiting r n K' S p n') \<and> merge_all madd (map r [nxt..<n]) m = merge_all madd (map r [n'..<n]) m'"
proof -
  let ?p = "AList.update s (r s) pending" and ?K = "insert s K"
  note p = w [unfolded waiting_def]
  have map: "map_of ?p = (\<lambda>k. if k \<in> ?K then Some (r k) else None)" using p by (auto simp: gomap_simps)
  have "distinct (keys ?p)" using p by (simp add: gomap_simps)
  note ready = merge_ready_upto [OF map this order_refl, of nxt madd m]
  obtain n' where n': "nxt \<le> n'" "{nxt..<n'} \<subseteq> ?K"
    "case merge_ready (length ?p) madd ?p nxt m of
       Inl e \<Rightarrow> merge_all madd (map r [nxt..<n']) m = Inl e
     | Inr (p, n, m') \<Rightarrow> n = n' \<and> merge_all madd (map r [nxt..<n']) m = Inr m' \<and> n' \<notin> ?K \<and>
         distinct (keys p) \<and> map_of p = (\<lambda>k. if k \<in> ?K - {nxt..<n'} then Some (r k) else None)"
    using ready by (elim exE conjE) (rule that)
  have all: "?K \<union> S = {nxt..<n}" using p by auto
  have "nxt \<le> n" using p by simp
  have le: "n' \<le> n"
  proof (cases "n' = nxt")
    case False
    then have "n' - 1 \<in> {nxt..<n'}" using n'(1) by auto
    then have "n' - 1 \<in> {nxt..<n}" using n'(2) all by blast
    then show ?thesis by auto
  qed (use \<open>nxt \<le> n\<close> in simp)
  have upt: "[nxt..<n] = [nxt..<n'] @ [n'..<n]"
    using n'(1) le by (metis le_Suc_ex upt_add_eq_append)
  show ?thesis
  proof (cases "merge_ready (length ?p) madd ?p nxt m")
    case (Inl e)
    then show ?thesis using n'(3) by (simp add: upt merge_all_append)
  next
    case (Inr x)
    obtain p' k m' where x: "x = (p', k, m')" by (cases x) auto
    then have m': "k = n'" "merge_all madd (map r [nxt..<n']) m = Inr m'" "n' \<notin> ?K" "distinct (keys p')"
      "map_of p' = (\<lambda>k. if k \<in> ?K - {nxt..<n'} then Some (r k) else None)"
      using n'(3) Inr by simp_all
    have "{nxt..<n'} \<inter> S = {}" using n'(2) p s by auto
    moreover have "{nxt..<n} - {nxt..<n'} = {n'..<n}" using n'(1) by auto
    ultimately have "(?K - {nxt..<n'}) \<union> S = {n'..<n}" using all by blast
    moreover have "(?K - {nxt..<n'}) \<inter> S = {}" using p s by auto
    ultimately have "waiting r n (?K - {nxt..<n'}) S p' n'"
      using m'(3-5) le unfolding waiting_def by blast
    then show ?thesis using Inr x m'(1,2) by (auto simp: upt merge_all_append)
  qed
qed

lemma waiting_idle: "waiting r n K S pending nxt \<Longrightarrow> merge_ready fuel madd pending nxt m = Inr (pending, nxt, m)"
  by (cases fuel) (simp_all add: waiting_def)

lemma merge_outcome:
  assumes "waiting r n K (insert s S) pending nxt" and "s \<notin> S" and "t = - 1 \<or> t = int n"
  shows "(\<exists>e. merge_in_order madd opened t (Outcome s (Inr (r s)) # xs) pending nxt m = Some (Inl e) \<and>
      merge_all madd (map r [nxt..<n]) m = Inl e) \<or>
    (\<exists>p n' m' K'. merge_in_order madd opened t (Outcome s (Inr (r s)) # xs) pending nxt m = merge_in_order madd opened t xs p n' m' \<and>
      waiting r n K' S p n' \<and> merge_all madd (map r [nxt..<n]) m = merge_all madd (map r [n'..<n]) m')"
proof -
  have "s \<in> {nxt..<n}" using assms(1) unfolding waiting_def by blast
  then have "t < 0 \<or> int nxt < t" using assms(3) by auto
  then have loop: "merge_in_order madd opened t (Outcome s (Inr (r s)) # xs) pending nxt m =
      (case merge_ready (length (AList.update s (r s) pending)) madd (AList.update s (r s) pending) nxt m of
         Inl e \<Rightarrow> Some (Inl e) | Inr (p, n', m') \<Rightarrow> merge_in_order madd opened t xs p n' m')" by simp
  note ready = merge_ready_step [OF assms(1,2), of madd m]
  show ?thesis
  proof (cases "merge_ready (length (AList.update s (r s) pending)) madd (AList.update s (r s) pending) nxt m")
    case (Inl e)
    then show ?thesis using ready unfolding loop by simp
  next
    case (Inr x)
    obtain p n' m' where "x = (p, n', m')" by (cases x) auto
    then show ?thesis using Inr ready unfolding loop by (intro disjI2 exI [of _ p] exI [of _ n'] exI [of _ m']) simp
  qed
qed

lemma merge_in_order_from:
  "waiting r n K (set seqs) pending nxt \<Longrightarrow> distinct seqs \<Longrightarrow>
    merge_in_order madd opened (int n) (map (\<lambda>s. Outcome s (Inr (r s))) seqs) pending nxt m =
      Some (merge_all madd (map r [nxt..<n]) m)"
proof (induction seqs arbitrary: pending K nxt m)
  case Nil
  then show ?case by (auto simp: waiting_def)
next
  case (Cons s seqs)
  from merge_outcome [of r n K s "set seqs" pending nxt "int n" madd opened
      "map (\<lambda>s. Outcome s (Inr (r s))) seqs" m] Cons.prems
  show ?case using Cons.IH by (auto simp del: merge_in_order.simps)
qed

text \<open>A stream: the decoder reports how many batches it sent at some point among them.\<close>

lemma merge_in_order_stream:
  "waiting r n K (set seqs) pending nxt \<Longrightarrow> distinct seqs \<Longrightarrow>
    merge_in_order madd True (- 1) (map (\<lambda>s. Outcome s (Inr (r s))) (take k seqs) @ Ended (Inr n) #
      map (\<lambda>s. Outcome s (Inr (r s))) (drop k seqs)) pending nxt m = Some (merge_all madd (map r [nxt..<n]) m)"
proof (induction seqs arbitrary: pending K nxt m k)
  case Nil
  then have "nxt = n" by (auto simp: waiting_def)
  then show ?case using Nil.prems(1) by (simp add: waiting_idle)
next
  case (Cons s seqs)
  show ?case
  proof (cases k)
    case 0
    then show ?thesis
      using merge_in_order_from [OF Cons.prems, of madd False m] Cons.prems(1) by (simp add: waiting_idle)
  next
    case (Suc k')
    from merge_outcome [of r n K s "set seqs" pending nxt "- 1" madd True "map (\<lambda>s. Outcome s (Inr (r s))) (take k' seqs) @ Ended (Inr n) #
        map (\<lambda>s. Outcome s (Inr (r s))) (drop k' seqs)" m] Cons.prems
    show ?thesis using Cons.IH Suc by (auto simp del: merge_in_order.simps)
  qed
qed

text \<open>
  Whatever is received, and however often the context or a worker fails: a merge that succeeds has
  merged all results, in order.
\<close>

definition says_right :: "(nat \<Rightarrow> 'r) \<Rightarrow> nat \<Rightarrow> 'r received \<Rightarrow> bool" where
  "says_right r n x = (case x of Outcome s (Inr v) \<Rightarrow> s < n \<and> v = r s | Ended (Inr k) \<Rightarrow> k = n | _ \<Rightarrow> True)"

lemma merge_in_order_success:
  "merge_in_order madd opened t xs pending nxt m = Some (Inr m') \<Longrightarrow> \<forall>x \<in> set xs. says_right r n x \<Longrightarrow>
    t = - 1 \<or> t = int n \<Longrightarrow> map_of pending = (\<lambda>k. if k \<in> K then Some (r k) else None) \<Longrightarrow> distinct (keys pending) \<Longrightarrow>
    K \<subseteq> {..<n} \<Longrightarrow> nxt \<le> n \<Longrightarrow> merge_all madd (map r [nxt..<n]) m = Inr m'"
proof (induction xs arbitrary: opened t pending nxt m K)
  case Nil
  then show ?case by (auto split: if_splits)
next
  case (Cons x xs)
  have on: "merge_all madd (map r [nxt..<n]) m = Inr m'"
    if ready: "(case merge_ready (length p) madd p nxt m of Inl e \<Rightarrow> Some (Inl e)
        | Inr (q, k, m1) \<Rightarrow> merge_in_order madd o' t' xs q k m1) = Some (Inr m')"
      and t': "t' = - 1 \<or> t' = int n" and p: "map_of p = (\<lambda>k. if k \<in> L then Some (r k) else None)" "distinct (keys p)" "L \<subseteq> {..<n}"
    for p L o' t'
  proof -
    obtain k where k: "nxt \<le> k" "{nxt..<k} \<subseteq> L"
      "case merge_ready (length p) madd p nxt m of
         Inl e \<Rightarrow> merge_all madd (map r [nxt..<k]) m = Inl e
       | Inr (q, n', m1) \<Rightarrow> n' = k \<and> merge_all madd (map r [nxt..<k]) m = Inr m1 \<and> k \<notin> L \<and>
           distinct (keys q) \<and> map_of q = (\<lambda>j. if j \<in> L - {nxt..<k} then Some (r j) else None)"
      using merge_ready_upto [OF p(1,2) order_refl, of nxt madd m] by (elim exE conjE) (rule that)
    obtain q m1 where q: "merge_ready (length p) madd p nxt m = Inr (q, k, m1)"
      using ready k(3) by (auto split: sum.splits)
    then have q': "merge_all madd (map r [nxt..<k]) m = Inr m1" "distinct (keys q)"
      "map_of q = (\<lambda>j. if j \<in> L - {nxt..<k} then Some (r j) else None)" using k(3) by simp_all
    have "k \<le> n"
    proof (cases "k = nxt")
      case False
      then have "k - 1 \<in> {nxt..<k}" using k(1) by auto
      then have "k - 1 < n" using k(2) p(3) by blast
      then show ?thesis by simp
    qed (use Cons.prems(7) in simp)
    moreover have "merge_in_order madd o' t' xs q k m1 = Some (Inr m')" using ready q by simp
    ultimately have "merge_all madd (map r [k..<n]) m1 = Inr m'"
      using Cons.IH [of o' t' q k m1 "L - {nxt..<k}"] Cons.prems(2) t' q'(2,3) p(3) by auto
    moreover have "[nxt..<n] = [nxt..<k] @ [k..<n]" using k(1) \<open>k \<le> n\<close> by (metis le_Suc_ex upt_add_eq_append)
    ultimately show ?thesis using q'(1) by (simp add: merge_all_append)
  qed
  show ?case
  proof (cases "t < 0 \<or> int nxt < t")
    case False
    then show ?thesis using Cons.prems(1,3,7) by auto
  next
    case True
    note loop = True
    show ?thesis
    proof (cases x)
      case (Outcome s out)
      then obtain v where v: "out = Inr v" using Cons.prems(1) loop by (cases out) simp_all
      then have s: "s < n" "v = r s" using Cons.prems(2) Outcome by (simp_all add: says_right_def)
      show ?thesis
        by (rule on [where p = "AList.update s v pending" and o' = opened and t' = t and L = "insert s K"])
          (use Cons.prems loop Outcome v s in \<open>auto simp: gomap_simps\<close>)
    next
      case (Ended over)
      show ?thesis
      proof (cases opened)
        case True
        then obtain b where b: "over = Inr b" using Cons.prems(1) loop Ended by (cases over) simp_all
        then have "b = n" using Cons.prems(2) Ended by (simp add: says_right_def)
        then show ?thesis
          by (intro on [where p = pending and o' = False and t' = "int n" and L = K]) (use Cons.prems loop True Ended b in simp_all)
      next
        case False
        then show ?thesis using Cons.IH [OF _ _ Cons.prems(3-7), of opened] Cons.prems(1,2) loop Ended by simp
      qed
    next
      case (ContextDone e)
      then show ?thesis using Cons.prems(1) loop by simp
    qed
  qed
qed

section \<open>Properties\<close>

text \<open>
  Claim C18. A plain file is scanned in parallel chunks exactly as if it were read once from its
  beginning: for every size of file, number of workers and sizes of chunks and reads, walking
  each planned chunk through its own cursor succeeds, and the lines the chunks hand over, joined
  in plan order, are the lines of the whole file, each exactly once.
\<close>

theorem plain_chunks_lines:
  assumes "tuning_ok t"
  shows "\<exists>rs. map (walk_one_plain t (file_at content) (int (length content)) lb collect [])
        (plan_plain t workers (int (length content))) = map (\<lambda>(end, ls). Some (Inr end, ls)) rs \<and>
      concat (map snd rs) = text_lines lb 0 content"
proof -
  let ?size = "int (length content)" and ?ls = "text_lines lb 0 content"
  let ?plans = "plan_plain t workers ?size"
  have tiles: "tiles 0 ?plans ?size" using plan_plain_tiles [OF assms] by simp
  have "\<exists>e. walk_one_plain t (file_at content) ?size lb collect [] c =
      Some (Inr e, filter (owned (cp_from c) (cp_to c)) ?ls)" if "c \<in> set ?plans" for c
  proof -
    have c: "0 \<le> cp_from c" "cp_from c \<le> cp_to c" using tiles_bounds [OF tiles that] by auto
    have "reads_ok (walk_cursor t ?size c)"
      using c assms by (simp add: walk_cursor_def reads_ok_def tuning_ok_def)
    from plain_reads_all [OF this, of "nat (?size - cp_from c)" content] obtain ps where ps:
      "plain_reads (nat (?size - cp_from c)) (file_at content) (walk_cursor t ?size c) = Some (map Piece ps)"
      "concat ps = drop (nat (cp_from c)) content"
      by (auto simp: walk_cursor_def)
    from chunk_walk_lines [OF c ps(2), of lb "[]"] ps(1) show ?thesis
      by (auto simp: walk_one_plain_def)
  qed
  then have "\<exists>e. \<forall>c \<in> set ?plans. walk_one_plain t (file_at content) ?size lb collect [] c =
      Some (Inr (e c), filter (owned (cp_from c) (cp_to c)) ?ls)"
    by (intro bchoice) blast
  then obtain e where e: "\<forall>c \<in> set ?plans. walk_one_plain t (file_at content) ?size lb collect [] c =
      Some (Inr (e c), filter (owned (cp_from c) (cp_to c)) ?ls)" ..
  let ?rs = "map (\<lambda>c. (e c, filter (owned (cp_from c) (cp_to c)) ?ls)) ?plans"
  have "filter (owned 0 ?size) ?ls = ?ls"
    by (rule filter_True) (auto simp: owned_def dest: text_lines_ge)
  then have "concat (map snd ?rs) = ?ls"
    using tiles_owned [OF tiles text_lines_sorted] by (simp add: o_def)
  moreover have "map (walk_one_plain t (file_at content) ?size lb collect []) ?plans =
      map (\<lambda>(end, ls). Some (Inr end, ls)) ?rs" using e by simp
  ultimately show ?thesis by blast
qed

theorem plain_chunks_lines_witness:
  "\<exists>rs. map (walk_one_plain default_tuning (file_at [97, 10, 98]) (int (length [97 :: byte, 10, 98])) 8 collect [])
        (plan_plain default_tuning 2 (int (length [97 :: byte, 10, 98]))) = map (\<lambda>(end, ls). Some (Inr end, ls)) rs \<and>
      concat (map snd rs) = text_lines 8 0 [97, 10, 98]"
  by (rule plain_chunks_lines) (simp add: tuning_ok_def default_tuning_def)

text \<open>
  Claim C19. A plain file that became shorter while it was scanned is never scanned quietly: a
  cursor whose file ends before the size the scan began with yields the error that says so, after
  the pieces that were there, and no end of text. And no reader, whatever its reads give and
  however they fail, brings a cursor to an end of text before that size.
\<close>

theorem plain_cursor_changed:
  assumes "reads_ok c" and "int (length content) < pc_size c" and "pc_pos c < pc_size c" and "fills_at_most r"
  shows "(\<exists>ps. plain_reads (nat (pc_size c - pc_pos c)) (file_at content) c =
      Some (map Piece ps @ [ReadErr err_file_changed])) \<and>
    (\<forall>fuel ps. plain_reads fuel r c = Some (map Piece ps) \<longrightarrow> pc_pos c + int (length (concat ps)) = pc_size c)"
  using plain_reads_changed [OF assms(1) order_refl assms(2,3)] plain_reads_end [OF assms(4,1)] assms(3) by simp

text \<open>A reader whose every read fails with an error of its own.\<close>

lemma broken_reader: "fills_at_most (\<lambda>_ _. ([], Some (ReadAtError ''input/output error'')))"
  by (simp add: fills_at_most_def)

theorem plain_cursor_changed_witness:
  "(\<exists>ps. plain_reads (nat (pc_size (rewalk_cursor default_tuning 9 2) - pc_pos (rewalk_cursor default_tuning 9 2)))
      (file_at [97, 10, 98]) (rewalk_cursor default_tuning 9 2) = Some (map Piece ps @ [ReadErr err_file_changed])) \<and>
    plain_reads 1 (\<lambda>_ _. ([], Some (ReadAtError ''input/output error''))) (rewalk_cursor default_tuning 9 2) \<noteq> Some (map Piece [])"
  using plain_cursor_changed [OF _ _ _ broken_reader, of "rewalk_cursor default_tuning 9 2" "[97, 10, 98]"]
  by (fastforce simp: rewalk_cursor_def default_tuning_def reads_ok_def)

text \<open>
  Claim C20. The chunks of a seekable file, which are runs of whole frames, tile its text: they
  hand over every line of the text exactly once, for any frames that follow each other, empty
  frames included.
\<close>

theorem seekable_chunks_own_lines:
  assumes "tuning_ok t" and "framesPerChunk t = 0" and "frames_from 0 frames"
    and "int (length tx) = (if frames = [] then 0 else fs_end (last frames))"
  shows "concat (map (\<lambda>c. filter (owned (cp_from c) (cp_to c)) (text_lines lb 0 tx))
      (plan_seekable t workers frames)) = text_lines lb 0 tx"
proof -
  have tiles: "tiles 0 (plan_seekable t workers frames) (int (length tx))"
    using plan_seekable_tiles [OF assms(1-3)] assms(4) by simp
  have "filter (owned 0 (int (length tx))) (text_lines lb 0 tx) = text_lines lb 0 tx"
    by (rule filter_True) (auto simp: owned_def dest: text_lines_ge)
  then show ?thesis using tiles_owned [OF tiles text_lines_sorted] by simp
qed

theorem seekable_chunks_own_lines_witness:
  "concat (map (\<lambda>c. filter (owned (cp_from c) (cp_to c)) (text_lines 8 0 [97, 10, 98]))
      (plan_seekable default_tuning 2 [\<lparr>fs_offset = 0, fs_size = 2\<rparr>, \<lparr>fs_offset = 2, fs_size = 1\<rparr>])) =
    text_lines 8 0 [97, 10, 98]"
  by (rule seekable_chunks_own_lines) (simp_all add: tuning_ok_def default_tuning_def fs_end_def)

text \<open>
  Claim C21. The merge does not depend on the order the workers finish in: if each of the chunks
  0 to n - 1 arrives once, in any order, the merger is given the results in plan order, and the
  first failure of the merge, in plan order, is the one reported. The same holds for the batches of a
  stream, wherever among them the decoder reports their number. And whatever else is received, a
  failed worker, a failed decoder or the end of the context, a merge that succeeds has merged all
  n results in plan order.
\<close>

theorem merge_in_order_any:
  assumes "distinct seqs" and "set seqs = {..<n}"
  shows "merge_in_order madd False (int n) (map (\<lambda>s. Outcome s (Inr (r s))) seqs) [] 0 m =
      Some (merge_all madd (map r [0..<n]) m) \<and>
    (\<forall>k. merge_in_order madd True (- 1) (map (\<lambda>s. Outcome s (Inr (r s))) (take k seqs) @ Ended (Inr n) #
        map (\<lambda>s. Outcome s (Inr (r s))) (drop k seqs)) [] 0 m =
      Some (merge_all madd (map r [0..<n]) m)) \<and>
    (\<forall>xs opened t m'. (\<forall>x \<in> set xs. says_right r n x) \<longrightarrow> t = - 1 \<or> t = int n \<longrightarrow>
      merge_in_order madd opened t xs [] 0 m = Some (Inr m') \<longrightarrow> merge_all madd (map r [0..<n]) m = Inr m')"
proof (intro conjI allI impI)
  have w: "waiting r n {} (set seqs) [] 0" using assms by (simp add: waiting_def lessThan_atLeast0)
  show "merge_in_order madd False (int n) (map (\<lambda>s. Outcome s (Inr (r s))) seqs) [] 0 m =
      Some (merge_all madd (map r [0..<n]) m)" by (rule merge_in_order_from [OF w assms(1)])
  show "merge_in_order madd True (- 1) (map (\<lambda>s. Outcome s (Inr (r s))) (take k seqs) @ Ended (Inr n) #
        map (\<lambda>s. Outcome s (Inr (r s))) (drop k seqs)) [] 0 m =
      Some (merge_all madd (map r [0..<n]) m)" for k by (rule merge_in_order_stream [OF w assms(1)])
  show "merge_all madd (map r [0..<n]) m = Inr m'"
    if "\<forall>x \<in> set xs. says_right r n x" "t = - 1 \<or> t = int n" "merge_in_order madd opened t xs [] 0 m = Some (Inr m')"
    for xs opened t m'
    using merge_in_order_success [OF that(3,1,2), of "{}"] by simp
qed

theorem merge_in_order_any_witness:
  "merge_in_order (\<lambda>r m. Inr (m @ [r])) False (int 3) (map (\<lambda>s. Outcome s (Inr (s * 10))) [2, 0, 1]) [] 0 [] =
      Some (Inr [0, 10, 20]) \<and>
    merge_in_order (\<lambda>r m. Inr (m @ [r])) True (- 1) [Outcome 2 (Inr (20 :: nat)), Ended (Inr 3), Outcome 0 (Inr 0), Outcome 1 (Inr 10)] [] 0 [] =
      Some (Inr [0, 10, 20])"
proof -
  have "set [2, 0, 1] = {..<3 :: nat}" by (auto simp: lessThan_def)
  note both = merge_in_order_any [OF _ this, of "\<lambda>r m. Inr (m @ [r])" "\<lambda>s. s * 10" "[]"]
  have "merge_all (\<lambda>r m. Inr (m @ [r])) (map (\<lambda>s. s * 10) [0..<3]) [] = Inr [0, 10, 20 :: nat]" by (simp add: upt_rec)
  then show ?thesis using both [THEN conjunct1] both [THEN conjunct2, THEN conjunct1, THEN spec [of _ 1]]
    by (simp del: merge_in_order.simps)
qed

end
