(* ===== verification/Findings.thy ===== *)
theory Findings
  imports Lines
begin

text \<open>
  What a scan reports and where it puts it: the times of \<^verbatim>\<open>internal/sigscan/times.go\<close>, the
  findings and sinks of \<^verbatim>\<open>walk.go\<close> and \<^verbatim>\<open>merge.go\<close>. A sink is a dictionary of its operations, as
  the Go interface is; the locale \<^verbatim>\<open>sink\<close> says what a walker relies on, and each of the code's three
  sinks is an interpretation of it.
\<close>

section \<open>Times\<close>

record stamp_ref =
  sr_ms :: int
  sr_start :: int
  sr_off :: int
  sr_ok :: bool

definition no_stamp :: stamp_ref where
  "no_stamp = \<lparr>sr_ms = 0, sr_start = 0, sr_off = 0, sr_ok = False\<rparr>"

datatype time_state = TimeNone | TimeKnown | TimePending

record time_ref =
  tr_ms :: int
  tr_off :: int
  tr_state :: time_state

definition zero_time :: time_ref where
  "zero_time = \<lparr>tr_ms = 0, tr_off = 0, tr_state = TimeNone\<rparr>"

text \<open>
  \<^verbatim>\<open>timeSource\<close>: \<open>ts_parse\<close> is the file's timestamp parser, what it reads of a line's view: the
  milliseconds and the zone offset.
\<close>

record time_source =
  ts_parse :: "bytes \<Rightarrow> (int \<times> int) option"
  ts_lookback :: int

definition stamp_of :: "time_source \<Rightarrow> line \<Rightarrow> (int \<times> int) option" where
  "stamp_of t l = ts_parse t (lview l)"

record time_tracker =
  tt_src :: "time_source option"
  tt_last :: stamp_ref
  tt_settled :: bool

text \<open>\<^verbatim>\<open>observe\<close>, with its callers' guard: a file without a timestamp format has no source.\<close>

definition observe :: "time_tracker \<Rightarrow> line \<Rightarrow> line \<times> time_tracker" where
  "observe t l =
     (case tt_src t of None \<Rightarrow> (l, t)
      | Some src \<Rightarrow>
          (case stamp_of src l of None \<Rightarrow> (l, t)
           | Some (ms, off) \<Rightarrow>
               (l\<lparr>stamped := True, stampMs := ms, stampOff := off\<rparr>,
                t\<lparr>tt_last := \<lparr>sr_ms = ms, sr_start = lstart l, sr_off = off, sr_ok = True\<rparr>\<rparr>)))"

definition within_ref :: "stamp_ref \<Rightarrow> int \<Rightarrow> int \<Rightarrow> time_ref" where
  "within_ref stamp start lookback =
     (if \<not> sr_ok stamp \<or> start - sr_start stamp > lookback then zero_time
      else \<lparr>tr_ms = sr_ms stamp, tr_off = sr_off stamp, tr_state = TimeKnown\<rparr>)"

definition time_at :: "time_tracker \<Rightarrow> int \<Rightarrow> time_ref" where
  "time_at t start =
     (case tt_src t of None \<Rightarrow> zero_time
      | Some src \<Rightarrow>
          if \<not> sr_ok (tt_last t)
          then (if tt_settled t then zero_time else zero_time\<lparr>tr_state := TimePending\<rparr>)
          else within_ref (tt_last t) start (ts_lookback src))"

definition settle :: "time_ref \<Rightarrow> int \<Rightarrow> stamp_ref \<Rightarrow> int \<Rightarrow> time_ref" where
  "settle r start carry lookback =
     (if tr_state r = TimePending then within_ref carry start lookback else r)"

definition time_pointer :: "time_ref \<Rightarrow> int option" where
  "time_pointer r = (if tr_state r \<noteq> TimeKnown then None else Some (tr_ms r))"

definition offset_minutes :: "time_ref \<Rightarrow> int" where
  "offset_minutes r = (if tr_state r \<noteq> TimeKnown then 0 else tr_off r)"

section \<open>Findings\<close>

record raw_finding =
  rf_startIdx :: int
  rf_endIdx :: int
  rf_startOff :: int
  rf_endOff :: int
  rf_firstLen :: int
  rf_excerpt :: bytes
  rf_hasEx :: bool
  rf_vs :: int
  rf_ve :: int
  rf_masked :: bool
  rf_tm :: time_ref

record finding =
  StartLine :: int
  EndLine :: int
  StartOffset :: int
  EndOffset :: int
  TimeMS :: "int option"
  TimeOffsetMinutes :: int
  Excerpt :: bytes
  ValueSpan :: "(int \<times> int) option"
  Masked :: bool
  firstLen :: int

definition to_finding :: "raw_finding \<Rightarrow> int \<Rightarrow> finding" where
  "to_finding f lineBase =
     \<lparr>StartLine = lineBase + rf_startIdx f, EndLine = lineBase + rf_endIdx f,
      StartOffset = rf_startOff f, EndOffset = rf_endOff f,
      TimeMS = time_pointer (rf_tm f), TimeOffsetMinutes = offset_minutes (rf_tm f),
      Excerpt = (if rf_hasEx f then rf_excerpt f else []),
      ValueSpan = (if rf_vs f \<ge> 0 then Some (rf_vs f, rf_ve f) else None),
      Masked = rf_masked f, firstLen = rf_firstLen f\<rparr>"

section \<open>Signatures as the walk runs them\<close>

text \<open>
  A compiled regular expression is what its \<^verbatim>\<open>String\<close> and \<^verbatim>\<open>FindSubmatchIndex\<close> answer: the spans
  of the first match and its groups (-1 for a group that took no part). \<^verbatim>\<open>Match\<close> and \<^verbatim>\<open>FindIndex\<close>
  answer whether there is one, and its own span.
\<close>

record regex =
  rx_string :: string
  rx_groups :: "bytes \<Rightarrow> (int \<times> int) list option"

definition rx_match :: "regex \<Rightarrow> bytes \<Rightarrow> bool" where
  "rx_match re view \<longleftrightarrow> rx_groups re view \<noteq> None"

definition rx_find :: "regex \<Rightarrow> bytes \<Rightarrow> (int \<times> int) option" where
  "rx_find re view = map_option hd (rx_groups re view)"

text \<open>The excerpter: the masked excerpt of a line's view, and whether it holds a mask.\<close>

type_synonym excerpter = "bytes \<Rightarrow> bytes \<times> bool"

record sig_env =
  se_redact :: bool
  se_masks :: bool
  se_bodyOnly :: bool
  se_build :: excerpter

definition anchor_excerpt :: "sig_env \<Rightarrow> regex \<Rightarrow> line \<Rightarrow> bytes \<times> bool \<times> int \<times> int" where
  "anchor_excerpt cs anchor l =
     (case se_build cs (lview l) of (excerpt, masked) \<Rightarrow>
        case (if se_redact cs then rx_find anchor (lview l) else None) of
          None \<Rightarrow> (excerpt, masked \<or> se_masks cs, -1, -1)
        | Some (a, b) \<Rightarrow> (excerpt, masked \<or> se_masks cs, a + lshift l, b + lshift l))"

section \<open>Sinks\<close>

record 's sink_ops =
  op_storing :: "'s \<Rightarrow> bool"
  op_mayStore :: "'s \<Rightarrow> bool"
  op_add :: "'s \<Rightarrow> raw_finding \<Rightarrow> 's"

text \<open>\<^verbatim>\<open>chunkSink\<close>; \<open>cs_full\<close> is the signature's shared flag as the walk last read it.\<close>

record chunk_sink =
  cs_findings :: "finding list"
  cs_pending :: "nat list"
  cs_count :: int
  cs_cap :: nat
  cs_full :: bool

definition chunk_storing :: "chunk_sink \<Rightarrow> bool" where
  "chunk_storing s \<longleftrightarrow> length (cs_findings s) < cs_cap s \<and> \<not> cs_full s"

definition chunk_may_store :: "chunk_sink \<Rightarrow> bool" where
  "chunk_may_store s \<longleftrightarrow> \<not> cs_full s"

definition chunk_add :: "chunk_sink \<Rightarrow> raw_finding \<Rightarrow> chunk_sink" where
  "chunk_add s0 f =
     (let s = s0\<lparr>cs_count := cs_count s0 + 1\<rparr>
      in if chunk_storing s
         then (let s1 = s\<lparr>cs_findings := cs_findings s @ [to_finding f 0]\<rparr>
               in if tr_state (rf_tm f) = TimePending
                  then s1\<lparr>cs_pending := cs_pending s1 @ [length (cs_findings s1) - 1]\<rparr> else s1)
         else s)"

definition chunk_ops :: "chunk_sink sink_ops" where
  "chunk_ops = \<lparr>op_storing = chunk_storing, op_mayStore = chunk_may_store, op_add = chunk_add\<rparr>"

text \<open>
  \<^verbatim>\<open>mergeSink\<close>, with the part of the merger it reaches: the signature's stored findings, their
  count, the bound and the shared flag that \<^verbatim>\<open>noteFull\<close> sets.
\<close>

record merge_sink =
  ms_stored :: "finding list"
  ms_count :: int
  ms_cap :: nat
  ms_full :: bool
  ms_lineBase :: int
  ms_counts :: bool
  ms_added :: int

definition note_full :: "merge_sink \<Rightarrow> merge_sink" where
  "note_full s = (if length (ms_stored s) \<ge> ms_cap s then s\<lparr>ms_full := True\<rparr> else s)"

definition merge_storing :: "merge_sink \<Rightarrow> bool" where
  "merge_storing s \<longleftrightarrow> length (ms_stored s) < ms_cap s"

definition merge_add :: "merge_sink \<Rightarrow> raw_finding \<Rightarrow> merge_sink" where
  "merge_add s0 f =
     (let s1 = s0\<lparr>ms_added := ms_added s0 + 1\<rparr>;
          s2 = (if ms_counts s1 then s1\<lparr>ms_count := ms_count s1 + 1\<rparr> else s1)
      in if merge_storing s2
         then note_full (s2\<lparr>ms_stored := ms_stored s2 @ [to_finding f (ms_lineBase s2)]\<rparr>)
         else s2)"

definition merge_ops :: "merge_sink sink_ops" where
  "merge_ops = \<lparr>op_storing = merge_storing, op_mayStore = merge_storing, op_add = merge_add\<rparr>"

text \<open>\<^verbatim>\<open>countSink\<close>.\<close>

definition count_ops :: "int sink_ops" where
  "count_ops = \<lparr>op_storing = \<lambda>_. False, op_mayStore = \<lambda>_. False, op_add = \<lambda>n _. n + 1\<rparr>"

text \<open>The sink of the reference walk keeps every finding it is given.\<close>

definition tape_ops :: "raw_finding list sink_ops" where
  "tape_ops = \<lparr>op_storing = \<lambda>_. True, op_mayStore = \<lambda>_. True, op_add = \<lambda>fs f. fs @ [f]\<rparr>"

text \<open>
  What a walker relies on: a sink that stores nothing looks at no finding, and never stores again;
  nothing is stored of a block or run that began when the sink could not store it.
\<close>

locale sink =
  fixes ops :: "'s sink_ops"
  assumes store_may: "op_storing ops s \<Longrightarrow> op_mayStore ops s"
    and add_blind: "\<not> op_storing ops s \<Longrightarrow> op_add ops s f = op_add ops s g"
    and add_storing: "op_storing ops (op_add ops s f) \<Longrightarrow> op_storing ops s"
    and add_may: "op_mayStore ops (op_add ops s f) \<Longrightarrow> op_mayStore ops s"
begin

text \<open>Two lists of findings that a sink cannot tell apart.\<close>

definition agree :: "'s \<Rightarrow> raw_finding \<Rightarrow> raw_finding \<Rightarrow> bool" where
  "agree s f g \<longleftrightarrow> f = g \<or> \<not> op_mayStore ops s"

lemma add_agree: "agree s f g \<Longrightarrow> op_add ops s f = op_add ops s g"
  unfolding agree_def using store_may add_blind by blast

definition adds :: "raw_finding list \<Rightarrow> 's \<Rightarrow> 's" where
  "adds fs s = fold (\<lambda>f s. op_add ops s f) fs s"

lemma adds_simps [simp]: "adds [] s = s" "adds (f # fs) s = adds fs (op_add ops s f)"
  "adds (fs @ gs) s = adds gs (adds fs s)"
  by (simp_all add: adds_def)

lemma adds_may: "op_mayStore ops (adds fs s) \<Longrightarrow> op_mayStore ops s"
  by (induction fs arbitrary: s) (auto dest: add_may)

lemma adds_blind: "\<not> op_storing ops s \<Longrightarrow> length fs = length gs \<Longrightarrow> adds fs s = adds gs s"
proof (induction fs gs arbitrary: s rule: list_induct2')
  case (4 f fs g gs)
  then show ?case using add_blind [of s f g] add_storing [of s g] by auto
qed auto

end

interpretation chunk: sink chunk_ops
  by unfold_locales
    (auto simp: chunk_ops_def chunk_storing_def chunk_may_store_def chunk_add_def Let_def split: if_splits)

interpretation merging: sink merge_ops
  by unfold_locales
    (auto simp: merge_ops_def merge_storing_def merge_add_def note_full_def Let_def split: if_splits)

interpretation counting: sink count_ops
  by unfold_locales (simp_all add: count_ops_def)

interpretation tape: sink tape_ops
  by unfold_locales (simp_all add: tape_ops_def)

lemma tape_sel [simp]: "op_mayStore tape_ops s" "op_storing tape_ops s" "op_add tape_ops fs f = fs @ [f]"
  by (simp_all add: tape_ops_def)

section \<open>Times across chunk edges\<close>

text \<open>
  The tracker of a chunk's own walk and the one that knows the last stamped line before the chunk:
  they follow the same stamps once the chunk has one.
\<close>

definition tracks :: "stamp_ref \<Rightarrow> time_tracker \<Rightarrow> time_tracker \<Rightarrow> bool" where
  "tracks carry own tru \<longleftrightarrow> tt_src own = tt_src tru \<and> tt_settled tru \<and> \<not> tt_settled own \<and>
     tt_last tru = (if sr_ok (tt_last own) then tt_last own else carry)"

lemma tracks_observe:
  assumes "tracks carry own tru"
  shows "fst (observe own l) = fst (observe tru l)"
    and "tracks carry (snd (observe own l)) (snd (observe tru l))"
  using assms by (auto simp: tracks_def observe_def split: option.splits)

definition lookback_of :: "time_tracker \<Rightarrow> int" where
  "lookback_of t = (case tt_src t of None \<Rightarrow> 0 | Some src \<Rightarrow> ts_lookback src)"

lemma settle_time_at:
  assumes "tracks carry own tru"
  shows "settle (time_at own start) start carry (lookback_of own) = time_at tru start"
  using assms
  by (auto simp: tracks_def time_at_def settle_def within_ref_def lookback_of_def zero_time_def split: option.splits)

end
