(* ===== verification/ByteScans.thy ===== *)
theory ByteScans
  imports Prelude
begin

text \<open>
  The byte scans of the measures, \<^verbatim>\<open>internal/sigscan/measures.go\<close>: runs of a byte set, base64 runs,
  UUIDs, the values of a line, and the lines that are not text. The UTF-8 functions are those of
  Go's \<^verbatim>\<open>unicode/utf8\<close>, from its documentation and table of first bytes.
\<close>

section \<open>UTF-8\<close>

text \<open>
  The width a first byte announces and the range of the byte after it; \<open>None\<close> for a byte no
  character starts with.
\<close>

definition utf8_first :: "byte \<Rightarrow> (nat \<times> byte \<times> byte) option" where
  "utf8_first c =
     (if c < 0x80 then Some (1, 0x80, 0xBF)
      else if c < 0xC2 then None
      else if c < 0xE0 then Some (2, 0x80, 0xBF)
      else if c = 0xE0 then Some (3, 0xA0, 0xBF)
      else if c = 0xED then Some (3, 0x80, 0x9F)
      else if c < 0xF0 then Some (3, 0x80, 0xBF)
      else if c = 0xF0 then Some (4, 0x90, 0xBF)
      else if c < 0xF4 then Some (4, 0x80, 0xBF)
      else if c = 0xF4 then Some (4, 0x80, 0x8F)
      else None)"

definition in_range :: "byte \<Rightarrow> byte \<Rightarrow> byte \<Rightarrow> bool" where
  "in_range lo hi c \<longleftrightarrow> lo \<le> c \<and> c \<le> hi"

abbreviation cont_byte :: "byte \<Rightarrow> bool" where
  "cont_byte c \<equiv> in_range 0x80 0xBF c"

definition rune_start :: "byte \<Rightarrow> bool" where
  "rune_start c \<longleftrightarrow> \<not> cont_byte c"

text \<open>\<^verbatim>\<open>utf8.Valid\<close>: character by character.\<close>

definition rune_tail :: "nat \<Rightarrow> byte \<Rightarrow> byte \<Rightarrow> bytes \<Rightarrow> bool" where
  "rune_tail n lo hi cs \<longleftrightarrow> n \<le> length cs \<and>
     (case take n cs of [] \<Rightarrow> True | b # bs \<Rightarrow> in_range lo hi b \<and> list_all cont_byte bs)"

function utf8_valid :: "bytes \<Rightarrow> bool" where
  "utf8_valid [] = True"
| "utf8_valid (c # cs) =
     (case utf8_first c of
        None \<Rightarrow> False
      | Some (w, lo, hi) \<Rightarrow> rune_tail (w - 1) lo hi cs \<and> utf8_valid (drop (w - 1) cs))"
  by pat_completeness auto
termination
  by (relation "measure length") auto

text \<open>
  \<^verbatim>\<open>utf8.FullRune\<close>: whether the bytes begin with a whole character; an invalid start is one.
\<close>

definition full_rune :: "bytes \<Rightarrow> bool" where
  "full_rune p =
     (case p of
        [] \<Rightarrow> False
      | c # cs \<Rightarrow>
          (case utf8_first c of
             None \<Rightarrow> True
           | Some (w, lo, hi) \<Rightarrow>
               length p \<ge> w \<or>
               (case cs of
                  [] \<Rightarrow> False
                | b1 # cs1 \<Rightarrow>
                    \<not> in_range lo hi b1 \<or>
                    (case cs1 of [] \<Rightarrow> False | b2 # _ \<Rightarrow> \<not> cont_byte b2))))"

section \<open>Lines that are not text\<close>

text \<open>\<^verbatim>\<open>withoutCutCharacter\<close>: the loop over the last one to three bytes.\<close>

fun without_cut_from :: "nat list \<Rightarrow> bytes \<Rightarrow> bytes" where
  "without_cut_from [] view = view"
| "without_cut_from (k # ks) view =
     (if k \<le> length view
      then (let start = length view - k
            in if rune_start (view ! start)
               then (if full_rune (drop start view) then view else take start view)
               else without_cut_from ks view)
      else view)"

definition without_cut_character :: "bytes \<Rightarrow> bytes" where
  "without_cut_character view = without_cut_from [1, 2, 3] view"

definition holds_binary :: "bytes \<Rightarrow> bool \<Rightarrow> bool" where
  "holds_binary view shortened =
     (if index_byte 0 view \<noteq> None then True
      else if utf8_valid view then False
      else \<not> shortened \<or> \<not> utf8_valid (without_cut_character view))"

section \<open>Byte sets and their runs\<close>

type_synonym byte_set = "byte \<Rightarrow> bool"

text \<open>The classes of the value measures.\<close>

definition upper_byte :: byte_set where "upper_byte c \<longleftrightarrow> in_range 65 90 c"
definition lower_byte :: byte_set where "lower_byte c \<longleftrightarrow> in_range 97 122 c"
definition digitBytes :: byte_set where "digitBytes c \<longleftrightarrow> in_range 48 57 c"

definition base64Bytes :: byte_set where
  "base64Bytes c \<longleftrightarrow> upper_byte c \<or> lower_byte c \<or> digitBytes c \<or> c = 43 \<or> c = 47"

definition tokenBytes :: byte_set where
  "tokenBytes c \<longleftrightarrow> base64Bytes c \<or> c = 61 \<or> c = 95 \<or> c = 45"

definition hexBytes :: byte_set where
  "hexBytes c \<longleftrightarrow> digitBytes c \<or> in_range 97 102 c \<or> in_range 65 70 c"

function run_of :: "bytes \<Rightarrow> nat \<Rightarrow> byte_set \<Rightarrow> nat" where
  "run_of view i bset = (if i < length view \<and> bset (view ! i) then run_of view (Suc i) bset else i)"
  by pat_completeness auto
termination
  by (relation "measure (\<lambda>(view, i, bset). length view - i)") auto

declare run_of.simps [simp del]

definition only_bytes_of :: "bytes \<Rightarrow> byte_set \<Rightarrow> bool" where
  "only_bytes_of b bset \<longleftrightarrow> run_of b 0 bset = length b"

definition is_uuid :: "bytes \<Rightarrow> bool" where
  "is_uuid b \<longleftrightarrow> length b = 36 \<and>
     list_all (\<lambda>(i, c). if i \<in> {8, 13, 18, 23} then c = 45 else hexBytes c) (enumerate 0 b)"

definition holds_letter_cases_and_digit :: "bytes \<Rightarrow> bool" where
  "holds_letter_cases_and_digit b \<longleftrightarrow>
     list_ex upper_byte b \<and> list_ex lower_byte b \<and> list_ex digitBytes b"

section \<open>Value matchers\<close>

text \<open>
  A value matcher answers the first value that starts at or after a position. The entropy matcher
  compares two floating-point numbers; that comparison, \<^verbatim>\<open>shannonEntropy\<close> against a share of
  \<^verbatim>\<open>randomEntropy\<close>, is its argument \<open>random\<close>, given the alphabet's size and the token.
\<close>

type_synonym value_matcher = "bytes \<Rightarrow> nat \<Rightarrow> (nat \<times> nat) option"

definition hexSymbols :: nat where "hexSymbols = 16"
definition base64Symbols :: nat where "base64Symbols = 64"

definition entropy_qualifies :: "(nat \<Rightarrow> bytes \<Rightarrow> bool) \<Rightarrow> bool \<Rightarrow> bytes \<Rightarrow> bool" where
  "entropy_qualifies random hexRatioSet token =
     (if is_uuid token \<or> only_bytes_of token digitBytes then False
      else if only_bytes_of token hexBytes then hexRatioSet \<and> random hexSymbols token
      else holds_letter_cases_and_digit token \<and> random base64Symbols token)"

lemma run_of_ge: "i \<le> run_of view i bset"
proof (induction view i bset rule: run_of.induct)
  case (1 view i bset)
  then show ?case by (subst run_of.simps) auto
qed

lemma run_of_gt: "i < length view \<Longrightarrow> bset (view ! i) \<Longrightarrow> i < run_of view i bset"
  using run_of_ge [of "Suc i" view bset] by (subst run_of.simps) simp

function next_token :: "(bytes \<Rightarrow> bool) \<Rightarrow> nat \<Rightarrow> bytes \<Rightarrow> nat \<Rightarrow> (nat \<times> nat) option" where
  "next_token qualifies minLength view i =
     (if i < length view
      then if \<not> tokenBytes (view ! i) then next_token qualifies minLength view (Suc i)
           else (let e = run_of view i tokenBytes
                 in if e - i \<ge> minLength \<and> qualifies (take (e - i) (drop i view)) then Some (i, e)
                    else next_token qualifies minLength view e)
      else None)"
  by pat_completeness auto
termination
  by (relation "measure (\<lambda>(q, m, view, i). length view - i)") (auto intro: diff_less_mono2 run_of_gt)

declare next_token.simps [simp del]

definition entropy_next :: "(nat \<Rightarrow> bytes \<Rightarrow> bool) \<Rightarrow> bool \<Rightarrow> nat \<Rightarrow> value_matcher" where
  "entropy_next random hexRatioSet minLength view i =
     next_token (entropy_qualifies random hexRatioSet) minLength view i"

text \<open>Up to two bytes of padding after a run.\<close>

fun skip_padding :: "nat \<Rightarrow> bytes \<Rightarrow> nat \<Rightarrow> nat" where
  "skip_padding 0 view e = e"
| "skip_padding (Suc n) view e =
     (if e < length view \<and> view ! e = 61 then skip_padding n view (Suc e) else e)"

lemma skip_padding_ge: "e \<le> skip_padding n view e"
  by (induction n arbitrary: e) (auto simp: Suc_leD)

function base64_next :: "nat \<Rightarrow> value_matcher" where
  "base64_next minLength view i =
     (if i < length view
      then if \<not> base64Bytes (view ! i) then base64_next minLength view (Suc i)
           else (let e = skip_padding 2 view (run_of view i base64Bytes)
                 in if e - i \<ge> minLength then Some (i, e) else base64_next minLength view e)
      else None)"
  by pat_completeness auto
termination
  by (relation "measure (\<lambda>(m, view, i). length view - i)")
    (auto intro!: diff_less_mono2 less_le_trans [OF run_of_gt skip_padding_ge])

declare base64_next.simps [simp del]

text \<open>\<^verbatim>\<open>appendValues\<close>: at most \<open>limit + 1\<close> values, each found from the end of the one before.\<close>

fun append_values :: "value_matcher \<Rightarrow> bytes \<Rightarrow> nat \<Rightarrow> nat \<Rightarrow> (nat \<times> nat) list" where
  "append_values m view i 0 = []"
| "append_values m view i (Suc n) =
     (case m view i of None \<Rightarrow> [] | Some (a, b) \<Rightarrow> (a, b) # append_values m view b n)"

definition values_of :: "value_matcher \<Rightarrow> bytes \<Rightarrow> nat \<Rightarrow> (nat \<times> nat) list" where
  "values_of m view limit = append_values m view 0 (limit + 1)"

section \<open>A cut line of text is text\<close>

named_theorems utf8_simps "facts about the bytes of characters"

lemma utf8_first_width [utf8_simps]:
  "utf8_first c = Some (w, lo, hi) \<Longrightarrow> w \<in> {1, 2, 3, 4} \<and> 0x80 \<le> lo \<and> hi \<le> 0xBF \<and> rune_start c"
proof -
  assume f: "utf8_first c = Some (w, lo, hi)"
  then have "c < 0x80 \<or> 0xC2 \<le> c" by (auto simp: utf8_first_def split: if_splits)
  then have "rune_start c"
    unfolding rune_start_def in_range_def by (auto simp: word_less_nat_alt word_le_nat_alt)
  then show ?thesis using f by (auto simp: utf8_first_def split: if_splits)
qed

text \<open>The bytes of a character that its line was cut in.\<close>

definition cut_char :: "bytes \<Rightarrow> bool" where
  "cut_char t \<longleftrightarrow> (\<exists>c cs. t = c # cs \<and> length cs \<le> 2 \<and> rune_start c \<and> list_all cont_byte cs \<and> \<not> full_rune t)"

lemma cut_charI:
  assumes f: "utf8_first c = Some (w, lo, hi)" and cs: "Suc (length cs) < w"
    and tl: "case cs of [] \<Rightarrow> True | b # bs \<Rightarrow> in_range lo hi b \<and> list_all cont_byte bs"
  shows "cut_char (c # cs)"
proof -
  have w: "w \<in> {1, 2, 3, 4}" "0x80 \<le> lo" "hi \<le> 0xBF" "rune_start c"
    using utf8_first_width [OF f] by auto
  then have len: "length cs \<le> 2" using cs by auto
  have "in_range lo hi b \<Longrightarrow> cont_byte b" for b
    unfolding in_range_def using w(2,3) by (meson order_trans)
  then have "list_all cont_byte cs" using tl by (auto split: list.splits)
  moreover have "\<not> full_rune (c # cs)"
    using f cs tl by (auto simp: full_rune_def split: list.splits)
  ultimately show ?thesis using w(4) len by (auto simp: cut_char_def)
qed

lemma rune_tail_take:
  assumes "rune_tail n lo hi cs"
  shows "case take k (take n cs) of [] \<Rightarrow> True | b # bs \<Rightarrow> in_range lo hi b \<and> list_all cont_byte bs"
proof (cases "take n cs")
  case (Cons b bs)
  have "set (take (k - 1) bs) \<subseteq> set bs" by (rule set_take_subset)
  then show ?thesis using assms Cons by (cases k) (auto simp: rune_tail_def list_all_iff)
next
  case Nil
  then show ?thesis by (simp only: take_Nil list.case)
qed

lemma utf8_valid_take:
  "utf8_valid l \<Longrightarrow> \<exists>v t. take k l = v @ t \<and> utf8_valid v \<and> (t = [] \<or> cut_char t)"
proof (induction l arbitrary: k rule: utf8_valid.induct)
  case 1
  then show ?case by auto
next
  case (2 c cs)
  obtain w lo hi where f: "utf8_first c = Some (w, lo, hi)" and tl: "rune_tail (w - 1) lo hi cs"
    and rest: "utf8_valid (drop (w - 1) cs)"
    using "2.prems" by (auto split: option.splits)
  have w: "1 \<le> w" using utf8_first_width [OF f] by auto
  consider "k = 0" | "0 < k" "k < w" | "w \<le> k" by linarith
  then show ?case
  proof cases
    case 1
    then show ?thesis by auto
  next
    case 2
    then have "take (k - 1) (take (w - 1) cs) = take (k - 1) cs" "length (take (k - 1) cs) = k - 1"
      using tl by (auto simp: rune_tail_def)
    then have "cut_char (c # take (k - 1) cs)"
      using cut_charI [OF f, of "take (k - 1) cs"] rune_tail_take [OF tl, of "k - 1"] 2 by simp
    then show ?thesis using 2 by (intro exI [of _ "[]"] exI [of _ "c # take (k - 1) cs"]) (cases k; auto)
  next
    case 3
    obtain v t where v: "take (k - w) (drop (w - 1) cs) = v @ t" "utf8_valid v" "t = [] \<or> cut_char t"
      using "2.IH" [OF f refl refl rest] by blast
    have len: "length (take (w - 1) cs) = w - 1" using tl by (simp add: rune_tail_def)
    have "k - 1 = (w - 1) + (k - w)" using 3 w by simp
    then have "take (k - 1) cs = take (w - 1) cs @ v @ t" using take_add [of "w - 1" "k - w" cs] v(1) by simp
    then have "take k (c # cs) = (c # take (w - 1) cs @ v) @ t" using 3 w by (cases k) auto
    moreover have "rune_tail (w - 1) lo hi (take (w - 1) cs @ v)"
      using tl len by (simp add: rune_tail_def)
    then have "utf8_valid (c # take (w - 1) cs @ v)" using f v(2) len by simp
    ultimately show ?thesis using v(3) by blast
  qed
qed

lemma without_cut_character_cut:
  assumes "cut_char t"
  shows "without_cut_character (v @ t) = v"
proof -
  obtain c cs where t: "t = c # cs" "length cs \<le> 2" "rune_start c" "list_all cont_byte cs" "\<not> full_rune t"
    using assms by (auto simp: cut_char_def)
  consider "cs = []" | b1 where "cs = [b1]" | b1 b2 where "cs = [b1, b2]"
    using t(2) by (cases cs; cases "tl cs") auto
  then show ?thesis
    using t by cases (auto simp: without_cut_character_def rune_start_def nth_append Let_def)
qed

section \<open>Runs and values\<close>

lemma run_of_spec:
  "i \<le> length view \<Longrightarrow> run_of view i bset \<le> length view \<and>
    (\<forall>j. i \<le> j \<and> j < run_of view i bset \<longrightarrow> bset (view ! j)) \<and>
    (run_of view i bset < length view \<longrightarrow> \<not> bset (view ! run_of view i bset))"
proof (induction view i bset rule: run_of.induct)
  case (1 view i bset)
  show ?case
  proof (cases "i < length view \<and> bset (view ! i)")
    case True
    then have eq: "run_of view i bset = run_of view (Suc i) bset" by (subst run_of.simps) simp
    have "bset (view ! j)" if "i \<le> j" "j < run_of view (Suc i) bset" for j
      using "1.IH" [OF True] True that by (cases "j = i") auto
    then show ?thesis using "1.IH" [OF True] True unfolding eq by auto
  next
    case False
    then have "run_of view i bset = i" using run_of.simps [of view i bset] by (simp only: if_False)
    then show ?thesis using False "1.prems" by auto
  qed
qed

lemma only_bytes_of_iff: "only_bytes_of b bset \<longleftrightarrow> list_all bset b"
proof -
  have "run_of b 0 bset = length b \<longleftrightarrow> (\<forall>j < length b. bset (b ! j))"
    using run_of_spec [of 0 b bset] by (auto simp: order_less_le)
  then show ?thesis by (simp add: only_bytes_of_def list_all_length)
qed

lemma skip_padding_spec:
  "e \<le> length view \<Longrightarrow> skip_padding n view e \<le> length view \<and> skip_padding n view e \<le> e + n \<and>
    (\<forall>j. e \<le> j \<and> j < skip_padding n view e \<longrightarrow> view ! j = 61) \<and>
    (skip_padding n view e < e + n \<and> skip_padding n view e < length view \<longrightarrow> view ! skip_padding n view e \<noteq> 61)"
proof (induction n arbitrary: e)
  case (Suc n)
  show ?case
  proof (cases "e < length view \<and> view ! e = 61")
    case True
    then have "view ! j = 61" if "e \<le> j" "j < skip_padding n view (Suc e)" for j
      using Suc.IH [of "Suc e"] that by (cases "j = e") auto
    then show ?thesis using Suc.IH [of "Suc e"] True by auto
  qed (use Suc.prems in auto)
qed auto

text \<open>
  A base64 value, by its two ends: digits up to one end, which no digit follows, and then every
  padding byte that follows them, up to two.
\<close>

definition digits_at :: "bytes \<Rightarrow> nat \<Rightarrow> nat \<Rightarrow> bool" where
  "digits_at view a b \<longleftrightarrow> a \<le> b \<and> b \<le> length view \<and> (\<forall>j. a \<le> j \<and> j < b \<longrightarrow> base64Bytes (view ! j))"

definition value_ends :: "bytes \<Rightarrow> nat \<Rightarrow> nat \<Rightarrow> nat \<Rightarrow> bool" where
  "value_ends view a e b \<longleftrightarrow> a < e \<and> digits_at view a e \<and> (e < length view \<longrightarrow> \<not> base64Bytes (view ! e)) \<and>
     e \<le> b \<and> b \<le> e + 2 \<and> b \<le> length view \<and> (\<forall>j. e \<le> j \<and> j < b \<longrightarrow> view ! j = 61) \<and>
     (b < e + 2 \<and> b < length view \<longrightarrow> view ! b \<noteq> 61)"

definition base64_value :: "bytes \<Rightarrow> nat \<Rightarrow> nat \<Rightarrow> bool" where
  "base64_value view a b \<longleftrightarrow> (\<exists>e. value_ends view a e b)"

text \<open>Its first digit is the first of a run of the line from \<open>i\<close> on.\<close>

definition starts_run :: "bytes \<Rightarrow> nat \<Rightarrow> nat \<Rightarrow> bool" where
  "starts_run view i a \<longleftrightarrow> i \<le> a \<and> (a = i \<or> \<not> base64Bytes (view ! (a - 1)))"

lemma not_digit_61: "\<not> base64Bytes 61"
  by (simp add: base64Bytes_def upper_byte_def lower_byte_def digitBytes_def in_range_def)

lemma value_ends_unique:
  assumes "value_ends view a e b" and "value_ends view a e' b'"
  shows "b = b'"
proof -
  have "\<not> e < e'" "\<not> e' < e" using assms by (auto simp: value_ends_def digits_at_def)
  then have e: "e = e'" by simp
  have "\<not> b < b'" "\<not> b' < b" using assms unfolding e value_ends_def by (metis add_leD1 le_trans not_less order_less_le_trans)+
  then show ?thesis by simp
qed

lemma value_digit: "base64_value view a b \<Longrightarrow> a < length view \<and> base64Bytes (view ! a)"
  by (auto simp: base64_value_def value_ends_def digits_at_def)

lemma base64_next_spec:
  "(case base64_next m view i of
      None \<Rightarrow> \<forall>a b. starts_run view i a \<and> base64_value view a b \<longrightarrow> b - a < m
    | Some (a, b) \<Rightarrow> starts_run view i a \<and> base64_value view a b \<and> m \<le> b - a \<and>
        (\<forall>a' b'. starts_run view i a' \<and> base64_value view a' b' \<and> a' < a \<longrightarrow> b' - a' < m))"
proof (induction m view i rule: base64_next.induct)
  case (1 m view i)
  consider (over) "length view \<le> i" | (other) "i < length view" "\<not> base64Bytes (view ! i)"
    | (run) "i < length view" "base64Bytes (view ! i)" by linarith
  then show ?case
  proof cases
    case over
    then have "base64_next m view i = None" by (subst base64_next.simps) simp
    then show ?thesis using over by (auto simp: starts_run_def dest!: value_digit)
  next
    case other
    then have eq: "base64_next m view i = base64_next m view (Suc i)" by (subst base64_next.simps) simp
    have same: "starts_run view i a \<longleftrightarrow> starts_run view (Suc i) a" if "base64_value view a b" for a b
      using value_digit [OF that] other by (cases "a = i"; cases "a = Suc i") (auto simp: starts_run_def)
    have le: "\<not> base64_value view i b" for b using value_digit [of view i b] other by blast
    from "1.IH"(1) [OF other] show ?thesis
      unfolding eq by (auto split: option.splits prod.splits simp: same)
  next
    case run
    define e where "e = run_of view i base64Bytes"
    define p where "p = skip_padding 2 view e"
    have e: "i < e" "e \<le> length view" "digits_at view i e" "e < length view \<longrightarrow> \<not> base64Bytes (view ! e)"
      using run run_of_gt [of i view base64Bytes] run_of_spec [of i view base64Bytes]
      by (auto simp: e_def digits_at_def)
    have p: "e \<le> p" "p \<le> length view" "p \<le> e + 2" "\<forall>j. e \<le> j \<and> j < p \<longrightarrow> view ! j = 61"
      "p < e + 2 \<and> p < length view \<longrightarrow> view ! p \<noteq> 61"
      using skip_padding_spec [OF e(2), of 2] skip_padding_ge [of e 2 view] by (auto simp: p_def)
    have ends: "value_ends view i e p" using e p by (auto simp: value_ends_def)
    have eq: "base64_next m view i = (if p - i \<ge> m then Some (i, p) else base64_next m view p)"
      using run by (subst base64_next.simps) (simp add: Let_def e_def p_def)
    have first: "starts_run view i i" by (simp add: starts_run_def)
    show ?thesis
    proof (cases "p - i \<ge> m")
      case True
      then show ?thesis using eq ends first by (auto simp: base64_value_def starts_run_def)
    next
      case False
      have here: "b - a < m \<and> a < p" if v: "starts_run view i a" "base64_value view a b" "\<not> starts_run view p a" for a b
      proof -
        have "a = i"
        proof (rule ccontr)
          assume "a \<noteq> i"
          then have a: "i < a" "\<not> base64Bytes (view ! (a - 1))" using v(1) by (auto simp: starts_run_def)
          have "base64Bytes (view ! (a - 1))" if "a \<le> e"
          proof -
            have "i \<le> a - 1 \<and> a - 1 < e" using that a(1) by linarith
            then show ?thesis using e(3) unfolding digits_at_def by blast
          qed
          then have "\<not> a \<le> e" using a(2) by blast
          moreover have "\<not> (e \<le> a \<and> a < p)" using p(4) value_digit [OF v(2)] not_digit_61 by metis
          ultimately have "p \<le> a" by simp
          then show False using v(3) a(2) by (simp add: starts_run_def)
        qed
        then have "b = p" using v(2) value_ends_unique [OF _ ends] by (auto simp: base64_value_def)
        then show ?thesis using False \<open>a = i\<close> e(1) p(1) by simp
      qed
      have there: "starts_run view i a" if v: "starts_run view p a" "base64_value view a b" for a b
      proof (cases "a = p")
        case True
        have "p \<noteq> e" using value_digit [OF v(2)] e(4) True by auto
        then have "view ! (p - 1) = 61" "e < p" using p(1,4) by auto
        then show ?thesis using True e(1) not_digit_61 by (simp add: starts_run_def)
      next
        case False
        then show ?thesis using v(1) e(1) p(1) by (auto simp: starts_run_def)
      qed
      have "(case base64_next m view p of
          None \<Rightarrow> \<forall>a b. starts_run view p a \<and> base64_value view a b \<longrightarrow> b - a < m
        | Some (a, b) \<Rightarrow> starts_run view p a \<and> base64_value view a b \<and> m \<le> b - a \<and>
            (\<forall>a' b'. starts_run view p a' \<and> base64_value view a' b' \<and> a' < a \<longrightarrow> b' - a' < m))"
        using "1.IH"(2) [OF run(1) _ p_def [unfolded e_def]] run False by simp
      then show ?thesis
        unfolding eq using False here there by (auto split: option.splits prod.splits) blast+
    qed
  qed
qed

section \<open>Properties\<close>

text \<open>
  Cutting a line to its view never makes it binary: a line of UTF-8 text without a NUL byte is not counted, at whatever
  byte the view is cut.
\<close>

lemma cut_text_not_binary:
  assumes "utf8_valid l" and "0 \<notin> set l"
  shows "\<not> holds_binary (take k l) True"
proof -
  obtain v t where v: "take k l = v @ t" "utf8_valid v" "t = [] \<or> cut_char t"
    using utf8_valid_take [OF assms(1)] by blast
  have "index_byte 0 (take k l) = None"
    using assms(2) set_take_subset [of k l] by (auto simp: index_byte_None)
  then show ?thesis using v without_cut_character_cut by (auto simp: holds_binary_def)
qed

text \<open>
  Claim C22. From a position on, the base64 measure reports the first value that is long enough: a
  value begins where a run of base64 digits begins, takes the whole run and every padding byte
  behind it up to two, and its length is counted with the padding. It reports nothing exactly when
  no value from there on is as long as asked.
\<close>

theorem base64_next_first:
  "(case base64_next m view i of
      None \<Rightarrow> \<not> (\<exists>a b. starts_run view i a \<and> base64_value view a b \<and> m \<le> b - a)
    | Some (a, b) \<Rightarrow> starts_run view i a \<and> base64_value view a b \<and> m \<le> b - a \<and>
        \<not> (\<exists>a' b'. starts_run view i a' \<and> base64_value view a' b' \<and> a' < a \<and> m \<le> b' - a'))"
  using base64_next_spec [where m = m and view = view and i = i] by (auto simp: not_le split: option.splits prod.splits)

end
