(* ===== verification/Runs.thy ===== *)
theory Runs
  imports Findings ByteScans
begin

text \<open>
  Run signatures over consecutive lines, \<^verbatim>\<open>internal/sigscan/run.go\<close>: the walker of one chunk, the
  runs at its edges that the merge joins, and what a walker hands to any sink.
\<close>

section \<open>Programs and pieces\<close>

datatype run_mode = RunMatch | RunBlank | RunSame | RunBinary | RunUnprefixed

record run_spec =
  spec_match :: "regex option"
  spec_not :: "regex option"
  spec_min :: int
  spec_blank :: bool
  spec_same :: bool

record run_program =
  rp_mode :: run_mode
  rp_match :: "regex option"
  rp_not :: "regex option"
  rp_min :: int

definition compile_run :: "run_spec \<Rightarrow> run_program" where
  "compile_run spec =
     \<lparr>rp_mode = (if spec_blank spec then RunBlank else if spec_same spec then RunSame else RunMatch),
      rp_match = spec_match spec, rp_not = spec_not spec, rp_min = spec_min spec\<rparr>"

definition matches_run :: "run_program \<Rightarrow> bytes \<Rightarrow> bool" where
  "matches_run p view \<longleftrightarrow>
     (case rp_match p of None \<Rightarrow> False | Some re \<Rightarrow> rx_match re view) \<and>
     (case rp_not p of None \<Rightarrow> True | Some re \<Rightarrow> \<not> rx_match re view)"

record run_piece =
  rp_startIdx :: int
  rp_endIdx :: int
  rp_startOff :: int
  rp_endOff :: int
  rp_firstLen :: int
  rp_excerpt :: bytes
  rp_hasEx :: bool
  rp_vs :: int
  rp_ve :: int
  rp_masked :: bool
  rp_tm :: time_ref

definition zero_piece :: run_piece where
  "zero_piece = \<lparr>rp_startIdx = 0, rp_endIdx = 0, rp_startOff = 0, rp_endOff = 0, rp_firstLen = 0,
     rp_excerpt = [], rp_hasEx = False, rp_vs = 0, rp_ve = 0, rp_masked = False, rp_tm = zero_time\<rparr>"

definition piece_lines :: "run_piece \<Rightarrow> int" where
  "piece_lines p = rp_endIdx p - rp_startIdx p + 1"

text \<open>\<^verbatim>\<open>emitPiece\<close>: the finding of a run.\<close>

definition piece_finding :: "run_piece \<Rightarrow> raw_finding" where
  "piece_finding p =
     \<lparr>rf_startIdx = rp_startIdx p, rf_endIdx = rp_endIdx p, rf_startOff = rp_startOff p,
      rf_endOff = rp_endOff p, rf_firstLen = rp_firstLen p, rf_excerpt = rp_excerpt p,
      rf_hasEx = rp_hasEx p, rf_vs = rp_vs p, rf_ve = rp_ve p, rf_masked = rp_masked p, rf_tm = rp_tm p\<rparr>"

definition emit_piece :: "'s sink_ops \<Rightarrow> run_piece \<Rightarrow> 's \<Rightarrow> 's" where
  "emit_piece ops p s = op_add ops s (piece_finding p)"

definition keys_equal :: "bytes \<Rightarrow> int \<Rightarrow> bytes \<Rightarrow> int \<Rightarrow> bool" where
  "keys_equal aView aLen bView bLen \<longleftrightarrow> aLen = bLen \<and> aView = bView"

section \<open>The walker\<close>

record run_walker =
  rw_open :: bool
  rw_cur :: run_piece
  rw_qualifiedAt :: int
  rw_leading :: run_piece
  rw_hasLeading :: bool

definition new_run_walker :: run_walker where
  "new_run_walker = \<lparr>rw_open = False, rw_cur = zero_piece, rw_qualifiedAt = -1,
     rw_leading = zero_piece, rw_hasLeading = False\<rparr>"

definition run_build_excerpt ::
  "sig_env \<Rightarrow> run_program \<Rightarrow> 's sink_ops \<Rightarrow> bytes \<Rightarrow> line option \<Rightarrow> 's \<Rightarrow> run_walker \<Rightarrow> run_walker" where
  "run_build_excerpt cs prog ops view lo s r =
     (if rp_hasEx (rw_cur r) \<or> \<not> op_mayStore ops s \<or> se_bodyOnly cs then r
      else case (rp_mode prog, rp_match prog, lo) of
             (RunMatch, Some re, Some l) \<Rightarrow>
               (case anchor_excerpt cs re l of (ex, masked, vs, ve) \<Rightarrow>
                  r\<lparr>rw_cur := (rw_cur r)\<lparr>rp_hasEx := True, rp_excerpt := ex, rp_masked := masked,
                     rp_vs := vs, rp_ve := ve\<rparr>\<rparr>)
           | _ \<Rightarrow>
               (case se_build cs view of (ex, masked) \<Rightarrow>
                  r\<lparr>rw_cur := (rw_cur r)\<lparr>rp_hasEx := True, rp_excerpt := ex, rp_masked := masked\<rparr>\<rparr>))"

definition run_begin ::
  "sig_env \<Rightarrow> run_program \<Rightarrow> time_tracker \<Rightarrow> 's sink_ops \<Rightarrow> line \<Rightarrow> int \<Rightarrow> 's \<Rightarrow> run_walker \<Rightarrow> run_walker" where
  "run_begin cs prog tt ops l idx s r =
     (let r1 = r\<lparr>rw_open := True,
                 rw_cur := \<lparr>rp_startIdx = idx, rp_endIdx = idx, rp_startOff = lstart l,
                    rp_endOff = lnext l, rp_firstLen = llength l, rp_excerpt = [], rp_hasEx = False,
                    rp_vs = -1, rp_ve = -1, rp_masked = False, rp_tm = time_at tt (lstart l)\<rparr>\<rparr>
      in if rp_mode prog \<noteq> RunSame then run_build_excerpt cs prog ops (lview l) (Some l) s r1 else r1)"

definition run_extend :: "line \<Rightarrow> int \<Rightarrow> run_walker \<Rightarrow> run_walker" where
  "run_extend l idx r = r\<lparr>rw_cur := (rw_cur r)\<lparr>rp_endIdx := idx, rp_endOff := lnext l\<rparr>\<rparr>"

definition run_end :: "run_program \<Rightarrow> 's sink_ops \<Rightarrow> run_walker \<Rightarrow> 's \<Rightarrow> run_walker \<times> 's" where
  "run_end prog ops r s =
     (if \<not> rw_open r then (r, s)
      else (let r1 = r\<lparr>rw_open := False\<rparr>
            in if rp_startIdx (rw_cur r1) = 0
               then (r1\<lparr>rw_leading := rw_cur r1, rw_hasLeading := True\<rparr>, s)
               else if piece_lines (rw_cur r1) \<ge> rp_min prog then (r1, emit_piece ops (rw_cur r1) s)
               else (r1, s)))"

definition run_qualifies :: "run_program \<Rightarrow> time_tracker \<Rightarrow> line \<Rightarrow> int \<Rightarrow> run_walker \<Rightarrow> bool" where
  "run_qualifies prog tt l idx r =
     (case rp_mode prog of
        RunMatch \<Rightarrow> rw_qualifiedAt r = idx
      | RunBlank \<Rightarrow> is_blank (lview l)
      | RunBinary \<Rightarrow> holds_binary (lview l) (int (length (lview l)) < llength l)
      | RunUnprefixed \<Rightarrow> tt_src tt \<noteq> None \<and> \<not> stamped l
      | RunSame \<Rightarrow> False)"

text \<open>\<^verbatim>\<open>step\<close>: \<open>tt\<close> is the walk's tracker, which has seen the line.\<close>

definition run_step ::
  "sig_env \<Rightarrow> run_program \<Rightarrow> time_tracker \<Rightarrow> 's sink_ops \<Rightarrow> line \<Rightarrow> int \<Rightarrow> bool
   \<Rightarrow> run_walker \<Rightarrow> 's \<Rightarrow> run_walker \<times> 's" where
  "run_step cs prog tt ops l idx sameAsPrevious r s =
     (if rp_mode prog = RunSame
      then (if \<not> sameAsPrevious
            then case run_end prog ops r s of (r1, s1) \<Rightarrow> (run_begin cs prog tt ops l idx s1 r1, s1)
            else (run_build_excerpt cs prog ops (lview l) (Some l) s (run_extend l idx r), s))
      else if \<not> run_qualifies prog tt l idx r then run_end prog ops r s
      else if \<not> rw_open r then (run_begin cs prog tt ops l idx s r, s)
      else (run_extend l idx r, s))"

record run_edges =
  e_leading :: run_piece
  e_hasLeading :: bool
  e_whole :: bool
  e_trailing :: run_piece
  e_hasTrailing :: bool

definition run_edges_of ::
  "sig_env \<Rightarrow> run_program \<Rightarrow> 's sink_ops \<Rightarrow> bytes \<Rightarrow> 's \<Rightarrow> run_walker \<Rightarrow> run_edges" where
  "run_edges_of cs prog ops lastView s r =
     (let e = \<lparr>e_leading = rw_leading r, e_hasLeading = rw_hasLeading r, e_whole = False,
               e_trailing = zero_piece, e_hasTrailing = False\<rparr>
      in if \<not> rw_open r then e
         else (let r1 = (if rp_mode prog = RunSame
                         then run_build_excerpt cs prog ops lastView None s r else r)
               in if rp_startIdx (rw_cur r1) = 0
                  then e\<lparr>e_leading := rw_cur r1, e_hasLeading := True, e_whole := True\<rparr>
                  else e\<lparr>e_trailing := rw_cur r1, e_hasTrailing := True\<rparr>))"

section \<open>Walking into any sink\<close>

text \<open>What is left of a piece without its excerpt, which a sink that stores nothing does not get.\<close>

definition erase :: "run_piece \<Rightarrow> int \<times> int \<times> int \<times> int \<times> int \<times> time_ref" where
  "erase p = (rp_startIdx p, rp_endIdx p, rp_startOff p, rp_endOff p, rp_firstLen p, rp_tm p)"

definition erase_walker ::
  "run_walker \<Rightarrow> bool \<times> int \<times> bool \<times> (int \<times> int \<times> int \<times> int \<times> int \<times> time_ref)
     \<times> (int \<times> int \<times> int \<times> int \<times> int \<times> time_ref)" where
  "erase_walker r = (rw_open r, rw_qualifiedAt r, rw_hasLeading r, erase (rw_cur r), erase (rw_leading r))"

lemma erase_walker_sel:
  assumes "erase_walker r = erase_walker v"
  shows "rw_open r = rw_open v" and "rw_qualifiedAt r = rw_qualifiedAt v"
    and "rw_hasLeading r = rw_hasLeading v" and "erase (rw_cur r) = erase (rw_cur v)"
    and "erase (rw_leading r) = erase (rw_leading v)"
    and "rp_startIdx (rw_cur r) = rp_startIdx (rw_cur v)" and "rp_endIdx (rw_cur r) = rp_endIdx (rw_cur v)"
  using assms by (simp_all add: erase_walker_def erase_def)

lemma erase_build [simp]:
  "erase_walker (run_build_excerpt cs prog ops view lo s r) = erase_walker r"
  by (auto simp: run_build_excerpt_def erase_walker_def erase_def split: prod.splits option.splits run_mode.splits)

lemma erase_begin:
  "erase_walker r = erase_walker v \<Longrightarrow>
    erase_walker (run_begin cs prog tt ops l idx s r) = erase_walker (run_begin cs prog tt ops' l idx s' v)"
  by (simp add: run_begin_def Let_def) (simp add: erase_walker_def erase_def)

lemma erase_extend:
  "erase_walker r = erase_walker v \<Longrightarrow>
    erase_walker (run_extend l idx r) = erase_walker (run_extend l idx v)"
  by (simp add: run_extend_def erase_walker_def erase_def)

lemma run_build_ops:
  assumes "op_mayStore ops s = op_mayStore ops' s'"
  shows "run_build_excerpt cs prog ops view lo s r = run_build_excerpt cs prog ops' view lo s' r"
  using assms by (simp add: run_build_excerpt_def)

lemma run_begin_ops:
  assumes "op_mayStore ops s = op_mayStore ops' s'"
  shows "run_begin cs prog tt ops l idx s r = run_begin cs prog tt ops' l idx s' r"
  using run_build_ops [OF assms] by (simp add: run_begin_def Let_def)

text \<open>The reference walker's step does not look at what it has found so far.\<close>

lemma tape_run_end: "run_end prog tape_ops v acc = (fst (run_end prog tape_ops v []), acc @ snd (run_end prog tape_ops v []))"
  by (simp add: run_end_def emit_piece_def Let_def)

lemma tape_run_step:
  "run_step cs prog tt tape_ops l idx same v acc =
    (fst (run_step cs prog tt tape_ops l idx same v []), acc @ snd (run_step cs prog tt tape_ops l idx same v []))"
  using tape_run_end [of prog v acc] run_begin_ops [of tape_ops acc tape_ops "[]"]
    run_build_ops [of tape_ops acc tape_ops "[]"] run_begin_ops [of tape_ops "acc @ xs" tape_ops "xs" for xs]
  by (auto simp: run_step_def split: prod.splits)

context sink
begin

text \<open>
  A walker and the reference walker agree: on everything while the sink may store, on all but the
  excerpts after.
\<close>

definition run_sim :: "'s \<Rightarrow> run_walker \<Rightarrow> run_walker \<Rightarrow> bool" where
  "run_sim s r v \<longleftrightarrow> erase_walker r = erase_walker v \<and> (op_mayStore ops s \<longrightarrow> r = v)"

lemma run_sim_mono: "run_sim s r v \<Longrightarrow> (op_mayStore ops s' \<Longrightarrow> op_mayStore ops s) \<Longrightarrow> run_sim s' r v"
  by (auto simp: run_sim_def)

lemma run_sim_refl [simp]: "run_sim s r r"
  by (simp add: run_sim_def)

lemma run_build_sim:
  "run_sim s r v \<Longrightarrow>
    run_sim s (run_build_excerpt cs prog ops view lo s r) (run_build_excerpt cs prog tape_ops view lo acc v)"
  using run_build_ops [of ops s tape_ops acc] by (auto simp: run_sim_def)

lemma run_begin_sim:
  "run_sim s r v \<Longrightarrow>
    run_sim s (run_begin cs prog tt ops l idx s r) (run_begin cs prog tt tape_ops l idx acc v)"
  using run_begin_ops [of ops s tape_ops acc] erase_begin [of r v]
  unfolding run_sim_def by (metis tape_sel(1))

lemma run_extend_sim: "run_sim s r v \<Longrightarrow> run_sim s (run_extend l idx r) (run_extend l idx v)"
  using erase_extend [of r v] unfolding run_sim_def by simp

lemma emit_piece_sim:
  assumes "run_sim s r v"
  shows "emit_piece ops (rw_cur r) s = op_add ops s (piece_finding (rw_cur v))"
proof (cases "op_mayStore ops s")
  case True
  then show ?thesis using assms by (simp add: emit_piece_def run_sim_def)
next
  case False
  then show ?thesis unfolding emit_piece_def by (intro add_agree) (simp add: agree_def)
qed

lemma run_end_sim:
  assumes "run_sim s r v"
  shows "\<exists>r'. run_end prog ops r s = (r', adds (snd (run_end prog tape_ops v [])) s) \<and>
    run_sim (adds (snd (run_end prog tape_ops v [])) s) r' (fst (run_end prog tape_ops v []))"
proof -
  note e = erase_walker_sel [OF assms [unfolded run_sim_def, THEN conjunct1]]
  have lines: "piece_lines (rw_cur r) = piece_lines (rw_cur v)" using e(6,7) by (simp add: piece_lines_def)
  have sim: "run_sim s' (r\<lparr>rw_open := False\<rparr>) (v\<lparr>rw_open := False\<rparr>)"
    "run_sim s' (r\<lparr>rw_open := False, rw_leading := rw_cur r, rw_hasLeading := True\<rparr>)
       (v\<lparr>rw_open := False, rw_leading := rw_cur v, rw_hasLeading := True\<rparr>)"
    if "op_mayStore ops s' \<Longrightarrow> op_mayStore ops s" for s'
    using that assms e by (auto simp: run_sim_def erase_walker_def)
  show ?thesis
  proof (cases "rw_open v")
    case False
    then show ?thesis using assms e(1) by (simp add: run_end_def)
  next
    case True
    then have "rw_open r" using e(1) by simp
    with True show ?thesis
      using sim [of s] sim [of "op_add ops s (piece_finding (rw_cur v))"] lines e(6) add_may
        emit_piece_sim [OF assms]
      by (auto simp: run_end_def Let_def emit_piece_def [of tape_ops])
  qed
qed

text \<open>One line: the sink gets what the reference walker finds, and the walkers agree again.\<close>

lemma run_step_sim:
  assumes "run_sim s r v"
  shows "\<exists>r'. run_step cs prog tt ops l idx same r s =
      (r', adds (snd (run_step cs prog tt tape_ops l idx same v [])) s) \<and>
    run_sim (adds (snd (run_step cs prog tt tape_ops l idx same v [])) s) r'
      (fst (run_step cs prog tt tape_ops l idx same v []))"
proof -
  note e = erase_walker_sel [OF assms [unfolded run_sim_def, THEN conjunct1]]
  have q: "run_qualifies prog tt l idx r = run_qualifies prog tt l idx v"
    by (simp add: run_qualifies_def e split: run_mode.split)
  obtain r' where ended: "run_end prog ops r s = (r', adds (snd (run_end prog tape_ops v [])) s)"
    "run_sim (adds (snd (run_end prog tape_ops v [])) s) r' (fst (run_end prog tape_ops v []))"
    using run_end_sim [OF assms, of prog] by blast
  show ?thesis
    using ended q e(1) assms run_begin_sim [OF assms] run_begin_sim [OF ended(2)]
      run_extend_sim [OF assms] run_build_sim [OF run_extend_sim [OF assms]]
    by (auto simp: run_step_def split: prod.splits)
qed

end

end
