(* ===== verification/Blocks.thy ===== *)
theory Blocks
  imports Findings
begin

text \<open>
  Block signatures over consecutive lines, \<^verbatim>\<open>internal/sigscan/block.go\<close> and \<^verbatim>\<open>jsonblock.go\<close>: a
  block program, the walker that holds at most one open block, and what it hands to any sink.
\<close>

section \<open>Programs\<close>

record block_rule =
  br_re :: "regex option"
  br_next :: nat
  br_end :: bool

record block_program =
  bp_anchor :: "regex option"
  bp_not :: "regex option"
  bp_rules :: "block_rule list list"
  bp_lines :: int
  bp_minLines :: int
  bp_maxLines :: int
  bp_json :: bool

text \<open>\<^verbatim>\<open>signatures.StateRule\<close> and \<^verbatim>\<open>signatures.BlockSpec\<close>.\<close>

record state_rule =
  sr_State :: string
  sr_Regex :: "regex option"
  sr_Next :: string
  sr_End :: bool

record block_spec =
  bs_States :: "state_rule list"
  bs_Start :: "regex option"
  bs_Lines :: int
  bs_MinLines :: int
  bs_MaxLines :: int
  bs_Not :: "regex option"

definition every_line_regex :: "regex option \<Rightarrow> bool" where
  "every_line_regex re = (case re of None \<Rightarrow> True | Some r \<Rightarrow> rx_string r = [])"

definition state_start :: string where "state_start = ''start''"

text \<open>The index of each state that has rules, ''start'' first.\<close>

fun index_states :: "(string, nat) gomap \<Rightarrow> state_rule list \<Rightarrow> (string, nat) gomap" where
  "index_states m [] = m"
| "index_states m (r # rs) =
     index_states (if map_of m (sr_State r) = None then AList.update (sr_State r) (length m) m else m) rs"

fun add_rules ::
  "(string, nat) gomap \<Rightarrow> state_rule list \<Rightarrow> block_rule list list \<Rightarrow> string + block_rule list list" where
  "add_rules index [] rules = Inr rules"
| "add_rules index (r # rs) rules =
     (let re = (if every_line_regex (sr_Regex r) then None else sr_Regex r);
          k = the (map_of index (sr_State r));
          put = (\<lambda>rule. add_rules index rs (rules[k := rules ! k @ [rule]]))
      in if sr_End r then put \<lparr>br_re = re, br_next = 0, br_end = True\<rparr>
         else case map_of index (sr_Next r) of
                None \<Rightarrow> Inl ''block rule moves to a state which has no rules''
              | Some nxt \<Rightarrow> put \<lparr>br_re = re, br_next = nxt, br_end = False\<rparr>)"

definition compile_block :: "block_spec \<Rightarrow> string + block_program" where
  "compile_block spec =
     (let p = \<lparr>bp_anchor = bs_Start spec, bp_not = bs_Not spec, bp_rules = [], bp_lines = bs_Lines spec,
               bp_minLines = bs_MinLines spec, bp_maxLines = bs_MaxLines spec, bp_json = False\<rparr>
      in if bp_anchor p = None then Inl ''block has no start regex''
         else if bp_lines p > 0 then Inr p
         else (let index = index_states [(state_start, 0)] (bs_States spec)
               in case add_rules index (bs_States spec) (replicate (length index) []) of
                    Inl e \<Rightarrow> Inl e
                  | Inr rules \<Rightarrow>
                      if rules ! 0 = [] then Inl ''block has no start rule''
                      else Inr (p\<lparr>bp_rules := rules\<rparr>)))"

definition compile_json_block :: "int \<Rightarrow> block_program" where
  "compile_json_block maxLines =
     \<lparr>bp_anchor = None, bp_not = None, bp_rules = [], bp_lines = 0, bp_minLines = 1,
      bp_maxLines = maxLines, bp_json = True\<rparr>"

section \<open>Brackets of a JSON line\<close>

text \<open>
  \<^verbatim>\<open>bytes.TrimSpace\<close>: the encodings of Unicode's white space, stripped from both ends.
\<close>

definition is_space_enc :: "bytes \<Rightarrow> bool" where
  "is_space_enc p =
     (case p of
        [a] \<Rightarrow> a \<in> {9, 10, 11, 12, 13, 32}
      | [a, b] \<Rightarrow> a = 0xC2 \<and> (b = 0x85 \<or> b = 0xA0)
      | [a, b, c] \<Rightarrow>
          (a = 0xE1 \<and> b = 0x9A \<and> c = 0x80) \<or>
          (a = 0xE2 \<and> b = 0x80 \<and> ((0x80 \<le> c \<and> c \<le> 0x8A) \<or> c = 0xA8 \<or> c = 0xA9 \<or> c = 0xAF)) \<or>
          (a = 0xE2 \<and> b = 0x81 \<and> c = 0x9F) \<or> (a = 0xE3 \<and> b = 0x80 \<and> c = 0x80)
      | _ \<Rightarrow> False)"

definition lead_space :: "bytes \<Rightarrow> nat" where
  "lead_space b =
     (if is_space_enc (take 1 b) then 1 else if is_space_enc (take 2 b) then 2
      else if is_space_enc (take 3 b) then 3 else 0)"

definition last_n :: "nat \<Rightarrow> bytes \<Rightarrow> bytes" where
  "last_n n b = drop (length b - n) b"

definition trail_space :: "bytes \<Rightarrow> nat" where
  "trail_space b =
     (if is_space_enc (last_n 1 b) then 1 else if is_space_enc (last_n 2 b) then 2
      else if is_space_enc (last_n 3 b) then 3 else 0)"

lemma is_space_enc_Nil [simp]: "\<not> is_space_enc []"
  by (simp add: is_space_enc_def)

function trim_left :: "bytes \<Rightarrow> bytes" where
  "trim_left b = (if b \<noteq> [] \<and> lead_space b > 0 then trim_left (drop (lead_space b) b) else b)"
  by pat_completeness auto
termination by (relation "measure length") auto

function trim_right :: "bytes \<Rightarrow> bytes" where
  "trim_right b = (if b \<noteq> [] \<and> trail_space b > 0 then trim_right (take (length b - trail_space b) b) else b)"
  by pat_completeness auto
termination by (relation "measure length") auto

declare trim_left.simps [simp del] trim_right.simps [simp del]

definition trim_space :: "bytes \<Rightarrow> bytes" where
  "trim_space b = trim_right (trim_left b)"

definition indent_of :: "bytes \<Rightarrow> int" where
  "indent_of view = int (length (takeWhile (\<lambda>c. c = 32 \<or> c = 9) view))"

definition json_opener :: "bytes \<Rightarrow> (byte \<times> int) option" where
  "json_opener view =
     (case trim_space view of
        [c] \<Rightarrow> if c = 123 then Some (125, indent_of view)
               else if c = 91 then Some (93, indent_of view) else None
      | _ \<Rightarrow> None)"

fun json_brackets_from :: "bytes \<Rightarrow> bool \<Rightarrow> bool \<Rightarrow> int \<Rightarrow> int \<Rightarrow> int \<times> int" where
  "json_brackets_from [] inString escaped opens closes = (opens, closes)"
| "json_brackets_from (c # cs) inString escaped opens closes =
     (if inString
      then if escaped then json_brackets_from cs True False opens closes
           else if c = 92 then json_brackets_from cs True True opens closes
           else if c = 34 then json_brackets_from cs False False opens closes
           else json_brackets_from cs True False opens closes
      else if c = 34 then json_brackets_from cs True escaped opens closes
      else if c = 123 \<or> c = 91 then json_brackets_from cs False escaped (opens + 1) closes
      else if c = 125 \<or> c = 93 then json_brackets_from cs False escaped opens (closes + 1)
      else json_brackets_from cs False escaped opens closes)"

definition json_brackets :: "bytes \<Rightarrow> int \<times> int" where
  "json_brackets view = json_brackets_from view False False 0 0"

section \<open>The walker\<close>

record block_state =
  st_state :: nat
  st_remaining :: int
  st_startIdx :: int
  st_startOff :: int
  st_firstLen :: int
  st_lines :: int
  st_lastIdx :: int
  st_lastEnd :: int
  st_excerpt :: bytes
  st_hasEx :: bool
  st_vs :: int
  st_ve :: int
  st_masked :: bool
  st_tm :: time_ref
  st_depth :: int
  st_indent :: int
  st_closer :: byte

definition zero_block :: block_state where
  "zero_block = \<lparr>st_state = 0, st_remaining = 0, st_startIdx = 0, st_startOff = 0, st_firstLen = 0,
     st_lines = 0, st_lastIdx = 0, st_lastEnd = 0, st_excerpt = [], st_hasEx = False, st_vs = 0,
     st_ve = 0, st_masked = False, st_tm = zero_time, st_depth = 0, st_indent = 0, st_closer = 0\<rparr>"

record block_walker =
  bw_open :: bool
  bw_st :: block_state
  bw_joinedAt :: int

definition new_block_walker :: block_walker where
  "new_block_walker = \<lparr>bw_open = False, bw_st = zero_block, bw_joinedAt = - (2 ^ 62)\<rparr>"

fun first_rule_of :: "block_rule list \<Rightarrow> bytes \<Rightarrow> block_rule option" where
  "first_rule_of [] view = None"
| "first_rule_of (r # rs) view =
     (if (case br_re r of None \<Rightarrow> True | Some re \<Rightarrow> rx_match re view) then Some r
      else first_rule_of rs view)"

definition first_rule :: "block_program \<Rightarrow> nat \<Rightarrow> bytes \<Rightarrow> block_rule option" where
  "first_rule p st view = first_rule_of (bp_rules p ! st) view"

definition block_join :: "line \<Rightarrow> int \<Rightarrow> block_walker \<Rightarrow> block_walker" where
  "block_join l idx b =
     (let b1 = b\<lparr>bw_st := (bw_st b)\<lparr>st_lines := st_lines (bw_st b) + 1\<rparr>, bw_joinedAt := idx\<rparr>
      in if \<not> is_blank (lview l)
         then b1\<lparr>bw_st := (bw_st b1)\<lparr>st_lastIdx := idx, st_lastEnd := lnext l\<rparr>\<rparr> else b1)"

definition block_finding :: "sig_env \<Rightarrow> block_state \<Rightarrow> raw_finding" where
  "block_finding cs st =
     \<lparr>rf_startIdx = st_startIdx st,
      rf_endIdx = (if se_bodyOnly cs then st_startIdx st + st_lines st - 1 else st_lastIdx st),
      rf_startOff = st_startOff st, rf_endOff = st_lastEnd st, rf_firstLen = st_firstLen st,
      rf_excerpt = st_excerpt st, rf_hasEx = st_hasEx st, rf_vs = st_vs st, rf_ve = st_ve st,
      rf_masked = st_masked st, rf_tm = st_tm st\<rparr>"

definition block_close ::
  "sig_env \<Rightarrow> block_program \<Rightarrow> 's sink_ops \<Rightarrow> block_walker \<Rightarrow> 's \<Rightarrow> block_walker \<times> 's" where
  "block_close cs p ops b s =
     (let b1 = b\<lparr>bw_open := False\<rparr>; st = bw_st b1
      in if st_lastIdx st - st_startIdx st + 1 < bp_minLines p then (b1, s)
         else (b1, op_add ops s (block_finding cs st)))"

definition block_abandon :: "int \<Rightarrow> block_walker \<Rightarrow> block_walker" where
  "block_abandon idx b = b\<lparr>bw_open := False, bw_joinedAt := idx\<rparr>"

definition feed_json ::
  "sig_env \<Rightarrow> block_program \<Rightarrow> 's sink_ops \<Rightarrow> line \<Rightarrow> int \<Rightarrow> block_walker \<Rightarrow> 's \<Rightarrow> block_walker \<times> 's" where
  "feed_json cs p ops l idx b0 s =
     (case json_brackets (lview l) of (opens, closes) \<Rightarrow>
        let b = b0\<lparr>bw_st := (bw_st b0)\<lparr>st_depth := st_depth (bw_st b0) + (opens - closes)\<rparr>\<rparr>
        in if st_depth (bw_st b) < 0 then (block_abandon idx b, s)
           else if st_depth (bw_st b) = 0
           then (let trimmed = trim_space (lview l)
                 in if trimmed = [] \<or> last trimmed \<noteq> st_closer (bw_st b) \<or>
                       indent_of (lview l) \<noteq> st_indent (bw_st b)
                    then (block_abandon idx b, s)
                    else block_close cs p ops (block_join l idx b) s)
           else (let b1 = block_join l idx b
                 in if st_lines (bw_st b1) \<ge> bp_maxLines p then block_close cs p ops b1 s else (b1, s)))"

text \<open>\<^verbatim>\<open>feed\<close>: a block that did not take the line has closed before it.\<close>

definition block_feed ::
  "sig_env \<Rightarrow> block_program \<Rightarrow> 's sink_ops \<Rightarrow> line \<Rightarrow> int \<Rightarrow> block_walker \<Rightarrow> 's \<Rightarrow> block_walker \<times> 's" where
  "block_feed cs p ops l idx b s =
     (if bp_json p then feed_json cs p ops l idx b s
      else let taken =
             (if bp_lines p > 0
              then (let b1 = b\<lparr>bw_st := (bw_st b)\<lparr>st_remaining := st_remaining (bw_st b) - 1\<rparr>\<rparr>
                    in Some (st_remaining (bw_st b1) = 0, b1))
              else case first_rule p (st_state (bw_st b)) (lview l) of
                     None \<Rightarrow> None
                   | Some rule \<Rightarrow> Some (br_end rule, b\<lparr>bw_st := (bw_st b)\<lparr>st_state := br_next rule\<rparr>\<rparr>))
           in case taken of
                None \<Rightarrow> block_close cs p ops b s
              | Some (closeAfter, b1) \<Rightarrow>
                  (let b2 = block_join l idx b1
                   in if closeAfter \<or> st_lines (bw_st b2) \<ge> bp_maxLines p
                      then block_close cs p ops b2 s else (b2, s)))"

definition try_open_json ::
  "sig_env \<Rightarrow> time_tracker \<Rightarrow> 's sink_ops \<Rightarrow> line \<Rightarrow> int \<Rightarrow> block_walker \<Rightarrow> 's \<Rightarrow> block_walker \<times> 's" where
  "try_open_json cs tt ops l idx b s =
     (case json_opener (lview l) of
        None \<Rightarrow> (b, s)
      | Some (closer, indent) \<Rightarrow>
          (let st = zero_block\<lparr>st_startIdx := idx, st_startOff := lstart l, st_firstLen := llength l,
                 st_lines := 1, st_lastIdx := idx, st_lastEnd := lnext l, st_vs := -1, st_ve := -1,
                 st_depth := 1, st_indent := indent, st_closer := closer,
                 st_tm := time_at tt (lstart l)\<rparr>;
               st1 = (if op_mayStore ops s
                      then (case se_build cs (lview l) of (ex, masked) \<Rightarrow>
                              st\<lparr>st_hasEx := True, st_excerpt := ex, st_masked := masked\<rparr>)
                      else st)
           in (b\<lparr>bw_open := True, bw_st := st1, bw_joinedAt := idx\<rparr>, s)))"

definition start_rule :: "block_program \<Rightarrow> bytes \<Rightarrow> block_rule option" where
  "start_rule p view =
     (if length (bp_rules p ! 0) > 1 then first_rule p 0 view else Some (hd (bp_rules p ! 0)))"

definition try_open ::
  "sig_env \<Rightarrow> block_program \<Rightarrow> time_tracker \<Rightarrow> 's sink_ops \<Rightarrow> line \<Rightarrow> int \<Rightarrow> block_walker \<Rightarrow> 's
   \<Rightarrow> block_walker \<times> 's" where
  "try_open cs p tt ops l idx b s =
     (if bp_json p then try_open_json cs tt ops l idx b s
      else case bp_anchor p of
        None \<Rightarrow> (b, s)
      | Some anchor \<Rightarrow>
          if \<not> rx_match anchor (lview l) \<or>
             (case bp_not p of None \<Rightarrow> False | Some n \<Rightarrow> rx_match n (lview l)) then (b, s)
          else (let st = zero_block\<lparr>st_startIdx := idx, st_startOff := lstart l, st_firstLen := llength l,
                       st_lines := 1, st_lastIdx := idx, st_lastEnd := lnext l,
                       st_remaining := bp_lines p, st_vs := -1, st_ve := -1,
                       st_tm := time_at tt (lstart l)\<rparr>;
                    opened = (if bp_lines p = 0
                      then map_option (\<lambda>rule. (br_end rule, st\<lparr>st_state := br_next rule\<rparr>))
                             (start_rule p (lview l))
                      else Some (False, st))
                in case opened of
                     None \<Rightarrow> (b, s)
                   | Some (closeAfter, st1) \<Rightarrow>
                       (let st2 = (if op_mayStore ops s \<and> \<not> se_bodyOnly cs
                              then (case anchor_excerpt cs anchor l of (ex, masked, vs, ve) \<Rightarrow>
                                st1\<lparr>st_hasEx := True, st_excerpt := ex, st_masked := masked,
                                    st_vs := vs, st_ve := ve\<rparr>)
                              else st1);
                            b1 = b\<lparr>bw_open := True, bw_st := st2, bw_joinedAt := idx\<rparr>
                        in if closeAfter \<or> bp_maxLines p \<le> 1 then block_close cs p ops b1 s else (b1, s))))"

definition finish_at_end ::
  "sig_env \<Rightarrow> block_program \<Rightarrow> 's sink_ops \<Rightarrow> block_walker \<Rightarrow> 's \<Rightarrow> block_walker \<times> 's" where
  "finish_at_end cs p ops b s = (if bw_open b then block_close cs p ops b s else (b, s))"

definition same_state :: "block_walker \<Rightarrow> block_walker \<Rightarrow> bool" where
  "same_state b c \<longleftrightarrow>
     (if bw_open b \<noteq> bw_open c then False
      else \<not> bw_open b \<or> st_startIdx (bw_st b) = st_startIdx (bw_st c))"

text \<open>
  \<^verbatim>\<open>stepBlock\<close> of \<^verbatim>\<open>merge.go\<close>, and what \<^verbatim>\<open>walk.line\<close> does for one block signature: an open block
  takes the line or closes before it; a line no block took may start one when the gate passed.
\<close>

definition step_block ::
  "sig_env \<Rightarrow> block_program \<Rightarrow> time_tracker \<Rightarrow> 's sink_ops \<Rightarrow> line \<Rightarrow> int \<Rightarrow> bool
   \<Rightarrow> block_walker \<Rightarrow> 's \<Rightarrow> block_walker \<times> 's" where
  "step_block cs p tt ops l idx passed b s =
     (case (if bw_open b then block_feed cs p ops l idx b s else (b, s)) of (b1, s1) \<Rightarrow>
        if \<not> bw_open b1 \<and> bw_joinedAt b1 \<noteq> idx \<and> passed then try_open cs p tt ops l idx b1 s1
        else (b1, s1))"

section \<open>Walking into any sink\<close>

text \<open>What is left of an open block without its excerpt.\<close>

definition block_key ::
  "block_state \<Rightarrow> (nat \<times> int \<times> int \<times> int \<times> int) \<times> (int \<times> int \<times> int \<times> time_ref) \<times> int \<times> int \<times> byte" where
  "block_key st =
     ((st_state st, st_remaining st, st_startIdx st, st_startOff st, st_firstLen st),
      (st_lines st, st_lastIdx st, st_lastEnd st, st_tm st), st_depth st, st_indent st, st_closer st)"

lemma block_key_sel:
  assumes "block_key st = block_key su"
  shows "st_state st = st_state su" and "st_remaining st = st_remaining su"
    and "st_startIdx st = st_startIdx su" and "st_startOff st = st_startOff su"
    and "st_firstLen st = st_firstLen su" and "st_lines st = st_lines su"
    and "st_lastIdx st = st_lastIdx su" and "st_lastEnd st = st_lastEnd su" and "st_tm st = st_tm su"
    and "st_depth st = st_depth su" and "st_indent st = st_indent su" and "st_closer st = st_closer su"
  using assms by (simp_all add: block_key_def)

text \<open>The reference walker does not look at what it has found so far.\<close>

lemma tape_close: "block_close cs p tape_ops b acc =
    (fst (block_close cs p tape_ops b []), acc @ snd (block_close cs p tape_ops b []))"
  by (simp add: block_close_def Let_def)

lemma tape_try_open: "try_open cs p tt tape_ops l idx b acc =
    (fst (try_open cs p tt tape_ops l idx b []), acc @ snd (try_open cs p tt tape_ops l idx b []))"
proof (cases "bp_json p")
  case True
  then show ?thesis
    by (simp add: try_open_def try_open_json_def Let_def split: option.split prod.split)
next
  case False
  then show ?thesis
    using tape_close [of cs p _ acc]
    by (auto simp: try_open_def Let_def split: option.split prod.split)
qed

lemma tape_feed: "block_feed cs p tape_ops l idx b acc =
    (fst (block_feed cs p tape_ops l idx b []), acc @ snd (block_feed cs p tape_ops l idx b []))"
proof (cases "bp_json p")
  case True
  then show ?thesis
    using tape_close [of cs p _ acc]
    by (auto simp: block_feed_def feed_json_def Let_def split: prod.split)
next
  case False
  then show ?thesis
    using tape_close [of cs p _ acc]
    by (auto simp: block_feed_def Let_def split: option.split prod.split)
qed

lemma tape_step_block: "step_block cs p tt tape_ops l idx passed b acc =
    (fst (step_block cs p tt tape_ops l idx passed b []), acc @ snd (step_block cs p tt tape_ops l idx passed b []))"
proof -
  obtain b1 fs where f: "(if bw_open b then block_feed cs p tape_ops l idx b [] else (b, [])) = (b1, fs)"
    by force
  then have "(if bw_open b then block_feed cs p tape_ops l idx b acc else (b, acc)) = (b1, acc @ fs)"
    using tape_feed [of cs p l idx b acc] by (auto split: if_splits)
  then show ?thesis
    using f tape_try_open [of cs p tt l idx b1 fs] tape_try_open [of cs p tt l idx b1 "acc @ fs"]
    by (simp add: step_block_def)
qed

text \<open>Two walkers that go on alike: both idle, or holding the same block.\<close>

definition block_alike :: "block_walker \<Rightarrow> block_walker \<Rightarrow> bool" where
  "block_alike b c \<longleftrightarrow> bw_open b = bw_open c \<and> (bw_open b \<longrightarrow> block_key (bw_st b) = block_key (bw_st c))"

context sink
begin

definition block_sim :: "'s \<Rightarrow> block_walker \<Rightarrow> block_walker \<Rightarrow> bool" where
  "block_sim s b c \<longleftrightarrow> block_alike b c \<and> (op_mayStore ops s \<and> bw_open b \<longrightarrow> bw_st b = bw_st c)"

lemma block_sim_mono: "block_sim s b c \<Longrightarrow> (op_mayStore ops s' \<Longrightarrow> op_mayStore ops s) \<Longrightarrow> block_sim s' b c"
  by (auto simp: block_sim_def)

text \<open>
  What one operation of a walker does beside the reference walker: it hands the sink the findings
  of the reference, the walkers stay alike, and both joined the line or neither did.
\<close>

definition sim_out ::
  "'s \<Rightarrow> int \<Rightarrow> block_walker \<times> 's \<Rightarrow> block_walker \<times> raw_finding list \<Rightarrow> bool" where
  "sim_out s idx out ref \<longleftrightarrow> snd out = adds (snd ref) s \<and> block_sim (adds (snd ref) s) (fst out) (fst ref) \<and>
     (bw_joinedAt (fst out) = idx \<longleftrightarrow> bw_joinedAt (fst ref) = idx)"

lemma sim_outI:
  assumes "block_sim s b c" and "bw_joinedAt b = idx \<longleftrightarrow> bw_joinedAt c = idx"
  shows "sim_out s idx (b, s) (c, [])"
  using assms by (simp add: sim_out_def)

lemma block_close_sim:
  assumes "block_sim s b c" and "bw_open b" and "bw_joinedAt b = idx \<longleftrightarrow> bw_joinedAt c = idx"
  shows "sim_out s idx (block_close cs p ops b s) (block_close cs p tape_ops c [])"
proof -
  have key: "block_key (bw_st b) = block_key (bw_st c)"
    using assms(1,2) by (simp add: block_sim_def block_alike_def)
  have "op_add ops s (block_finding cs (bw_st b)) = op_add ops s (block_finding cs (bw_st c))"
  proof (cases "op_mayStore ops s")
    case True
    then show ?thesis using assms(1,2) by (simp add: block_sim_def)
  next
    case False
    then show ?thesis by (intro add_agree) (simp add: agree_def)
  qed
  then show ?thesis
    using block_key_sel [OF key] assms(3)
    by (auto simp: sim_out_def block_close_def Let_def block_sim_def block_alike_def)
qed

lemma block_join_sim:
  assumes "block_sim s b c" and "bw_open b"
  shows "block_sim s (block_join l idx b) (block_join l idx c)" and "bw_open (block_join l idx b)"
    and "bw_joinedAt (block_join l idx b) = idx" and "bw_joinedAt (block_join l idx c) = idx"
    and "st_lines (bw_st (block_join l idx b)) = st_lines (bw_st (block_join l idx c))"
  using assms by (auto simp: block_join_def block_sim_def block_alike_def block_key_def Let_def)

lemma block_abandon_sim: "sim_out s idx (block_abandon idx b, s) (block_abandon idx c, [])"
  by (simp add: sim_out_def block_abandon_def block_sim_def block_alike_def)

lemma feed_json_sim:
  assumes "block_sim s b c" and "bw_open b"
  shows "sim_out s idx (feed_json cs p ops l idx b s) (feed_json cs p tape_ops l idx c [])"
proof -
  obtain opens closes where j: "json_brackets (lview l) = (opens, closes)" by force
  define b1 where "b1 = b\<lparr>bw_st := (bw_st b)\<lparr>st_depth := st_depth (bw_st b) + (opens - closes)\<rparr>\<rparr>"
  define c1 where "c1 = c\<lparr>bw_st := (bw_st c)\<lparr>st_depth := st_depth (bw_st c) + (opens - closes)\<rparr>\<rparr>"
  have sim: "block_sim s b1 c1" "bw_open b1"
    using assms by (auto simp: b1_def c1_def block_sim_def block_alike_def block_key_def)
  have key: "block_key (bw_st b1) = block_key (bw_st c1)"
    using sim by (simp add: block_sim_def block_alike_def)
  note k = block_key_sel(10-12) [OF key]
  note jn = block_join_sim [OF sim, of l idx]
  have "sim_out s idx (block_close cs p ops (block_join l idx b1) s)
      (block_close cs p tape_ops (block_join l idx c1) [])"
    using jn by (intro block_close_sim) auto
  moreover have "sim_out s idx (block_join l idx b1, s) (block_join l idx c1, [])"
    using jn by (intro sim_outI) auto
  ultimately show ?thesis
    unfolding feed_json_def j prod.case b1_def [symmetric] c1_def [symmetric] Let_def k jn(5)
    using block_abandon_sim by (simp split: if_split)
qed

lemma block_feed_sim:
  assumes "block_sim s b c" and "bw_open b" and "bw_joinedAt b \<noteq> idx" and "bw_joinedAt c \<noteq> idx"
  shows "sim_out s idx (block_feed cs p ops l idx b s) (block_feed cs p tape_ops l idx c [])"
proof (cases "bp_json p")
  case True
  then show ?thesis using feed_json_sim [OF assms(1,2)] by (simp add: block_feed_def)
next
  case False
  have key: "block_key (bw_st b) = block_key (bw_st c)"
    using assms(1,2) by (simp add: block_sim_def block_alike_def)
  note k = block_key_sel [OF key]
  have cl0: "sim_out s idx (block_close cs p ops b s) (block_close cs p tape_ops c [])"
    using assms by (intro block_close_sim) auto
  have go: "sim_out s idx
      (let b2 = block_join l idx b1 in if ca \<or> st_lines (bw_st b2) \<ge> bp_maxLines p
         then block_close cs p ops b2 s else (b2, s))
      (let b2 = block_join l idx c1 in if ca \<or> st_lines (bw_st b2) \<ge> bp_maxLines p
         then block_close cs p tape_ops b2 [] else (b2, []))"
    if "block_sim s b1 c1" "bw_open b1" for b1 c1 ca
  proof -
    note jn = block_join_sim [OF that, of l idx]
    have "sim_out s idx (block_close cs p ops (block_join l idx b1) s)
        (block_close cs p tape_ops (block_join l idx c1) [])"
      using jn by (intro block_close_sim) auto
    moreover have "sim_out s idx (block_join l idx b1, s) (block_join l idx c1, [])"
      using jn by (intro sim_outI) auto
    ultimately show ?thesis using jn(5) by (simp add: Let_def)
  qed
  have upd: "block_sim s (b\<lparr>bw_st := (bw_st b)\<lparr>st_remaining := r\<rparr>\<rparr>) (c\<lparr>bw_st := (bw_st c)\<lparr>st_remaining := r\<rparr>\<rparr>)"
    "block_sim s (b\<lparr>bw_st := (bw_st b)\<lparr>st_state := q\<rparr>\<rparr>) (c\<lparr>bw_st := (bw_st c)\<lparr>st_state := q\<rparr>\<rparr>)" for r q
    using assms by (auto simp: block_sim_def block_alike_def block_key_def)
  show ?thesis
  proof (cases "bp_lines p > 0")
    case True
    let ?r = "st_remaining (bw_st c) - 1"
    have "bw_open (b\<lparr>bw_st := (bw_st b)\<lparr>st_remaining := ?r\<rparr>\<rparr>)" using assms(2) by simp
    from go [OF upd(1) this, of "?r = 0"] show ?thesis
      using True False k(2) by (simp add: block_feed_def Let_def)
  next
    case nolines: False
    show ?thesis
    proof (cases "first_rule p (st_state (bw_st c)) (lview l)")
      case None
      then show ?thesis using nolines False k(1) cl0 by (simp add: block_feed_def)
    next
      case (Some rule)
      have "bw_open (b\<lparr>bw_st := (bw_st b)\<lparr>st_state := br_next rule\<rparr>\<rparr>)" using assms(2) by simp
      from go [OF upd(2) this, of "br_end rule"] show ?thesis
        using Some nolines False k(1) by (simp add: block_feed_def Let_def)
    qed
  qed
qed

lemma try_open_sim:
  assumes "block_sim s b c" and "\<not> bw_open b" and "bw_joinedAt b \<noteq> idx" and "bw_joinedAt c \<noteq> idx"
  shows "sim_out s idx (try_open cs p tt ops l idx b s) (try_open cs p tt tape_ops l idx c [])"
proof -
  have idle: "sim_out s idx (b, s) (c, [])" using assms by (intro sim_outI) auto
  have opened: "sim_out s idx (b\<lparr>bw_open := True, bw_st := st, bw_joinedAt := idx\<rparr>, s)
      (c\<lparr>bw_open := True, bw_st := su, bw_joinedAt := idx\<rparr>, [])"
    "block_sim s (b\<lparr>bw_open := True, bw_st := st, bw_joinedAt := idx\<rparr>)
      (c\<lparr>bw_open := True, bw_st := su, bw_joinedAt := idx\<rparr>)"
    if "block_key st = block_key su" "op_mayStore ops s \<longrightarrow> st = su" for st su
    using that by (auto simp: sim_out_def block_sim_def block_alike_def)
  have closed: "sim_out s idx (block_close cs p ops (b\<lparr>bw_open := True, bw_st := st, bw_joinedAt := idx\<rparr>) s)
      (block_close cs p tape_ops (c\<lparr>bw_open := True, bw_st := su, bw_joinedAt := idx\<rparr>) [])"
    if "block_key st = block_key su" "op_mayStore ops s \<longrightarrow> st = su" for st su
    using opened(2) [OF that] by (intro block_close_sim) auto
  show ?thesis
  proof (cases "bp_json p")
    case True
    then show ?thesis
      using idle opened(1)
      by (auto simp: try_open_def try_open_json_def Let_def block_key_def split: option.split prod.split)
  next
    case False
    let ?ex = "\<lambda>anchor st. case anchor_excerpt cs anchor l of (ex, masked, vs, ve) \<Rightarrow>
      st\<lparr>st_hasEx := True, st_excerpt := ex, st_masked := masked, st_vs := vs, st_ve := ve\<rparr>"
    have key: "block_key (if op_mayStore ops s \<and> \<not> se_bodyOnly cs then ?ex anchor st else st) =
        block_key (if op_mayStore tape_ops [] \<and> \<not> se_bodyOnly cs then ?ex anchor st else st)"
      "op_mayStore ops s \<longrightarrow> (if op_mayStore ops s \<and> \<not> se_bodyOnly cs then ?ex anchor st else st) =
        (if op_mayStore tape_ops [] \<and> \<not> se_bodyOnly cs then ?ex anchor st else st)" for anchor st
      by (auto simp: block_key_def split: prod.split)
    show ?thesis
      unfolding try_open_def Let_def if_not_P [OF False]
      using idle opened(1) [OF key] closed [OF key] by (auto split: option.split)
  qed
qed

lemma step_block_sim:
  assumes "block_sim s b c" and "bw_joinedAt b \<noteq> idx" and "bw_joinedAt c \<noteq> idx"
  shows "sim_out s idx (step_block cs p tt ops l idx passed b s) (step_block cs p tt tape_ops l idx passed c [])"
proof -
  define b1 s1 where "b1 = fst (if bw_open b then block_feed cs p ops l idx b s else (b, s))"
    and "s1 = snd (if bw_open b then block_feed cs p ops l idx b s else (b, s))"
  define c1 fs where "c1 = fst (if bw_open c then block_feed cs p tape_ops l idx c [] else (c, []))"
    and "fs = snd (if bw_open c then block_feed cs p tape_ops l idx c [] else (c, []))"
  have opn: "bw_open b = bw_open c" using assms(1) by (simp add: block_sim_def block_alike_def)
  have one: "sim_out s idx (b1, s1) (c1, fs)"
    using block_feed_sim [OF assms(1) _ assms(2,3), of cs p l] sim_outI [OF assms(1), of idx] assms(2,3) opn
    by (auto simp: b1_def s1_def c1_def fs_def)
  then have s1: "s1 = adds fs s" "block_sim s1 b1 c1" "bw_joinedAt b1 = idx \<longleftrightarrow> bw_joinedAt c1 = idx"
    unfolding sim_out_def fst_conv snd_conv by auto
  have opn1: "bw_open b1 = bw_open c1" using s1(2) by (simp add: block_sim_def block_alike_def)
  have steps: "step_block cs p tt ops l idx passed b s =
      (if \<not> bw_open b1 \<and> bw_joinedAt b1 \<noteq> idx \<and> passed then try_open cs p tt ops l idx b1 s1 else (b1, s1))"
    "step_block cs p tt tape_ops l idx passed c [] =
      (if \<not> bw_open c1 \<and> bw_joinedAt c1 \<noteq> idx \<and> passed then try_open cs p tt tape_ops l idx c1 fs else (c1, fs))"
    by (simp_all add: step_block_def b1_def s1_def c1_def fs_def split: prod.split)
  show ?thesis
  proof (cases "\<not> bw_open b1 \<and> bw_joinedAt b1 \<noteq> idx \<and> passed")
    case False
    then show ?thesis unfolding steps using one opn1 s1(3) by auto
  next
    case True
    then have "sim_out s1 idx (try_open cs p tt ops l idx b1 s1) (try_open cs p tt tape_ops l idx c1 [])"
      using try_open_sim [OF s1(2)] s1(3) by blast
    then show ?thesis
      unfolding steps using True opn1 s1(1,3) tape_try_open [of cs p tt l idx c1 fs]
      by (simp add: sim_out_def)
  qed
qed

end

end
