(* ===== verification/SigLines.thy ===== *)
theory SigLines
  imports Runs Blocks
begin

text \<open>
  One signature on one line, whatever its kind: \<^verbatim>\<open>matchers.go\<close> and the per-line path of
  \<^verbatim>\<open>walk.go\<close>. Signatures do not look at each other, so the walk is modelled for one of them.
\<close>

section \<open>Regex and value signatures\<close>

text \<open>
  \<^verbatim>\<open>regexMatcher\<close>: \<open>rm_entropy\<close> is the entropy check of the value, \<open>rm_validate\<close> its validator.
\<close>

record regex_matcher =
  rm_re :: regex
  rm_not :: "regex option"
  rm_capture :: nat
  rm_entropy :: "(bytes \<Rightarrow> bool) option"
  rm_validate :: "(bytes \<Rightarrow> bool) option"

definition needs_value :: "regex_matcher \<Rightarrow> bool" where
  "needs_value m \<longleftrightarrow> rm_capture m > 0 \<or> rm_entropy m \<noteq> None \<or> rm_validate m \<noteq> None"

definition refused :: "regex_matcher \<Rightarrow> bytes \<Rightarrow> bool" where
  "refused m view \<longleftrightarrow> (case rm_not m of None \<Rightarrow> False | Some n \<Rightarrow> rx_match n view)"

definition regex_confirm :: "regex_matcher \<Rightarrow> bytes \<Rightarrow> bool \<Rightarrow> bool \<times> int \<times> int" where
  "regex_confirm m view wantSpan =
     (if \<not> wantSpan \<and> \<not> needs_value m
      then if \<not> rx_match (rm_re m) view \<or> refused m view then (False, -1, -1) else (True, -1, -1)
      else case rx_groups (rm_re m) view of
             None \<Rightarrow> (False, -1, -1)
           | Some loc \<Rightarrow>
               if refused m view then (False, -1, -1)
               else (case loc ! rm_capture m of (vs, ve) \<Rightarrow>
                  let value = (if vs \<ge> 0 then take (nat (ve - vs)) (drop (nat vs) view) else [])
                  in if (case rm_entropy m of None \<Rightarrow> False | Some enough \<Rightarrow> \<not> enough value)
                     then (False, -1, -1)
                     else if (case rm_validate m of None \<Rightarrow> False | Some v \<Rightarrow> vs < 0 \<or> \<not> v value)
                     then (False, -1, -1)
                     else (True, vs, ve)))"

definition line_finding :: "line \<Rightarrow> int \<Rightarrow> int \<Rightarrow> int \<Rightarrow> time_ref \<Rightarrow> raw_finding" where
  "line_finding l idx vs ve tm =
     \<lparr>rf_startIdx = idx, rf_endIdx = idx, rf_startOff = lstart l, rf_endOff = lnext l,
      rf_firstLen = llength l, rf_excerpt = [], rf_hasEx = False, rf_vs = vs, rf_ve = ve,
      rf_masked = False, rf_tm = tm\<rparr>"

definition with_excerpt :: "sig_env \<Rightarrow> line \<Rightarrow> raw_finding \<Rightarrow> raw_finding" where
  "with_excerpt cs l f =
     (case se_build cs (lview l) of (ex, masked) \<Rightarrow>
        f\<lparr>rf_excerpt := ex, rf_hasEx := True, rf_masked := masked \<or> se_masks cs\<rparr>)"

definition add_regex_finding ::
  "sig_env \<Rightarrow> regex_matcher \<Rightarrow> 's sink_ops \<Rightarrow> line \<Rightarrow> int \<Rightarrow> time_ref \<Rightarrow> 's \<Rightarrow> 's" where
  "add_regex_finding cs m ops l idx tm s =
     (let store = op_storing ops s in
      case regex_confirm m (lview l) store of (ok, vs, ve) \<Rightarrow>
        if \<not> ok then s
        else (let f = (if store
                then (let f0 = (if vs \<ge> 0 then line_finding l idx (vs + lshift l) (ve + lshift l) tm
                                else line_finding l idx (-1) (-1) tm)
                      in with_excerpt cs l f0)
                else line_finding l idx (-1) (-1) tm)
              in op_add ops s f))"

definition add_value_finding ::
  "sig_env \<Rightarrow> value_matcher \<Rightarrow> 's sink_ops \<Rightarrow> line \<Rightarrow> int \<Rightarrow> time_ref \<Rightarrow> 's \<Rightarrow> 's" where
  "add_value_finding cs m ops l idx tm s =
     (case m (lview l) 0 of
        None \<Rightarrow> s
      | Some (a, b) \<Rightarrow>
          (let f = line_finding l idx (int a + lshift l) (int b + lshift l) tm
           in op_add ops s (if op_storing ops s then with_excerpt cs l f else f)))"

section \<open>A compiled signature and its walker\<close>

datatype sig_kind =
    KRegex regex_matcher
  | KValue value_matcher
  | KRun run_program
  | KBlock block_program

text \<open>
  \<open>sg_gate\<close> is whether the keyword gate passes a line's view: every line passes for a signature
  without keyword clauses.
\<close>

record compiled_sig =
  sg_env :: sig_env
  sg_kind :: sig_kind
  sg_gate :: "bytes \<Rightarrow> bool"

datatype walker = WLine | WRun run_walker | WBlock block_walker

definition new_walker :: "compiled_sig \<Rightarrow> walker" where
  "new_walker sg =
     (case sg_kind sg of
        KRun _ \<Rightarrow> WRun new_run_walker
      | KBlock _ \<Rightarrow> WBlock new_block_walker
      | _ \<Rightarrow> WLine)"

definition has_same :: "compiled_sig \<Rightarrow> bool" where
  "has_same sg = (case sg_kind sg of KRun p \<Rightarrow> rp_mode p = RunSame | _ \<Rightarrow> False)"

text \<open>\<^verbatim>\<open>anchorLine\<close> for a \<^verbatim>\<open>match\<close> run: the line qualifies.\<close>

definition run_anchor :: "(bytes \<Rightarrow> bool) \<Rightarrow> run_program \<Rightarrow> line \<Rightarrow> int \<Rightarrow> run_walker \<Rightarrow> run_walker" where
  "run_anchor gate p l idx r =
     (if rp_mode p = RunMatch \<and> gate (lview l) \<and> matches_run p (lview l)
      then r\<lparr>rw_qualifiedAt := idx\<rparr> else r)"

text \<open>What \<^verbatim>\<open>walk.line\<close> does with a line for the signature; \<open>tt\<close> has seen the line.\<close>

definition sig_line ::
  "compiled_sig \<Rightarrow> time_tracker \<Rightarrow> 's sink_ops \<Rightarrow> line \<Rightarrow> int \<Rightarrow> bool \<Rightarrow> walker \<Rightarrow> 's \<Rightarrow> walker \<times> 's" where
  "sig_line sg tt ops l idx same w s =
     (case (sg_kind sg, w) of
        (KRegex m, _) \<Rightarrow>
          (w, if sg_gate sg (lview l)
              then add_regex_finding (sg_env sg) m ops l idx (time_at tt (lstart l)) s else s)
      | (KValue m, _) \<Rightarrow> (w, add_value_finding (sg_env sg) m ops l idx (time_at tt (lstart l)) s)
      | (KRun p, WRun r) \<Rightarrow>
          (case run_step (sg_env sg) p tt ops l idx same (run_anchor (sg_gate sg) p l idx r) s of
             (r', s') \<Rightarrow> (WRun r', s'))
      | (KBlock p, WBlock b) \<Rightarrow>
          (case step_block (sg_env sg) p tt ops l idx (sg_gate sg (lview l)) b s of
             (b', s') \<Rightarrow> (WBlock b', s'))
      | _ \<Rightarrow> (w, s))"

section \<open>Any sink gets what the reference walk finds\<close>

lemma regex_confirm_ok: "fst (regex_confirm m view a) = fst (regex_confirm m view b)"
  by (auto simp: regex_confirm_def needs_value_def rx_match_def Let_def split: prod.split option.split)

lemma tape_sig_line:
  "sig_line sg tt tape_ops l idx same w acc =
    (fst (sig_line sg tt tape_ops l idx same w []), acc @ snd (sig_line sg tt tape_ops l idx same w []))"
  using tape_run_step [where acc = acc] tape_step_block [where acc = acc]
  by (auto simp: sig_line_def add_regex_finding_def add_value_finding_def Let_def
      split: sig_kind.split walker.split prod.split option.split)

text \<open>The walkers of a signature that have joined nothing past a line.\<close>

definition joined_before :: "int \<Rightarrow> walker \<Rightarrow> bool" where
  "joined_before idx w \<longleftrightarrow> (case w of WBlock b \<Rightarrow> bw_joinedAt b < idx | _ \<Rightarrow> True)"

lemma joined_close [simp]: "bw_joinedAt (fst (block_close cs p ops b s)) = bw_joinedAt b"
  by (simp add: block_close_def Let_def)

lemma joined_join [simp]: "bw_joinedAt (block_join l idx b) = idx"
  by (simp add: block_join_def Let_def)

lemma joined_feed: "bw_joinedAt b < idx \<Longrightarrow> bw_joinedAt (fst (block_feed cs p ops l idx b s)) \<le> idx"
  by (simp add: block_feed_def feed_json_def block_abandon_def Let_def split: prod.split option.split)

lemma joined_try: "bw_joinedAt b \<le> idx \<Longrightarrow> bw_joinedAt (fst (try_open cs p tt ops l idx b s)) \<le> idx"
  by (simp add: try_open_def try_open_json_def Let_def split: prod.split option.split)

lemma block_joined:
  assumes "bw_joinedAt b < idx"
  shows "bw_joinedAt (fst (step_block cs p tt ops l idx passed b s)) \<le> idx"
proof -
  obtain b1 s1 where f: "(if bw_open b then block_feed cs p ops l idx b s else (b, s)) = (b1, s1)"
    by force
  then have "bw_joinedAt b1 \<le> idx"
    using joined_feed [OF assms, of cs p ops l s] assms by (auto split: if_splits)
  then show ?thesis using f by (simp add: step_block_def joined_try)
qed

lemma sig_line_joined:
  assumes "joined_before idx w"
  shows "joined_before (idx + 1) (fst (sig_line sg tt ops l idx same w s))"
proof (cases w)
  case (WBlock b)
  show ?thesis
  proof (cases "sg_kind sg")
    case (KBlock p)
    then show ?thesis
      using block_joined [of b idx "sg_env sg" p tt ops l "sg_gate sg (lview l)" s] assms WBlock
      by (simp add: joined_before_def sig_line_def split: prod.split) (metis fst_conv)
  qed (use assms WBlock in \<open>auto simp: joined_before_def sig_line_def\<close>)
qed (auto simp: joined_before_def sig_line_def split: sig_kind.split walker.splits prod.splits)

context sink
begin

definition walker_sim :: "'s \<Rightarrow> walker \<Rightarrow> walker \<Rightarrow> bool" where
  "walker_sim s w v \<longleftrightarrow>
     (case (w, v) of
        (WLine, WLine) \<Rightarrow> True
      | (WRun r, WRun q) \<Rightarrow> run_sim s r q
      | (WBlock b, WBlock c) \<Rightarrow> block_sim s b c
      | _ \<Rightarrow> False)"

lemma walker_sim_mono:
  "walker_sim s w v \<Longrightarrow> (op_mayStore ops s' \<Longrightarrow> op_mayStore ops s) \<Longrightarrow> walker_sim s' w v"
  by (auto simp: walker_sim_def intro: run_sim_mono block_sim_mono split: walker.splits)

lemma add_regex_finding_adds:
  "add_regex_finding cs m ops l idx tm s = adds (add_regex_finding cs m tape_ops l idx tm []) s"
proof (cases "op_storing ops s")
  case True
  then show ?thesis by (simp add: add_regex_finding_def Let_def split: prod.split)
next
  case False
  then show ?thesis
    using regex_confirm_ok [of m "lview l" False True] add_blind [OF False]
    by (auto simp: add_regex_finding_def Let_def split: prod.splits)
qed

lemma add_value_finding_adds:
  "add_value_finding cs m ops l idx tm s = adds (add_value_finding cs m tape_ops l idx tm []) s"
  using add_blind [of s] by (auto simp: add_value_finding_def Let_def split: option.split)

lemma run_anchor_sim: "run_sim s r q \<Longrightarrow> run_sim s (run_anchor g p l idx r) (run_anchor g p l idx q)"
  by (auto simp: run_sim_def run_anchor_def erase_walker_def)

lemma sig_line_sim:
  assumes "walker_sim s w v" and "joined_before idx w" and "joined_before idx v"
  shows "\<exists>w'. sig_line sg tt ops l idx same w s =
      (w', adds (snd (sig_line sg tt tape_ops l idx same v [])) s) \<and>
    walker_sim (adds (snd (sig_line sg tt tape_ops l idx same v [])) s) w'
      (fst (sig_line sg tt tape_ops l idx same v []))"
proof -
  let ?tape = "sig_line sg tt tape_ops l idx same v []"
  have noop: ?thesis if "sig_line sg tt ops l idx same w s = (w, s)" "?tape = (v, [])"
    using that assms(1) by simp
  have line: ?thesis if "sig_line sg tt ops l idx same w s = (w, adds fs s)" "?tape = (v, fs)" for fs
    using that walker_sim_mono [OF assms(1) adds_may] by auto
  consider (regex) m where "sg_kind sg = KRegex m" | (val) m where "sg_kind sg = KValue m"
    | (run) p r q where "sg_kind sg = KRun p" "w = WRun r" "v = WRun q" "run_sim s r q"
    | (block) p b c where "sg_kind sg = KBlock p" "w = WBlock b" "v = WBlock c" "block_sim s b c"
    | (other) "sig_line sg tt ops l idx same w s = (w, s)" "?tape = (v, [])"
    using assms(1) by (cases "sg_kind sg") (auto simp: walker_sim_def sig_line_def split: walker.splits)
  then show ?thesis
  proof cases
    case regex
    show ?thesis
    proof (cases "sg_gate sg (lview l)")
      case True
      then show ?thesis
        using regex add_regex_finding_adds
        by (intro line [of "add_regex_finding (sg_env sg) m tape_ops l idx (time_at tt (lstart l)) []"])
          (auto simp: sig_line_def)
    next
      case False
      then show ?thesis using regex by (intro noop) (simp_all add: sig_line_def)
    qed
  next
    case val
    then show ?thesis
      using add_value_finding_adds
      by (intro line [of "add_value_finding (sg_env sg) m tape_ops l idx (time_at tt (lstart l)) []"])
        (auto simp: sig_line_def)
  next
    case run
    from run_step_sim [OF run_anchor_sim [OF run(4)], of "sg_env sg" p tt l idx same "sg_gate sg" p l idx]
    show ?thesis using run(1-3) by (auto simp: sig_line_def walker_sim_def split: prod.split)
  next
    case block
    have "bw_joinedAt b \<noteq> idx" "bw_joinedAt c \<noteq> idx"
      using assms(2,3) block by (auto simp: joined_before_def)
    from step_block_sim [OF block(4) this, of "sg_env sg" p tt l "sg_gate sg (lview l)"]
    show ?thesis using block(1-3) by (auto simp: sim_out_def sig_line_def walker_sim_def split: prod.split)
  next
    case other
    then show ?thesis by (rule noop)
  qed
qed

end

end
