(* ===== verification/ScanWalk.thy ===== *)
theory ScanWalk
  imports SigLines
begin

text \<open>
  The walk of one chunk, \<^verbatim>\<open>internal/sigscan/walk.go\<close>, and the merge of the chunks in text order,
  \<^verbatim>\<open>merge.go\<close>, for one signature of the scan: the code's loops over the signatures treat each
  alone, and what the signatures share (the lines, their times, the chunk's length) is here.
\<close>

section \<open>The walk of a chunk\<close>

record walk =
  wk_walker :: walker
  wk_sink :: chunk_sink
  wk_idx :: int
  wk_prevView :: bytes
  wk_prevLen :: int
  wk_firstView :: bytes
  wk_firstLen :: int
  wk_times :: time_tracker
  wk_end :: int
  wk_stamped :: int

definition new_walk :: "compiled_sig \<Rightarrow> time_source option \<Rightarrow> nat \<Rightarrow> walk" where
  "new_walk sg src cap =
     \<lparr>wk_walker = new_walker sg,
      wk_sink = \<lparr>cs_findings = [], cs_pending = [], cs_count = 0, cs_cap = cap, cs_full = False\<rparr>,
      wk_idx = 0, wk_prevView = [], wk_prevLen = 0, wk_firstView = [], wk_firstLen = 0,
      wk_times = \<lparr>tt_src = src, tt_last = no_stamp, tt_settled = False\<rparr>, wk_end = 0, wk_stamped = 0\<rparr>"

text \<open>
  One line. \<open>full\<close> is the signature's shared flag as the line reads it: the merge, on another
  goroutine, sets it at any moment and never clears it. The code loads it anew in every call of a
  sink; here all calls of one line see the value the line read first, so a flag set between two
  calls of one line is modelled as seen from the next line on.
\<close>

definition see_full :: "bool \<Rightarrow> chunk_sink \<Rightarrow> chunk_sink" where
  "see_full full s = (if full then s\<lparr>cs_full := True\<rparr> else s)"

definition walk_line :: "compiled_sig \<Rightarrow> bool \<Rightarrow> line \<Rightarrow> walk \<Rightarrow> walk" where
  "walk_line sg full l0 w =
     (case observe (wk_times w) l0 of (l, tt) \<Rightarrow>
        let idx = wk_idx w;
            same = (has_same sg \<and> idx > 0 \<and> keys_equal (wk_prevView w) (wk_prevLen w) (lview l) (llength l))
        in case sig_line sg tt chunk_ops l idx same (wk_walker w) (see_full full (wk_sink w)) of (wk, sk) \<Rightarrow>
             w\<lparr>wk_walker := wk, wk_sink := sk, wk_idx := idx + 1,
               wk_prevView := (if has_same sg then lview l else wk_prevView w),
               wk_prevLen := (if has_same sg then llength l else wk_prevLen w),
               wk_firstView := (if has_same sg \<and> idx = 0 then lview l else wk_firstView w),
               wk_firstLen := (if has_same sg \<and> idx = 0 then llength l else wk_firstLen w),
               wk_times := tt, wk_end := lnext l,
               wk_stamped := (if stamped l then wk_stamped w + 1 else wk_stamped w)\<rparr>)"

fun walk_lines :: "compiled_sig \<Rightarrow> (nat \<Rightarrow> bool) \<Rightarrow> line list \<Rightarrow> walk \<Rightarrow> walk" where
  "walk_lines sg fulls [] w = w"
| "walk_lines sg fulls (l # ls) w = walk_lines sg (fulls \<circ> Suc) ls (walk_line sg (fulls 0) l w)"

section \<open>What a chunk reports\<close>

record chunk_result =
  cr_lines :: int
  cr_end :: int
  cr_final :: bool
  cr_findings :: "finding list"
  cr_pending :: "nat list"
  cr_count :: int
  cr_open :: "block_state option"
  cr_runs :: run_edges
  cr_firstView :: bytes
  cr_lastView :: bytes
  cr_firstLen :: int
  cr_lastLen :: int
  cr_lastStamp :: stamp_ref
  cr_stamped :: int

definition no_edges :: run_edges where
  "no_edges = \<lparr>e_leading = zero_piece, e_hasLeading = False, e_whole = False,
     e_trailing = zero_piece, e_hasTrailing = False\<rparr>"

text \<open>\<^verbatim>\<open>finish\<close>: an open block closes at the end of the text, and else is reported; runs always are.\<close>

definition walk_finish :: "compiled_sig \<Rightarrow> bool \<Rightarrow> walk \<Rightarrow> chunk_result" where
  "walk_finish sg final w =
     (case (case (sg_kind sg, wk_walker w) of
              (KBlock p, WBlock b) \<Rightarrow>
                (if \<not> bw_open b then (None, wk_sink w)
                 else if final then (None, snd (block_close (sg_env sg) p chunk_ops b (wk_sink w)))
                 else (Some (bw_st b), wk_sink w))
            | _ \<Rightarrow> (None, wk_sink w)) of (opn, sk) \<Rightarrow>
        \<lparr>cr_lines = wk_idx w, cr_end = wk_end w, cr_final = final,
         cr_findings = cs_findings sk, cr_pending = cs_pending sk, cr_count = cs_count sk,
         cr_open = opn,
         cr_runs = (case (sg_kind sg, wk_walker w) of
                      (KRun p, WRun r) \<Rightarrow> run_edges_of (sg_env sg) p chunk_ops (wk_prevView w) (wk_sink w) r
                    | _ \<Rightarrow> no_edges),
         cr_firstView = wk_firstView w,
         cr_lastView = (if has_same sg \<and> wk_idx w > 0 then wk_prevView w else []),
         cr_firstLen = wk_firstLen w,
         cr_lastLen = (if has_same sg \<and> wk_idx w > 0 then wk_prevLen w else 0),
         cr_lastStamp = tt_last (wk_times w), cr_stamped = wk_stamped w\<rparr>)"

definition chunk_walk ::
  "compiled_sig \<Rightarrow> time_source option \<Rightarrow> nat \<Rightarrow> (nat \<Rightarrow> bool) \<Rightarrow> line list \<Rightarrow> bool \<Rightarrow> chunk_result" where
  "chunk_walk sg src cap fulls ls final = walk_finish sg final (walk_lines sg fulls ls (new_walk sg src cap))"

section \<open>The merger\<close>

record merger =
  mg_stored :: "finding list"
  mg_count :: int
  mg_cap :: nat
  mg_full :: bool
  mg_carry :: "block_state option"
  mg_run :: run_piece
  mg_hasRun :: bool
  mg_base :: int
  mg_lastView :: bytes
  mg_lastLen :: int
  mg_lastStamp :: stamp_ref
  mg_stamped :: int
  mg_textEnd :: int

definition new_merger :: "nat \<Rightarrow> merger" where
  "new_merger cap =
     \<lparr>mg_stored = [], mg_count = 0, mg_cap = cap, mg_full = False, mg_carry = None,
      mg_run = zero_piece, mg_hasRun = False, mg_base = 0, mg_lastView = [], mg_lastLen = 0,
      mg_lastStamp = no_stamp, mg_stamped = 0, mg_textEnd = 0\<rparr>"

text \<open>\<^verbatim>\<open>storeSink\<close>, and what a sink leaves in the merger.\<close>

definition store_sink :: "merger \<Rightarrow> int \<Rightarrow> bool \<Rightarrow> merge_sink" where
  "store_sink m lineBase counts =
     \<lparr>ms_stored = mg_stored m, ms_count = mg_count m, ms_cap = mg_cap m, ms_full = mg_full m,
      ms_lineBase = lineBase, ms_counts = counts, ms_added = 0\<rparr>"

definition put_sink :: "merge_sink \<Rightarrow> merger \<Rightarrow> merger" where
  "put_sink s m = m\<lparr>mg_stored := ms_stored s, mg_count := ms_count s, mg_full := ms_full s\<rparr>"

text \<open>\<^verbatim>\<open>take\<close>: its loop stops at the bound.\<close>

fun take_findings :: "int \<Rightarrow> nat \<Rightarrow> finding list \<Rightarrow> finding list \<Rightarrow> finding list" where
  "take_findings base cap stored [] = stored"
| "take_findings base cap stored (f # fs) =
     (if length stored \<ge> cap then stored
      else take_findings base cap
             (stored @ [f\<lparr>StartLine := StartLine f + (base + 1), EndLine := EndLine f + (base + 1)\<rparr>]) fs)"

definition merger_note_full :: "merger \<Rightarrow> merger" where
  "merger_note_full m = (if length (mg_stored m) \<ge> mg_cap m then m\<lparr>mg_full := True\<rparr> else m)"

definition merger_take :: "finding list \<Rightarrow> int \<Rightarrow> merger \<Rightarrow> merger" where
  "merger_take fs n m =
     merger_note_full (m\<lparr>mg_count := mg_count m + n,
                         mg_stored := take_findings (mg_base m) (mg_cap m) (mg_stored m) fs\<rparr>)"

definition carried :: "block_state option \<Rightarrow> int \<Rightarrow> block_state option" where
  "carried opn chunkLines =
     map_option (\<lambda>st. st\<lparr>st_startIdx := st_startIdx st - chunkLines, st_lastIdx := st_lastIdx st - chunkLines\<rparr>) opn"

subsection \<open>Runs across the edges\<close>

definition emit_run :: "compiled_sig \<Rightarrow> run_program \<Rightarrow> run_piece \<Rightarrow> merger \<Rightarrow> merger" where
  "emit_run sg p piece m =
     (if piece_lines piece < rp_min p then m
      else put_sink (emit_piece merge_ops piece (store_sink m 1 True)) m)"

definition close_run :: "compiled_sig \<Rightarrow> run_program \<Rightarrow> merger \<Rightarrow> merger" where
  "close_run sg p m =
     (if \<not> mg_hasRun m then m else emit_run sg p (mg_run m) (m\<lparr>mg_hasRun := False\<rparr>))"

definition absolute :: "merger \<Rightarrow> run_piece \<Rightarrow> run_piece" where
  "absolute m p = p\<lparr>rp_startIdx := rp_startIdx p + mg_base m, rp_endIdx := rp_endIdx p + mg_base m\<rparr>"

definition merge_runs :: "compiled_sig \<Rightarrow> run_program \<Rightarrow> chunk_result \<Rightarrow> merger \<Rightarrow> merger" where
  "merge_runs sg p res m =
     (let edges = cr_runs res;
          touching = mg_hasRun m \<and> e_hasLeading edges \<and>
            (rp_mode p \<noteq> RunSame \<or> keys_equal (mg_lastView m) (mg_lastLen m) (cr_firstView res) (cr_firstLen res));
          rest = (\<lambda>m. let m1 = merger_take (cr_findings res) (cr_count res) m
                      in if e_hasTrailing edges
                         then m1\<lparr>mg_run := absolute m1 (e_trailing edges), mg_hasRun := True\<rparr> else m1)
      in if touching
         then (let m1 = m\<lparr>mg_run := (mg_run m)\<lparr>rp_endIdx := mg_base m + rp_endIdx (e_leading edges),
                          rp_endOff := rp_endOff (e_leading edges)\<rparr>\<rparr>
               in if e_whole edges then m1 else rest (close_run sg p m1))
         else (let m1 = close_run sg p m
               in if e_hasLeading edges
                  then (let leading = absolute m1 (e_leading edges)
                        in if e_whole edges then m1\<lparr>mg_run := leading, mg_hasRun := True\<rparr>
                           else rest (emit_run sg p leading m1))
                  else rest m1))"

subsection \<open>The second walk of a chunk\<close>

text \<open>
  \<^verbatim>\<open>replay\<close>: the true walk, which enters the chunk inside the carried block, and a copy of the
  chunk's own walk, which enters idle; \<open>ry_own_n\<close> counts what the copy finds.
\<close>

record replay =
  ry_truth :: block_walker
  ry_own :: block_walker
  ry_counts :: bool
  ry_own_n :: int
  ry_extend :: bool
  ry_done :: bool

definition converge :: "chunk_result \<Rightarrow> replay \<Rightarrow> merger \<Rightarrow> replay \<times> merger" where
  "converge res ry m =
     (let dropped = ry_own_n ry;
          m1 = m\<lparr>mg_count := mg_count m + (cr_count res - dropped), mg_carry := carried (cr_open res) (cr_lines res)\<rparr>;
          rest = (if dropped < int (length (cr_findings res)) then drop (nat dropped) (cr_findings res) else []);
          need = int (mg_cap m1) - int (length (mg_stored m1));
          truncated = cr_count res > int (length (cr_findings res))
      in if need \<le> 0 \<or> \<not> truncated \<or> int (length rest) \<ge> need
         then (ry\<lparr>ry_done := True\<rparr>, merger_take rest 0 m1)
         else (ry\<lparr>ry_extend := True, ry_counts := False\<rparr>, m1))"

definition replay_step ::
  "compiled_sig \<Rightarrow> block_program \<Rightarrow> chunk_result \<Rightarrow> time_tracker \<Rightarrow> line \<Rightarrow> int \<Rightarrow> replay \<Rightarrow> merger
   \<Rightarrow> replay \<times> merger" where
  "replay_step sg p res tt l idx ry m =
     (let passed = sg_gate sg (lview l)
      in case step_block (sg_env sg) p tt merge_ops l idx passed (ry_truth ry)
                (store_sink m (mg_base m + 1) (ry_counts ry)) of (truth, sk) \<Rightarrow>
           let ry1 = ry\<lparr>ry_truth := truth\<rparr>; m1 = put_sink sk m
           in case (if ry_extend ry1 then (ry1, m1)
                    else case step_block (sg_env sg) p tt count_ops l idx passed (ry_own ry1) (ry_own_n ry1) of
                      (own, n) \<Rightarrow>
                        let ry2 = ry1\<lparr>ry_own := own, ry_own_n := n\<rparr>
                        in if same_state truth own then converge res ry2 m1 else (ry2, m1)) of
                (ry3, m3) \<Rightarrow>
                  if ry_extend ry3 \<and> \<not> merge_storing (store_sink m3 (mg_base m3 + 1) (ry_counts ry3))
                  then (ry3\<lparr>ry_done := True\<rparr>, m3) else (ry3, m3))"

fun replay_lines ::
  "compiled_sig \<Rightarrow> block_program \<Rightarrow> chunk_result \<Rightarrow> time_tracker \<Rightarrow> line list \<Rightarrow> int \<Rightarrow> replay \<Rightarrow> merger
   \<Rightarrow> replay \<times> merger" where
  "replay_lines sg p res tt [] idx ry m = (ry, m)"
| "replay_lines sg p res tt (l0 # ls) idx ry m =
     (case observe tt l0 of (l, tt') \<Rightarrow>
      case replay_step sg p res tt' l idx ry m of (ry', m') \<Rightarrow>
        if ry_done ry' then (ry', m') else replay_lines sg p res tt' ls (idx + 1) ry' m')"

text \<open>
  \<^verbatim>\<open>replayBlocks\<close> for the signature, and what it does after the walk; the scan's context is not
  canceled here.
\<close>

definition replay_end ::
  "compiled_sig \<Rightarrow> block_program \<Rightarrow> chunk_result \<Rightarrow> replay \<times> merger \<Rightarrow> merger" where
  "replay_end sg p res out =
     (case out of (ry, m) \<Rightarrow>
        if ry_done ry then m
        else if cr_final res
        then put_sink (snd (finish_at_end (sg_env sg) p merge_ops (ry_truth ry)
               (store_sink m (mg_base m + 1) (ry_counts ry)))) m
        else if ry_extend ry then m
        else if bw_open (ry_truth ry)
        then m\<lparr>mg_carry := carried (Some (bw_st (ry_truth ry))) (cr_lines res)\<rparr>
        else m)"

definition replay_blocks ::
  "compiled_sig \<Rightarrow> block_program \<Rightarrow> time_source option \<Rightarrow> chunk_result \<Rightarrow> line list \<Rightarrow> block_state \<Rightarrow> merger
   \<Rightarrow> merger" where
  "replay_blocks sg p src res ls st m =
     (let tt = \<lparr>tt_src = src, tt_last = mg_lastStamp m, tt_settled = True\<rparr>;
          ry = \<lparr>ry_truth = \<lparr>bw_open = True, bw_st = st, bw_joinedAt = -1\<rparr>, ry_own = new_block_walker,
                ry_counts = True, ry_own_n = 0, ry_extend = False, ry_done = False\<rparr>
      in replay_end sg p res (replay_lines sg p res tt ls 0 ry (m\<lparr>mg_carry := None\<rparr>)))"

subsection \<open>One chunk, and the end of the text\<close>

definition settle_finding :: "stamp_ref \<Rightarrow> int \<Rightarrow> finding \<Rightarrow> finding" where
  "settle_finding carry lookback f =
     (let tm = settle (zero_time\<lparr>tr_state := TimePending\<rparr>) (StartOffset f) carry lookback
      in f\<lparr>TimeMS := time_pointer tm, TimeOffsetMinutes := offset_minutes tm\<rparr>)"

definition settle_piece :: "stamp_ref \<Rightarrow> int \<Rightarrow> run_piece \<Rightarrow> run_piece" where
  "settle_piece carry lookback p = p\<lparr>rp_tm := settle (rp_tm p) (rp_startOff p) carry lookback\<rparr>"

definition settle_block :: "stamp_ref \<Rightarrow> int \<Rightarrow> block_state \<Rightarrow> block_state" where
  "settle_block carry lookback st = st\<lparr>st_tm := settle (st_tm st) (st_startOff st) carry lookback\<rparr>"

definition settle_times :: "time_source option \<Rightarrow> stamp_ref \<Rightarrow> chunk_result \<Rightarrow> chunk_result" where
  "settle_times src carry res =
     (case src of None \<Rightarrow> res
      | Some t \<Rightarrow>
          (let lb = ts_lookback t
           in res\<lparr>cr_findings := fold (\<lambda>i fs. fs[i := settle_finding carry lb (fs ! i)]) (cr_pending res) (cr_findings res),
                  cr_pending := [],
                  cr_runs := (cr_runs res)\<lparr>e_leading := settle_piece carry lb (e_leading (cr_runs res)),
                                           e_trailing := settle_piece carry lb (e_trailing (cr_runs res))\<rparr>,
                  cr_open := map_option (settle_block carry lb) (cr_open res)\<rparr>))"

text \<open>\<^verbatim>\<open>add\<close>: \<open>ls\<close> are the chunk's lines, as \<^verbatim>\<open>rewalk\<close> walks them again.\<close>

definition merger_add ::
  "compiled_sig \<Rightarrow> time_source option \<Rightarrow> chunk_result \<Rightarrow> line list \<Rightarrow> merger \<Rightarrow> merger" where
  "merger_add sg src res0 ls m =
     (if cr_lines res0 = 0 then m
      else let res = settle_times src (mg_lastStamp m) res0;
               m1 = (case sg_kind sg of
                       KRun p \<Rightarrow> merge_runs sg p res m
                     | KBlock p \<Rightarrow>
                         (case mg_carry m of
                            Some st \<Rightarrow> replay_blocks sg p src res ls st m
                          | None \<Rightarrow>
                              (merger_take (cr_findings res) (cr_count res) m)
                                \<lparr>mg_carry := carried (cr_open res) (cr_lines res)\<rparr>)
                     | _ \<Rightarrow> merger_take (cr_findings res) (cr_count res) m)
           in m1\<lparr>mg_base := mg_base m1 + cr_lines res, mg_textEnd := cr_end res,
                 mg_stamped := mg_stamped m1 + cr_stamped res,
                 mg_lastView := (if has_same sg then cr_lastView res else mg_lastView m1),
                 mg_lastLen := (if has_same sg then cr_lastLen res else mg_lastLen m1),
                 mg_lastStamp := (if sr_ok (cr_lastStamp res) then cr_lastStamp res else mg_lastStamp m1)\<rparr>)"

text \<open>
  The first loops of \<^verbatim>\<open>finish\<close>: an open run or a carried block closes at the end of the text. What
  \<^verbatim>\<open>finish\<close> then does over all signatures is in \<^verbatim>\<open>ScanFinish\<close>.
\<close>

definition merger_close :: "compiled_sig \<Rightarrow> merger \<Rightarrow> merger" where
  "merger_close sg m =
     (case sg_kind sg of
        KRun p \<Rightarrow> close_run sg p m
      | KBlock p \<Rightarrow>
          (case mg_carry m of
             None \<Rightarrow> m
           | Some st \<Rightarrow>
               (let b = \<lparr>bw_open = True, bw_st = st, bw_joinedAt = - (2 ^ 62)\<rparr>
                in (put_sink (snd (block_close (sg_env sg) p merge_ops b (store_sink m (mg_base m + 1) True))) m)
                     \<lparr>mg_carry := None\<rparr>))
      | _ \<Rightarrow> m)"

section \<open>A scan\<close>

text \<open>
  A chunk as the scan sees it: its lines, whether its walk reached the end of the text, and, for
  each of its lines, whether the walk would read a flag already set as set. A walk reads the flag
  at the latest when its result is merged, so it is never set there when it was not in the merger.
\<close>

record text_chunk =
  tc_lines :: "line list"
  tc_final :: bool
  tc_fulls :: "nat \<Rightarrow> bool"

definition scan_chunk ::
  "compiled_sig \<Rightarrow> time_source option \<Rightarrow> text_chunk \<Rightarrow> merger \<Rightarrow> merger" where
  "scan_chunk sg src c m =
     merger_add sg src
       (chunk_walk sg src (mg_cap m) (\<lambda>i. tc_fulls c i \<and> mg_full m) (tc_lines c) (tc_final c)) (tc_lines c) m"

definition scan_chunks ::
  "compiled_sig \<Rightarrow> time_source option \<Rightarrow> nat \<Rightarrow> text_chunk list \<Rightarrow> merger" where
  "scan_chunks sg src cap chunks = merger_close sg (fold (scan_chunk sg src) chunks (new_merger cap))"

end
