(* ===== verification/ScanRef.thy ===== *)
theory ScanRef
  imports ScanWalk
begin

text \<open>
  The reference of a scan: one walk over all the lines of the text, which keeps every finding. And
  what a chunk's walk, which starts with no open block and no stamp, has to do with it.
\<close>

section \<open>The reference walk\<close>

type_synonym ref_state = "walker \<times> time_tracker \<times> (bytes \<times> int) option"

definition ref_same :: "compiled_sig \<Rightarrow> (bytes \<times> int) option \<Rightarrow> line \<Rightarrow> bool" where
  "ref_same sg prev l \<longleftrightarrow> has_same sg \<and>
     (case prev of None \<Rightarrow> False | Some (v, n) \<Rightarrow> keys_equal v n (lview l) (llength l))"

fun ref_lines ::
  "compiled_sig \<Rightarrow> line list \<Rightarrow> int \<Rightarrow> ref_state \<Rightarrow> ref_state \<times> raw_finding list" where
  "ref_lines sg [] idx st = (st, [])"
| "ref_lines sg (l0 # ls) idx (w, tt, prev) =
     (case observe tt l0 of (l, tt') \<Rightarrow>
      case sig_line sg tt' tape_ops l idx (ref_same sg prev l) w [] of (w', fs) \<Rightarrow>
      case ref_lines sg ls (idx + 1) (w', tt', Some (lview l, llength l)) of (st, gs) \<Rightarrow> (st, fs @ gs))"

text \<open>What is still open at the end of the text.\<close>

definition ref_finish :: "compiled_sig \<Rightarrow> walker \<Rightarrow> raw_finding list" where
  "ref_finish sg w =
     (case (sg_kind sg, w) of
        (KRun p, WRun r) \<Rightarrow>
          (if rw_open r \<and> piece_lines (rw_cur r) \<ge> rp_min p then [piece_finding (rw_cur r)] else [])
      | (KBlock p, WBlock b) \<Rightarrow>
          (if bw_open b then snd (block_close (sg_env sg) p tape_ops b []) else [])
      | _ \<Rightarrow> [])"

text \<open>Lines are numbered from 1, so no run touches the beginning of anything.\<close>

definition ref_start :: "compiled_sig \<Rightarrow> time_source option \<Rightarrow> ref_state" where
  "ref_start sg src = (new_walker sg, \<lparr>tt_src = src, tt_last = no_stamp, tt_settled = True\<rparr>, None)"

definition ref_findings :: "compiled_sig \<Rightarrow> time_source option \<Rightarrow> line list \<Rightarrow> raw_finding list" where
  "ref_findings sg src ls =
     (case ref_lines sg ls 1 (ref_start sg src) of ((w, _, _), fs) \<Rightarrow> fs @ ref_finish sg w)"

lemma ref_lines_append:
  "ref_lines sg (ls @ ms) idx st =
    (case ref_lines sg ls idx st of (st', fs) \<Rightarrow>
     case ref_lines sg ms (idx + int (length ls)) st' of (st'', gs) \<Rightarrow> (st'', fs @ gs))"
proof (induction sg ls idx st rule: ref_lines.induct)
  case (1 sg idx st)
  then show ?case by (simp split: prod.split)
next
  case (2 sg l0 ls idx w tt prev)
  obtain l tt' where o: "observe tt l0 = (l, tt')" by force
  obtain w' fs where s: "sig_line sg tt' tape_ops l idx (ref_same sg prev l) w [] = (w', fs)" by force
  show ?case
    using "2.IH" [OF o [symmetric] s [symmetric]] o s
    by (simp add: algebra_simps split: prod.split)
qed

section \<open>What a chunk's sink holds\<close>

definition sink_inv :: "nat \<Rightarrow> bool \<Rightarrow> raw_finding list \<Rightarrow> chunk_sink \<Rightarrow> bool" where
  "sink_inv cap mayFull fs s \<longleftrightarrow> cs_cap s = cap \<and> cs_count s = int (length fs) \<and> (cs_full s \<longrightarrow> mayFull) \<and>
     (\<exists>n \<le> length fs. n \<le> cap \<and> cs_findings s = map (\<lambda>f. to_finding f 0) (take n fs) \<and>
        cs_pending s = filter (\<lambda>i. tr_state (rf_tm (fs ! i)) = TimePending) [0..<n] \<and>
        (\<not> cs_full s \<longrightarrow> n = min cap (length fs)))"

lemma sink_inv_full: "sink_inv cap mayFull fs s \<Longrightarrow> (b \<longrightarrow> mayFull) \<Longrightarrow> sink_inv cap mayFull fs (see_full b s)"
  by (auto simp: sink_inv_def see_full_def)

lemma sink_inv_add:
  assumes "sink_inv cap mayFull fs s"
  shows "sink_inv cap mayFull (fs @ [f]) (chunk_add s f)"
proof -
  obtain n where n: "n \<le> length fs" "n \<le> cap" "cs_findings s = map (\<lambda>f. to_finding f 0) (take n fs)"
    "cs_pending s = filter (\<lambda>i. tr_state (rf_tm (fs ! i)) = TimePending) [0..<n]"
    "\<not> cs_full s \<longrightarrow> n = min cap (length fs)"
    and s: "cs_cap s = cap" "cs_count s = int (length fs)" "cs_full s \<longrightarrow> mayFull"
    using assms by (auto simp: sink_inv_def)
  have len: "length (cs_findings s) = n" using n(1,3) by simp
  have pend: "filter (\<lambda>i. tr_state (rf_tm ((fs @ [f]) ! i)) = TimePending) [0..<n] = cs_pending s"
    unfolding n(4) using n(1) by (intro filter_cong) (auto simp: nth_append)
  show ?thesis
  proof (cases "chunk_storing s")
    case True
    then have nn: "n < cap" "\<not> cs_full s" using len s(1) by (auto simp: chunk_storing_def)
    then have nl: "n = length fs" using n(1,5) by simp
    then have st: "cs_findings (chunk_add s f) = map (\<lambda>f. to_finding f 0) (fs @ [f])"
      "cs_count (chunk_add s f) = int (length (fs @ [f]))" "cs_cap (chunk_add s f) = cap"
      "cs_full (chunk_add s f) = cs_full s"
      "cs_pending (chunk_add s f) = cs_pending s @ (if tr_state (rf_tm f) = TimePending then [n] else [])"
      using True n s len by (auto simp: chunk_add_def chunk_storing_def Let_def)
    have "filter (\<lambda>i. tr_state (rf_tm ((fs @ [f]) ! i)) = TimePending) [0..<Suc n] = cs_pending (chunk_add s f)"
      using pend nl by (simp add: st)
    then show ?thesis
      unfolding sink_inv_def st using nn nl s(3) by (intro conjI exI [of _ "Suc n"]) auto
  next
    case False
    then have st: "chunk_add s f = s\<lparr>cs_count := cs_count s + 1\<rparr>"
      by (simp add: chunk_add_def chunk_storing_def Let_def)
    have "n = min cap (length (fs @ [f]))" if "\<not> cs_full s"
    proof -
      have "\<not> n < cap" using False that len s(1) by (simp add: chunk_storing_def)
      then show ?thesis using n(2,5) that by auto
    qed
    then show ?thesis
      unfolding sink_inv_def st using n(1,2,3) pend s by (intro conjI exI [of _ n]) auto
  qed
qed

lemma sink_inv_adds: "sink_inv cap mayFull fs s \<Longrightarrow> sink_inv cap mayFull (fs @ gs) (chunk.adds gs s)"
proof (induction gs arbitrary: fs s)
  case (Cons g gs)
  have "op_add chunk_ops s g = chunk_add s g" by (simp add: chunk_ops_def)
  with Cons.IH [OF sink_inv_add [OF Cons.prems, of g]] show ?case by simp
qed simp

section \<open>A chunk's walk beside its reference\<close>

definition walk_inv :: "compiled_sig \<Rightarrow> nat \<Rightarrow> bool \<Rightarrow> ref_state \<Rightarrow> raw_finding list \<Rightarrow> walk \<Rightarrow> bool" where
  "walk_inv sg cap mayFull st fs W \<longleftrightarrow>
     (case st of (w, tt, prev) \<Rightarrow>
        wk_times W = tt \<and> 0 \<le> wk_idx W \<and> sink_inv cap mayFull fs (wk_sink W) \<and>
        chunk.walker_sim (wk_sink W) (wk_walker W) w \<and> joined_before (wk_idx W) w \<and>
        joined_before (wk_idx W) (wk_walker W) \<and> (prev = None \<longleftrightarrow> wk_idx W = 0) \<and>
        (has_same sg \<longrightarrow> (case prev of None \<Rightarrow> True | Some k \<Rightarrow> k = (wk_prevView W, wk_prevLen W))))"

lemma see_full_may: "op_mayStore chunk_ops (see_full b s) \<Longrightarrow> op_mayStore chunk_ops s"
  by (simp add: see_full_def chunk_ops_def chunk_may_store_def split: if_splits)

lemma walk_line_inv:
  assumes inv: "walk_inv sg cap mayFull (w, tt, prev) fs W" and b: "b \<longrightarrow> mayFull"
    and o: "observe tt l0 = (l, tt')"
    and s: "sig_line sg tt' tape_ops l (wk_idx W) (ref_same sg prev l) w [] = (w', gs)"
  shows "walk_inv sg cap mayFull (w', tt', Some (lview l, llength l)) (fs @ gs) (walk_line sg b l0 W)"
    and "wk_idx (walk_line sg b l0 W) = wk_idx W + 1"
proof -
  have i: "wk_times W = tt" "0 \<le> wk_idx W" "sink_inv cap mayFull fs (wk_sink W)"
    "chunk.walker_sim (wk_sink W) (wk_walker W) w" "joined_before (wk_idx W) w"
    "joined_before (wk_idx W) (wk_walker W)" "prev = None \<longleftrightarrow> wk_idx W = 0"
    "has_same sg \<longrightarrow> (case prev of None \<Rightarrow> True | Some k \<Rightarrow> k = (wk_prevView W, wk_prevLen W))"
    using inv by (auto simp: walk_inv_def)
  let ?sk = "see_full b (wk_sink W)"
  let ?same = "has_same sg \<and> wk_idx W > 0 \<and> keys_equal (wk_prevView W) (wk_prevLen W) (lview l) (llength l)"
  have same: "?same = ref_same sg prev l"
    using i(2,7,8) by (auto simp: ref_same_def split: option.splits)
  have sim: "chunk.walker_sim ?sk (wk_walker W) w" by (rule chunk.walker_sim_mono [OF i(4) see_full_may])
  obtain wk where wk: "sig_line sg tt' chunk_ops l (wk_idx W) ?same (wk_walker W) ?sk = (wk, chunk.adds gs ?sk)"
    "chunk.walker_sim (chunk.adds gs ?sk) wk w'"
    using chunk.sig_line_sim [OF sim i(6,5), of sg tt' l "ref_same sg prev l"] unfolding same s by auto
  have W: "walk_line sg b l0 W =
      W\<lparr>wk_walker := wk, wk_sink := chunk.adds gs ?sk, wk_idx := wk_idx W + 1,
        wk_prevView := (if has_same sg then lview l else wk_prevView W),
        wk_prevLen := (if has_same sg then llength l else wk_prevLen W),
        wk_firstView := (if has_same sg \<and> wk_idx W = 0 then lview l else wk_firstView W),
        wk_firstLen := (if has_same sg \<and> wk_idx W = 0 then llength l else wk_firstLen W),
        wk_times := tt', wk_end := lnext l,
        wk_stamped := (if stamped l then wk_stamped W + 1 else wk_stamped W)\<rparr>"
    by (simp only: walk_line_def i(1) o prod.case Let_def wk(1))
  have jb: "joined_before (wk_idx W + 1) w'" "joined_before (wk_idx W + 1) wk"
    using sig_line_joined [OF i(5), of sg tt' tape_ops l "ref_same sg prev l" "[]"] s
      sig_line_joined [OF i(6), of sg tt' chunk_ops l ?same ?sk] wk(1) by simp_all
  show "walk_inv sg cap mayFull (w', tt', Some (lview l, llength l)) (fs @ gs) (walk_line sg b l0 W)"
    unfolding W walk_inv_def using i(2) wk(2) jb sink_inv_adds [OF sink_inv_full [OF i(3) b]] by simp
  show "wk_idx (walk_line sg b l0 W) = wk_idx W + 1" by (simp add: W)
qed

lemma walk_lines_inv:
  assumes "walk_inv sg cap mayFull st fs W" and "\<And>i. fulls i \<Longrightarrow> mayFull"
    and "ref_lines sg ls (wk_idx W) st = (st', gs)"
  shows "walk_inv sg cap mayFull st' (fs @ gs) (walk_lines sg fulls ls W) \<and>
    wk_idx (walk_lines sg fulls ls W) = wk_idx W + int (length ls)"
  using assms
proof (induction ls arbitrary: st fs W fulls gs)
  case Nil
  then show ?case by simp
next
  case (Cons l0 ls)
  obtain w tt prev where st: "st = (w, tt, prev)" by (cases st)
  obtain l tt' where o: "observe tt l0 = (l, tt')" by force
  obtain w' hs where s: "sig_line sg tt' tape_ops l (wk_idx W) (ref_same sg prev l) w [] = (w', hs)" by force
  obtain st2 ks where r: "ref_lines sg ls (wk_idx W + 1) (w', tt', Some (lview l, llength l)) = (st2, ks)"
    by (cases "ref_lines sg ls (wk_idx W + 1) (w', tt', Some (lview l, llength l))")
  have eq: "st' = st2" "gs = hs @ ks" using Cons.prems(3) by (auto simp: st o s r)
  have "fulls 0 \<longrightarrow> mayFull" using Cons.prems(2) by blast
  note wl = walk_line_inv [OF Cons.prems(1) [unfolded st] this o s]
  have "walk_inv sg cap mayFull st' ((fs @ hs) @ ks) (walk_lines sg (fulls \<circ> Suc) ls (walk_line sg (fulls 0) l0 W)) \<and>
      wk_idx (walk_lines sg (fulls \<circ> Suc) ls (walk_line sg (fulls 0) l0 W)) =
        wk_idx (walk_line sg (fulls 0) l0 W) + int (length ls)"
    by (rule Cons.IH [OF wl(1)]) (use Cons.prems(2) wl(2) r eq(1) in auto)
  then show ?case using wl(2) eq(2) by simp
qed

lemma walk_lines_first:
  "wk_idx W > 0 \<Longrightarrow> wk_firstView (walk_lines sg fulls ls W) = wk_firstView W \<and>
     wk_firstLen (walk_lines sg fulls ls W) = wk_firstLen W"
proof (induction ls arbitrary: W fulls)
  case (Cons l ls)
  have "wk_idx (walk_line sg b l W) > 0 \<and> wk_firstView (walk_line sg b l W) = wk_firstView W \<and>
      wk_firstLen (walk_line sg b l W) = wk_firstLen W" for b
    using Cons.prems by (simp add: walk_line_def Let_def split: prod.split)
  then show ?case using Cons.IH by simp
qed simp

lemma walk_line_first:
  assumes "wk_idx W = 0" and "has_same sg"
  shows "wk_firstView (walk_line sg b l W) = lview (fst (observe (wk_times W) l))"
    and "wk_firstLen (walk_line sg b l W) = llength (fst (observe (wk_times W) l))"
  using assms by (simp_all add: walk_line_def Let_def split: prod.split)

text \<open>The whole walk of a chunk, from its first line to its last.\<close>

definition chunk_start :: "compiled_sig \<Rightarrow> time_source option \<Rightarrow> ref_state" where
  "chunk_start sg src = (new_walker sg, \<lparr>tt_src = src, tt_last = no_stamp, tt_settled = False\<rparr>, None)"

lemma walker_sim_new [simp]: "chunk.walker_sim s (new_walker sg) (new_walker sg)"
  by (simp add: chunk.walker_sim_def new_walker_def chunk.block_sim_def block_alike_def split: sig_kind.split)

lemma joined_before_new: "0 \<le> idx \<Longrightarrow> joined_before idx (new_walker sg)"
  by (simp add: joined_before_def new_walker_def new_block_walker_def split: sig_kind.split)

lemma chunk_walk_inv:
  assumes "\<And>i. fulls i \<Longrightarrow> mayFull" and "ref_lines sg ls 0 (chunk_start sg src) = (st, fs)"
  shows "walk_inv sg cap mayFull st fs (walk_lines sg fulls ls (new_walk sg src cap))"
    and "wk_idx (walk_lines sg fulls ls (new_walk sg src cap)) = int (length ls)"
proof -
  have "walk_inv sg cap mayFull (chunk_start sg src) [] (new_walk sg src cap)"
    by (simp add: walk_inv_def chunk_start_def new_walk_def sink_inv_def joined_before_new)
  note w = walk_lines_inv [OF this assms(1), where ls = ls and st' = st and gs = fs]
  have "wk_idx (new_walk sg src cap) = 0" by (simp add: new_walk_def)
  with w assms(2) show "walk_inv sg cap mayFull st fs (walk_lines sg fulls ls (new_walk sg src cap))"
    "wk_idx (walk_lines sg fulls ls (new_walk sg src cap)) = int (length ls)" by simp_all
qed

section \<open>Moving a walk along the text\<close>

text \<open>
  A walk that starts later in the text numbers its lines from another line, and knows other stamps:
  \<open>retime\<close> turns the times of one into the times of the other, \<open>related\<close> says when it can.
\<close>

locale moved_walk =
  fixes retime :: "time_ref \<Rightarrow> int \<Rightarrow> time_ref"
    and related :: "time_tracker \<Rightarrow> time_tracker \<Rightarrow> bool"
  assumes related_line: "related own tru \<Longrightarrow> fst (observe own l) = fst (observe tru l)"
    and related_observe: "related own tru \<Longrightarrow> related (snd (observe own l)) (snd (observe tru l))"
    and related_at: "related own tru \<Longrightarrow> retime (time_at own start) start = time_at tru start"
    and related_src: "related own tru \<Longrightarrow> tt_src own = tt_src tru"
begin

definition move :: "int \<Rightarrow> raw_finding \<Rightarrow> raw_finding" where
  "move k f = f\<lparr>rf_startIdx := rf_startIdx f + k, rf_endIdx := rf_endIdx f + k,
     rf_tm := retime (rf_tm f) (rf_startOff f)\<rparr>"

definition move_block :: "int \<Rightarrow> block_state \<Rightarrow> block_state" where
  "move_block k st = st\<lparr>st_startIdx := st_startIdx st + k, st_lastIdx := st_lastIdx st + k,
     st_tm := retime (st_tm st) (st_startOff st)\<rparr>"

definition move_walker :: "int \<Rightarrow> block_walker \<Rightarrow> block_walker" where
  "move_walker k b = b\<lparr>bw_st := move_block k (bw_st b), bw_joinedAt := bw_joinedAt b + k\<rparr>"

definition moved :: "int \<Rightarrow> block_walker \<times> raw_finding list \<Rightarrow> block_walker \<times> raw_finding list" where
  "moved k out = (move_walker k (fst out), map (move k) (snd out))"

lemma move_walker_sel [simp]:
  "bw_open (move_walker k b) = bw_open b" "bw_st (move_walker k b) = move_block k (bw_st b)"
  "bw_joinedAt (move_walker k b) = bw_joinedAt b + k"
  by (simp_all add: move_walker_def)

lemma move_block_sel [simp]:
  "st_state (move_block k st) = st_state st" "st_remaining (move_block k st) = st_remaining st"
  "st_lines (move_block k st) = st_lines st" "st_depth (move_block k st) = st_depth st"
  "st_indent (move_block k st) = st_indent st" "st_closer (move_block k st) = st_closer st"
  "st_lastIdx (move_block k st) = st_lastIdx st + k" "st_startIdx (move_block k st) = st_startIdx st + k"
  by (simp_all add: move_block_def)

lemma moved_close: "block_close cs p tape_ops (move_walker k b) [] = moved k (block_close cs p tape_ops b [])"
  by (simp add: block_close_def moved_def Let_def move_walker_def move_def move_block_def block_finding_def)

lemma moved_join: "block_join l (idx + k) (move_walker k b) = move_walker k (block_join l idx b)"
  by (simp add: block_join_def Let_def) (simp add: move_walker_def move_block_def)

lemma moved_abandon: "block_abandon (idx + k) (move_walker k b) = move_walker k (block_abandon idx b)"
  by (simp add: block_abandon_def move_walker_def)

lemma moved_depth:
  "(move_walker k b)\<lparr>bw_st := (move_block k (bw_st b))\<lparr>st_depth := d\<rparr>\<rparr> = move_walker k (b\<lparr>bw_st := (bw_st b)\<lparr>st_depth := d\<rparr>\<rparr>)"
  "(move_walker k b)\<lparr>bw_st := (move_block k (bw_st b))\<lparr>st_remaining := r\<rparr>\<rparr> = move_walker k (b\<lparr>bw_st := (bw_st b)\<lparr>st_remaining := r\<rparr>\<rparr>)"
  "(move_walker k b)\<lparr>bw_st := (move_block k (bw_st b))\<lparr>st_state := q\<rparr>\<rparr> = move_walker k (b\<lparr>bw_st := (bw_st b)\<lparr>st_state := q\<rparr>\<rparr>)"
  by (simp_all add: move_walker_def move_block_def)

lemma moved_pair [simp]: "moved k (b, []) = (move_walker k b, [])"
  by (simp add: moved_def)

lemma moved_feed_json:
  "feed_json cs p tape_ops l (idx + k) (move_walker k b) [] = moved k (feed_json cs p tape_ops l idx b [])"
proof -
  obtain opens closes where j: "json_brackets (lview l) = (opens, closes)" by force
  define b1 where "b1 = b\<lparr>bw_st := (bw_st b)\<lparr>st_depth := st_depth (bw_st b) + (opens - closes)\<rparr>\<rparr>"
  have "(move_walker k b)\<lparr>bw_st := (bw_st (move_walker k b))
      \<lparr>st_depth := st_depth (bw_st (move_walker k b)) + (opens - closes)\<rparr>\<rparr> = move_walker k b1"
    using moved_depth(1) by (simp add: b1_def)
  then show ?thesis
    unfolding feed_json_def j prod.case b1_def [symmetric] Let_def
    by (simp add: moved_close moved_join moved_abandon moved_pair split: if_split)
qed

lemma moved_feed:
  "block_feed cs p tape_ops l (idx + k) (move_walker k b) [] = moved k (block_feed cs p tape_ops l idx b [])"
proof (cases "bp_json p")
  case True
  then show ?thesis by (simp add: block_feed_def moved_feed_json)
next
  case False
  then show ?thesis
    by (auto simp: block_feed_def Let_def moved_close moved_join moved_pair moved_depth split: option.split)
qed

lemma moved_try_open:
  assumes "related own tru"
  shows "try_open cs p tru tape_ops l (idx + k) (move_walker k b) [] = moved k (try_open cs p own tape_ops l idx b [])"
proof (cases "bp_json p")
  case True
  then show ?thesis
    using related_at [OF assms, of "lstart l"]
    by (simp add: try_open_def try_open_json_def Let_def moved_pair split: option.split prod.split)
      (simp add: moved_def move_walker_def move_block_def)
next
  case False
  define st where "st = zero_block\<lparr>st_startIdx := idx, st_startOff := lstart l, st_firstLen := llength l,
     st_lines := 1, st_lastIdx := idx, st_lastEnd := lnext l, st_remaining := bp_lines p, st_vs := -1,
     st_ve := -1, st_tm := time_at own (lstart l)\<rparr>"
  have st: "zero_block\<lparr>st_startIdx := idx + k, st_startOff := lstart l, st_firstLen := llength l,
     st_lines := 1, st_lastIdx := idx + k, st_lastEnd := lnext l, st_remaining := bp_lines p, st_vs := -1,
     st_ve := -1, st_tm := time_at tru (lstart l)\<rparr> = move_block k st"
    using related_at [OF assms, of "lstart l"] by (simp add: st_def move_block_def)
  have ex: "(move_block k su)\<lparr>st_hasEx := True, st_excerpt := ex, st_masked := masked, st_vs := vs, st_ve := ve\<rparr> =
    move_block k (su\<lparr>st_hasEx := True, st_excerpt := ex, st_masked := masked, st_vs := vs, st_ve := ve\<rparr>)"
    for ex masked vs ve su
    by (simp add: move_block_def)
  have opn: "(move_walker k b)\<lparr>bw_open := True, bw_st := move_block k su, bw_joinedAt := idx + k\<rparr> =
      move_walker k (b\<lparr>bw_open := True, bw_st := su, bw_joinedAt := idx\<rparr>)" for su
    by (simp add: move_walker_def)
  have nxt: "(move_block k su)\<lparr>st_state := q\<rparr> = move_block k (su\<lparr>st_state := q\<rparr>)" for su q
    by (simp add: move_block_def)
  show ?thesis
    unfolding try_open_def Let_def if_not_P [OF False] st st_def [symmetric]
    by (auto simp: moved_close opn nxt ex split: option.split prod.split)
qed

lemma moved_step_block:
  assumes "related own tru"
  shows "step_block cs p tru tape_ops l (idx + k) passed (move_walker k b) [] =
    moved k (step_block cs p own tape_ops l idx passed b [])"
proof -
  obtain b1 fs where f: "(if bw_open b then block_feed cs p tape_ops l idx b [] else (b, [])) = (b1, fs)"
    by force
  then have m: "(if bw_open (move_walker k b) then block_feed cs p tape_ops l (idx + k) (move_walker k b) []
      else (move_walker k b, [])) = (move_walker k b1, map (move k) fs)"
    using moved_feed [of cs p l idx k b] by (auto simp: moved_def split: if_splits)
  show ?thesis
  proof (cases "\<not> bw_open b1 \<and> bw_joinedAt b1 \<noteq> idx \<and> passed")
    case True
    then show ?thesis
      unfolding step_block_def f m prod.case
      using tape_try_open [of cs p own l idx b1 fs]
        tape_try_open [of cs p tru l "idx + k" "move_walker k b1" "map (move k) fs"]
        moved_try_open [OF assms, of cs p l idx k b1]
      by (simp add: moved_def)
  next
    case False
    then show ?thesis unfolding step_block_def f m prod.case by (auto simp: moved_def)
  qed
qed

text \<open>The whole walk of a signature other than a run.\<close>

definition move_any :: "int \<Rightarrow> walker \<Rightarrow> walker" where
  "move_any k w = (case w of WBlock b \<Rightarrow> WBlock (move_walker k b) | _ \<Rightarrow> w)"

lemma moved_sig_line:
  assumes "related own tru" and "\<And>p. sg_kind sg \<noteq> KRun p"
  shows "sig_line sg tru tape_ops l (idx + k) same (move_any k w) [] =
    (case sig_line sg own tape_ops l idx same w [] of (w', fs) \<Rightarrow> (move_any k w', map (move k) fs))"
proof (cases "sg_kind sg")
  case (KRegex m)
  have "move k (line_finding l idx vs ve (time_at own (lstart l))) =
      line_finding l (idx + k) vs ve (time_at tru (lstart l))" for vs ve
    using related_at [OF assms(1)] by (simp add: move_def line_finding_def)
  moreover have "move k (with_excerpt cs l f) = with_excerpt cs l (move k f)" for cs f
    by (simp add: move_def with_excerpt_def split: prod.split)
  ultimately show ?thesis
    using KRegex by (auto simp: sig_line_def add_regex_finding_def Let_def move_any_def split: prod.split walker.split)
next
  case (KValue m)
  have "move k (line_finding l idx vs ve (time_at own (lstart l))) =
      line_finding l (idx + k) vs ve (time_at tru (lstart l))" for vs ve
    using related_at [OF assms(1)] by (simp add: move_def line_finding_def)
  moreover have "move k (with_excerpt cs l f) = with_excerpt cs l (move k f)" for cs f
    by (simp add: move_def with_excerpt_def split: prod.split)
  ultimately show ?thesis
    using KValue by (auto simp: sig_line_def add_value_finding_def move_any_def split: option.split prod.split walker.split)
next
  case (KRun p)
  then show ?thesis using assms(2) by simp
next
  case (KBlock p)
  then show ?thesis
    using moved_step_block [OF assms(1), of "sg_env sg" p l idx k "sg_gate sg (lview l)"]
    by (auto simp: sig_line_def move_any_def moved_def split: prod.split walker.split)
qed

lemma moved_ref_lines:
  assumes "related own tru" and "\<And>p. sg_kind sg \<noteq> KRun p"
    and "ref_lines sg ls idx (w, own, prev) = ((w', own', prev'), fs)"
  shows "\<exists>tru'. ref_lines sg ls (idx + k) (move_any k w, tru, prev) =
      ((move_any k w', tru', prev'), map (move k) fs) \<and> related own' tru'"
  using assms(1,3)
proof (induction ls arbitrary: idx w own tru prev fs)
  case Nil
  then show ?case by auto
next
  case (Cons l0 ls)
  obtain l own1 where o: "observe own l0 = (l, own1)" by force
  obtain tru1 where t: "observe tru l0 = (l, tru1)" "related own1 tru1"
    using related_line [OF Cons.prems(1), of l0] related_observe [OF Cons.prems(1), of l0] o
    by (cases "observe tru l0") auto
  obtain w1 gs where s: "sig_line sg own1 tape_ops l idx (ref_same sg prev l) w [] = (w1, gs)" by force
  obtain st hs where r: "ref_lines sg ls (idx + 1) (w1, own1, Some (lview l, llength l)) = (st, hs)"
    by (cases "ref_lines sg ls (idx + 1) (w1, own1, Some (lview l, llength l))")
  have eq: "st = (w', own', prev')" "fs = gs @ hs" using Cons.prems(2) by (auto simp: o s r)
  obtain tru' where "ref_lines sg ls (idx + 1 + k) (move_any k w1, tru1, Some (lview l, llength l)) =
      ((move_any k w', tru', prev'), map (move k) hs)" "related own' tru'"
    using Cons.IH [OF t(2) r [unfolded eq]] by blast
  moreover have comm: "idx + k + 1 = idx + 1 + k" by simp
  ultimately show ?case
    using moved_sig_line [OF t(2) assms(2), of l idx k "ref_same sg prev l" w] s
    by (simp add: t(1) eq(2) comm)
qed

end

text \<open>
  What the merge makes of a chunk's times: pending ones are settled from the last stamp before the
  chunk, in a file with a timestamp format.
\<close>

definition retime_of :: "time_source option \<Rightarrow> stamp_ref \<Rightarrow> time_ref \<Rightarrow> int \<Rightarrow> time_ref" where
  "retime_of src carry tm start =
     (case src of None \<Rightarrow> tm | Some t \<Rightarrow> settle tm start carry (ts_lookback t))"

definition related_of :: "time_source option \<Rightarrow> stamp_ref \<Rightarrow> time_tracker \<Rightarrow> time_tracker \<Rightarrow> bool" where
  "related_of src carry own tru \<longleftrightarrow> tt_src own = src \<and> tracks carry own tru"

lemma observe_src [simp]: "tt_src (snd (observe t l)) = tt_src t"
  by (simp add: observe_def split: option.split prod.split)

interpretation chunked: moved_walk "retime_of src carry" "related_of src carry" for src carry
proof unfold_locales
  fix own tru l start
  assume r: "related_of src carry own tru"
  then show "fst (observe own l) = fst (observe tru l)"
    using tracks_observe(1) by (auto simp: related_of_def)
  from r show "related_of src carry (snd (observe own l)) (snd (observe tru l))"
    using tracks_observe(2) by (auto simp: related_of_def)
  from r show "retime_of src carry (time_at own start) start = time_at tru start"
    using settle_time_at [of carry own tru start]
    by (auto simp: related_of_def retime_of_def lookback_of_def tracks_def time_at_def split: option.splits)
  from r show "tt_src own = tt_src tru" by (auto simp: related_of_def tracks_def)
qed

text \<open>The same walk with other line numbers.\<close>

interpretation renumbered: moved_walk "\<lambda>tm _. tm" "\<lambda>own tru. own = tru"
  by unfold_locales simp_all

end
