(* ===== verification/ScanMerge.thy ===== *)
theory ScanMerge
  imports ScanRef
begin

text \<open>
  What the merge keeps between chunks, and the second walk of a chunk that a block enters: the
  merger holds exactly the findings the reference walk has found so far.
\<close>

section \<open>The findings the merger holds\<close>

definition as_findings :: "raw_finding list \<Rightarrow> finding list" where
  "as_findings fs = map (\<lambda>f. to_finding f 0) fs"

lemma as_findings_simps [simp]:
  "as_findings [] = []" "as_findings (fs @ gs) = as_findings fs @ as_findings gs"
  "length (as_findings fs) = length fs" "as_findings (f # fs) = to_finding f 0 # as_findings fs"
  "as_findings (take n fs) = take n (as_findings fs)" "as_findings (drop n fs) = drop n (as_findings fs)"
  by (simp_all add: as_findings_def take_map drop_map)

definition stored_ok :: "merger \<Rightarrow> raw_finding list \<Rightarrow> bool" where
  "stored_ok m fs \<longleftrightarrow> mg_stored m = take (mg_cap m) (as_findings fs) \<and> (mg_full m \<longrightarrow> mg_cap m \<le> length fs)"

abbreviation renumber :: "int \<Rightarrow> raw_finding \<Rightarrow> raw_finding" where
  "renumber \<equiv> renumbered.move"

lemma to_finding_renumber: "to_finding f k = to_finding (renumber k f) 0"
  by (simp add: to_finding_def renumbered.move_def algebra_simps)

definition sink_ok :: "nat \<Rightarrow> raw_finding list \<Rightarrow> merge_sink \<Rightarrow> bool" where
  "sink_ok cap fs s \<longleftrightarrow> ms_cap s = cap \<and> ms_stored s = take cap (as_findings fs) \<and> (ms_full s \<longrightarrow> cap \<le> length fs)"

lemma take_snoc: "take n (xs @ [x]) = (if length xs < n then take n xs @ [x] else take n xs)"
  by simp

lemma sink_ok_add:
  assumes "sink_ok cap fs s"
  shows "sink_ok cap (fs @ [renumber (ms_lineBase s) f]) (merge_add s f)"
    and "ms_lineBase (merge_add s f) = ms_lineBase s" and "ms_counts (merge_add s f) = ms_counts s"
    and "ms_count (merge_add s f) = ms_count s + (if ms_counts s then 1 else 0)"
proof -
  have len: "length (ms_stored s) = min cap (length fs)" "ms_cap s = cap" using assms by (auto simp: sink_ok_def)
  show "sink_ok cap (fs @ [renumber (ms_lineBase s) f]) (merge_add s f)"
  proof (cases "length fs < cap")
    case True
    then show ?thesis
      using assms len by (auto simp: sink_ok_def merge_add_def merge_storing_def note_full_def Let_def
          to_finding_renumber [of f] split: if_splits)
  next
    case False
    then show ?thesis
      using assms len by (auto simp: sink_ok_def merge_add_def merge_storing_def Let_def)
  qed
  show "ms_lineBase (merge_add s f) = ms_lineBase s" "ms_counts (merge_add s f) = ms_counts s"
    "ms_count (merge_add s f) = ms_count s + (if ms_counts s then 1 else 0)"
    by (simp_all add: merge_add_def note_full_def Let_def)
qed

lemma sink_ok_adds:
  "sink_ok cap fs s \<Longrightarrow> sink_ok cap (fs @ map (renumber (ms_lineBase s)) gs) (merging.adds gs s) \<and>
     ms_count (merging.adds gs s) = ms_count s + (if ms_counts s then int (length gs) else 0)"
proof (induction gs arbitrary: fs s)
  case (Cons g gs)
  have "op_add merge_ops s g = merge_add s g" by (simp add: merge_ops_def)
  with Cons.IH [OF sink_ok_add(1) [OF Cons.prems, of g]] sink_ok_add(2-4) [OF Cons.prems, of g]
  show ?case by simp
qed simp

text \<open>Findings that go through a sink into the merger.\<close>

definition absorb :: "raw_finding list \<Rightarrow> int \<Rightarrow> bool \<Rightarrow> merger \<Rightarrow> merger" where
  "absorb gs base counts m = put_sink (merging.adds gs (store_sink m base counts)) m"

lemma absorb_ok:
  assumes "stored_ok m fs"
  shows "stored_ok (absorb gs k c m) (fs @ map (renumber k) gs)"
    and "mg_count (absorb gs k c m) = mg_count m + (if c then int (length gs) else 0)"
proof -
  have "sink_ok (mg_cap m) fs (store_sink m k c)"
    using assms by (simp add: sink_ok_def stored_ok_def store_sink_def)
  from sink_ok_adds [OF this, of gs]
  show "stored_ok (absorb gs k c m) (fs @ map (renumber k) gs)"
    "mg_count (absorb gs k c m) = mg_count m + (if c then int (length gs) else 0)"
    by (simp_all add: absorb_def put_sink_def stored_ok_def sink_ok_def) (simp_all add: store_sink_def)
qed

lemma absorb_sel [simp]:
  "mg_cap (absorb gs k c m) = mg_cap m" "mg_carry (absorb gs k c m) = mg_carry m"
  "mg_base (absorb gs k c m) = mg_base m" "mg_run (absorb gs k c m) = mg_run m"
  "mg_hasRun (absorb gs k c m) = mg_hasRun m" "mg_lastStamp (absorb gs k c m) = mg_lastStamp m"
  "mg_lastView (absorb gs k c m) = mg_lastView m" "mg_lastLen (absorb gs k c m) = mg_lastLen m"
  by (simp_all add: absorb_def put_sink_def)

lemma take_findings_eq:
  "length stored \<le> cap \<Longrightarrow> take_findings base cap stored fs =
    stored @ take (cap - length stored)
      (map (\<lambda>f. f\<lparr>StartLine := StartLine f + (base + 1), EndLine := EndLine f + (base + 1)\<rparr>) fs)"
proof (induction base cap stored fs rule: take_findings.induct)
  case (2 base cap stored f fs)
  then show ?case by (cases "length stored = cap") (auto simp: Suc_diff_le diff_Suc split: nat.split)
qed simp

lemma shift_finding:
  "(to_finding f 0)\<lparr>StartLine := StartLine (to_finding f 0) + k, EndLine := EndLine (to_finding f 0) + k\<rparr> =
    to_finding (renumber k f) 0"
  by (simp add: to_finding_def renumbered.move_def)

text \<open>
  \<^verbatim>\<open>take\<close>: a chunk that kept the first \<open>n\<close> of its findings, enough of them or as many as the merge
  can still store.
\<close>

lemma merger_take_ok:
  assumes "stored_ok m fs"
    and "mg_cap m \<le> length fs + n \<or> n = length hs"
  shows "stored_ok (merger_take (as_findings (take n hs)) c m) (fs @ map (renumber (mg_base m + 1)) hs)"
    and "mg_count (merger_take (as_findings (take n hs)) c m) = mg_count m + c"
proof -
  let ?k = "mg_base m + 1"
  have st: "mg_stored m = take (mg_cap m) (as_findings fs)" using assms(1) by (simp add: stored_ok_def)
  have len: "length (mg_stored m) = min (mg_cap m) (length fs)" using st by simp
  have map: "map (\<lambda>f. f\<lparr>StartLine := StartLine f + ?k, EndLine := EndLine f + ?k\<rparr>) (as_findings (take n hs)) =
      take n (as_findings (map (renumber ?k) hs))"
    by (simp add: as_findings_def take_map o_def shift_finding)
  have "take_findings (mg_base m) (mg_cap m) (mg_stored m) (as_findings (take n hs)) =
      mg_stored m @ take (mg_cap m - min (mg_cap m) (length fs)) (take n (as_findings (map (renumber ?k) hs)))"
    using len map by (subst take_findings_eq) auto
  also have "\<dots> = take (mg_cap m) (as_findings (fs @ map (renumber ?k) hs))"
    using assms(2) by (cases "length fs < mg_cap m") (auto simp: st take_map min_def)
  finally show "stored_ok (merger_take (as_findings (take n hs)) c m) (fs @ map (renumber ?k) hs)"
    using assms(1) by (auto simp: merger_take_def merger_note_full_def stored_ok_def)
  show "mg_count (merger_take (as_findings (take n hs)) c m) = mg_count m + c"
    by (simp add: merger_take_def merger_note_full_def)
qed

lemma merger_take_sel [simp]:
  "mg_cap (merger_take fs c m) = mg_cap m" "mg_carry (merger_take fs c m) = mg_carry m"
  "mg_base (merger_take fs c m) = mg_base m" "mg_run (merger_take fs c m) = mg_run m"
  "mg_hasRun (merger_take fs c m) = mg_hasRun m" "mg_lastStamp (merger_take fs c m) = mg_lastStamp m"
  "mg_lastView (merger_take fs c m) = mg_lastView m" "mg_lastLen (merger_take fs c m) = mg_lastLen m"
  by (simp_all add: merger_take_def merger_note_full_def)

section \<open>Settled findings\<close>

lemma fold_settle_pending:
  assumes "n \<le> length xs"
  shows "fold (\<lambda>i ys. ys[i := g (ys ! i)]) (filter P [0..<n]) xs =
    map (\<lambda>i. if i < n \<and> P i then g (xs ! i) else xs ! i) [0..<length xs]"
  using assms
proof (induction n)
  case 0
  then show ?case by (simp add: map_nth)
next
  case (Suc n)
  then show ?case
    by (auto intro!: nth_equalityI simp: nth_list_update less_Suc_eq)
qed

abbreviation settled :: "time_source option \<Rightarrow> stamp_ref \<Rightarrow> raw_finding \<Rightarrow> raw_finding" where
  "settled src carry \<equiv> chunked.move src carry 0"

lemma settle_finding_move:
  assumes "tr_state (rf_tm f) = TimePending"
  shows "settle_finding carry (ts_lookback t) (to_finding f 0) = to_finding (settled (Some t) carry f) 0"
  using assms by (simp add: settle_finding_def to_finding_def chunked.move_def retime_of_def settle_def
      zero_time_def Let_def)

lemma not_pending_move:
  assumes "tr_state (rf_tm f) \<noteq> TimePending"
  shows "settled src carry f = f"
  using assms by (cases src) (simp_all add: chunked.move_def retime_of_def settle_def)

lemma settled_None [simp]: "settled None carry f = f"
  by (simp add: chunked.move_def retime_of_def)

lemma settled_move: "chunked.move src carry k f = renumber k (settled src carry f)"
  by (simp add: chunked.move_def renumbered.move_def)

text \<open>A chunk's settled findings are those of the true walk.\<close>

definition chunk_holds :: "nat \<Rightarrow> bool \<Rightarrow> raw_finding list \<Rightarrow> finding list \<Rightarrow> int \<Rightarrow> bool" where
  "chunk_holds cap mayFull hs found n \<longleftrightarrow> n = int (length hs) \<and>
     (\<exists>k \<le> length hs. k \<le> cap \<and> found = as_findings (take k hs) \<and> (\<not> mayFull \<longrightarrow> k = min cap (length hs)))"

lemma settled_findings:
  assumes "sink_inv cap mayFull hs s"
  shows "chunk_holds cap mayFull (map (settled src carry) hs)
    (case src of None \<Rightarrow> cs_findings s
     | Some t \<Rightarrow> fold (\<lambda>i fs. fs[i := settle_finding carry (ts_lookback t) (fs ! i)]) (cs_pending s) (cs_findings s))
    (cs_count s)"
proof -
  obtain n where n: "n \<le> length hs" "n \<le> cap" "cs_findings s = as_findings (take n hs)"
    "cs_pending s = filter (\<lambda>i. tr_state (rf_tm (hs ! i)) = TimePending) [0..<n]"
    "\<not> cs_full s \<longrightarrow> n = min cap (length hs)" "cs_count s = int (length hs)" "cs_full s \<longrightarrow> mayFull"
    using assms unfolding sink_inv_def as_findings_def by blast
  have "(case src of None \<Rightarrow> cs_findings s
     | Some t \<Rightarrow> fold (\<lambda>i fs. fs[i := settle_finding carry (ts_lookback t) (fs ! i)]) (cs_pending s) (cs_findings s)) =
      as_findings (take n (map (settled src carry) hs))"
  proof (cases src)
    case None
    then show ?thesis using n(3) by (simp add: as_findings_def take_map)
  next
    case (Some t)
    have len: "length (cs_findings s) = n" using n(1,3) by simp
    have "fold (\<lambda>i fs. fs[i := settle_finding carry (ts_lookback t) (fs ! i)]) (cs_pending s) (cs_findings s) =
        map (\<lambda>i. if i < n \<and> tr_state (rf_tm (hs ! i)) = TimePending
               then settle_finding carry (ts_lookback t) (cs_findings s ! i) else cs_findings s ! i) [0..<n]"
      unfolding n(4) using fold_settle_pending [of n "cs_findings s"] len by simp
    also have "\<dots> = as_findings (take n (map (settled src carry) hs))"
    proof (rule nth_equalityI)
      fix i assume "i < length (map (\<lambda>i. if i < n \<and> tr_state (rf_tm (hs ! i)) = TimePending
               then settle_finding carry (ts_lookback t) (cs_findings s ! i) else cs_findings s ! i) [0..<n])"
      then have "i < n" "i < length hs" using n(1) by auto
      then show "map (\<lambda>i. if i < n \<and> tr_state (rf_tm (hs ! i)) = TimePending
               then settle_finding carry (ts_lookback t) (cs_findings s ! i) else cs_findings s ! i) [0..<n] ! i =
          as_findings (take n (map (settled src carry) hs)) ! i"
        using settle_finding_move [of "hs ! i" carry t] not_pending_move [of "hs ! i" src carry]
        by (auto simp: n(3) Some as_findings_def)
    qed (use n(1) in simp)
    finally show ?thesis using Some by simp
  qed
  then show ?thesis
    using n by (auto simp: chunk_holds_def intro!: exI [of _ n])
qed

text \<open>A whole chunk is taken.\<close>

lemma take_chunk_ok:
  assumes "stored_ok m fs" and "chunk_holds (mg_cap m) (mg_full m) hs found n"
  shows "stored_ok (merger_take found n m) (fs @ map (renumber (mg_base m + 1)) hs)"
    and "mg_count (merger_take found n m) = mg_count m + int (length hs)"
proof -
  obtain k where k: "k \<le> length hs" "found = as_findings (take k hs)" "n = int (length hs)"
    "\<not> mg_full m \<longrightarrow> k = min (mg_cap m) (length hs)"
    using assms(2) by (auto simp: chunk_holds_def)
  have "mg_cap m \<le> length fs + k \<or> k = length hs"
    using k(4) assms(1) by (cases "mg_full m") (auto simp: stored_ok_def)
  from merger_take_ok [OF assms(1) this, of n] show "stored_ok (merger_take found n m) (fs @ map (renumber (mg_base m + 1)) hs)"
    "mg_count (merger_take found n m) = mg_count m + int (length hs)"
    by (simp_all add: k(2,3))
qed

section \<open>Two block walks that agree\<close>

lemma tape_block_sim: "tape.block_sim s b c \<longleftrightarrow> bw_open b = bw_open c \<and> (bw_open b \<longrightarrow> bw_st b = bw_st c)"
  by (auto simp: tape.block_sim_def block_alike_def)

lemma tape_adds [simp]: "tape.adds fs s = s @ fs"
  by (induction fs arbitrary: s) simp_all

lemma tape_step_sim:
  assumes "tape.block_sim [] b c" and "bw_joinedAt b < idx" and "bw_joinedAt c < idx"
  shows "snd (step_block cs p tt tape_ops l idx passed b []) = snd (step_block cs p tt tape_ops l idx passed c [])"
    and "tape.block_sim [] (fst (step_block cs p tt tape_ops l idx passed b []))
      (fst (step_block cs p tt tape_ops l idx passed c []))"
proof -
  have "bw_joinedAt b \<noteq> idx" "bw_joinedAt c \<noteq> idx" using assms(2,3) by auto
  from tape.step_block_sim [OF assms(1) this, of cs p tt l passed]
  show "snd (step_block cs p tt tape_ops l idx passed b []) = snd (step_block cs p tt tape_ops l idx passed c [])"
    "tape.block_sim [] (fst (step_block cs p tt tape_ops l idx passed b []))
      (fst (step_block cs p tt tape_ops l idx passed c []))"
    by (simp_all add: tape.sim_out_def tape_block_sim)
qed

text \<open>A block walk over lines, with the tape as its sink.\<close>

fun block_lines ::
  "compiled_sig \<Rightarrow> block_program \<Rightarrow> line list \<Rightarrow> int \<Rightarrow> time_tracker \<Rightarrow> block_walker
   \<Rightarrow> block_walker \<times> raw_finding list" where
  "block_lines sg p [] idx tt b = (b, [])"
| "block_lines sg p (l0 # ls) idx tt b =
     (case observe tt l0 of (l, tt') \<Rightarrow>
      case step_block (sg_env sg) p tt' tape_ops l idx (sg_gate sg (lview l)) b [] of (b', fs) \<Rightarrow>
      case block_lines sg p ls (idx + 1) tt' b' of (c, gs) \<Rightarrow> (c, fs @ gs))"

lemma ref_block_lines:
  assumes "sg_kind sg = KBlock p"
  shows "\<exists>tt' prev'. ref_lines sg ls idx (WBlock b, tt, prev) =
    ((WBlock (fst (block_lines sg p ls idx tt b)), tt', prev'), snd (block_lines sg p ls idx tt b))"
proof (induction ls arbitrary: idx b tt prev)
  case Nil
  then show ?case by simp
next
  case (Cons l0 ls)
  obtain l tt1 where o: "observe tt l0 = (l, tt1)" by force
  obtain b1 fs where s: "step_block (sg_env sg) p tt1 tape_ops l idx (sg_gate sg (lview l)) b [] = (b1, fs)" by force
  have "sig_line sg tt1 tape_ops l idx (ref_same sg prev l) (WBlock b) [] = (WBlock b1, fs)"
    by (simp add: sig_line_def assms s)
  moreover obtain tt' prev' where "ref_lines sg ls (idx + 1) (WBlock b1, tt1, Some (lview l, llength l)) =
      ((WBlock (fst (block_lines sg p ls (idx + 1) tt1 b1)), tt', prev'), snd (block_lines sg p ls (idx + 1) tt1 b1))"
    using Cons.IH by blast
  ultimately show ?case by (simp add: o s split: prod.split)
qed

lemma block_lines_sim:
  assumes "tape.block_sim [] b c" and "bw_joinedAt b < idx" and "bw_joinedAt c < idx"
  shows "snd (block_lines sg p ls idx tt b) = snd (block_lines sg p ls idx tt c) \<and>
    tape.block_sim [] (fst (block_lines sg p ls idx tt b)) (fst (block_lines sg p ls idx tt c))"
  using assms
proof (induction ls arbitrary: idx b c tt)
  case (Cons l0 ls)
  obtain l tt1 where o: "observe tt l0 = (l, tt1)" by force
  let ?b = "step_block (sg_env sg) p tt1 tape_ops l idx (sg_gate sg (lview l)) b []"
  let ?c = "step_block (sg_env sg) p tt1 tape_ops l idx (sg_gate sg (lview l)) c []"
  note st = tape_step_sim [OF Cons.prems, of "sg_env sg" p tt1 l "sg_gate sg (lview l)"]
  have "bw_joinedAt (fst ?b) < idx + 1" "bw_joinedAt (fst ?c) < idx + 1"
    using block_joined [OF Cons.prems(2)] block_joined [OF Cons.prems(3)] by (simp_all add: zless_add1_eq order_le_less)
  from Cons.IH [OF st(2) this, of tt1] show ?case
    using st(1) by (simp add: o case_prod_beta)
qed simp

section \<open>Where an open block began\<close>

definition begun_before :: "int \<Rightarrow> block_walker \<Rightarrow> bool" where
  "begun_before idx b \<longleftrightarrow> bw_joinedAt b < idx \<and> (bw_open b \<longrightarrow> st_startIdx (bw_st b) < idx)"

lemma start_close [simp]: "\<not> bw_open (fst (block_close cs p ops b s))"
  by (simp add: block_close_def Let_def)

lemma start_join [simp]: "st_startIdx (bw_st (block_join l idx b)) = st_startIdx (bw_st b)"
  "bw_open (block_join l idx b) = bw_open b"
  by (simp_all add: block_join_def Let_def)

lemma feed_start:
  "bw_open (fst (block_feed cs p ops l idx b s)) \<Longrightarrow>
    st_startIdx (bw_st (fst (block_feed cs p ops l idx b s))) = st_startIdx (bw_st b)"
  by (auto simp: block_feed_def feed_json_def block_abandon_def Let_def split: prod.splits option.splits if_splits)

lemma try_start:
  "\<not> bw_open b \<Longrightarrow> bw_open (fst (try_open cs p tt ops l idx b s)) \<Longrightarrow>
    st_startIdx (bw_st (fst (try_open cs p tt ops l idx b s))) = idx"
  by (auto simp: try_open_def try_open_json_def Let_def split: prod.splits option.splits if_splits)

text \<open>One line leaves the open block, or opens one there, from an idle walker.\<close>

lemma step_start:
  assumes "bw_open (fst (step_block cs p tt tape_ops l idx passed b []))"
  shows "(bw_open b \<and> st_startIdx (bw_st (fst (step_block cs p tt tape_ops l idx passed b []))) = st_startIdx (bw_st b)) \<or>
    (\<exists>b1. \<not> bw_open b1 \<and> bw_joinedAt b1 \<noteq> idx \<and> 
      fst (step_block cs p tt tape_ops l idx passed b []) = fst (try_open cs p tt tape_ops l idx b1 []) \<and>
      st_startIdx (bw_st (fst (step_block cs p tt tape_ops l idx passed b []))) = idx)"
proof -
  obtain b1 fs where f: "(if bw_open b then block_feed cs p tape_ops l idx b [] else (b, [])) = (b1, fs)"
    by force
  have step: "step_block cs p tt tape_ops l idx passed b [] =
      (if \<not> bw_open b1 \<and> bw_joinedAt b1 \<noteq> idx \<and> passed then try_open cs p tt tape_ops l idx b1 fs else (b1, fs))"
    by (simp add: step_block_def f)
  show ?thesis
  proof (cases "\<not> bw_open b1 \<and> bw_joinedAt b1 \<noteq> idx \<and> passed")
    case True
    then have "fst (step_block cs p tt tape_ops l idx passed b []) = fst (try_open cs p tt tape_ops l idx b1 [])"
      using step tape_try_open [of cs p tt l idx b1 fs] by simp
    moreover have "st_startIdx (bw_st (fst (step_block cs p tt tape_ops l idx passed b []))) = idx"
      using True step try_start [of b1 cs p tt tape_ops l idx fs] assms by simp
    ultimately show ?thesis using True by blast
  next
    case False
    then have "fst (step_block cs p tt tape_ops l idx passed b []) = b1" "bw_open b1"
      using step assms by auto
    moreover have "st_startIdx (bw_st b1) = st_startIdx (bw_st b)" "bw_open b"
      using f feed_start [of cs p tape_ops l idx b "[]"] \<open>bw_open b1\<close> by (auto split: if_splits)
    ultimately show ?thesis by simp
  qed
qed

lemma step_begun:
  assumes "begun_before idx b"
  shows "begun_before (idx + 1) (fst (step_block cs p tt tape_ops l idx passed b []))"
proof -
  have "bw_joinedAt (fst (step_block cs p tt tape_ops l idx passed b [])) < idx + 1"
    using block_joined [of b idx] assms by (simp add: begun_before_def zless_add1_eq order_le_less)
  then show ?thesis using step_start [of cs p tt l idx passed b] assms by (auto simp: begun_before_def)
qed

text \<open>
  Two walkers of one signature that were not in the same state before a line, and are after it,
  are alike: they opened the same block on that line, or are idle.
\<close>

lemma same_state_alike:
  assumes "begun_before idx b" and "begun_before idx c" and "\<not> same_state b c"
    and "same_state (fst (step_block cs p tt tape_ops l idx passed b []))
      (fst (step_block cs p tt tape_ops l idx passed c []))"
  shows "tape.block_sim [] (fst (step_block cs p tt tape_ops l idx passed b []))
      (fst (step_block cs p tt tape_ops l idx passed c []))"
proof -
  let ?b = "fst (step_block cs p tt tape_ops l idx passed b [])"
  let ?c = "fst (step_block cs p tt tape_ops l idx passed c [])"
  show ?thesis
  proof (cases "bw_open ?b")
    case False
    then show ?thesis using assms(4) by (auto simp: tape_block_sim same_state_def split: if_splits)
  next
    case True
    then have c: "bw_open ?c" "st_startIdx (bw_st ?b) = st_startIdx (bw_st ?c)"
      using assms(4) by (auto simp: same_state_def split: if_splits)
    note sb = step_start [OF True] and sc = step_start [OF c(1)]
    have "\<not> (bw_open b \<and> bw_open c \<and> st_startIdx (bw_st b) = st_startIdx (bw_st c))"
      using assms(3) by (auto simp: same_state_def)
    then obtain b1 c1 where "\<not> bw_open b1" "bw_joinedAt b1 \<noteq> idx" "?b = fst (try_open cs p tt tape_ops l idx b1 [])"
      "\<not> bw_open c1" "bw_joinedAt c1 \<noteq> idx" "?c = fst (try_open cs p tt tape_ops l idx c1 [])"
      using sb sc c(2) assms(1,2) by (auto simp: begun_before_def)
    moreover have "tape.block_sim [] b1 c1" using calculation by (simp add: tape_block_sim)
    ultimately show ?thesis
      using tape.try_open_sim [of "[]" b1 c1 idx cs p tt l] by (simp add: tape.sim_out_def tape_block_sim)
  qed
qed

end
