(* ===== verification/ScanReplay.thy ===== *)
theory ScanReplay
  imports ScanMerge
begin

text \<open>
  The second walk of a chunk that a block enters (\<^verbatim>\<open>replayBlocks\<close>, \<^verbatim>\<open>converge\<close>): the merger ends
  with the findings of the true walk, whether the two walks agree inside the chunk or never do.
\<close>

definition closing :: "compiled_sig \<Rightarrow> block_program \<Rightarrow> block_walker \<Rightarrow> raw_finding list" where
  "closing sg p b = (if bw_open b then snd (block_close (sg_env sg) p tape_ops b []) else [])"

text \<open>What a replay leaves alone.\<close>

definition frame :: "merger \<Rightarrow> merger \<Rightarrow> bool" where
  "frame m m' \<longleftrightarrow> mg_cap m' = mg_cap m \<and> mg_base m' = mg_base m \<and> mg_lastStamp m' = mg_lastStamp m \<and>
     mg_lastView m' = mg_lastView m \<and> mg_lastLen m' = mg_lastLen m \<and> mg_hasRun m' = mg_hasRun m \<and>
     mg_run m' = mg_run m"

lemma frame_refl [simp]: "frame m m" by (simp add: frame_def)
lemma frame_trans: "frame m m' \<Longrightarrow> frame m' m'' \<Longrightarrow> frame m m''" by (simp add: frame_def)
lemma frame_absorb [simp]: "frame m (absorb gs k c m)" by (simp add: frame_def)
lemma frame_take [simp]: "frame m (merger_take fs c m)" by (simp add: frame_def)
lemma frame_carry [simp]: "frame m (m\<lparr>mg_carry := c\<rparr>)" "frame m (m\<lparr>mg_count := n, mg_carry := c\<rparr>)"
  by (simp_all add: frame_def)

lemma stored_ok_upd [simp]:
  "stored_ok (m\<lparr>mg_carry := c\<rparr>) fs = stored_ok m fs" "stored_ok (m\<lparr>mg_count := n\<rparr>) fs = stored_ok m fs"
  "stored_ok (m\<lparr>mg_count := n, mg_carry := c\<rparr>) fs = stored_ok m fs"
  by (simp_all add: stored_ok_def)

lemma stored_ok_more: "stored_ok m fs \<Longrightarrow> mg_cap m \<le> length fs \<Longrightarrow> stored_ok m (fs @ gs)"
  by (auto simp: stored_ok_def)

lemma store_sink_may: "op_mayStore merge_ops (store_sink m k c) \<longleftrightarrow> length (mg_stored m) < mg_cap m"
  by (simp add: merge_ops_def merge_storing_def store_sink_def)

lemma stored_ok_may: "stored_ok m fs \<Longrightarrow> op_mayStore merge_ops (store_sink m k c) \<longleftrightarrow> length fs < mg_cap m"
  by (auto simp: store_sink_may stored_ok_def min_def)

lemma absorb_may:
  assumes "stored_ok m fs" and "op_mayStore merge_ops (store_sink (absorb gs k c m) k' c')"
  shows "op_mayStore merge_ops (merging.adds gs (store_sink m k c))"
proof -
  have "sink_ok (mg_cap m) fs (store_sink m k c)"
    using assms(1) by (simp add: sink_ok_def stored_ok_def store_sink_def)
  from sink_ok_adds [OF this, of gs] have "ms_cap (merging.adds gs (store_sink m k c)) = mg_cap m"
    by (simp add: sink_ok_def)
  then show ?thesis
    using assms(2) by (simp add: absorb_def put_sink_def store_sink_may) (simp add: merge_ops_def merge_storing_def)
qed

text \<open>One line of the true walk into the merger.\<close>

lemma truth_step:
  assumes ok: "stored_ok m fs" and sim: "merging.block_sim (store_sink m k c) truth t"
    and j: "bw_joinedAt truth < idx" "bw_joinedAt t < idx"
    and t: "step_block cs p tt tape_ops l idx passed t [] = (t1, gs)"
  obtains truth1 where "step_block cs p tt merge_ops l idx passed truth (store_sink m k c) =
      (truth1, merging.adds gs (store_sink m k c))"
    and "put_sink (merging.adds gs (store_sink m k c)) m = absorb gs k c m"
    and "merging.block_sim (store_sink (absorb gs k c m) k' c') truth1 t1"
    and "bw_joinedAt truth1 < idx + 1" and "bw_joinedAt t1 < idx + 1"
proof -
  have "bw_joinedAt truth \<noteq> idx" "bw_joinedAt t \<noteq> idx" using j by auto
  from merging.step_block_sim [OF sim this, of cs p tt l passed] t
  have out: "snd (step_block cs p tt merge_ops l idx passed truth (store_sink m k c)) = merging.adds gs (store_sink m k c)"
    "merging.block_sim (merging.adds gs (store_sink m k c))
      (fst (step_block cs p tt merge_ops l idx passed truth (store_sink m k c))) t1"
    by (simp_all add: merging.sim_out_def)
  show thesis
  proof (rule that)
    show "step_block cs p tt merge_ops l idx passed truth (store_sink m k c) =
        (fst (step_block cs p tt merge_ops l idx passed truth (store_sink m k c)), merging.adds gs (store_sink m k c))"
      using out(1) by (metis prod.collapse)
    show "merging.block_sim (store_sink (absorb gs k c m) k' c')
        (fst (step_block cs p tt merge_ops l idx passed truth (store_sink m k c))) t1"
      using merging.block_sim_mono [OF out(2) absorb_may [OF ok]] by blast
    show "bw_joinedAt (fst (step_block cs p tt merge_ops l idx passed truth (store_sink m k c))) < idx + 1"
      "bw_joinedAt t1 < idx + 1"
      using block_joined [OF j(1)] block_joined [OF j(2), of cs p tt tape_ops l passed "[]"] t
      by (simp_all add: zless_add1_eq order_le_less)
  qed (simp add: absorb_def)
qed

lemma truth_close:
  assumes ok: "stored_ok m fs" and sim: "merging.block_sim (store_sink m k c) truth t"
  shows "put_sink (snd (finish_at_end (sg_env sg) p merge_ops truth (store_sink m k c))) m =
    absorb (closing sg p t) k c m"
proof (cases "bw_open truth")
  case True
  then have "bw_open t" using sim by (simp add: merging.block_sim_def block_alike_def)
  with merging.block_close_sim [OF sim True, of "bw_joinedAt truth"] True show ?thesis
    using merging.block_close_sim [of "store_sink m k c" truth "t\<lparr>bw_joinedAt := bw_joinedAt truth\<rparr>" 0 "sg_env sg" p] sim
    by (simp add: finish_at_end_def closing_def absorb_def merging.sim_out_def merging.block_sim_def
        block_alike_def block_close_def Let_def)
next
  case False
  then have "\<not> bw_open t" using sim by (simp add: merging.block_sim_def block_alike_def)
  then show ?thesis using False by (simp add: finish_at_end_def closing_def absorb_def)
qed

lemma block_lines_Cons:
  assumes "observe tt l0 = (l, tt')"
    and "step_block (sg_env sg) p tt' tape_ops l idx (sg_gate sg (lview l)) b [] = (b', fs)"
  shows "block_lines sg p (l0 # ls) idx tt b =
    (fst (block_lines sg p ls (idx + 1) tt' b'), fs @ snd (block_lines sg p ls (idx + 1) tt' b'))"
  using assms by (simp add: case_prod_beta)

section \<open>After the walks agree\<close>

lemma replay_extend:
  assumes "stored_ok m fs" and "merging.block_sim (store_sink m (mg_base m + 1) False) (ry_truth ry) t"
    and "bw_joinedAt (ry_truth ry) < idx" and "bw_joinedAt t < idx"
    and "ry_extend ry" and "\<not> ry_counts ry" and "\<not> ry_done ry"
    and "block_lines sg p ls idx tt t = (t', gs)"
  shows "\<exists>m'. replay_end sg p res (replay_lines sg p res tt ls idx ry m) = m' \<and> frame m m' \<and>
    mg_carry m' = mg_carry m \<and> mg_count m' = mg_count m \<and>
    stored_ok m' (fs @ map (renumber (mg_base m + 1)) (gs @ (if cr_final res then closing sg p t' else [])))"
  using assms
proof (induction ls arbitrary: idx tt ry m fs t gs)
  case Nil
  have "stored_ok (absorb (closing sg p t') (mg_base m + 1) False m)
      (fs @ map (renumber (mg_base m + 1)) (closing sg p t'))"
    using absorb_ok(1) [OF Nil.prems(1)] .
  then show ?case
    using Nil.prems truth_close [OF Nil.prems(1,2), of sg p] absorb_ok(2) [OF Nil.prems(1), of "closing sg p t'"]
    by (auto simp: replay_end_def)
next
  case (Cons l0 ls)
  let ?k = "mg_base m + 1"
  obtain l tt1 where o: "observe tt l0 = (l, tt1)" by force
  obtain t1 gs1 where s: "step_block (sg_env sg) p tt1 tape_ops l idx (sg_gate sg (lview l)) t [] = (t1, gs1)"
    by force
  obtain gs2 where g: "block_lines sg p ls (idx + 1) tt1 t1 = (t', gs2)" "gs = gs1 @ gs2"
    using Cons.prems(8) block_lines_Cons [OF o s] by (metis prod.collapse prod.inject)
  obtain truth1 where tr: "step_block (sg_env sg) p tt1 merge_ops l idx (sg_gate sg (lview l)) (ry_truth ry)
        (store_sink m ?k False) = (truth1, merging.adds gs1 (store_sink m ?k False))"
    "put_sink (merging.adds gs1 (store_sink m ?k False)) m = absorb gs1 ?k False m"
    "merging.block_sim (store_sink (absorb gs1 ?k False m) ?k False) truth1 t1"
    "bw_joinedAt truth1 < idx + 1" "bw_joinedAt t1 < idx + 1"
    using truth_step [OF Cons.prems(1-4) s] by blast
  let ?m1 = "absorb gs1 ?k False m" and ?ry1 = "ry\<lparr>ry_truth := truth1\<rparr>"
  note ok1 = absorb_ok [OF Cons.prems(1), of gs1 ?k False]
  have cnt: "ry_counts ry = False" using Cons.prems(6) by simp
  have step: "replay_step sg p res tt1 l idx ry m =
      (if length (mg_stored ?m1) < mg_cap m then (?ry1, ?m1) else (?ry1\<lparr>ry_done := True\<rparr>, ?m1))"
    using Cons.prems(5) unfolding replay_step_def Let_def cnt tr(1) prod.case tr(2)
    by (simp add: merge_storing_def) (simp add: store_sink_def)
  show ?case
  proof (cases "length (mg_stored ?m1) < mg_cap m")
    case True
    obtain m' where m': "replay_end sg p res (replay_lines sg p res tt1 ls (idx + 1) ?ry1 ?m1) = m'" "frame ?m1 m'"
      "mg_carry m' = mg_carry m" "mg_count m' = mg_count m"
      "stored_ok m' ((fs @ map (renumber ?k) gs1) @ map (renumber ?k) (gs2 @ (if cr_final res then closing sg p t' else [])))"
      using Cons.IH [OF ok1(1), of ?ry1 t1 "idx + 1" tt1 gs2] tr(3-5) Cons.prems(5-7) g(1) ok1(2) by auto
    have "frame m m'" using frame_trans [OF frame_absorb m'(2)] .
    then show ?thesis
      using m' step True Cons.prems(7) g(2) by (simp add: o)
  next
    case False
    then have "mg_cap m \<le> length (fs @ map (renumber ?k) gs1)"
      using ok1(1) by (simp add: stored_ok_def)
    then have "stored_ok ?m1 ((fs @ map (renumber ?k) gs1) @ map (renumber ?k) (gs2 @ (if cr_final res then closing sg p t' else [])))"
      using stored_ok_more [OF ok1(1)] by simp
    then show ?thesis
      using step False ok1(2) g(2) by (simp add: o replay_end_def)
  qed
qed

section \<open>Until they agree\<close>

text \<open>
  The end of a replay, whatever way it went: \<open>gs\<close> are the findings of the true walk on the chunk,
  \<open>t'\<close> its walker after the last line.
\<close>

definition replay_result ::
  "compiled_sig \<Rightarrow> block_program \<Rightarrow> chunk_result \<Rightarrow> merger \<Rightarrow> raw_finding list \<Rightarrow> block_walker
   \<Rightarrow> raw_finding list \<Rightarrow> merger \<Rightarrow> bool" where
  "replay_result sg p res m fs t' gs m' \<longleftrightarrow>
     (let all = fs @ map (renumber (mg_base m + 1)) (gs @ (if cr_final res then closing sg p t' else []))
      in frame m m' \<and> stored_ok m' all \<and> mg_count m' = int (length all) \<and>
         (if cr_final res \<or> \<not> bw_open t' then mg_carry m' = None
          else \<exists>st. mg_carry m' = carried (Some st) (cr_lines res) \<and> block_key st = block_key (bw_st t') \<and>
                 (length all < mg_cap m \<longrightarrow> st = bw_st t')))"

text \<open>What the chunk reported of its own walk, whose findings on its lines are \<open>ds\<close>.\<close>

definition own_result ::
  "compiled_sig \<Rightarrow> block_program \<Rightarrow> chunk_result \<Rightarrow> merger \<Rightarrow> block_walker \<Rightarrow> raw_finding list \<Rightarrow> bool" where
  "own_result sg p res m own' ds \<longleftrightarrow>
     (let hs = ds @ (if cr_final res then closing sg p own' else [])
      in chunk_holds (mg_cap m) (mg_full m) hs (cr_findings res) (cr_count res) \<and>
         (if cr_final res \<or> \<not> bw_open own' then cr_open res = None
          else \<exists>st. cr_open res = Some st \<and> block_key st = block_key (bw_st own') \<and>
                 (\<not> mg_full m \<longrightarrow> st = bw_st own')))"

lemma chunk_holds_mono:
  "chunk_holds cap a hs found n \<Longrightarrow> (a \<longrightarrow> b) \<Longrightarrow> chunk_holds cap b hs found n"
  by (auto simp: chunk_holds_def)

lemma drop_rest:
  assumes "found = as_findings (take n (ds @ ks))"
  shows "(if int (length ds) < int (length found) then drop (nat (int (length ds))) found else []) =
    as_findings (take (n - length ds) ks)"
proof (cases "n \<le> length ds \<or> ks = []")
  case True
  then show ?thesis using assms by auto
next
  case False
  then have "length ds < length found" using assms by simp
  then show ?thesis using assms False by simp
qed

lemma replay_converged:
  assumes ok: "stored_ok m fs" and cnt: "mg_count m = int (length fs)"
    and own: "own_result sg p res m0 own' (ds @ ks)" and m0: "mg_cap m0 = mg_cap m" "mg_full m0 \<longrightarrow> mg_full m"
    and t: "tape.block_sim [] t1 o1" "block_lines sg p ls idx tt t1 = (t', ks)"
      "tape.block_sim [] t' own'"
    and truth: "merging.block_sim (store_sink m (mg_base m + 1) False) truth1 t1"
      "bw_joinedAt truth1 < idx" "bw_joinedAt t1 < idx"
    and ry: "ry_own_n ry = int (length ds)" "ry_truth ry = truth1" "\<not> ry_extend ry" "\<not> ry_done ry"
  shows "\<exists>ry3 m3. converge res ry m = (ry3, m3) \<and>
    (let out = (if ry_extend ry3 \<and> \<not> merge_storing (store_sink m3 (mg_base m3 + 1) (ry_counts ry3))
                then (ry3\<lparr>ry_done := True\<rparr>, m3) else (ry3, m3))
     in replay_result sg p res m fs t' ks
          (replay_end sg p res (if ry_done (fst out) then out
             else replay_lines sg p res tt ls idx (fst out) (snd out))))"
proof -
  let ?k = "mg_base m + 1"
  let ?cl = "if cr_final res then closing sg p own' else []"
  have cl: "closing sg p t' = closing sg p own'"
    using t(3) by (auto simp: tape_block_sim closing_def block_close_def Let_def)
  define all where "all = fs @ map (renumber ?k) (ks @ ?cl)"
  obtain n where n: "cr_findings res = as_findings (take n (ds @ ks @ ?cl))" "n \<le> length (ds @ ks @ ?cl)"
    "cr_count res = int (length (ds @ ks @ ?cl))" "\<not> mg_full m0 \<longrightarrow> n = min (mg_cap m) (length (ds @ ks @ ?cl))"
    using own m0(1) by (auto simp: own_result_def chunk_holds_def Let_def)
  define m1 where "m1 = m\<lparr>mg_count := mg_count m + (cr_count res - int (length ds)), mg_carry := carried (cr_open res) (cr_lines res)\<rparr>"
  define rest where "rest = as_findings (take (n - length ds) (ks @ ?cl))"
  have m1: "stored_ok m1 fs" "mg_count m1 = int (length all)" "mg_cap m1 = mg_cap m" "mg_base m1 = mg_base m" "frame m m1"
    "mg_stored m1 = mg_stored m"
    using ok cnt n(3) by (simp_all add: m1_def all_def)
  have carry: "if cr_final res \<or> \<not> bw_open t' then mg_carry m1 = None
      else \<exists>st. mg_carry m1 = carried (Some st) (cr_lines res) \<and> block_key st = block_key (bw_st t') \<and>
        (length all < mg_cap m \<longrightarrow> st = bw_st t')"
  proof -
    have "\<not> mg_full m0" if "length all < mg_cap m"
      using that ok m0(2) by (auto simp: all_def stored_ok_def)
    then show ?thesis
      using own t(3) by (auto simp: own_result_def m1_def carried_def tape_block_sim Let_def split: if_splits)
  qed
  have res: "replay_result sg p res m fs t' ks m'"
    if "frame m m'" "stored_ok m' all" "mg_count m' = mg_count m1" "mg_carry m' = mg_carry m1" for m'
    using that m1(2) carry unfolding replay_result_def cl Let_def all_def [symmetric] by simp
  have drp: "(if ry_own_n ry < int (length (cr_findings res)) then drop (nat (ry_own_n ry)) (cr_findings res) else []) = rest"
    using drop_rest [OF n(1)] by (simp only: rest_def ry(1))
  let ?stop = "int (mg_cap m) - int (length (mg_stored m)) \<le> 0 \<or> \<not> cr_count res > int (length (cr_findings res)) \<or>
    int (length rest) \<ge> int (mg_cap m) - int (length (mg_stored m))"
  have conv: "converge res ry m = (if ?stop then (ry\<lparr>ry_done := True\<rparr>, merger_take rest 0 m1)
      else (ry\<lparr>ry_extend := True, ry_counts := False\<rparr>, m1))"
    unfolding converge_def Let_def drp unfolding ry(1) m1_def [symmetric] using m1(3,6) by simp
  show ?thesis
  proof (cases ?stop)
    case True
    have len: "length (mg_stored m) = min (mg_cap m) (length fs)" "length rest = min (n - length ds) (length (ks @ ?cl))"
      using ok by (simp_all add: stored_ok_def rest_def)
    have "mg_cap m1 \<le> length fs + (n - length ds) \<or> n - length ds = length (ks @ ?cl)"
      using True n(2,3) len m1(3) by (auto simp: n(1) min_def split: if_splits)
    from merger_take_ok [OF m1(1) this, of 0] have
      "stored_ok (merger_take rest 0 m1) all" "mg_count (merger_take rest 0 m1) = mg_count m1"
      by (simp_all add: rest_def all_def m1(4))
    moreover have "frame m (merger_take rest 0 m1)" using frame_trans [OF m1(5) frame_take] .
    ultimately have "replay_result sg p res m fs t' ks (merger_take rest 0 m1)" by (intro res) simp_all
    then show ?thesis using True by (simp add: conv replay_end_def ry(3))
  next
    case False
    let ?ry = "ry\<lparr>ry_extend := True, ry_counts := False\<rparr>"
    have sto: "merge_storing (store_sink m1 (mg_base m1 + 1) (ry_counts ?ry))"
      using False m1(3,6) by (simp add: merge_storing_def store_sink_def)
    have sim: "merging.block_sim (store_sink m1 (mg_base m1 + 1) False) (ry_truth ?ry) t1"
      using merging.block_sim_mono [OF truth(1), of "store_sink m1 (mg_base m1 + 1) False"] m1(3,6) ry(2)
      by (simp add: store_sink_may)
    obtain m' where "replay_end sg p res (replay_lines sg p res tt ls idx ?ry m1) = m'" "frame m1 m'"
      "mg_carry m' = mg_carry m1" "mg_count m' = mg_count m1"
      "stored_ok m' (fs @ map (renumber (mg_base m1 + 1)) (ks @ (if cr_final res then closing sg p t' else [])))"
      using replay_extend [OF m1(1) sim _ truth(3) _ _ _ t(2), of res] truth(2) ry(2,4) by auto
    moreover have "frame m m'" using frame_trans [OF m1(5) calculation(2)] .
    ultimately have "replay_result sg p res m fs t' ks m'"
      by (intro res) (simp_all add: all_def cl m1(4) split: if_splits)
    then show ?thesis
      using False sto \<open>replay_end sg p res (replay_lines sg p res tt ls idx ?ry m1) = m'\<close> ry(4)
      by (simp add: conv)
  qed
qed

lemma count_sel [simp]: "\<not> op_mayStore count_ops n" "op_add count_ops n f = n + 1"
  by (simp_all add: count_ops_def)

lemma counting_adds: "counting.adds fs n = n + int (length fs)"
  by (induction fs arbitrary: n) simp_all

lemma counting_sim: "counting.block_sim n b c \<longleftrightarrow> block_alike b c"
  by (simp add: counting.block_sim_def)

lemma absorb_full: "mg_full m \<Longrightarrow> mg_full (absorb gs k c m)"
proof -
  have "ms_full s \<Longrightarrow> ms_full (merging.adds gs s)" for s
  proof (induction gs arbitrary: s)
    case (Cons g gs)
    have "ms_full (op_add merge_ops s g)"
      using Cons.prems by (simp add: merge_ops_def merge_add_def note_full_def Let_def)
    then show ?case using Cons.IH by simp
  qed simp
  then show "mg_full m \<Longrightarrow> ?thesis" by (simp add: absorb_def put_sink_def store_sink_def)
qed

lemma same_state_alike_eq:
  assumes "block_alike b b'" and "block_alike c c'"
  shows "same_state b c \<longleftrightarrow> same_state b' c'"
  using assms by (auto simp: block_alike_def same_state_def block_key_def)

lemma replay_result_step:
  assumes "replay_result sg p res (absorb gs (mg_base m + 1) True m)
      (fs @ map (renumber (mg_base m + 1)) gs) t' hs m'"
  shows "replay_result sg p res m fs t' (gs @ hs) m'"
  using assms frame_trans [OF frame_absorb] unfolding replay_result_def Let_def by auto

lemma replay_main:
  assumes ok: "stored_ok m fs" and cnt: "mg_count m = int (length fs)" and carry: "mg_carry m = None"
    and truth: "merging.block_sim (store_sink m (mg_base m + 1) True) (ry_truth ry) t"
      "bw_joinedAt (ry_truth ry) < idx" "begun_before idx t" "block_lines sg p ls idx tt t = (t', gs)"
    and own: "block_alike (ry_own ry) o1" "bw_joinedAt (ry_own ry) < idx" "begun_before idx o1"
      "block_lines sg p ls idx tt o1 = (own', ks)" "ry_own_n ry = int (length ds)"
    and differ: "\<not> same_state t o1"
    and res: "own_result sg p res m0 own' (ds @ ks)" "mg_cap m0 = mg_cap m" "mg_full m0 \<longrightarrow> mg_full m"
    and flags: "ry_counts ry" "\<not> ry_extend ry" "\<not> ry_done ry"
  shows "replay_result sg p res m fs t' gs (replay_end sg p res (replay_lines sg p res tt ls idx ry m))"
  using assms
proof (induction ls arbitrary: idx tt ry m fs t gs o1 ds ks)
  case Nil
  let ?k = "mg_base m + 1"
  have eq: "t' = t" "gs = []" using Nil.prems(7) by simp_all
  have cnt: "ry_counts ry = True" using Nil.prems(17) by simp
  note cl = truth_close [OF Nil.prems(1,4), of sg p]
  note ok1 = absorb_ok [OF Nil.prems(1), of "closing sg p t" ?k True]
  have alike: "block_alike (ry_truth ry) t" and
    st: "length fs < mg_cap m \<Longrightarrow> bw_open t \<Longrightarrow> bw_st (ry_truth ry) = bw_st t"
    using Nil.prems(4) stored_ok_may [OF Nil.prems(1)] by (auto simp: merging.block_sim_def block_alike_def)
  show ?case
  proof (cases "cr_final res")
    case True
    then have "replay_end sg p res (ry, m) = absorb (closing sg p t) ?k True m"
      using cl Nil.prems(19) by (simp add: replay_end_def cnt)
    then show ?thesis using True ok1 Nil.prems(2,3) by (simp add: replay_result_def eq)
  next
    case False
    have "replay_end sg p res (ry, m) =
        (if bw_open t then m\<lparr>mg_carry := carried (Some (bw_st (ry_truth ry))) (cr_lines res)\<rparr> else m)"
      using False Nil.prems(18,19) alike by (simp add: replay_end_def block_alike_def)
    then show ?thesis
      using False Nil.prems(1-3) alike st by (auto simp: replay_result_def eq block_alike_def)
  qed
next
  case (Cons l0 ls)
  let ?k = "mg_base m + 1"
  obtain l tt1 where o: "observe tt l0 = (l, tt1)" by force
  let ?gate = "sg_gate sg (lview l)"
  obtain t1 gs1 where s: "step_block (sg_env sg) p tt1 tape_ops l idx ?gate t [] = (t1, gs1)" by force
  obtain u1 ks1 where u: "step_block (sg_env sg) p tt1 tape_ops l idx ?gate o1 [] = (u1, ks1)" by force
  obtain gs2 where g: "block_lines sg p ls (idx + 1) tt1 t1 = (t', gs2)" "gs = gs1 @ gs2"
    using Cons.prems(7) block_lines_Cons [OF o s] by (metis prod.collapse prod.inject)
  obtain ks2 where k: "block_lines sg p ls (idx + 1) tt1 u1 = (own', ks2)" "ks = ks1 @ ks2"
    using Cons.prems(11) block_lines_Cons [OF o u] by (metis prod.collapse prod.inject)
  have jt: "bw_joinedAt t < idx" "bw_joinedAt o1 < idx" using Cons.prems(6,10) by (simp_all add: begun_before_def)
  obtain truth1 where tr: "step_block (sg_env sg) p tt1 merge_ops l idx ?gate (ry_truth ry)
        (store_sink m ?k True) = (truth1, merging.adds gs1 (store_sink m ?k True))"
    "put_sink (merging.adds gs1 (store_sink m ?k True)) m = absorb gs1 ?k True m"
    "\<And>c. merging.block_sim (store_sink (absorb gs1 ?k True m) ?k c) truth1 t1"
    "bw_joinedAt truth1 < idx + 1" "bw_joinedAt t1 < idx + 1"
  proof -
    note ts = truth_step [OF Cons.prems(1,4,5) jt(1) s]
    from ts [of ?k True] ts [of ?k False] that show thesis by (smt (verit) Pair_inject)
  qed
  have "bw_joinedAt (ry_own ry) \<noteq> idx" "bw_joinedAt o1 \<noteq> idx" using Cons.prems(9) jt by auto
  from counting.step_block_sim [OF Cons.prems(8) [folded counting_sim [of "ry_own_n ry"]] this, of "sg_env sg" p tt1 l ?gate]
  obtain own1 where ow: "step_block (sg_env sg) p tt1 count_ops l idx ?gate (ry_own ry) (ry_own_n ry) =
      (own1, int (length (ds @ ks1)))" "block_alike own1 u1"
    using Cons.prems(12) u by (cases "step_block (sg_env sg) p tt1 count_ops l idx ?gate (ry_own ry) (ry_own_n ry)")
      (auto simp: counting.sim_out_def counting_adds counting_sim)
  have jo: "bw_joinedAt own1 < idx + 1"
    using block_joined [OF Cons.prems(9), of "sg_env sg" p tt1 count_ops l ?gate "ry_own_n ry"] ow(1) by simp
  have bg: "begun_before (idx + 1) t1" "begun_before (idx + 1) u1"
    using step_begun [OF Cons.prems(6), of "sg_env sg" p tt1 l ?gate] s
      step_begun [OF Cons.prems(10), of "sg_env sg" p tt1 l ?gate] u by simp_all
  let ?m1 = "absorb gs1 ?k True m"
  let ?ry2 = "ry\<lparr>ry_truth := truth1, ry_own := own1, ry_own_n := int (length (ds @ ks1))\<rparr>"
  note ok1 = absorb_ok [OF Cons.prems(1), of gs1 ?k True]
  have cnt1: "mg_count ?m1 = int (length (fs @ map (renumber ?k) gs1))" using ok1(2) Cons.prems(2) by simp
  have alike: "block_alike truth1 t1" using tr(3) by (simp add: merging.block_sim_def)
  have same: "same_state truth1 own1 \<longleftrightarrow> same_state t1 u1" by (rule same_state_alike_eq [OF alike ow(2)])
  have cnt: "ry_counts ry = True" using Cons.prems(17) by simp
  have full: "mg_full m0 \<longrightarrow> mg_full ?m1" using Cons.prems(16) absorb_full by blast
  have step: "replay_step sg p res tt1 l idx ry m =
      (case (if same_state t1 u1 then converge res ?ry2 ?m1 else (?ry2, ?m1)) of
         (ry3, m3) \<Rightarrow> if ry_extend ry3 \<and> \<not> merge_storing (store_sink m3 (mg_base m3 + 1) (ry_counts ry3))
           then (ry3\<lparr>ry_done := True\<rparr>, m3) else (ry3, m3))"
    using Cons.prems(18) ow(1) unfolding replay_step_def Let_def cnt tr(1) prod.case tr(2)
    by (simp add: same)
  show ?case
  proof (cases "same_state t1 u1")
    case False
    have "replay_result sg p res ?m1 (fs @ map (renumber ?k) gs1) t' gs2
        (replay_end sg p res (replay_lines sg p res tt1 ls (idx + 1) ?ry2 ?m1))"
      by (rule Cons.IH [where ?o1.0 = u1 and ds = "ds @ ks1" and ks = ks2 and t = t1])
        (use ok1 cnt1 tr(3-5) ow(2) jo bg g(1) k False Cons.prems full in auto)
    then show ?thesis
      using step False Cons.prems(18,19) replay_result_step g(2) by (simp add: o)
  next
    case True
    have sim: "tape.block_sim [] t1 u1"
      using same_state_alike [OF Cons.prems(6,10,13), of "sg_env sg" p tt1 l ?gate] True s u by simp
    have ends: "tape.block_sim [] t' own'" "gs2 = ks2"
      using block_lines_sim [OF sim, of "idx + 1" sg p ls tt1] bg g(1) k(1) by (auto simp: begun_before_def)
    have "own_result sg p res m0 own' ((ds @ ks1) @ gs2)" using Cons.prems(14) k(2) ends(2) by simp
    have "\<exists>ry3 m3. converge res ?ry2 ?m1 = (ry3, m3) \<and>
      (let out = (if ry_extend ry3 \<and> \<not> merge_storing (store_sink m3 (mg_base m3 + 1) (ry_counts ry3))
                then (ry3\<lparr>ry_done := True\<rparr>, m3) else (ry3, m3))
        in replay_result sg p res ?m1 (fs @ map (renumber ?k) gs1) t' gs2
          (replay_end sg p res (if ry_done (fst out) then out
             else replay_lines sg p res tt1 ls (idx + 1) (fst out) (snd out))))"
      by (rule replay_converged [OF ok1(1) cnt1 \<open>own_result sg p res m0 own' ((ds @ ks1) @ gs2)\<close> _ _ sim g(1) ends(1) _ tr(4,5)])
        (use Cons.prems(15,18,19) full tr(3) in simp_all)
    then obtain ry3 m3 where conv: "converge res ?ry2 ?m1 = (ry3, m3)"
      "(let out = (if ry_extend ry3 \<and> \<not> merge_storing (store_sink m3 (mg_base m3 + 1) (ry_counts ry3))
                then (ry3\<lparr>ry_done := True\<rparr>, m3) else (ry3, m3))
        in replay_result sg p res ?m1 (fs @ map (renumber ?k) gs1) t' gs2
          (replay_end sg p res (if ry_done (fst out) then out
             else replay_lines sg p res tt1 ls (idx + 1) (fst out) (snd out))))"
      by blast
    then show ?thesis
      using step True replay_result_step g(2) by (auto simp: o Let_def split: if_splits)
  qed
qed

end
