(* ===== verification/ScanBlocks.thy ===== *)
theory ScanBlocks
  imports ScanReplay
begin

text \<open>
  One chunk of a scan, for every kind of signature but runs: what the merger holds after it is what
  the reference walk has found after the chunk's lines.
\<close>

section \<open>Trackers along the lines\<close>

definition track :: "line list \<Rightarrow> time_tracker \<Rightarrow> time_tracker" where
  "track ls tt = fold (\<lambda>l t. snd (observe t l)) ls tt"

lemma ref_lines_track:
  "ref_lines sg ls idx (w, tt, prev) = ((w', tt', prev'), fs) \<Longrightarrow> tt' = track ls tt"
proof (induction ls arbitrary: idx w tt prev fs)
  case Nil
  then show ?case by (simp add: track_def)
next
  case (Cons l0 ls)
  obtain l tt1 where o: "observe tt l0 = (l, tt1)" by force
  then show ?case using Cons by (auto simp: track_def split: prod.splits)
qed

lemma related_track:
  "related_of src carry own tru \<Longrightarrow> related_of src carry (track ls own) (track ls tru)"
  by (induction ls arbitrary: own tru) (simp_all add: track_def chunked.related_observe)

lemma track_src [simp]: "tt_src (track ls tt) = tt_src tt"
  by (induction ls arbitrary: tt) (simp_all add: track_def)

definition chunk_tracker :: "time_source option \<Rightarrow> time_tracker" where
  "chunk_tracker src = \<lparr>tt_src = src, tt_last = no_stamp, tt_settled = False\<rparr>"

definition true_tracker :: "time_source option \<Rightarrow> stamp_ref \<Rightarrow> time_tracker" where
  "true_tracker src stamp = \<lparr>tt_src = src, tt_last = stamp, tt_settled = True\<rparr>"

lemma related_start: "related_of src stamp (chunk_tracker src) (true_tracker src stamp)"
  by (simp add: related_of_def tracks_def chunk_tracker_def true_tracker_def no_stamp_def)

text \<open>The last stamp after a chunk is the chunk's own, or else the one carried into it.\<close>

lemma track_true:
  "track ls (true_tracker src stamp) = true_tracker src
    (if sr_ok (tt_last (track ls (chunk_tracker src))) then tt_last (track ls (chunk_tracker src)) else stamp)"
  using related_track [OF related_start, of src stamp ls]
  by (auto simp: related_of_def tracks_def true_tracker_def intro: time_tracker.equality)

section \<open>Moved walks over lines\<close>

context moved_walk
begin

lemma moved_block_lines:
  "related own tru \<Longrightarrow> block_lines sg p ls (idx + k) tru (move_walker k b) =
    (move_walker k (fst (block_lines sg p ls idx own b)), map (move k) (snd (block_lines sg p ls idx own b)))"
proof (induction ls arbitrary: idx own tru b)
  case (Cons l0 ls)
  obtain l own1 where o: "observe own l0 = (l, own1)" by force
  obtain tru1 where t: "observe tru l0 = (l, tru1)" "related own1 tru1"
    using related_line [OF Cons.prems, of l0] related_observe [OF Cons.prems, of l0] o
    by (cases "observe tru l0") auto
  have comm: "idx + k + 1 = idx + 1 + k" by simp
  show ?case
    using moved_step_block [OF t(2), of "sg_env sg" p l idx k "sg_gate sg (lview l)" b] Cons.IH [OF t(2), of "idx + 1"]
    by (simp add: o t(1) comm moved_def case_prod_beta)
qed simp

end

lemma ref_lines_prev:
  assumes "\<not> has_same sg"
  shows "fst (fst (ref_lines sg ls idx (w, tt, prev))) = fst (fst (ref_lines sg ls idx (w, tt, prev'))) \<and>
    snd (ref_lines sg ls idx (w, tt, prev)) = snd (ref_lines sg ls idx (w, tt, prev'))"
proof (cases ls)
  case (Cons l0 ls')
  obtain l tt1 where o: "observe tt l0 = (l, tt1)" by force
  have "ref_same sg prev l = ref_same sg prev' l" using assms by (simp add: ref_same_def)
  then show ?thesis by (simp add: Cons o split: prod.split)
qed simp

section \<open>What a chunk reports\<close>

lemma sink_inv_closing:
  assumes "sink_inv cap F hs (wk_sink W)" and "chunk.block_sim (wk_sink W) b c"
  shows "bw_open b \<Longrightarrow> sink_inv cap F (hs @ closing sg p c) (snd (block_close (sg_env sg) p chunk_ops b (wk_sink W)))"
proof -
  assume opn: "bw_open b"
  have c: "bw_open c" "block_key (bw_st b) = block_key (bw_st c)"
    using assms(2) opn by (auto simp: chunk.block_sim_def block_alike_def)
  let ?c = "c\<lparr>bw_joinedAt := bw_joinedAt b\<rparr>"
  have sim: "chunk.block_sim (wk_sink W) b ?c" using assms(2) by (simp add: chunk.block_sim_def block_alike_def)
  have "snd (block_close (sg_env sg) p tape_ops ?c []) = closing sg p c"
    using c(1) by (simp add: closing_def block_close_def Let_def)
  then have "snd (block_close (sg_env sg) p chunk_ops b (wk_sink W)) = chunk.adds (closing sg p c) (wk_sink W)"
    using chunk.block_close_sim [OF sim opn, of 0 "sg_env sg" p] by (simp add: chunk.sim_out_def)
  then show ?thesis using sink_inv_adds [OF assms(1)] by simp
qed

lemma chunk_block_result:
  assumes kind: "sg_kind sg = KBlock p" and fulls: "\<forall>i. fulls i \<longrightarrow> F"
    and b: "block_lines sg p ls 0 (chunk_tracker src) new_block_walker = (c, hs)"
    and res: "res = settle_times src carry (chunk_walk sg src cap fulls ls final)"
  shows "cr_lines res = int (length ls)" and "cr_final res = final"
    and "cr_lastStamp res = tt_last (track ls (chunk_tracker src))"
    and "chunk_holds cap F (map (settled src carry) (hs @ (if final then closing sg p c else [])))
      (cr_findings res) (cr_count res)"
    and "if final \<or> \<not> bw_open c then cr_open res = None
      else \<exists>st. cr_open res = Some st \<and> block_key st = block_key (chunked.move_block src carry 0 (bw_st c)) \<and>
        (\<not> F \<longrightarrow> st = chunked.move_block src carry 0 (bw_st c))"
proof -
  have new: "chunk_start sg src = (WBlock new_block_walker, chunk_tracker src, None)"
    using kind by (simp add: chunk_start_def new_walker_def chunk_tracker_def)
  obtain tt' prev' where r: "ref_lines sg ls 0 (chunk_start sg src) = ((WBlock c, tt', prev'), hs)"
    using ref_block_lines [OF kind, of ls 0 new_block_walker "chunk_tracker src" None] b unfolding new by auto
  have tt': "tt' = track ls (chunk_tracker src)" using ref_lines_track r unfolding new by blast
  define W where "W = walk_lines sg fulls ls (new_walk sg src cap)"
  have inv: "walk_inv sg cap F (WBlock c, tt', prev') hs W" and idx: "wk_idx W = int (length ls)"
    using chunk_walk_inv [OF fulls [rule_format] r, where cap = cap] by (simp_all add: W_def)
  from inv have i: "wk_times W = tt'" "sink_inv cap F hs (wk_sink W)"
    "chunk.walker_sim (wk_sink W) (wk_walker W) (WBlock c)" by (simp_all add: walk_inv_def)
  from i(3) obtain b' where b': "wk_walker W = WBlock b'" "chunk.block_sim (wk_sink W) b' c"
    by (auto simp: chunk.walker_sim_def split: walker.splits)
  have opn: "bw_open b' = bw_open c" using b'(2) by (simp add: chunk.block_sim_def block_alike_def)
  define sk where "sk = (if bw_open b' \<and> final then snd (block_close (sg_env sg) p chunk_ops b' (wk_sink W)) else wk_sink W)"
  have fin: "cr_findings (walk_finish sg final W) = cs_findings sk" "cr_pending (walk_finish sg final W) = cs_pending sk"
    "cr_count (walk_finish sg final W) = cs_count sk" "cr_lines (walk_finish sg final W) = int (length ls)"
    "cr_final (walk_finish sg final W) = final" "cr_lastStamp (walk_finish sg final W) = tt_last tt'"
    "cr_open (walk_finish sg final W) = (if final \<or> \<not> bw_open b' then None else Some (bw_st b'))"
    by (simp_all add: walk_finish_def kind b'(1) idx i(1) sk_def split: prod.split)
  have res': "res = settle_times src carry (walk_finish sg final W)" by (simp add: res chunk_walk_def W_def)
  show "cr_lines res = int (length ls)" "cr_final res = final" "cr_lastStamp res = tt_last (track ls (chunk_tracker src))"
    using fin tt' by (simp_all add: res' settle_times_def Let_def split: option.split)
  have "sink_inv cap F (hs @ (if final then closing sg p c else [])) sk"
    using sink_inv_closing [OF i(2) b'(2), of sg p] i(2) opn
    by (cases "bw_open b'"; cases final) (auto simp: sk_def closing_def)
  from settled_findings [OF this, of src carry]
  show "chunk_holds cap F (map (settled src carry) (hs @ (if final then closing sg p c else [])))
      (cr_findings res) (cr_count res)"
    by (cases src) (simp_all add: res' settle_times_def Let_def fin)
  have st: "cr_open res = (if final \<or> \<not> bw_open c then None else Some (chunked.move_block src carry 0 (bw_st b')))"
    by (cases src) (simp_all add: res' settle_times_def Let_def fin opn chunked.move_block_def retime_of_def
        settle_block_def)
  have "block_key (chunked.move_block src carry 0 (bw_st b')) = block_key (chunked.move_block src carry 0 (bw_st c))"
    "\<not> F \<Longrightarrow> bw_st b' = bw_st c" if "bw_open c"
  proof -
    have key: "block_key (bw_st b') = block_key (bw_st c)" using b'(2) that opn by (simp add: chunk.block_sim_def block_alike_def)
    show "block_key (chunked.move_block src carry 0 (bw_st b')) = block_key (chunked.move_block src carry 0 (bw_st c))"
      using block_key_sel [OF key] by (simp add: block_key_def chunked.move_block_def)
    assume "\<not> F"
    then have "op_mayStore chunk_ops (wk_sink W)"
      using i(2) by (auto simp: sink_inv_def chunk_ops_def chunk_may_store_def)
    then show "bw_st b' = bw_st c" using b'(2) that opn by (simp add: chunk.block_sim_def)
  qed
  then show "if final \<or> \<not> bw_open c then cr_open res = None
      else \<exists>st. cr_open res = Some st \<and> block_key st = block_key (chunked.move_block src carry 0 (bw_st c)) \<and>
        (\<not> F \<longrightarrow> st = chunked.move_block src carry 0 (bw_st c))"
    using st by auto
qed

section \<open>One chunk of a block signature\<close>

lemma lines_begun:
  "begun_before idx b \<Longrightarrow> begun_before (idx + int (length ls)) (fst (block_lines sg p ls idx tt b))"
proof (induction ls arbitrary: idx tt b)
  case (Cons l0 ls)
  obtain l tt1 where o: "observe tt l0 = (l, tt1)" by force
  obtain b1 fs where s: "step_block (sg_env sg) p tt1 tape_ops l idx (sg_gate sg (lview l)) b [] = (b1, fs)" by force
  have "begun_before (idx + 1) b1" using step_begun [OF Cons.prems, of "sg_env sg" p tt1 l] s by (metis fst_conv)
  from Cons.IH [OF this, of tt1] show ?case
    unfolding block_lines_Cons [OF o s] by (simp add: algebra_simps)
qed simp

lemma chunked_new [simp]: "chunked.move_walker src carry 0 new_block_walker = new_block_walker"
  by (simp add: chunked.move_walker_def chunked.move_block_def new_block_walker_def zero_block_def
      retime_of_def settle_def zero_time_def split: option.split)

text \<open>The own walk of a chunk, as the stamp carried into it would have had it.\<close>

lemma settled_block_lines:
  assumes "block_lines sg p ls 0 (chunk_tracker src) new_block_walker = (c, hs)"
  shows "block_lines sg p ls 0 (true_tracker src stamp) new_block_walker =
    (chunked.move_walker src stamp 0 c, map (settled src stamp) hs)"
  using chunked.moved_block_lines [OF related_start, where sg = sg and p = p and ls = ls and idx = 0 and k = 0
      and b = new_block_walker] assms by simp

lemma closing_moved: "closing sg p (chunked.move_walker src stamp k c) = map (chunked.move src stamp k) (closing sg p c)"
  "closing sg p (renumbered.move_walker k c) = map (renumber k) (closing sg p c)"
  using chunked.moved_close [of "sg_env sg" p src stamp k c] renumbered.moved_close [of "sg_env sg" p k c]
  by (simp_all add: closing_def chunked.moved_def renumbered.moved_def)

lemma closing_sim: "tape.block_sim [] b c \<Longrightarrow> closing sg p b = closing sg p c"
  by (auto simp: tape_block_sim closing_def block_close_def Let_def)

text \<open>
  Between chunks: \<open>b\<close> is the reference walker after the lines so far, whose findings are \<open>fs\<close>.
\<close>

definition carry_ok :: "merger \<Rightarrow> block_walker \<Rightarrow> raw_finding list \<Rightarrow> bool" where
  "carry_ok m b fs \<longleftrightarrow> begun_before (mg_base m + 1) b \<and>
     (if bw_open b
      then \<exists>st. mg_carry m = Some st \<and> block_key (renumbered.move_block (mg_base m + 1) st) = block_key (bw_st b) \<and>
             (length fs < mg_cap m \<longrightarrow> renumbered.move_block (mg_base m + 1) st = bw_st b)
      else mg_carry m = None)"

lemma move_back [simp]:
  "renumbered.move_block k (renumbered.move_block j st) = renumbered.move_block (k + j) st"
  "renumbered.move_block 0 st = st"
  by (simp_all add: renumbered.move_block_def)

lemma key_moved:
  "block_key st = block_key su \<Longrightarrow> block_key (renumbered.move_block k st) = block_key (renumbered.move_block k su)"
  by (auto simp: block_key_def renumbered.move_block_def)

lemma carried_move: "carried (Some st) n = Some (renumbered.move_block (- n) st)"
  by (simp add: carried_def renumbered.move_block_def)

lemma carried_None [simp]: "carried None n = None"
  by (simp add: carried_def)

text \<open>The merger after a chunk, and before what every kind of signature does to it.\<close>

lemma block_chunk:
  assumes kind: "sg_kind sg = KBlock p" and fulls: "\<forall>i. fulls i \<longrightarrow> mg_full m"
    and ok: "stored_ok m fs" "mg_count m = int (length fs)" "carry_ok m b fs"
    and ref: "block_lines sg p ls (mg_base m + 1) (true_tracker src (mg_lastStamp m)) b = (b', gs)"
    and res: "res = settle_times src (mg_lastStamp m) (chunk_walk sg src (mg_cap m) fulls ls final)"
    and m': "m' = (case mg_carry m of
        Some st \<Rightarrow> replay_blocks sg p src res ls st m
      | None \<Rightarrow> (merger_take (cr_findings res) (cr_count res) m)\<lparr>mg_carry := carried (cr_open res) (cr_lines res)\<rparr>)"
  defines "all \<equiv> fs @ gs @ (if final then closing sg p b' else [])"
  shows "frame m m'" and "stored_ok m' all" and "mg_count m' = int (length all)"
    and "if final then mg_carry m' = None else carry_ok (m'\<lparr>mg_base := mg_base m + int (length ls)\<rparr>) b' all"
proof -
  let ?k = "mg_base m + 1" and ?stamp = "mg_lastStamp m"
  obtain c hs where c: "block_lines sg p ls 0 (chunk_tracker src) new_block_walker = (c, hs)" by force
  note r = chunk_block_result [OF kind fulls c res]
  note own = settled_block_lines [OF c, of ?stamp]
  let ?c = "chunked.move_walker src ?stamp 0 c" and ?hs = "map (settled src ?stamp) hs"
  have begun: "begun_before (?k + int (length ls)) b'"
    using lines_begun [of ?k b ls sg p] ok(3) ref by (metis carry_ok_def fst_conv)
  have new: "begun_before 0 new_block_walker" by (simp add: begun_before_def new_block_walker_def)
  have main: "frame m m' \<and> stored_ok m' all \<and> mg_count m' = int (length all) \<and>
    (if final then mg_carry m' = None else carry_ok (m'\<lparr>mg_base := mg_base m + int (length ls)\<rparr>) b' all)"
  proof (cases "bw_open b")
    case False
    then have carry: "mg_carry m = None" using ok(3) by (simp add: carry_ok_def)
    have moved: "block_lines sg p ls ?k (true_tracker src ?stamp) (renumbered.move_walker ?k new_block_walker) =
        (renumbered.move_walker ?k ?c, map (renumber ?k) ?hs)"
      using renumbered.moved_block_lines [where idx = 0 and k = ?k and b = new_block_walker and p = p and ls = ls
          and sg = sg and own = "true_tracker src ?stamp" and tru = "true_tracker src ?stamp"] own by simp
    have idle: "tape.block_sim [] b (renumbered.move_walker ?k new_block_walker)"
      using False by (simp add: tape_block_sim new_block_walker_def)
    have "bw_joinedAt b < ?k" "bw_joinedAt (renumbered.move_walker ?k new_block_walker) < ?k"
      using ok(3) by (simp_all add: carry_ok_def begun_before_def new_block_walker_def)
    from block_lines_sim [OF idle this, of sg p ls "true_tracker src ?stamp"] ref moved
    have sim: "gs = map (renumber ?k) ?hs" "tape.block_sim [] b' (renumbered.move_walker ?k ?c)" by simp_all
    have all: "all = fs @ map (renumber ?k) (map (settled src ?stamp) (hs @ (if final then closing sg p c else [])))"
      using closing_sim [OF sim(2), of sg p] by (simp add: all_def sim(1) closing_moved)
    have eq: "m' = (merger_take (cr_findings res) (cr_count res) m)\<lparr>mg_carry := carried (cr_open res) (cr_lines res)\<rparr>"
      by (simp add: m' carry)
    note tk = take_chunk_ok [OF ok(1) r(4)]
    have "stored_ok m' all" "mg_count m' = int (length all)" "frame m m'"
      using tk ok(2) frame_trans [OF frame_take frame_carry(1)] by (simp_all add: all eq)
    moreover have "if final then mg_carry m' = None else carry_ok (m'\<lparr>mg_base := mg_base m + int (length ls)\<rparr>) b' all"
    proof (cases "final")
      case True
      then show ?thesis using r(5) by (simp add: eq)
    next
      case nf: False
      have opn: "bw_open b' = bw_open c" using sim(2) by (simp add: tape_block_sim)
      show ?thesis
      proof (cases "bw_open c")
        case True
        then obtain st where st: "cr_open res = Some st" "block_key st = block_key (chunked.move_block src ?stamp 0 (bw_st c))"
          "\<not> mg_full m \<longrightarrow> st = chunked.move_block src ?stamp 0 (bw_st c)"
          using r(5) nf by auto
        have full: "\<not> mg_full m" if "length all < mg_cap m"
          using that ok(1) by (auto simp: stored_ok_def all_def)
        have "bw_st b' = renumbered.move_block ?k (chunked.move_block src ?stamp 0 (bw_st c))"
          using sim(2) opn True by (simp add: tape_block_sim)
        then show ?thesis
          using nf True opn begun st key_moved [OF st(2), of ?k] full
          by (auto simp: carry_ok_def eq carried_move r(1) algebra_simps)
      next
        case idle: False
        then show ?thesis
          using nf opn begun r(5) by (simp add: carry_ok_def eq algebra_simps)
      qed
    qed
    ultimately show ?thesis by blast
  next
    case True
    then obtain st where st: "mg_carry m = Some st" "block_key (renumbered.move_block ?k st) = block_key (bw_st b)"
      "length fs < mg_cap m \<longrightarrow> renumbered.move_block ?k st = bw_st b"
      using ok(3) by (auto simp: carry_ok_def)
    define t where "t = \<lparr>bw_open = True, bw_st = renumbered.move_block (- ?k) (bw_st b), bw_joinedAt = -1\<rparr>"
    obtain t' gs0 where t': "block_lines sg p ls 0 (true_tracker src ?stamp) t = (t', gs0)" by force
    have moved: "block_lines sg p ls ?k (true_tracker src ?stamp) (renumbered.move_walker ?k t) =
        (renumbered.move_walker ?k t', map (renumber ?k) gs0)"
      using renumbered.moved_block_lines [where idx = 0 and k = ?k and b = t and p = p and ls = ls
          and sg = sg and own = "true_tracker src ?stamp" and tru = "true_tracker src ?stamp"] t' by simp
    have "tape.block_sim [] b (renumbered.move_walker ?k t)"
      using True by (simp add: tape_block_sim t_def)
    moreover have "bw_joinedAt b < ?k" "bw_joinedAt (renumbered.move_walker ?k t) < ?k"
      using ok(3) by (simp_all add: carry_ok_def begun_before_def t_def)
    ultimately have sim: "gs = map (renumber ?k) gs0" "tape.block_sim [] b' (renumbered.move_walker ?k t')"
      using block_lines_sim [of b "renumbered.move_walker ?k t" ?k sg p ls "true_tracker src ?stamp"] ref moved by simp_all
    let ?m = "m\<lparr>mg_carry := None\<rparr>"
    let ?ry = "\<lparr>ry_truth = \<lparr>bw_open = True, bw_st = st, bw_joinedAt = -1\<rparr>, ry_own = new_block_walker,
                ry_counts = True, ry_own_n = 0, ry_extend = False, ry_done = False\<rparr>"
    have eq: "m' = replay_end sg p res (replay_lines sg p res (true_tracker src ?stamp) ls 0 ?ry ?m)"
      by (simp add: m' st(1) replay_blocks_def true_tracker_def)
    have start: "st_startIdx (bw_st b) < ?k" using ok(3) True by (simp add: carry_ok_def begun_before_def)
    have key: "block_key st = block_key (bw_st t)"
      using key_moved [OF st(2), of "- ?k"] by (simp add: t_def)
    have full: "st = bw_st t" if "length fs < mg_cap m"
    proof -
      have "bw_st b = renumbered.move_block ?k st" using st(3) that by simp
      then show ?thesis by (simp add: t_def)
    qed
    have sst: "merging.block_sim (store_sink ?m (mg_base ?m + 1) True) (ry_truth ?ry) t"
      using key full stored_ok_may [of ?m fs] ok(1) by (auto simp: merging.block_sim_def block_alike_def t_def)
    have bgt: "begun_before 0 t" using start by (simp add: begun_before_def t_def)
    have diff: "\<not> same_state t new_block_walker"
      by (simp add: same_state_def t_def new_block_walker_def)
    have ownres: "own_result sg p res m ?c ?hs"
      using r(2,4,5) by (simp add: own_result_def closing_moved split: if_splits)
    have "replay_result sg p res ?m fs t' gs0 m'"
      unfolding eq
      by (rule replay_main [OF _ _ _ sst _ bgt t' _ _ new own _ diff, where ds = "[]" and ?m0.0 = m])
        (use ok ownres in \<open>auto simp: block_alike_def new_block_walker_def\<close>)
    then have rr: "frame ?m m'" "stored_ok m' (fs @ map (renumber ?k) (gs0 @ (if final then closing sg p t' else [])))"
      "mg_count m' = int (length (fs @ map (renumber ?k) (gs0 @ (if final then closing sg p t' else []))))"
      "if final \<or> \<not> bw_open t' then mg_carry m' = None
          else \<exists>st. mg_carry m' = carried (Some st) (int (length ls)) \<and> block_key st = block_key (bw_st t') \<and>
                 (length (fs @ map (renumber ?k) (gs0 @ (if final then closing sg p t' else []))) < mg_cap m \<longrightarrow> st = bw_st t')"
      using r(1,2) by (auto simp: replay_result_def Let_def split: if_splits)
    have all: "all = fs @ map (renumber ?k) (gs0 @ (if final then closing sg p t' else []))"
      using closing_sim [OF sim(2), of sg p] by (simp add: all_def sim(1) closing_moved)
    have opn: "bw_open b' = bw_open t'" "bw_open b' \<Longrightarrow> bw_st b' = renumbered.move_block ?k (bw_st t')"
      using sim(2) by (simp_all add: tape_block_sim)
    have fr: "frame m m'" using rr(1) by (simp add: frame_def)
    have "if final then mg_carry m' = None else carry_ok (m'\<lparr>mg_base := mg_base m + int (length ls)\<rparr>) b' all"
    proof (cases "final \<or> \<not> bw_open t'")
      case True
      then show ?thesis using rr(4) opn(1) begun by (auto simp: carry_ok_def algebra_simps)
    next
      case False
      then obtain su where su: "mg_carry m' = carried (Some su) (int (length ls))" "block_key su = block_key (bw_st t')"
        "length all < mg_cap m \<longrightarrow> su = bw_st t'"
        using rr(4) all by auto
      have cap: "mg_cap m' = mg_cap m" using fr by (simp add: frame_def)
      show ?thesis
        using False opn begun su key_moved [OF su(2), of ?k] cap
        by (auto simp: carry_ok_def carried_move algebra_simps)
    qed
    then show ?thesis using rr(2,3) all fr by simp
  qed
  then show "frame m m'" "stored_ok m' all" "mg_count m' = int (length all)"
    "if final then mg_carry m' = None else carry_ok (m'\<lparr>mg_base := mg_base m + int (length ls)\<rparr>) b' all"
    by blast+
qed

end
