(* ===== verification/ScanRuns.thy ===== *)
theory ScanRuns
  imports ScanBlocks
begin

text \<open>
  Runs across the edges of chunks: the pieces a chunk reports at its edges (\<^verbatim>\<open>edges\<close>), joined by
  the merge (\<^verbatim>\<open>mergeRuns\<close>), are the runs of the reference walk.
\<close>

section \<open>The reference walker of a run, on pieces\<close>

definition fresh_piece :: "sig_env \<Rightarrow> run_program \<Rightarrow> time_tracker \<Rightarrow> line \<Rightarrow> int \<Rightarrow> run_piece" where
  "fresh_piece cs p tt l idx = rw_cur (run_begin cs p tt tape_ops l idx [] new_run_walker)"

definition ext_piece :: "line \<Rightarrow> int \<Rightarrow> run_piece \<Rightarrow> run_piece" where
  "ext_piece l idx q = q\<lparr>rp_endIdx := idx, rp_endOff := lnext l\<rparr>"

text \<open>The excerpt of a run of equal lines, which any of its lines gives.\<close>

definition build_piece :: "sig_env \<Rightarrow> bytes \<Rightarrow> run_piece \<Rightarrow> run_piece" where
  "build_piece cs view q =
     (if rp_hasEx q \<or> se_bodyOnly cs then q
      else case se_build cs view of (ex, masked) \<Rightarrow> q\<lparr>rp_hasEx := True, rp_excerpt := ex, rp_masked := masked\<rparr>)"

definition ended_piece :: "run_program \<Rightarrow> run_piece \<Rightarrow> raw_finding list" where
  "ended_piece p q = (if piece_lines q \<ge> rp_min p then [piece_finding q] else [])"

definition ended :: "run_program \<Rightarrow> run_walker \<Rightarrow> raw_finding list" where
  "ended p r = (if rw_open r then ended_piece p (rw_cur r) else [])"

lemma run_begin_eq: "run_begin cs p tt tape_ops l idx s r = r\<lparr>rw_open := True, rw_cur := fresh_piece cs p tt l idx\<rparr>"
  by (auto simp: run_begin_def fresh_piece_def run_build_excerpt_def Let_def
      split: prod.split run_mode.split option.split)

lemma run_extend_eq: "run_extend l idx r = r\<lparr>rw_cur := ext_piece l idx (rw_cur r)\<rparr>"
  by (simp add: run_extend_def ext_piece_def)

lemma run_build_eq:
  "rp_mode p = RunSame \<Longrightarrow> run_build_excerpt cs p tape_ops view lo s r = r\<lparr>rw_cur := build_piece cs view (rw_cur r)\<rparr>"
  by (auto simp: run_build_excerpt_def build_piece_def split: prod.split)

lemma run_end_eq:
  "run_end p tape_ops r [] =
     (if \<not> rw_open r then (r, [])
      else if rp_startIdx (rw_cur r) = 0 then (r\<lparr>rw_open := False, rw_leading := rw_cur r, rw_hasLeading := True\<rparr>, [])
      else (r\<lparr>rw_open := False\<rparr>, ended_piece p (rw_cur r)))"
  by (simp add: run_end_def ended_piece_def emit_piece_def Let_def)

lemma piece_sel [simp]:
  "rp_startIdx (fresh_piece cs p tt l idx) = idx" "rp_endIdx (fresh_piece cs p tt l idx) = idx"
  "rp_startIdx (ext_piece l idx q) = rp_startIdx q" "rp_endIdx (ext_piece l idx q) = idx"
  "rp_endOff (ext_piece l idx q) = lnext l"
  "rp_startIdx (build_piece cs v q) = rp_startIdx q" "rp_endIdx (build_piece cs v q) = rp_endIdx q"
  "rp_endOff (build_piece cs v q) = rp_endOff q" "piece_lines (build_piece cs v q) = piece_lines q"
  "erase (build_piece cs v q) = erase q" "rp_hasEx (ext_piece l idx q) = rp_hasEx q"
  by (auto simp: fresh_piece_def run_begin_def run_build_excerpt_def ext_piece_def build_piece_def Let_def
      piece_lines_def erase_def split: prod.split run_mode.split option.split)

lemma build_piece_has: "rp_hasEx (build_piece cs v q) \<or> se_bodyOnly cs"
  by (auto simp: build_piece_def split: prod.split)

lemma build_piece_id: "rp_hasEx q \<or> se_bodyOnly cs \<Longrightarrow> build_piece cs v q = q"
  by (simp add: build_piece_def)

lemma build_twice [simp]: "build_piece cs w (build_piece cs v q) = build_piece cs v q"
  by (rule build_piece_id [OF build_piece_has])

lemma build_ext: "build_piece cs v (ext_piece l idx q) = ext_piece l idx (build_piece cs v q)"
  by (auto simp: build_piece_def ext_piece_def split: prod.split)

lemma build_ends: "build_piece cs v (q\<lparr>rp_endIdx := i, rp_endOff := e\<rparr>) = (build_piece cs v q)\<lparr>rp_endIdx := i, rp_endOff := e\<rparr>"
  by (auto simp: build_piece_def split: prod.split)

text \<open>One line of the walk.\<close>

definition run_line ::
  "compiled_sig \<Rightarrow> run_program \<Rightarrow> time_tracker \<Rightarrow> line \<Rightarrow> int \<Rightarrow> bool \<Rightarrow> run_walker \<Rightarrow> run_walker \<times> raw_finding list" where
  "run_line sg p tt l idx same r =
     run_step (sg_env sg) p tt tape_ops l idx same (run_anchor (sg_gate sg) p l idx r) []"

lemma sig_run_line:
  "sg_kind sg = KRun p \<Longrightarrow> sig_line sg tt tape_ops l idx same (WRun r) [] =
    (WRun (fst (run_line sg p tt l idx same r)), snd (run_line sg p tt l idx same r))"
  by (simp add: sig_line_def run_line_def split: prod.split)

lemma anchor_sel [simp]:
  "rw_open (run_anchor g p l idx r) = rw_open r" "rw_cur (run_anchor g p l idx r) = rw_cur r"
  "rw_leading (run_anchor g p l idx r) = rw_leading r" "rw_hasLeading (run_anchor g p l idx r) = rw_hasLeading r"
  by (simp_all add: run_anchor_def)

text \<open>Whether a line is in a run, for every mode but that of equal lines.\<close>

definition run_holds :: "compiled_sig \<Rightarrow> run_program \<Rightarrow> time_tracker \<Rightarrow> line \<Rightarrow> bool" where
  "run_holds sg p tt l =
     (case rp_mode p of
        RunMatch \<Rightarrow> sg_gate sg (lview l) \<and> matches_run p (lview l)
      | RunBlank \<Rightarrow> is_blank (lview l)
      | RunBinary \<Rightarrow> holds_binary (lview l) (int (length (lview l)) < llength l)
      | RunUnprefixed \<Rightarrow> tt_src tt \<noteq> None \<and> \<not> stamped l
      | RunSame \<Rightarrow> False)"

lemma qualifies_anchor:
  "rw_qualifiedAt r < idx \<Longrightarrow> run_qualifies p tt l idx (run_anchor (sg_gate sg) p l idx r) = run_holds sg p tt l"
  by (auto simp: run_qualifies_def run_anchor_def run_holds_def split: run_mode.split)

definition line_in :: "compiled_sig \<Rightarrow> run_program \<Rightarrow> time_tracker \<Rightarrow> line \<Rightarrow> bool \<Rightarrow> bool" where
  "line_in sg p tt l same \<longleftrightarrow> (if rp_mode p = RunSame then same else run_holds sg p tt l)"

text \<open>
  What one line does to the walker, on its open piece: it extends, ends or begins.
\<close>

definition grown :: "compiled_sig \<Rightarrow> run_program \<Rightarrow> line \<Rightarrow> int \<Rightarrow> run_piece \<Rightarrow> run_piece" where
  "grown sg p l idx q =
     (if rp_mode p = RunSame then build_piece (sg_env sg) (lview l) (ext_piece l idx q) else ext_piece l idx q)"

lemma grown_sel [simp]: "rp_startIdx (grown sg p l idx q) = rp_startIdx q" "rp_endIdx (grown sg p l idx q) = idx"
  "rp_endOff (grown sg p l idx q) = lnext l"
  by (simp_all add: grown_def)

lemma run_line_in:
  assumes "rw_qualifiedAt r < idx" and "rw_open r" and "line_in sg p tt l same"
  shows "snd (run_line sg p tt l idx same r) = []" and "rw_open (fst (run_line sg p tt l idx same r))"
    and "rw_cur (fst (run_line sg p tt l idx same r)) = grown sg p l idx (rw_cur r)"
    and "rw_hasLeading (fst (run_line sg p tt l idx same r)) = rw_hasLeading r"
    and "rw_leading (fst (run_line sg p tt l idx same r)) = rw_leading r"
  using assms qualifies_anchor [OF assms(1), of p tt l sg]
  by (auto simp: run_line_def run_step_def grown_def run_extend_eq run_build_eq line_in_def)

text \<open>A line that is not in the open run ends it; a line of equal lines, or one in a run, begins one.\<close>

lemma run_line_out:
  assumes "rw_qualifiedAt r < idx" and "\<not> line_in sg p tt l same \<or> \<not> rw_open r"
    and "rp_mode p = RunSame \<longrightarrow> \<not> same"
  defines "out \<equiv> run_line sg p tt l idx same r"
    and "begins \<equiv> rp_mode p = RunSame \<or> line_in sg p tt l same"
  shows "snd out = (if rw_open r \<and> rp_startIdx (rw_cur r) \<noteq> 0 then ended_piece p (rw_cur r) else [])"
    and "rw_open (fst out) = begins"
    and "begins \<Longrightarrow> rw_cur (fst out) = fresh_piece (sg_env sg) p tt l idx"
    and "rw_hasLeading (fst out) = (rw_hasLeading r \<or> rw_open r \<and> rp_startIdx (rw_cur r) = 0)"
    and "rw_leading (fst out) = (if rw_open r \<and> rp_startIdx (rw_cur r) = 0 then rw_cur r else rw_leading r)"
  using assms(2,3) qualifies_anchor [OF assms(1), of p tt l sg]
  by (auto simp: out_def begins_def run_line_def run_step_def run_begin_eq run_end_eq line_in_def split: prod.split)

lemma line_qualifiedAt:
  assumes "rw_qualifiedAt r < idx"
  shows "rw_qualifiedAt (fst (run_line sg p tt l idx same r)) < idx + 1"
  using assms
  by (auto simp: run_line_def run_step_def run_begin_eq run_end_eq run_extend_eq run_build_eq run_anchor_def
      split: prod.split)


text \<open>What every reference walker of a run keeps: \<open>prev\<close> says whether there was a line.\<close>

definition run_inv :: "compiled_sig \<Rightarrow> run_program \<Rightarrow> int \<Rightarrow> bool \<Rightarrow> run_walker \<Rightarrow> bool" where
  "run_inv sg p idx some r \<longleftrightarrow> rw_qualifiedAt r < idx \<and>
     (rp_mode p = RunSame \<longrightarrow> rw_open r = some \<and>
        (rw_open r \<and> piece_lines (rw_cur r) \<ge> 2 \<longrightarrow> rp_hasEx (rw_cur r) \<or> se_bodyOnly (sg_env sg)))"

lemma run_inv_line:
  assumes inv: "run_inv sg p idx some r" and same: "same \<longrightarrow> some"
  shows "run_inv sg p (idx + 1) True (fst (run_line sg p tt l idx same r))"
proof -
  have q: "rw_qualifiedAt r < idx" using inv by (simp add: run_inv_def)
  note qa = line_qualifiedAt [OF q, of sg p tt l same]
  show ?thesis
  proof (cases "rp_mode p = RunSame \<and> same")
    case True
    then have "rw_open r" "line_in sg p tt l same" using inv same by (simp_all add: run_inv_def line_in_def)
    from run_line_in(2,3) [OF q this] build_piece_has [of "sg_env sg" "lview l"] True qa show ?thesis
      by (simp add: run_inv_def grown_def)
  next
    case False
    then show ?thesis
      using qa run_line_out(2,3) [OF q, of sg p tt l same]
      by (auto simp: run_inv_def line_in_def piece_lines_def)
  qed
qed

section \<open>Two walks of one chunk\<close>

context moved_walk
begin

definition move_piece :: "int \<Rightarrow> run_piece \<Rightarrow> run_piece" where
  "move_piece k q = q\<lparr>rp_startIdx := rp_startIdx q + k, rp_endIdx := rp_endIdx q + k,
     rp_tm := retime (rp_tm q) (rp_startOff q)\<rparr>"

lemma move_piece_sel [simp]:
  "rp_startIdx (move_piece k q) = rp_startIdx q + k" "rp_endIdx (move_piece k q) = rp_endIdx q + k"
  "rp_endOff (move_piece k q) = rp_endOff q" "piece_lines (move_piece k q) = piece_lines q"
  by (simp_all add: move_piece_def piece_lines_def)

lemma moved_ended [simp]: "ended_piece p (move_piece k q) = map (move k) (ended_piece p q)"
  by (simp add: ended_piece_def) (simp add: piece_finding_def move_def move_piece_def)

lemma moved_build: "build_piece cs v (move_piece k q) = move_piece k (build_piece cs v q)"
  by (auto simp: build_piece_def move_piece_def split: prod.split)

lemma moved_ext: "ext_piece l (idx + k) (move_piece k q) = move_piece k (ext_piece l idx q)"
  by (simp add: ext_piece_def move_piece_def)

lemma moved_grown: "grown sg p l (idx + k) (move_piece k q) = move_piece k (grown sg p l idx q)"
  by (simp add: grown_def moved_build moved_ext)

lemma moved_fresh:
  "related own tru \<Longrightarrow> fresh_piece cs p tru l (idx + k) = move_piece k (fresh_piece cs p own l idx)"
  using related_at [of own tru "lstart l"]
  by (auto simp: fresh_piece_def run_begin_def run_build_excerpt_def move_piece_def Let_def
      split: prod.split run_mode.split option.split)

lemma moved_line_in: "related own tru \<Longrightarrow> line_in sg p tru l same = line_in sg p own l same"
  using related_src by (simp add: line_in_def run_holds_def split: run_mode.split)

text \<open>
  The chunk's walker \<open>c\<close> began idle on its first line, the true one \<open>t\<close> was \<open>v\<close> before it, with the
  last line's view \<open>view\<close>; \<open>hs\<close> and \<open>gs\<close> are their findings in the chunk, and \<open>touching\<close> says that the
  true walk's run goes on in the chunk.
\<close>

definition ends_at :: "run_piece \<Rightarrow> int \<Rightarrow> run_piece \<Rightarrow> run_piece" where
  "ends_at q k c = q\<lparr>rp_endIdx := rp_endIdx c + k, rp_endOff := rp_endOff c\<rparr>"

definition run_pair ::
  "run_program \<Rightarrow> bool \<Rightarrow> run_piece \<Rightarrow> run_walker \<Rightarrow> int \<Rightarrow> run_walker \<Rightarrow> raw_finding list
   \<Rightarrow> run_walker \<Rightarrow> raw_finding list \<Rightarrow> bool" where
  "run_pair p touching q v k c hs t gs \<longleftrightarrow>
     (if rw_open c \<and> rp_startIdx (rw_cur c) = 0
      then \<not> rw_hasLeading c \<and> hs = [] \<and> rw_open t \<and>
        (if touching then gs = [] \<and> rw_cur t = ends_at q k (rw_cur c)
         else gs = ended p v \<and> rw_cur t = move_piece k (rw_cur c))
      else rw_open t = rw_open c \<and>
        (rw_open c \<longrightarrow> rw_cur t = move_piece k (rw_cur c) \<and> 0 < rp_startIdx (rw_cur c)) \<and>
        gs = (if \<not> rw_hasLeading c then ended p v
              else if touching then ended_piece p (ends_at q k (rw_leading c))
              else ended p v @ map (move k) (ended_piece p (rw_leading c))) @ map (move k) hs)"

lemma ends_at_sel [simp]: "rp_startIdx (ends_at q k c) = rp_startIdx q"
  by (simp add: ends_at_def)

lemma ends_at_fresh: "ends_at q k (fresh_piece cs p tt l 0) = ext_piece l k q"
  by (simp add: ends_at_def ext_piece_def)
    (simp add: fresh_piece_def run_begin_def run_build_excerpt_def Let_def split: prod.split run_mode.split option.split)

lemma ends_at_grown:
  assumes "rp_mode p = RunSame \<longrightarrow> rp_hasEx q \<or> se_bodyOnly (sg_env sg)"
  shows "grown sg p l (idx + k) (ends_at q k c) = ends_at q k (grown sg p l idx c)"
  using assms by (auto simp: grown_def ends_at_def ext_piece_def build_piece_def split: prod.split)

text \<open>The first line of the chunk.\<close>

lemma run_pair_first:
  assumes rel: "related own tru" and k: "0 < k" and v: "rw_qualifiedAt v < k" "rw_open v \<longrightarrow> 0 < rp_startIdx (rw_cur v)"
    and touching: "touching \<longleftrightarrow> rw_open v \<and> (rp_mode p = RunSame \<longrightarrow> same)"
    and same: "rp_mode p = RunSame \<and> same \<longrightarrow> rw_open v \<and> view = lview l"
    and q: "q = (if rp_mode p = RunSame then build_piece (sg_env sg) view (rw_cur v) else rw_cur v)"
  shows "run_pair p touching q v k (fst (run_line sg p own l 0 False new_run_walker))
      (snd (run_line sg p own l 0 False new_run_walker)) (fst (run_line sg p tru l k same v)) (snd (run_line sg p tru l k same v))"
proof -
  have q0: "rw_qualifiedAt new_run_walker < 0" "\<not> rw_open new_run_walker" "\<not> rw_hasLeading new_run_walker"
    by (simp_all add: new_run_walker_def)
  note c = run_line_out [OF q0(1), of sg p own l False, simplified q0, simplified]
  have fresh: "fresh_piece (sg_env sg) p tru l k = move_piece k (fresh_piece (sg_env sg) p own l 0)"
    using moved_fresh [OF rel, of "sg_env sg" p l 0 k] by simp
  show ?thesis
  proof (cases "rw_open v \<and> line_in sg p tru l same")
    case True
    note t = run_line_in [OF v(1) True [THEN conjunct1] True [THEN conjunct2]]
    have j: touching using True touching by (auto simp: line_in_def split: if_splits)
    have begins: "rp_mode p = RunSame \<or> line_in sg p own l False"
      using True moved_line_in [OF rel, of sg p l same] by (auto simp: line_in_def split: if_splits)
    have "grown sg p l k (rw_cur v) = ends_at q k (fresh_piece (sg_env sg) p own l 0)"
      using True same by (auto simp: ends_at_fresh q grown_def build_ext line_in_def split: if_splits)
    then show ?thesis using c t begins j by (simp add: run_pair_def)
  next
    case False
    have ns: "rp_mode p = RunSame \<longrightarrow> \<not> same" using False same by (auto simp: line_in_def)
    have "\<not> line_in sg p tru l same \<or> \<not> rw_open v" using False by blast
    note t = run_line_out [OF v(1) this ns]
    have begins: "rp_mode p = RunSame \<or> line_in sg p own l False \<longleftrightarrow> rp_mode p = RunSame \<or> line_in sg p tru l same"
      using moved_line_in [OF rel, of sg p l same] by (auto simp: line_in_def)
    have j: "touching \<Longrightarrow> \<not> (rp_mode p = RunSame \<or> line_in sg p tru l same)"
      using False touching ns by (auto simp: line_in_def)
    have "snd (run_line sg p tru l k same v) = ended p v" using t(1) v(2) by (auto simp: ended_def)
    then show ?thesis
      using c t begins j fresh by (cases "rp_mode p = RunSame \<or> line_in sg p tru l same") (auto simp: run_pair_def)
  qed
qed

lemma run_pair_line:
  assumes rel: "related own tru" and k: "0 < k" and n: "0 < n"
    and qual: "rw_qualifiedAt c < n" "rw_qualifiedAt t < n + k"
    and q: "rp_mode p = RunSame \<longrightarrow> rp_hasEx q \<or> se_bodyOnly (sg_env sg)"
    and open_q: "touching \<longrightarrow> 0 < rp_startIdx q"
    and same: "rp_mode p = RunSame \<and> same \<longrightarrow> rw_open c"
    and pair: "run_pair p touching q v k c hs t gs"
  shows "run_pair p touching q v k (fst (run_line sg p own l n same c)) (hs @ snd (run_line sg p own l n same c))
      (fst (run_line sg p tru l (n + k) same t)) (gs @ snd (run_line sg p tru l (n + k) same t))"
proof -
  have opn: "rw_open t = rw_open c" using pair by (auto simp: run_pair_def split: if_splits)
  note li = moved_line_in [OF rel, of sg p l same]
  show ?thesis
  proof (cases "rw_open c \<and> line_in sg p own l same")
    case True
    note c = run_line_in [OF qual(1) True [THEN conjunct1] True [THEN conjunct2]]
    have "rw_open t" "line_in sg p tru l same" using True opn li by simp_all
    note t = run_line_in [OF qual(2) this]
    show ?thesis
      using pair True c t moved_grown [of sg p l n k] ends_at_grown [OF q]
      by (auto simp: run_pair_def split: if_splits)
  next
    case False
    have ns: "rp_mode p = RunSame \<longrightarrow> \<not> same" using False same by (auto simp: line_in_def)
    have o: "\<not> line_in sg p own l same \<or> \<not> rw_open c" "\<not> line_in sg p tru l same \<or> \<not> rw_open t"
      using False opn li by auto
    note c = run_line_out [OF qual(1) o(1) ns] and t = run_line_out [OF qual(2) o(2) ns]
    have fresh: "fresh_piece (sg_env sg) p tru l (n + k) = move_piece k (fresh_piece (sg_env sg) p own l n)"
      using moved_fresh [OF rel] .
    have pos: "rw_open t \<Longrightarrow> rp_startIdx (rw_cur t) \<noteq> 0"
      using pair k open_q by (auto simp: run_pair_def split: if_splits)
    define begins where "begins \<longleftrightarrow> rp_mode p = RunSame \<or> line_in sg p own l same"
    obtain c1 ds where oc: "run_line sg p own l n same c = (c1, ds)" by force
    obtain t1 es where ot: "run_line sg p tru l (n + k) same t = (t1, es)" by force
    have c1: "ds = (if rw_open c \<and> rp_startIdx (rw_cur c) \<noteq> 0 then ended_piece p (rw_cur c) else [])"
      "rw_open c1 = begins" "begins \<Longrightarrow> rw_cur c1 = fresh_piece (sg_env sg) p own l n"
      "rw_hasLeading c1 = (rw_hasLeading c \<or> rw_open c \<and> rp_startIdx (rw_cur c) = 0)"
      "rw_leading c1 = (if rw_open c \<and> rp_startIdx (rw_cur c) = 0 then rw_cur c else rw_leading c)"
      using c by (simp_all add: oc begins_def)
    have t1: "es = ended p t" "rw_open t1 = begins"
      "begins \<Longrightarrow> rw_cur t1 = move_piece k (fresh_piece (sg_env sg) p own l n)"
      using t fresh pos li by (auto simp: ot begins_def ended_def)
    have nw1: "\<not> (rw_open c1 \<and> rp_startIdx (rw_cur c1) = 0)" using n c1(2,3) by auto
    have cur1: "begins \<longrightarrow> rw_cur t1 = move_piece k (rw_cur c1) \<and> 0 < rp_startIdx (rw_cur c1)"
      using n c1(3) t1(3) by auto
    show ?thesis
    proof (cases "rw_open c \<and> rp_startIdx (rw_cur c) = 0")
      case True
      note pr = pair [unfolded run_pair_def if_P [OF True]]
      have "rw_hasLeading c1" "rw_leading c1 = rw_cur c" "ds = []" using c1 True by simp_all
      then show ?thesis
        using pr cur1 t1(1,2) c1(2) unfolding oc ot fst_conv snd_conv run_pair_def if_not_P [OF nw1]
        by (cases touching) (simp_all add: ended_def)
    next
      case nw: False
      note pr = pair [unfolded run_pair_def if_not_P [OF nw]]
      have "rw_hasLeading c1 = rw_hasLeading c" "rw_leading c1 = rw_leading c" "ds = ended p c"
        using c1 nw by (auto simp: ended_def)
      then show ?thesis
        using pr cur1 t1(1,2) c1(2) unfolding oc ot fst_conv snd_conv run_pair_def if_not_P [OF nw1]
        by (cases "rw_open c") (simp_all add: ended_def)
    qed
  qed
qed


text \<open>All the lines of the chunk.\<close>

lemma run_pair_lines:
  assumes kind: "sg_kind sg = KRun p" and k: "0 < k"
    and q: "rp_mode p = RunSame \<longrightarrow> rp_hasEx q \<or> se_bodyOnly (sg_env sg)" "touching \<longrightarrow> 0 < rp_startIdx q"
  shows "related own tru \<Longrightarrow> 0 < n \<Longrightarrow> run_inv sg p n True c \<Longrightarrow> run_inv sg p (n + k) True t \<Longrightarrow>
    run_pair p touching q v k c hs t gs \<Longrightarrow>
    \<exists>c' own' hs' t' tru' gs' pv'.
      ref_lines sg ls n (WRun c, own, Some pv) = ((WRun c', own', Some pv'), hs') \<and>
      ref_lines sg ls (n + k) (WRun t, tru, Some pv) = ((WRun t', tru', Some pv'), gs') \<and>
      run_inv sg p (n + k + int (length ls)) True t' \<and>
      run_pair p touching q v k c' (hs @ hs') t' (gs @ gs')"
proof (induction ls arbitrary: n own tru c t hs gs pv)
  case Nil
  then show ?case by simp
next
  case (Cons l0 ls)
  obtain l own1 where o: "observe own l0 = (l, own1)" by force
  obtain tru1 where t: "observe tru l0 = (l, tru1)" "related own1 tru1"
    using related_line [OF Cons.prems(1), of l0] related_observe [OF Cons.prems(1), of l0] o
    by (cases "observe tru l0") auto
  let ?same = "ref_same sg (Some pv) l"
  obtain c1 hs1 where c1: "run_line sg p own1 l n ?same c = (c1, hs1)" by force
  obtain t1 gs1 where t1: "run_line sg p tru1 l (n + k) ?same t = (t1, gs1)" by force
  have inv: "run_inv sg p (n + 1) True c1" "run_inv sg p (n + k + 1) True t1"
    using run_inv_line [OF Cons.prems(3)] run_inv_line [OF Cons.prems(4)] c1 t1 by (metis fst_conv)+
  have "run_pair p touching q v k c1 (hs @ hs1) t1 (gs @ gs1)"
    using run_pair_line [OF t(2) k Cons.prems(2) _ _ q _ Cons.prems(5), where l = l and same = ?same]
      Cons.prems(3,4) c1 t1 by (simp add: run_inv_def)
  from Cons.IH [OF t(2) _ inv(1) _ this, of "(lview l, llength l)"] inv(2) Cons.prems(2)
  obtain c' own' hs' t' tru' gs' pv' where
    "ref_lines sg ls (n + 1) (WRun c1, own1, Some (lview l, llength l)) = ((WRun c', own', Some pv'), hs')"
    "ref_lines sg ls (n + 1 + k) (WRun t1, tru1, Some (lview l, llength l)) = ((WRun t', tru', Some pv'), gs')"
    "run_inv sg p (n + 1 + k + int (length ls)) True t'"
    "run_pair p touching q v k c' ((hs @ hs1) @ hs') t' ((gs @ gs1) @ gs')"
    by (auto simp: algebra_simps)
  moreover have comm: "n + k + 1 = n + 1 + k" "n + k + int (length (l0 # ls)) = n + 1 + k + int (length ls)" by simp_all
  ultimately show ?case
    unfolding comm using o t(1) sig_run_line [OF kind, of own1 l n ?same c] c1
      sig_run_line [OF kind, of tru1 l "n + k" ?same t] t1
    by (intro exI [of _ c'] exI [of _ own'] exI [of _ "hs1 @ hs'"] exI [of _ t'] exI [of _ tru']
        exI [of _ "gs1 @ gs'"] exI [of _ pv']) (simp add: comm(1))
qed

lemma run_pair_chunk:
  assumes kind: "sg_kind sg = KRun p" and k: "0 < k" and rel: "related own tru"
    and v: "run_inv sg p k (prev \<noteq> None) v" "rw_open v \<longrightarrow> 0 < rp_startIdx (rw_cur v)"
    and view: "prev \<noteq> None \<longrightarrow> rp_mode p = RunSame \<longrightarrow> view = fst (the prev)"
    and q: "q = (if rp_mode p = RunSame then build_piece (sg_env sg) view (rw_cur v) else rw_cur v)"
    and touching: "touching \<longleftrightarrow> rw_open v \<and> (rp_mode p = RunSame \<longrightarrow> ref_same sg prev l0)"
  shows "\<exists>c own' hs t tru' gs pv.
      ref_lines sg (l0 # ls) 0 (WRun new_run_walker, own, None) = ((WRun c, own', Some pv), hs) \<and>
      ref_lines sg (l0 # ls) k (WRun v, tru, prev) = ((WRun t, tru', Some pv), gs) \<and>
      run_inv sg p (k + int (length (l0 # ls))) True t \<and> run_pair p touching q v k c hs t gs"
proof -
  obtain l own1 where o: "observe own l0 = (l, own1)" by force
  obtain tru1 where t: "observe tru l0 = (l, tru1)" "related own1 tru1"
    using related_line [OF rel, of l0] related_observe [OF rel, of l0] o
    by (cases "observe tru l0") auto
  have keys: "lview l = lview l0" "llength l = llength l0"
    using o by (auto simp: observe_def split: option.splits prod.splits)
  let ?same = "ref_same sg prev l"
  have same0: "ref_same sg None l = False" by (simp add: ref_same_def)
  obtain c1 hs1 where c1: "run_line sg p own1 l 0 False new_run_walker = (c1, hs1)" by force
  obtain t1 gs1 where t1: "run_line sg p tru1 l k ?same v = (t1, gs1)" by force
  have some: "?same \<longrightarrow> prev \<noteq> None" by (cases prev) (simp_all add: ref_same_def)
  have new: "run_inv sg p 0 False new_run_walker" by (simp add: run_inv_def new_run_walker_def)
  have inv: "run_inv sg p (0 + 1) True c1" "run_inv sg p (k + 1) True t1"
    using run_inv_line [OF new, of False own1 l] run_inv_line [OF v(1) some] c1 t1 by (metis fst_conv)+
  have eq: "rp_mode p = RunSame \<and> ?same \<longrightarrow> rw_open v \<and> view = lview l"
    using v(1) some view by (auto simp: run_inv_def ref_same_def keys_equal_def split: option.splits)
  have same: "ref_same sg prev l0 = ?same" by (cases prev) (simp_all add: ref_same_def keys split: prod.split)
  have qual: "rw_qualifiedAt v < k" using v(1) by (simp add: run_inv_def)
  have "run_pair p touching q v k c1 hs1 t1 gs1"
    using run_pair_first [OF t(2) k qual v(2) _ eq q, of touching] touching same c1 t1 by simp
  moreover have "rp_mode p = RunSame \<longrightarrow> rp_hasEx q \<or> se_bodyOnly (sg_env sg)"
    using build_piece_has q by auto
  moreover have "touching \<longrightarrow> 0 < rp_startIdx q" using touching v(2) q by auto
  ultimately obtain c' own' hs' t' tru' gs' pv' where
    "ref_lines sg ls (0 + 1) (WRun c1, own1, Some (lview l, llength l)) = ((WRun c', own', Some pv'), hs')"
    "ref_lines sg ls (0 + 1 + k) (WRun t1, tru1, Some (lview l, llength l)) = ((WRun t', tru', Some pv'), gs')"
    "run_inv sg p (0 + 1 + k + int (length ls)) True t'"
    "run_pair p touching q v k c' (hs1 @ hs') t' (gs1 @ gs')"
    using run_pair_lines [OF kind k _ _ t(2) _ inv(1), where q = q and touching = touching and v = v and t = t1
        and hs = hs1 and gs = gs1 and pv = "(lview l, llength l)" and ls = ls] inv(2)
    by (auto simp: algebra_simps)
  then show ?thesis
    using o t(1) sig_run_line [OF kind, of own1 l 0 False new_run_walker] c1
      sig_run_line [OF kind, of tru1 l k ?same v] t1 same0
    by (intro exI [of _ c'] exI [of _ own'] exI [of _ "hs1 @ hs'"] exI [of _ t'] exI [of _ tru']
        exI [of _ "gs1 @ gs'"] exI [of _ pv']) (simp add: algebra_simps)
qed

end

end
