(* ===== verification/ScanEdges.thy ===== *)
theory ScanEdges
  imports ScanRuns
begin

text \<open>
  The pieces of runs that a chunk reports at its edges, in the merger: \<^verbatim>\<open>mergeRuns\<close> joins them
  into the runs of the reference walk.
\<close>

section \<open>The merger and pieces\<close>

definition holds :: "merger \<Rightarrow> raw_finding list \<Rightarrow> bool" where
  "holds m fs \<longleftrightarrow> stored_ok m fs \<and> mg_count m = int (length fs)"

definition same_piece :: "bool \<Rightarrow> run_piece \<Rightarrow> run_piece \<Rightarrow> bool" where
  "same_piece exact q q' \<longleftrightarrow> erase q = erase q' \<and> (exact \<longrightarrow> q = q')"

lemma same_piece_mono: "same_piece a q q' \<Longrightarrow> (b \<longrightarrow> a) \<Longrightarrow> same_piece b q q'"
  by (auto simp: same_piece_def)

lemma same_piece_moved: "same_piece e q q' \<Longrightarrow> same_piece e (renumbered.move_piece k q) (renumbered.move_piece k q')"
  by (auto simp: same_piece_def erase_def renumbered.move_piece_def)

lemma same_piece_lines: "same_piece e q q' \<Longrightarrow> piece_lines q = piece_lines q'"
  by (auto simp: same_piece_def erase_def piece_lines_def)

lemma take_agree: "cap \<le> length fs \<Longrightarrow> take cap (fs @ gs) = take cap (fs @ hs)"
  by simp

lemma stored_ok_alike:
  assumes "stored_ok m (fs @ gs)" and "length gs = length hs" and "length fs < mg_cap m \<longrightarrow> gs = hs"
  shows "stored_ok m (fs @ hs)"
proof (cases "length fs < mg_cap m")
  case False
  then show ?thesis using assms(1,2) by (auto simp: stored_ok_def)
qed (use assms in simp)

text \<open>\<open>m'\<close> has the same bound and place in the text, and the flag is never cleared.\<close>

definition later :: "merger \<Rightarrow> merger \<Rightarrow> bool" where
  "later m m' \<longleftrightarrow> mg_cap m' = mg_cap m \<and> mg_base m' = mg_base m \<and>
     mg_lastStamp m' = mg_lastStamp m \<and> (mg_full m \<longrightarrow> mg_full m')"

lemma emit_run_ok:
  assumes ok: "holds m fs" and q: "same_piece (length fs < mg_cap m) (renumbered.move_piece 1 q) q'"
  shows "holds (emit_run sg p q m) (fs @ ended_piece p q')" and "later m (emit_run sg p q m)"
    and "mg_hasRun (emit_run sg p q m) = mg_hasRun m"
proof -
  have lines: "piece_lines q = piece_lines q'" using same_piece_lines [OF q] by simp
  have eq: "emit_run sg p q m = (if piece_lines q < rp_min p then m else absorb [piece_finding q] 1 True m)"
    by (simp add: emit_run_def emit_piece_def absorb_def)
  have pf: "map (renumber 1) [piece_finding q] = [piece_finding (renumbered.move_piece 1 q)]"
    by (simp add: piece_finding_def renumbered.move_piece_def renumbered.move_def)
  have st: "stored_ok m fs" using ok by (simp add: holds_def)
  note ab = absorb_ok [OF st, of "[piece_finding q]" 1 True, unfolded pf]
  have "stored_ok (absorb [piece_finding q] 1 True m) (fs @ [piece_finding q'])"
    by (rule stored_ok_alike [OF ab(1)]) (use q in \<open>auto simp: same_piece_def\<close>)
  then show "holds (emit_run sg p q m) (fs @ ended_piece p q')"
    using ok ab(2) lines by (simp add: eq holds_def ended_piece_def)
  show "later m (emit_run sg p q m)" "mg_hasRun (emit_run sg p q m) = mg_hasRun m"
    using absorb_full by (simp_all add: eq later_def)
qed

lemma close_run_ok:
  assumes ok: "holds m fs"
    and q: "mg_hasRun m \<longrightarrow> same_piece (length fs < mg_cap m) (renumbered.move_piece 1 (mg_run m)) q'"
  shows "holds (close_run sg p m) (fs @ (if mg_hasRun m then ended_piece p q' else []))"
    and "later m (close_run sg p m)" and "\<not> mg_hasRun (close_run sg p m)"
proof -
  let ?m = "m\<lparr>mg_hasRun := False\<rparr>"
  have m: "holds ?m fs" using ok by (simp add: holds_def stored_ok_def)
  have "holds (close_run sg p m) (fs @ (if mg_hasRun m then ended_piece p q' else [])) \<and>
    later m (close_run sg p m) \<and> \<not> mg_hasRun (close_run sg p m)"
  proof (cases "mg_hasRun m")
    case True
    have "same_piece (length fs < mg_cap ?m) (renumbered.move_piece 1 (mg_run m)) q'" using q True by simp
    from emit_run_ok [OF m this, of sg p] True show ?thesis by (simp add: close_run_def later_def)
  next
    case False
    then show ?thesis using ok by (simp add: close_run_def later_def)
  qed
  then show "holds (close_run sg p m) (fs @ (if mg_hasRun m then ended_piece p q' else []))"
    "later m (close_run sg p m)" "\<not> mg_hasRun (close_run sg p m)" by blast+
qed

section \<open>A chunk's runs in the merger\<close>

definition in_same :: "compiled_sig \<Rightarrow> run_program \<Rightarrow> bytes \<Rightarrow> run_piece \<Rightarrow> run_piece" where
  "in_same sg p view q = (if rp_mode p = RunSame then build_piece (sg_env sg) view q else q)"

definition whole_run :: "run_walker \<Rightarrow> bool" where
  "whole_run c \<longleftrightarrow> rw_open c \<and> rp_startIdx (rw_cur c) = 0"

text \<open>What a chunk, settled, reports of its own walk: \<open>c\<close> is the walker after its last line.\<close>

definition run_result ::
  "compiled_sig \<Rightarrow> run_program \<Rightarrow> time_source option \<Rightarrow> merger \<Rightarrow> bytes \<Rightarrow> run_walker \<Rightarrow> raw_finding list
   \<Rightarrow> chunk_result \<Rightarrow> bool" where
  "run_result sg p src m view c hs res \<longleftrightarrow>
     (let mv = chunked.move_piece src (mg_lastStamp m) 0; e = cr_runs res; built = in_same sg p view (rw_cur c)
      in chunk_holds (mg_cap m) (mg_full m) (map (settled src (mg_lastStamp m)) hs) (cr_findings res) (cr_count res) \<and>
         e_whole e = whole_run c \<and> e_hasLeading e = (rw_hasLeading c \<or> whole_run c) \<and>
         e_hasTrailing e = (rw_open c \<and> \<not> whole_run c) \<and>
         (e_hasLeading e \<longrightarrow>
            same_piece (\<not> mg_full m) (e_leading e) (mv (if whole_run c then built else rw_leading c))) \<and>
         (e_hasTrailing e \<longrightarrow> same_piece (\<not> mg_full m) (e_trailing e) (mv built)))"

lemma piece_moves: "renumbered.move_piece k (chunked.move_piece src carry 0 q) = chunked.move_piece src carry k q"
  "renumbered.move_piece 1 (absolute m q) = renumbered.move_piece (mg_base m + 1) q"
  by (simp_all add: renumbered.move_piece_def chunked.move_piece_def absolute_def)

lemma holds_full: "holds m fs \<Longrightarrow> length fs < mg_cap m \<Longrightarrow> \<not> mg_full m"
  by (auto simp: holds_def stored_ok_def)

lemma later_trans: "later m m1 \<Longrightarrow> later m1 m2 \<Longrightarrow> later m m2"
  by (auto simp: later_def)

lemma take_full: "mg_full m \<Longrightarrow> mg_full (merger_take fs c m)"
  by (simp add: merger_take_def merger_note_full_def)

text \<open>The end of \<^verbatim>\<open>mergeRuns\<close>: the runs inside the chunk, and the one that leaves it.\<close>

definition merge_rest :: "chunk_result \<Rightarrow> merger \<Rightarrow> merger" where
  "merge_rest res m =
     (let m1 = merger_take (cr_findings res) (cr_count res) m
      in if e_hasTrailing (cr_runs res)
         then m1\<lparr>mg_run := absolute m1 (e_trailing (cr_runs res)), mg_hasRun := True\<rparr> else m1)"

lemma merge_rest_ok:
  assumes m1: "holds m1 fs" "later m m1" "\<not> mg_hasRun m1" and res: "run_result sg p src m view c hs res"
  defines "k \<equiv> mg_base m + 1"
  shows "holds (merge_rest res m1) (fs @ map (chunked.move src (mg_lastStamp m) k) hs)"
    and "later m (merge_rest res m1)" and "mg_hasRun (merge_rest res m1) = (rw_open c \<and> \<not> whole_run c)"
    and "rw_open c \<and> \<not> whole_run c \<Longrightarrow> same_piece (length fs < mg_cap m) (renumbered.move_piece 1 (mg_run (merge_rest res m1)))
      (chunked.move_piece src (mg_lastStamp m) k (in_same sg p view (rw_cur c)))"
proof -
  have sel: "mg_cap m1 = mg_cap m" "mg_base m1 = mg_base m" "mg_full m \<longrightarrow> mg_full m1"
    using m1(2) by (simp_all add: later_def)
  have ch: "chunk_holds (mg_cap m1) (mg_full m1) (map (settled src (mg_lastStamp m)) hs) (cr_findings res) (cr_count res)"
    using res sel by (auto simp: run_result_def Let_def intro: chunk_holds_mono)
  have st: "stored_ok m1 fs" using m1(1) by (simp add: holds_def)
  have mp: "map (renumber (mg_base m1 + 1)) (map (settled src (mg_lastStamp m)) hs) = map (chunked.move src (mg_lastStamp m) k) hs"
    by (simp add: k_def sel(2) o_def flip: settled_move)
  have tk: "holds (merger_take (cr_findings res) (cr_count res) m1) (fs @ map (chunked.move src (mg_lastStamp m) k) hs)"
    using take_chunk_ok [OF st ch, unfolded mp] m1(1) by (simp add: holds_def)
  then show "holds (merge_rest res m1) (fs @ map (chunked.move src (mg_lastStamp m) k) hs)"
    by (simp add: merge_rest_def Let_def holds_def stored_ok_def)
  show "later m (merge_rest res m1)" "mg_hasRun (merge_rest res m1) = (rw_open c \<and> \<not> whole_run c)"
    using m1(2,3) res take_full [of m1] by (auto simp: merge_rest_def Let_def later_def run_result_def)
  assume trailing: "rw_open c \<and> \<not> whole_run c"
  then have "same_piece (\<not> mg_full m) (e_trailing (cr_runs res))
      (chunked.move_piece src (mg_lastStamp m) 0 (in_same sg p view (rw_cur c)))" "e_hasTrailing (cr_runs res)"
    using res by (auto simp: run_result_def Let_def)
  from same_piece_moved [OF this(1), of k] this(2)
  show "same_piece (length fs < mg_cap m) (renumbered.move_piece 1 (mg_run (merge_rest res m1)))
      (chunked.move_piece src (mg_lastStamp m) k (in_same sg p view (rw_cur c)))"
    using holds_full [OF m1(1)] sel
    by (auto simp: merge_rest_def Let_def piece_moves k_def intro: same_piece_mono)
qed

lemma merge_runs_eq:
  assumes "touching \<longleftrightarrow> mg_hasRun m \<and> e_hasLeading (cr_runs res) \<and>
    (rp_mode p \<noteq> RunSame \<or> keys_equal (mg_lastView m) (mg_lastLen m) (cr_firstView res) (cr_firstLen res))"
    and "m1 = m\<lparr>mg_run := (mg_run m)\<lparr>rp_endIdx := mg_base m + rp_endIdx (e_leading (cr_runs res)),
      rp_endOff := rp_endOff (e_leading (cr_runs res))\<rparr>\<rparr>"
    and "m2 = close_run sg p m"
  shows "merge_runs sg p res m =
     (if touching then (if e_whole (cr_runs res) then m1 else merge_rest res (close_run sg p m1))
      else if e_hasLeading (cr_runs res)
      then (if e_whole (cr_runs res) then m2\<lparr>mg_run := absolute m2 (e_leading (cr_runs res)), mg_hasRun := True\<rparr>
            else merge_rest res (emit_run sg p (absolute m2 (e_leading (cr_runs res))) m2))
      else merge_rest res m2)"
  unfolding assms by (simp only: merge_runs_def merge_rest_def Let_def)

lemma merge_runs_ok:
  assumes m: "holds m fs" and hasRun: "mg_hasRun m = rw_open v"
    and run: "rw_open v \<longrightarrow> same_piece (length fs < mg_cap m) (renumbered.move_piece 1 (mg_run m)) q"
    and q: "rw_open v \<longrightarrow> ended_piece p q = ended p v" "rp_mode p = RunSame \<longrightarrow> rp_hasEx q \<or> se_bodyOnly (sg_env sg)"
    and res: "run_result sg p src m view c hs res"
    and pair: "chunked.run_pair src (mg_lastStamp m) p touching q v (mg_base m + 1) c hs t gs"
    and touching: "touching \<longleftrightarrow> rw_open v \<and> (rp_mode p \<noteq> RunSame \<or> keys_equal (mg_lastView m) (mg_lastLen m) (cr_firstView res) (cr_firstLen res))"
  defines "m' \<equiv> merge_runs sg p res m"
  shows "holds m' (fs @ gs) \<and> later m m' \<and> mg_hasRun m' = rw_open t \<and>
    (rw_open t \<longrightarrow> same_piece (length (fs @ gs) < mg_cap m) (renumbered.move_piece 1 (mg_run m')) (in_same sg p view (rw_cur t)))"
proof -
  let ?k = "mg_base m + 1" and ?mv = "chunked.move_piece src (mg_lastStamp m)"
  let ?e = "cr_runs res" and ?built = "in_same sg p view (rw_cur c)"
  define lead where "lead = (if whole_run c then ?built else rw_leading c)"
  have r: "e_whole ?e = whole_run c" "e_hasLeading ?e = (rw_hasLeading c \<or> whole_run c)"
    "e_hasLeading ?e \<longrightarrow> same_piece (\<not> mg_full m) (e_leading ?e) (?mv 0 lead)"
    using res by (auto simp: run_result_def Let_def lead_def)
  have t_eq: "\<not> whole_run c \<Longrightarrow> rw_open t = rw_open c \<and> (rw_open c \<longrightarrow> rw_cur t = ?mv ?k (rw_cur c))"
    using pair by (auto simp: chunked.run_pair_def whole_run_def split: if_splits)
  have in_moved: "in_same sg p view (?mv ?k (rw_cur c)) = ?mv ?k ?built"
    by (simp add: in_same_def chunked.moved_build)
  have close: "holds (close_run sg p m) (fs @ ended p v)" "later m (close_run sg p m)" "\<not> mg_hasRun (close_run sg p m)"
    using close_run_ok [OF m, of q sg p] run q(1) hasRun by (auto simp: ended_def)
  have fin: "?thesis" if nw: "\<not> whole_run c" and m2: "holds m2 (fs @ pre)" "later m m2" "\<not> mg_hasRun m2"
    and gs: "gs = pre @ map (chunked.move src (mg_lastStamp m) ?k) hs" and eq: "m' = merge_rest res m2" for m2 pre
  proof -
    note rest = merge_rest_ok [OF m2 res, folded eq]
    have h: "holds m' (fs @ gs)" using rest(1) by (simp add: gs)
    have o: "mg_hasRun m' = rw_open t" using rest(3) t_eq [OF nw] nw by simp
    have "same_piece (length (fs @ gs) < mg_cap m) (renumbered.move_piece 1 (mg_run m')) (in_same sg p view (rw_cur t))"
      if "rw_open t"
    proof -
      have c: "rw_open c \<and> \<not> whole_run c" "rw_cur t = ?mv ?k (rw_cur c)" using t_eq [OF nw] nw that by simp_all
      show ?thesis by (rule same_piece_mono [OF rest(4) [OF c(1), folded in_moved c(2)]]) (simp add: gs)
    qed
    then show ?thesis using h o rest(2) by blast
  qed
  show ?thesis
  proof (cases "e_hasLeading ?e")
    case False
    then have nw: "\<not> whole_run c" "\<not> rw_hasLeading c" using r(2) by simp_all
    have gs: "gs = ended p v @ map (chunked.move src (mg_lastStamp m) ?k) hs"
      using pair nw by (auto simp: chunked.run_pair_def whole_run_def split: if_splits)
    have "m' = merge_rest res (close_run sg p m)"
      using False merge_runs_eq [OF _ refl refl, of False m res p sg] by (simp add: m'_def)
    then show ?thesis by (rule fin [OF nw(1) close gs])
  next
    case True
    note lead = r(3) [rule_format, OF True]
    have lead_k: "same_piece e (renumbered.move_piece 1 (absolute m2 (e_leading ?e))) (?mv ?k lead)"
      if "e \<longrightarrow> \<not> mg_full m" "mg_base m2 = mg_base m" for e m2
      using same_piece_mono [OF same_piece_moved [OF lead, of ?k] that(1)] that(2) by (simp add: piece_moves)
    have now: "touching \<longleftrightarrow> mg_hasRun m \<and> e_hasLeading ?e \<and>
        (rp_mode p \<noteq> RunSame \<or> keys_equal (mg_lastView m) (mg_lastLen m) (cr_firstView res) (cr_firstLen res))"
      using touching True hasRun by simp
    note eqs = merge_runs_eq [OF now refl refl, of sg, folded m'_def]
    have ends: "rp_endIdx (e_leading ?e) = rp_endIdx lead" "rp_endOff (e_leading ?e) = rp_endOff lead"
      using lead by (auto simp: same_piece_def erase_def chunked.move_piece_def)
    show ?thesis
    proof (cases touching)
      case touch: True
      let ?m1 = "m\<lparr>mg_run := (mg_run m)\<lparr>rp_endIdx := mg_base m + rp_endIdx lead, rp_endOff := rp_endOff lead\<rparr>\<rparr>"
      let ?q1 = "q\<lparr>rp_endIdx := rp_endIdx lead + ?k, rp_endOff := rp_endOff lead\<rparr>"
      have opn: "rw_open v" using touch touching by simp
      have m1: "holds ?m1 fs" "later m ?m1" "mg_hasRun ?m1"
        using m opn hasRun by (simp_all add: holds_def stored_ok_def later_def)
      have q1: "same_piece (length fs < mg_cap m) (renumbered.move_piece 1 (mg_run ?m1)) ?q1"
        using run opn by (auto simp: same_piece_def erase_def renumbered.move_piece_def)
      show ?thesis
      proof (cases "whole_run c")
        case True
        have eq: "m' = ?m1" using True touch r(1) eqs by (simp add: ends)
        have t: "gs = []" "rw_open t" "rw_cur t = chunked.ends_at q ?k (rw_cur c)"
          using pair True touch by (simp_all add: chunked.run_pair_def whole_run_def)
        have "in_same sg p view (rw_cur t) = ?q1"
          using q(2) True by (auto simp: t(3) in_same_def chunked.ends_at_def lead_def build_ends build_piece_id)
        then show ?thesis using m1 q1 t eq by simp
      next
        case False
        have eq: "m' = merge_rest res (close_run sg p ?m1)"
          using False touch r(1) eqs by (simp add: ends)
        have cl: "holds (close_run sg p ?m1) (fs @ ended_piece p ?q1)" "later m (close_run sg p ?m1)"
          "\<not> mg_hasRun (close_run sg p ?m1)"
          using close_run_ok [OF m1(1), of ?q1 sg p] q1 m1(2,3) later_trans [OF m1(2)] by auto
        have gs: "gs = ended_piece p ?q1 @ map (chunked.move src (mg_lastStamp m) ?k) hs"
          using pair False True r(2) touch
          by (auto simp: chunked.run_pair_def whole_run_def lead_def chunked.ends_at_def split: if_splits)
        show ?thesis by (rule fin [OF False cl gs eq])
      qed
    next
      case apart: False
      let ?m2 = "close_run sg p m"
      have base: "mg_base ?m2 = mg_base m" "mg_cap ?m2 = mg_cap m" using close(2) by (simp_all add: later_def)
      have full: "length (fs @ ended p v) < mg_cap m \<longrightarrow> \<not> mg_full m" using holds_full [OF m] by auto
      show ?thesis
      proof (cases "whole_run c")
        case True
        have eq: "m' = ?m2\<lparr>mg_run := absolute ?m2 (e_leading ?e), mg_hasRun := True\<rparr>"
          using True apart \<open>e_hasLeading ?e\<close> r(1) eqs by simp
        have t: "gs = ended p v" "rw_open t" "rw_cur t = ?mv ?k (rw_cur c)"
          using pair True apart by (simp_all add: chunked.run_pair_def whole_run_def)
        show ?thesis
          using close lead_k [OF full base(1)] t True in_moved eq
          by (simp add: lead_def holds_def stored_ok_def later_def)
      next
        case False
        have eq: "m' = merge_rest res (emit_run sg p (absolute ?m2 (e_leading ?e)) ?m2)"
          using False apart \<open>e_hasLeading ?e\<close> r(1) eqs by simp
        have lk: "same_piece (length (fs @ ended p v) < mg_cap ?m2) (renumbered.move_piece 1 (absolute ?m2 (e_leading ?e))) (?mv ?k lead)"
          using lead_k [OF full base(1)] base(2) by simp
        note em = emit_run_ok [OF close(1) lk, of sg p]
        have "\<not> mg_hasRun (emit_run sg p (absolute ?m2 (e_leading ?e)) ?m2)" using em(3) close(3) by simp
        note em2 = em(1) later_trans [OF close(2) em(2)] this
        have gs: "gs = (ended p v @ ended_piece p (?mv ?k lead)) @ map (chunked.move src (mg_lastStamp m) ?k) hs"
          using pair False True r(2) apart
          by (auto simp: chunked.run_pair_def whole_run_def lead_def split: if_splits)
        show ?thesis by (rule fin [OF False _ em2(2,3) gs eq]) (use em2(1) in simp)
      qed
    qed
  qed
qed

section \<open>What a chunk reports of its runs\<close>

lemma edges_ok:
  fixes sg :: compiled_sig
  assumes sim: "chunk.run_sim s r c" and F: "cs_full s \<longrightarrow> F"
    and view: "rp_mode p = RunSame \<longrightarrow> view' = view"
  defines "e \<equiv> run_edges_of (sg_env sg) p chunk_ops view' s r"
  shows "e_whole e = whole_run c" and "e_hasLeading e = (rw_hasLeading c \<or> whole_run c)"
    and "e_hasTrailing e = (rw_open c \<and> \<not> whole_run c)"
    and "e_hasLeading e \<longrightarrow>
      same_piece (\<not> F) (e_leading e) (if whole_run c then in_same sg p view (rw_cur c) else rw_leading c)"
    and "e_hasTrailing e \<longrightarrow> same_piece (\<not> F) (e_trailing e) (in_same sg p view (rw_cur c))"
proof -
  have er: "erase_walker r = erase_walker c" and eq: "\<not> F \<longrightarrow> r = c"
    using sim [unfolded chunk.run_sim_def] F by (auto simp: chunk_ops_def chunk_may_store_def)
  note sel = erase_walker_sel [OF er]
  define r1 where "r1 = (if rp_mode p = RunSame then run_build_excerpt (sg_env sg) p chunk_ops view' None s r else r)"
  have er1: "erase_walker r1 = erase_walker r" by (simp add: r1_def)
  have cur: "same_piece (\<not> F) (rw_cur r1) (in_same sg p view (rw_cur c))"
  proof -
    have "erase (rw_cur r1) = erase (rw_cur r)" using erase_walker_sel(4) [OF er1] .
    moreover have "rw_cur r1 = in_same sg p view (rw_cur c)" if nf: "\<not> F"
    proof -
      have "op_mayStore chunk_ops s" using nf F by (simp add: chunk_ops_def chunk_may_store_def)
      then have "run_build_excerpt (sg_env sg) p chunk_ops view' None s r = run_build_excerpt (sg_env sg) p tape_ops view' None [] r"
        by (intro run_build_ops) simp
      then show ?thesis
        using eq nf view by (cases "rp_mode p = RunSame") (simp_all add: r1_def in_same_def run_build_eq)
    qed
    ultimately show ?thesis using sel(4) by (simp add: same_piece_def in_same_def)
  qed
  have start: "rp_startIdx (rw_cur r1) = rp_startIdx (rw_cur c)"
    using erase_walker_sel(6) [OF er1] sel(6) by simp
  have e: "e = (if \<not> rw_open c
      then \<lparr>e_leading = rw_leading r, e_hasLeading = rw_hasLeading c, e_whole = False, e_trailing = zero_piece, e_hasTrailing = False\<rparr>
      else if whole_run c
      then \<lparr>e_leading = rw_cur r1, e_hasLeading = True, e_whole = True, e_trailing = zero_piece, e_hasTrailing = False\<rparr>
      else \<lparr>e_leading = rw_leading r, e_hasLeading = rw_hasLeading c, e_whole = False, e_trailing = rw_cur r1, e_hasTrailing = True\<rparr>)"
    unfolding e_def run_edges_of_def Let_def r1_def [symmetric] start by (simp add: sel whole_run_def)
  have lead: "same_piece (\<not> F) (rw_leading r) (rw_leading c)" using sel(5) eq by (auto simp: same_piece_def)
  show "e_whole e = whole_run c" "e_hasLeading e = (rw_hasLeading c \<or> whole_run c)"
    "e_hasTrailing e = (rw_open c \<and> \<not> whole_run c)"
    by (auto simp: e whole_run_def)
  show "e_hasLeading e \<longrightarrow> same_piece (\<not> F) (e_leading e) (if whole_run c then in_same sg p view (rw_cur c) else rw_leading c)"
    "e_hasTrailing e \<longrightarrow> same_piece (\<not> F) (e_trailing e) (in_same sg p view (rw_cur c))"
    using lead cur by (auto simp: e whole_run_def)
qed

lemma settle_piece_move: "settle_piece carry (ts_lookback t) q = chunked.move_piece (Some t) carry 0 q"
  by (simp add: settle_piece_def chunked.move_piece_def retime_of_def)

lemma move_piece_None: "chunked.move_piece None carry 0 q = q"
  by (simp add: chunked.move_piece_def retime_of_def)

lemma same_piece_settled:
  "same_piece e q q' \<Longrightarrow> same_piece e (chunked.move_piece src carry k q) (chunked.move_piece src carry k q')"
  by (auto simp: same_piece_def erase_def chunked.move_piece_def)

lemma walk_views:
  assumes "has_same sg"
  shows "wk_firstView (walk_lines sg fulls (l0 # ls) (new_walk sg src cap)) = lview l0"
    and "wk_firstLen (walk_lines sg fulls (l0 # ls) (new_walk sg src cap)) = llength l0"
proof -
  let ?W = "walk_line sg (fulls 0) l0 (new_walk sg src cap)"
  have "wk_idx ?W > 0" by (simp add: walk_line_def new_walk_def Let_def split: prod.split)
  moreover have "wk_firstView ?W = lview l0" "wk_firstLen ?W = llength l0"
    using assms by (auto simp: walk_line_def new_walk_def Let_def observe_def split: prod.split option.split)
  ultimately show "wk_firstView (walk_lines sg fulls (l0 # ls) (new_walk sg src cap)) = lview l0"
    "wk_firstLen (walk_lines sg fulls (l0 # ls) (new_walk sg src cap)) = llength l0"
    using walk_lines_first [of ?W] by simp_all
qed

lemma chunk_run_result:
  assumes kind: "sg_kind sg = KRun p" and fulls: "\<forall>i. fulls i \<longrightarrow> mg_full m"
    and c: "ref_lines sg (l0 # ls) 0 (WRun new_run_walker, chunk_tracker src, None) = ((WRun c, own', Some pv), hs)"
    and res: "res = settle_times src (mg_lastStamp m) (chunk_walk sg src (mg_cap m) fulls (l0 # ls) final)"
  shows "run_result sg p src m (fst pv) c hs res"
    and "cr_lines res = int (length (l0 # ls))" and "cr_lastStamp res = tt_last (track (l0 # ls) (chunk_tracker src))"
    and "has_same sg \<Longrightarrow> cr_firstView res = lview l0 \<and> cr_firstLen res = llength l0 \<and>
      cr_lastView res = fst pv \<and> cr_lastLen res = snd pv"
proof -
  have new: "chunk_start sg src = (WRun new_run_walker, chunk_tracker src, None)"
    using kind by (simp add: chunk_start_def new_walker_def chunk_tracker_def)
  define W where "W = walk_lines sg fulls (l0 # ls) (new_walk sg src (mg_cap m))"
  have inv: "walk_inv sg (mg_cap m) (mg_full m) (WRun c, own', Some pv) hs W" and idx: "wk_idx W = int (length (l0 # ls))"
    using chunk_walk_inv [OF fulls [rule_format] c [folded new], where cap = "mg_cap m"] by (simp_all only: W_def)
  from inv have i: "wk_times W = own'" "sink_inv (mg_cap m) (mg_full m) hs (wk_sink W)"
    "chunk.walker_sim (wk_sink W) (wk_walker W) (WRun c)" "has_same sg \<Longrightarrow> pv = (wk_prevView W, wk_prevLen W)"
    by (simp_all add: walk_inv_def)
  from i(3) obtain r where r: "wk_walker W = WRun r" "chunk.run_sim (wk_sink W) r c"
    by (auto simp: chunk.walker_sim_def split: walker.splits)
  have own': "own' = track (l0 # ls) (chunk_tracker src)" using ref_lines_track [OF c] .
  have same: "has_same sg \<longleftrightarrow> rp_mode p = RunSame" using kind by (simp add: has_same_def)
  let ?f = "walk_finish sg final W"
  have fin: "cr_findings ?f = cs_findings (wk_sink W)" "cr_pending ?f = cs_pending (wk_sink W)"
    "cr_count ?f = cs_count (wk_sink W)" "cr_lines ?f = int (length (l0 # ls))"
    "cr_lastStamp ?f = tt_last own'" "cr_firstView ?f = wk_firstView W" "cr_firstLen ?f = wk_firstLen W"
    "cr_lastView ?f = (if has_same sg then wk_prevView W else [])" "cr_lastLen ?f = (if has_same sg then wk_prevLen W else 0)"
    "cr_runs ?f = run_edges_of (sg_env sg) p chunk_ops (wk_prevView W) (wk_sink W) r"
    using idx by (simp_all add: walk_finish_def kind r(1) i(1))
  have res': "res = settle_times src (mg_lastStamp m) ?f" by (simp only: res chunk_walk_def W_def)
  have sel: "cr_lines res = cr_lines ?f" "cr_lastStamp res = cr_lastStamp ?f" "cr_firstView res = cr_firstView ?f"
    "cr_firstLen res = cr_firstLen ?f" "cr_lastView res = cr_lastView ?f" "cr_lastLen res = cr_lastLen ?f"
    "cr_count res = cr_count ?f"
    by (simp_all add: res' settle_times_def Let_def split: option.split)
  show "cr_lines res = int (length (l0 # ls))" "cr_lastStamp res = tt_last (track (l0 # ls) (chunk_tracker src))"
    by (simp_all only: sel fin own')
  show "cr_firstView res = lview l0 \<and> cr_firstLen res = llength l0 \<and> cr_lastView res = fst pv \<and> cr_lastLen res = snd pv"
    if "has_same sg"
    using walk_views [OF that, of fulls l0 ls src "mg_cap m"] i(4) [OF that] that
    unfolding sel fin W_def [symmetric] by simp
  have ch: "chunk_holds (mg_cap m) (mg_full m) (map (settled src (mg_lastStamp m)) hs) (cr_findings res) (cr_count res)"
    using settled_findings [OF i(2), of src "mg_lastStamp m"]
    by (cases src) (simp_all add: res' settle_times_def Let_def fin)
  have full: "cs_full (wk_sink W) \<longrightarrow> mg_full m" using i(2) by (simp add: sink_inv_def)
  have view: "rp_mode p = RunSame \<longrightarrow> wk_prevView W = fst pv" using i(4) same by simp
  note e = edges_ok [OF r(2) full view, of sg, folded fin(10)]
  let ?mv = "chunked.move_piece src (mg_lastStamp m) 0"
  have runs: "e_whole (cr_runs res) = e_whole (cr_runs ?f)" "e_hasLeading (cr_runs res) = e_hasLeading (cr_runs ?f)"
    "e_hasTrailing (cr_runs res) = e_hasTrailing (cr_runs ?f)" "e_leading (cr_runs res) = ?mv (e_leading (cr_runs ?f))"
    "e_trailing (cr_runs res) = ?mv (e_trailing (cr_runs ?f))"
    by (cases src; simp add: res' settle_times_def Let_def settle_piece_move move_piece_None)+
  show "run_result sg p src m (fst pv) c hs res"
    unfolding run_result_def Let_def runs using ch e same_piece_settled by auto
qed

end
