(* ===== verification/ScanText.thy ===== *)
theory ScanText
  imports ScanEdges
begin

text \<open>
  A whole scan: however the text is cut into chunks, and whenever their walks see that enough has
  been stored, the merge holds what one walk over the whole text finds.
\<close>

section \<open>Between chunks\<close>

definition run_ok ::
  "compiled_sig \<Rightarrow> run_program \<Rightarrow> merger \<Rightarrow> run_walker \<Rightarrow> (bytes \<times> int) option \<Rightarrow> raw_finding list \<Rightarrow> bool" where
  "run_ok sg p m v prev fs \<longleftrightarrow> mg_hasRun m = rw_open v \<and> run_inv sg p (mg_base m + 1) (prev \<noteq> None) v \<and>
     (rw_open v \<longrightarrow> 0 < rp_startIdx (rw_cur v) \<and>
        same_piece (length fs < mg_cap m) (renumbered.move_piece 1 (mg_run m)) (in_same sg p (mg_lastView m) (rw_cur v))) \<and>
     (has_same sg \<longrightarrow> prev \<noteq> None \<longrightarrow> prev = Some (mg_lastView m, mg_lastLen m))"

definition state_ok :: "compiled_sig \<Rightarrow> merger \<Rightarrow> walker \<Rightarrow> (bytes \<times> int) option \<Rightarrow> raw_finding list \<Rightarrow> bool" where
  "state_ok sg m w prev fs \<longleftrightarrow>
     (case sg_kind sg of
        KRun p \<Rightarrow> (\<exists>v. w = WRun v \<and> run_ok sg p m v prev fs)
      | KBlock p \<Rightarrow> (\<exists>b. w = WBlock b \<and> carry_ok m b fs)
      | _ \<Rightarrow> w = WLine)"

text \<open>The merger has taken the chunks of the lines \<open>ls\<close>, and the text goes on.\<close>

definition merged :: "compiled_sig \<Rightarrow> time_source option \<Rightarrow> line list \<Rightarrow> merger \<Rightarrow> bool" where
  "merged sg src ls m \<longleftrightarrow>
     (\<exists>w prev fs. ref_lines sg ls 1 (ref_start sg src) = ((w, true_tracker src (mg_lastStamp m), prev), fs) \<and>
        holds m fs \<and> mg_base m = int (length ls) \<and> state_ok sg m w prev fs)"

text \<open>The merger has taken all of the text.\<close>

definition all_merged :: "compiled_sig \<Rightarrow> time_source option \<Rightarrow> line list \<Rightarrow> merger \<Rightarrow> bool" where
  "all_merged sg src ls m \<longleftrightarrow> holds (merger_close sg m) (ref_findings sg src ls)"

text \<open>Signature files ask for at least two equal lines (\<^verbatim>\<open>internal/signatures/kinds.go\<close>).\<close>

definition same_min_ok :: "compiled_sig \<Rightarrow> bool" where
  "same_min_ok sg = (case sg_kind sg of KRun p \<Rightarrow> rp_mode p = RunSame \<longrightarrow> 2 \<le> rp_min p | _ \<Rightarrow> True)"

lemma ended_in_same:
  assumes "sg_kind sg = KRun p" and "same_min_ok sg" and "run_inv sg p idx some v" and "rw_open v"
  shows "ended_piece p (in_same sg p view (rw_cur v)) = ended p v"
proof (cases "rp_mode p = RunSame")
  case True
  show ?thesis
  proof (cases "2 \<le> piece_lines (rw_cur v)")
    case two: True
    then have "rp_hasEx (rw_cur v) \<or> se_bodyOnly (sg_env sg)"
      using assms(3,4) True by (simp add: run_inv_def)
    then show ?thesis using assms(4) by (simp add: in_same_def build_piece_id ended_def)
  next
    case False
    then show ?thesis
      using assms(1,2,4) True by (simp add: in_same_def ended_def ended_piece_def same_min_ok_def)
  qed
qed (use assms(4) in \<open>simp add: in_same_def ended_def\<close>)

lemma merged_start: "merged sg src [] (new_merger cap)"
  by (simp add: merged_def ref_start_def true_tracker_def new_merger_def holds_def stored_ok_def state_ok_def
      new_walker_def run_ok_def run_inv_def new_run_walker_def carry_ok_def begun_before_def new_block_walker_def
      split: sig_kind.split)

section \<open>The end of the text\<close>

lemma put_closed:
  assumes "holds m fs"
  shows "holds (absorb gs k True m) (fs @ map (renumber k) gs)"
  using assms absorb_ok [of m fs gs k True] by (simp add: holds_def)

lemma merged_finish:
  assumes m: "merged sg src ls m" and min: "same_min_ok sg"
  shows "all_merged sg src ls m"
proof -
  obtain w prev fs where w: "ref_lines sg ls 1 (ref_start sg src) = ((w, true_tracker src (mg_lastStamp m), prev), fs)"
    "holds m fs" "state_ok sg m w prev fs"
    using m by (auto simp: merged_def)
  have ref: "ref_findings sg src ls = fs @ ref_finish sg w" by (simp add: ref_findings_def w(1))
  show ?thesis
  proof (cases "sg_kind sg")
    case (KRun p)
    then obtain v where v: "w = WRun v" "run_ok sg p m v prev fs" using w(3) by (auto simp: state_ok_def)
    have cl: "holds (close_run sg p m) (fs @ (if mg_hasRun m then ended_piece p (in_same sg p (mg_lastView m) (rw_cur v)) else []))"
      using close_run_ok(1) [OF w(2), of "in_same sg p (mg_lastView m) (rw_cur v)" sg p] v(2) by (auto simp: run_ok_def)
    have "(if mg_hasRun m then ended_piece p (in_same sg p (mg_lastView m) (rw_cur v)) else []) = ref_finish sg w"
    proof (cases "rw_open v")
      case True
      have "run_inv sg p (mg_base m + 1) (prev \<noteq> None) v" using v(2) by (simp add: run_ok_def)
      from ended_in_same [OF KRun min this True, of "mg_lastView m"] True v(2) show ?thesis
        by (simp add: run_ok_def ref_finish_def KRun v(1) ended_def ended_piece_def)
    next
      case False
      then show ?thesis using v(2) by (simp add: run_ok_def ref_finish_def KRun v(1))
    qed
    then show ?thesis using cl by (simp add: all_merged_def merger_close_def KRun ref)
  next
    case (KBlock p)
    then obtain b where b: "w = WBlock b" "carry_ok m b fs" using w(3) by (auto simp: state_ok_def)
    have fin: "ref_finish sg w = closing sg p b" by (simp add: ref_finish_def KBlock b(1) closing_def)
    show ?thesis
    proof (cases "bw_open b")
      case False
      then show ?thesis
        using w(2) b(2) by (simp add: all_merged_def merger_close_def KBlock ref fin closing_def carry_ok_def)
    next
      case True
      let ?k = "mg_base m + 1"
      obtain st where st: "mg_carry m = Some st" "block_key (renumbered.move_block ?k st) = block_key (bw_st b)"
        "length fs < mg_cap m \<longrightarrow> renumbered.move_block ?k st = bw_st b"
        using b(2) True by (auto simp: carry_ok_def)
      define t where "t = \<lparr>bw_open = True, bw_st = renumbered.move_block (- ?k) (bw_st b), bw_joinedAt = - (2 ^ 62)\<rparr>"
      let ?b = "\<lparr>bw_open = True, bw_st = st, bw_joinedAt = - (2 ^ 62)\<rparr>"
      have key: "block_key st = block_key (bw_st t)"
        using key_moved [OF st(2), of "- ?k"] by (simp add: t_def)
      have full: "st = bw_st t" if "length fs < mg_cap m"
      proof -
        have "bw_st b = renumbered.move_block ?k st" using st(3) that by simp
        then show ?thesis by (simp add: t_def)
      qed
      have ok: "stored_ok m fs" using w(2) by (simp add: holds_def)
      have sim: "merging.block_sim (store_sink m ?k True) ?b t"
        using key full stored_ok_may [OF ok] by (auto simp: merging.block_sim_def block_alike_def t_def)
      have "closing sg p b = closing sg p (renumbered.move_walker ?k t)"
        by (rule closing_sim) (simp add: tape_block_sim True t_def)
      then have cl: "closing sg p b = map (renumber ?k) (closing sg p t)" by (simp add: closing_moved)
      have "merger_close sg m = (absorb (closing sg p t) ?k True m)\<lparr>mg_carry := None\<rparr>"
        using truth_close [OF ok sim, of sg p]
        by (simp add: merger_close_def KBlock st(1) finish_at_end_def)
      then show ?thesis
        using put_closed [OF w(2), of "closing sg p t" ?k] by (simp add: all_merged_def ref fin cl holds_def)
    qed
  qed (use w in \<open>auto simp: all_merged_def merger_close_def ref ref_finish_def state_ok_def\<close>)
qed

section \<open>One chunk\<close>

text \<open>What every chunk does to the merger once its signature is done with it.\<close>

definition add_end :: "compiled_sig \<Rightarrow> chunk_result \<Rightarrow> merger \<Rightarrow> merger" where
  "add_end sg res m1 = m1\<lparr>mg_base := mg_base m1 + cr_lines res, mg_textEnd := cr_end res,
     mg_stamped := mg_stamped m1 + cr_stamped res,
     mg_lastView := (if has_same sg then cr_lastView res else mg_lastView m1),
     mg_lastLen := (if has_same sg then cr_lastLen res else mg_lastLen m1),
     mg_lastStamp := (if sr_ok (cr_lastStamp res) then cr_lastStamp res else mg_lastStamp m1)\<rparr>"

lemma holds_add_end [simp]: "holds (add_end sg res m) fs = holds m fs"
  by (simp add: add_end_def holds_def stored_ok_def)

lemma add_end_sel [simp]: "mg_base (add_end sg res m) = mg_base m + cr_lines res" "mg_cap (add_end sg res m) = mg_cap m"
  "mg_carry (add_end sg res m) = mg_carry m" "mg_hasRun (add_end sg res m) = mg_hasRun m" "mg_run (add_end sg res m) = mg_run m"
  "mg_lastView (add_end sg res m) = (if has_same sg then cr_lastView res else mg_lastView m)"
  "mg_lastLen (add_end sg res m) = (if has_same sg then cr_lastLen res else mg_lastLen m)"
  "mg_lastStamp (add_end sg res m) = (if sr_ok (cr_lastStamp res) then cr_lastStamp res else mg_lastStamp m)"
  by (simp_all add: add_end_def)

lemma chunk_walk_lines_len:
  "cr_lines (settle_times src carry (chunk_walk sg src cap fulls ls final)) = int (length ls)"
  "cr_final (settle_times src carry (chunk_walk sg src cap fulls ls final)) = final"
proof -
  have "wk_idx (walk_lines sg fulls ls W) = wk_idx W + int (length ls)" for W
  proof (induction ls arbitrary: fulls W)
    case (Cons l ls)
    have "wk_idx (walk_line sg (fulls 0) l W) = wk_idx W + 1" by (simp add: walk_line_def Let_def split: prod.split)
    then show ?case using Cons.IH [of "fulls \<circ> Suc" "walk_line sg (fulls 0) l W"] by (simp add: o_def)
  qed simp
  then show "cr_lines (settle_times src carry (chunk_walk sg src cap fulls ls final)) = int (length ls)"
    "cr_final (settle_times src carry (chunk_walk sg src cap fulls ls final)) = final"
    by (simp_all add: settle_times_def chunk_walk_def walk_finish_def new_walk_def Let_def split: option.split prod.split)
qed

lemma merger_add_eq:
  assumes "ls \<noteq> []" and "res = settle_times src (mg_lastStamp m) (chunk_walk sg src cap fulls ls final)"
  shows "merger_add sg src (chunk_walk sg src cap fulls ls final) ls m = add_end sg res
    (case sg_kind sg of
       KRun p \<Rightarrow> merge_runs sg p res m
     | KBlock p \<Rightarrow>
         (case mg_carry m of
            Some st \<Rightarrow> replay_blocks sg p src res ls st m
          | None \<Rightarrow> (merger_take (cr_findings res) (cr_count res) m)\<lparr>mg_carry := carried (cr_open res) (cr_lines res)\<rparr>)
     | _ \<Rightarrow> merger_take (cr_findings res) (cr_count res) m)"
proof -
  have "cr_lines (chunk_walk sg src cap fulls ls final) \<noteq> 0"
    using chunk_walk_lines_len(1) [of src no_stamp sg cap fulls ls final] assms(1)
    by (simp add: settle_times_def Let_def split: option.splits)
  then show ?thesis by (simp only: merger_add_def add_end_def Let_def assms(2) if_False)
qed

text \<open>Regex and value signatures: a chunk's findings, with their times settled, are the text's.\<close>

lemma line_chunk:
  assumes kind: "\<And>p. sg_kind sg \<noteq> KRun p" "\<And>p. sg_kind sg \<noteq> KBlock p" and fulls: "\<forall>i. fulls i \<longrightarrow> mg_full m"
    and m: "holds m fs"
    and ref: "ref_lines sg ls k (WLine, true_tracker src (mg_lastStamp m), prev) = ((w, tt, prev'), gs)"
    and k: "k = mg_base m + 1"
    and res: "res = settle_times src (mg_lastStamp m) (chunk_walk sg src (mg_cap m) fulls ls final)"
  shows "holds (merger_take (cr_findings res) (cr_count res) m) (fs @ gs)" and "w = WLine"
    and "cr_lastStamp res = tt_last (track ls (chunk_tracker src))"
proof -
  have kinds: "(\<exists>x. sg_kind sg = KRegex x) \<or> (\<exists>x. sg_kind sg = KValue x)"
    using kind by (cases "sg_kind sg") blast+
  have new: "chunk_start sg src = (WLine, chunk_tracker src, None)"
    using kinds by (auto simp: chunk_start_def new_walker_def chunk_tracker_def)
  obtain c own' pv hs where c: "ref_lines sg ls 0 (WLine, chunk_tracker src, None) = ((c, own', pv), hs)"
    by (metis prod.collapse)
  have same: "\<not> has_same sg" using kinds by (auto simp: has_same_def)
  define W where "W = walk_lines sg fulls ls (new_walk sg src (mg_cap m))"
  have inv: "walk_inv sg (mg_cap m) (mg_full m) (c, own', pv) hs W"
    using chunk_walk_inv(1) [OF fulls [rule_format] c [folded new], where cap = "mg_cap m"] by (simp only: W_def)
  from inv have i: "wk_times W = own'" "sink_inv (mg_cap m) (mg_full m) hs (wk_sink W)" by (simp_all add: walk_inv_def)
  have fin: "cr_findings (walk_finish sg final W) = cs_findings (wk_sink W)"
    "cr_pending (walk_finish sg final W) = cs_pending (wk_sink W)" "cr_count (walk_finish sg final W) = cs_count (wk_sink W)"
    "cr_lastStamp (walk_finish sg final W) = tt_last own'"
    using kinds by (auto simp: walk_finish_def i(1))
  have res': "res = settle_times src (mg_lastStamp m) (walk_finish sg final W)" by (simp only: res chunk_walk_def W_def)
  have ch: "chunk_holds (mg_cap m) (mg_full m) (map (settled src (mg_lastStamp m)) hs) (cr_findings res) (cr_count res)"
    using settled_findings [OF i(2), of src "mg_lastStamp m"]
    by (cases src) (simp_all add: res' settle_times_def Let_def fin)
  have "own' = track ls (chunk_tracker src)" using ref_lines_track [OF c] .
  then show "cr_lastStamp res = tt_last (track ls (chunk_tracker src))"
    by (cases src) (simp_all add: res' settle_times_def Let_def fin)
  have any: "chunked.move_any src carry j WLine = WLine" for carry j by (simp add: chunked.move_any_def)
  obtain tru' where "ref_lines sg ls k (WLine, true_tracker src (mg_lastStamp m), None) =
      ((chunked.move_any src (mg_lastStamp m) k c, tru', pv), map (chunked.move src (mg_lastStamp m) k) hs)"
    using chunked.moved_ref_lines [OF related_start [of src "mg_lastStamp m"] kind(1) c, where k = k] any by auto
  then have eq: "gs = map (chunked.move src (mg_lastStamp m) k) hs" "w = chunked.move_any src (mg_lastStamp m) k c"
    using ref_lines_prev [OF same, of ls k WLine "true_tracker src (mg_lastStamp m)" prev None] ref by simp_all
  have "stored_ok m fs" using m by (simp add: holds_def)
  from take_chunk_ok [OF this ch] m
  show "holds (merger_take (cr_findings res) (cr_count res) m) (fs @ gs)"
    by (simp add: holds_def eq(1) k o_def flip: settled_move)
  have "fst (fst (ref_lines sg ls j (WLine, t, q))) = WLine" for j t q
    using kinds by (induction ls arbitrary: j t q) (auto simp: sig_line_def case_prod_beta)
  then show "w = WLine" using ref by (metis fst_conv)
qed

lemma tracker_after:
  assumes "ref_lines sg ls k (w, true_tracker src stamp, prev) = ((w', tt, prev'), gs)"
    and "cr_lastStamp res = tt_last (track ls (chunk_tracker src))" and "mg_lastStamp m1 = stamp"
  shows "tt = true_tracker src (mg_lastStamp (add_end sg res m1))"
  using ref_lines_track [OF assms(1)] track_true [of ls src stamp] assms(2,3) by simp

lemma merged_chunk:
  fixes "final" :: bool
  assumes m: "merged sg src ls0 m" and min: "same_min_ok sg" and ls: "ls \<noteq> []" and fulls: "\<forall>i. fulls i \<longrightarrow> mg_full m"
  defines "m' \<equiv> merger_add sg src (chunk_walk sg src (mg_cap m) fulls ls final) ls m"
  shows "if final then all_merged sg src (ls0 @ ls) m' else merged sg src (ls0 @ ls) m'" and "mg_cap m' = mg_cap m"
proof -
  define res where "res = settle_times src (mg_lastStamp m) (chunk_walk sg src (mg_cap m) fulls ls final)"
  note len = chunk_walk_lines_len [of src "mg_lastStamp m" sg "mg_cap m" fulls ls final, folded res_def]
  obtain w prev fs where w: "ref_lines sg ls0 1 (ref_start sg src) = ((w, true_tracker src (mg_lastStamp m), prev), fs)"
    "holds m fs" "mg_base m = int (length ls0)" "state_ok sg m w prev fs"
    using m by (auto simp: merged_def)
  let ?k = "mg_base m + 1"
  obtain w' tt prev' gs where g: "ref_lines sg ls ?k (w, true_tracker src (mg_lastStamp m), prev) = ((w', tt, prev'), gs)"
    by (metis prod.collapse)
  have ref: "ref_lines sg (ls0 @ ls) 1 (ref_start sg src) = ((w', tt, prev'), fs @ gs)"
    using g w(3) by (simp add: ref_lines_append w(1) add.commute)
  have base: "mg_base m + cr_lines res = int (length (ls0 @ ls))" using w(3) len by simp
  note m' = merger_add_eq [OF ls res_def, folded m'_def]
  have "(if final then all_merged sg src (ls0 @ ls) m' else merged sg src (ls0 @ ls) m') \<and> mg_cap m' = mg_cap m"
  proof (cases "sg_kind sg")
    case (KRun p)
    obtain v where v: "w = WRun v" "run_ok sg p m v prev fs" using w(4) by (auto simp: state_ok_def KRun)
    obtain l0 ls' where cons: "ls = l0 # ls'" using ls by (cases ls) auto
    define touching where "touching \<longleftrightarrow> rw_open v \<and> (rp_mode p = RunSame \<longrightarrow> ref_same sg prev l0)"
    define q where "q = in_same sg p (mg_lastView m) (rw_cur v)"
    have same: "has_same sg \<longleftrightarrow> rp_mode p = RunSame" by (simp add: has_same_def KRun)
    have inv: "run_inv sg p ?k (prev \<noteq> None) v" using v(2) by (simp add: run_ok_def)
    have start: "rw_open v \<longrightarrow> 0 < rp_startIdx (rw_cur v)" using v(2) by (simp add: run_ok_def)
    have view: "prev \<noteq> None \<longrightarrow> rp_mode p = RunSame \<longrightarrow> mg_lastView m = fst (the prev)"
      using v(2) same by (auto simp: run_ok_def)
    have "0 < ?k" using w(3) by simp
    obtain c own' hs t tru' pv where ct:
      "ref_lines sg ls 0 (WRun new_run_walker, chunk_tracker src, None) = ((WRun c, own', Some pv), hs)"
      "w' = WRun t" "prev' = Some pv" "run_inv sg p (?k + int (length ls)) True t"
      "chunked.run_pair src (mg_lastStamp m) p touching q v ?k c hs t gs"
      using chunked.run_pair_chunk [OF KRun \<open>0 < ?k\<close> related_start [of src "mg_lastStamp m"] inv start view _ touching_def, where q = q and ?ls = ls'] g v(1)
      unfolding cons q_def in_same_def by (auto simp del: ref_lines.simps)
    note r = chunk_run_result [OF KRun fulls ct(1) [unfolded cons] res_def [unfolded cons]]
    have q2: "rp_mode p = RunSame \<longrightarrow> rp_hasEx q \<or> se_bodyOnly (sg_env sg)"
      using build_piece_has by (auto simp: q_def in_same_def)
    have tch: "touching \<longleftrightarrow> rw_open v \<and> (rp_mode p \<noteq> RunSame \<or> keys_equal (mg_lastView m) (mg_lastLen m) (cr_firstView res) (cr_firstLen res))"
    proof (cases "rw_open v \<and> rp_mode p = RunSame")
      case True
      then have "prev = Some (mg_lastView m, mg_lastLen m)"
        using inv v(2) same by (auto simp: run_inv_def run_ok_def)
      then show ?thesis using True r(4) same by (simp add: touching_def ref_same_def)
    next
      case False
      then show ?thesis by (auto simp: touching_def)
    qed
    define m1 where "m1 = merge_runs sg p res m"
    have m1: "holds m1 (fs @ gs)" "later m m1" "mg_hasRun m1 = rw_open t"
      "rw_open t \<longrightarrow> same_piece (length (fs @ gs) < mg_cap m) (renumbered.move_piece 1 (mg_run m1)) (in_same sg p (fst pv) (rw_cur t))"
      using merge_runs_ok [OF w(2) _ _ _ q2 r(1) ct(5) tch] v(2) ended_in_same [OF KRun min inv, of "mg_lastView m"]
      by (auto simp: run_ok_def q_def m1_def)
    have m'_eq: "m' = add_end sg res m1" using m' by (simp add: KRun m1_def)
    have pos: "rw_open t \<longrightarrow> 0 < rp_startIdx (rw_cur t)"
      using ct(5) start \<open>0 < ?k\<close> by (auto simp: chunked.run_pair_def touching_def q_def in_same_def split: if_splits)
    have b: "mg_base m1 = mg_base m" "mg_cap m1 = mg_cap m" using m1(2) by (simp_all add: later_def)
    have view': "has_same sg \<longrightarrow> cr_lastView res = fst pv \<and> cr_lastLen res = snd pv" using r(4) by blast
    have "in_same sg p (mg_lastView m') (rw_cur t) = in_same sg p (fst pv) (rw_cur t)"
      using view' same by (auto simp: in_same_def m'_eq)
    then have "run_ok sg p m' t prev' (fs @ gs)"
      using ct(3,4) m1(3,4) pos b view' r(2) cons by (auto simp: run_ok_def m'_eq algebra_simps)
    moreover have "tt = true_tracker src (mg_lastStamp m')"
      using tracker_after [OF g] r(3) cons m1(2) by (simp add: m'_eq later_def)
    ultimately have "merged sg src (ls0 @ ls) m'"
      using ref m1(1) base b by (auto simp: merged_def state_ok_def KRun ct(2) m'_eq)
    then show ?thesis using merged_finish [OF _ min] b(2) by (simp add: m'_eq)
  next
    case (KBlock p)
    obtain b where b: "w = WBlock b" "carry_ok m b fs" using w(4) by (auto simp: state_ok_def KBlock)
    obtain b' where b': "block_lines sg p ls ?k (true_tracker src (mg_lastStamp m)) b = (b', gs)" "w' = WBlock b'"
      using ref_block_lines [OF KBlock, of ls ?k b "true_tracker src (mg_lastStamp m)" prev] g b(1) by (auto simp: prod_eq_iff)
    define m1 where "m1 = (case mg_carry m of
            Some st \<Rightarrow> replay_blocks sg p src res ls st m
          | None \<Rightarrow> (merger_take (cr_findings res) (cr_count res) m)\<lparr>mg_carry := carried (cr_open res) (cr_lines res)\<rparr>)"
    have ok: "stored_ok m fs" "mg_count m = int (length fs)" using w(2) by (simp_all add: holds_def)
    note bc = block_chunk [OF KBlock fulls ok b(2) b'(1) res_def m1_def]
    have m'_eq: "m' = add_end sg res m1" using m' by (simp add: KBlock m1_def)
    have fr: "mg_cap m1 = mg_cap m" "mg_base m1 = mg_base m" "mg_lastStamp m1 = mg_lastStamp m"
      using bc(1) by (simp_all add: frame_def)
    show ?thesis
    proof (cases "final")
      case True
      have "ref_findings sg src (ls0 @ ls) = fs @ gs @ closing sg p b'"
        by (simp add: ref_findings_def ref ref_finish_def KBlock b'(2) closing_def)
      then show ?thesis
        using True bc(2-4) fr(1) by (simp add: all_merged_def merger_close_def KBlock m'_eq) (simp add: holds_def)
    next
      case False
      obtain c hs where c: "block_lines sg p ls 0 (chunk_tracker src) new_block_walker = (c, hs)" by force
      have "tt = true_tracker src (mg_lastStamp m')"
        using tracker_after [OF g chunk_block_result(3) [OF KBlock fulls c res_def] fr(3)] by (simp add: m'_eq)
      moreover have "carry_ok m' b' (fs @ gs)"
        using bc(4) False len fr by (cases "bw_open b'") (simp_all add: carry_ok_def m'_eq)
      ultimately have "merged sg src (ls0 @ ls) m'"
        using False ref bc(2,3) base fr by (auto simp: merged_def state_ok_def KBlock b'(2) m'_eq) (simp_all add: holds_def)
      then show ?thesis using False fr(1) by (simp add: m'_eq)
    qed
  next
    case (KRegex x)
    have wl: "w = WLine" using w(4) by (simp add: state_ok_def KRegex)
    note lc = line_chunk [OF _ _ fulls w(2) g [unfolded wl] refl res_def]
    have "holds (merger_take (cr_findings res) (cr_count res) m) (fs @ gs)" "w' = WLine"
      "cr_lastStamp res = tt_last (track ls (chunk_tracker src))"
      using lc KRegex by simp_all
    moreover have eq: "m' = add_end sg res (merger_take (cr_findings res) (cr_count res) m)" using m' by (simp add: KRegex)
    moreover have "tt = true_tracker src (mg_lastStamp m')"
      using tracker_after [OF g calculation(3)] by (simp add: eq)
    ultimately have "merged sg src (ls0 @ ls) m'" using ref base by (auto simp: merged_def state_ok_def KRegex)
    then show ?thesis using merged_finish [OF _ min] by (simp add: eq)
  next
    case (KValue x)
    have wl: "w = WLine" using w(4) by (simp add: state_ok_def KValue)
    note lc = line_chunk [OF _ _ fulls w(2) g [unfolded wl] refl res_def]
    have "holds (merger_take (cr_findings res) (cr_count res) m) (fs @ gs)" "w' = WLine"
      "cr_lastStamp res = tt_last (track ls (chunk_tracker src))"
      using lc KValue by simp_all
    moreover have eq: "m' = add_end sg res (merger_take (cr_findings res) (cr_count res) m)" using m' by (simp add: KValue)
    moreover have "tt = true_tracker src (mg_lastStamp m')"
      using tracker_after [OF g calculation(3)] by (simp add: eq)
    ultimately have "merged sg src (ls0 @ ls) m'" using ref base by (auto simp: merged_def state_ok_def KValue)
    then show ?thesis using merged_finish [OF _ min] by (simp add: eq)
  qed
  then show "if final then all_merged sg src (ls0 @ ls) m' else merged sg src (ls0 @ ls) m'" "mg_cap m' = mg_cap m"
    by blast+
qed


section \<open>The whole scan\<close>

text \<open>The chunk whose walk reached the end of the text is the last that has lines.\<close>

fun last_final :: "text_chunk list \<Rightarrow> bool" where
  "last_final [] = True"
| "last_final (c # cs) = ((tc_final c \<and> tc_lines c \<noteq> [] \<longrightarrow> (\<forall>d \<in> set cs. tc_lines d = [])) \<and> last_final cs)"

lemma scan_chunk_empty: "tc_lines c = [] \<Longrightarrow> scan_chunk sg src c m = m"
  using chunk_walk_lines_len(1) [of src no_stamp sg "mg_cap m" "\<lambda>i. tc_fulls c i \<and> mg_full m" "[]" "tc_final c"]
  by (simp add: scan_chunk_def merger_add_def settle_times_def Let_def split: option.splits)

lemma scan_chunk_merged:
  assumes "merged sg src ls0 m" and "same_min_ok sg" and "tc_lines c \<noteq> []"
  shows "if tc_final c then all_merged sg src (ls0 @ tc_lines c) (scan_chunk sg src c m)
      else merged sg src (ls0 @ tc_lines c) (scan_chunk sg src c m)"
    and "mg_cap (scan_chunk sg src c m) = mg_cap m"
proof -
  have "\<forall>i. tc_fulls c i \<and> mg_full m \<longrightarrow> mg_full m" by blast
  note mc = merged_chunk [OF assms this, of "tc_final c", folded scan_chunk_def]
  show "if tc_final c then all_merged sg src (ls0 @ tc_lines c) (scan_chunk sg src c m)
      else merged sg src (ls0 @ tc_lines c) (scan_chunk sg src c m)" by (rule mc(1))
  show "mg_cap (scan_chunk sg src c m) = mg_cap m" by (rule mc(2))
qed

lemma scan_rest:
  assumes "merged sg src ls0 m" and "same_min_ok sg" and "last_final chunks"
  shows "all_merged sg src (ls0 @ concat (map tc_lines chunks)) (fold (scan_chunk sg src) chunks m) \<and>
    mg_cap (fold (scan_chunk sg src) chunks m) = mg_cap m"
  using assms
proof (induction chunks arbitrary: ls0 m)
  case Nil
  then show ?case using merged_finish by simp
next
  case (Cons c cs)
  show ?case
  proof (cases "tc_lines c = []")
    case True
    then show ?thesis using Cons scan_chunk_empty by simp
  next
    case False
    note one = scan_chunk_merged [OF Cons.prems(1,2) False]
    show ?thesis
    proof (cases "tc_final c")
      case True
      then have empty: "\<forall>d \<in> set cs. tc_lines d = []" using Cons.prems(3) False by simp
      have idle: "fold (scan_chunk sg src) cs n = n" for n
        using empty by (induction cs) (simp_all add: scan_chunk_empty)
      have "concat (map tc_lines (c # cs)) = tc_lines c" using empty by simp
      then show ?thesis using one True idle unfolding \<open>concat (map tc_lines (c # cs)) = tc_lines c\<close> by simp
    next
      case nf: False
      have "merged sg src (ls0 @ tc_lines c) (scan_chunk sg src c m)" using one(1) nf by simp
      from Cons.IH [OF this Cons.prems(2)] Cons.prems(3) one(2) show ?thesis by simp
    qed
  qed
qed

lemma merger_close_cap: "mg_cap (merger_close sg m) = mg_cap m"
  by (simp add: merger_close_def close_run_def emit_run_def put_sink_def Let_def split: sig_kind.split option.split)

lemma scan_chunks_holds:
  assumes "same_min_ok sg" and "last_final chunks"
  shows "holds (scan_chunks sg src cap chunks) (ref_findings sg src (concat (map tc_lines chunks)))"
    and "mg_cap (scan_chunks sg src cap chunks) = cap"
  using scan_rest [OF merged_start assms, of src cap] merger_close_cap
  by (simp_all add: scan_chunks_def all_merged_def) (simp add: new_merger_def)

text \<open>
  One signature, before \<^verbatim>\<open>finish\<close> looks at shares and bodies: its state holds the first findings of
  the one walk, as many as its bound, and the count of all.
\<close>

lemma scan_chunks_findings:
  assumes "same_min_ok sg" and "last_final chunks"
  shows "mg_stored (scan_chunks sg src cap chunks) =
      take cap (map (\<lambda>f. to_finding f 0) (ref_findings sg src (concat (map tc_lines chunks)))) \<and>
    mg_count (scan_chunks sg src cap chunks) = int (length (ref_findings sg src (concat (map tc_lines chunks))))"
  using scan_chunks_holds [OF assms, of src cap] by (simp add: holds_def stored_ok_def as_findings_def)

text \<open>
  The findings of a scan do not depend on how many workers cut the text, or where: two
  scans whose chunks hold the same lines store the same findings and count as many.
\<close>

lemma scan_chunks_independent:
  assumes "same_min_ok sg" and "last_final chunks" and "last_final chunks'"
    and "concat (map tc_lines chunks) = concat (map tc_lines chunks')"
  shows "mg_stored (scan_chunks sg src cap chunks) = mg_stored (scan_chunks sg src cap chunks') \<and>
    mg_count (scan_chunks sg src cap chunks) = mg_count (scan_chunks sg src cap chunks')"
  using scan_chunks_holds [OF assms(1,2), of src cap] scan_chunks_holds [OF assms(1,3), of src cap] assms(4)
  by (simp add: holds_def stored_ok_def)

section \<open>A line of a text\<close>

definition plain_line :: "bytes \<Rightarrow> int \<Rightarrow> line" where
  "plain_line v at_off = \<lparr>lview = v, llength = int (length v), lstart = at_off, lnext = at_off + int (length v) + 1,
     lshift = 0, stamped = False, stampMs = 0, stampOff = 0\<rparr>"

end
