(* ===== verification/ScanOrder.thy ===== *)
theory ScanOrder
  imports ScanText
begin

text \<open>
  The order of what a walk over a text finds, for every kind of signature: its findings start one
  after the other and end inside the text. The merge relies on it when a body recorder finds more
  bodies than it keeps (\<^verbatim>\<open>bodyRanges\<close> of \<^verbatim>\<open>merge.go\<close>).
\<close>

section \<open>The findings of a walk come in order\<close>

text \<open>
  Findings in order: they start at or after \<open>s\<close>, each not before the one ahead of it, and end
  before the line \<open>idx\<close>.
\<close>

definition in_order :: "int \<Rightarrow> int \<Rightarrow> raw_finding list \<Rightarrow> bool" where
  "in_order s idx fs \<longleftrightarrow> sorted (map rf_startIdx fs) \<and>
     (\<forall>f \<in> set fs. s \<le> rf_startIdx f \<and> rf_startIdx f \<le> rf_endIdx f \<and> rf_endIdx f < idx)"

text \<open>What is open began at or after \<open>s\<close>, and goes on before the line \<open>idx\<close>.\<close>

definition opened :: "int \<Rightarrow> int \<Rightarrow> walker \<Rightarrow> bool" where
  "opened s idx w \<longleftrightarrow>
     (case w of
        WLine \<Rightarrow> True
      | WRun r \<Rightarrow> rw_open r \<longrightarrow> s \<le> rp_startIdx (rw_cur r) \<and> rp_startIdx (rw_cur r) \<le> rp_endIdx (rw_cur r) \<and> rp_endIdx (rw_cur r) < idx
      | WBlock b \<Rightarrow> bw_open b \<longrightarrow> s \<le> st_startIdx (bw_st b) \<and> st_startIdx (bw_st b) \<le> st_lastIdx (bw_st b) \<and> st_lastIdx (bw_st b) < idx \<and>
          1 \<le> st_lines (bw_st b) \<and> st_startIdx (bw_st b) + st_lines (bw_st b) \<le> idx)"

text \<open>What a step hands over, and what stays open behind it.\<close>

definition step_order :: "int \<Rightarrow> int \<Rightarrow> walker \<times> raw_finding list \<Rightarrow> bool" where
  "step_order s idx out \<longleftrightarrow>
     (case out of (w, fs) \<Rightarrow> in_order s (idx + 1) fs \<and>
        (\<exists>s'. s \<le> s' \<and> s' \<le> idx \<and> (\<forall>f \<in> set fs. rf_startIdx f \<le> s') \<and> opened s' (idx + 1) w))"

lemma in_order_append:
  assumes "in_order s i fs" and "in_order s' j gs" and "s \<le> s'" and "i \<le> j" and "\<forall>f \<in> set fs. rf_startIdx f \<le> s'"
  shows "in_order s j (fs @ gs)"
  using assms by (fastforce simp: in_order_def sorted_append)

text \<open>An open block closed: all it hands over is the block.\<close>

lemma close_order:
  assumes "opened s idx (WBlock b)" and "bw_open b" and "block_close cs p tape_ops b [] = (b', fs)"
  shows "\<not> bw_open b'" and "length fs \<le> 1" and "in_order s idx fs"
  using assms by (auto simp: in_order_def opened_def block_close_def block_finding_def Let_def split: if_splits)

lemma join_opened:
  assumes "opened s idx (WBlock b)" and "bw_open b"
  shows "opened s (idx + 1) (WBlock (block_join l idx b))" and "bw_open (block_join l idx b) = bw_open b"
  using assms by (auto simp: opened_def block_join_def Let_def)

lemma opened_later: "opened s idx w \<Longrightarrow> idx \<le> j \<Longrightarrow> s' \<le> s \<Longrightarrow> opened s' j w"
  by (auto simp: opened_def split: walker.splits)

lemma in_order_later: "in_order s idx fs \<Longrightarrow> idx \<le> j \<Longrightarrow> in_order s j fs"
  by (force simp: in_order_def)

lemma in_order_few: "in_order s idx fs \<Longrightarrow> length fs \<le> 1 \<Longrightarrow> s \<le> idx \<Longrightarrow>
  \<exists>s'. s \<le> s' \<and> s' \<le> idx \<and> (\<forall>f \<in> set fs. rf_startIdx f \<le> s')"
  by (cases fs) (auto simp: in_order_def intro: exI [of _ "rf_startIdx (hd fs)"])

definition fed :: "int \<Rightarrow> int \<Rightarrow> block_walker \<times> raw_finding list \<Rightarrow> bool" where
  "fed s idx out \<longleftrightarrow>
     (case out of (b, fs) \<Rightarrow> in_order s (idx + 1) fs \<and> length fs \<le> 1 \<and> (bw_open b \<longrightarrow> fs = []) \<and>
        opened s (idx + 1) (WBlock b))"

lemma close_fed:
  assumes "opened s (idx + 1) (WBlock b)" and "bw_open b"
  shows "fed s idx (block_close cs p tape_ops b [])"
proof -
  obtain b' fs where c: "block_close cs p tape_ops b [] = (b', fs)" by force
  with close_order [OF assms c] show ?thesis by (auto simp: fed_def opened_def)
qed

lemma stay_fed: "opened s (idx + 1) (WBlock b) \<Longrightarrow> fed s idx (b, [])"
  by (simp add: fed_def in_order_def)

lemma opened_upd [simp]:
  "opened s idx (WBlock (b\<lparr>bw_st := (bw_st b)\<lparr>st_depth := d\<rparr>\<rparr>)) = opened s idx (WBlock b)"
  "opened s idx (WBlock (b\<lparr>bw_st := (bw_st b)\<lparr>st_remaining := n\<rparr>\<rparr>)) = opened s idx (WBlock b)"
  "opened s idx (WBlock (b\<lparr>bw_st := (bw_st b)\<lparr>st_state := q\<rparr>\<rparr>)) = opened s idx (WBlock b)"
  by (simp_all add: opened_def)

lemma joined_fed:
  assumes "opened s idx (WBlock b)" and "bw_open b"
  shows "fed s idx (block_close cs p tape_ops (block_join l idx b) [])" and "fed s idx (block_join l idx b, [])"
  using join_opened [OF assms, of l] assms(2) by (auto intro: close_fed stay_fed)

lemma feed_fed:
  assumes "opened s idx (WBlock b)" and "bw_open b"
  shows "fed s idx (block_feed cs p tape_ops l idx b [])"
proof -
  have gone: "fed s idx (block_abandon idx c, [])" for c
    by (rule stay_fed) (simp add: opened_def block_abandon_def)
  have keep: "fed s idx (block_close cs p tape_ops b [])"
    using close_fed [OF opened_later [OF assms(1), of "idx + 1" s] assms(2)] by simp
  note j = joined_fed [of s idx "b\<lparr>bw_st := (bw_st b)\<lparr>st_depth := d\<rparr>\<rparr>" for d, simplified, OF assms]
    joined_fed [of s idx "b\<lparr>bw_st := (bw_st b)\<lparr>st_remaining := n\<rparr>\<rparr>" for n, simplified, OF assms]
    joined_fed [of s idx "b\<lparr>bw_st := (bw_st b)\<lparr>st_state := q\<rparr>\<rparr>" for q, simplified, OF assms]
  show ?thesis
    by (auto simp: block_feed_def feed_json_def Let_def gone keep j split: prod.split option.split)
qed

lemma new_fed:
  assumes "bw_st b = st" and "st_startIdx st = idx" and "st_lastIdx st = idx" and "st_lines st = 1" and "bw_open b" 
  shows "fed idx idx (block_close cs p tape_ops b [])" and "fed idx idx (b, [])"
  using assms by (auto simp: opened_def intro!: close_fed stay_fed)

lemma try_open_fed:
  assumes "\<not> bw_open b"
  shows "fed idx idx (try_open cs p tt tape_ops l idx b [])"
proof -
  have same: "fed idx idx (b, [])" using assms by (intro stay_fed) (simp add: opened_def)
  show ?thesis
    by (auto simp: try_open_def try_open_json_def Let_def same zero_block_def intro!: new_fed
        split: prod.split option.split)
qed

lemma step_block_order:
  assumes o: "opened s idx (WBlock b)" and s: "s \<le> idx"
  shows "step_order s idx (map_prod WBlock id (step_block cs p tt tape_ops l idx passed b []))"
proof -
  obtain b1 s1 where f: "(if bw_open b then block_feed cs p tape_ops l idx b [] else (b, [])) = (b1, s1)" by force
  have fed: "fed s idx (b1, s1)"
    using feed_fed [OF o, of cs p l] opened_later [OF o, of "idx + 1" s] f stay_fed [of s idx b] by (auto split: if_splits)
  then have i: "in_order s (idx + 1) s1" "length s1 \<le> 1" "bw_open b1 \<longrightarrow> s1 = []" "opened s (idx + 1) (WBlock b1)"
    by (simp_all add: fed_def)
  show ?thesis
  proof (cases "\<not> bw_open b1 \<and> bw_joinedAt b1 \<noteq> idx \<and> passed")
    case False
    then have eq: "step_block cs p tt tape_ops l idx passed b [] = (b1, s1)" by (auto simp: step_block_def f)
    obtain s' where "s \<le> s'" "s' \<le> idx" "\<forall>f \<in> set s1. rf_startIdx f \<le> s'" "opened s' (idx + 1) (WBlock b1)"
    proof (cases "bw_open b1")
      case True
      then show ?thesis using that [of s] i s by simp
    next
      case False
      then have "opened idx (idx + 1) (WBlock b1)" by (simp add: opened_def)
      then show ?thesis using that [of idx] i s by (force simp: in_order_def)
    qed
    then show ?thesis using i eq by (auto simp: step_order_def)
  next
    case True
    obtain b2 s2 where t: "try_open cs p tt tape_ops l idx b1 [] = (b2, s2)" by force
    have eq: "step_block cs p tt tape_ops l idx passed b [] = (b2, s1 @ s2)"
      using True t tape_try_open [of cs p tt l idx b1 s1] by (simp add: step_block_def f)
    have j: "in_order idx (idx + 1) s2" "opened idx (idx + 1) (WBlock b2)" 
      using try_open_fed [of b1 idx cs p tt l] True t by (simp_all add: fed_def)
    have ends: "\<forall>f \<in> set s1. rf_startIdx f \<le> idx" "\<forall>f \<in> set s2. rf_startIdx f \<le> idx"
      using i(1) j(1) by (force simp: in_order_def)+
    have "in_order s (idx + 1) (s1 @ s2)" using in_order_append [OF i(1) j(1) s] ends by simp
    then show ?thesis using eq j ends s by (auto simp: step_order_def)
  qed
qed

lemma run_step_order:
  assumes o: "opened s idx (WRun r)" and s: "s \<le> idx"
  shows "step_order s idx (map_prod WRun id (run_step cs p tt tape_ops l idx same r []))"
proof -
  have opn: "opened s' (idx + 1) (WRun (run_begin cs p tt tape_ops l idx acc q))" if "s' \<le> idx" for s' acc q
    using that by (auto simp: opened_def run_begin_def run_build_excerpt_def Let_def split: prod.split run_mode.split option.split)
  have bld: "opened s (idx + 1) (WRun (run_build_excerpt cs p tape_ops v lo acc (run_extend l idx r)))"
    "opened s (idx + 1) (WRun (run_extend l idx r))" for v lo acc
    using o s by (auto simp: opened_def run_extend_def run_build_excerpt_def split: prod.split run_mode.split option.split)
  obtain r1 s1 where e: "run_end p tape_ops r [] = (r1, s1)" by force
  have r1: "\<not> rw_open r1" "in_order s (idx + 1) s1" "length s1 \<le> 1"
    using e o by (auto simp: run_end_def emit_piece_def piece_finding_def in_order_def opened_def Let_def split: if_splits)
  obtain s' where s': "s \<le> s'" "s' \<le> idx" "\<forall>f \<in> set s1. rf_startIdx f \<le> s'"
  proof -
    have "\<forall>f \<in> set s1. rf_startIdx f \<le> idx" using r1(2) by (force simp: in_order_def)
    then show ?thesis using that [of idx] s by simp
  qed
  have closed: "opened s' (idx + 1) (WRun r1)" using r1(1) by (simp add: opened_def)
  have none: "in_order s (idx + 1) []" by (simp add: in_order_def)
  show ?thesis
    using r1(2) s' closed none opn [of s'] opn [of s] bld s
    by (auto simp: run_step_def e step_order_def)
qed

text \<open>The walker of a signature is of its kind.\<close>

definition fits :: "compiled_sig \<Rightarrow> walker \<Rightarrow> bool" where
  "fits sg w \<longleftrightarrow>
     (case sg_kind sg of KRun p \<Rightarrow> \<exists>r. w = WRun r | KBlock p \<Rightarrow> \<exists>b. w = WBlock b | _ \<Rightarrow> w = WLine)"

lemma sig_line_order:
  assumes "opened s idx w" and "s \<le> idx" and "fits sg w"
  shows "step_order s idx (sig_line sg tt tape_ops l idx same w [])"
    and "fits sg (fst (sig_line sg tt tape_ops l idx same w []))"
proof -
  have stay: "step_order s idx (w, [])"
    using assms opened_later [OF assms(1), of "idx + 1" s] by (auto simp: step_order_def in_order_def)
  have one: "step_order s idx (WLine, [f])" if "rf_startIdx f = idx" "rf_endIdx f = idx" for f
    using that assms(2) by (auto simp: step_order_def in_order_def opened_def)
  show "step_order s idx (sig_line sg tt tape_ops l idx same w [])"
  proof (cases "sg_kind sg")
    case (KRegex m)
    then show ?thesis
      using assms(3) stay one
      by (auto simp: fits_def sig_line_def add_regex_finding_def line_finding_def with_excerpt_def Let_def split: prod.split)
  next
    case (KValue m)
    then show ?thesis
      using assms(3) stay one
      by (auto simp: fits_def sig_line_def add_value_finding_def line_finding_def with_excerpt_def Let_def split: prod.split option.split)
  next
    case (KRun p)
    then obtain r where w: "w = WRun r" using assms(3) by (auto simp: fits_def)
    have "opened s idx (WRun (run_anchor (sg_gate sg) p l idx r))"
      using assms(1) by (simp add: w opened_def run_anchor_def)
    from run_step_order [OF this assms(2), of "sg_env sg" p tt l same] show ?thesis
      by (simp add: sig_line_def KRun w split: prod.split) (metis id_apply map_prod_simp)
  next
    case (KBlock p)
    then obtain b where w: "w = WBlock b" using assms(3) by (auto simp: fits_def)
    from step_block_order [OF assms(1) [unfolded w] assms(2), of "sg_env sg" p tt l "sg_gate sg (lview l)"] show ?thesis
      by (simp add: sig_line_def KBlock w split: prod.split) (metis id_apply map_prod_simp)
  qed
  show "fits sg (fst (sig_line sg tt tape_ops l idx same w []))"
    using assms(3) by (auto simp: fits_def sig_line_def split: sig_kind.splits prod.split)
qed

lemma ref_lines_order:
  assumes "opened s idx w" and "s \<le> idx" and "fits sg w" and "ref_lines sg ls idx (w, tt, prev) = ((w', tt', prev'), fs)"
  shows "in_order s (idx + int (length ls)) fs \<and> fits sg w' \<and>
    (\<exists>s'. s \<le> s' \<and> (\<forall>f \<in> set fs. rf_startIdx f \<le> s') \<and> opened s' (idx + int (length ls)) w')"
  using assms
proof (induction ls arbitrary: s idx w tt prev fs)
  case Nil
  then show ?case by (auto simp: in_order_def)
next
  case (Cons l0 ls)
  obtain l tt1 where o: "observe tt l0 = (l, tt1)" by force
  obtain w1 gs where g: "sig_line sg tt1 tape_ops l idx (ref_same sg prev l) w [] = (w1, gs)" by force
  obtain st hs where h: "ref_lines sg ls (idx + 1) (w1, tt1, Some (lview l, llength l)) = (st, hs)"
    by (metis prod.collapse)
  have eq: "st = (w', tt', prev')" "fs = gs @ hs" using Cons.prems(4) by (simp_all add: o g h)
  note step = sig_line_order [OF Cons.prems(1-3), of tt1 l "ref_same sg prev l", unfolded g]
  obtain s1 where s1: "in_order s (idx + 1) gs" "s \<le> s1" "s1 \<le> idx" "\<forall>f \<in> set gs. rf_startIdx f \<le> s1" "opened s1 (idx + 1) w1"
    using step(1) by (auto simp: step_order_def)
  have "s1 \<le> idx + 1" using s1(3) by simp
  from Cons.IH [OF s1(5) this _ h [unfolded eq(1)]] step(2)
  obtain s2 where s2: "in_order s1 (idx + 1 + int (length ls)) hs" "fits sg w'" "s1 \<le> s2"
    "\<forall>f \<in> set hs. rf_startIdx f \<le> s2" "opened s2 (idx + 1 + int (length ls)) w'" by auto
  have "in_order s (idx + 1 + int (length ls)) fs"
    unfolding eq(2) by (rule in_order_append [OF s1(1) s2(1) s1(2) _ s1(4)]) simp
  then show ?case using s1 s2 by (auto simp: eq(2) algebra_simps intro!: exI [of _ s2])
qed

lemma ref_findings_order: "in_order 1 (int (length ls) + 1) (ref_findings sg src ls)"
proof -
  obtain w tt prev fs where r: "ref_lines sg ls 1 (ref_start sg src) = ((w, tt, prev), fs)" by (metis prod.collapse)
  have new: "opened 1 1 (new_walker sg)" "fits sg (new_walker sg)"
    by (simp_all add: opened_def fits_def new_walker_def new_run_walker_def new_block_walker_def split: sig_kind.split)
  from ref_lines_order [OF new(1) order_refl new(2) r [unfolded ref_start_def]]
  obtain s where s: "in_order 1 (int (length ls) + 1) fs" "fits sg w" "1 \<le> s" "\<forall>f \<in> set fs. rf_startIdx f \<le> s"
    "opened s (int (length ls) + 1) w" by (auto simp: algebra_simps)
  have "in_order s (int (length ls) + 1) (ref_finish sg w)"
  proof (cases "\<exists>p b. sg_kind sg = KBlock p \<and> w = WBlock b \<and> bw_open b")
    case True
    then obtain p b where b: "sg_kind sg = KBlock p" "w = WBlock b" "bw_open b" by blast
    obtain b' gs where c: "block_close (sg_env sg) p tape_ops b [] = (b', gs)" by force
    show ?thesis using close_order(3) [OF s(5) [unfolded b(2)] b(3) c] by (simp add: ref_finish_def b c)
  next
    case False
    then show ?thesis
      using s(5) by (auto simp: ref_finish_def in_order_def opened_def piece_finding_def split: sig_kind.split walker.split)
  qed
  from in_order_append [OF s(1) this s(3) order_refl s(4)] show ?thesis by (simp add: ref_findings_def r)
qed

end
