(* ===== verification/TextReader.thy ===== *)
theory TextReader
  imports Prelude
begin

text \<open>
  Reading a text line by line, \<^verbatim>\<open>internal/samples/line_pass.go\<close> and \<^verbatim>\<open>spans.go\<close>: \<^verbatim>\<open>ReadSlice\<close> hands out at most a buffer,
  and what is returned for a line does not depend on how it falls into buffers.
\<close>

section \<open>The lines of a text\<close>

abbreviation nl :: byte where "nl \<equiv> 10"
abbreviation cr :: byte where "cr \<equiv> 13"

text \<open>Each line with its line break; only the last may have none.\<close>

fun raw_lines :: "bytes \<Rightarrow> bytes list" where
  "raw_lines [] = []"
| "raw_lines (b # bs) = (if b = nl then [b] # raw_lines bs else (case raw_lines bs of [] \<Rightarrow> [[b]] | l # ls \<Rightarrow> (b # l) # ls))"

definition full_line :: "bytes \<Rightarrow> bool" where
  "full_line l \<longleftrightarrow> l \<noteq> [] \<and> last l = nl \<and> nl \<notin> set (butlast l)"

lemma raw_lines_nonempty: "bs \<noteq> [] \<Longrightarrow> raw_lines bs \<noteq> []"
  by (cases bs) (auto split: list.splits)

lemma concat_raw_lines [simp]: "concat (raw_lines bs) = bs"
  by (induction bs) (auto split: list.splits)

lemma raw_lines_empty [simp]: "raw_lines bs = [] \<longleftrightarrow> bs = []"
  using raw_lines_nonempty by fastforce

lemma raw_lines_none: "nl \<notin> set bs \<Longrightarrow> bs \<noteq> [] \<Longrightarrow> raw_lines bs = [bs]"
proof (induction bs)
  case (Cons b bs)
  then show ?case by (cases "bs = []") auto
qed simp

lemma raw_lines_full: "full_line l \<Longrightarrow> raw_lines (l @ bs) = l # raw_lines bs"
proof (induction l)
  case (Cons b l)
  then show ?case by (cases l) (auto simp: full_line_def split: if_splits)
qed (simp add: full_line_def)

lemma raw_lines_cases:
  obtains (none) "bs = []" "raw_lines bs = []"
    | (last) "bs \<noteq> []" "nl \<notin> set bs" "raw_lines bs = [bs]"
    | (full) l rest where "bs = l @ rest" "full_line l" "raw_lines bs = l # raw_lines rest"
proof (cases "nl \<in> set bs")
  case True
  then obtain xs ys where s: "bs = xs @ nl # ys" "nl \<notin> set xs" by (meson split_list_first)
  then have "full_line (xs @ [nl])" by (simp add: full_line_def)
  then show ?thesis using full [of "xs @ [nl]" ys] raw_lines_full [of "xs @ [nl]" ys] s by simp
next
  case False
  then show ?thesis using none last raw_lines_none by (cases "bs = []") auto
qed

lemma raw_lines_last_full: "i + 1 < length (raw_lines bs) \<Longrightarrow> full_line (raw_lines bs ! i)"
proof (induction bs arbitrary: i rule: length_induct)
  case (1 bs)
  show ?case
  proof (cases rule: raw_lines_cases [of bs])
    case (full l rest)
    show ?thesis
    proof (cases i)
      case 0
      then show ?thesis using full by simp
    next
      case (Suc j)
      have "length rest < length bs" using full(1,2) by (auto simp: full_line_def)
      then show ?thesis using 1(1) 1(2) full(3) Suc by simp
    qed
  qed (use 1 in auto)
qed

lemma raw_lines_drop: "raw_lines (concat (drop i (raw_lines bs))) = drop i (raw_lines bs)"
proof (induction i arbitrary: bs)
  case (Suc i)
  show ?case by (cases rule: raw_lines_cases [of bs]) (use Suc in auto)
qed simp

lemma raw_line_nonempty: "l \<in> set (raw_lines bs) \<Longrightarrow> l \<noteq> []"
proof (induction bs arbitrary: l)
  case (Cons b bs)
  then show ?case by (auto split: if_splits list.splits)
qed simp

section \<open>Reading slices\<close>

datatype slice_end = SliceLine | SliceFull | SliceEnd

fun break_at :: "bytes \<Rightarrow> nat option" where
  "break_at [] = None"
| "break_at (b # bs) = (if b = nl then Some 0 else map_option Suc (break_at bs))"

text \<open>\<^verbatim>\<open>bufio.Reader.ReadSlice('\n')\<close> with a buffer of \<open>room\<close> bytes, at least 16, and what is left to read.\<close>

definition read_slice :: "nat \<Rightarrow> bytes \<Rightarrow> bytes \<times> slice_end \<times> bytes" where
  "read_slice room rest =
     (let n = max room 16
      in case break_at (take n rest) of
           Some i \<Rightarrow> (take (i + 1) rest, SliceLine, drop (i + 1) rest)
         | None \<Rightarrow> if n \<le> length rest then (take n rest, SliceFull, drop n rest) else (rest, SliceEnd, []))"

lemma break_at_None: "break_at bs = None \<longleftrightarrow> nl \<notin> set bs"
  by (induction bs) auto

lemma break_at_Some: "break_at bs = Some i \<Longrightarrow> i < length bs \<and> bs ! i = nl \<and> nl \<notin> set (take i bs)"
  by (induction bs arbitrary: i) (auto split: if_splits simp: nth_Cons split: nat.splits)

lemma read_slice_full: "read_slice room rest = (piece, SliceFull, rest') \<Longrightarrow> length rest' < length rest"
  by (auto simp: read_slice_def Let_def split: option.splits if_splits)

lemma read_slice_cases:
  assumes "read_slice room rest = (piece, how, rest')"
  shows "rest = piece @ rest' \<and>
    (case how of SliceLine \<Rightarrow> full_line piece | SliceFull \<Rightarrow> nl \<notin> set piece \<and> piece \<noteq> [] | SliceEnd \<Rightarrow> nl \<notin> set piece \<and> rest' = [])"
proof (cases "break_at (take (max room 16) rest)")
  case None
  let ?n = "max room 16"
  have p: "(piece, how, rest') = (if ?n \<le> length rest then (take ?n rest, SliceFull, drop ?n rest) else (rest, SliceEnd, []))"
    using assms None by (simp add: read_slice_def Let_def)
  have n: "nl \<notin> set (take ?n rest)" using None break_at_None by blast
  show ?thesis
  proof (cases "?n \<le> length rest")
    case True
    then have "take ?n rest \<noteq> []" by auto
    then show ?thesis using p n True by simp
  next
    case False
    then have "length rest < ?n" by linarith
    then have t: "take ?n rest = rest" by (intro take_all) (rule less_imp_le)
    have "nl \<notin> set rest" using n unfolding t .
    moreover have "(piece, how, rest') = (rest, SliceEnd, [])" using p unfolding if_not_P [OF False] .
    ultimately show ?thesis by simp
  qed
next
  case (Some i)
  let ?n = "max room 16"
  have i: "i < ?n" "i < length rest" "rest ! i = nl" "nl \<notin> set (take i rest)"
    using break_at_Some [OF Some] by (auto simp: min_def split: if_splits)
  have p: "piece = take i rest @ [nl]" "how = SliceLine" "rest' = drop (i + 1) rest"
    using assms Some i take_Suc_conv_app_nth [of i rest] by (auto simp: read_slice_def Let_def)
  then have "rest = piece @ rest'" using i id_take_nth_drop [of i rest] by simp
  then show ?thesis using p i(4) by (simp add: full_line_def)
qed

section \<open>Passing a line by\<close>

function skip_line :: "nat \<Rightarrow> bytes \<Rightarrow> int \<Rightarrow> int \<times> bool \<times> bytes" where
  "skip_line room rest n =
     (case read_slice room rest of (piece, how, rest') \<Rightarrow>
        (case how of
           SliceFull \<Rightarrow> skip_line room rest' (n + int (length piece))
         | SliceLine \<Rightarrow> (n + int (length piece), False, rest')
         | SliceEnd \<Rightarrow> (n + int (length piece), True, rest')))"
  by auto
termination
  by (relation "measure (\<lambda>(room, rest, n). length rest)") (auto dest: read_slice_full [OF sym])

declare skip_line.simps [simp del]

text \<open>What any reader of one line reads: the first line of what is left.\<close>

definition first_line :: "bytes \<Rightarrow> bytes" where
  "first_line rest = (case raw_lines rest of [] \<Rightarrow> [] | l # ls \<Rightarrow> l)"

lemma first_line_simps [simp]: "first_line [] = []" "full_line l \<Longrightarrow> first_line (l @ bs) = l"
  "nl \<notin> set bs \<Longrightarrow> first_line bs = bs"
  using raw_lines_full [of l bs] raw_lines_none [of bs] by (auto simp: first_line_def) (cases "bs = []", auto simp: first_line_def)

lemma first_line_cons: "nl \<notin> set piece \<Longrightarrow> first_line (piece @ bs) = piece @ first_line bs"
proof (induction piece)
  case (Cons b piece)
  then have "first_line (piece @ bs) = piece @ first_line bs" by simp
  then show ?case using Cons.prems raw_lines_nonempty [of "piece @ bs"]
    by (cases "raw_lines (piece @ bs)") (auto simp: first_line_def)
qed simp

definition ends_text :: "bytes \<Rightarrow> bool" where
  "ends_text l \<longleftrightarrow> l = [] \<or> last l \<noteq> nl"

lemma skip_line_ok:
  "skip_line room rest n = (n + int (length (first_line rest)), ends_text (first_line rest), drop (length (first_line rest)) rest)"
proof (induction rest arbitrary: n rule: length_induct)
  case (1 rest)
  obtain piece how rest' where s: "read_slice room rest = (piece, how, rest')" by (metis prod_cases3)
  note c = read_slice_cases [OF s]
  show ?case
  proof (cases how)
    case SliceFull
    then have "length rest' < length rest" using s read_slice_full by blast
    then have "skip_line room rest' (n + int (length piece)) =
        (n + int (length piece) + int (length (first_line rest')), ends_text (first_line rest'), drop (length (first_line rest')) rest')"
      using 1 by blast
    moreover have "first_line rest = piece @ first_line rest'" using c SliceFull first_line_cons by auto
    moreover have "ends_text (piece @ first_line rest') = ends_text (first_line rest')"
      using c SliceFull by (cases "first_line rest' = []") (auto simp: ends_text_def dest: last_in_set)
    ultimately show ?thesis using s SliceFull c by (subst skip_line.simps) simp
  next
    case SliceLine
    then show ?thesis using s c by (subst skip_line.simps) (auto simp: ends_text_def full_line_def)
  next
    case SliceEnd
    moreover have "ends_text rest" using c SliceEnd by (cases rest rule: rev_cases) (auto simp: ends_text_def)
    ultimately show ?thesis using s c by (subst skip_line.simps) auto
  qed
qed

section \<open>The text of a line\<close>

text \<open>\<^verbatim>\<open>readText\<close>: the bytes kept, the last two bytes seen, the length.\<close>

record text_read =
  tr_buf :: bytes
  tr_last :: byte
  tr_beforeLast :: byte
  tr_length :: int

definition take_piece :: "nat \<Rightarrow> bytes \<Rightarrow> text_read \<Rightarrow> text_read" where
  "take_piece keep piece r =
     (let r1 = r\<lparr>tr_length := tr_length r + int (length piece), tr_buf := tr_buf r @ take (keep + 2 - length (tr_buf r)) piece\<rparr>
      in fold (\<lambda>b r. r\<lparr>tr_beforeLast := tr_last r, tr_last := b\<rparr>) (drop (length piece - 2) piece) r1)"

function read_pieces :: "nat \<Rightarrow> nat \<Rightarrow> bytes \<Rightarrow> text_read \<Rightarrow> text_read \<times> bool \<times> bytes" where
  "read_pieces room keep rest r =
     (case read_slice room rest of (piece, how, rest') \<Rightarrow>
        let r1 = take_piece keep piece r
        in (case how of
             SliceFull \<Rightarrow> read_pieces room keep rest' r1
           | SliceLine \<Rightarrow> (r1, False, rest')
           | SliceEnd \<Rightarrow> (r1, True, rest')))"
  by auto
termination
  by (relation "measure (\<lambda>(room, keep, rest, r). length rest)") (auto dest: read_slice_full [OF sym])

declare read_pieces.simps [simp del]

definition readText :: "nat \<Rightarrow> int \<Rightarrow> bytes \<Rightarrow> bytes \<times> int \<times> int \<times> bool \<times> bytes" where
  "readText room keepBytes rest =
     (let keep = nat (max keepBytes 0)
      in case read_pieces room keep rest \<lparr>tr_buf = [], tr_last = 0, tr_beforeLast = 0, tr_length = 0\<rparr> of (r, ended, rest') \<Rightarrow>
        let textLen = (if tr_length r > 0 \<and> tr_last r = nl
                       then (let n = tr_length r - 1 in if n > 0 \<and> tr_beforeLast r = cr then n - 1 else n)
                       else tr_length r)
        in (take (nat (min (int keep) textLen)) (tr_buf r), textLen, tr_length r, ended, rest'))"

text \<open>A line without its line break.\<close>

definition line_text :: "bytes \<Rightarrow> bytes" where
  "line_text l = (if l \<noteq> [] \<and> last l = nl
     then (let b = butlast l in if b \<noteq> [] \<and> last b = cr then butlast b else b) else l)"

definition last_two :: "bytes \<Rightarrow> byte \<times> byte" where
  "last_two bs = (case rev bs of [] \<Rightarrow> (0, 0) | [b] \<Rightarrow> (0, b) | b # a # _ \<Rightarrow> (a, b))"

definition has_read :: "nat \<Rightarrow> bytes \<Rightarrow> text_read \<Rightarrow> bool" where
  "has_read keep bs r \<longleftrightarrow> tr_buf r = take (keep + 2) bs \<and> (tr_beforeLast r, tr_last r) = last_two bs \<and> tr_length r = int (length bs)"

lemma take_take_append: "take n xs @ take (n - length (take n xs)) ys = take n (xs @ ys)"
  by (cases "n \<le> length xs") auto

lemma has_read_step:
  assumes "has_read keep bs r"
  shows "has_read keep (bs @ piece) (take_piece keep piece r)"
proof -
  have buf: "tr_buf r @ take (keep + 2 - length (tr_buf r)) piece = take (keep + 2) (bs @ piece)"
    using assms take_take_append [of "keep + 2" bs piece] by (simp add: has_read_def)
  have two: "(tr_beforeLast r, tr_last r) = last_two bs" and len: "tr_length r = int (length bs)"
    using assms by (simp_all add: has_read_def)
  consider "piece = []" | b where "piece = [b]" | ys a b where "piece = ys @ [a, b]"
    by (metis append_eq_Cons_conv rev_exhaust append_assoc append_Cons append_Nil)
  then show ?thesis
  proof cases
    case 1
    then show ?thesis using assms by (simp add: take_piece_def has_read_def)
  next
    case 2
    have "last_two (bs @ [b]) = (snd (last_two bs), b)" by (auto simp: last_two_def split: list.splits)
    then show ?thesis using buf two len unfolding 2 by (simp add: take_piece_def has_read_def) (metis snd_conv)
  next
    case 3
    have "last_two (bs @ ys @ [a, b]) = (a, b)" by (simp add: last_two_def)
    then show ?thesis using buf len unfolding 3 by (simp add: take_piece_def has_read_def)
  qed
qed

lemma read_pieces_ok:
  "has_read keep bs r \<Longrightarrow> \<exists>r'. read_pieces room keep rest r = (r', ends_text (first_line rest), drop (length (first_line rest)) rest) \<and>
    has_read keep (bs @ first_line rest) r'"
proof (induction rest arbitrary: bs r rule: length_induct)
  case (1 rest)
  obtain piece how rest' where s: "read_slice room rest = (piece, how, rest')" by (metis prod_cases3)
  note c = read_slice_cases [OF s]
  have step: "has_read keep (bs @ piece) (take_piece keep piece r)" by (rule has_read_step [OF 1(2)])
  show ?case
  proof (cases how)
    case SliceFull
    then have "length rest' < length rest" using s read_slice_full by blast
    then obtain r' where "read_pieces room keep rest' (take_piece keep piece r) =
        (r', ends_text (first_line rest'), drop (length (first_line rest')) rest')" "has_read keep ((bs @ piece) @ first_line rest') r'"
      using 1(1) step by blast
    moreover have "first_line rest = piece @ first_line rest'" using c SliceFull first_line_cons by auto
    moreover have "ends_text (piece @ first_line rest') = ends_text (first_line rest')"
      using c SliceFull by (cases "first_line rest' = []") (auto simp: ends_text_def dest: last_in_set)
    ultimately show ?thesis using s SliceFull c by (subst read_pieces.simps) simp
  next
    case SliceLine
    then show ?thesis using s c step by (subst read_pieces.simps) (auto simp: ends_text_def full_line_def)
  next
    case SliceEnd
    moreover have "ends_text rest" using c SliceEnd by (cases rest rule: rev_cases) (auto simp: ends_text_def)
    ultimately show ?thesis using s c step by (subst read_pieces.simps) auto
  qed
qed

lemma line_text_take: "k \<le> length (line_text l) \<Longrightarrow> take k (line_text l) = take k l"
  by (auto simp: line_text_def Let_def butlast_conv_take)

lemma readText_ok:
  "readText room keepBytes rest =
    (let l = first_line rest
     in (take (nat keepBytes) (line_text l), int (length (line_text l)), int (length l), ends_text l, drop (length l) rest))"
proof -
  let ?l = "first_line rest" and ?keep = "nat (max keepBytes 0)"
  let ?r0 = "\<lparr>tr_buf = [], tr_last = 0, tr_beforeLast = 0, tr_length = 0\<rparr>"
  have "has_read ?keep [] ?r0" by (simp add: has_read_def last_two_def)
  from read_pieces_ok [OF this, of room rest] obtain r where
    r: "read_pieces room ?keep rest ?r0 = (r, ends_text ?l, drop (length ?l) rest)" "has_read ?keep ?l r" by auto
  define textLen where "textLen = (if tr_length r > 0 \<and> tr_last r = nl
       then (let n = tr_length r - 1 in if n > 0 \<and> tr_beforeLast r = cr then n - 1 else n) else tr_length r)"
  have h: "tr_buf r = take (?keep + 2) ?l" "(tr_beforeLast r, tr_last r) = last_two ?l" "tr_length r = int (length ?l)"
    using r(2) by (simp_all add: has_read_def)
  have len: "textLen = int (length (line_text ?l))"
  proof -
    consider "?l = []" | b where "?l = [b]" | ys a b where "?l = ys @ [a, b]"
      by (metis append_eq_Cons_conv rev_exhaust append_assoc append_Cons append_Nil)
    then show ?thesis
    proof cases
      case 1
      then show ?thesis using h by (simp add: textLen_def line_text_def)
    next
      case 2
      then show ?thesis using h by (simp add: textLen_def line_text_def last_two_def)
    next
      case 3
      then have "tr_beforeLast r = a" "tr_last r = b" "tr_length r = int (length ys) + 2" using h by (simp_all add: last_two_def)
      then show ?thesis unfolding 3 by (simp add: textLen_def line_text_def Let_def butlast_append)
    qed
  qed
  have "take (nat (min (int ?keep) textLen)) (tr_buf r) = take (nat keepBytes) (line_text ?l)"
  proof -
    have m: "nat (min (int ?keep) textLen) = min ?keep (length (line_text ?l))" using len by simp
    have "take (min ?keep (length (line_text ?l))) (tr_buf r) = take (min ?keep (length (line_text ?l))) ?l"
      unfolding h(1) by (simp add: min_def)
    also have "\<dots> = take (min ?keep (length (line_text ?l))) (line_text ?l)" by (rule line_text_take [symmetric]) simp
    also have "\<dots> = take ?keep (line_text ?l)" by (simp add: min_def)
    finally show ?thesis unfolding m by (simp add: max_def nat_le_0 split: if_splits)
  qed
  then show ?thesis using r(1) h(3) len by (simp add: readText_def Let_def textLen_def)
qed

section \<open>Where the lines start\<close>

definition line_count :: "bytes \<Rightarrow> int" where
  "line_count tx = int (length (raw_lines tx))"

definition line_offset :: "bytes \<Rightarrow> int \<Rightarrow> int" where
  "line_offset tx n = int (length (concat (take (nat (n - 1)) (raw_lines tx))))"

lemma line_offset_first [simp]: "line_offset tx 1 = 0"
  by (simp add: line_offset_def)

lemma drop_concat_take: "drop (length (concat (take k xs))) (concat xs) = concat (drop k xs)"
  by (metis append_eq_conv_conj append_take_drop_id concat_append)

lemma drop_line_offset: "drop (nat (line_offset tx n)) tx = concat (drop (nat (n - 1)) (raw_lines tx))"
  using drop_concat_take [of "nat (n - 1)" "raw_lines tx"] by (simp add: line_offset_def)

lemma first_line_at:
  assumes "1 \<le> n" and "n \<le> line_count tx"
  shows "first_line (drop (nat (line_offset tx n)) tx) = raw_lines tx ! nat (n - 1)"
proof -
  have "nat (n - 1) < length (raw_lines tx)" using assms by (simp add: line_count_def)
  then show ?thesis unfolding drop_line_offset first_line_def raw_lines_drop by (simp add: Cons_nth_drop_Suc [symmetric])
qed

lemma line_offset_next:
  assumes "1 \<le> n" and "n \<le> line_count tx"
  shows "line_offset tx (n + 1) = line_offset tx n + int (length (raw_lines tx ! nat (n - 1)))"
proof -
  have "nat (n - 1) < length (raw_lines tx)" using assms by (simp add: line_count_def)
  moreover have "nat (n + 1 - 1) = Suc (nat (n - 1))" using assms by simp
  ultimately show ?thesis by (simp add: line_offset_def take_Suc_conv_app_nth)
qed

lemma line_at_nonempty: "1 \<le> n \<Longrightarrow> n \<le> line_count tx \<Longrightarrow> raw_lines tx ! nat (n - 1) \<noteq> []"
  using raw_line_nonempty [of "raw_lines tx ! nat (n - 1)" tx] by (simp add: line_count_def)

lemma line_at_last:
  assumes "1 \<le> n" and "n \<le> line_count tx" and "ends_text (raw_lines tx ! nat (n - 1))"
  shows "n = line_count tx"
proof (rule ccontr)
  assume "n \<noteq> line_count tx"
  then have "nat (n - 1) + 1 < length (raw_lines tx)" using assms by (simp add: line_count_def)
  then show False using raw_lines_last_full assms(3) by (auto simp: full_line_def ends_text_def)
qed

lemma past_last_line: "line_count tx < n \<Longrightarrow> drop (nat (line_offset tx n)) tx = []"
  unfolding drop_line_offset by (simp add: line_count_def)

lemma rest_lines:
  assumes "1 \<le> n" and "n \<le> line_count tx"
  shows "drop (nat (n - 1)) (raw_lines tx) = raw_lines tx ! nat (n - 1) # drop (nat (n + 1 - 1)) (raw_lines tx)"
proof -
  have "nat (n - 1) < length (raw_lines tx)" "nat (n + 1 - 1) = Suc (nat (n - 1))" using assms by (simp_all add: line_count_def)
  then show ?thesis by (simp add: Cons_nth_drop_Suc)
qed

section \<open>Line breaks before a place\<close>

definition line_breaks :: "bytes \<Rightarrow> int" where
  "line_breaks bs = int (length (filter (\<lambda>b. b = nl) bs))"

lemma line_breaks_simps [simp]: "line_breaks [] = 0" "line_breaks (b # bs) = (if b = nl then 1 else 0) + line_breaks bs"
  "line_breaks (xs @ ys) = line_breaks xs + line_breaks ys" "0 \<le> line_breaks bs"
  by (simp_all add: line_breaks_def)

lemma line_breaks_zero: "line_breaks bs = 0 \<longleftrightarrow> nl \<notin> set bs"
  by (induction bs) (auto simp: add_nonneg_eq_0_iff)

lemma line_breaks_full: "full_line l \<Longrightarrow> line_breaks l = 1"
proof (cases l rule: rev_cases)
  case (snoc ys y)
  then show "full_line l \<Longrightarrow> line_breaks l = 1" using line_breaks_zero [of ys] by (auto simp: full_line_def)
qed (simp add: full_line_def)

lemma raw_lines_append:
  assumes "a = [] \<or> last a = nl"
  shows "raw_lines (a @ b) = raw_lines a @ raw_lines b"
  using assms
proof (induction a rule: length_induct)
  case (1 a)
  show ?case
  proof (cases rule: raw_lines_cases [of a])
    case last
    then show ?thesis using 1(2) last_in_set by fastforce
  next
    case (full l rest)
    have "rest = [] \<or> last rest = nl" using full(1) 1(2) by (cases "rest = []") auto
    moreover have "length rest < length a" using full(1,2) by (auto simp: full_line_def)
    ultimately have "raw_lines (rest @ b) = raw_lines rest @ raw_lines b" using 1(1) by blast
    then show ?thesis using full raw_lines_full [OF full(2), of "rest @ b"] by simp
  qed simp
qed

lemma raw_lines_breaks: "a = [] \<or> last a = nl \<Longrightarrow> line_breaks a = line_count a"
proof (induction a rule: length_induct)
  case (1 a)
  show ?case
  proof (cases rule: raw_lines_cases [of a])
    case last
    then show ?thesis using 1(2) last_in_set by fastforce
  next
    case (full l rest)
    have "rest = [] \<or> last rest = nl" using full(1) 1(2) by (cases "rest = []") auto
    moreover have "length rest < length a" using full(1,2) by (auto simp: full_line_def)
    ultimately have "line_breaks rest = line_count rest" using 1(1) by blast
    then show ?thesis using full line_breaks_full [OF full(2)] by (simp add: line_count_def)
  qed (simp add: line_count_def)
qed

text \<open>A place behind a line break is the start of the line numbered by the breaks before it.\<close>

lemma line_start_at:
  assumes "a = [] \<or> last a = nl"
  shows "int (length a) = line_offset (a @ b) (line_breaks a + 1)"
  using raw_lines_breaks [OF assms] by (simp add: line_offset_def line_count_def raw_lines_append [OF assms])

lemma take_line_offset: "take (nat (line_offset tx n)) tx = concat (take (nat (n - 1)) (raw_lines tx))"
proof -
  have "take (length (concat xs)) (concat xs @ ys) = concat xs" for xs :: "bytes list" and ys by simp
  from this [of "take (nat (n - 1)) (raw_lines tx)" "concat (drop (nat (n - 1)) (raw_lines tx))"]
  show ?thesis by (simp add: line_offset_def flip: concat_append)
qed

lemma breaks_before_line:
  assumes "1 \<le> n" and "n \<le> line_count tx"
  shows "line_breaks (take (nat (line_offset tx n)) tx) = n - 1"
proof -
  have "line_breaks (concat (take k (raw_lines tx))) = int k" if "k < length (raw_lines tx)" for k
    using that
  proof (induction k)
    case (Suc k)
    have "full_line (raw_lines tx ! k)" using Suc.prems by (simp add: raw_lines_last_full)
    then show ?case using Suc by (simp add: take_Suc_conv_app_nth line_breaks_full)
  qed simp
  from this [of "nat (n - 1)"] show ?thesis using assms unfolding take_line_offset by (simp add: line_count_def)
qed

lemma line_offset_nonneg [simp]: "0 \<le> line_offset tx n"
  by (simp add: line_offset_def)

lemma line_breaks_mono: "i \<le> j \<Longrightarrow> line_breaks (take i tx) \<le> line_breaks (take j tx)"
  using take_add [of i "j - i" tx] by simp

lemma line_offset_inside:
  assumes "1 \<le> n" and "n \<le> line_count tx"
  shows "line_offset tx n < int (length tx)"
proof -
  have "raw_lines tx = take (nat (n - 1)) (raw_lines tx) @ drop (nat (n - 1)) (raw_lines tx)" by simp
  then have "length tx = length (concat (take (nat (n - 1)) (raw_lines tx))) + length (concat (drop (nat (n - 1)) (raw_lines tx)))"
    by (metis concat_append concat_raw_lines length_append)
  moreover have "concat (drop (nat (n - 1)) (raw_lines tx)) \<noteq> []" using rest_lines [OF assms] line_at_nonempty [OF assms] by simp
  ultimately show ?thesis by (simp add: line_offset_def)
qed

end
