(* ===== verification/LineIndex.thy ===== *)
theory LineIndex
  imports TextReader
begin

text \<open>
  The line index of a text: building it, \<^verbatim>\<open>walkLines\<close> of \<^verbatim>\<open>internal/index/builder.go\<close>, and looking a line or an offset up in
  it, \<^verbatim>\<open>lookup.go\<close>. The mean, the deviation and the percentiles of the line lengths are floating-point and left out,
  and so are the times of the lines.
\<close>

section \<open>Checkpoints\<close>

record line_index_entry =
  LineNumber :: int
  ByteOffset :: int
  FrameIndex :: "int option"

definition zero_entry :: line_index_entry where
  "zero_entry = \<lparr>LineNumber = 0, ByteOffset = 0, FrameIndex = None\<rparr>"

text \<open>\<^verbatim>\<open>sort.Search\<close>: the first index from \<open>i\<close> to \<open>j\<close> where \<open>P\<close> holds, by halving.\<close>

function search_from :: "(nat \<Rightarrow> bool) \<Rightarrow> nat \<Rightarrow> nat \<Rightarrow> nat" where
  "search_from P i j =
     (if i < j then (let h = (i + j) div 2 in if P h then search_from P i h else search_from P (h + 1) j) else i)"
  by auto
termination by (relation "measure (\<lambda>(P, i, j). j - i)") auto

declare search_from.simps [simp del]

definition FindNearestCheckpoint :: "line_index_entry list \<Rightarrow> int \<Rightarrow> line_index_entry" where
  "FindNearestCheckpoint es target =
     (if es = [] then zero_entry
      else let i = search_from (\<lambda>i. LineNumber (es ! i) > target) 0 (length es) in if i = 0 then zero_entry else es ! (i - 1))"

definition FindNearestCheckpointForOffset :: "line_index_entry list \<Rightarrow> int \<Rightarrow> line_index_entry" where
  "FindNearestCheckpointForOffset es target =
     (if es = [] then zero_entry
      else let i = search_from (\<lambda>i. ByteOffset (es ! i) > target) 0 (length es) in if i = 0 then zero_entry else es ! (i - 1))"

definition CheckpointForContext :: "line_index_entry list option \<Rightarrow> int \<Rightarrow> int \<Rightarrow> line_index_entry" where
  "CheckpointForContext idx offset context =
     (case idx of
        None \<Rightarrow> zero_entry
      | Some es \<Rightarrow>
          if es = [] then zero_entry
          else let holding = FindNearestCheckpointForOffset es offset
               in if LineNumber holding = 0 then zero_entry else FindNearestCheckpoint es (LineNumber holding - context))"

text \<open>\<^verbatim>\<open>checkpointBefore\<close> of \<^verbatim>\<open>internal/samples/resolver.go\<close>.\<close>

definition checkpointBefore :: "line_index_entry list \<Rightarrow> int \<Rightarrow> int \<Rightarrow> int \<times> int" where
  "checkpointBefore es offset context =
     (let entry = CheckpointForContext (Some es) offset context
      in if LineNumber entry = 0 then (0, 1) else (ByteOffset entry, LineNumber entry))"

section \<open>Walking the lines\<close>

text \<open>\<^verbatim>\<open>nextLine\<close>: a line longer than the buffer is put together from its pieces.\<close>

function nextLine :: "nat \<Rightarrow> bytes \<Rightarrow> bytes \<times> bytes" where
  "nextLine room rest =
     (case read_slice room rest of (piece, how, rest') \<Rightarrow>
        if how = SliceFull then (case nextLine room rest' of (joined, rest'') \<Rightarrow> (piece @ joined, rest'')) else (piece, rest'))"
  by auto
termination
  by (relation "measure (\<lambda>(room, rest). length rest)") (auto dest: read_slice_full [OF sym])

declare nextLine.simps [simp del]

fun count_crlf :: "bytes \<Rightarrow> int" where
  "count_crlf (a # b # bs) = (if a = cr \<and> b = nl then 1 + count_crlf bs else count_crlf (b # bs))"
| "count_crlf bs = 0"

definition count_byte :: "byte \<Rightarrow> bytes \<Rightarrow> int" where
  "count_byte b bs = int (length (filter (\<lambda>c. c = b) bs))"

definition lineEndingSampleBytes :: int where "lineEndingSampleBytes = 65536"

record line_ending_tally =
  tl_crlf :: int
  tl_cr :: int
  tl_lf :: int
  tl_sampled :: int

definition no_tally :: line_ending_tally where
  "no_tally = \<lparr>tl_crlf = 0, tl_cr = 0, tl_lf = 0, tl_sampled = 0\<rparr>"

definition tally_observe :: "bytes \<Rightarrow> line_ending_tally \<Rightarrow> line_ending_tally" where
  "tally_observe line t =
     (if tl_sampled t \<ge> lineEndingSampleBytes then t
      else let crlf = count_crlf line
           in \<lparr>tl_crlf = tl_crlf t + crlf, tl_cr = tl_cr t + (count_byte cr line - crlf), tl_lf = tl_lf t + (count_byte nl line - crlf),
              tl_sampled = tl_sampled t + int (length line)\<rparr>)"

definition tally_style :: "line_ending_tally \<Rightarrow> string" where
  "tally_style t =
     (case filter (\<lambda>(name, n). n > 0) [(''CRLF'', tl_crlf t), (''LF'', tl_lf t), (''CR'', tl_cr t)] of
        [] \<Rightarrow> ''LF''
      | [(name, n)] \<Rightarrow> name
      | _ \<Rightarrow> ''mixed'')"

definition stripLineEnd :: "bytes \<Rightarrow> bytes" where
  "stripLineEnd line = rev (dropWhile (\<lambda>b. b = nl \<or> b = cr) (rev line))"

definition hasNonWhitespace :: "bytes \<Rightarrow> bool" where
  "hasNonWhitespace s = list_ex (\<lambda>c. c \<notin> {32, 9, 11, 12, cr, nl}) s"

text \<open>The part of \<^verbatim>\<open>lineStatsAccumulator\<close> (\<^verbatim>\<open>linestats.go\<close>) that counts.\<close>

record line_stats =
  la_count :: int
  la_maxLength :: int
  la_maxLineNumber :: int
  la_maxLineOffset :: int
  la_emptyCount :: int

definition no_stats :: line_stats where
  "no_stats = \<lparr>la_count = 0, la_maxLength = 0, la_maxLineNumber = 0, la_maxLineOffset = 0, la_emptyCount = 0\<rparr>"

definition stats_observe :: "int \<Rightarrow> bool \<Rightarrow> int \<Rightarrow> int \<Rightarrow> line_stats \<Rightarrow> line_stats" where
  "stats_observe lineLen isEmpty lineNumber lineOffset a =
     (if isEmpty then a\<lparr>la_emptyCount := la_emptyCount a + 1\<rparr>
      else let a1 = a\<lparr>la_count := la_count a + 1\<rparr>
           in if lineLen > la_maxLength a1
              then a1\<lparr>la_maxLength := lineLen, la_maxLineNumber := lineNumber, la_maxLineOffset := lineOffset\<rparr> else a1)"

record walk_state =
  wl_index :: "line_index_entry list"
  wl_offset :: int
  wl_line :: int
  wl_next :: int
  wl_due :: bool
  wl_tally :: line_ending_tally
  wl_stats :: line_stats

definition walk_line :: "int \<Rightarrow> bytes \<Rightarrow> walk_state \<Rightarrow> walk_state" where
  "walk_line step line s =
     (let currentLine = wl_line s + 1;
          s1 = (if wl_due s
                then s\<lparr>wl_index := wl_index s @ [\<lparr>LineNumber = currentLine, ByteOffset = wl_offset s, FrameIndex = None\<rparr>], wl_due := False\<rparr>
                else s);
          stripped = stripLineEnd line;
          offset = wl_offset s + int (length line);
          s2 = s1\<lparr>wl_line := currentLine, wl_tally := tally_observe line (wl_tally s),
                 wl_stats := stats_observe (int (length stripped)) (\<not> hasNonWhitespace stripped) currentLine (wl_offset s) (wl_stats s),
                 wl_offset := offset\<rparr>
      in if offset \<ge> wl_next s then s2\<lparr>wl_due := True, wl_next := offset + step\<rparr> else s2)"

lemma nextLine_ok: "nextLine room rest = (first_line rest, drop (length (first_line rest)) rest)"
proof (induction rest rule: length_induct)
  case (1 rest)
  obtain piece how rest' where s: "read_slice room rest = (piece, how, rest')" by (metis prod_cases3)
  note c = read_slice_cases [OF s]
  show ?case
  proof (cases "how = SliceFull")
    case True
    then have "length rest' < length rest" using s read_slice_full by blast
    then have "nextLine room rest' = (first_line rest', drop (length (first_line rest')) rest')" using 1 by blast
    then show ?thesis using s True c first_line_cons [of piece rest'] by (subst nextLine.simps) simp
  next
    case False
    then show ?thesis using s c by (subst nextLine.simps) (cases how, auto)
  qed
qed

lemma first_line_empty: "first_line rest = [] \<longleftrightarrow> rest = []"
  by (cases rule: raw_lines_cases [of rest]) (auto simp: first_line_def full_line_def)

function walk_from :: "nat \<Rightarrow> int \<Rightarrow> bytes \<Rightarrow> walk_state \<Rightarrow> walk_state" where
  "walk_from room step rest s =
     (case nextLine room rest of (line, rest') \<Rightarrow> if line = [] then s else walk_from room step rest' (walk_line step line s))"
  by auto
termination
  by (relation "measure (\<lambda>(room, step, rest, s). length rest)") (auto simp: nextLine_ok first_line_empty)

declare walk_from.simps [simp del]

record walk_stats =
  wk_LineIndex :: "line_index_entry list"
  wk_LineCount :: int
  wk_EmptyLineCount :: int
  wk_LineStats :: line_stats
  wk_LineEnding :: string
  wk_TotalBytes :: int

definition walk_start :: "int \<Rightarrow> walk_state" where
  "walk_start step = \<lparr>wl_index = [], wl_offset = 0, wl_line = 0, wl_next = step, wl_due = True, wl_tally = no_tally, wl_stats = no_stats\<rparr>"

definition walkLines :: "int \<Rightarrow> bytes \<Rightarrow> walk_stats" where
  "walkLines step tx =
     (let s = walk_from (256 * 1024) step tx (walk_start step)
      in \<lparr>wk_LineIndex = wl_index s, wk_LineCount = wl_line s, wk_EmptyLineCount = la_emptyCount (wl_stats s), wk_LineStats = wl_stats s,
         wk_LineEnding = tally_style (wl_tally s), wk_TotalBytes = wl_offset s\<rparr>)"

section \<open>What a lookup finds\<close>

definition first_at :: "(nat \<Rightarrow> bool) \<Rightarrow> nat \<Rightarrow> nat \<Rightarrow> nat \<Rightarrow> bool" where
  "first_at P i j r \<longleftrightarrow> i \<le> r \<and> r \<le> j \<and> (\<forall>k. i \<le> k \<longrightarrow> k < r \<longrightarrow> \<not> P k) \<and> (\<forall>k. r \<le> k \<longrightarrow> k < j \<longrightarrow> P k)"

lemma first_at_left:
  assumes "first_at P i h r" and "h < j" and "\<And>k. h \<le> k \<Longrightarrow> k < j \<Longrightarrow> P k"
  shows "first_at P i j r"
proof -
  have "P k" if "r \<le> k" "k < j" for k
  proof (cases "k < h")
    case True
    then show ?thesis using assms(1) that by (simp add: first_at_def)
  qed (use assms(3) that in simp)
  then show ?thesis using assms(1,2) by (simp add: first_at_def)
qed

lemma first_at_right:
  assumes "first_at P (h + 1) j r" and "i \<le> h" and "\<And>k. i \<le> k \<Longrightarrow> k \<le> h \<Longrightarrow> \<not> P k"
  shows "first_at P i j r"
proof -
  have "\<not> P k" if "i \<le> k" "k < r" for k
  proof (cases "k \<le> h")
    case False
    then show ?thesis using assms(1) that by (simp add: first_at_def)
  qed (use assms(3) that in simp)
  then show ?thesis using assms(1,2) by (simp add: first_at_def)
qed

definition stays_true :: "(nat \<Rightarrow> bool) \<Rightarrow> nat \<Rightarrow> bool" where
  "stays_true P j \<longleftrightarrow> (\<forall>a b. a \<le> b \<longrightarrow> b < j \<longrightarrow> P a \<longrightarrow> P b)"

lemma stays_trueD: "stays_true P j \<Longrightarrow> a \<le> b \<Longrightarrow> b < j \<Longrightarrow> P a \<Longrightarrow> P b"
  unfolding stays_true_def by blast

lemma stays_true_less: "stays_true P j \<Longrightarrow> h \<le> j \<Longrightarrow> stays_true P h"
  unfolding stays_true_def by (meson less_le_trans)

lemma search_from_ok: "i \<le> j \<Longrightarrow> stays_true P j \<Longrightarrow> first_at P i j (search_from P i j)"
proof (induction P i j rule: search_from.induct)
  case (1 P i j)
  show ?case
  proof (cases "i < j")
    case False
    then have "search_from P i j = i" by (subst search_from.simps) simp
    then show ?thesis using False 1(3) by (simp add: first_at_def)
  next
    case True
    define h where "h = (i + j) div 2"
    have h: "i \<le> h" "h < j" using True by (auto simp: h_def)
    show ?thesis
    proof (cases "P h")
      case p: True
      have r: "search_from P i j = search_from P i h" using True p by (subst search_from.simps) (simp add: Let_def h_def)
      have "first_at P i h (search_from P i h)"
        by (rule "1.IH"(1) [OF True h_def p h(1)]) (rule stays_true_less [OF 1(4) less_imp_le [OF h(2)]])
      then show ?thesis unfolding r by (rule first_at_left [OF _ h(2)]) (rule stays_trueD [OF 1(4) _ _ p])
    next
      case p: False
      have r: "search_from P i j = search_from P (h + 1) j" using True p by (subst search_from.simps) (simp add: Let_def h_def)
      have "first_at P (h + 1) j (search_from P (h + 1) j)"
        by (rule "1.IH"(2) [OF True h_def p]) (use h 1(4) in simp_all)
      moreover have "\<not> P k" if "k \<le> h" for k using stays_trueD [OF 1(4) that h(2)] p by blast
      ultimately show ?thesis unfolding r using first_at_right [OF _ h(1)] by blast
    qed
  qed
qed

text \<open>An index that names lines of the text, in order.\<close>

definition names_lines :: "bytes \<Rightarrow> line_index_entry list \<Rightarrow> bool" where
  "names_lines tx es \<longleftrightarrow> sorted_wrt (\<lambda>a b. LineNumber a < LineNumber b) es \<and>
     (\<forall>e \<in> set es. 1 \<le> LineNumber e \<and> LineNumber e \<le> line_count tx \<and> ByteOffset e = line_offset tx (LineNumber e))"

lemma line_offset_less:
  assumes "m < n" and "1 \<le> m" and "n \<le> line_count tx + 1"
  shows "line_offset tx m < line_offset tx n"
  using assms
proof (induction n rule: int_gr_induct)
  case base
  then show ?case using line_offset_next [of m tx] line_at_nonempty [of m tx] by simp
next
  case (step k)
  then show ?case using line_offset_next [of k tx] by simp
qed

lemma names_lines_nth:
  assumes "names_lines tx es" and "i < length es"
  shows "1 \<le> LineNumber (es ! i)" "LineNumber (es ! i) \<le> line_count tx" "ByteOffset (es ! i) = line_offset tx (LineNumber (es ! i))"
  using assms by (auto simp: names_lines_def)

lemma names_lines_sorted: "names_lines tx es \<Longrightarrow> i \<le> j \<Longrightarrow> j < length es \<Longrightarrow> LineNumber (es ! i) \<le> LineNumber (es ! j)"
  using sorted_wrt_nth_less [of "\<lambda>a b. LineNumber a < LineNumber b" es i j] by (cases "i = j") (auto simp: names_lines_def)

lemma names_lines_offsets: "names_lines tx es \<Longrightarrow> i \<le> j \<Longrightarrow> j < length es \<Longrightarrow> ByteOffset (es ! i) \<le> ByteOffset (es ! j)"
  using names_lines_sorted [of tx es i j] names_lines_nth [of tx es i] names_lines_nth [of tx es j] line_offset_less [of "LineNumber (es ! i)" "LineNumber (es ! j)" tx]
  by (cases "LineNumber (es ! i) = LineNumber (es ! j)") auto

lemma search_sorted:
  assumes "\<And>a b. a \<le> b \<Longrightarrow> b < length es \<Longrightarrow> f (es ! a) \<le> f (es ! b)" and "i = search_from (\<lambda>i. f (es ! i) > t) 0 (length es)"
  shows "i \<le> length es" "\<And>k. k < i \<Longrightarrow> f (es ! k) \<le> (t::int)" "\<And>k. i \<le> k \<Longrightarrow> k < length es \<Longrightarrow> t < f (es ! k)"
proof -
  have "stays_true (\<lambda>i. f (es ! i) > t) (length es)"
    unfolding stays_true_def by (intro allI impI) (erule less_le_trans, rule assms(1))
  then have r: "first_at (\<lambda>i. f (es ! i) > t) 0 (length es) i" unfolding assms(2) by (rule search_from_ok [OF le0])
  show "i \<le> length es" using r by (simp add: first_at_def)
  show "f (es ! k) \<le> t" if "k < i" for k using r that by (simp add: first_at_def not_less)
  show "t < f (es ! k)" if "i \<le> k" "k < length es" for k using r that by (simp add: first_at_def)
qed

lemma nearest_checkpoint:
  assumes "names_lines tx es"
  shows "(FindNearestCheckpoint es target = zero_entry \<and> (\<forall>e \<in> set es. target < LineNumber e)) \<or>
    (FindNearestCheckpoint es target \<in> set es \<and> LineNumber (FindNearestCheckpoint es target) \<le> target \<and>
      (\<forall>e \<in> set es. LineNumber e \<le> target \<longrightarrow> LineNumber e \<le> LineNumber (FindNearestCheckpoint es target)))"
proof -
  define i where "i = search_from (\<lambda>i. LineNumber (es ! i) > target) 0 (length es)"
  note i = search_sorted [OF names_lines_sorted [OF assms] i_def]
  show ?thesis
  proof (cases "i = 0")
    case True
    then show ?thesis using i(3) by (auto simp: FindNearestCheckpoint_def i_def [symmetric] in_set_conv_nth)
  next
    case False
    then have "FindNearestCheckpoint es target = es ! (i - 1)" "i - 1 < length es"
      using i(1) by (auto simp: FindNearestCheckpoint_def i_def [symmetric])
    moreover have "LineNumber (es ! k) \<le> LineNumber (es ! (i - 1))" if "k < length es" "LineNumber (es ! k) \<le> target" for k
    proof -
      have "k < i" using i(3) that by (meson not_le)
      then show ?thesis using names_lines_sorted [OF assms, of k "i - 1"] i(1) False by simp
    qed
    ultimately show ?thesis using i(2) False by (auto simp: in_set_conv_nth)
  qed
qed

lemma nearest_offset:
  assumes "names_lines tx es"
  shows "FindNearestCheckpointForOffset es target = zero_entry \<or>
    (FindNearestCheckpointForOffset es target \<in> set es \<and> ByteOffset (FindNearestCheckpointForOffset es target) \<le> target)"
proof -
  define i where "i = search_from (\<lambda>i. ByteOffset (es ! i) > target) 0 (length es)"
  note i = search_sorted [OF names_lines_offsets [OF assms] i_def]
  show ?thesis
  proof (cases "i = 0")
    case True
    then show ?thesis by (simp add: FindNearestCheckpointForOffset_def i_def [symmetric])
  next
    case False
    then have "FindNearestCheckpointForOffset es target = es ! (i - 1)" "i - 1 < length es"
      using i(1) by (auto simp: FindNearestCheckpointForOffset_def i_def [symmetric])
    then show ?thesis using i(2) False by auto
  qed
qed

text \<open>A pass that starts from the checkpoint it is given has the context it asked for ahead of the line.\<close>

lemma checkpointBefore_ok:
  assumes "names_lines tx es" and "1 \<le> n" and "n \<le> line_count tx" and "0 \<le> context" and "context < n"
  shows "\<exists>m. checkpointBefore es (line_offset tx n) context = (line_offset tx m, m) \<and> 1 \<le> m \<and> m \<le> n - context"
proof -
  let ?entry = "CheckpointForContext (Some es) (line_offset tx n) context"
  let ?h0 = "FindNearestCheckpointForOffset es (line_offset tx n)"
  consider "LineNumber ?entry = 0"
    | "?entry \<in> set es" "LineNumber ?entry \<le> LineNumber ?h0 - context" "?h0 \<in> set es" "ByteOffset ?h0 \<le> line_offset tx n"
  proof (cases "es = [] \<or> LineNumber ?h0 = 0")
    case True
    then show ?thesis using that(1) by (auto simp: CheckpointForContext_def zero_entry_def Let_def)
  next
    case False
    then have e: "?entry = FindNearestCheckpoint es (LineNumber ?h0 - context)" by (simp add: CheckpointForContext_def Let_def)
    have "?h0 \<noteq> zero_entry" using False by (auto simp: zero_entry_def)
    then have h: "?h0 \<in> set es" "ByteOffset ?h0 \<le> line_offset tx n" using nearest_offset [OF assms(1), of "line_offset tx n"] by auto
    show ?thesis using that nearest_checkpoint [OF assms(1), of "LineNumber ?h0 - context"] h unfolding e by (auto simp: zero_entry_def)
  qed
  then show ?thesis
  proof cases
    case 1
    then show ?thesis using assms(5) by (intro exI [of _ 1]) (simp add: checkpointBefore_def Let_def)
  next
    case 2
    let ?h = "FindNearestCheckpointForOffset es (line_offset tx n)"
    have h: "1 \<le> LineNumber ?h" "LineNumber ?h \<le> line_count tx" "ByteOffset ?h = line_offset tx (LineNumber ?h)"
      and e: "1 \<le> LineNumber ?entry" "ByteOffset ?entry = line_offset tx (LineNumber ?entry)"
      using assms(1) 2(1,3) by (auto simp: names_lines_def)
    have "LineNumber ?h \<le> n" using line_offset_less [of n "LineNumber ?h" tx] h 2(4) assms(2) by fastforce
    then show ?thesis using 2(2) e by (intro exI [of _ "LineNumber ?entry"]) (simp add: checkpointBefore_def Let_def)
  qed
qed

end
