(* ===== verification/ScanFinish.thy ===== *)
theory ScanFinish
  imports ScanOrder LineIndex
begin

text \<open>
  The scan of all the signatures of an engine, \<^verbatim>\<open>merge.go\<close>: every chunk is merged into the state
  of each signature, and \<^verbatim>\<open>finish\<close> closes what is open, empties an unprefixed measure of a file
  that has too few stamps, joins the bodies that the body recorders found into the masked ranges
  and takes the excerpts of the findings that lie in one. The scan's answer is then stated against
  the reference walks of its signatures.
\<close>

section \<open>The engine\<close>

text \<open>
  A signature of the engine; \<open>es_below\<close> is the comparison of \<^verbatim>\<open>dropUnprefixedBelowShare\<close>,
  \<^verbatim>\<open>float64(stamped) < minShare*float64(base)\<close>, of the counts of stamped and of all lines: the
  rounding of floats is not modelled, and what is proved holds for any comparison.
\<close>

record engine_sig =
  es_sig :: compiled_sig
  es_below :: "int \<Rightarrow> int \<Rightarrow> bool"

text \<open>The first \<open>en_selected\<close> signatures are the selected ones, the others the body recorders.\<close>

record engine =
  en_sigs :: "engine_sig list"
  en_selected :: nat
  en_cap :: nat
  en_bodyCap :: nat

definition capOf :: "engine \<Rightarrow> engine_sig \<Rightarrow> nat" where
  "capOf e es = (if se_bodyOnly (sg_env (es_sig es)) then en_bodyCap e else en_cap e)"

text \<open>
  A chunk of the text; \<open>ec_fulls\<close> says for each signature, by its index, and each line whether
  the walk reads a full flag that is set as set.
\<close>

record engine_chunk =
  ec_lines :: "line list"
  ec_final :: bool
  ec_fulls :: "nat \<Rightarrow> nat \<Rightarrow> bool"

definition chunk_for :: "nat \<Rightarrow> engine_chunk \<Rightarrow> text_chunk" where
  "chunk_for si c = \<lparr>tc_lines = ec_lines c, tc_final = ec_final c, tc_fulls = ec_fulls c si\<rparr>"

definition engine_start :: "engine \<Rightarrow> merger list" where
  "engine_start e = map (\<lambda>es. new_merger (capOf e es)) (en_sigs e)"

text \<open>\<^verbatim>\<open>add\<close>, for every signature: what they share, the line count and the stamps, each state has a copy of.\<close>

definition engine_add :: "engine \<Rightarrow> time_source option \<Rightarrow> engine_chunk \<Rightarrow> merger list \<Rightarrow> merger list" where
  "engine_add e src c ms =
     map2 (\<lambda>(si, es) m. scan_chunk (es_sig es) src (chunk_for si c) m) (enumerate 0 (en_sigs e)) ms"

section \<open>The end of the scan\<close>

definition dropUnprefixedBelowShare :: "engine_sig \<Rightarrow> merger \<Rightarrow> merger" where
  "dropUnprefixedBelowShare es m =
     (case sg_kind (es_sig es) of
        KRun p \<Rightarrow>
          if rp_mode p \<noteq> RunUnprefixed then m
          else if mg_base m = 0 \<or> es_below es (mg_stamped m) (mg_base m)
          then m\<lparr>mg_stored := [], mg_count := 0\<rparr> else m
      | _ \<Rightarrow> m)"

type_synonym line_range = "int \<times> int"

text \<open>The bodies of one recorder: past its bound, everything after its last kept body.\<close>

definition bodies_of :: "merger \<Rightarrow> line_range list" where
  "bodies_of m =
     map (\<lambda>f. (StartLine f + 1, EndLine f)) (filter (\<lambda>f. EndLine f > StartLine f) (mg_stored m)) @
     (if mg_stored m \<noteq> [] \<and> mg_count m > int (length (mg_stored m))
      then [(StartLine (last (mg_stored m)) + 1, max (mg_base m) (StartLine (last (mg_stored m)) + 1))] else [])"

definition join_range :: "line_range \<Rightarrow> line_range list \<Rightarrow> line_range list" where
  "join_range r out =
     (if out \<noteq> [] \<and> fst r \<le> snd (last out) + 1
      then butlast out @ [(fst (last out), max (snd (last out)) (snd r))]
      else out @ [r])"

definition joinRanges :: "line_range list \<Rightarrow> line_range list" where
  "joinRanges ranges = fold join_range (sort_key fst ranges) []"

definition bodyRanges :: "merger list \<Rightarrow> line_range list" where
  "bodyRanges recorders = joinRanges (concat (map bodies_of recorders))"

definition InMaskedRanges :: "line_range list \<Rightarrow> int \<Rightarrow> bool" where
  "InMaskedRanges ranges line =
     (let i = search_from (\<lambda>i. snd (ranges ! i) \<ge> line) 0 (length ranges)
      in i < length ranges \<and> fst (ranges ! i) \<le> line)"

text \<open>\<^verbatim>\<open>fmt\<close>'s \<^verbatim>\<open>%d\<close>, and \<^verbatim>\<open>[masked, N bytes]\<close>.\<close>

fun decimal_nat :: "nat \<Rightarrow> bytes" where
  "decimal_nat n = (if n < 10 then [of_nat (48 + n)] else decimal_nat (n div 10) @ [of_nat (48 + n mod 10)])"

declare decimal_nat.simps [simp del]

definition decimal :: "int \<Rightarrow> bytes" where
  "decimal n = (if n < 0 then 45 # decimal_nat (nat (- n)) else decimal_nat (nat n))"

definition MaskedLineText :: "int \<Rightarrow> bytes" where
  "MaskedLineText n = [91, 109, 97, 115, 107, 101, 100, 44, 32] @ decimal n @ [32, 98, 121, 116, 101, 115, 93]"

definition mask_finding :: "line_range list \<Rightarrow> finding \<Rightarrow> finding" where
  "mask_finding ranges f =
     (if InMaskedRanges ranges (StartLine f)
      then f\<lparr>Excerpt := MaskedLineText (firstLen f), Masked := True\<rparr> else f)\<lparr>firstLen := 0\<rparr>"

definition maskExcerpts :: "line_range list \<Rightarrow> merger \<Rightarrow> merger" where
  "maskExcerpts ranges m = m\<lparr>mg_stored := map (mask_finding ranges) (mg_stored m)\<rparr>"

text \<open>\<^verbatim>\<open>finish\<close>: the states of all signatures, and the masked ranges.\<close>

definition merger_finish :: "engine \<Rightarrow> merger list \<Rightarrow> merger list \<times> line_range list" where
  "merger_finish e ms =
     (let closed = map2 (\<lambda>es m. merger_close (es_sig es) m) (en_sigs e) ms;
          shared = map2 dropUnprefixedBelowShare (en_sigs e) closed;
          ranges = bodyRanges (drop (en_selected e) shared)
      in (map (maskExcerpts ranges) (take (en_selected e) shared) @ drop (en_selected e) shared, ranges))"

text \<open>\<^verbatim>\<open>result\<close>: the findings and the count of each selected signature, in the engine's order.\<close>

definition merger_result :: "engine \<Rightarrow> merger list \<Rightarrow> (finding list \<times> int) list" where
  "merger_result e ms = map (\<lambda>m. (mg_stored m, mg_count m)) (take (en_selected e) ms)"

record scan_result =
  sr_bySignature :: "(finding list \<times> int) list"
  sr_maskedRanges :: "line_range list"

definition scan_text :: "engine \<Rightarrow> time_source option \<Rightarrow> engine_chunk list \<Rightarrow> scan_result" where
  "scan_text e src chunks =
     (case merger_finish e (fold (engine_add e src) chunks (engine_start e)) of (ms, ranges) \<Rightarrow>
        \<lparr>sr_bySignature = merger_result e ms, sr_maskedRanges = ranges\<rparr>)"

section \<open>Masked ranges\<close>

definition covers :: "line_range list \<Rightarrow> int set" where
  "covers rs = (\<Union>(a, b) \<in> set rs. {a..b})"

text \<open>Ranges as a result lists them: none empty, in order, none touching the next.\<close>

definition apart :: "line_range list \<Rightarrow> bool" where
  "apart rs \<longleftrightarrow> sorted_wrt (\<lambda>a b. snd a + 1 < fst b) rs \<and> (\<forall>r \<in> set rs. fst r \<le> snd r)"

lemma covers_simps [simp]: "covers [] = {}" "covers (r # rs) = {fst r..snd r} \<union> covers rs" "covers (rs @ ss) = covers rs \<union> covers ss"
  by (auto simp: covers_def)

lemma in_covers: "L \<in> covers rs \<longleftrightarrow> (\<exists>r \<in> set rs. fst r \<le> L \<and> L \<le> snd r)"
  by (force simp: covers_def)

lemma join_range_ok:
  assumes "apart out" and "fst r \<le> snd r" and "\<forall>a \<in> set out. fst a \<le> fst r"
  shows "apart (join_range r out) \<and> covers (join_range r out) = covers out \<union> {fst r..snd r} \<and>
    (\<forall>a \<in> set (join_range r out). fst a \<le> fst r)"
proof (cases "out = []")
  case True
  then show ?thesis using assms by (simp add: join_range_def apart_def)
next
  case False
  then obtain os a where out: "out = os @ [a]" by (metis rev_exhaust)
  show ?thesis
  proof (cases "fst r \<le> snd a + 1")
    case True
    have "{fst a..max (snd a) (snd r)} = {fst a..snd a} \<union> {fst r..snd r}"
      using True assms(2,3) by (auto simp: out)
    then show ?thesis
      using True assms by (auto simp: join_range_def out apart_def sorted_wrt_append)
  next
    case far: False
    have "snd b + 1 < fst r" if "b \<in> set os" for b
      using assms(1) far that by (force simp: out apart_def sorted_wrt_append)
    then show ?thesis using far assms by (auto simp: join_range_def out apart_def sorted_wrt_append)
  qed
qed

lemma join_sorted:
  assumes "sorted (map fst rs)" and "\<forall>r \<in> set rs. fst r \<le> snd r" and "apart out"
    and "\<forall>a \<in> set out. \<forall>r \<in> set rs. fst a \<le> fst r"
  shows "apart (fold join_range rs out) \<and> covers (fold join_range rs out) = covers out \<union> covers rs"
  using assms
proof (induction rs arbitrary: out)
  case (Cons r rs)
  note j = join_range_ok [of out r]
  have "\<forall>a \<in> set (join_range r out). \<forall>q \<in> set rs. fst a \<le> fst q"
    using j Cons.prems by (force simp: sorted_wrt_map)
  with Cons.IH [of "join_range r out"] j Cons.prems show ?case by auto
qed simp

lemma joinRanges_ok:
  assumes "\<forall>r \<in> set rs. fst r \<le> snd r"
  shows "apart (joinRanges rs)" and "covers (joinRanges rs) = covers rs"
proof -
  have "covers (sort_key fst rs) = covers rs" by (simp add: covers_def)
  then show "apart (joinRanges rs)" "covers (joinRanges rs) = covers rs"
    using join_sorted [of "sort_key fst rs" "[]"] assms by (simp_all add: joinRanges_def apart_def)
qed

text \<open>The ranges do not depend on the order in which the sort leaves ranges with one first line.\<close>

lemma apart_tail: "apart (r # rs) \<Longrightarrow> L \<in> covers rs \<Longrightarrow> snd r + 1 < L"
  by (force simp: apart_def in_covers)

lemma apart_Cons: "apart (r # rs) \<longleftrightarrow> fst r \<le> snd r \<and> (\<forall>q \<in> set rs. snd r + 1 < fst q) \<and> apart rs"
  by (auto simp: apart_def)

lemma apart_unique: "apart rs \<Longrightarrow> apart ss \<Longrightarrow> covers rs = covers ss \<Longrightarrow> rs = ss"
proof (induction rs arbitrary: ss)
  case Nil
  then show ?case by (cases ss) (auto simp: apart_Cons)
next
  case (Cons r rs)
  obtain s ss' where ss: "ss = s # ss'"
    using Cons.prems by (cases ss) (auto simp: apart_Cons)
  have r: "fst r \<le> snd r" "apart rs" and s: "fst s \<le> snd s" "apart ss'"
    using Cons.prems by (simp_all add: ss apart_Cons)
  have tr: "L \<in> covers rs \<Longrightarrow> snd r + 1 < L" for L using apart_tail [OF Cons.prems(1)] .
  have ts: "L \<in> covers ss' \<Longrightarrow> snd s + 1 < L" for L using apart_tail [of s ss'] Cons.prems(2) ss by simp
  have eq: "{fst r..snd r} \<union> covers rs = {fst s..snd s} \<union> covers ss'" using Cons.prems(3) by (simp add: ss)
  have "fst r \<in> {fst s..snd s} \<union> covers ss'" "fst s \<in> {fst r..snd r} \<union> covers rs" using eq r s by auto
  then have f: "fst r = fst s" using tr ts r s by force
  have "snd r \<in> {fst s..snd s} \<union> covers ss'" "snd s \<in> {fst r..snd r} \<union> covers rs" using eq r s by auto
  moreover have "snd r + 1 \<notin> {fst r..snd r} \<union> covers rs" "snd s + 1 \<notin> {fst s..snd s} \<union> covers ss'"
    using tr ts by force+
  ultimately have n: "snd r = snd s" using eq f r s tr ts by (smt (verit) Un_iff atLeastAtMost_iff)
  have "covers rs = covers ss'" using eq f n tr ts by force
  then show ?case using Cons.IH [OF r(2) s(2)] f n by (simp add: ss prod_eq_iff)
qed

lemma joinRanges_any_sort:
  assumes "set ss = set rs" and "sorted (map fst ss)" and "\<forall>r \<in> set rs. fst r \<le> snd r"
  shows "fold join_range ss [] = joinRanges rs"
proof (rule apart_unique)
  have "covers ss = covers rs" using assms(1) by (simp add: covers_def)
  then show "apart (fold join_range ss [])" "covers (fold join_range ss []) = covers (joinRanges rs)"
    using join_sorted [OF assms(2), of "[]"] assms(1,3) joinRanges_ok(2) [OF assms(3)] by (simp_all add: apart_def)
qed (rule joinRanges_ok(1) [OF assms(3)])

lemma InMaskedRanges_iff:
  assumes "apart rs"
  shows "InMaskedRanges rs L \<longleftrightarrow> L \<in> covers rs"
proof -
  define i where "i = search_from (\<lambda>i. snd (rs ! i) \<ge> L) 0 (length rs)"
  have mono: "snd (rs ! a) < fst (rs ! b)" "fst (rs ! b) \<le> snd (rs ! b)" if "a < b" "b < length rs" for a b
    using assms that by (fastforce simp: apart_def sorted_wrt_iff_nth_less)+
  have "stays_true (\<lambda>i. snd (rs ! i) \<ge> L) (length rs)"
    unfolding stays_true_def using mono by (smt (verit) le_neq_implies_less)
  then have first: "first_at (\<lambda>i. snd (rs ! i) \<ge> L) 0 (length rs) i" unfolding i_def by (rule search_from_ok [OF le0])
  show ?thesis
  proof
    assume "InMaskedRanges rs L"
    then have "i < length rs" "fst (rs ! i) \<le> L" by (simp_all add: InMaskedRanges_def Let_def i_def)
    moreover have "L \<le> snd (rs ! i)" using first calculation by (simp add: first_at_def)
    ultimately show "L \<in> covers rs" by (auto simp: in_covers)
  next
    assume "L \<in> covers rs"
    then obtain k where k: "k < length rs" "fst (rs ! k) \<le> L" "L \<le> snd (rs ! k)" by (auto simp: in_covers in_set_conv_nth)
    then have "i \<le> k" using first by (force simp: first_at_def)
    moreover have "\<not> i < k"
    proof
      assume "i < k"
      then have "L \<le> snd (rs ! i)" using first k by (simp add: first_at_def)
      then show False using mono(1) [OF \<open>i < k\<close> k(1)] k(2) by simp
    qed
    ultimately have "i = k" by simp
    then show "InMaskedRanges rs L" using k by (simp add: InMaskedRanges_def Let_def flip: i_def)
  qed
qed

section \<open>What every chunk counts\<close>

text \<open>The counts of lines and of stamped lines, which no step inside a chunk's merge changes.\<close>

definition counts_of :: "merger \<Rightarrow> int \<times> int" where
  "counts_of m = (mg_base m, mg_stamped m)"

lemma counts_upd [simp]:
  "counts_of (put_sink s m) = counts_of m" "counts_of (m\<lparr>mg_count := c\<rparr>) = counts_of m"
  "counts_of (m\<lparr>mg_stored := fs\<rparr>) = counts_of m" "counts_of (m\<lparr>mg_carry := st\<rparr>) = counts_of m"
  "counts_of (m\<lparr>mg_run := r\<rparr>) = counts_of m" "counts_of (m\<lparr>mg_hasRun := b\<rparr>) = counts_of m"
  "counts_of (m\<lparr>mg_full := b\<rparr>) = counts_of m"
  by (simp_all add: counts_of_def put_sink_def)

lemma counts_take [simp]: "counts_of (merger_take fs n m) = counts_of m"
  by (simp add: merger_take_def merger_note_full_def)

lemma counts_emit [simp]: "counts_of (emit_run sg p q m) = counts_of m" "counts_of (close_run sg p m) = counts_of m"
  by (simp_all add: emit_run_def close_run_def)

lemma counts_merge_runs [simp]: "counts_of (merge_runs sg p res m) = counts_of m"
  by (simp add: merge_runs_def Let_def)

lemma counts_converge: "counts_of (snd (converge res ry m)) = counts_of m"
  by (simp add: converge_def Let_def)

lemma counts_replay_step: "counts_of (snd (replay_step sg p res tt l idx ry m)) = counts_of m"
  by (auto simp: replay_step_def Let_def counts_converge split: prod.split) (metis counts_converge counts_upd(1) snd_conv)+

lemma counts_replay_lines: "counts_of (snd (replay_lines sg p res tt ls idx ry m)) = counts_of m"
proof (induction ls arbitrary: tt idx ry m)
  case (Cons l0 ls)
  obtain l tt' where o: "observe tt l0 = (l, tt')" by force
  obtain ry' m' where s: "replay_step sg p res tt' l idx ry m = (ry', m')" by force
  then have "counts_of m' = counts_of m" using counts_replay_step by (metis snd_conv)
  then show ?case using Cons.IH o s by simp
qed simp

lemma counts_replay [simp]: "counts_of (replay_blocks sg p src res ls st m) = counts_of m"
proof -
  have "counts_of (replay_end sg p res out) = counts_of (snd out)" for out
    by (cases out) (simp add: replay_end_def)
  then show ?thesis by (simp add: replay_blocks_def Let_def counts_replay_lines)
qed

text \<open>A line that has a stamp of its own, as \<^verbatim>\<open>observe\<close> marks it.\<close>

definition has_stamp :: "time_source option \<Rightarrow> line \<Rightarrow> bool" where
  "has_stamp src l \<longleftrightarrow> stamped l \<or> (case src of None \<Rightarrow> False | Some s \<Rightarrow> stamp_of s l \<noteq> None)"

definition stamps_of :: "time_source option \<Rightarrow> line list \<Rightarrow> int" where
  "stamps_of src ls = int (length (filter (has_stamp src) ls))"

lemma stamps_of_append [simp]: "stamps_of src (ls @ ms) = stamps_of src ls + stamps_of src ms"
  by (simp add: stamps_of_def)

lemma walk_line_stamped:
  "tt_src (wk_times (ScanWalk.walk_line sg b l w)) = tt_src (wk_times w)"
  "wk_stamped (ScanWalk.walk_line sg b l w) = wk_stamped w + (if has_stamp (tt_src (wk_times w)) l then 1 else 0)"
  by (auto simp: ScanWalk.walk_line_def observe_def has_stamp_def Let_def split: prod.splits option.splits)

lemma walk_lines_stamped:
  "wk_stamped (walk_lines sg fulls ls w) = wk_stamped w + stamps_of (tt_src (wk_times w)) ls"
  by (induction ls arbitrary: fulls w) (simp_all add: stamps_of_def walk_line_stamped)

lemma chunk_stamped:
  "cr_stamped (settle_times src carry (chunk_walk sg src cap fulls ls final)) = stamps_of src ls"
  by (simp add: settle_times_def chunk_walk_def walk_finish_def walk_lines_stamped new_walk_def Let_def
      split: option.split prod.split)

lemma scan_chunk_counts:
  "counts_of (scan_chunk sg src c m) =
    (mg_base m + int (length (tc_lines c)), mg_stamped m + stamps_of src (tc_lines c))"
proof (cases "tc_lines c = []")
  case True
  then show ?thesis by (simp add: scan_chunk_empty counts_of_def stamps_of_def)
next
  case False
  let ?res = "settle_times src (mg_lastStamp m)
    (chunk_walk sg src (mg_cap m) (\<lambda>i. tc_fulls c i \<and> mg_full m) (tc_lines c) (tc_final c))"
  have end_counts: "counts_of (add_end sg ?res n) =
      (fst (counts_of n) + int (length (tc_lines c)), snd (counts_of n) + stamps_of src (tc_lines c))" for n
    by (simp add: add_end_def counts_of_def chunk_stamped chunk_walk_lines_len(1))
  show ?thesis
    unfolding scan_chunk_def merger_add_eq [OF False refl] end_counts
    by (simp add: counts_of_def [of m] split: sig_kind.split option.split)
qed

lemma scan_counts:
  "counts_of (fold (scan_chunk sg src) cs m) =
    (mg_base m + int (length (concat (map tc_lines cs))), mg_stamped m + stamps_of src (concat (map tc_lines cs)))"
proof (induction cs arbitrary: m)
  case (Cons c cs)
  show ?case using scan_chunk_counts [of sg src c m] by (simp add: Cons.IH) (simp add: counts_of_def)
qed (simp add: counts_of_def stamps_of_def)

lemma close_counts [simp]: "counts_of (merger_close sg m) = counts_of m"
  by (simp add: merger_close_def Let_def split: sig_kind.split option.split)

section \<open>What a scan finds\<close>

text \<open>
  What a signature keeps of the findings of its walk over the whole text, and the count: an
  unprefixed run keeps nothing when its share of stamped lines is not reached.
\<close>

definition share_missed :: "engine_sig \<Rightarrow> time_source option \<Rightarrow> line list \<Rightarrow> bool" where
  "share_missed es src ls \<longleftrightarrow>
     (case sg_kind (es_sig es) of
        KRun p \<Rightarrow> rp_mode p = RunUnprefixed \<and> (ls = [] \<or> es_below es (stamps_of src ls) (int (length ls)))
      | _ \<Rightarrow> False)"

definition text_findings :: "engine \<Rightarrow> time_source option \<Rightarrow> line list \<Rightarrow> engine_sig \<Rightarrow> finding list \<times> int" where
  "text_findings e src ls es =
     (if share_missed es src ls then ([], 0)
      else (let found = map (\<lambda>f. to_finding f 0) (ref_findings (es_sig es) src ls)
            in (take (capOf e es) found, int (length found))))"

text \<open>
  The lines a recorder masks: those after the first line of a body it keeps, and past its bound
  those after the first line of the last one, to the end of the text.
\<close>

definition body_line :: "engine \<Rightarrow> time_source option \<Rightarrow> line list \<Rightarrow> engine_sig \<Rightarrow> int \<Rightarrow> bool" where
  "body_line e src ls es L \<longleftrightarrow>
     (case text_findings e src ls es of (fs, n) \<Rightarrow>
        (\<exists>f \<in> set fs. StartLine f < L \<and> L \<le> EndLine f) \<or>
        (fs \<noteq> [] \<and> n > int (length fs) \<and> StartLine (last fs) < L \<and>
         L \<le> max (int (length ls)) (StartLine (last fs) + 1)))"

text \<open>A finding as the result shows it.\<close>

definition shown :: "(int \<Rightarrow> bool) \<Rightarrow> finding \<Rightarrow> finding" where
  "shown body f =
     (if body (StartLine f) then f\<lparr>Excerpt := MaskedLineText (firstLen f), Masked := True\<rparr> else f)\<lparr>firstLen := 0\<rparr>"

abbreviation engine_text :: "engine_chunk list \<Rightarrow> line list" where
  "engine_text chunks \<equiv> concat (map ec_lines chunks)"

lemma engine_add_nth:
  assumes "length ms = length (en_sigs e)" and "i < length (en_sigs e)"
  shows "engine_add e src c ms ! i = scan_chunk (es_sig (en_sigs e ! i)) src (chunk_for i c) (ms ! i)"
  using assms by (simp add: engine_add_def nth_enumerate_eq)

lemma engine_fold:
  assumes "length ms = length (en_sigs e)"
  shows "length (fold (engine_add e src) chunks ms) = length (en_sigs e)"
    and "i < length (en_sigs e) \<Longrightarrow> fold (engine_add e src) chunks ms ! i =
      fold (scan_chunk (es_sig (en_sigs e ! i)) src) (map (chunk_for i) chunks) (ms ! i)"
  using assms
proof (induction chunks arbitrary: ms)
  case (Cons c cs)
  { case 1 show ?case using Cons(1) [of "engine_add e src c ms"] 1 by (simp add: engine_add_def) }
  { case 2 show ?case using Cons(2) [of "engine_add e src c ms"] 2 engine_add_nth [OF 2(2,1)]
      by (simp add: engine_add_def) }
qed simp_all

definition last_has_end :: "engine_chunk list \<Rightarrow> bool" where
  "last_has_end chunks \<longleftrightarrow> last_final (map (chunk_for 0) chunks)"

lemma last_has_end: "last_has_end chunks \<Longrightarrow> last_final (map (chunk_for i) chunks)"
  unfolding last_has_end_def by (induction chunks) (auto simp: chunk_for_def)

lemma text_for: "concat (map tc_lines (map (chunk_for i) chunks)) = engine_text chunks"
  by (simp add: chunk_for_def o_def)

text \<open>The state of one signature, closed and with its share looked at.\<close>

lemma closed_state:
  fixes src :: "time_source option"
  assumes "i < length (en_sigs e)" and "es = en_sigs e ! i" and "same_min_ok (es_sig es)" and "last_has_end chunks"
  defines "m \<equiv> dropUnprefixedBelowShare es
    (merger_close (es_sig es) (fold (engine_add e src) chunks (engine_start e) ! i))"
  shows "(mg_stored m, mg_count m) = text_findings e src (engine_text chunks) es"
    and "mg_base m = int (length (engine_text chunks))"
proof -
  let ?ls = "engine_text chunks"
  define m0 where "m0 = scan_chunks (es_sig es) src (capOf e es) (map (chunk_for i) chunks)"
  have m0: "m = dropUnprefixedBelowShare es m0"
    using engine_fold(2) [of "engine_start e" e i src chunks] assms(1,2)
    by (simp add: m_def m0_def scan_chunks_def engine_start_def)
  note sc = scan_chunks_findings [OF assms(3) last_has_end [OF assms(4), of i], of src "capOf e es", folded m0_def, unfolded text_for]
  have counts: "counts_of m0 = (int (length ?ls), stamps_of src ?ls)"
    using scan_counts [of "es_sig es" src "map (chunk_for i) chunks" "new_merger (capOf e es)", unfolded text_for]
    by (simp add: m0_def scan_chunks_def new_merger_def)
  then have "mg_base m0 = int (length ?ls)" "mg_stamped m0 = stamps_of src ?ls" by (simp_all add: counts_of_def)
  then show "(mg_stored m, mg_count m) = text_findings e src ?ls es" "mg_base m = int (length ?ls)"
    using sc by (auto simp: m0 dropUnprefixedBelowShare_def text_findings_def share_missed_def Let_def split: sig_kind.split)
qed

lemma bodies_lines:
  assumes "(mg_stored m, mg_count m) = text_findings e src ls es" and "mg_base m = int (length ls)"
  shows "L \<in> covers (bodies_of m) \<longleftrightarrow> body_line e src ls es L" and "\<forall>r \<in> set (bodies_of m). fst r \<le> snd r"
  using assms by (force simp: bodies_of_def body_line_def in_covers split: prod.split)+

lemma scan_text_finds:
  fixes src :: "time_source option"
  assumes "\<forall>es \<in> set (en_sigs e). same_min_ok (es_sig es)" and "last_has_end chunks"
  defines "ls \<equiv> engine_text chunks" and "r \<equiv> scan_text e src chunks"
  defines "body \<equiv> \<lambda>L. \<exists>es \<in> set (drop (en_selected e) (en_sigs e)). body_line e src ls es L"
  shows "sr_bySignature r = map (\<lambda>es. case text_findings e src ls es of (fs, n) \<Rightarrow> (map (shown body) fs, n))
      (take (en_selected e) (en_sigs e))"
    and "apart (sr_maskedRanges r)" and "InMaskedRanges (sr_maskedRanges r) L \<longleftrightarrow> body L"
proof -
  let ?n = "en_selected e"
  define ms where "ms = fold (engine_add e src) chunks (engine_start e)"
  have len: "length ms = length (en_sigs e)" by (simp add: ms_def engine_fold(1) engine_start_def)
  define shared where "shared = map2 dropUnprefixedBelowShare (en_sigs e)
    (map2 (\<lambda>es m. merger_close (es_sig es) m) (en_sigs e) ms)"
  have state: "(mg_stored (shared ! i), mg_count (shared ! i)) = text_findings e src ls (en_sigs e ! i)"
    "mg_base (shared ! i) = int (length ls)" if "i < length (en_sigs e)" for i
    using closed_state [OF that refl _ assms(2), of src, folded ms_def ls_def] assms(1) that len
    by (simp_all add: shared_def)
  have slen: "length shared = length (en_sigs e)" by (simp add: shared_def len)
  define ranges where "ranges = bodyRanges (drop ?n shared)"
  have r: "sr_maskedRanges r = ranges"
    "sr_bySignature r = map (\<lambda>m. (mg_stored m, mg_count m)) (map (maskExcerpts ranges) (take ?n shared))"
    using slen linear [of ?n "length (en_sigs e)"] by (simp_all add: r_def scan_text_def merger_finish_def merger_result_def Let_def ranges_def
        flip: ms_def shared_def)
  have tail: "drop ?n shared ! j = shared ! (?n + j)" "drop ?n (en_sigs e) ! j = en_sigs e ! (?n + j)"
    "?n + j < length (en_sigs e)" if "j < length (drop ?n shared)" for j
    using that slen by simp_all
  have each: "\<exists>es \<in> set (drop ?n (en_sigs e)). (mg_stored m, mg_count m) = text_findings e src ls es \<and> mg_base m = int (length ls)"
    if m: "m \<in> set (drop ?n shared)" for m
  proof -
    obtain j where j: "j < length (drop ?n shared)" "m = drop ?n shared ! j" using m by (metis in_set_conv_nth)
    then have "drop ?n (en_sigs e) ! j \<in> set (drop ?n (en_sigs e))" using slen by (intro nth_mem) simp
    then show ?thesis using state [OF tail(3) [OF j(1)]] tail(1,2) [OF j(1)] j(2) by metis
  qed
  have named: "\<exists>m \<in> set (drop ?n shared). (mg_stored m, mg_count m) = text_findings e src ls es \<and> mg_base m = int (length ls)"
    if es: "es \<in> set (drop ?n (en_sigs e))" for es
  proof -
    obtain j where j: "j < length (drop ?n shared)" "es = drop ?n (en_sigs e) ! j" using es slen by (metis in_set_conv_nth length_drop)
    then show ?thesis using nth_mem [OF j(1)] state [OF tail(3) [OF j(1)]] tail(1,2) [OF j(1)] by metis
  qed
  have ne: "\<forall>q \<in> set (concat (map bodies_of (drop ?n shared))). fst q \<le> snd q"
    using each bodies_lines(2) by fastforce
  have cov: "L \<in> covers (concat (map bodies_of (drop ?n shared))) \<longleftrightarrow> body L" for L
  proof -
    have "L \<in> covers (concat (map bodies_of (drop ?n shared))) \<longleftrightarrow> (\<exists>m \<in> set (drop ?n shared). L \<in> covers (bodies_of m))"
      by (auto simp: covers_def)
    then show ?thesis unfolding body_def using each named bodies_lines(1) by blast
  qed
  show ap: "apart (sr_maskedRanges r)" by (simp add: r ranges_def bodyRanges_def joinRanges_ok(1) [OF ne])
  have inm: "InMaskedRanges ranges L \<longleftrightarrow> body L" for L
    using InMaskedRanges_iff [OF ap [unfolded r]] by (simp add: ranges_def bodyRanges_def joinRanges_ok(2) [OF ne] cov)
  then show "InMaskedRanges (sr_maskedRanges r) L \<longleftrightarrow> body L" by (simp add: r)
  have "mask_finding ranges = shown body" by (simp add: fun_eq_iff mask_finding_def shown_def inm)
  then show "sr_bySignature r = map (\<lambda>es. case text_findings e src ls es of (fs, n) \<Rightarrow> (map (shown body) fs, n)) (take ?n (en_sigs e))"
    unfolding r(2) using state slen
    by (intro nth_equalityI) (auto simp: maskExcerpts_def split: prod.split, (metis fst_conv snd_conv)+)
qed

text \<open>
  No line of a body is shown, also of one past the recorder's bound: the bodies come in order, so
  such a body lies after the first line of the last one kept.
\<close>

lemma body_never_shown:
  assumes f: "f \<in> set (ref_findings (es_sig es) src ls)" and L: "rf_startIdx f < L" "L \<le> rf_endIdx f"
    and kept: "0 < capOf e es" "\<not> share_missed es src ls"
  shows "body_line e src ls es L"
proof -
  let ?found = "ref_findings (es_sig es) src ls" and ?cap = "capOf e es"
  have tf: "text_findings e src ls es = (take ?cap (map (\<lambda>f. to_finding f 0) ?found), int (length ?found))"
    using kept(2) by (simp add: text_findings_def)
  obtain i where i: "i < length ?found" "f = ?found ! i" using f by (metis in_set_conv_nth)
  show ?thesis
  proof (cases "i < ?cap")
    case True
    then have "to_finding f 0 \<in> set (take ?cap (map (\<lambda>f. to_finding f 0) ?found))"
      using i by (auto simp: in_set_conv_nth intro!: exI [of _ i])
    then show ?thesis using L by (force simp: body_line_def tf to_finding_def)
  next
    case False
    have ord: "sorted (map rf_startIdx ?found)" "rf_endIdx f \<le> int (length ls)"
      using ref_findings_order [of ls "es_sig es" src] f by (auto simp: in_order_def)
    have last: "last (take ?cap (map (\<lambda>f. to_finding f 0) ?found)) = to_finding (?found ! (?cap - 1)) 0"
      using False i(1) kept(1) by (subst last_conv_nth) (auto simp: min_absorb2)
    have "rf_startIdx (?found ! (?cap - 1)) \<le> rf_startIdx f"
      using sorted_nth_mono [OF ord(1), of "?cap - 1" i] False i by simp
    then show ?thesis
      using False i kept(1) L ord(2) by (auto simp: body_line_def tf last) (simp_all add: to_finding_def)
  qed
qed

text \<open>
  Claim C1. A scan with regex, value, run and block signatures answers what one walk over the whole
  text would, however the text is cut into chunks and whenever their walks see that a store is full:
  each selected signature has the first findings of its walk, as many as its bound, and the count of
  all, or nothing when it is an unprefixed run of a file with too small a share of stamped lines. The
  masked ranges are in order and do not touch, and cover exactly the lines after the first line of
  the bodies the recorders keep and, past a recorder's bound, everything after the first line of its
  last kept body; so no line of any recorded body, kept or not, lies outside them. A finding that
  begins on such a line shows the line's length instead of its text. The share is any comparison of
  the two line counts; equal-line runs ask for two lines, as signature files must; no walk fails and
  the scan is not cancelled.
\<close>

theorem scan_text_as_one_walk:
  assumes "\<forall>es \<in> set (en_sigs e). same_min_ok (es_sig es)" and "last_has_end chunks"
  shows "let ls = engine_text chunks; r = scan_text e src chunks; recorders = drop (en_selected e) (en_sigs e);
      body = \<lambda>L. \<exists>es \<in> set recorders. body_line e src ls es L
    in sr_bySignature r = map (\<lambda>es. case text_findings e src ls es of (fs, n) \<Rightarrow> (map (shown body) fs, n))
         (take (en_selected e) (en_sigs e)) \<and>
       apart (sr_maskedRanges r) \<and> (\<forall>L. InMaskedRanges (sr_maskedRanges r) L \<longleftrightarrow> body L) \<and>
       (\<forall>es \<in> set recorders. \<forall>f \<in> set (ref_findings (es_sig es) src ls). \<forall>L.
          0 < capOf e es \<and> \<not> share_missed es src ls \<and> rf_startIdx f < L \<and> L \<le> rf_endIdx f \<longrightarrow>
          InMaskedRanges (sr_maskedRanges r) L)"
  using scan_text_finds [OF assms, of src] body_never_shown unfolding Let_def by blast

section \<open>A witness\<close>

text \<open>
  Lines \<open>a a a b\<close> in two chunks, a regex signature that finds \<open>a\<close>, and a recorder of the runs of
  \<open>a\<close>: the second and third finding begin in the body of the run.
\<close>

definition find_a :: regex where
  "find_a = \<lparr>rx_string = ''a'', rx_groups = \<lambda>v. if v = [97] then Some [(0, 1)] else None\<rparr>"

definition some_engine :: engine where
  "some_engine = \<lparr>en_sigs =
     [\<lparr>es_sig = \<lparr>sg_env = \<lparr>se_redact = False, se_masks = False, se_bodyOnly = False, se_build = \<lambda>v. (v, False)\<rparr>,
        sg_kind = KRegex \<lparr>rm_re = find_a, rm_not = None, rm_capture = 0, rm_entropy = None, rm_validate = None\<rparr>,
        sg_gate = \<lambda>_. True\<rparr>, es_below = \<lambda>_ _. False\<rparr>,
      \<lparr>es_sig = \<lparr>sg_env = \<lparr>se_redact = True, se_masks = False, se_bodyOnly = True, se_build = \<lambda>v. (v, False)\<rparr>,
        sg_kind = KRun \<lparr>rp_mode = RunMatch, rp_match = Some find_a, rp_not = None, rp_min = 2\<rparr>,
        sg_gate = \<lambda>_. True\<rparr>, es_below = \<lambda>_ _. False\<rparr>],
      en_selected = 1, en_cap = 5, en_bodyCap = 7\<rparr>"

definition some_chunks :: "engine_chunk list" where
  "some_chunks = [\<lparr>ec_lines = [plain_line [97] 0, plain_line [97] 2], ec_final = False, ec_fulls = \<lambda>_ _. True\<rparr>,
     \<lparr>ec_lines = [plain_line [97] 4, plain_line [98] 6], ec_final = True, ec_fulls = \<lambda>_ _. False\<rparr>]"

lemma some_engine_ok: "\<forall>es \<in> set (en_sigs some_engine). same_min_ok (es_sig es)" "last_has_end some_chunks"
  by (simp_all add: some_engine_def some_chunks_def same_min_ok_def last_has_end_def chunk_for_def)

definition some_body :: "int \<Rightarrow> bool" where
  "some_body L \<longleftrightarrow> (\<exists>es \<in> set (drop (en_selected some_engine) (en_sigs some_engine)).
     body_line some_engine None (engine_text some_chunks) es L)"

lemma some_findings:
  "map (\<lambda>(fs, n). (map (\<lambda>f. (StartLine f, Excerpt f, Masked f)) fs, n))
     (map (\<lambda>es. case text_findings some_engine None (engine_text some_chunks) es of (fs, n) \<Rightarrow> (map (shown some_body) fs, n))
       (take (en_selected some_engine) (en_sigs some_engine))) =
   [([(1, [97], False), (2, MaskedLineText 1, True), (3, MaskedLineText 1, True)], 3)]"
  "some_body 3 \<and> \<not> some_body 4"
  by code_simp+

theorem scan_text_as_one_walk_witness:
  "map (\<lambda>(fs, n). (map (\<lambda>f. (StartLine f, Excerpt f, Masked f)) fs, n)) (sr_bySignature (scan_text some_engine None some_chunks)) =
     [([(1, [97], False), (2, MaskedLineText 1, True), (3, MaskedLineText 1, True)], 3)] \<and>
   InMaskedRanges (sr_maskedRanges (scan_text some_engine None some_chunks)) 3 \<and>
   \<not> InMaskedRanges (sr_maskedRanges (scan_text some_engine None some_chunks)) 4"
  using scan_text_as_one_walk [OF some_engine_ok, of None] some_findings
  unfolding Let_def some_body_def [abs_def] by simp

end
