(* ===== verification/SeekTable.thy ===== *)
theory SeekTable
  imports Prelude
begin

text \<open>
  The seek table of a seekable zstd file, \<^verbatim>\<open>internal/seekable/format.go\<close> and \<^verbatim>\<open>format_io.go\<close>:
  writing it, finding and reading it at the end of a file in either footer layout, and the checks
  that it describes the file.
\<close>

section \<open>Little-endian numbers and 64-bit sums\<close>

fun le_val :: "bytes \<Rightarrow> int" where
  "le_val [] = 0"
| "le_val (b # bs) = uint b + 256 * le_val bs"

definition u32_at :: "bytes \<Rightarrow> nat \<Rightarrow> int" where
  "u32_at bs k = le_val (take 4 (drop k bs))"

definition put_u32 :: "int \<Rightarrow> bytes" where
  "put_u32 x = [word_of_int x, word_of_int (x div 2 ^ 8), word_of_int (x div 2 ^ 16), word_of_int (x div 2 ^ 24)]"

text \<open>An \<^verbatim>\<open>int64\<close> sum, which wraps around.\<close>

definition int64 :: "int \<Rightarrow> int" where
  "int64 x = (x + 2 ^ 63) mod 2 ^ 64 - 2 ^ 63"

lemma int64_id: "- (2 ^ 63) \<le> x \<Longrightarrow> x < 2 ^ 63 \<Longrightarrow> int64 x = x"
  by (simp add: int64_def)

lemma le_val_bounds: "0 \<le> le_val bs \<and> le_val bs < 256 ^ length bs"
proof (induction bs)
  case (Cons b bs)
  have "uint b < 256" using uint_lt2p [of b] by simp
  then show ?case using Cons by simp
qed simp

lemma u32_bounds: "0 \<le> u32_at bs k" "u32_at bs k < 2 ^ 32"
proof -
  have "(256::int) ^ length (take 4 (drop k bs)) \<le> 256 ^ 4" by (rule power_increasing) simp_all
  then show "0 \<le> u32_at bs k" "u32_at bs k < 2 ^ 32"
    using le_val_bounds [of "take 4 (drop k bs)"] by (auto simp: u32_at_def)
qed

lemma length_put_u32 [simp]: "length (put_u32 x) = 4"
  by (simp add: put_u32_def)



section \<open>The format\<close>

definition SeekableMagic :: int where "SeekableMagic = 0x184D2A5E"
definition FooterMagic :: int where "FooterMagic = 0x8F92EAB1"
definition zstdFrameMagic :: int where "zstdFrameMagic = 0xFD2FB528"

abbreviation SkippableHeaderSize :: int where "SkippableHeaderSize \<equiv> 8"
abbreviation FooterSize :: int where "FooterSize \<equiv> 9"
abbreviation EntrySize :: nat where "EntrySize \<equiv> 8"
abbreviation ChecksumEntrySize :: nat where "ChecksumEntrySize \<equiv> 12"
abbreviation maxFrameHeaderSize :: int where "maxFrameHeaderSize \<equiv> 18"

text \<open>\<^verbatim>\<open>compression.WindowLimit\<close>.\<close>

definition WindowLimit :: int where "WindowLimit = 128 * 2 ^ 20"

record frame_info =
  fi_Index :: int
  CompressedOffset :: int
  CompressedSize :: int
  DecompressedOffset :: int
  DecompressedSize :: int

definition CompressedEnd :: "frame_info \<Rightarrow> int" where
  "CompressedEnd f = int64 (CompressedOffset f + CompressedSize f)"

definition DecompressedEnd :: "frame_info \<Rightarrow> int" where
  "DecompressedEnd f = int64 (DecompressedOffset f + DecompressedSize f)"

record seek_table =
  NumFrames :: int
  Flags :: byte
  Frames :: "frame_info list"

record footer_layout =
  fl_name :: string
  magicAt :: nat
  framesAt :: nat
  descriptorAt :: nat
  checksumFlag :: byte
  reservedBits :: byte

definition footerLayouts :: "footer_layout list" where
  "footerLayouts =
     [\<lparr>fl_name = ''zstd seekable format'', magicAt = 5, framesAt = 0, descriptorAt = 4, checksumFlag = 0x80, reservedBits = 0x7C\<rparr>,
      \<lparr>fl_name = ''legacy rx'', magicAt = 0, framesAt = 4, descriptorAt = 8, checksumFlag = 0x01, reservedBits = 0\<rparr>]"

text \<open>
  The errors: each \<^verbatim>\<open>Mismatch\<close> wraps \<^verbatim>\<open>ErrSeekTableMismatch\<close> and says what does not agree;
  \<^verbatim>\<open>InFooter\<close> names the layout.
\<close>

datatype mismatch =
    ReservedBitsSet byte byte
  | TableDoesNotFit int
  | NoTableMagic int
  | TableLength int int
  | FramesEndAt int int
  | NoFrameHeader int
  | OtherContentSize int int

datatype seek_error =
    UnexpectedEOF
  | NotSeekable
  | Mismatch mismatch
  | FrameTooLargeToHold int
  | ReadFailed string
  | InFooter string seek_error

text \<open>
  An \<^verbatim>\<open>io.ReaderAt\<close>: what \<^verbatim>\<open>ReadAt\<close> of a buffer of some length at some offset gives, the whole
  buffer or an error.
\<close>

type_synonym reader = "int \<Rightarrow> int \<Rightarrow> string + bytes"

section \<open>Frame headers\<close>

definition frameContentSizeBytes :: "nat list" where "frameContentSizeBytes = [0, 2, 4, 8]"
definition dictionaryIDBytes :: "nat list" where "dictionaryIDBytes = [0, 1, 2, 4]"

text \<open>\<^verbatim>\<open>parseFrameHeader\<close>: \<open>None\<close> for no header, and the content size it records if it records one.\<close>

unbundle bit_operations_syntax

definition parse_frame_header :: "bytes \<Rightarrow> int option option" where
  "parse_frame_header header =
     (if length header < 5 \<or> u32_at header 0 \<noteq> zstdFrameMagic then None
      else let descriptor = header ! 4;
               singleSegment = descriptor AND 0x20 \<noteq> 0;
               sizeBytes0 = frameContentSizeBytes ! unat (drop_bit 6 descriptor);
               sizeBytes = (if sizeBytes0 = 0 \<and> singleSegment then 1 else sizeBytes0);
               start0 = 5 + dictionaryIDBytes ! unat (descriptor AND 0x03);
               start = (if \<not> singleSegment then start0 + 1 else start0)
           in if length header < start + sizeBytes then None
              else if sizeBytes = 0 then Some None
              else (let contentSize = le_val (take sizeBytes (drop start header))
                    in Some (Some (if sizeBytes = 2 then contentSize + 256 else contentSize))))"

definition check_frame_header :: "reader \<Rightarrow> frame_info \<Rightarrow> seek_error option" where
  "check_frame_header r f =
     (if CompressedSize f = 0 \<and> DecompressedSize f = 0 then None
      else case r (CompressedOffset f) (min (CompressedSize f) maxFrameHeaderSize) of
             Inl e \<Rightarrow> Some (ReadFailed e)
           | Inr header \<Rightarrow>
               (case parse_frame_header header of
                  None \<Rightarrow> Some (Mismatch (NoFrameHeader (fi_Index f)))
                | Some None \<Rightarrow> None
                | Some (Some contentSize) \<Rightarrow>
                    if contentSize \<noteq> DecompressedSize f then Some (Mismatch (OtherContentSize (fi_Index f) contentSize))
                    else None))"

section \<open>Reading\<close>

fun check_headers :: "reader \<Rightarrow> frame_info list \<Rightarrow> seek_error option" where
  "check_headers r [] = None"
| "check_headers r (f # fs) = (case check_frame_header r f of Some e \<Rightarrow> Some e | None \<Rightarrow> check_headers r fs)"

definition validate_seek_table :: "reader \<Rightarrow> int \<Rightarrow> seek_table \<Rightarrow> seek_error option" where
  "validate_seek_table r tableStart tbl =
     (let fin = (if NumFrames tbl > 0 then CompressedEnd (last (Frames tbl)) else 0)
      in if fin \<noteq> tableStart then Some (Mismatch (FramesEndAt fin tableStart))
         else check_headers r (Frames tbl))"

definition check_table_frame :: "reader \<Rightarrow> int \<Rightarrow> int \<Rightarrow> seek_error option" where
  "check_table_frame r fileSize tableStart =
     (case r tableStart SkippableHeaderSize of
        Inl e \<Rightarrow> Some (ReadFailed e)
      | Inr header \<Rightarrow>
          if u32_at header 0 \<noteq> SeekableMagic then Some (Mismatch (NoTableMagic (u32_at header 0)))
          else if u32_at header 4 \<noteq> fileSize - tableStart - SkippableHeaderSize
          then Some (Mismatch (TableLength (u32_at header 4) (fileSize - tableStart - SkippableHeaderSize)))
          else None)"

text \<open>The loop over the entries, each at a multiple of the entry size.\<close>

fun frames_of :: "bytes \<Rightarrow> nat \<Rightarrow> nat \<Rightarrow> nat \<Rightarrow> int \<Rightarrow> int \<Rightarrow> frame_info list" where
  "frames_of entries entrySize i 0 cOff dOff = []"
| "frames_of entries entrySize i (Suc n) cOff dOff =
     (let cSize = u32_at entries (i * entrySize); dSize = u32_at entries (i * entrySize + 4)
      in \<lparr>fi_Index = int i, CompressedOffset = cOff, CompressedSize = cSize,
          DecompressedOffset = dOff, DecompressedSize = dSize\<rparr>
         # frames_of entries entrySize (Suc i) n (int64 (cOff + cSize)) (int64 (dOff + dSize)))"

definition read_table_in :: "reader \<Rightarrow> int \<Rightarrow> bytes \<Rightarrow> footer_layout \<Rightarrow> seek_error + seek_table" where
  "read_table_in r fileSize footer layout =
     (let numFrames = u32_at footer (framesAt layout);
          descriptor = footer ! descriptorAt layout;
          reserved = descriptor AND reservedBits layout
      in if reserved \<noteq> 0 then Inl (Mismatch (ReservedBitsSet descriptor reserved))
         else let entrySize = (if descriptor AND checksumFlag layout \<noteq> 0 then ChecksumEntrySize else EntrySize);
                  tableStart = fileSize - FooterSize - numFrames * int entrySize - SkippableHeaderSize
              in if tableStart < 0 then Inl (Mismatch (TableDoesNotFit numFrames))
                 else case check_table_frame r fileSize tableStart of
                        Some e \<Rightarrow> Inl e
                      | None \<Rightarrow>
                          (case r (tableStart + SkippableHeaderSize) (numFrames * int entrySize) of
                             Inl e \<Rightarrow> Inl (ReadFailed e)
                           | Inr entries \<Rightarrow>
                               (let frames = frames_of entries entrySize 0 (nat numFrames) 0 0;
                                    tbl = \<lparr>NumFrames = int (length frames), Flags = descriptor, Frames = frames\<rparr>
                                in case validate_seek_table r tableStart tbl of Some e \<Rightarrow> Inl e | None \<Rightarrow> Inr tbl)))"

definition frame_too_large :: "frame_info \<Rightarrow> bool" where
  "frame_too_large f \<longleftrightarrow> DecompressedSize f > WindowLimit \<or> CompressedSize f > WindowLimit"

definition check_frames_can_be_held :: "seek_table \<Rightarrow> seek_error option" where
  "check_frames_can_be_held tbl =
     map_option (\<lambda>f. FrameTooLargeToHold (fi_Index f)) (List.find frame_too_large (Frames tbl))"

fun try_layouts ::
  "reader \<Rightarrow> int \<Rightarrow> bytes \<Rightarrow> seek_error option \<Rightarrow> footer_layout list \<Rightarrow> seek_error + seek_table" where
  "try_layouts r fileSize footer firstErr [] =
     Inl (case firstErr of None \<Rightarrow> NotSeekable | Some e \<Rightarrow> e)"
| "try_layouts r fileSize footer firstErr (layout # ls) =
     (if u32_at footer (magicAt layout) \<noteq> FooterMagic then try_layouts r fileSize footer firstErr ls
      else case read_table_in r fileSize footer layout of
             Inr tbl \<Rightarrow> (case check_frames_can_be_held tbl of Some e \<Rightarrow> Inl e | None \<Rightarrow> Inr tbl)
           | Inl e \<Rightarrow>
               try_layouts r fileSize footer
                 (case firstErr of None \<Rightarrow> Some (InFooter (fl_name layout) e) | Some _ \<Rightarrow> firstErr) ls)"

definition read_seek_table :: "reader \<Rightarrow> int \<Rightarrow> seek_error + seek_table" where
  "read_seek_table r fileSize =
     (if fileSize < FooterSize then Inl UnexpectedEOF
      else case r (fileSize - FooterSize) FooterSize of
             Inl e \<Rightarrow> Inl (ReadFailed e)
           | Inr footer \<Rightarrow> try_layouts r fileSize footer None footerLayouts)"

section \<open>Writing\<close>





section \<open>Readers of a file\<close>

text \<open>
  What the reader of a file does: a read inside the file succeeds, with no error at its end, and a
  read that succeeds fills the buffer and was inside the file.
\<close>

locale reader_of =
  fixes rd :: reader and content :: bytes
  assumes served: "0 \<le> off \<Longrightarrow> 0 \<le> n \<Longrightarrow> off + n \<le> int (length content) \<Longrightarrow>
      rd off n = Inr (take (nat n) (drop (nat off) content))"
    and filled: "rd off n = Inr bs \<Longrightarrow> length bs = nat n"
    and inside: "0 < n \<Longrightarrow> rd off n = Inr bs \<Longrightarrow> 0 \<le> off \<and> off + n \<le> int (length content)"
begin

lemma read_all: "rd off n = Inr bs \<Longrightarrow> 0 < n \<Longrightarrow> bs = take (nat n) (drop (nat off) content)"
  using inside [of n off bs] served [of off n] by simp

text \<open>A frame that passes its check, unless it is empty, starts with the magic inside the file.\<close>

lemma checked_inside:
  assumes "check_frame_header rd f = None" and "0 \<le> CompressedSize f"
    and "\<not> (CompressedSize f = 0 \<and> DecompressedSize f = 0)"
  shows "0 \<le> CompressedOffset f \<and> CompressedOffset f \<le> int (length content) \<and> 0 < CompressedSize f \<and>
    u32_at content (nat (CompressedOffset f)) = zstdFrameMagic"
proof -
  let ?n = "min (CompressedSize f) maxFrameHeaderSize"
  obtain header where h: "rd (CompressedOffset f) ?n = Inr header" "parse_frame_header header \<noteq> None"
    using assms(1,3) unfolding check_frame_header_def by (auto split: sum.splits option.splits if_splits)
  then have len: "5 \<le> length header" "u32_at header 0 = zstdFrameMagic"
    by (auto simp: parse_frame_header_def split: if_splits)
  have pos: "0 < ?n" using filled [OF h(1)] len(1) assms(2) by auto
  have "header = take (nat ?n) (drop (nat (CompressedOffset f)) content)" by (rule read_all [OF h(1) pos])
  moreover have "5 \<le> nat ?n" using filled [OF h(1)] len(1) by simp
  ultimately have "u32_at header 0 = u32_at content (nat (CompressedOffset f))"
    by (simp add: u32_at_def min_absorb1)
  then show ?thesis using inside [OF pos h(1)] pos len(2) by auto
qed

text \<open>A frame inside the file is read.\<close>

lemma header_read:
  assumes "0 \<le> CompressedOffset f" and "0 \<le> CompressedSize f"
    and "CompressedOffset f + CompressedSize f \<le> int (length content)"
  shows "check_frame_header rd f \<noteq> Some (ReadFailed e)"
proof -
  have "CompressedOffset f + min (CompressedSize f) maxFrameHeaderSize \<le> int (length content)" using assms by simp
  then show ?thesis
    using served [of "CompressedOffset f" "min (CompressedSize f) maxFrameHeaderSize"] assms(1,2)
    by (auto simp: check_frame_header_def split: option.split)
qed

end

definition file_reader :: "bytes \<Rightarrow> reader" where
  "file_reader content off n =
     (if 0 \<le> off \<and> 0 \<le> n \<and> off + n \<le> int (length content) then Inr (take (nat n) (drop (nat off) content)) else Inl ''EOF'')"

interpretation file_rd: reader_of "file_reader content" content for content
  by unfold_locales (auto simp: file_reader_def split: if_splits)

section \<open>Frames that follow each other\<close>

fun laid :: "int \<Rightarrow> int \<Rightarrow> int \<Rightarrow> frame_info list \<Rightarrow> bool" where
  "laid i c d [] = True"
| "laid i c d (f # fs) =
     (fi_Index f = i \<and> CompressedOffset f = c \<and> DecompressedOffset f = d \<and>
      0 \<le> CompressedSize f \<and> 0 \<le> DecompressedSize f \<and>
      laid (i + 1) (c + CompressedSize f) (d + DecompressedSize f) fs)"

definition text_end :: "frame_info list \<Rightarrow> int" where
  "text_end fs = sum_list (map DecompressedSize fs)"

definition bytes_end :: "frame_info list \<Rightarrow> int" where
  "bytes_end fs = sum_list (map CompressedSize fs)"

lemma laid_last: "laid i c d fs \<Longrightarrow> fs \<noteq> [] \<Longrightarrow>
    CompressedOffset (last fs) + CompressedSize (last fs) = c + bytes_end fs"
  by (induction fs arbitrary: i c d) (auto simp: bytes_end_def)

lemma laid_nonneg: "laid i c d fs \<Longrightarrow> 0 \<le> bytes_end fs"
  by (induction fs arbitrary: i c d) (auto simp: bytes_end_def)

lemma laid_inside:
  "laid i c d fs \<Longrightarrow> 0 \<le> c \<Longrightarrow> f \<in> set fs \<Longrightarrow>
    0 \<le> CompressedOffset f \<and> 0 \<le> CompressedSize f \<and> CompressedOffset f + CompressedSize f \<le> c + bytes_end fs"
proof (induction fs arbitrary: i c d)
  case (Cons g fs)
  show ?case
  proof (cases "f = g")
    case True
    then show ?thesis using Cons.prems laid_nonneg [of "i + 1" _ _ fs] by (auto simp: bytes_end_def)
  next
    case False
    then show ?thesis using Cons.IH [of "i + 1" "c + CompressedSize g" "d + DecompressedSize g"] Cons.prems
      by (simp add: bytes_end_def add.assoc)
  qed
qed simp

lemma length_frames_of [simp]: "length (frames_of es esz i n c d) = n"
  by (induction es esz i n c d rule: frames_of.induct) (simp_all add: Let_def)

text \<open>Few enough entries cannot overflow the sums.\<close>

lemma frames_of_laid:
  "0 \<le> c \<Longrightarrow> 0 \<le> d \<Longrightarrow> c + int n * 2 ^ 32 < 2 ^ 63 \<Longrightarrow> d + int n * 2 ^ 32 < 2 ^ 63 \<Longrightarrow>
    laid (int i) c d (frames_of es esz i n c d) \<and> bytes_end (frames_of es esz i n c d) \<le> int n * 2 ^ 32"
proof (induction es esz i n c d rule: frames_of.induct)
  case (2 es esz i n c d)
  define cs where "cs = u32_at es (i * esz)"
  define ds where "ds = u32_at es (i * esz + 4)"
  have b: "0 \<le> cs" "cs < 2 ^ 32" "0 \<le> ds" "ds < 2 ^ 32" by (simp_all only: cs_def ds_def u32_bounds)
  have "c + cs < 2 ^ 63" "d + ds < 2 ^ 63" using "2.prems" b by (auto simp: algebra_simps)
  then have id: "int64 (c + cs) = c + cs" "int64 (d + ds) = d + ds"
    using "2.prems"(1,2) b by (simp_all add: int64_id)
  have step: "frames_of es esz i (Suc n) c d =
      \<lparr>fi_Index = int i, CompressedOffset = c, CompressedSize = cs, DecompressedOffset = d, DecompressedSize = ds\<rparr>
      # frames_of es esz (Suc i) n (c + cs) (d + ds)"
    by (simp only: frames_of.simps Let_def cs_def [symmetric] ds_def [symmetric] id)
  have "laid (int (Suc i)) (c + cs) (d + ds) (frames_of es esz (Suc i) n (c + cs) (d + ds)) \<and>
      bytes_end (frames_of es esz (Suc i) n (c + cs) (d + ds)) \<le> int n * 2 ^ 32"
    using "2.IH" [OF refl refl, folded cs_def ds_def, unfolded id] "2.prems" b by (simp add: algebra_simps)
  then show ?case using b unfolding step by (simp add: bytes_end_def algebra_simps)
qed (simp add: bytes_end_def)

context reader_of
begin

text \<open>In a file of any size, frames that pass their checks follow each other too.\<close>

lemma frames_of_checked:
  "check_headers rd (frames_of es esz i n c d) = None \<Longrightarrow> int (length content) < 2 ^ 62 \<Longrightarrow>
    0 \<le> c \<Longrightarrow> c \<le> int (length content) + 2 ^ 32 \<Longrightarrow> 0 \<le> d \<Longrightarrow> d + int n * 2 ^ 27 < 2 ^ 63 \<Longrightarrow>
    \<forall>f \<in> set (frames_of es esz i n c d). DecompressedSize f \<le> 2 ^ 27 \<Longrightarrow>
    laid (int i) c d (frames_of es esz i n c d) \<and>
    c + bytes_end (frames_of es esz i n c d) \<le> int (length content) + 2 ^ 32"
proof (induction es esz i n c d rule: frames_of.induct)
  case (2 es esz i n c d)
  define cs where "cs = u32_at es (i * esz)"
  define ds where "ds = u32_at es (i * esz + 4)"
  let ?f = "\<lparr>fi_Index = int i, CompressedOffset = c, CompressedSize = cs, DecompressedOffset = d, DecompressedSize = ds\<rparr>"
  let ?rest = "frames_of es esz (Suc i) n (int64 (c + cs)) (int64 (d + ds))"
  have b: "0 \<le> cs" "cs < 2 ^ 32" "0 \<le> ds" "ds < 2 ^ 32" by (simp_all only: cs_def ds_def u32_bounds)
  have step: "frames_of es esz i (Suc n) c d = ?f # ?rest"
    by (simp only: frames_of.simps Let_def cs_def ds_def)
  have chk: "check_frame_header rd ?f = None" "check_headers rd ?rest = None"
    using "2.prems"(1) unfolding step by (simp_all split: option.splits)
  have c: "c + cs \<le> int (length content) + 2 ^ 32"
    using checked_inside [OF chk(1)] b "2.prems"(4) by (cases "cs = 0 \<and> ds = 0") auto
  have dd: "ds \<le> 2 ^ 27" using "2.prems"(7) unfolding step by simp
  have id: "int64 (c + cs) = c + cs" "int64 (d + ds) = d + ds"
    using c "2.prems"(2,3,5,6) b dd by (auto intro!: int64_id simp: algebra_simps)
  have "laid (int (Suc i)) (c + cs) (d + ds) (frames_of es esz (Suc i) n (c + cs) (d + ds)) \<and>
      c + cs + bytes_end (frames_of es esz (Suc i) n (c + cs) (d + ds)) \<le> int (length content) + 2 ^ 32"
    using "2.IH" [OF refl refl, folded cs_def ds_def, unfolded id] chk(2) "2.prems" b c dd
    unfolding step id by (simp add: algebra_simps)
  then show ?case using b unfolding step id by (simp add: bytes_end_def algebra_simps)
qed (simp add: bytes_end_def)

end

section \<open>What a table that is read says\<close>

lemma read_table_facts:
  assumes "read_table_in r fileSize footer layout = Inr tbl"
  obtains esz n entries where "esz = 8 \<or> esz = 12" and "Frames tbl = frames_of entries esz 0 n 0 0"
    and "NumFrames tbl = int n" and "int n < 2 ^ 32"
    and "0 \<le> fileSize - 17 - int n * int esz" 
    and "(if n > 0 then CompressedEnd (last (Frames tbl)) else 0) = fileSize - 17 - int n * int esz"
    and "check_headers r (Frames tbl) = None"
proof -
  define esz where "esz = (if footer ! descriptorAt layout AND checksumFlag layout \<noteq> 0 then ChecksumEntrySize else EntrySize)"
  define n where "n = nat (u32_at footer (framesAt layout))"
  have n: "u32_at footer (framesAt layout) = int n" "int n < 2 ^ 32"
    using u32_bounds [of footer "framesAt layout"] by (simp_all add: n_def)
  define start where "start = fileSize - FooterSize - int n * int esz - SkippableHeaderSize"
  note eq = assms [unfolded read_table_in_def Let_def n(1), folded esz_def, folded start_def]
  obtain entries where e: "\<not> start < 0" "Frames tbl = frames_of entries esz 0 n 0 0" "NumFrames tbl = int n"
    "validate_seek_table r start tbl = None"
    using eq by (auto split: if_splits option.splits sum.splits)
  have st: "start = fileSize - 17 - int n * int esz" by (simp add: start_def)
  show thesis
  proof (rule that)
    show "esz = 8 \<or> esz = 12" by (simp add: esz_def)
    show "int n < 2 ^ 32" by (rule n(2))
    show "0 \<le> fileSize - 17 - int n * int esz" using e(1) st by simp
    show "(if n > 0 then CompressedEnd (last (Frames tbl)) else 0) = fileSize - 17 - int n * int esz"
      "check_headers r (Frames tbl) = None"
      using e(3,4) st by (auto simp: validate_seek_table_def Let_def split: if_splits)
  qed (use e in auto)
qed

lemma try_layouts_Inr:
  "try_layouts r n footer e ls = Inr tbl \<Longrightarrow>
    \<exists>layout \<in> set ls. read_table_in r n footer layout = Inr tbl \<and> check_frames_can_be_held tbl = None"
  by (induction r n footer e ls rule: try_layouts.induct) (auto split: if_splits sum.splits option.splits)

lemma held_frames:
  assumes "check_frames_can_be_held tbl = None" and "f \<in> set (Frames tbl)"
  shows "DecompressedSize f \<le> WindowLimit \<and> CompressedSize f \<le> WindowLimit"
proof -
  have "\<not> frame_too_large f" using assms by (auto simp: check_frames_can_be_held_def find_None_iff)
  then show ?thesis by (simp add: frame_too_large_def)
qed

lemma check_headers_None: "check_headers r fs = None \<longleftrightarrow> (\<forall>f \<in> set fs. check_frame_header r f = None)"
  by (induction fs) (auto split: option.split)

text \<open>
  Claim C23. A seek table that is read describes its file. Its frames follow each other in the
  compressed bytes and in the text, with no sum wrapped around, and end exactly where the table
  starts, which is followed only by the table; each frame that is not empty starts inside the file,
  with a zstd frame, and none is larger than a reader may hold.
\<close>

theorem seek_table_describes:
  assumes read: "read_seek_table (file_reader content) (int (length content)) = Inr tbl"
    and len: "int (length content) < 2 ^ 62"
  shows "laid 0 0 0 (Frames tbl) \<and> NumFrames tbl = int (length (Frames tbl)) \<and>
    (\<exists>esz \<in> {8, 12}. bytes_end (Frames tbl) + 17 + NumFrames tbl * esz = int (length content)) \<and>
    (\<forall>f \<in> set (Frames tbl). CompressedSize f \<le> WindowLimit \<and> DecompressedSize f \<le> WindowLimit \<and>
       (CompressedSize f = 0 \<and> DecompressedSize f = 0 \<or> u32_at content (nat (CompressedOffset f)) = zstdFrameMagic))"
proof -
  obtain footer layout where l: "read_table_in (file_reader content) (int (length content)) footer layout = Inr tbl"
    "check_frames_can_be_held tbl = None"
    using read by (auto simp: read_seek_table_def split: if_splits sum.splits dest!: try_layouts_Inr)
  obtain esz n entries where t: "esz = 8 \<or> esz = 12" "Frames tbl = frames_of entries esz 0 n 0 0"
    "NumFrames tbl = int n" "int n < 2 ^ 32" "0 \<le> int (length content) - 17 - int n * int esz"
    "(if n > 0 then CompressedEnd (last (Frames tbl)) else 0) = int (length content) - 17 - int n * int esz"
    "check_headers (file_reader content) (Frames tbl) = None"
    by (rule read_table_facts [OF l(1)])
  have held: "\<forall>f \<in> set (Frames tbl). DecompressedSize f \<le> 2 ^ 27"
    using held_frames [OF l(2)] by (auto simp: WindowLimit_def)
  have n: "(0::int) + int n * 2 ^ 27 < 2 ^ 63" using t(4) by auto
  have "laid (int 0) 0 0 (Frames tbl) \<and> 0 + bytes_end (Frames tbl) \<le> int (length content) + 2 ^ 32"
    unfolding t(2) by (rule file_rd.frames_of_checked) (use t(2,7) len held n in simp_all)
  then have laid: "laid 0 0 0 (Frames tbl)" "bytes_end (Frames tbl) \<le> int (length content) + 2 ^ 32" by simp_all
  have "bytes_end (Frames tbl) = int (length content) - 17 - int n * int esz"
  proof (cases "Frames tbl = []")
    case True
    then show ?thesis using t(2,6) by (cases n) (simp_all add: bytes_end_def Let_def)
  next
    case False
    then have "n > 0" using t(2) by (cases n) auto
    moreover have "CompressedEnd (last (Frames tbl)) = bytes_end (Frames tbl)"
      using laid_last [OF laid(1) False] laid_nonneg [OF laid(1)] laid(2) len
      by (simp add: CompressedEnd_def int64_id)
    ultimately show ?thesis using t(6) by simp
  qed
  then have "\<exists>esz \<in> {8, 12}. bytes_end (Frames tbl) + 17 + NumFrames tbl * esz = int (length content)"
    using t(1,3) by auto
  moreover have "\<forall>f \<in> set (Frames tbl). CompressedSize f \<le> WindowLimit \<and> DecompressedSize f \<le> WindowLimit \<and>
       (CompressedSize f = 0 \<and> DecompressedSize f = 0 \<or> u32_at content (nat (CompressedOffset f)) = zstdFrameMagic)"
  proof
    fix f assume f: "f \<in> set (Frames tbl)"
    have "0 \<le> CompressedSize f" using laid_inside [OF laid(1) _ f] by simp
    then show "CompressedSize f \<le> WindowLimit \<and> DecompressedSize f \<le> WindowLimit \<and>
       (CompressedSize f = 0 \<and> DecompressedSize f = 0 \<or> u32_at content (nat (CompressedOffset f)) = zstdFrameMagic)"
      using held_frames [OF l(2) f] file_rd.checked_inside [of content f] t(7) f by (auto simp: check_headers_None)
  qed
  moreover have "NumFrames tbl = int (length (Frames tbl))" using t(2,3) by simp
  ultimately show ?thesis using laid(1) by blast
qed

section \<open>The errors of a file that can be read\<close>

lemma check_headers_read:
  assumes "laid i c d fs" and "0 \<le> c" and "c + bytes_end fs \<le> int (length content)"
    and "check_headers (file_reader content) fs = Some e"
  shows "\<exists>m. e = Mismatch m"
proof -
  obtain f where f: "f \<in> set fs" "check_frame_header (file_reader content) f = Some e"
    using assms(4) by (induction fs) (auto split: option.splits)
  have "e \<noteq> ReadFailed x" for x
    using file_rd.header_read [of f content x] laid_inside [OF assms(1,2) f(1)] assms(3) f(2) by auto
  then show ?thesis
    using f(2) by (auto simp: check_frame_header_def split: if_splits sum.splits option.splits)
qed

lemma table_frame_read:
  assumes "0 \<le> start" and "start + 8 \<le> int (length content)"
    and "check_table_frame (file_reader content) n start = Some e"
  shows "\<exists>m. e = Mismatch m"
  using assms file_rd.served [of start 8 content]
  by (auto simp: check_table_frame_def split: if_splits sum.splits)

text \<open>The entries of a table that fits into a file below 16 GiB are too few for a sum to wrap around.\<close>

lemma small_table:
  assumes "0 \<le> fsz - FooterSize - int n * int esz - SkippableHeaderSize" and "8 \<le> esz" and "fsz < 2 ^ 34"
    and fs: "fs = frames_of es esz 0 n 0 0"
  shows "laid 0 0 0 fs" and "(if 0 < n then CompressedEnd (last fs) else 0) = bytes_end fs"
proof -
  have nb: "int n * 8 \<le> int n * int esz" using assms(2) by (intro mult_left_mono) simp_all
  then have small: "(0::int) + int n * 2 ^ 32 < 2 ^ 63" using assms(1,3) by simp
  have "laid (int 0) 0 0 fs \<and> bytes_end fs \<le> int n * 2 ^ 32"
    unfolding fs by (rule frames_of_laid [OF _ _ small small]) simp_all
  then have laid: "laid 0 0 0 fs" and le: "bytes_end fs \<le> int n * 2 ^ 32" by simp_all
  have len: "length fs = n" by (simp add: fs)
  show "laid 0 0 0 fs" by (rule laid)
  show "(if 0 < n then CompressedEnd (last fs) else 0) = bytes_end fs"
  proof (cases "fs = []")
    case True
    then show ?thesis using len by (simp add: bytes_end_def)
  next
    case False
    then have "CompressedEnd (last fs) = bytes_end fs"
      using laid_last [OF laid False] laid_nonneg [OF laid] le small by (simp add: CompressedEnd_def int64_id)
    then show ?thesis using False len by auto
  qed
qed

lemma read_table_error:
  assumes err: "read_table_in (file_reader content) (int (length content)) footer layout = Inl e"
    and len: "int (length content) < 2 ^ 34"
  shows "\<exists>m. e = Mismatch m"
proof -
  define esz where "esz = (if footer ! descriptorAt layout AND checksumFlag layout \<noteq> 0 then ChecksumEntrySize else EntrySize)"
  define n where "n = nat (u32_at footer (framesAt layout))"
  have n: "u32_at footer (framesAt layout) = int n"
    using u32_bounds [of footer "framesAt layout"] by (simp add: n_def)
  define start where "start = int (length content) - FooterSize - int n * int esz - SkippableHeaderSize"
  note eq = err [unfolded read_table_in_def Let_def n(1), folded esz_def, folded start_def]
  show ?thesis
  proof (cases "start < 0")
    case True
    then show ?thesis using eq by (auto split: if_splits)
  next
    case False
    have esz: "8 \<le> esz" by (simp add: esz_def)
    then have nb: "int n * 8 \<le> int n * int esz" by (intro mult_left_mono) simp_all
    have in_file: "0 \<le> start" "start + 8 \<le> int (length content)"
      "start + 8 + int n * int esz \<le> int (length content)"
      using False nb by (simp_all add: start_def)
    have entries: "file_reader content (start + SkippableHeaderSize) (int n * int esz) =
        Inr (take (nat (int n * int esz)) (drop (nat (start + 8)) content))" (is "_ = Inr ?es")
      using in_file by (intro file_rd.served) auto
    define fs where "fs = frames_of ?es esz 0 n 0 0"
    note small = small_table [of "int (length content)" n esz, OF _ esz len fs_def, folded start_def]
    have laid: "laid 0 0 0 fs" and end_fs: "bytes_end fs = (if 0 < n then CompressedEnd (last fs) else 0)"
      using small(1,2) in_file(1) by simp_all
    have fs: "length fs = n" by (simp add: fs_def)
    have "\<exists>m. x = Mismatch m"
      if v: "validate_seek_table (file_reader content) start \<lparr>NumFrames = int (length fs), Flags = w, Frames = fs\<rparr> = Some x" for x w
    proof (cases "bytes_end fs = start")
      case True
      then have "check_headers (file_reader content) fs = Some x"
        using v by (simp add: validate_seek_table_def fs end_fs split: if_splits)
      then show ?thesis using check_headers_read [OF laid, of content x] in_file True by simp
    next
      case False
      then show ?thesis using v by (auto simp: validate_seek_table_def Let_def fs end_fs split: if_splits)
    qed
    note val = this
    have n_nat: "nat (int n) = n" by simp
    have eq2: "(case check_table_frame (file_reader content) (int (length content)) start of
        Some e \<Rightarrow> Inl e
      | None \<Rightarrow> (case validate_seek_table (file_reader content) start \<lparr>NumFrames = int (length fs), Flags = footer ! descriptorAt layout, Frames = fs\<rparr> of
          Some e \<Rightarrow> Inl e | None \<Rightarrow> Inr \<lparr>NumFrames = int (length fs), Flags = footer ! descriptorAt layout, Frames = fs\<rparr>)) = Inl e
      \<or> (\<exists>m. e = Mismatch m)"
      using eq False unfolding entries n_nat sum.case fs_def [symmetric] by (auto split: if_splits)
    then show ?thesis
      using val table_frame_read [OF in_file(1,2)] by (auto split: if_splits option.splits)
  qed
qed

definition documented :: "seek_error \<Rightarrow> bool" where
  "documented e = (case e of FrameTooLargeToHold _ \<Rightarrow> True | InFooter _ (Mismatch _) \<Rightarrow> True | NotSeekable \<Rightarrow> True | _ \<Rightarrow> False)"

lemma try_layouts_error:
  "try_layouts (file_reader content) (int (length content)) footer e ls = Inl x \<Longrightarrow>
    int (length content) < 2 ^ 34 \<Longrightarrow> (case e of None \<Rightarrow> True | Some y \<Rightarrow> documented y) \<Longrightarrow> documented x"
proof (induction ls arbitrary: e)
  case Nil
  then show ?case by (auto simp: documented_def split: option.splits)
next
  case (Cons l ls)
  show ?case
  proof (cases "u32_at footer (magicAt l) \<noteq> FooterMagic")
    case True
    then show ?thesis using Cons by simp
  next
    case False
    show ?thesis
    proof (cases "read_table_in (file_reader content) (int (length content)) footer l")
      case (Inr tbl)
      then show ?thesis
        using Cons.prems(1) False by (auto simp: check_frames_can_be_held_def documented_def split: option.splits)
    next
      case (Inl y)
      then obtain m where "y = Mismatch m" using read_table_error Cons.prems(2) by blast
      then show ?thesis
        using Cons.IH [OF _ Cons.prems(2)] Cons.prems(1,3) False Inl
        by (cases e) (simp_all add: documented_def)
    qed
  qed
qed

text \<open>
  What a reader answers outside the file is never looked at: a reader that gives the file's bytes
  inside it leads to the same result, whatever it does with a read that leaves the file.
\<close>

definition reads_file :: "reader \<Rightarrow> bytes \<Rightarrow> bool" where
  "reads_file rd content \<longleftrightarrow> (\<forall>off n. 0 \<le> off \<and> 0 \<le> n \<and> off + n \<le> int (length content) \<longrightarrow>
     rd off n = Inr (take (nat n) (drop (nat off) content)))"

lemma reads_file_inside:
  "reads_file rd content \<Longrightarrow> 0 \<le> off \<Longrightarrow> 0 \<le> n \<Longrightarrow> off + n \<le> int (length content) \<Longrightarrow> rd off n = file_reader content off n"
  by (simp add: reads_file_def file_reader_def)

lemma headers_inside:
  assumes "reads_file rd content" and "laid i c d fs" and "0 \<le> c" and "c + bytes_end fs \<le> int (length content)"
  shows "check_headers rd fs = check_headers (file_reader content) fs"
proof -
  have "check_frame_header rd f = check_frame_header (file_reader content) f" if "f \<in> set fs" for f
  proof -
    have "rd (CompressedOffset f) (min (CompressedSize f) maxFrameHeaderSize) =
        file_reader content (CompressedOffset f) (min (CompressedSize f) maxFrameHeaderSize)"
      using laid_inside [OF assms(2,3) that] assms(4) by (intro reads_file_inside [OF assms(1)]) auto
    then show ?thesis by (simp only: check_frame_header_def)
  qed
  then show ?thesis by (induction fs) (auto split: option.split)
qed

lemma read_table_inside:
  assumes rd: "reads_file rd content" and len: "int (length content) < 2 ^ 34"
  shows "read_table_in rd (int (length content)) footer layout = read_table_in (file_reader content) (int (length content)) footer layout"
proof -
  define esz where "esz = (if footer ! descriptorAt layout AND checksumFlag layout \<noteq> 0 then ChecksumEntrySize else EntrySize)"
  define n where "n = nat (u32_at footer (framesAt layout))"
  have n: "u32_at footer (framesAt layout) = int n"
    using u32_bounds [of footer "framesAt layout"] by (simp add: n_def)
  define start where "start = int (length content) - FooterSize - int n * int esz - SkippableHeaderSize"
  note eq = read_table_in_def [of _ "int (length content)" footer layout, unfolded Let_def n(1), folded esz_def, folded start_def]
  show ?thesis
  proof (cases "start < 0")
    case True
    then show ?thesis by (simp add: eq)
  next
    case False
    have esz: "8 \<le> esz" by (simp add: esz_def)
    have nb: "int n * 8 \<le> int n * int esz" using esz by (intro mult_left_mono) simp_all
    note small = small_table [of "int (length content)" n esz, OF _ esz len refl, folded start_def]
    have in_file: "0 \<le> start" "start + 8 \<le> int (length content)" "start + 8 + int n * int esz \<le> int (length content)"
      using False nb by (simp_all add: start_def)
    have reads: "rd start SkippableHeaderSize = file_reader content start SkippableHeaderSize"
      "rd (start + SkippableHeaderSize) (int n * int esz) = file_reader content (start + SkippableHeaderSize) (int n * int esz)"
      using in_file by (auto intro!: reads_file_inside [OF rd])
    have table: "check_table_frame rd (int (length content)) start = check_table_frame (file_reader content) (int (length content)) start"
      using reads(1) by (simp add: check_table_frame_def)
    have val: "validate_seek_table rd start tbl = validate_seek_table (file_reader content) start tbl"
      if t: "Frames tbl = frames_of es esz 0 n 0 0" "NumFrames tbl = int n" for tbl es
    proof (cases "bytes_end (Frames tbl) = start")
      case True
      have "check_headers rd (Frames tbl) = check_headers (file_reader content) (Frames tbl)"
        by (rule headers_inside [OF rd, of 0 0 0]) (use small(1) in_file True t in simp_all)
      then show ?thesis by (simp only: validate_seek_table_def)
    next
      case False
      have fin: "(if NumFrames tbl > 0 then CompressedEnd (last (Frames tbl)) else 0) = bytes_end (Frames tbl)"
        using small(2) [of es] in_file(1) t by (cases "n = 0") (simp_all add: bytes_end_def)
      have "(if NumFrames tbl > 0 then CompressedEnd (last (Frames tbl)) else 0) \<noteq> start"
        unfolding fin by (rule False)
      then show ?thesis by (simp add: validate_seek_table_def Let_def)
    qed
    show ?thesis
      using val by (simp add: eq reads(2) table nat_int split: option.split sum.split)
  qed
qed

lemma try_layouts_inside:
  "reads_file rd content \<Longrightarrow> int (length content) < 2 ^ 34 \<Longrightarrow>
    try_layouts rd (int (length content)) footer e ls = try_layouts (file_reader content) (int (length content)) footer e ls"
  by (induction ls arbitrary: e) (auto simp: read_table_inside split: sum.split)

text \<open>
  Claim C25. Reading the seek table of a file of less than 16 GiB that can be read fails only in the
  documented ways: the file is shorter than a footer, has no footer, its table does not describe it,
  or a frame is too large to hold. And it never uses anything outside the file, whatever the file's
  bytes are: what a read past either end would give, an error or bytes, does not change the result.
  (A file of 16 GiB or more can hold a table whose sums wrap around.)
\<close>

theorem seek_table_errors:
  assumes "reads_file rd content" and "int (length content) < 2 ^ 34"
  shows "read_seek_table rd (int (length content)) = read_seek_table (file_reader content) (int (length content)) \<and>
    (\<forall>e. read_seek_table rd (int (length content)) = Inl e \<longrightarrow>
       (if length content < 9 then e = UnexpectedEOF else documented e))"
proof (cases "length content < 9")
  case False
  let ?len = "int (length content)"
  have foot: "file_reader content (?len - 9) 9 = Inr (take 9 (drop (nat (?len - 9)) content))"
    using False file_rd.served [of "?len - 9" 9 content] by simp
  moreover have "rd (?len - 9) 9 = file_reader content (?len - 9) 9"
    using False by (intro reads_file_inside [OF assms(1)]) simp_all
  ultimately have same: "read_seek_table rd ?len = read_seek_table (file_reader content) ?len"
    using False by (simp add: read_seek_table_def try_layouts_inside [OF assms])
  have "documented e" if "read_seek_table (file_reader content) ?len = Inl e" for e
    using that foot False try_layouts_error [OF _ assms(2), where e = None] by (auto simp: read_seek_table_def)
  then show ?thesis using same False by simp
qed (simp add: read_seek_table_def)

section \<open>A table that is written is read back\<close>











section \<open>Witnesses\<close>

text \<open>One frame: a single-segment zstd frame of 8 bytes that holds 3 bytes of text.\<close>

definition one_frame :: bytes where
  "one_frame = [0x28, 0xB5, 0x2F, 0xFD, 0x20, 3, 0x19, 0]"

definition one_table :: "frame_info list" where
  "one_table = [\<lparr>fi_Index = 0, CompressedOffset = 0, CompressedSize = 8, DecompressedOffset = 0, DecompressedSize = 3\<rparr>]"

definition one_file :: bytes where
  "one_file = one_frame @ put_u32 SeekableMagic @ put_u32 17 @ put_u32 8 @ put_u32 3 @ put_u32 1 @ [0] @ put_u32 FooterMagic"



lemma one_file_read: "read_seek_table (file_reader one_file) (int (length one_file)) =
    Inr \<lparr>NumFrames = 1, Flags = 0, Frames = one_table\<rparr>"
  by code_simp


theorem seek_table_describes_witness:
  "laid 0 0 0 one_table \<and> (\<exists>esz \<in> {8::int, 12}. bytes_end one_table + 17 + 1 * esz = int (length one_file))"
  using seek_table_describes [OF one_file_read] by (simp add: one_file_def one_frame_def)

text \<open>A reader that gives bytes outside the file too.\<close>

definition endless_reader :: "bytes \<Rightarrow> reader" where
  "endless_reader content off n =
     (if 0 \<le> off \<and> 0 \<le> n \<and> off + n \<le> int (length content) then Inr (take (nat n) (drop (nat off) content))
      else Inr (replicate (nat n) 0))"

lemma endless_reads_file: "reads_file (endless_reader content) content"
  by (simp add: reads_file_def endless_reader_def)

lemma short_file_read: "read_seek_table (file_reader (butlast one_file)) (int (length (butlast one_file))) = Inl NotSeekable"
  by code_simp

theorem seek_table_errors_witness:
  "read_seek_table (endless_reader (butlast one_file)) (int (length (butlast one_file))) = Inl NotSeekable \<and> documented NotSeekable"
  using seek_table_errors [OF endless_reads_file, of "butlast one_file"] short_file_read
  by (simp add: one_file_def one_frame_def)

end
