(* ===== verification/AhoCorasick.thy ===== *)
theory AhoCorasick
  imports Prelude "HOL-Library.Sublist"
begin

text \<open>
  The keyword automaton of a scan, \<^verbatim>\<open>internal/sigscan/ac.go\<close>: byte classes, the trie of the
  keywords, its failure links and the full transition table. The theorems say that the automaton,
  after any bytes, is in the state of the longest keyword prefix that ends there, and that the
  state's output is every keyword that ends there, compared without ASCII case.
\<close>

section \<open>Byte classes\<close>

definition maxDFACells :: nat where "maxDFACells = 2 ^ 26"

definition ascii_lower :: "byte \<Rightarrow> byte" where
  "ascii_lower c = (if 65 \<le> c \<and> c \<le> 90 then c + 97 - 65 else c)"

record class_map =
  cm_of :: "byte \<Rightarrow> nat"
  cm_count :: nat

definition add_class :: "byte \<Rightarrow> class_map \<Rightarrow> class_map" where
  "add_class b m =
     (let c = ascii_lower b
      in if cm_of m c = 0 then m\<lparr>cm_of := (cm_of m)(c := cm_count m), cm_count := cm_count m + 1\<rparr> else m)"

definition assign_classes :: "bytes list \<Rightarrow> class_map" where
  "assign_classes keywords = fold (\<lambda>k m. fold add_class k m) keywords \<lparr>cm_of = \<lambda>_. 0, cm_count = 1\<rparr>"

text \<open>The class table holds bytes.\<close>

definition class_table :: "class_map \<Rightarrow> byte \<Rightarrow> nat" where
  "class_table m b = cm_of m (ascii_lower b) mod 256"

section \<open>The trie\<close>

record trie_node =
  tn_children :: "(nat, nat) gomap"
  tn_fail :: nat
  tn_out :: "int list"

definition new_node :: trie_node where
  "new_node = \<lparr>tn_children = [], tn_fail = 0, tn_out = []\<rparr>"

abbreviation child_of :: "trie_node list \<Rightarrow> nat \<Rightarrow> nat \<Rightarrow> nat option" where
  "child_of nodes s c \<equiv> map_of (tn_children (nodes ! s)) c"

fun insert_path :: "class_map \<Rightarrow> bytes \<Rightarrow> nat \<Rightarrow> trie_node list \<Rightarrow> nat \<times> trie_node list" where
  "insert_path m [] s nodes = (s, nodes)"
| "insert_path m (b # k) s nodes =
     (let c = cm_of m (ascii_lower b)
      in case child_of nodes s c of
           Some child \<Rightarrow> insert_path m k child nodes
         | None \<Rightarrow>
             (let child = length nodes
              in insert_path m k child
                   ((nodes @ [new_node])[s := (nodes ! s)\<lparr>tn_children := AList.update c child (tn_children (nodes ! s))\<rparr>])))"

definition add_keyword :: "class_map \<Rightarrow> bytes \<times> int list \<Rightarrow> trie_node list \<Rightarrow> trie_node list" where
  "add_keyword m ki nodes =
     (case insert_path m (fst ki) 0 nodes of (s, ns) \<Rightarrow> ns[s := (ns ! s)\<lparr>tn_out := tn_out (ns ! s) @ snd ki\<rparr>])"

definition build_trie :: "class_map \<Rightarrow> bytes list \<Rightarrow> int list list \<Rightarrow> trie_node list" where
  "build_trie m keywords ids = fold (add_keyword m) (zip keywords ids) [new_node]"

section \<open>Failure links\<close>

text \<open>\<open>lk_next\<close> is the table \<^verbatim>\<open>next\<close>, by index; it is made of zeros.\<close>

record linking =
  lk_nodes :: "trie_node list"
  lk_next :: "nat \<Rightarrow> nat"
  lk_queue :: "nat list"

definition set_fail :: "nat \<Rightarrow> nat \<Rightarrow> trie_node list \<Rightarrow> trie_node list" where
  "set_fail t f nodes = nodes[t := (nodes ! t)\<lparr>tn_fail := f\<rparr>]"

definition link_root_class :: "nat \<Rightarrow> linking \<Rightarrow> linking" where
  "link_root_class c l =
     (case child_of (lk_nodes l) 0 c of
        None \<Rightarrow> l
      | Some child \<Rightarrow>
          l\<lparr>lk_next := (lk_next l)(c := child), lk_nodes := set_fail child 0 (lk_nodes l),
            lk_queue := lk_queue l @ [child]\<rparr>)"

definition link_class :: "nat \<Rightarrow> nat \<Rightarrow> nat \<Rightarrow> nat \<Rightarrow> linking \<Rightarrow> linking" where
  "link_class nclass s f c l =
     (case child_of (lk_nodes l) s c of
        Some child \<Rightarrow>
          l\<lparr>lk_nodes := set_fail child (lk_next l (f * nclass + c)) (lk_nodes l),
            lk_next := (lk_next l)(s * nclass + c := child), lk_queue := lk_queue l @ [child]\<rparr>
      | None \<Rightarrow> l\<lparr>lk_next := (lk_next l)(s * nclass + c := lk_next l (f * nclass + c))\<rparr>)"

definition link_state :: "nat \<Rightarrow> nat \<Rightarrow> linking \<Rightarrow> linking" where
  "link_state nclass s l =
     (let f = tn_fail (lk_nodes l ! s);
          l1 = l\<lparr>lk_nodes := (lk_nodes l)[s := (lk_nodes l ! s)\<lparr>tn_out := tn_out (lk_nodes l ! s) @ tn_out (lk_nodes l ! f)\<rparr>]\<rparr>
      in fold (link_class nclass s f) [0..<nclass] l1)"

text \<open>
  The loop over the queue, which grows while it runs; no state is queued twice, so the number of
  states is fuel enough.
\<close>

fun link_loop :: "nat \<Rightarrow> nat \<Rightarrow> nat \<Rightarrow> linking \<Rightarrow> linking option" where
  "link_loop nclass head 0 l = (if head < length (lk_queue l) then None else Some l)"
| "link_loop nclass head (Suc fuel) l =
     (if head < length (lk_queue l)
      then link_loop nclass (Suc head) fuel (link_state nclass (lk_queue l ! head) l) else Some l)"

definition link_trie :: "trie_node list \<Rightarrow> nat \<Rightarrow> linking option" where
  "link_trie nodes nclass =
     link_loop nclass 0 (length nodes)
       (fold link_root_class [0..<nclass] \<lparr>lk_nodes = nodes, lk_next = \<lambda>_. 0, lk_queue = []\<rparr>)"

section \<open>The tables\<close>

record keyword_dfa =
  df_class :: "byte \<Rightarrow> nat"
  df_nclass :: nat
  df_trans :: "nat list"
  df_outStart :: "nat list"
  df_outIDs :: "int list"

fun fill_outputs :: "trie_node list \<Rightarrow> nat list \<Rightarrow> int list \<Rightarrow> (nat list \<times> int list) option" where
  "fill_outputs [] starts ids = Some (starts, ids)"
| "fill_outputs (n # ns) starts ids =
     (let ids' = ids @ remdups_adj (sort (tn_out n))
      in if length ids' > maxDFACells then None else fill_outputs ns (starts @ [length ids']) ids')"

text \<open>An entry of the table is a 32-bit word.\<close>

definition trans_entry :: "nat \<Rightarrow> nat list \<Rightarrow> nat \<Rightarrow> nat" where
  "trans_entry nclass starts t =
     (let v = 2 * (t * nclass) mod 2 ^ 32 in if starts ! (t + 1) > starts ! t then v + 1 else v)"

definition fill_tables :: "class_map \<Rightarrow> linking \<Rightarrow> keyword_dfa option" where
  "fill_tables m l =
     (case fill_outputs (lk_nodes l) [0] [] of
        None \<Rightarrow> None
      | Some (starts, ids) \<Rightarrow>
          Some \<lparr>df_class = class_table m, df_nclass = cm_count m,
                df_trans = map (\<lambda>i. trans_entry (cm_count m) starts (lk_next l i)) [0..<length (lk_nodes l) * cm_count m],
                df_outStart = starts, df_outIDs = ids\<rparr>)"

definition output_of_row :: "keyword_dfa \<Rightarrow> nat \<Rightarrow> int list" where
  "output_of_row d row =
     (let s = row div df_nclass d
      in take (df_outStart d ! (s + 1) - df_outStart d ! s) (drop (df_outStart d ! s) (df_outIDs d)))"

datatype dfa_error = TooManyKeywordBytes nat | TooManyCells nat nat | TooManyOutputs | LinkStuck

definition build_dfa :: "bytes list \<Rightarrow> int list list \<Rightarrow> dfa_error + keyword_dfa" where
  "build_dfa keywords ids =
     (let bytes_n = sum_list (map length keywords)
      in if bytes_n > maxDFACells then Inl (TooManyKeywordBytes bytes_n)
         else let m = assign_classes keywords; nodes = build_trie m keywords ids
              in if length nodes * cm_count m > maxDFACells then Inl (TooManyCells (length nodes) (cm_count m))
                 else case link_trie nodes (cm_count m) of
                        None \<Rightarrow> Inl LinkStuck
                      | Some l \<Rightarrow> (case fill_tables m l of None \<Rightarrow> Inl TooManyOutputs | Some d \<Rightarrow> Inr d))"

section \<open>Longest suffixes\<close>

text \<open>The longest suffix of a word that is one of the words \<open>W\<close>, which hold the empty one.\<close>

fun longest :: "'a list set \<Rightarrow> 'a list \<Rightarrow> 'a list" where
  "longest W [] = []"
| "longest W (c # w) = (if c # w \<in> W then c # w else longest W w)"

definition closed :: "'a list set \<Rightarrow> bool" where
  "closed W \<longleftrightarrow> [] \<in> W \<and> (\<forall>w c. w @ [c] \<in> W \<longrightarrow> w \<in> W)"

lemma longest_in: "[] \<in> W \<Longrightarrow> longest W w \<in> W"
  by (induction w) auto

lemma longest_suffix: "suffix (longest W w) w"
  by (induction w) (auto simp: suffix_Cons)

lemma longest_id: "w \<in> W \<Longrightarrow> longest W w = w"
  by (cases w) simp_all

lemma longest_max: "suffix u w \<Longrightarrow> u \<in> W \<Longrightarrow> suffix u (longest W w)"
  by (induction w) (auto simp: suffix_Cons)

text \<open>Reading one letter more needs only the longest suffix so far.\<close>

lemma longest_snoc:
  assumes "closed W"
  shows "longest W (longest W w @ [c]) = longest W (w @ [c])"
proof (induction w)
  case (Cons a w)
  show ?case
  proof (cases "a # w \<in> W")
    case False
    then have "a # w @ [c] \<notin> W" using assms unfolding closed_def by (metis append_Cons)
    then show ?thesis using Cons False by simp
  qed simp
qed simp

lemma longest_tl:
  assumes "closed W" and "u \<noteq> []" and "u @ [c] \<notin> W"
  shows "longest W (longest W (tl u) @ [c]) = longest W (u @ [c])"
proof -
  have "longest W (u @ [c]) = longest W (tl u @ [c])" using assms(2,3) by (cases u) simp_all
  then show ?thesis using longest_snoc [OF assms(1), of "tl u" c] by simp
qed

lemma longest_suffixes:
  "u \<in> W \<Longrightarrow> suffix u w \<longleftrightarrow> suffix u (longest W w)"
  using longest_max longest_suffix suffix_order.trans by metis

section \<open>The trie holds the prefixes of the keywords\<close>

text \<open>\<open>ws\<close> are the words of the states, by state.\<close>

definition trie_ok :: "trie_node list \<Rightarrow> nat list list \<Rightarrow> bool" where
  "trie_ok nodes ws \<longleftrightarrow> length ws = length nodes \<and> distinct ws \<and> 0 < length ws \<and> ws ! 0 = [] \<and> closed (set ws) \<and>
     (\<forall>s c. s < length ws \<longrightarrow> (\<forall>t. child_of nodes s c = Some t \<longleftrightarrow> t < length ws \<and> ws ! t = ws ! s @ [c]))"

abbreviation word_of :: "class_map \<Rightarrow> bytes \<Rightarrow> nat list" where
  "word_of m k \<equiv> map (\<lambda>b. cm_of m (ascii_lower b)) k"

lemma trie_ok_new: "trie_ok [new_node] [[]]"
  by (auto simp: trie_ok_def new_node_def closed_def nth_Cons split: nat.splits)

lemma trie_ok_child:
  assumes "trie_ok nodes ws" and "s < length ws" and "child_of nodes s c = None"
  shows "ws ! s @ [c] \<notin> set ws"
proof
  assume "ws ! s @ [c] \<in> set ws"
  then obtain t where "t < length ws" "ws ! t = ws ! s @ [c]" by (auto simp: in_set_conv_nth)
  then have "child_of nodes s c = Some t" using assms(1,2) by (auto simp: trie_ok_def)
  then show False using assms(3) by simp
qed

lemma trie_ok_grow:
  assumes ok: "trie_ok nodes ws" and s: "s < length ws" and none: "child_of nodes s c = None"
  shows "trie_ok ((nodes @ [new_node])[s := (nodes ! s)\<lparr>tn_children := AList.update c (length nodes) (tn_children (nodes ! s))\<rparr>])
    (ws @ [ws ! s @ [c]])" (is "trie_ok ?nodes ?ws")
proof -
  note new = trie_ok_child [OF ok s none]
  have len: "length ws = length nodes" and d: "distinct ws" and cl: "closed (set ws)"
    and ch: "\<And>s c t. s < length ws \<Longrightarrow> child_of nodes s c = Some t \<longleftrightarrow> t < length ws \<and> ws ! t = ws ! s @ [c]"
    using ok by (auto simp: trie_ok_def)
  have "closed (set ?ws)" using cl s by (auto simp: closed_def)
  moreover have "child_of ?nodes i e = Some t \<longleftrightarrow> t < length ?ws \<and> ?ws ! t = ?ws ! i @ [e]" if i: "i < length ?ws" for i e t
  proof (cases "i < length ws")
    case True
    have w: "?ws ! i = ws ! i" using True by (simp add: nth_append)
    show ?thesis
    proof (cases "i = s \<and> e = c")
      case True
      have "t < length ?ws \<and> ?ws ! t = ws ! s @ [c] \<longleftrightarrow> t = length ws"
        using new s by (auto simp: nth_append less_Suc_eq dest: nth_mem)
      then show ?thesis using True s len w by (auto simp: update_conv' nth_append)
    next
      case False
      have old: "child_of ?nodes i e = child_of nodes i e"
        using False True s len by (cases "i = s") (auto simp: nth_append update_conv')
      have "\<not> (t = length ws \<and> ws ! s @ [c] = ws ! i @ [e])"
        using False d s True by (auto simp: nth_eq_iff_index_eq)
      then show ?thesis
        unfolding old w using ch [OF True, of e t] by (auto simp: nth_append less_Suc_eq)
    qed
  next
    case False
    then have i: "i = length ws" using i by simp
    have "child_of ?nodes i e = None" using i len s by (simp add: nth_append new_node_def)
    moreover have "\<not> (t < length ?ws \<and> ?ws ! t = (ws ! s @ [c]) @ [e])"
    proof
      assume a: "t < length ?ws \<and> ?ws ! t = (ws ! s @ [c]) @ [e]"
      then have "(ws ! s @ [c]) @ [e] \<in> set ws"
        by (auto simp: nth_append less_Suc_eq dest: nth_mem split: if_splits)
      then have "ws ! s @ [c] \<in> set ws" using cl unfolding closed_def by blast
      then show False using new by simp
    qed
    ultimately show ?thesis using i by (simp add: nth_append)
  qed
  ultimately show ?thesis
    using ok new by (auto simp: trie_ok_def nth_append)
qed

lemma insert_path_ok:
  assumes "trie_ok nodes ws" and "s < length ws" and "insert_path m k s nodes = (t, ns)"
  shows "\<exists>more. trie_ok ns (ws @ more) \<and> t < length (ws @ more) \<and> (ws @ more) ! t = ws ! s @ word_of m k \<and>
    (\<forall>w \<in> set more. \<exists>u. prefix u (word_of m k) \<and> w = ws ! s @ u) \<and>
    (\<forall>i < length nodes. tn_out (ns ! i) = tn_out (nodes ! i)) \<and>
    (\<forall>i < length ns. length nodes \<le> i \<longrightarrow> tn_out (ns ! i) = [])"
  using assms
proof (induction m k s nodes arbitrary: ws rule: insert_path.induct)
  case (1 m s nodes)
  then show ?case by (intro exI [of _ "[]"]) (auto simp: trie_ok_def)
next
  case (2 m b k s nodes)
  let ?c = "cm_of m (ascii_lower b)"
  show ?case
  proof (cases "child_of nodes s ?c")
    case (Some child)
    have c: "child < length ws" "ws ! child = ws ! s @ [?c]"
      using "2.prems"(1,2) Some by (auto simp: trie_ok_def)
    obtain more where more: "trie_ok ns (ws @ more)" "t < length (ws @ more)" "(ws @ more) ! t = ws ! child @ word_of m k"
      "\<forall>w \<in> set more. \<exists>u. prefix u (word_of m k) \<and> w = ws ! child @ u"
      "\<forall>i < length nodes. tn_out (ns ! i) = tn_out (nodes ! i)" "\<forall>i < length ns. length nodes \<le> i \<longrightarrow> tn_out (ns ! i) = []"
      using "2.IH"(2) [OF refl Some "2.prems"(1) c(1)] "2.prems"(3) Some by auto
    have "\<forall>w \<in> set more. \<exists>u. prefix u (word_of m (b # k)) \<and> w = ws ! s @ u"
    proof
      fix w assume "w \<in> set more"
      then obtain u where "prefix u (word_of m k)" "w = ws ! child @ u" using more(4) by blast
      then show "\<exists>u. prefix u (word_of m (b # k)) \<and> w = ws ! s @ u"
        using c(2) by (intro exI [of _ "?c # u"]) simp
    qed
    then show ?thesis using more c(2) by (intro exI [of _ more]) simp
  next
    case None
    let ?nodes = "(nodes @ [new_node])[s := (nodes ! s)\<lparr>tn_children := AList.update ?c (length nodes) (tn_children (nodes ! s))\<rparr>]"
    let ?ws = "ws @ [ws ! s @ [?c]]"
    have len: "length ws = length nodes" using "2.prems"(1) by (simp add: trie_ok_def)
    have ins: "insert_path m k (length nodes) ?nodes = (t, ns)" using "2.prems"(3) None by (simp add: Let_def)
    note grow = trie_ok_grow [OF "2.prems"(1,2) None]
    obtain more where more: "trie_ok ns (?ws @ more)" "t < length (?ws @ more)" "(?ws @ more) ! t = ?ws ! length nodes @ word_of m k"
      "\<forall>w \<in> set more. \<exists>u. prefix u (word_of m k) \<and> w = ?ws ! length nodes @ u"
      "\<forall>i < length ?nodes. tn_out (ns ! i) = tn_out (?nodes ! i)" "\<forall>i < length ns. length ?nodes \<le> i \<longrightarrow> tn_out (ns ! i) = []"
      using "2.IH"(1) [OF refl None refl grow _ ins] len by auto
    have last: "?ws ! length nodes = ws ! s @ [?c]" using len by (simp add: nth_append)
    have pre: "\<forall>w \<in> set ((ws ! s @ [?c]) # more). \<exists>u. prefix u (word_of m (b # k)) \<and> w = ws ! s @ u"
    proof
      fix w assume "w \<in> set ((ws ! s @ [?c]) # more)"
      then consider "w = ws ! s @ [?c]" | u where "prefix u (word_of m k)" "w = ws ! s @ [?c] @ u"
        using more(4) last by auto
      then show "\<exists>u. prefix u (word_of m (b # k)) \<and> w = ws ! s @ u"
      proof cases
        case 1
        then show ?thesis by (intro exI [of _ "[?c]"]) simp
      next
        case 2
        then show ?thesis by (intro exI [of _ "?c # u"]) simp
      qed
    qed
    have out: "tn_out (?nodes ! i) = (if i < length nodes then tn_out (nodes ! i) else [])" if "i < length ?nodes" for i
      using that "2.prems"(2) len by (cases "i = s") (auto simp: nth_append new_node_def)
    show ?thesis
      using more(1-3) last pre more(5,6) out
      by (intro exI [of _ "(ws ! s @ [?c]) # more"]) (auto simp: le_eq_less_or_eq)
  qed
qed

text \<open>What the trie holds after the keywords \<open>K\<close>.\<close>

definition trie_holds :: "class_map \<Rightarrow> (bytes \<times> int list) list \<Rightarrow> trie_node list \<Rightarrow> nat list list \<Rightarrow> bool" where
  "trie_holds m K nodes ws \<longleftrightarrow> trie_ok nodes ws \<and>
     (\<forall>i < length ws. set (tn_out (nodes ! i)) = (\<Union>ki \<in> set K. if word_of m (fst ki) = ws ! i then set (snd ki) else {})) \<and>
     (\<forall>ki \<in> set K. word_of m (fst ki) \<in> set ws) \<and>
     (\<forall>w \<in> set ws. \<forall>c \<in> set w. \<exists>ki \<in> set K. c \<in> set (word_of m (fst ki))) \<and>
     (\<forall>w \<in> set ws. w = [] \<or> (\<exists>ki \<in> set K. prefix w (word_of m (fst ki))))"

lemma add_keyword_holds:
  assumes "trie_holds m K nodes ws"
  shows "\<exists>ws'. trie_holds m (K @ [ki]) (add_keyword m ki nodes) ws'"
proof -
  have ok: "trie_ok nodes ws" using assms by (simp add: trie_holds_def)
  then have root: "0 < length ws" "ws ! 0 = []" "length ws = length nodes" by (auto simp: trie_ok_def)
  obtain t ns where ins: "insert_path m (fst ki) 0 nodes = (t, ns)" by force
  obtain more where more: "trie_ok ns (ws @ more)" "t < length (ws @ more)" "(ws @ more) ! t = word_of m (fst ki)"
      "\<forall>w \<in> set more. prefix w (word_of m (fst ki))"
      "\<forall>i < length nodes. tn_out (ns ! i) = tn_out (nodes ! i)" "\<forall>i < length ns. length nodes \<le> i \<longrightarrow> tn_out (ns ! i) = []"
    using insert_path_ok [OF ok root(1) ins] root(2) by auto
  let ?ws = "ws @ more" and ?out = "ns[t := (ns ! t)\<lparr>tn_out := tn_out (ns ! t) @ snd ki\<rparr>]"
  have len: "length ?ws = length ns" using more(1) by (simp add: trie_ok_def)
  have same: "tn_children (?out ! i) = tn_children (ns ! i)" if "i < length ns" for i
    using that by (cases "i = t") auto
  have "trie_ok ?out ?ws" using more(1) same by (auto simp: trie_ok_def)
  moreover have "set (tn_out (?out ! i)) = (\<Union>kj \<in> set (K @ [ki]). if word_of m (fst kj) = ?ws ! i then set (snd kj) else {})"
    if i: "i < length ?ws" for i
  proof -
    have t: "i = t \<longleftrightarrow> word_of m (fst ki) = ?ws ! i"
      using more(1-3) i unfolding trie_ok_def by (metis nth_eq_iff_index_eq)
    have old: "set (tn_out (ns ! i)) = (\<Union>kj \<in> set K. if word_of m (fst kj) = ?ws ! i then set (snd kj) else {})"
    proof (cases "i < length nodes")
      case True
      then show ?thesis using assms more(5) root(3) by (auto simp: trie_holds_def nth_append)
    next
      case False
      then have "?ws ! i \<notin> set ws"
        using i more(1) root(3) unfolding trie_ok_def
        by (metis distinct_append disjoint_iff_not_equal in_set_conv_nth length_append nat_add_left_cancel_less le_add_diff_inverse not_less nth_append)
      then show ?thesis using False more(6) i len assms by (auto simp: trie_holds_def)
    qed
    show ?thesis using old t i len by (cases "i = t") auto
  qed
  moreover have "\<forall>kj \<in> set (K @ [ki]). word_of m (fst kj) \<in> set ?ws"
    using assms more(3) nth_mem [OF more(2)] by (auto simp: trie_holds_def)
  moreover have "\<forall>w \<in> set ?ws. \<forall>c \<in> set w. \<exists>kj \<in> set (K @ [ki]). c \<in> set (word_of m (fst kj))"
    using assms more(4) set_mono_prefix unfolding trie_holds_def by fastforce
  moreover have "\<forall>w \<in> set ?ws. w = [] \<or> (\<exists>kj \<in> set (K @ [ki]). prefix w (word_of m (fst kj)))"
    using assms more(4) unfolding trie_holds_def by auto
  ultimately have "trie_holds m (K @ [ki]) ?out ?ws" by (simp add: trie_holds_def)
  then show ?thesis by (auto simp: add_keyword_def ins)
qed

lemma build_trie_holds: "\<exists>ws. trie_holds m (zip keywords ids) (build_trie m keywords ids) ws"
proof -
  have "trie_holds m K nodes ws \<Longrightarrow> \<exists>ws'. trie_holds m (K @ L) (fold (add_keyword m) L nodes) ws'" for K L nodes ws
  proof (induction L arbitrary: K nodes ws)
    case (Cons ki L)
    obtain ws' where "trie_holds m (K @ [ki]) (add_keyword m ki nodes) ws'" using add_keyword_holds [OF Cons.prems] by blast
    from Cons.IH [OF this] show ?case by simp
  qed auto
  moreover have "trie_holds m [] [new_node] [[]]" using trie_ok_new by (simp add: trie_holds_def new_node_def)
  ultimately show ?thesis unfolding build_trie_def by fastforce
qed

section \<open>The classes\<close>

definition classes_ok :: "class_map \<Rightarrow> byte set \<Rightarrow> bool" where
  "classes_ok m B \<longleftrightarrow> 0 < cm_count m \<and> (\<forall>b. cm_of m b < cm_count m) \<and> (\<forall>b \<in> B. cm_of m b \<noteq> 0) \<and>
     (\<forall>a b. cm_of m a = cm_of m b \<longrightarrow> cm_of m a \<noteq> 0 \<longrightarrow> a = b) \<and> cm_count m = card {b. cm_of m b \<noteq> 0} + 1 \<and>
     {b. cm_of m b \<noteq> 0} \<subseteq> range ascii_lower"

lemma add_class_ok:
  assumes "classes_ok m B"
  shows "classes_ok (add_class b m) (insert (ascii_lower b) B)"
proof (cases "cm_of m (ascii_lower b) = 0")
  case True
  let ?b = "ascii_lower b" and ?n = "cm_count m"
  have m: "0 < ?n" "\<And>x. cm_of m x < ?n" "\<And>x. x \<in> B \<Longrightarrow> cm_of m x \<noteq> 0"
    "\<And>x y. cm_of m x = cm_of m y \<Longrightarrow> cm_of m x \<noteq> 0 \<Longrightarrow> x = y"
    "?n = card {x. cm_of m x \<noteq> 0} + 1" "{x. cm_of m x \<noteq> 0} \<subseteq> range ascii_lower"
    using assms unfolding classes_ok_def by blast+
  have new: "cm_of (add_class b m) x = (if x = ?b then ?n else cm_of m x)" "cm_count (add_class b m) = ?n + 1" for x
    using True by (simp_all add: add_class_def Let_def)
  have used: "{x. cm_of (add_class b m) x \<noteq> 0} = insert ?b {x. cm_of m x \<noteq> 0}"
    using m(1) by (auto simp: new)
  have "card (insert ?b {x. cm_of m x \<noteq> 0}) = Suc (card {x. cm_of m x \<noteq> 0})"
    using True by (intro card_insert_disjoint) simp_all
  then have count: "cm_count (add_class b m) = card {x. cm_of (add_class b m) x \<noteq> 0} + 1"
    unfolding used new(2) using m(5) by simp
  have "cm_of (add_class b m) x = cm_of (add_class b m) y \<Longrightarrow> cm_of (add_class b m) x \<noteq> 0 \<Longrightarrow> x = y" for x y
    using m(2) [of x] m(2) [of y] m(4) [of x y] by (auto simp: new split: if_splits)
  moreover have "cm_of (add_class b m) x < cm_count (add_class b m)" for x
    using m(2) [of x] by (auto simp: new)
  moreover have "x \<in> insert ?b B \<Longrightarrow> cm_of (add_class b m) x \<noteq> 0" for x using m(1,3) by (auto simp: new)
  moreover have "{x. cm_of (add_class b m) x \<noteq> 0} \<subseteq> range ascii_lower" unfolding used using m(6) by blast
  ultimately show ?thesis using count new(2) unfolding classes_ok_def by (metis zero_less_Suc Suc_eq_plus1)
next
  case False
  then show ?thesis using assms by (auto simp: classes_ok_def add_class_def Let_def)
qed

lemma assign_classes_ok: "classes_ok (assign_classes keywords) (ascii_lower ` set (concat keywords))"
proof -
  have one: "classes_ok m B \<Longrightarrow> classes_ok (fold add_class k m) (ascii_lower ` set k \<union> B)" for m B k
  proof (induction k arbitrary: m B)
    case (Cons b k)
    from Cons.IH [OF add_class_ok [OF Cons.prems, of b]] show ?case by simp
  qed simp
  have "classes_ok m B \<Longrightarrow> classes_ok (fold (\<lambda>k m. fold add_class k m) ks m) (ascii_lower ` set (concat ks) \<union> B)" for m B ks
  proof (induction ks arbitrary: m B)
    case (Cons k ks)
    from Cons.IH [OF one [OF Cons.prems, of k]] show ?case by (simp add: image_Un Un_assoc Un_left_commute)
  qed simp
  moreover have "classes_ok \<lparr>cm_of = \<lambda>_. 0, cm_count = 1\<rparr> {}" by (simp add: classes_ok_def)
  ultimately show ?thesis unfolding assign_classes_def by (metis Un_empty_right)
qed

lemma add_class_used: "cm_of (add_class b m) c \<noteq> 0 \<Longrightarrow> cm_of m c \<noteq> 0 \<or> c = ascii_lower b"
  by (auto simp: add_class_def Let_def split: if_splits)

text \<open>Only the bytes of the keywords have a class, one each.\<close>

lemma assign_classes_used:
  "{b. cm_of (assign_classes keywords) b \<noteq> 0} = ascii_lower ` set (concat keywords)"
proof
  have one: "cm_of (fold add_class k m) c \<noteq> 0 \<Longrightarrow> cm_of m c \<noteq> 0 \<or> c \<in> ascii_lower ` set k" for k m c
  proof (induction k arbitrary: m)
    case (Cons b k)
    then show ?case using add_class_used [of b m c] by fastforce
  qed simp
  have "cm_of (fold (\<lambda>k m. fold add_class k m) ks m) c \<noteq> 0 \<Longrightarrow> cm_of m c \<noteq> 0 \<or> c \<in> ascii_lower ` set (concat ks)" for ks m c
  proof (induction ks arbitrary: m)
    case (Cons k ks)
    then have "cm_of (fold add_class k m) c \<noteq> 0 \<or> c \<in> ascii_lower ` set (concat ks)" by simp
    then show ?case using one [of k m c] by auto
  qed simp
  then show "{b. cm_of (assign_classes keywords) b \<noteq> 0} \<subseteq> ascii_lower ` set (concat keywords)"
    unfolding assign_classes_def by fastforce
  show "ascii_lower ` set (concat keywords) \<subseteq> {b. cm_of (assign_classes keywords) b \<noteq> 0}"
    using assign_classes_ok unfolding classes_ok_def by blast
qed

text \<open>Upper-case letters have no class of their own, so a class fits in a byte.\<close>

lemma class_fits:
  assumes "classes_ok m B"
  shows "cm_of m b < 256"
proof -
  have "(65 :: byte) \<notin> range ascii_lower"
  proof
    assume "(65 :: byte) \<in> range ascii_lower"
    then obtain c where "65 = ascii_lower c" by auto
    then show False by (simp add: ascii_lower_def word_le_nat_alt unat_arith_simps split: if_splits)
  qed
  then have "{b. cm_of m b \<noteq> 0} \<subseteq> UNIV - {65}" using assms by (auto simp: classes_ok_def)
  then have "card {b. cm_of m b \<noteq> 0} \<le> card (UNIV - {65 :: byte})" by (intro card_mono) simp_all
  moreover have "card (UNIV - {65 :: byte}) = 255" by (simp add: card_Diff_singleton card_word)
  ultimately have "cm_count m \<le> 256" using assms by (simp add: classes_ok_def)
  moreover have "cm_of m b < cm_count m" using assms unfolding classes_ok_def by blast
  ultimately show ?thesis by linarith
qed

section \<open>One state of the links\<close>

lemma set_fail_sel [simp]:
  "length (set_fail t f nodes) = length nodes"
  "tn_children (set_fail t f nodes ! i) = tn_children (nodes ! i)"
  "tn_out (set_fail t f nodes ! i) = tn_out (nodes ! i)"
  by (cases "i = t"; cases "t < length nodes"; simp add: set_fail_def list_update_beyond)+

lemma set_fail_at: "t < length nodes \<Longrightarrow> tn_fail (set_fail t f nodes ! i) = (if i = t then f else tn_fail (nodes ! i))"
  by (simp add: set_fail_def)

lemma row_index: "c < n \<Longrightarrow> d < n \<Longrightarrow> s * n + c = f * n + d \<longleftrightarrow> s = f \<and> c = (d::nat)"
proof -
  assume b: "c < n" "d < n"
  have d: "(x * n + e) div n = x" "(x * n + e) mod n = e" if "e < n" for x e :: nat using that by auto
  show "s * n + c = f * n + d \<longleftrightarrow> s = f \<and> c = d"
  proof
    assume eq: "s * n + c = f * n + d"
    show "s = f \<and> c = d" using d [OF b(1), of s] d [OF b(2), of f] unfolding eq by simp
  qed simp
qed

text \<open>The loop over the classes of a state: \<open>ch\<close> are its children.\<close>

lemma link_classes:
  assumes "\<forall>c. child_of (lk_nodes l) s c = ch c" and "\<forall>c t. ch c = Some t \<longrightarrow> t < length (lk_nodes l)"
    and "\<forall>c d t. ch c = Some t \<longrightarrow> ch d = Some t \<longrightarrow> c = d"
    and "s \<noteq> f" and "distinct cs" and "\<forall>c \<in> set cs. c < n"
  shows "let l' = fold (link_class n s f) cs l in
    length (lk_nodes l') = length (lk_nodes l) \<and>
    (\<forall>i. tn_children (lk_nodes l' ! i) = tn_children (lk_nodes l ! i) \<and> tn_out (lk_nodes l' ! i) = tn_out (lk_nodes l ! i)) \<and>
    (\<forall>c \<in> set cs. lk_next l' (s * n + c) = (case ch c of Some t \<Rightarrow> t | None \<Rightarrow> lk_next l (f * n + c))) \<and>
    (\<forall>j. (\<forall>c \<in> set cs. j \<noteq> s * n + c) \<longrightarrow> lk_next l' j = lk_next l j) \<and>
    lk_queue l' = lk_queue l @ List.map_filter ch cs \<and>
    (\<forall>c \<in> set cs. \<forall>t. ch c = Some t \<longrightarrow> tn_fail (lk_nodes l' ! t) = lk_next l (f * n + c)) \<and>
    (\<forall>i. (\<forall>c \<in> set cs. ch c \<noteq> Some i) \<longrightarrow> tn_fail (lk_nodes l' ! i) = tn_fail (lk_nodes l ! i))"
  using assms
proof (induction cs arbitrary: l)
  case Nil
  then show ?case by (simp add: map_filter_simps Let_def)
next
  case (Cons c cs)
  define l1 where "l1 = link_class n s f c l"
  have c: "c < n" "c \<notin> set cs" using Cons.prems(5,6) by auto
  have row: "j = f * n + d \<Longrightarrow> d < n \<Longrightarrow> j \<noteq> s * n + c" for j d using Cons.prems(4) c(1) row_index by metis
  have l1: "length (lk_nodes l1) = length (lk_nodes l)"
    "\<And>i. tn_children (lk_nodes l1 ! i) = tn_children (lk_nodes l ! i)" "\<And>i. tn_out (lk_nodes l1 ! i) = tn_out (lk_nodes l ! i)"
    "lk_next l1 = (lk_next l)(s * n + c := (case ch c of Some t \<Rightarrow> t | None \<Rightarrow> lk_next l (f * n + c)))"
    "lk_queue l1 = lk_queue l @ (case ch c of Some t \<Rightarrow> [t] | None \<Rightarrow> [])"
    "\<And>i. tn_fail (lk_nodes l1 ! i) = (if ch c = Some i then lk_next l (f * n + c) else tn_fail (lk_nodes l ! i))"
    using Cons.prems(1,2) by (auto simp: l1_def link_class_def set_fail_at split: option.split)
  have ch1: "\<forall>d. child_of (lk_nodes l1) s d = ch d" using Cons.prems(1) l1(2) by simp
  have nx: "lk_next l1 (f * n + d) = lk_next l (f * n + d)" if "d \<in> set cs" for d
    using l1(4) row that Cons.prems(6) by simp
  have nx2: "(case ch d of Some t \<Rightarrow> t | None \<Rightarrow> lk_next l1 (f * n + d)) = (case ch d of Some t \<Rightarrow> t | None \<Rightarrow> lk_next l (f * n + d))"
    if "d \<in> set cs" for d using nx [OF that] by (cases "ch d") simp_all
  have len1: "\<forall>c t. ch c = Some t \<longrightarrow> t < length (lk_nodes l1)" using Cons.prems(2) l1(1) by simp
  have cs: "distinct cs" "\<forall>c \<in> set cs. c < n" using Cons.prems(5,6) by simp_all
  have ih: "let l' = fold (link_class n s f) cs l1 in
    length (lk_nodes l') = length (lk_nodes l) \<and>
    (\<forall>i. tn_children (lk_nodes l' ! i) = tn_children (lk_nodes l ! i) \<and> tn_out (lk_nodes l' ! i) = tn_out (lk_nodes l ! i)) \<and>
    (\<forall>c \<in> set cs. lk_next l' (s * n + c) = (case ch c of Some t \<Rightarrow> t | None \<Rightarrow> lk_next l (f * n + c))) \<and>
    (\<forall>j. (\<forall>c \<in> set cs. j \<noteq> s * n + c) \<longrightarrow> lk_next l' j = lk_next l1 j) \<and>
    lk_queue l' = lk_queue l1 @ List.map_filter ch cs \<and>
    (\<forall>c \<in> set cs. \<forall>t. ch c = Some t \<longrightarrow> tn_fail (lk_nodes l' ! t) = lk_next l (f * n + c)) \<and>
    (\<forall>i. (\<forall>c \<in> set cs. ch c \<noteq> Some i) \<longrightarrow> tn_fail (lk_nodes l' ! i) = tn_fail (lk_nodes l1 ! i))"
    using Cons.IH [OF ch1 len1 Cons.prems(3,4) cs] l1(1-3) nx nx2 by (simp add: Let_def)
  have here: "s * n + d = s * n + c \<longleftrightarrow> d = c" for d by simp
  have other: "ch d = Some t \<Longrightarrow> d \<in> set cs \<Longrightarrow> ch c \<noteq> Some t" for d t using Cons.prems(3) c(2) by metis
  show ?case
    using ih unfolding Let_def fold.simps o_apply l1_def [symmetric]
  proof (elim conjE, intro conjI)
    let ?l = "fold (link_class n s f) cs l1"
    assume r: "\<forall>c \<in> set cs. lk_next ?l (s * n + c) = (case ch c of Some t \<Rightarrow> t | None \<Rightarrow> lk_next l (f * n + c))"
      "\<forall>j. (\<forall>c \<in> set cs. j \<noteq> s * n + c) \<longrightarrow> lk_next ?l j = lk_next l1 j"
      "lk_queue ?l = lk_queue l1 @ List.map_filter ch cs"
      "\<forall>c \<in> set cs. \<forall>t. ch c = Some t \<longrightarrow> tn_fail (lk_nodes ?l ! t) = lk_next l (f * n + c)"
      "\<forall>i. (\<forall>c \<in> set cs. ch c \<noteq> Some i) \<longrightarrow> tn_fail (lk_nodes ?l ! i) = tn_fail (lk_nodes l1 ! i)"
    have "lk_next ?l (s * n + c) = lk_next l1 (s * n + c)"
    proof -
      have "\<forall>d \<in> set cs. s * n + c \<noteq> s * n + d" using c(2) by auto
      then show ?thesis using r(2) by blast
    qed
    then show "\<forall>c \<in> set (c # cs). lk_next ?l (s * n + c) = (case ch c of Some t \<Rightarrow> t | None \<Rightarrow> lk_next l (f * n + c))"
      using r(1) l1(4) by simp
    show "\<forall>j. (\<forall>c \<in> set (c # cs). j \<noteq> s * n + c) \<longrightarrow> lk_next ?l j = lk_next l j" using r(2) l1(4) by simp
    show "lk_queue ?l = lk_queue l @ List.map_filter ch (c # cs)"
      using r(3) l1(5) by (simp add: map_filter_simps split: option.split)
    show "\<forall>c \<in> set (c # cs). \<forall>t. ch c = Some t \<longrightarrow> tn_fail (lk_nodes ?l ! t) = lk_next l (f * n + c)"
    proof (intro ballI allI impI)
      fix d t assume d: "d \<in> set (c # cs)" "ch d = Some t"
      show "tn_fail (lk_nodes ?l ! t) = lk_next l (f * n + d)"
      proof (cases "d = c")
        case True
        then have "\<forall>e \<in> set cs. ch e \<noteq> Some t" using other d(2) by metis
        then show ?thesis using r(5) l1(6) d(2) True by simp
      next
        case False
        then show ?thesis using r(4) d by simp
      qed
    qed
    show "\<forall>i. (\<forall>c \<in> set (c # cs). ch c \<noteq> Some i) \<longrightarrow> tn_fail (lk_nodes ?l ! i) = tn_fail (lk_nodes l ! i)"
      using r(5) l1(6) by simp
  qed blast+
qed

section \<open>Breadth first\<close>

definition is_state :: "nat list list \<Rightarrow> nat \<Rightarrow> nat list \<Rightarrow> bool" where
  "is_state ws t w \<longleftrightarrow> t < length ws \<and> ws ! t = w"

text \<open>The outputs of the trie that end a word.\<close>

definition ends_of :: "trie_node list \<Rightarrow> nat list list \<Rightarrow> nat list \<Rightarrow> int set" where
  "ends_of nodes ws w = (\<Union>t \<in> {t. t < length ws \<and> suffix (ws ! t) w}. set (tn_out (nodes ! t)))"

abbreviation visited :: "nat \<Rightarrow> linking \<Rightarrow> nat set" where
  "visited head l \<equiv> insert 0 (set (take head (lk_queue l)))"

text \<open>
  The states before \<open>head\<close> in the queue are done: their rows and outputs are final. The queue holds
  the children of the states that are done, each once, by depth.
\<close>

definition link_ok :: "trie_node list \<Rightarrow> nat list list \<Rightarrow> nat \<Rightarrow> nat \<Rightarrow> linking \<Rightarrow> bool" where
  "link_ok nodes ws n head l \<longleftrightarrow>
     (length (lk_nodes l) = length nodes \<and> (\<forall>i. tn_children (lk_nodes l ! i) = tn_children (nodes ! i))) \<and>
     (distinct (lk_queue l) \<and> (\<forall>q \<in> set (lk_queue l). 0 < q \<and> q < length ws) \<and>
        sorted (map (\<lambda>q. length (ws ! q)) (lk_queue l)) \<and>
        (head < length (lk_queue l) \<longrightarrow>
           (\<forall>q \<in> set (lk_queue l). length (ws ! q) \<le> length (ws ! (lk_queue l ! head)) + 1))) \<and>
     ((\<forall>q \<in> set (lk_queue l). \<exists>p \<in> visited head l. \<exists>c. ws ! q = ws ! p @ [c]) \<and>
        (\<forall>p \<in> visited head l. \<forall>c t. child_of nodes p c = Some t \<longrightarrow> t \<in> set (lk_queue l))) \<and>
     ((\<forall>s \<in> visited head l. \<forall>c < n. is_state ws (lk_next l (s * n + c)) (longest (set ws) (ws ! s @ [c]))) \<and>
        (\<forall>q \<in> set (lk_queue l). is_state ws (tn_fail (lk_nodes l ! q)) (longest (set ws) (tl (ws ! q))))) \<and>
     ((\<forall>s \<in> visited head l. set (tn_out (lk_nodes l ! s)) = ends_of nodes ws (ws ! s)) \<and>
        (\<forall>s. s \<notin> visited head l \<longrightarrow> tn_out (lk_nodes l ! s) = tn_out (nodes ! s)))"

lemma word_parent:
  assumes "trie_ok nodes ws" and "x < length ws" and "x \<noteq> 0"
  obtains p c where "p < length ws" and "ws ! x = ws ! p @ [c]" and "child_of nodes p c = Some x"
proof -
  have "ws ! x \<noteq> []" using assms by (metis nth_eq_iff_index_eq trie_ok_def)
  then obtain w c where w: "ws ! x = w @ [c]" by (metis rev_exhaust)
  then have "w \<in> set ws" using assms by (metis closed_def nth_mem trie_ok_def)
  then obtain p where "p < length ws" "ws ! p = w" by (auto simp: in_set_conv_nth)
  then show thesis using that w assms(1,2) by (auto simp: trie_ok_def)
qed

lemma shallow_visited:
  assumes "trie_ok nodes ws" and "link_ok nodes ws n head l" and "head < length (lk_queue l)"
  shows "x < length ws \<Longrightarrow> length (ws ! x) < length (ws ! (lk_queue l ! head)) \<Longrightarrow> x \<in> visited head l"
proof (induction "length (ws ! x)" arbitrary: x rule: less_induct)
  case less
  show ?case
  proof (cases "x = 0")
    case False
    obtain p c where p: "p < length ws" "ws ! x = ws ! p @ [c]" "child_of nodes p c = Some x"
      using word_parent [OF assms(1) less.prems(1) False] .
    have "p \<in> visited head l" using less.hyps [OF _ p(1)] less.prems(2) p(2) by simp
    then have "x \<in> set (lk_queue l)" using assms(2) p(3) unfolding link_ok_def by blast
    then obtain j where j: "j < length (lk_queue l)" "lk_queue l ! j = x" by (auto simp: in_set_conv_nth)
    have "sorted (map (\<lambda>q. length (ws ! q)) (lk_queue l))" using assms(2) unfolding link_ok_def by blast
    then have "head \<le> j \<Longrightarrow> length (ws ! (lk_queue l ! head)) \<le> length (ws ! x)"
      using j sorted_nth_mono [of "map (\<lambda>q. length (ws ! q)) (lk_queue l)" head j] assms(3) by simp
    then have "j < head" using less.prems(2) by linarith
    then show ?thesis using j by (auto simp: in_set_conv_nth intro!: disjI2 exI [of _ j])
  qed simp
qed

lemma suffix_tl: "suffix u w \<longleftrightarrow> u = w \<or> suffix u (tl w) \<and> w \<noteq> [] \<or> u = []"
  by (cases w) (auto simp: suffix_Cons)

lemma ends_of_tl:
  assumes ok: "trie_ok nodes ws" and s: "s < length ws" "ws ! s \<noteq> []" and f: "is_state ws f (longest (set ws) (tl (ws ! s)))"
  shows "ends_of nodes ws (ws ! s) = set (tn_out (nodes ! s)) \<union> ends_of nodes ws (ws ! f)"
proof -
  have fw: "ws ! f = longest (set ws) (tl (ws ! s))" using f by (simp add: is_state_def)
  have "suffix (ws ! t) (ws ! s) \<longleftrightarrow> t = s \<or> suffix (ws ! t) (ws ! f)" if t: "t < length ws" for t
  proof -
    have "suffix (ws ! t) (tl (ws ! s)) \<longleftrightarrow> suffix (ws ! t) (ws ! f)"
      unfolding fw by (rule longest_suffixes) (use t in simp)
    moreover have "ws ! t = ws ! s \<longleftrightarrow> t = s" using ok s(1) t by (simp add: trie_ok_def nth_eq_iff_index_eq)
    ultimately show ?thesis using s(2) suffix_tl [of "ws ! t" "ws ! s"] by auto
  qed
  then have "{t. t < length ws \<and> suffix (ws ! t) (ws ! s)} = insert s {t. t < length ws \<and> suffix (ws ! t) (ws ! f)}"
    using s(1) by auto
  then show ?thesis by (simp add: ends_of_def)
qed

lemma map_filter_set: "set (List.map_filter f xs) = {y. \<exists>x \<in> set xs. f x = Some y}"
  by (induction xs) (auto simp: map_filter_simps split: option.split)

lemma map_filter_distinct:
  "distinct xs \<Longrightarrow> \<forall>c d t. f c = Some t \<longrightarrow> f d = Some t \<longrightarrow> c = d \<Longrightarrow> distinct (List.map_filter f xs)"
  by (induction xs) (auto simp: map_filter_simps map_filter_set split: option.split)

lemma child_inj:
  assumes "trie_ok nodes ws" and "s < length ws"
  shows "\<forall>c d t. child_of nodes s c = Some t \<longrightarrow> child_of nodes s d = Some t \<longrightarrow> c = d"
  using assms by (auto simp: trie_ok_def)

lemma link_state_ok:
  assumes ok: "trie_ok nodes ws" and classes: "\<forall>w \<in> set ws. \<forall>c \<in> set w. c < n"
    and inv: "link_ok nodes ws n head l" and head: "head < length (lk_queue l)"
  shows "link_ok nodes ws n (Suc head) (link_state n (lk_queue l ! head) l)"
proof -
  let ?Q = "lk_queue l" and ?W = "set ws"
  define s where "s = ?Q ! head"
  define f where "f = tn_fail (lk_nodes l ! s)"
  define ch where "ch = child_of nodes s"
  have len: "length ws = length nodes" and cl: "closed ?W" and d: "distinct ws"
    using ok by (simp_all add: trie_ok_def)
  note p = inv [unfolded link_ok_def]
  note p1 = p [THEN conjunct1] and p2 = p [THEN conjunct2, THEN conjunct1]
    and p3 = p [THEN conjunct2, THEN conjunct2, THEN conjunct1]
    and p4 = p [THEN conjunct2, THEN conjunct2, THEN conjunct2, THEN conjunct1]
    and p5 = p [THEN conjunct2, THEN conjunct2, THEN conjunct2, THEN conjunct2]
  have i1: "length (lk_nodes l) = length nodes" "\<And>i. tn_children (lk_nodes l ! i) = tn_children (nodes ! i)"
    using p1 by simp_all
  have i2: "distinct ?Q" "\<And>q. q \<in> set ?Q \<Longrightarrow> 0 < q \<and> q < length ws" "sorted (map (\<lambda>q. length (ws ! q)) ?Q)"
    "\<And>q. q \<in> set ?Q \<Longrightarrow> length (ws ! q) \<le> length (ws ! s) + 1"
    using p2 head by (simp_all add: s_def)
  have i3: "\<And>q. q \<in> set ?Q \<Longrightarrow> \<exists>p \<in> visited head l. \<exists>c. ws ! q = ws ! p @ [c]"
    "\<And>p c t. p \<in> visited head l \<Longrightarrow> child_of nodes p c = Some t \<Longrightarrow> t \<in> set ?Q"
    using p3 [THEN conjunct1] p3 [THEN conjunct2] by blast+
  have i4: "\<And>x c. x \<in> visited head l \<Longrightarrow> c < n \<Longrightarrow> is_state ws (lk_next l (x * n + c)) (longest ?W (ws ! x @ [c]))"
    "\<And>q. q \<in> set ?Q \<Longrightarrow> is_state ws (tn_fail (lk_nodes l ! q)) (longest ?W (tl (ws ! q)))"
    using p4 [THEN conjunct1] p4 [THEN conjunct2] by blast+
  have i5: "\<And>x. x \<in> visited head l \<Longrightarrow> set (tn_out (lk_nodes l ! x)) = ends_of nodes ws (ws ! x)"
    "\<And>x. x \<notin> visited head l \<Longrightarrow> tn_out (lk_nodes l ! x) = tn_out (nodes ! x)"
    using p5 [THEN conjunct1] p5 [THEN conjunct2] by blast+
  have sQ: "s \<in> set ?Q" using head by (simp add: s_def)
  have s: "0 < s" "s < length ws" using i2(2) [OF sQ] by simp_all
  have s_new: "s \<notin> visited head l"
  proof
    assume "s \<in> visited head l"
    then obtain j where "j < head" "?Q ! j = ?Q ! head" using s(1) head by (auto simp: in_set_conv_nth s_def)
    then show False using i2(1) head by (simp add: nth_eq_iff_index_eq)
  qed
  have sw: "ws ! s \<noteq> []" using s ok d by (metis nth_eq_iff_index_eq trie_ok_def less_not_refl)
  note fs = i4(2) [OF sQ, folded f_def]
  have f: "f < length ws" "ws ! f = longest ?W (tl (ws ! s))" using fs by (simp_all add: is_state_def)
  have "length (ws ! f) < length (ws ! s)"
    using suffix_length_le [OF longest_suffix, of ?W "tl (ws ! s)"] sw f(2) by (cases "ws ! s") auto
  then have f_old: "f \<in> visited head l" using shallow_visited [OF ok inv head f(1)] by (simp add: s_def)
  then have sf: "s \<noteq> f" using s_new by blast
  define l1 where "l1 = l\<lparr>lk_nodes := (lk_nodes l)[s := (lk_nodes l ! s)\<lparr>tn_out := tn_out (lk_nodes l ! s) @ tn_out (lk_nodes l ! f)\<rparr>]\<rparr>"
  define l2 where "l2 = fold (link_class n s f) [0..<n] l1"
  have l2: "link_state n s l = l2" by (simp add: link_state_def Let_def f_def l1_def l2_def)
  have s_in: "s < length (lk_nodes l)" using s(2) len i1(1) by simp
  have l1: "length (lk_nodes l1) = length nodes" "\<And>i. tn_children (lk_nodes l1 ! i) = tn_children (nodes ! i)"
    "\<And>i. tn_fail (lk_nodes l1 ! i) = tn_fail (lk_nodes l ! i)" "lk_next l1 = lk_next l" "lk_queue l1 = ?Q"
    "\<And>i. tn_out (lk_nodes l1 ! i) = (if i = s then tn_out (nodes ! s) @ tn_out (lk_nodes l ! f) else tn_out (lk_nodes l ! i))"
    using i1 i5(2) [OF s_new] s_in by (simp_all add: l1_def nth_list_update)
  have chw: "\<And>c t. ch c = Some t \<longleftrightarrow> t < length ws \<and> ws ! t = ws ! s @ [c]"
    using ok s(2) by (simp add: ch_def trie_ok_def)
  have chn: "\<And>c t. ch c = Some t \<Longrightarrow> c < n"
  proof -
    fix c t assume "ch c = Some t"
    then have "ws ! s @ [c] \<in> ?W" using chw by (metis nth_mem)
    then show "c < n" using classes by fastforce
  qed
  have ch1: "\<forall>c. child_of (lk_nodes l1) s c = ch c" by (simp add: l1(2) ch_def)
  have ch2: "\<forall>c t. ch c = Some t \<longrightarrow> t < length (lk_nodes l1)" using chw l1(1) len by simp
  have ch3: "\<forall>c d t. ch c = Some t \<longrightarrow> ch d = Some t \<longrightarrow> c = d" unfolding ch_def by (rule child_inj [OF ok s(2)])
  note lc = link_classes [OF ch1 ch2 ch3 sf distinct_upt, of 0 n n, unfolded Let_def, folded l2_def]
  have r: "length (lk_nodes l2) = length nodes" "\<And>i. tn_children (lk_nodes l2 ! i) = tn_children (nodes ! i)"
    "\<And>i. tn_out (lk_nodes l2 ! i) = tn_out (lk_nodes l1 ! i)"
    "\<And>c. c < n \<Longrightarrow> lk_next l2 (s * n + c) = (case ch c of Some t \<Rightarrow> t | None \<Rightarrow> lk_next l (f * n + c))"
    "\<And>j. \<forall>c < n. j \<noteq> s * n + c \<Longrightarrow> lk_next l2 j = lk_next l j"
    "lk_queue l2 = ?Q @ List.map_filter ch [0..<n]"
    "\<And>c t. c < n \<Longrightarrow> ch c = Some t \<Longrightarrow> tn_fail (lk_nodes l2 ! t) = lk_next l (f * n + c)"
    "\<And>i. \<forall>c < n. ch c \<noteq> Some i \<Longrightarrow> tn_fail (lk_nodes l2 ! i) = tn_fail (lk_nodes l ! i)"
    using lc [unfolded l1(4)] l1(1-3,5,6) by (simp_all add: atLeast0LessThan)
  let ?new = "List.map_filter ch [0..<n]"
  have new: "t \<in> set ?new \<longleftrightarrow> (\<exists>c. ch c = Some t)" for t using chn by (auto simp: map_filter_set)
  have take: "visited (Suc head) l2 = insert s (visited head l)"
    using head by (simp add: r(6) take_Suc_conv_app_nth s_def insert_commute)
  have new_word: "t \<in> set ?new \<Longrightarrow> t < length ws \<and> (\<exists>c. ws ! t = ws ! s @ [c] \<and> ch c = Some t)" for t
    using new chw by blast
  have fresh: "t \<notin> set ?Q" if t: "t \<in> set ?new" for t
  proof
    assume "t \<in> set ?Q"
    then obtain p c where p: "p \<in> visited head l" "ws ! t = ws ! p @ [c]" using i3(1) by blast
    obtain e where "ws ! t = ws ! s @ [e]" using new_word [OF t] by blast
    then have "ws ! p = ws ! s" using p(2) by simp
    moreover have "p < length ws" using p(1) i2(2) ok by (auto simp: trie_ok_def dest: in_set_takeD)
    ultimately have "p = s" using d s(2) by (simp add: nth_eq_iff_index_eq)
    then show False using p(1) s_new by simp
  qed
  have deep: "t \<in> set ?new \<Longrightarrow> length (ws ! t) = length (ws ! s) + 1" for t using new_word by fastforce
  have g1: "length (lk_nodes l2) = length nodes \<and> (\<forall>i. tn_children (lk_nodes l2 ! i) = tn_children (nodes ! i))"
    using r(1,2) by simp
  have g2: "distinct (lk_queue l2)" "\<forall>q \<in> set (lk_queue l2). 0 < q \<and> q < length ws"
    "sorted (map (\<lambda>q. length (ws ! q)) (lk_queue l2))"
    "Suc head < length (lk_queue l2) \<longrightarrow> (\<forall>q \<in> set (lk_queue l2). length (ws ! q) \<le> length (ws ! (lk_queue l2 ! Suc head)) + 1)"
  proof -
    show "distinct (lk_queue l2)"
      using i2(1) fresh map_filter_distinct [OF distinct_upt ch3, of 0 n] by (auto simp: r(6))
    have "0 < t" if "t \<in> set ?new" for t
    proof (rule ccontr)
      assume "\<not> 0 < t"
      then show False using deep [OF that] ok by (simp add: trie_ok_def)
    qed
    then show "\<forall>q \<in> set (lk_queue l2). 0 < q \<and> q < length ws" using i2(2) new_word by (auto simp: r(6))
    have const: "sorted (map (\<lambda>q. length (ws ! q)) ?new)"
    proof -
      have "map (\<lambda>q. length (ws ! q)) ?new = map (\<lambda>q. length (ws ! s) + 1) ?new"
        using deep by (intro map_cong refl) simp
      then show ?thesis by (simp add: map_replicate_const)
    qed
    show srt: "sorted (map (\<lambda>q. length (ws ! q)) (lk_queue l2))"
      using i2(3,4) const deep by (auto simp: r(6) sorted_append)
    show "Suc head < length (lk_queue l2) \<longrightarrow> (\<forall>q \<in> set (lk_queue l2). length (ws ! q) \<le> length (ws ! (lk_queue l2 ! Suc head)) + 1)"
    proof (intro impI ballI)
      fix q assume h: "Suc head < length (lk_queue l2)" and q: "q \<in> set (lk_queue l2)"
      have "length (ws ! (lk_queue l2 ! head)) \<le> length (ws ! (lk_queue l2 ! Suc head))"
        using sorted_nth_mono [OF srt, of head "Suc head"] h by simp
      moreover have "lk_queue l2 ! head = s" using head by (simp add: r(6) nth_append s_def)
      moreover have "length (ws ! q) \<le> length (ws ! s) + 1" using q i2(4) deep by (auto simp: r(6))
      ultimately show "length (ws ! q) \<le> length (ws ! (lk_queue l2 ! Suc head)) + 1" by simp
    qed
  qed
  have g3: "\<forall>q \<in> set (lk_queue l2). \<exists>p \<in> visited (Suc head) l2. \<exists>c. ws ! q = ws ! p @ [c]"
    "\<forall>p \<in> visited (Suc head) l2. \<forall>c t. child_of nodes p c = Some t \<longrightarrow> t \<in> set (lk_queue l2)"
  proof -
    show "\<forall>q \<in> set (lk_queue l2). \<exists>p \<in> visited (Suc head) l2. \<exists>c. ws ! q = ws ! p @ [c]"
    proof
      fix q assume "q \<in> set (lk_queue l2)"
      then consider "q \<in> set ?Q" | "q \<in> set ?new" by (auto simp: r(6))
      then show "\<exists>p \<in> visited (Suc head) l2. \<exists>c. ws ! q = ws ! p @ [c]"
      proof cases
        case 1
        from i3(1) [OF this] show ?thesis unfolding take by blast
      next
        case 2
        from new_word [OF this] show ?thesis unfolding take by blast
      qed
    qed
    show "\<forall>p \<in> visited (Suc head) l2. \<forall>c t. child_of nodes p c = Some t \<longrightarrow> t \<in> set (lk_queue l2)"
    proof (intro ballI allI impI)
      fix p c t assume p: "p \<in> visited (Suc head) l2" and t: "child_of nodes p c = Some t"
      show "t \<in> set (lk_queue l2)"
      proof (cases "p = s")
        case True
        then show ?thesis using new t by (auto simp: r(6) ch_def)
      next
        case False
        then have "p \<in> visited head l" using p unfolding take by blast
        then show ?thesis using i3(2) [OF _ t] by (simp add: r(6))
      qed
    qed
  qed
  have row: "lk_next l2 (x * n + c) = lk_next l (x * n + c)" if "x \<noteq> s" "c < n" for x c
    using r(5) [of "x * n + c"] row_index [OF that(2)] that(1) by metis
  have fnext: "is_state ws (lk_next l (f * n + c)) (longest ?W (ws ! f @ [c]))" if "c < n" for c
    using i4(1) [OF f_old that] .
  have g4: "\<forall>x \<in> visited (Suc head) l2. \<forall>c < n. is_state ws (lk_next l2 (x * n + c)) (longest ?W (ws ! x @ [c]))"
    "\<forall>q \<in> set (lk_queue l2). is_state ws (tn_fail (lk_nodes l2 ! q)) (longest ?W (tl (ws ! q)))"
  proof -
    show "\<forall>x \<in> visited (Suc head) l2. \<forall>c < n. is_state ws (lk_next l2 (x * n + c)) (longest ?W (ws ! x @ [c]))"
      unfolding take
    proof (intro ballI allI impI)
      fix x c assume x: "x \<in> insert s (visited head l)" and c: "c < n"
      show "is_state ws (lk_next l2 (x * n + c)) (longest ?W (ws ! x @ [c]))"
      proof (cases "x = s")
        case True
        show ?thesis
        proof (cases "ch c")
          case (Some t)
          then have "t < length ws" "ws ! t = ws ! s @ [c]" using chw by simp_all
          moreover have "longest ?W (ws ! s @ [c]) = ws ! s @ [c]" using calculation by (intro longest_id) (metis nth_mem)
          ultimately show ?thesis using True r(4) [OF c] Some by (simp add: is_state_def)
        next
          case None
          have "ws ! s @ [c] \<notin> ?W" using trie_ok_child [OF ok s(2)] None by (simp add: ch_def)
          from longest_tl [OF cl sw this] have "longest ?W (ws ! s @ [c]) = longest ?W (ws ! f @ [c])" by (simp add: f(2))
          then show ?thesis using True r(4) [OF c] None fnext [OF c] by simp
        qed
      next
        case False
        then show ?thesis using x i4(1) c row by simp
      qed
    qed
    show "\<forall>q \<in> set (lk_queue l2). is_state ws (tn_fail (lk_nodes l2 ! q)) (longest ?W (tl (ws ! q)))"
    proof
      fix q assume q: "q \<in> set (lk_queue l2)"
      show "is_state ws (tn_fail (lk_nodes l2 ! q)) (longest ?W (tl (ws ! q)))"
      proof (cases "q \<in> set ?new")
        case True
        then obtain c where c: "ws ! q = ws ! s @ [c]" "ch c = Some q" using new_word by blast
        have "longest ?W (tl (ws ! q)) = longest ?W (ws ! f @ [c])"
          using c(1) sw longest_snoc [OF cl, of "tl (ws ! s)" c] by (simp add: f(2))
        then show ?thesis using r(7) [OF chn [OF c(2)] c(2)] fnext [OF chn [OF c(2)]] by simp
      next
        case False
        then have "\<forall>c < n. ch c \<noteq> Some q" using new by blast
        from r(8) [OF this] show ?thesis using q False i4(2) by (simp add: r(6))
      qed
    qed
  qed
  have g5: "\<forall>x \<in> visited (Suc head) l2. set (tn_out (lk_nodes l2 ! x)) = ends_of nodes ws (ws ! x)"
    "\<forall>x. x \<notin> visited (Suc head) l2 \<longrightarrow> tn_out (lk_nodes l2 ! x) = tn_out (nodes ! x)"
    unfolding take r(3) l1(6) using i5 f_old ends_of_tl [OF ok s(2) sw fs] s_new by auto
  show ?thesis
    unfolding s_def [symmetric] l2 link_ok_def using g1 g2 g3 g4 g5 by blast
qed

lemma trie_ok_root:
  assumes "trie_ok nodes ws"
  shows "0 < length ws" and "ws ! 0 = []" and "length ws = length nodes" and "distinct ws" and "closed (set ws)"
  using assms unfolding trie_ok_def by blast+

text \<open>The root's row is that of a state whose failure row is all zeros.\<close>

lemma root_as_state:
  assumes "\<forall>c \<in> set cs. lk_next l c = 0" and "\<forall>c < n. lk_next l (n + c) = 0" and "\<forall>c \<in> set cs. c < n" and "distinct cs"
  shows "fold link_root_class cs l = fold (link_class n 0 1) cs l"
  using assms
proof (induction cs arbitrary: l)
  case (Cons c cs)
  have eq: "link_root_class c l = link_class n 0 1 c l"
    using Cons.prems(1-3) by (auto simp: link_root_class_def link_class_def fun_upd_idem split: option.split)
  have nx: "\<exists>v. lk_next (link_class n 0 1 c l) = (lk_next l)(c := v)"
    by (auto simp: link_class_def split: option.split)
  have "c \<notin> set cs" "c < n" using Cons.prems(3,4) by simp_all
  with nx Cons.prems have zeros: "\<forall>d \<in> set cs. lk_next (link_class n 0 1 c l) d = 0"
    "\<forall>d < n. lk_next (link_class n 0 1 c l) (n + d) = 0"
    by fastforce+
  have rest: "\<forall>d \<in> set cs. d < n" "distinct cs" using Cons.prems(3,4) by simp_all
  show ?case using Cons.IH [OF zeros rest] by (simp add: eq)
qed simp

lemma link_root_ok:
  assumes ok: "trie_ok nodes ws" and classes: "\<forall>w \<in> set ws. \<forall>c \<in> set w. c < n"
  shows "link_ok nodes ws n 0 (fold link_root_class [0..<n] \<lparr>lk_nodes = nodes, lk_next = \<lambda>_. 0, lk_queue = []\<rparr>)"
proof -
  let ?l = "\<lparr>lk_nodes = nodes, lk_next = \<lambda>_. 0 :: nat, lk_queue = []\<rparr>"
  define ch where "ch = child_of nodes 0"
  define l2 where "l2 = fold (link_class n 0 1) [0..<n] ?l"
  have root: "fold link_root_class [0..<n] ?l = l2" unfolding l2_def by (rule root_as_state) simp_all
  have ws: "0 < length ws" "ws ! 0 = []" "length ws = length nodes" "distinct ws" using trie_ok_root [OF ok] by simp_all
  have chw: "\<And>c t. ch c = Some t \<longleftrightarrow> t < length ws \<and> ws ! t = [c]" using ok ws by (simp add: ch_def trie_ok_def)
  have chn: "\<And>c t. ch c = Some t \<Longrightarrow> c < n" using chw classes by (metis list.set_intros(1) nth_mem)
  have ch1: "\<forall>c. child_of (lk_nodes ?l) 0 c = ch c" by (simp add: ch_def)
  have ch2: "\<forall>c t. ch c = Some t \<longrightarrow> t < length (lk_nodes ?l)" using chw ws(3) by simp
  have ch3: "\<forall>c d t. ch c = Some t \<longrightarrow> ch d = Some t \<longrightarrow> c = d" unfolding ch_def by (rule child_inj [OF ok ws(1)])
  note lc = link_classes [OF ch1 ch2 ch3 _ distinct_upt, of 1 0 n n, unfolded Let_def, folded l2_def]
  have r: "length (lk_nodes l2) = length nodes" "\<And>i. tn_children (lk_nodes l2 ! i) = tn_children (nodes ! i)"
    "\<And>i. tn_out (lk_nodes l2 ! i) = tn_out (nodes ! i)"
    "\<And>c. c < n \<Longrightarrow> lk_next l2 c = (case ch c of Some t \<Rightarrow> t | None \<Rightarrow> 0)"
    "lk_queue l2 = List.map_filter ch [0..<n]"
    "\<And>c t. c < n \<Longrightarrow> ch c = Some t \<Longrightarrow> tn_fail (lk_nodes l2 ! t) = 0"
    using lc [unfolded linking.select_convs] by (simp_all add: atLeast0LessThan)
  have q: "t \<in> set (lk_queue l2) \<longleftrightarrow> (\<exists>c. ch c = Some t)" for t using chn by (auto simp: r(5) map_filter_set)
  have qw: "t \<in> set (lk_queue l2) \<Longrightarrow> t < length ws \<and> (\<exists>c. ws ! t = [c] \<and> c < n \<and> ch c = Some t)" for t
    using q chw chn by metis
  have one: "t \<in> set (lk_queue l2) \<Longrightarrow> length (ws ! t) = 1" for t using qw by fastforce
  have g2: "distinct (lk_queue l2)" "\<forall>t \<in> set (lk_queue l2). 0 < t \<and> t < length ws"
    "sorted (map (\<lambda>t. length (ws ! t)) (lk_queue l2))"
    "0 < length (lk_queue l2) \<longrightarrow> (\<forall>t \<in> set (lk_queue l2). length (ws ! t) \<le> length (ws ! (lk_queue l2 ! 0)) + 1)"
  proof -
    show "distinct (lk_queue l2)" unfolding r(5) by (rule map_filter_distinct [OF distinct_upt ch3])
    show "\<forall>t \<in> set (lk_queue l2). 0 < t \<and> t < length ws" using qw ws(2) by (metis gr0I list.distinct(1))
    have "map (\<lambda>t. length (ws ! t)) (lk_queue l2) = map (\<lambda>_. 1) (lk_queue l2)" using one by (intro map_cong refl) simp
    then show "sorted (map (\<lambda>t. length (ws ! t)) (lk_queue l2))" by (simp add: map_replicate_const)
    show "0 < length (lk_queue l2) \<longrightarrow> (\<forall>t \<in> set (lk_queue l2). length (ws ! t) \<le> length (ws ! (lk_queue l2 ! 0)) + 1)"
      using one by simp
  qed
  have g3: "\<forall>t \<in> set (lk_queue l2). \<exists>p \<in> visited 0 l2. \<exists>c. ws ! t = ws ! p @ [c]"
    "\<forall>p \<in> visited 0 l2. \<forall>c t. child_of nodes p c = Some t \<longrightarrow> t \<in> set (lk_queue l2)"
  proof -
    show "\<forall>t \<in> set (lk_queue l2). \<exists>p \<in> visited 0 l2. \<exists>c. ws ! t = ws ! p @ [c]"
    proof
      fix t assume "t \<in> set (lk_queue l2)"
      from qw [OF this] ws(2) show "\<exists>p \<in> visited 0 l2. \<exists>c. ws ! t = ws ! p @ [c]" by auto
    qed
    show "\<forall>p \<in> visited 0 l2. \<forall>c t. child_of nodes p c = Some t \<longrightarrow> t \<in> set (lk_queue l2)"
      using q by (auto simp: ch_def)
  qed
  have g4: "\<forall>x \<in> visited 0 l2. \<forall>c < n. is_state ws (lk_next l2 (x * n + c)) (longest (set ws) (ws ! x @ [c]))"
    "\<forall>t \<in> set (lk_queue l2). is_state ws (tn_fail (lk_nodes l2 ! t)) (longest (set ws) (tl (ws ! t)))"
  proof -
    show "\<forall>x \<in> visited 0 l2. \<forall>c < n. is_state ws (lk_next l2 (x * n + c)) (longest (set ws) (ws ! x @ [c]))"
    proof (intro ballI allI impI)
      fix x c assume x: "x \<in> visited 0 l2" and c: "c < n"
      show "is_state ws (lk_next l2 (x * n + c)) (longest (set ws) (ws ! x @ [c]))"
      proof (cases "ch c")
        case (Some t)
        then have "t < length ws" "ws ! t = [c]" using chw by simp_all
        moreover from this have "[c] \<in> set ws" by (metis nth_mem)
        ultimately show ?thesis using x r(4) [OF c] Some ws(2) by (simp add: is_state_def)
      next
        case None
        have "[c] \<notin> set ws" using trie_ok_child [OF ok ws(1)] None ws(2) by (simp add: ch_def)
        then show ?thesis using x r(4) [OF c] None ws(1,2) by (simp add: is_state_def)
      qed
    qed
    show "\<forall>t \<in> set (lk_queue l2). is_state ws (tn_fail (lk_nodes l2 ! t)) (longest (set ws) (tl (ws ! t)))"
      using qw r(6) ws(1,2) by (fastforce simp: is_state_def)
  qed
  have "{t. t < length ws \<and> ws ! t = []} = {0}" using ws by (auto simp: nth_eq_iff_index_eq [symmetric])
  then have g5: "\<forall>x \<in> visited 0 l2. set (tn_out (lk_nodes l2 ! x)) = ends_of nodes ws (ws ! x)"
    "\<forall>x. x \<notin> visited 0 l2 \<longrightarrow> tn_out (lk_nodes l2 ! x) = tn_out (nodes ! x)"
    using ws(2) by (simp_all add: r(3) ends_of_def)
  show ?thesis unfolding root link_ok_def using r(1,2) g2 g3 g4 g5 by blast
qed

lemma link_loop_ok:
  assumes ok: "trie_ok nodes ws" and classes: "\<forall>w \<in> set ws. \<forall>c \<in> set w. c < n"
  shows "link_ok nodes ws n head l \<Longrightarrow> head \<le> length (lk_queue l) \<Longrightarrow> length nodes \<le> head + fuel \<Longrightarrow>
    \<exists>l'. link_loop n head fuel l = Some l' \<and> link_ok nodes ws n (length (lk_queue l')) l'"
proof (induction fuel arbitrary: head l)
  case 0
  have len: "length ws = length nodes" "0 < length ws" using trie_ok_root [OF ok] by simp_all
  note p2 = "0.prems"(1) [unfolded link_ok_def, THEN conjunct2, THEN conjunct1]
  have "distinct (lk_queue l)" "set (lk_queue l) \<subseteq> {1..<length nodes}"
    using p2 len(1) by auto
  then have "length (lk_queue l) \<le> card {1..<length nodes}"
    by (metis card_mono distinct_card finite_atLeastLessThan)
  then have "head = length (lk_queue l)" using "0.prems"(2,3) len by simp
  then show ?case using "0.prems"(1) by simp
next
  case (Suc fuel)
  show ?case
  proof (cases "head < length (lk_queue l)")
    case True
    let ?l = "link_state n (lk_queue l ! head) l"
    note st = link_state_ok [OF ok classes Suc.prems(1) True]
    have "length (lk_queue l) \<le> length (lk_queue (fold (link_class n s f) cs k))" if "length (lk_queue l) \<le> length (lk_queue k)" for s f cs k
      using that
    proof (induction cs arbitrary: k)
      case (Cons c cs)
      have "length (lk_queue k) \<le> length (lk_queue (link_class n s f c k))" by (simp add: link_class_def split: option.split)
      then show ?case using Cons by simp
    qed simp
    then have "length (lk_queue l) \<le> length (lk_queue ?l)" by (simp add: link_state_def Let_def)
    then show ?thesis using Suc.IH [OF st] True Suc.prems(3) by simp
  next
    case False
    then show ?thesis using Suc.prems by simp
  qed
qed

lemma all_visited:
  assumes "trie_ok nodes ws" and "link_ok nodes ws n (length (lk_queue l)) l"
  shows "x < length ws \<Longrightarrow> x \<in> visited (length (lk_queue l)) l"
proof (induction "length (ws ! x)" arbitrary: x rule: less_induct)
  case less
  show ?case
  proof (cases "x = 0")
    case False
    obtain p c where p: "p < length ws" "ws ! x = ws ! p @ [c]" "child_of nodes p c = Some x"
      using word_parent [OF assms(1) less.prems False] .
    have "p \<in> visited (length (lk_queue l)) l" using less.hyps [OF _ p(1)] p(2) by simp
    then have "x \<in> set (lk_queue l)" using assms(2) p(3) unfolding link_ok_def by blast
    then show ?thesis by simp
  qed simp
qed

lemma link_trie_ok:
  assumes ok: "trie_ok nodes ws" and classes: "\<forall>w \<in> set ws. \<forall>c \<in> set w. c < n"
  shows "\<exists>l. link_trie nodes n = Some l \<and> length (lk_nodes l) = length nodes \<and>
    (\<forall>s < length ws. \<forall>c < n. is_state ws (lk_next l (s * n + c)) (longest (set ws) (ws ! s @ [c]))) \<and>
    (\<forall>s < length ws. set (tn_out (lk_nodes l ! s)) = ends_of nodes ws (ws ! s)) \<and>
    distinct (lk_queue l) \<and> set (lk_queue l) = {1..<length nodes}"
proof -
  obtain l where l: "link_trie nodes n = Some l" "link_ok nodes ws n (length (lk_queue l)) l"
    using link_loop_ok [OF ok classes link_root_ok [OF ok classes], of "length nodes"] by (auto simp: link_trie_def)
  note vis = all_visited [OF ok l(2)]
  note p = l(2) [unfolded link_ok_def]
  have "\<forall>s < length ws. \<forall>c < n. is_state ws (lk_next l (s * n + c)) (longest (set ws) (ws ! s @ [c]))"
    using p [THEN conjunct2, THEN conjunct2, THEN conjunct2, THEN conjunct1, THEN conjunct1] vis by blast
  moreover have "\<forall>s < length ws. set (tn_out (lk_nodes l ! s)) = ends_of nodes ws (ws ! s)"
    using p [THEN conjunct2, THEN conjunct2, THEN conjunct2, THEN conjunct2, THEN conjunct1] vis by blast
  moreover have "distinct (lk_queue l)" "\<forall>q \<in> set (lk_queue l). 0 < q \<and> q < length ws"
    using p [THEN conjunct2, THEN conjunct1] by blast+
  moreover have "set (lk_queue l) = {1..<length nodes}"
  proof
    have "x \<in> set (lk_queue l)" if "0 < x" "x < length nodes" for x
      using vis [of x] that trie_ok_root(3) [OF ok] by simp
    then show "{1..<length nodes} \<subseteq> set (lk_queue l)" by auto
    show "set (lk_queue l) \<subseteq> {1..<length nodes}" using calculation(4) trie_ok_root(3) [OF ok] by auto
  qed
  ultimately show ?thesis using l(1) p [THEN conjunct1] by blast
qed

end
