(* ===== verification/KeywordDfa.thy ===== *)
theory KeywordDfa
  imports AhoCorasick
begin

text \<open>
  The scan tables of the keyword automaton (\<^verbatim>\<open>fillTables\<close>, \<^verbatim>\<open>outputOfRow\<close>), and what a scan of a
  line with them finds.
\<close>

section \<open>The tables\<close>

lemma fill_prefix:
  "fill_outputs ns starts ids = Some (st, out) \<Longrightarrow>
    (\<exists>more. st = starts @ more \<and> length more = length ns) \<and> (\<exists>more. out = ids @ more)"
proof (induction ns arbitrary: starts ids)
  case (Cons n ns)
  then show ?case by (fastforce simp: Let_def split: if_splits)
qed simp

lemma fill_slice:
  "fill_outputs ns starts ids = Some (st, out) \<Longrightarrow> starts \<noteq> [] \<Longrightarrow> last starts = length ids \<Longrightarrow> j < length ns \<Longrightarrow>
    st ! (length starts - 1 + j) \<le> st ! (length starts + j) \<and>
    take (st ! (length starts + j) - st ! (length starts - 1 + j)) (drop (st ! (length starts - 1 + j)) out) =
      remdups_adj (sort (tn_out (ns ! j)))"
proof (induction ns arbitrary: starts ids j)
  case (Cons n ns)
  let ?o = "remdups_adj (sort (tn_out n))"
  have f: "fill_outputs ns (starts @ [length (ids @ ?o)]) (ids @ ?o) = Some (st, out)"
    using Cons.prems(1) by (simp add: Let_def split: if_splits)
  show ?case
  proof (cases j)
    case 0
    obtain m1 m2 where m: "st = (starts @ [length (ids @ ?o)]) @ m1" "out = (ids @ ?o) @ m2"
      using fill_prefix [OF f] by blast
    have "st ! (length starts - 1) = length ids"
      using Cons.prems(2,3) by (simp add: m(1) nth_append last_conv_nth)
    moreover have "st ! length starts = length (ids @ ?o)" by (simp add: m(1) nth_append)
    ultimately show ?thesis using 0 by (simp add: m(2))
  next
    case (Suc i)
    have idx: "length starts - 1 + j = length starts + i" "length starts + j = Suc (length starts) + i"
      using Suc Cons.prems(2) by (cases starts; simp)+
    have nth: "(n # ns) ! j = ns ! i" using Suc by simp
    show ?thesis
      using Cons.IH [OF f, of i] Cons.prems(4) Suc unfolding idx nth by simp
  qed
qed simp

lemma sort_Nil_iff [simp]: "sort xs = [] \<longleftrightarrow> xs = []"
  by (metis set_empty set_sort)

lemma sorted_distinct_compact: "sorted xs \<Longrightarrow> distinct (remdups_adj (xs :: int list))"
proof (induction xs rule: remdups_adj.induct)
  case (3 x y xs)
  then show ?case by (cases "x = y") fastforce+
qed simp_all

lemma fill_tables_ok:
  assumes fill: "fill_tables m l = Some d" and n: "cm_count m = n" "0 < n"
    and small: "length (lk_nodes l) * n \<le> maxDFACells"
    and t: "\<forall>i < length (lk_nodes l) * n. lk_next l i < length (lk_nodes l)"
  shows "df_class d = class_table m" and "df_nclass d = n"
    and "\<And>s. s < length (lk_nodes l) \<Longrightarrow> output_of_row d (s * n) = remdups_adj (sort (tn_out (lk_nodes l ! s)))"
    and "\<And>i. i < length (lk_nodes l) * n \<Longrightarrow> df_trans d ! i =
      2 * (lk_next l i * n) + (if tn_out (lk_nodes l ! lk_next l i) \<noteq> [] then 1 else 0)"
proof -
  obtain starts ids where f: "fill_outputs (lk_nodes l) [0] [] = Some (starts, ids)"
    and d: "d = \<lparr>df_class = class_table m, df_nclass = n,
      df_trans = map (\<lambda>i. trans_entry n starts (lk_next l i)) [0..<length (lk_nodes l) * n],
      df_outStart = starts, df_outIDs = ids\<rparr>"
    using fill n(1) by (auto simp: fill_tables_def split: option.splits)
  show "df_class d = class_table m" "df_nclass d = n" by (simp_all add: d)
  have slice: "starts ! s \<le> starts ! (s + 1)"
    "take (starts ! (s + 1) - starts ! s) (drop (starts ! s) ids) = remdups_adj (sort (tn_out (lk_nodes l ! s)))"
    if "s < length (lk_nodes l)" for s
    using fill_slice [OF f _ _ that] by simp_all
  show out: "output_of_row d (s * n) = remdups_adj (sort (tn_out (lk_nodes l ! s)))" if "s < length (lk_nodes l)" for s
    using slice(2) [OF that] n(2) by (simp add: output_of_row_def d)
  have ends: "starts ! (s + 1) \<le> length ids" if "s < length (lk_nodes l)" for s
  proof -
    have "fill_outputs ns st0 ids0 = Some (starts, ids) \<Longrightarrow> \<forall>x \<in> set st0. x \<le> length ids0 \<Longrightarrow> \<forall>x \<in> set starts. x \<le> length ids"
      for ns st0 ids0
      by (induction ns st0 ids0 rule: fill_outputs.induct) (force simp: Let_def split: if_splits)+
    from this [OF f] have "\<forall>x \<in> set starts. x \<le> length ids" by simp
    moreover have "s + 1 < length starts" using fill_prefix [OF f] that by auto
    ultimately show ?thesis using nth_mem by blast
  qed
  show "df_trans d ! i = 2 * (lk_next l i * n) + (if tn_out (lk_nodes l ! lk_next l i) \<noteq> [] then 1 else 0)"
    if i: "i < length (lk_nodes l) * n" for i
  proof -
    let ?t = "lk_next l i"
    have tn: "?t < length (lk_nodes l)" using t i by blast
    then have "?t * n \<le> length (lk_nodes l) * n" by (intro mult_le_mono1) simp
    then have "?t * n \<le> 2 ^ 26" using small unfolding maxDFACells_def by (rule order_trans)
    then have "2 * (?t * n) \<le> 2 * 2 ^ 26" by (rule mult_le_mono2)
    also have "\<dots> < (2 :: nat) ^ 32" by simp
    finally have "2 * (?t * n) < 2 ^ 32" .
    moreover have "starts ! ?t < starts ! (?t + 1) \<longleftrightarrow> tn_out (lk_nodes l ! ?t) \<noteq> []"
    proof -
      have "length (remdups_adj (sort (tn_out (lk_nodes l ! ?t)))) = starts ! (?t + 1) - starts ! ?t"
        using slice(2) [OF tn] ends [OF tn] by (metis diff_le_mono length_drop length_take min.absorb2)
      then show ?thesis by (metis length_0_conv remdups_adj_Nil_iff sort_Nil_iff zero_less_diff less_not_refl2 neq0_conv)
    qed
    ultimately show ?thesis using i by (simp add: d trans_entry_def Let_def)
  qed
qed

section \<open>A scan of a line\<close>

definition dfa_step :: "keyword_dfa \<Rightarrow> byte \<Rightarrow> nat \<Rightarrow> nat" where
  "dfa_step d b row = df_trans d ! (row + df_class d b)"

text \<open>The row after a line: an entry holds the next row, and whether it has an output.\<close>

definition row_after :: "keyword_dfa \<Rightarrow> bytes \<Rightarrow> nat" where
  "row_after d view = fold (\<lambda>b row. dfa_step d b row div 2) view 0"

definition found_ids :: "bytes list \<Rightarrow> int list list \<Rightarrow> bytes \<Rightarrow> int set" where
  "found_ids kws ids view =
     (\<Union>ki \<in> set (zip kws ids). if suffix (map ascii_lower (fst ki)) (map ascii_lower view) then set (snd ki) else {})"

lemma suffix_map_inj:
  assumes "\<forall>x \<in> set u. \<forall>y. f x = f y \<longrightarrow> x = y"
  shows "suffix (map f u) (map f v) \<longleftrightarrow> suffix u v"
proof
  assume "suffix (map f u) (map f v)"
  then obtain p where p: "map f v = p @ map f u" by (auto simp: suffix_def)
  define w where "w = drop (length p) v"
  have "map f w = map f u" using p by (metis append_eq_conv_conj drop_map w_def)
  moreover have "map f w = map f u \<Longrightarrow> w = u" using assms
  proof (induction u arbitrary: w)
    case (Cons a u)
    then show ?case by (cases w; simp) metis
  qed simp
  ultimately have "w = u" by blast
  then show "suffix u v" unfolding w_def by (metis suffix_drop)
qed (auto simp: suffix_def)

lemma dfa_built:
  assumes built: "build_dfa kws ids = Inr d"
  shows "\<exists>ws nodes. trie_holds (assign_classes kws) (zip kws ids) nodes ws \<and>
    (\<forall>view. row_after d view < 2 ^ 31) \<and>
    (\<forall>view. set (output_of_row d (row_after d view)) = ends_of nodes ws (longest (set ws) (word_of (assign_classes kws) view)) \<and>
       sorted (output_of_row d (row_after d view)) \<and> distinct (output_of_row d (row_after d view))) \<and>
    (\<forall>view b. dfa_step d b (row_after d view) mod 2 = 1 \<longleftrightarrow> output_of_row d (row_after d (view @ [b])) \<noteq> [])"
proof -
  let ?m = "assign_classes kws"
  let ?n = "cm_count ?m"
  define nodes where "nodes = build_trie ?m kws ids"
  obtain l where l: "link_trie nodes ?n = Some l" "fill_tables ?m l = Some d" "length nodes * ?n \<le> maxDFACells"
    using built by (auto simp: build_dfa_def Let_def nodes_def split: if_splits option.splits)
  obtain ws where ws: "trie_holds ?m (zip kws ids) nodes ws" using build_trie_holds unfolding nodes_def by blast
  then have ok: "trie_ok nodes ws" by (simp add: trie_holds_def)
  note root = trie_ok_root [OF ok]
  note cls = assign_classes_ok [of kws]
  have n0: "0 < ?n" and cn: "cm_of ?m b < ?n" for b using cls unfolding classes_ok_def by blast+
  have classes: "\<forall>w \<in> set ws. \<forall>c \<in> set w. c < ?n"
    using ws cn unfolding trie_holds_def by fastforce
  obtain l' where l': "link_trie nodes ?n = Some l'" "length (lk_nodes l') = length nodes"
    "\<forall>s < length ws. \<forall>c < ?n. is_state ws (lk_next l' (s * ?n + c)) (longest (set ws) (ws ! s @ [c]))"
    "\<forall>s < length ws. set (tn_out (lk_nodes l' ! s)) = ends_of nodes ws (ws ! s)"
    using link_trie_ok [OF ok classes] by blast
  have "l' = l" using l(1) l'(1) by simp
  note lk = l'(2-4) [unfolded this]
  have split: "i < length nodes * ?n \<Longrightarrow> i div ?n < length ws \<and> i mod ?n < ?n \<and> i = i div ?n * ?n + i mod ?n" for i
    using n0 root(3) by (simp add: less_mult_imp_div_less)
  have next_in: "\<forall>i < length (lk_nodes l) * ?n. lk_next l i < length (lk_nodes l)"
    using lk(2) split lk(1) root(3) unfolding is_state_def by metis
  have small: "length (lk_nodes l) * ?n \<le> maxDFACells" using l(3) lk(1) by simp
  note tb = fill_tables_ok [OF l(2) refl n0 small next_in]
  have table: "df_class d b = cm_of ?m (ascii_lower b)" for b
    using tb(1) class_fits [OF cls] by (simp add: class_table_def)
  define st where "st = (\<lambda>view. THE s. is_state ws s (longest (set ws) (word_of ?m view)))"
  have uniq: "is_state ws s w \<Longrightarrow> is_state ws t w \<Longrightarrow> s = t" for s t w
    using root(4) by (auto simp: is_state_def nth_eq_iff_index_eq)
  have st_eq: "is_state ws s (longest (set ws) (word_of ?m view)) \<Longrightarrow> st view = s" for s view
    unfolding st_def using uniq by blast
  have st_ok: "is_state ws (st view) (longest (set ws) (word_of ?m view))" for view
  proof -
    have "longest (set ws) (word_of ?m view) \<in> set ws" using root(5) by (intro longest_in) (simp add: closed_def)
    then obtain s where "is_state ws s (longest (set ws) (word_of ?m view))" by (auto simp: is_state_def in_set_conv_nth)
    then show ?thesis using st_eq by metis
  qed
  have step: "lk_next l (st view * ?n + cm_of ?m (ascii_lower b)) = st (view @ [b])" for view b
  proof -
    have s: "st view < length ws" "ws ! st view = longest (set ws) (word_of ?m view)" using st_ok by (simp_all add: is_state_def)
    have "is_state ws (lk_next l (st view * ?n + cm_of ?m (ascii_lower b)))
        (longest (set ws) (ws ! st view @ [cm_of ?m (ascii_lower b)]))" using lk(2) s(1) cn by blast
    then have "is_state ws (lk_next l (st view * ?n + cm_of ?m (ascii_lower b))) (longest (set ws) (word_of ?m (view @ [b])))"
      unfolding s(2) longest_snoc [OF root(5)] by simp
    then show ?thesis using st_eq by metis
  qed
  have in_range: "st view * ?n + cm_of ?m (ascii_lower b) < length (lk_nodes l) * ?n" for view b
  proof -
    have "st view < length (lk_nodes l)" using st_ok [of view] lk(1) root(3) by (simp add: is_state_def)
    then have "(st view + 1) * ?n \<le> length (lk_nodes l) * ?n" by (intro mult_le_mono1) simp
    then show ?thesis using cn [of "ascii_lower b"] by (simp add: algebra_simps)
  qed
  have row: "row_after d view = st view * ?n" for view
  proof (induction view rule: rev_induct)
    case Nil
    have "is_state ws 0 (longest (set ws) (word_of ?m []))" using root(1,2) by (simp add: is_state_def)
    then show ?case using st_eq [of 0 "[]"] by (simp add: row_after_def)
  next
    case (snoc b view)
    have "dfa_step d b (row_after d view) = df_trans d ! (st view * ?n + cm_of ?m (ascii_lower b))"
      using snoc table by (simp add: dfa_step_def)
    also have "\<dots> div 2 = st (view @ [b]) * ?n"
      unfolding tb(4) [OF in_range] step by simp
    finally show ?case by (simp add: row_after_def)
  qed
  have out: "output_of_row d (row_after d view) = remdups_adj (sort (tn_out (lk_nodes l ! st view)))" for view
    unfolding row by (rule tb(3)) (use st_ok [of view] lk(1) root(3) in \<open>simp add: is_state_def\<close>)
  have flag: "dfa_step d b (row_after d view) mod 2 = 1 \<longleftrightarrow> output_of_row d (row_after d (view @ [b])) \<noteq> []" for view b
  proof -
    have "dfa_step d b (row_after d view) = df_trans d ! (st view * ?n + cm_of ?m (ascii_lower b))"
      using row table by (simp add: dfa_step_def)
    also have "\<dots> = 2 * (st (view @ [b]) * ?n) + (if tn_out (lk_nodes l ! st (view @ [b])) \<noteq> [] then 1 else 0)"
      using tb(4) [OF in_range] by (simp only: step)
    finally show ?thesis by (simp add: out)
  qed
  have ends: "set (output_of_row d (row_after d view)) = ends_of nodes ws (longest (set ws) (word_of ?m view)) \<and>
      sorted (output_of_row d (row_after d view)) \<and> distinct (output_of_row d (row_after d view))" for view
  proof -
    have s: "st view < length ws" "ws ! st view = longest (set ws) (word_of ?m view)" using st_ok by (simp_all add: is_state_def)
    have "distinct (remdups_adj (sort xs))" for xs :: "int list" by (rule sorted_distinct_compact) simp
    then show ?thesis using lk(3) s unfolding out by simp
  qed
  have low: "row_after d view < 2 ^ 31" for view
  proof -
    have "st view \<le> length (lk_nodes l)" using st_ok [of view] lk(1) root(3) by (simp add: is_state_def)
    then have "st view * ?n \<le> length (lk_nodes l) * ?n" by (rule mult_le_mono1)
    also have "\<dots> \<le> 2 ^ 26" using small unfolding maxDFACells_def .
    also have "\<dots> < (2 :: nat) ^ 31" by simp
    finally show ?thesis unfolding row .
  qed
  show ?thesis
    by (intro exI conjI allI; (rule ws | rule low | rule ends [THEN conjunct1] | rule ends [THEN conjunct2, THEN conjunct1]
      | rule ends [THEN conjunct2, THEN conjunct2] | rule flag))
qed

section \<open>What a scan finds\<close>

lemma word_of_lower: "word_of m k = map (cm_of m) (map ascii_lower k)"
  by simp

text \<open>The states whose word ends the line are the keywords that end it.\<close>

lemma ends_of_found:
  assumes m: "m = assign_classes kws" and ws: "trie_holds m (zip kws ids) nodes ws"
  shows "ends_of nodes ws (word_of m view) = found_ids kws ids view"
proof -
  note cls = assign_classes_ok [of kws, folded m]
  have suf: "suffix (word_of m k) (word_of m view) \<longleftrightarrow> suffix (map ascii_lower k) (map ascii_lower view)"
    if "k \<in> set kws" for k
    unfolding word_of_lower
  proof (rule suffix_map_inj, intro ballI allI impI)
    fix x y assume x: "x \<in> set (map ascii_lower k)" and eq: "cm_of m x = cm_of m y"
    have nz: "\<forall>b \<in> ascii_lower ` set (concat kws). cm_of m b \<noteq> 0"
      and inj: "\<forall>a b. cm_of m a = cm_of m b \<longrightarrow> cm_of m a \<noteq> 0 \<longrightarrow> a = b" using cls unfolding classes_ok_def by blast+
    have "x \<in> ascii_lower ` set (concat kws)" using x that by auto
    then have "cm_of m x \<noteq> 0" using nz by blast
    then show "x = y" using inj eq by blast
  qed
  have out: "set (tn_out (nodes ! t)) = (\<Union>ki \<in> set (zip kws ids). if word_of m (fst ki) = ws ! t then set (snd ki) else {})"
    if "t < length ws" for t using ws that unfolding trie_holds_def by blast
  have state: "\<exists>t < length ws. ws ! t = word_of m (fst ki)" if "ki \<in> set (zip kws ids)" for ki
  proof -
    have "word_of m (fst ki) \<in> set ws" using ws that unfolding trie_holds_def by blast
    then show ?thesis by (metis in_set_conv_nth)
  qed
  have "i \<in> ends_of nodes ws (word_of m view) \<longleftrightarrow>
      (\<exists>ki \<in> set (zip kws ids). suffix (word_of m (fst ki)) (word_of m view) \<and> i \<in> set (snd ki))" for i
  proof
    assume "i \<in> ends_of nodes ws (word_of m view)"
    then obtain t where t: "t < length ws" "suffix (ws ! t) (word_of m view)" "i \<in> set (tn_out (nodes ! t))"
      unfolding ends_of_def by blast
    then obtain ki where "ki \<in> set (zip kws ids)" "word_of m (fst ki) = ws ! t" "i \<in> set (snd ki)"
      using out by (auto split: if_splits)
    then show "\<exists>ki \<in> set (zip kws ids). suffix (word_of m (fst ki)) (word_of m view) \<and> i \<in> set (snd ki)"
      using t(2) by metis
  next
    assume "\<exists>ki \<in> set (zip kws ids). suffix (word_of m (fst ki)) (word_of m view) \<and> i \<in> set (snd ki)"
    then obtain ki where ki: "ki \<in> set (zip kws ids)" "suffix (word_of m (fst ki)) (word_of m view)" "i \<in> set (snd ki)"
      by blast
    obtain t where t: "t < length ws" "ws ! t = word_of m (fst ki)" using state [OF ki(1)] by blast
    have "i \<in> set (tn_out (nodes ! t))" unfolding out [OF t(1)] using ki(1,3) t(2) by fastforce
    then show "i \<in> ends_of nodes ws (word_of m view)" unfolding ends_of_def using t ki(2) by auto
  qed
  moreover have "i \<in> found_ids kws ids view \<longleftrightarrow>
      (\<exists>ki \<in> set (zip kws ids). suffix (map ascii_lower (fst ki)) (map ascii_lower view) \<and> i \<in> set (snd ki))" for i
    by (auto simp: found_ids_def split: if_splits)
  moreover have "fst ki \<in> set kws" if "ki \<in> set (zip kws ids)" for ki using that by (metis prod.collapse set_zip_leftD)
  ultimately have "i \<in> ends_of nodes ws (word_of m view) \<longleftrightarrow> i \<in> found_ids kws ids view" for i
    using suf by (simp cong: bex_cong)
  then show ?thesis by blast
qed

lemma ends_of_longest:
  "ends_of nodes ws (longest (set ws) w) = ends_of nodes ws w"
  unfolding ends_of_def using longest_suffixes [of _ "set ws" w] by auto

text \<open>
  Claim C27.
  The automaton of the keywords reports, after any line, exactly the ids of the keywords that end
  there without ASCII case, each once and in order; and the flag of a transition says whether the
  row it leads to reports any.
\<close>

theorem automaton_finds:
  assumes "build_dfa kws ids = Inr d"
  shows "set (output_of_row d (row_after d view)) = found_ids kws ids view
    \<and> sorted (output_of_row d (row_after d view)) \<and> distinct (output_of_row d (row_after d view))
    \<and> (dfa_step d b (row_after d view) mod 2 = 1 \<longleftrightarrow> found_ids kws ids (view @ [b]) \<noteq> {})"
proof -
  obtain nodes ws where "trie_holds (assign_classes kws) (zip kws ids) nodes ws"
    and out: "\<And>view. set (output_of_row d (row_after d view)) = ends_of nodes ws (longest (set ws) (word_of (assign_classes kws) view)) \<and>
       sorted (output_of_row d (row_after d view)) \<and> distinct (output_of_row d (row_after d view))"
    and flag: "dfa_step d b (row_after d view) mod 2 = 1 \<longleftrightarrow> output_of_row d (row_after d (view @ [b])) \<noteq> []"
    using dfa_built [OF assms] by blast
  then have "set (output_of_row d (row_after d view)) = found_ids kws ids view" for view
    by (simp only: ends_of_longest ends_of_found [OF refl])
  then show ?thesis using out flag by (metis set_empty)
qed

theorem automaton_finds_witness:
  "\<exists>d. build_dfa [[101, 114, 114], [114]] [[0, 2], [1]] = Inr d \<and>
     set (output_of_row d (row_after d [69, 82, 114])) = {0, 1, 2} \<and> set (output_of_row d (row_after d [69, 82])) = {1}"
proof -
  have "\<not> isl (build_dfa [[101, 114, 114], [114]] [[0, 2], [1]])"
    by (simp add: build_dfa_def assign_classes_def add_class_def ascii_lower_def build_trie_def add_keyword_def new_node_def
      link_trie_def link_root_class_def link_state_def link_class_def set_fail_def fill_tables_def maxDFACells_def Let_def
      upt_rec isl_def)
  then obtain d where d: "build_dfa [[101, 114, 114], [114]] [[0, 2], [1]] = Inr d"
    by (cases "build_dfa [[101, 114, 114], [114]] [[0, 2], [1]]") auto
  have "found_ids [[101, 114, 114], [114]] [[0, 2], [1]] [69, 82, 114] = {0, 1, 2}"
    "found_ids [[101, 114, 114], [114]] [[0, 2], [1]] [69, 82] = {1}"
    by (auto simp: found_ids_def ascii_lower_def suffix_Cons)
  then show ?thesis
    using d automaton_finds [OF d, of "[69, 82, 114]"] automaton_finds [OF d, of "[69, 82]"] by auto
qed

lemma automaton_rows:
  assumes "build_dfa kws ids = Inr d"
  shows "row_after d view < 2 ^ 31"
  using dfa_built [OF assms] by blast

section \<open>The size of an automaton\<close>

text \<open>
  What the automaton of some keywords needs, read off the keywords: a state for every beginning of a
  lowered keyword, a class for every byte of one and one for all others, and, at every state, the ids
  of the keywords that end there.
\<close>

definition keyword_states :: "bytes list \<Rightarrow> bytes list" where
  "keyword_states kws = remdups ([] # concat (map (\<lambda>k. prefixes (map ascii_lower k)) kws))"

definition keyword_classes :: "bytes list \<Rightarrow> nat" where
  "keyword_classes kws = length (remdups (map ascii_lower (concat kws))) + 1"

definition keyword_outputs :: "bytes list \<Rightarrow> int list list \<Rightarrow> nat" where
  "keyword_outputs kws ids = sum_list (map (\<lambda>w. card (found_ids kws ids w)) (keyword_states kws))"

lemma class_count: "cm_count (assign_classes kws) = keyword_classes kws"
proof -
  have "cm_count (assign_classes kws) = card {b. cm_of (assign_classes kws) b \<noteq> 0} + 1"
    using assign_classes_ok [of kws] unfolding classes_ok_def by blast
  then show ?thesis unfolding assign_classes_used keyword_classes_def by (simp add: length_remdups_card_conv)
qed

lemma lower_idem [simp]: "ascii_lower (ascii_lower b) = ascii_lower b"
  by (simp add: ascii_lower_def word_le_nat_alt unat_arith_simps)

lemma word_of_lowered: "word_of m (map ascii_lower k) = word_of m k"
  by simp

lemma states_of_trie:
  assumes ws: "trie_holds (assign_classes kws) (zip kws ids) nodes ws" and len: "length ids = length kws"
  shows "set ws = word_of (assign_classes kws) ` set (keyword_states kws)"
    and "inj_on (word_of (assign_classes kws)) (set (keyword_states kws))"
proof -
  let ?m = "assign_classes kws"
  have keys: "fst ` set (zip kws ids) = set kws" using len by (metis list.set_map map_fst_zip)
  have root: "[] \<in> set ws" and cl: "closed (set ws)"
    using trie_ok_root(5) [of nodes ws] ws unfolding trie_holds_def closed_def by blast+
  have down: "w @ u \<in> set ws \<Longrightarrow> w \<in> set ws" for w u
    using cl by (induction u rule: rev_induct) (auto simp: closed_def simp flip: append_assoc)
  have states: "u \<in> set (keyword_states kws) \<longleftrightarrow> u = [] \<or> (\<exists>k \<in> set kws. prefix u (map ascii_lower k))" for u
    by (auto simp: keyword_states_def)
  show "set ws = word_of ?m ` set (keyword_states kws)"
  proof
    show "set ws \<subseteq> word_of ?m ` set (keyword_states kws)"
    proof
      fix w assume "w \<in> set ws"
      then have "w = [] \<or> (\<exists>ki \<in> set (zip kws ids). prefix w (word_of ?m (fst ki)))"
        using ws unfolding trie_holds_def by blast
      then consider "w = []" | k where "k \<in> set kws" "prefix w (word_of ?m k)" using keys by blast
      then show "w \<in> word_of ?m ` set (keyword_states kws)"
      proof cases
        case (2 k)
        define u where "u = take (length w) (map ascii_lower k)"
        have "w = take (length w) (word_of ?m k)" using 2(2) by (auto simp: prefix_def)
        then have "w = word_of ?m u" unfolding u_def by (simp only: take_map [symmetric] word_of_lowered)
        moreover have "u \<in> set (keyword_states kws)" using 2(1) states take_is_prefix unfolding u_def by blast
        ultimately show ?thesis by blast
      qed (use states [of "[]"] in force)
    qed
    show "word_of ?m ` set (keyword_states kws) \<subseteq> set ws"
    proof
      fix w assume "w \<in> word_of ?m ` set (keyword_states kws)"
      then obtain u where u: "w = word_of ?m u" "u = [] \<or> (\<exists>k \<in> set kws. prefix u (map ascii_lower k))"
        using states by blast
      show "w \<in> set ws"
      proof (cases "u = []")
        case False
        then obtain k where k: "k \<in> set kws" "prefix u (map ascii_lower k)" using u(2) by blast
        then obtain v where v: "map ascii_lower k = u @ v" by (auto simp: prefix_def)
        obtain ki where "ki \<in> set (zip kws ids)" "fst ki = k" using k(1) keys by (metis imageE)
        then have "word_of ?m k \<in> set ws" using ws unfolding trie_holds_def by blast
        then have "w @ word_of ?m v \<in> set ws"
          unfolding u(1) map_append [symmetric] v [symmetric] word_of_lowered .
        then show ?thesis by (rule down)
      qed (use u(1) root in simp)
    qed
  qed
  show "inj_on (word_of ?m) (set (keyword_states kws))"
  proof (rule inj_onI)
    fix u v assume u: "u \<in> set (keyword_states kws)" and v: "v \<in> set (keyword_states kws)" and eq: "word_of ?m u = word_of ?m v"
    have inj: "\<forall>a b. cm_of ?m a = cm_of ?m b \<longrightarrow> cm_of ?m a \<noteq> 0 \<longrightarrow> a = b"
      using assign_classes_ok [of kws] unfolding classes_ok_def by blast
    have low: "ascii_lower x = x \<and> cm_of ?m x \<noteq> 0" if w: "w \<in> set (keyword_states kws)" and x: "x \<in> set w" for w x
    proof -
      obtain k where "k \<in> set kws" "prefix w (map ascii_lower k)" using w x states [of w] by auto
      then obtain b where b: "b \<in> set k" "x = ascii_lower b" using x set_mono_prefix by fastforce
      then have "x \<in> ascii_lower ` set (concat kws)" using \<open>k \<in> set kws\<close> by auto
      then show ?thesis unfolding assign_classes_used [symmetric] b(2) by simp
    qed
    from eq have "length u = length v" by (metis length_map)
    then show "u = v" using eq low [OF u] low [OF v]
    proof (induction u v rule: list_induct2)
      case (Cons x xs y ys)
      have "ascii_lower x = x \<and> cm_of ?m x \<noteq> 0" "ascii_lower y = y" using Cons.prems(2,3) by simp_all
      moreover have "cm_of ?m (ascii_lower x) = cm_of ?m (ascii_lower y)" using Cons.prems(1) by simp
      ultimately have "x = y" using inj by metis
      moreover have "xs = ys" by (rule Cons.IH) (use Cons.prems in simp_all)
      ultimately show ?case by simp
    qed simp
  qed
qed

lemma fill_outputs_None:
  "length ids \<le> maxDFACells \<Longrightarrow>
    fill_outputs ns starts ids = None \<longleftrightarrow> maxDFACells < length ids + sum_list (map (\<lambda>n. card (set (tn_out n))) ns)"
proof (induction ns starts ids rule: fill_outputs.induct)
  case (2 n ns starts ids)
  have "length (remdups_adj (sort (tn_out n))) = card (set (tn_out n))"
    using distinct_card [OF sorted_distinct_compact [of "sort (tn_out n)"]] by simp
  then show ?case using 2 by (auto simp: Let_def)
qed simp

lemma fill_outputs_length:
  "fill_outputs ns starts ids = Some (st, out) \<Longrightarrow> length out = length ids + sum_list (map (\<lambda>n. card (set (tn_out n))) ns)"
proof (induction ns starts ids rule: fill_outputs.induct)
  case (2 n ns starts ids)
  have "length (remdups_adj (sort (tn_out n))) = card (set (tn_out n))"
    using distinct_card [OF sorted_distinct_compact [of "sort (tn_out n)"]] by simp
  then show ?case using 2 by (auto simp: Let_def split: if_splits)
qed simp

text \<open>The states, the classes and the outputs of the automaton that is built are those of the keywords.\<close>

lemma dfa_size:
  assumes "length ids = length kws"
  shows "\<exists>l. link_trie (build_trie (assign_classes kws) kws ids) (keyword_classes kws) = Some l \<and>
    length (build_trie (assign_classes kws) kws ids) = length (keyword_states kws) \<and>
    length (lk_nodes l) = length (keyword_states kws) \<and>
    sum_list (map (\<lambda>n. card (set (tn_out n))) (lk_nodes l)) = keyword_outputs kws ids \<and>
    distinct (lk_queue l) \<and> set (lk_queue l) = {1..<length (keyword_states kws)}"
proof -
  let ?m = "assign_classes kws" and ?g = "\<lambda>nodes ws w. card (ends_of nodes ws w)"
  define nodes where "nodes = build_trie ?m kws ids"
  obtain ws where ws: "trie_holds ?m (zip kws ids) nodes ws" using build_trie_holds unfolding nodes_def by blast
  then have ok: "trie_ok nodes ws" by (simp add: trie_holds_def)
  note root = trie_ok_root [OF ok]
  have "\<forall>w \<in> set ws. \<forall>c \<in> set w. c < cm_count ?m"
    using ws assign_classes_ok [of kws] unfolding trie_holds_def classes_ok_def by fastforce
  from link_trie_ok [OF ok this] obtain l where l: "link_trie nodes (cm_count ?m) = Some l" "length (lk_nodes l) = length nodes"
    "\<forall>s < length ws. set (tn_out (lk_nodes l ! s)) = ends_of nodes ws (ws ! s)"
    "distinct (lk_queue l)" "set (lk_queue l) = {1..<length nodes}" by blast
  note st = states_of_trie [OF ws assms]
  have d: "distinct (keyword_states kws)" by (simp add: keyword_states_def)
  have "length ws = card (set (keyword_states kws))"
    using distinct_card [OF root(4)] card_image [OF st(2)] st(1) by metis
  then have len: "length nodes = length (keyword_states kws)" using root(3) distinct_card [OF d] by simp
  have "sum_list (map (\<lambda>n. card (set (tn_out n))) (lk_nodes l)) = sum_list (map (?g nodes ws) ws)"
    by (rule arg_cong [of _ _ sum_list]) (rule nth_equalityI, use l(2,3) root(3) in simp_all)
  also have "\<dots> = (\<Sum>w \<in> set ws. ?g nodes ws w)" using root(4) by (rule sum_list_distinct_conv_sum_set)
  also have "\<dots> = (\<Sum>u \<in> set (keyword_states kws). ?g nodes ws (word_of ?m u))"
    unfolding st(1) by (simp add: sum.reindex [OF st(2)])
  also have "\<dots> = keyword_outputs kws ids"
    unfolding keyword_outputs_def ends_of_found [OF refl ws] by (simp add: sum_list_distinct_conv_sum_set [OF d])
  finally show ?thesis using l len unfolding nodes_def class_count by auto
qed

text \<open>
  Claim C28.
  Building an automaton ends, with an error exactly when a bound is passed, and the error names it: the
  bytes of the keywords, the cells of the table (a state for every beginning of a lowered keyword, a
  class for every byte of one), or the ids at all states together. Else the automaton has exactly
  those cells and ids. The loop over the queue of states that are being linked visits every state
  except the root exactly once.
\<close>

theorem build_dfa_ends:
  assumes "length ids = length kws"
  shows "(let total = sum_list (map length kws); states = length (keyword_states kws); classes = keyword_classes kws in
     if maxDFACells < total then build_dfa kws ids = Inl (TooManyKeywordBytes total)
     else if maxDFACells < states * classes then build_dfa kws ids = Inl (TooManyCells states classes)
     else if maxDFACells < keyword_outputs kws ids then build_dfa kws ids = Inl TooManyOutputs
     else \<exists>d. build_dfa kws ids = Inr d \<and> length (df_trans d) = states * classes \<and> length (df_outIDs d) = keyword_outputs kws ids)
   \<and> (\<exists>l. link_trie (build_trie (assign_classes kws) kws ids) (keyword_classes kws) = Some l \<and>
       distinct (lk_queue l) \<and> set (lk_queue l) = {1..<length (keyword_states kws)})"
proof -
  obtain l where l: "link_trie (build_trie (assign_classes kws) kws ids) (keyword_classes kws) = Some l"
    "length (build_trie (assign_classes kws) kws ids) = length (keyword_states kws)"
    "length (lk_nodes l) = length (keyword_states kws)"
    "sum_list (map (\<lambda>n. card (set (tn_out n))) (lk_nodes l)) = keyword_outputs kws ids"
    "distinct (lk_queue l)" "set (lk_queue l) = {1..<length (keyword_states kws)}"
    using dfa_size [OF assms] by blast
  have none: "fill_tables (assign_classes kws) l = None \<longleftrightarrow> maxDFACells < keyword_outputs kws ids"
    using fill_outputs_None [of "[]" "lk_nodes l" "[0]"] l(4)
    by (cases "fill_outputs (lk_nodes l) [0] []") (auto simp: fill_tables_def)
  have some: "length (df_trans d) = length (keyword_states kws) * keyword_classes kws \<and> length (df_outIDs d) = keyword_outputs kws ids"
    if "fill_tables (assign_classes kws) l = Some d" for d
    using that fill_outputs_length [of "lk_nodes l" "[0]" "[]"] l(3,4)
    by (auto simp: fill_tables_def class_count split: option.splits)
  have build: "build_dfa kws ids =
    (if maxDFACells < sum_list (map length kws) then Inl (TooManyKeywordBytes (sum_list (map length kws)))
     else if maxDFACells < length (keyword_states kws) * keyword_classes kws
     then Inl (TooManyCells (length (keyword_states kws)) (keyword_classes kws))
     else case fill_tables (assign_classes kws) l of None \<Rightarrow> Inl TooManyOutputs | Some d \<Rightarrow> Inr d)"
    by (simp only: build_dfa_def Let_def class_count l(1,2) option.case)
  show ?thesis
    using l(1,5,6) none some
    by (cases "fill_tables (assign_classes kws) l") (simp_all add: build Let_def)
qed

theorem build_dfa_ends_witness:
  "\<exists>d. build_dfa [[101, 114, 114], [114]] [[0, 2], [1]] = Inr d \<and> length (df_trans d) = 15 \<and> length (df_outIDs d) = 5"
proof -
  have states: "keyword_states [[101, 114, 114], [114]] = [[101], [101, 114], [101, 114, 114], [], [114]]"
    and classes: "keyword_classes [[101, 114, 114], [114]] = 3"
    by (simp_all add: keyword_states_def keyword_classes_def ascii_lower_def)
  have "keyword_outputs [[101, 114, 114], [114]] [[0, 2], [1]] = 5"
    unfolding keyword_outputs_def states by (simp add: found_ids_def ascii_lower_def suffix_Cons)
  then show ?thesis
    using build_dfa_ends [of "[[0, 2], [1]]" "[[101, 114, 114], [114]]"] states classes by (simp add: maxDFACells_def)
qed

section \<open>Building succeeds\<close>

lemma insert_path_length: "length (snd (insert_path m k s nodes)) \<le> length nodes + length k"
proof (induction m k s nodes rule: insert_path.induct)
  case (2 m b k s nodes)
  show ?case
  proof (cases "child_of nodes s (cm_of m (ascii_lower b))")
    case None
    then show ?thesis using "2.IH"(1) [OF refl None refl] by (simp add: Let_def)
  next
    case (Some child)
    then show ?thesis using "2.IH"(2) [OF refl Some] by (simp add: Let_def)
  qed
qed simp

lemma build_trie_length:
  "length (build_trie m kws ids) \<le> sum_list (map length kws) + 1"
proof -
  have one: "length (add_keyword m ki nodes) \<le> length nodes + length (fst ki)" for ki nodes
    using insert_path_length [of m "fst ki" 0 nodes] by (cases "insert_path m (fst ki) 0 nodes") (simp add: add_keyword_def)
  have "length (fold (add_keyword m) K nodes) \<le> length nodes + sum_list (map (\<lambda>ki. length (fst ki)) K)" for K nodes
  proof (induction K arbitrary: nodes)
    case (Cons ki K)
    show ?case using Cons.IH [of "add_keyword m ki nodes"] one [of ki nodes] by simp
  qed simp
  note grow = this [of "zip kws ids" "[new_node]"]
  have "sum_list (map (\<lambda>ki. length (fst ki)) (zip kws ids)) \<le> sum_list (map length kws)"
    by (induction kws ids rule: list_induct2') simp_all
  then show ?thesis using grow unfolding build_trie_def by simp
qed

lemma fill_outputs_fits:
  assumes "\<forall>n \<in> set ns. length (remdups_adj (sort (tn_out n))) \<le> b" and "length ids + length ns * b \<le> maxDFACells"
  shows "fill_outputs ns starts ids \<noteq> None"
  using assms by (induction ns starts ids rule: fill_outputs.induct) (auto simp: Let_def)

text \<open>
  A selection whose keywords and ids are few enough is never refused: the bounds are far from those of an
  ordinary catalogue.
\<close>

lemma build_dfa_small:
  assumes "(sum_list (map length kws) + 1) * 257 \<le> maxDFACells"
    and "(sum_list (map length kws) + 1) * card (set (concat ids)) \<le> maxDFACells"
  shows "\<exists>d. build_dfa kws ids = Inr d"
proof -
  let ?m = "assign_classes kws"
  let ?nodes = "build_trie ?m kws ids"
  let ?t = "sum_list (map length kws)"
  note len = build_trie_length [of ?m kws ids]
  note cls = assign_classes_ok [of kws]
  have "card {b. cm_of ?m b \<noteq> 0} \<le> card (UNIV :: byte set)" by (rule card_mono) simp_all
  then have "card {b. cm_of ?m b \<noteq> 0} \<le> 256" by (simp add: card_word)
  then have "cm_count ?m \<le> 257" using cls unfolding classes_ok_def by linarith
  then have cells: "length ?nodes * cm_count ?m \<le> maxDFACells" using len assms(1) by (meson le_trans mult_le_mono)
  have bytes: "?t \<le> maxDFACells" using assms(1) by simp
  obtain ws where ws: "trie_holds ?m (zip kws ids) ?nodes ws" using build_trie_holds by blast
  then have ok: "trie_ok ?nodes ws" by (simp add: trie_holds_def)
  have classes: "\<forall>w \<in> set ws. \<forall>c \<in> set w. c < cm_count ?m"
    using ws cls unfolding trie_holds_def classes_ok_def by fastforce
  obtain l where l: "link_trie ?nodes (cm_count ?m) = Some l" "length (lk_nodes l) = length ?nodes"
    "\<forall>s < length ws. set (tn_out (lk_nodes l ! s)) = ends_of ?nodes ws (ws ! s)"
    using link_trie_ok [OF ok classes] by blast
  note root = trie_ok_root [OF ok]
  have "set (tn_out (?nodes ! s)) \<subseteq> set (concat ids)" if "s < length ws" for s
    
  proof -
    have eq: "set (tn_out (?nodes ! s)) = (\<Union>ki \<in> set (zip kws ids). if word_of ?m (fst ki) = ws ! s then set (snd ki) else {})"
      using ws that unfolding trie_holds_def by blast
    show ?thesis unfolding eq
    proof (intro UN_least)
      fix ki assume "ki \<in> set (zip kws ids)"
      then have "snd ki \<in> set ids" by (metis prod.collapse set_zip_rightD)
      then show "(if word_of ?m (fst ki) = ws ! s then set (snd ki) else {}) \<subseteq> set (concat ids)" by auto
    qed
  qed
  then have "ends_of ?nodes ws w \<subseteq> set (concat ids)" for w unfolding ends_of_def by blast
  then have sub: "set (tn_out (lk_nodes l ! s)) \<subseteq> set (concat ids)" if "s < length ws" for s
    using l(3) that by simp
  have out: "length (remdups_adj (sort (tn_out n))) \<le> card (set (concat ids))" if n: "n \<in> set (lk_nodes l)" for n
  proof -
    obtain s where s: "s < length (lk_nodes l)" "n = lk_nodes l ! s" using n unfolding in_set_conv_nth by blast
    have "set (tn_out n) \<subseteq> set (concat ids)" unfolding s(2) by (rule sub) (use s(1) l(2) root(3) in simp)
    moreover have "length (remdups_adj (sort (tn_out n))) = card (set (tn_out n))"
      using distinct_card [OF sorted_distinct_compact [of "sort (tn_out n)"]] by simp
    ultimately show ?thesis using card_mono [OF finite_set] by metis
  qed
  have "length (lk_nodes l) * card (set (concat ids)) \<le> maxDFACells"
    using len assms(2) unfolding l(2) by (meson le_trans mult_le_mono1)
  then have "fill_outputs (lk_nodes l) [0] [] \<noteq> None" using out by (intro fill_outputs_fits) auto
  then obtain st where "fill_outputs (lk_nodes l) [0] [] = Some st" by blast
  then obtain d where "fill_tables ?m l = Some d" by (cases st) (simp add: fill_tables_def)
  then have "build_dfa kws ids = Inr d"
    using bytes cells l(1) by (simp add: build_dfa_def Let_def)
  then show ?thesis ..
qed

end
