(* ===== verification/Gate.thy ===== *)
theory Gate
  imports KeywordDfa
begin

text \<open>
  The keyword gate of a scan, \<^verbatim>\<open>internal/sigscan/gate.go\<close>: which signatures may be tested on a
  line. A signature is its list of clauses, a clause the list of its members. The theorem says what
  the counters and their stamps compute: a signature passes exactly when it has no clause, or the line holds
  a fold letter, or every clause has a member on the line.
\<close>

section \<open>Building the gate\<close>

record gate =
  ga_dfa :: "keyword_dfa option"
  ga_clauseSig :: "nat list"
  ga_need :: "nat list"
  ga_gated :: "nat list"

definition foldLetters :: "bytes list" where
  "foldLetters = [[0xE2, 0x84, 0xAA], [0xC5, 0xBF]]"

definition foldID :: int where "foldID = - 1"

record gate_build =
  gb_clauseSig :: "nat list"
  gb_need :: "nat list"
  gb_gated :: "nat list"
  gb_keywords :: "bytes list"
  gb_keywordIDs :: "(bytes, int list) gomap"

definition add_member :: "int \<Rightarrow> bytes \<Rightarrow> gate_build \<Rightarrow> gate_build" where
  "add_member i member g =
     (let seen = map_of (gb_keywordIDs g) member
      in g\<lparr>gb_keywords := (if seen = None then gb_keywords g @ [member] else gb_keywords g),
           gb_keywordIDs := AList.update member (case_option [] id seen @ [i]) (gb_keywordIDs g)\<rparr>)"

definition add_clause :: "nat \<Rightarrow> bytes list \<Rightarrow> gate_build \<Rightarrow> gate_build" where
  "add_clause si clause g =
     fold (add_member (int (length (gb_clauseSig g)))) clause (g\<lparr>gb_clauseSig := gb_clauseSig g @ [si]\<rparr>)"

definition add_signature :: "nat \<times> bytes list list \<Rightarrow> gate_build \<Rightarrow> gate_build" where
  "add_signature sc g =
     (case sc of (si, clauses) \<Rightarrow>
        fold (add_clause si) clauses
          (g\<lparr>gb_need := gb_need g @ [length clauses], gb_gated := gb_gated g @ (if clauses = [] then [] else [si])\<rparr>))"

definition new_gate :: "bytes list list list \<Rightarrow> dfa_error + gate" where
  "new_gate sigs =
     (let g = fold add_signature (enumerate 0 sigs)
                \<lparr>gb_clauseSig = [], gb_need = [], gb_gated = [], gb_keywords = [], gb_keywordIDs = []\<rparr>;
          built = (\<lambda>d. Inr \<lparr>ga_dfa = d, ga_clauseSig = gb_clauseSig g, ga_need = gb_need g, ga_gated = gb_gated g\<rparr>)
      in if gb_gated g = [] then built None
         else let h = fold (add_member foldID) foldLetters g
              in case build_dfa (gb_keywords h)
                   (map (\<lambda>k. remdups_adj (the (map_of (gb_keywordIDs h) k))) (gb_keywords h)) of
                   Inl e \<Rightarrow> Inl e
                 | Inr d \<Rightarrow> built (Some d))"

section \<open>Evaluating a line\<close>

record gate_scratch =
  gs_gen :: "32 word"
  gs_clauseStamp :: "32 word list"
  gs_sigStamp :: "32 word list"
  gs_sigHits :: "nat list"
  gs_foldGen :: "32 word"
  gs_passed :: "nat list"

definition new_scratch :: "gate \<Rightarrow> gate_scratch" where
  "new_scratch g =
     \<lparr>gs_gen = 0, gs_clauseStamp = replicate (length (ga_clauseSig g)) 0, gs_sigStamp = replicate (length (ga_need g)) 0,
      gs_sigHits = replicate (length (ga_need g)) 0, gs_foldGen = 0, gs_passed = []\<rparr>"

definition count_clause :: "gate \<Rightarrow> nat \<Rightarrow> gate_scratch \<Rightarrow> gate_scratch" where
  "count_clause g c s =
     (if gs_clauseStamp s ! c = gs_gen s then s
      else let s1 = s\<lparr>gs_clauseStamp := (gs_clauseStamp s)[c := gs_gen s]\<rparr>;
               sig = ga_clauseSig g ! c;
               s2 = (if gs_sigStamp s1 ! sig \<noteq> gs_gen s1
                     then s1\<lparr>gs_sigStamp := (gs_sigStamp s1)[sig := gs_gen s1], gs_sigHits := (gs_sigHits s1)[sig := 0]\<rparr>
                     else s1);
               s3 = s2\<lparr>gs_sigHits := (gs_sigHits s2)[sig := gs_sigHits s2 ! sig + 1]\<rparr>
           in if gs_sigHits s3 ! sig = ga_need g ! sig then s3\<lparr>gs_passed := gs_passed s3 @ [sig]\<rparr> else s3)"

fun count_clauses :: "gate \<Rightarrow> int list \<Rightarrow> gate_scratch \<Rightarrow> bool \<times> gate_scratch" where
  "count_clauses g [] s = (False, s)"
| "count_clauses g (clause # out) s =
     (if clause = foldID then (True, s\<lparr>gs_foldGen := gs_gen s, gs_passed := ga_gated g\<rparr>)
      else count_clauses g out (count_clause g (nat clause) s))"

fun evaluate_bytes :: "gate \<Rightarrow> keyword_dfa \<Rightarrow> bytes \<Rightarrow> nat \<Rightarrow> nat \<Rightarrow> gate_scratch \<Rightarrow> gate_scratch" where
  "evaluate_bytes g d [] row lastHit s = s"
| "evaluate_bytes g d (b # view) row lastHit s =
     (let v = df_trans d ! (row + df_class d b); row' = v div 2
      in if even v \<or> row' = lastHit then evaluate_bytes g d view row' lastHit s
         else case count_clauses g (output_of_row d row') s of
                (True, s') \<Rightarrow> s'
              | (False, s') \<Rightarrow> evaluate_bytes g d view row' row' s')"

definition start_line :: "gate_scratch \<Rightarrow> gate_scratch" where
  "start_line s =
     (let s1 = s\<lparr>gs_passed := [], gs_gen := gs_gen s + 1\<rparr>
      in if gs_gen s1 = 0
         then s1\<lparr>gs_clauseStamp := map (\<lambda>_. 0) (gs_clauseStamp s1), gs_sigStamp := map (\<lambda>_. 0) (gs_sigStamp s1),
                 gs_foldGen := 0, gs_gen := 1\<rparr>
         else s1)"

definition evaluate :: "gate \<Rightarrow> bytes \<Rightarrow> gate_scratch \<Rightarrow> gate_scratch" where
  "evaluate g view s =
     (case ga_dfa g of
        None \<Rightarrow> start_line s
      | Some d \<Rightarrow> evaluate_bytes g d view 0 (2 ^ 32 - 1) (start_line s))"

definition passes :: "gate \<Rightarrow> nat \<Rightarrow> gate_scratch \<Rightarrow> bool" where
  "passes g sig s \<longleftrightarrow>
     (let need = ga_need g ! sig
      in need = 0 \<or> gs_foldGen s = gs_gen s \<or> (gs_sigStamp s ! sig = gs_gen s \<and> gs_sigHits s ! sig = need))"

section \<open>What a built gate holds\<close>

text \<open>Clauses are numbered through the signatures; \<open>owner\<close> says whose clause each is.\<close>

definition owners :: "bytes list list list \<Rightarrow> nat list" where
  "owners sigs = concat (map (\<lambda>(si, clauses). replicate (length clauses) si) (enumerate 0 sigs))"

definition built_ok :: "(nat \<times> bytes list list) list \<Rightarrow> gate_build \<Rightarrow> bool" where
  "built_ok scs g \<longleftrightarrow>
     gb_clauseSig g = concat (map (\<lambda>(si, clauses). replicate (length clauses) si) scs) \<and>
     gb_need g = map (\<lambda>sc. length (snd sc)) scs \<and>
     gb_gated g = map fst (filter (\<lambda>sc. snd sc \<noteq> []) scs)"

definition ids_of :: "gate_build \<Rightarrow> bytes \<Rightarrow> int set" where
  "ids_of g k = set (case_option [] id (map_of (gb_keywordIDs g) k))"

definition keywords_ok :: "gate_build \<Rightarrow> bool" where
  "keywords_ok g \<longleftrightarrow> distinct (gb_keywords g) \<and> set (gb_keywords g) = dom (map_of (gb_keywordIDs g))"

lemma add_member_ok:
  assumes "keywords_ok g"
  shows "keywords_ok (add_member i member g)"
    and "ids_of (add_member i member g) k = (if k = member then insert i (ids_of g k) else ids_of g k)"
    and "gb_clauseSig (add_member i member g) = gb_clauseSig g" and "gb_need (add_member i member g) = gb_need g"
    and "gb_gated (add_member i member g) = gb_gated g"
  using assms
  by (auto simp: keywords_ok_def add_member_def Let_def ids_of_def gomap_simps dom_def split: option.splits)

lemma add_members_ok:
  "keywords_ok g \<Longrightarrow> keywords_ok (fold (add_member i) ms g) \<and>
     (\<forall>k. ids_of (fold (add_member i) ms g) k = ids_of g k \<union> (if k \<in> set ms then {i} else {})) \<and>
     gb_clauseSig (fold (add_member i) ms g) = gb_clauseSig g \<and> gb_need (fold (add_member i) ms g) = gb_need g \<and>
     gb_gated (fold (add_member i) ms g) = gb_gated g"
proof (induction ms arbitrary: g)
  case (Cons m ms)
  from Cons.IH [OF add_member_ok(1) [OF Cons.prems, of i m]] show ?case
    using add_member_ok(2-5) [OF Cons.prems] by auto
qed simp

text \<open>The clauses added so far are \<open>cs\<close>, in order.\<close>

definition clauses_ok :: "bytes list list \<Rightarrow> gate_build \<Rightarrow> bool" where
  "clauses_ok cs g \<longleftrightarrow> keywords_ok g \<and> length (gb_clauseSig g) = length cs \<and>
     (\<forall>k. ids_of g k = {int c |c. c < length cs \<and> k \<in> set (cs ! c)})"

lemma add_clause_ok:
  assumes "clauses_ok cs g"
  shows "clauses_ok (cs @ [cl]) (add_clause si cl g)"
    and "gb_clauseSig (add_clause si cl g) = gb_clauseSig g @ [si]"
    and "gb_need (add_clause si cl g) = gb_need g" and "gb_gated (add_clause si cl g) = gb_gated g"
proof -
  let ?g = "g\<lparr>gb_clauseSig := gb_clauseSig g @ [si]\<rparr>"
  have ok: "keywords_ok ?g" using assms by (simp add: clauses_ok_def keywords_ok_def)
  have ids: "ids_of ?g k = ids_of g k" for k by (simp add: ids_of_def)
  note add = add_members_ok [OF ok, of "int (length (gb_clauseSig g))" cl, folded add_clause_def]
  show "gb_clauseSig (add_clause si cl g) = gb_clauseSig g @ [si]" "gb_need (add_clause si cl g) = gb_need g"
    "gb_gated (add_clause si cl g) = gb_gated g" using add by simp_all
  show "clauses_ok (cs @ [cl]) (add_clause si cl g)"
    using add assms unfolding clauses_ok_def ids by (auto simp: nth_append less_Suc_eq)
qed

lemma add_clauses_ok:
  "clauses_ok cs g \<Longrightarrow> clauses_ok (cs @ cls) (fold (add_clause si) cls g) \<and>
     gb_clauseSig (fold (add_clause si) cls g) = gb_clauseSig g @ replicate (length cls) si \<and>
     gb_need (fold (add_clause si) cls g) = gb_need g \<and> gb_gated (fold (add_clause si) cls g) = gb_gated g"
proof (induction cls arbitrary: cs g)
  case (Cons cl cls)
  from Cons.IH [OF add_clause_ok(1) [OF Cons.prems]] show ?case
    using add_clause_ok(2-4) [OF Cons.prems] by simp
qed simp

lemma add_signatures_ok:
  "clauses_ok cs g \<Longrightarrow> built_ok old g \<Longrightarrow>
     clauses_ok (cs @ concat (map snd scs)) (fold add_signature scs g) \<and> built_ok (old @ scs) (fold add_signature scs g)"
  for old scs
proof (induction scs arbitrary: cs "old" g)
  case (Cons sc scs)
  obtain si cls where sc: "sc = (si, cls)" by force
  let ?g = "g\<lparr>gb_need := gb_need g @ [length cls], gb_gated := gb_gated g @ (if cls = [] then [] else [si])\<rparr>"
  have "clauses_ok cs ?g" using Cons.prems(1) by (simp add: clauses_ok_def keywords_ok_def ids_of_def)
  note add = add_clauses_ok [OF this, of cls si]
  have eq: "add_signature sc g = fold (add_clause si) cls ?g" by (simp add: add_signature_def sc)
  have c: "clauses_ok (cs @ cls) (add_signature sc g)" unfolding eq using add by blast
  have b: "built_ok (old @ [sc]) (add_signature sc g)"
    unfolding eq built_ok_def using add Cons.prems(2) by (simp add: built_ok_def sc)
  from Cons.IH [OF c b] show ?case by (simp add: sc)
qed simp

lemma owners_snoc: "owners (sigs @ [cls]) = owners sigs @ replicate (length cls) (length sigs)"
  by (simp add: owners_def enumerate_append_eq)

lemma owners_length: "length (owners sigs) = length (concat sigs)"
  by (induction sigs rule: rev_induct) (simp_all add: owners_snoc, simp add: owners_def)

lemma owners_less: "c < length (concat sigs) \<Longrightarrow> owners sigs ! c < length sigs"
proof (induction sigs rule: rev_induct)
  case (snoc cls sigs)
  then show ?case using owners_length [of sigs] by (cases "c < length (concat sigs)") (auto simp: owners_snoc nth_append less_Suc_eq)
qed simp

text \<open>The clauses of a signature, by number, are the clauses it declares.\<close>

lemma owners_clauses:
  "si < length sigs \<Longrightarrow>
    map ((!) (concat sigs)) (filter (\<lambda>c. owners sigs ! c = si) [0..<length (concat sigs)]) = sigs ! si"
proof (induction sigs rule: rev_induct)
  case (snoc cls sigs)
  let ?N = "length (concat sigs)"
  have len: "length (owners sigs) = ?N" by (rule owners_length)
  have split: "[0..<length (concat (sigs @ [cls]))] = [0..<?N] @ map (\<lambda>i. ?N + i) [0..<length cls]"
  proof -
    have "map (\<lambda>i. i + ?N) [0..<length cls] = [?N..<length cls + ?N]" by (rule map_add_upt)
    moreover have "[0..<?N + length cls] = [0..<?N] @ [?N..<?N + length cls]" by (rule upt_add_eq_append) simp
    ultimately show ?thesis by (simp only: concat_append length_append concat.simps append_Nil2 add.commute)
  qed
  have low: "filter (\<lambda>c. owners (sigs @ [cls]) ! c = si) [0..<?N] = filter (\<lambda>c. owners sigs ! c = si) [0..<?N]"
    by (rule filter_cong) (simp_all add: owners_snoc nth_append len)
  have low_map: "map ((!) (concat (sigs @ [cls]))) (filter (\<lambda>c. owners sigs ! c = si) [0..<?N]) =
      map ((!) (concat sigs)) (filter (\<lambda>c. owners sigs ! c = si) [0..<?N])"
    by (rule map_cong) (auto simp: nth_append)
  have high: "owners (sigs @ [cls]) ! (?N + i) = length sigs" "concat (sigs @ [cls]) ! (?N + i) = cls ! i" if "i < length cls" for i
    using that by (simp_all add: owners_snoc nth_append len)
  show ?case
  proof (cases "si = length sigs")
    case True
    have "filter (\<lambda>c. owners sigs ! c = si) [0..<?N] = []"
      using owners_less [of _ sigs] True by (fastforce simp: filter_empty_conv)
    moreover have "filter (\<lambda>c. owners (sigs @ [cls]) ! c = si) (map (\<lambda>i. ?N + i) [0..<length cls]) = map (\<lambda>i. ?N + i) [0..<length cls]"
      unfolding filter_map comp_def using high(1) True by simp
    moreover have "map ((!) (concat (sigs @ [cls]))) (map (\<lambda>i. ?N + i) [0..<length cls]) = cls"
      using high(2) by (auto intro!: nth_equalityI)
    ultimately show ?thesis using True unfolding split filter_append low by simp
  next
    case False
    then have si: "si < length sigs" using snoc.prems by simp
    have "filter (\<lambda>c. owners (sigs @ [cls]) ! c = si) (map (\<lambda>i. ?N + i) [0..<length cls]) = []"
      unfolding filter_map comp_def using high(1) False by simp
    then show ?thesis unfolding split filter_append low map_append low_map snoc.IH [OF si] using si by (simp add: nth_append)
  qed
qed simp

definition clauses_of :: "bytes list list list \<Rightarrow> nat \<Rightarrow> nat set" where
  "clauses_of sigs si = {c. c < length (concat sigs) \<and> owners sigs ! c = si}"

lemma clauses_of_set:
  assumes "si < length sigs"
  shows "(!) (concat sigs) ` clauses_of sigs si = set (sigs ! si)" and "card (clauses_of sigs si) = length (sigs ! si)"
    and "finite (clauses_of sigs si)"
proof -
  have eq: "clauses_of sigs si = set (filter (\<lambda>c. owners sigs ! c = si) [0..<length (concat sigs)])"
    by (auto simp: clauses_of_def)
  show "(!) (concat sigs) ` clauses_of sigs si = set (sigs ! si)"
    unfolding eq set_map [symmetric] owners_clauses [OF assms] by (rule refl)
  have "length (sigs ! si) = length (filter (\<lambda>c. owners sigs ! c = si) [0..<length (concat sigs)])"
    using owners_clauses [OF assms] by (metis length_map)
  then show "card (clauses_of sigs si) = length (sigs ! si)" unfolding eq by (subst distinct_card) simp_all
  show "finite (clauses_of sigs si)" unfolding eq by simp
qed

text \<open>A keyword ends at the end of the bytes, without ASCII case.\<close>

definition ends_at :: "bytes \<Rightarrow> bytes \<Rightarrow> bool" where
  "ends_at k view \<longleftrightarrow> suffix (map ascii_lower k) (map ascii_lower view)"

definition ids_at :: "bytes list list list \<Rightarrow> bytes \<Rightarrow> int set" where
  "ids_at sigs view =
     {int c |c. c < length (concat sigs) \<and> (\<exists>k \<in> set (concat sigs ! c). ends_at k view)} \<union>
     (if \<exists>k \<in> set foldLetters. ends_at k view then {foldID} else {})"

lemma found_ids_map:
  "found_ids kws (map f kws) view = (\<Union>k \<in> set kws. if ends_at k view then set (f k) else {})"
proof -
  have "zip kws (map f kws) = map (\<lambda>k. (k, f k)) kws" by (induction kws) simp_all
  then show ?thesis unfolding found_ids_def ends_at_def by auto
qed

lemma new_gate_ok:
  assumes "new_gate sigs = Inr g"
  shows "ga_need g = map length sigs" and "ga_gated g = filter (\<lambda>si. sigs ! si \<noteq> []) [0..<length sigs]"
    and "ga_clauseSig g = owners sigs"
    and "case ga_dfa g of
        None \<Rightarrow> \<forall>si < length sigs. sigs ! si = []
      | Some d \<Rightarrow> \<exists>kws ids. build_dfa kws ids = Inr d \<and> (\<forall>view. found_ids kws ids view = ids_at sigs view)"
proof -
  let ?g0 = "\<lparr>gb_clauseSig = [], gb_need = [], gb_gated = [], gb_keywords = [], gb_keywordIDs = []\<rparr> :: gate_build"
  define b where "b = fold add_signature (enumerate 0 sigs) ?g0"
  define h where "h = fold (add_member foldID) foldLetters b"
  have "clauses_ok [] ?g0" "built_ok [] ?g0"
    by (simp_all add: clauses_ok_def keywords_ok_def ids_of_def built_ok_def)
  from add_signatures_ok [OF this, of "enumerate 0 sigs", folded b_def]
  have c: "clauses_ok (concat sigs) b" and bo: "built_ok (enumerate 0 sigs) b" by simp_all
  have need: "gb_need b = map length sigs"
  proof -
    have "map (\<lambda>sc. length (snd sc)) (enumerate 0 sigs) = map length (map snd (enumerate 0 sigs))"
      unfolding map_map comp_def by (rule refl)
    then show ?thesis using bo unfolding built_ok_def map_snd_enumerate by simp
  qed
  have gated: "gb_gated b = filter (\<lambda>si. sigs ! si \<noteq> []) [0..<length sigs]"
  proof -
    have "enumerate 0 sigs = map (\<lambda>si. (si, sigs ! si)) [0..<length sigs]"
      by (intro nth_equalityI) (simp_all add: nth_enumerate_eq)
    then show ?thesis using bo by (simp add: built_ok_def filter_map comp_def)
  qed
  have owner: "gb_clauseSig b = owners sigs" using bo by (simp add: built_ok_def owners_def)
  have g: "ga_need g = gb_need b \<and> ga_gated g = gb_gated b \<and> ga_clauseSig g = gb_clauseSig b \<and>
      (if gb_gated b = [] then ga_dfa g = None
       else \<exists>d. ga_dfa g = Some d \<and> build_dfa (gb_keywords h)
              (map (\<lambda>k. remdups_adj (the (map_of (gb_keywordIDs h) k))) (gb_keywords h)) = Inr d)"
    using assms unfolding new_gate_def b_def [symmetric] h_def [symmetric] Let_def
    by (auto split: if_splits sum.splits)
  show "ga_need g = map length sigs" "ga_gated g = filter (\<lambda>si. sigs ! si \<noteq> []) [0..<length sigs]" "ga_clauseSig g = owners sigs"
    using g need gated owner by simp_all
  have "keywords_ok b" using c by (simp add: clauses_ok_def)
  from add_members_ok [OF this, of foldID foldLetters, folded h_def]
  have h: "keywords_ok h" "\<And>k. ids_of h k = ids_of b k \<union> (if k \<in> set foldLetters then {foldID} else {})" by blast+
  have ids: "set (remdups_adj (the (map_of (gb_keywordIDs h) k))) = ids_of h k" if "k \<in> set (gb_keywords h)" for k
    using h(1) that by (auto simp: keywords_ok_def ids_of_def)
  have none: "ids_of h k = {}" if "k \<notin> set (gb_keywords h)" for k
    using h(1) that by (auto simp: keywords_ok_def ids_of_def domIff)
  have found: "found_ids (gb_keywords h) (map (\<lambda>k. remdups_adj (the (map_of (gb_keywordIDs h) k))) (gb_keywords h)) view = ids_at sigs view"
    for view
  proof -
    have "found_ids (gb_keywords h) (map (\<lambda>k. remdups_adj (the (map_of (gb_keywordIDs h) k))) (gb_keywords h)) view =
        (\<Union>k \<in> {k. ends_at k view}. ids_of h k)"
      unfolding found_ids_map
    proof (intro set_eqI iffI)
      fix i assume "i \<in> (\<Union>k \<in> set (gb_keywords h). if ends_at k view then set (remdups_adj (the (map_of (gb_keywordIDs h) k))) else {})"
      then show "i \<in> (\<Union>k \<in> {k. ends_at k view}. ids_of h k)" using ids by (auto split: if_splits)
    next
      fix i assume "i \<in> (\<Union>k \<in> {k. ends_at k view}. ids_of h k)"
      then obtain k where k: "ends_at k view" "i \<in> ids_of h k" by blast
      then have "k \<in> set (gb_keywords h)" using none by blast
      then show "i \<in> (\<Union>k \<in> set (gb_keywords h). if ends_at k view then set (remdups_adj (the (map_of (gb_keywordIDs h) k))) else {})"
        using k ids [of k] by auto
    qed
    also have "\<dots> = ids_at sigs view"
      using c unfolding h(2) ids_at_def clauses_ok_def by (auto split: if_splits)
    finally show ?thesis .
  qed
  show "case ga_dfa g of
        None \<Rightarrow> \<forall>si < length sigs. sigs ! si = []
      | Some d \<Rightarrow> \<exists>kws ids. build_dfa kws ids = Inr d \<and> (\<forall>view. found_ids kws ids view = ids_at sigs view)"
  proof (cases "gb_gated b = []")
    case True
    then have "\<forall>si < length sigs. sigs ! si = []" unfolding gated by (simp add: filter_empty_conv)
    then show ?thesis using g True by simp
  next
    case False
    then obtain d where d: "ga_dfa g = Some d" "build_dfa (gb_keywords h)
        (map (\<lambda>k. remdups_adj (the (map_of (gb_keywordIDs h) k))) (gb_keywords h)) = Inr d" using g by auto
    show ?thesis unfolding d(1) option.case using d(2) found by blast
  qed
qed

section \<open>Counting the clauses of a line\<close>

abbreviation clause_count :: "gate \<Rightarrow> nat" where
  "clause_count g \<equiv> length (ga_clauseSig g)"

abbreviation sig_count :: "gate \<Rightarrow> nat" where
  "sig_count g \<equiv> length (ga_need g)"

definition tally :: "gate \<Rightarrow> nat set \<Rightarrow> nat \<Rightarrow> nat" where
  "tally g H si = card {c \<in> H. ga_clauseSig g ! c = si}"

definition gate_ok :: "gate \<Rightarrow> bool" where
  "gate_ok g \<longleftrightarrow> (\<forall>c < clause_count g. ga_clauseSig g ! c < sig_count g) \<and>
     (\<forall>si < sig_count g. ga_need g ! si = tally g {..<clause_count g} si) \<and>
     ga_gated g = filter (\<lambda>si. 0 < ga_need g ! si) [0..<sig_count g]"

text \<open>No counter carries a stamp of a line to come.\<close>

definition scratch_ok :: "gate \<Rightarrow> gate_scratch \<Rightarrow> bool" where
  "scratch_ok g s \<longleftrightarrow> length (gs_clauseStamp s) = clause_count g \<and> length (gs_sigStamp s) = sig_count g \<and>
     length (gs_sigHits s) = sig_count g \<and> (\<forall>t \<in> set (gs_clauseStamp s). t \<le> gs_gen s) \<and>
     (\<forall>t \<in> set (gs_sigStamp s). t \<le> gs_gen s) \<and> gs_foldGen s \<le> gs_gen s"

definition counted :: "gate \<Rightarrow> nat set \<Rightarrow> gate_scratch \<Rightarrow> bool" where
  "counted g H s \<longleftrightarrow> scratch_ok g s \<and> H \<subseteq> {..<clause_count g} \<and>
     (\<forall>c < clause_count g. gs_clauseStamp s ! c = gs_gen s \<longleftrightarrow> c \<in> H) \<and>
     (\<forall>si < sig_count g. gs_sigStamp s ! si = gs_gen s \<longleftrightarrow> 0 < tally g H si) \<and>
     (\<forall>si < sig_count g. 0 < tally g H si \<longrightarrow> gs_sigHits s ! si = tally g H si) \<and>
     gs_foldGen s \<noteq> gs_gen s \<and> distinct (gs_passed s) \<and>
     set (gs_passed s) = {si. si < sig_count g \<and> 0 < ga_need g ! si \<and> tally g H si = ga_need g ! si}"

lemma tally_insert:
  "finite H \<Longrightarrow> c \<notin> H \<Longrightarrow> tally g (insert c H) si = tally g H si + (if ga_clauseSig g ! c = si then 1 else 0)"
proof -
  assume fin: "finite H" and new: "c \<notin> H"
  have "{x \<in> insert c H. ga_clauseSig g ! x = si} =
      (if ga_clauseSig g ! c = si then insert c {x \<in> H. ga_clauseSig g ! x = si} else {x \<in> H. ga_clauseSig g ! x = si})" by auto
  then show ?thesis using fin new by (simp add: tally_def)
qed

lemma tally_mono: "finite K \<Longrightarrow> H \<subseteq> K \<Longrightarrow> tally g H si \<le> tally g K si"
  unfolding tally_def by (rule card_mono) auto

lemma word_next: "x + 1 \<noteq> 0 \<Longrightarrow> y \<le> x \<Longrightarrow> y < x + (1 :: 32 word)"
  using unatSuc [of x] by (simp add: word_less_nat_alt word_le_nat_alt add.commute)

lemma start_line_ok:
  assumes "scratch_ok g s" and "gate_ok g"
  shows "counted g {} (start_line s)"
proof (cases "gs_gen s + 1 = 0")
  case True
  then show ?thesis
    using assms(1) by (auto simp: counted_def scratch_ok_def start_line_def tally_def Let_def)
next
  case False
  have less: "t < gs_gen s + 1" if "t \<le> gs_gen s" for t using word_next [OF False that] .
  have eq: "start_line s = s\<lparr>gs_passed := [], gs_gen := gs_gen s + 1\<rparr>" using False by (simp add: start_line_def Let_def)
  have old: "length (gs_clauseStamp s) = clause_count g" "length (gs_sigStamp s) = sig_count g" "length (gs_sigHits s) = sig_count g"
    and le: "\<forall>t \<in> set (gs_clauseStamp s). t \<le> gs_gen s" "\<forall>t \<in> set (gs_sigStamp s). t \<le> gs_gen s" "gs_foldGen s \<le> gs_gen s"
    using assms(1) unfolding scratch_ok_def by blast+
  have new: "\<forall>t \<in> set (gs_clauseStamp s). t < gs_gen s + 1" "\<forall>t \<in> set (gs_sigStamp s). t < gs_gen s + 1" "gs_foldGen s < gs_gen s + 1"
    using le less by blast+
  have stamps: "gs_clauseStamp s ! c \<noteq> gs_gen s + 1" if "c < clause_count g" for c
    using new(1) old(1) that by (metis nth_mem order_less_irrefl)
  have sigs: "gs_sigStamp s ! si \<noteq> gs_gen s + 1" if "si < sig_count g" for si
    using new(2) old(2) that by (metis nth_mem order_less_irrefl)
  have ok: "scratch_ok g (start_line s)"
    unfolding eq scratch_ok_def using old new by (simp add: less_imp_le)
  show ?thesis
    using ok stamps sigs new(3) unfolding counted_def eq by (auto simp: tally_def)
qed

lemma count_clause_ok:
  assumes cnt: "counted g H s" and g: "gate_ok g" and c: "c < clause_count g"
  shows "counted g (insert c H) (count_clause g c s)" and "gs_gen (count_clause g c s) = gs_gen s"
proof -
  let ?sig = "ga_clauseSig g ! c"
  have fin: "finite H" using cnt unfolding counted_def by (metis finite_lessThan finite_subset)
  have sig: "?sig < sig_count g" using g c by (simp add: gate_ok_def)
  show "gs_gen (count_clause g c s) = gs_gen s" by (simp add: count_clause_def Let_def)
  show "counted g (insert c H) (count_clause g c s)"
  proof (cases "c \<in> H")
    case True
    then have "gs_clauseStamp s ! c = gs_gen s" using cnt c by (simp add: counted_def)
    then show ?thesis using cnt True by (simp add: count_clause_def insert_absorb)
  next
    case False
    have stamp: "gs_clauseStamp s ! c \<noteq> gs_gen s" using cnt c False by (simp add: counted_def)
    have lens: "length (gs_clauseStamp s) = clause_count g" "length (gs_sigStamp s) = sig_count g" "length (gs_sigHits s) = sig_count g"
      using cnt by (simp_all add: counted_def scratch_ok_def)
    note add = tally_insert [OF fin False, of g]
    define hits where "hits = (gs_sigHits s)[?sig := tally g H ?sig + 1]"
    define stamps where "stamps = (gs_sigStamp s)[?sig := gs_gen s]"
    have eq: "count_clause g c s =
        s\<lparr>gs_clauseStamp := (gs_clauseStamp s)[c := gs_gen s], gs_sigStamp := stamps, gs_sigHits := hits,
          gs_passed := gs_passed s @ (if tally g H ?sig + 1 = ga_need g ! ?sig then [?sig] else [])\<rparr>"
    proof (cases "0 < tally g H ?sig")
      case True
      then have "gs_sigStamp s ! ?sig = gs_gen s" "gs_sigHits s ! ?sig = tally g H ?sig" using cnt sig by (simp_all add: counted_def)
      then show ?thesis
        using stamp lens sig list_update_id [of "gs_sigStamp s" ?sig]
        by (simp add: count_clause_def Let_def hits_def stamps_def)
    next
      case False
      then have "gs_sigStamp s ! ?sig \<noteq> gs_gen s" using cnt sig by (simp add: counted_def)
      then show ?thesis
        using stamp lens sig False by (simp add: count_clause_def Let_def hits_def stamps_def)
    qed
    have ins: "insert c H \<subseteq> {..<clause_count g}" using cnt c by (simp add: counted_def)
    have le: "tally g H ?sig + 1 \<le> ga_need g ! ?sig"
      using tally_mono [OF finite_lessThan ins, of g ?sig] g sig add [of ?sig] by (simp add: gate_ok_def)
    have ok: "scratch_ok g (count_clause g c s)"
      using cnt lens unfolding eq stamps_def hits_def counted_def scratch_ok_def by (auto dest!: set_update_subset_insert [THEN subsetD])
    have a: "gs_clauseStamp (count_clause g c s) ! i = gs_gen s \<longleftrightarrow> i \<in> insert c H" if "i < clause_count g" for i
      using cnt that lens unfolding eq counted_def by (cases "i = c") simp_all
    have b: "gs_sigStamp (count_clause g c s) ! si = gs_gen s \<longleftrightarrow> 0 < tally g (insert c H) si" if "si < sig_count g" for si
      using cnt that lens add [of si] unfolding eq stamps_def counted_def by (cases "si = ?sig") simp_all
    have d: "gs_sigHits (count_clause g c s) ! si = tally g (insert c H) si" if "si < sig_count g" "0 < tally g (insert c H) si" for si
      using cnt that lens add [of si] unfolding eq hits_def counted_def by (cases "si = ?sig") simp_all
    have p: "set (gs_passed s) = {si. si < sig_count g \<and> 0 < ga_need g ! si \<and> tally g H si = ga_need g ! si}"
      "distinct (gs_passed s)" "gs_foldGen s \<noteq> gs_gen s" using cnt by (simp_all add: counted_def)
    have e: "set (gs_passed (count_clause g c s)) = {si. si < sig_count g \<and> 0 < ga_need g ! si \<and> tally g (insert c H) si = ga_need g ! si}"
      unfolding eq using p(1) add le sig by (auto split: if_splits)
    have f: "distinct (gs_passed (count_clause g c s))" unfolding eq using p(1,2) by simp
    have h: "gs_gen (count_clause g c s) = gs_gen s" "gs_foldGen (count_clause g c s) = gs_foldGen s" unfolding eq by simp_all
    show ?thesis unfolding counted_def h using ok ins a b d e f p(3) by blast
  qed
qed

text \<open>
  What the gate has seen after some ids: the counted clauses, or a fold letter, which ends the line.
\<close>

definition fold_seen :: "gate \<Rightarrow> gate_scratch \<Rightarrow> bool" where
  "fold_seen g s \<longleftrightarrow> scratch_ok g s \<and> gs_foldGen s = gs_gen s \<and> gs_passed s = ga_gated g"

lemma count_clauses_ok:
  assumes "counted g H s" and "gate_ok g" and "\<forall>i \<in> set out. i = foldID \<or> (0 \<le> i \<and> nat i < clause_count g)"
    and "count_clauses g out s = (stop, s')"
  shows "stop = (foldID \<in> set out)" and "stop \<Longrightarrow> fold_seen g s'"
    and "\<not> stop \<Longrightarrow> counted g (H \<union> nat ` set out) s'" and "gs_gen s' = gs_gen s"
proof -
  have "stop = (foldID \<in> set out) \<and> (stop \<longrightarrow> fold_seen g s') \<and> (\<not> stop \<longrightarrow> counted g (H \<union> nat ` set out) s') \<and> gs_gen s' = gs_gen s"
    using assms
  proof (induction out arbitrary: H s)
    case (Cons i out)
    show ?case
    proof (cases "i = foldID")
      case True
      then show ?thesis using Cons.prems by (auto simp: fold_seen_def counted_def scratch_ok_def)
    next
      case False
      then have i: "nat i < clause_count g" using Cons.prems(3) by auto
      note step = count_clause_ok [OF Cons.prems(1,2) i]
      have "count_clauses g out (count_clause g (nat i) s) = (stop, s')" using Cons.prems(4) False by simp
      from Cons.IH [OF step(1) Cons.prems(2) _ this] show ?thesis using Cons.prems(3) False step(2) by simp
    qed
  qed simp
  then show "stop = (foldID \<in> set out)" "stop \<Longrightarrow> fold_seen g s'" "\<not> stop \<Longrightarrow> counted g (H \<union> nat ` set out) s'" "gs_gen s' = gs_gen s"
    by blast+
qed

text \<open>The ids reported at any position of the bytes.\<close>

definition line_ids :: "(bytes \<Rightarrow> int set) \<Rightarrow> bytes \<Rightarrow> int set" where
  "line_ids f view = (\<Union>p \<in> {p. prefix p view \<and> p \<noteq> []}. f p)"

lemma line_ids_snoc: "line_ids f (view @ [b]) = line_ids f view \<union> f (view @ [b])"
proof -
  have "{p. prefix p (view @ [b]) \<and> p \<noteq> []} = insert (view @ [b]) {p. prefix p view \<and> p \<noteq> []}" by auto
  then show ?thesis unfolding line_ids_def by auto
qed

lemma line_ids_mono: "prefix u v \<Longrightarrow> line_ids f u \<subseteq> line_ids f v"
  unfolding line_ids_def by (auto intro: prefix_order.trans)

lemma evaluate_bytes_ok:
  assumes g: "gate_ok g" and d: "build_dfa kws ids = Inr d" and f: "\<forall>view. found_ids kws ids view = f view"
    and in_range: "\<forall>view. \<forall>i \<in> f view. i = foldID \<or> (0 \<le> i \<and> nat i < clause_count g)"
  shows "counted g (nat ` line_ids f before) s \<Longrightarrow> foldID \<notin> line_ids f before \<Longrightarrow>
    lastHit = 2 ^ 32 - 1 \<or> set (output_of_row d lastHit) \<subseteq> line_ids f before \<Longrightarrow>
    (if foldID \<in> line_ids f (before @ view) then fold_seen g (evaluate_bytes g d view (row_after d before) lastHit s)
     else counted g (nat ` line_ids f (before @ view)) (evaluate_bytes g d view (row_after d before) lastHit s))"
proof (induction view arbitrary: before s lastHit)
  case (Cons b view)
  let ?v = "df_trans d ! (row_after d before + df_class d b)"
  let ?before = "before @ [b]"
  note found = automaton_finds [OF d]
  have row: "?v div 2 = row_after d ?before" by (simp add: row_after_def dfa_step_def)
  have out: "set (output_of_row d (row_after d ?before)) = f ?before" using found f by metis
  have flag: "odd ?v \<longleftrightarrow> f ?before \<noteq> {}" using found [of before b] f unfolding dfa_step_def odd_iff_mod_2_eq_one by metis
  have low: "row_after d ?before \<noteq> 2 ^ 32 - 1" using automaton_rows [OF d, of ?before] by simp
  show ?case
  proof (cases "even ?v \<or> row_after d ?before = lastHit")
    case True
    have "f ?before \<subseteq> line_ids f before" using True flag out low Cons.prems(3) by auto
    then have same: "line_ids f ?before = line_ids f before" unfolding line_ids_snoc by blast
    have "evaluate_bytes g d (b # view) (row_after d before) lastHit s = evaluate_bytes g d view (row_after d ?before) lastHit s"
      using True row by (auto simp: Let_def)
    moreover have "before @ b # view = ?before @ view" by simp
    ultimately show ?thesis
      using Cons.IH [of ?before s lastHit, unfolded same, OF Cons.prems] by (simp only:)
  next
    case False
    obtain stop s' where cc: "count_clauses g (output_of_row d (row_after d ?before)) s = (stop, s')" by force
    have "\<forall>i \<in> set (output_of_row d (row_after d ?before)). i = foldID \<or> (0 \<le> i \<and> nat i < clause_count g)"
      unfolding out using in_range by blast
    note step = count_clauses_ok [OF Cons.prems(1) g this cc, unfolded out]
    have ids: "nat ` line_ids f before \<union> nat ` f ?before = nat ` line_ids f ?before" unfolding line_ids_snoc by blast
    have ev: "evaluate_bytes g d (b # view) (row_after d before) lastHit s =
        (if stop then s' else evaluate_bytes g d view (row_after d ?before) (row_after d ?before) s')"
      using False row cc by (auto simp: Let_def)
    show ?thesis
    proof (cases stop)
      case True
      then have "foldID \<in> line_ids f ?before" using step(1) unfolding line_ids_snoc by blast
      then have "foldID \<in> line_ids f (before @ b # view)" using line_ids_mono [of ?before "before @ b # view" f] by auto
      then show ?thesis using ev True step(2) by simp
    next
      case no: False
      have "foldID \<notin> line_ids f ?before" using no step(1) Cons.prems(2) unfolding line_ids_snoc by blast
      moreover have "set (output_of_row d (row_after d ?before)) \<subseteq> line_ids f ?before" unfolding out line_ids_snoc by blast
      moreover have "before @ b # view = ?before @ view" by simp
      ultimately show ?thesis
        using Cons.IH [of ?before s' "row_after d ?before", OF step(3) [OF no, unfolded ids]] ev no by (simp only: simp_thms if_False True_implies_equals)
    qed
  qed
qed simp

section \<open>What the gate lets through\<close>

definition on_line :: "bytes \<Rightarrow> bytes \<Rightarrow> bool" where
  "on_line k view \<longleftrightarrow> view \<noteq> [] \<and> sublist (map ascii_lower k) (map ascii_lower view)"

lemma on_line_prefix: "(\<exists>p. prefix p view \<and> p \<noteq> [] \<and> ends_at k p) \<longleftrightarrow> on_line k view"
proof
  assume "\<exists>p. prefix p view \<and> p \<noteq> [] \<and> ends_at k p"
  then obtain p where p: "prefix p view" "p \<noteq> []" "ends_at k p" by blast
  then have "sublist (map ascii_lower k) (map ascii_lower p)" "prefix (map ascii_lower p) (map ascii_lower view)"
    by (auto simp: ends_at_def map_mono_prefix)
  then have "sublist (map ascii_lower k) (map ascii_lower view)"
    by (meson prefix_imp_sublist sublist_order.order.trans)
  then show "on_line k view" using p by (auto simp: on_line_def)
next
  assume "on_line k view"
  then obtain a c where v: "view \<noteq> []" "map ascii_lower view = a @ map ascii_lower k @ c"
    by (auto simp: on_line_def sublist_def)
  define n where "n = max 1 (length a + length k)"
  have len: "length view = length a + length k + length c" using arg_cong [OF v(2), of length] by simp
  show "\<exists>p. prefix p view \<and> p \<noteq> [] \<and> ends_at k p"
  proof (intro exI conjI)
    show "prefix (take n view) view" by (rule take_is_prefix)
    show "take n view \<noteq> []" using v(1) by (simp add: n_def)
    show "ends_at k (take n view)"
    proof (cases "length a + length k = 0")
      case False
      then have "1 \<le> length a + length k" by linarith
      then have "n = length a + length k" by (simp add: n_def max_def)
      then have "map ascii_lower (take n view) = a @ map ascii_lower k" using v(2) by (simp add: take_map [symmetric])
      then show ?thesis by (simp add: ends_at_def suffix_def)
    qed (simp add: ends_at_def)
  qed
qed

lemma line_ids_at:
  "line_ids (ids_at sigs) view =
     {int c |c. c < length (concat sigs) \<and> (\<exists>k \<in> set (concat sigs ! c). on_line k view)} \<union>
     (if \<exists>k \<in> set foldLetters. on_line k view then {foldID} else {})"
proof -
  have "i \<in> line_ids (ids_at sigs) view \<longleftrightarrow>
      (\<exists>c. i = int c \<and> c < length (concat sigs) \<and> (\<exists>k \<in> set (concat sigs ! c). \<exists>p. prefix p view \<and> p \<noteq> [] \<and> ends_at k p)) \<or>
      (i = foldID \<and> (\<exists>k \<in> set foldLetters. \<exists>p. prefix p view \<and> p \<noteq> [] \<and> ends_at k p))" for i
    unfolding line_ids_def ids_at_def by (auto split: if_splits)+
  then show ?thesis unfolding on_line_prefix by auto
qed

lemma new_gate_gate_ok:
  assumes "new_gate sigs = Inr g"
  shows "gate_ok g" and "sig_count g = length sigs" and "clause_count g = length (concat sigs)"
    and "H \<subseteq> {..<length (concat sigs)} \<Longrightarrow> si < length sigs \<Longrightarrow> tally g H si = ga_need g ! si \<longleftrightarrow> clauses_of sigs si \<subseteq> H"
proof -
  note ng = new_gate_ok [OF assms]
  show counts: "sig_count g = length sigs" "clause_count g = length (concat sigs)"
    using ng(1,3) owners_length by simp_all
  have all: "{c \<in> {..<length (concat sigs)}. ga_clauseSig g ! c = si} = clauses_of sigs si" for si
    unfolding ng(3) clauses_of_def by auto
  have need: "ga_need g ! si = card (clauses_of sigs si)" if "si < length sigs" for si
    using clauses_of_set(2) [OF that] ng(1) that by simp
  have "ga_gated g = filter (\<lambda>si. 0 < ga_need g ! si) [0..<length sigs]"
    unfolding ng(2) by (rule filter_cong) (simp_all add: ng(1))
  then show "gate_ok g"
    unfolding gate_ok_def counts tally_def all using need owners_less ng(3) by simp
  show "tally g H si = ga_need g ! si \<longleftrightarrow> clauses_of sigs si \<subseteq> H" if H: "H \<subseteq> {..<length (concat sigs)}" and si: "si < length sigs"
  proof -
    have eq: "{c \<in> H. ga_clauseSig g ! c = si} = H \<inter> clauses_of sigs si" using H all [of si] by blast
    have "card (H \<inter> clauses_of sigs si) = card (clauses_of sigs si) \<longleftrightarrow> H \<inter> clauses_of sigs si = clauses_of sigs si"
      using clauses_of_set(3) [OF si] by (metis card_subset_eq inf_le2)
    then show ?thesis unfolding tally_def eq need [OF si] by blast
  qed
qed

lemma evaluate_cases:
  assumes g: "new_gate sigs = Inr g" and s: "scratch_ok g s"
  obtains (none) "\<forall>si < length sigs. sigs ! si = []" and "counted g {} (evaluate g view s)"
  | (fold) "\<exists>k \<in> set foldLetters. on_line k view" and "fold_seen g (evaluate g view s)"
  | (count) "\<not> (\<exists>k \<in> set foldLetters. on_line k view)"
      and "counted g {c. c < length (concat sigs) \<and> (\<exists>k \<in> set (concat sigs ! c). on_line k view)} (evaluate g view s)"
proof (cases "ga_dfa g")
  case None
  then show ?thesis
    using none new_gate_ok(4) [OF g] start_line_ok [OF s new_gate_gate_ok(1) [OF g]] by (simp add: evaluate_def)
next
  case (Some d)
  obtain kws ids where d: "build_dfa kws ids = Inr d" "\<forall>view. found_ids kws ids view = ids_at sigs view"
    using new_gate_ok(4) [OF g] Some by auto
  let ?f = "ids_at sigs"
  have range: "\<forall>view. \<forall>i \<in> ?f view. i = foldID \<or> (0 \<le> i \<and> nat i < clause_count g)"
    unfolding new_gate_gate_ok(3) [OF g] ids_at_def by (auto split: if_splits)
  have empty: "line_ids ?f [] = {}" by (simp add: line_ids_def)
  have ev: "evaluate g view s = evaluate_bytes g d view (row_after d []) (2 ^ 32 - 1) (start_line s)"
    by (simp add: evaluate_def Some row_after_def)
  have res: "if foldID \<in> line_ids ?f view then fold_seen g (evaluate g view s) else counted g (nat ` line_ids ?f view) (evaluate g view s)"
    unfolding ev
    using evaluate_bytes_ok [OF new_gate_gate_ok(1) [OF g] d range, of "[]" "start_line s" "2 ^ 32 - 1" view] 
      start_line_ok [OF s new_gate_gate_ok(1) [OF g]]
    by (simp only: empty image_empty append_Nil empty_iff simp_thms True_implies_equals)
  have mem: "foldID \<in> line_ids ?f view \<longleftrightarrow> (\<exists>k \<in> set foldLetters. on_line k view)"
    unfolding line_ids_at by (auto simp: foldID_def)
  show ?thesis
  proof (cases "foldID \<in> line_ids ?f view")
    case True
    then show ?thesis using fold res mem by simp
  next
    case False
    then have no: "\<not> (\<exists>k \<in> set foldLetters. on_line k view)" using mem by blast
    then have "nat ` line_ids ?f view = {c. c < length (concat sigs) \<and> (\<exists>k \<in> set (concat sigs ! c). on_line k view)}"
      unfolding line_ids_at by force
    then show ?thesis using count [OF no] res False by simp
  qed
qed

lemma sample_gate: "\<exists>g. new_gate [[[[97], [98]], [[98]]], []] = Inr g"
proof -
  have "\<not> isl (new_gate [[[[97], [98]], [[98]]], []])"
  proof -
    have "\<exists>d. build_dfa [[97], [98], [0xE2, 0x84, 0xAA], [0xC5, 0xBF]] [[0], [0, 1], [-1], [-1]] = Inr d"
      by (rule build_dfa_small) (simp_all add: maxDFACells_def)
    then show ?thesis
      by (auto simp: new_gate_def add_signature_def add_clause_def add_member_def foldLetters_def foldID_def Let_def)
  qed
  then show ?thesis by (cases "new_gate [[[[97], [98]], [[98]]], []]") auto
qed

lemma gate_lets_through:
  assumes "new_gate sigs = Inr g" and "scratch_ok g s" and "si < length sigs"
  shows "passes g si (evaluate g view s) \<longleftrightarrow>
    sigs ! si = [] \<or> (\<exists>k \<in> set foldLetters. on_line k view) \<or> (\<forall>clause \<in> set (sigs ! si). \<exists>k \<in> set clause. on_line k view)"
  using assms(1,2)
proof (cases rule: evaluate_cases [where view = view])
  case none
  then show ?thesis using assms new_gate_ok(1) [OF assms(1)] by (simp add: passes_def)
next
  case fold
  then show ?thesis by (auto simp: passes_def fold_seen_def)
next
  case count
  let ?H = "{c. c < length (concat sigs) \<and> (\<exists>k \<in> set (concat sigs ! c). on_line k view)}"
  have need: "ga_need g ! si = length (sigs ! si)" using new_gate_ok(1) [OF assms(1)] assms(3) by simp
  have sub: "clauses_of sigs si \<subseteq> ?H \<longleftrightarrow> (\<forall>clause \<in> set (sigs ! si). \<exists>k \<in> set clause. on_line k view)"
    unfolding clauses_of_set(1) [OF assms(3), symmetric] by (auto simp: clauses_of_def)
  have tally: "tally g ?H si = ga_need g ! si \<longleftrightarrow> clauses_of sigs si \<subseteq> ?H"
    by (rule new_gate_gate_ok(4) [OF assms(1) _ assms(3)]) auto
  have "passes g si (evaluate g view s) \<longleftrightarrow> ga_need g ! si = 0 \<or> (0 < tally g ?H si \<and> tally g ?H si = ga_need g ! si)"
    using count(2) assms(3) new_gate_gate_ok(2) [OF assms(1)] by (auto simp: passes_def counted_def Let_def)
  then show ?thesis using count(1) need sub tally by (cases "sigs ! si = []") auto
qed

text \<open>
  Claim C26.
  The gate lets a signature through exactly when it declares no clause, or the line holds a fold letter, or
  every clause has a member that occurs on the line without ASCII case. The counters of earlier lines, cleared only when the
  generation wraps around, make no difference.
\<close>

theorem gate_passes:
  assumes "new_gate sigs = Inr g" and "scratch_ok g s" and "si < length sigs"
  shows "passes g si (evaluate g view s) \<longleftrightarrow>
    sigs ! si = [] \<or> (\<exists>k \<in> set foldLetters. on_line k view) \<or> (\<forall>clause \<in> set (sigs ! si). \<exists>k \<in> set clause. on_line k view)"
  by (rule gate_lets_through [OF assms])

theorem gate_passes_witness:
  "\<exists>g. let s = evaluate g [66, 120] (new_scratch g); t = evaluate g [120, 65] s
       in passes g 0 s \<and> passes g 1 s \<and> \<not> passes g 0 t \<and> passes g 1 t \<and> passes g 0 (evaluate g [0xC5, 0xBF] t)"
proof -
  obtain g where g: "new_gate [[[[97], [98]], [[98]]], []] = Inr g" using sample_gate by blast
  have ok: "scratch_ok g (new_scratch g)" by (simp add: scratch_ok_def new_scratch_def)
  have step: "scratch_ok g s \<Longrightarrow> scratch_ok g (evaluate g view s)" for s view
    by (rule evaluate_cases [OF g, where s = s and view = view]) (simp_all only: counted_def fold_seen_def)
  note passes = gate_passes [OF g]
  show ?thesis
    by (intro exI [of _ g]) (simp add: passes ok step on_line_def foldLetters_def ascii_lower_def sublist_Cons_right Let_def)
qed

text \<open>
  Claim C29.
  The counters stay usable from line to line, and the list of passed signatures holds, each once, those that
  may be tested on the line.
\<close>

theorem gate_scratch_kept:
  assumes "new_gate sigs = Inr g"
  shows "scratch_ok g (new_scratch g) \<and>
    (scratch_ok g s \<longrightarrow> scratch_ok g (evaluate g view s) \<and> distinct (gs_passed (evaluate g view s)) \<and>
      set (gs_passed (evaluate g view s)) = {si. si < length sigs \<and> sigs ! si \<noteq> [] \<and> passes g si (evaluate g view s)})"
proof (intro conjI impI)
  show "scratch_ok g (new_scratch g)" by (simp add: scratch_ok_def new_scratch_def)
  assume s: "scratch_ok g s"
  have need: "ga_need g ! si = length (sigs ! si)" if "si < length sigs" for si
    using new_gate_ok(1) [OF assms] that by simp
  have counted: "scratch_ok g t \<and> distinct (gs_passed t) \<and> set (gs_passed t) = {si. si < length sigs \<and> sigs ! si \<noteq> [] \<and> passes g si t}"
    if "counted g H t" for H t
    using that need new_gate_gate_ok(2) [OF assms] unfolding counted_def by (auto simp: passes_def)
  have "scratch_ok g (evaluate g view s) \<and> distinct (gs_passed (evaluate g view s)) \<and>
      set (gs_passed (evaluate g view s)) = {si. si < length sigs \<and> sigs ! si \<noteq> [] \<and> passes g si (evaluate g view s)}"
    using assms s
  proof (cases rule: evaluate_cases [where view = view])
    case fold
    then show ?thesis using new_gate_ok(2) [OF assms] by (auto simp: fold_seen_def passes_def)
  qed (use counted in blast)+
  then show "scratch_ok g (evaluate g view s)" "distinct (gs_passed (evaluate g view s))"
    "set (gs_passed (evaluate g view s)) = {si. si < length sigs \<and> sigs ! si \<noteq> [] \<and> passes g si (evaluate g view s)}" by blast+
qed

theorem gate_scratch_kept_witness:
  "\<exists>g. scratch_ok g (evaluate g [66, 120] (new_scratch g)) \<and> set (gs_passed (evaluate g [66, 120] (new_scratch g))) \<subseteq> {0}"
proof -
  obtain g where g: "new_gate [[[[97], [98]], [[98]]], []] = Inr g" using sample_gate by blast
  show ?thesis
  proof (intro exI conjI)
    note kept = gate_scratch_kept [OF g, of "new_scratch g" "[66, 120]"]
    then show "scratch_ok g (evaluate g [66, 120] (new_scratch g))" by blast
    have eq: "set (gs_passed (evaluate g [66, 120] (new_scratch g))) = {si. si < length [[[[97::byte], [98]], [[98]]], []] \<and>
        [[[[97::byte], [98]], [[98]]], []] ! si \<noteq> [] \<and> passes g si (evaluate g [66, 120] (new_scratch g))}"
      using kept by blast
    show "set (gs_passed (evaluate g [66, 120] (new_scratch g))) \<subseteq> {0}"
    proof
      fix si assume "si \<in> set (gs_passed (evaluate g [66, 120] (new_scratch g)))"
      then have "si < length [[[[97::byte], [98]], [[98]]], []]" "[[[[97::byte], [98]], [[98]]], []] ! si \<noteq> []"
        unfolding eq by blast+
      then show "si \<in> {0}" by (cases si) (simp_all add: less_Suc_eq)
    qed
  qed
qed

end
