(* ===== verification/Keywords.thy ===== *)
theory Keywords
  imports Gate
begin

text \<open>
  The keyword clauses of an anchor regex, \<^verbatim>\<open>internal/signatures/keywords.go\<close>: the walk over the syntax
  tree that finds sets of literals of which every match holds a member. The tree and what it matches
  stand for Go's \<^verbatim>\<open>regexp/syntax\<close>; the theorem says that a line the regex matches holds a member of
  every clause, without ASCII case, or a fold letter.
\<close>

section \<open>Runes\<close>

type_synonym rune = nat

definition rune_error :: rune where "rune_error = 0xFFFD"

text \<open>The UTF-8 encoding of a rune, \<^verbatim>\<open>utf8.AppendRune\<close>.\<close>

definition encode_rune :: "rune \<Rightarrow> bytes" where
  "encode_rune r =
     (if r < 0x80 then [of_nat r]
      else if r < 0x800 then [of_nat (0xC0 + r div 64), of_nat (0x80 + r mod 64)]
      else if (0xD800 \<le> r \<and> r < 0xE000) \<or> 0x10FFFF < r then [0xEF, 0xBF, 0xBD]
      else if r < 0x10000 then [of_nat (0xE0 + r div 4096), of_nat (0x80 + r div 64 mod 64), of_nat (0x80 + r mod 64)]
      else [of_nat (0xF0 + r div 262144), of_nat (0x80 + r div 4096 mod 64), of_nat (0x80 + r div 64 mod 64), of_nat (0x80 + r mod 64)])"

definition ascii_lower_rune :: "rune \<Rightarrow> rune" where
  "ascii_lower_rune r = (if 65 \<le> r \<and> r \<le> 90 then r + (97 - 65) else r)"

text \<open>
  \<^verbatim>\<open>unicode.SimpleFold\<close>: the next rune that is equal without case. Only the ASCII letters' orbits matter here;
  \<open>sf\<close> is the function on the other runes.
\<close>

definition simple_fold :: "(rune \<Rightarrow> rune) \<Rightarrow> rune \<Rightarrow> rune" where
  "simple_fold sf r =
     (if 65 \<le> r \<and> r \<le> 90 then r + 32
      else if r = 107 then 0x212A else if r = 115 then 0x17F
      else if 97 \<le> r \<and> r \<le> 122 then r - 32
      else if r = 0x212A then 75 else if r = 0x17F then 83
      else if r < 128 then r else sf r)"

section \<open>Syntax trees\<close>

datatype regexp =
    OpNoMatch
  | OpEmptyMatch
  | OpLiteral bool "rune list"
  | OpCharClass "(rune \<times> rune) list"
  | OpAnyCharNotNL
  | OpAnyChar
  | OpBeginLine
  | OpEndLine
  | OpBeginText
  | OpEndText
  | OpWordBoundary
  | OpNoWordBoundary
  | OpCapture regexp
  | OpStar regexp
  | OpPlus regexp
  | OpQuest regexp
  | OpRepeat int int regexp
  | OpConcat "regexp list"
  | OpAlternate "regexp list"

section \<open>Sets of literals\<close>

definition minKeywordBytes :: nat where "minKeywordBytes = 3"
definition maxSetLiterals :: nat where "maxSetLiterals = 64"
definition maxCrossBytes :: nat where "maxCrossBytes = 32"
definition maxClauses :: nat where "maxClauses = 32"

text \<open>A set the code leaves nil is \<open>None\<close>.\<close>

record facts =
  fa_exact :: "bytes list option"
  fa_prefix :: "bytes list option"
  fa_suffix :: "bytes list option"
  fa_clauses :: "bytes list list"

definition no_facts :: facts where
  "no_facts = \<lparr>fa_exact = None, fa_prefix = None, fa_suffix = None, fa_clauses = []\<rparr>"

fun dedupe_onto :: "bytes list \<Rightarrow> bytes list \<Rightarrow> bytes list" where
  "dedupe_onto out [] = out"
| "dedupe_onto out (s # lits) = dedupe_onto (if s \<in> set out then out else out @ [s]) lits"

definition dedupe :: "bytes list \<Rightarrow> bytes list" where
  "dedupe lits = dedupe_onto [] lits"

definition usableClause :: "bytes list \<Rightarrow> bytes list option" where
  "usableClause lits =
     (if lits = [] then None
      else if \<exists>s \<in> set lits. length s < minKeywordBytes then None
      else let clause = dedupe lits in if length clause > maxSetLiterals then None else Some clause)"

definition exactFacts :: "bytes list \<Rightarrow> facts" where
  "exactFacts lits =
     \<lparr>fa_exact = Some lits, fa_prefix = Some lits, fa_suffix = Some lits,
      fa_clauses = (case usableClause lits of None \<Rightarrow> [] | Some clause \<Rightarrow> [clause])\<rparr>"

definition emptyWidth :: facts where "emptyWidth = exactFacts [[]]"

definition repeated :: "facts \<Rightarrow> facts" where
  "repeated inner = inner\<lparr>fa_exact := None\<rparr>"

definition crossProduct :: "bytes list \<Rightarrow> bytes list \<Rightarrow> bytes list option" where
  "crossProduct a b =
     (if a = [[]] then Some b
      else if b = [[]] then Some a
      else if length a * length b > maxSetLiterals then None
      else let out = concat (map (\<lambda>x. map (\<lambda>y. x @ y) b) a)
           in if \<exists>z \<in> set out. length z > maxCrossBytes then None else Some (dedupe out))"

fun appendUnique :: "bytes list \<Rightarrow> bytes list \<Rightarrow> bytes list \<times> bool" where
  "appendUnique dst [] = (dst, True)"
| "appendUnique dst (s # src) =
     (if s \<in> set dst then appendUnique dst src
      else if length dst = maxSetLiterals then (dst, False) else appendUnique (dst @ [s]) src)"

fun union_onto :: "bytes list \<Rightarrow> bytes list option list \<Rightarrow> bytes list option" where
  "union_onto un [] = (if un = [] then None else Some un)"
| "union_onto un (s # ss) =
     (case s of
        None \<Rightarrow> None
      | Some lits \<Rightarrow> (case appendUnique un lits of (un', fits) \<Rightarrow> if fits then union_onto un' ss else None))"

definition unionOf :: "facts list \<Rightarrow> (facts \<Rightarrow> bytes list option) \<Rightarrow> bytes list option" where
  "unionOf branches sel = union_onto [] (map sel branches)"

fun shortest_from :: "int \<Rightarrow> bytes list \<Rightarrow> int" where
  "shortest_from shortest [] = shortest"
| "shortest_from shortest (s # lits) =
     shortest_from (if shortest < 0 \<or> int (length s) < shortest then int (length s) else shortest) lits"

definition shortestLen :: "bytes list \<Rightarrow> int" where
  "shortestLen lits = shortest_from (- 1) lits"

text \<open>A nil clause is the empty list.\<close>

fun best_from :: "bytes list \<Rightarrow> int \<Rightarrow> bytes list list \<Rightarrow> bytes list" where
  "best_from best bestShortest [] = best"
| "best_from best bestShortest (c # cs) =
     (let shortest = shortestLen c
      in if shortest > bestShortest \<or> (shortest = bestShortest \<and> length c < length best)
         then best_from c shortest cs else best_from best bestShortest cs)"

definition bestClause :: "bytes list list \<Rightarrow> bytes list" where
  "bestClause clauses = best_from [] (- 1) clauses"

section \<open>Literals\<close>

definition flush_piece :: "bytes \<Rightarrow> facts list" where
  "flush_piece piece = (if piece = [] then [] else [exactFacts [piece]])"

fun literal_pieces :: "(rune \<Rightarrow> rune) \<Rightarrow> bool \<Rightarrow> bytes \<Rightarrow> rune list \<Rightarrow> facts list" where
  "literal_pieces sf folds piece [] = flush_piece piece"
| "literal_pieces sf folds piece (r # rs) =
     (if r = rune_error \<or> (folds \<and> r \<ge> 0x80 \<and> simple_fold sf r \<noteq> r)
      then flush_piece piece @ no_facts # literal_pieces sf folds [] rs
      else literal_pieces sf folds (piece @ encode_rune (ascii_lower_rune r)) rs)"

definition literalItems :: "(rune \<Rightarrow> rune) \<Rightarrow> bool \<Rightarrow> rune list \<Rightarrow> facts list" where
  "literalItems sf folds rs = literal_pieces sf folds [] rs"

section \<open>Sequences\<close>

definition flush_run :: "bytes list option \<Rightarrow> facts list" where
  "flush_run run = (case run of None \<Rightarrow> [] | Some r \<Rightarrow> [exactFacts r])"

fun join_runs :: "bytes list option \<Rightarrow> facts list \<Rightarrow> facts list" where
  "join_runs run [] = flush_run run"
| "join_runs run (item # items) =
     (case fa_exact item of
        None \<Rightarrow> flush_run run @ item # join_runs None items
      | Some exact \<Rightarrow>
          (case run of
             None \<Rightarrow> join_runs (Some exact) items
           | Some r \<Rightarrow>
               (case crossProduct r exact of
                  Some joined \<Rightarrow> join_runs (Some joined) items
                | None \<Rightarrow> exactFacts r # join_runs (Some exact) items)))"

definition joinExactRuns :: "facts list \<Rightarrow> facts list" where
  "joinExactRuns items = join_runs None items"

text \<open>A known set of a segment that is not a run.\<close>

definition outer_set :: "(facts \<Rightarrow> bytes list option) \<Rightarrow> facts \<Rightarrow> bytes list option" where
  "outer_set sel seg = (if fa_exact seg = None then sel seg else None)"

definition join_right :: "bytes list \<Rightarrow> bytes list option \<Rightarrow> bytes list" where
  "join_right lits nxt =
     (case nxt of None \<Rightarrow> lits | Some b \<Rightarrow> (case crossProduct lits b of None \<Rightarrow> lits | Some joined \<Rightarrow> joined))"

definition join_left :: "bytes list option \<Rightarrow> bytes list \<Rightarrow> bytes list" where
  "join_left prv lits =
     (case prv of None \<Rightarrow> lits | Some a \<Rightarrow> (case crossProduct a lits of None \<Rightarrow> lits | Some joined \<Rightarrow> joined))"

definition extendRun :: "facts list \<Rightarrow> nat \<Rightarrow> bytes list" where
  "extendRun segments i =
     (let lits = the (fa_exact (segments ! i));
          lits1 = (if i + 1 < length segments then join_right lits (outer_set fa_prefix (segments ! (i + 1))) else lits)
      in if i > 0 then join_left (outer_set fa_suffix (segments ! (i - 1))) lits1 else lits1)"

definition sequencePrefix :: "facts list \<Rightarrow> bytes list option" where
  "sequencePrefix segments =
     (case fa_exact (segments ! 0) of
        None \<Rightarrow> fa_prefix (segments ! 0)
      | Some exact \<Rightarrow>
          Some (if length segments > 1 then join_right exact (outer_set fa_prefix (segments ! 1)) else exact))"

definition sequenceSuffix :: "facts list \<Rightarrow> bytes list option" where
  "sequenceSuffix segments =
     (let n = length segments in
      case fa_exact (segments ! (n - 1)) of
        None \<Rightarrow> fa_suffix (segments ! (n - 1))
      | Some exact \<Rightarrow>
          Some (if n > 1 then join_left (outer_set fa_suffix (segments ! (n - 2))) exact else exact))"

definition segment_clauses :: "facts list \<Rightarrow> nat \<Rightarrow> bytes list list" where
  "segment_clauses segments i =
     (if fa_exact (segments ! i) = None then fa_clauses (segments ! i)
      else case usableClause (extendRun segments i) of None \<Rightarrow> [] | Some clause \<Rightarrow> [clause])"

definition analyzeSequence :: "facts list \<Rightarrow> facts" where
  "analyzeSequence items =
     (let segments = joinExactRuns items
      in if segments = [] then emptyWidth
         else if length segments = 1 \<and> fa_exact (segments ! 0) \<noteq> None then exactFacts (the (fa_exact (segments ! 0)))
         else \<lparr>fa_exact = None, fa_prefix = sequencePrefix segments, fa_suffix = sequenceSuffix segments,
               fa_clauses = concat (map (segment_clauses segments) [0..<length segments])\<rparr>)"

section \<open>Alternations\<close>

fun union_clause :: "bytes list \<Rightarrow> facts list \<Rightarrow> bytes list option" where
  "union_clause clause [] = Some clause"
| "union_clause clause (b # branches) =
     (let best = bestClause (fa_clauses b)
      in if best = [] then None
         else case appendUnique clause best of
                (clause', fits) \<Rightarrow> if fits then union_clause clause' branches else None)"

definition analyzeAlternation :: "facts list \<Rightarrow> facts" where
  "analyzeAlternation branches =
     \<lparr>fa_exact = unionOf branches fa_exact, fa_prefix = unionOf branches fa_prefix, fa_suffix = unionOf branches fa_suffix,
      fa_clauses = (case union_clause [] branches of
                      None \<Rightarrow> []
                    | Some clause \<Rightarrow> (case usableClause clause of None \<Rightarrow> [] | Some usable \<Rightarrow> [usable]))\<rparr>"

section \<open>The walk\<close>

fun analyze :: "(rune \<Rightarrow> rune) \<Rightarrow> regexp \<Rightarrow> facts"
  and concatItems :: "(rune \<Rightarrow> rune) \<Rightarrow> regexp list \<Rightarrow> facts list" where
  "analyze sf (OpLiteral folds rs) = analyzeSequence (literalItems sf folds rs)"
| "analyze sf (OpConcat subs) = analyzeSequence (concatItems sf subs)"
| "analyze sf (OpAlternate subs) = analyzeAlternation (map (analyze sf) subs)"
| "analyze sf (OpCapture sub) = analyze sf sub"
| "analyze sf (OpPlus sub) = repeated (analyze sf sub)"
| "analyze sf (OpRepeat mn mx sub) =
     (if mn < 1 then no_facts
      else if mn = 1 \<and> mx = 1 then analyze sf sub else repeated (analyze sf sub))"
| "analyze sf OpEmptyMatch = emptyWidth"
| "analyze sf OpBeginLine = emptyWidth"
| "analyze sf OpEndLine = emptyWidth"
| "analyze sf OpBeginText = emptyWidth"
| "analyze sf OpEndText = emptyWidth"
| "analyze sf OpWordBoundary = emptyWidth"
| "analyze sf OpNoWordBoundary = emptyWidth"
| "analyze sf OpNoMatch = no_facts"
| "analyze sf (OpCharClass cs) = no_facts"
| "analyze sf OpAnyCharNotNL = no_facts"
| "analyze sf OpAnyChar = no_facts"
| "analyze sf (OpStar sub) = no_facts"
| "analyze sf (OpQuest sub) = no_facts"
| "concatItems sf [] = []"
| "concatItems sf (sub # subs) =
     (case sub of
        OpConcat ss \<Rightarrow> concatItems sf ss
      | OpLiteral folds rs \<Rightarrow> literalItems sf folds rs
      | _ \<Rightarrow> [analyze sf sub]) @ concatItems sf subs"

section \<open>Pruning\<close>

text \<open>\<^verbatim>\<open>strings.Contains\<close>.\<close>

definition contains :: "bytes \<Rightarrow> bytes \<Rightarrow> bool" where
  "contains x y \<longleftrightarrow> sublist y x"

definition implies :: "bytes list \<Rightarrow> bytes list \<Rightarrow> bool" where
  "implies a b \<longleftrightarrow> (\<forall>x \<in> set a. \<exists>y \<in> set b. contains x y)"

definition drop_index :: "nat \<Rightarrow> 'a list \<Rightarrow> 'a list" where
  "drop_index i xs = take i xs @ drop (i + 1) xs"

text \<open>The loop runs \<open>i\<close> from the last index down; \<open>n\<close> is \<open>i + 1\<close>.\<close>

fun prune_from :: "nat \<Rightarrow> bytes list list \<Rightarrow> bytes list list" where
  "prune_from 0 kept = kept"
| "prune_from (Suc i) kept =
     prune_from i
       (if \<exists>j \<in> set [0..<length kept]. j \<noteq> i \<and> implies (kept ! j) (kept ! i) then drop_index i kept else kept)"

definition pruneClauses :: "bytes list list \<Rightarrow> bytes list list" where
  "pruneClauses clauses = prune_from (length clauses) clauses"

text \<open>\<open>parse\<close> stands for \<^verbatim>\<open>syntax.Parse\<close> with the flags of \<^verbatim>\<open>regexp.Compile\<close>.\<close>

definition deriveClauses ::
  "(rune \<Rightarrow> rune) \<Rightarrow> (string \<Rightarrow> 'e + regexp) \<Rightarrow> string \<Rightarrow> 'e + bytes list list" where
  "deriveClauses sf parse source =
     (case parse source of
        Inl e \<Rightarrow> Inl e
      | Inr tree \<Rightarrow> Inr (pruneClauses (take maxClauses (fa_clauses (analyze sf tree)))))"

end
