(* ===== verification/KeywordFacts.thy ===== *)
theory KeywordFacts
  imports Keywords
begin

text \<open>
  What a syntax tree matches, and that the keyword clauses derived from it are right: a line the regex
  matches holds a member of every clause, or a fold letter, so the gate never turns it away.
\<close>

section \<open>What a tree matches\<close>

text \<open>
  The bytes the matcher reads as a rune: its encoding, or one byte that starts no valid encoding, which it reads as
  \<^verbatim>\<open>U+FFFD\<close>.
\<close>

definition decodes :: "bytes \<Rightarrow> rune \<Rightarrow> bool" where
  "decodes s r \<longleftrightarrow> (r \<le> 0x10FFFF \<and> \<not> (0xD800 \<le> r \<and> r < 0xE000) \<and> s = encode_rune r) \<or>
     (r = rune_error \<and> (\<exists>b \<ge> 0x80. s = [b]))"

definition rune_matches :: "(rune \<Rightarrow> rune) \<Rightarrow> bool \<Rightarrow> rune \<Rightarrow> bytes \<Rightarrow> bool" where
  "rune_matches sf folds lit s \<longleftrightarrow> (\<exists>r. decodes s r \<and> (if folds then \<exists>n. r = (simple_fold sf ^^ n) lit else r = lit))"

definition assertions :: "regexp set" where
  "assertions = {OpBeginLine, OpEndLine, OpBeginText, OpEndText, OpWordBoundary, OpNoWordBoundary}"

text \<open>
  \<open>matches re u s v\<close>: in the text \<open>u @ s @ v\<close> the tree matches \<open>s\<close>. \<open>at_pos\<close> says where an empty-width
  assertion holds; nothing is assumed of it.
\<close>

inductive matches :: "(rune \<Rightarrow> rune) \<Rightarrow> (regexp \<Rightarrow> bytes \<Rightarrow> bytes \<Rightarrow> bool) \<Rightarrow> regexp \<Rightarrow> bytes \<Rightarrow> bytes \<Rightarrow> bytes \<Rightarrow> bool"
  and matches_all :: "(rune \<Rightarrow> rune) \<Rightarrow> (regexp \<Rightarrow> bytes \<Rightarrow> bytes \<Rightarrow> bool) \<Rightarrow> regexp list \<Rightarrow> bytes \<Rightarrow> bytes \<Rightarrow> bytes \<Rightarrow> bool"
  for sf at_pos where
  literal: "list_all2 (rune_matches sf folds) rs parts \<Longrightarrow> matches sf at_pos (OpLiteral folds rs) u (concat parts) v"
| empty: "matches sf at_pos OpEmptyMatch u [] v"
| assertion: "r \<in> assertions \<Longrightarrow> at_pos r u v \<Longrightarrow> matches sf at_pos r u [] v"
| char_class: "decodes s r \<Longrightarrow> (lo, hi) \<in> set cs \<Longrightarrow> lo \<le> r \<Longrightarrow> r \<le> hi \<Longrightarrow> matches sf at_pos (OpCharClass cs) u s v"
| any_char: "decodes s r \<Longrightarrow> matches sf at_pos OpAnyChar u s v"
| any_char_not_nl: "decodes s r \<Longrightarrow> r \<noteq> 10 \<Longrightarrow> matches sf at_pos OpAnyCharNotNL u s v"
| capture: "matches sf at_pos r u s v \<Longrightarrow> matches sf at_pos (OpCapture r) u s v"
| star: "matches_all sf at_pos (replicate n r) u s v \<Longrightarrow> matches sf at_pos (OpStar r) u s v"
| plus: "matches_all sf at_pos (replicate n r) u s v \<Longrightarrow> 0 < n \<Longrightarrow> matches sf at_pos (OpPlus r) u s v"
| quest: "matches_all sf at_pos (replicate n r) u s v \<Longrightarrow> n \<le> 1 \<Longrightarrow> matches sf at_pos (OpQuest r) u s v"
| repeat: "matches_all sf at_pos (replicate n r) u s v \<Longrightarrow> mn \<le> int n \<Longrightarrow> mx = - 1 \<or> int n \<le> mx \<Longrightarrow>
    matches sf at_pos (OpRepeat mn mx r) u s v"
| concat_all: "matches_all sf at_pos rs u s v \<Longrightarrow> matches sf at_pos (OpConcat rs) u s v"
| alternate: "r \<in> set rs \<Longrightarrow> matches sf at_pos r u s v \<Longrightarrow> matches sf at_pos (OpAlternate rs) u s v"
| all_nil: "matches_all sf at_pos [] u [] v"
| all_cons: "matches sf at_pos r u s (t @ v) \<Longrightarrow> matches_all sf at_pos rs (u @ s) t v \<Longrightarrow> matches_all sf at_pos (r # rs) u (s @ t) v"

section \<open>Sets of literals\<close>

lemma set_dedupe_onto: "set (dedupe_onto out lits) = set out \<union> set lits"
  by (induction out lits rule: dedupe_onto.induct) auto

lemma set_dedupe [simp]: "set (dedupe lits) = set lits"
  by (simp add: dedupe_def set_dedupe_onto)

lemma usableClause_set: "usableClause lits = Some c \<Longrightarrow> set c = set lits"
  by (auto simp: usableClause_def Let_def split: if_splits)

lemma crossProduct_mem:
  "crossProduct a b = Some c \<Longrightarrow> x \<in> set a \<Longrightarrow> y \<in> set b \<Longrightarrow> x @ y \<in> set c"
  unfolding crossProduct_def Let_def by (fastforce split: if_splits)

lemma appendUnique_set: "appendUnique dst src = (d, True) \<Longrightarrow> set d = set dst \<union> set src"
  by (induction dst src rule: appendUnique.induct) (auto split: if_splits)

lemma union_onto_set:
  "union_onto un ss = Some U \<Longrightarrow> set un \<subseteq> set U \<and> (\<forall>s \<in> set ss. \<exists>lits. s = Some lits \<and> set lits \<subseteq> set U)"
proof (induction un ss rule: union_onto.induct)
  case (2 un s ss)
  then obtain lits un' where s: "s = Some lits" "appendUnique un lits = (un', True)" "union_onto un' ss = Some U"
    by (auto split: option.splits prod.splits if_splits)
  then show ?case using "2.IH" [OF s(1) s(2) [symmetric] TrueI s(3)] appendUnique_set [OF s(2)] by auto
qed (auto split: if_splits)

lemma best_from_in: "best_from best n cs = best \<or> best_from best n cs \<in> set cs"
  by (induction best n cs rule: best_from.induct) (auto simp: Let_def)

lemma bestClause_in: "bestClause cs \<noteq> [] \<Longrightarrow> bestClause cs \<in> set cs"
  using best_from_in [of "[]" "- 1" cs] by (auto simp: bestClause_def)

lemma union_clause_set:
  "union_clause clause bs = Some C \<Longrightarrow>
    set clause \<subseteq> set C \<and> (\<forall>b \<in> set bs. bestClause (fa_clauses b) \<noteq> [] \<and> set (bestClause (fa_clauses b)) \<subseteq> set C)"
proof (induction clause bs rule: union_clause.induct)
  case (2 clause b bs)
  let ?best = "bestClause (fa_clauses b)"
  obtain clause' where c: "?best \<noteq> []" "appendUnique clause ?best = (clause', True)" "union_clause clause' bs = Some C"
    using "2.prems" by (auto simp: Let_def split: prod.splits if_splits)
  then show ?case using "2.IH" [OF refl c(1) c(2) [symmetric] TrueI c(3)] appendUnique_set [OF c(2)] by auto
qed simp

section \<open>Facts that hold of a match\<close>

definition facts_ok :: "facts \<Rightarrow> bytes \<Rightarrow> bool" where
  "facts_ok f t \<longleftrightarrow> (\<forall>E. fa_exact f = Some E \<longrightarrow> t \<in> set E) \<and>
     (\<forall>P. fa_prefix f = Some P \<longrightarrow> (\<exists>p \<in> set P. prefix p t)) \<and>
     (\<forall>S. fa_suffix f = Some S \<longrightarrow> (\<exists>s \<in> set S. suffix s t)) \<and>
     (\<forall>c \<in> set (fa_clauses f). \<exists>k \<in> set c. sublist k t)"

lemma no_facts_ok: "facts_ok no_facts t"
  by (simp add: facts_ok_def no_facts_def)

lemma exactFacts_ok: "t \<in> set E \<Longrightarrow> facts_ok (exactFacts E) t"
  using usableClause_set [of E] by (fastforce simp: facts_ok_def exactFacts_def split: option.splits)

lemma emptyWidth_ok: "facts_ok emptyWidth []"
  unfolding emptyWidth_def by (rule exactFacts_ok) simp

lemma repeated_ok:
  assumes "facts_ok f a" and "facts_ok f b" and "prefix a t" and "suffix b t"
  shows "facts_ok (repeated f) t"
proof -
  have "\<exists>k \<in> set c. sublist k t" if c: "c \<in> set (fa_clauses f)" for c
  proof -
    obtain k where "k \<in> set c" "sublist k a" using assms(1) c unfolding facts_ok_def by blast
    then show ?thesis using assms(3) by (meson prefix_imp_sublist sublist_order.order.trans)
  qed
  moreover have "\<exists>p \<in> set P. prefix p t" if P: "fa_prefix f = Some P" for P
    using assms(1,3) P unfolding facts_ok_def by (meson prefix_order.trans)
  moreover have "\<exists>p \<in> set P. suffix p t" if P: "fa_suffix f = Some P" for P
    using assms(2,4) P unfolding facts_ok_def by (meson suffix_order.trans)
  ultimately show ?thesis by (simp add: facts_ok_def repeated_def)
qed

lemma flush_run_ok:
  "(case run of None \<Rightarrow> t = [] | Some r \<Rightarrow> t \<in> set r) \<Longrightarrow> \<exists>us. list_all2 facts_ok (flush_run run) us \<and> concat us = t"
  by (cases run) (auto simp: flush_run_def exactFacts_ok list_all2_Cons1 intro!: exI [of _ "[t]"])

lemma join_runs_ok:
  assumes "list_all2 facts_ok items ts" and "case run of None \<Rightarrow> t = [] | Some r \<Rightarrow> t \<in> set r"
  shows "\<exists>us. list_all2 facts_ok (join_runs run items) us \<and> concat us = t @ concat ts"
  using assms
proof (induction run items arbitrary: ts t rule: join_runs.induct)
  case (1 run)
  then show ?case using flush_run_ok by auto
next
  case (2 run item items)
  obtain t1 ts' where ts: "ts = t1 # ts'" "facts_ok item t1" "list_all2 facts_ok items ts'"
    using "2.prems"(1) by (auto simp: list_all2_Cons1)
  show ?case
  proof (cases "fa_exact item")
    case None
    obtain us where us: "list_all2 facts_ok (join_runs None items) us" "concat us = concat ts'"
      using "2.IH"(1) [OF None ts(3), of "[]"] by auto
    obtain vs where vs: "list_all2 facts_ok (flush_run run) vs" "concat vs = t" using flush_run_ok [OF "2.prems"(2)] by blast
    have "list_all2 facts_ok (flush_run run @ item # join_runs None items) (vs @ t1 # us)"
      using us vs ts(2) by (simp add: list_all2_appendI)
    then show ?thesis using None us(2) vs(2) ts(1) by (intro exI [of _ "vs @ t1 # us"]) simp
  next
    case (Some exact)
    then have t1: "t1 \<in> set exact" using ts(2) by (simp add: facts_ok_def)
    show ?thesis
    proof (cases run)
      case None
      then show ?thesis using "2.IH"(2) [OF Some None ts(3), of t1] t1 "2.prems"(2) Some ts(1) by simp
    next
      case (Some r)
      show ?thesis
      proof (cases "crossProduct r exact")
        case None
        obtain us where us: "list_all2 facts_ok (join_runs (Some exact) items) us" "concat us = t1 @ concat ts'"
          using "2.IH"(3) [OF \<open>fa_exact item = Some exact\<close> Some None ts(3), of t1] t1 by auto
        have "facts_ok (exactFacts r) t" using "2.prems"(2) Some by (simp add: exactFacts_ok)
        then show ?thesis
          using \<open>fa_exact item = Some exact\<close> Some None us ts(1) by (intro exI [of _ "t # us"]) simp
      next
        case j: (Some joined)
        have "t @ t1 \<in> set joined" using crossProduct_mem [OF j] "2.prems"(2) Some t1 by simp
        then show ?thesis
          using "2.IH"(4) [OF \<open>fa_exact item = Some exact\<close> Some j ts(3), of "t @ t1"] \<open>fa_exact item = Some exact\<close> Some j ts(1) by simp
      qed
    qed
  qed
qed

lemma prefix_bex: "y \<in> B \<Longrightarrow> prefix y a \<Longrightarrow> \<exists>k \<in> B. prefix k (a @ b)"
  by (meson prefix_prefix)

lemma suffix_bex: "y \<in> B \<Longrightarrow> suffix y a \<Longrightarrow> \<exists>k \<in> B. suffix k (b @ a)"
  by (meson suffix_appendI)

lemma self_bex: "y \<in> B \<Longrightarrow> \<exists>k \<in> B. prefix k (y @ b)" "y \<in> B \<Longrightarrow> \<exists>k \<in> B. suffix k (b @ y)"
  by (auto simp: suffix_def prefix_def)

lemma join_right_ok:
  assumes "x \<in> set lits" and "\<forall>b. nxt = Some b \<longrightarrow> (\<exists>y \<in> set b. prefix y R)"
  shows "\<exists>k \<in> set (join_right lits nxt). prefix k (x @ R)"
proof (cases nxt)
  case (Some b)
  then obtain y where y: "y \<in> set b" "prefix y R" using assms(2) by blast
  show ?thesis
  proof (cases "crossProduct lits b")
    case j: (Some joined)
    have "prefix (x @ y) (x @ R)" using y(2) by simp
    then show ?thesis using crossProduct_mem [OF j assms(1) y(1)] Some j by (auto simp only: join_right_def option.case)
  qed (use Some assms(1) self_bex in \<open>simp add: join_right_def\<close>)
qed (use assms(1) self_bex in \<open>simp add: join_right_def\<close>)

lemma join_left_ok:
  assumes "x \<in> set lits" and "\<forall>a. prv = Some a \<longrightarrow> (\<exists>z \<in> set a. suffix z L)"
  shows "\<exists>k \<in> set (join_left prv lits). suffix k (L @ x)"
proof (cases prv)
  case (Some a)
  then obtain z where z: "z \<in> set a" "suffix z L" using assms(2) by blast
  show ?thesis
  proof (cases "crossProduct a lits")
    case j: (Some joined)
    have "suffix (z @ x) (L @ x)" using z(2) by (auto simp: suffix_def)
    then show ?thesis using crossProduct_mem [OF j z(1) assms(1)] Some j by (auto simp only: join_left_def option.case)
  qed (use Some assms(1) self_bex in \<open>simp add: join_left_def\<close>)
qed (use assms(1) self_bex in \<open>simp add: join_left_def\<close>)

text \<open>The literals of a run, joined with what its neighbours begin and end with, are in the text.\<close>

lemma split_at: "i < length us \<Longrightarrow> concat us = concat (take i us) @ us ! i @ concat (drop (Suc i) us)"
  by (subst id_take_nth_drop [of i us]) simp_all

lemma outer_prefix:
  assumes "list_all2 facts_ok segs us" and "i + 1 < length segs" and "outer_set fa_prefix (segs ! (i + 1)) = Some b"
  shows "\<exists>y \<in> set b. prefix y (concat (drop (Suc i) us))"
proof -
  have "facts_ok (segs ! (i + 1)) (us ! (i + 1))" using assms(1,2) by (simp add: list_all2_conv_all_nth)
  then obtain y where y: "y \<in> set b" "prefix y (us ! (i + 1))"
    using assms(3) by (auto simp: outer_set_def facts_ok_def split: if_splits)
  have "concat (drop (Suc i) us) = us ! (i + 1) @ concat (drop (Suc (Suc i)) us)"
    using assms(1,2) by (simp add: list_all2_lengthD Cons_nth_drop_Suc [symmetric])
  then show ?thesis using prefix_bex [OF y] by simp
qed

lemma outer_suffix:
  assumes "list_all2 facts_ok segs us" and "0 < i" and "i < length segs" and "outer_set fa_suffix (segs ! (i - 1)) = Some b"
  shows "\<exists>y \<in> set b. suffix y (concat (take i us))"
proof -
  have "facts_ok (segs ! (i - 1)) (us ! (i - 1))" using assms(1-3) by (simp add: list_all2_conv_all_nth)
  then obtain y where y: "y \<in> set b" "suffix y (us ! (i - 1))"
    using assms(4) by (auto simp: outer_set_def facts_ok_def split: if_splits)
  have "take i us = take (i - 1) us @ [us ! (i - 1)]"
    using assms(1-3) take_Suc_conv_app_nth [of "i - 1" us] by (simp add: list_all2_lengthD)
  then show ?thesis using suffix_bex [OF y] by simp
qed

lemma extendRun_ok:
  assumes "list_all2 facts_ok segs us" and "i < length segs" and "fa_exact (segs ! i) \<noteq> None"
  shows "\<exists>k \<in> set (extendRun segs i). sublist k (concat us)"
proof -
  let ?L = "concat (take i us)" and ?R = "concat (drop (Suc i) us)"
  obtain E where E: "fa_exact (segs ! i) = Some E" using assms(3) by blast
  then have x: "us ! i \<in> set E" using assms(1,2) by (auto simp: list_all2_conv_all_nth facts_ok_def)
  define E1 where "E1 = (if i + 1 < length segs then join_right E (outer_set fa_prefix (segs ! (i + 1))) else E)"
  have "\<exists>k \<in> set E1. prefix k (us ! i @ ?R)"
    unfolding E1_def using join_right_ok [OF x] outer_prefix [OF assms(1)] self_bex(1) [OF x] by simp
  then obtain k where k: "k \<in> set E1" "prefix k (us ! i @ ?R)" by blast
  have "\<exists>k' \<in> set (extendRun segs i). suffix k' (?L @ k)"
  proof -
    have "extendRun segs i = (if i > 0 then join_left (outer_set fa_suffix (segs ! (i - 1))) E1 else E1)"
      by (simp add: extendRun_def E E1_def Let_def)
    then show ?thesis using join_left_ok [OF k(1)] outer_suffix [OF assms(1) _ assms(2)] self_bex(2) [OF k(1), of "[]"] by simp
  qed
  then obtain k' where k': "k' \<in> set (extendRun segs i)" "suffix k' (?L @ k)" by blast
  have "concat us = ?L @ us ! i @ ?R" using assms(1,2) by (simp add: split_at list_all2_lengthD)
  then have "prefix (?L @ k) (concat us)" using k(2) by simp
  then show ?thesis using k' by (meson prefix_imp_sublist suffix_imp_sublist sublist_order.order.trans)
qed

lemma analyzeSequence_ok:
  assumes "list_all2 facts_ok items ts"
  shows "facts_ok (analyzeSequence items) (concat ts)"
proof -
  define segs where "segs = joinExactRuns items"
  obtain us where us: "list_all2 facts_ok segs us" "concat us = concat ts"
    using join_runs_ok [OF assms, where run = None and t = "[]"] by (auto simp: segs_def joinExactRuns_def)
  note len = list_all2_lengthD [OF us(1)]
  have nth: "facts_ok (segs ! i) (us ! i)" if "i < length segs" for i
    using us(1) that by (simp add: list_all2_conv_all_nth)
  consider (none) "segs = []" | (one) E where "length segs = 1" "fa_exact (segs ! 0) = Some E"
    | (more) "segs \<noteq> []" "\<not> (length segs = 1 \<and> fa_exact (segs ! 0) \<noteq> None)" by fastforce
  then show ?thesis
  proof cases
    case none
    then have e: "concat ts = []" using us by simp
    show ?thesis using emptyWidth_ok none unfolding e analyzeSequence_def segs_def [symmetric] by simp
  next
    case one
    then obtain t where t: "us = [t]" using len by (auto simp: length_Suc_conv)
    have "t \<in> set E" using nth [of 0] one t by (simp add: facts_ok_def)
    moreover have "segs \<noteq> []" using one(1) by auto
    ultimately show ?thesis using one us(2) t exactFacts_ok by (simp add: analyzeSequence_def segs_def [symmetric])
  next
    case more
    let ?n = "length segs"
    have n: "0 < ?n" using more(1) by simp
    have eq: "analyzeSequence items =
        \<lparr>fa_exact = None, fa_prefix = sequencePrefix segs, fa_suffix = sequenceSuffix segs,
         fa_clauses = concat (map (segment_clauses segs) [0..<?n])\<rparr>"
      unfolding analyzeSequence_def segs_def [symmetric] Let_def if_not_P [OF more(1)] if_not_P [OF more(2)] by (rule refl)
    have p: "\<exists>p \<in> set P. prefix p (concat us)" if P: "sequencePrefix segs = Some P" for P
    proof (cases "fa_exact (segs ! 0)")
      case None
      then obtain p where p: "p \<in> set P" "prefix p (us ! 0)"
        using nth [OF n] P unfolding facts_ok_def by (auto simp: sequencePrefix_def)
      then show ?thesis using split_at [of 0 us] n len prefix_bex [OF p] by simp
    next
      case (Some E)
      have x: "us ! 0 \<in> set E" using nth [OF n] Some by (simp add: facts_ok_def)
      have "concat us = us ! 0 @ concat (drop (Suc 0) us)" using split_at [of 0 us] n len by simp
      moreover have "\<exists>p \<in> set P. prefix p (us ! 0 @ concat (drop (Suc 0) us))"
        using P Some join_right_ok [OF x] outer_prefix [OF us(1), of 0] self_bex(1) [OF x]
        by (auto simp: sequencePrefix_def split: if_splits)
      ultimately show ?thesis by simp
    qed
    have s: "\<exists>p \<in> set P. suffix p (concat us)" if P: "sequenceSuffix segs = Some P" for P
    proof -
      have last: "?n - 1 < ?n" using n by simp
      have whole: "concat us = concat (take (?n - 1) us) @ us ! (?n - 1)" using split_at [of "?n - 1" us] n len by simp
      show ?thesis
      proof (cases "fa_exact (segs ! (?n - 1))")
        case None
        then obtain p where "p \<in> set P" "suffix p (us ! (?n - 1))"
          using nth [OF last] P unfolding facts_ok_def by (auto simp: sequenceSuffix_def Let_def)
        then show ?thesis unfolding whole using suffix_bex by blast
      next
        case (Some E)
        have x: "us ! (?n - 1) \<in> set E" using nth [OF last] Some by (simp add: facts_ok_def)
        show ?thesis
        proof (cases "?n > 1")
          case True
          then have "P = join_left (outer_set fa_suffix (segs ! (?n - 2))) E"
            using that Some by (simp add: sequenceSuffix_def Let_def)
          moreover have "?n - 1 - 1 = ?n - 2" by simp
          ultimately show ?thesis
            using join_left_ok [OF x] outer_suffix [OF us(1) _ last] True unfolding whole by auto
        next
          case False
          then show ?thesis using that Some x unfolding whole by (auto simp: sequenceSuffix_def Let_def suffix_def)
        qed
      qed
    qed
    have c: "\<exists>k \<in> set c. sublist k (concat us)" if i: "i < ?n" "c \<in> set (segment_clauses segs i)" for i c
    proof (cases "fa_exact (segs ! i)")
      case None
      then obtain k where "k \<in> set c" "sublist k (us ! i)"
        using nth [OF i(1)] i(2) unfolding facts_ok_def by (auto simp: segment_clauses_def)
      moreover have "sublist (us ! i) (concat us)" using split_at [of i us] that(1) len by (auto simp: sublist_def)
      ultimately show ?thesis by (meson sublist_order.order.trans)
    next
      case (Some E)
      then have "usableClause (extendRun segs i) = Some c"
        using that(2) by (auto simp: segment_clauses_def split: option.splits)
      then show ?thesis using extendRun_ok [OF us(1) that(1)] Some usableClause_set by auto
    qed
    show ?thesis unfolding facts_ok_def eq us(2) [symmetric] using p s c by auto
  qed
qed

lemma analyzeAlternation_ok:
  assumes "f \<in> set branches" and "facts_ok f t"
  shows "facts_ok (analyzeAlternation branches) t"
proof -
  have un: "\<exists>lits. sel f = Some lits \<and> set lits \<subseteq> set U" if "unionOf branches sel = Some U" for sel U
    using union_onto_set [of "[]" "map sel branches" U] that assms(1) by (auto simp: unionOf_def)
  have "\<exists>k \<in> set c. sublist k t" if c: "c \<in> set (fa_clauses (analyzeAlternation branches))" for c
  proof -
    obtain C where C: "union_clause [] branches = Some C" "usableClause C = Some c"
    proof (cases "union_clause [] branches")
      case (Some C)
      then show ?thesis using c that by (cases "usableClause C") (auto simp: analyzeAlternation_def)
    qed (use c in \<open>simp add: analyzeAlternation_def\<close>)
    then have b: "bestClause (fa_clauses f) \<noteq> []" "set (bestClause (fa_clauses f)) \<subseteq> set c"
      using union_clause_set [OF C(1)] assms(1) usableClause_set [OF C(2)] by auto
    then show ?thesis using assms(2) bestClause_in [OF b(1)] unfolding facts_ok_def by blast
  qed
  moreover have "t \<in> set E" if "unionOf branches fa_exact = Some E" for E
    using un [OF that] assms(2) by (auto simp: facts_ok_def)
  moreover have "\<exists>p \<in> set E. prefix p t" if "unionOf branches fa_prefix = Some E" for E
    using un [OF that] assms(2) unfolding facts_ok_def by blast
  moreover have "\<exists>p \<in> set E. suffix p t" if "unionOf branches fa_suffix = Some E" for E
    using un [OF that] assms(2) unfolding facts_ok_def by blast
  ultimately show ?thesis unfolding facts_ok_def by (simp add: analyzeAlternation_def)
qed

section \<open>Literals\<close>

abbreviation low :: "bytes \<Rightarrow> bytes" where
  "low s \<equiv> map ascii_lower s"

text \<open>Bytes that hold neither of the two letters outside ASCII that fold to ASCII letters.\<close>

definition no_fold :: "bytes \<Rightarrow> bool" where
  "no_fold s \<longleftrightarrow> (\<forall>l \<in> set foldLetters. \<not> sublist l s)"

lemma no_fold_sub: "no_fold s \<Longrightarrow> sublist t s \<Longrightarrow> no_fold t"
  unfolding no_fold_def by (meson sublist_order.order.trans)

lemma no_fold_append: "no_fold (s @ t) \<Longrightarrow> no_fold s \<and> no_fold t"
  using no_fold_sub [of "s @ t" s] no_fold_sub [of "s @ t" t] by simp

lemma lower_high: "128 \<le> n \<Longrightarrow> n < 256 \<Longrightarrow> ascii_lower (of_nat n) = of_nat n"
  by (simp add: ascii_lower_def word_le_nat_alt unat_of_nat)

lemma lower_low: "r < 128 \<Longrightarrow> ascii_lower (of_nat r) = of_nat (ascii_lower_rune r)"
  by (auto simp: ascii_lower_def ascii_lower_rune_def word_le_nat_alt unat_of_nat)

lemma mod64: "(x :: nat) mod 64 < 128"
  by (rule less_trans [OF mod_less_divisor]) simp_all

lemma encode_high:
  assumes "128 \<le> r"
  shows "\<exists>ns. encode_rune r = map of_nat ns \<and> (\<forall>n \<in> set ns. 128 \<le> n \<and> n < 256)"
proof -
  consider "r < 0x800" | "0x800 \<le> r" "(0xD800 \<le> r \<and> r < 0xE000) \<or> 0x10FFFF < r"
    | "0x800 \<le> r" "\<not> ((0xD800 \<le> r \<and> r < 0xE000) \<or> 0x10FFFF < r)" "r < 0x10000"
    | "0x10000 \<le> r" "r \<le> 0x10FFFF" by linarith
  then show ?thesis
  proof cases
    case 1
    have "r div 64 < 64" "r mod 64 < 64" using 1 by (simp_all add: less_mult_imp_div_less)
    then show ?thesis using assms 1 by (intro exI [of _ "[0xC0 + r div 64, 0x80 + r mod 64]"]) (simp add: encode_rune_def)
  next
    case 2
    then show ?thesis by (intro exI [of _ "[0xEF, 0xBF, 0xBD]"]) (simp add: encode_rune_def)
  next
    case 3
    then have eq: "encode_rune r = map of_nat [0xE0 + r div 4096, 0x80 + r div 64 mod 64, 0x80 + r mod 64]"
      unfolding encode_rune_def if_not_P [OF 3(2)] using assms by simp
    have "r div 4096 < 16" using 3(3) by (simp add: less_mult_imp_div_less)
    then have "\<forall>n \<in> set [0xE0 + r div 4096, 0x80 + r div 64 mod 64, 0x80 + r mod 64]. 128 \<le> n \<and> n < 256" using mod64 by simp
    then show ?thesis using eq by blast
  next
    case 4
    then have eq: "encode_rune r =
        map of_nat [0xF0 + r div 262144, 0x80 + r div 4096 mod 64, 0x80 + r div 64 mod 64, 0x80 + r mod 64]"
      unfolding encode_rune_def using assms by simp
    have "r div 262144 < 5" using 4(2) by (simp add: less_mult_imp_div_less)
    then have "\<forall>n \<in> set [0xF0 + r div 262144, 0x80 + r div 4096 mod 64, 0x80 + r div 64 mod 64, 0x80 + r mod 64].
        128 \<le> n \<and> n < 256" using mod64 by simp
    then show ?thesis using eq by blast
  qed
qed

lemma low_encode: "low (encode_rune r) = encode_rune (ascii_lower_rune r)"
proof (cases "r < 128")
  case True
  then have "ascii_lower_rune r < 128" by (auto simp: ascii_lower_rune_def)
  then show ?thesis using True lower_low by (simp add: encode_rune_def)
next
  case False
  then have same: "ascii_lower_rune r = r" by (simp add: ascii_lower_rune_def)
  obtain ns where ns: "encode_rune r = map of_nat ns" "\<forall>n \<in> set ns. 128 \<le> n \<and> n < 256" using encode_high [of r] False by auto
  then show ?thesis unfolding same ns(1) using lower_high by simp
qed

text \<open>The orbit of an ASCII rune: its two cases, and a fold letter.\<close>

lemma ascii_fold_step:
  "r < 128 \<Longrightarrow> (simple_fold sf r < 128 \<and> ascii_lower_rune (simple_fold sf r) = ascii_lower_rune r) \<or>
    (simple_fold sf r = 0x212A \<and> ascii_lower_rune r = 107) \<or> (simple_fold sf r = 0x17F \<and> ascii_lower_rune r = 115)"
  unfolding simple_fold_def ascii_lower_rune_def
  by (cases "65 \<le> r \<and> r \<le> 90"; cases "r = 107"; cases "r = 115"; cases "97 \<le> r \<and> r \<le> 122") auto

lemma ascii_orbit:
  assumes "lit < 128"
  shows "(let r = (simple_fold sf ^^ n) lit in
    (r < 128 \<and> ascii_lower_rune r = ascii_lower_rune lit) \<or> (r = 0x212A \<and> ascii_lower_rune lit = 107) \<or>
    (r = 0x17F \<and> ascii_lower_rune lit = 115))"
proof (induction n)
  case 0
  then show ?case using assms by simp
next
  case (Suc n)
  define r where "r = (simple_fold sf ^^ n) lit"
  have K: "simple_fold sf 0x212A = 75" "simple_fold sf 0x17F = 83" "ascii_lower_rune 75 = 107" "ascii_lower_rune 83 = 115"
    by (simp_all add: simple_fold_def ascii_lower_rune_def)
  have "(simple_fold sf ^^ Suc n) lit = simple_fold sf r" by (simp add: r_def)
  moreover have "(r < 128 \<and> ascii_lower_rune r = ascii_lower_rune lit) \<or> (r = 0x212A \<and> ascii_lower_rune lit = 107) \<or>
    (r = 0x17F \<and> ascii_lower_rune lit = 115)" using Suc by (simp add: Let_def r_def)
  ultimately show ?case using ascii_fold_step [of r sf] K unfolding Let_def by (elim disjE conjE) simp_all
qed

lemma fixed_orbit: "simple_fold sf lit = lit \<Longrightarrow> (simple_fold sf ^^ n) lit = lit"
  by (induction n) simp_all

lemma rune_low:
  assumes "rune_matches sf folds lit s" and "no_fold s"
    and known: "\<not> (lit = rune_error \<or> (folds \<and> lit \<ge> 0x80 \<and> simple_fold sf lit \<noteq> lit))"
  shows "low s = encode_rune (ascii_lower_rune lit)"
proof -
  obtain r where r: "decodes s r" "if folds then \<exists>n. r = (simple_fold sf ^^ n) lit else r = lit"
    using assms(1) by (auto simp: rune_matches_def)
  have "r \<noteq> 0x212A \<and> r \<noteq> 0x17F"
  proof (intro conjI notI)
    assume "r = 0x212A"
    then have "s = [0xE2, 0x84, 0xAA]" using r(1) by (simp add: decodes_def encode_rune_def rune_error_def)
    then show False using assms(2) by (simp add: no_fold_def foldLetters_def)
  next
    assume "r = 0x17F"
    then have "s = [0xC5, 0xBF]" using r(1) by (simp add: decodes_def encode_rune_def rune_error_def)
    then show False using assms(2) by (simp add: no_fold_def foldLetters_def)
  qed
  then have lower: "ascii_lower_rune r = ascii_lower_rune lit \<and> r \<noteq> rune_error"
  proof (cases "folds \<and> lit < 128")
    case True
    then obtain n where "r = (simple_fold sf ^^ n) lit" using r(2) by auto
    then show ?thesis using ascii_orbit [where lit = lit and sf = sf and n = n] True \<open>r \<noteq> 0x212A \<and> r \<noteq> 0x17F\<close> by (auto simp: Let_def rune_error_def)
  next
    case False
    then have "r = lit" using r(2) known fixed_orbit by (auto split: if_splits)
    then show ?thesis using known by simp
  qed
  then have "s = encode_rune r" using r(1) by (simp add: decodes_def)
  then show ?thesis using low_encode lower by simp
qed

lemma flush_piece_ok: "\<exists>us. list_all2 facts_ok (flush_piece piece) us \<and> concat us = piece"
  by (cases "piece = []") (auto simp: flush_piece_def list_all2_Cons1 exactFacts_ok intro!: exI [of _ "[piece]"])

lemma literal_pieces_ok:
  assumes "list_all2 (rune_matches sf folds) rs parts" and "no_fold (concat parts)"
  shows "\<exists>us. list_all2 facts_ok (literal_pieces sf folds piece rs) us \<and> concat us = piece @ low (concat parts)"
  using assms
proof (induction sf folds piece rs arbitrary: parts rule: literal_pieces.induct)
  case (1 sf folds piece)
  then show ?case using flush_piece_ok by simp
next
  case (2 sf folds piece r rs)
  obtain s parts' where parts: "parts = s # parts'" "rune_matches sf folds r s" "list_all2 (rune_matches sf folds) rs parts'"
    using "2.prems"(1) by (auto simp: list_all2_Cons1)
  have nf: "no_fold s" "no_fold (concat parts')" using no_fold_append [of s "concat parts'"] "2.prems"(2) parts(1) by simp_all
  show ?case
  proof (cases "r = rune_error \<or> (folds \<and> r \<ge> 0x80 \<and> simple_fold sf r \<noteq> r)")
    case True
    obtain us where us: "list_all2 facts_ok (literal_pieces sf folds [] rs) us" "concat us = low (concat parts')"
      using "2.IH"(1) [OF True parts(3) nf(2)] by auto
    obtain vs where vs: "list_all2 facts_ok (flush_piece piece) vs" "concat vs = piece" using flush_piece_ok by blast
    have "list_all2 facts_ok (flush_piece piece @ no_facts # literal_pieces sf folds [] rs) (vs @ low s # us)"
      using us(1) vs(1) no_facts_ok by (simp add: list_all2_appendI)
    moreover have "concat (vs @ low s # us) = piece @ low (concat parts)" using us(2) vs(2) parts(1) by simp
    ultimately show ?thesis using True by auto
  next
    case False
    have "literal_pieces sf folds piece (r # rs) = literal_pieces sf folds (piece @ encode_rune (ascii_lower_rune r)) rs"
      unfolding literal_pieces.simps if_not_P [OF False] by (rule refl)
    then show ?thesis
      using "2.IH"(2) [OF False parts(3) nf(2)] rune_low [OF parts(2) nf(1) False] parts(1) by simp
  qed
qed

section \<open>Every match\<close>

text \<open>The items of a child of a concatenation.\<close>

definition items_of :: "(rune \<Rightarrow> rune) \<Rightarrow> regexp \<Rightarrow> facts list" where
  "items_of sf sub =
     (case sub of
        OpConcat ss \<Rightarrow> concatItems sf ss
      | OpLiteral folds rs \<Rightarrow> literalItems sf folds rs
      | _ \<Rightarrow> [analyze sf sub])"

definition sound :: "(rune \<Rightarrow> rune) \<Rightarrow> regexp \<Rightarrow> bytes \<Rightarrow> bool" where
  "sound sf r s \<longleftrightarrow> (no_fold s \<longrightarrow> facts_ok (analyze sf r) (low s) \<and>
     (\<exists>ts. list_all2 facts_ok (items_of sf r) ts \<and> concat ts = low s))"

lemma concatItems_items: "concatItems sf subs = concat (map (items_of sf) subs)"
  by (induction subs) (simp_all add: items_of_def)

lemma sound_one:
  assumes "no_fold s \<Longrightarrow> facts_ok (analyze sf r) (low s)" and "items_of sf r = [analyze sf r]"
  shows "sound sf r s"
  using assms unfolding sound_def by (auto simp: list_all2_Cons1 intro!: exI [of _ "[low s]"])

lemma sound_all:
  assumes "list_all2 (sound sf) rs ss" and "no_fold (concat ss)"
  shows "\<exists>ts. list_all2 facts_ok (concatItems sf rs) ts \<and> concat ts = low (concat ss)"
  using assms unfolding concatItems_items
proof (induction rs ss rule: list_all2_induct)
  case (Cons r rs s ss)
  have nf: "no_fold s" "no_fold (concat ss)" using no_fold_append [of s "concat ss"] Cons.prems by simp_all
  obtain ts where ts: "list_all2 facts_ok (items_of sf r) ts" "concat ts = low s"
    using Cons.hyps(1) nf(1) unfolding sound_def by blast
  obtain us where us: "list_all2 facts_ok (concat (map (items_of sf) rs)) us" "concat us = low (concat ss)"
    using Cons.IH [OF nf(2)] by blast
  show ?case using list_all2_appendI [OF ts(1) us(1)] ts(2) us(2) by (intro exI [of _ "ts @ us"]) simp
qed simp

lemma sound_repeated:
  assumes "list_all2 (sound sf) (replicate n r) ss" and "0 < n" and "no_fold (concat ss)"
  shows "facts_ok (repeated (analyze sf r)) (low (concat ss))"
proof -
  have len: "length ss = n" using assms(1) by (simp add: list_all2_lengthD [symmetric])
  then have ne: "ss \<noteq> []" using assms(2) by auto
  have ok: "facts_ok (analyze sf r) (low s)" if s: "s \<in> set ss" for s
  proof -
    obtain i where "i < length ss" "s = ss ! i" using s unfolding in_set_conv_nth by blast
    then have "sound sf r s" using assms(1) len by (simp add: list_all2_conv_all_nth)
    moreover have "no_fold s" using no_fold_sub [OF assms(3)] s by (metis concat_append concat.simps(2) split_list sublist_appendI)
    ultimately show ?thesis by (simp add: sound_def)
  qed
  have "concat ss = hd ss @ concat (tl ss)" "concat ss = concat (butlast ss) @ last ss"
    using ne by (metis concat.simps(2) list.collapse) (metis append_butlast_last_id concat.simps concat_append append_Nil2 ne)
  then show ?thesis
    using repeated_ok [OF ok [OF hd_in_set [OF ne]] ok [OF last_in_set [OF ne]], of "low (concat ss)"]
    by (metis map_append prefixI suffixI)
qed

lemma matches_sound:
  "matches sf at_pos r u s v \<Longrightarrow> sound sf r s"
  "matches_all sf at_pos rs u s v \<Longrightarrow> \<exists>ss. s = concat ss \<and> list_all2 (sound sf) rs ss"
proof (induction rule: matches_matches_all.inducts)
  case (literal folds rs parts u v)
  show ?case unfolding sound_def
  proof
    assume "no_fold (concat parts)"
    then obtain ts where ts: "list_all2 facts_ok (literalItems sf folds rs) ts" "concat ts = low (concat parts)"
      using literal_pieces_ok [OF literal, where piece = "[]"] by (auto simp: literalItems_def)
    then show "facts_ok (analyze sf (OpLiteral folds rs)) (low (concat parts)) \<and>
        (\<exists>ts. list_all2 facts_ok (items_of sf (OpLiteral folds rs)) ts \<and> concat ts = low (concat parts))"
      using analyzeSequence_ok [OF ts(1)] by (auto simp: items_of_def)
  qed
next
  case (assertion r u v)
  then show ?case using emptyWidth_ok by (intro sound_one) (auto simp: assertions_def items_of_def)
next
  case (plus n r u s v)
  then show ?case using sound_repeated by (intro sound_one) (auto simp: items_of_def)
next
  case (repeat n r u s v mn mx)
  obtain ss where ss: "s = concat ss" "list_all2 (sound sf) (replicate n r) ss" using repeat.IH by blast
  show ?case
  proof (rule sound_one)
    assume nf: "no_fold s"
    show "facts_ok (analyze sf (OpRepeat mn mx r)) (low s)"
    proof (cases "mn < 1")
      case True
      then show ?thesis by (simp add: no_facts_ok)
    next
      case False
      then have n: "0 < n" using repeat.hyps by simp
      show ?thesis
      proof (cases "mn = 1 \<and> mx = 1")
        case True
        then have "n = 1" using repeat.hyps by auto
        then have "sound sf r s" using ss by (auto simp: list_all2_Cons1)
        then show ?thesis using True nf by (simp add: sound_def)
      next
        case no: False
        then have "analyze sf (OpRepeat mn mx r) = repeated (analyze sf r)" using False by auto
        then show ?thesis using sound_repeated [OF ss(2) n] nf ss(1) by simp
      qed
    qed
  qed (simp add: items_of_def)
next
  case (concat_all rs u s v)
  obtain ss where ss: "s = concat ss" "list_all2 (sound sf) rs ss" using concat_all.IH by blast
  show ?case unfolding sound_def
  proof
    assume "no_fold s"
    then obtain ts where "list_all2 facts_ok (concatItems sf rs) ts" "concat ts = low s"
      using sound_all [OF ss(2)] ss(1) by auto
    then show "facts_ok (analyze sf (OpConcat rs)) (low s) \<and> (\<exists>ts. list_all2 facts_ok (items_of sf (OpConcat rs)) ts \<and> concat ts = low s)"
      using analyzeSequence_ok by (auto simp: items_of_def) metis
  qed
next
  case (alternate r rs u s v)
  then show ?case using analyzeAlternation_ok [of "analyze sf r" "map (analyze sf) rs"]
    by (intro sound_one) (auto simp: sound_def items_of_def)
next
  case (all_cons r u s t v rs)
  then obtain ss where "t = concat ss" "list_all2 (sound sf) rs ss" by blast
  then show ?case using all_cons by (intro exI [of _ "s # ss"]) simp
next
  case (capture r u s v)
  then show ?case by (intro sound_one) (simp_all add: sound_def items_of_def)
qed (auto simp: items_of_def no_facts_ok emptyWidth_ok intro!: sound_one)

section \<open>Pruning\<close>

definition line_holds :: "bytes \<Rightarrow> bytes list list \<Rightarrow> bool" where
  "line_holds t cs \<longleftrightarrow> (\<forall>c \<in> set cs. \<exists>k \<in> set c. sublist k t)"

lemma implies_holds: "implies a b \<Longrightarrow> \<exists>k \<in> set a. sublist k t \<Longrightarrow> \<exists>k \<in> set b. sublist k t"
  unfolding implies_def contains_def by (meson sublist_order.order.trans)

lemma set_drop_index: "i < length xs \<Longrightarrow> insert (xs ! i) (set (drop_index i xs)) = set xs"
  unfolding drop_index_def by (subst (3) id_take_nth_drop [of i]) auto

lemma nth_drop_index: "j < length xs \<Longrightarrow> j \<noteq> i \<Longrightarrow> i < length xs \<Longrightarrow> xs ! j \<in> set (drop_index i xs)"
proof -
  assume a: "j < length xs" "j \<noteq> i" "i < length xs"
  show ?thesis
  proof (cases "j < i")
    case True
    then have "xs ! j = take i xs ! j" "j < length (take i xs)" using a by simp_all
    then show ?thesis unfolding drop_index_def by (metis UnCI nth_mem set_append)
  next
    case False
    then have "xs ! j = drop (i + 1) xs ! (j - (i + 1))" "j - (i + 1) < length (drop (i + 1) xs)" using a by simp_all
    then show ?thesis unfolding drop_index_def by (metis UnCI nth_mem set_append)
  qed
qed

lemma prune_from_holds: "n \<le> length cs \<Longrightarrow> line_holds t (prune_from n cs) \<longleftrightarrow> line_holds t cs"
proof (induction n cs rule: prune_from.induct)
  case (2 i kept)
  show ?case
  proof (cases "\<exists>j \<in> set [0..<length kept]. j \<noteq> i \<and> implies (kept ! j) (kept ! i)")
    case True
    then obtain j where j: "j < length kept" "j \<noteq> i" "implies (kept ! j) (kept ! i)" by auto
    have i: "i < length kept" using "2.prems" by simp
    have "kept ! j \<in> set (drop_index i kept)" using nth_drop_index j i by blast
    then have "line_holds t (drop_index i kept) \<Longrightarrow> \<exists>k \<in> set (kept ! i). sublist k t"
      using implies_holds [OF j(3)] unfolding line_holds_def by blast
    then have "line_holds t (drop_index i kept) \<longleftrightarrow> line_holds t kept"
      unfolding line_holds_def set_drop_index [OF i, symmetric] by blast
    moreover have "i \<le> length (drop_index i kept)" using i by (simp add: drop_index_def)
    ultimately show ?thesis using "2.IH" [unfolded if_P [OF True]] by (simp only: prune_from.simps if_P [OF True])
  next
    case False
    then have "prune_from (Suc i) kept = prune_from i kept" by (simp only: prune_from.simps False if_False)
    then show ?thesis using "2.IH" [unfolded if_not_P [OF False]] "2.prems" by simp
  qed
qed simp

section \<open>The derived clauses\<close>

lemma matches_derived:
  assumes "parse source = Inr tree" and "deriveClauses sf parse source = Inr cs" and "matches sf at_pos tree u s v"
  shows "(\<exists>l \<in> set foldLetters. sublist l s) \<or> (\<forall>c \<in> set cs. \<exists>k \<in> set c. sublist k (low s))"
proof (cases "no_fold s")
  case True
  let ?cs = "take maxClauses (fa_clauses (analyze sf tree))"
  have "facts_ok (analyze sf tree) (low s)"
    using matches_sound(1) [OF assms(3)] True by (simp add: sound_def)
  then have "line_holds (low s) ?cs" unfolding line_holds_def facts_ok_def by (meson in_set_takeD)
  then have "line_holds (low s) (pruneClauses ?cs)" by (simp add: pruneClauses_def prune_from_holds)
  then show ?thesis using assms(1,2) by (simp add: deriveClauses_def line_holds_def)
qed (auto simp: no_fold_def)

lemma sample_tree:
  "deriveClauses id (\<lambda>_. Inr (OpLiteral True [69, 82, 82])) src = Inr [[[101, 114, 114]]]"
  "matches id at_pos (OpLiteral True [69, 82, 82]) u [101, 82, 114] v"
proof -
  show "deriveClauses id (\<lambda>_. Inr (OpLiteral True [69, 82, 82])) src = Inr [[[101, 114, 114]]]"
    by (simp add: deriveClauses_def analyzeSequence_def joinExactRuns_def literalItems_def flush_piece_def flush_run_def
      exactFacts_def usableClause_def dedupe_def encode_rune_def ascii_lower_rune_def rune_error_def maxClauses_def
      maxSetLiterals_def minKeywordBytes_def pruneClauses_def Let_def)
  have "rune_matches id True 69 [101]" "rune_matches id True 82 [82]" "rune_matches id True 82 [114]"
    unfolding rune_matches_def decodes_def
    by (rule exI [of _ 101], simp add: encode_rune_def, rule exI [of _ 1], simp add: simple_fold_def)
      (rule exI [of _ 82], simp add: encode_rune_def, rule exI [of _ 0], simp,
       rule exI [of _ 114], simp add: encode_rune_def, rule exI [of _ 1], simp add: simple_fold_def)
  then have "list_all2 (rune_matches id True) [69, 82, 82] [[101], [82], [114]]" by simp
  from matches_matches_all.literal [OF this, of at_pos u v]
  show "matches id at_pos (OpLiteral True [69, 82, 82]) u [101, 82, 114] v" by simp
qed

text \<open>
  Claim C31. The keyword clauses of an anchor regex are right: wherever the regex matches in a line, the matched bytes
  hold a member of every clause without ASCII case, unless they hold a letter outside ASCII that Go folds to an ASCII letter.
\<close>

theorem derived_clauses_sound:
  assumes "parse source = Inr tree" and "deriveClauses sf parse source = Inr cs" and "matches sf at_pos tree u s v"
  shows "(\<exists>l \<in> set foldLetters. sublist l s) \<or> (\<forall>c \<in> set cs. \<exists>k \<in> set c. sublist k (map ascii_lower s))"
  by (rule matches_derived [OF assms])

theorem derived_clauses_sound_witness:
  "(\<exists>l \<in> set foldLetters. sublist l [101, 82, 114]) \<or>
    (\<forall>c \<in> set [[[101, 114, 114]]]. \<exists>k \<in> set c. sublist k (map ascii_lower [101, 82, 114]))"
  by (rule derived_clauses_sound [OF refl sample_tree(1) sample_tree(2) [where at_pos = "\<lambda>_ _ _. True" and u = "[]" and v = "[]"]])

subsection \<open>Their form\<close>

definition clause_fits :: "bytes list \<Rightarrow> bool" where
  "clause_fits c \<longleftrightarrow> c \<noteq> [] \<and> length c \<le> maxSetLiterals \<and> distinct c \<and> (\<forall>k \<in> set c. minKeywordBytes \<le> length k)"

abbreviation facts_fit :: "facts \<Rightarrow> bool" where
  "facts_fit f \<equiv> \<forall>c \<in> set (fa_clauses f). clause_fits c"

lemma dedupe_onto_distinct: "distinct out \<Longrightarrow> distinct (dedupe_onto out lits)"
  by (induction out lits rule: dedupe_onto.induct) auto

lemma usableClause_fits: "usableClause lits = Some c \<Longrightarrow> clause_fits c"
proof -
  assume u: "usableClause lits = Some c"
  then have c: "c = dedupe lits" "length c \<le> maxSetLiterals" "lits \<noteq> []" "\<forall>s \<in> set lits. minKeywordBytes \<le> length s"
    by (auto simp: usableClause_def Let_def split: if_splits)
  then have "c \<noteq> []" using set_dedupe [of lits] by (metis set_empty)
  moreover have "distinct c" using c(1) by (simp add: dedupe_def dedupe_onto_distinct)
  ultimately show ?thesis using c by (simp add: clause_fits_def)
qed

lemma exactFacts_fit: "facts_fit (exactFacts lits)"
  using usableClause_fits by (auto simp: exactFacts_def split: option.splits)

lemma flush_run_fit: "f \<in> set (flush_run run) \<Longrightarrow> facts_fit f"
  using exactFacts_fit by (cases run) (auto simp: flush_run_def)

lemma join_runs_fit: "\<forall>f \<in> set items. facts_fit f \<Longrightarrow> \<forall>f \<in> set (join_runs run items). facts_fit f"
proof (induction run items rule: join_runs.induct)
  case (1 run)
  then show ?case using flush_run_fit by auto
next
  case (2 run item items)
  then show ?case using flush_run_fit exactFacts_fit by (auto split: option.splits)
qed

lemma analyzeSequence_fit:
  assumes "\<forall>f \<in> set items. facts_fit f"
  shows "facts_fit (analyzeSequence items)"
proof -
  have segs: "\<forall>f \<in> set (joinExactRuns items). facts_fit f" unfolding joinExactRuns_def by (rule join_runs_fit [OF assms])
  have "clause_fits c" if "i < length (joinExactRuns items)" "c \<in> set (segment_clauses (joinExactRuns items) i)" for i c
    using that segs usableClause_fits by (auto simp: segment_clauses_def split: if_splits option.splits)
  then show ?thesis
    using exactFacts_fit by (auto simp: analyzeSequence_def Let_def emptyWidth_def)
qed

lemma literal_pieces_fit: "\<forall>f \<in> set (literal_pieces sf folds piece rs). facts_fit f"
  by (induction sf folds piece rs rule: literal_pieces.induct)
    (auto simp: flush_piece_def no_facts_def dest: exactFacts_fit [THEN bspec] split: if_splits)

lemma analyze_fits:
  "facts_fit (analyze sf r)"
  "\<forall>f \<in> set (concatItems sf subs). facts_fit f"
proof (induction sf r and sf subs rule: analyze_concatItems.induct)
  case (1 sf folds rs)
  show ?case unfolding analyze.simps literalItems_def by (rule analyzeSequence_fit [OF literal_pieces_fit])
next
  case (3 sf subs)
  then show ?case using usableClause_fits by (auto simp: analyzeAlternation_def split: option.splits)
next
  case (21 sf sub subs)
  have "\<forall>f \<in> set (case sub of OpConcat ss \<Rightarrow> concatItems sf ss | OpLiteral folds rs \<Rightarrow> literalItems sf folds rs | _ \<Rightarrow> [analyze sf sub]).
      facts_fit f"
    using 21 literal_pieces_fit by (cases sub) (simp_all add: literalItems_def)
  moreover have "\<forall>f \<in> set (concatItems sf subs). facts_fit f" using 21 by blast
  ultimately show ?case unfolding concatItems.simps set_append ball_Un by (rule conjI)
qed (simp_all add: analyzeSequence_fit no_facts_def repeated_def emptyWidth_def exactFacts_fit)

lemma prune_from_subset: "set (prune_from n cs) \<subseteq> set cs" "length (prune_from n cs) \<le> length cs"
proof -
  have "set (prune_from n cs) \<subseteq> set cs \<and> length (prune_from n cs) \<le> length cs"
  proof (induction n arbitrary: cs)
    case (Suc i)
    define d where "d = (if \<exists>j \<in> set [0..<length cs]. j \<noteq> i \<and> implies (cs ! j) (cs ! i) then drop_index i cs else cs)"
    have "set (drop_index i cs) \<subseteq> set cs \<and> length (drop_index i cs) \<le> length cs"
      by (auto simp: drop_index_def dest: in_set_takeD in_set_dropD)
    then have "set d \<subseteq> set cs \<and> length d \<le> length cs" unfolding d_def by (cases "\<exists>j \<in> set [0..<length cs]. j \<noteq> i \<and> implies (cs ! j) (cs ! i)") (simp_all only: if_True if_False order_refl simp_thms)
    moreover have "prune_from (Suc i) cs = prune_from i d" by (simp only: prune_from.simps d_def)
    ultimately show ?case using Suc.IH [of d] by (metis le_trans subset_trans)
  qed simp
  then show "set (prune_from n cs) \<subseteq> set cs" "length (prune_from n cs) \<le> length cs" by blast+
qed

lemma drop_index_nth:
  "i < length xs \<Longrightarrow> drop_index i xs ! j = (if j < i then xs ! j else xs ! (j + 1))"
  by (auto simp: drop_index_def nth_append)

lemma prune_from_minimal:
  "n \<le> length cs \<Longrightarrow> \<forall>i j. n \<le> i \<longrightarrow> i < length cs \<longrightarrow> j < length cs \<longrightarrow> j \<noteq> i \<longrightarrow> \<not> implies (cs ! j) (cs ! i) \<Longrightarrow>
    \<forall>i j. i < length (prune_from n cs) \<longrightarrow> j < length (prune_from n cs) \<longrightarrow> j \<noteq> i \<longrightarrow>
      \<not> implies (prune_from n cs ! j) (prune_from n cs ! i)"
proof (induction n cs rule: prune_from.induct)
  case (1 kept)
  then show ?case by simp
next
  case (2 i kept)
  have i: "i < length kept" using "2.prems" by simp
  show ?case
  proof (cases "\<exists>j \<in> set [0..<length kept]. j \<noteq> i \<and> implies (kept ! j) (kept ! i)")
    case True
    have eq: "prune_from (Suc i) kept = prune_from i (drop_index i kept)" by (simp only: prune_from.simps True if_True)
    have len: "length (drop_index i kept) = length kept - 1" using i by (simp add: drop_index_def)
    have "\<not> implies (drop_index i kept ! b) (drop_index i kept ! a)"
      if "i \<le> a" "a < length kept - 1" "b < length kept - 1" "b \<noteq> a" for a b
      using "2.prems"(2) [rule_format, of "a + 1" "if b < i then b else b + 1"] that
      unfolding drop_index_nth [OF i] by (auto simp: less_diff_conv split: if_splits)
    then show ?thesis unfolding eq using "2.IH" [unfolded if_P [OF True]] i len by simp
  next
    case False
    have eq: "prune_from (Suc i) kept = prune_from i kept" by (simp only: prune_from.simps False if_False)
    have "\<not> implies (kept ! b) (kept ! a)" if "i \<le> a" "a < length kept" "b < length kept" "b \<noteq> a" for a b
      using "2.prems"(2) False that by (cases "a = i") auto
    then show ?thesis unfolding eq using "2.IH" [unfolded if_not_P [OF False]] i by simp
  qed
qed

lemma derived_form:
  assumes "deriveClauses sf parse source = Inr cs"
  shows "length cs \<le> maxClauses \<and> (\<forall>c \<in> set cs. clause_fits c) \<and>
    (\<forall>i < length cs. \<forall>j < length cs. j \<noteq> i \<longrightarrow> \<not> implies (cs ! j) (cs ! i))"
proof -
  obtain tree where cs: "cs = pruneClauses (take maxClauses (fa_clauses (analyze sf tree)))"
    using assms by (auto simp: deriveClauses_def split: sum.splits)
  let ?t = "take maxClauses (fa_clauses (analyze sf tree))"
  have "length cs \<le> length ?t" "set cs \<subseteq> set ?t" unfolding cs pruneClauses_def by (rule prune_from_subset)+
  moreover have "length ?t \<le> maxClauses" by simp
  moreover have "\<forall>c \<in> set ?t. clause_fits c" using analyze_fits(1) by (meson in_set_takeD)
  moreover have "\<forall>i j. i < length cs \<longrightarrow> j < length cs \<longrightarrow> j \<noteq> i \<longrightarrow> \<not> implies (cs ! j) (cs ! i)"
    unfolding cs pruneClauses_def by (rule prune_from_minimal [OF order_refl]) (meson leD)
  ultimately show ?thesis by (meson le_trans subsetD)
qed

text \<open>
  Claim C32. An anchor keeps at most 32 clauses, each with 1 to 64 different members of at least 3 bytes, and
  none that another one implies.
\<close>

theorem derived_clauses_bounds:
  assumes "deriveClauses sf parse source = Inr cs"
  shows "length cs \<le> maxClauses \<and> (\<forall>c \<in> set cs. clause_fits c) \<and>
    (\<forall>i < length cs. \<forall>j < length cs. j \<noteq> i \<longrightarrow> \<not> implies (cs ! j) (cs ! i))"
  by (rule derived_form [OF assms])

theorem derived_clauses_bounds_witness: "clause_fits [[101, 114, 114]]"
  using derived_clauses_bounds [OF sample_tree(1)] by simp

section \<open>The gate misses no match\<close>

lemma lower_fold_letters: "l \<in> set foldLetters \<Longrightarrow> low l = l"
  by (auto simp: foldLetters_def ascii_lower_def)

lemma sublist_low: "sublist k t \<Longrightarrow> sublist (low k) (low t)"
  unfolding sublist_def by (metis map_append)

text \<open>
  Claim C30. The gate never turns a match away: on any line an anchor regex matches, the gate built from the clauses
  derived from it lets its signature through.
\<close>

theorem gate_misses_no_match:
  assumes "new_gate sigs = Inr g" and "scratch_ok g s" and "si < length sigs"
    and "parse source = Inr tree" and "deriveClauses sf parse source = Inr (sigs ! si)"
    and "matches sf at_pos tree u m v"
  shows "passes g si (evaluate g (u @ m @ v) s)"
proof -
  have sub: "sublist (low m) (low (u @ m @ v))" by (auto simp: sublist_def)
  have "(\<exists>l \<in> set foldLetters. on_line l (u @ m @ v)) \<or> (\<forall>c \<in> set (sigs ! si). \<exists>k \<in> set c. on_line k (u @ m @ v))"
  proof (cases "no_fold m")
    case False
    then obtain l where l: "l \<in> set foldLetters" "sublist l m" by (auto simp: no_fold_def)
    then have "sublist (low l) (low (u @ m @ v))" using sublist_low sub by (meson sublist_order.order.trans)
    moreover have "u @ m @ v \<noteq> []" using l by (auto simp: foldLetters_def)
    ultimately show ?thesis using l(1) unfolding on_line_def by blast
  next
    case True
    then have nf: "\<not> (\<exists>l \<in> set foldLetters. sublist l m)" by (simp add: no_fold_def)
    have "\<exists>k \<in> set c. on_line k (u @ m @ v)" if c: "c \<in> set (sigs ! si)" for c
    proof -
      obtain k where k: "k \<in> set c" "sublist k (low m)"
        using matches_derived [OF assms(4-6)] nf c by blast
      then have "sublist (low k) (low (u @ m @ v))"
        using sublist_low [OF k(2)] sub unfolding map_map comp_def lower_idem by (meson sublist_order.order.trans)
      moreover have "k \<noteq> []" using derived_form [OF assms(5)] c k(1) unfolding clause_fits_def minKeywordBytes_def by fastforce
      ultimately show ?thesis using k by (auto simp: on_line_def intro!: bexI [of _ k])
    qed
    then show ?thesis by blast
  qed
  then show ?thesis using gate_lets_through [OF assms(1-3)] by blast
qed

theorem gate_misses_no_match_witness:
  "\<exists>g. passes g 0 (evaluate g [120, 101, 82, 114] (new_scratch g))"
proof -
  have "\<exists>d. build_dfa [[101, 114, 114], [0xE2, 0x84, 0xAA], [0xC5, 0xBF]] [[0], [-1], [-1]] = Inr d"
    by (rule build_dfa_small) (simp_all add: maxDFACells_def)
  then obtain g where g: "new_gate [[[[101, 114, 114]]]] = Inr g"
    by (auto simp: new_gate_def add_signature_def add_clause_def add_member_def foldLetters_def foldID_def Let_def)
  have ok: "scratch_ok g (new_scratch g)" by (simp add: scratch_ok_def new_scratch_def)
  have "deriveClauses id (\<lambda>_. Inr (OpLiteral True [69, 82, 82])) [] = Inr ([[[[101, 114, 114]]]] ! 0)"
    using sample_tree(1) by simp
  from gate_misses_no_match [OF g ok _ refl this sample_tree(2) [where at_pos = "\<lambda>_ _ _. True" and u = "[120]" and v = "[]"]]
  show ?thesis by (intro exI [of _ g]) simp
qed

end
