(* ===== verification/Redact.thy ===== *)
theory Redact
  imports ByteScans
begin

text \<open>
  Masking the secrets of a line, \<^verbatim>\<open>internal/sigscan/redact.go\<close>, and the excerpt text,
  \<^verbatim>\<open>matchers.go\<close>: the values of a line, a Knuth-Morris-Pratt scan per value that joins the
  occurrences into masked runs, and the text written out run by run.
\<close>

section \<open>Characters\<close>

text \<open>The size \<^verbatim>\<open>utf8.DecodeRune\<close> reports for bytes that are not empty, and whether they begin with a character.\<close>

definition decode_rune :: "bytes \<Rightarrow> nat \<times> bool" where
  "decode_rune p =
     (case p of
        [] \<Rightarrow> (0, False)
      | c # cs \<Rightarrow>
          (case utf8_first c of
             None \<Rightarrow> (1, False)
           | Some (w, lo, hi) \<Rightarrow> if rune_tail (w - 1) lo hi cs then (w, True) else (1, False)))"

abbreviation rune_size :: "bytes \<Rightarrow> nat" where
  "rune_size p \<equiv> fst (decode_rune p)"

lemma rune_width: "utf8_first c = Some (w, lo, hi) \<Longrightarrow> 1 \<le> w \<and> w \<le> 4"
  by (auto simp: utf8_first_def split: if_splits)

lemma decode_rune_size: "p \<noteq> [] \<Longrightarrow> 1 \<le> rune_size p \<and> rune_size p \<le> length p \<and> rune_size p \<le> 4"
  using rune_width by (cases p) (fastforce simp: decode_rune_def rune_tail_def split: option.splits)+

lemma decode_step: "i < length t \<Longrightarrow> (sz, valid) = decode_rune (drop i t) \<Longrightarrow> length t - (i + sz) < length t - i"
  using decode_rune_size [of "drop i t"] by (cases "decode_rune (drop i t)") auto

function rune_count :: "bytes \<Rightarrow> nat" where
  "rune_count [] = 0"
| "rune_count (c # cs) = Suc (rune_count (drop (rune_size (c # cs)) (c # cs)))"
  by pat_completeness auto
termination
proof (relation "measure length")
  fix c :: byte and cs
  show "(drop (rune_size (c # cs)) (c # cs), c # cs) \<in> measure length"
    using decode_rune_size [of "c # cs"] by (simp add: less_le_trans)
qed simp

section \<open>What a mask keeps\<close>

definition excerptBytes :: nat where "excerptBytes = 200"
definition maskKeepChars :: nat where "maskKeepChars = 4"
definition maskMaxStars :: nat where "maskMaxStars = 12"
definition UTFMax :: nat where "UTFMax = 4"

definition keepChars :: "nat \<Rightarrow> nat" where
  "keepChars n = min (n div 4) maskKeepChars"

fun kept_from :: "nat \<Rightarrow> bytes \<Rightarrow> nat \<Rightarrow> nat" where
  "kept_from 0 v n = n"
| "kept_from (Suc k) v n = kept_from k v (n + rune_size (drop n v))"

definition keptBytes :: "bytes \<Rightarrow> nat" where
  "keptBytes v = kept_from (keepChars (rune_count v)) v 0"

section \<open>Excerpt text\<close>

definition replacementChar :: bytes where
  "replacementChar = [0xEF, 0xBF, 0xBD]"

text \<open>The loop from position \<open>i\<close> of the text, with \<open>out\<close> written so far.\<close>

function valid_text_from :: "bytes \<Rightarrow> nat \<Rightarrow> nat \<Rightarrow> bytes \<Rightarrow> bytes \<times> nat" where
  "valid_text_from text limit i out =
     (if i < length text
      then (case decode_rune (drop i text) of (sz, valid) \<Rightarrow>
              let piece = (if valid then take sz (drop i text) else replacementChar)
              in if length out + length piece > limit then (out, i)
                 else valid_text_from text limit (i + sz) (out @ piece))
      else (out, i))"
  by pat_completeness auto
termination
  by (relation "measure (\<lambda>(t, limit, i, out). length t - i)")
    (auto dest: sym [of "(_, _)"] simp: decode_step)

declare valid_text_from.simps [simp del]

definition appendValidText :: "bytes \<Rightarrow> bytes \<Rightarrow> nat \<Rightarrow> bytes \<times> nat" where
  "appendValidText dst txt limit = (case valid_text_from txt limit 0 [] of (out, i) \<Rightarrow> (dst @ out, i))"

definition appendExcerpt :: "bytes \<Rightarrow> bytes \<Rightarrow> bytes" where
  "appendExcerpt dst view = fst (appendValidText dst (take (min (length view) (excerptBytes + UTFMax)) view) excerptBytes)"

section \<open>Finding the copies of a value\<close>

text \<open>
  \<open>fall_back\<close> is the inner loop of the automaton: it follows the failure links until the next byte of the value is
  \<open>c\<close>. Every link leads to a shorter match, so the length matched is fuel enough.
\<close>

fun fall_back :: "nat \<Rightarrow> bytes \<Rightarrow> nat list \<Rightarrow> byte \<Rightarrow> nat \<Rightarrow> nat \<Rightarrow> nat \<times> nat" where
  "fall_back fuel v fail c q steps =
     (if q > 0 \<and> v ! q \<noteq> c
      then (case fuel of 0 \<Rightarrow> (q, steps) | Suc fuel' \<Rightarrow> fall_back fuel' v fail c (fail ! (q - 1)) (steps + 1))
      else (q, steps))"

declare fall_back.simps [simp del]

definition match_byte :: "bytes \<Rightarrow> nat list \<Rightarrow> byte \<Rightarrow> nat \<Rightarrow> nat \<Rightarrow> nat \<times> nat" where
  "match_byte v fail c q steps =
     (case fall_back q v fail c q steps of (q', steps') \<Rightarrow>
        (if v ! q' = c then q' + 1 else q', steps' + 1))"

text \<open>The loop of \<^verbatim>\<open>newCopyScan\<close> from index \<open>i\<close>: \<open>fail\<close> holds the entries before \<open>i\<close>.\<close>

fun fail_from :: "bytes \<Rightarrow> byte list \<Rightarrow> nat \<Rightarrow> nat list \<Rightarrow> nat \<Rightarrow> nat list \<times> nat" where
  "fail_from v [] k fail steps = (fail, steps)"
| "fail_from v (c # cs) k fail steps =
     (case match_byte v fail c k steps of (k', steps') \<Rightarrow> fail_from v cs k' (fail @ [k']) steps')"

definition fail_table :: "bytes \<Rightarrow> nat \<Rightarrow> nat list \<times> nat" where
  "fail_table v steps = (case v of [] \<Rightarrow> ([], steps) | _ # cs \<Rightarrow> fail_from v cs 0 [0] steps)"

record masked_run =
  mr_start :: nat
  mr_end :: nat
  mr_keepEnd :: nat

text \<open>\<^verbatim>\<open>pending\<close> and \<^verbatim>\<open>hasPending\<close> are one option; the run is meaningful when \<open>sc_ready\<close>.\<close>

record copy_scan =
  sc_view :: bytes
  sc_value :: bytes
  sc_end :: nat
  sc_fail :: "nat list"
  sc_kept :: nat
  sc_i :: nat
  sc_q :: nat
  sc_run :: masked_run
  sc_ready :: bool
  sc_pending :: "nat option"
  sc_exhausted :: bool

definition newCopyScan :: "bytes \<Rightarrow> bytes \<Rightarrow> nat \<Rightarrow> nat \<Rightarrow> copy_scan \<times> nat" where
  "newCopyScan view v end_at steps =
     (case fail_table v steps of (fail, steps') \<Rightarrow>
        (\<lparr>sc_view = view, sc_value = v, sc_end = end_at, sc_fail = fail, sc_kept = keptBytes v, sc_i = 0, sc_q = 0,
          sc_run = \<lparr>mr_start = 0, mr_end = 0, mr_keepEnd = 0\<rparr>, sc_ready = False, sc_pending = None, sc_exhausted = False\<rparr>,
         steps'))"

text \<open>\<^verbatim>\<open>nextOccurrence\<close>: \<open>cs\<close> are the bytes of the view from \<open>i\<close> to the end of the scan.\<close>

fun find_next :: "bytes \<Rightarrow> nat list \<Rightarrow> bytes \<Rightarrow> nat \<Rightarrow> nat \<Rightarrow> nat \<Rightarrow> nat option \<times> nat \<times> nat \<times> nat" where
  "find_next v fail [] i q steps = (None, i, q, steps)"
| "find_next v fail (c # cs) i q steps =
     (case match_byte v fail c q steps of (q', steps') \<Rightarrow>
        if q' = length v then (Some (i + 1 - length v), i + 1, fail ! (q' - 1), steps')
        else find_next v fail cs (i + 1) q' steps')"

definition nextOccurrence :: "copy_scan \<Rightarrow> nat \<Rightarrow> nat option \<times> copy_scan \<times> nat" where
  "nextOccurrence s steps =
     (case find_next (sc_value s) (sc_fail s) (drop (sc_i s) (take (sc_end s) (sc_view s))) (sc_i s) (sc_q s) steps of
        (r, i, q, steps') \<Rightarrow> (r, s\<lparr>sc_i := i, sc_q := q\<rparr>, steps'))"

lemma find_next_progress:
  "find_next v fail cs i q steps = (Some x, i', q', steps') \<Longrightarrow> i < i' \<and> i' \<le> i + length cs"
proof (induction v fail cs i q steps rule: find_next.induct)
  case (2 v fail c cs i q steps)
  obtain k st where m: "match_byte v fail c q steps = (k, st)" by force
  show ?case
  proof (cases "k = length v")
    case False
    then show ?thesis using "2.IH" [OF m [symmetric] False] "2.prems" m by simp
  qed (use "2.prems" m in auto)
qed simp

lemma nextOccurrence_progress:
  "nextOccurrence s steps = (Some x, s', steps') \<Longrightarrow>
    sc_end s' = sc_end s \<and> sc_view s' = sc_view s \<and> sc_i s < sc_i s' \<and>
    min (sc_end s) (length (sc_view s)) - sc_i s' < min (sc_end s) (length (sc_view s)) - sc_i s"
  by (auto simp: nextOccurrence_def split: prod.splits dest!: find_next_progress)

text \<open>The loop of \<^verbatim>\<open>peek\<close> that joins the occurrences that overlap the run.\<close>

function extend_run :: "copy_scan \<Rightarrow> nat \<Rightarrow> copy_scan \<times> nat" where
  "extend_run s steps =
     (case nextOccurrence s steps of
        (None, s', steps') \<Rightarrow> (s'\<lparr>sc_exhausted := True\<rparr>, steps')
      | (Some nxt, s', steps') \<Rightarrow>
          if nxt \<ge> mr_end (sc_run s') then (s'\<lparr>sc_pending := Some nxt\<rparr>, steps')
          else extend_run (s'\<lparr>sc_run := (sc_run s')\<lparr>mr_end := nxt + length (sc_value s')\<rparr>\<rparr>) steps')"
  by pat_completeness auto
termination
  by (relation "measure (\<lambda>(s, steps). min (sc_end s) (length (sc_view s)) - sc_i s)")
    (auto dest!: sym [of "(Some _, _)"] nextOccurrence_progress)

declare extend_run.simps [simp del]

definition first_start :: "copy_scan \<Rightarrow> nat \<Rightarrow> nat option \<times> copy_scan \<times> nat" where
  "first_start s steps =
     (case sc_pending s of
        Some start \<Rightarrow> (Some start, s\<lparr>sc_pending := None\<rparr>, steps)
      | None \<Rightarrow> nextOccurrence s steps)"

definition peek :: "copy_scan \<Rightarrow> nat \<Rightarrow> bool \<times> copy_scan \<times> nat" where
  "peek s steps =
     (if sc_ready s then (True, s, steps)
      else if sc_exhausted s then (False, s, steps)
      else case first_start s steps of
             (None, s', steps') \<Rightarrow> (False, s'\<lparr>sc_exhausted := True\<rparr>, steps')
           | (Some start, s', steps') \<Rightarrow>
               (case extend_run
                       (s'\<lparr>sc_run := \<lparr>mr_start = start, mr_end = start + length (sc_value s'), mr_keepEnd = start + sc_kept s'\<rparr>\<rparr>)
                       steps' of
                  (s2, steps2) \<Rightarrow> (True, s2\<lparr>sc_ready := True\<rparr>, steps2)))"

section \<open>Writing the masked text\<close>

text \<open>The output of a redaction: the bytes written, and whether and where a mask was written first.\<close>

record redaction =
  re_out :: bytes
  re_masked :: bool
  re_firstMask :: nat
  re_steps :: nat

fun stars_from :: "bytes \<Rightarrow> nat \<Rightarrow> nat \<Rightarrow> nat" where
  "stars_from masked i 0 = 0"
| "stars_from masked i (Suc n) =
     (if i < length masked then Suc (stars_from masked (i + rune_size (drop i masked)) n) else 0)"

definition starsFor :: "bytes \<Rightarrow> nat" where
  "starsFor masked = max (stars_from masked 0 maskMaxStars) 1"

definition star :: byte where "star = 42"

text \<open>The end of the readable part moves back to the start of a character.\<close>

fun back_to_start :: "bytes \<Rightarrow> nat \<Rightarrow> nat \<Rightarrow> nat" where
  "back_to_start view lo 0 = 0"
| "back_to_start view lo (Suc k) =
     (if Suc k > lo \<and> \<not> rune_start (view ! Suc k) then back_to_start view lo k else Suc k)"

definition slice :: "bytes \<Rightarrow> nat \<Rightarrow> nat \<Rightarrow> bytes" where
  "slice view a b = drop a (take b view)"

definition appendRun :: "bytes \<Rightarrow> nat \<Rightarrow> nat \<Rightarrow> masked_run \<Rightarrow> int \<Rightarrow> redaction \<Rightarrow> redaction \<times> nat" where
  "appendRun view start pos run room r =
     (if int (mr_start run) - int pos \<ge> room
      then (r\<lparr>re_out := re_out r @ slice view pos (pos + nat room)\<rparr>, mr_start run)
      else (let r1 = r\<lparr>re_out := re_out r @ slice view pos (mr_start run)\<rparr>;
                r2 = (if re_masked r1 then r1 else r1\<lparr>re_masked := True, re_firstMask := length (re_out r1) - start\<rparr>);
                keepEnd = back_to_start view (mr_start run) (max (mr_start run) (min (mr_keepEnd run) (mr_end run - 1)))
            in (r2\<lparr>re_out := re_out r2 @ slice view (mr_start run) keepEnd
                               @ replicate (starsFor (slice view keepEnd (mr_end run))) star\<rparr>, mr_end run)))"

text \<open>The text after the last run.\<close>

definition append_rest :: "bytes \<Rightarrow> nat \<Rightarrow> nat \<Rightarrow> nat \<Rightarrow> redaction \<Rightarrow> redaction" where
  "append_rest view want start pos r =
     (let room = int want - int (length (re_out r) - start)
      in if room > 0 \<and> pos < length view
         then r\<lparr>re_out := re_out r @ slice view pos (min (length view) (pos + nat room))\<rparr> else r)"

fun append_runs_from :: "bytes \<Rightarrow> nat \<Rightarrow> nat \<Rightarrow> nat \<Rightarrow> masked_run list \<Rightarrow> redaction \<Rightarrow> redaction" where
  "append_runs_from view want start pos [] r = append_rest view want start pos r"
| "append_runs_from view want start pos (run # runs) r =
     (if length (re_out r) - start \<ge> want then r
      else case appendRun view start pos run (int want - int (length (re_out r) - start)) r of
             (r', pos') \<Rightarrow> append_runs_from view want start pos' runs r')"

definition appendRuns :: "bytes \<Rightarrow> nat \<Rightarrow> masked_run list \<Rightarrow> redaction \<Rightarrow> redaction" where
  "appendRuns view want runs r = append_runs_from view want (length (re_out r)) 0 runs r"

text \<open>\<^verbatim>\<open>firstRun\<close>: every scan is peeked; the first of those whose run starts first is taken.\<close>

fun peek_all :: "copy_scan list \<Rightarrow> nat \<Rightarrow> copy_scan list \<times> nat" where
  "peek_all [] steps = ([], steps)"
| "peek_all (s # ss) steps =
     (case peek s steps of (_, s', steps') \<Rightarrow> case peek_all ss steps' of (ss', steps2) \<Rightarrow> (s' # ss', steps2))"

fun best_scan :: "nat option \<Rightarrow> nat \<Rightarrow> copy_scan list \<Rightarrow> copy_scan list \<Rightarrow> nat option" where
  "best_scan best i all [] = best"
| "best_scan best i all (s # ss) =
     best_scan
       (if sc_ready s \<and> (case best of None \<Rightarrow> True | Some b \<Rightarrow> mr_start (sc_run s) < mr_start (sc_run (all ! b)))
        then Some i else best) (i + 1) all ss"

definition firstRun :: "copy_scan list \<Rightarrow> nat \<Rightarrow> masked_run option \<times> copy_scan list \<times> nat" where
  "firstRun scans steps =
     (case peek_all scans steps of (ss, steps') \<Rightarrow>
        case best_scan None 0 ss ss of
          None \<Rightarrow> (None, ss, steps')
        | Some b \<Rightarrow> (Some (sc_run (ss ! b)), ss[b := (ss ! b)\<lparr>sc_ready := False\<rparr>], steps'))"

text \<open>
  The loop of \<^verbatim>\<open>appendScans\<close>. Each round but the last takes a run, and the runs of one value start at
  different positions, so the positions times the values bound the rounds; no fuel left is \<open>None\<close>.
\<close>

fun append_scans_from ::
  "nat \<Rightarrow> bytes \<Rightarrow> nat \<Rightarrow> nat \<Rightarrow> nat \<Rightarrow> masked_run option \<Rightarrow> copy_scan list \<Rightarrow> redaction \<Rightarrow> redaction option" where
  "append_scans_from fuel view want start pos cur scans r =
     (if length (re_out r) - start \<ge> want then Some (append_rest view want start pos r)
      else case fuel of
        0 \<Rightarrow> None
      | Suc fuel' \<Rightarrow>
          (case firstRun scans (re_steps r) of
             (nxt, scans', steps) \<Rightarrow>
               (let r0 = r\<lparr>re_steps := steps\<rparr>;
                    flush = (case cur of None \<Rightarrow> False
                             | Some c \<Rightarrow> (case nxt of None \<Rightarrow> True | Some n \<Rightarrow> mr_start n \<ge> mr_end c));
                    (r1, pos1) = (if flush then appendRun view start pos (the cur) (int want - int (length (re_out r0) - start)) r0
                                  else (r0, pos));
                    cur1 = (if flush then None else cur)
                in case nxt of
                     None \<Rightarrow> Some (append_rest view want start pos1 r1)
                   | Some n \<Rightarrow>
                       append_scans_from fuel' view want start pos1
                         (Some (case cur1 of
                                  None \<Rightarrow> n
                                | Some c \<Rightarrow> c\<lparr>mr_end := max (mr_end c) (mr_end n), mr_keepEnd := min (mr_keepEnd c) (mr_keepEnd n)\<rparr>))
                         scans' r1)))"

declare append_scans_from.simps [simp del]

definition appendScans :: "bytes \<Rightarrow> nat \<Rightarrow> copy_scan list \<Rightarrow> redaction \<Rightarrow> redaction option" where
  "appendScans view want scans r =
     append_scans_from (length scans * (length view + 1) + 1) view want (length (re_out r)) 0 None scans r"

section \<open>The values of a line\<close>

definition maxRedactMatches :: nat where "maxRedactMatches = 4096"
definition maxRedactSeen :: nat where "maxRedactSeen = 64"
definition maxRedactValues :: nat where "maxRedactValues = 8"
definition maxRedactValueBytes :: nat where "maxRedactValueBytes = 256"
definition failClosedPrefixBytes :: nat where "failClosedPrefixBytes = 256"

type_synonym span = "nat \<times> nat"

text \<open>
  \<open>find_all\<close> stands for \<^verbatim>\<open>FindAllSubmatchIndex\<close> of the signature's regex, which hands over at most so many
  matches, each the start and the end of the match and of every group, -1 for a group that took no part.
\<close>

definition redactMatches :: "(bytes \<Rightarrow> int \<Rightarrow> int list list) \<Rightarrow> nat \<Rightarrow> bytes \<Rightarrow> span list" where
  "redactMatches find_all capture view =
     map (\<lambda>loc. if loc ! (2 * capture) \<ge> 0 then (nat (loc ! (2 * capture)), nat (loc ! (2 * capture + 1)))
                else (nat (loc ! 0), nat (loc ! 1)))
       (find_all view (int maxRedactMatches + 1))"

record line_values =
  lv_distinct :: "bytes list"
  lv_firstStart :: int
  lv_tooMany :: bool

text \<open>The set \<^verbatim>\<open>seen\<close> holds the values of \<^verbatim>\<open>distinct\<close>.\<close>

fun distinct_from :: "bytes \<Rightarrow> span list \<Rightarrow> bytes list \<Rightarrow> int \<Rightarrow> line_values" where
  "distinct_from view [] vals firstStart = \<lparr>lv_distinct = vals, lv_firstStart = firstStart, lv_tooMany = False\<rparr>"
| "distinct_from view (sp # sps) vals firstStart =
     (let v = slice view (fst sp) (snd sp)
      in if v = [] \<or> v \<in> set vals then distinct_from view sps vals firstStart
         else let first = (if firstStart < 0 then int (fst sp) else firstStart)
              in if length vals = maxRedactSeen then \<lparr>lv_distinct = vals, lv_firstStart = first, lv_tooMany = True\<rparr>
                 else distinct_from view sps (vals @ [v]) first)"

definition distinctValues :: "bytes \<Rightarrow> span list \<Rightarrow> line_values" where
  "distinctValues view vals =
     (if length vals > maxRedactMatches then \<lparr>lv_distinct = [[]], lv_firstStart = 0, lv_tooMany = True\<rparr>
      else distinct_from view vals [] (- 1))"

definition withinBounds :: "bytes list \<Rightarrow> bool" where
  "withinBounds vals \<longleftrightarrow> length vals \<le> maxRedactValues \<and> (\<forall>v \<in> set vals. length v \<le> maxRedactValueBytes)"

fun cut_before :: "bytes \<Rightarrow> bytes list \<Rightarrow> nat \<Rightarrow> nat \<Rightarrow> nat \<times> nat" where
  "cut_before view [] cut_at steps = (cut_at, steps)"
| "cut_before view (v # vs) cut_at steps =
     (case newCopyScan view v (min (length view) (cut_at + length v - 1)) steps of
        (s, steps1) \<Rightarrow>
          (case nextOccurrence s steps1 of
             (found, _, steps2) \<Rightarrow>
               cut_before view vs (case found of None \<Rightarrow> cut_at | Some p \<Rightarrow> min cut_at p) steps2))"

definition appendFailClosed :: "bytes \<Rightarrow> nat \<Rightarrow> bytes list \<Rightarrow> int \<Rightarrow> redaction \<Rightarrow> redaction" where
  "appendFailClosed view want vals firstStart r =
     (case cut_before view vals (nat (min firstStart (int failClosedPrefixBytes))) (re_steps r) of
        (cut_at, steps) \<Rightarrow>
          appendRuns view want [\<lparr>mr_start = cut_at, mr_end = length view, mr_keepEnd = cut_at\<rparr>] (r\<lparr>re_steps := steps\<rparr>))"

fun new_scans :: "bytes \<Rightarrow> bytes list \<Rightarrow> nat \<Rightarrow> copy_scan list \<times> nat" where
  "new_scans view [] steps = ([], steps)"
| "new_scans view (v # vs) steps =
     (case newCopyScan view v (length view) steps of (s, steps1) \<Rightarrow>
        case new_scans view vs steps1 of (ss, steps2) \<Rightarrow> (s # ss, steps2))"

definition append_to :: "bytes \<Rightarrow> span list \<Rightarrow> bytes \<Rightarrow> nat \<Rightarrow> redaction option" where
  "append_to view vals dst want =
     (let lv = distinctValues view vals;
          r = \<lparr>re_out = dst, re_masked = False, re_firstMask = 0, re_steps = 0\<rparr>
      in if lv_distinct lv = [] then Some (r\<lparr>re_out := dst @ take (min (length view) want) view\<rparr>)
         else if lv_tooMany lv then Some (appendRuns view want [\<lparr>mr_start = 0, mr_end = length view, mr_keepEnd = 0\<rparr>] r)
         else if \<not> withinBounds (lv_distinct lv) then Some (appendFailClosed view want (lv_distinct lv) (lv_firstStart lv) r)
         else case new_scans view (lv_distinct lv) 0 of (scans, steps) \<Rightarrow> appendScans view want scans (r\<lparr>re_steps := steps\<rparr>))"

definition appendRedactedExcerpt :: "bytes \<Rightarrow> bytes \<Rightarrow> span list \<Rightarrow> (bytes \<times> bool) option" where
  "appendRedactedExcerpt dst view vals =
     (case append_to view vals [] (excerptBytes + UTFMax) of
        None \<Rightarrow> None
      | Some r \<Rightarrow>
          (case appendValidText dst (re_out r) excerptBytes of
             (out, used) \<Rightarrow> Some (out, re_masked r \<and> re_firstMask r < used)))"

end
