(* ===== verification/RedactScan.thy ===== *)
theory RedactScan
  imports Redact "HOL-Library.Sublist"
begin

text \<open>
  The automaton of a copy scan: after any bytes it has matched the longest prefix of the value that ends
  there, so it finds every occurrence of the value, in order, and its steps are at most two for a byte.
\<close>

section \<open>The longest matched prefix\<close>

definition matched :: "bytes \<Rightarrow> bytes \<Rightarrow> nat" where
  "matched v w = Max {k. k < length v \<and> suffix (take k v) w}"

lemma matched_in:
  assumes "v \<noteq> []"
  shows "matched v w < length v" and "suffix (take (matched v w) v) w"
proof -
  have "0 \<in> {k. k < length v \<and> suffix (take k v) w}" using assms by simp
  then have "matched v w \<in> {k. k < length v \<and> suffix (take k v) w}" unfolding matched_def by (intro Max_in) auto
  then show "matched v w < length v" "suffix (take (matched v w) v) w" by simp_all
qed

lemma matched_ge: "k < length v \<Longrightarrow> suffix (take k v) w \<Longrightarrow> k \<le> matched v w"
  unfolding matched_def by (intro Max_ge) auto

lemma matched_eqI:
  assumes "k < length v" and "suffix (take k v) w" and "\<And>j. j < length v \<Longrightarrow> suffix (take j v) w \<Longrightarrow> j \<le> k"
  shows "matched v w = k"
  unfolding matched_def by (rule Max_eqI) (use assms in auto)

lemma matched_Nil: "v \<noteq> [] \<Longrightarrow> matched v [] = 0"
  by (rule matched_eqI) auto

text \<open>The failure links up to \<open>n\<close>: the longest prefix that ends properly inside the matched one.\<close>

definition links_ok :: "bytes \<Rightarrow> nat list \<Rightarrow> nat \<Rightarrow> bool" where
  "links_ok v fail n \<longleftrightarrow> (\<forall>j < n. fail ! j = matched v (tl (take (j + 1) v)))"

lemma suffix_tl_iff: "length u < length w \<Longrightarrow> suffix u (tl w) \<longleftrightarrow> suffix u w"
  by (cases w) (auto simp: suffix_Cons)

lemma link_next:
  assumes "links_ok v fail q" and "0 < q" and "q < length v" and "suffix (take q v) w"
  shows "fail ! (q - 1) < q" and "suffix (take (fail ! (q - 1)) v) w"
    and "k < q \<Longrightarrow> suffix (take k v) w \<Longrightarrow> k \<le> fail ! (q - 1)"
proof -
  have v: "v \<noteq> []" using assms(3) by auto
  have f: "fail ! (q - 1) = matched v (tl (take q v))" using assms(1,2) by (simp add: links_ok_def)
  note in_v = matched_in [OF v, of "tl (take q v)", folded f]
  have len: "length (tl (take q v)) = q - 1" using assms(3) by simp
  have "length (take (fail ! (q - 1)) v) \<le> q - 1" using suffix_length_le [OF in_v(2)] len by simp
  then show less: "fail ! (q - 1) < q" using in_v(1) assms(2) by simp
  have "suffix (take (fail ! (q - 1)) v) (take q v)"
    using in_v(2) suffix_tl suffix_order.trans by blast
  then show "suffix (take (fail ! (q - 1)) v) w" using assms(4) suffix_order.trans by blast
  show "k \<le> fail ! (q - 1)" if "k < q" "suffix (take k v) w"
  proof -
    have "suffix (take k v) (take q v)" by (rule suffix_length_suffix [OF that(2) assms(4)]) (use that(1) in simp)
    then have "suffix (take k v) (tl (take q v))" using that(1) assms(3) by (subst suffix_tl_iff) simp_all
    then show ?thesis unfolding f using that(1) assms(3) by (intro matched_ge) simp_all
  qed
qed

lemma fall_back_ok:
  assumes "links_ok v fail q" and "q \<le> fuel" and "q < length v" and "suffix (take q v) w"
  shows "\<exists>p st. fall_back fuel v fail c q steps = (p, st) \<and> p \<le> q \<and> suffix (take p v) w \<and> (p = 0 \<or> v ! p = c) \<and>
    (\<forall>k \<le> q. suffix (take k v) w \<longrightarrow> v ! k = c \<longrightarrow> k \<le> p) \<and> st + p \<le> steps + q"
  using assms
proof (induction fuel arbitrary: q steps)
  case 0
  then show ?case by (simp add: fall_back.simps)
next
  case (Suc fuel)
  show ?case
  proof (cases "q > 0 \<and> v ! q \<noteq> c")
    case False
    then show ?thesis using Suc.prems by (auto simp: fall_back.simps [of "Suc fuel"])
  next
    case True
    let ?p = "fail ! (q - 1)"
    note nxt = link_next [OF Suc.prems(1) _ Suc.prems(3,4)]
    have p: "?p < q" "suffix (take ?p v) w" using nxt(1,2) True by blast+
    have ok: "links_ok v fail ?p" using Suc.prems(1) order.strict_trans [OF _ p(1)] unfolding links_ok_def by blast
    have le: "?p \<le> fuel" "?p < length v" using p(1) Suc.prems(2,3) by simp_all
    obtain p' st where r: "fall_back fuel v fail c ?p (steps + 1) = (p', st)" "p' \<le> ?p" "suffix (take p' v) w"
      "p' = 0 \<or> v ! p' = c" "\<forall>k \<le> ?p. suffix (take k v) w \<longrightarrow> v ! k = c \<longrightarrow> k \<le> p'" "st + p' \<le> steps + 1 + ?p"
      using Suc.IH [OF ok le p(2), of "steps + 1"] by blast
    have "fall_back (Suc fuel) v fail c q steps = (p', st)" using True r(1) by (simp add: fall_back.simps [of "Suc fuel"])
    moreover have "k \<le> p'" if "k \<le> q" "suffix (take k v) w" "v ! k = c" for k
      using nxt(3) [of k] that True r(5) by (cases "k = q") auto
    ultimately show ?thesis using r p(1) by auto
  qed
qed

text \<open>One byte more: the longest prefix of the value, the whole value included, that ends there.\<close>

lemma take_snoc_suffix:
  "k < length v \<Longrightarrow> suffix (take (Suc k) v) (w @ [c]) \<longleftrightarrow> suffix (take k v) w \<and> v ! k = c"
  by (auto simp: take_Suc_conv_app_nth)

lemma match_byte_ok:
  assumes v: "v \<noteq> []" and links: "links_ok v fail (matched v w)"
  shows "\<exists>p st. match_byte v fail c (matched v w) steps = (p, st) \<and> p \<le> length v \<and> suffix (take p v) (w @ [c]) \<and>
    (\<forall>k \<le> length v. suffix (take k v) (w @ [c]) \<longrightarrow> k \<le> p) \<and> st + p \<le> steps + matched v w + 2"
proof -
  let ?q = "matched v w"
  note q = matched_in [OF v, of w]
  obtain p st where r: "fall_back ?q v fail c ?q steps = (p, st)" "p \<le> ?q" "suffix (take p v) w" "p = 0 \<or> v ! p = c"
    "\<forall>k \<le> ?q. suffix (take k v) w \<longrightarrow> v ! k = c \<longrightarrow> k \<le> p" "st + p \<le> steps + ?q"
    using fall_back_ok [OF links order_refl q, of c steps] by blast
  have p: "p < length v" using r(2) q(1) by simp
  have best: "k \<le> (if v ! p = c then p + 1 else p)" if "k \<le> length v" "suffix (take k v) (w @ [c])" for k
  proof (cases k)
    case (Suc j)
    then have j: "suffix (take j v) w" "v ! j = c" "j < length v" using that take_snoc_suffix [of j v w c] by auto
    then have "j \<le> p" using r(5) matched_ge [of j v w] by blast
    moreover have "v ! p = c" using r(4) j \<open>j \<le> p\<close> by (cases "p = 0") auto
    ultimately show ?thesis using Suc by simp
  qed simp
  have "suffix (take (if v ! p = c then p + 1 else p) v) (w @ [c])"
    using r(3,4) take_snoc_suffix [OF p, of w c] by auto
  moreover have "match_byte v fail c ?q steps = (if v ! p = c then p + 1 else p, st + 1)"
    using r(1) by (simp add: match_byte_def)
  ultimately show ?thesis using best p r(6) by (auto split: if_splits)
qed

lemma match_matched:
  assumes "v \<noteq> []" and "links_ok v fail (matched v w)" and "match_byte v fail c (matched v w) steps = (p, st)"
  shows "p < length v \<Longrightarrow> p = matched v (w @ [c])" and "p = length v \<longleftrightarrow> suffix v (w @ [c])" and "p \<le> length v"
    and "st + p \<le> steps + matched v w + 2"
proof -
  have m: "p \<le> length v" "suffix (take p v) (w @ [c])" "\<forall>k \<le> length v. suffix (take k v) (w @ [c]) \<longrightarrow> k \<le> p"
    "st + p \<le> steps + matched v w + 2"
    using match_byte_ok [OF assms(1,2), of c steps] assms(3) by auto
  show "p \<le> length v" "st + p \<le> steps + matched v w + 2" by (rule m)+
  show "p = matched v (w @ [c])" if "p < length v" using matched_eqI [OF that m(2)] m(3) by simp
  show "p = length v \<longleftrightarrow> suffix v (w @ [c])" using m(1-3) by (auto dest: spec [of _ "length v"])
qed

section \<open>The failure table\<close>

lemma fail_from_ok:
  assumes "v \<noteq> []" and "tl v = w @ cs" and "length fail = length w + 1" and "links_ok v fail (length fail)"
    and "fail_from v cs (matched v w) fail steps = (fail', st)"
  shows "length fail' = length v \<and> links_ok v fail' (length v) \<and> st + matched v (tl v) \<le> steps + matched v w + 2 * length cs"
  using assms(2-5)
proof (induction cs arbitrary: w fail steps)
  case Nil
  then have "length v = length w + 1" using assms(1) by (cases v) simp_all
  then show ?case using Nil by simp
next
  case (Cons c cs)
  let ?q = "matched v w"
  obtain p st1 where m: "match_byte v fail c ?q steps = (p, st1)" by force
  have wlen: "length w < length (tl v)" using Cons.prems(1) by simp
  have "?q \<le> length w"
    using suffix_length_le [OF matched_in(2) [OF assms(1), of w]] matched_in(1) [OF assms(1), of w] by simp
  then have links: "links_ok v fail ?q" using Cons.prems(2,3) by (simp add: links_ok_def)
  note mm = match_matched [OF assms(1) links m]
  have "\<not> suffix v (w @ [c])"
    using wlen by (auto dest!: suffix_length_le)
  then have p: "p = matched v (w @ [c])" using mm(1-3) by auto
  have w1: "tl v = (w @ [c]) @ cs" using Cons.prems(1) by simp
  have entry: "matched v (w @ [c]) = matched v (tl (take (length w + 2) v))"
  proof -
    have "tl (take (length w + 2) v) = take (length w + 1) (tl v)" by (simp add: tl_take)
    then show ?thesis unfolding w1 by simp
  qed
  have "links_ok v (fail @ [p]) (length (fail @ [p]))"
    using Cons.prems(2,3) entry unfolding p links_ok_def by (auto simp: nth_append less_Suc_eq)
  moreover have "fail_from v cs (matched v (w @ [c])) (fail @ [p]) st1 = (fail', st)"
    using Cons.prems(4) m p by simp
  ultimately have "length fail' = length v \<and> links_ok v fail' (length v) \<and>
      st + matched v (tl v) \<le> st1 + matched v (w @ [c]) + 2 * length cs"
    using Cons.IH [OF w1, of "fail @ [p]" st1] Cons.prems(2) by simp
  then show ?case using mm(4) p by auto
qed

lemma fail_table_ok:
  assumes "v \<noteq> []" and "fail_table v steps = (fail, st)"
  shows "links_ok v fail (length v)" and "length fail = length v" and "st \<le> steps + 2 * length v"
proof -
  obtain c cs where v: "v = c # cs" using assms(1) by (cases v) auto
  have "links_ok v [0] (length [0])" using matched_Nil [OF assms(1)] by (simp add: links_ok_def v)
  moreover have "fail_from v cs (matched v []) [0] steps = (fail, st)"
    using assms(2) matched_Nil [OF assms(1)] by (simp add: fail_table_def v)
  ultimately have "length fail = length v \<and> links_ok v fail (length v) \<and> st + matched v (tl v) \<le> steps + matched v [] + 2 * length cs"
    using fail_from_ok [OF assms(1), of "[]" cs "[0]" steps] by (simp add: v)
  then show "links_ok v fail (length v)" "length fail = length v" "st \<le> steps + 2 * length v"
    using matched_Nil [OF assms(1)] v by auto
qed

section \<open>Occurrences\<close>

definition occs :: "bytes \<Rightarrow> bytes \<Rightarrow> nat set" where
  "occs v t = {s. s + length v \<le> length t \<and> take (length v) (drop s t) = v}"

lemma occs_suffix: "s + length v \<le> length t \<Longrightarrow> s \<in> occs v t \<longleftrightarrow> suffix v (take (s + length v) t)"
proof -
  assume s: "s + length v \<le> length t"
  have split: "take (s + length v) t = take s t @ take (length v) (drop s t)" by (rule take_add)
  show ?thesis
  proof
    assume "suffix v (take (s + length v) t)"
    then have "suffix v (take s t @ take (length v) (drop s t))" by (simp only: split)
    then have "v = take (length v) (drop s t)"
      using s by (auto simp: suffix_def append_eq_append_conv)
    then show "s \<in> occs v t" using s by (simp add: occs_def)
  qed (use split in \<open>auto simp: occs_def suffix_def\<close>)
qed

text \<open>The automaton has read \<open>i\<close> bytes of the text.\<close>

lemma find_next_ok:
  assumes "v \<noteq> []" and "links_ok v fail (length v)" and "t = w @ cs" and "i = length w" and "q = matched v w"
    and "find_next v fail cs i q steps = (r, i', q', st)"
  shows "i \<le> i' \<and> i' \<le> length t \<and> q' = matched v (take i' t) \<and> st + q' \<le> steps + q + 2 * (i' - i) \<and>
    (case r of
       None \<Rightarrow> i' = length t \<and> (\<forall>s \<in> occs v t. s + length v \<le> i)
     | Some x \<Rightarrow> x \<in> occs v t \<and> i' = x + length v \<and> i < i' \<and> (\<forall>s \<in> occs v t. s < x \<longrightarrow> s + length v \<le> i))"
  using assms(3-)
proof (induction cs arbitrary: w i q steps)
  case Nil
  then show ?case by (auto simp: occs_def)
next
  case (Cons c cs)
  note v = assms(1)
  obtain p st1 where m: "match_byte v fail c q steps = (p, st1)" by force
  have links: "links_ok v fail (matched v w)" using assms(2) matched_in(1) [OF v, of w] by (simp add: links_ok_def)
  note mm = match_matched [OF v links m [unfolded Cons.prems(3)]]
  have w1: "t = (w @ [c]) @ cs" using Cons.prems(1) by simp
  then have tk: "take (i + 1) t = w @ [c]" using Cons.prems(2) by simp
  have here: "s \<in> occs v t \<longleftrightarrow> suffix v (w @ [c])" if "s + length v = i + 1" for s
    using that occs_suffix [of s v t] tk w1 Cons.prems(2) by simp
  show ?case
  proof (cases "p = length v")
    case True
    then have sv: "suffix v (w @ [c])" using mm(2) by blast
    then have x: "i + 1 - length v \<in> occs v t" "i + 1 - length v + length v = i + 1"
      using here [of "i + 1 - length v"] suffix_length_le [OF sv] Cons.prems(2) by auto
    have "matched v (w @ [c]) = matched v (tl v)"
    proof (rule matched_eqI)
      show "matched v (tl v) < length v" by (rule matched_in(1) [OF v])
      have "suffix (take (matched v (tl v)) v) v" using matched_in(2) [OF v, of "tl v"] suffix_tl suffix_order.trans by blast
      then show "suffix (take (matched v (tl v)) v) (w @ [c])" using sv suffix_order.trans by blast
      fix j assume j: "j < length v" "suffix (take j v) (w @ [c])"
      have "suffix (take j v) v" by (rule suffix_length_suffix [OF j(2) sv]) (use j(1) in simp)
      then have "suffix (take j v) (tl v)" using j(1) by (subst suffix_tl_iff) simp_all
      then show "j \<le> matched v (tl v)" using j(1) by (intro matched_ge)
    qed
    moreover have "fail ! (length v - 1) = matched v (tl v)" using assms(2) v by (simp add: links_ok_def)
    moreover have "fail ! (length v - 1) + 1 \<le> length v"
      using calculation(2) matched_in(1) [OF v, of "tl v"] by simp
    moreover have "r = Some (i + 1 - length v) \<and> i' = i + 1 \<and> q' = fail ! (length v - 1) \<and> st = st1"
      using Cons.prems(4) m True by auto
    ultimately show ?thesis using x tk w1 Cons.prems(2,3) mm(4) True by auto
  next
    case False
    have p: "p = matched v (w @ [c])" using mm(1,3) False by simp
    have no: "s + length v \<noteq> i + 1" if "s \<in> occs v t" for s using here [of s] that mm(2) False by blast
    have next_call: "find_next v fail cs (i + 1) p st1 = (r, i', q', st)" using Cons.prems(4) m False by simp
    have "i + 1 \<le> i' \<and> i' \<le> length t \<and> q' = matched v (take i' t) \<and> st + q' \<le> st1 + p + 2 * (i' - (i + 1)) \<and>
      (case r of
         None \<Rightarrow> i' = length t \<and> (\<forall>s \<in> occs v t. s + length v \<le> i + 1)
       | Some x \<Rightarrow> x \<in> occs v t \<and> i' = x + length v \<and> i + 1 < i' \<and> (\<forall>s \<in> occs v t. s < x \<longrightarrow> s + length v \<le> i + 1))"
      by (rule Cons.IH [OF w1 _ p next_call]) (simp add: Cons.prems(2))
    moreover have "s + length v \<le> i" if "s \<in> occs v t" "s + length v \<le> i + 1" for s
      using no [OF that(1)] that(2) by simp
    ultimately show ?thesis using mm(4) Cons.prems(3) by (auto split: option.splits)
  qed
qed

section \<open>A scan\<close>

text \<open>
  A scan of the whole view, or of a part of it that ends at \<open>sc_end\<close>; \<open>scan_text\<close> is the text it
  reads.
\<close>

definition scan_text :: "copy_scan \<Rightarrow> bytes" where
  "scan_text s = take (sc_end s) (sc_view s)"

definition scan_ok :: "copy_scan \<Rightarrow> bool" where
  "scan_ok s \<longleftrightarrow> sc_value s \<noteq> [] \<and> links_ok (sc_value s) (sc_fail s) (length (sc_value s)) \<and>
     sc_i s \<le> length (scan_text s) \<and> sc_q s = matched (sc_value s) (take (sc_i s) (scan_text s))"

text \<open>What a scan never changes.\<close>

definition same_scan :: "copy_scan \<Rightarrow> copy_scan \<Rightarrow> bool" where
  "same_scan s s' \<longleftrightarrow> sc_view s' = sc_view s \<and> sc_value s' = sc_value s \<and> sc_end s' = sc_end s \<and> sc_fail s' = sc_fail s \<and>
     sc_kept s' = sc_kept s"

lemma nextOccurrence_ok:
  assumes "scan_ok s" and "nextOccurrence s steps = (r, s', steps')"
  shows "scan_ok s'" and "s' = s\<lparr>sc_i := sc_i s', sc_q := sc_q s'\<rparr>" and "sc_i s \<le> sc_i s'"
    and "steps' + sc_q s' + 2 * sc_i s \<le> steps + sc_q s + 2 * sc_i s'"
    and "case r of
       None \<Rightarrow> \<forall>x \<in> occs (sc_value s) (scan_text s). x + length (sc_value s) \<le> sc_i s
     | Some x \<Rightarrow> x \<in> occs (sc_value s) (scan_text s) \<and> sc_i s' = x + length (sc_value s) \<and> sc_i s < sc_i s' \<and>
         (\<forall>y \<in> occs (sc_value s) (scan_text s). y < x \<longrightarrow> y + length (sc_value s) \<le> sc_i s)"
proof -
  let ?v = "sc_value s" and ?t = "scan_text s" and ?i = "sc_i s"
  obtain i' q' where f: "find_next ?v (sc_fail s) (drop ?i ?t) ?i (sc_q s) steps = (r, i', q', steps')"
    and s': "s' = s\<lparr>sc_i := i', sc_q := q'\<rparr>"
    using assms(2) by (auto simp: nextOccurrence_def scan_text_def split: prod.splits)
  have ok: "?v \<noteq> []" "links_ok ?v (sc_fail s) (length ?v)" "?i \<le> length ?t" "sc_q s = matched ?v (take ?i ?t)"
    using assms(1) by (simp_all add: scan_ok_def)
  have "?t = take ?i ?t @ drop ?i ?t" "?i = length (take ?i ?t)" using ok(3) by simp_all
  note res = find_next_ok [OF ok(1,2) this ok(4) f]
  show "s' = s\<lparr>sc_i := sc_i s', sc_q := sc_q s'\<rparr>" by (simp add: s')
  show "scan_ok s'" using ok res by (simp add: scan_ok_def s' scan_text_def)
  have "?i \<le> i'" "steps' + q' \<le> steps + sc_q s + 2 * (i' - ?i)" using res by blast+
  then show "sc_i s \<le> sc_i s'" "steps' + sc_q s' + 2 * sc_i s \<le> steps + sc_q s + 2 * sc_i s'" by (simp_all add: s')
  show "case r of
       None \<Rightarrow> \<forall>x \<in> occs ?v ?t. x + length ?v \<le> ?i
     | Some x \<Rightarrow> x \<in> occs ?v ?t \<and> sc_i s' = x + length ?v \<and> ?i < sc_i s' \<and> (\<forall>y \<in> occs ?v ?t. y < x \<longrightarrow> y + length ?v \<le> ?i)"
    using res by (auto simp: s' split: option.splits)
qed

text \<open>
  The occurrences a scan still has to hand over: those of its next run on, those from the pending one on, or
  those that end after what it has read.
\<close>

abbreviation scan_occs :: "copy_scan \<Rightarrow> nat set" where
  "scan_occs s \<equiv> occs (sc_value s) (scan_text s)"

definition untaken :: "copy_scan \<Rightarrow> nat set" where
  "untaken s =
     (if sc_ready s then {x \<in> scan_occs s. mr_start (sc_run s) \<le> x}
      else case sc_pending s of
        Some p \<Rightarrow> {x \<in> scan_occs s. p \<le> x}
      | None \<Rightarrow> if sc_exhausted s then {} else {x \<in> scan_occs s. sc_i s < x + length (sc_value s)})"

definition covers :: "masked_run \<Rightarrow> copy_scan \<Rightarrow> nat \<Rightarrow> bool" where
  "covers run s x \<longleftrightarrow> mr_start run \<le> x \<and> x + length (sc_value s) \<le> mr_end run \<and> mr_keepEnd run \<le> x + sc_kept s"

definition run_found :: "copy_scan \<Rightarrow> bool" where
  "run_found s \<longleftrightarrow> mr_start (sc_run s) \<in> scan_occs s \<and> mr_start (sc_run s) < mr_end (sc_run s) \<and> mr_end (sc_run s) \<le> length (scan_text s) \<and>
     (\<forall>x \<in> scan_occs s. mr_start (sc_run s) \<le> x \<longrightarrow>
        covers (sc_run s) s x \<or> (\<exists>p. sc_pending s = Some p \<and> p \<le> x)) \<and>
     (sc_pending s = None \<longrightarrow> sc_exhausted s) \<and>
     (\<forall>p. sc_pending s = Some p \<longrightarrow> mr_end (sc_run s) \<le> p)"

definition scan_state :: "copy_scan \<Rightarrow> bool" where
  "scan_state s \<longleftrightarrow> scan_ok s \<and> (sc_ready s \<longrightarrow> run_found s) \<and>
     (\<forall>p. sc_pending s = Some p \<longrightarrow> p \<in> scan_occs s \<and> sc_i s = p + length (sc_value s) \<and> \<not> sc_exhausted s)"

lemma scan_text_update [simp]:
  "scan_text (s\<lparr>sc_i := i\<rparr>) = scan_text s" "scan_text (s\<lparr>sc_q := q\<rparr>) = scan_text s" "scan_text (s\<lparr>sc_run := r\<rparr>) = scan_text s"
  "scan_text (s\<lparr>sc_ready := b\<rparr>) = scan_text s" "scan_text (s\<lparr>sc_pending := p\<rparr>) = scan_text s"
  "scan_text (s\<lparr>sc_exhausted := e\<rparr>) = scan_text s"
  by (simp_all add: scan_text_def)

lemma scan_ok_update [simp]:
  "scan_ok (s\<lparr>sc_run := r\<rparr>) = scan_ok s" "scan_ok (s\<lparr>sc_ready := b\<rparr>) = scan_ok s" "scan_ok (s\<lparr>sc_pending := p\<rparr>) = scan_ok s"
  "scan_ok (s\<lparr>sc_exhausted := e\<rparr>) = scan_ok s"
  by (simp_all add: scan_ok_def)

text \<open>A run that grows: it covers every occurrence from its start on that has been read, and ends where the reading is.\<close>

definition growing :: "copy_scan \<Rightarrow> bool" where
  "growing s \<longleftrightarrow> scan_ok s \<and> mr_start (sc_run s) \<in> scan_occs s \<and> mr_start (sc_run s) < mr_end (sc_run s) \<and> mr_end (sc_run s) = sc_i s \<and>
     mr_keepEnd (sc_run s) = mr_start (sc_run s) + sc_kept s \<and> sc_pending s = None \<and> \<not> sc_exhausted s"

lemma extend_run_ok:
  "growing s \<Longrightarrow> extend_run s steps = (s', steps') \<Longrightarrow>
    scan_ok s' \<and> run_found s' \<and> same_scan s s' \<and> sc_ready s' = sc_ready s \<and> mr_start (sc_run s') = mr_start (sc_run s) \<and>
    (\<forall>p. sc_pending s' = Some p \<longrightarrow> p \<in> scan_occs s' \<and> sc_i s' = p + length (sc_value s') \<and> \<not> sc_exhausted s') \<and>
    steps' + sc_q s' + 2 * sc_i s \<le> steps + sc_q s + 2 * sc_i s'"
proof (induction s steps arbitrary: s' steps' rule: extend_run.induct)
  case (1 s steps)
  obtain r s1 steps1 where n: "nextOccurrence s steps = (r, s1, steps1)" by (metis prod_cases3)
  have start: "mr_start (sc_run s) \<in> scan_occs s" using "1.prems"(1) by (simp add: growing_def)
  have g: "scan_ok s" "mr_start (sc_run s) < mr_end (sc_run s)" "mr_end (sc_run s) = sc_i s"
    "mr_keepEnd (sc_run s) = mr_start (sc_run s) + sc_kept s" "sc_pending s = None" "\<not> sc_exhausted s"
    using "1.prems"(1) by (simp_all add: growing_def)
  note no = nextOccurrence_ok [OF g(1) n]
  obtain i q where s1: "s1 = s\<lparr>sc_i := i, sc_q := q\<rparr>" using no(2) by blast
  have end_in: "mr_end (sc_run s) \<le> length (scan_text s)" using g(1,3) by (simp add: scan_ok_def)
  have read: "covers (sc_run s) s x" if "x + length (sc_value s) \<le> sc_i s" "mr_start (sc_run s) \<le> x" for x
    using that g(3,4) by (simp add: covers_def)
  show ?case
  proof (cases r)
    case None
    then have s': "s' = s1\<lparr>sc_exhausted := True\<rparr>" "steps' = steps1"
      using "1.prems"(2) n by (simp_all add: extend_run.simps [of s])
    have "\<forall>x \<in> scan_occs s. x + length (sc_value s) \<le> sc_i s" using no(5) None by simp
    then show ?thesis
      using no(1,4) g read end_in start unfolding s' s1 by (simp add: run_found_def same_scan_def covers_def)
  next
    case (Some x)
    have x: "x \<in> scan_occs s" "i = x + length (sc_value s)" "\<forall>y \<in> scan_occs s. y < x \<longrightarrow> y + length (sc_value s) \<le> sc_i s"
      using no(5) Some s1 by simp_all
    show ?thesis
    proof (cases "x \<ge> mr_end (sc_run s1)")
      case True
      then have s': "s' = s1\<lparr>sc_pending := Some x\<rparr>" "steps' = steps1"
        using "1.prems"(2) n Some by (simp_all add: extend_run.simps [of s])
      have "covers (sc_run s) s y \<or> x \<le> y" if "y \<in> scan_occs s" "mr_start (sc_run s) \<le> y" for y
        using that x(3) read by (cases "y < x") auto
      then show ?thesis
        using no(1,4) g end_in x True start unfolding s' s1 by (auto simp: run_found_def same_scan_def covers_def)
    next
      case False
      define s2 where "s2 = s1\<lparr>sc_run := (sc_run s1)\<lparr>mr_end := x + length (sc_value s1)\<rparr>\<rparr>"
      have call: "extend_run s2 steps1 = (s', steps')"
        using "1.prems"(2) n Some False by (simp add: extend_run.simps [of s] s2_def)
      have "sc_i s \<le> i" using no(3) s1 by simp
      then have "growing s2"
        using no(1) g x(2) start unfolding s2_def s1 growing_def by simp
      note IH = "1.IH" [OF n [symmetric] Some refl False this [unfolded s2_def] call [unfolded s2_def]]
      show ?thesis
        using IH no(4) unfolding s1 by (auto simp: same_scan_def)
    qed
  qed
qed

definition pot :: "copy_scan \<Rightarrow> int" where
  "pot s = 2 * int (sc_i s) - int (sc_q s)"

lemma same_scan_text: "same_scan s s' \<Longrightarrow> scan_text s' = scan_text s"
  by (simp add: same_scan_def scan_text_def)

lemma same_scan_refl: "same_scan s s"
  by (simp add: same_scan_def)

lemma same_scan_trans: "same_scan a b \<Longrightarrow> same_scan b c \<Longrightarrow> same_scan a c"
  by (simp add: same_scan_def)

lemma peek_from:
  assumes ok: "scan_ok s" and at_end: "sc_i s = start + length (sc_value s)" and start: "start \<in> scan_occs s"
    and none: "sc_pending s = None" "\<not> sc_exhausted s"
    and ext: "extend_run (s\<lparr>sc_run := \<lparr>mr_start = start, mr_end = start + length (sc_value s), mr_keepEnd = start + sc_kept s\<rparr>\<rparr>)
      steps = (s', steps')"
  shows "scan_state (s'\<lparr>sc_ready := True\<rparr>) \<and> same_scan s (s'\<lparr>sc_ready := True\<rparr>) \<and>
    untaken (s'\<lparr>sc_ready := True\<rparr>) = {x \<in> scan_occs s. start \<le> x} \<and> int steps' - pot s' \<le> int steps - pot s"
proof -
  let ?s = "s\<lparr>sc_run := \<lparr>mr_start = start, mr_end = start + length (sc_value s), mr_keepEnd = start + sc_kept s\<rparr>\<rparr>"
  have "0 < length (sc_value s)" using ok by (simp add: scan_ok_def)
  then have "growing ?s" using ok at_end start none by (simp add: growing_def)
  note e = extend_run_ok [OF this ext]
  have same: "same_scan s s'" using e by (simp add: same_scan_def)
  have occ: "scan_occs s' = scan_occs s" using same same_scan_text [OF same] by (simp add: same_scan_def)
  have rf: "run_found (s'\<lparr>sc_ready := True\<rparr>) = run_found s'" by (simp add: run_found_def covers_def)
  have "scan_ok s'" "run_found s'"
    "\<forall>p. sc_pending s' = Some p \<longrightarrow> p \<in> scan_occs s' \<and> sc_i s' = p + length (sc_value s') \<and> \<not> sc_exhausted s'"
    using e by blast+
  then have state: "scan_state (s'\<lparr>sc_ready := True\<rparr>)"
    unfolding scan_state_def rf by simp
  have "untaken (s'\<lparr>sc_ready := True\<rparr>) = {x \<in> scan_occs s. start \<le> x}"
    using e occ by (simp add: untaken_def)
  moreover have "same_scan s (s'\<lparr>sc_ready := True\<rparr>)" using same by (simp add: same_scan_def)
  moreover have "int steps' - pot s' \<le> int steps - pot s" using e by (simp add: pot_def)
  ultimately show ?thesis using state by blast
qed

lemma peek_ok:
  assumes "scan_state s" and "peek s steps = (b, s', steps')"
  shows "scan_state s' \<and> same_scan s s' \<and> untaken s' = untaken s \<and> sc_ready s' = b \<and> (\<not> b \<longrightarrow> untaken s' = {}) \<and>
    int steps' - pot s' \<le> int steps - pot s"
proof (cases "sc_ready s \<or> sc_exhausted s")
  case True
  have "sc_exhausted s \<Longrightarrow> sc_pending s = None" using assms(1) unfolding scan_state_def by (cases "sc_pending s") auto
  then show ?thesis using True assms by (auto simp: peek_def untaken_def same_scan_refl split: if_splits)
next
  case False
  have ok: "scan_ok s" using assms(1) by (simp add: scan_state_def)
  show ?thesis
  proof (cases "sc_pending s")
    case (Some p)
    let ?s = "s\<lparr>sc_pending := None\<rparr>"
    obtain s2 st where e: "extend_run (?s\<lparr>sc_run := \<lparr>mr_start = p, mr_end = p + length (sc_value ?s), mr_keepEnd = p + sc_kept ?s\<rparr>\<rparr>)
        steps = (s2, st)" by force
    have r: "b = True \<and> s' = s2\<lparr>sc_ready := True\<rparr> \<and> steps' = st"
      using assms(2) False Some e by (simp add: peek_def first_start_def)
    have p: "p \<in> scan_occs s" "sc_i s = p + length (sc_value s)" using assms(1) Some by (simp_all add: scan_state_def)
    have "scan_state (s2\<lparr>sc_ready := True\<rparr>) \<and> same_scan ?s (s2\<lparr>sc_ready := True\<rparr>) \<and>
        untaken (s2\<lparr>sc_ready := True\<rparr>) = {x \<in> scan_occs ?s. p \<le> x} \<and> int st - pot s2 \<le> int steps - pot ?s"
      by (rule peek_from [OF _ _ _ _ _ e]) (use ok p False in simp_all)
    moreover from this have "untaken s2' = {x \<in> scan_occs s. p \<le> x}" if "s2' = s2\<lparr>sc_ready := True\<rparr>" for s2'
      using that by simp
    moreover have "untaken s = {x \<in> scan_occs s. p \<le> x}" using False Some by (simp add: untaken_def)
    ultimately show ?thesis using r by (simp add: same_scan_def pot_def)
  next
    case None
    obtain r s1 st1 where n: "nextOccurrence s steps = (r, s1, st1)" by (metis prod_cases3)
    note no = nextOccurrence_ok [OF ok n]
    obtain i q where s1: "s1 = s\<lparr>sc_i := i, sc_q := q\<rparr>" using no(2) by blast
    have u: "untaken s = {x \<in> scan_occs s. sc_i s < x + length (sc_value s)}" using False None by (simp add: untaken_def)
    show ?thesis
    proof (cases r)
      case r: None
      have s': "b = False \<and> s' = s1\<lparr>sc_exhausted := True\<rparr> \<and> steps' = st1"
        using assms(2) False None n r by (simp add: peek_def first_start_def)
      have "untaken s = {}" using u no(5) r by fastforce
      then show ?thesis
        using s' no(1,4) None False unfolding s1 by (simp add: scan_state_def untaken_def same_scan_def pot_def)
    next
      case r: (Some x)
      obtain s2 st where e: "extend_run (s1\<lparr>sc_run := \<lparr>mr_start = x, mr_end = x + length (sc_value s1), mr_keepEnd = x + sc_kept s1\<rparr>\<rparr>)
          st1 = (s2, st)" by force
      have s': "b = True \<and> s' = s2\<lparr>sc_ready := True\<rparr> \<and> steps' = st"
        using assms(2) False None n r e by (simp add: peek_def first_start_def)
      have x: "x \<in> scan_occs s" "i = x + length (sc_value s)" "sc_i s < i"
        "\<forall>y \<in> scan_occs s. y < x \<longrightarrow> y + length (sc_value s) \<le> sc_i s" using no(5) r s1 by simp_all
      have "scan_state (s2\<lparr>sc_ready := True\<rparr>) \<and> same_scan s1 (s2\<lparr>sc_ready := True\<rparr>) \<and>
          untaken (s2\<lparr>sc_ready := True\<rparr>) = {y \<in> scan_occs s1. x \<le> y} \<and> int st - pot s2 \<le> int st1 - pot s1"
        by (rule peek_from [OF no(1) _ _ _ _ e]) (use x None False in \<open>simp_all add: s1\<close>)
      moreover have "{y \<in> scan_occs s1. x \<le> y} = untaken s"
        using x(2-4) unfolding u s1 by (auto simp: not_le)
      moreover have "int st1 - pot s1 \<le> int steps - pot s" using no(4) unfolding s1 by (simp add: pot_def)
      ultimately show ?thesis using s' unfolding s1 by (simp add: same_scan_def pot_def)
    qed
  qed
qed

text \<open>Taking a run: what it does not cover starts after it.\<close>

lemma take_run_ok:
  assumes "scan_state s" and "sc_ready s"
  defines "s' \<equiv> s\<lparr>sc_ready := False\<rparr>"
  shows "scan_state s'" and "untaken s' \<subseteq> untaken s" and "\<forall>x \<in> untaken s. covers (sc_run s) s x \<or> x \<in> untaken s'"
    and "\<forall>x \<in> untaken s'. mr_end (sc_run s) \<le> x" and "mr_start (sc_run s) \<in> untaken s" and "same_scan s s'"
proof -
  have r: "run_found s" using assms(1,2) by (simp add: scan_state_def)
  show "scan_state s'" "same_scan s s'" using assms(1) by (simp_all add: scan_state_def s'_def same_scan_def)
  have u: "untaken s = {x \<in> scan_occs s. mr_start (sc_run s) \<le> x}" using assms(2) by (simp add: untaken_def)
  have u': "untaken s' = (case sc_pending s of Some p \<Rightarrow> {x \<in> scan_occs s. p \<le> x} | None \<Rightarrow> {})"
    using r unfolding s'_def by (auto simp: untaken_def run_found_def split: option.splits)
  show "untaken s' \<subseteq> untaken s" "\<forall>x \<in> untaken s. covers (sc_run s) s x \<or> x \<in> untaken s'"
    "\<forall>x \<in> untaken s'. mr_end (sc_run s) \<le> x" "mr_start (sc_run s) \<in> untaken s"
    using r unfolding u u' run_found_def by (force split: option.splits)+
qed

end
