(* ===== verification/RedactMask.thy ===== *)
theory RedactMask
  imports RedactScan
begin

text \<open>
  The scans taken together: each round hands over the run that starts first, no occurrence is lost between
  the rounds, and the text written out of the runs shows no byte a mask hides.
\<close>

section \<open>The scans of one view\<close>

definition scans_of :: "bytes \<Rightarrow> copy_scan list \<Rightarrow> bool" where
  "scans_of view ss \<longleftrightarrow> (\<forall>s \<in> set ss. scan_state s \<and> scan_text s = view \<and> sc_kept s = keptBytes (sc_value s))"

lemma scans_of_simps [simp]:
  "scans_of view []"
  "scans_of view (s # ss) \<longleftrightarrow>
     scan_state s \<and> scan_text s = view \<and> sc_kept s = keptBytes (sc_value s) \<and> scans_of view ss"
  by (simp_all add: scans_of_def)

definition pots :: "copy_scan list \<Rightarrow> int" where
  "pots ss = sum_list (map pot ss)"

definition left_over :: "copy_scan list \<Rightarrow> nat" where
  "left_over ss = sum_list (map (\<lambda>s. card (untaken s)) ss)"

definition left_of :: "copy_scan list \<Rightarrow> (bytes \<times> nat) set" where
  "left_of ss = {(sc_value s, x) | s x. s \<in> set ss \<and> x \<in> untaken s}"

lemma left_of_simps [simp]:
  "left_of [] = {}"
  "left_of (s # ss) = {sc_value s} \<times> untaken s \<union> left_of ss"
  by (auto simp: left_of_def)

lemma untaken_occs: "untaken s \<subseteq> scan_occs s"
  by (auto simp: untaken_def split: option.splits)

lemma occs_finite: "finite (occs v t)"
  by (rule finite_subset [of _ "{..length t}"]) (auto simp: occs_def)

lemma untaken_finite: "finite (untaken s)"
  by (rule finite_subset [OF untaken_occs occs_finite])

lemma peek_all_ok:
  assumes "scans_of view ss" and "peek_all ss steps = (ss', steps')"
  shows "scans_of view ss' \<and> length ss' = length ss \<and> map sc_value ss' = map sc_value ss \<and> map untaken ss' = map untaken ss \<and>
    (\<forall>s \<in> set ss'. \<not> sc_ready s \<longrightarrow> untaken s = {}) \<and> int steps' - pots ss' \<le> int steps - pots ss"
  using assms
proof (induction ss arbitrary: steps ss' steps')
  case (Cons s ss)
  obtain b s1 st1 where p: "peek s steps = (b, s1, st1)" by (metis prod_cases3)
  obtain ss1 st2 where r: "peek_all ss st1 = (ss1, st2)" by force
  have out: "ss' = s1 # ss1" "steps' = st2" using Cons.prems(2) p r by simp_all
  have ok: "scan_state s" "scan_text s = view" "sc_kept s = keptBytes (sc_value s)" "scans_of view ss"
    using Cons.prems(1) by simp_all
  note one = peek_ok [OF ok(1) p]
  then have same: "same_scan s s1" by blast
  have "scan_text s1 = view" "sc_kept s1 = keptBytes (sc_value s1)" "sc_value s1 = sc_value s"
    using same_scan_text [OF same] ok(2,3) same by (simp_all add: same_scan_def)
  then show ?case using one Cons.IH [OF ok(4) r] unfolding out by (auto simp: pots_def)
qed (simp add: pots_def)

lemma left_of_map:
  assumes "map sc_value ss' = map sc_value ss" and "map untaken ss' = map untaken ss"
  shows "left_of ss' = left_of ss" and "left_over ss' = left_over ss"
proof -
  have "length ss' = length ss" using assms(1) by (rule map_eq_imp_length_eq)
  then show "left_of ss' = left_of ss" "left_over ss' = left_over ss"
    using assms by (induction ss' ss rule: list_induct2) (auto simp: left_over_def)
qed

lemma best_scan_ok:
  assumes "rest = drop i all" and "i \<le> length all"
    and "case best of
           None \<Rightarrow> \<forall>j < i. \<not> sc_ready (all ! j)
         | Some b \<Rightarrow> b < i \<and> sc_ready (all ! b) \<and>
             (\<forall>j < i. sc_ready (all ! j) \<longrightarrow> mr_start (sc_run (all ! b)) \<le> mr_start (sc_run (all ! j)))"
  shows "case best_scan best i all rest of
           None \<Rightarrow> \<forall>j < length all. \<not> sc_ready (all ! j)
         | Some b \<Rightarrow> b < length all \<and> sc_ready (all ! b) \<and>
             (\<forall>j < length all. sc_ready (all ! j) \<longrightarrow> mr_start (sc_run (all ! b)) \<le> mr_start (sc_run (all ! j)))"
  using assms
proof (induction rest arbitrary: i best)
  case Nil
  then have "i = length all" by simp
  then show ?case using Nil.prems(3) by (cases best) simp_all
next
  case (Cons s rest)
  have i: "i < length all" using Cons.prems(1) by (metis drop_all list.distinct(1) not_le)
  have s: "s = all ! i" "rest = drop (i + 1) all" using Cons.prems(1) i by (simp_all add: Cons_nth_drop_Suc [symmetric])
  let ?better = "sc_ready s \<and> (case best of None \<Rightarrow> True | Some b \<Rightarrow> mr_start (sc_run s) < mr_start (sc_run (all ! b)))"
  have "case (if ?better then Some i else best) of
           None \<Rightarrow> \<forall>j < i + 1. \<not> sc_ready (all ! j)
         | Some b \<Rightarrow> b < i + 1 \<and> sc_ready (all ! b) \<and>
             (\<forall>j < i + 1. sc_ready (all ! j) \<longrightarrow> mr_start (sc_run (all ! b)) \<le> mr_start (sc_run (all ! j)))"
    using Cons.prems(3) unfolding s(1) by (cases best) (auto simp: less_Suc_eq split: if_splits)
  from Cons.IH [OF s(2) _ this] i show ?case by simp
qed

text \<open>An occurrence of a value that a run masks as the value asks for.\<close>

definition covered :: "masked_run \<Rightarrow> bytes \<Rightarrow> nat \<Rightarrow> bool" where
  "covered run v x \<longleftrightarrow> mr_start run \<le> x \<and> x + length v \<le> mr_end run \<and> mr_keepEnd run \<le> x + keptBytes v"

lemma left_over_update:
  assumes "b < length ss" and "untaken s' \<subset> untaken (ss ! b)"
  shows "left_over (ss[b := s']) < left_over ss"
proof -
  have "card (untaken s') < card (untaken (ss ! b))" by (rule psubset_card_mono [OF untaken_finite assms(2)])
  then show ?thesis using assms(1)
    by (induction ss arbitrary: b) (auto simp: left_over_def nth_Cons split: nat.splits)
qed

lemma pots_update: "b < length ss \<Longrightarrow> pot s' = pot (ss ! b) \<Longrightarrow> pots (ss[b := s']) = pots ss"
  by (induction ss arbitrary: b) (auto simp: pots_def nth_Cons split: nat.splits)

lemma firstRun_ok:
  assumes ok: "scans_of view ss" and run: "firstRun ss steps = (n, ss', steps')"
  shows "scans_of view ss' \<and> map sc_value ss' = map sc_value ss \<and> int steps' - pots ss' \<le> int steps - pots ss \<and>
    (case n of
       None \<Rightarrow> left_of ss = {}
     | Some r \<Rightarrow> mr_start r < mr_end r \<and> mr_end r \<le> length view \<and> left_over ss' < left_over ss \<and> left_of ss' \<subseteq> left_of ss \<and>
         (\<exists>v. (v, mr_start r) \<in> left_of ss) \<and>
         (\<forall>(v, x) \<in> left_of ss. mr_start r \<le> x \<and> (covered r v x \<or> (v, x) \<in> left_of ss')))"
proof -
  obtain s1 st1 where p: "peek_all ss steps = (s1, st1)" by force
  note all = peek_all_ok [OF ok p]
  have left: "left_of s1 = left_of ss" "left_over s1 = left_over ss" using left_of_map all by blast+
  have best: "case best_scan None 0 s1 s1 of
           None \<Rightarrow> \<forall>j < length s1. \<not> sc_ready (s1 ! j)
         | Some b \<Rightarrow> b < length s1 \<and> sc_ready (s1 ! b) \<and>
             (\<forall>j < length s1. sc_ready (s1 ! j) \<longrightarrow> mr_start (sc_run (s1 ! b)) \<le> mr_start (sc_run (s1 ! j)))"
    by (rule best_scan_ok) simp_all
  show ?thesis
  proof (cases "best_scan None 0 s1 s1")
    case None
    then have "\<forall>s \<in> set s1. \<not> sc_ready s" using best by (auto simp: in_set_conv_nth)
    then have "left_of s1 = {}" using all by (auto simp: left_of_def)
    moreover have "n = None" "ss' = s1" "steps' = st1" using run p None by (simp_all add: firstRun_def)
    ultimately show ?thesis using all left by simp
  next
    case (Some b)
    let ?s = "s1 ! b"
    let ?s' = "?s\<lparr>sc_ready := False\<rparr>"
    have out: "n = Some (sc_run ?s)" "ss' = s1[b := ?s']" "steps' = st1" using run p Some by (simp_all add: firstRun_def)
    have b: "b < length s1" "sc_ready ?s" "\<And>s. s \<in> set s1 \<Longrightarrow> sc_ready s \<Longrightarrow> mr_start (sc_run ?s) \<le> mr_start (sc_run s)"
      using best Some by (auto simp: in_set_conv_nth)
    have st: "scan_state ?s" "scan_text ?s = view" "sc_kept ?s = keptBytes (sc_value ?s)"
      using all b(1) by (auto simp: scans_of_def)
    note take = take_run_ok [OF st(1) b(2)]
    have rf: "run_found ?s" using st(1) b(2) by (simp add: scan_state_def)
    have "mr_start (sc_run ?s) \<notin> untaken ?s'"
      using take(4) rf by (auto simp: run_found_def)
    then have "untaken ?s' \<subset> untaken ?s" using take(2,5) by blast
    then have less: "left_over ss' < left_over ss" using left_over_update [OF b(1)] left out by simp
    have same_values: "map sc_value ss' = map sc_value ss"     proof -
      have "map sc_value ss' = map sc_value s1" using b(1) unfolding out by (simp add: map_update list_update_same_conv)
      then show ?thesis using all by simp
    qed
    have ok': "scans_of view ss'"
      using all take(1) st unfolding out scans_of_def by (auto dest!: set_update_subset_insert [THEN subsetD])
    have potq: "pots ss' = pots s1" unfolding out by (rule pots_update [OF b(1)]) (simp add: pot_def)
    have "left_of ss' \<subseteq> left_of s1"
    proof
      fix p assume "p \<in> left_of ss'"
      then obtain s x where p: "p = (sc_value s, x)" "s \<in> set ss'" "x \<in> untaken s" unfolding left_of_def by blast
      then have "s = ?s' \<or> s \<in> set s1" unfolding out by (auto dest!: set_update_subset_insert [THEN subsetD])
      then show "p \<in> left_of s1"
      proof
        assume s: "s = ?s'"
        then have "p = (sc_value ?s, x)" "x \<in> untaken ?s" using p take(2) by auto
        then show ?thesis using nth_mem [OF b(1)] unfolding left_of_def by blast
      qed (use p in \<open>auto simp: left_of_def\<close>)
    qed
    then have sub: "left_of ss' \<subseteq> left_of ss" using left(1) by simp
    have "mr_start (sc_run ?s) \<le> x \<and> (covered (sc_run ?s) v x \<or> (v, x) \<in> left_of ss')" if "(v, x) \<in> left_of ss" for v x
    proof -
      have "(v, x) \<in> left_of s1" using \<open>(v, x) \<in> left_of ss\<close> left(1) by simp
      then obtain j where j: "j < length s1" "v = sc_value (s1 ! j)" "x \<in> untaken (s1 ! j)"
        unfolding left_of_def by (auto simp: in_set_conv_nth)
      then have "sc_ready (s1 ! j)" using all nth_mem [OF j(1)] by auto
      then have "mr_start (sc_run (s1 ! j)) \<le> x" "mr_start (sc_run ?s) \<le> mr_start (sc_run (s1 ! j))"
        using j b(3) by (auto simp: untaken_def)
      moreover have "covered (sc_run ?s) v x \<or> (v, x) \<in> left_of ss'"
      proof (cases "j = b")
        case True
        then have "covers (sc_run ?s) ?s x \<or> x \<in> untaken ?s'" using take(3) j(3) by blast
        moreover have "?s' \<in> set ss'" unfolding out by (rule set_update_memI [OF b(1)])
        moreover have "sc_value ?s' = v" using j True by simp
        ultimately show ?thesis using j True st(3) unfolding left_of_def covered_def covers_def by fastforce
      next
        case False
        then have "s1 ! j \<in> set ss'" unfolding out using j(1) by (auto simp: in_set_conv_nth intro!: exI [of _ j])
        then show ?thesis using j unfolding left_of_def by blast
      qed
      ultimately show ?thesis by simp
    qed
    moreover have "(sc_value ?s, mr_start (sc_run ?s)) \<in> left_of ss"
      using take(5) nth_mem [OF b(1)] unfolding left(1) [symmetric] unfolding left_of_def by blast
    ultimately show ?thesis
      using ok' same_values less sub potq all rf st(2) out by (auto simp: run_found_def)
  qed
qed


section \<open>Text with masks\<close>

text \<open>
  The bytes \<open>out\<close> show the view up to \<open>b\<close>: in order, copies of bytes that \<open>ok\<close> allows, and stars in the
  place of parts that are not empty.
\<close>

inductive masked_text :: "bytes \<Rightarrow> (nat \<Rightarrow> bool) \<Rightarrow> bytes \<Rightarrow> nat \<Rightarrow> bool" for view ok where
  masked_Nil: "masked_text view ok [] 0"
| masked_byte: "masked_text view ok out b \<Longrightarrow> b < length view \<Longrightarrow> ok b \<Longrightarrow> masked_text view ok (out @ [view ! b]) (b + 1)"
| masked_stars: "masked_text view ok out b \<Longrightarrow> b < c \<Longrightarrow> c \<le> length view \<Longrightarrow> 0 < n \<Longrightarrow> n \<le> maskMaxStars \<Longrightarrow> masked_text view ok (out @ replicate n star) c"

text \<open>A byte of a copy of a value that the value's mask hides.\<close>

definition hidden :: "bytes \<Rightarrow> bytes list \<Rightarrow> nat \<Rightarrow> bool" where
  "hidden view vals j \<longleftrightarrow> (\<exists>v \<in> set vals. \<exists>x \<in> occs v view. x + keptBytes v \<le> j \<and> j < x + length v)"

lemma slice_step:
  assumes "a < b" and "b \<le> length view"
  shows "slice view a b = slice view a (b - 1) @ [view ! (b - 1)]"
proof -
  have "take b view = take (b - 1) view @ [view ! (b - 1)]"
    using assms take_Suc_conv_app_nth [of "b - 1" view] by simp
  then show ?thesis using assms by (simp add: slice_def)
qed

lemma length_slice: "b \<le> length view \<Longrightarrow> length (slice view a b) = b - a"
  by (simp add: slice_def)

lemma slice_empty: "b \<le> a \<Longrightarrow> slice view a b = []"
  by (simp add: slice_def)

lemma masked_slice:
  assumes "masked_text view ok out a" and "a \<le> b" and "b \<le> length view" and "\<And>j. a \<le> j \<Longrightarrow> j < b \<Longrightarrow> ok j"
  shows "masked_text view ok (out @ slice view a b) b"
  using assms(2-)
proof (induction "b - a" arbitrary: b)
  case 0
  then show ?case using assms(1) by (simp add: slice_empty)
next
  case (Suc k)
  have "masked_text view ok (out @ slice view a (b - 1)) (b - 1)" using Suc by (intro Suc.hyps(1)) auto
  then have "masked_text view ok ((out @ slice view a (b - 1)) @ [view ! (b - 1)]) (b - 1 + 1)"
    using Suc by (intro masked_byte) auto
  then show ?case using Suc slice_step [of a b view] by simp
qed

lemma stars_from_le: "stars_from m i n \<le> n"
  by (induction m i n rule: stars_from.induct) auto

lemma starsFor_bounds: "0 < starsFor m" "starsFor m \<le> maskMaxStars"
  using stars_from_le [of m 0 maskMaxStars] by (simp_all add: starsFor_def maskMaxStars_def)

lemma back_to_start_bounds: "lo \<le> k \<Longrightarrow> lo \<le> back_to_start view lo k \<and> back_to_start view lo k \<le> k"
  by (induction k) (auto simp: le_Suc_eq)

lemma appendRun_shows:
  assumes "masked_text view ok body pos" and "re_out r = dst @ body" and "length dst = start"
    and "pos \<le> mr_start run" and "mr_start run < mr_end run" and "mr_end run \<le> length view" and "0 < room"
    and clear: "\<And>j. pos \<le> j \<Longrightarrow> j < mr_start run \<Longrightarrow> ok j"
    and kept: "\<And>j. mr_start run \<le> j \<Longrightarrow> j < mr_end run \<Longrightarrow> j < mr_keepEnd run \<Longrightarrow> ok j"
    and call: "appendRun view start pos run room r = (r', pos')"
  shows "\<exists>body' p. re_out r' = dst @ body' \<and> masked_text view ok body' p \<and> p \<le> length view \<and> re_steps r' = re_steps r \<and>
    (p = pos' \<and> pos' = mr_end run \<or> int (length body') = int (length body) + room)"
proof (cases "int (mr_start run) - int pos \<ge> room")
  case True
  let ?e = "pos + nat room"
  have e: "?e \<le> mr_start run" "pos \<le> ?e" using True assms(7) by linarith+
  have "masked_text view ok (body @ slice view pos ?e) ?e"
    by (rule masked_slice [OF assms(1) e(2)]) (use e assms(5,6) clear in auto)
  moreover have "re_out r' = dst @ (body @ slice view pos ?e)" "re_steps r' = re_steps r"
    using call True assms(2) by (auto simp: appendRun_def)
  moreover have "?e \<le> length view" using e(1) assms(5,6) by linarith
  ultimately show ?thesis using assms(7) by (fastforce simp: length_slice)
next
  case False
  let ?lo = "mr_start run" and ?hi = "max (mr_start run) (min (mr_keepEnd run) (mr_end run - 1))"
  define k where "k = back_to_start view ?lo ?hi"
  let ?n = "starsFor (slice view k (mr_end run))"
  have k: "?lo \<le> k" "k \<le> ?hi" using back_to_start_bounds [of ?lo ?hi view] by (simp_all add: k_def)
  then have k_end: "k < mr_end run" using assms(5) by simp
  have "masked_text view ok (body @ slice view pos ?lo) ?lo"
    by (rule masked_slice [OF assms(1,4)]) (use assms(5,6) clear in auto)
  then have "masked_text view ok ((body @ slice view pos ?lo) @ slice view ?lo k) k"
    by (rule masked_slice) (use k k_end assms(5,6) kept in auto)
  then have "masked_text view ok (((body @ slice view pos ?lo) @ slice view ?lo k) @ replicate ?n star) (mr_end run)"
    by (rule masked_stars [OF _ k_end assms(6) starsFor_bounds])
  moreover have "re_out r' = dst @ (((body @ slice view pos ?lo) @ slice view ?lo k) @ replicate ?n star)"
    "re_steps r' = re_steps r" "pos' = mr_end run"
    using call False assms(2) by (auto simp: appendRun_def Let_def k_def)
  ultimately show ?thesis using assms(6) by blast
qed

lemma append_rest_shows:
  assumes "masked_text view ok body p" and "p \<le> length view" and "re_out r = dst @ body" and "length dst = start"
    and clear: "p = pos \<and> (\<forall>j \<ge> pos. j < length view \<longrightarrow> ok j) \<or> want \<le> length body"
  shows "\<exists>body' p'. re_out (append_rest view want start pos r) = dst @ body' \<and> masked_text view ok body' p' \<and>
    re_steps (append_rest view want start pos r) = re_steps r \<and> (pos = p \<longrightarrow> want \<le> length body' \<or> p' = length view)"
proof (cases "want \<le> length body \<or> length view \<le> pos")
  case True
  then have "append_rest view want start pos r = r" using assms(3,4) by (auto simp: append_rest_def)
  then show ?thesis using True assms(1-3) by (intro exI [of _ body] exI [of _ p]) auto
next
  case False
  let ?e = "min (length view) (pos + (want - length body))"
  have "masked_text view ok (body @ slice view pos ?e) ?e"
    using assms(1) clear False by (intro masked_slice) auto
  moreover have "nat (int want - int (length body)) = want - length body" by simp
  ultimately show ?thesis
    using False assms(3,4) by (auto simp: append_rest_def Let_def length_slice intro!: exI [of _ "body @ slice view pos ?e"])
qed

end
