(* ===== verification/RedactLoop.thy ===== *)
theory RedactLoop
  imports RedactMask
begin

text \<open>
  The loop of \<^verbatim>\<open>appendScans\<close>: between its rounds every copy of a value is behind the text written, in the run
  at hand, or still with its scan.
\<close>

section \<open>The state between the rounds\<close>

abbreviation readable :: "bytes \<Rightarrow> bytes list \<Rightarrow> nat \<Rightarrow> bool" where
  "readable view vals \<equiv> \<lambda>j. \<not> hidden view vals j"

definition accounted :: "bytes \<Rightarrow> bytes list \<Rightarrow> nat \<Rightarrow> masked_run option \<Rightarrow> copy_scan list \<Rightarrow> bool" where
  "accounted view vals pos cur scans \<longleftrightarrow>
     (\<forall>v \<in> set vals. \<forall>x \<in> occs v view.
        x + length v \<le> pos \<or> (\<exists>c. cur = Some c \<and> covered c v x) \<or> (v, x) \<in> left_of scans)"

definition run_ready :: "bytes \<Rightarrow> nat \<Rightarrow> masked_run option \<Rightarrow> copy_scan list \<Rightarrow> bool" where
  "run_ready view pos cur scans \<longleftrightarrow>
     (case cur of
        None \<Rightarrow> pos = 0
      | Some c \<Rightarrow> pos \<le> mr_start c \<and> mr_start c < mr_end c \<and> mr_end c \<le> length view \<and>
          (\<forall>(v, x) \<in> left_of scans. mr_start c \<le> x))"

text \<open>The text is long enough, or it shows the view up to \<open>pos\<close>.\<close>

definition written :: "bytes \<Rightarrow> bytes list \<Rightarrow> nat \<Rightarrow> nat \<Rightarrow> bytes \<Rightarrow> bool" where
  "written view vals want pos body \<longleftrightarrow>
     (\<exists>p \<le> length view. masked_text view (readable view vals) body p \<and> (p = pos \<or> want \<le> length body))"

lemma clear_of_accounted:
  assumes "accounted view vals pos cur scans" and "hidden view vals j" and "pos \<le> j"
  obtains v x where "v \<in> set vals" and "x + keptBytes v \<le> j" and "j < x + length v"
    and "(\<exists>c. cur = Some c \<and> covered c v x) \<or> (v, x) \<in> left_of scans"
proof -
  obtain v x where vx: "v \<in> set vals" "x \<in> occs v view" "x + keptBytes v \<le> j" "j < x + length v"
    using assms(2) unfolding hidden_def by blast
  then have "(\<exists>c. cur = Some c \<and> covered c v x) \<or> (v, x) \<in> left_of scans"
    using assms(1,3) unfolding accounted_def by fastforce
  then show thesis using that vx by blast
qed

text \<open>A run is written when what is left starts after it.\<close>

lemma flush_ok:
  assumes w: "written view vals want pos body" and short: "length body < want" and out: "re_out r = dst @ body"
    and acc: "accounted view vals pos (Some c) scans" and rdy: "run_ready view pos (Some c) scans"
    and left: "\<forall>(v, x) \<in> left_of scans'. mr_end c \<le> x"
    and split: "\<forall>(v, x) \<in> left_of scans. covered c v x \<or> (v, x) \<in> left_of scans'"
    and call: "appendRun view (length dst) pos c (int want - int (length body)) r = (r', pos')"
  shows "\<exists>body'. re_out r' = dst @ body' \<and> re_steps r' = re_steps r \<and> written view vals want pos' body' \<and>
    (length body' < want \<longrightarrow> pos' = mr_end c) \<and> (\<forall>v \<in> set vals. \<forall>x \<in> occs v view. x + length v \<le> mr_end c \<or> (v, x) \<in> left_of scans')"
proof -
  have shown: "masked_text view (readable view vals) body pos" using w short unfolding written_def by auto
  have c: "pos \<le> mr_start c" "mr_start c < mr_end c" "mr_end c \<le> length view" using rdy by (simp_all add: run_ready_def)
  have at: "covered c v x \<or> mr_end c \<le> x" if "covered c v x \<or> (v, x) \<in> left_of scans" for v x
    using that left split by blast
  have clear: "readable view vals j" if "pos \<le> j" "j < mr_start c" for j
  proof
    assume "hidden view vals j"
    from clear_of_accounted [OF acc this that(1)] obtain v x where "x + keptBytes v \<le> j" "covered c v x \<or> (v, x) \<in> left_of scans"
      by blast
    then show False using at [of v x] that(2) c(2) unfolding covered_def by linarith
  qed
  have kept: "readable view vals j" if "mr_start c \<le> j" "j < mr_end c" "j < mr_keepEnd c" for j
  proof
    assume "hidden view vals j"
    from clear_of_accounted [OF acc this order.trans [OF c(1) that(1)]]
    obtain v x where "x + keptBytes v \<le> j" "covered c v x \<or> (v, x) \<in> left_of scans" by blast
    then show False using at [of v x] that c(2) unfolding covered_def by linarith
  qed
  have room: "0 < int want - int (length body)" using short by simp
  from appendRun_shows [OF shown out refl c room clear kept call]
  obtain body' p where r: "re_out r' = dst @ body'" "masked_text view (readable view vals) body' p" "p \<le> length view"
    "re_steps r' = re_steps r" "p = pos' \<and> pos' = mr_end c \<or> int (length body') = int (length body) + (int want - int (length body))"
    by blast
  have "x + length v \<le> mr_end c \<or> (v, x) \<in> left_of scans'" if "v \<in> set vals" "x \<in> occs v view" for v x
  proof -
    have "x + length v \<le> pos \<or> covered c v x \<or> (v, x) \<in> left_of scans"
      using acc that unfolding accounted_def by blast
    moreover have "covered c v x \<or> (v, x) \<in> left_of scans'" if "(v, x) \<in> left_of scans" using split that by blast
    moreover have "x + length v \<le> mr_end c" if "covered c v x" using that by (simp add: covered_def)
    moreover have "x + length v \<le> mr_end c" if "x + length v \<le> pos" using that c by linarith
    ultimately show ?thesis by blast
  qed
  moreover have "written view vals want pos' body'" using r(2,3,5) unfolding written_def by force
  ultimately show ?thesis using r by auto
qed

lemma clear_rest:
  assumes "\<forall>v \<in> set vals. \<forall>x \<in> occs v view. x + length v \<le> pos" and "pos \<le> j"
  shows "readable view vals j"
  using assms unfolding hidden_def by fastforce

lemma rest_ok:
  assumes "written view vals want pos body" and "re_out r = dst @ body"
    and "length body < want \<Longrightarrow> \<forall>v \<in> set vals. \<forall>x \<in> occs v view. x + length v \<le> pos"
  shows "\<exists>body' p. re_out (append_rest view want (length dst) pos r) = dst @ body' \<and>
    masked_text view (readable view vals) body' p \<and> re_steps (append_rest view want (length dst) pos r) = re_steps r \<and>
    (want \<le> length body' \<or> p = length view)"
proof -
  obtain p where p: "p \<le> length view" "masked_text view (readable view vals) body p" "p = pos \<or> want \<le> length body"
    using assms(1) unfolding written_def by blast
  show ?thesis
  proof (cases "want \<le> length body")
    case True
    then have "append_rest view want (length dst) pos r = r" using assms(2) by (simp add: append_rest_def)
    then show ?thesis using True p assms(2) by auto
  next
    case False
    then have pos: "p = pos" using p(3) by simp
    have "p = pos \<and> (\<forall>j \<ge> pos. j < length view \<longrightarrow> readable view vals j) \<or> want \<le> length body"
      using pos clear_rest [OF assms(3)] False by auto
    from append_rest_shows [OF p(2,1) assms(2) refl this] show ?thesis using pos by blast
  qed
qed

section \<open>The loop\<close>

lemma pots_bound: "scans_of view ss \<Longrightarrow> pots ss \<le> 2 * int (length ss) * int (length view)"
proof (induction ss)
  case (Cons s ss)
  have "scan_ok s" "scan_text s = view" using Cons.prems by (simp_all add: scan_state_def)
  then have "sc_i s \<le> length view" by (auto simp: scan_ok_def)
  then have "pot s \<le> 2 * int (length view)" by (simp add: pot_def)
  moreover have "pots ss \<le> 2 * int (length ss) * int (length view)" using Cons by simp
  ultimately show ?case by (simp add: pots_def algebra_simps)
qed (simp add: pots_def)

definition loop_ok :: "bytes \<Rightarrow> bytes list \<Rightarrow> nat \<Rightarrow> bytes \<Rightarrow> nat \<Rightarrow> masked_run option \<Rightarrow> copy_scan list \<Rightarrow> redaction \<Rightarrow> bool" where
  "loop_ok view vals want dst pos cur scans r \<longleftrightarrow>
     scans_of view scans \<and> (\<exists>body. re_out r = dst @ body \<and> written view vals want pos body \<and>
       (length body < want \<longrightarrow> accounted view vals pos cur scans \<and> run_ready view pos cur scans))"

definition loop_result :: "bytes \<Rightarrow> bytes list \<Rightarrow> nat \<Rightarrow> bytes \<Rightarrow> redaction \<Rightarrow> bool" where
  "loop_result view vals want dst r' \<longleftrightarrow>
     (\<exists>body p. re_out r' = dst @ body \<and> masked_text view (readable view vals) body p \<and> (want \<le> length body \<or> p = length view))"

text \<open>One round: the run taken is joined to the one at hand, or that one is written first.\<close>

lemma join_ok:
  assumes acc: "accounted view vals pos cur scans" and rdy: "run_ready view pos cur scans"
    and n: "mr_start n < mr_end n" "mr_end n \<le> length view" "left_of scans' \<subseteq> left_of scans"
    and split: "\<forall>(v, x) \<in> left_of scans. mr_start n \<le> x \<and> (covered n v x \<or> (v, x) \<in> left_of scans')"
    and keep: "case cur of None \<Rightarrow> True | Some c \<Rightarrow> (\<exists>v. (v, mr_start n) \<in> left_of scans)"
  defines "cur' \<equiv> (case cur of None \<Rightarrow> n
      | Some c \<Rightarrow> c\<lparr>mr_end := max (mr_end c) (mr_end n), mr_keepEnd := min (mr_keepEnd c) (mr_keepEnd n)\<rparr>)"
  shows "accounted view vals pos (Some cur') scans'" and "run_ready view pos (Some cur') scans'"
proof -
  have start: "mr_start cur' \<le> mr_start n"
    using rdy keep unfolding cur'_def run_ready_def by (cases cur) (auto split: prod.splits)
  have old: "covered cur' v x" if "cur = Some c" "covered c v x" for c v x
    using that unfolding cur'_def covered_def by auto
  have new: "covered cur' v x" if "covered n v x" for v x
    using that start unfolding cur'_def covered_def by (cases cur) auto
  show "accounted view vals pos (Some cur') scans'"
    unfolding accounted_def
  proof (intro ballI)
    fix v x assume "v \<in> set vals" "x \<in> occs v view"
    then have "x + length v \<le> pos \<or> (\<exists>c. cur = Some c \<and> covered c v x) \<or> (v, x) \<in> left_of scans"
      using acc unfolding accounted_def by blast
    then show "x + length v \<le> pos \<or> (\<exists>c. Some cur' = Some c \<and> covered c v x) \<or> (v, x) \<in> left_of scans'"
      using old new split by blast
  qed
  have "\<forall>(v, x) \<in> left_of scans'. mr_start cur' \<le> x" using n(3) split start by fastforce
  then show "run_ready view pos (Some cur') scans'"
    using rdy n(1,2) unfolding cur'_def run_ready_def by (cases cur) auto
qed


lemma append_scans_from_ok:
  assumes "loop_ok view vals want dst pos cur scans r" and "left_over scans < fuel"
  shows "\<exists>r'. append_scans_from fuel view want (length dst) pos cur scans r = Some r' \<and> loop_result view vals want dst r' \<and>
    int (re_steps r') \<le> int (re_steps r) - pots scans + 2 * int (length scans) * int (length view)"
  using assms
proof (induction fuel arbitrary: pos cur scans r)
  case 0
  then show ?case by simp
next
  case (Suc fuel)
  have scans: "scans_of view scans" using Suc.prems(1) by (simp add: loop_ok_def)
  note bound = pots_bound [OF scans]
  obtain body where body: "re_out r = dst @ body" "written view vals want pos body"
    "length body < want \<Longrightarrow> accounted view vals pos cur scans \<and> run_ready view pos cur scans"
    using Suc.prems(1) unfolding loop_ok_def by blast
  have len: "length (re_out r) - length dst = length body" using body(1) by simp
  show ?case
  proof (cases "want \<le> length body")
    case True
    then have "append_scans_from (Suc fuel) view want (length dst) pos cur scans r = Some (append_rest view want (length dst) pos r)"
      using len by (simp add: append_scans_from.simps [of "Suc fuel"])
    moreover have "append_rest view want (length dst) pos r = r" using True len by (simp add: append_rest_def)
    moreover have "loop_result view vals want dst r"
      using True body(1,2) unfolding loop_result_def written_def by blast
    ultimately show ?thesis using bound by simp
  next
    case False
    then have short: "length body < want" by simp
    have acc: "accounted view vals pos cur scans" and rdy: "run_ready view pos cur scans" using body(3) [OF short] by auto
    obtain n scans' st where fr: "firstRun scans (re_steps r) = (n, scans', st)" by (metis prod_cases3)
    note fr_ok = firstRun_ok [OF scans fr]
    have scans': "scans_of view scans'" using fr_ok by blast
    have same_length: "length scans' = length scans" using fr_ok map_eq_imp_length_eq by blast
    have st: "int st - pots scans' \<le> int (re_steps r) - pots scans" using fr_ok by blast
    define r0 where "r0 = r\<lparr>re_steps := st\<rparr>"
    have r0: "re_out r0 = dst @ body" "re_steps r0 = st" using body(1) by (simp_all add: r0_def)
    define flush where "flush = (case cur of None \<Rightarrow> False
                             | Some c \<Rightarrow> (case n of None \<Rightarrow> True | Some n \<Rightarrow> mr_start n \<ge> mr_end c))"
    obtain r1 pos1 where step: "(if flush then appendRun view (length dst) pos (the cur) (int want - int (length body)) r0 else (r0, pos))
        = (r1, pos1)" by force
    have len0: "length (re_out r0) - length dst = length body" using r0(1) by simp
    have unfolded: "append_scans_from (Suc fuel) view want (length dst) pos cur scans r =
        (case n of
           None \<Rightarrow> Some (append_rest view want (length dst) pos1 r1)
         | Some n \<Rightarrow>
             append_scans_from fuel view want (length dst) pos1
               (Some (case (if flush then None else cur) of
                        None \<Rightarrow> n
                      | Some c \<Rightarrow> c\<lparr>mr_end := max (mr_end c) (mr_end n), mr_keepEnd := min (mr_keepEnd c) (mr_keepEnd n)\<rparr>))
               scans' r1)"
      unfolding append_scans_from.simps [of "Suc fuel"] nat.case len fr prod.case Let_def r0_def [symmetric] len0
        flush_def [symmetric] step
      using False by simp
    have left_ge: "\<forall>(v, x) \<in> left_of scans. mr_end c \<le> x" if "flush" "cur = Some c" for c
      using that fr_ok unfolding flush_def by (cases n) fastforce+
    have flushed: "\<exists>body1. re_out r1 = dst @ body1 \<and> re_steps r1 = st \<and> written view vals want pos1 body1 \<and>
        (length body1 < want \<longrightarrow> pos1 = mr_end c) \<and>
        (\<forall>v \<in> set vals. \<forall>x \<in> occs v view. x + length v \<le> mr_end c \<or> (v, x) \<in> left_of scans)" if f: "flush" and c: "cur = Some c" for c
    proof -
      have call: "appendRun view (length dst) pos c (int want - int (length body)) r0 = (r1, pos1)" using step f c by simp
      have "\<forall>(v, x) \<in> left_of scans. covered c v x \<or> (v, x) \<in> left_of scans" by blast
      from flush_ok [OF body(2) short r0(1) acc [unfolded c] rdy [unfolded c] left_ge [OF f c] this call]
      show ?thesis using r0(2) by simp
    qed
    show ?thesis
    proof (cases n)
      case None
      then have none: "left_of scans = {}" using fr_ok by simp
      have "\<exists>body1. re_out r1 = dst @ body1 \<and> re_steps r1 = st \<and> written view vals want pos1 body1 \<and>
          (length body1 < want \<longrightarrow> (\<forall>v \<in> set vals. \<forall>x \<in> occs v view. x + length v \<le> pos1))"
      proof (cases cur)
        case c: None
        then have "r1 = r0" "pos1 = pos" using step by (simp_all add: flush_def)
        then show ?thesis using r0 body(2) acc c none unfolding accounted_def by auto
      next
        case c: (Some c)
        then have "flush" using None by (simp add: flush_def)
        from flushed [OF this c] show ?thesis using none by auto
      qed
      then obtain body1 where b1: "re_out r1 = dst @ body1" "re_steps r1 = st" "written view vals want pos1 body1"
        "length body1 < want \<Longrightarrow> \<forall>v \<in> set vals. \<forall>x \<in> occs v view. x + length v \<le> pos1" by blast
      from rest_ok [OF b1(3,1,4)] have "loop_result view vals want dst (append_rest view want (length dst) pos1 r1)"
        "re_steps (append_rest view want (length dst) pos1 r1) = st"
        unfolding loop_result_def using b1(2) by auto
      moreover have "int st \<le> int (re_steps r) - pots scans + 2 * int (length scans) * int (length view)"
        using st pots_bound [OF scans'] same_length by simp
      ultimately show ?thesis unfolding unfolded None by simp
    next
      case (Some m)
      have m: "mr_start m < mr_end m" "mr_end m \<le> length view" "left_of scans' \<subseteq> left_of scans" "left_over scans' < left_over scans"
        "\<exists>v. (v, mr_start m) \<in> left_of scans"
        "\<forall>(v, x) \<in> left_of scans. mr_start m \<le> x \<and> (covered m v x \<or> (v, x) \<in> left_of scans')"
        using fr_ok Some by auto
      define cur' where "cur' = (case (if flush then None else cur) of
                        None \<Rightarrow> m
                      | Some c \<Rightarrow> c\<lparr>mr_end := max (mr_end c) (mr_end m), mr_keepEnd := min (mr_keepEnd c) (mr_keepEnd m)\<rparr>)"
      have "loop_ok view vals want dst pos1 (Some cur') scans' r1 \<and> re_steps r1 = st"
      proof (cases flush)
        case True
        then obtain c where c: "cur = Some c" unfolding flush_def by (cases cur) auto
        from flushed [OF True c] obtain body1 where b1: "re_out r1 = dst @ body1" "re_steps r1 = st" "written view vals want pos1 body1"
          "length body1 < want \<longrightarrow> pos1 = mr_end c"
          "\<forall>v \<in> set vals. \<forall>x \<in> occs v view. x + length v \<le> mr_end c \<or> (v, x) \<in> left_of scans" by blast
        have cur': "cur' = m" using True by (simp add: cur'_def)
        have "accounted view vals pos1 (Some cur') scans'" if "length body1 < want"
          using b1(4,5) m(6) that unfolding accounted_def cur' by blast
        moreover have "run_ready view pos1 (Some cur') scans'" if "length body1 < want"
          using b1(4) m(1-3,6) that True Some c unfolding run_ready_def cur' flush_def by auto
        ultimately show ?thesis using scans' b1 unfolding loop_ok_def by blast
      next
        case f: False
        then have "r1 = r0" "pos1 = pos" using step by simp_all
        moreover have "cur' = (case cur of None \<Rightarrow> m
            | Some c \<Rightarrow> c\<lparr>mr_end := max (mr_end c) (mr_end m), mr_keepEnd := min (mr_keepEnd c) (mr_keepEnd m)\<rparr>)"
          using f by (simp add: cur'_def)
        moreover have "case cur of None \<Rightarrow> True | Some c \<Rightarrow> (\<exists>v. (v, mr_start m) \<in> left_of scans)"
          using m(5) by (cases cur) auto
        ultimately show ?thesis
          using join_ok [OF acc rdy m(1-3,6)] scans' r0 body(2) unfolding loop_ok_def by auto
      qed
      then have ok: "loop_ok view vals want dst pos1 (Some cur') scans' r1" and st1: "re_steps r1 = st" by simp_all
      have "left_over scans' < fuel" using m(4) Suc.prems(2) by simp
      from Suc.IH [OF ok this] st st1 same_length show ?thesis unfolding unfolded Some by (auto simp: cur'_def)
    qed
  qed
qed

end
