(* ===== verification/RedactFacts.thy ===== *)
theory RedactFacts
  imports RedactLoop
begin

text \<open>What the masking promises: the values of a line, the cut of a line it cannot follow, and the text it writes.\<close>

section \<open>The values of a line\<close>

lemma occs_of_slice:
  "slice view a b \<noteq> [] \<Longrightarrow> a \<in> occs (slice view a b) view"
  by (auto simp: slice_def occs_def min_def take_drop)

text \<open>The values the matches name, once each.\<close>

abbreviation span_values :: "bytes \<Rightarrow> span list \<Rightarrow> bytes set" where
  "span_values view sps \<equiv> (\<lambda>sp. slice view (fst sp) (snd sp)) ` set sps - {[]}"

lemma span_values_Cons:
  "span_values view (sp # sps) =
     (if slice view (fst sp) (snd sp) = [] then span_values view sps
      else insert (slice view (fst sp) (snd sp)) (span_values view sps))"
  by auto

lemma distinct_from_ok:
  assumes "distinct_from view sps vals first = lv" and "[] \<notin> set vals" and "distinct vals" and "length vals \<le> maxRedactSeen"
    and "vals = [] \<Longrightarrow> first < 0" and "vals \<noteq> [] \<Longrightarrow> 0 \<le> first \<and> first < int (length view)"
  shows "[] \<notin> set (lv_distinct lv)" and "distinct (lv_distinct lv)" and "length (lv_distinct lv) \<le> maxRedactSeen"
    and "lv_distinct lv \<noteq> [] \<Longrightarrow> 0 \<le> lv_firstStart lv \<and> lv_firstStart lv < int (length view)"
    and "\<not> lv_tooMany lv \<Longrightarrow> set (lv_distinct lv) = set vals \<union> span_values view sps"
    and "lv_tooMany lv \<Longrightarrow> view \<noteq> []"
proof -
  have "[] \<notin> set (lv_distinct lv) \<and> distinct (lv_distinct lv) \<and> length (lv_distinct lv) \<le> maxRedactSeen \<and>
    (lv_distinct lv \<noteq> [] \<longrightarrow> 0 \<le> lv_firstStart lv \<and> lv_firstStart lv < int (length view)) \<and>
    (\<not> lv_tooMany lv \<longrightarrow> set (lv_distinct lv) = set vals \<union> span_values view sps) \<and> (lv_tooMany lv \<longrightarrow> view \<noteq> [])"
    using assms
  proof (induction view sps vals first rule: distinct_from.induct)
    case (2 view sp sps vals first)
    let ?v = "slice view (fst sp) (snd sp)"
    let ?first = "if first < 0 then int (fst sp) else first"
    show ?case
    proof (cases "?v = [] \<or> ?v \<in> set vals")
      case True
      then have "distinct_from view sps vals first = lv" using "2.prems"(1) by auto
      from "2.IH"(1) [OF refl True this "2.prems"(2-6)] show ?thesis
        using True unfolding span_values_Cons by (cases "?v = []") (simp_all add: insert_absorb)
    next
      case False
      have f: "0 \<le> ?first \<and> ?first < int (length view)" and view: "view \<noteq> []"
        using False "2.prems"(5,6) by (auto simp: slice_def)
      show ?thesis
      proof (cases "length vals = maxRedactSeen")
        case True
        then have "lv = \<lparr>lv_distinct = vals, lv_firstStart = ?first, lv_tooMany = True\<rparr>"
          using "2.prems"(1) False by (auto simp: Let_def)
        then show ?thesis using "2.prems" f view by auto
      next
        case room: False
        have call: "distinct_from view sps (vals @ [?v]) ?first = lv"
          using "2.prems"(1) False room by (auto simp: Let_def)
        have "[] \<notin> set (vals @ [?v])" "distinct (vals @ [?v])" "length (vals @ [?v]) \<le> maxRedactSeen"
          using False "2.prems" room by auto
        from "2.IH"(2) [OF refl False refl room call this] show ?thesis
          using False f unfolding span_values_Cons by simp
      qed
    qed
  qed auto
  then show "[] \<notin> set (lv_distinct lv)" "distinct (lv_distinct lv)" "length (lv_distinct lv) \<le> maxRedactSeen"
    "lv_distinct lv \<noteq> [] \<Longrightarrow> 0 \<le> lv_firstStart lv \<and> lv_firstStart lv < int (length view)"
    "\<not> lv_tooMany lv \<Longrightarrow> set (lv_distinct lv) = set vals \<union> span_values view sps" "lv_tooMany lv \<Longrightarrow> view \<noteq> []"
    by blast+
qed

lemma distinctValues_ok:
  assumes "lv = distinctValues view sps"
  shows "\<not> lv_tooMany lv \<Longrightarrow> set (lv_distinct lv) = span_values view sps \<and> distinct (lv_distinct lv) \<and>
      length (lv_distinct lv) \<le> maxRedactSeen \<and>
      (lv_distinct lv \<noteq> [] \<longrightarrow> 0 \<le> lv_firstStart lv \<and> lv_firstStart lv < int (length view))"
    and "lv_tooMany lv \<Longrightarrow> maxRedactMatches < length sps \<or> view \<noteq> []"
    and "lv_tooMany lv \<Longrightarrow> view \<noteq> [] \<Longrightarrow> lv_distinct lv \<noteq> []"
proof -
  show "lv_tooMany lv \<Longrightarrow> maxRedactMatches < length sps \<or> view \<noteq> []"
    and "\<not> lv_tooMany lv \<Longrightarrow> set (lv_distinct lv) = span_values view sps \<and> distinct (lv_distinct lv) \<and>
      length (lv_distinct lv) \<le> maxRedactSeen \<and>
      (lv_distinct lv \<noteq> [] \<longrightarrow> 0 \<le> lv_firstStart lv \<and> lv_firstStart lv < int (length view))"
    using distinct_from_ok [of view sps "[]" "-1" lv] assms by (auto simp: distinctValues_def split: if_splits)
  have "lv_distinct (distinct_from view s vals f) \<noteq> []"
    if "lv_tooMany (distinct_from view s vals f)" for s vals f
    using that by (induction view s vals f rule: distinct_from.induct) (auto simp: Let_def maxRedactSeen_def split: if_splits)
  then show "lv_tooMany lv \<Longrightarrow> view \<noteq> [] \<Longrightarrow> lv_distinct lv \<noteq> []"
    using assms by (auto simp: distinctValues_def split: if_splits)
qed

section \<open>New scans\<close>

lemma newCopyScan_ok:
  assumes "v \<noteq> []" and "newCopyScan view v e steps = (s, steps')"
  shows "scan_state s" and "sc_value s = v" and "scan_text s = take e view" and "sc_kept s = keptBytes v"
    and "untaken s = occs v (take e view)" and "pot s = 0" and "steps' \<le> steps + 2 * length v" and "sc_i s = 0" and "sc_q s = 0"
proof -
  obtain fail st where f: "fail_table v steps = (fail, st)" by force
  have s: "s = \<lparr>sc_view = view, sc_value = v, sc_end = e, sc_fail = fail, sc_kept = keptBytes v, sc_i = 0, sc_q = 0,
      sc_run = \<lparr>mr_start = 0, mr_end = 0, mr_keepEnd = 0\<rparr>, sc_ready = False, sc_pending = None, sc_exhausted = False\<rparr>"
    and st: "steps' = st" using assms(2) f by (simp_all add: newCopyScan_def)
  note t = fail_table_ok [OF assms(1) f]
  show "steps' \<le> steps + 2 * length v" using t(3) st by simp
  show "scan_state s" using assms(1) t(1,2) unfolding scan_state_def scan_ok_def s by (simp add: matched_Nil)
  show "untaken s = occs v (take e view)" using assms(1) unfolding s by (simp add: untaken_def scan_text_def)
qed (use assms(2) in \<open>auto simp: newCopyScan_def scan_text_def pot_def split: prod.splits\<close>)

lemma new_scans_ok:
  assumes "[] \<notin> set vals" and "new_scans view vals steps = (ss, steps')"
  shows "scans_of view ss \<and> length ss = length vals \<and> pots ss = 0 \<and> steps' \<le> steps + 2 * sum_list (map length vals) \<and>
    left_of ss = {(v, x). v \<in> set vals \<and> x \<in> occs v view} \<and> left_over ss = sum_list (map (\<lambda>v. card (occs v view)) vals)"
  using assms
proof (induction vals arbitrary: steps ss steps')
  case (Cons v vals)
  obtain s st where n: "newCopyScan view v (length view) steps = (s, st)" by force
  obtain ss1 st1 where r: "new_scans view vals st = (ss1, st1)" by force
  have v: "v \<noteq> []" using Cons.prems(1) by auto
  note one = newCopyScan_ok [OF v n]
  have "ss = s # ss1" "steps' = st1" using Cons.prems(2) n r by simp_all
  moreover have "[] \<notin> set vals" using Cons.prems(1) by simp
  ultimately show ?case using Cons.IH [OF _ r] one by (auto simp: pots_def left_over_def)
qed (simp add: pots_def left_over_def)

lemma occs_card: "v \<noteq> [] \<Longrightarrow> card (occs v view) \<le> length view"
proof -
  assume "v \<noteq> []"
  then have "0 < length v" by simp
  have "occs v view \<subseteq> {..<length view}"
  proof
    fix x assume "x \<in> occs v view"
    then have "x + length v \<le> length view" by (simp add: occs_def)
    then show "x \<in> {..<length view}" using \<open>0 < length v\<close> by (simp del: length_greater_0_conv)
  qed
  from card_mono [OF _ this] show ?thesis by simp
qed

section \<open>Lines within the bounds\<close>

lemma appendScans_ok:
  fixes dst :: bytes
  assumes "[] \<notin> set vals" and "new_scans view vals 0 = (scans, steps)"
  defines "r \<equiv> \<lparr>re_out = dst, re_masked = False, re_firstMask = 0, re_steps = steps\<rparr>"
  shows "\<exists>r'. appendScans view want scans r = Some r' \<and> loop_result view vals want dst r' \<and>
    re_steps r' \<le> 2 * sum_list (map length vals) + 2 * length vals * length view"
proof -
  note new = new_scans_ok [OF assms(1,2)]
  have "sum_list (map (\<lambda>v. card (occs v view)) vals) \<le> sum_list (map (\<lambda>v. length view) vals)"
  proof (rule sum_list_mono)
    fix v assume "v \<in> set vals"
    then have "v \<noteq> []" using assms(1) by blast
    then show "card (occs v view) \<le> length view" by (rule occs_card)
  qed
  then have fuel: "left_over scans < length scans * (length view + 1) + 1"
  proof -
    have "left_over scans \<le> length vals * length view"
      using new \<open>sum_list _ \<le> _\<close> by (simp add: sum_list_triv)
    moreover have "length scans = length vals" using new by blast
    ultimately show ?thesis by (simp add: less_Suc_eq_le trans_le_add2)
  qed
  have "written view vals want 0 []" unfolding written_def by (auto intro: masked_Nil)
  moreover have "accounted view vals 0 None scans" using new unfolding accounted_def by auto
  moreover have "run_ready view 0 None scans" by (simp add: run_ready_def)
  ultimately have "loop_ok view vals want dst 0 None scans r" using new unfolding loop_ok_def r_def by auto
  from append_scans_from_ok [OF this fuel] obtain r' where r':
    "append_scans_from (length scans * (length view + 1) + 1) view want (length dst) 0 None scans r = Some r'"
    "loop_result view vals want dst r'"
    "int (re_steps r') \<le> int (re_steps r) - pots scans + 2 * int (length scans) * int (length view)" by blast
  have "re_steps r \<le> 2 * sum_list (map length vals)" using new by (simp add: r_def)
  then have "int (re_steps r') \<le> int (2 * sum_list (map length vals) + 2 * length vals * length view)"
    using r'(3) new by simp
  then have "re_steps r' \<le> 2 * sum_list (map length vals) + 2 * length vals * length view" by (simp only: of_nat_le_iff)
  moreover have "appendScans view want scans r = Some r'" using r'(1) by (simp add: appendScans_def r_def)
  ultimately show ?thesis using r'(2) by blast
qed

section \<open>Lines masked from one place on\<close>

lemma one_run_ok:
  assumes clear: "\<And>j. j < cut_at \<Longrightarrow> readable view vals j" and cut_at: "cut_at < length view"
  shows "loop_result view vals want (re_out r) (appendRuns view want [\<lparr>mr_start = cut_at, mr_end = length view, mr_keepEnd = cut_at\<rparr>] r) \<and>
    re_steps (appendRuns view want [\<lparr>mr_start = cut_at, mr_end = length view, mr_keepEnd = cut_at\<rparr>] r) = re_steps r"
proof (cases "want = 0")
  case True
  have "masked_text view (readable view vals) [] 0" by (rule masked_Nil)
  then show ?thesis using True by (auto simp: appendRuns_def loop_result_def)
next
  case False
  let ?run = "\<lparr>mr_start = cut_at, mr_end = length view, mr_keepEnd = cut_at\<rparr>"
  obtain r' pos' where call: "appendRun view (length (re_out r)) 0 ?run (int want) r = (r', pos')" by force
  have all: "appendRuns view want [?run] r = append_rest view want (length (re_out r)) pos' r'"
    using False call by (simp add: appendRuns_def)
  have nil: "masked_text view (readable view vals) [] 0" by (rule masked_Nil)
  obtain body p where b: "re_out r' = re_out r @ body" "masked_text view (readable view vals) body p" "p \<le> length view"
    "re_steps r' = re_steps r" "p = pos' \<and> pos' = length view \<or> int (length body) = int want"
    using appendRun_shows [OF nil _ refl _ _ _ _ _ _ call] clear cut_at False by auto
  have "append_rest view want (length (re_out r)) pos' r' = r'"
    using b(1,5) by (auto simp: append_rest_def)
  then show ?thesis using b unfolding all loop_result_def by auto
qed

lemma cut_before_ok:
  assumes "[] \<notin> set vals" and "cut_before view vals cut_at steps = (cut', steps')"
  shows "cut' \<le> cut_at \<and> (\<forall>v \<in> set vals. \<forall>x \<in> occs v view. cut' \<le> x) \<and>
    steps' \<le> steps + sum_list (map (\<lambda>v. 4 * length v + 2 * cut_at) vals)"
  using assms
proof (induction view vals cut_at steps rule: cut_before.induct)
  case (2 view v vs cut_at steps)
  have v: "v \<noteq> []" using "2.prems"(1) by auto
  let ?e = "min (length view) (cut_at + length v - 1)"
  obtain s st where n: "newCopyScan view v ?e steps = (s, st)" by force
  obtain found s1 st1 where f: "nextOccurrence s st = (found, s1, st1)" by (metis prod_cases3)
  let ?cut = "case found of None \<Rightarrow> cut_at | Some p \<Rightarrow> min cut_at p"
  note new = newCopyScan_ok [OF v n]
  have ok: "scan_ok s" using new(1) by (simp add: scan_state_def)
  note no = nextOccurrence_ok [OF ok f]
  have call: "cut_before view vs ?cut st1 = (cut', steps')" using "2.prems"(2) n f by simp
  have "[] \<notin> set vs" using "2.prems"(1) by simp
  note rest = "2.IH" [OF n [symmetric] f [symmetric] refl this call]
  have cut_le: "?cut \<le> cut_at" by (simp split: option.splits)
  have first: "?cut \<le> x" if x: "x \<in> occs v view" for x
  proof (cases "x < cut_at")
    case True
    then have "x + length v \<le> ?e" using x by (auto simp: occs_def)
    then have "take (length v) (drop x (take ?e view)) = take (length v) (drop x view)" by (simp add: drop_take min_def)
    then have "x \<in> occs v (take ?e view)" using x \<open>x + length v \<le> ?e\<close> by (simp add: occs_def)
    then show ?thesis using no(5) new(2,3,8) v by (cases found) (auto dest!: bspec [of _ _ x])
  next
    case False
    then show ?thesis using cut_le by simp
  qed
  have "sc_i s1 \<le> ?e"
  proof -
    have "scan_text s1 = scan_text s" by (subst no(2)) (simp add: scan_text_def)
    then show ?thesis using no(1) new(3) by (simp add: scan_ok_def)
  qed
  moreover have "length v \<noteq> 0" using v by simp
  ultimately have "st1 \<le> steps + (4 * length v + 2 * cut_at)"
    using no(4) new(7-9) by linarith
  moreover have "sum_list (map (\<lambda>v. 4 * length v + 2 * ?cut) vs) \<le> sum_list (map (\<lambda>v. 4 * length v + 2 * cut_at) vs)"
    by (rule sum_list_mono) (use cut_le in simp)
  ultimately have "steps' \<le> steps + sum_list (map (\<lambda>v. 4 * length v + 2 * cut_at) (v # vs))" using rest by simp
  moreover have "cut' \<le> cut_at" using rest cut_le by simp
  moreover have "\<forall>x \<in> occs v view. cut' \<le> x" using rest first by (meson le_trans)
  ultimately show ?case using rest by simp
qed simp


section \<open>The text of a redaction\<close>

definition match_values :: "bytes \<Rightarrow> span list \<Rightarrow> bytes list" where
  "match_values view sps = map (\<lambda>sp. slice view (fst sp) (snd sp)) sps"

lemma hidden_values:
  assumes "set vals = span_values view sps"
  shows "hidden view (match_values view sps) j \<longleftrightarrow> hidden view vals j"
proof -
  have "x + keptBytes v \<le> j \<Longrightarrow> j < x + length v \<Longrightarrow> v \<noteq> []" for v x by auto
  then show ?thesis using assms unfolding hidden_def match_values_def by (auto; blast)
qed

lemma loop_result_cong:
  "(\<And>j. hidden view vals' j \<longleftrightarrow> hidden view vals j) \<Longrightarrow> loop_result view vals want dst r \<longleftrightarrow> loop_result view vals' want dst r"
  by (simp add: loop_result_def)

lemma append_to_ok:
  fixes sps :: "span list"
  assumes "view \<noteq> []"
  defines "lv \<equiv> distinctValues view sps"
  shows "\<exists>r. append_to view sps dst want = Some r \<and> loop_result view (match_values view sps) want dst r \<and>
    re_steps r \<le> (if \<not> lv_tooMany lv \<and> withinBounds (lv_distinct lv)
       then 2 * maxRedactValues * (length view + maxRedactValueBytes)
       else 2 * maxRedactSeen * failClosedPrefixBytes + 4 * sum_list (map length (lv_distinct lv)))"
proof -
  let ?vals = "lv_distinct lv"
  let ?r = "\<lparr>re_out = dst, re_masked = False, re_firstMask = 0, re_steps = 0\<rparr>"
  note lv = distinctValues_ok [OF lv_def [THEN meta_eq_to_obj_eq]]
  show ?thesis
  proof (cases "lv_tooMany lv")
    case True
    let ?run = "\<lparr>mr_start = 0, mr_end = length view, mr_keepEnd = 0\<rparr>"
    have "append_to view sps dst want = Some (appendRuns view want [?run] ?r)"
      using lv(3) [OF True assms(1)] True by (simp add: append_to_def lv_def [symmetric] Let_def)
    moreover have "loop_result view (match_values view sps) want (re_out ?r) (appendRuns view want [?run] ?r) \<and>
        re_steps (appendRuns view want [?run] ?r) = re_steps ?r"
      by (rule one_run_ok) (use assms(1) in simp_all)
    ultimately show ?thesis using True by simp
  next
    case False
    note vals = lv(1) [OF False]
    have res: "loop_result view (match_values view sps) want dst r" if "loop_result view ?vals want dst r" for r
      using that loop_result_cong [of view ?vals "match_values view sps" want dst r] hidden_values [of ?vals view sps] vals by blast
    show ?thesis
    proof (cases "?vals = []")
      case True
      let ?n = "min (length view) want"
      have nil: "masked_text view (readable view ?vals) [] 0" by (rule masked_Nil)
      have "masked_text view (readable view ?vals) ([] @ slice view 0 ?n) ?n"
        by (rule masked_slice [OF nil]) (simp_all add: True hidden_def)
      then have "loop_result view ?vals want dst (?r\<lparr>re_out := dst @ take ?n view\<rparr>)"
        unfolding loop_result_def by (intro exI [of _ "take ?n view"] exI [of _ ?n]) (auto simp: slice_def)
      moreover have "append_to view sps dst want = Some (?r\<lparr>re_out := dst @ take ?n view\<rparr>)"
        using True by (simp add: append_to_def lv_def [symmetric] Let_def)
      ultimately show ?thesis using res by simp
    next
      case some: False
      have nonempty: "[] \<notin> set ?vals" using vals by simp
      show ?thesis
      proof (cases "withinBounds ?vals")
        case True
        obtain scans steps where n: "new_scans view ?vals 0 = (scans, steps)" by force
        from appendScans_ok [OF nonempty n, of want dst] obtain r' where r':
          "appendScans view want scans \<lparr>re_out = dst, re_masked = False, re_firstMask = 0, re_steps = steps\<rparr> = Some r'"
          "loop_result view ?vals want dst r'" "re_steps r' \<le> 2 * sum_list (map length ?vals) + 2 * length ?vals * length view" by blast
        have "append_to view sps dst want = Some r'"
          using r'(1) some False True n by (simp add: append_to_def lv_def [symmetric] Let_def)
        moreover have "re_steps r' \<le> 2 * maxRedactValues * (length view + maxRedactValueBytes)"
        proof -
          have "length ?vals \<le> maxRedactValues" using True by (simp add: withinBounds_def)
          moreover have "sum_list (map length ?vals) \<le> sum_list (map (\<lambda>v. maxRedactValueBytes) ?vals)"
            by (rule sum_list_mono) (use True in \<open>simp add: withinBounds_def\<close>)
          ultimately have sums: "sum_list (map length ?vals) \<le> maxRedactValues * maxRedactValueBytes"
            by (simp add: sum_list_triv) (meson le_trans mult_le_mono1)
          have "length ?vals * length view \<le> maxRedactValues * length view"
            using \<open>length ?vals \<le> maxRedactValues\<close> by (rule mult_le_mono1)
          then have "2 * sum_list (map length ?vals) + 2 * length ?vals * length view \<le>
              2 * (maxRedactValues * maxRedactValueBytes) + 2 * (maxRedactValues * length view)"
            using sums by (intro add_mono) simp_all
          also have "\<dots> = 2 * maxRedactValues * (length view + maxRedactValueBytes)" by (simp add: algebra_simps)
          finally show ?thesis using r'(3) by (rule order.trans [rotated])
        qed
        ultimately show ?thesis using res [OF r'(2)] False True by simp
      next
        case out: False
        have f: "0 \<le> lv_firstStart lv" "lv_firstStart lv < int (length view)" using vals some by simp_all
        let ?cut = "nat (min (lv_firstStart lv) (int failClosedPrefixBytes))"
        obtain cut_at steps where c: "cut_before view ?vals ?cut 0 = (cut_at, steps)" by force
        note cut = cut_before_ok [OF nonempty c]
        have less: "cut_at < length view" using cut f by linarith
        have clear: "readable view ?vals j" if "j < cut_at" for j
          using cut that unfolding hidden_def by fastforce
        let ?rs = "?r\<lparr>re_steps := steps\<rparr>"
        let ?out = "appendRuns view want [\<lparr>mr_start = cut_at, mr_end = length view, mr_keepEnd = cut_at\<rparr>] ?rs"
        have app: "append_to view sps dst want = Some ?out"
          using some False out c by (simp add: append_to_def appendFailClosed_def lv_def [symmetric] Let_def)
        have shown: "loop_result view ?vals want (re_out ?rs) ?out \<and> re_steps ?out = re_steps ?rs"
          by (rule one_run_ok [OF clear less])
        have "?cut \<le> failClosedPrefixBytes" by (simp add: nat_le_iff)
        then have "sum_list (map (\<lambda>v. 4 * length v + 2 * ?cut) ?vals) \<le>
            sum_list (map (\<lambda>v. 4 * length v + 2 * failClosedPrefixBytes) ?vals)"
          by (intro sum_list_mono) simp
        also have "\<dots> = 4 * sum_list (map length ?vals) + length ?vals * (2 * failClosedPrefixBytes)"
          by (simp add: sum_list_addf sum_list_triv sum_list_const_mult)
        also have "\<dots> \<le> 4 * sum_list (map length ?vals) + maxRedactSeen * (2 * failClosedPrefixBytes)"
          using vals by (simp add: mult_le_mono1)
        finally have "steps \<le> 2 * maxRedactSeen * failClosedPrefixBytes + 4 * sum_list (map length ?vals)"
          using cut by (simp add: algebra_simps)
        then show ?thesis using app shown res [of ?out] out False by simp
      qed
    qed
  qed
qed

end
