(* ===== verification/RedactProps.thy ===== *)
theory RedactProps
  imports RedactFacts
begin

text \<open>The theorems of the masking and of the excerpt text.\<close>

section \<open>Text that is valid\<close>

lemma utf8_valid_append: "utf8_valid a \<Longrightarrow> utf8_valid b \<Longrightarrow> utf8_valid (a @ b)"
proof (induction a rule: utf8_valid.induct)
  case (2 c cs)
  then obtain w lo hi where f: "utf8_first c = Some (w, lo, hi)" and tl: "rune_tail (w - 1) lo hi cs" "utf8_valid (drop (w - 1) cs)"
    by (auto split: option.splits)
  have "w - 1 \<le> length cs" using tl(1) by (simp add: rune_tail_def)
  then have "take (w - 1) (cs @ b) = take (w - 1) cs" "w - 1 \<le> length (cs @ b)" by simp_all
  then have "rune_tail (w - 1) lo hi (cs @ b)" using tl(1) unfolding rune_tail_def by (simp only: simp_thms)
  moreover have "drop (w - 1) (cs @ b) = drop (w - 1) cs @ b" using \<open>w - 1 \<le> length cs\<close> by simp
  ultimately show ?case using "2.IH" [OF f refl refl _ "2.prems"(2)] tl f by simp
qed simp

lemma decode_piece:
  assumes "decode_rune p = (sz, True)"
  shows "utf8_valid (take sz p)" and "length (take sz p) = sz" and "0 < sz" and "sz \<le> UTFMax"
proof -
  obtain c cs w lo hi where p: "p = c # cs" "utf8_first c = Some (w, lo, hi)" "rune_tail (w - 1) lo hi cs" "sz = w"
    using assms by (auto simp: decode_rune_def split: list.splits option.splits if_splits)
  have w: "1 \<le> w" "w \<le> 4" using rune_width [OF p(2)] by simp_all
  have "rune_tail (w - 1) lo hi (take (w - 1) cs)" using p(3) by (simp add: rune_tail_def)
  moreover have "take sz p = c # take (w - 1) cs" using p(1,4) w by (cases w) simp_all
  ultimately show "utf8_valid (take sz p)" using p(2) by simp
  show "length (take sz p) = sz" using p w by (auto simp: rune_tail_def)
  show "0 < sz" "sz \<le> UTFMax" using w p(4) by (simp_all add: UTFMax_def)
qed

lemma replacement_valid: "utf8_valid replacementChar" "length replacementChar = 3"
  by (code_simp, simp add: replacementChar_def)

lemma valid_text_end: "\<not> i < length t \<Longrightarrow> valid_text_from t limit i out = (out, i)"
  by (simp add: valid_text_from.simps [of t limit i])

lemma valid_text_from_ok:
  assumes "valid_text_from t limit i out = (out', used)" and "utf8_valid out" and "length out \<le> limit" and "i \<le> length t"
  shows "utf8_valid out' \<and> length out' \<le> limit \<and> i \<le> used \<and> used \<le> length t \<and> prefix out out' \<and>
    (used = length t \<or> limit < length out' + UTFMax)"
  using assms
proof (induction t limit i out rule: valid_text_from.induct)
  case (1 t limit i out)
  show ?case
  proof (cases "i < length t")
    case False
    then show ?thesis using "1.prems" valid_text_end [OF False] by simp
  next
    case True
    obtain sz valid where d: "decode_rune (drop i t) = (sz, valid)" by force
    let ?piece = "if valid then take sz (drop i t) else replacementChar"
    have piece: "utf8_valid ?piece" "length ?piece \<le> UTFMax"
      using decode_piece [of "drop i t" sz] d replacement_valid by (auto simp: UTFMax_def)
    show ?thesis
    proof (cases "length out + length ?piece > limit")
      case full: True
      then have "out' = out" "used = i" using "1.prems"(1) True d by (simp_all add: valid_text_from.simps [of t limit i] Let_def)
      then show ?thesis using full piece(2) "1.prems"(2-4) by simp
    next
      case False
      have call: "valid_text_from t limit (i + sz) (out @ ?piece) = (out', used)"
        using "1.prems"(1) True d False by (cases valid) (simp_all add: valid_text_from.simps [of t limit i] Let_def)
      have "i + sz \<le> length t" using decode_rune_size [of "drop i t"] True d by (auto simp: le_diff_conv2)
      from "1.IH" [OF True d [symmetric] refl False call utf8_valid_append [OF "1.prems"(2) piece(1)] _ this] False
      show ?thesis by (auto elim: prefix_order.trans dest: append_prefixD)
    qed
  qed
qed

lemma appendValidText_ok:
  "\<exists>out used. appendValidText dst t limit = (dst @ out, used) \<and> utf8_valid out \<and> length out \<le> limit \<and> used \<le> length t \<and>
    (used = length t \<or> limit < length out + UTFMax)"
proof -
  obtain out used where v: "valid_text_from t limit 0 [] = (out, used)" by force
  from valid_text_from_ok [OF v] show ?thesis using v by (simp add: appendValidText_def)
qed

text \<open>Valid text that fits is kept as it is.\<close>

lemma valid_text_from_id:
  assumes "utf8_valid (drop i t)" and "length out + (length t - i) \<le> limit" and "i \<le> length t"
  shows "valid_text_from t limit i out = (out @ drop i t, length t)"
  using assms
proof (induction t limit i out rule: valid_text_from.induct)
  case (1 t limit i out)
  show ?case
  proof (cases "i < length t")
    case False
    then show ?thesis using "1.prems" valid_text_end [OF False] by simp
  next
    case True
    then obtain c cs where t: "drop i t = c # cs" by (metis Cons_nth_drop_Suc)
    obtain w lo hi where f: "utf8_first c = Some (w, lo, hi)" "rune_tail (w - 1) lo hi cs" "utf8_valid (drop (w - 1) cs)"
      using "1.prems"(1) t by (auto split: option.splits)
    have d: "decode_rune (drop i t) = (w, True)" using t f by (simp add: decode_rune_def)
    note p = decode_piece [OF d]
    have "utf8_valid (drop (i + w) t)"
    proof -
      have "drop (i + w) t = drop w (c # cs)" using t by (metis add.commute drop_drop)
      then show ?thesis using f(3) p(3) by (cases w) simp_all
    qed
    moreover have iw: "i + w \<le> length t" using decode_rune_size [of "drop i t"] True d by (auto simp: le_diff_conv2)
    ultimately have "valid_text_from t limit (i + w) (out @ take w (drop i t)) = ((out @ take w (drop i t)) @ drop (i + w) t, length t)"
      using "1.IH" [OF True d [symmetric] refl] "1.prems"(2) p(2) by simp
    moreover have "take w (drop i t) @ drop (i + w) t = drop i t" by (metis add.commute append_take_drop_id drop_drop)
    moreover have "\<not> length out + w > limit" using "1.prems"(2) iw by simp
    ultimately show ?thesis using True d p(2) by (simp add: valid_text_from.simps [of t limit i] Let_def)
  qed
qed

text \<open>What a mask keeps of a value.\<close>

lemma kept_from_ok:
  "k \<le> rune_count (drop n v) \<Longrightarrow> n \<le> length v \<Longrightarrow>
    n \<le> kept_from k v n \<and> kept_from k v n \<le> length v \<and> rune_count (drop n v) = k + rune_count (drop (kept_from k v n) v)"
proof (induction k arbitrary: n)
  case (Suc k)
  then obtain c cs where v: "drop n v = c # cs" by (cases "drop n v") auto
  have sz: "n + rune_size (drop n v) \<le> length v" using decode_rune_size [of "drop n v"] v Suc.prems(2)
    by (metis add.commute le_diff_conv2 length_drop list.distinct(1))
  have "rune_count (drop n v) = Suc (rune_count (drop (n + rune_size (drop n v)) v))"
    using v by (metis add.commute drop_drop rune_count.simps(2))
  then show ?case using Suc.IH [of "n + rune_size (drop n v)"] Suc.prems(1) sz by simp
qed simp

lemma keptBytes_ok:
  "keptBytes v \<le> length v \<and> rune_count v = keepChars (rune_count v) + rune_count (drop (keptBytes v) v)"
proof -
  have "keepChars (rune_count v) \<le> rune_count v" by (simp add: keepChars_def)
  then show ?thesis using kept_from_ok [of "keepChars (rune_count v)" 0 v] by (simp add: keptBytes_def)
qed

lemma append_to_empty: "\<exists>r. append_to [] sps dst want = Some r \<and> re_steps r = 0"
proof -
  have slices: "slice [] a b = []" for a b by (simp add: slice_def)
  have d: "distinct_from [] s vals f = \<lparr>lv_distinct = vals, lv_firstStart = f, lv_tooMany = False\<rparr>" for s vals f
    by (induction s arbitrary: vals f) (simp_all add: slices)
  have steps: "re_steps (append_rest view w st p r) = re_steps r" for view w st p r
    by (simp add: append_rest_def Let_def)
  have run: "appendRun view st p m room r = (r', p') \<Longrightarrow> re_steps r' = re_steps r" for view st p m room r r' p'
    by (auto simp: appendRun_def Let_def split: if_splits)
  have runs: "re_steps (append_runs_from view w st p ms r) = re_steps r" for view w st p ms r
    by (induction view w st p ms r rule: append_runs_from.induct) (auto simp: steps run split: prod.splits)
  show ?thesis
    by (simp add: append_to_def distinctValues_def d appendRuns_def runs Let_def del: append_runs_from.simps)
qed


lemma redaction_total: "\<exists>r. append_to view sps dst want = Some r"
  using append_to_empty [of sps dst want] append_to_ok [of view sps dst want] by (cases "view = []") auto

section \<open>Properties\<close>

text \<open>
  Claim C33. Masking a line of text always ends, and what it writes shows the line in order as copies of its
  bytes and stars in the place of parts of it, up to the length asked for or to the end of the line. No byte
  written is a byte of a copy of a match's value behind the start the mask keeps, wherever on the line the
  copy is, overlapping others or not, and whether the line can be followed or is masked from one place on.
\<close>

theorem redaction_masks_every_copy:
  assumes "view \<noteq> []"
  shows "\<exists>r body p. append_to view sps dst want = Some r \<and> re_out r = dst @ body \<and>
    masked_text view (\<lambda>j. \<not> hidden view (match_values view sps) j) body p \<and> (want \<le> length body \<or> p = length view)"
  using append_to_ok [OF assms, of sps dst want] unfolding loop_result_def by blast

lemma redaction_masks_every_copy_witness:
  "\<exists>r body p. append_to [107, 61, 120, 121, 32, 120, 121] [(2, 4)] [] 200 = Some r \<and> re_out r = [] @ body \<and>
    masked_text [107, 61, 120, 121, 32, 120, 121]
      (\<lambda>j. \<not> hidden [107, 61, 120, 121, 32, 120, 121] (match_values [107, 61, 120, 121, 32, 120, 121] [(2, 4)]) j) body p \<and>
    (200 \<le> length body \<or> p = length ([107, 61, 120, 121, 32, 120, 121] :: bytes))"
  by (rule redaction_masks_every_copy) simp

text \<open>
  Claim C34. The masking of a line takes work linear in it: within the bounds on its values at most
  twice the values allowed times the bytes of the line and of a value steps of the automata, and past them at
  most four for a byte of the values and a constant.
\<close>

theorem redaction_work_bounded:
  "\<exists>r. append_to view sps dst want = Some r \<and>
    re_steps r \<le> (if \<not> lv_tooMany (distinctValues view sps) \<and> withinBounds (lv_distinct (distinctValues view sps))
       then 2 * maxRedactValues * (length view + maxRedactValueBytes)
       else 2 * maxRedactSeen * failClosedPrefixBytes + 4 * sum_list (map length (lv_distinct (distinctValues view sps))))"
proof (cases "view = []")
  case True
  then show ?thesis using append_to_empty [of sps dst want] by auto
next
  case False
  from append_to_ok [OF this, of sps dst want] show ?thesis by blast
qed

text \<open>
  Claim C35. The excerpt of a line with secrets is valid UTF-8 of at most 200 bytes behind what was
  there, and the excerpt of one without is too.
\<close>

theorem excerpts_are_valid_text:
  "\<exists>out masked. appendRedactedExcerpt dst view sps = Some (dst @ out, masked) \<and> utf8_valid out \<and> length out \<le> excerptBytes \<and>
    (\<exists>out'. appendExcerpt dst view = dst @ out' \<and> utf8_valid out' \<and> length out' \<le> excerptBytes)"
proof -
  from redaction_total [of view sps "[]" "excerptBytes + UTFMax"]
  obtain r where r: "append_to view sps [] (excerptBytes + UTFMax) = Some r" by blast
  from appendValidText_ok [of dst "re_out r" excerptBytes]
  obtain out used where out: "appendValidText dst (re_out r) excerptBytes = (dst @ out, used)" "utf8_valid out" "length out \<le> excerptBytes"
    by blast
  from appendValidText_ok [of dst "take (min (length view) (excerptBytes + UTFMax)) view" excerptBytes]
  obtain out' used' where out': "appendValidText dst (take (min (length view) (excerptBytes + UTFMax)) view) excerptBytes = (dst @ out', used')"
    "utf8_valid out'" "length out' \<le> excerptBytes" by blast
  show ?thesis using r out out' by (simp add: appendRedactedExcerpt_def appendExcerpt_def)
qed


text \<open>
  A mask keeps whole characters at the start of a value, at most a quarter of its characters and
  at most four; the rest of the value is what is hidden.
\<close>

lemma mask_keeps_little:
  "keptBytes v \<le> length v \<and> rune_count v = keepChars (rune_count v) + rune_count (drop (keptBytes v) v) \<and>
    4 * keepChars (rune_count v) \<le> rune_count v \<and> keepChars (rune_count v) \<le> 4"
  using keptBytes_ok [of v] by (simp add: keepChars_def maskKeepChars_def)

text \<open>
  Claim C5. The excerpt of a line that is valid UTF-8 and fits is the line itself.
\<close>

theorem excerpt_of_valid_line:
  assumes "utf8_valid view" and "length view \<le> excerptBytes"
  shows "appendExcerpt dst view = dst @ view"
  using valid_text_from_id [of 0 view "[]" excerptBytes] assms by (simp add: appendExcerpt_def appendValidText_def)

lemma excerpt_of_valid_line_witness: "appendExcerpt [46] [104, 0xC3, 0xA9] = [46] @ [104, 0xC3, 0xA9]"
  by (rule excerpt_of_valid_line) (code_simp, simp add: excerptBytes_def)

end
