(* ===== verification/SlotQueue.thy ===== *)
theory SlotQueue
  imports Prelude
begin

text \<open>
  The scan slots, \<^verbatim>\<open>internal/findings/queue.go\<close>: a limiter with a queue of waiting callers, as the critical
  sections of its methods and the steps callers take through them in any order.
\<close>

section \<open>The limiter\<close>

definition maxScansLimit :: int where "maxScansLimit = 64"

definition clampScans :: "int \<Rightarrow> int" where
  "clampScans n = min (max n 1) maxScansLimit"

text \<open>
  A waiter's channel is a number, in the order channels are made; \<open>sl_closed\<close> are those closed so far.
\<close>

record slot_limiter =
  sl_limit :: int
  sl_running :: int
  sl_waiters :: "nat list"
  sl_closed :: "nat set"
  sl_made :: nat

definition newSlotLimiter :: "int \<Rightarrow> slot_limiter" where
  "newSlotLimiter n = \<lparr>sl_limit = clampScans n, sl_running = 0, sl_waiters = [], sl_closed = {}, sl_made = 0\<rparr>"

fun admit_from :: "nat list \<Rightarrow> slot_limiter \<Rightarrow> slot_limiter" where
  "admit_from [] l = l\<lparr>sl_waiters := []\<rparr>"
| "admit_from (ch # chs) l =
     (if sl_running l < sl_limit l
      then admit_from chs (l\<lparr>sl_running := sl_running l + 1, sl_closed := insert ch (sl_closed l)\<rparr>)
      else l\<lparr>sl_waiters := ch # chs\<rparr>)"

definition admitLocked :: "slot_limiter \<Rightarrow> slot_limiter" where
  "admitLocked l = admit_from (sl_waiters l) l"

definition releaseLocked :: "slot_limiter \<Rightarrow> slot_limiter" where
  "releaseLocked l = admitLocked (l\<lparr>sl_running := sl_running l - 1\<rparr>)"

definition setLimit :: "int \<Rightarrow> slot_limiter \<Rightarrow> slot_limiter" where
  "setLimit n l = admitLocked (l\<lparr>sl_limit := clampScans n\<rparr>)"

text \<open>The first critical section of \<^verbatim>\<open>acquire\<close>: a slot at once, or a channel to wait on.\<close>

definition acquire :: "slot_limiter \<Rightarrow> nat option \<times> slot_limiter" where
  "acquire l =
     (if sl_running l < sl_limit l \<and> sl_waiters l = [] then (None, l\<lparr>sl_running := sl_running l + 1\<rparr>)
      else (Some (sl_made l), l\<lparr>sl_waiters := sl_waiters l @ [sl_made l], sl_made := sl_made l + 1\<rparr>))"

text \<open>The one entered when the context of a waiter is canceled.\<close>

definition cancel_wait :: "nat \<Rightarrow> slot_limiter \<Rightarrow> slot_limiter" where
  "cancel_wait ch l =
     (if ch \<in> set (sl_waiters l) then l\<lparr>sl_waiters := remove1 ch (sl_waiters l)\<rparr> else releaseLocked l)"

section \<open>Callers\<close>

datatype phase = Waiting nat | Holding

record slot_state =
  limiter :: slot_limiter
  callers :: "nat \<rightharpoonup> phase"

text \<open>
  A caller that waits goes on when its channel is closed, or leaves when its context is canceled; which of the
  two happens when both can is open, as it is in a \<^verbatim>\<open>select\<close>.
\<close>

inductive slot_step :: "slot_state \<Rightarrow> slot_state \<Rightarrow> bool" where
  enter_now: "callers s c = None \<Longrightarrow> acquire (limiter s) = (None, l) \<Longrightarrow>
    slot_step s \<lparr>limiter = l, callers = (callers s)(c \<mapsto> Holding)\<rparr>"
| enter_wait: "callers s c = None \<Longrightarrow> acquire (limiter s) = (Some ch, l) \<Longrightarrow>
    slot_step s \<lparr>limiter = l, callers = (callers s)(c \<mapsto> Waiting ch)\<rparr>"
| admitted: "callers s c = Some (Waiting ch) \<Longrightarrow> ch \<in> sl_closed (limiter s) \<Longrightarrow>
    slot_step s (s\<lparr>callers := (callers s)(c \<mapsto> Holding)\<rparr>)"
| canceled: "callers s c = Some (Waiting ch) \<Longrightarrow>
    slot_step s \<lparr>limiter = cancel_wait ch (limiter s), callers = (callers s)(c := None)\<rparr>"
| released: "callers s c = Some Holding \<Longrightarrow>
    slot_step s \<lparr>limiter = releaseLocked (limiter s), callers = (callers s)(c := None)\<rparr>"
| limit_set: "slot_step s (s\<lparr>limiter := setLimit n (limiter s)\<rparr>)"

definition no_callers :: "slot_state \<Rightarrow> bool" where
  "no_callers s \<longleftrightarrow> (\<exists>n. s = \<lparr>limiter = newSlotLimiter n, callers = Map.empty\<rparr>)"

text \<open>The callers that have a slot: those that hold one, and those whose channel was closed.\<close>

definition slot_holders :: "slot_state \<Rightarrow> nat set" where
  "slot_holders s = {c. callers s c = Some Holding \<or> (\<exists>ch \<in> sl_closed (limiter s). callers s c = Some (Waiting ch))}"

section \<open>The invariant\<close>

definition slots_inv :: "slot_state \<Rightarrow> bool" where
  "slots_inv s \<longleftrightarrow>
     finite (dom (callers s)) \<and>
     sl_running (limiter s) = int (card (slot_holders s)) \<and>
     1 \<le> sl_limit (limiter s) \<and> sl_limit (limiter s) \<le> maxScansLimit \<and>
     sorted_wrt (<) (sl_waiters (limiter s)) \<and>
     (\<forall>ch \<in> set (sl_waiters (limiter s)). ch < sl_made (limiter s) \<and> (\<forall>a \<in> sl_closed (limiter s). a < ch)) \<and>
     (\<forall>ch \<in> sl_closed (limiter s). ch < sl_made (limiter s)) \<and>
     (\<forall>ch \<in> set (sl_waiters (limiter s)). \<exists>c. callers s c = Some (Waiting ch)) \<and>
     (\<forall>c ch. callers s c = Some (Waiting ch) \<longrightarrow> ch \<in> set (sl_waiters (limiter s)) \<union> sl_closed (limiter s)) \<and>
     (\<forall>c d ch. callers s c = Some (Waiting ch) \<longrightarrow> callers s d = Some (Waiting ch) \<longrightarrow> c = d)"

definition no_idle_slot :: "slot_limiter \<Rightarrow> bool" where
  "no_idle_slot l \<longleftrightarrow> (sl_running l < sl_limit l \<longrightarrow> sl_waiters l = [])"

definition queue_inv :: "slot_state \<Rightarrow> bool" where
  "queue_inv s \<longleftrightarrow> slots_inv s \<and> no_idle_slot (limiter s)"

text \<open>What letting waiters in does.\<close>

lemma admit_from_ok:
  "\<exists>k \<le> length chs. admit_from chs l =
      l\<lparr>sl_running := sl_running l + int k, sl_closed := sl_closed l \<union> set (take k chs), sl_waiters := drop k chs\<rparr> \<and>
    (0 < k \<longrightarrow> sl_running l + int k \<le> sl_limit l) \<and> (sl_running l + int k < sl_limit l \<longrightarrow> k = length chs)"
proof (induction chs arbitrary: l)
  case Nil
  then show ?case by simp
next
  case (Cons ch chs)
  show ?case
  proof (cases "sl_running l < sl_limit l")
    case True
    let ?l = "l\<lparr>sl_running := sl_running l + 1, sl_closed := insert ch (sl_closed l)\<rparr>"
    from Cons.IH [of ?l] obtain k where k: "k \<le> length chs"
      "admit_from chs ?l = ?l\<lparr>sl_running := sl_running ?l + int k, sl_closed := sl_closed ?l \<union> set (take k chs), sl_waiters := drop k chs\<rparr>"
      "0 < k \<longrightarrow> sl_running ?l + int k \<le> sl_limit ?l" "sl_running ?l + int k < sl_limit ?l \<longrightarrow> k = length chs" by blast
    show ?thesis using True k by (intro exI [of _ "Suc k"]) auto
  next
    case False
    then show ?thesis by (intro exI [of _ 0]) simp
  qed
qed

lemma admitLocked_ok:
  obtains k where "k \<le> length (sl_waiters l)"
    and "admitLocked l = l\<lparr>sl_running := sl_running l + int k, sl_closed := sl_closed l \<union> set (take k (sl_waiters l)),
      sl_waiters := drop k (sl_waiters l)\<rparr>"
    and "0 < k \<Longrightarrow> sl_running l + int k \<le> sl_limit l" and "sl_running l + int k < sl_limit l \<Longrightarrow> k = length (sl_waiters l)"
  using admit_from_ok [of "sl_waiters l" l] unfolding admitLocked_def by blast

lemma sorted_wrt_less_distinct: "sorted_wrt (<) (ws :: nat list) \<Longrightarrow> distinct ws"
  by (induction ws) auto

lemma holders_finite: "finite (dom (callers s)) \<Longrightarrow> finite (slot_holders s)"
  by (rule finite_subset [of _ "dom (callers s)"]) (auto simp: slot_holders_def)

lemma card_callers_on:
  assumes "\<forall>ch \<in> A. \<exists>c. cs c = Some (Waiting ch)"
    and "\<forall>c d ch. cs c = Some (Waiting ch) \<longrightarrow> cs d = Some (Waiting ch) \<longrightarrow> c = d"
  shows "card {c. \<exists>ch \<in> A. cs c = Some (Waiting ch)} = card A"
proof -
  have "bij_betw (\<lambda>c. case cs c of Some (Waiting ch) \<Rightarrow> ch | _ \<Rightarrow> 0) {c. \<exists>ch \<in> A. cs c = Some (Waiting ch)} A"
    unfolding bij_betw_def inj_on_def using assms by (auto simp: image_iff split: option.splits phase.splits) force
  then show ?thesis by (rule bij_betw_same_card)
qed

lemma admit_inv:
  assumes inv: "slots_inv s"
  shows "queue_inv (s\<lparr>limiter := admitLocked (limiter s)\<rparr>)"
proof -
  let ?l = "limiter s"
  obtain k where k: "k \<le> length (sl_waiters ?l)"
    "admitLocked ?l = ?l\<lparr>sl_running := sl_running ?l + int k, sl_closed := sl_closed ?l \<union> set (take k (sl_waiters ?l)),
      sl_waiters := drop k (sl_waiters ?l)\<rparr>"
    "sl_running ?l + int k < sl_limit ?l \<Longrightarrow> k = length (sl_waiters ?l)"
    using admitLocked_ok [of ?l] by metis
  let ?s = "s\<lparr>limiter := admitLocked ?l\<rparr>"
  let ?in = "set (take k (sl_waiters ?l))"
  let ?new = "{c. \<exists>ch \<in> ?in. callers s c = Some (Waiting ch)}"
  have ws: "sorted_wrt (<) (sl_waiters ?l)" "distinct (sl_waiters ?l)" "?in \<subseteq> set (sl_waiters ?l)"
    using inv sorted_wrt_less_distinct by (auto simp: slots_inv_def dest: in_set_takeD)
  have "sorted_wrt (<) (take k (sl_waiters ?l) @ drop k (sl_waiters ?l))" using ws(1) by simp
  then have order: "\<forall>a \<in> ?in. \<forall>b \<in> set (drop k (sl_waiters ?l)). a < b" "sorted_wrt (<) (drop k (sl_waiters ?l))"
    by (simp_all only: sorted_wrt_append) blast+
  have holders: "slot_holders ?s = slot_holders s \<union> ?new" unfolding slot_holders_def k(2) by auto
  have apart: "slot_holders s \<inter> ?new = {}"
    using inv ws(3) unfolding slot_holders_def slots_inv_def by fastforce
  have uniq: "\<forall>c d ch. callers s c = Some (Waiting ch) \<longrightarrow> callers s d = Some (Waiting ch) \<longrightarrow> c = d"
    and here: "\<forall>ch \<in> ?in. \<exists>c. callers s c = Some (Waiting ch)"
    using inv ws(3) unfolding slots_inv_def by blast+
  have "card ?new = k"
    using card_callers_on [OF here uniq] distinct_card [of "take k (sl_waiters ?l)"] ws(2) k(1) by simp
  moreover have "finite ?new" by (rule finite_subset [of _ "dom (callers s)"]) (use inv in \<open>auto simp: slots_inv_def\<close>)
  ultimately have "card (slot_holders ?s) = card (slot_holders s) + k"
    unfolding holders using card_Un_disjoint [OF holders_finite _ apart] inv by (simp add: slots_inv_def)
  then have run: "sl_running (limiter ?s) = int (card (slot_holders ?s))" using inv k(2) by (simp add: slots_inv_def)
  have parts: "set (sl_waiters ?l) = ?in \<union> set (drop k (sl_waiters ?l))" by (metis append_take_drop_id set_append)
  note old = inv [unfolded slots_inv_def]
  have "slots_inv ?s"
    unfolding slots_inv_def
  proof (intro conjI)
    show "sl_running (limiter ?s) = int (card (slot_holders ?s))" by (rule run)
    show "sorted_wrt (<) (sl_waiters (limiter ?s))" using order(2) k(2) by simp
    show "\<forall>ch \<in> set (sl_waiters (limiter ?s)). ch < sl_made (limiter ?s) \<and> (\<forall>a \<in> sl_closed (limiter ?s). a < ch)"
      using old order(1) parts k(2) by auto
    show "\<forall>ch \<in> sl_closed (limiter ?s). ch < sl_made (limiter ?s)" using old parts k(2) by auto
    show "\<forall>ch \<in> set (sl_waiters (limiter ?s)). \<exists>c. callers ?s c = Some (Waiting ch)" using old parts k(2) by auto
    show "\<forall>c ch. callers ?s c = Some (Waiting ch) \<longrightarrow> ch \<in> set (sl_waiters (limiter ?s)) \<union> sl_closed (limiter ?s)"
      using old parts k(2) by auto
    show "\<forall>c d ch. callers ?s c = Some (Waiting ch) \<longrightarrow> callers ?s d = Some (Waiting ch) \<longrightarrow> c = d" using uniq by simp
  qed (use old k(2) in simp_all)
  moreover have "no_idle_slot (limiter ?s)" using k by (auto simp: no_idle_slot_def)
  ultimately show ?thesis by (simp add: queue_inv_def)
qed


section \<open>Every step keeps it\<close>

inductive_cases slot_stepE: "slot_step s t"

lemmas slot_defs = slots_inv_def slot_holders_def

lemma sorted_remove1: "sorted_wrt (<) (ws :: nat list) \<Longrightarrow> sorted_wrt (<) (remove1 w ws)"
  by (simp add: distinct_remove1_removeAll removeAll_filter_not_eq sorted_wrt_less_distinct sorted_wrt_filter)

text \<open>The parts of the invariant, to put together and to take apart.\<close>

lemma slots_invI:
  assumes "finite (dom (callers s))" and "sl_running (limiter s) = int (card (slot_holders s))"
    and "1 \<le> sl_limit (limiter s)" and "sl_limit (limiter s) \<le> maxScansLimit" and "sorted_wrt (<) (sl_waiters (limiter s))"
    and "\<And>ch a. ch \<in> set (sl_waiters (limiter s)) \<Longrightarrow> a \<in> sl_closed (limiter s) \<Longrightarrow> a < ch"
    and "\<And>ch. ch \<in> set (sl_waiters (limiter s)) \<Longrightarrow> ch < sl_made (limiter s)"
    and "\<And>ch. ch \<in> sl_closed (limiter s) \<Longrightarrow> ch < sl_made (limiter s)"
    and "\<And>ch. ch \<in> set (sl_waiters (limiter s)) \<Longrightarrow> \<exists>c. callers s c = Some (Waiting ch)"
    and "\<And>c ch. callers s c = Some (Waiting ch) \<Longrightarrow> ch \<in> set (sl_waiters (limiter s)) \<or> ch \<in> sl_closed (limiter s)"
    and "\<And>c d ch. callers s c = Some (Waiting ch) \<Longrightarrow> callers s d = Some (Waiting ch) \<Longrightarrow> c = d"
  shows "slots_inv s"
  unfolding slots_inv_def using assms by blast

lemma slots_invD:
  assumes "slots_inv s"
  shows "finite (dom (callers s))" and "sl_running (limiter s) = int (card (slot_holders s))"
    and "1 \<le> sl_limit (limiter s)" and "sl_limit (limiter s) \<le> maxScansLimit" and "sorted_wrt (<) (sl_waiters (limiter s))"
    and "ch \<in> set (sl_waiters (limiter s)) \<Longrightarrow> a \<in> sl_closed (limiter s) \<Longrightarrow> a < ch"
    and "ch \<in> set (sl_waiters (limiter s)) \<Longrightarrow> ch < sl_made (limiter s)"
    and "ch \<in> sl_closed (limiter s) \<Longrightarrow> ch < sl_made (limiter s)"
    and "ch \<in> set (sl_waiters (limiter s)) \<Longrightarrow> \<exists>c. callers s c = Some (Waiting ch)"
    and "callers s c = Some (Waiting ch) \<Longrightarrow> ch \<in> set (sl_waiters (limiter s)) \<or> ch \<in> sl_closed (limiter s)"
    and "callers s c = Some (Waiting ch) \<Longrightarrow> callers s d = Some (Waiting ch) \<Longrightarrow> c = d"
  using assms unfolding slots_inv_def by blast+

lemma limit_inv: "slots_inv s \<Longrightarrow> slots_inv (s\<lparr>limiter := (limiter s)\<lparr>sl_limit := clampScans n\<rparr>\<rparr>)"
  by (simp add: slot_defs clampScans_def maxScansLimit_def)

text \<open>A caller with a slot leaves, and its slot is not counted any more.\<close>

lemma leave_inv:
  assumes inv: "slots_inv s" and c: "c \<in> slot_holders s"
  shows "slots_inv \<lparr>limiter = (limiter s)\<lparr>sl_running := sl_running (limiter s) - 1\<rparr>, callers = (callers s)(c := None)\<rparr>"
    (is "slots_inv ?s")
proof -
  note old = inv [unfolded slots_inv_def]
  have fin: "finite (slot_holders s)" using old holders_finite by blast
  have "slot_holders ?s = slot_holders s - {c}" by (auto simp: slot_holders_def)
  then have "card (slot_holders ?s) = card (slot_holders s) - 1" using card_Diff_singleton [OF c] by simp
  moreover have "0 < card (slot_holders s)" using c fin card_gt_0_iff by blast
  moreover have "\<exists>d. ((callers s)(c := None)) d = Some (Waiting ch)" if ch: "ch \<in> set (sl_waiters (limiter s))" for ch
  proof -
    obtain d where d: "callers s d = Some (Waiting ch)" using old ch by blast
    have "ch \<notin> sl_closed (limiter s)" using old ch by blast
    then have "d \<noteq> c" using c d unfolding slot_holders_def by auto
    then show ?thesis using d by auto
  qed
  ultimately have "card (slot_holders ?s) = card (slot_holders s) - 1 \<and> 0 < card (slot_holders s)"
    and wait: "\<And>ch. ch \<in> set (sl_waiters (limiter s)) \<Longrightarrow> \<exists>d. ((callers s)(c := None)) d = Some (Waiting ch)" by simp_all
  have was: "callers s d = Some p" if "callers ?s d = Some p" for d p using that by (auto split: if_splits)
  show ?thesis
  proof (rule slots_invI)
    show "sl_running (limiter ?s) = int (card (slot_holders ?s))"
      using \<open>card _ = _ \<and> _\<close> slots_invD(2) [OF inv] by simp
    show "c' = d" if "callers ?s c' = Some (Waiting ch)" "callers ?s d = Some (Waiting ch)" for c' d ch
      by (rule slots_invD(11) [OF inv was [OF that(1)] was [OF that(2)]])
    show "ch \<in> set (sl_waiters (limiter ?s)) \<or> ch \<in> sl_closed (limiter ?s)" if "callers ?s d = Some (Waiting ch)" for d ch
      using slots_invD(10) [OF inv was [OF that]] by simp
  qed (use slots_invD(1,3-8) [OF inv] wait in simp_all)
qed

lemma released_inv:
  assumes "slots_inv s" and "c \<in> slot_holders s"
  shows "queue_inv \<lparr>limiter = releaseLocked (limiter s), callers = (callers s)(c := None)\<rparr>"
  using admit_inv [OF leave_inv [OF assms]] by (simp add: releaseLocked_def)

lemma enter_now_inv:
  assumes inv: "queue_inv s" and "callers s c = None" and call: "acquire (limiter s) = (None, l)"
  shows "queue_inv \<lparr>limiter = l, callers = (callers s)(c \<mapsto> Holding)\<rparr>" (is "queue_inv ?s")
proof -
  have l: "l = (limiter s)\<lparr>sl_running := sl_running (limiter s) + 1\<rparr>" "sl_waiters (limiter s) = []"
    using call by (auto simp: acquire_def split: if_splits)
  note old = inv [unfolded queue_inv_def slots_inv_def]
  have inv': "slots_inv s" using inv by (simp add: queue_inv_def)
  have "slot_holders ?s = insert c (slot_holders s)" "c \<notin> slot_holders s"
    using assms(2) unfolding l slot_holders_def by auto
  then have "card (slot_holders ?s) = card (slot_holders s) + 1" using old holders_finite by simp
  then have "slots_inv ?s"
    using slots_invD(1-5) [OF inv'] l
    by (intro slots_invI) (auto split: if_splits dest: slots_invD(8,10,11) [OF inv'])
  then show ?thesis using l by (simp add: queue_inv_def no_idle_slot_def)
qed

lemma enter_wait_inv:
  assumes inv: "queue_inv s" and "callers s c = None" and call: "acquire (limiter s) = (Some ch, l)"
  shows "queue_inv \<lparr>limiter = l, callers = (callers s)(c \<mapsto> Waiting ch)\<rparr>" (is "queue_inv ?s")
proof -
  have l: "l = (limiter s)\<lparr>sl_waiters := sl_waiters (limiter s) @ [ch], sl_made := ch + 1\<rparr>" "ch = sl_made (limiter s)"
    "\<not> sl_running (limiter s) < sl_limit (limiter s) \<or> sl_waiters (limiter s) \<noteq> []"
    using call by (auto simp: acquire_def split: if_splits)
  note old = inv [unfolded queue_inv_def slots_inv_def]
  have idle: "\<not> sl_running (limiter s) < sl_limit (limiter s)" using l(3) inv by (auto simp: queue_inv_def no_idle_slot_def)
  have fresh: "ch \<notin> sl_closed (limiter s)" "ch \<notin> set (sl_waiters (limiter s))" using old l(2) by auto
  then have new: "\<forall>d. callers s d \<noteq> Some (Waiting ch)" using old by blast
  have "slot_holders ?s = slot_holders s" using assms(2) fresh unfolding l(1) slot_holders_def by auto
  then have run: "sl_running l = int (card (slot_holders ?s))" using old unfolding l(1) by simp
  have sorted: "sorted_wrt (<) (sl_waiters l)" using old l(2) unfolding l(1) by (auto simp: sorted_wrt_append)
  have "\<exists>d. ((callers s)(c \<mapsto> Waiting ch)) d = Some (Waiting w)" if w: "w \<in> set (sl_waiters l)" for w
  proof (cases "w = ch")
    case False
    then have "w \<in> set (sl_waiters (limiter s))" using w unfolding l(1) by simp
    then obtain d where "callers s d = Some (Waiting w)" using old by blast
    then show ?thesis using assms(2) by (intro exI [of _ d]) auto
  qed auto
  moreover have inv': "slots_inv s" using inv by (simp add: queue_inv_def)
  moreover have was: "d = c \<and> w = ch \<or> callers s d = Some (Waiting w)" if "callers ?s d = Some (Waiting w)" for d w
    using that by (auto split: if_splits)
  ultimately have "slots_inv ?s"
    using run sorted l slots_invD(1-5) [OF inv']
    by (intro slots_invI) (auto dest: slots_invD(6-8,10,11) [OF inv'] was simp: new split: if_splits)
  then show ?thesis using idle by (simp add: queue_inv_def no_idle_slot_def l(1))
qed

lemma left_queue_inv:
  assumes inv: "queue_inv s" and c: "callers s c = Some (Waiting ch)" and ch: "ch \<in> set (sl_waiters (limiter s))"
  shows "queue_inv \<lparr>limiter = (limiter s)\<lparr>sl_waiters := remove1 ch (sl_waiters (limiter s))\<rparr>, callers = (callers s)(c := None)\<rparr>"
    (is "queue_inv ?s")
proof -
  note old = inv [unfolded queue_inv_def slots_inv_def]
  have open_ch: "ch \<notin> sl_closed (limiter s)" using old ch by blast
  have uniq: "\<And>d. callers s d = Some (Waiting ch) \<Longrightarrow> d = c" using old c by blast
  have "slot_holders ?s = slot_holders s" using c open_ch unfolding slot_holders_def by auto
  moreover have "sorted_wrt (<) (remove1 ch (sl_waiters (limiter s)))"
    using old sorted_remove1 by blast
  moreover have "distinct (sl_waiters (limiter s))" using old sorted_wrt_less_distinct by blast
  moreover have "\<exists>d. ((callers s)(c := None)) d = Some (Waiting w)" if w: "w \<in> set (sl_waiters (limiter s))" "w \<noteq> ch" for w
  proof -
    obtain d where "callers s d = Some (Waiting w)" using old w(1) by blast
    then show ?thesis using c w(2) by (intro exI [of _ d]) auto
  qed
  ultimately have facts: "slot_holders ?s = slot_holders s" "sorted_wrt (<) (remove1 ch (sl_waiters (limiter s)))"
    "distinct (sl_waiters (limiter s))"
    "\<And>w. w \<in> set (sl_waiters (limiter s)) \<Longrightarrow> w \<noteq> ch \<Longrightarrow> \<exists>d. ((callers s)(c := None)) d = Some (Waiting w)" by simp_all
  have inv': "slots_inv s" using inv by (simp add: queue_inv_def)
  have was: "callers s d = Some (Waiting w)" "w \<noteq> ch" if "callers ?s d = Some (Waiting w)" for d w
    using that uniq by (auto split: if_splits)
  have "slots_inv ?s"
  proof (rule slots_invI)
    show "c' = d" if "callers ?s c' = Some (Waiting w)" "callers ?s d = Some (Waiting w)" for c' d w
      by (rule slots_invD(11) [OF inv' was(1) [OF that(1)] was(1) [OF that(2)]])
    show "w \<in> set (sl_waiters (limiter ?s)) \<or> w \<in> sl_closed (limiter ?s)" if "callers ?s d = Some (Waiting w)" for d w
      using slots_invD(10) [OF inv' was(1) [OF that]] was(2) [OF that] facts(3) by auto
    show "finite (dom (callers ?s))" "sl_running (limiter ?s) = int (card (slot_holders ?s))"
      "sorted_wrt (<) (sl_waiters (limiter ?s))" "1 \<le> sl_limit (limiter ?s)" "sl_limit (limiter ?s) \<le> maxScansLimit"
      using slots_invD(1-4) [OF inv'] facts(1,2) by simp_all
    show "\<exists>d. callers ?s d = Some (Waiting w)" if "w \<in> set (sl_waiters (limiter ?s))" for w
      using facts(3) facts(4) [of w] that by simp
    show "a < w" if "w \<in> set (sl_waiters (limiter ?s))" "a \<in> sl_closed (limiter ?s)" for w a
      using slots_invD(6) [OF inv'] that facts(3) by simp
    show "w < sl_made (limiter ?s)" if "w \<in> set (sl_waiters (limiter ?s))" for w
      using slots_invD(7) [OF inv'] that facts(3) by simp
    show "w < sl_made (limiter ?s)" if "w \<in> sl_closed (limiter ?s)" for w using slots_invD(8) [OF inv'] that by simp
  qed
  moreover have "\<not> sl_running (limiter s) < sl_limit (limiter s)"
    using inv ch by (auto simp: queue_inv_def no_idle_slot_def)
  ultimately show ?thesis by (simp add: queue_inv_def no_idle_slot_def)
qed

lemma slot_step_inv:
  assumes inv: "queue_inv s" and step: "slot_step s t"
  shows "queue_inv t"
  using step
proof cases
  case (enter_now c l)
  then show ?thesis using enter_now_inv [OF inv enter_now(2,3)] by simp
next
  case (enter_wait c ch l)
  then show ?thesis using enter_wait_inv [OF inv enter_wait(2,3)] by simp
next
  case (admitted c ch)
  have "slot_holders t = slot_holders s" using admitted unfolding slot_holders_def by auto
  then show ?thesis using inv admitted unfolding queue_inv_def slots_inv_def
    by (auto split: if_splits) (metis less_irrefl option.inject phase.inject)+
next
  case (canceled c ch)
  have cc: "ch \<in> sl_closed (limiter s)" if "ch \<notin> set (sl_waiters (limiter s))"
    using canceled(2) inv that by (auto simp: queue_inv_def slots_inv_def)
  show ?thesis
  proof (cases "ch \<in> set (sl_waiters (limiter s))")
    case True
    then show ?thesis using left_queue_inv [OF inv canceled(2)] canceled(1) by (simp add: cancel_wait_def)
  next
    case False
    then have "c \<in> slot_holders s" using cc canceled(2) by (auto simp: slot_holders_def)
    then show ?thesis using released_inv [of s c] inv canceled(1) False by (simp add: cancel_wait_def queue_inv_def)
  qed
next
  case (released c)
  then have "c \<in> slot_holders s" by (simp add: slot_holders_def)
  then show ?thesis using released_inv [of s c] inv released(1) by (simp add: queue_inv_def)
next
  case (limit_set n)
  then show ?thesis using admit_inv [OF limit_inv [of s n]] inv by (simp add: setLimit_def queue_inv_def)
qed

interpretation slots: invariant_system no_callers slot_step queue_inv
proof
  fix s assume "no_callers s"
  then show "queue_inv s"
    by (auto simp: no_callers_def queue_inv_def slots_inv_def no_idle_slot_def newSlotLimiter_def slot_holders_def
        clampScans_def maxScansLimit_def)
qed (rule slot_step_inv)

end
