(* ===== verification/FileLocks.thy ===== *)
theory FileLocks
  imports SlotQueue
begin

text \<open>
  The lock per cached file, \<^verbatim>\<open>internal/findings/queue.go\<close>: a table of locks that keeps an entry only while a
  caller uses it, and the theorems of the slots and of the locks.
\<close>

section \<open>The table of locks\<close>

text \<open>
  A lock's channel has room for one token: \<open>fk_token\<close> says the token is in it. The locks made are numbered, since
  a caller keeps its lock when the table forgets it.
\<close>

record file_lock =
  fk_token :: bool
  fk_refs :: int

record file_locks =
  fl_locks :: "nat \<rightharpoonup> file_lock"
  fl_made :: nat
  fl_held :: "string \<rightharpoonup> nat"

definition no_locks :: file_locks where
  "no_locks = \<lparr>fl_locks = Map.empty, fl_made = 0, fl_held = Map.empty\<rparr>"

definition on_lock :: "(file_lock \<Rightarrow> file_lock) \<Rightarrow> nat \<Rightarrow> file_locks \<Rightarrow> file_locks" where
  "on_lock g i f = (case fl_locks f i of None \<Rightarrow> f | Some fl \<Rightarrow> f\<lparr>fl_locks := (fl_locks f)(i \<mapsto> g fl)\<rparr>)"

text \<open>The critical section of \<^verbatim>\<open>lock\<close>: the key's lock, made when the table has none, with one caller more.\<close>

definition join_lock :: "string \<Rightarrow> file_locks \<Rightarrow> nat \<times> file_locks" where
  "join_lock key f =
     (case fl_held f key of
        None \<Rightarrow> (fl_made f, f\<lparr>fl_locks := (fl_locks f)(fl_made f \<mapsto> \<lparr>fk_token = False, fk_refs = 1\<rparr>),
                             fl_made := fl_made f + 1, fl_held := (fl_held f)(key \<mapsto> fl_made f)\<rparr>)
      | Some i \<Rightarrow> (i, on_lock (\<lambda>fl. fl\<lparr>fk_refs := fk_refs fl + 1\<rparr>) i f))"

definition token_free :: "nat \<Rightarrow> file_locks \<Rightarrow> bool" where
  "token_free i f \<longleftrightarrow> (case fl_locks f i of None \<Rightarrow> False | Some fl \<Rightarrow> \<not> fk_token fl)"

definition put_token :: "bool \<Rightarrow> nat \<Rightarrow> file_locks \<Rightarrow> file_locks" where
  "put_token b = on_lock (\<lambda>fl. fl\<lparr>fk_token := b\<rparr>)"

definition drop_lock :: "string \<Rightarrow> nat \<Rightarrow> file_locks \<Rightarrow> file_locks" where
  "drop_lock key i f =
     (let f' = on_lock (\<lambda>fl. fl\<lparr>fk_refs := fk_refs fl - 1\<rparr>) i f
      in case fl_locks f' i of
           None \<Rightarrow> f'
         | Some fl \<Rightarrow> if fk_refs fl = 0 then f'\<lparr>fl_held := (fl_held f')(key := None)\<rparr> else f')"

section \<open>Callers\<close>

text \<open>
  A caller asks, and blocks when it finds the token taken; it then gets the token when it is free or gives up when its
  context is canceled. The holder takes the token out and then leaves the table, in two steps.
\<close>

datatype lock_phase = Asking (lp_key: string) (lp_id: nat) | Blocked (lp_key: string) (lp_id: nat)
  | Owning (lp_key: string) (lp_id: nat) | Leaving (lp_key: string) (lp_id: nat)

record lock_state =
  locks :: file_locks
  users :: "nat \<rightharpoonup> lock_phase"

inductive lock_step :: "lock_state \<Rightarrow> lock_state \<Rightarrow> bool" where
  ask: "users s c = None \<Longrightarrow> join_lock key (locks s) = (i, f) \<Longrightarrow>
    lock_step s \<lparr>locks = f, users = (users s)(c \<mapsto> Asking key i)\<rparr>"
| take_token: "users s c = Some (Asking key i) \<or> users s c = Some (Blocked key i) \<Longrightarrow> token_free i (locks s) \<Longrightarrow>
    lock_step s \<lparr>locks = put_token True i (locks s), users = (users s)(c \<mapsto> Owning key i)\<rparr>"
| block: "users s c = Some (Asking key i) \<Longrightarrow> \<not> token_free i (locks s) \<Longrightarrow>
    lock_step s (s\<lparr>users := (users s)(c \<mapsto> Blocked key i)\<rparr>)"
| give_up: "users s c = Some (Blocked key i) \<Longrightarrow>
    lock_step s \<lparr>locks = drop_lock key i (locks s), users = (users s)(c := None)\<rparr>"
| unlock: "users s c = Some (Owning key i) \<Longrightarrow>
    lock_step s \<lparr>locks = put_token False i (locks s), users = (users s)(c \<mapsto> Leaving key i)\<rparr>"
| leave: "users s c = Some (Leaving key i) \<Longrightarrow>
    lock_step s \<lparr>locks = drop_lock key i (locks s), users = (users s)(c := None)\<rparr>"

definition no_users :: "lock_state \<Rightarrow> bool" where
  "no_users s \<longleftrightarrow> s = \<lparr>locks = no_locks, users = Map.empty\<rparr>"

section \<open>The invariant\<close>

definition users_of :: "(nat \<rightharpoonup> lock_phase) \<Rightarrow> nat \<Rightarrow> nat set" where
  "users_of us i = {c. \<exists>p. us c = Some p \<and> lp_id p = i}"

definition owns :: "(nat \<rightharpoonup> lock_phase) \<Rightarrow> nat \<Rightarrow> nat \<Rightarrow> bool" where
  "owns us c i \<longleftrightarrow> (\<exists>key. us c = Some (Owning key i))"

text \<open>An entry of the table and what it says of the callers.\<close>

definition entry_ok :: "lock_state \<Rightarrow> nat \<Rightarrow> bool" where
  "entry_ok s i \<longleftrightarrow>
     i < fl_made (locks s) \<and> users_of (users s) i \<noteq> {} \<and>
     (\<exists>fl. fl_locks (locks s) i = Some fl \<and> fk_refs fl = int (card (users_of (users s) i)) \<and>
        (fk_token fl \<longleftrightarrow> (\<exists>c. owns (users s) c i)))"

definition locks_inv :: "lock_state \<Rightarrow> bool" where
  "locks_inv s \<longleftrightarrow>
     finite (dom (users s)) \<and>
     (\<forall>c p. users s c = Some p \<longrightarrow> fl_held (locks s) (lp_key p) = Some (lp_id p)) \<and>
     (\<forall>key i. fl_held (locks s) key = Some i \<longrightarrow> entry_ok s i) \<and>
     (\<forall>key key' i. fl_held (locks s) key = Some i \<longrightarrow> fl_held (locks s) key' = Some i \<longrightarrow> key = key') \<and>
     (\<forall>c d i. owns (users s) c i \<longrightarrow> owns (users s) d i \<longrightarrow> c = d)"

lemma locks_invI:
  assumes "finite (dom (users s))"
    and "\<And>c p. users s c = Some p \<Longrightarrow> fl_held (locks s) (lp_key p) = Some (lp_id p)"
    and "\<And>key i. fl_held (locks s) key = Some i \<Longrightarrow> entry_ok s i"
    and "\<And>key key' i. fl_held (locks s) key = Some i \<Longrightarrow> fl_held (locks s) key' = Some i \<Longrightarrow> key = key'"
    and "\<And>c d i. owns (users s) c i \<Longrightarrow> owns (users s) d i \<Longrightarrow> c = d"
  shows "locks_inv s"
  unfolding locks_inv_def using assms by blast

lemma locks_invD:
  assumes "locks_inv s"
  shows "finite (dom (users s))"
    and "users s c = Some p \<Longrightarrow> fl_held (locks s) (lp_key p) = Some (lp_id p)"
    and "fl_held (locks s) key = Some i \<Longrightarrow> entry_ok s i"
    and "fl_held (locks s) key = Some i \<Longrightarrow> fl_held (locks s) key' = Some i \<Longrightarrow> key = key'"
    and "owns (users s) c i \<Longrightarrow> owns (users s) d i \<Longrightarrow> c = d"
  using assms unfolding locks_inv_def by blast+

lemma users_of_finite: "finite (dom us) \<Longrightarrow> finite (users_of us i)"
  by (rule finite_subset [of _ "dom us"]) (auto simp: users_of_def)

text \<open>A caller that changes its phase keeps its lock; one that leaves takes its count with it.\<close>

lemma users_of_phase:
  "us c = Some p \<Longrightarrow> lp_id q = lp_id p \<Longrightarrow> users_of (us(c \<mapsto> q)) i = users_of us i"
  by (auto simp: users_of_def)

lemma users_of_leave: "us c = Some p \<Longrightarrow> users_of (us(c := None)) i = (if i = lp_id p then users_of us i - {c} else users_of us i)"
  by (auto simp: users_of_def)

lemma on_lock_simps [simp]:
  "fl_held (on_lock g i f) = fl_held f" "fl_made (on_lock g i f) = fl_made f"
  "fl_locks (on_lock g i f) j = (if j = i then map_option g (fl_locks f j) else fl_locks f j)"
  by (auto simp: on_lock_def split: option.splits)

lemma put_token_simps [simp]:
  "fl_held (put_token b i f) = fl_held f" "fl_made (put_token b i f) = fl_made f"
  "fl_locks (put_token b i f) j = (if j = i then map_option (\<lambda>fl. fl\<lparr>fk_token := b\<rparr>) (fl_locks f j) else fl_locks f j)"
  by (simp_all add: put_token_def)

lemma ask_inv:
  assumes inv: "locks_inv s" and c: "users s c = None" and call: "join_lock key (locks s) = (i, f)"
  shows "locks_inv \<lparr>locks = f, users = (users s)(c \<mapsto> Asking key i)\<rparr>" (is "locks_inv ?s")
proof -
  note old = locks_invD [OF inv]
  have own: "owns (users ?s) d j \<longleftrightarrow> owns (users s) d j" for d j using c by (auto simp: owns_def)
  have cnt: "users_of (users ?s) j = (if j = i then insert c (users_of (users s) j) else users_of (users s) j)" for j
    using c by (auto simp: users_of_def)
  have out: "c \<notin> users_of (users s) j" for j using c by (simp add: users_of_def)
  note fin = users_of_finite [OF old(1)]
  show ?thesis
  proof (cases "fl_held (locks s) key")
    case None
    have f: "i = fl_made (locks s)" "f = (locks s)\<lparr>fl_locks := (fl_locks (locks s))(i \<mapsto> \<lparr>fk_token = False, fk_refs = 1\<rparr>),
        fl_made := i + 1, fl_held := (fl_held (locks s))(key \<mapsto> i)\<rparr>" using call None by (auto simp: join_lock_def)
    have fresh: "lp_id p \<noteq> i" if "users s d = Some p" for d p
      using old(3) [OF old(2) [OF that]] f(1) by (simp add: entry_ok_def)
    then have none: "users_of (users s) i = {}" "\<not> owns (users s) d i" for d by (fastforce simp: users_of_def owns_def)+
    show ?thesis
    proof (rule locks_invI)
      show "finite (dom (users ?s))" using old(1) by simp
      show "fl_held (locks ?s) (lp_key p) = Some (lp_id p)" if "users ?s d = Some p" for d p
        using that old(2) [of d p] None f by (auto split: if_splits)
      show "entry_ok ?s j" if "fl_held (locks ?s) k = Some j" for k j
      proof (cases "k = key")
        case True
        then have "j = i" using that f by simp
        then show ?thesis using none f cnt [of i] own by (simp add: entry_ok_def)
      next
        case False
        then have e: "entry_ok s j" using that old(3) f by simp
        then have "j \<noteq> i" using f(1) by (simp add: entry_ok_def)
        then show ?thesis using e f cnt own by (simp add: entry_ok_def)
      qed
      show "k = k'" if "fl_held (locks ?s) k = Some j" "fl_held (locks ?s) k' = Some j" for k k' j
        using that old(4) [of k j k'] old(3) [of k j] old(3) [of k' j] f by (auto simp: entry_ok_def split: if_splits)
      show "d = d'" if "owns (users ?s) d j" "owns (users ?s) d' j" for d d' j using that old(5) own by blast
    qed
  next
    case (Some j)
    have f: "i = j" "f = on_lock (\<lambda>fl. fl\<lparr>fk_refs := fk_refs fl + 1\<rparr>) i (locks s)" using call Some by (auto simp: join_lock_def)
    show ?thesis
    proof (rule locks_invI)
      show "finite (dom (users ?s))" using old(1) by simp
      show "fl_held (locks ?s) (lp_key p) = Some (lp_id p)" if "users ?s d = Some p" for d p
        using that old(2) [of d p] Some f by (auto split: if_splits)
      show "entry_ok ?s j'" if "fl_held (locks ?s) k = Some j'" for k j'
        using old(3) [of k j'] that f cnt [of j'] own out fin [of j'] by (auto simp: entry_ok_def)
      show "k = k'" if "fl_held (locks ?s) k = Some j'" "fl_held (locks ?s) k' = Some j'" for k k' j'
        using that old(4) f by simp
      show "d = d'" if "owns (users ?s) d j'" "owns (users ?s) d' j'" for d d' j' using that old(5) own by blast
    qed
  qed
qed

text \<open>Steps that change a phase and at most the token.\<close>

lemma phase_inv:
  assumes inv: "locks_inv s" and c: "users s c = Some p" and q: "lp_id q = lp_id p" "lp_key q = lp_key p"
    and same: "fl_held f = fl_held (locks s)" "fl_made f = fl_made (locks s)"
      "\<And>j. j \<noteq> lp_id p \<Longrightarrow> fl_locks f j = fl_locks (locks s) j"
    and lock: "\<And>fl. fl_locks (locks s) (lp_id p) = Some fl \<Longrightarrow>
      fl_locks f (lp_id p) = Some (fl\<lparr>fk_token := (\<exists>d. owns ((users s)(c \<mapsto> q)) d (lp_id p))\<rparr>)"
    and excl: "\<And>d. is_Owning q \<Longrightarrow> owns (users s) d (lp_id p) \<Longrightarrow> d = c"
  shows "locks_inv \<lparr>locks = f, users = (users s)(c \<mapsto> q)\<rparr>" (is "locks_inv ?s")
proof -
  note old = locks_invD [OF inv]
  have cnt: "users_of (users ?s) j = users_of (users s) j" for j using users_of_phase [of "users s" c p q j] c q(1) by simp
  have own: "owns (users ?s) d j \<longleftrightarrow> owns (users s) d j" if "j \<noteq> lp_id p" for d j
    using that c q by (auto simp: owns_def)
  have own_c: "d = c \<and> is_Owning q \<or> d \<noteq> c \<and> owns (users s) d j" if "owns (users ?s) d j" for d j
    using that by (auto simp: owns_def split: if_splits)
  show ?thesis
  proof (rule locks_invI)
    show "finite (dom (users ?s))" using old(1) by simp
    show "fl_held (locks ?s) (lp_key r) = Some (lp_id r)" if "users ?s d = Some r" for d r
      using that old(2) [of d r] old(2) [OF c] q same(1) by (auto split: if_splits)
    show "entry_ok ?s j" if "fl_held (locks ?s) k = Some j" for k j
    proof -
      have e: "entry_ok s j" using old(3) that same(1) by simp
      show ?thesis
      proof (cases "j = lp_id p")
        case True
        then show ?thesis using e cnt same(2) lock by (auto simp: entry_ok_def)
      next
        case False
        then show ?thesis using e cnt same(2,3) own by (auto simp: entry_ok_def)
      qed
    qed
    show "k = k'" if "fl_held (locks ?s) k = Some j" "fl_held (locks ?s) k' = Some j" for k k' j
      using that old(4) same(1) by simp
    show "d = d'" if o: "owns (users ?s) d j" "owns (users ?s) d' j" for d d' j
    proof (cases "j = lp_id p")
      case True
      then show ?thesis using own_c [OF o(1)] own_c [OF o(2)] old(5) excl by blast
    next
      case False
      then show ?thesis using o own old(5) by blast
    qed
  qed
qed

text \<open>Steps that leave the table.\<close>

lemma drop_inv:
  assumes inv: "locks_inv s" and c: "users s c = Some p" and p: "\<not> is_Owning p"
  shows "locks_inv \<lparr>locks = drop_lock (lp_key p) (lp_id p) (locks s), users = (users s)(c := None)\<rparr>" (is "locks_inv ?s")
proof -
  note old = locks_invD [OF inv]
  let ?i = "lp_id p" and ?k = "lp_key p"
  have held: "fl_held (locks s) ?k = Some ?i" by (rule old(2) [OF c])
  obtain fl where fl: "fl_locks (locks s) ?i = Some fl" "fk_refs fl = int (card (users_of (users s) ?i))"
    "fk_token fl \<longleftrightarrow> (\<exists>d. owns (users s) d ?i)" using old(3) [OF held] by (auto simp: entry_ok_def)
  have own: "owns (users ?s) d j \<longleftrightarrow> owns (users s) d j" for d j
    using c p by (auto simp: owns_def split: if_splits)
  note fin = users_of_finite [OF old(1)]
  have mem: "c \<in> users_of (users s) ?i" using c by (auto simp: users_of_def)
  have cnt: "users_of (users ?s) j = (if j = ?i then users_of (users s) j - {c} else users_of (users s) j)" for j
    using users_of_leave [of "users s" c p j] c by simp
  have card: "int (card (users_of (users ?s) ?i)) = fk_refs fl - 1"
  proof -
    have "0 < card (users_of (users s) ?i)" using mem fin [of ?i] card_gt_0_iff by blast
    moreover have "card (users_of (users ?s) ?i) = card (users_of (users s) ?i) - 1"
      using cnt [of ?i] card_Diff_singleton [OF mem] by simp
    ultimately show ?thesis using fl(2) by simp
  qed
  define gone where "gone = (fk_refs fl - 1 = 0)"
  have loc: "fl_locks (locks ?s) j = (if j = ?i then Some (fl\<lparr>fk_refs := fk_refs fl - 1\<rparr>) else fl_locks (locks s) j)"
    "fl_made (locks ?s) = fl_made (locks s)"
    "fl_held (locks ?s) = (if gone then (fl_held (locks s))(?k := None) else fl_held (locks s))" for j
    using fl(1) by (auto simp: drop_lock_def gone_def Let_def)
  have empty: "gone \<longleftrightarrow> users_of (users ?s) ?i = {}"
  proof -
    have "finite (users_of (users ?s) ?i)" by (rule users_of_finite) (use old(1) in simp)
    moreover have "gone \<longleftrightarrow> card (users_of (users ?s) ?i) = 0" unfolding gone_def card [symmetric] by (simp only: of_nat_eq_0_iff)
    ultimately show ?thesis by (simp only: card_eq_0_iff) blast
  qed
  have sub: "fl_held (locks ?s) k = Some j \<Longrightarrow> fl_held (locks s) k = Some j" for k j
    using loc(3) by (auto split: if_splits)
  show ?thesis
  proof (rule locks_invI)
    show "finite (dom (users ?s))" using old(1) by simp
    show "fl_held (locks ?s) (lp_key r) = Some (lp_id r)" if "users ?s d = Some r" for d r
    proof -
      have r: "users s d = Some r" "d \<noteq> c" using that by (auto split: if_splits)
      show ?thesis
      proof (cases "gone \<and> lp_key r = ?k")
        case True
        then have "lp_id r = ?i" using old(2) [OF r(1)] held by simp
        then have "d \<in> users_of (users ?s) ?i" using that by (auto simp: users_of_def)
        then show ?thesis using True empty by auto
      next
        case False
        then show ?thesis using old(2) [OF r(1)] loc(3) by auto
      qed
    qed
    show "entry_ok ?s j" if "fl_held (locks ?s) k = Some j" for k j
    proof (cases "j = ?i")
      case True
      then have "k = ?k" using old(4) [OF sub [OF that]] held by blast
      then have "\<not> gone" using that loc(3) by (auto split: if_splits)
      then show ?thesis using True empty card loc(1,2) fl old(3) [OF held] own by (simp add: entry_ok_def)
    next
      case False
      then show ?thesis using old(3) [OF sub [OF that]] cnt loc(1,2) own by (simp add: entry_ok_def)
    qed
    show "k = k'" if "fl_held (locks ?s) k = Some j" "fl_held (locks ?s) k' = Some j" for k k' j
      by (rule old(4) [OF sub [OF that(1)] sub [OF that(2)]])
    show "d = d'" if "owns (users ?s) d j" "owns (users ?s) d' j" for d d' j using that old(5) own by blast
  qed
qed


lemma own_phase: "us c = Some p \<Longrightarrow> is_Owning q \<Longrightarrow> lp_id q = lp_id p \<Longrightarrow> \<exists>d. owns (us(c \<mapsto> q)) d (lp_id p)"
  by (cases q) (auto simp: owns_def)

lemma no_other_owner:
  assumes "locks_inv s" and "token_free (lp_id p) (locks s)" and "users s c = Some p"
  shows "\<not> owns (users s) d (lp_id p)"
proof -
  note old = locks_invD [OF assms(1)]
  have "entry_ok s (lp_id p)" by (rule old(3) [OF old(2) [OF assms(3)]])
  then show ?thesis using assms(2) by (auto simp: entry_ok_def token_free_def)
qed

lemma token_of:
  assumes "locks_inv s" and "users s c = Some p" and "fl_locks (locks s) (lp_id p) = Some fl"
  shows "fk_token fl \<longleftrightarrow> (\<exists>d. owns (users s) d (lp_id p))"
proof -
  note old = locks_invD [OF assms(1)]
  have "entry_ok s (lp_id p)" by (rule old(3) [OF old(2) [OF assms(2)]])
  then show ?thesis using assms(3) by (auto simp: entry_ok_def)
qed

lemma lock_step_inv:
  assumes inv: "locks_inv s" and step: "lock_step s t"
  shows "locks_inv t"
  using step
proof cases
  case (ask c key i f)
  then show ?thesis using ask_inv [OF inv ask(2,3)] by simp
next
  case (take_token c key i)
  then obtain p where p: "users s c = Some p" "lp_id p = i" "lp_key p = key" by auto
  note free = no_other_owner [OF inv _ p(1)]
  have "locks_inv \<lparr>locks = put_token True i (locks s), users = (users s)(c \<mapsto> Owning key i)\<rparr>"
    by (rule phase_inv [OF inv p(1)])
      (use p take_token(3) free own_phase [of "users s" c p "Owning key i"] in \<open>auto simp: fun_upd_def [symmetric]\<close>)
  then show ?thesis using take_token(1) by simp
next
  case (block c key i)
  have "locks_inv \<lparr>locks = locks s, users = (users s)(c \<mapsto> Blocked key i)\<rparr>"
  proof (rule phase_inv [OF inv block(2)])
    fix fl assume fl: "fl_locks (locks s) (lp_id (Asking key i)) = Some fl"
    have "owns ((users s)(c \<mapsto> Blocked key i)) d i \<longleftrightarrow> owns (users s) d i" for d using block(2) by (auto simp: owns_def)
    then show "fl_locks (locks s) (lp_id (Asking key i)) =
        Some (fl\<lparr>fk_token := (\<exists>d. owns ((users s)(c \<mapsto> Blocked key i)) d (lp_id (Asking key i)))\<rparr>)"
      using token_of [OF inv block(2) fl] fl by (cases fl) simp
  qed simp_all
  moreover have "t = \<lparr>locks = locks s, users = (users s)(c \<mapsto> Blocked key i)\<rparr>"
    unfolding block(1) by (rule lock_state.equality) simp_all
  ultimately show ?thesis by simp
next
  case (give_up c key i)
  then show ?thesis using drop_inv [OF inv give_up(2)] by simp
next
  case (unlock c key i)
  have none: "\<not> owns ((users s)(c \<mapsto> Leaving key i)) d i" for d
    using locks_invD(5) [OF inv, of c i d] unlock(2) by (auto simp: owns_def)
  have "locks_inv \<lparr>locks = put_token False i (locks s), users = (users s)(c \<mapsto> Leaving key i)\<rparr>"
    by (rule phase_inv [OF inv unlock(2)]) (use none in simp_all)
  then show ?thesis using unlock(1) by simp
next
  case (leave c key i)
  then show ?thesis using drop_inv [OF inv leave(2)] by simp
qed

interpretation file_locking: invariant_system no_users lock_step locks_inv
proof
  fix s assume "no_users s"
  then show "locks_inv s" by (simp add: no_users_def locks_inv_def no_locks_def owns_def)
qed (rule lock_step_inv)

text \<open>A step lets callers in only as far as the limit allows.\<close>

lemma admit_limit: "sl_running (admitLocked l) \<le> max (sl_running l) (sl_limit (admitLocked l))"
proof -
  obtain k where "admitLocked l = l\<lparr>sl_running := sl_running l + int k, sl_closed := sl_closed l \<union> set (take k (sl_waiters l)),
      sl_waiters := drop k (sl_waiters l)\<rparr>" "0 < k \<Longrightarrow> sl_running l + int k \<le> sl_limit l"
    using admitLocked_ok [of l] by metis
  then show ?thesis by (cases k) auto
qed

lemma step_limit:
  assumes "slot_step s t"
  shows "sl_running (limiter t) \<le> max (sl_running (limiter s)) (sl_limit (limiter t))"
  using assms
proof cases
  case (canceled c ch)
  then show ?thesis
    using admit_limit [of "(limiter s)\<lparr>sl_running := sl_running (limiter s) - 1\<rparr>"] by (auto simp: cancel_wait_def releaseLocked_def)
next
  case (released c)
  then show ?thesis
    using admit_limit [of "(limiter s)\<lparr>sl_running := sl_running (limiter s) - 1\<rparr>"] by (auto simp: releaseLocked_def)
next
  case (limit_set n)
  then show ?thesis using admit_limit [of "(limiter s)\<lparr>sl_limit := clampScans n\<rparr>"] by (simp add: setLimit_def)
qed (auto simp: acquire_def split: if_splits)

lemma slots_after_step:
  assumes inv: "queue_inv s" and step: "slot_step s t"
  shows "sl_running (limiter t) = int (card (slot_holders t)) \<and>
    (sl_running (limiter t) < sl_limit (limiter t) \<longrightarrow> sl_waiters (limiter t) = []) \<and>
    int (card (slot_holders t)) \<le> max (int (card (slot_holders s))) (sl_limit (limiter t)) \<and>
    (\<forall>c ch. callers t c = Some (Waiting ch) \<longrightarrow> ch \<in> sl_closed (limiter t) \<or> ch \<in> set (sl_waiters (limiter t))) \<and>
    (\<forall>a \<in> sl_closed (limiter t). \<forall>ch \<in> set (sl_waiters (limiter t)). a < ch)"
proof -
  have s: "slots_inv s" using inv by (simp add: queue_inv_def)
  have t: "slots_inv t" "no_idle_slot (limiter t)" using slot_step_inv [OF inv step] by (simp_all add: queue_inv_def)
  show ?thesis
    using step_limit [OF step] slots_invD(2) [OF s] slots_invD(2) [OF t(1)] t(2) slots_invD(6,10) [OF t(1)]
    by (auto simp: no_idle_slot_def)
qed

lemma lock_facts:
  assumes "locks_inv s"
  shows "(users s c = Some (Owning key i) \<and> users s d = Some (Owning key j) \<longrightarrow> c = d) \<and>
    (key \<in> dom (fl_held (locks s)) \<longleftrightarrow> (\<exists>c p. users s c = Some p \<and> lp_key p = key))"
proof (intro conjI impI iffI)
  note old = locks_invD [OF assms]
  show "c = d" if o: "users s c = Some (Owning key i) \<and> users s d = Some (Owning key j)"
  proof -
    have "i = j" using old(2) [of c "Owning key i"] old(2) [of d "Owning key j"] o by simp
    then show ?thesis using old(5) [of c i d] o by (auto simp: owns_def)
  qed
  show "key \<in> dom (fl_held (locks s))" if "\<exists>c p. users s c = Some p \<and> lp_key p = key" using that old(2) by blast
  show "\<exists>c p. users s c = Some p \<and> lp_key p = key" if k: "key \<in> dom (fl_held (locks s))"
  proof -
    obtain n where n: "fl_held (locks s) key = Some n" using k by blast
    then obtain c p where p: "users s c = Some p" "lp_id p = n" using old(3) [OF n] by (auto simp: entry_ok_def users_of_def)
    then have "lp_key p = key" using old(4) [OF _ n] old(2) [OF p(1)] by simp
    then show ?thesis using p(1) by blast
  qed
qed

section \<open>Properties\<close>

text \<open>
  Claim C36. However callers come, are let in, give up and leave, and however the limit is changed meanwhile, the
  limiter counts exactly the callers that have a slot, no slot is idle while a caller waits, no step makes
  more callers have a slot than the limit then allows, and a caller is let in only after every caller that
  came before it and still waits.
\<close>

theorem scan_slots_kept:
  assumes start: "no_callers s0" and reach: "slot_step\<^sup>*\<^sup>* s0 s" and step: "slot_step s t"
  shows "sl_running (limiter t) = int (card (slot_holders t)) \<and>
    (sl_running (limiter t) < sl_limit (limiter t) \<longrightarrow> sl_waiters (limiter t) = []) \<and>
    int (card (slot_holders t)) \<le> max (int (card (slot_holders s))) (sl_limit (limiter t)) \<and>
    (\<forall>c ch. callers t c = Some (Waiting ch) \<longrightarrow> ch \<in> sl_closed (limiter t) \<or> ch \<in> set (sl_waiters (limiter t))) \<and>
    (\<forall>a \<in> sl_closed (limiter t). \<forall>ch \<in> set (sl_waiters (limiter t)). a < ch)"
  by (rule slots_after_step [OF slots.inv_reachable [OF start reach] step])

lemma scan_slots_kept_witness:
  "let s0 = \<lparr>limiter = newSlotLimiter 1, callers = Map.empty\<rparr>; t = \<lparr>limiter = snd (acquire (newSlotLimiter 1)), callers = [5 \<mapsto> Holding]\<rparr>
   in slot_step s0 t \<and> int (card (slot_holders t)) \<le> max (int (card (slot_holders s0))) (sl_limit (limiter t))"
proof -
  let ?s = "\<lparr>limiter = newSlotLimiter 1, callers = Map.empty\<rparr>"
  have start: "no_callers ?s" by (auto simp: no_callers_def)
  have "acquire (newSlotLimiter 1) = (None, snd (acquire (newSlotLimiter 1)))"
    by (simp add: acquire_def newSlotLimiter_def clampScans_def maxScansLimit_def)
  then have step: "slot_step ?s \<lparr>limiter = snd (acquire (newSlotLimiter 1)), callers = [5 \<mapsto> Holding]\<rparr>"
    using slot_step.enter_now [of ?s 5] by simp
  then show ?thesis using scan_slots_kept [OF start rtranclp.rtrancl_refl step] by (simp only: Let_def)
qed

text \<open>
  Claim C37. Two callers never hold the lock of the same file at once, in whatever order callers ask, block, give up,
  release and leave, and the table holds an entry for a file exactly while some caller uses its lock.
\<close>

theorem file_lock_exclusive:
  assumes "no_users s0" and "lock_step\<^sup>*\<^sup>* s0 s"
  shows "(users s c = Some (Owning key i) \<and> users s d = Some (Owning key j) \<longrightarrow> c = d) \<and>
    (key \<in> dom (fl_held (locks s)) \<longleftrightarrow> (\<exists>c p. users s c = Some p \<and> lp_key p = key))"
  by (rule lock_facts [OF file_locking.inv_reachable [OF assms]])

lemma file_lock_exclusive_witness:
  "let s = \<lparr>locks = snd (join_lock ''a'' no_locks), users = [1 \<mapsto> Asking ''a'' 0]\<rparr> in
   ''a'' \<in> dom (fl_held (locks s)) \<longleftrightarrow> (\<exists>c p. users s c = Some p \<and> lp_key p = ''a'')"
proof -
  let ?s = "\<lparr>locks = no_locks, users = Map.empty\<rparr>" and ?t = "\<lparr>locks = snd (join_lock ''a'' no_locks), users = [1 \<mapsto> Asking ''a'' 0]\<rparr>"
  have "join_lock ''a'' no_locks = (0, snd (join_lock ''a'' no_locks))" by (simp add: join_lock_def no_locks_def)
  then have "lock_step ?s ?t" using lock_step.ask [of ?s 1 "''a''"] by simp
  then have "lock_step\<^sup>*\<^sup>* ?s ?t" by (rule r_into_rtranclp)
  moreover have "no_users ?s" by (simp add: no_users_def)
  ultimately show ?thesis using file_lock_exclusive [of ?s ?t] by (simp only: Let_def)
qed

end
