(* ===== verification/Chunker.thy ===== *)
theory Chunker
  imports Prelude "HOL-Library.Sublist"
begin

text \<open>
  Splitting a file into tasks, \<^verbatim>\<open>internal/trace/chunker.go\<close>: the search for the next line start, the starts of
  the chunks and the tasks between them. Positions are natural numbers, since the caller has a file size above
  zero there.
\<close>

section \<open>Readers\<close>

text \<open>What a read of a file at a position ends with, beside its bytes.\<close>

datatype read_end = Full | AtEnd | Failed string

type_synonym reader_at = "nat \<Rightarrow> nat \<Rightarrow> bytes \<times> read_end"

definition newlineSearchReadBytes :: nat where "newlineSearchReadBytes = 256 * 1024"

text \<open>
  \<^verbatim>\<open>findNextNewline\<close>, with the bytes read so far counted in \<open>spent\<close>.
\<close>

function findNextNewline :: "reader_at \<Rightarrow> nat \<Rightarrow> nat \<Rightarrow> nat \<Rightarrow> (string + nat) \<times> nat" where
  "findNextNewline rd pos limit spent =
     (if pos < limit then
        (case rd pos (min newlineSearchReadBytes (limit - pos)) of
           (window, err) \<Rightarrow>
             (case index_byte newline window of
                Some idx \<Rightarrow> (Inr (pos + idx + 1), spent + length window)
              | None \<Rightarrow>
                  (case err of
                     Failed e \<Rightarrow> (Inl e, spent + length window)
                   | _ \<Rightarrow> if window = [] then (Inr limit, spent)
                          else findNextNewline rd (pos + length window) limit (spent + length window))))
      else (Inr limit, spent))"
  by pat_completeness auto
termination
  by (relation "measure (\<lambda>(rd, pos, limit, spent). limit - pos)") (auto intro!: diff_less_mono2)

declare findNextNewline.simps [simp del]

text \<open>The loop of \<^verbatim>\<open>chunkStarts\<close> over the tentative boundaries.\<close>

fun chunk_starts_from :: "reader_at \<Rightarrow> nat \<Rightarrow> nat \<Rightarrow> nat list \<Rightarrow> nat list \<Rightarrow> nat \<Rightarrow> nat \<Rightarrow> (string + nat list) \<times> nat" where
  "chunk_starts_from rd fileSize chunkSize [] starts searchedTo spent = (Inr starts, spent)"
| "chunk_starts_from rd fileSize chunkSize (i # is) starts searchedTo spent =
     (let raw = i * chunkSize
      in if raw < searchedTo then chunk_starts_from rd fileSize chunkSize is starts searchedTo spent
         else case findNextNewline rd raw fileSize spent of
                (Inl e, spent') \<Rightarrow> (Inl e, spent')
              | (Inr nxt, spent') \<Rightarrow>
                  chunk_starts_from rd fileSize chunkSize is
                    (if nxt > last starts \<and> nxt < fileSize then starts @ [nxt] else starts) nxt spent')"

definition chunkStarts :: "reader_at \<Rightarrow> nat \<Rightarrow> nat \<Rightarrow> (string + nat list) \<times> nat" where
  "chunkStarts rd fileSize numChunks =
     chunk_starts_from rd fileSize (fileSize div numChunks) [1 ..< numChunks] [0] 0 0"

section \<open>Tasks\<close>

text \<open>The two settings, as \<^verbatim>\<open>config\<close> hands them over, and the opening of the file are arguments.\<close>

definition num_chunks :: "int \<Rightarrow> int \<Rightarrow> int \<Rightarrow> int" where
  "num_chunks minChunkSizeMB maxSubs fileSize =
     (let maxChunksBySize = fileSize div (minChunkSizeMB * 1024 * 1024);
          numChunks = (if maxChunksBySize > maxSubs then maxSubs else maxChunksBySize)
      in if numChunks < 1 then 1 else numChunks)"

definition GetFileOffsets :: "int \<Rightarrow> int \<Rightarrow> string + reader_at \<Rightarrow> int \<Rightarrow> string + nat list" where
  "GetFileOffsets minChunkSizeMB maxSubs opened fileSize =
     (if fileSize \<le> 0 then Inr [0]
      else let numChunks = num_chunks minChunkSizeMB maxSubs fileSize
           in if numChunks = 1 then Inr [0]
              else case opened of
                     Inl e \<Rightarrow> Inl e
                   | Inr rd \<Rightarrow> fst (chunkStarts rd (nat fileSize) (nat numChunks)))"

record file_task =
  TaskID :: nat
  Offset :: nat
  Count :: int

definition EndOffset :: "file_task \<Rightarrow> int" where
  "EndOffset t = int (Offset t) + Count t"

fun tasks_from :: "int \<Rightarrow> nat \<Rightarrow> nat list \<Rightarrow> file_task list" where
  "tasks_from fileSize i [] = []"
| "tasks_from fileSize i [off] = [\<lparr>TaskID = i, Offset = off, Count = fileSize - int off\<rparr>]"
| "tasks_from fileSize i (off # next # offs) =
     \<lparr>TaskID = i, Offset = off, Count = int next - int off\<rparr> # tasks_from fileSize (i + 1) (next # offs)"

definition planFileTasks :: "int \<Rightarrow> int \<Rightarrow> string + reader_at \<Rightarrow> int \<Rightarrow> string + file_task list" where
  "planFileTasks minChunkSizeMB maxSubs opened fileSize =
     (case GetFileOffsets minChunkSizeMB maxSubs opened fileSize of
        Inl e \<Rightarrow> Inl e
      | Inr offsets \<Rightarrow> Inr (tasks_from fileSize 0 offsets))"

section \<open>Readers of a file\<close>

text \<open>
  The contract of \<^verbatim>\<open>io.ReaderAt\<close>: a read that fails hands over the bytes before the failure, a read that stops
  at the end all there are, and any other the bytes asked for.
\<close>

locale reads_file =
  fixes rd :: reader_at and content :: bytes
  assumes full: "rd pos n = (bs, Full) \<Longrightarrow> bs = take n (drop pos content) \<and> length bs = n"
    and at_end: "rd pos n = (bs, AtEnd) \<Longrightarrow> bs = take n (drop pos content)"
    and failed: "rd pos n = (bs, Failed e) \<Longrightarrow> prefix bs (take n (drop pos content))"

definition read_file_at :: "bytes \<Rightarrow> reader_at" where
  "read_file_at content pos n = (take n (drop pos content), if pos + n \<le> length content then Full else AtEnd)"

interpretation file_at: reads_file "read_file_at content" content for content
  by unfold_locales (auto simp: read_file_at_def split: if_splits)

text \<open>Where the first line that starts behind a newline at or after a position starts.\<close>

definition line_start_after :: "bytes \<Rightarrow> nat \<Rightarrow> nat \<Rightarrow> nat" where
  "line_start_after content limit raw =
     (case index_byte newline (drop raw (take limit content)) of None \<Rightarrow> limit | Some i \<Rightarrow> raw + i + 1)"

lemma line_start_after_bounds: "raw < limit \<Longrightarrow> raw < line_start_after content limit raw \<and> line_start_after content limit raw \<le> limit"
  by (auto simp: line_start_after_def split: option.splits dest!: index_byte_Some)

lemma line_start_after_at_end: "limit \<le> raw \<Longrightarrow> line_start_after content limit raw = limit"
  by (simp add: line_start_after_def)

lemma line_start_after_skip:
  assumes "raw \<le> raw'" and "raw' < line_start_after content limit raw"
  shows "line_start_after content limit raw' = line_start_after content limit raw"
proof -
  let ?t = "drop raw (take limit content)" and ?k = "raw' - raw"
  have d: "drop raw' (take limit content) = drop ?k ?t" using assms(1) by simp
  show ?thesis
  proof (cases "index_byte newline ?t")
    case None
    then have "newline \<notin> set (drop ?k ?t)" by (meson byte_simps(1) in_set_dropD)
    then have s: "index_byte newline (drop ?k ?t) = None" by (rule index_byte_None [THEN iffD2])
    show ?thesis unfolding line_start_after_def d s None by simp
  next
    case (Some i)
    then have k: "?k \<le> i" using assms by (simp add: line_start_after_def)
    have i: "i < length ?t" "newline \<notin> set (take i ?t)" using index_byte_Some [OF Some] by auto
    have "?t = take ?k ?t @ drop ?k ?t" by (simp only: append_take_drop_id)
    moreover have "newline \<notin> set (take ?k ?t)" using i(2) k by (meson set_take_subset_set_take subsetD)
    ultimately have "index_byte newline ?t = map_option (\<lambda>j. length (take ?k ?t) + j) (index_byte newline (drop ?k ?t))"
      using index_byte_append by metis
    moreover have "length (take ?k ?t) = ?k" using k i(1) by simp
    ultimately have "map_option (\<lambda>j. ?k + j) (index_byte newline (drop ?k ?t)) = Some i" using Some by simp
    then have s: "index_byte newline (drop ?k ?t) = Some (i - ?k)" by (cases "index_byte newline (drop ?k ?t)") simp_all
    show ?thesis unfolding line_start_after_def d s Some using k assms(1) by simp
  qed
qed

lemma line_start_after_newline:
  "line_start_after content limit raw < limit \<Longrightarrow> raw < limit \<Longrightarrow> limit \<le> length content \<Longrightarrow>
    content ! (line_start_after content limit raw - 1) = newline"
  by (auto simp: line_start_after_def split: option.splits dest!: index_byte_Some)

context reads_file
begin

text \<open>What a read hands over begins the text at its position, and is all there is unless it failed.\<close>

lemma window_prefix: "rd pos n = (bs, err) \<Longrightarrow> prefix bs (take n (drop pos content))"
  using full [of pos n bs] at_end [of pos n bs] failed [of pos n bs] by (cases err) auto

lemma window_whole: "rd pos n = (bs, err) \<Longrightarrow> \<forall>e. err \<noteq> Failed e \<Longrightarrow> bs = take n (drop pos content)"
  using full [of pos n bs] at_end [of pos n bs] by (cases err) auto

lemma found:
  assumes "findNextNewline rd pos limit spent = (Inr x, spent')" and "pos < limit"
  shows "x = line_start_after content limit pos \<and> spent' \<le> spent + (x - pos) + newlineSearchReadBytes"
  using assms
proof (induction "limit - pos" arbitrary: pos spent rule: less_induct)
  case less
  let ?n = "min newlineSearchReadBytes (limit - pos)" and ?t = "drop pos (take limit content)"
  obtain bs err where r: "rd pos ?n = (bs, err)" by force
  have unfolded: "findNextNewline rd pos limit spent =
      (case index_byte newline bs of
         Some idx \<Rightarrow> (Inr (pos + idx + 1), spent + length bs)
       | None \<Rightarrow> (case err of
             Failed e \<Rightarrow> (Inl e, spent + length bs)
           | _ \<Rightarrow> if bs = [] then (Inr limit, spent) else findNextNewline rd (pos + length bs) limit (spent + length bs)))"
    using less.prems(2) r by (simp add: findNextNewline.simps [of rd pos])
  have n: "0 < ?n" using less.prems(2) by (simp add: newlineSearchReadBytes_def)
  have t: "take ?n (drop pos content) = take ?n ?t" by (simp add: drop_take min_def)
  obtain rest where rest: "?t = bs @ rest"
    using window_prefix [OF r] unfolding t prefix_def by (metis append.assoc append_take_drop_id)
  have len: "length bs \<le> ?n" using prefix_length_le [OF window_prefix [OF r]] by simp
  show ?case
  proof (cases "index_byte newline bs")
    case (Some i)
    then have "index_byte newline ?t = Some i" unfolding rest by (rule byte_simps)
    moreover have "x = pos + i + 1" "spent' = spent + length bs" using less.prems(1) unfolding unfolded Some by auto
    ultimately show ?thesis using len by (simp add: line_start_after_def)
  next
    case None
    have ok: "\<forall>e. err \<noteq> Failed e" using less.prems(1) None unfolding unfolded by auto
    note whole = window_whole [OF r ok, unfolded t]
    show ?thesis
    proof (cases "bs = []")
      case True
      then have "?t = []" using whole n by simp
      then have "line_start_after content limit pos = limit" unfolding line_start_after_def by (simp only: index_byte.simps option.case)
      moreover have "x = limit" "spent' = spent" using less.prems(1) ok None True unfolding unfolded by (cases err; simp)+
      ultimately show ?thesis by simp
    next
      case False
      have call: "findNextNewline rd (pos + length bs) limit (spent + length bs) = (Inr x, spent')"
        using less.prems(1) ok None False unfolding unfolded by (cases err) simp_all
      have none: "newline \<notin> set bs" using None by (simp add: index_byte_None)
      have at: "line_start_after content limit pos = (if pos + length bs < limit then line_start_after content limit (pos + length bs) else limit)"
      proof -
        have "drop (pos + length bs) (take limit content) = drop (length bs) ?t" by (simp add: add.commute)
        also have "\<dots> = rest" unfolding rest by simp
        finally have d: "drop (pos + length bs) (take limit content) = rest" .
        have "index_byte newline ?t = map_option (\<lambda>i. length bs + i) (index_byte newline rest)"
          unfolding rest using none by (rule index_byte_append)
        moreover have "rest = []" if "\<not> pos + length bs < limit" using d that by auto
        ultimately show ?thesis unfolding line_start_after_def d by (auto split: option.splits)
      qed
      show ?thesis
      proof (cases "pos + length bs < limit")
        case True
        moreover have "limit - (pos + length bs) < limit - pos" using True False by (intro diff_less_mono2) auto
        ultimately have "x = line_start_after content limit (pos + length bs) \<and>
            spent' \<le> spent + length bs + (x - (pos + length bs)) + newlineSearchReadBytes"
          using less.hyps [OF _ call] by blast
        then have x: "x = line_start_after content limit (pos + length bs)"
          and sp: "spent' \<le> spent + length bs + (x - (pos + length bs)) + newlineSearchReadBytes" by blast+
        then have "pos + length bs < x" using line_start_after_bounds [OF True, of content] by simp
        then have "spent' \<le> spent + (x - pos) + newlineSearchReadBytes" using sp by linarith
        then show ?thesis using at True x by simp
      next
        case out: False
        then have "x = limit" "spent' = spent + length bs" using call by (simp_all add: findNextNewline.simps [of rd "pos + length bs"])
        then show ?thesis using at out len by simp
      qed
    qed
  qed
qed

text \<open>A search fails only when a read does.\<close>

lemma search_fails:
  "findNextNewline rd pos limit spent = (Inl e, spent') \<Longrightarrow> \<exists>p n bs. rd p n = (bs, Failed e)"
proof (induction "limit - pos" arbitrary: pos spent rule: less_induct)
  case less
  let ?n = "min newlineSearchReadBytes (limit - pos)"
  obtain bs err where r: "rd pos ?n = (bs, err)" by force
  have pos: "pos < limit" using less.prems by (auto simp: findNextNewline.simps [of rd pos] split: if_splits)
  show ?case
  proof (cases "\<exists>e'. err = Failed e' \<and> index_byte newline bs = None")
    case True
    then have "err = Failed e" using less.prems r pos by (auto simp: findNextNewline.simps [of rd pos])
    then show ?thesis using r by blast
  next
    case False
    then have "bs \<noteq> [] \<and> findNextNewline rd (pos + length bs) limit (spent + length bs) = (Inl e, spent')"
      using less.prems r pos by (auto simp: findNextNewline.simps [of rd pos] split: option.splits read_end.splits if_splits)
    moreover from this have "limit - (pos + length bs) < limit - pos" using pos by (intro diff_less_mono2) auto
    ultimately show ?thesis using less.hyps [of "pos + length bs" "spent + length bs"] by blast
  qed
qed

text \<open>The starts found so far, for the boundaries tried so far.\<close>

definition starts_ok :: "nat \<Rightarrow> nat \<Rightarrow> nat list \<Rightarrow> nat list \<Rightarrow> nat \<Rightarrow> bool" where
  "starts_ok fileSize chunkSize tried starts searchedTo \<longleftrightarrow>
     sorted_wrt (<) starts \<and> starts \<noteq> [] \<and>
     set starts = insert 0 {x \<in> (\<lambda>i. line_start_after content fileSize (i * chunkSize)) ` set tried. x < fileSize} \<and>
     (\<forall>x \<in> set starts. x \<le> searchedTo) \<and> (searchedTo < fileSize \<longrightarrow> searchedTo \<in> set starts) \<and> searchedTo \<le> fileSize \<and>
     (\<forall>raw. (\<forall>i \<in> set tried. i * chunkSize \<le> raw) \<longrightarrow> raw < searchedTo \<longrightarrow> line_start_after content fileSize raw = searchedTo)"

lemma starts_step:
  assumes "chunk_starts_from rd fileSize chunkSize is starts searchedTo spent = (Inr out, spent')"
    and "starts_ok fileSize chunkSize tried starts searchedTo" and "0 < fileSize"
    and "sorted is" and "\<forall>i \<in> set is. i * chunkSize < fileSize \<and> chunkSize \<le> i * chunkSize \<and> (\<forall>j \<in> set tried. j \<le> i)"
  shows "(\<exists>s. starts_ok fileSize chunkSize (tried @ is) out s) \<and>
    spent' \<le> spent + (fileSize - max searchedTo chunkSize) + length is * newlineSearchReadBytes"
  using assms
proof (induction "is" arbitrary: tried starts searchedTo spent)
  case Nil
  then show ?case by auto
next
  case (Cons i "is")
  let ?raw = "i * chunkSize"
  let ?ls = "line_start_after content fileSize"
  have raw: "?raw < fileSize" "chunkSize \<le> ?raw" "\<forall>j \<in> set tried. j * chunkSize \<le> ?raw"
    using Cons.prems(5) by (auto intro: mult_le_mono1)
  note ok = Cons.prems(2) [unfolded starts_ok_def]
  have rest: "sorted is" "\<forall>k \<in> set is. k * chunkSize < fileSize \<and> chunkSize \<le> k * chunkSize \<and> (\<forall>j \<in> set (tried @ [i]). j \<le> k)"
    using Cons.prems(4,5) by auto
  have img: "(\<lambda>i. ?ls (i * chunkSize)) ` set (tried @ [i]) = insert (?ls ?raw) ((\<lambda>i. ?ls (i * chunkSize)) ` set tried)" by auto
  show ?case
  proof (cases "?raw < searchedTo")
    case True
    then have ls: "?ls ?raw = searchedTo" using ok raw(3) by blast
    have "starts_ok fileSize chunkSize (tried @ [i]) starts searchedTo"
      unfolding starts_ok_def img ls
    proof (intro conjI)
      show "set starts = insert 0 {x \<in> insert searchedTo ((\<lambda>i. ?ls (i * chunkSize)) ` set tried). x < fileSize}"
        using ok by auto
      show "\<forall>raw. (\<forall>i \<in> set (tried @ [i]). i * chunkSize \<le> raw) \<longrightarrow> raw < searchedTo \<longrightarrow> ?ls raw = searchedTo"
        using ok by auto
    qed (use ok in blast)+
    moreover have "chunk_starts_from rd fileSize chunkSize is starts searchedTo spent = (Inr out, spent')"
      using Cons.prems(1) True by simp
    ultimately show ?thesis using Cons.IH [of starts searchedTo spent "tried @ [i]"] Cons.prems(3) rest by fastforce
  next
    case False
    obtain r sp where f: "findNextNewline rd ?raw fileSize spent = (r, sp)" by force
    then obtain x where x: "findNextNewline rd ?raw fileSize spent = (Inr x, sp)"
      using Cons.prems(1) False by (cases r) (auto simp: Let_def)
    note fx = found [OF x raw(1)]
    have b: "?raw < x" "x \<le> fileSize" using line_start_after_bounds [OF raw(1), of content] fx by simp_all
    have less: "\<forall>y \<in> set starts. y < x" using ok False b(1) by fastforce
    then have last_less: "last starts < x" using ok last_in_set [of starts] by blast
    let ?starts = "if x < fileSize then starts @ [x] else starts"
    have "starts_ok fileSize chunkSize (tried @ [i]) ?starts x"
      unfolding starts_ok_def img fx [THEN conjunct1, symmetric]
    proof (intro conjI)
      show "sorted_wrt (<) ?starts" using ok less by (simp add: sorted_wrt_append)
      show "set ?starts = insert 0 {y \<in> insert x ((\<lambda>i. ?ls (i * chunkSize)) ` set tried). y < fileSize}" using ok by auto
      show "\<forall>y \<in> set ?starts. y \<le> x" using less by (auto intro: less_imp_le)
      show "\<forall>raw. (\<forall>i \<in> set (tried @ [i]). i * chunkSize \<le> raw) \<longrightarrow> raw < x \<longrightarrow> ?ls raw = x"
      proof (intro allI impI)
        fix raw assume r: "\<forall>i \<in> set (tried @ [i]). i * chunkSize \<le> raw" "raw < x"
        then have "?raw \<le> raw" by simp
        then have "?ls raw = ?ls ?raw" using r(2) fx by (intro line_start_after_skip) simp_all
        then show "?ls raw = x" using fx by simp
      qed
      show "?starts \<noteq> []" using ok by simp
    qed (use b in simp_all)
    moreover have "chunk_starts_from rd fileSize chunkSize is ?starts x sp = (Inr out, spent')"
      using Cons.prems(1) False x last_less by (simp add: Let_def)
    ultimately have "(\<exists>s. starts_ok fileSize chunkSize ((tried @ [i]) @ is) out s) \<and>
        spent' \<le> sp + (fileSize - max x chunkSize) + length is * newlineSearchReadBytes"
      using Cons.IH [of ?starts x sp "tried @ [i]"] Cons.prems(3) rest by blast
    moreover have "sp + (fileSize - max x chunkSize) + length is * newlineSearchReadBytes \<le>
        spent + (fileSize - max searchedTo chunkSize) + length (i # is) * newlineSearchReadBytes"
    proof -
      have "max x chunkSize = x" "max searchedTo chunkSize \<le> ?raw" using b(1) raw(2) False by linarith+
      moreover have "sp \<le> spent + (x - ?raw) + newlineSearchReadBytes" using fx by blast
      moreover have "length (i # is) * newlineSearchReadBytes = newlineSearchReadBytes + length is * newlineSearchReadBytes" by simp
      ultimately show ?thesis using b by linarith
    qed
    ultimately show ?thesis by auto
  qed
qed

lemma starts_fail:
  "chunk_starts_from rd fileSize chunkSize is starts searchedTo spent = (Inl e, spent') \<Longrightarrow> \<exists>p n bs. rd p n = (bs, Failed e)"
  by (induction "is" arbitrary: starts searchedTo spent)
    (auto simp: Let_def dest: search_fails split: if_splits prod.splits sum.splits)

text \<open>The chunk starts are the line starts behind the boundaries.\<close>

lemma chunk_starts:
  assumes "chunkStarts rd fileSize numChunks = (Inr starts, spent)" and "0 < fileSize" and "0 < numChunks"
  shows "sorted_wrt (<) starts" and "starts \<noteq> []" and "hd starts = 0"
    and "set starts = insert 0 {x \<in> (\<lambda>i. line_start_after content fileSize (i * (fileSize div numChunks))) ` {1 ..< numChunks}. x < fileSize}"
    and "spent \<le> (fileSize - fileSize div numChunks) + numChunks * newlineSearchReadBytes"
proof -
  let ?c = "fileSize div numChunks"
  have call: "chunk_starts_from rd fileSize ?c [1 ..< numChunks] [0] 0 0 = (Inr starts, spent)"
    using assms(1) by (simp add: chunkStarts_def)
  have start: "starts_ok fileSize ?c [] [0] 0" using assms(2) by (simp add: starts_ok_def)
  have bounds: "\<forall>i \<in> set [1 ..< numChunks]. i * ?c < fileSize \<and> ?c \<le> i * ?c \<and> (\<forall>j \<in> set []. j \<le> i)"
  proof (intro ballI conjI)
    fix i assume "i \<in> set [1 ..< numChunks]"
    then have i: "1 \<le> i" "i < numChunks" by auto
    show "?c \<le> i * ?c" using i(1) by (metis mult_1 mult_le_mono1)
    show "i * ?c < fileSize"
    proof (cases "?c = 0")
      case False
      then have "i * ?c < numChunks * ?c" using i(2) by simp
      also have "\<dots> \<le> fileSize" by simp
      finally show ?thesis .
    qed (use assms(2) in simp)
  qed simp
  from starts_step [OF call start assms(2) _ bounds]
  obtain s where s: "starts_ok fileSize ?c ([] @ [1 ..< numChunks]) starts s"
    and sp: "spent \<le> 0 + (fileSize - max 0 ?c) + length [1 ..< numChunks] * newlineSearchReadBytes" by auto
  show sorted: "sorted_wrt (<) starts" and "starts \<noteq> []"
    and set_starts: "set starts = insert 0 {x \<in> (\<lambda>i. line_start_after content fileSize (i * ?c)) ` {1 ..< numChunks}. x < fileSize}"
    using s by (simp_all add: starts_ok_def)
  then have "0 \<in> set starts" by auto
  then show "hd starts = 0" using sorted by (cases starts) auto
  have "length [1 ..< numChunks] * newlineSearchReadBytes \<le> numChunks * newlineSearchReadBytes" by simp
  moreover have "max 0 ?c = ?c" by simp
  ultimately show "spent \<le> (fileSize - ?c) + numChunks * newlineSearchReadBytes" using sp by linarith
qed

end

section \<open>The tasks tile the file\<close>

text \<open>Tasks that follow each other from a position to the end of the file.\<close>

lemma tasks_from_ok:
  assumes "offs \<noteq> []" and "sorted_wrt (<) offs" and "\<forall>x \<in> set offs. int x < fileSize"
  shows "map Offset (tasks_from fileSize i offs) = offs" and "map TaskID (tasks_from fileSize i offs) = [i ..< i + length offs]"
    and "\<forall>t \<in> set (tasks_from fileSize i offs). 0 < Count t"
    and "\<forall>k < length offs. EndOffset (tasks_from fileSize i offs ! k) =
        (if k + 1 < length offs then int (offs ! (k + 1)) else fileSize)"
proof -
  have "map Offset (tasks_from fileSize i offs) = offs \<and> map TaskID (tasks_from fileSize i offs) = [i ..< i + length offs] \<and>
      (\<forall>t \<in> set (tasks_from fileSize i offs). 0 < Count t) \<and>
      (\<forall>k < length offs. EndOffset (tasks_from fileSize i offs ! k) =
        (if k + 1 < length offs then int (offs ! (k + 1)) else fileSize))"
    using assms
  proof (induction fileSize i offs rule: tasks_from.induct)
    case (3 fileSize i off nxt offs)
    then show ?case
      by (auto simp: EndOffset_def nth_Cons upt_conv_Cons split: nat.splits)
  qed (auto simp: EndOffset_def)
  then show "map Offset (tasks_from fileSize i offs) = offs" "map TaskID (tasks_from fileSize i offs) = [i ..< i + length offs]"
    "\<forall>t \<in> set (tasks_from fileSize i offs). 0 < Count t"
    "\<forall>k < length offs. EndOffset (tasks_from fileSize i offs ! k) =
        (if k + 1 < length offs then int (offs ! (k + 1)) else fileSize)" by blast+
qed

text \<open>What the tasks of a file promise.\<close>

definition tile_file :: "bytes \<Rightarrow> file_task list \<Rightarrow> bool" where
  "tile_file content ts \<longleftrightarrow>
     ts \<noteq> [] \<and> Offset (hd ts) = 0 \<and> EndOffset (last ts) = int (length content) \<and>
     map TaskID ts = [0 ..< length ts] \<and>
     (\<forall>k. k + 1 < length ts \<longrightarrow> EndOffset (ts ! k) = int (Offset (ts ! (k + 1))) \<and> Offset (ts ! k) < Offset (ts ! (k + 1)) \<and>
        content ! (Offset (ts ! (k + 1)) - 1) = newline)"

lemma tile_fileI:
  assumes "offs \<noteq> []" and "sorted_wrt (<) offs" and "hd offs = 0" and "\<forall>x \<in> set offs. x < length content"
    and "\<forall>x \<in> set offs. 0 < x \<longrightarrow> content ! (x - 1) = newline"
  shows "tile_file content (tasks_from (int (length content)) 0 offs)"
proof -
  let ?ts = "tasks_from (int (length content)) 0 offs"
  have lt: "\<forall>x \<in> set offs. int x < int (length content)" using assms(4) by simp
  note t = tasks_from_ok [OF assms(1,2) lt, of 0]
  have len: "length ?ts = length offs" using t(1) by (metis length_map)
  have off: "Offset (?ts ! k) = offs ! k" if "k < length offs" for k using t(1) len that by (metis nth_map)
  have ne: "?ts \<noteq> []" using len assms(1) by auto
  have "Offset (hd ?ts) = 0" using off [of 0] ne assms(1,3) by (simp add: hd_conv_nth)
  moreover have "EndOffset (last ?ts) = int (length content)"
    using t(4) ne assms(1) len by (simp add: last_conv_nth)
  moreover have "EndOffset (?ts ! k) = int (Offset (?ts ! (k + 1))) \<and> Offset (?ts ! k) < Offset (?ts ! (k + 1)) \<and>
      content ! (Offset (?ts ! (k + 1)) - 1) = newline" if k: "k + 1 < length offs" for k
  proof -
    have "offs ! k < offs ! (k + 1)" using assms(2) k by (simp add: sorted_wrt_nth_less)
    moreover have "offs ! (k + 1) \<in> set offs" using k by simp
    ultimately show ?thesis using t(4) assms(5) off [of k] off [of "k + 1"] k by fastforce
  qed
  ultimately show ?thesis using ne t(2) len unfolding tile_file_def by simp
qed

context reads_file
begin

lemma offsets_ok:
  assumes "GetFileOffsets minMB maxSubs (Inr rd) (int (length content)) = Inr offs" and "content \<noteq> []"
  shows "offs \<noteq> [] \<and> sorted_wrt (<) offs \<and> hd offs = 0 \<and> (\<forall>x \<in> set offs. x < length content) \<and>
    (\<forall>x \<in> set offs. 0 < x \<longrightarrow> content ! (x - 1) = newline)"
proof (cases "num_chunks minMB maxSubs (int (length content)) = 1")
  case True
  then have "offs = [0]" using assms by (simp add: GetFileOffsets_def Let_def)
  then show ?thesis using assms(2) by simp
next
  case False
  let ?n = "num_chunks minMB maxSubs (int (length content))"
  let ?c = "length content div nat ?n"
  obtain spent where c: "chunkStarts rd (length content) (nat ?n) = (Inr offs, spent)"
    using assms False by (cases "chunkStarts rd (length content) (nat ?n)") (simp add: GetFileOffsets_def Let_def)
  have n: "0 < nat ?n" by (simp add: num_chunks_def Let_def)
  have size: "0 < length content" using assms(2) by simp
  note s = chunk_starts [OF c size n]
  have "content ! (x - 1) = newline" if x: "x \<in> set offs" "0 < x" for x
  proof -
    obtain i where i: "x = line_start_after content (length content) (i * ?c)" "x < length content"
      using x s(4) by auto
    have "i * ?c < length content"
      using i line_start_after_at_end [of "length content" "i * ?c" content] by (cases "i * ?c < length content") auto
    then show ?thesis using line_start_after_newline [of content "length content" "i * ?c"] i by simp
  qed
  then show ?thesis using s(1-4) size by auto
qed

lemma tasks_tile:
  "case planFileTasks minMB maxSubs (Inr rd) (int (length content)) of
     Inr ts \<Rightarrow> tile_file content ts
   | Inl e \<Rightarrow> \<exists>p n bs. rd p n = (bs, Failed e)"
proof (cases "GetFileOffsets minMB maxSubs (Inr rd) (int (length content))")
  case (Inl e)
  then obtain spent where "chunkStarts rd (length content) (nat (num_chunks minMB maxSubs (int (length content)))) = (Inl e, spent)"
    by (cases "chunkStarts rd (length content) (nat (num_chunks minMB maxSubs (int (length content))))")
      (auto simp: GetFileOffsets_def Let_def split: if_splits)
  then show ?thesis using Inl starts_fail by (auto simp: planFileTasks_def chunkStarts_def)
next
  case (Inr offs)
  show ?thesis
  proof (cases "content = []")
    case True
    then have "offs = [0]" using Inr by (simp add: GetFileOffsets_def)
    then show ?thesis using Inr True by (simp add: planFileTasks_def tile_file_def EndOffset_def)
  next
    case False
    then show ?thesis using offsets_ok [OF Inr False] tile_fileI [of offs content] Inr by (simp add: planFileTasks_def)
  qed
qed

end

section \<open>Properties\<close>

text \<open>
  Claim C38. The tasks of a file cover it from its first byte to its last, each from where the one before ends,
  and every task but the first starts right behind a newline, so no line is cut; splitting fails only when a
  read of the file fails.
\<close>

theorem trace_tasks_tile:
  assumes "reads_file rd content"
  shows "case planFileTasks minChunkSizeMB maxSubs (Inr rd) (int (length content)) of
     Inr ts \<Rightarrow> tile_file content ts
   | Inl e \<Rightarrow> \<exists>p n bs. rd p n = (bs, Failed e)"
  by (rule reads_file.tasks_tile [OF assms])

lemma trace_tasks_tile_witness:
  "case planFileTasks 20 20 (Inr (read_file_at [97, 10, 98])) 3 of
     Inr ts \<Rightarrow> tile_file [97, 10, 98] ts
   | Inl e \<Rightarrow> \<exists>p n bs. read_file_at [97, 10, 98] p n = (bs, Failed e)"
  using trace_tasks_tile [OF file_at.reads_file_axioms, of "[97, 10, 98]" 20 20] by simp

text \<open>
  Claim C39. Skipping the boundaries an earlier search has passed changes no answer: the chunk starts are, in order
  and once each, the first byte and the line starts behind the tentative boundaries that are before the end of
  the file. The search reads each byte behind the first boundary once, and at most one block more for a boundary.
\<close>

theorem chunk_starts_are_line_starts:
  assumes "reads_file rd content" and "0 < fileSize" and "0 < numChunks"
    and "chunkStarts rd fileSize numChunks = (Inr starts, spent)"
  shows "sorted_wrt (<) starts \<and>
    set starts = insert 0 {x \<in> (\<lambda>i. line_start_after content fileSize (i * (fileSize div numChunks))) ` {1 ..< numChunks}. x < fileSize} \<and>
    spent \<le> (fileSize - fileSize div numChunks) + numChunks * newlineSearchReadBytes"
  using reads_file.chunk_starts [OF assms(1,4,2,3)] by blast

lemma chunk_starts_are_line_starts_witness:
  "chunkStarts (read_file_at [97, 10, 98, 10, 99]) 5 2 = (Inr [0, 4], 3) \<and>
   set [0, 4] = insert 0 {x \<in> (\<lambda>i. line_start_after [97, 10, 98, 10, 99] 5 (i * (5 div 2))) ` {1 ..< 2}. x < 5}"
proof -
  have "chunkStarts (read_file_at [97, 10, 98, 10, 99]) 5 2 = (Inr [0, 4], 3)"
  proof -
    have "[1 ..< 2] = [1 :: nat]" by (simp add: upt_rec)
    then show ?thesis by (simp add: chunkStarts_def findNextNewline.simps read_file_at_def newlineSearchReadBytes_def)
  qed
  with chunk_starts_are_line_starts [OF file_at.reads_file_axioms _ _ this] show ?thesis by simp
qed

end
