(* ===== verification/GapKeeper.thy ===== *)
theory GapKeeper
  imports Findings "HOL-Library.AList" "HOL-Library.Multiset"
begin

text \<open>
  The parts of the time-gap measure, \<^verbatim>\<open>internal/sigscan/timegaps.go\<close>, that count: the keeper of the longest
  silences and the intervals in buckets, with what each promises however its input is lower.
\<close>

section \<open>Candidates\<close>

record line_ref =
  lr_idx :: int
  lr_start :: int
  lr_length :: int
  lr_excerpt :: bytes
  lr_hasEx :: bool
  lr_masked :: bool
  lr_tm :: time_ref
  lr_ok :: bool

record stamped_line =
  sl_idx :: int
  sl_start :: int
  sl_next :: int
  sl_length :: int
  sl_ms :: int
  sl_off :: int

record gap_candidate =
  gc_delta :: int
  gc_from :: line_ref
  gc_to :: stamped_line

section \<open>The keeper\<close>

record gap_keeper =
  gk_limit :: nat
  gk_items :: "gap_candidate list"
  gk_cutoff :: int

definition accepts :: "int \<Rightarrow> gap_keeper \<Rightarrow> bool" where
  "accepts delta k \<longleftrightarrow> delta > gk_cutoff k"

definition dropAtOrBelowCutoff :: "gap_keeper \<Rightarrow> gap_keeper" where
  "dropAtOrBelowCutoff k = k\<lparr>gk_items := filter (\<lambda>c. gc_delta c > gk_cutoff k) (gk_items k)\<rparr>"

definition raise_cutoff :: "int \<Rightarrow> gap_keeper \<Rightarrow> gap_keeper" where
  "raise_cutoff cutoff k = (if cutoff \<le> gk_cutoff k then k else dropAtOrBelowCutoff (k\<lparr>gk_cutoff := cutoff\<rparr>))"

definition compact :: "gap_keeper \<Rightarrow> gap_keeper" where
  "compact k =
     (if length (gk_items k) \<le> gk_limit k then k
      else let deltas = sort (map gc_delta (gk_items k))
           in dropAtOrBelowCutoff (k\<lparr>gk_cutoff := max (gk_cutoff k) (deltas ! (length deltas - gk_limit k - 1))\<rparr>))"

definition keeper_add :: "gap_candidate \<Rightarrow> gap_keeper \<Rightarrow> gap_keeper" where
  "keeper_add c k =
     (if \<not> accepts (gc_delta c) k then k
      else let k1 = k\<lparr>gk_items := gk_items k @ [c]\<rparr>
           in if length (gk_items k1) \<ge> 2 * gk_limit k1 then compact k1 else k1)"

text \<open>
  A keeper that has seen the candidates \<open>seen\<close> of a file with the candidates \<open>all\<close>: it holds those above its
  cutoff, and only a cutoff that more than the limit reach has been taken.
\<close>

definition justified :: "nat \<Rightarrow> int \<Rightarrow> gap_candidate list \<Rightarrow> bool" where
  "justified limit cutoff cs \<longleftrightarrow> cutoff = - 1 \<or> limit < length (filter (\<lambda>c. gc_delta c \<ge> cutoff) cs)"

definition keeps :: "gap_candidate list \<Rightarrow> gap_candidate list \<Rightarrow> gap_keeper \<Rightarrow> bool" where
  "keeps seen cs k \<longleftrightarrow> gk_items k = filter (\<lambda>c. gc_delta c > gk_cutoff k) seen \<and> - 1 \<le> gk_cutoff k \<and>
     justified (gk_limit k) (gk_cutoff k) cs"

lemma justified_more: "justified limit cutoff cs \<Longrightarrow> justified limit cutoff (pre @ cs @ post)"
  by (auto simp: justified_def)

lemma justified_max: "justified limit a cs \<Longrightarrow> justified limit b cs \<Longrightarrow> justified limit (max a b) cs"
  by (simp add: max_def)

lemma filter_cut: "lower \<le> upper \<Longrightarrow> filter (\<lambda>c. upper < gc_delta c) (filter (\<lambda>c. lower < gc_delta c) cs) = filter (\<lambda>c. upper < gc_delta c) cs"
  by (induction cs) auto

lemma length_filter_mono: "(\<And>x. P x \<Longrightarrow> Q x) \<Longrightarrow> length (filter P xs) \<le> length (filter Q xs)"
  by (induction xs) (auto intro: le_SucI)

text \<open>The (limit+1)-th longest of more than limit candidates is reached by more than limit of them.\<close>

lemma filter_length_sort: "length (filter P (sort xs)) = length (filter P (xs :: int list))"
  by (metis mset_filter mset_sort size_mset)

lemma reached_by:
  assumes "limit < length xs"
  shows "limit < length (filter (\<lambda>d. sort xs ! (length xs - limit - 1) \<le> d) (xs :: int list))"
proof -
  let ?s = "sort xs" and ?i = "length xs - limit - 1"
  have len: "length ?s = length xs" by simp
  have "filter (\<lambda>d. ?s ! ?i \<le> d) (drop ?i ?s) = drop ?i ?s"
  proof (rule filter_True, rule ballI)
    fix d assume "d \<in> set (drop ?i ?s)"
    then obtain j where j: "j < length (drop ?i ?s)" "d = drop ?i ?s ! j" by (auto simp: in_set_conv_nth)
    then show "?s ! ?i \<le> d" using sorted_nth_mono [of ?s ?i "?i + j"] by simp
  qed
  moreover have "filter (\<lambda>d. ?s ! ?i \<le> d) ?s = filter (\<lambda>d. ?s ! ?i \<le> d) (take ?i ?s) @ filter (\<lambda>d. ?s ! ?i \<le> d) (drop ?i ?s)"
    by (metis append_take_drop_id filter_append)
  ultimately have "length (drop ?i ?s) \<le> length (filter (\<lambda>d. ?s ! ?i \<le> d) ?s)" by simp
  moreover have "length (drop ?i ?s) = limit + 1" using assms by simp
  ultimately show ?thesis unfolding filter_length_sort by simp
qed

lemma keeps_raise:
  assumes "keeps seen cs k" and "justified (gk_limit k) lower cs" and "- 1 \<le> lower"
  shows "keeps seen cs (raise_cutoff lower k)"
proof (cases "lower \<le> gk_cutoff k")
  case False
  then show ?thesis using assms filter_cut [of "gk_cutoff k" lower seen]
    by (simp add: keeps_def raise_cutoff_def dropAtOrBelowCutoff_def)
qed (use assms in \<open>simp add: raise_cutoff_def\<close>)

lemma keeps_compact:
  assumes "keeps seen cs k" and sub: "\<And>P. length (filter P seen) \<le> length (filter P cs)"
  shows "keeps seen cs (compact k)"
proof (cases "length (gk_items k) \<le> gk_limit k")
  case False
  let ?deltas = "map gc_delta (gk_items k)"
  let ?cut = "sort ?deltas ! (length ?deltas - gk_limit k - 1)"
  have "gk_limit k < length (filter (\<lambda>d. ?cut \<le> d) ?deltas)" using False by (intro reached_by) simp
  also have "\<dots> = length (filter (\<lambda>c. ?cut \<le> gc_delta c) (gk_items k))" by (simp add: filter_map comp_def)
  also have "\<dots> \<le> length (filter (\<lambda>c. ?cut \<le> gc_delta c) seen)"
    using assms(1) by (auto simp: keeps_def intro: length_filter_mono)
  also have "\<dots> \<le> length (filter (\<lambda>c. ?cut \<le> gc_delta c) cs)" by (rule sub)
  finally have "justified (gk_limit k) ?cut cs" by (simp add: justified_def)
  then have j: "justified (gk_limit k) (max (gk_cutoff k) ?cut) cs"
    using assms(1) by (intro justified_max) (simp_all add: keeps_def)
  show ?thesis
    using assms(1) False j filter_cut [of "gk_cutoff k" "max (gk_cutoff k) ?cut" seen]
    by (auto simp: keeps_def compact_def dropAtOrBelowCutoff_def Let_def simp del: filter_filter intro: max.coboundedI1)
qed (use assms in \<open>simp add: compact_def\<close>)

lemma keeps_add:
  assumes "keeps seen cs k" and sub: "\<And>P. length (filter P (seen @ [c])) \<le> length (filter P cs)"
  shows "keeps (seen @ [c]) cs (keeper_add c k)"
proof (cases "accepts (gc_delta c) k")
  case True
  let ?k = "k\<lparr>gk_items := gk_items k @ [c]\<rparr>"
  have k: "keeps (seen @ [c]) cs ?k" using assms(1) True by (simp add: keeps_def accepts_def)
  then show ?thesis using True keeps_compact [OF k sub] by (simp add: keeper_add_def Let_def)
next
  case False
  then show ?thesis using assms(1) by (simp add: keeps_def keeper_add_def accepts_def)
qed

lemma compact_limit [simp]: "gk_limit (compact k) = gk_limit k"
  by (simp add: compact_def dropAtOrBelowCutoff_def Let_def)

lemma keeper_add_limit [simp]: "gk_limit (keeper_add c k) = gk_limit k"
  by (simp add: keeper_add_def Let_def)

lemma raise_limit [simp]: "gk_limit (raise_cutoff c k) = gk_limit k"
  by (simp add: raise_cutoff_def dropAtOrBelowCutoff_def)

text \<open>A candidate at or below the cutoff may be left out before.\<close>

lemma adds_kept:
  assumes "keeps seen cs k" and "\<And>P. length (filter P (seen @ xs)) \<le> length (filter P cs)" and "lower \<le> gk_cutoff k"
  shows "keeps (seen @ xs) cs (fold keeper_add (filter (\<lambda>c. lower < gc_delta c) xs) k)"
  using assms
proof (induction xs arbitrary: seen k)
  case (Cons c xs)
  have sub: "length (filter P (seen @ [c])) \<le> length (filter P cs)" for P
  proof -
    have "length (filter P (seen @ [c])) \<le> length (filter P (seen @ c # xs))" by simp
    then show ?thesis using Cons.prems(2) le_trans by blast
  qed
  have same: "keeps (seen @ [c]) cs k" if "\<not> lower < gc_delta c"
    using that Cons.prems(1,3) by (simp add: keeps_def)
  have mono: "gk_cutoff k \<le> gk_cutoff (keeper_add c k)"
    by (simp add: keeper_add_def compact_def dropAtOrBelowCutoff_def Let_def)
  show ?case
  proof (cases "lower < gc_delta c")
    case True
    have "keeps ((seen @ [c]) @ xs) cs (fold keeper_add (filter (\<lambda>c. lower < gc_delta c) xs) (keeper_add c k))"
      using Cons.IH [OF keeps_add [OF Cons.prems(1) sub]] Cons.prems(2,3) mono by simp
    then show ?thesis using True by simp
  next
    case False
    then show ?thesis using Cons.IH [OF same [OF False]] Cons.prems(2,3) by simp
  qed
qed simp

section \<open>The longest silences\<close>

text \<open>All candidates when there are at most the limit, else those longer than the (limit+1)-th longest.\<close>

definition longest_gaps :: "nat \<Rightarrow> gap_candidate list \<Rightarrow> gap_candidate list" where
  "longest_gaps limit cs =
     (if length cs \<le> limit then cs
      else filter (\<lambda>c. gc_delta c > sort (map gc_delta cs) ! (length cs - limit - 1)) cs)"

lemma longer_few:
  assumes "limit < length (xs :: int list)"
  shows "length (filter (\<lambda>d. sort xs ! (length xs - limit - 1) < d) xs) \<le> limit"
proof -
  let ?s = "sort xs" and ?i = "length xs - limit - 1"
  have "filter (\<lambda>d. ?s ! ?i < d) (take (Suc ?i) ?s) = []"
  proof (rule filter_False, rule ballI)
    fix d assume "d \<in> set (take (Suc ?i) ?s)"
    then obtain j where j: "j < Suc ?i" "d = ?s ! j" by (auto simp: in_set_conv_nth)
    then show "\<not> ?s ! ?i < d" using sorted_nth_mono [of ?s j ?i] assms by (simp add: not_less)
  qed
  then have "filter (\<lambda>d. ?s ! ?i < d) ?s = filter (\<lambda>d. ?s ! ?i < d) (drop (Suc ?i) ?s)"
    by (metis append_self_conv2 append_take_drop_id filter_append)
  moreover have "length (filter (\<lambda>d. ?s ! ?i < d) (drop (Suc ?i) ?s)) \<le> length (drop (Suc ?i) ?s)" by (rule length_filter_le)
  moreover have "length (filter (\<lambda>d. ?s ! ?i < d) xs) = length (filter (\<lambda>d. ?s ! ?i < d) ?s)" by (rule filter_length_sort [symmetric])
  moreover have "length (drop (Suc ?i) ?s) = limit" using assms by simp
  ultimately show ?thesis by (simp only:)
qed

text \<open>What is left after the last compaction depends on the candidates only.\<close>

lemma keeps_final:
  assumes "keeps cs cs k" and nonneg: "\<forall>c \<in> set cs. 0 \<le> gc_delta c"
  shows "gk_items (compact k) = longest_gaps (gk_limit k) cs"
proof -
  let ?n = "gk_limit k" and ?c = "gk_cutoff (compact k)"
  have fin: "keeps cs cs (compact k)" using keeps_compact [OF assms(1)] by simp
  then have items: "gk_items (compact k) = filter (\<lambda>c. ?c < gc_delta c) cs" and just: "justified ?n ?c cs" and low: "- 1 \<le> ?c"
    by (simp_all add: keeps_def)
  have few: "length (gk_items (compact k)) \<le> ?n"
  proof (cases "length (gk_items k) \<le> ?n")
    case False
    let ?ds = "map gc_delta (gk_items k)"
    let ?t = "sort ?ds ! (length ?ds - ?n - 1)"
    have "length (gk_items (compact k)) \<le> length (filter (\<lambda>c. ?t < gc_delta c) (gk_items k))"
      using False by (auto simp: compact_def dropAtOrBelowCutoff_def Let_def intro!: length_filter_mono)
    also have "\<dots> = length (filter (\<lambda>d. ?t < d) ?ds)" by (simp add: filter_map comp_def)
    also have "\<dots> \<le> ?n" using False by (intro longer_few) simp
    finally show ?thesis .
  qed (simp add: compact_def)
  show ?thesis
  proof (cases "length cs \<le> ?n")
    case True
    then have "?c = - 1" using just length_filter_le [of "\<lambda>c. ?c \<le> gc_delta c" cs] by (simp add: justified_def)
    then have "gk_items (compact k) = cs" unfolding items by (intro filter_True) (use nonneg in force)
    then show ?thesis using True by (simp add: longest_gaps_def)
  next
    case False
    let ?ds = "map gc_delta cs"
    let ?t = "sort ?ds ! (length cs - ?n - 1)"
    have reach: "?n < length (filter (\<lambda>c. ?t \<le> gc_delta c) cs)"
      using reached_by [of ?n ?ds] False by (simp add: filter_map comp_def)
    have above: "length (filter (\<lambda>c. ?t < gc_delta c) cs) \<le> ?n"
      using longer_few [of ?n ?ds] False by (simp add: filter_map comp_def)
    have "?c = ?t"
    proof (rule ccontr)
      assume "?c \<noteq> ?t"
      then consider "?c < ?t" | "?t < ?c" by linarith
      then show False
      proof cases
        case 1
        have "length (filter (\<lambda>c. ?t \<le> gc_delta c) cs) \<le> length (filter (\<lambda>c. ?c < gc_delta c) cs)"
          by (rule length_filter_mono) (use 1 in auto)
        then show False using reach few items by simp
      next
        case 2
        have "?c \<noteq> - 1"
        proof
          assume "?c = - 1"
          then have "?t < - 1" using 2 by simp
          moreover have "?t \<in> set ?ds" using False nth_mem [of "length cs - ?n - 1" "sort ?ds"] by simp
          ultimately show False using nonneg by auto
        qed
        then have "?n < length (filter (\<lambda>c. ?c \<le> gc_delta c) cs)" using just by (simp add: justified_def)
        also have "\<dots> \<le> length (filter (\<lambda>c. ?t < gc_delta c) cs)" by (rule length_filter_mono) (use 2 in auto)
        finally show False using above by simp
      qed
    qed
    then show ?thesis unfolding items using False by (simp add: longest_gaps_def)
  qed
qed

end
