(* ===== verification/Intervals.thy ===== *)
theory Intervals
  imports GapKeeper
begin

text \<open>
  The intervals of the time-gap measure, \<^verbatim>\<open>internal/sigscan/timegaps.go\<close>: counted in buckets that keep three
  significant digits, for their median.
\<close>

section \<open>Buckets\<close>

definition pow10 :: "int list" where
  "pow10 = map (\<lambda>i. 10 ^ i) [0 ..< 19]"

fun digits_from :: "int list \<Rightarrow> nat \<Rightarrow> int \<Rightarrow> nat" where
  "digits_from [] d v = d"
| "digits_from (p # ps) d v = (if v \<ge> p then digits_from ps (d + 1) v else d)"

definition intervalBucket :: "int \<Rightarrow> int" where
  "intervalBucket v =
     (if v < 1000 then v
      else let digits = digits_from (drop 4 pow10) 4 v
           in 1000 + (int digits - 4) * 900 + v div pow10 ! (digits - 3) - 100)"

definition intervalValue :: "int \<Rightarrow> int" where
  "intervalValue b =
     (if b < 1000 then b
      else let b' = b - 1000 in (b' mod 900 + 100) * pow10 ! nat (b' div 900 + 1))"

lemma pow10_nth: "i < 19 \<Longrightarrow> pow10 ! i = 10 ^ i"
  by (simp add: pow10_def)

lemma drop_pow10: "drop d pow10 = map (\<lambda>i. 10 ^ i) [d ..< 19]"
  by (simp add: pow10_def drop_map)

lemma digits_from_ok:
  "10 ^ (d - 1) \<le> v \<Longrightarrow> v < 10 ^ 19 \<Longrightarrow> 1 \<le> d \<Longrightarrow> d \<le> 19 \<Longrightarrow>
    (let n = digits_from (drop d pow10) d v in d \<le> n \<and> n \<le> 19 \<and> 10 ^ (n - 1) \<le> v \<and> v < 10 ^ n)"
proof (induction "19 - d" arbitrary: d)
  case 0
  then have "d = 19" by simp
  then show ?case using 0 by (simp add: drop_pow10 Let_def)
next
  case (Suc k)
  then have "d < 19" by simp
  then have "drop d pow10 = 10 ^ d # drop (Suc d) pow10" by (simp add: drop_pow10 upt_conv_Cons)
  moreover have "let n = digits_from (drop (Suc d) pow10) (Suc d) v in Suc d \<le> n \<and> n \<le> 19 \<and> 10 ^ (n - 1) \<le> v \<and> v < 10 ^ n"
    if "10 ^ d \<le> v"
    using that Suc.prems Suc.hyps(2) \<open>d < 19\<close> by (intro Suc.hyps(1)) auto
  ultimately show ?case using Suc.prems by (auto simp: Let_def not_le)
qed

text \<open>An interval of at least a second, in its decade.\<close>

lemma bucket_decade:
  assumes "1000 \<le> v" and "v < 10 ^ 19"
  obtains n where "4 \<le> n" and "n \<le> 19" and "10 ^ (n - 1) \<le> v" and "v < 10 ^ n"
    and "100 \<le> v div 10 ^ (n - 3)" and "v div 10 ^ (n - 3) < 1000"
    and "intervalBucket v = 1000 + (int n - 4) * 900 + (v div 10 ^ (n - 3) - 100)"
proof -
  define n where "n = digits_from (drop 4 pow10) 4 v"
  have n: "4 \<le> n" "n \<le> 19" "10 ^ (n - 1) \<le> v" "v < 10 ^ n"
    using digits_from_ok [of 4 v] assms by (simp_all add: n_def Let_def)
  define q where "q = (10 :: int) ^ (n - 3)"
  have e: "(10 :: int) ^ (2 + k) = 100 * 10 ^ k" "(10 :: int) ^ (3 + k) = 1000 * 10 ^ k" for k by (simp_all add: power_add)
  have "n - 1 = 2 + (n - 3)" "n = 3 + (n - 3)" using n(1) by simp_all
  then have p: "(10 :: int) ^ (n - 1) = 100 * q" "(10 :: int) ^ n = 1000 * q"
    using e(1) [of "n - 3"] e(2) [of "n - 3"] by (simp_all only: q_def)
  have q: "0 < q" by (simp add: q_def)
  have "100 * q div q \<le> v div q" using n(3) p q by (intro zdiv_mono1) simp_all
  then have "100 \<le> v div 10 ^ (n - 3)" using q by (simp add: q_def)
  moreover have "v div 10 ^ (n - 3) < 1000"
  proof -
    have "(v div q) * q \<le> v" using q by (simp add: minus_mod_eq_div_mult [symmetric])
    then have "(v div q) * q < 1000 * q" using n(4) p by linarith
    then show ?thesis using q by (simp add: q_def)
  qed
  moreover have "intervalBucket v = 1000 + (int n - 4) * 900 + (v div 10 ^ (n - 3) - 100)"
    using assms n by (simp add: intervalBucket_def n_def [symmetric] Let_def pow10_nth)
  ultimately show thesis using that n by blast
qed

lemma bucket_value:
  assumes "0 \<le> v" and "v < 10 ^ 19"
  shows "intervalValue (intervalBucket v) \<le> v \<and> 100 * (v - intervalValue (intervalBucket v)) \<le> v \<and>
    (v < 1000 \<longrightarrow> intervalValue (intervalBucket v) = v)"
proof (cases "v < 1000")
  case True
  then show ?thesis using assms(1) by (simp add: intervalBucket_def intervalValue_def)
next
  case False
  obtain n where n: "4 \<le> n" "n \<le> 19" "10 ^ (n - 1) \<le> v" "v < 10 ^ n" "100 \<le> v div 10 ^ (n - 3)" "v div 10 ^ (n - 3) < 1000"
    "intervalBucket v = 1000 + (int n - 4) * 900 + (v div 10 ^ (n - 3) - 100)"
    using bucket_decade [OF _ assms(2)] False by (metis not_less)
  let ?q = "v div 10 ^ (n - 3)" and ?p = "(10 :: int) ^ (n - 3)"
  let ?b = "(int n - 4) * 900 + (?q - 100)"
  have "?b mod 900 = ?q - 100" "?b div 900 = int n - 4"
    using n(5,6) by (intro int_mod_pos_eq [of _ _ "int n - 4"] int_div_pos_eq [of _ _ _ "?q - 100"]; simp)+
  moreover have "nat (int n - 4 + 1) = n - 3" "n - 3 < 19" using n(1,2) by simp_all
  ultimately have val: "intervalValue (intervalBucket v) = ?q * ?p"
    using n(1,5) unfolding n(7) by (simp add: intervalValue_def Let_def pow10_nth)
  have "v - ?q * ?p = v mod ?p" by (rule minus_div_mult_eq_mod)
  moreover have "v mod ?p < ?p" "0 \<le> v mod ?p" by simp_all
  moreover have "100 * ?p \<le> ?q * ?p" using n(5) by simp
  moreover have "x \<le> v" "100 * (v - x) \<le> v" if r: "v - x = r" "r < y" "0 \<le> r" "100 * y \<le> x" for x r y
  proof -
    have "100 * (v - x) \<le> 100 * y" using r(1,2) by simp
    then show "x \<le> v" "100 * (v - x) \<le> v" using r by linarith+
  qed
  ultimately have "?q * ?p \<le> v" "100 * (v - ?q * ?p) \<le> v" by blast+
  then show ?thesis using False unfolding val by blast
qed

lemma bucket_mono:
  assumes "0 \<le> v" and "v \<le> w" and "w < 10 ^ 19"
  shows "intervalBucket v \<le> intervalBucket w"
proof (cases "w < 1000")
  case True
  then show ?thesis using assms by (simp add: intervalBucket_def)
next
  case False
  obtain m where m: "4 \<le> m" "10 ^ (m - 1) \<le> w" "w < 10 ^ m" "100 \<le> w div 10 ^ (m - 3)"
    "intervalBucket w = 1000 + (int m - 4) * 900 + (w div 10 ^ (m - 3) - 100)"
    using bucket_decade [OF _ assms(3)] False by (metis not_less)
  have least: "1000 \<le> intervalBucket w" using m(1,4,5) by simp
  show ?thesis
  proof (cases "v < 1000")
    case True
    then show ?thesis using least by (simp add: intervalBucket_def)
  next
    case v: False
    obtain n where n: "4 \<le> n" "10 ^ (n - 1) \<le> v" "v < 10 ^ n" "v div 10 ^ (n - 3) < 1000"
      "intervalBucket v = 1000 + (int n - 4) * 900 + (v div 10 ^ (n - 3) - 100)"
      using bucket_decade [OF _ le_less_trans [OF assms(2,3)]] v by (metis not_less)
    have "(10 :: int) ^ (n - 1) < 10 ^ m" using n(2) m(3) assms(2) by linarith
    then have "n - 1 < m" by (rule power_less_imp_less_exp [rotated]) simp
    then consider "n = m" | "n < m" using n(1) by linarith
    then show ?thesis
    proof cases
      case 1
      then have "v div 10 ^ (n - 3) \<le> w div 10 ^ (m - 3)" using assms(2) by (simp add: zdiv_mono1)
      then show ?thesis unfolding m(5) n(5) using 1 by simp
    next
      case 2
      then have "(int n - 4) * 900 + 900 \<le> (int m - 4) * 900" by simp
      then show ?thesis using m(4,5) n(4,5) by linarith
    qed
  qed
qed

section \<open>Counting\<close>

record interval_counts =
  ic_counts :: "(int \<times> int) list"
  ic_total :: int

definition no_intervals :: interval_counts where
  "no_intervals = \<lparr>ic_counts = [], ic_total = 0\<rparr>"

definition count_at :: "(int \<times> int) list \<Rightarrow> int \<Rightarrow> int" where
  "count_at m b = (case map_of m b of None \<Rightarrow> 0 | Some n \<Rightarrow> n)"

definition interval_add :: "int \<Rightarrow> interval_counts \<Rightarrow> interval_counts" where
  "interval_add delta c =
     (let b = intervalBucket (max delta 0)
      in c\<lparr>ic_counts := AList.update b (count_at (ic_counts c) b + 1) (ic_counts c), ic_total := ic_total c + 1\<rparr>)"

definition interval_merge :: "interval_counts \<Rightarrow> interval_counts \<Rightarrow> interval_counts" where
  "interval_merge c other =
     c\<lparr>ic_counts := fold (\<lambda>(b, n) m. AList.update b (count_at m b + n) m) (ic_counts other) (ic_counts c),
       ic_total := ic_total c + ic_total other\<rparr>"

fun median_from :: "(int \<times> int) list \<Rightarrow> int \<Rightarrow> int list \<Rightarrow> int option" where
  "median_from m rank [] = None"
| "median_from m rank (b # bs) = (if rank < count_at m b then Some (intervalValue b) else median_from m (rank - count_at m b) bs)"

definition interval_median :: "interval_counts \<Rightarrow> int" where
  "interval_median c =
     (if ic_total c = 0 then 0
      else let buckets = sort (map fst (ic_counts c))
           in case median_from (ic_counts c) ((ic_total c - 1) div 2) buckets of
                Some v \<Rightarrow> v
              | None \<Rightarrow> intervalValue (buckets ! (length buckets - 1)))"

text \<open>Counts that stand for a list of intervals.\<close>

abbreviation buckets_of :: "int list \<Rightarrow> int list" where
  "buckets_of ds \<equiv> map (\<lambda>d. intervalBucket (max d 0)) ds"

definition counts_for :: "int list \<Rightarrow> interval_counts \<Rightarrow> bool" where
  "counts_for ds c \<longleftrightarrow> distinct (map fst (ic_counts c)) \<and> set (map fst (ic_counts c)) = set (buckets_of ds) \<and>
     (\<forall>b. count_at (ic_counts c) b = int (count_list (buckets_of ds) b)) \<and> ic_total c = int (length ds)"

lemma counts_for_Nil: "counts_for [] no_intervals"
  by (simp add: counts_for_def no_intervals_def count_at_def)

lemma count_at_update: "count_at (AList.update b n m) b' = (if b' = b then n else count_at m b')"
  by (simp add: count_at_def update_conv')

lemma keys_update: "set (map fst (AList.update b n m)) = insert b (set (map fst m))"
  using dom_update [of b n m] by (simp add: dom_map_of_conv_image_fst)

lemma counts_for_add: "counts_for ds c \<Longrightarrow> counts_for (ds @ [d]) (interval_add d c)"
  unfolding counts_for_def interval_add_def Let_def
  using keys_update [of "intervalBucket (max d 0)" _ "ic_counts c"]
  by (simp add: count_at_update distinct_update)

text \<open>Two sets of counts that stand for the same intervals in another order are as good as each other.\<close>

definition same_counts :: "interval_counts \<Rightarrow> interval_counts \<Rightarrow> bool" where
  "same_counts c c' \<longleftrightarrow> distinct (map fst (ic_counts c)) \<and> distinct (map fst (ic_counts c')) \<and>
     set (map fst (ic_counts c)) = set (map fst (ic_counts c')) \<and>
     (\<forall>b. count_at (ic_counts c) b = count_at (ic_counts c') b) \<and> ic_total c = ic_total c'"

lemma merge_counts:
  assumes "distinct (map fst o1)" and "distinct (map fst m)"
  shows "distinct (map fst (fold (\<lambda>(b, n) m. AList.update b (count_at m b + n) m) o1 m)) \<and>
    set (map fst (fold (\<lambda>(b, n) m. AList.update b (count_at m b + n) m) o1 m)) = set (map fst m) \<union> set (map fst o1) \<and>
    (\<forall>b. count_at (fold (\<lambda>(b, n) m. AList.update b (count_at m b + n) m) o1 m) b = count_at m b + count_at o1 b)"
  using assms
proof (induction o1 arbitrary: m)
  case Nil
  then show ?case by (simp add: count_at_def)
next
  case (Cons p o1)
  obtain b n where p: "p = (b, n)" by force
  let ?m = "AList.update b (count_at m b + n) m"
  have "distinct (map fst ?m)" using Cons.prems(2) by (rule distinct_update)
  note IH = Cons.IH [OF _ this]
  have b: "b \<notin> set (map fst o1)" using Cons.prems(1) p by simp
  then have zero: "count_at o1 b = 0" by (simp add: count_at_def map_of_eq_None_iff [THEN iffD2])
  have at: "count_at (p # o1) b' = (if b' = b then n else count_at o1 b')" for b'
    unfolding p by (simp add: count_at_def)
  show ?case
    using IH Cons.prems(1) keys_update [of b "count_at m b + n" m] zero unfolding p
    by (auto simp: count_at_update at [unfolded p])
qed

lemma counts_for_merge:
  assumes "counts_for ds c" and "counts_for es other"
  shows "counts_for (ds @ es) (interval_merge c other)"
  using merge_counts [of "ic_counts other" "ic_counts c"] assms unfolding counts_for_def interval_merge_def by simp

text \<open>The order of the intervals does not matter to their counts.\<close>

lemma counts_for_mset: "mset ds = mset es \<Longrightarrow> counts_for ds c \<Longrightarrow> counts_for es c"
proof -
  assume m: "mset ds = mset es"
  have "count_list (buckets_of ds) b = count_list (buckets_of es) b" for b
    using m by (metis count_mset mset_map)
  moreover have "set (buckets_of ds) = set (buckets_of es)" using m by (metis mset_map set_mset_mset)
  moreover have "length ds = length es" using m by (rule mset_eq_length)
  ultimately show "counts_for ds c \<Longrightarrow> counts_for es c" by (simp add: counts_for_def)
qed

section \<open>The median\<close>

lemma median_from_nth:
  assumes "\<forall>b \<in> set bs. 0 \<le> count_at m b" and "0 \<le> rank" and "rank < int (length (concat (map (\<lambda>b. replicate (nat (count_at m b)) b) bs)))"
  shows "median_from m rank bs = Some (intervalValue (concat (map (\<lambda>b. replicate (nat (count_at m b)) b) bs) ! nat rank))"
  using assms
proof (induction bs arbitrary: rank)
  case (Cons b bs)
  let ?n = "count_at m b"
  have n: "0 \<le> ?n" using Cons.prems(1) by simp
  show ?case
  proof (cases "rank < ?n")
    case True
    then have "nat rank < nat ?n" using Cons.prems(2) by simp
    then show ?thesis using True by (simp add: nth_append)
  next
    case False
    then have "median_from m (rank - ?n) bs =
        Some (intervalValue (concat (map (\<lambda>b. replicate (nat (count_at m b)) b) bs) ! nat (rank - ?n)))"
      using Cons.prems n by (intro Cons.IH) auto
    moreover have "nat rank - nat ?n = nat (rank - ?n)" "\<not> nat rank < nat ?n" using False n by simp_all
    ultimately show ?thesis using False by (simp add: nth_append)
  qed
qed simp

lemma count_list_same: "count_list (replicate n b) a = (if a = b then n else 0)"
  by (induction n) auto

lemma sort_as_counts:
  assumes "distinct ks" and "set ks = set (xs :: int list)"
  shows "concat (map (\<lambda>b. replicate (count_list xs b) b) (sort ks)) = sort xs"
proof (rule sym, rule properties_for_sort)
  have d: "distinct (sort ks)" "set (sort ks) = set xs" using assms by simp_all
  have count: "count_list (concat (map (\<lambda>b. replicate (count_list xs b) b) bs)) a = (if a \<in> set bs then count_list xs a else 0)"
    if "distinct bs" for bs a using that by (induction bs) (auto simp: count_list_same)
  show "mset (concat (map (\<lambda>b. replicate (count_list xs b) b) (sort ks))) = mset xs"
  proof (rule multiset_eqI)
    fix a
    show "count (mset (concat (map (\<lambda>b. replicate (count_list xs b) b) (sort ks)))) a = count (mset xs) a"
      unfolding count_mset count [OF d(1)] using d(2) by (auto simp: count_list_0_iff)
  qed
  have "sorted (concat (map (\<lambda>b. replicate (count_list xs b) b) bs))" if "sorted bs" for bs
    using that by (induction bs) (auto simp: sorted_append)
  then show "sorted (concat (map (\<lambda>b. replicate (count_list xs b) b) (sort ks)))" by simp
qed

text \<open>The lower median of intervals, with steps back as zero.\<close>

definition median_interval :: "int list \<Rightarrow> int" where
  "median_interval ds = sort (map (\<lambda>d. max d 0) ds) ! ((length ds - 1) div 2)"

lemma interval_median_ok:
  assumes "counts_for ds c" and "ds \<noteq> []" and "\<forall>d \<in> set ds. d < 10 ^ 19"
  shows "interval_median c = intervalValue (intervalBucket (median_interval ds))"
proof -
  let ?m = "ic_counts c" and ?xs = "buckets_of ds" and ?ks = "map fst (ic_counts c)"
  note c = assms(1) [unfolded counts_for_def]
  have reps: "concat (map (\<lambda>b. replicate (nat (count_at ?m b)) b) (sort ?ks)) = sort ?xs"
    using sort_as_counts [of ?ks ?xs] c by simp
  have pos: "0 < length ds" using assms(2) by simp
  let ?r = "(length ds - 1) div 2"
  have "int (length ds - 1) = int (length ds) - 1" using pos by linarith
  then have rank: "(ic_total c - 1) div 2 = int ?r" using c by (simp only: zdiv_int of_nat_numeral)
  have less: "?r < length ds" using pos div_le_dividend [of "length ds - 1" 2] by linarith
  have "median_from ?m (int ?r) (sort ?ks) = Some (intervalValue (sort ?xs ! ?r))"
    using median_from_nth [of "sort ?ks" ?m "int ?r"] reps c less by simp
  moreover have "ic_total c \<noteq> 0" using c pos by simp
  ultimately have "interval_median c = intervalValue (sort ?xs ! ?r)"
    using rank by (simp add: interval_median_def)
  moreover have "sort ?xs = map intervalBucket (sort (map (\<lambda>d. max d 0) ds))"
  proof (rule properties_for_sort)
    show "mset (map intervalBucket (sort (map (\<lambda>d. max d 0) ds))) = mset ?xs" by (simp add: image_mset.compositionality comp_def)
    have "sorted (map intervalBucket zs)" if "sorted zs" "\<forall>z \<in> set zs. 0 \<le> z \<and> z < 10 ^ 19" for zs
      using that by (induction zs) (auto intro: bucket_mono)
    then show "sorted (map intervalBucket (sort (map (\<lambda>d. max d 0) ds)))" using assms(3) by simp
  qed
  ultimately show ?thesis using less by (simp add: median_interval_def)
qed

end
