(* ===== verification/GapRef.thy ===== *)
theory GapRef
  imports TimeGap
begin

text \<open>
  The walk and the merge of the time-gap measure against the silences of the whole text: what a chunk hands over stands
  for the silences inside it, and the merge adds the one across its edge.
\<close>

section \<open>The silences of a part of the text\<close>

fun gap_after :: "gap_measure \<Rightarrow> time_tracker \<Rightarrow> int \<Rightarrow> line_ref \<Rightarrow> line list \<Rightarrow> time_tracker \<times> line_ref" where
  "gap_after g tt idx before [] = (tt, before)"
| "gap_after g tt idx before (l0 # ls) =
     (case observe tt l0 of (l, tt') \<Rightarrow> gap_after g tt' (idx + 1) (prev_ref g (prev_of l tt') idx) ls)"

lemma gap_pairs_append:
  "gap_pairs g tt idx before (ls @ ms) =
    gap_pairs g tt idx before ls @
    (case gap_after g tt idx before ls of (tt', before') \<Rightarrow> gap_pairs g tt' (idx + int (length ls)) before' ms)"
  by (induction ls arbitrary: tt idx before) (auto split: prod.splits simp: algebra_simps)

lemma gap_after_append:
  "gap_after g tt idx before (ls @ ms) =
    (case gap_after g tt idx before ls of (tt', before') \<Rightarrow> gap_after g tt' (idx + int (length ls)) before' ms)"
  by (induction ls arbitrary: tt idx before) (auto split: prod.splits simp: algebra_simps)

section \<open>Inside a chunk\<close>

abbreviation long_enough :: "gap_measure \<Rightarrow> gap_candidate list \<Rightarrow> gap_candidate list" where
  "long_enough g cs \<equiv> filter (\<lambda>c. gc_delta c \<ge> gm_minGap g) cs"

definition move_candidate :: "int \<Rightarrow> stamp_ref \<Rightarrow> int \<Rightarrow> gap_candidate \<Rightarrow> gap_candidate" where
  "move_candidate base carry lb c =
     c\<lparr>gc_from := ref_at base (settle_ref carry lb (gc_from c)), gc_to := stamped_from base (gc_to c)\<rparr>"

lemma move_delta [simp]: "gc_delta (move_candidate base carry lb c) = gc_delta c"
  by (simp add: move_candidate_def)

definition edge_pair :: "int \<Rightarrow> stamp_ref \<Rightarrow> int \<Rightarrow> line_ref \<Rightarrow> gap_first \<Rightarrow> gap_candidate" where
  "edge_pair base carry lb lastLine f =
     \<lparr>gc_delta = sl_ms (gf_line f) - sr_ms carry,
      gc_from = (if lr_ok (gf_before f) then ref_at base (settle_ref carry lb (gf_before f)) else lastLine),
      gc_to = stamped_from base (gf_line f)\<rparr>"

definition edge_for :: "gap_measure \<Rightarrow> gap_candidate list \<Rightarrow> gap_edge \<Rightarrow> bool" where
  "edge_for g inner e \<longleftrightarrow> counts_for (map gc_delta inner) (ge_intervals e) \<and> keeps (long_enough g inner) (long_enough g inner) (ge_kept e) \<and>
     gk_limit (ge_kept e) = gm_limit g"

definition walk_for ::
  "gap_measure \<Rightarrow> time_source \<Rightarrow> stamp_ref \<Rightarrow> int \<Rightarrow> line_ref \<Rightarrow> gap_walk \<Rightarrow> time_tracker \<Rightarrow> line_ref \<Rightarrow>
    gap_candidate list \<Rightarrow> gap_candidate list \<Rightarrow> bool" where
  "walk_for g t carry base lastLine w tru before pairs inner \<longleftrightarrow>
     tt_src (gk_times w) = Some t \<and> tracks carry (gk_times w) tru \<and> gw_prev (gk_walker w) = tt_last (gk_times w) \<and> 0 \<le> gk_idx w \<and>
     before = (if gk_idx w > 0 then ref_at base (settle_ref carry (ts_lookback t) (prev_ref g (gk_prev w) (gk_idx w - 1))) else lastLine) \<and>
     edge_for g inner (gw_edge (gk_walker w)) \<and>
     (case ge_first (gw_edge (gk_walker w)) of
        None \<Rightarrow> \<not> sr_ok (tt_last (gk_times w)) \<and> pairs = [] \<and> inner = []
      | Some f \<Rightarrow> sr_ok (tt_last (gk_times w)) \<and> 0 < gk_idx w \<and>
          pairs = (if sr_ok carry then [edge_pair base carry (ts_lookback t) lastLine f] else []) @
            map (move_candidate base carry (ts_lookback t)) inner)"

lemma prev_ref_ok: "lr_ok (prev_ref g p i)"
  by (simp add: prev_ref_def Let_def split: prod.splits)

lemma prev_ref_moved:
  assumes "tracks carry own tru" and "tt_src own = Some t"
  shows "ref_at base (settle_ref carry (ts_lookback t) (prev_ref g (prev_of l own) i)) = prev_ref g (prev_of l tru) (base + i)"
  using settle_time_at [OF assms(1), of "lstart l"] assms(2)
  by (simp add: lookback_of_def prev_ref_def prev_of_def ref_at_def settle_ref_def Let_def split: prod.splits)

lemma edge_for_add:
  assumes "edge_for g inner e" and "gc_delta c = d"
  shows "edge_for g (inner @ [c])
    (let e1 = e\<lparr>ge_intervals := interval_add d (ge_intervals e)\<rparr>
     in if d \<ge> gm_minGap g \<and> accepts d (ge_kept e1) then e1\<lparr>ge_kept := keeper_add c (ge_kept e1)\<rparr> else e1)"
proof -
  note e = assms(1) [unfolded edge_for_def]
  have counts: "counts_for (map gc_delta (inner @ [c])) (interval_add d (ge_intervals e))"
    using counts_for_add [of "map gc_delta inner" "ge_intervals e" d] e assms(2) by simp
  have more: "keeps (long_enough g inner) (long_enough g inner @ [c]) (ge_kept e)"
    using e justified_more [of "gm_limit g" "gk_cutoff (ge_kept e)" "long_enough g inner" "[]" "[c]"] by (auto simp: keeps_def)
  show ?thesis
  proof (cases "d \<ge> gm_minGap g")
    case True
    then have "keeps (long_enough g inner @ [c]) (long_enough g inner @ [c]) (keeper_add c (ge_kept e))"
      by (intro keeps_add [OF more]) simp
    moreover have "keeper_add c (ge_kept e) = ge_kept e" if "\<not> accepts d (ge_kept e)" using that assms(2) by (simp add: keeper_add_def)
    ultimately show ?thesis using counts True e assms(2) by (auto simp: edge_for_def Let_def)
  next
    case False
    then show ?thesis using counts e assms(2) by (simp add: edge_for_def Let_def)
  qed
qed

lemma walk_step:
  assumes inv: "walk_for g t carry base lastLine w tru before pairs inner" and fresh: "\<not> stamped l0"
    and obs: "observe tru l0 = (l, tru')"
  shows "\<exists>inner'. walk_for g t carry base lastLine (gap_walk_line g l0 w) tru' (prev_ref g (prev_of l tru') (base + gk_idx w))
    (pairs @ (if stamped l \<and> sr_ok (tt_last tru)
         then [\<lparr>gc_delta = stampMs l - sr_ms (tt_last tru), gc_from = before, gc_to = stamped_at l (base + gk_idx w)\<rparr>] else [])) inner'"
proof -
  let ?own = "gk_times w" and ?i = "gk_idx w" and ?wk = "gk_walker w"
  let ?e = "gw_edge ?wk" and ?lb = "ts_lookback t"
  note i = inv [unfolded walk_for_def]
  have tracks: "tracks carry ?own tru" and src: "tt_src ?own = Some t" using i by blast+
  obtain own' where own': "observe ?own l0 = (l, own')" "tracks carry own' tru'"
    using tracks_observe [OF tracks, of l0] obs by (metis fst_conv snd_conv surj_pair)
  have src': "tt_src own' = Some t" using own'(1) src by (auto simp: observe_def split: option.splits)
  define w' where "w' = gap_walk_line g l0 w"
  have w': "w' = w\<lparr>gk_times := own', gk_idx := ?i + 1, gk_prev := prev_of l own', gk_walker := gap_line g l ?i (gk_prev w) ?wk\<rparr>"
    using own'(1) src' by (simp add: w'_def gap_walk_line_def)
  have before': "ref_at base (settle_ref carry ?lb (prev_ref g (prev_of l own') ?i)) = prev_ref g (prev_of l tru') (base + ?i)"
    by (rule prev_ref_moved [OF own'(2) src'])
  have parsed: "stamped l \<longleftrightarrow> stamp_of t l0 \<noteq> None" "\<not> stamped l \<Longrightarrow> tt_last own' = tt_last ?own"
    "stamped l \<Longrightarrow> tt_last own' = line_stamp l"
    using own'(1) src fresh by (auto simp: observe_def line_stamp_def split: option.splits)
  have common: "tt_src (gk_times w') = Some t" "tracks carry (gk_times w') tru'" "0 \<le> gk_idx w'"
    "prev_ref g (prev_of l tru') (base + ?i) =
      (if gk_idx w' > 0 then ref_at base (settle_ref carry ?lb (prev_ref g (gk_prev w') (gk_idx w' - 1))) else lastLine)"
    using src' own'(2) i before' unfolding w' by simp_all
  have idx': "0 < gk_idx w'" using i unfolding w' by simp
  show ?thesis
  proof (cases "stamped l")
    case False
    then have "gk_walker w' = ?wk" "tt_last (gk_times w') = tt_last ?own" using parsed(2) unfolding w' by (simp_all add: gap_line_def)
    then have "walk_for g t carry base lastLine w' tru' (prev_ref g (prev_of l tru') (base + ?i)) pairs inner"
      using common i idx' unfolding walk_for_def by (cases "ge_first ?e") auto
    then show ?thesis using False unfolding w'_def by auto
  next
    case True
    have wk: "gw_prev (gk_walker w') = tt_last (gk_times w')" "sr_ok (tt_last (gk_times w'))"
      using True parsed(3) unfolding w' by (simp_all add: gap_line_def Let_def line_stamp_def)
    show ?thesis
    proof (cases "ge_first ?e")
      case None
      then have none: "\<not> sr_ok (tt_last ?own)" "pairs = []" "inner = []" "\<not> sr_ok (gw_prev ?wk)" using i by auto
      have carry: "tt_last tru = carry" using tracks none(1) by (simp add: tracks_def)
      let ?f = "\<lparr>gf_line = stamped_at l ?i, gf_before = (if ?i > 0 then prev_ref g (gk_prev w) (?i - 1) else no_line_ref)\<rparr>"
      have e': "gw_edge (gk_walker w') = ?e\<lparr>ge_first := Some ?f\<rparr>"
        using True none(4) unfolding w' by (simp add: gap_line_def Let_def)
      have "\<lparr>gc_delta = stampMs l - sr_ms (tt_last tru), gc_from = before, gc_to = stamped_at l (base + ?i)\<rparr> =
          edge_pair base carry ?lb lastLine ?f"
        using i carry by (simp add: edge_pair_def prev_ref_ok no_line_ref_def stamped_at_def stamped_from_def)
      then have "walk_for g t carry base lastLine w' tru' (prev_ref g (prev_of l tru') (base + ?i))
        (pairs @ (if stamped l \<and> sr_ok (tt_last tru)
         then [\<lparr>gc_delta = stampMs l - sr_ms (tt_last tru), gc_from = before, gc_to = stamped_at l (base + ?i)\<rparr>] else [])) []"
        using common wk e' i none True carry idx' unfolding walk_for_def by (auto simp: edge_for_def)
      then show ?thesis unfolding w'_def by blast
    next
      case (Some f)
      then have some: "sr_ok (tt_last ?own)" "sr_ok (gw_prev ?wk)" "gw_prev ?wk = tt_last ?own" using i by auto
      have last: "tt_last tru = tt_last ?own" using tracks some(1) by (simp add: tracks_def)
      have pos: "?i > 0" using i Some by simp
      let ?d = "stampMs l - sr_ms (tt_last tru)"
      let ?c = "\<lparr>gc_delta = ?d, gc_from = prev_ref g (gk_prev w) (?i - 1), gc_to = stamped_at l ?i\<rparr>"
      have e': "gw_edge (gk_walker w') = (let e1 = ?e\<lparr>ge_intervals := interval_add ?d (ge_intervals ?e)\<rparr>
          in if ?d \<ge> gm_minGap g \<and> accepts ?d (ge_kept e1) then e1\<lparr>ge_kept := keeper_add ?c (ge_kept e1)\<rparr> else e1)"
        using True some last unfolding w' by (simp add: gap_line_def Let_def)
      have "edge_for g (inner @ [?c]) (gw_edge (gk_walker w'))"
        unfolding e' by (rule edge_for_add) (use i in simp_all)
      moreover have "ge_first (gw_edge (gk_walker w')) = Some f" unfolding e' using Some by (simp add: Let_def)
      moreover have "\<lparr>gc_delta = ?d, gc_from = before, gc_to = stamped_at l (base + ?i)\<rparr> = move_candidate base carry ?lb ?c"
        using i pos by (simp add: move_candidate_def stamped_at_def stamped_from_def)
      moreover have "pairs = (if sr_ok carry then [edge_pair base carry ?lb lastLine f] else []) @ map (move_candidate base carry ?lb) inner"
        using i Some by simp
      moreover have "sr_ok (tt_last tru)" "0 < gk_idx w'" using some(1) last pos unfolding w' by simp_all
      ultimately have "walk_for g t carry base lastLine w' tru' (prev_ref g (prev_of l tru') (base + ?i))
        (pairs @ (if stamped l \<and> sr_ok (tt_last tru)
         then [\<lparr>gc_delta = ?d, gc_from = before, gc_to = stamped_at l (base + ?i)\<rparr>] else [])) (inner @ [?c])"
        using common wk True unfolding walk_for_def by simp
      then show ?thesis unfolding w'_def by blast
    qed
  qed
qed

lemma walk_all:
  assumes "walk_for g t carry base lastLine w tru before pairs inner" and "\<forall>l \<in> set ls. \<not> stamped l"
    and "gap_after g tru (base + gk_idx w) before ls = (tru', before')"
  shows "gk_idx (fold (gap_walk_line g) ls w) = gk_idx w + int (length ls) \<and>
    (\<exists>inner'. walk_for g t carry base lastLine (fold (gap_walk_line g) ls w) tru' before'
      (pairs @ gap_pairs g tru (base + gk_idx w) before ls) inner')"
  using assms
proof (induction ls arbitrary: w tru before pairs inner)
  case Nil
  then show ?case by auto
next
  case (Cons l0 ls)
  obtain l tt where o: "observe tru l0 = (l, tt)" by force
  have idx: "gk_idx (gap_walk_line g l0 w) = gk_idx w + 1" by (simp add: gap_walk_line_def split: prod.splits)
  from walk_step [OF Cons.prems(1) _ o] Cons.prems(2) obtain inner1 where
    "walk_for g t carry base lastLine (gap_walk_line g l0 w) tt (prev_ref g (prev_of l tt) (base + gk_idx w))
      (pairs @ (if stamped l \<and> sr_ok (tt_last tru)
         then [\<lparr>gc_delta = stampMs l - sr_ms (tt_last tru), gc_from = before, gc_to = stamped_at l (base + gk_idx w)\<rparr>] else [])) inner1"
    by auto
  from Cons.IH [OF this] show ?case using Cons.prems(2,3) o idx by (simp add: algebra_simps)
qed

section \<open>The merge\<close>

definition merged_for ::
  "gap_measure \<Rightarrow> time_source \<Rightarrow> gap_merger \<Rightarrow> time_tracker \<Rightarrow> line_ref \<Rightarrow> gap_candidate list \<Rightarrow> bool" where
  "merged_for g t m tru before pairs \<longleftrightarrow>
     tt_src tru = Some t \<and> tt_settled tru \<and> tt_last tru = gm_lastStamp m \<and> before = gm_lastLine m \<and>
     counts_for (map gc_delta pairs) (gm_intervals m) \<and>
     keeps (long_enough g pairs) (long_enough g pairs) (gm_kept m) \<and> gk_limit (gm_kept m) = gm_limit g"

lemma long_enough_move: "long_enough g (map (move_candidate base carry lb) cs) = map (move_candidate base carry lb) (long_enough g cs)"
  by (simp add: filter_map comp_def)

lemma justified_move: "justified n c (map (move_candidate base carry lb) cs) \<longleftrightarrow> justified n c cs"
  by (simp add: justified_def filter_map comp_def)

text \<open>Taking over an edge: the silence across it, then the ones inside.\<close>

lemma merge_edge:
  assumes counts: "counts_for (map gc_delta pairs) (gm_intervals m)"
    and kept: "keeps (long_enough g pairs) (long_enough g pairs) (gm_kept m)" "gk_limit (gm_kept m) = gm_limit g"
    and edge: "edge_for g inner e"
    and first: "case ge_first e of
       None \<Rightarrow> new = [] \<and> inner = []
     | Some f \<Rightarrow> new = (if sr_ok (gm_lastStamp m) then [edge_pair (gm_base m) (gm_lastStamp m) lb (gm_lastLine m) f] else [])"
  defines "m' \<equiv> gap_merge_add g (settle_edge (gm_lastStamp m) lb e) m"
    and "pairs' \<equiv> pairs @ new @ map (move_candidate (gm_base m) (gm_lastStamp m) lb) inner"
  shows "counts_for (map gc_delta pairs') (gm_intervals m') \<and>
    keeps (long_enough g pairs') (long_enough g pairs') (gm_kept m') \<and> gk_limit (gm_kept m') = gm_limit g"
proof -
  let ?move = "move_candidate (gm_base m) (gm_lastStamp m) lb"
  let ?all = "long_enough g pairs'" and ?cut = "gk_cutoff (ge_kept e)"
  note e = edge [unfolded edge_for_def]
  have parts: "?all = long_enough g pairs @ long_enough g new @ map ?move (long_enough g inner)"
    by (simp add: pairs'_def long_enough_move)
  define ic where "ic = (if new = [] then gm_intervals m else interval_add (gc_delta (hd new)) (gm_intervals m))"
  define k0 where "k0 = raise_cutoff ?cut (gm_kept m)"
  define k1 where "k1 = (if long_enough g new = [] then k0 else keeper_add (hd new) k0)"
  have m': "m' = m\<lparr>gm_intervals := interval_merge ic (ge_intervals e), gm_kept := fold keeper_add (map ?move (gk_items (ge_kept e))) k1\<rparr>"
  proof -
    have items: "fold (\<lambda>c. keeper_add (c\<lparr>gc_from := ref_at (gm_base m) (gc_from c), gc_to := stamped_from (gm_base m) (gc_to c)\<rparr>))
        (map (\<lambda>c. c\<lparr>gc_from := settle_ref (gm_lastStamp m) lb (gc_from c)\<rparr>) (gk_items (ge_kept e))) k =
        fold keeper_add (map ?move (gk_items (ge_kept e))) k" for k
      by (simp add: fold_map comp_def move_candidate_def)
    show ?thesis
    proof (cases "ge_first e")
      case None
      then have "new = []" using first by simp
      then show ?thesis using None
        by (simp add: m'_def gap_merge_add_def settle_edge_def items ic_def k0_def k1_def Let_def)
    next
      case (Some f)
      show ?thesis
      proof (cases "sr_ok (gm_lastStamp m)")
        case False
        then have "new = []" using first Some by simp
        then show ?thesis using Some False
          by (simp add: m'_def gap_merge_add_def settle_edge_def items ic_def k0_def k1_def Let_def)
      next
        case True
        then have n: "new = [edge_pair (gm_base m) (gm_lastStamp m) lb (gm_lastLine m) f]" using first Some by simp
        have ok: "lr_ok (settle_ref c lb r) = lr_ok r" for c r by (simp add: settle_ref_def)
        show ?thesis using Some True
          by (simp add: m'_def gap_merge_add_def settle_edge_def items ic_def k0_def k1_def Let_def n edge_pair_def ok)
      qed
    qed
  qed
  have new: "new = [] \<or> new = [hd new]" using first by (auto split: option.splits if_splits)
  have "counts_for (map gc_delta (pairs @ new)) ic"
    using new counts counts_for_add [OF counts, of "gc_delta (hd new)"] unfolding ic_def by (cases new) auto
  moreover have "counts_for (map gc_delta (map ?move inner)) (ge_intervals e)" using e by (simp add: comp_def)
  ultimately have c: "counts_for (map gc_delta pairs') (gm_intervals m')"
    using counts_for_merge [of "map gc_delta (pairs @ new)" ic] unfolding m' pairs'_def by simp
  have "justified (gm_limit g) ?cut (map ?move (long_enough g inner))" using e by (auto simp: keeps_def justified_move)
  then have just: "justified (gm_limit g) ?cut ?all"
    using justified_more [of _ _ _ "long_enough g pairs @ long_enough g new" "[]"] unfolding parts by simp
  have "keeps (long_enough g pairs) ?all (gm_kept m)"
    using kept justified_more [of "gm_limit g" _ "long_enough g pairs" "[]" "long_enough g new @ map ?move (long_enough g inner)"]
    unfolding parts by (simp add: keeps_def)
  then have k0: "keeps (long_enough g pairs) ?all k0" "gk_limit k0 = gm_limit g"
    using keeps_raise [of "long_enough g pairs" ?all "gm_kept m" ?cut] just kept(2) e unfolding k0_def by (simp_all add: keeps_def)
  have cut0: "?cut \<le> gk_cutoff k0" by (simp add: k0_def raise_cutoff_def dropAtOrBelowCutoff_def)
  have k1: "keeps (long_enough g (pairs @ new)) ?all k1 \<and> gk_limit k1 = gm_limit g \<and> ?cut \<le> gk_cutoff k1"
  proof (cases "long_enough g new = []")
    case True
    then show ?thesis using k0 cut0 by (simp add: k1_def)
  next
    case False
    then have n: "long_enough g new = [hd new]" using new by (cases new) (auto split: if_splits)
    have "keeps (long_enough g pairs @ [hd new]) ?all (keeper_add (hd new) k0)"
      by (rule keeps_add [OF k0(1)]) (simp add: parts n)
    moreover have "gk_cutoff k0 \<le> gk_cutoff (keeper_add (hd new) k0)"
      by (simp add: keeper_add_def compact_def dropAtOrBelowCutoff_def Let_def)
    ultimately show ?thesis using k0(2) cut0 False n by (simp add: k1_def)
  qed
  have items: "map ?move (gk_items (ge_kept e)) = filter (\<lambda>c. ?cut < gc_delta c) (map ?move (long_enough g inner))"
    using e by (simp add: keeps_def filter_map comp_def)
  have "keeps (long_enough g (pairs @ new) @ map ?move (long_enough g inner)) ?all (gm_kept m')"
    using adds_kept [of "long_enough g (pairs @ new)" ?all k1 "map ?move (long_enough g inner)" ?cut] k1
    unfolding m' items by (simp add: parts)
  moreover have "gk_limit (fold keeper_add cs k) = gk_limit k" for cs k by (induction cs arbitrary: k) simp_all
  ultimately show ?thesis using c k1 unfolding m' parts by simp
qed

end
