(* ===== verification/GapScan.thy ===== *)
theory GapScan
  imports GapRef
begin

text \<open>
  The time-gap measure over a whole file: the chunks in order give the silences of the text, however it is cut.
\<close>

section \<open>A chunk, and all chunks\<close>

lemma new_walk_for:
  assumes "merged_for g t m tru before pairs"
  shows "walk_for g t (gm_lastStamp m) (gm_base m) (gm_lastLine m) (new_gap_walk g (Some t)) tru before [] []"
  using assms
  by (auto simp: walk_for_def merged_for_def new_gap_walk_def new_gap_walker_def tracks_def no_stamp_def edge_for_def keeps_def
      justified_def new_keeper_def counts_for_Nil)

lemma chunk_merged:
  assumes inv: "merged_for g t m tru before pairs" and fresh: "\<forall>l \<in> set ls. \<not> stamped l"
    and after: "gap_after g tru (gm_base m) before ls = (tru', before')"
  defines "m' \<equiv> gap_merger_add g (Some t) (gap_chunk g (Some t) ls) m"
  shows "merged_for g t m' tru' before' (pairs @ gap_pairs g tru (gm_base m) before ls) \<and>
    gm_base m' = gm_base m + int (length ls)"
proof (cases "ls = []")
  case True
  then show ?thesis using inv after by (simp add: m'_def gap_merger_add_def gap_chunk_def gap_walk_finish_def new_gap_walk_def)
next
  case False
  note m = inv [unfolded merged_for_def]
  define w where "w = fold (gap_walk_line g) ls (new_gap_walk g (Some t))"
  let ?carry = "gm_lastStamp m" and ?base = "gm_base m" and ?lb = "ts_lookback t"
  have idx0: "gk_idx (new_gap_walk g (Some t)) = 0" by (simp add: new_gap_walk_def)
  from walk_all [OF new_walk_for [OF inv] fresh, of tru' before'] after idx0 obtain inner where
    idx: "gk_idx w = int (length ls)" and
    walk: "walk_for g t ?carry ?base (gm_lastLine m) w tru' before' (gap_pairs g tru ?base before ls) inner"
    unfolding w_def by auto
  note i = walk [unfolded walk_for_def]
  have pos: "0 < gk_idx w" using idx False by simp
  define e where "e = gw_edge (gk_walker w)"
  obtain new where new: "case ge_first e of
       None \<Rightarrow> new = [] \<and> inner = []
     | Some f \<Rightarrow> new = (if sr_ok ?carry then [edge_pair ?base ?carry ?lb (gm_lastLine m) f] else [])"
    and ps: "gap_pairs g tru ?base before ls = new @ map (move_candidate ?base ?carry ?lb) inner"
    using i unfolding e_def by (cases "ge_first (gw_edge (gk_walker w))") auto
  have edge: "edge_for g inner e" using i unfolding e_def by blast
  define m1 where "m1 = gap_merge_add g (settle_edge ?carry ?lb e) m"
  have res: "gap_chunk g (Some t) ls =
      \<lparr>gr_lines = gk_idx w, gr_edge = Some e, gr_lastLine = prev_ref g (gk_prev w) (gk_idx w - 1), gr_lastStamp = tt_last (gk_times w)\<rparr>"
    using i pos by (simp add: gap_chunk_def gap_walk_finish_def w_def e_def)
  have m': "m' = m1\<lparr>gm_lastLine := before', gm_base := ?base + gk_idx w, gm_lastStamp := tt_last tru'\<rparr>"
  proof -
    have "lr_ok (settle_ref ?carry ?lb (prev_ref g (gk_prev w) (gk_idx w - 1)))" by (simp add: settle_ref_def prev_ref_ok)
    moreover have "tt_last tru' = (if sr_ok (tt_last (gk_times w)) then tt_last (gk_times w) else ?carry)"
      using i by (simp add: tracks_def)
    ultimately show ?thesis using i pos unfolding m'_def res
      by (simp add: gap_merger_add_def settle_result_def m1_def)
  qed
  have merged: "counts_for (map gc_delta (pairs @ new @ map (move_candidate ?base ?carry ?lb) inner)) (gm_intervals m1) \<and>
    keeps (long_enough g (pairs @ new @ map (move_candidate ?base ?carry ?lb) inner))
      (long_enough g (pairs @ new @ map (move_candidate ?base ?carry ?lb) inner)) (gm_kept m1) \<and> gk_limit (gm_kept m1) = gm_limit g"
    unfolding m1_def by (rule merge_edge [OF _ _ _ edge new]) (use m in blast)+
  have tru': "tt_src tru' = Some t" "tt_settled tru'" using i by (auto simp: tracks_def)
  show ?thesis using merged tru' idx unfolding merged_for_def ps m' by simp
qed

lemma chunks_merged:
  assumes "merged_for g t m tru before pairs" and "\<forall>l \<in> set (concat chunks). \<not> stamped l"
  shows "\<exists>tru' before'. merged_for g t (fold (\<lambda>ls. gap_merger_add g (Some t) (gap_chunk g (Some t) ls)) chunks m) tru' before'
    (pairs @ gap_pairs g tru (gm_base m) before (concat chunks))"
  using assms
proof (induction chunks arbitrary: m tru before pairs)
  case (Cons ls chunks)
  obtain tru1 before1 where after: "gap_after g tru (gm_base m) before ls = (tru1, before1)" by force
  let ?m = "gap_merger_add g (Some t) (gap_chunk g (Some t) ls) m"
  have step: "merged_for g t ?m tru1 before1 (pairs @ gap_pairs g tru (gm_base m) before ls)" "gm_base ?m = gm_base m + int (length ls)"
    using chunk_merged [OF Cons.prems(1) _ after] Cons.prems(2) by auto
  have "\<forall>l \<in> set (concat chunks). \<not> stamped l" using Cons.prems(2) by simp
  from Cons.IH [OF step(1) this] show ?case by (simp add: gap_pairs_append after step(2))
qed auto

section \<open>The findings\<close>

lemma deltas_bounded:
  assumes "tt_src tt = Some t" and "\<And>v ms off. ts_parse t v = Some (ms, off) \<Longrightarrow> \<bar>ms\<bar> < 2 ^ 62"
    and "sr_ok (tt_last tt) \<Longrightarrow> \<bar>sr_ms (tt_last tt)\<bar> < 2 ^ 62" and "\<forall>l \<in> set ls. \<not> stamped l"
  shows "\<forall>c \<in> set (gap_pairs g tt idx before ls). gc_delta c < 10 ^ 19"
  using assms(1,3,4)
proof (induction ls arbitrary: tt idx before)
  case (Cons l0 ls)
  show ?case
  proof (cases "stamp_of t l0")
    case None
    then have "observe tt l0 = (l0, tt)" using Cons.prems(1) by (simp add: observe_def)
    then show ?thesis using Cons by simp
  next
    case (Some p)
    obtain ms off where p: "p = (ms, off)" by force
    have ms: "\<bar>ms\<bar> < 2 ^ 62" using Some p assms(2) by (auto simp: stamp_of_def)
    let ?tt = "tt\<lparr>tt_last := \<lparr>sr_ms = ms, sr_start = lstart l0, sr_off = off, sr_ok = True\<rparr>\<rparr>"
    have o: "observe tt l0 = (l0\<lparr>stamped := True, stampMs := ms, stampOff := off\<rparr>, ?tt)"
      using Cons.prems(1) Some p by (simp add: observe_def)
    have "\<forall>c \<in> set (gap_pairs g ?tt i b ls). gc_delta c < 10 ^ 19" for i b
      by (rule Cons.IH) (use Cons.prems ms in simp_all)
    moreover have "ms - sr_ms (tt_last tt) < 10 ^ 19" if "sr_ok (tt_last tt)"
      using ms Cons.prems(2) [OF that] by simp
    ultimately show ?thesis using o by auto
  qed
qed simp

lemma fold_unless: "fold (\<lambda>c s. if P c then s else f c s) cs s = fold f (filter (\<lambda>c. \<not> P c) cs) s"
  by (induction cs arbitrary: s) simp_all

lemma gap_finish_findings:
  assumes inv: "counts_for (map gc_delta pairs) (gm_intervals m)" "keeps (long_enough g pairs) (long_enough g pairs) (gm_kept m)"
      "gk_limit (gm_kept m) = gm_limit g"
    and "0 \<le> gm_minGap g" and "\<forall>c \<in> set pairs. gc_delta c < 10 ^ 19"
  shows "gap_finish g ops m s = fold (\<lambda>f s. op_add ops s f) (gap_findings g pairs) s"
proof -
  have items: "gk_items (compact (gm_kept m)) = longest_gaps (gm_limit g) (long_enough g pairs)"
    using keeps_final [OF inv(2)] inv(3) assms(4) by auto
  have "interval_median (gm_intervals m) = typical_interval (map gc_delta pairs)"
  proof (cases "pairs = []")
    case True
    then show ?thesis using inv(1) by (simp add: typical_interval_def interval_median_def counts_for_def)
  next
    case False
    then show ?thesis using interval_median_ok [OF inv(1)] assms(5) by (simp add: typical_interval_def)
  qed
  then show ?thesis by (simp add: gap_finish_def Let_def fold_unless items gap_findings_def fold_map comp_def)
qed

lemma no_times_no_gaps: "\<forall>l \<in> set ls. \<not> stamped l \<Longrightarrow> tt_src tt = None \<Longrightarrow> gap_pairs g tt idx before ls = []"
  by (induction ls arbitrary: tt idx before) (simp_all add: observe_def)

lemma no_times_chunk: "tt_src (gk_times w) = None \<Longrightarrow> tt_src (gk_times (fold (gap_walk_line g) ls w)) = None"
  by (induction ls arbitrary: w) (simp_all add: observe_def gap_walk_line_def)

lemma no_times_merged:
  "gm_intervals (fold (\<lambda>ls. gap_merger_add g None (gap_chunk g None ls)) chunks m) = gm_intervals m \<and>
   gm_kept (fold (\<lambda>ls. gap_merger_add g None (gap_chunk g None ls)) chunks m) = gm_kept m"
proof (induction chunks arbitrary: m)
  case (Cons ls chunks)
  have "gr_edge (gap_chunk g None ls) = None"
    using no_times_chunk [of "new_gap_walk g None" g ls] by (simp add: gap_chunk_def gap_walk_finish_def new_gap_walk_def)
  then have "gm_intervals (gap_merger_add g None (gap_chunk g None ls) m) = gm_intervals m"
      "gm_kept (gap_merger_add g None (gap_chunk g None ls) m) = gm_kept m"
    by (simp_all add: gap_merger_add_def settle_result_def Let_def)
  then show ?case using Cons.IH by simp
qed simp

lemma gap_scan_text:
  assumes "0 \<le> gm_minGap g" and "\<forall>l \<in> set (concat chunks). \<not> stamped l"
    and "\<And>t v ms off. src = Some t \<Longrightarrow> ts_parse t v = Some (ms, off) \<Longrightarrow> \<bar>ms\<bar> < 2 ^ 62"
  shows "gap_scan g src ops chunks s = fold (\<lambda>f s. op_add ops s f) (gap_findings g (text_gaps g src (concat chunks))) s"
proof (cases src)
  case None
  have "counts_for [] (gm_intervals (new_gap_merger g))" "keeps [] [] (gm_kept (new_gap_merger g))"
      "gk_limit (gm_kept (new_gap_merger g)) = gm_limit g"
    by (simp_all add: new_gap_merger_def counts_for_Nil keeps_def new_keeper_def justified_def)
  then have "gap_scan g src ops chunks s = fold (\<lambda>f s. op_add ops s f) (gap_findings g []) s"
    unfolding gap_scan_def None by (intro gap_finish_findings) (use assms(1) no_times_merged in simp_all)
  then show ?thesis using no_times_no_gaps assms(2) None by (simp add: text_gaps_def)
next
  case (Some t)
  let ?tt = "\<lparr>tt_src = Some t, tt_last = no_stamp, tt_settled = True\<rparr>"
  have "merged_for g t (new_gap_merger g) ?tt no_line_ref []"
    by (simp add: merged_for_def new_gap_merger_def counts_for_Nil keeps_def new_keeper_def justified_def)
  from chunks_merged [OF this assms(2)] obtain tru before where m:
    "merged_for g t (fold (\<lambda>ls. gap_merger_add g (Some t) (gap_chunk g (Some t) ls)) chunks (new_gap_merger g)) tru before
      (text_gaps g src (concat chunks))"
    by (auto simp: text_gaps_def Some new_gap_merger_def)
  have "\<forall>c \<in> set (text_gaps g src (concat chunks)). gc_delta c < 10 ^ 19"
    unfolding text_gaps_def Some by (rule deltas_bounded) (use assms Some in \<open>auto simp: no_stamp_def\<close>)
  with m [unfolded merged_for_def] assms(1) show ?thesis
    unfolding gap_scan_def Some by (intro gap_finish_findings) blast+
qed

end
