(* ===== verification/GapProps.thy ===== *)
theory GapProps
  imports GapScan
begin

text \<open>What the time-gap measure reports, and how close its median is.\<close>

text \<open>
  Claim C40. The time-gap measure does not depend on how the file is cut: whatever the chunks, empty ones and ones without a
  stamped line among them, walking each on its own, settling its times against the last stamp before it and merging
  in order adds to the sink exactly the findings of the whole text. Those are the pairs of consecutive stamped lines
  at least the shortest silence apart, the longest of them when there are more than the limit (dropping every one as
  short as the longest left out), and of those the ones not below the factor times the median interval as its
  bucket gives it. Timestamps are taken to be within 2 to the 62 milliseconds, so that a difference does not wrap.
\<close>

theorem time_gaps_of_text:
  assumes "0 \<le> gm_minGap g" and "\<forall>l \<in> set (concat chunks). \<not> stamped l"
    and "\<And>t v ms off. src = Some t \<Longrightarrow> ts_parse t v = Some (ms, off) \<Longrightarrow> \<bar>ms\<bar> < 2 ^ 62"
  shows "gap_scan g src ops chunks s = fold (\<lambda>f s. op_add ops s f) (gap_findings g (text_gaps g src (concat chunks))) s"
  by (rule gap_scan_text) (use assms in auto)

definition gap_text_line :: "byte \<Rightarrow> int \<Rightarrow> line" where
  "gap_text_line b start =
     \<lparr>lview = [b], llength = 1, lstart = start, lnext = start + 2, lshift = 0, stamped = False, stampMs = 0, stampOff = 0\<rparr>"

definition gap_text_source :: time_source where
  "gap_text_source = \<lparr>ts_parse = \<lambda>v. case v of [b] \<Rightarrow> if b < 100 then Some (1000 * uint b, 0) else None | _ \<Rightarrow> None, ts_lookback = 100\<rparr>"

definition gap_text_measure :: gap_measure where
  "gap_text_measure = \<lparr>gm_minGap = 3000, gm_below = \<lambda>d m. d < 2 * m, gm_limit = 4, gm_build = \<lambda>v. (v, False), gm_may = True\<rparr>"

lemma gap_text_parse: "ts_parse gap_text_source v = Some (ms, off) \<Longrightarrow> \<bar>ms\<bar> < 2 ^ 62"
proof -
  assume p: "ts_parse gap_text_source v = Some (ms, off)"
  then obtain b :: byte where "ms = 1000 * uint b"
    by (auto simp: gap_text_source_def split: list.splits if_splits)
  moreover have "uint b < 2 ^ 8" using uint_bounded [of b] by simp
  moreover have "0 \<le> uint b" by simp
  ultimately show ?thesis by simp
qed

text \<open>Stamps at 1, 2 and 9 seconds, a line without a stamp before the last: the silence of 7 seconds runs from that line.\<close>

lemma time_gaps_of_text_witness:
  "gap_scan gap_text_measure (Some gap_text_source) tape_ops
     [[gap_text_line 1 0, gap_text_line 2 2], [], [gap_text_line 200 4], [gap_text_line 9 6]] [] =
   [\<lparr>rf_startIdx = 2, rf_endIdx = 3, rf_startOff = 4, rf_endOff = 8, rf_firstLen = 1, rf_excerpt = [200], rf_hasEx = True,
     rf_vs = -1, rf_ve = -1, rf_masked = False, rf_tm = \<lparr>tr_ms = 2000, tr_off = 0, tr_state = TimeKnown\<rparr>\<rparr>]"
proof -
  let ?chunks = "[[gap_text_line 1 0, gap_text_line 2 2], [], [gap_text_line 200 4], [gap_text_line 9 6]]"
  have pairs: "text_gaps gap_text_measure (Some gap_text_source) (concat ?chunks) =
     [\<lparr>gc_delta = 1000,
       gc_from = \<lparr>lr_idx = 0, lr_start = 0, lr_length = 1, lr_excerpt = [1], lr_hasEx = True, lr_masked = False,
                  lr_tm = \<lparr>tr_ms = 1000, tr_off = 0, tr_state = TimeKnown\<rparr>, lr_ok = True\<rparr>,
       gc_to = \<lparr>sl_idx = 1, sl_start = 2, sl_next = 4, sl_length = 1, sl_ms = 2000, sl_off = 0\<rparr>\<rparr>,
      \<lparr>gc_delta = 7000,
       gc_from = \<lparr>lr_idx = 2, lr_start = 4, lr_length = 1, lr_excerpt = [200], lr_hasEx = True, lr_masked = False,
                  lr_tm = \<lparr>tr_ms = 2000, tr_off = 0, tr_state = TimeKnown\<rparr>, lr_ok = True\<rparr>,
       gc_to = \<lparr>sl_idx = 3, sl_start = 6, sl_next = 8, sl_length = 1, sl_ms = 9000, sl_off = 0\<rparr>\<rparr>]"
    by (simp add: text_gaps_def gap_text_line_def gap_text_source_def observe_def stamp_of_def no_stamp_def stamped_at_def
        prev_ref_def prev_of_def gap_text_measure_def no_line_ref_def time_at_def within_ref_def)
  have bucket: "intervalBucket 1000 = 1000" "intervalValue 1000 = 1000" by code_simp+
  have "gap_scan gap_text_measure (Some gap_text_source) tape_ops ?chunks [] =
      fold (\<lambda>f s. op_add tape_ops s f) (gap_findings gap_text_measure (text_gaps gap_text_measure (Some gap_text_source) (concat ?chunks))) []"
    by (rule time_gaps_of_text) (auto simp: gap_text_measure_def gap_text_line_def dest: gap_text_parse)
  then show ?thesis unfolding pairs
    by (simp add: gap_findings_def gap_text_measure_def longest_gaps_def typical_interval_def median_interval_def bucket tape_ops_def
        gap_finding_def)
qed

text \<open>
  The bucket a silence is counted in gives it back exactly below one second and otherwise within one percent
  from below, and a longer silence never lands in a lower bucket, up to ten to the nineteen milliseconds.
\<close>

lemma interval_buckets_precise:
  assumes "0 \<le> v" and "v \<le> w" and "w < 10 ^ 19"
  shows "intervalValue (intervalBucket v) \<le> v \<and> 100 * (v - intervalValue (intervalBucket v)) \<le> v \<and>
    (v < 1000 \<longrightarrow> intervalValue (intervalBucket v) = v) \<and> intervalBucket v \<le> intervalBucket w"
  using bucket_value [of v] bucket_mono [OF assms] assms by simp

lemma interval_buckets_precise_witness:
  "intervalValue (intervalBucket 61234) = 61200 \<and> 100 * (61234 - intervalValue (intervalBucket 61234)) \<le> 61234 \<and>
    intervalBucket 61234 \<le> intervalBucket 70000"
proof -
  have "intervalValue (intervalBucket 61234) = 61200" by code_simp
  then show ?thesis using interval_buckets_precise [of 61234 70000] by simp
qed

end
