(* ===== verification/PathNames.thy ===== *)
theory PathNames
  imports Prelude "HOL-Library.Sublist"
begin

text \<open>
  Paths as text: what \<^verbatim>\<open>internal/paths\<close> uses of \<^verbatim>\<open>strings\<close> and \<^verbatim>\<open>path/filepath\<close> on Unix, written out from their documentation,
  and the facts about clean paths that the sandbox rests on.
\<close>

section \<open>Splitting and joining\<close>

type_synonym path = string

abbreviation slash :: char where "slash \<equiv> CHR ''/''"
abbreviation dot :: char where "dot \<equiv> CHR ''.''"

text \<open>\<^verbatim>\<open>strings.Split(s, "/")\<close> and \<^verbatim>\<open>strings.Join(names, "/")\<close>.\<close>

fun split_path :: "path \<Rightarrow> string list" where
  "split_path [] = [[]]"
| "split_path (c # s) =
     (if c = slash then [] # split_path s else (case split_path s of [] \<Rightarrow> [[c]] | x # xs \<Rightarrow> (c # x) # xs))"

fun join_path :: "string list \<Rightarrow> path" where
  "join_path [] = []"
| "join_path [x] = x"
| "join_path (x # xs) = x @ slash # join_path xs"

lemma split_path_nonempty [simp]: "split_path s \<noteq> []"
  by (induction s) (auto split: list.splits)

lemma split_path_name: "slash \<notin> set x \<Longrightarrow> split_path x = [x]"
  by (induction x) auto

lemma split_path_slash: "slash \<notin> set x \<Longrightarrow> split_path (x @ slash # s) = x # split_path s"
  by (induction x) auto

lemma split_path_append: "split_path (s @ slash # t) = split_path s @ split_path t"
proof (induction s)
  case (Cons c s)
  then show ?case using split_path_nonempty [of s] by (auto split: list.splits)
qed simp

lemma join_path_Cons: "xs \<noteq> [] \<Longrightarrow> join_path (x # xs) = x @ slash # join_path xs"
  by (cases xs) auto

lemma join_split [simp]: "join_path (split_path s) = s"
proof (induction s)
  case (Cons c s)
  then show ?case using split_path_nonempty [of s]
    by (cases "split_path s") (auto simp: join_path_Cons, metis join_path.simps(2) join_path_Cons append_Cons)
qed simp

lemma split_join: "xs \<noteq> [] \<Longrightarrow> \<forall>x \<in> set xs. slash \<notin> set x \<Longrightarrow> split_path (join_path xs) = xs"
proof (induction xs rule: join_path.induct)
  case (3 x y ys)
  then show ?case by (simp add: split_path_slash)
qed (simp_all add: split_path_name)

lemma split_path_no_slash: "x \<in> set (split_path s) \<Longrightarrow> slash \<notin> set x"
proof (induction s arbitrary: x)
  case (Cons c s)
  then show ?case using split_path_nonempty [of s] by (auto split: if_splits list.splits)
qed simp

section \<open>Clean paths\<close>

text \<open>\<^verbatim>\<open>filepath.Clean\<close>: the elements kept, the last one first.\<close>

fun clean_elements :: "bool \<Rightarrow> string list \<Rightarrow> string list \<Rightarrow> string list" where
  "clean_elements rooted kept [] = rev kept"
| "clean_elements rooted kept (x # xs) =
     (if x = [] \<or> x = [dot] then clean_elements rooted kept xs
      else if x = [dot, dot]
      then (case kept of
              [] \<Rightarrow> clean_elements rooted (if rooted then [] else [x]) xs
            | y # ys \<Rightarrow> clean_elements rooted (if y = [dot, dot] then x # kept else ys) xs)
      else clean_elements rooted (x # kept) xs)"

definition is_abs :: "path \<Rightarrow> bool" where
  "is_abs p \<longleftrightarrow> p \<noteq> [] \<and> hd p = slash"

definition elements :: "path \<Rightarrow> string list" where
  "elements p = clean_elements (is_abs p) [] (split_path p)"

definition clean :: "path \<Rightarrow> path" where
  "clean p =
     (if is_abs p then slash # join_path (elements p)
      else if elements p = [] then [dot] else join_path (elements p))"

text \<open>\<^verbatim>\<open>filepath.Join\<close> of two elements, and \<^verbatim>\<open>filepath.Rel\<close>.\<close>

definition join2 :: "path \<Rightarrow> path \<Rightarrow> path" where
  "join2 a b = (if a \<noteq> [] then clean (a @ slash # b) else if b \<noteq> [] then clean b else [])"

fun strip_common :: "string list \<Rightarrow> string list \<Rightarrow> string list \<times> string list" where
  "strip_common (x # xs) (y # ys) = (if x = y then strip_common xs ys else (x # xs, y # ys))"
| "strip_common xs ys = (xs, ys)"

definition rel :: "path \<Rightarrow> path \<Rightarrow> path option" where
  "rel base target =
     (if clean base = clean target then Some [dot]
      else if is_abs base \<noteq> is_abs target then None
      else case strip_common (elements base) (elements target) of (up, down) \<Rightarrow>
        if up \<noteq> [] \<and> hd up = [dot, dot] then None
        else Some (join_path (map (\<lambda>_. [dot, dot]) up @ down)))"

text \<open>\<^verbatim>\<open>filepath.Dir\<close> and \<^verbatim>\<open>filepath.Base\<close>.\<close>

definition dir_of :: "path \<Rightarrow> path" where
  "dir_of p = clean (rev (dropWhile (\<lambda>c. c \<noteq> slash) (rev p)))"

definition base_of :: "path \<Rightarrow> string" where
  "base_of p =
     (if p = [] then [dot]
      else let q = rev (dropWhile (\<lambda>c. c = slash) (rev p))
           in if q = [] then [slash] else rev (takeWhile (\<lambda>c. c \<noteq> slash) (rev q)))"

section \<open>Names and clean absolute paths\<close>

definition is_name :: "string \<Rightarrow> bool" where
  "is_name x \<longleftrightarrow> x \<noteq> [] \<and> x \<noteq> [dot] \<and> x \<noteq> [dot, dot] \<and> slash \<notin> set x"

definition is_clean :: "path \<Rightarrow> bool" where
  "is_clean p \<longleftrightarrow> is_abs p \<and> (\<exists>xs. list_all is_name xs \<and> p = slash # join_path xs)"

lemma clean_names: "list_all is_name xs \<Longrightarrow> clean_elements r kept xs = rev kept @ xs"
  by (induction xs arbitrary: kept) (auto simp: is_name_def)

lemma is_clean_abs: "is_clean p \<Longrightarrow> is_abs p"
  by (simp add: is_clean_def)

lemma elements_clean:
  assumes "list_all is_name xs"
  shows "elements (slash # join_path xs) = xs"
proof (cases "xs = []")
  case True
  then show ?thesis by (simp add: elements_def)
next
  case False
  then have "split_path (join_path xs) = xs" using assms by (intro split_join) (auto simp: list_all_iff is_name_def)
  then show ?thesis using clean_names [OF assms] by (simp add: elements_def)
qed

lemma is_name_dots: "\<not> is_name [dot, dot]"
  by (simp add: is_name_def)

lemma clean_rooted_names:
  "\<forall>x \<in> set xs. slash \<notin> set x \<Longrightarrow> list_all is_name kept \<Longrightarrow> list_all is_name (clean_elements True kept xs)"
proof (induction xs arbitrary: kept)
  case (Cons x xs)
  consider "x = [] \<or> x = [dot]" | "x = [dot, dot]" | "is_name x"
    using Cons.prems(1) by (auto simp: is_name_def)
  then show ?case
  proof cases
    case 2
    then show ?thesis using Cons is_name_dots by (cases kept) auto
  next
    case 3
    then have "x \<noteq> []" "x \<noteq> [dot]" "x \<noteq> [dot, dot]" by (simp_all add: is_name_def)
    then show ?thesis using Cons 3 by simp
  qed (use Cons in auto)
qed simp

lemma elements_names: "is_abs p \<Longrightarrow> list_all is_name (elements p)"
  using clean_rooted_names [of "split_path p" "[]"] split_path_no_slash by (simp add: elements_def)

lemma clean_is_clean: "is_abs p \<Longrightarrow> is_clean (clean p)"
  using elements_names [of p] unfolding is_clean_def clean_def by (auto simp: is_abs_def)

lemma is_clean_iff: "is_clean p \<longleftrightarrow> is_abs p \<and> p = slash # join_path (elements p)"
proof
  assume "is_clean p"
  then obtain xs where xs: "list_all is_name xs" "p = slash # join_path xs" by (auto simp: is_clean_def)
  then show "is_abs p \<and> p = slash # join_path (elements p)" using elements_clean [OF xs(1)] by (simp add: is_abs_def)
next
  assume "is_abs p \<and> p = slash # join_path (elements p)"
  then show "is_clean p" using elements_names [of p] unfolding is_clean_def by blast
qed

lemma clean_same: "is_clean p \<Longrightarrow> clean p = p"
  by (simp add: is_clean_iff clean_def)

lemma clean_eq_iff: "is_clean p \<Longrightarrow> is_clean q \<Longrightarrow> p = q \<longleftrightarrow> elements p = elements q"
  by (auto simp: is_clean_iff)

text \<open>The path of names below a directory.\<close>

definition below :: "path \<Rightarrow> string list \<Rightarrow> path" where
  "below base names = base @ concat (map (\<lambda>n. slash # n) names)"

lemma below_simps [simp]: "below base [] = base" "below base (names @ [n]) = below base names @ slash # n"
  by (simp_all add: below_def)

lemma below_append: "below base (xs @ ys) = below (below base xs) ys"
  by (simp add: below_def)

lemma below_join: "names \<noteq> [] \<Longrightarrow> below base names = base @ slash # join_path names"
proof (induction names arbitrary: base)
  case (Cons n ns)
  then show ?case by (cases "ns = []") (simp_all add: below_def join_path_Cons)
qed simp

lemma elements_below:
  assumes "list_all is_name names" and "is_clean base" and "base \<noteq> [slash] \<or> names = []"
  shows "elements (below base names) = elements base @ names" and "is_clean (below base names)"
proof -
  obtain xs where xs: "list_all is_name xs" "base = slash # join_path xs" using assms(2) by (auto simp: is_clean_def)
  have b: "below base names = slash # join_path (xs @ names)"
  proof (cases "names = []")
    case False
    then have "xs \<noteq> []" using assms(3) xs(2) by auto
    then have "join_path (xs @ names) = join_path xs @ slash # join_path names"
      using False by (induction xs rule: join_path.induct) (simp_all add: join_path_Cons)
    then show ?thesis using False by (simp add: below_join xs(2))
  qed (simp add: xs(2))
  show "elements (below base names) = elements base @ names"
    using elements_clean [of "xs @ names"] elements_clean [OF xs(1)] assms(1) xs(1) unfolding b by (simp add: xs(2))
  show "is_clean (below base names)" using xs(1) assms(1) by (auto simp: is_clean_def b is_abs_def intro: exI [of _ "xs @ names"])
qed

lemma join2_below:
  assumes "is_clean p" and "is_name n" and "p \<noteq> [slash]"
  shows "join2 p n = below p [n]"
proof -
  have "is_clean (below p [n])" using elements_below(2) [of "[n]" p] assms by simp
  then have "clean (p @ slash # n) = p @ slash # n" using clean_same by (simp add: below_def)
  moreover have "p \<noteq> []" using assms(1) by (auto simp: is_clean_def is_abs_def)
  ultimately show ?thesis by (simp add: join2_def below_def)
qed

lemma elements_join2:
  assumes "is_clean p" and "is_name n"
  shows "elements (join2 p n) = elements p @ [n]" and "is_clean (join2 p n)"
proof -
  have "elements (join2 p n) = elements p @ [n] \<and> is_clean (join2 p n)"
  proof (cases "p = [slash]")
    case True
    have n: "split_path n = [n]" "n \<noteq> []" using assms(2) by (auto simp: is_name_def split_path_name)
    have "elements (slash # slash # n) = [n]"
      using assms(2) n by (simp add: elements_def is_abs_def is_name_def)
    then have "join2 p n = slash # join_path [n]" using True by (simp add: join2_def clean_def is_abs_def)
    moreover have "elements p = []" using elements_clean [of "[]"] True by simp
    ultimately show ?thesis
      using elements_clean [of "[n]"] assms(2) by (auto simp: is_clean_def is_abs_def intro: exI [of _ "[n]"])
  next
    case False
    then show ?thesis using join2_below [OF assms False] elements_below [of "[n]" p] assms by simp
  qed
  then show "elements (join2 p n) = elements p @ [n]" "is_clean (join2 p n)" by auto
qed

text \<open>What a clean path continues with behind a directory that holds it are names.\<close>

lemma clean_below:
  assumes "is_clean p" and "is_clean base" and "p = base @ slash # rest"
  shows "list_all is_name (split_path rest)" and "p = below base (split_path rest)" and "base \<noteq> [slash]"
proof -
  obtain xs where xs: "list_all is_name xs" "base = slash # join_path xs" using assms(2) by (auto simp: is_clean_def)
  obtain ys where ys: "list_all is_name ys" "p = slash # join_path ys" using assms(1) by (auto simp: is_clean_def)
  have e: "join_path ys = join_path xs @ slash # rest" using assms(3) xs ys by simp
  then have "ys \<noteq> []" by auto
  then have "split_path (join_path ys) = ys" using ys by (intro split_join) (auto simp: list_all_iff is_name_def)
  then have "ys = split_path (join_path xs) @ split_path rest" using e by (simp add: split_path_append)
  then show "list_all is_name (split_path rest)" using ys(1) by (auto simp: list_all_iff)
  show "p = below base (split_path rest)" by (simp add: below_join assms(3))
  show "base \<noteq> [slash]"
  proof
    assume "base = [slash]"
    then have "join_path xs = []" using xs(2) by simp
    then have "split_path (join_path xs) = [[]]" by simp
    then have "[] \<in> set ys" using \<open>ys = split_path (join_path xs) @ split_path rest\<close> by simp
    then show False using ys(1) by (auto simp: list_all_iff is_name_def)
  qed
qed

lemma strip_common_append: "strip_common xs (xs @ ys) = ([], ys)"
  by (induction xs) simp_all

lemma rel_below:
  assumes "list_all is_name names" and "is_clean base" and "names \<noteq> []" and "base \<noteq> [slash]"
  shows "rel base (below base names) = Some (join_path names)"
proof -
  have b: "elements (below base names) = elements base @ names" "is_clean (below base names)"
    using elements_below assms by auto
  then have "clean base \<noteq> clean (below base names)"
    using clean_eq_iff [OF assms(2) b(2)] clean_same assms(2,3) by simp
  then show ?thesis using b assms(2) by (simp add: rel_def strip_common_append is_clean_abs)
qed

lemma rel_same: "rel p p = Some [dot]"
  by (simp add: rel_def)

end
