(* ===== verification/Sandbox.thy ===== *)
theory Sandbox
  imports PathNames
begin

text \<open>
  The sandbox of search roots, \<^verbatim>\<open>internal/paths/security.go\<close> and \<^verbatim>\<open>hidden.go\<close>: which paths are served.
\<close>

section \<open>The operating system\<close>

text \<open>
  What each call to the operating system answers, by the moment it is made. No answer is tied to another one, so that
  other processes may change the file system in any way between two calls. A file's identity is its device and inode,
  one number here, with its type.
\<close>

datatype os_error = Permission | NotExist | OsOther

datatype file_type = Regular | Directory | Symlink | OtherFile

record file_info =
  fi_ino :: nat
  fi_type :: file_type

type_synonym handle = nat

record os =
  os_getwd :: "nat \<Rightarrow> os_error + path"
  os_evalSymlinks :: "path \<Rightarrow> nat \<Rightarrow> os_error + path"
  os_stat :: "path \<Rightarrow> nat \<Rightarrow> os_error + file_info"
  os_lstat :: "path \<Rightarrow> nat \<Rightarrow> os_error + file_info"
  os_open :: "path \<Rightarrow> nat \<Rightarrow> os_error + handle"
  os_openRoot :: "path \<Rightarrow> nat \<Rightarrow> os_error + handle"
  os_fstat :: "handle \<Rightarrow> nat \<Rightarrow> os_error + file_info"
  os_lstatAt :: "handle \<Rightarrow> string \<Rightarrow> nat \<Rightarrow> os_error + file_info"
  os_openAt :: "handle \<Rightarrow> string \<Rightarrow> nat \<Rightarrow> os_error + handle"
  os_readNames :: "handle \<Rightarrow> nat \<Rightarrow> os_error + string list"

datatype path_error =
    OsFailed os_error
  | ErrPathOutsideRoots path "path list"
  | ErrHiddenPath path string
  | ErrNoSearchRootsConfigured
  | ErrFileChanged path
  | ErrNotRegularFile path
  | NoCheckedFile
  | EmptyRoot
  | RootNotDirectory path

text \<open>A computation that makes calls: its result, and the moment it ends.\<close>

type_synonym 'a call = "nat \<Rightarrow> (path_error + 'a) \<times> nat"

definition ask :: "(nat \<Rightarrow> os_error + 'a) \<Rightarrow> 'a call" where
  "ask q t = (case q t of Inl e \<Rightarrow> Inl (OsFailed e) | Inr a \<Rightarrow> Inr a, t + 1)"

definition give :: "'a \<Rightarrow> 'a call" where
  "give a t = (Inr a, t)"

definition fail :: "path_error \<Rightarrow> 'a call" where
  "fail e t = (Inl e, t)"

definition and_then :: "'a call \<Rightarrow> ('a \<Rightarrow> 'b call) \<Rightarrow> 'b call" where
  "and_then c k t = (case c t of (Inl e, t') \<Rightarrow> (Inl e, t') | (Inr a, t') \<Rightarrow> k a t')"

named_theorems call_elims "what a successful call has done"

lemma ask_InrE [call_elims]: "ask q t = (Inr a, t') \<Longrightarrow> (q t = Inr a \<Longrightarrow> t' = t + 1 \<Longrightarrow> P) \<Longrightarrow> P"
  by (auto simp: ask_def split: sum.splits)

lemma give_InrE [call_elims]: "give b t = (Inr a, t') \<Longrightarrow> (b = a \<Longrightarrow> t' = t \<Longrightarrow> P) \<Longrightarrow> P"
  by (auto simp: give_def)

lemma fail_InrE [call_elims]: "fail e t = (Inr a, t') \<Longrightarrow> P"
  by (simp add: fail_def)

lemma and_then_InrE [call_elims]:
  "and_then c k t = (Inr b, t') \<Longrightarrow> (\<And>a s. c t = (Inr a, s) \<Longrightarrow> k a s = (Inr b, t') \<Longrightarrow> P) \<Longrightarrow> P"
  by (auto simp: and_then_def split: prod.splits sum.splits)

text \<open>\<^verbatim>\<open>filepath.Abs\<close>.\<close>

definition abs_path :: "os \<Rightarrow> path \<Rightarrow> path call" where
  "abs_path os p = (if is_abs p then give (clean p) else and_then (ask (os_getwd os)) (\<lambda>wd. give (join2 wd p)))"

section \<open>The settings\<close>

text \<open>The search roots and the switch for hidden entries, both set at startup.\<close>

record sandbox =
  sb_roots :: "path list"
  sb_hidden :: bool

text \<open>\<^verbatim>\<open>SetSearchRoots\<close>: the roots to store, or the error.\<close>

fun setSearchRoots_from :: "os \<Rightarrow> path list \<Rightarrow> path list \<Rightarrow> path list call" where
  "setSearchRoots_from os resolved [] = give resolved"
| "setSearchRoots_from os resolved (r # rs) =
     (if r = [] then fail EmptyRoot
      else and_then (abs_path os r) (\<lambda>ab.
           and_then (ask (os_stat os ab)) (\<lambda>info.
           if fi_type info \<noteq> Directory then fail (RootNotDirectory r)
           else (\<lambda>t. case ask (os_evalSymlinks os ab) t of
                  (res, t') \<Rightarrow>
                    let canon = (case res of Inl _ \<Rightarrow> ab | Inr c \<Rightarrow> c)
                    in setSearchRoots_from os (if canon \<in> set resolved then resolved else resolved @ [canon]) rs t'))))"

definition setSearchRoots :: "os \<Rightarrow> path list \<Rightarrow> path list call" where
  "setSearchRoots os roots = setSearchRoots_from os [] roots"

section \<open>Hidden names\<close>

definition isHiddenName :: "string \<Rightarrow> bool" where
  "isHiddenName name = (if name = [] \<or> name = [dot] \<or> name = [dot, dot] then False else hd name = dot)"

definition hiddenComponentBelow :: "path \<Rightarrow> path \<Rightarrow> string" where
  "hiddenComponentBelow r canonical =
     (case rel r canonical of
        None \<Rightarrow> []
      | Some r \<Rightarrow> if r = [dot] then []
                  else (case find isHiddenName (split_path r) of None \<Rightarrow> [] | Some part \<Rightarrow> part))"

definition skipEntry :: "sandbox \<Rightarrow> string \<Rightarrow> bool" where
  "skipEntry sb name \<longleftrightarrow> \<not> sb_hidden sb \<and> isHiddenName name"

section \<open>The check\<close>

definition holds :: "path \<Rightarrow> path \<Rightarrow> bool" where
  "holds canonical r \<longleftrightarrow> canonical = r \<or> prefix (r @ [slash]) canonical"

fun nearest_from :: "path \<Rightarrow> path option \<Rightarrow> path list \<Rightarrow> path option" where
  "nearest_from canonical nearest [] = nearest"
| "nearest_from canonical nearest (r # rs) =
     nearest_from canonical
       (if holds canonical r \<and> (case nearest of None \<Rightarrow> True | Some n \<Rightarrow> length r > length n) then Some r else nearest) rs"

definition nearestRoot :: "path \<Rightarrow> path list \<Rightarrow> path option" where
  "nearestRoot canonical roots = nearest_from canonical None roots"

definition checkCanonical :: "sandbox \<Rightarrow> path \<Rightarrow> path \<Rightarrow> path list \<Rightarrow> path_error option" where
  "checkCanonical sb p canonical roots =
     (case nearestRoot canonical roots of
        None \<Rightarrow> Some (ErrPathOutsideRoots p roots)
      | Some r \<Rightarrow>
          if \<not> sb_hidden sb
          then (let component = hiddenComponentBelow r canonical
                in if component \<noteq> [] then Some (ErrHiddenPath p component) else None)
          else None)"

text \<open>
  \<^verbatim>\<open>resolveExistingAncestor\<close>: the loop goes up one directory in each round, at most once for each element of the path.
  \<open>passed\<close> holds the elements passed, the highest first.
\<close>

fun ancestor_from :: "nat \<Rightarrow> os \<Rightarrow> path \<Rightarrow> path \<Rightarrow> string list \<Rightarrow> path call" where
  "ancestor_from n os ab current passed t =
     (case ask (os_lstat os current) t of
        (Inr _, t1) \<Rightarrow> and_then (ask (os_evalSymlinks os current)) (\<lambda>canon. give (foldl join2 canon passed)) t1
      | (Inl e, t1) \<Rightarrow>
          if e \<noteq> OsFailed NotExist then (Inl e, t1)
          else if dir_of current = current then (Inr ab, t1)
          else case n of
                 0 \<Rightarrow> (Inr ab, t1)
               | Suc m \<Rightarrow> ancestor_from m os ab (dir_of current) (base_of current # passed) t1)"

definition resolveExistingAncestor :: "os \<Rightarrow> path \<Rightarrow> path call" where
  "resolveExistingAncestor os ab = ancestor_from (length (elements ab)) os ab ab []"

definition validatePathWithinRoots :: "os \<Rightarrow> sandbox \<Rightarrow> path \<Rightarrow> path call" where
  "validatePathWithinRoots os sb p =
     (if sb_roots sb = [] then fail ErrNoSearchRootsConfigured
      else and_then (abs_path os p) (\<lambda>ab.
           and_then (resolveExistingAncestor os ab) (\<lambda>canonical.
           case checkCanonical sb p canonical (sb_roots sb) of
             Some e \<Rightarrow> fail e
           | None \<Rightarrow> give ab)))"

definition isPathWithinRoots :: "os \<Rightarrow> sandbox \<Rightarrow> path \<Rightarrow> nat \<Rightarrow> bool" where
  "isPathWithinRoots os sb p t = (case fst (validatePathWithinRoots os sb p t) of Inl _ \<Rightarrow> False | Inr _ \<Rightarrow> True)"

section \<open>What is served\<close>

text \<open>
  A place lies in a directory when its names are the directory's, followed by more; everything lies
  in \<open>/\<close>. A place is served when it lies in some root and, without \<^verbatim>\<open>--hidden\<close>, no name below that
  root is hidden. This is what \<^verbatim>\<open>docs/cli/serve.md\<close> promises, a root \<open>/\<close> included, which the code's
  comparison of paths does not: the places it finds below a root are \<open>held_below\<close>.
\<close>

definition lies_in :: "path \<Rightarrow> path \<Rightarrow> string list \<Rightarrow> bool" where
  "lies_in r c names \<longleftrightarrow> is_clean c \<and> list_all is_name names \<and> elements c = elements r @ names"

definition served :: "sandbox \<Rightarrow> path \<Rightarrow> bool" where
  "served sb c \<longleftrightarrow> (\<exists>r \<in> set (sb_roots sb). \<exists>names. lies_in r c names \<and>
     (sb_hidden sb \<or> list_all (\<lambda>n. \<not> isHiddenName n) names))"

definition held_below :: "sandbox \<Rightarrow> path \<Rightarrow> bool" where
  "held_below sb c \<longleftrightarrow> (\<exists>r \<in> set (sb_roots sb). \<exists>names. c = below r names \<and> list_all is_name names \<and>
     (sb_hidden sb \<or> list_all (\<lambda>n. \<not> isHiddenName n) names))"

definition clean_roots :: "path list \<Rightarrow> bool" where
  "clean_roots roots \<longleftrightarrow> list_all is_clean roots"

lemma below_lies_in:
  assumes "is_clean c" and "is_clean r" and "c = below r names" and "list_all is_name names"
  shows "lies_in r c names"
proof -
  have "r \<noteq> [slash] \<or> names = []" using clean_below(3) [OF assms(1,2)] below_join assms(3) by blast
  then show ?thesis using elements_below(1) [OF assms(4,2)] assms by (simp add: lies_in_def)
qed

lemma lies_in_below:
  assumes "is_clean c" and "is_clean r" and "r \<noteq> [slash]"
  shows "lies_in r c names \<longleftrightarrow> c = below r names \<and> list_all is_name names"
proof
  assume l: "lies_in r c names"
  then have n: "list_all is_name names" by (simp add: lies_in_def)
  then show "c = below r names \<and> list_all is_name names"
    using l elements_below [OF n assms(2)] assms clean_eq_iff [OF assms(1), of "below r names"] by (simp add: lies_in_def)
qed (use below_lies_in [OF assms(1,2)] in blast)

lemma held_below_served:
  assumes "is_clean c" and "clean_roots (sb_roots sb)"
  shows "held_below sb c \<Longrightarrow> served sb c" and "[slash] \<notin> set (sb_roots sb) \<Longrightarrow> held_below sb c \<longleftrightarrow> served sb c"
proof -
  have clean: "is_clean r" if "r \<in> set (sb_roots sb)" for r using that assms(2) by (simp add: clean_roots_def list_all_iff)
  show s: "held_below sb c \<Longrightarrow> served sb c"
    unfolding held_below_def served_def using below_lies_in [OF assms(1) clean] by blast
  assume no: "[slash] \<notin> set (sb_roots sb)"
  have "held_below sb c" if "served sb c"
  proof -
    obtain r names where r: "r \<in> set (sb_roots sb)" "lies_in r c names" "sb_hidden sb \<or> list_all (\<lambda>n. \<not> isHiddenName n) names"
      using \<open>served sb c\<close> unfolding served_def by blast
    then have "r \<noteq> [slash]" using no by auto
    then show ?thesis using r lies_in_below [OF assms(1) clean [OF r(1)]] unfolding held_below_def by blast
  qed
  then show "held_below sb c \<longleftrightarrow> served sb c" using s by blast
qed

lemma holds_below:
  assumes "is_clean c" and "is_clean r"
  shows "holds c r \<longleftrightarrow> (\<exists>names. c = below r names \<and> list_all is_name names)"
proof
  assume "holds c r"
  then consider "c = r" | rest where "c = r @ slash # rest" by (auto simp: holds_def prefix_def)
  then show "\<exists>names. c = below r names \<and> list_all is_name names"
  proof cases
    case 1
    then show ?thesis by (intro exI [of _ "[]"]) simp
  next
    case 2
    then show ?thesis using clean_below [OF assms 2] by blast
  qed
next
  assume "\<exists>names. c = below r names \<and> list_all is_name names"
  then obtain names where "c = below r names" by blast
  then show "holds c r" by (cases "names = []") (auto simp: holds_def below_join prefix_def)
qed

lemma hidden_below:
  assumes "is_clean (below r names)" and "is_clean r" and "list_all is_name names"
  shows "hiddenComponentBelow r (below r names) = (case find isHiddenName names of None \<Rightarrow> [] | Some part \<Rightarrow> part)"
proof (cases "names = []")
  case True
  then show ?thesis by (simp add: hiddenComponentBelow_def rel_same)
next
  case False
  then have "r \<noteq> [slash]" using clean_below(3) [OF assms(1,2)] below_join by blast
  then have rel: "rel r (below r names) = Some (join_path names)" using rel_below assms False by blast
  have split: "split_path (join_path names) = names" using False assms(3) by (intro split_join) (auto simp: list_all_iff is_name_def)
  have "join_path names \<noteq> [dot]"
  proof
    assume "join_path names = [dot]"
    then have "names = [[dot]]" using split by simp
    then show False using assms(3) by (simp add: is_name_def)
  qed
  then show ?thesis by (simp add: hiddenComponentBelow_def rel split)
qed

lemma find_hidden_none: "find isHiddenName names = None \<longleftrightarrow> list_all (\<lambda>n. \<not> isHiddenName n) names"
  by (induction names) auto

lemma hidden_nonempty: "find isHiddenName names = Some x \<Longrightarrow> x \<noteq> []"
  by (auto simp: find_Some_iff isHiddenName_def split: if_splits)

lemma nearest_from_holds:
  "nearest_from c nearest rs = Some n \<Longrightarrow> (\<And>m. nearest = Some m \<Longrightarrow> holds c m) \<Longrightarrow> holds c n"
  by (induction rs arbitrary: nearest) (auto split: if_splits)

lemma nearest_from_in: "nearest_from c nearest rs = Some n \<Longrightarrow> n \<in> set rs \<or> nearest = Some n"
  by (induction rs arbitrary: nearest) (fastforce split: if_splits)+

lemma nearest_from_longer: "nearest_from c (Some m) rs = Some n \<Longrightarrow> length m \<le> length n"
proof (induction rs arbitrary: m)
  case (Cons r rs)
  show ?case
  proof (cases "holds c r \<and> length m < length r")
    case True
    then have "length r \<le> length n" using Cons.IH [of r] Cons.prems by simp
    then show ?thesis using True by simp
  next
    case False
    then have "nearest_from c (Some m) rs = Some n"
      using Cons.prems by (simp only: nearest_from.simps option.case if_False)
    then show ?thesis by (rule Cons.IH)
  qed
qed simp

lemma nearest_from_some: "nearest_from c (Some m) rs \<noteq> None"
  by (induction rs arbitrary: m) auto

lemma nearest_from_none: "nearest_from c nearest rs = None \<Longrightarrow> r \<in> set rs \<Longrightarrow> \<not> holds c r"
proof (induction rs arbitrary: nearest)
  case (Cons q rs)
  show ?case
  proof (cases "holds c q")
    case True
    then have "\<exists>m. nearest_from c nearest (q # rs) = nearest_from c (Some m) rs" by (cases nearest) auto
    then show ?thesis using nearest_from_some Cons.prems(1) by metis
  next
    case False
    then show ?thesis using Cons by auto
  qed
qed simp

lemma nearest_from_far: "nearest_from c nearest rs = Some n \<Longrightarrow> r \<in> set rs \<Longrightarrow> holds c r \<Longrightarrow> length r \<le> length n"
proof (induction rs arbitrary: nearest)
  case (Cons q rs)
  show ?case
  proof (cases "r = q")
    case True
    then have "\<exists>m. nearest_from c nearest (q # rs) = nearest_from c (Some m) rs \<and> length r \<le> length m"
      using Cons.prems(3) by (cases nearest) auto
    then show ?thesis using nearest_from_longer Cons.prems(1) le_trans by metis
  next
    case False
    then show ?thesis using Cons by auto
  qed
qed simp

lemma nearestRoot_ok:
  "nearestRoot c roots = None \<longleftrightarrow> (\<forall>r \<in> set roots. \<not> holds c r)"
  "nearestRoot c roots = Some n \<Longrightarrow> n \<in> set roots \<and> holds c n \<and> (\<forall>r \<in> set roots. holds c r \<longrightarrow> length r \<le> length n)"
  using nearest_from_none [of c None roots] nearest_from_in [of c None roots] nearest_from_holds [of c None roots]
    nearest_from_far [of c None roots] unfolding nearestRoot_def by (cases "nearest_from c None roots"; fastforce)+

text \<open>Of two roots that hold a place, the longer one lies inside the other.\<close>

lemma longer_root_inside:
  assumes "below r names = below n ns" and "length r \<le> length n" and "is_clean r" and "is_clean n" and "is_clean (below r names)"
    and "list_all is_name names" "list_all is_name ns"
  shows "\<exists>mid. names = mid @ ns"
proof -
  have er: "elements (below r names) = elements r @ names"
    using elements_below(1) [OF assms(6,3)] clean_below(3) [OF assms(5,3)] below_join by blast
  have "is_clean (below n ns)" using assms(1,5) by simp
  then have en: "elements (below n ns) = elements n @ ns"
    using elements_below(1) [OF assms(7,4)] clean_below(3) [OF _ assms(4)] below_join by blast
  have e: "elements r @ names = elements n @ ns" using er en assms(1) by simp
  then obtain us where "elements r = elements n @ us \<and> us @ names = ns \<or> elements r @ us = elements n \<and> names = us @ ns"
    by (auto simp: append_eq_append_conv2)
  then consider mid where "elements r = elements n @ mid" "mid @ names = ns" "mid \<noteq> []" | mid where "names = mid @ ns"
    by (cases "us = []") auto
  then show ?thesis
  proof cases
    case 1
    have "list_all is_name mid" using 1(2) assms(7) by auto
    moreover have "n \<noteq> [slash] \<or> mid = []"
    proof -
      have "ns \<noteq> []" using 1 by auto
      then show ?thesis using clean_below(3) [OF \<open>is_clean (below n ns)\<close> assms(4)] below_join by blast
    qed
    ultimately have "elements (below n mid) = elements r" "is_clean (below n mid)"
      using elements_below [OF _ assms(4)] 1(1) by auto
    then have "r = below n mid" using clean_eq_iff assms(3) by blast
    then have "length n < length r" using 1(3) by (simp add: below_join)
    then show ?thesis using assms(2) by simp
  qed blast
qed

lemma checkCanonical_held:
  assumes "is_clean c" and "clean_roots roots" and "sb_roots sb = roots"
  shows "checkCanonical sb p c roots = None \<longleftrightarrow> held_below sb c"
proof -
  have clean: "is_clean r" if "r \<in> set roots" for r using that assms(2) by (simp add: clean_roots_def list_all_iff)
  show ?thesis
  proof (cases "nearestRoot c roots")
    case None
    then have "\<not> held_below sb c" using nearestRoot_ok(1) holds_below [OF assms(1) clean] assms(3) unfolding held_below_def by blast
    then show ?thesis using None by (simp add: checkCanonical_def)
  next
    case (Some n)
    have n: "n \<in> set roots" "holds c n" and far: "\<And>r. r \<in> set roots \<Longrightarrow> holds c r \<Longrightarrow> length r \<le> length n"
      using nearestRoot_ok(2) [OF Some] by auto
    then obtain ns where ns: "c = below n ns" "list_all is_name ns" using holds_below [OF assms(1) clean] by blast
    have hidden: "hiddenComponentBelow n c = [] \<longleftrightarrow> list_all (\<lambda>n. \<not> isHiddenName n) ns"
      using hidden_below [of n ns] ns assms(1) clean n(1) find_hidden_none [of ns] hidden_nonempty [of ns] by (auto split: option.splits)
    have "held_below sb c \<longleftrightarrow> sb_hidden sb \<or> list_all (\<lambda>n. \<not> isHiddenName n) ns"
    proof
      assume "held_below sb c"
      then obtain r names where r: "r \<in> set roots" "c = below r names" "list_all is_name names"
        "sb_hidden sb \<or> list_all (\<lambda>n. \<not> isHiddenName n) names" using assms(3) by (auto simp: held_below_def)
      then have "holds c r" using holds_below [OF assms(1) clean] by blast
      then obtain mid where "names = mid @ ns"
        using longer_root_inside [of r names n ns] r ns n far clean assms(1) by metis
      then show "sb_hidden sb \<or> list_all (\<lambda>n. \<not> isHiddenName n) ns" using r(4) by auto
    qed (use n ns assms(3) in \<open>auto simp: held_below_def\<close>)
    then show ?thesis using Some hidden by (simp add: checkCanonical_def Let_def)
  qed
qed

lemma check_outcome:
  assumes "is_clean c" and "clean_roots (sb_roots sb)"
  shows "case checkCanonical sb p c (sb_roots sb) of
      None \<Rightarrow> held_below sb c
    | Some e \<Rightarrow> \<not> held_below sb c \<and>
        (if \<exists>r \<in> set (sb_roots sb). \<exists>names. c = below r names \<and> list_all is_name names
         then \<exists>r names n. r \<in> set (sb_roots sb) \<and> c = below r names \<and> list_all is_name names \<and> find isHiddenName names = Some n \<and>
                (\<forall>q \<in> set (sb_roots sb). holds c q \<longrightarrow> length q \<le> length r) \<and> e = ErrHiddenPath p n
         else e = ErrPathOutsideRoots p (sb_roots sb))"
proof -
  let ?roots = "sb_roots sb"
  have clean: "is_clean r" if "r \<in> set ?roots" for r using that assms(2) by (simp add: clean_roots_def list_all_iff)
  have inside: "(\<exists>r \<in> set ?roots. \<exists>names. c = below r names \<and> list_all is_name names) \<longleftrightarrow> (\<exists>r \<in> set ?roots. holds c r)"
    using holds_below [OF assms(1) clean] by blast
  note s = checkCanonical_held [OF assms refl, of p]
  show ?thesis
  proof (cases "nearestRoot c ?roots")
    case None
    then have "checkCanonical sb p c ?roots = Some (ErrPathOutsideRoots p ?roots)" by (simp add: checkCanonical_def)
    moreover have "\<not> (\<exists>r \<in> set ?roots. holds c r)" using nearestRoot_ok(1) [of c ?roots] None by blast
    ultimately show ?thesis using s unfolding inside by simp
  next
    case (Some r)
    have r: "r \<in> set ?roots" "holds c r" "\<forall>q \<in> set ?roots. holds c q \<longrightarrow> length q \<le> length r"
      using nearestRoot_ok(2) [OF Some] by auto
    then obtain names where names: "c = below r names" "list_all is_name names" using holds_below [OF assms(1) clean] by blast
    show ?thesis
    proof (cases "checkCanonical sb p c ?roots")
      case None
      then show ?thesis using s by simp
    next
      case (Some e)
      have e: "hiddenComponentBelow r c \<noteq> []" "e = ErrHiddenPath p (hiddenComponentBelow r c)"
        using Some \<open>nearestRoot c ?roots = Some r\<close> by (auto simp: checkCanonical_def Let_def split: if_splits)
      obtain n where n: "find isHiddenName names = Some n" "hiddenComponentBelow r c = n"
        using e(1) hidden_below [of r names] names assms(1) clean [OF r(1)] by (auto split: option.splits)
      have "\<exists>r names n. r \<in> set ?roots \<and> c = below r names \<and> list_all is_name names \<and> find isHiddenName names = Some n \<and>
                (\<forall>q \<in> set ?roots. holds c q \<longrightarrow> length q \<le> length r) \<and> e = ErrHiddenPath p n"
        using r(1,3) names n e(2) by blast
      then show ?thesis using Some s r(1,2) unfolding inside by auto
    qed
  qed
qed

lemma checkCanonical_served:
  "checkCanonical sb p c (sb_roots sb) = None \<Longrightarrow> is_clean c \<Longrightarrow> clean_roots (sb_roots sb) \<Longrightarrow> served sb c"
  using checkCanonical_held held_below_served(1) by blast

text \<open>The check's answers in the words of \<open>lies_in\<close>, when no root is \<open>/\<close>.\<close>

lemma check_answers:
  assumes "is_clean c" and "clean_roots (sb_roots sb)" and "[slash] \<notin> set (sb_roots sb)"
  shows "case checkCanonical sb p c (sb_roots sb) of
      None \<Rightarrow> served sb c
    | Some e \<Rightarrow> \<not> served sb c \<and>
        (if \<exists>r \<in> set (sb_roots sb). \<exists>names. lies_in r c names
         then \<exists>r names n. r \<in> set (sb_roots sb) \<and> lies_in r c names \<and> find isHiddenName names = Some n \<and>
                (\<forall>q \<in> set (sb_roots sb). \<forall>ms. lies_in q c ms \<longrightarrow> length q \<le> length r) \<and> e = ErrHiddenPath p n
         else e = ErrPathOutsideRoots p (sb_roots sb))"
proof -
  have clean: "is_clean r \<and> r \<noteq> [slash]" if "r \<in> set (sb_roots sb)" for r
    using that assms(2,3) by (auto simp: clean_roots_def list_all_iff)
  have below: "lies_in r c names \<longleftrightarrow> c = below r names \<and> list_all is_name names" if "r \<in> set (sb_roots sb)" for r names
    using lies_in_below [OF assms(1)] clean [OF that] by blast
  have holds: "holds c r \<longleftrightarrow> (\<exists>names. lies_in r c names)" if "r \<in> set (sb_roots sb)" for r
    using holds_below [OF assms(1)] clean [OF that] below [OF that] by blast
  have inside: "(\<exists>r \<in> set (sb_roots sb). \<exists>names. lies_in r c names) \<longleftrightarrow>
      (\<exists>r \<in> set (sb_roots sb). \<exists>names. c = below r names \<and> list_all is_name names)"
    using below by blast
  note out = check_outcome [OF assms(1,2), of p, unfolded held_below_served(2) [OF assms]]
  show ?thesis
  proof (cases "checkCanonical sb p c (sb_roots sb)")
    case None
    then show ?thesis using out by simp
  next
    case (Some e)
    show ?thesis
    proof (cases "\<exists>r \<in> set (sb_roots sb). \<exists>names. lies_in r c names")
      case False
      then show ?thesis using out Some inside by simp
    next
      case True
      then obtain r names n where r: "r \<in> set (sb_roots sb)" "c = below r names" "list_all is_name names"
        "find isHiddenName names = Some n" "\<forall>q \<in> set (sb_roots sb). holds c q \<longrightarrow> length q \<le> length r" "e = ErrHiddenPath p n"
        using out Some inside by auto
      have "\<forall>q \<in> set (sb_roots sb). \<forall>ms. lies_in q c ms \<longrightarrow> length q \<le> length r" using r(5) holds by blast
      moreover have "lies_in r c names" using below [OF r(1)] r(2,3) by blast
      ultimately show ?thesis using out Some r(1,4,6) True by auto
    qed
  qed
qed

end
