(* ===== verification/Pinned.thy ===== *)
theory Pinned
  imports Sandbox
begin

text \<open>
  Pinned files, \<^verbatim>\<open>internal/paths/pinned.go\<close>: a check of a path records the identity of the file it leads to, and every later
  open refuses any other file. What is shown holds however the file system changes between any two calls.
\<close>

section \<open>Identities\<close>

definition sameFile :: "file_info \<Rightarrow> file_info \<Rightarrow> bool" where
  "sameFile checked current \<longleftrightarrow> fi_type checked = fi_type current \<and> fi_ino checked = fi_ino current"

definition isRegularOrDir :: "file_info \<Rightarrow> bool" where
  "isRegularOrDir info \<longleftrightarrow> fi_type info = Regular \<or> fi_type info = Directory"

text \<open>The zero \<^verbatim>\<open>Pinned\<close> has no stat.\<close>

record pinned =
  pn_path :: path
  pn_canonical :: path
  pn_info :: "file_info option"

definition no_pinned :: pinned where
  "no_pinned = \<lparr>pn_path = [], pn_canonical = [], pn_info = None\<rparr>"

definition pinned_open :: "os \<Rightarrow> pinned \<Rightarrow> handle call" where
  "pinned_open os p =
     (case pn_info p of
        None \<Rightarrow> fail NoCheckedFile
      | Some info \<Rightarrow>
          if \<not> isRegularOrDir info then fail (ErrNotRegularFile (pn_path p))
          else and_then (ask (os_open os (pn_path p))) (\<lambda>f.
               and_then (ask (os_fstat os f)) (\<lambda>opened.
               if \<not> sameFile info opened then fail (ErrFileChanged (pn_path p)) else give f)))"

definition pinned_stat :: "os \<Rightarrow> pinned \<Rightarrow> file_info call" where
  "pinned_stat os p =
     (case pn_info p of
        None \<Rightarrow> fail NoCheckedFile
      | Some checked \<Rightarrow>
          and_then (ask (os_stat os (pn_path p))) (\<lambda>info.
          if \<not> sameFile checked info then fail (ErrFileChanged (pn_path p)) else give info))"

section \<open>Going down from a root\<close>

definition openRealSubdir :: "os \<Rightarrow> handle \<Rightarrow> string \<Rightarrow> handle call" where
  "openRealSubdir os parent name =
     and_then (ask (os_lstatAt os parent name)) (\<lambda>entry.
     if fi_type entry = Symlink then fail (ErrFileChanged [])
     else and_then (ask (os_openAt os parent name)) (\<lambda>child.
          and_then (ask (os_fstat os child)) (\<lambda>opened.
          if \<not> sameFile entry opened then fail (ErrFileChanged []) else give child)))"

fun open_down :: "os \<Rightarrow> handle \<Rightarrow> string list \<Rightarrow> handle call" where
  "open_down os dir [] = give dir"
| "open_down os dir (name # names) = and_then (openRealSubdir os dir name) (\<lambda>child. open_down os child names)"

definition openDirInsideRoot :: "os \<Rightarrow> path \<Rightarrow> string list \<Rightarrow> handle call" where
  "openDirInsideRoot os r names = and_then (ask (os_openRoot os r)) (\<lambda>dir. open_down os dir names)"

definition statInsideRoot :: "os \<Rightarrow> path \<Rightarrow> path \<Rightarrow> file_info call" where
  "statInsideRoot os r below_r =
     (if below_r = [dot]
      then and_then (ask (os_openRoot os r)) (\<lambda>dir. ask (os_fstat os dir))
      else let names = split_path below_r
           in and_then (openDirInsideRoot os r (butlast names)) (\<lambda>dir. ask (os_lstatAt os dir (last names))))"

definition relativeToRoot :: "path \<Rightarrow> path \<Rightarrow> path option" where
  "relativeToRoot r canonical =
     (if canonical = r then Some [dot]
      else if prefix (r @ [slash]) canonical then Some (drop (length r + 1) canonical) else None)"

fun statCanonical :: "os \<Rightarrow> path \<Rightarrow> path list \<Rightarrow> file_info call" where
  "statCanonical os canonical [] = ask (os_lstat os canonical)"
| "statCanonical os canonical (r # rs) =
     (case relativeToRoot r canonical of Some below_r \<Rightarrow> statInsideRoot os r below_r | None \<Rightarrow> statCanonical os canonical rs)"

text \<open>An error that says the file changed is reported for the path the caller gave.\<close>

definition changed_for :: "path \<Rightarrow> path_error \<Rightarrow> path_error" where
  "changed_for p e = (case e of ErrFileChanged _ \<Rightarrow> ErrFileChanged p | _ \<Rightarrow> e)"

definition rename_changed :: "path \<Rightarrow> 'a call \<Rightarrow> 'a call" where
  "rename_changed p c t = (case c t of (Inl e, t') \<Rightarrow> (Inl (changed_for p e), t') | (Inr a, t') \<Rightarrow> (Inr a, t'))"

lemma rename_changed_InrE [call_elims]:
  "rename_changed p c t = (Inr a, t') \<Longrightarrow> (c t = (Inr a, t') \<Longrightarrow> P) \<Longrightarrow> P"
  by (auto simp: rename_changed_def split: prod.splits sum.splits)

section \<open>Pinning\<close>

definition pinCanonical :: "os \<Rightarrow> sandbox \<Rightarrow> path \<Rightarrow> path \<Rightarrow> pinned call" where
  "pinCanonical os sb p canonical =
     (let roots = sb_roots sb
      in case (if roots = [] then None else checkCanonical sb p canonical roots) of
           Some e \<Rightarrow> fail e
         | None \<Rightarrow>
             and_then (rename_changed p (statCanonical os canonical roots)) (\<lambda>info.
             if fi_type info = Symlink then fail (ErrFileChanged p)
             else give \<lparr>pn_path = p, pn_canonical = canonical, pn_info = Some info\<rparr>))"

definition pin :: "os \<Rightarrow> sandbox \<Rightarrow> path \<Rightarrow> pinned call" where
  "pin os sb p =
     and_then (abs_path os p) (\<lambda>ab.
     and_then (ask (os_evalSymlinks os ab)) (\<lambda>canonical. pinCanonical os sb p canonical))"

fun open_dir_from :: "os \<Rightarrow> sandbox \<Rightarrow> path \<Rightarrow> path \<Rightarrow> path list \<Rightarrow> handle call" where
  "open_dir_from os sb dir canonical [] = fail (ErrPathOutsideRoots dir (sb_roots sb))"
| "open_dir_from os sb dir canonical (r # rs) =
     (case relativeToRoot r canonical of
        None \<Rightarrow> open_dir_from os sb dir canonical rs
      | Some below_r \<Rightarrow>
          rename_changed dir (openDirInsideRoot os r (if below_r = [dot] then [] else split_path below_r)))"

definition openDir :: "os \<Rightarrow> sandbox \<Rightarrow> path \<Rightarrow> handle call" where
  "openDir os sb dir =
     (if sb_roots sb = [] then ask (os_openRoot os dir)
      else and_then (abs_path os dir) (\<lambda>ab.
           and_then (ask (os_evalSymlinks os ab)) (\<lambda>canonical.
           case checkCanonical sb dir canonical (sb_roots sb) of
             Some e \<Rightarrow> fail e
           | None \<Rightarrow> open_dir_from os sb dir canonical (sb_roots sb))))"

section \<open>Where a file was seen\<close>

text \<open>
  Between the moments \<open>a\<close> and \<open>b\<close> a directory was open that is the one at \<open>names\<close> below the root, and a file was seen
  there: each name was looked up in the directory before it, and no name was a link.
\<close>

inductive dir_at :: "os \<Rightarrow> nat \<Rightarrow> nat \<Rightarrow> path \<Rightarrow> string list \<Rightarrow> handle \<Rightarrow> bool"
  and file_at :: "os \<Rightarrow> nat \<Rightarrow> nat \<Rightarrow> path \<Rightarrow> string list \<Rightarrow> file_info \<Rightarrow> bool"
  for os :: os and a b :: nat and r :: path where
  root_open: "\<lbrakk>a \<le> s; s < b; os_openRoot os r s = Inr h\<rbrakk> \<Longrightarrow> dir_at os a b r [] h"
| dir_open: "\<lbrakk>file_at os a b r names info; a \<le> s; s < b; os_fstat os h s = Inr opened; sameFile info opened\<rbrakk>
    \<Longrightarrow> dir_at os a b r names h"
| root_file: "\<lbrakk>dir_at os a b r [] h; a \<le> s; s < b; os_fstat os h s = Inr info\<rbrakk> \<Longrightarrow> file_at os a b r [] info"
| seen_in: "\<lbrakk>dir_at os a b r names h; a \<le> s; s < b; os_lstatAt os h name s = Inr info; fi_type info \<noteq> Symlink\<rbrakk>
    \<Longrightarrow> file_at os a b r (names @ [name]) info"

lemma at_wider:
  "dir_at os a b r names h \<Longrightarrow> a' \<le> a \<Longrightarrow> b \<le> b' \<Longrightarrow> dir_at os a' b' r names h"
  "file_at os a b r names info \<Longrightarrow> a' \<le> a \<Longrightarrow> b \<le> b' \<Longrightarrow> file_at os a' b' r names info"
proof (induction rule: dir_at_file_at.inducts)
  case (dir_open names info s h opened)
  then show ?case by (intro dir_at_file_at.dir_open) auto
next
  case (root_open s h)
  then show ?case by (intro dir_at_file_at.root_open) auto
next
  case (root_file h s info)
  then show ?case by (intro dir_at_file_at.root_file) auto
next
  case (seen_in names h s name info)
  then show ?case by (intro dir_at_file_at.seen_in) auto
qed

section \<open>Time passes\<close>

definition later :: "'a call \<Rightarrow> bool" where
  "later c \<longleftrightarrow> (\<forall>t. t \<le> snd (c t))"

lemma later_simps [simp]: "later (ask q)" "later (give a)" "later (fail e)"
  by (auto simp: later_def ask_def give_def fail_def)

lemma later_and_then [simp]: "later c \<Longrightarrow> (\<And>a. later (k a)) \<Longrightarrow> later (and_then c k)"
  by (auto simp: later_def and_then_def split: prod.splits sum.splits) (metis le_trans snd_conv)+

lemma later_rename [simp]: "later c \<Longrightarrow> later (rename_changed p c)"
  by (auto simp: later_def rename_changed_def split: prod.splits sum.splits) (metis snd_conv)+

lemma later_le: "later c \<Longrightarrow> c t = (x, t') \<Longrightarrow> t \<le> t'"
  unfolding later_def by (metis snd_conv)

lemma later_abs [simp]: "later (abs_path os p)"
  by (auto simp: abs_path_def)

lemma later_down [simp]: "later (open_down os dir names)"
  by (induction names arbitrary: dir) (auto simp: openRealSubdir_def)

lemma later_dir_inside [simp]: "later (openDirInsideRoot os r names)"
  by (auto simp: openDirInsideRoot_def)

lemma later_stat [simp]: "later (statCanonical os c roots)"
  by (induction roots) (auto simp: statInsideRoot_def Let_def split: option.split)

lemma later_pin_canonical [simp]: "later (pinCanonical os sb p c)"
  by (auto simp: pinCanonical_def Let_def split: option.split)

lemma later_pin [simp]: "later (pin os sb p)"
  by (auto simp: pin_def)

end
