(* ===== verification/PinFacts.thy ===== *)
theory PinFacts
  imports Pinned
begin

text \<open>
  What a pin stands for: the file was seen below a search root without passing a link, at a place the sandbox serves.
\<close>

section \<open>Clean places\<close>

text \<open>
  What the documentation promises of the calls: a working directory is absolute, and \<^verbatim>\<open>EvalSymlinks\<close> of an absolute path
  returns a clean one; names read from a directory are single names.
\<close>

definition documented :: "os \<Rightarrow> bool" where
  "documented os \<longleftrightarrow> (\<forall>t wd. os_getwd os t = Inr wd \<longrightarrow> is_abs wd) \<and>
     (\<forall>p t c. is_abs p \<longrightarrow> os_evalSymlinks os p t = Inr c \<longrightarrow> is_clean c) \<and>
     (\<forall>h t ns. os_readNames os h t = Inr ns \<longrightarrow> list_all is_name ns)"

lemma documented_eval: "documented os \<Longrightarrow> is_clean p \<Longrightarrow> os_evalSymlinks os p t = Inr c \<Longrightarrow> is_clean c"
  using is_clean_abs unfolding documented_def by blast

lemma abs_path_clean:
  assumes "documented os" and "abs_path os p t = (Inr ab, t')"
  shows "is_clean ab"
proof (cases "is_abs p")
  case True
  then show ?thesis using assms(2) clean_is_clean by (auto simp: abs_path_def elim!: call_elims)
next
  case False
  then obtain wd where wd: "os_getwd os t = Inr wd" "ab = join2 wd p" using assms(2) by (auto simp: abs_path_def elim!: call_elims)
  then have "is_abs wd" using assms(1) unfolding documented_def by blast
  then have "wd \<noteq> []" "is_abs (wd @ slash # p)" by (auto simp: is_abs_def)
  then show ?thesis using clean_is_clean wd(2) by (simp add: join2_def)
qed

lemma setSearchRoots_from_clean:
  assumes "documented os" and "list_all is_clean resolved" and "distinct resolved"
    and "setSearchRoots_from os resolved given t = (Inr roots, t')"
  shows "clean_roots roots \<and> distinct roots"
  using assms(2-4)
proof (induction given arbitrary: resolved t)
  case Nil
  then show ?case by (auto simp: clean_roots_def elim: call_elims)
next
  case (Cons r rs)
  from Cons.prems(3) obtain ab s1 info s2 where ab: "abs_path os r t = (Inr ab, s1)"
    and rest: "(case ask (os_evalSymlinks os ab) s2 of (res, t') \<Rightarrow>
        let canon = (case res of Inl _ \<Rightarrow> ab | Inr c \<Rightarrow> c)
        in setSearchRoots_from os (if canon \<in> set resolved then resolved else resolved @ [canon]) rs t') = (Inr roots, t')"
    by (auto split: if_splits elim!: call_elims)
  obtain res s3 where res: "ask (os_evalSymlinks os ab) s2 = (res, s3)" by force
  define canon where "canon = (case res of Inl _ \<Rightarrow> ab | Inr c \<Rightarrow> c)"
  have clean: "is_clean ab" by (rule abs_path_clean [OF assms(1) ab])
  have "is_clean canon"
    using clean res documented_eval [OF assms(1) clean] by (auto simp: canon_def ask_def split: sum.splits)
  then show ?case
    using Cons.IH [of "if canon \<in> set resolved then resolved else resolved @ [canon]" s3] Cons.prems(1,2) rest res
    by (simp add: canon_def Let_def split: if_splits)
qed

lemma setSearchRoots_clean:
  "documented os \<Longrightarrow> setSearchRoots os given t = (Inr roots, t') \<Longrightarrow> clean_roots roots \<and> distinct roots"
  using setSearchRoots_from_clean [of os "[]" "given" t roots t'] by (simp add: setSearchRoots_def)

section \<open>Going down\<close>

lemma subdir_at:
  assumes "dir_at os a b r names h" and "openRealSubdir os h name t = (Inr h', t')" and "a \<le> t" and "t' \<le> b"
  shows "dir_at os a b r (names @ [name]) h'"
proof -
  from assms(2) obtain entry opened where c: "os_lstatAt os h name t = Inr entry" "fi_type entry \<noteq> Symlink"
    "os_openAt os h name (t + 1) = Inr h'" "os_fstat os h' (t + 1 + 1) = Inr opened" "sameFile entry opened" "t' = t + 1 + 1 + 1"
    unfolding openRealSubdir_def by (auto split: if_splits elim!: call_elims)
  have "file_at os a b r (names @ [name]) entry" by (rule seen_in [OF assms(1,3) _ c(1,2)]) (use assms(4) c(6) in simp)
  then show ?thesis by (rule dir_open [OF _ _ _ c(4,5)]) (use assms(3,4) c(6) in simp_all)
qed

lemma open_down_at:
  "dir_at os a b r names h \<Longrightarrow> open_down os h further t = (Inr h', t') \<Longrightarrow> a \<le> t \<Longrightarrow> t' \<le> b \<Longrightarrow> dir_at os a b r (names @ further) h'"
proof (induction further arbitrary: names h t)
  case Nil
  then show ?case by (auto elim: call_elims)
next
  case (Cons name further)
  from Cons.prems(2) obtain h1 s where s: "openRealSubdir os h name t = (Inr h1, s)" "open_down os h1 further s = (Inr h', t')"
    by (auto elim: call_elims)
  have sub: "later (openRealSubdir os h name)" by (simp add: openRealSubdir_def)
  have "t \<le> s" by (rule later_le [OF sub s(1)])
  moreover have "s \<le> t'" by (rule later_le [OF later_down s(2)])
  ultimately have "dir_at os a b r ((names @ [name]) @ further) h'"
    using Cons.IH [OF subdir_at [OF Cons.prems(1) s(1)] s(2)] Cons.prems(3,4) by simp
  then show ?case by simp
qed

lemma openDirInsideRoot_at:
  assumes "openDirInsideRoot os r names t = (Inr h, t')"
  shows "dir_at os t t' r names h"
proof -
  from assms obtain d where d: "os_openRoot os r t = Inr d" "open_down os d names (t + 1) = (Inr h, t')"
    unfolding openDirInsideRoot_def by (auto elim!: call_elims)
  have le: "t + 1 \<le> t'" by (rule later_le [OF later_down d(2)])
  have "dir_at os t t' r [] d" by (rule root_open [OF _ _ d(1)]) (use le in simp_all)
  from open_down_at [OF this d(2)] le show ?thesis by simp
qed

lemma statInsideRoot_at:
  assumes "statInsideRoot os r below_r t = (Inr info, t')" and "fi_type info \<noteq> Symlink"
  shows "file_at os t t' r (if below_r = [dot] then [] else split_path below_r) info"
proof (cases "below_r = [dot]")
  case True
  then obtain d where d: "os_openRoot os r t = Inr d" "os_fstat os d (t + 1) = Inr info" "t' = t + 1 + 1"
    using assms(1) by (auto simp: statInsideRoot_def elim!: call_elims)
  have "dir_at os t t' r [] d" by (rule root_open [OF _ _ d(1)]) (use d(3) in simp_all)
  then have "file_at os t t' r [] info" by (rule root_file [OF _ _ _ d(2)]) (use d(3) in simp_all)
  then show ?thesis using True by simp
next
  case False
  let ?names = "split_path below_r"
  from False assms(1) obtain h s where h: "openDirInsideRoot os r (butlast ?names) t = (Inr h, s)"
    "os_lstatAt os h (last ?names) s = Inr info" "t' = s + 1"
    by (auto simp: statInsideRoot_def Let_def elim!: call_elims)
  have "t \<le> s" by (rule later_le [OF later_dir_inside h(1)])
  moreover have "dir_at os t t' r (butlast ?names) h" by (rule at_wider(1) [OF openDirInsideRoot_at [OF h(1)]]) (use h(3) in simp_all)
  ultimately have "file_at os t t' r (butlast ?names @ [last ?names]) info"
    by (intro seen_in [OF _ _ _ h(2) assms(2)]) (use h(3) in simp_all)
  then show ?thesis using False by simp
qed

lemma relativeToRoot_below:
  assumes "relativeToRoot r c = Some below_r" and "is_clean c" and "is_clean r"
  defines "names \<equiv> (if below_r = [dot] then [] else split_path below_r)"
  shows "c = below r names" and "list_all is_name names"
proof -
  consider "c = r" "below_r = [dot]" | rest where "c \<noteq> r" "c = r @ slash # rest" "below_r = rest"
    using assms(1) by (auto simp: relativeToRoot_def prefix_def split: if_splits)
  then have "c = below r names \<and> list_all is_name names"
  proof cases
    case 1
    then show ?thesis by (simp add: names_def)
  next
    case 2
    from clean_below [OF assms(2,3) 2(2)] have b: "list_all is_name (split_path rest)" "c = below r (split_path rest)" by auto
    then have "rest \<noteq> [dot]" by (auto simp: is_name_def)
    then show ?thesis using b 2(3) by (simp add: names_def)
  qed
  then show "c = below r names" "list_all is_name names" by auto
qed

lemma relativeToRoot_none: "relativeToRoot r c = None \<longleftrightarrow> \<not> holds c r"
  by (auto simp: relativeToRoot_def holds_def)

lemma statCanonical_at:
  assumes "statCanonical os c roots t = (Inr info, t')" and "fi_type info \<noteq> Symlink" and "is_clean c" and "clean_roots roots"
    and "\<exists>r \<in> set roots. holds c r"
  shows "\<exists>r \<in> set roots. \<exists>names. c = below r names \<and> list_all is_name names \<and> file_at os t t' r names info"
  using assms(1,4,5)
proof (induction roots)
  case (Cons r rs)
  show ?case
  proof (cases "relativeToRoot r c")
    case None
    then have "\<not> holds c r" using relativeToRoot_none by blast
    then show ?thesis using Cons None by (auto simp: clean_roots_def)
  next
    case (Some below_r)
    have "is_clean r" using Cons.prems(2) by (simp add: clean_roots_def)
    moreover have "statInsideRoot os r below_r t = (Inr info, t')" using Cons.prems(1) Some by simp
    ultimately show ?thesis using relativeToRoot_below [OF Some assms(3)] statInsideRoot_at assms(2)
      by (metis list.set_intros(1))
  qed
qed simp

section \<open>What a pin stands for\<close>

definition pin_checked :: "os \<Rightarrow> sandbox \<Rightarrow> nat \<Rightarrow> nat \<Rightarrow> pinned \<Rightarrow> bool" where
  "pin_checked os sb a b p \<longleftrightarrow> (\<exists>info r names. pn_info p = Some info \<and> fi_type info \<noteq> Symlink \<and> r \<in> set (sb_roots sb) \<and>
     lies_in r (pn_canonical p) names \<and> file_at os a b r names info \<and> served sb (pn_canonical p))"

text \<open>What the check of a named path gives besides: the root's path is the beginning of the place's.\<close>

definition pin_named :: "os \<Rightarrow> sandbox \<Rightarrow> nat \<Rightarrow> nat \<Rightarrow> pinned \<Rightarrow> bool" where
  "pin_named os sb a b p \<longleftrightarrow> (\<exists>info r names. pn_info p = Some info \<and> fi_type info \<noteq> Symlink \<and> r \<in> set (sb_roots sb) \<and>
     pn_canonical p = below r names \<and> list_all is_name names \<and> file_at os a b r names info \<and>
     is_clean (pn_canonical p) \<and> served sb (pn_canonical p))"

lemma pin_named_checked:
  assumes "clean_roots (sb_roots sb)" and "pin_named os sb a b p"
  shows "pin_checked os sb a b p"
proof -
  obtain info r names where p: "pn_info p = Some info" "fi_type info \<noteq> Symlink" "r \<in> set (sb_roots sb)"
    "pn_canonical p = below r names" "list_all is_name names" "file_at os a b r names info"
    "is_clean (pn_canonical p)" "served sb (pn_canonical p)"
    using assms(2) unfolding pin_named_def by blast
  have "is_clean r" using assms(1) p(3) by (simp add: clean_roots_def list_all_iff)
  then have "lies_in r (pn_canonical p) names" by (rule below_lies_in [OF p(7) _ p(4,5)])
  then show ?thesis using p unfolding pin_checked_def by blast
qed

lemma pin_named_wider: "pin_named os sb a b p \<Longrightarrow> a' \<le> a \<Longrightarrow> b \<le> b' \<Longrightarrow> pin_named os sb a' b' p"
  unfolding pin_named_def using at_wider(2) by blast

lemma pin_checked_wider: "pin_checked os sb a b p \<Longrightarrow> a' \<le> a \<Longrightarrow> b \<le> b' \<Longrightarrow> pin_checked os sb a' b' p"
  unfolding pin_checked_def using at_wider(2) by blast

lemma pinCanonical_checked:
  assumes "pinCanonical os sb p c t = (Inr pn, t')" and "is_clean c" and "clean_roots (sb_roots sb)" and "sb_roots sb \<noteq> []"
  shows "pin_named os sb t t' pn \<and> pn_path pn = p \<and> pn_canonical pn = c"
proof -
  from assms(1,4) have check: "checkCanonical sb p c (sb_roots sb) = None"
    by (auto simp: pinCanonical_def Let_def split: option.splits elim: call_elims)
  with assms(1,4) obtain info where info: "statCanonical os c (sb_roots sb) t = (Inr info, t')" "fi_type info \<noteq> Symlink"
    and pn: "pn = \<lparr>pn_path = p, pn_canonical = c, pn_info = Some info\<rparr>"
    by (auto simp: pinCanonical_def Let_def split: if_splits elim!: call_elims)
  have s: "served sb c" by (rule checkCanonical_served [OF check assms(2,3)])
  have "\<exists>r \<in> set (sb_roots sb). holds c r"
    using nearestRoot_ok(2) [of c "sb_roots sb"] check by (auto simp: checkCanonical_def split: option.splits)
  from statCanonical_at [OF info assms(2,3) this] s info(2) assms(2) show ?thesis by (auto simp: pin_named_def pn)
qed

lemma pin_is_named:
  assumes "pin os sb p t = (Inr pn, t')" and "documented os" and "clean_roots (sb_roots sb)" and "sb_roots sb \<noteq> []"
  shows "pin_named os sb t t' pn"
proof -
  from assms(1) obtain ab s c where c: "abs_path os p t = (Inr ab, s)" "os_evalSymlinks os ab s = Inr c"
    "pinCanonical os sb p c (s + 1) = (Inr pn, t')"
    unfolding pin_def by (auto elim!: call_elims)
  have "is_clean c" by (rule documented_eval [OF assms(2) abs_path_clean [OF assms(2) c(1)] c(2)])
  then have "pin_named os sb (s + 1) t' pn" using pinCanonical_checked [OF c(3)] assms by blast
  moreover have "t \<le> s + 1" using later_le [OF later_abs c(1)] by simp
  ultimately show ?thesis by (rule pin_named_wider) simp
qed

lemmas pin_is_checked = pin_named_checked [OF _ pin_is_named]

text \<open>Opening a pinned file gives the file that was seen, a regular file or a directory.\<close>

definition opened_is :: "os \<Rightarrow> nat \<Rightarrow> nat \<Rightarrow> handle \<Rightarrow> file_info \<Rightarrow> bool" where
  "opened_is os a b h info \<longleftrightarrow> (\<exists>s cur. a \<le> s \<and> s < b \<and> os_fstat os h s = Inr cur \<and> sameFile info cur)"

lemma pinned_open_is:
  assumes "pinned_open os p t = (Inr h, t')" and "pn_info p = Some info"
  shows "opened_is os t t' h info \<and> isRegularOrDir info"
proof -
  from assms obtain cur where c: "isRegularOrDir info" "os_fstat os h (t + 1) = Inr cur" "sameFile info cur" "t' = t + 1 + 1"
    by (auto simp: pinned_open_def split: if_splits elim!: call_elims)
  then have "t \<le> t + 1 \<and> t + 1 < t' \<and> os_fstat os h (t + 1) = Inr cur \<and> sameFile info cur" by simp
  then show ?thesis using c(1) unfolding opened_is_def by blast
qed

lemma openDir_checked:
  assumes "openDir os sb d t = (Inr h, t')" and "documented os" and "clean_roots (sb_roots sb)" and "sb_roots sb \<noteq> []"
  shows "\<exists>r \<in> set (sb_roots sb). \<exists>names. list_all is_name names \<and> served sb (below r names) \<and> dir_at os t t' r names h"
proof -
  from assms(1,4) obtain ab s c where c: "abs_path os d t = (Inr ab, s)" "os_evalSymlinks os ab s = Inr c"
    and k: "(case checkCanonical sb d c (sb_roots sb) of Some e \<Rightarrow> fail e | None \<Rightarrow> open_dir_from os sb d c (sb_roots sb)) (s + 1) = (Inr h, t')"
    unfolding openDir_def by (auto elim!: call_elims)
  have clean: "is_clean c" by (rule documented_eval [OF assms(2) abs_path_clean [OF assms(2) c(1)] c(2)])
  have none: "checkCanonical sb d c (sb_roots sb) = None" using k by (cases "checkCanonical sb d c (sb_roots sb)") (auto elim: call_elims)
  then have s: "served sb c" by (rule checkCanonical_served [OF _ clean assms(3)])
  have down: "open_dir_from os sb d c roots (s + 1) = (Inr h, t') \<Longrightarrow> clean_roots roots \<Longrightarrow>
      \<exists>r \<in> set roots. \<exists>names. c = below r names \<and> list_all is_name names \<and> dir_at os (s + 1) t' r names h" for roots
  proof (induction roots)
    case Nil
    then show ?case by (auto elim: call_elims)
  next
    case (Cons r rs)
    show ?case
    proof (cases "relativeToRoot r c")
      case None
      then show ?thesis using Cons by (auto simp: clean_roots_def)
    next
      case (Some below_r)
      have "is_clean r" using Cons.prems(2) by (simp add: clean_roots_def)
      moreover have "openDirInsideRoot os r (if below_r = [dot] then [] else split_path below_r) (s + 1) = (Inr h, t')"
        using Cons.prems(1) Some by (auto elim: call_elims)
      ultimately show ?thesis using relativeToRoot_below [OF Some clean] openDirInsideRoot_at by (metis list.set_intros(1))
    qed
  qed
  have "\<exists>r \<in> set (sb_roots sb). \<exists>names. c = below r names \<and> list_all is_name names \<and> dir_at os (s + 1) t' r names h"
    by (rule down [of "sb_roots sb"]) (use k none assms(3) in simp_all)
  then obtain r names where r: "r \<in> set (sb_roots sb)" "c = below r names" "list_all is_name names"
    "dir_at os (s + 1) t' r names h" by blast
  have "dir_at os t t' r names h" by (rule at_wider(1) [OF r(4)]) (use later_le [OF later_abs c(1)] in simp_all)
  then show ?thesis using r s by auto
qed

lemma pinned_open_checked:
  assumes "documented os" and "setSearchRoots os given t0 = (Inr (sb_roots sb), t1)" and "sb_roots sb \<noteq> []"
    and "pin os sb p t = (Inr pn, t')" and "pinned_open os pn u = (Inr h, u')"
  shows "\<exists>info r names. r \<in> set (sb_roots sb) \<and> list_all is_name names \<and> pn_canonical pn = below r names \<and>
    served sb (pn_canonical pn) \<and> file_at os t t' r names info \<and> opened_is os u u' h info \<and> isRegularOrDir info"
proof -
  have "clean_roots (sb_roots sb)" using setSearchRoots_clean [OF assms(1,2)] by blast
  from pin_is_named [OF assms(4,1) this assms(3)] obtain info r names where
    "pn_info pn = Some info" "r \<in> set (sb_roots sb)" "pn_canonical pn = below r names" "list_all is_name names"
    "file_at os t t' r names info" "served sb (pn_canonical pn)"
    unfolding pin_named_def by blast
  then show ?thesis using pinned_open_is [OF assms(5)] by blast
qed

end
