(* ===== verification/DirWalk.thy ===== *)
theory DirWalk
  imports PinFacts "HOL-Library.List_Lexorder" "HOL-Library.Char_ord"
begin

text \<open>
  Listing and walking directories, \<^verbatim>\<open>internal/paths/walk.go\<close>, with the wording of failures in \<^verbatim>\<open>reason.go\<close>. A walk lists each
  directory through a handle checked against its pin, follows a link only to a place that naming it would reach, and enters a
  directory once.
\<close>

section \<open>Reasons\<close>

definition reasonLinkOutsideRoots :: string where "reasonLinkOutsideRoots = ''symlink leads outside all search roots''"
definition reasonLinkLoop :: string where "reasonLinkLoop = ''symlink loop: leads back to a directory the walk is inside''"
definition reasonLinkHidden :: string where
  "reasonLinkHidden = ''symlink leads into a hidden entry; pass --hidden (or set RX_HIDDEN=true) to include hidden files and directories''"
definition reasonLinkUnresolvedPrefix :: string where "reasonLinkUnresolvedPrefix = ''cannot resolve symlink: ''"
definition reasonUnreadableEntryPrefix :: string where "reasonUnreadableEntryPrefix = ''cannot stat entry: ''"

definition reasonPermissionDenied :: string where "reasonPermissionDenied = ''permission denied''"
definition reasonNotFound :: string where "reasonNotFound = ''no such file or directory''"
definition reasonOutsideRoots :: string where "reasonOutsideRoots = ''outside all search roots''"
definition reasonHidden :: string where
  "reasonHidden = ''hidden entry; pass --hidden (or set RX_HIDDEN=true) to include hidden files and directories''"
definition reasonChanged :: string where "reasonChanged = ''the path leads to another file than the one that was checked''"
definition reasonNotRegularFile :: string where "reasonNotRegularFile = ''not a regular file''"
definition reasonUnreadable :: string where "reasonUnreadable = ''cannot be read''"

fun failureReason :: "path_error \<Rightarrow> string" where
  "failureReason (OsFailed Permission) = reasonPermissionDenied"
| "failureReason (ErrFileChanged p) = reasonChanged"
| "failureReason (ErrNotRegularFile p) = reasonNotRegularFile"
| "failureReason (ErrPathOutsideRoots p roots) = reasonOutsideRoots"
| "failureReason (ErrHiddenPath p component) = reasonHidden"
| "failureReason (OsFailed NotExist) = reasonNotFound"
| "failureReason e = reasonUnreadable"

fun linkRefusal :: "path_error \<Rightarrow> string" where
  "linkRefusal (ErrHiddenPath p component) = reasonLinkHidden"
| "linkRefusal (ErrPathOutsideRoots p roots) = reasonLinkOutsideRoots"
| "linkRefusal e = reasonLinkUnresolvedPrefix @ failureReason e"

definition reasonAlreadySearched :: "path \<Rightarrow> string" where
  "reasonAlreadySearched first = ''directory already searched through '' @ [CHR 0x27] @ first @ [CHR 0x27]"

section \<open>Listing a directory\<close>

record listed_entry =
  le_name :: string
  le_path :: path
  le_target :: pinned
  le_isLink :: bool
  le_refused :: string
  le_refusedDir :: bool

definition entry_isDir :: "listed_entry \<Rightarrow> bool" where
  "entry_isDir e = (case pn_info (le_target e) of None \<Rightarrow> le_refusedDir e | Some info \<Rightarrow> fi_type info = Directory)"

definition joinWalkPath :: "path \<Rightarrow> string \<Rightarrow> path" where
  "joinWalkPath dir name = (if dir \<noteq> [] \<and> last dir = slash then dir @ name else dir @ slash # name)"

definition isSameOrAncestor :: "path \<Rightarrow> path \<Rightarrow> bool" where
  "isSameOrAncestor dir p =
     (if dir = p then True
      else prefix (if dir \<noteq> [] \<and> last dir = slash then dir else dir @ [slash]) p)"

text \<open>\<^verbatim>\<open>listEntry\<close>: a failure becomes the entry's reason.\<close>

definition listEntry :: "os \<Rightarrow> sandbox \<Rightarrow> handle \<Rightarrow> pinned \<Rightarrow> string \<Rightarrow> nat \<Rightarrow> listed_entry \<times> nat" where
  "listEntry os sb r dir name t =
     (let entry = \<lparr>le_name = name, le_path = joinWalkPath (pn_path dir) name, le_target = no_pinned, le_isLink = False,
                   le_refused = [], le_refusedDir = False\<rparr>
      in case ask (os_lstatAt os r name) t of
           (Inl e, t1) \<Rightarrow> (entry\<lparr>le_refused := reasonUnreadableEntryPrefix @ failureReason e\<rparr>, t1)
         | (Inr info, t1) \<Rightarrow>
             if fi_type info \<noteq> Symlink
             then if \<not> isRegularOrDir info then (entry\<lparr>le_refused := reasonNotRegularFile\<rparr>, t1)
                  else (entry\<lparr>le_target := \<lparr>pn_path = le_path entry, pn_canonical = join2 (pn_canonical dir) name, pn_info = Some info\<rparr>\<rparr>, t1)
             else
               let link = entry\<lparr>le_isLink := True\<rparr>
               in case ask (os_evalSymlinks os (join2 (pn_canonical dir) name)) t1 of
                    (Inl e, t2) \<Rightarrow> (link\<lparr>le_refused := reasonLinkUnresolvedPrefix @ failureReason e\<rparr>, t2)
                  | (Inr canonical, t2) \<Rightarrow>
                      case pinCanonical os sb (le_path entry) canonical t2 of
                        (Inl e, t3) \<Rightarrow>
                          (case ask (os_stat os canonical) t3 of
                             (res, t4) \<Rightarrow> (link\<lparr>le_refused := linkRefusal e,
                                               le_refusedDir := (case res of Inl _ \<Rightarrow> False | Inr i \<Rightarrow> fi_type i = Directory)\<rparr>, t4))
                      | (Inr target, t3) \<Rightarrow>
                          if (case pn_info target of None \<Rightarrow> True | Some i \<Rightarrow> \<not> isRegularOrDir i)
                          then (link\<lparr>le_refused := reasonNotRegularFile\<rparr>, t3)
                          else (link\<lparr>le_target := target\<rparr>, t3))"

fun list_names :: "os \<Rightarrow> sandbox \<Rightarrow> handle \<Rightarrow> pinned \<Rightarrow> string list \<Rightarrow> nat \<Rightarrow> listed_entry list \<times> nat" where
  "list_names os sb r dir [] t = ([], t)"
| "list_names os sb r dir (name # names) t =
     (if skipEntry sb name then list_names os sb r dir names t
      else case listEntry os sb r dir name t of (e, t1) \<Rightarrow>
           case list_names os sb r dir names t1 of (es, t2) \<Rightarrow> (e # es, t2))"

definition readNames :: "os \<Rightarrow> handle \<Rightarrow> string list call" where
  "readNames os r =
     and_then (ask (os_openAt os r [dot])) (\<lambda>d. and_then (ask (os_readNames os d)) (\<lambda>names. give (sort names)))"

definition listDir :: "os \<Rightarrow> sandbox \<Rightarrow> pinned \<Rightarrow> listed_entry list call" where
  "listDir os sb dir =
     (case pn_info dir of
        None \<Rightarrow> fail NoCheckedFile
      | Some info \<Rightarrow>
          and_then (ask (os_openRoot os (pn_path dir))) (\<lambda>r.
          and_then (ask (os_fstat os r)) (\<lambda>opened.
          if \<not> sameFile info opened then fail (ErrFileChanged (pn_path dir))
          else and_then (readNames os r) (\<lambda>names t. case list_names os sb r dir names t of (es, t') \<Rightarrow> (Inr es, t')))))"

section \<open>Walking\<close>

record walk_entry =
  we_path :: path
  we_file :: pinned
  we_dir :: pinned
  we_refused :: string
  we_readErr :: "path_error option"

record dir_link =
  dl_target :: pinned
  dl_from :: path

record dir_walker =
  wr_entries :: "walk_entry list"
  wr_searched :: "(path \<times> path) list"
  wr_deferred :: "dir_link list"

definition plain_entry :: "path \<Rightarrow> walk_entry" where
  "plain_entry p = \<lparr>we_path = p, we_file = no_pinned, we_dir = no_pinned, we_refused = [], we_readErr = None\<rparr>"

definition walk_refuse :: "path \<Rightarrow> string \<Rightarrow> dir_walker \<Rightarrow> dir_walker" where
  "walk_refuse p reason w = w\<lparr>wr_entries := wr_entries w @ [(plain_entry p)\<lparr>we_refused := reason\<rparr>]\<rparr>"

text \<open>
  The walk of a directory runs on fuel, one unit for each directory it is inside; \<open>None\<close> is that the fuel ran out.
  \<open>go\<close> is the walk with the fuel left.
\<close>

type_synonym walk_step = "pinned \<Rightarrow> dir_walker \<Rightarrow> nat \<Rightarrow> (path_error option \<times> dir_walker \<times> nat) option"

definition walk_enter :: "walk_step \<Rightarrow> pinned \<Rightarrow> dir_walker \<Rightarrow> nat \<Rightarrow> (dir_walker \<times> nat) option" where
  "walk_enter go dir w t =
     (case map_of (wr_searched w) (pn_canonical dir) of
        Some first \<Rightarrow> Some (walk_refuse (pn_path dir) (reasonAlreadySearched first) w, t)
      | None \<Rightarrow>
          (case go dir (w\<lparr>wr_searched := (pn_canonical dir, pn_path dir) # wr_searched w\<rparr>) t of
             None \<Rightarrow> None
           | Some (None, w1, t1) \<Rightarrow> Some (w1, t1)
           | Some (Some e, w1, t1) \<Rightarrow>
               Some (w1\<lparr>wr_entries := wr_entries w1 @ [(plain_entry (pn_path dir))\<lparr>we_readErr := Some e\<rparr>]\<rparr>, t1)))"

fun walk_listed :: "walk_step \<Rightarrow> bool \<Rightarrow> pinned \<Rightarrow> listed_entry list \<Rightarrow> dir_walker \<Rightarrow> nat \<Rightarrow> (dir_walker \<times> nat) option" where
  "walk_listed go recursive dir [] w t = Some (w, t)"
| "walk_listed go recursive dir (e # es) w t =
     (if entry_isDir e \<and> \<not> recursive then walk_listed go recursive dir es w t
      else if le_refused e \<noteq> [] then walk_listed go recursive dir es (walk_refuse (le_path e) (le_refused e) w) t
      else if \<not> entry_isDir e
      then walk_listed go recursive dir es
             (w\<lparr>wr_entries := wr_entries w @ [(plain_entry (le_path e))\<lparr>we_file := le_target e, we_dir := dir\<rparr>]\<rparr>) t
      else if le_isLink e
      then walk_listed go recursive dir es
             (w\<lparr>wr_deferred := wr_deferred w @ [\<lparr>dl_target = le_target e, dl_from = pn_canonical dir\<rparr>]\<rparr>) t
      else case walk_enter go (le_target e) w t of
             None \<Rightarrow> None
           | Some (w1, t1) \<Rightarrow> walk_listed go recursive dir es w1 t1)"

primrec walk_dir :: "nat \<Rightarrow> os \<Rightarrow> sandbox \<Rightarrow> bool \<Rightarrow> walk_step" where
  "walk_dir 0 os sb recursive = (\<lambda>dir w t. None)"
| "walk_dir (Suc n) os sb recursive =
     (\<lambda>dir w t. case listDir os sb dir t of
        (Inl e, t1) \<Rightarrow> Some (Some e, w, t1)
      | (Inr listed, t1) \<Rightarrow>
          (case walk_listed (walk_dir n os sb recursive) recursive dir listed w t1 of
             None \<Rightarrow> None
           | Some (w1, t2) \<Rightarrow> Some (None, w1, t2)))"

definition followLink :: "walk_step \<Rightarrow> dir_link \<Rightarrow> dir_walker \<Rightarrow> nat \<Rightarrow> (dir_walker \<times> nat) option" where
  "followLink go link w t =
     (let target = pn_canonical (dl_target link)
      in if map_of (wr_searched w) target \<noteq> None \<and> isSameOrAncestor target (dl_from link)
         then Some (walk_refuse (pn_path (dl_target link)) reasonLinkLoop w, t)
         else walk_enter go (dl_target link) w t)"

text \<open>The loop over the links met, which grow while they are followed, with fuel for its rounds.\<close>

primrec follow_links :: "nat \<Rightarrow> walk_step \<Rightarrow> nat \<Rightarrow> dir_walker \<Rightarrow> nat \<Rightarrow> (dir_walker \<times> nat) option" where
  "follow_links 0 go i w t = (if i \<ge> length (wr_deferred w) then Some (w, t) else None)"
| "follow_links (Suc m) go i w t =
     (if i \<ge> length (wr_deferred w) then Some (w, t)
      else case followLink go (wr_deferred w ! i) w t of
             None \<Rightarrow> None
           | Some (w1, t1) \<Rightarrow> follow_links m go (i + 1) w1 t1)"

definition new_dir_walker :: "pinned \<Rightarrow> dir_walker" where
  "new_dir_walker dir = \<lparr>wr_entries = [], wr_searched = [(pn_canonical dir, pn_path dir)], wr_deferred = []\<rparr>"

text \<open>The walker at the end, for what is shown of the directories entered; the code returns its entries.\<close>

definition walk_all_pinned ::
  "nat \<Rightarrow> nat \<Rightarrow> os \<Rightarrow> sandbox \<Rightarrow> pinned \<Rightarrow> bool \<Rightarrow> nat \<Rightarrow> ((path_error + dir_walker) \<times> nat) option" where
  "walk_all_pinned n m os sb dir recursive t =
     (case walk_dir n os sb recursive dir (new_dir_walker dir) t of
        None \<Rightarrow> None
      | Some (Some e, w, t1) \<Rightarrow> Some (Inl e, t1)
      | Some (None, w, t1) \<Rightarrow>
          (case follow_links m (walk_dir n os sb recursive) 0 w t1 of
             None \<Rightarrow> None
           | Some (w1, t2) \<Rightarrow> Some (Inr w1, t2)))"

definition walkPinned ::
  "nat \<Rightarrow> nat \<Rightarrow> os \<Rightarrow> sandbox \<Rightarrow> pinned \<Rightarrow> bool \<Rightarrow> nat \<Rightarrow> ((path_error + walk_entry list) \<times> nat) option" where
  "walkPinned n m os sb dir recursive t =
     map_option (\<lambda>(res, t'). (map_sum id wr_entries res, t')) (walk_all_pinned n m os sb dir recursive t)"

definition walkDir ::
  "nat \<Rightarrow> nat \<Rightarrow> os \<Rightarrow> sandbox \<Rightarrow> path \<Rightarrow> bool \<Rightarrow> nat \<Rightarrow> ((path_error + walk_entry list) \<times> nat) option" where
  "walkDir n m os sb dir recursive t =
     (case pin os sb dir t of
        (Inl e, t1) \<Rightarrow> Some (Inl e, t1)
      | (Inr p, t1) \<Rightarrow> walkPinned n m os sb p recursive t1)"

end
