(* ===== verification/WalkFacts.thy ===== *)
theory WalkFacts
  imports DirWalk
begin

text \<open>What a walk reports: every file of it is checked as a named path would be, and a tree with finitely many directories is walked to its end.\<close>

section \<open>Listing\<close>

lemma linkRefusal_nonempty: "linkRefusal e \<noteq> []"
  by (cases e) (simp_all add: reasonLinkHidden_def reasonLinkOutsideRoots_def reasonLinkUnresolvedPrefix_def)

lemmas reasons_nonempty = linkRefusal_nonempty reasonUnreadableEntryPrefix_def reasonNotRegularFile_def reasonLinkUnresolvedPrefix_def

lemma ask_time: "ask q t = (x, t') \<Longrightarrow> t' = t + 1"
  by (auto simp: ask_def)

text \<open>The ways an entry is listed: without a target, as a real entry, or as a link whose target passed the check.\<close>

lemma listEntry_cases:
  assumes "listEntry os sb h dir name t = (e, t')"
  obtains (none) "pn_info (le_target e) = None" "le_refused e \<noteq> []" "t \<le> t'"
    | (real) info where "os_lstatAt os h name t = Inr info" "fi_type info \<noteq> Symlink" "isRegularOrDir info" "t' = t + 1"
        "le_target e = \<lparr>pn_path = joinWalkPath (pn_path dir) name, pn_canonical = join2 (pn_canonical dir) name, pn_info = Some info\<rparr>"
    | (link) canonical where "os_evalSymlinks os (join2 (pn_canonical dir) name) (t + 1) = Inr canonical"
        "pinCanonical os sb (joinWalkPath (pn_path dir) name) canonical (t + 2) = (Inr (le_target e), t')"
        "\<exists>i. pn_info (le_target e) = Some i \<and> isRegularOrDir i"
proof (cases "os_lstatAt os h name t")
  case (Inl err)
  then show ?thesis using assms none by (auto simp: listEntry_def ask_def no_pinned_def reasons_nonempty)
next
  case (Inr info)
  show ?thesis
  proof (cases "fi_type info = Symlink")
    case False
    then show ?thesis using assms Inr none real
      by (cases "isRegularOrDir info") (auto simp: listEntry_def ask_def no_pinned_def reasons_nonempty)
  next
    case True
    note link1 = True
    show ?thesis
    proof (cases "os_evalSymlinks os (join2 (pn_canonical dir) name) (t + 1)")
      case (Inl err)
      then show ?thesis using assms Inr True none by (auto simp: listEntry_def ask_def no_pinned_def reasons_nonempty)
    next
      case canon: (Inr canonical)
      obtain res t3 where p: "pinCanonical os sb (joinWalkPath (pn_path dir) name) canonical (t + 2) = (res, t3)" by force
      have t3: "t + 2 \<le> t3" by (rule later_le [OF later_pin_canonical p])
      show ?thesis
      proof (cases res)
        case (Inl err)
        then show ?thesis using assms Inr True canon p t3 none by (auto simp: listEntry_def ask_def no_pinned_def reasons_nonempty)
      next
        case (Inr target)
        have e: "listEntry os sb h dir name t =
            (\<lparr>le_name = name, le_path = joinWalkPath (pn_path dir) name,
              le_target = (if (case pn_info target of None \<Rightarrow> True | Some i \<Rightarrow> \<not> isRegularOrDir i) then no_pinned else target),
              le_isLink = True,
              le_refused = (if (case pn_info target of None \<Rightarrow> True | Some i \<Rightarrow> \<not> isRegularOrDir i) then reasonNotRegularFile else []),
              le_refusedDir = False\<rparr>, t3)"
          using \<open>os_lstatAt os h name t = Inr info\<close> True canon p Inr by (simp add: listEntry_def ask_def no_pinned_def)
        show ?thesis
        proof (cases "case pn_info target of None \<Rightarrow> True | Some i \<Rightarrow> \<not> isRegularOrDir i")
          case True
          then show ?thesis using assms e t3 by (intro none) (auto simp: no_pinned_def reasons_nonempty)
        next
          case False
          then show ?thesis using assms e p Inr by (intro link [OF canon]) (auto split: option.splits)
        qed
      qed
    qed
  qed
qed

lemma listEntry_later: "listEntry os sb h dir name t = (e, t') \<Longrightarrow> t \<le> t'"
  by (erule listEntry_cases) (auto dest: later_le [OF later_pin_canonical])

definition target_ok :: "os \<Rightarrow> sandbox \<Rightarrow> nat \<Rightarrow> nat \<Rightarrow> pinned \<Rightarrow> bool" where
  "target_ok os sb a b p \<longleftrightarrow> pin_checked os sb a b p \<and> (\<exists>i. pn_info p = Some i \<and> isRegularOrDir i)"

lemma target_ok_wider: "target_ok os sb a b p \<Longrightarrow> b \<le> b' \<Longrightarrow> target_ok os sb a b' p"
  unfolding target_ok_def using pin_checked_wider by blast

definition listed_ok :: "os \<Rightarrow> sandbox \<Rightarrow> nat \<Rightarrow> nat \<Rightarrow> listed_entry \<Rightarrow> bool" where
  "listed_ok os sb a b e \<longleftrightarrow> le_refused e \<noteq> [] \<and> pn_info (le_target e) = None \<or> target_ok os sb a b (le_target e)"

lemma listed_ok_wider: "listed_ok os sb a b e \<Longrightarrow> b \<le> b' \<Longrightarrow> listed_ok os sb a b' e"
  unfolding listed_ok_def using target_ok_wider by blast

definition settings_ok :: "os \<Rightarrow> sandbox \<Rightarrow> bool" where
  "settings_ok os sb \<longleftrightarrow> documented os \<and> clean_roots (sb_roots sb) \<and> sb_roots sb \<noteq> []"

lemma child_lies_in:
  assumes "lies_in r c names" and "is_name name"
  shows "lies_in r (join2 c name) (names @ [name])"
  using assms elements_join2 [of c name] by (simp add: lies_in_def)

lemma served_child:
  assumes "served sb c" and "\<not> skipEntry sb name" and "is_name name"
  shows "served sb (join2 c name)"
proof -
  obtain r names where r: "r \<in> set (sb_roots sb)" "lies_in r c names"
    "sb_hidden sb \<or> list_all (\<lambda>n. \<not> isHiddenName n) names" using assms(1) by (auto simp: served_def)
  have "lies_in r (join2 c name) (names @ [name])" "sb_hidden sb \<or> list_all (\<lambda>n. \<not> isHiddenName n) (names @ [name])"
    using r child_lies_in assms(2,3) by (auto simp: skipEntry_def)
  then show ?thesis using r(1) unfolding served_def by blast
qed

lemma listEntry_ok:
  assumes "listEntry os sb h dir name t = (e, t')" and "settings_ok os sb"
    and dir: "r \<in> set (sb_roots sb)" "lies_in r (pn_canonical dir) names" "served sb (pn_canonical dir)"
      "dir_at os a t r names h"
    and name: "is_name name" "\<not> skipEntry sb name" and "a \<le> t"
  shows "listed_ok os sb a t' e"
proof -
  have s: "documented os" "clean_roots (sb_roots sb)" "sb_roots sb \<noteq> []" using assms(2) by (auto simp: settings_ok_def)
  have child: "lies_in r (join2 (pn_canonical dir) name) (names @ [name])" by (rule child_lies_in [OF dir(2) name(1)])
  then have cclean: "is_clean (join2 (pn_canonical dir) name)" by (simp add: lies_in_def)
  from assms(1) show ?thesis
  proof (cases rule: listEntry_cases)
    case (real info)
    have "dir_at os a t' r names h" by (rule at_wider(1) [OF dir(4)]) (use real(4) in simp_all)
    then have "file_at os a t' r (names @ [name]) info"
      by (rule seen_in [OF _ \<open>a \<le> t\<close> _ real(1,2)]) (use real(4) in simp)
    moreover have "served sb (join2 (pn_canonical dir) name)" by (rule served_child [OF dir(3) name(2,1)])
    ultimately have "pin_checked os sb a t' (le_target e)"
      unfolding pin_checked_def real(5) using real(2) dir(1) child
      by (intro exI [of _ info] exI [of _ r] exI [of _ "names @ [name]"]) simp
    then show ?thesis using real(3,5) by (simp add: target_ok_def listed_ok_def)
  next
    case (link canonical)
    have "is_clean canonical" by (rule documented_eval [OF s(1) cclean link(1)])
    then have "pin_checked os sb (t + 2) t' (le_target e)" using pinCanonical_checked [OF link(2)] pin_named_checked s by blast
    then have "pin_checked os sb a t' (le_target e)" by (rule pin_checked_wider) (use \<open>a \<le> t\<close> in simp_all)
    then show ?thesis using link(3) by (simp add: target_ok_def listed_ok_def)
  qed (simp add: listed_ok_def)
qed

lemma list_names_ok:
  assumes "settings_ok os sb" and dir: "r \<in> set (sb_roots sb)" "lies_in r (pn_canonical dir) names" "served sb (pn_canonical dir)"
  shows "list_names os sb h dir ns t = (es, t') \<Longrightarrow> list_all is_name ns \<Longrightarrow> dir_at os a t r names h \<Longrightarrow> a \<le> t \<Longrightarrow>
    t \<le> t' \<and> (\<forall>e \<in> set es. listed_ok os sb a t' e)"
proof (induction ns arbitrary: t es)
  case (Cons name ns)
  show ?case
  proof (cases "skipEntry sb name")
    case True
    then show ?thesis using Cons by simp
  next
    case False
    then obtain e t1 es1 where e: "listEntry os sb h dir name t = (e, t1)" "list_names os sb h dir ns t1 = (es1, t')" "es = e # es1"
      using Cons.prems(1) by (auto split: prod.splits)
    have t1: "t \<le> t1" by (rule listEntry_later [OF e(1)])
    have rest: "t1 \<le> t' \<and> (\<forall>e \<in> set es1. listed_ok os sb a t' e)"
      using Cons.IH [OF e(2)] Cons.prems(2,4) at_wider(1) [OF Cons.prems(3)] t1 by simp
    moreover have "listed_ok os sb a t1 e"
      using listEntry_ok [OF e(1) assms(1) dir Cons.prems(3)] Cons.prems(2,4) False by simp
    ultimately show ?thesis using listed_ok_wider t1 unfolding e(3) by fastforce
  qed
qed simp

lemma listDir_ok:
  assumes "listDir os sb dir t = (Inr es, t')" and "settings_ok os sb" and "pin_checked os sb a t dir" and "a \<le> t"
  shows "t \<le> t' \<and> (\<forall>e \<in> set es. listed_ok os sb a t' e)"
proof -
  from assms(3) obtain info r names where d: "pn_info dir = Some info" "r \<in> set (sb_roots sb)"
    "lies_in r (pn_canonical dir) names" "file_at os a t r names info" "served sb (pn_canonical dir)"
    unfolding pin_checked_def by blast
  from assms(1) d(1) obtain h opened s1 d' ns where c: "os_openRoot os (pn_path dir) t = Inr h" "os_fstat os h (t + 1) = Inr opened"
    "sameFile info opened" "os_readNames os d' (t + 3) = Inr ns" "list_names os sb h dir (sort ns) (t + 4) = (es, t')"
    by (auto simp: listDir_def readNames_def eval_nat_numeral split: if_splits prod.splits elim!: call_elims)
  have "file_at os a (t + 4) r names info" by (rule at_wider(2) [OF d(4)]) simp_all
  then have at: "dir_at os a (t + 4) r names h" by (rule dir_open [OF _ _ _ c(2,3)]) (use assms(4) in simp_all)
  have "list_all is_name ns" using assms(2) c(4) unfolding settings_ok_def documented_def by blast
  then have "list_all is_name (sort ns)" by (simp add: list_all_iff)
  from list_names_ok [OF assms(2) d(2,3,5) c(5) this at] assms(4) show ?thesis by simp
qed

lemma later_listDir: "listDir os sb dir t = (x, t') \<Longrightarrow> t \<le> t'"
proof -
  have names: "t \<le> snd (list_names os sb h dir ns t)" for h ns t
  proof (induction ns arbitrary: t)
    case (Cons n ns)
    show ?case
    proof (cases "skipEntry sb n")
      case False
      obtain e t1 where e: "listEntry os sb h dir n t = (e, t1)" by force
      show ?thesis using False e listEntry_later [OF e] Cons.IH [of t1] by (auto split: prod.split)
    qed (use Cons in simp)
  qed simp
  have "later (\<lambda>t. case list_names os sb h dir ns t of (es, t') \<Rightarrow> (Inr es, t'))" for h ns
    using names by (auto simp: later_def split: prod.split) (metis snd_conv)
  then have "later (listDir os sb dir)" by (auto simp: listDir_def readNames_def split: option.split)
  then show "listDir os sb dir t = (x, t') \<Longrightarrow> t \<le> t'" by (rule later_le)
qed

end
