(* ===== verification/WalkSafe.thy ===== *)
theory WalkSafe
  imports WalkFacts
begin

text \<open>The walk keeps what it holds checked, and ends.\<close>

section \<open>Everything a walk holds is checked\<close>

definition entry_ok :: "os \<Rightarrow> sandbox \<Rightarrow> nat \<Rightarrow> nat \<Rightarrow> walk_entry \<Rightarrow> bool" where
  "entry_ok os sb a b en \<longleftrightarrow> pn_info (we_file en) = None \<or>
     target_ok os sb a b (we_file en) \<and> pin_checked os sb a b (we_dir en)"

definition walker_ok :: "os \<Rightarrow> sandbox \<Rightarrow> nat \<Rightarrow> nat \<Rightarrow> dir_walker \<Rightarrow> bool" where
  "walker_ok os sb a b w \<longleftrightarrow> list_all (entry_ok os sb a b) (wr_entries w) \<and>
     list_all (\<lambda>l. target_ok os sb a b (dl_target l)) (wr_deferred w)"

lemma walker_ok_wider: "walker_ok os sb a b w \<Longrightarrow> b \<le> b' \<Longrightarrow> walker_ok os sb a b' w"
  unfolding walker_ok_def entry_ok_def list_all_iff using target_ok_wider pin_checked_wider by blast

lemma walker_ok_plain:
  "walker_ok os sb a b w \<Longrightarrow> walker_ok os sb a b (w\<lparr>wr_entries := wr_entries w @ [(plain_entry p)\<lparr>we_refused := x\<rparr>]\<rparr>)"
  "walker_ok os sb a b w \<Longrightarrow> walker_ok os sb a b (w\<lparr>wr_entries := wr_entries w @ [(plain_entry p)\<lparr>we_readErr := y\<rparr>]\<rparr>)"
  "walker_ok os sb a b (w\<lparr>wr_searched := z\<rparr>) = walker_ok os sb a b w"
  by (simp_all add: walker_ok_def entry_ok_def plain_entry_def no_pinned_def)

definition step_ok :: "os \<Rightarrow> sandbox \<Rightarrow> nat \<Rightarrow> walk_step \<Rightarrow> bool" where
  "step_ok os sb a go \<longleftrightarrow> (\<forall>dir w t r w' t'. go dir w t = Some (r, w', t') \<longrightarrow> pin_checked os sb a t dir \<longrightarrow>
     walker_ok os sb a t w \<longrightarrow> a \<le> t \<longrightarrow> t \<le> t' \<and> walker_ok os sb a t' w')"

lemma walk_enter_ok:
  assumes "step_ok os sb a go" and "walk_enter go dir w t = Some (w', t')" and "pin_checked os sb a t dir" and "walker_ok os sb a t w"
    and "a \<le> t"
  shows "t \<le> t' \<and> walker_ok os sb a t' w'"
proof (cases "map_of (wr_searched w) (pn_canonical dir)")
  case (Some first)
  then show ?thesis using assms by (auto simp: walk_enter_def walk_refuse_def intro: walker_ok_plain(1))
next
  case None
  then obtain r w1 where g: "go dir (w\<lparr>wr_searched := (pn_canonical dir, pn_path dir) # wr_searched w\<rparr>) t = Some (r, w1, t')"
    "w' = (case r of None \<Rightarrow> w1 | Some e \<Rightarrow> w1\<lparr>wr_entries := wr_entries w1 @ [(plain_entry (pn_path dir))\<lparr>we_readErr := Some e\<rparr>]\<rparr>)"
    using assms(2) by (auto simp: walk_enter_def split: option.splits prod.splits)
  have "walker_ok os sb a t (w\<lparr>wr_searched := (pn_canonical dir, pn_path dir) # wr_searched w\<rparr>)"
    using assms(4) walker_ok_plain(3) by blast
  then have "t \<le> t' \<and> walker_ok os sb a t' w1" using assms(1,3,5) g(1) unfolding step_ok_def by blast
  then show ?thesis using g(2) walker_ok_plain(2) by (auto split: option.split)
qed

lemma walk_listed_ok:
  assumes "step_ok os sb a go"
  shows "walk_listed go recursive dir es w t = Some (w', t') \<Longrightarrow> \<forall>e \<in> set es. listed_ok os sb a t e \<Longrightarrow>
    pin_checked os sb a t dir \<Longrightarrow> walker_ok os sb a t w \<Longrightarrow> a \<le> t \<Longrightarrow> t \<le> t' \<and> walker_ok os sb a t' w'"
proof (induction es arbitrary: w t)
  case (Cons e es)
  note step = Cons.IH [OF _ _ Cons.prems(3) _ Cons.prems(5)]
  have rest: "\<forall>e \<in> set es. listed_ok os sb a t e" using Cons.prems(2) by simp
  have e: "le_refused e \<noteq> [] \<or> target_ok os sb a t (le_target e)" using Cons.prems(2) by (auto simp: listed_ok_def)
  consider (pass) "entry_isDir e" "\<not> recursive" | (refused) "le_refused e \<noteq> []" "\<not> (entry_isDir e \<and> \<not> recursive)"
    | (plain) "le_refused e = []" "\<not> entry_isDir e"
    | (link) "le_refused e = []" "entry_isDir e" "recursive" "le_isLink e"
    | (inner) "le_refused e = []" "entry_isDir e" "recursive" "\<not> le_isLink e" by blast
  then show ?case
  proof cases
    case pass
    then show ?thesis using Cons rest by simp
  next
    case refused
    have "walk_listed go recursive dir es (walk_refuse (le_path e) (le_refused e) w) t = Some (w', t')"
      using Cons.prems(1) refused by (auto split: if_splits)
    from step [OF this rest] show ?thesis using walker_ok_plain(1) Cons.prems(4) by (simp add: walk_refuse_def)
  next
    case plain
    let ?w = "w\<lparr>wr_entries := wr_entries w @ [(plain_entry (le_path e))\<lparr>we_file := le_target e, we_dir := dir\<rparr>]\<rparr>"
    have "walk_listed go recursive dir es ?w t = Some (w', t')" using Cons.prems(1) plain by simp
    moreover have "walker_ok os sb a t ?w" using Cons.prems(3,4) e plain(1) by (auto simp: walker_ok_def entry_ok_def)
    ultimately show ?thesis using step [OF _ rest] by blast
  next
    case link
    let ?w = "w\<lparr>wr_deferred := wr_deferred w @ [\<lparr>dl_target = le_target e, dl_from = pn_canonical dir\<rparr>]\<rparr>"
    have "walk_listed go recursive dir es ?w t = Some (w', t')" using Cons.prems(1) link by simp
    moreover have "walker_ok os sb a t ?w" using Cons.prems(4) e link(1) by (simp add: walker_ok_def)
    ultimately show ?thesis using step [OF _ rest] by blast
  next
    case inner
    then obtain w1 t1 where w1: "walk_enter go (le_target e) w t = Some (w1, t1)" "walk_listed go recursive dir es w1 t1 = Some (w', t')"
      using Cons.prems(1) by (auto split: option.splits)
    have "pin_checked os sb a t (le_target e)" using e inner(1) by (simp add: target_ok_def)
    from walk_enter_ok [OF assms w1(1) this Cons.prems(4,5)] have t1: "t \<le> t1" "walker_ok os sb a t1 w1" by auto
    moreover have "\<forall>e \<in> set es. listed_ok os sb a t1 e" using rest listed_ok_wider t1(1) by blast
    moreover have "pin_checked os sb a t1 dir" by (rule pin_checked_wider [OF Cons.prems(3)]) (use t1(1) in simp_all)
    ultimately show ?thesis using Cons.IH [OF w1(2)] Cons.prems(5) by simp
  qed
qed simp

lemma walk_dir_ok:
  assumes "settings_ok os sb"
  shows "step_ok os sb a (walk_dir n os sb recursive)"
proof (induction n)
  case (Suc n)
  show ?case
    unfolding step_ok_def
  proof (intro allI impI)
    fix dir w t r w' t'
    assume go: "walk_dir (Suc n) os sb recursive dir w t = Some (r, w', t')" and dir: "pin_checked os sb a t dir"
      and w: "walker_ok os sb a t w" and "a \<le> t"
    obtain res t1 where l: "listDir os sb dir t = (res, t1)" by force
    have t1: "t \<le> t1" by (rule later_listDir [OF l])
    show "t \<le> t' \<and> walker_ok os sb a t' w'"
    proof (cases res)
      case (Inl e)
      then show ?thesis using go l t1 walker_ok_wider [OF w] by auto
    next
      case (Inr listed)
      then have go': "walk_listed (walk_dir n os sb recursive) recursive dir listed w t1 = Some (w', t')"
        using go l by (auto split: option.splits prod.splits)
      have "\<forall>e \<in> set listed. listed_ok os sb a t1 e" using listDir_ok [OF _ assms dir \<open>a \<le> t\<close>] l Inr by blast
      moreover have "pin_checked os sb a t1 dir" by (rule pin_checked_wider [OF dir]) (use t1 in simp_all)
      moreover have "walker_ok os sb a t1 w" by (rule walker_ok_wider [OF w t1])
      ultimately show ?thesis using walk_listed_ok [OF Suc.IH go'] \<open>a \<le> t\<close> t1 by simp
    qed
  qed
qed (simp add: step_ok_def)

lemma follow_links_ok:
  assumes "step_ok os sb a go"
  shows "follow_links m go i w t = Some (w', t') \<Longrightarrow> walker_ok os sb a t w \<Longrightarrow> a \<le> t \<Longrightarrow> t \<le> t' \<and> walker_ok os sb a t' w'"
proof (induction m arbitrary: i w t)
  case 0
  then show ?case by (auto split: if_splits)
next
  case (Suc m)
  show ?case
  proof (cases "i \<ge> length (wr_deferred w)")
    case True
    then show ?thesis using Suc.prems by simp
  next
    case False
    let ?link = "wr_deferred w ! i"
    obtain w1 t1 where w1: "followLink go ?link w t = Some (w1, t1)" "follow_links m go (i + 1) w1 t1 = Some (w', t')"
      using Suc.prems(1) False by (auto split: option.splits)
    have "pin_checked os sb a t (dl_target ?link)"
      using Suc.prems(2) False by (simp add: walker_ok_def list_all_length target_ok_def)
    then have "t \<le> t1 \<and> walker_ok os sb a t1 w1"
      using w1(1) walk_enter_ok [OF assms _ _ Suc.prems(2,3)] walker_ok_plain(1) [OF Suc.prems(2)]
      by (auto simp: followLink_def Let_def walk_refuse_def split: if_splits)
    then show ?thesis using Suc.IH [OF w1(2)] Suc.prems(3) by auto
  qed
qed

lemma walkPinned_ok:
  assumes "settings_ok os sb" and "pin_checked os sb a t dir" and "a \<le> t" and "walkPinned n m os sb dir recursive t = Some (Inr entries, t')"
  shows "list_all (entry_ok os sb a t') entries"
proof -
  from assms(4) obtain w1 where w1: "walk_all_pinned n m os sb dir recursive t = Some (Inr w1, t')" "entries = wr_entries w1"
    by (auto simp: walkPinned_def) (metis map_sum.simps(1) sum.exhaust sum.simps(4) map_sum.simps(2) sum.inject(2))
  from w1(1) obtain w t1 where w: "walk_dir n os sb recursive dir (new_dir_walker dir) t = Some (None, w, t1)"
    "follow_links m (walk_dir n os sb recursive) 0 w t1 = Some (w1, t')"
    by (auto simp: walk_all_pinned_def split: option.splits prod.splits)
  have "walker_ok os sb a t (new_dir_walker dir)" by (simp add: walker_ok_def new_dir_walker_def)
  then have "t \<le> t1 \<and> walker_ok os sb a t1 w" using walk_dir_ok [OF assms(1)] w(1) assms(2,3) unfolding step_ok_def by blast
  then have "walker_ok os sb a t' w1" using follow_links_ok [OF walk_dir_ok [OF assms(1)] w(2)] assms(3) by simp
  then show ?thesis using w1(2) by (simp add: walker_ok_def)
qed

section \<open>The walk ends\<close>

text \<open>\<open>D\<close> holds every directory a listing of one of them leads to, and no listing has more than \<open>k\<close> entries.\<close>

definition listings_within :: "os \<Rightarrow> sandbox \<Rightarrow> pinned set \<Rightarrow> nat \<Rightarrow> bool" where
  "listings_within os sb D k \<longleftrightarrow> (\<forall>dir \<in> D. \<forall>t es t'. listDir os sb dir t = (Inr es, t') \<longrightarrow> length es \<le> k \<and>
     (\<forall>e \<in> set es. le_refused e = [] \<longrightarrow> entry_isDir e \<longrightarrow> le_target e \<in> D))"

definition fits :: "pinned set \<Rightarrow> dir_walker \<Rightarrow> bool" where
  "fits D w \<longleftrightarrow> distinct (map fst (wr_searched w)) \<and> fst ` set (wr_searched w) \<subseteq> pn_canonical ` D \<and>
     (\<forall>l \<in> set (wr_deferred w). dl_target l \<in> D)"

lemma fits_searched:
  assumes "fits D w" and "finite (pn_canonical ` D)"
  shows "length (wr_searched w) \<le> card (pn_canonical ` D)"
proof -
  have "length (wr_searched w) = card (set (map fst (wr_searched w)))"
    using assms(1) distinct_card [of "map fst (wr_searched w)"] by (simp add: fits_def)
  also have "\<dots> \<le> card (pn_canonical ` D)" using assms by (intro card_mono) (auto simp: fits_def)
  finally show ?thesis .
qed

text \<open>
  A step that ends from any fitting walker with room for \<open>k\<close> more links, and leaves room: \<open>n\<close> bounds how many directories
  it may still enter.
\<close>

definition step_ends :: "pinned set \<Rightarrow> nat \<Rightarrow> nat \<Rightarrow> walk_step \<Rightarrow> bool" where
  "step_ends D k n go \<longleftrightarrow> (\<forall>dir w t c. dir \<in> D \<longrightarrow> fits D w \<longrightarrow> length (wr_deferred w) + c + k \<le> k * length (wr_searched w) \<longrightarrow>
     card (pn_canonical ` D) < n + length (wr_searched w) \<longrightarrow>
     (\<exists>r w' t'. go dir w t = Some (r, w', t') \<and> fits D w' \<and> length (wr_deferred w') + c \<le> k * length (wr_searched w') \<and>
        length (wr_searched w) \<le> length (wr_searched w')))"

lemma walk_enter_ends:
  assumes "step_ends D k n go" and "dir \<in> D" and "fits D w" and "length (wr_deferred w) + c \<le> k * length (wr_searched w)"
    and "card (pn_canonical ` D) \<le> n + length (wr_searched w)"
  shows "\<exists>w' t'. walk_enter go dir w t = Some (w', t') \<and> fits D w' \<and> length (wr_deferred w') + c \<le> k * length (wr_searched w') \<and>
    length (wr_searched w) \<le> length (wr_searched w')"
proof (cases "map_of (wr_searched w) (pn_canonical dir)")
  case (Some first)
  then show ?thesis using assms by (simp add: walk_enter_def walk_refuse_def fits_def)
next
  case None
  let ?w = "w\<lparr>wr_searched := (pn_canonical dir, pn_path dir) # wr_searched w\<rparr>"
  have "pn_canonical dir \<notin> fst ` set (wr_searched w)" using None by (simp add: map_of_eq_None_iff)
  then have "fits D ?w" using assms(2,3) by (auto simp: fits_def)
  moreover have "length (wr_deferred ?w) + c + k \<le> k * length (wr_searched ?w)" using assms(4) by simp
  moreover have "card (pn_canonical ` D) < n + length (wr_searched ?w)" using assms(5) by simp
  ultimately obtain r w' t' where g: "go dir ?w t = Some (r, w', t')" "fits D w'"
    "length (wr_deferred w') + c \<le> k * length (wr_searched w')" "length (wr_searched ?w) \<le> length (wr_searched w')"
    using assms(1,2) unfolding step_ends_def by blast
  then show ?thesis using None by (cases r) (auto simp: walk_enter_def fits_def)
qed

lemma walk_listed_ends:
  assumes "step_ends D k n go"
  shows "\<forall>e \<in> set es. le_refused e = [] \<longrightarrow> entry_isDir e \<longrightarrow> le_target e \<in> D \<Longrightarrow> fits D w \<Longrightarrow>
    length (wr_deferred w) + c + length es \<le> k * length (wr_searched w) \<Longrightarrow> card (pn_canonical ` D) \<le> n + length (wr_searched w) \<Longrightarrow>
    \<exists>w' t'. walk_listed go recursive dir es w t = Some (w', t') \<and> fits D w' \<and>
      length (wr_deferred w') + c \<le> k * length (wr_searched w') \<and> length (wr_searched w) \<le> length (wr_searched w')"
proof (induction es arbitrary: w t)
  case (Cons e es)
  have rest: "\<forall>e \<in> set es. le_refused e = [] \<longrightarrow> entry_isDir e \<longrightarrow> le_target e \<in> D" using Cons.prems(1) by simp
  have same: ?case if "walk_listed go recursive dir (e # es) w t = walk_listed go recursive dir es w1 t"
    "fits D w1" "length (wr_deferred w1) \<le> length (wr_deferred w) + 1" "wr_searched w1 = wr_searched w" for w1
    using Cons.IH [OF rest that(2), of t] that Cons.prems(3,4) by simp
  consider (pass) "entry_isDir e" "\<not> recursive" | (refused) "le_refused e \<noteq> []" "\<not> (entry_isDir e \<and> \<not> recursive)"
    | (plain) "le_refused e = []" "\<not> entry_isDir e"
    | (link) "le_refused e = []" "entry_isDir e" "recursive" "le_isLink e"
    | (inner) "le_refused e = []" "entry_isDir e" "recursive" "\<not> le_isLink e" by blast
  then show ?case
  proof cases
    case pass
    then show ?thesis by (intro same [of w]) (use Cons.prems(2) in simp_all)
  next
    case refused
    then show ?thesis by (intro same [of "walk_refuse (le_path e) (le_refused e) w"])
        (use Cons.prems(2) in \<open>auto simp: walk_refuse_def fits_def\<close>)
  next
    case plain
    then show ?thesis
      by (intro same [of "w\<lparr>wr_entries := wr_entries w @ [(plain_entry (le_path e))\<lparr>we_file := le_target e, we_dir := dir\<rparr>]\<rparr>"])
        (use Cons.prems(2) in \<open>auto simp: fits_def\<close>)
  next
    case link
    then show ?thesis
      by (intro same [of "w\<lparr>wr_deferred := wr_deferred w @ [\<lparr>dl_target = le_target e, dl_from = pn_canonical dir\<rparr>]\<rparr>"])
        (use Cons.prems(1,2) in \<open>auto simp: fits_def\<close>)
  next
    case inner
    have d: "le_target e \<in> D" using Cons.prems(1) inner by simp
    have "length (wr_deferred w) + (c + length es) \<le> k * length (wr_searched w)" using Cons.prems(3) by simp
    from walk_enter_ends [OF assms d Cons.prems(2) this Cons.prems(4)] obtain w1 t1 where
      w1: "walk_enter go (le_target e) w t = Some (w1, t1)" "fits D w1"
        "length (wr_deferred w1) + (c + length es) \<le> k * length (wr_searched w1)" "length (wr_searched w) \<le> length (wr_searched w1)"
      by blast
    have "walk_listed go recursive dir (e # es) w t = walk_listed go recursive dir es w1 t1" using inner w1(1) by simp
    then show ?thesis using Cons.IH [OF rest w1(2), of t1] w1(3,4) Cons.prems(4) by auto
  qed
qed simp

lemma walk_dir_ends:
  assumes "listings_within os sb D k" and "finite (pn_canonical ` D)"
  shows "step_ends D k n (walk_dir n os sb recursive)"
proof (induction n)
  case 0
  show ?case unfolding step_ends_def using fits_searched [OF _ assms(2)] by (metis add_0 leD)
next
  case (Suc n)
  show ?case
    unfolding step_ends_def
  proof (intro allI impI)
    fix dir w t c
    assume d: "dir \<in> D" and w: "fits D w" and room: "length (wr_deferred w) + c + k \<le> k * length (wr_searched w)"
      and fuel: "card (pn_canonical ` D) < Suc n + length (wr_searched w)"
    obtain res t1 where l: "listDir os sb dir t = (res, t1)" by force
    show "\<exists>r w' t'. walk_dir (Suc n) os sb recursive dir w t = Some (r, w', t') \<and> fits D w' \<and>
        length (wr_deferred w') + c \<le> k * length (wr_searched w') \<and> length (wr_searched w) \<le> length (wr_searched w')"
    proof (cases res)
      case (Inl e)
      then show ?thesis using l w room by simp
    next
      case (Inr es)
      then have es: "length es \<le> k" "\<forall>e \<in> set es. le_refused e = [] \<longrightarrow> entry_isDir e \<longrightarrow> le_target e \<in> D"
        using assms(1) d l unfolding listings_within_def by auto
      have "length (wr_deferred w) + c + length es \<le> k * length (wr_searched w)" using room es(1) by simp
      moreover have "card (pn_canonical ` D) \<le> n + length (wr_searched w)" using fuel by simp
      ultimately obtain w' t' where "walk_listed (walk_dir n os sb recursive) recursive dir es w t1 = Some (w', t')" "fits D w'"
        "length (wr_deferred w') + c \<le> k * length (wr_searched w')" "length (wr_searched w) \<le> length (wr_searched w')"
        using walk_listed_ends [OF Suc.IH es(2) w] by blast
      then show ?thesis using l Inr by simp
    qed
  qed
qed

lemma follow_links_ends:
  assumes "step_ends D k n go" and "finite (pn_canonical ` D)"
  shows "fits D w \<Longrightarrow> length (wr_deferred w) \<le> k * length (wr_searched w) \<Longrightarrow> card (pn_canonical ` D) \<le> n + length (wr_searched w) \<Longrightarrow>
    k * card (pn_canonical ` D) \<le> m + i \<Longrightarrow> \<exists>w' t'. follow_links m go i w t = Some (w', t') \<and> fits D w'"
proof (induction m arbitrary: i w t)
  case 0
  have "length (wr_deferred w) \<le> k * card (pn_canonical ` D)"
    using 0(2) mult_le_mono2 [OF fits_searched [OF 0(1) assms(2)], of k] by linarith
  then show ?case using 0 by simp
next
  case (Suc m)
  show ?case
  proof (cases "i \<ge> length (wr_deferred w)")
    case True
    then show ?thesis using Suc.prems(1) by simp
  next
    case False
    let ?link = "wr_deferred w ! i"
    have d: "dl_target ?link \<in> D" using Suc.prems(1) False by (simp add: fits_def)
    have "\<exists>w1 t1. followLink go ?link w t = Some (w1, t1) \<and> fits D w1 \<and> length (wr_deferred w1) + 0 \<le> k * length (wr_searched w1) \<and>
        length (wr_searched w) \<le> length (wr_searched w1)"
    proof (cases "map_of (wr_searched w) (pn_canonical (dl_target ?link)) \<noteq> None \<and> isSameOrAncestor (pn_canonical (dl_target ?link)) (dl_from ?link)")
      case True
      then show ?thesis using Suc.prems by (simp add: followLink_def Let_def walk_refuse_def fits_def)
    next
      case False
      then have "followLink go ?link w t = walk_enter go (dl_target ?link) w t" by (simp only: followLink_def Let_def if_False)
      moreover have "length (wr_deferred w) + 0 \<le> k * length (wr_searched w)" using Suc.prems(2) by simp
      ultimately show ?thesis using walk_enter_ends [OF assms(1) d Suc.prems(1) _ Suc.prems(3)] by metis
    qed
    then obtain w1 t1 where w1: "followLink go ?link w t = Some (w1, t1)" "fits D w1"
      "length (wr_deferred w1) \<le> k * length (wr_searched w1)" "length (wr_searched w) \<le> length (wr_searched w1)" by auto
    have "\<exists>w' t'. follow_links m go (i + 1) w1 t1 = Some (w', t') \<and> fits D w'"
      by (rule Suc.IH [OF w1(2,3)]) (use w1(4) Suc.prems(3,4) in simp_all)
    then show ?thesis using False w1(1) by simp
  qed
qed

lemma walk_all_ends:
  assumes "listings_within os sb D k" and "finite (pn_canonical ` D)" and "dir \<in> D"
    and "card (pn_canonical ` D) \<le> n" and "k * card (pn_canonical ` D) \<le> m"
  shows "\<exists>res t'. walk_all_pinned n m os sb dir recursive t = Some (res, t') \<and> (\<forall>w. res = Inr w \<longrightarrow> fits D w)"
proof -
  let ?go = "walk_dir n os sb recursive"
  note ends = walk_dir_ends [OF assms(1,2), of n recursive]
  have "fits D (new_dir_walker dir)" using assms(3) by (simp add: fits_def new_dir_walker_def)
  moreover have "length (wr_deferred (new_dir_walker dir)) + 0 + k \<le> k * length (wr_searched (new_dir_walker dir))"
    "card (pn_canonical ` D) < n + length (wr_searched (new_dir_walker dir))"
    using assms(4) by (simp_all add: new_dir_walker_def)
  ultimately obtain r w t1 where w: "?go dir (new_dir_walker dir) t = Some (r, w, t1)" "fits D w"
    "length (wr_deferred w) + 0 \<le> k * length (wr_searched w)"
    using ends assms(3) unfolding step_ends_def by blast
  show ?thesis
  proof (cases r)
    case (Some e)
    then show ?thesis using w(1) by (simp add: walk_all_pinned_def)
  next
    case None
    have "\<exists>w' t'. follow_links m ?go 0 w t1 = Some (w', t') \<and> fits D w'"
      by (rule follow_links_ends [OF ends assms(2) w(2)]) (use w(3) assms(4,5) in simp_all)
    then show ?thesis using w(1) None by (auto simp: walk_all_pinned_def)
  qed
qed

lemma walkDir_checked:
  assumes "documented os" and "setSearchRoots os given t0 = (Inr (sb_roots sb), t1)" and "sb_roots sb \<noteq> []"
    and "walkDir n m os sb dir recursive t = Some (Inr entries, t')" and "en \<in> set entries" and "pn_info (we_file en) = Some info"
  shows "pin_checked os sb t t' (we_dir en) \<and> isRegularOrDir info \<and>
    (\<exists>r names. r \<in> set (sb_roots sb) \<and> lies_in r (pn_canonical (we_file en)) names \<and>
      served sb (pn_canonical (we_file en)) \<and> file_at os t t' r names info) \<and>
    (\<forall>u h u'. pinned_open os (we_file en) u = (Inr h, u') \<longrightarrow> opened_is os u u' h info)"
proof -
  have roots: "clean_roots (sb_roots sb)" using setSearchRoots_clean [OF assms(1,2)] by blast
  obtain p s where p: "pin os sb dir t = (Inr p, s)" "walkPinned n m os sb p recursive s = Some (Inr entries, t')"
    using assms(4) by (auto simp: walkDir_def split: prod.splits sum.splits)
  have "settings_ok os sb" using assms(1,3) roots by (simp add: settings_ok_def)
  moreover have "pin_checked os sb t s p" by (rule pin_is_checked [OF roots p(1) assms(1) roots assms(3)])
  moreover have "t \<le> s" by (rule later_le [OF later_pin p(1)])
  ultimately have "list_all (entry_ok os sb t t') entries" using walkPinned_ok p(2) by blast
  then have ok: "target_ok os sb t t' (we_file en)" "pin_checked os sb t t' (we_dir en)"
    using assms(5,6) by (auto simp: list_all_iff entry_ok_def)
  from ok(1) obtain r names where "isRegularOrDir info" "r \<in> set (sb_roots sb)"
    "lies_in r (pn_canonical (we_file en)) names" "file_at os t t' r names info" "served sb (pn_canonical (we_file en))"
    using assms(6) unfolding target_ok_def pin_checked_def by auto
  then show ?thesis using ok(2) pinned_open_is [OF _ assms(6)] by blast
qed

end
