(* ===== verification/PathProps.thy ===== *)
theory PathProps
  imports WalkSafe
begin

text \<open>What the sandbox promises: of the check, of a pinned file, of a walk.\<close>

section \<open>A small tree\<close>

text \<open>\<open>/srv\<close> with a directory, a file, a hidden entry, and a link back to the directory.\<close>

definition tree_os :: os where
  "tree_os =
     \<lparr>os_getwd = \<lambda>t. Inr ''/'',
      os_evalSymlinks = \<lambda>p t. Inr (if p = ''/srv/l'' then ''/srv/a'' else clean p),
      os_stat = \<lambda>p t. Inr \<lparr>fi_ino = 0, fi_type = Directory\<rparr>,
      os_lstat = \<lambda>p t. Inl NotExist,
      os_open = \<lambda>p t. if p = ''/srv/f'' then Inr 2 else if p = ''/srv/a/g'' then Inr 3 else Inl NotExist,
      os_openRoot = \<lambda>p t. if p = ''/srv'' then Inr 0 else if p = ''/srv/a'' \<or> p = ''/srv/l'' then Inr 1 else Inl NotExist,
      os_fstat = \<lambda>h t. Inr \<lparr>fi_ino = h, fi_type = (if h \<le> 1 then Directory else Regular)\<rparr>,
      os_lstatAt = \<lambda>h name t.
        if h = 0 \<and> name = ''a'' then Inr \<lparr>fi_ino = 1, fi_type = Directory\<rparr>
        else if h = 0 \<and> name = ''f'' then Inr \<lparr>fi_ino = 2, fi_type = Regular\<rparr>
        else if h = 0 \<and> name = ''l'' then Inr \<lparr>fi_ino = 4, fi_type = Symlink\<rparr>
        else if h = 1 \<and> name = ''g'' then Inr \<lparr>fi_ino = 3, fi_type = Regular\<rparr> else Inl NotExist,
      os_openAt = \<lambda>h name t. if name = ''.'' then Inr h else if h = 0 \<and> name = ''a'' then Inr 1 else Inl NotExist,
      os_readNames = \<lambda>h t. Inr (if h = 0 then [''l'', ''f'', ''a'', ''.git''] else [''g''])\<rparr>"

definition tree_sb :: sandbox where
  "tree_sb = \<lparr>sb_roots = [''/srv''], sb_hidden = False\<rparr>"

definition srv_pin :: pinned where
  "srv_pin = \<lparr>pn_path = ''/srv'', pn_canonical = ''/srv'', pn_info = Some \<lparr>fi_ino = 0, fi_type = Directory\<rparr>\<rparr>"

definition a_pin :: "path \<Rightarrow> pinned" where
  "a_pin p = \<lparr>pn_path = p, pn_canonical = ''/srv/a'', pn_info = Some \<lparr>fi_ino = 1, fi_type = Directory\<rparr>\<rparr>"

lemma tree_documented: "documented tree_os"
  using clean_is_clean by (auto simp: documented_def tree_os_def is_abs_def is_name_def is_clean_def intro!: exI [of _ "[''srv'', ''a'']"])

lemma tree_roots: "setSearchRoots tree_os [''/srv/''] 0 = (Inr (sb_roots tree_sb), 2)"
  by code_simp

section \<open>The check\<close>

text \<open>
  Claim C7. The check of a place accepts only what is served: a place that lies in a search root with no hidden name below
  some root it lies in, or any place in a root when hidden entries are on. When no search root is "/" itself, it accepts
  all of that, fails as outside exactly when the place lies in no root, and otherwise names the first hidden name below the
  longest root it lies in. (Of a root "/" it accepts nothing but "/", against the documentation.)
\<close>

theorem check_accepts_served:
  assumes "is_clean c" and "clean_roots (sb_roots sb)"
  shows "(checkCanonical sb p c (sb_roots sb) = None \<longrightarrow> served sb c) \<and>
    ([slash] \<notin> set (sb_roots sb) \<longrightarrow> (case checkCanonical sb p c (sb_roots sb) of
      None \<Rightarrow> served sb c
    | Some e \<Rightarrow> \<not> served sb c \<and>
        (if \<exists>r \<in> set (sb_roots sb). \<exists>names. lies_in r c names
         then \<exists>r names n. r \<in> set (sb_roots sb) \<and> lies_in r c names \<and> find isHiddenName names = Some n \<and>
                (\<forall>q \<in> set (sb_roots sb). \<forall>ms. lies_in q c ms \<longrightarrow> length q \<le> length r) \<and> e = ErrHiddenPath p n
         else e = ErrPathOutsideRoots p (sb_roots sb))))"
  using checkCanonical_served [OF _ assms] check_answers [OF assms] by blast

lemma check_accepts_served_witness:
  "checkCanonical tree_sb ''x'' ''/srv/.git'' (sb_roots tree_sb) = Some (ErrHiddenPath ''x'' ''.git'') \<and> \<not> served tree_sb ''/srv/.git''"
proof -
  have c: "is_clean ''/srv/.git''" unfolding is_clean_def is_abs_def
    by (intro conjI exI [of _ "[''srv'', ''.git'']"]) (simp_all add: is_name_def)
  have r: "clean_roots (sb_roots tree_sb)" "[slash] \<notin> set (sb_roots tree_sb)"
    by (simp_all add: clean_roots_def tree_sb_def is_clean_def is_abs_def is_name_def, intro exI [of _ "[''srv'']"], simp add: is_name_def)
  have "checkCanonical tree_sb ''x'' ''/srv/.git'' (sb_roots tree_sb) = Some (ErrHiddenPath ''x'' ''.git'')" by code_simp
  then show ?thesis using check_accepts_served [OF c r(1), of "''x''"] r(2) by simp
qed

section \<open>A pinned file\<close>

text \<open>
  Claim C5. However other processes change the file system between any two calls, a file that opens after it was pinned is the
  one the check saw: between the start and the end of the check it was found below a search root, each name on the way looked
  up in the directory before it, none of them a symbolic link, at a place the sandbox serves; what is open has the
  device, inode and type seen there, and is a regular file or a directory.
\<close>

theorem pinned_files_were_checked:
  assumes "documented os" and "setSearchRoots os given t0 = (Inr (sb_roots sb), t1)" and "sb_roots sb \<noteq> []"
    and "pin os sb p t = (Inr pn, t')" and "pinned_open os pn u = (Inr h, u')"
  shows "\<exists>info r names. r \<in> set (sb_roots sb) \<and> list_all is_name names \<and> pn_canonical pn = below r names \<and>
    served sb (pn_canonical pn) \<and> file_at os t t' r names info \<and> opened_is os u u' h info \<and> isRegularOrDir info"
  by (rule pinned_open_checked [OF assms])

lemma pinned_files_were_checked_witness:
  "\<exists>info r names. r \<in> set (sb_roots tree_sb) \<and> list_all is_name names \<and> ''/srv/a/g'' = below r names \<and>
    served tree_sb ''/srv/a/g'' \<and> file_at tree_os 0 6 r names info \<and> opened_is tree_os 9 11 3 info \<and> isRegularOrDir info"
proof -
  let ?pn = "\<lparr>pn_path = ''/srv/a/g'', pn_canonical = ''/srv/a/g'', pn_info = Some \<lparr>fi_ino = 3, fi_type = Regular\<rparr>\<rparr>"
  have p: "pin tree_os tree_sb ''/srv/a/g'' 0 = (Inr ?pn, 6)" by code_simp
  have o: "pinned_open tree_os ?pn 9 = (Inr 3, 11)" by code_simp
  show ?thesis using pinned_files_were_checked [OF tree_documented tree_roots _ p o] by (simp add: tree_sb_def)
qed

section \<open>A walk\<close>

text \<open>
  Claim C6. Every file a walk of a directory hands over is pinned like a named one: it was seen during the walk in a search
  root, no link on the way, at a place that is served, reached directly or through links, and so was the directory it
  is listed in. Opening it later gives that file or fails. Any roots may be set, "/" among them.
\<close>

theorem walked_files_are_checked:
  assumes "documented os" and "setSearchRoots os given t0 = (Inr (sb_roots sb), t1)" and "sb_roots sb \<noteq> []"
    and "walkDir n m os sb dir recursive t = Some (Inr entries, t')" and "en \<in> set entries" and "pn_info (we_file en) = Some info"
  shows "pin_checked os sb t t' (we_dir en) \<and> isRegularOrDir info \<and>
    (\<exists>r names. r \<in> set (sb_roots sb) \<and> lies_in r (pn_canonical (we_file en)) names \<and>
      served sb (pn_canonical (we_file en)) \<and> file_at os t t' r names info) \<and>
    (\<forall>u h u'. pinned_open os (we_file en) u = (Inr h, u') \<longrightarrow> opened_is os u u' h info)"
  by (rule walkDir_checked [OF assms])

lemma walked_files_are_checked_witness:
  "\<exists>en t'. walkDir 3 10 tree_os tree_sb ''/srv'' True 0 = Some (Inr [en,
      \<lparr>we_path = ''/srv/f'', we_file = \<lparr>pn_path = ''/srv/f'', pn_canonical = ''/srv/f'', pn_info = Some \<lparr>fi_ino = 2, fi_type = Regular\<rparr>\<rparr>,
        we_dir = srv_pin, we_refused = [], we_readErr = None\<rparr>,
      (plain_entry ''/srv/l'')\<lparr>we_refused := reasonAlreadySearched ''/srv/a''\<rparr>], t') \<and>
    pn_canonical (we_file en) = ''/srv/a/g'' \<and> served tree_sb ''/srv/a/g'' \<and> pin_checked tree_os tree_sb 0 t' (we_dir en)"
proof -
  let ?g = "\<lparr>we_path = ''/srv/a/g'', we_file = \<lparr>pn_path = ''/srv/a/g'', pn_canonical = ''/srv/a/g'', pn_info = Some \<lparr>fi_ino = 3, fi_type = Regular\<rparr>\<rparr>,
    we_dir = a_pin ''/srv/a'', we_refused = [], we_readErr = None\<rparr>"
  let ?f = "\<lparr>we_path = ''/srv/f'', we_file = \<lparr>pn_path = ''/srv/f'', pn_canonical = ''/srv/f'', pn_info = Some \<lparr>fi_ino = 2, fi_type = Regular\<rparr>\<rparr>,
        we_dir = srv_pin, we_refused = [], we_readErr = None\<rparr>"
  have w: "walkDir 3 10 tree_os tree_sb ''/srv'' True 0 =
    Some (Inr [?g, ?f, (plain_entry ''/srv/l'')\<lparr>we_refused := reasonAlreadySearched ''/srv/a''\<rparr>], 18)" by code_simp
  have r: "sb_roots tree_sb \<noteq> []" by (simp add: tree_sb_def)
  have "pin_checked tree_os tree_sb 0 18 (we_dir ?g) \<and> served tree_sb (pn_canonical (we_file ?g))"
    using walked_files_are_checked [OF tree_documented tree_roots r w, of ?g] by auto
  then show ?thesis using w by (intro exI [of _ ?g] exI [of _ 18]) simp
qed

text \<open>
  Claim C8. A walk ends, also through links and loops of links: when the directories its listings lead to have finitely many
  places, fuel for each of them and for each link that can be met is enough, and every place is entered at most once.
\<close>

theorem walk_ends:
  assumes "listings_within os sb D k" and "finite (pn_canonical ` D)" and "dir \<in> D"
    and "card (pn_canonical ` D) \<le> n" and "k * card (pn_canonical ` D) \<le> m"
  shows "\<exists>res t'. walk_all_pinned n m os sb dir recursive t = Some (res, t') \<and>
    walkPinned n m os sb dir recursive t = Some (map_sum id wr_entries res, t') \<and>
    (\<forall>w. res = Inr w \<longrightarrow> distinct (map fst (wr_searched w)) \<and> fst ` set (wr_searched w) \<subseteq> pn_canonical ` D)"
  using walk_all_ends [OF assms, of recursive t] by (auto simp: walkPinned_def fits_def)

lemma tree_listings: "listings_within tree_os tree_sb {srv_pin, a_pin ''/srv/a'', a_pin ''/srv/l''} 3"
proof -
  have "fst (listDir tree_os tree_sb srv_pin t) = Inr
    [\<lparr>le_name = ''a'', le_path = ''/srv/a'', le_target = a_pin ''/srv/a'', le_isLink = False, le_refused = [], le_refusedDir = False\<rparr>,
     \<lparr>le_name = ''f'', le_path = ''/srv/f'', le_target = \<lparr>pn_path = ''/srv/f'', pn_canonical = ''/srv/f'', pn_info = Some \<lparr>fi_ino = 2, fi_type = Regular\<rparr>\<rparr>,
       le_isLink = False, le_refused = [], le_refusedDir = False\<rparr>,
     \<lparr>le_name = ''l'', le_path = ''/srv/l'', le_target = a_pin ''/srv/l'', le_isLink = True, le_refused = [], le_refusedDir = False\<rparr>]" for t
    by code_simp
  moreover have "p = ''/srv/a'' \<or> p = ''/srv/l'' \<Longrightarrow> fst (listDir tree_os tree_sb (a_pin p) t) = Inr
    [\<lparr>le_name = ''g'', le_path = p @ ''/g'', le_target = \<lparr>pn_path = p @ ''/g'', pn_canonical = ''/srv/a/g'', pn_info = Some \<lparr>fi_ino = 3, fi_type = Regular\<rparr>\<rparr>,
       le_isLink = False, le_refused = [], le_refusedDir = False\<rparr>]" for t p
    by (elim disjE; hypsubst; code_simp)
  ultimately show ?thesis unfolding listings_within_def
    by (auto simp: entry_isDir_def dest!: arg_cong [where f = fst])
qed

lemma walk_ends_witness:
  "\<exists>res t'. walk_all_pinned 2 6 tree_os tree_sb srv_pin True 0 = Some (res, t') \<and> (\<forall>w. res = Inr w \<longrightarrow> distinct (map fst (wr_searched w)))"
proof -
  let ?D = "{srv_pin, a_pin ''/srv/a'', a_pin ''/srv/l''}"
  have "pn_canonical ` ?D = {''/srv'', ''/srv/a''}" by (auto simp: srv_pin_def a_pin_def)
  then show ?thesis using walk_ends [OF tree_listings, of srv_pin 2 6 True 0] by auto
qed

text \<open>
  A root \<open>/\<close> serves every place that has no hidden name, but the check, which looks for a second separator behind
  the root's, refuses each of them.
\<close>

lemma slash_root_refuses_served:
  assumes "is_clean c" and "c \<noteq> [slash]" and "sb_roots sb = [[slash]]" and "sb_hidden sb \<or> list_all (\<lambda>n. \<not> isHiddenName n) (elements c)"
  shows "served sb c \<and> checkCanonical sb p c (sb_roots sb) = Some (ErrPathOutsideRoots p [[slash]])"
proof -
  have s: "is_clean [slash]" "elements [slash] = []"
    using elements_clean [of "[]"] unfolding is_clean_def by (auto simp: is_abs_def intro: exI [of _ "[]"])
  have "\<not> prefix [slash, slash] c"
  proof
    assume "prefix [slash, slash] c"
    then obtain rest where "c = [slash] @ slash # rest" by (auto simp: prefix_def)
    then show False using clean_below(3) [OF assms(1) s(1)] by blast
  qed
  then have "checkCanonical sb p c (sb_roots sb) = Some (ErrPathOutsideRoots p [[slash]])"
    using assms(2,3) by (simp add: checkCanonical_def nearestRoot_def holds_def)
  moreover have "lies_in [slash] c (elements c)"
    using assms(1) s(2) elements_names [OF is_clean_abs [OF assms(1)]] by (simp add: lies_in_def)
  ultimately show ?thesis using assms(3,4) by (auto simp: served_def)
qed

end
