(* ===== verification/Spans.thy ===== *)
theory Spans
  imports TextReader
begin

text \<open>
  Reading the lines around findings, \<^verbatim>\<open>internal/samples/spans.go\<close>: one forward pass over the text serves the windows of all
  spans, entering the text near a span when the source allows.
\<close>

section \<open>Requests\<close>

record line_span =
  ls_firstLine :: int
  ls_lastLine :: int
  ls_startOffset :: int

record span_line =
  sn_number :: int
  sn_text :: bytes
  sn_length :: int

datatype span_action = SpanContinue | SpanDone | StopReading

record spans_request =
  rq_spans :: "line_span list"
  rq_before :: int
  rq_after :: int
  rq_keepBytes :: int
  rq_textLines :: int
  rq_textBytes :: int

datatype span_error = ErrSpanPastEnd int int | ReadFailed string

text \<open>\<^verbatim>\<open>textCursor\<close>: the text from the start of a line, the offset and the number of that line.\<close>

record text_cursor =
  cu_text :: bytes
  cu_offset :: int
  cu_line :: int

text \<open>
  The source of the text: whether it is a plain file, the frame that holds an offset when it has a frame table, and a
  cursor near a span with at least so many lines before it.
\<close>

record span_source =
  so_plain :: bool
  so_frameHolding :: "(int \<Rightarrow> int) option"
  so_open :: "line_span \<Rightarrow> int \<Rightarrow> string + text_cursor"

definition spanSeekGap :: int where "spanSeekGap = 65536"
definition spanPlainBuffer :: nat where "spanPlainBuffer = 4096"
definition spanStreamBuffer :: nat where "spanStreamBuffer = 65536"

section \<open>The pass\<close>

record span_window =
  sw_span :: line_span
  sw_first :: int
  sw_last :: int
  sw_next :: int
  sw_done :: bool

text \<open>
  \<open>ps_active\<close> are the windows the pass reached that still want lines, by their index; \<open>ps_rest\<close> is the text from the
  start of line \<open>ps_line\<close>, at \<open>ps_offset\<close>; \<open>ps_seen\<close> is the visitor's state.
\<close>

record 'v span_pass =
  ps_windows :: "span_window list"
  ps_next :: nat
  ps_active :: "nat list"
  ps_hasCursor :: bool
  ps_rest :: bytes
  ps_line :: int
  ps_offset :: int
  ps_stopped :: bool
  ps_seen :: 'v

type_synonym 'v visitor = "nat \<Rightarrow> span_line \<Rightarrow> 'v \<Rightarrow> span_action \<times> 'v"

definition window_of :: "spans_request \<Rightarrow> line_span \<Rightarrow> span_window" where
  "window_of req s =
     (let first = max 1 (ls_firstLine s - max (rq_before req) 0);
          after = ls_lastLine s + max (rq_after req) 0;
          last = (if rq_textLines req > 0 then min after (rq_textLines req) else after)
      in \<lparr>sw_span = s, sw_first = first, sw_last = last, sw_next = first, sw_done = False\<rparr>)"

definition new_span_pass :: "spans_request \<Rightarrow> 'v \<Rightarrow> 'v span_pass" where
  "new_span_pass req v =
     \<lparr>ps_windows = map (window_of req) (rq_spans req), ps_next = 0, ps_active = [], ps_hasCursor = False, ps_rest = [],
      ps_line = 0, ps_offset = 0, ps_stopped = False, ps_seen = v\<rparr>"

definition line_room :: "span_source \<Rightarrow> nat" where
  "line_room src = (if so_plain src then spanPlainBuffer else spanStreamBuffer)"

definition worthSeeking :: "span_source \<Rightarrow> span_window \<Rightarrow> 'v span_pass \<Rightarrow> bool" where
  "worthSeeking src w p =
     (if so_plain src then ls_startOffset (sw_span w) - ps_offset p > spanSeekGap
      else case so_frameHolding src of
             None \<Rightarrow> False
           | Some frameHolding \<Rightarrow> frameHolding (ls_startOffset (sw_span w)) - frameHolding (ps_offset p) > 2)"

definition approach :: "span_source \<Rightarrow> span_window \<Rightarrow> 'v span_pass \<Rightarrow> string + 'v span_pass" where
  "approach src w p =
     (if ps_hasCursor p \<and> \<not> worthSeeking src w p then Inr p
      else case so_open src (sw_span w) (ls_firstLine (sw_span w) - sw_first w) of
             Inl e \<Rightarrow> Inl e
           | Inr c \<Rightarrow>
               if \<not> so_plain src \<and> ps_hasCursor p \<and> cu_line c \<le> ps_line p then Inr p
               else Inr (p\<lparr>ps_hasCursor := True, ps_line := cu_line c, ps_offset := cu_offset c, ps_rest := cu_text c\<rparr>))"

definition reach :: "'v span_pass \<Rightarrow> 'v span_pass" where
  "reach p =
     (let n = length (takeWhile (\<lambda>w. sw_first w \<le> ps_line p) (drop (ps_next p) (ps_windows p)))
      in p\<lparr>ps_active := ps_active p @ [ps_next p ..< ps_next p + n], ps_next := ps_next p + n\<rparr>)"

definition advance :: "int \<Rightarrow> 'v span_pass \<Rightarrow> 'v span_pass" where
  "advance n p = p\<lparr>ps_line := ps_line p + 1, ps_offset := ps_offset p + n\<rparr>"

text \<open>One line for the active windows in order; the windows that want more are kept.\<close>

fun hand_line :: "'v visitor \<Rightarrow> span_line \<Rightarrow> nat list \<Rightarrow> 'v span_pass \<Rightarrow> nat list \<times> 'v span_pass" where
  "hand_line visit line [] p = ([], p)"
| "hand_line visit line (i # is) p =
     (let w = ps_windows p ! i
      in if ps_stopped p \<or> sw_next w \<noteq> ps_line p
         then (case hand_line visit line is p of (kept, p') \<Rightarrow> (i # kept, p'))
         else case visit i line (ps_seen p) of (action, v) \<Rightarrow>
           let nxt = sw_next w + 1;
               fin = (sw_done w \<or> action \<noteq> SpanContinue \<or> nxt > sw_last w);
               p1 = p\<lparr>ps_windows := (ps_windows p)[i := w\<lparr>sw_next := nxt, sw_done := fin\<rparr>],
                      ps_stopped := ps_stopped p \<or> action = StopReading, ps_seen := v\<rparr>
           in case hand_line visit line is p1 of (kept, p') \<Rightarrow> (if fin then kept else i # kept, p'))"

definition cutAtTextEnd :: "spans_request \<Rightarrow> int \<Rightarrow> bytes \<Rightarrow> int \<Rightarrow> bytes \<times> int" where
  "cutAtTextEnd req off tx n =
     (if rq_textLines req \<le> 0 then (tx, n)
      else let left = max (rq_textBytes req - off) 0
           in if n > left then (take (nat (min (int (length tx)) left)) tx, left) else (tx, n))"

definition readLine :: "spans_request \<Rightarrow> span_source \<Rightarrow> 'v visitor \<Rightarrow> 'v span_pass \<Rightarrow> bool \<times> 'v span_pass" where
  "readLine req src visit p =
     (case readText (line_room src) (rq_keepBytes req) (ps_rest p) of (tx, textLen, len, ended, rest') \<Rightarrow>
        if len = 0 then (True, p)
        else case cutAtTextEnd req (ps_offset p) tx textLen of (tx', textLen') \<Rightarrow>
          case hand_line visit \<lparr>sn_number = ps_line p, sn_text = tx', sn_length = textLen'\<rparr> (ps_active p) p of (kept, p') \<Rightarrow>
            (ended, advance len (p'\<lparr>ps_active := kept, ps_rest := rest'\<rparr>)))"

text \<open>The loop, with fuel for its rounds: each but the last one reads a line.\<close>

primrec run_pass ::
  "nat \<Rightarrow> spans_request \<Rightarrow> span_source \<Rightarrow> 'v visitor \<Rightarrow> 'v span_pass \<Rightarrow> (string option \<times> 'v span_pass) option" where
  "run_pass 0 req src visit p = None"
| "run_pass (Suc n) req src visit p =
     (if ps_stopped p \<or> (ps_next p \<ge> length (ps_windows p) \<and> ps_active p = []) then Some (None, p)
      else case (if ps_active p = [] then approach src (ps_windows p ! ps_next p) p else Inr p) of
             Inl e \<Rightarrow> Some (Some e, p)
           | Inr p1 \<Rightarrow>
               let p2 = reach p1
               in if ps_active p2 = []
                  then (case skip_line (line_room src) (ps_rest p2) 0 of (len, ended, rest') \<Rightarrow>
                          if len = 0 then Some (None, p2)
                          else let p3 = advance len (p2\<lparr>ps_rest := rest'\<rparr>)
                               in if ended then Some (None, p3) else run_pass n req src visit p3)
                  else (case readLine req src visit p2 of (ended, p3) \<Rightarrow>
                          if ended then Some (None, p3) else run_pass n req src visit p3))"

definition checkEnds :: "'v span_pass \<Rightarrow> span_error option" where
  "checkEnds p =
     (if ps_stopped p then None
      else case find (\<lambda>w. \<not> sw_done w \<and> sw_next w \<le> ls_lastLine (sw_span w)) (ps_windows p) of
             None \<Rightarrow> None
           | Some w \<Rightarrow> Some (ErrSpanPastEnd (ls_firstLine (sw_span w)) (ls_lastLine (sw_span w))))"

definition readLineSpans ::
  "nat \<Rightarrow> spans_request \<Rightarrow> span_source \<Rightarrow> 'v visitor \<Rightarrow> 'v \<Rightarrow> (span_error option \<times> 'v) option" where
  "readLineSpans n req src visit v =
     (if rq_spans req = [] then Some (None, v)
      else case (if rq_textLines req > 0 then find (\<lambda>s. ls_lastLine s > rq_textLines req) (rq_spans req) else None) of
             Some s \<Rightarrow> Some (Some (ErrSpanPastEnd (ls_firstLine s) (ls_lastLine s)), v)
           | None \<Rightarrow>
               (case run_pass n req src visit (new_span_pass req v) of
                  None \<Rightarrow> None
                | Some (Some e, p) \<Rightarrow> Some (Some (ReadFailed e), ps_seen p)
                | Some (None, p) \<Rightarrow> Some (checkEnds p, ps_seen p)))"

section \<open>What the spans are to get\<close>

text \<open>Every line of the text in order, for every window that holds it and has not had enough, in order.\<close>

definition span_line_of :: "spans_request \<Rightarrow> int \<Rightarrow> int \<Rightarrow> bytes \<Rightarrow> span_line" where
  "span_line_of req n off l =
     (case cutAtTextEnd req off (take (nat (rq_keepBytes req)) (line_text l)) (int (length (line_text l))) of
        (tx, len) \<Rightarrow> \<lparr>sn_number = n, sn_text = tx, sn_length = len\<rparr>)"

definition offer :: "'v visitor \<Rightarrow> span_line \<Rightarrow> nat \<Rightarrow> span_window list \<times> bool \<times> 'v \<Rightarrow> span_window list \<times> bool \<times> 'v" where
  "offer visit line i st =
     (case st of (ws, stopped, v) \<Rightarrow>
        if stopped \<or> sw_done (ws ! i) \<or> sn_number line < sw_first (ws ! i) \<or> sw_last (ws ! i) < sn_number line then (ws, stopped, v)
        else case visit i line v of (action, v') \<Rightarrow>
          (ws[i := (ws ! i)\<lparr>sw_done := action \<noteq> SpanContinue\<rparr>], action = StopReading, v'))"

fun offer_lines :: "spans_request \<Rightarrow> 'v visitor \<Rightarrow> int \<Rightarrow> int \<Rightarrow> bytes list \<Rightarrow> span_window list \<times> bool \<times> 'v \<Rightarrow>
    span_window list \<times> bool \<times> 'v" where
  "offer_lines req visit n off [] st = st"
| "offer_lines req visit n off (l # ls) st =
     offer_lines req visit (n + 1) (off + int (length l)) ls
       (fold (offer visit (span_line_of req n off l)) [0 ..< length (fst st)] st)"

text \<open>The error names the first span that wants more lines than there are.\<close>

definition spans_of_text :: "spans_request \<Rightarrow> bytes \<Rightarrow> 'v visitor \<Rightarrow> 'v \<Rightarrow> span_error option \<times> 'v" where
  "spans_of_text req tx visit v =
     (case offer_lines req visit 1 0 (raw_lines tx) (map (window_of req) (rq_spans req), False, v) of (ws, stopped, v') \<Rightarrow>
        (if stopped then None
         else case find (\<lambda>w. \<not> sw_done w \<and> int (length (raw_lines tx)) < ls_lastLine (sw_span w)) ws of
                None \<Rightarrow> None
              | Some w \<Rightarrow> Some (ErrSpanPastEnd (ls_firstLine (sw_span w)) (ls_lastLine (sw_span w))),
         v'))"

end
