(* ===== verification/SpanFacts.thy ===== *)
theory SpanFacts
  imports Spans
begin

text \<open>
  The pass over the text gives every span what it is to get, whatever source it enters the text through: the interface a
  source has to the pass is a locale, and the pass is related to the reference line by line.
\<close>

section \<open>Windows of the pass and of the reference\<close>

definition fits_window :: "int \<Rightarrow> bool \<Rightarrow> bool \<Rightarrow> span_window \<Rightarrow> span_window \<Rightarrow> bool" where
  "fits_window n reached live w u \<longleftrightarrow> sw_span w = sw_span u \<and> sw_first w = sw_first u \<and> sw_last w = sw_last u \<and>
     (if reached
      then (if live then \<not> sw_done w \<and> \<not> sw_done u \<and> sw_next w = n \<and> sw_first w \<le> n \<and> n \<le> sw_last w
            else sw_done w \<and> (sw_done u \<or> sw_last u < n))
      else \<not> sw_done w \<and> \<not> sw_done u \<and> sw_next w = sw_first w \<and> n \<le> sw_first w)"

lemma offer_same:
  "sw_done (ws ! i) \<or> sn_number line < sw_first (ws ! i) \<or> sw_last (ws ! i) < sn_number line \<or> s \<Longrightarrow>
    offer visit line i (ws, s, v) = (ws, s, v)"
  by (auto simp: offer_def)

lemma fold_offer_same:
  "\<forall>i \<in> set is. sw_done (ws ! i) \<or> sn_number line < sw_first (ws ! i) \<or> sw_last (ws ! i) < sn_number line \<or> s \<Longrightarrow>
    fold (offer visit line) is (ws, s, v) = (ws, s, v)"
  by (induction "is") (simp_all add: offer_same)

lemma offer_lines_stopped: "offer_lines req visit n off ls (ws, True, v) = (ws, True, v)"
  by (induction ls arbitrary: n off) (simp_all add: fold_offer_same)

lemma offer_lines_none:
  assumes "\<forall>u \<in> set ws. sw_done u \<or> sw_last u < n"
  shows "offer_lines req visit n off ls (ws, False, v) = (ws, False, v)"
  using assms
proof (induction ls arbitrary: n off)
  case (Cons l ls)
  have "sw_done (ws ! i) \<or> sw_last (ws ! i) < n" if "i < length ws" for i using Cons.prems that by simp
  then have "fold (offer visit (span_line_of req n off l)) [0 ..< length ws] (ws, False, v) = (ws, False, v)"
    by (intro fold_offer_same) (force simp: span_line_of_def split: prod.splits)
  then show ?case using Cons.IH [of "n + 1" "off + int (length l)"] Cons.prems by fastforce
qed simp

text \<open>One line: the active windows against all windows.\<close>

definition handed ::
  "int \<Rightarrow> nat \<Rightarrow> nat set \<Rightarrow> nat list \<Rightarrow> 'v span_pass \<Rightarrow> span_window list \<Rightarrow> bool \<Rightarrow> nat list \<times> 'v span_pass \<Rightarrow>
    span_window list \<times> bool \<times> 'v \<Rightarrow> bool" where
  "handed n nx A is p ws s r q \<longleftrightarrow> (case r of (kept, p') \<Rightarrow> case q of (ws', s', v') \<Rightarrow>
     p' = p\<lparr>ps_windows := ps_windows p', ps_stopped := s', ps_seen := v'\<rparr> \<and>
     length (ps_windows p') = length (ps_windows p) \<and> length ws' = length ws \<and> (s \<longrightarrow> s') \<and>
     (\<forall>j. j \<notin> set is \<longrightarrow> ps_windows p' ! j = ps_windows p ! j \<and> ws' ! j = ws ! j) \<and>
     kept = filter (\<lambda>i. i \<in> set kept) is \<and> set kept \<subseteq> A \<and>
     (\<not> s' \<longrightarrow> (\<forall>i \<in> set is. fits_window (n + 1) (i < nx) (i \<in> set kept) (ps_windows p' ! i) (ws' ! i))))"

definition to_hand :: "int \<Rightarrow> nat \<Rightarrow> nat set \<Rightarrow> nat list \<Rightarrow> 'v span_pass \<Rightarrow> span_window list \<Rightarrow> bool" where
  "to_hand n nx A is p ws \<longleftrightarrow> (\<forall>i \<in> set is. fits_window n (i < nx) (i \<in> A) (ps_windows p ! i) (ws ! i) \<and>
     (i \<ge> nx \<longrightarrow> n < sw_first (ws ! i) \<and> i \<notin> A))"

lemma hand_line_offers:
  assumes "ps_line p = n" and "sn_number line = n" and "ps_stopped p = s" and "ps_seen p = v" and "distinct is"
    and "\<forall>i \<in> set is. i < length ws \<and> i < length (ps_windows p)" and "\<not> s \<Longrightarrow> to_hand n nx A is p ws"
  shows "handed n nx A is p ws s (hand_line visit line (filter (\<lambda>i. i \<in> A) is) p) (fold (offer visit line) is (ws, s, v))"
  using assms
proof (induction "is" arbitrary: p ws s v)
  case Nil
  then show ?case by (auto simp: handed_def)
next
  case (Cons i "is")
  have i: "i < length ws" "i < length (ps_windows p)" "i \<notin> set is" using Cons.prems(5,6) by auto
  let ?w = "ps_windows p ! i" and ?u = "ws ! i"
  have fits: "fits_window n (i < nx) (i \<in> A) ?w ?u" "i \<ge> nx \<longrightarrow> n < sw_first ?u \<and> i \<notin> A" if "\<not> s"
    using Cons.prems(7) [OF that] by (auto simp: to_hand_def)
  show ?case
  proof (cases "s \<or> i \<notin> A")
    case True
    have same: "offer visit line i (ws, s, v) = (ws, s, v)"
    proof (cases s)
      case False
      then have "fits_window n (i < nx) False ?w ?u" "i \<ge> nx \<longrightarrow> n < sw_first ?u" using fits True by auto
      then show ?thesis using Cons.prems(2) by (intro offer_same) (cases "i < nx", auto simp: fits_window_def)
    qed (simp add: offer_def)
    obtain kept p' where r: "hand_line visit line (filter (\<lambda>i. i \<in> A) is) p = (kept, p')" by force
    obtain ws' s' v' where q: "fold (offer visit line) is (ws, s, v) = (ws', s', v')" by (metis prod_cases3)
    have "handed n nx A is p ws s (hand_line visit line (filter (\<lambda>i. i \<in> A) is) p) (fold (offer visit line) is (ws, s, v))"
      by (rule Cons.IH) (use Cons.prems in \<open>auto simp: to_hand_def\<close>)
    then have h: "p' = p\<lparr>ps_windows := ps_windows p', ps_stopped := s', ps_seen := v'\<rparr>"
      "length (ps_windows p') = length (ps_windows p)" "length ws' = length ws" "s \<longrightarrow> s'"
      "\<forall>j. j \<notin> set is \<longrightarrow> ps_windows p' ! j = ps_windows p ! j \<and> ws' ! j = ws ! j"
      "kept = filter (\<lambda>i. i \<in> set kept) is" "set kept \<subseteq> A"
      "\<not> s' \<longrightarrow> (\<forall>i \<in> set is. fits_window (n + 1) (i < nx) (i \<in> set kept) (ps_windows p' ! i) (ws' ! i))"
      unfolding r q handed_def by auto
    have "set kept \<subseteq> set is" using h(6) by (metis filter_is_subset)
    then have "i \<notin> set kept" using i(3) by blast
    define kept' where "kept' = (if i \<in> A then i # kept else kept)"
    have hand: "hand_line visit line (filter (\<lambda>i. i \<in> A) (i # is)) p = (kept', p')"
      using True Cons.prems(3) r by (auto simp: kept'_def Let_def)
    have "fits_window (n + 1) (i < nx) (i \<in> set kept') (ps_windows p' ! i) (ws' ! i)" if "\<not> s'"
    proof -
      have "\<not> s" "i \<notin> A" using h(4) that True by auto
      then have "i \<notin> set kept'" using \<open>i \<notin> set kept\<close> by (simp add: kept'_def)
      then show ?thesis using fits [OF \<open>\<not> s\<close>] \<open>i \<notin> A\<close> h(5) i(3) by (auto simp: fits_window_def)
    qed
    moreover have "kept' = filter (\<lambda>j. j \<in> set kept') (i # is)"
    proof -
      have "filter (\<lambda>j. j \<in> set kept') is = filter (\<lambda>j. j \<in> set kept) is" using i(3) by (intro filter_cong) (auto simp: kept'_def)
      then show ?thesis using h(6) \<open>i \<notin> set kept\<close> by (auto simp: kept'_def)
    qed
    moreover have "fits_window (n + 1) (j < nx) (j \<in> set kept') (ps_windows p' ! j) (ws' ! j)" if "\<not> s'" "j \<in> set is" for j
    proof -
      have "j \<in> set kept' \<longleftrightarrow> j \<in> set kept" using that(2) i(3) by (auto simp: kept'_def)
      then show ?thesis using h(8) that by simp
    qed
    moreover have "set kept' \<subseteq> A" using h(7) by (auto simp: kept'_def)
    ultimately show ?thesis unfolding hand handed_def using h(1-5) same q by (simp del: filter.simps)
  next
    case False
    then have act: "\<not> s" "i \<in> A" by auto
    then have w: "fits_window n True True ?w ?u" "i < nx" using fits by (auto simp: not_less)
    obtain action v1 where v: "visit i line v = (action, v1)" by force
    let ?fin = "action \<noteq> SpanContinue \<or> n + 1 > sw_last ?w"
    let ?p1 = "p\<lparr>ps_windows := (ps_windows p)[i := ?w\<lparr>sw_next := n + 1, sw_done := ?fin\<rparr>], ps_stopped := action = StopReading, ps_seen := v1\<rparr>"
    let ?ws1 = "ws[i := ?u\<lparr>sw_done := action \<noteq> SpanContinue\<rparr>]"
    obtain kept p' where r: "hand_line visit line (filter (\<lambda>i. i \<in> A) is) ?p1 = (kept, p')" by force
    obtain ws' s' v' where q: "fold (offer visit line) is (?ws1, action = StopReading, v1) = (ws', s', v')" by (metis prod_cases3)
    have "handed n nx A is ?p1 ?ws1 (action = StopReading) (hand_line visit line (filter (\<lambda>i. i \<in> A) is) ?p1)
        (fold (offer visit line) is (?ws1, action = StopReading, v1))"
    proof (rule Cons.IH)
      show "to_hand n nx A is ?p1 ?ws1" using Cons.prems(7) [OF act(1)] i by (auto simp: to_hand_def nth_list_update)
    qed (use Cons.prems in auto)
    then have h: "p' = ?p1\<lparr>ps_windows := ps_windows p', ps_stopped := s', ps_seen := v'\<rparr>"
      "length (ps_windows p') = length (ps_windows p)" "length ws' = length ws"
      "\<forall>j. j \<notin> set is \<longrightarrow> ps_windows p' ! j = ps_windows ?p1 ! j \<and> ws' ! j = ?ws1 ! j"
      "kept = filter (\<lambda>i. i \<in> set kept) is" "set kept \<subseteq> A"
      "\<not> s' \<longrightarrow> (\<forall>i \<in> set is. fits_window (n + 1) (i < nx) (i \<in> set kept) (ps_windows p' ! i) (ws' ! i))"
      unfolding r q handed_def by auto
    have "set kept \<subseteq> set is" using h(5) by (metis filter_is_subset)
    then have "i \<notin> set kept" using i(3) by blast
    define kept' where "kept' = (if ?fin then kept else i # kept)"
    have hand: "hand_line visit line (filter (\<lambda>i. i \<in> A) (i # is)) p = (kept', p')"
      using act w v r Cons.prems(1,3,4) by (simp add: kept'_def Let_def fits_window_def)
    have off: "offer visit line i (ws, s, v) = (?ws1, action = StopReading, v1)"
      using act w v Cons.prems(2) by (simp add: offer_def fits_window_def)
    have new: "ps_windows p' ! i = ?w\<lparr>sw_next := n + 1, sw_done := ?fin\<rparr>" "ws' ! i = ?u\<lparr>sw_done := action \<noteq> SpanContinue\<rparr>"
      using h(4) i by auto
    have "fits_window (n + 1) (i < nx) (i \<in> set kept') (ps_windows p' ! i) (ws' ! i)"
      unfolding new using w \<open>i \<notin> set kept\<close> by (auto simp: fits_window_def kept'_def)
    moreover have "kept' = filter (\<lambda>j. j \<in> set kept') (i # is)"
    proof -
      have "filter (\<lambda>j. j \<in> set kept') is = filter (\<lambda>j. j \<in> set kept) is" using i(3) by (intro filter_cong) (auto simp: kept'_def)
      then show ?thesis using h(5) \<open>i \<notin> set kept\<close> by (auto simp: kept'_def)
    qed
    moreover have "fits_window (n + 1) (j < nx) (j \<in> set kept') (ps_windows p' ! j) (ws' ! j)" if "\<not> s'" "j \<in> set is" for j
    proof -
      have "j \<in> set kept' \<longleftrightarrow> j \<in> set kept" using that(2) i(3) by (auto simp: kept'_def)
      then show ?thesis using h(7) that by simp
    qed
    moreover have "set kept' \<subseteq> A" using h(6) act(2) by (auto simp: kept'_def)
    moreover have "p' = p\<lparr>ps_windows := ps_windows p', ps_stopped := s', ps_seen := v'\<rparr>" by (rule trans [OF h(1)]) simp
    moreover have "ps_windows p' ! j = ps_windows p ! j \<and> ws' ! j = ws ! j" if "j \<notin> set (i # is)" for j
      using h(4) that by simp
    ultimately show ?thesis unfolding hand handed_def using h(2,3) act(1) off q by (simp del: filter.simps)
  qed
qed

end
