(* ===== verification/SpanPass.thy ===== *)
theory SpanPass
  imports SpanFacts
begin

text \<open>The pass line by line against the reference, for any source that enters the text where it should.\<close>

section \<open>Shapes\<close>

definition shape :: "span_window \<Rightarrow> line_span \<times> int \<times> int" where
  "shape u = (sw_span u, sw_first u, sw_last u)"

definition good_shapes :: "bytes \<Rightarrow> (line_span \<times> int \<times> int) list \<Rightarrow> bool" where
  "good_shapes tx shs \<longleftrightarrow> sorted (map (\<lambda>(s, f, l). f) shs) \<and> (\<forall>(s, f, l) \<in> set shs. 1 \<le> f \<and> f \<le> ls_firstLine s \<and>
     ls_firstLine s \<le> line_count tx \<and> ls_startOffset s = line_offset tx (ls_firstLine s) \<and> ls_firstLine s \<le> ls_lastLine s \<and> ls_lastLine s \<le> l)"

lemma offer_shape: "map shape (fst (offer visit line i st)) = map shape (fst st)"
proof -
  obtain ws s v where st: "st = (ws, s, v)" by (metis prod_cases3)
  have "map shape (ws[i := (ws ! i)\<lparr>sw_done := b\<rparr>]) = map shape ws" for b
  proof (cases "i < length ws")
    case True
    have "shape ((ws ! i)\<lparr>sw_done := b\<rparr>) = map shape ws ! i" using True by (simp add: shape_def)
    then show ?thesis by (simp only: map_update list_update_id)
  qed (simp add: list_update_beyond)
  then show ?thesis by (simp add: st offer_def split: prod.split)
qed

lemma offers_shape: "map shape (fst (fold (offer visit line) is st)) = map shape (fst st)"
  by (induction "is" arbitrary: st) (simp_all add: offer_shape)

lemma good_shapes_nth:
  assumes "good_shapes tx (map shape ws)" and "i < length ws"
  shows "1 \<le> sw_first (ws ! i)" "sw_first (ws ! i) \<le> ls_firstLine (sw_span (ws ! i))"
    "ls_firstLine (sw_span (ws ! i)) \<le> line_count tx"
    "ls_startOffset (sw_span (ws ! i)) = line_offset tx (ls_firstLine (sw_span (ws ! i)))"
    "ls_firstLine (sw_span (ws ! i)) \<le> ls_lastLine (sw_span (ws ! i))" "ls_lastLine (sw_span (ws ! i)) \<le> sw_last (ws ! i)"
proof -
  have "shape (ws ! i) \<in> set (map shape ws)" using assms(2) by simp
  then show "1 \<le> sw_first (ws ! i)" "sw_first (ws ! i) \<le> ls_firstLine (sw_span (ws ! i))"
    "ls_firstLine (sw_span (ws ! i)) \<le> line_count tx"
    "ls_startOffset (sw_span (ws ! i)) = line_offset tx (ls_firstLine (sw_span (ws ! i)))"
    "ls_firstLine (sw_span (ws ! i)) \<le> ls_lastLine (sw_span (ws ! i))" "ls_lastLine (sw_span (ws ! i)) \<le> sw_last (ws ! i)"
    using assms(1) unfolding good_shapes_def shape_def by fastforce+
qed

lemma good_shapes_sorted:
  assumes "good_shapes tx (map shape ws)" and "i \<le> j" and "j < length ws"
  shows "sw_first (ws ! i) \<le> sw_first (ws ! j)"
proof -
  have "sorted (map sw_first ws)" using assms(1) by (simp add: good_shapes_def shape_def comp_def)
  then show ?thesis using sorted_nth_mono [of "map sw_first ws" i j] assms(2,3) by simp
qed

section \<open>Where the pass is\<close>

definition cursor_at :: "bytes \<Rightarrow> int \<Rightarrow> 'v span_pass \<Rightarrow> bool" where
  "cursor_at tx n p \<longleftrightarrow> ps_line p = n \<and> ps_offset p = line_offset tx n \<and> ps_rest p = drop (nat (line_offset tx n)) tx"

definition pass_at :: "bytes \<Rightarrow> int \<Rightarrow> 'v span_pass \<Rightarrow> span_window list \<Rightarrow> bool \<Rightarrow> 'v \<Rightarrow> bool" where
  "pass_at tx n p ws s v \<longleftrightarrow> ps_stopped p = s \<and> ps_seen p = v \<and> length (ps_windows p) = length ws \<and>
     (\<not> s \<longrightarrow> 1 \<le> n \<and> n \<le> line_count tx + 1 \<and> ps_next p \<le> length ws \<and>
       (if ps_hasCursor p then cursor_at tx n p else n = 1 \<and> ps_active p = []) \<and>
       ps_active p = filter (\<lambda>i. i \<in> set (ps_active p)) [0 ..< length ws] \<and> set (ps_active p) \<subseteq> {..< ps_next p} \<and>
       (\<forall>i < length ws. fits_window n (i < ps_next p) (i \<in> set (ps_active p)) (ps_windows p ! i) (ws ! i)))"

lemma pass_atD:
  assumes "pass_at tx n p ws False v"
  shows "\<not> ps_stopped p" "ps_seen p = v" "length (ps_windows p) = length ws" "1 \<le> n" "n \<le> line_count tx + 1" "ps_next p \<le> length ws"
    "ps_hasCursor p \<Longrightarrow> cursor_at tx n p" "\<not> ps_hasCursor p \<Longrightarrow> n = 1 \<and> ps_active p = []"
    "ps_active p = filter (\<lambda>i. i \<in> set (ps_active p)) [0 ..< length ws]" "set (ps_active p) \<subseteq> {..< ps_next p}"
    "\<And>i. i < length ws \<Longrightarrow> fits_window n (i < ps_next p) (i \<in> set (ps_active p)) (ps_windows p ! i) (ws ! i)"
  using assms by (auto simp: pass_at_def)

lemma fits_shape: "fits_window n a b w u \<Longrightarrow> shape w = shape u"
  by (simp add: fits_window_def shape_def)

section \<open>What is left to offer\<close>

definition offers_from :: "spans_request \<Rightarrow> bytes \<Rightarrow> 'v visitor \<Rightarrow> int \<Rightarrow> span_window list \<times> bool \<times> 'v \<Rightarrow> span_window list \<times> bool \<times> 'v" where
  "offers_from req tx visit n st = offer_lines req visit n (line_offset tx n) (drop (nat (n - 1)) (raw_lines tx)) st"

lemma offers_from_next:
  assumes "1 \<le> n" and "n \<le> line_count tx"
  shows "offers_from req tx visit n st = offers_from req tx visit (n + 1)
    (fold (offer visit (span_line_of req n (line_offset tx n) (raw_lines tx ! nat (n - 1)))) [0 ..< length (fst st)] st)"
  unfolding offers_from_def rest_lines [OF assms] line_offset_next [OF assms] by simp

lemma offers_from_end: "line_count tx < n \<Longrightarrow> offers_from req tx visit n st = st"
  by (simp add: offers_from_def line_count_def)

lemma offers_from_idle:
  assumes "1 \<le> n" and "n \<le> m" and "m \<le> line_count tx + 1"
    and "\<forall>i < length ws. sw_done (ws ! i) \<or> sw_last (ws ! i) < n \<or> m \<le> sw_first (ws ! i)"
  shows "offers_from req tx visit n (ws, s, v) = offers_from req tx visit m (ws, s, v)"
  using assms(2,1,4)
proof (induction n rule: int_le_induct)
  case (step k)
  have "1 \<le> k - 1" "k - 1 \<le> line_count tx" using step.prems(1) step.hyps assms(3) by simp_all
  from offers_from_next [OF this, of req visit "(ws, s, v)"] have "offers_from req tx visit (k - 1) (ws, s, v) = offers_from req tx visit k
    (fold (offer visit (span_line_of req (k - 1) (line_offset tx (k - 1)) (raw_lines tx ! nat (k - 1 - 1)))) [0 ..< length ws] (ws, s, v))"
    by simp
  also have "fold (offer visit (span_line_of req (k - 1) (line_offset tx (k - 1)) (raw_lines tx ! nat (k - 1 - 1)))) [0 ..< length ws]
      (ws, s, v) = (ws, s, v)"
    by (intro fold_offer_same) (use step.prems(2) step.hyps in \<open>fastforce simp: span_line_of_def split: prod.splits\<close>)
  finally show ?case using step by fastforce
qed simp

definition outcome :: "bytes \<Rightarrow> span_window list \<times> bool \<times> 'v \<Rightarrow> span_error option \<times> 'v" where
  "outcome tx st = (case st of (ws, stopped, v) \<Rightarrow>
     (if stopped then None
      else case find (\<lambda>w. \<not> sw_done w \<and> line_count tx < ls_lastLine (sw_span w)) ws of
             None \<Rightarrow> None
           | Some w \<Rightarrow> Some (ErrSpanPastEnd (ls_firstLine (sw_span w)) (ls_lastLine (sw_span w))), v))"

lemma spans_of_text_outcome:
  "spans_of_text req tx visit v = outcome tx (offers_from req tx visit 1 (map (window_of req) (rq_spans req), False, v))"
  by (simp add: spans_of_text_def outcome_def offers_from_def line_count_def split: prod.split)

lemma find_related:
  assumes "length xs = length ys" and "\<forall>i < length ys. (P (xs ! i) \<longleftrightarrow> Q (ys ! i)) \<and> (P (xs ! i) \<longrightarrow> f (xs ! i) = f (ys ! i))"
  shows "map_option f (find P xs) = map_option f (find Q ys)"
  using assms
proof (induction xs ys rule: list_induct2')
  case (4 x xs y ys)
  have "map_option f (find P xs) = map_option f (find Q ys)" using 4(1) 4(2) 4(3) by fastforce
  then show ?case using 4(3) [rule_format, of 0] by simp
qed simp_all

lemma checkEnds_outcome:
  assumes "length (ps_windows p) = length ws" and "\<not> ps_stopped p" and "ps_seen p = v"
    and "\<forall>i < length ws. shape (ps_windows p ! i) = shape (ws ! i) \<and>
      ((\<not> sw_done (ps_windows p ! i) \<and> sw_next (ps_windows p ! i) \<le> ls_lastLine (sw_span (ps_windows p ! i))) \<longleftrightarrow>
       (\<not> sw_done (ws ! i) \<and> line_count tx < ls_lastLine (sw_span (ws ! i))))"
  shows "(checkEnds p, ps_seen p) = outcome tx (ws, False, v)"
proof -
  let ?f = "\<lambda>w. ErrSpanPastEnd (ls_firstLine (sw_span w)) (ls_lastLine (sw_span w))"
  have "map_option ?f (find (\<lambda>w. \<not> sw_done w \<and> sw_next w \<le> ls_lastLine (sw_span w)) (ps_windows p)) =
      map_option ?f (find (\<lambda>w. \<not> sw_done w \<and> line_count tx < ls_lastLine (sw_span w)) ws)"
    by (rule find_related [OF assms(1)]) (use assms(4) in \<open>auto simp: shape_def\<close>)
  then have "checkEnds p = fst (outcome tx (ws, False, v))"
    using assms(2) unfolding checkEnds_def outcome_def map_option_case by simp
  then show ?thesis using assms(3) by (simp add: outcome_def split: option.splits)
qed

text \<open>At the end of the text, and when no window wants a line any more.\<close>

lemma end_outcome:
  assumes "pass_at tx (line_count tx + 1) p ws False v" and "good_shapes tx (map shape ws)"
  shows "(checkEnds p, ps_seen p) = outcome tx (ws, False, v)"
proof (rule checkEnds_outcome)
  note d = pass_atD [OF assms(1)]
  show "\<forall>i < length ws. shape (ps_windows p ! i) = shape (ws ! i) \<and>
      ((\<not> sw_done (ps_windows p ! i) \<and> sw_next (ps_windows p ! i) \<le> ls_lastLine (sw_span (ps_windows p ! i))) \<longleftrightarrow>
       (\<not> sw_done (ws ! i) \<and> line_count tx < ls_lastLine (sw_span (ws ! i))))"
  proof (intro allI impI)
    fix i assume i: "i < length ws"
    note f = d(11) [OF i] and g = good_shapes_nth [OF assms(2) i]
    show "shape (ps_windows p ! i) = shape (ws ! i) \<and>
      ((\<not> sw_done (ps_windows p ! i) \<and> sw_next (ps_windows p ! i) \<le> ls_lastLine (sw_span (ps_windows p ! i))) \<longleftrightarrow>
       (\<not> sw_done (ws ! i) \<and> line_count tx < ls_lastLine (sw_span (ws ! i))))"
      using f g by (cases "i < ps_next p"; cases "i \<in> set (ps_active p)") (auto simp: fits_window_def shape_def)
  qed
qed (use pass_atD(1-3) [OF assms(1)] in auto)

lemma idle_outcome:
  assumes "pass_at tx n p ws False v" and "good_shapes tx (map shape ws)" and "ps_next p = length ws" and "ps_active p = []"
  shows "(checkEnds p, ps_seen p) = outcome tx (offers_from req tx visit n (ws, False, v))"
proof -
  note d = pass_atD [OF assms(1)]
  have idle: "sw_done (ws ! i) \<or> sw_last (ws ! i) < n" "sw_done (ps_windows p ! i)" "shape (ps_windows p ! i) = shape (ws ! i)" if "i < length ws" for i
    using d(11) [OF that] that assms(3,4) by (auto simp: fits_window_def shape_def)
  have "offers_from req tx visit n (ws, False, v) = (ws, False, v)"
    unfolding offers_from_def by (rule offer_lines_none) (use idle(1) in \<open>metis in_set_conv_nth\<close>)
  moreover have "(checkEnds p, ps_seen p) = outcome tx (ws, False, v)"
  proof (rule checkEnds_outcome)
    show "\<forall>i < length ws. shape (ps_windows p ! i) = shape (ws ! i) \<and>
      ((\<not> sw_done (ps_windows p ! i) \<and> sw_next (ps_windows p ! i) \<le> ls_lastLine (sw_span (ps_windows p ! i))) \<longleftrightarrow>
       (\<not> sw_done (ws ! i) \<and> line_count tx < ls_lastLine (sw_span (ws ! i))))"
      using idle good_shapes_nth [OF assms(2)] d(5) by fastforce
  qed (use d in auto)
  ultimately show ?thesis by simp
qed

end
