(* ===== verification/SpanRun.thy ===== *)
theory SpanRun
  imports SpanPass
begin

text \<open>
  The rounds of the pass. What a source owes the pass is a locale: it enters the text at the start of a line, no later than
  the lines wanted before a span, and a plain file exactly there.
\<close>

section \<open>Reaching windows\<close>

lemma pass_atI:
  assumes "ps_stopped p = s" and "ps_seen p = v" and "length (ps_windows p) = length ws" and "1 \<le> n" and "n \<le> line_count tx + 1"
    and "ps_next p \<le> length ws" and "ps_hasCursor p" and "cursor_at tx n p"
    and "\<not> s \<Longrightarrow> ps_active p = filter (\<lambda>i. i \<in> set (ps_active p)) [0 ..< length ws]" and "set (ps_active p) \<subseteq> {..< ps_next p}"
    and "\<And>i. \<not> s \<Longrightarrow> i < length ws \<Longrightarrow> fits_window n (i < ps_next p) (i \<in> set (ps_active p)) (ps_windows p ! i) (ws ! i)"
  shows "pass_at tx n p ws s v"
  unfolding pass_at_def using assms by (simp del: filter_eq_Cons_iff)

lemma takeWhile_nth_len: "i < length (takeWhile P xs) \<Longrightarrow> P (xs ! i)"
  using nth_mem [of i "takeWhile P xs"] set_takeWhileD by (metis takeWhile_nth)

lemma reach_ok:
  assumes "pass_at tx n p ws False v" and "good_shapes tx (map shape ws)" and "ps_hasCursor p"
  shows "pass_at tx n (reach p) ws False v \<and> ps_hasCursor (reach p) \<and> (\<forall>i < length ws. ps_next (reach p) \<le> i \<longrightarrow> n < sw_first (ws ! i))"
proof -
  note d = pass_atD [OF assms(1)]
  let ?ahead = "drop (ps_next p) (ps_windows p)"
  define k where "k = length (takeWhile (\<lambda>w. sw_first w \<le> ps_line p) ?ahead)"
  have line: "ps_line p = n" using d(7) assms(3) by (simp add: cursor_at_def)
  have r: "reach p = p\<lparr>ps_active := ps_active p @ [ps_next p ..< ps_next p + k], ps_next := ps_next p + k\<rparr>"
    by (simp add: reach_def k_def Let_def)
  have k: "ps_next p + k \<le> length ws" using length_takeWhile_le [of "\<lambda>w. sw_first w \<le> ps_line p" ?ahead] d(3,6) by (simp add: k_def)
  have new: "fits_window n True True (ps_windows p ! i) (ws ! i)" if "ps_next p \<le> i" "i < ps_next p + k" for i
  proof -
    have i: "i < length ws" using that k by simp
    have "?ahead ! (i - ps_next p) = ps_windows p ! i" using that(1) d(3,6) i by simp
    moreover have "i - ps_next p < k" using that by simp
    ultimately have "sw_first (ps_windows p ! i) \<le> n" using takeWhile_nth_len unfolding k_def line by metis
    then show ?thesis using d(11) [OF i] that(1) good_shapes_nth [OF assms(2) i] by (auto simp: fits_window_def)
  qed
  have later: "n < sw_first (ws ! i)" if i: "i < length ws" "ps_next p + k \<le> i" for i
  proof -
    let ?j = "ps_next p + k"
    have "k < length ?ahead" using i d(3) by simp
    then have "\<not> sw_first (?ahead ! k) \<le> n" using nth_length_takeWhile [of "\<lambda>w. sw_first w \<le> ps_line p" ?ahead] unfolding k_def line by simp
    then have "n < sw_first (ps_windows p ! ?j)" using i d(3,6) by simp
    moreover have "sw_first (ps_windows p ! ?j) = sw_first (ws ! ?j)" using d(11) [of ?j] i by (simp add: fits_window_def)
    ultimately show ?thesis using good_shapes_sorted [OF assms(2) i(2) i(1)] by simp
  qed
  have active: "ps_active (reach p) = filter (\<lambda>i. i \<in> set (ps_active (reach p))) [0 ..< length ws]"
  proof -
    have up: "[0 ..< length ws] = [0 ..< ps_next p] @ [ps_next p ..< ps_next p + k] @ [ps_next p + k ..< length ws]"
      proof -
      have "[0 ..< length ws] = [0 ..< ps_next p] @ [ps_next p ..< length ws]"
        using upt_add_eq_append [of 0 "ps_next p" "length ws - ps_next p"] k by simp
      moreover have "[ps_next p ..< length ws] = [ps_next p ..< ps_next p + k] @ [ps_next p + k ..< length ws]"
        using upt_add_eq_append [of "ps_next p" "ps_next p + k" "length ws - (ps_next p + k)"] k by simp
      ultimately show ?thesis by simp
    qed
    have A: "filter (\<lambda>i. i \<in> set (ps_active p)) [0 ..< ps_next p] = ps_active p"
    proof -
      have "filter (\<lambda>i. i \<in> set (ps_active p)) ([ps_next p ..< ps_next p + k] @ [ps_next p + k ..< length ws]) = []"
        using d(10) by (auto simp: filter_empty_conv)
      then show ?thesis using d(9) unfolding up by simp
    qed
    have "filter (\<lambda>i. i \<in> set (ps_active p) \<or> ps_next p \<le> i \<and> i < ps_next p + k) [0 ..< ps_next p] =
        filter (\<lambda>i. i \<in> set (ps_active p)) [0 ..< ps_next p]"
      by (rule filter_cong) auto
    moreover have "filter (\<lambda>i. i \<in> set (ps_active p) \<or> ps_next p \<le> i \<and> i < ps_next p + k) [ps_next p ..< ps_next p + k] =
        [ps_next p ..< ps_next p + k]"
      by (rule filter_True) auto
    moreover have "filter (\<lambda>i. i \<in> set (ps_active p) \<or> ps_next p \<le> i \<and> i < ps_next p + k) [ps_next p + k ..< length ws] = []"
      using d(10) by (auto simp: filter_empty_conv)
    ultimately show ?thesis unfolding r up by (simp add: A)
  qed
  have "fits_window n (i < ps_next (reach p)) (i \<in> set (ps_active (reach p))) (ps_windows (reach p) ! i) (ws ! i)" if "i < length ws" for i
  proof (cases "ps_next p \<le> i \<and> i < ps_next p + k")
    case True
    then show ?thesis using new [of i] by (simp add: r)
  next
    case False
    then have "i \<in> set (ps_active (reach p)) \<longleftrightarrow> i \<in> set (ps_active p)" "i < ps_next (reach p) \<longleftrightarrow> i < ps_next p" by (auto simp: r)
    then show ?thesis using d(11) [OF that] by (simp add: r)
  qed
  moreover have "set (ps_active (reach p)) \<subseteq> {..< ps_next (reach p)}" using d(10) by (auto simp: r)
  moreover have "cursor_at tx n (reach p)" using d(7) [OF assms(3)] by (simp add: r cursor_at_def)
  moreover have "ps_next (reach p) \<le> length ws" using k by (simp add: r)
  ultimately have "pass_at tx n (reach p) ws False v"
    using d(1-5) assms(3) by (intro pass_atI active) (simp_all add: r)
  then show ?thesis using later assms(3) by (simp add: r)
qed

section \<open>One line\<close>

lemma drop_to_next:
  assumes "1 \<le> n" and "n \<le> line_count tx"
  shows "drop (length (raw_lines tx ! nat (n - 1)) + nat (line_offset tx n)) tx = drop (nat (line_offset tx (n + 1))) tx"
proof -
  have "0 \<le> line_offset tx n" by (simp add: line_offset_def)
  then have "nat (line_offset tx (n + 1)) = length (raw_lines tx ! nat (n - 1)) + nat (line_offset tx n)"
    unfolding line_offset_next [OF assms] by (simp add: nat_add_distrib)
  then show ?thesis by simp
qed

lemma skip_ok:
  assumes "pass_at tx n p ws False v" and "ps_hasCursor p" and "ps_active p = []" and "n \<le> line_count tx"
    and "\<forall>i < length ws. ps_next p \<le> i \<longrightarrow> n < sw_first (ws ! i)"
  shows "\<exists>len rest'. skip_line room (ps_rest p) 0 = (len, ends_text (raw_lines tx ! nat (n - 1)), rest') \<and> len \<noteq> 0 \<and>
    pass_at tx (n + 1) (advance len (p\<lparr>ps_rest := rest'\<rparr>)) ws False v \<and> ps_hasCursor (advance len (p\<lparr>ps_rest := rest'\<rparr>)) \<and>
    offers_from req tx visit n (ws, False, v) = offers_from req tx visit (n + 1) (ws, False, v)"
proof -
  note d = pass_atD [OF assms(1)]
  let ?l = "raw_lines tx ! nat (n - 1)"
  have rest: "ps_rest p = drop (nat (line_offset tx n)) tx" "ps_line p = n" "ps_offset p = line_offset tx n"
    using d(7) [OF assms(2)] by (simp_all add: cursor_at_def)
  have fl: "first_line (ps_rest p) = ?l" using first_line_at [OF d(4) assms(4)] by (simp add: rest(1))
  let ?rest' = "drop (length ?l) (ps_rest p)" and ?len = "int (length ?l)"
  have sk: "skip_line room (ps_rest p) 0 = (?len, ends_text ?l, ?rest')" by (simp add: skip_line_ok fl)
  have off: "line_offset tx (n + 1) = line_offset tx n + ?len" by (rule line_offset_next [OF d(4) assms(4)])
  have cur: "cursor_at tx (n + 1) (advance ?len (p\<lparr>ps_rest := ?rest'\<rparr>))"
    by (simp add: cursor_at_def advance_def rest off [symmetric] drop_to_next [OF d(4) assms(4)])
  have idle: "sw_done (ws ! i) \<or> sw_last (ws ! i) < n \<or> n + 1 \<le> sw_first (ws ! i)" if "i < length ws" for i
    using d(11) [OF that] assms(3,5) that by (cases "i < ps_next p") (auto simp: fits_window_def)
  have fits: "fits_window (n + 1) (i < ps_next p) (i \<in> set (ps_active p)) (ps_windows p ! i) (ws ! i)" if "i < length ws" for i
    using d(11) [OF that] assms(3,5) that by (cases "i < ps_next p") (auto simp: fits_window_def)
  have "pass_at tx (n + 1) (advance ?len (p\<lparr>ps_rest := ?rest'\<rparr>)) ws False v"
    using d cur fits assms(2,3,4) by (simp add: pass_at_def advance_def)
  moreover have "offers_from req tx visit n (ws, False, v) = offers_from req tx visit (n + 1) (ws, False, v)"
    by (rule offers_from_idle) (use d(4) assms(4) idle in auto)
  moreover have "?len \<noteq> 0" using line_at_nonempty [OF d(4) assms(4)] by simp
  ultimately show ?thesis using sk assms(2) by (auto simp: advance_def)
qed

lemma readLine_ok:
  assumes "pass_at tx n p ws False v" and "ps_hasCursor p" and "n \<le> line_count tx"
    and "\<forall>i < length ws. ps_next p \<le> i \<longrightarrow> n < sw_first (ws ! i)"
  shows "\<exists>p' ws' s' v'. readLine req src visit p = (ends_text (raw_lines tx ! nat (n - 1)), p') \<and> pass_at tx (n + 1) p' ws' s' v' \<and>
    ps_hasCursor p' \<and> map shape ws' = map shape ws \<and>
    offers_from req tx visit n (ws, False, v) = offers_from req tx visit (n + 1) (ws', s', v')"
proof -
  note d = pass_atD [OF assms(1)]
  let ?l = "raw_lines tx ! nat (n - 1)"
  have rest: "ps_rest p = drop (nat (line_offset tx n)) tx" "ps_line p = n" "ps_offset p = line_offset tx n"
    using d(7) [OF assms(2)] by (simp_all add: cursor_at_def)
  have fl: "first_line (ps_rest p) = ?l" using first_line_at [OF d(4) assms(3)] by (simp add: rest(1))
  let ?rest' = "drop (length ?l) (ps_rest p)" and ?len = "int (length ?l)"
  have off: "line_offset tx (n + 1) = line_offset tx n + ?len" by (rule line_offset_next [OF d(4) assms(3)])
  have rt: "readText (line_room src) (rq_keepBytes req) (ps_rest p) =
      (take (nat (rq_keepBytes req)) (line_text ?l), int (length (line_text ?l)), ?len, ends_text ?l, ?rest')"
    by (simp add: readText_ok fl Let_def)
  let ?line = "span_line_of req n (line_offset tx n) ?l"
  obtain kept p' where h: "hand_line visit ?line (ps_active p) p = (kept, p')" by force
  obtain ws' s' v' where q: "fold (offer visit ?line) [0 ..< length ws] (ws, False, v) = (ws', s', v')" by (metis prod_cases3)
  have act: "ps_active p = filter (\<lambda>i. i \<in> set (ps_active p)) [0 ..< length ws]" by (rule d(9))
  have "handed n (ps_next p) (set (ps_active p)) [0 ..< length ws] p ws False
      (hand_line visit ?line (filter (\<lambda>i. i \<in> set (ps_active p)) [0 ..< length ws]) p)
      (fold (offer visit ?line) [0 ..< length ws] (ws, False, v))"
  proof (rule hand_line_offers)
    show "sn_number ?line = n" by (simp add: span_line_of_def split: prod.split)
    show "to_hand n (ps_next p) (set (ps_active p)) [0 ..< length ws] p ws"
      using d(10,11) assms(4) by (auto simp: to_hand_def)
  qed (use d rest in auto)
  then have hh: "p' = p\<lparr>ps_windows := ps_windows p', ps_stopped := s', ps_seen := v'\<rparr>"
    "length (ps_windows p') = length (ps_windows p)" "length ws' = length ws"
    "kept = filter (\<lambda>i. i \<in> set kept) [0 ..< length ws]" "set kept \<subseteq> set (ps_active p)"
    "\<not> s' \<longrightarrow> (\<forall>i \<in> set [0 ..< length ws]. fits_window (n + 1) (i < ps_next p) (i \<in> set kept) (ps_windows p' ! i) (ws' ! i))"
    unfolding act [symmetric] h q handed_def by auto
  let ?p' = "advance ?len (p'\<lparr>ps_active := kept, ps_rest := ?rest'\<rparr>)"
  have f: "ps_next p' = ps_next p" "ps_hasCursor p' = ps_hasCursor p" "ps_line p' = ps_line p" "ps_offset p' = ps_offset p"
    "ps_stopped p' = s'" "ps_seen p' = v'"
    by (subst hh(1), simp)+
  have "?len \<noteq> 0" using line_at_nonempty [OF d(4) assms(3)] by simp
  moreover have "(case cutAtTextEnd req (ps_offset p) (take (nat (rq_keepBytes req)) (line_text ?l)) (int (length (line_text ?l))) of
      (tx', len') \<Rightarrow> \<lparr>sn_number = ps_line p, sn_text = tx', sn_length = len'\<rparr>) = ?line"
    by (simp add: span_line_of_def rest)
  ultimately have rl: "readLine req src visit p = (ends_text ?l, ?p')"
    using h by (simp add: readLine_def rt split: prod.splits)
  have cur: "cursor_at tx (n + 1) ?p'"
    by (simp add: cursor_at_def advance_def rest f off [symmetric] drop_to_next [OF d(4) assms(3)])
  have "pass_at tx (n + 1) ?p' ws' s' v'"
    using hh(2-6) f cur d(3-6,10) assms(2,3) by (auto simp: pass_at_def advance_def)
  moreover have "map shape ws' = map shape ws"
    using offers_shape [of visit ?line "[0 ..< length ws]" "(ws, False, v)"] q by simp
  moreover have "offers_from req tx visit n (ws, False, v) = offers_from req tx visit (n + 1) (ws', s', v')"
    using offers_from_next [OF d(4) assms(3), of req visit "(ws, False, v)"] q by simp
  ultimately show ?thesis using rl f(2) assms(2) by (auto simp: advance_def)
qed

section \<open>The whole pass\<close>

lemma stopped_outcome:
  assumes "pass_at tx n p ws True v"
  shows "(checkEnds p, ps_seen p) = outcome tx (offers_from req tx visit m (ws, True, v))"
  using assms by (simp add: pass_at_def checkEnds_def outcome_def offers_from_def offer_lines_stopped)

lemma ended_outcome:
  assumes "pass_at tx n p ws s v" and "good_shapes tx (map shape ws)" and "\<not> s \<Longrightarrow> n = line_count tx + 1"
  shows "(checkEnds p, ps_seen p) = outcome tx (offers_from req tx visit n (ws, s, v))"
proof (cases s)
  case True
  then show ?thesis using stopped_outcome assms(1) by simp
next
  case False
  then have "pass_at tx (line_count tx + 1) p ws False v" and n: "n = line_count tx + 1" using assms by simp_all
  from end_outcome [OF this(1) assms(2)] show ?thesis using False by (simp add: n offers_from_end)
qed

definition line_cursor :: "bytes \<Rightarrow> int \<Rightarrow> text_cursor" where
  "line_cursor tx m = \<lparr>cu_text = drop (nat (line_offset tx m)) tx, cu_offset = line_offset tx m, cu_line = m\<rparr>"

locale text_entry =
  fixes tx :: bytes and src :: span_source
  assumes entry: "1 \<le> ls_firstLine sp \<Longrightarrow> ls_firstLine sp \<le> line_count tx \<Longrightarrow> ls_startOffset sp = line_offset tx (ls_firstLine sp) \<Longrightarrow>
    0 \<le> back \<Longrightarrow> back < ls_firstLine sp \<Longrightarrow>
    \<exists>m. so_open src sp back = Inr (line_cursor tx m) \<and> 1 \<le> m \<and> m \<le> ls_firstLine sp - back \<and>
      (so_plain src \<longrightarrow> m = ls_firstLine sp - back)"
begin

lemma approach_ok:
  assumes "pass_at tx n p ws False v" and "good_shapes tx (map shape ws)" and "ps_next p < length ws" and "ps_active p = []"
  shows "\<exists>p1 m. approach src (ps_windows p ! ps_next p) p = Inr p1 \<and> pass_at tx m p1 ws False v \<and> ps_hasCursor p1 \<and> n \<le> m \<and>
    offers_from req tx visit n (ws, False, v) = offers_from req tx visit m (ws, False, v)"
proof -
  note d = pass_atD [OF assms(1)]
  let ?i = "ps_next p"
  let ?w = "ps_windows p ! ?i" and ?u = "ws ! ?i"
  note g = good_shapes_nth [OF assms(2,3)]
  have w: "sw_span ?w = sw_span ?u" "sw_first ?w = sw_first ?u" "n \<le> sw_first ?u"
    using d(11) [OF assms(3)] by (simp_all add: fits_window_def)
  obtain m where m: "so_open src (sw_span ?w) (ls_firstLine (sw_span ?w) - sw_first ?w) = Inr (line_cursor tx m)" "1 \<le> m"
    "m \<le> sw_first ?u" "so_plain src \<longrightarrow> m = sw_first ?u"
    using entry [of "sw_span ?w" "ls_firstLine (sw_span ?w) - sw_first ?w"] g(1-4) unfolding w by auto
  consider (stay) "approach src ?w p = Inr p" "ps_hasCursor p"
    | (move) "approach src ?w p = Inr (p\<lparr>ps_hasCursor := True, ps_line := m, ps_offset := line_offset tx m,
         ps_rest := drop (nat (line_offset tx m)) tx\<rparr>)" "n \<le> m"
  proof (cases "ps_hasCursor p")
    case True
    have "ps_line p = n" using d(7) [OF True] by (simp add: cursor_at_def)
    show ?thesis
    proof (cases "worthSeeking src ?w p \<and> (so_plain src \<or> ps_line p < m)")
      case seek: True
      then have "n \<le> m" using m(4) w(3) \<open>ps_line p = n\<close> by auto
      have "approach src ?w p = Inr (p\<lparr>ps_hasCursor := True, ps_line := m, ps_offset := line_offset tx m,
          ps_rest := drop (nat (line_offset tx m)) tx\<rparr>)"
        using m(1) True seek by (cases "so_plain src") (simp_all add: approach_def line_cursor_def)
      then show ?thesis using that(2) \<open>n \<le> m\<close> by simp
    next
      case False
      then show ?thesis using that(1) m(1) True by (auto simp: approach_def line_cursor_def)
    qed
  next
    case False
    then have "n = 1" using d(8) by simp
    then show ?thesis using that(2) m(1,2) False unfolding approach_def line_cursor_def by simp
  qed
  then show ?thesis
  proof cases
    case stay
    then show ?thesis using assms(1) by auto
  next
    case move
    let ?p1 = "p\<lparr>ps_hasCursor := True, ps_line := m, ps_offset := line_offset tx m, ps_rest := drop (nat (line_offset tx m)) tx\<rparr>"
    have later: "m \<le> sw_first (ws ! i)" if "i < length ws" "?i \<le> i" for i
      using good_shapes_sorted [OF assms(2) that(2,1)] m(3) by simp
    have "pass_at tx m ?p1 ws False v"
    proof (rule pass_atI)
      show "fits_window m (i < ps_next ?p1) (i \<in> set (ps_active ?p1)) (ps_windows ?p1 ! i) (ws ! i)" if "i < length ws" for i
        using d(11) [OF that] later [OF that] assms(4) move(2) by (cases "i < ?i") (auto simp: fits_window_def)
    qed (use d m(2,3) g(2,3) assms(4) in \<open>auto simp: cursor_at_def\<close>)
    moreover have "offers_from req tx visit n (ws, False, v) = offers_from req tx visit m (ws, False, v)"
    proof (rule offers_from_idle)
      show "\<forall>i < length ws. sw_done (ws ! i) \<or> sw_last (ws ! i) < n \<or> m \<le> sw_first (ws ! i)"
      proof (intro allI impI)
        fix i assume i: "i < length ws"
        show "sw_done (ws ! i) \<or> sw_last (ws ! i) < n \<or> m \<le> sw_first (ws ! i)"
          using d(11) [OF i] later [OF i] assms(4) by (cases "i < ?i") (auto simp: fits_window_def)
      qed
    qed (use d(4) m(2,3) g(2,3) move(2) in auto)
    ultimately show ?thesis using move by auto
  qed
qed

text \<open>Every round reads a line, so one round more than the lines left is fuel enough.\<close>

lemma run_pass_ok:
  assumes "pass_at tx n p ws s v" and "good_shapes tx (map shape ws)" and "1 \<le> k" and "\<not> s \<Longrightarrow> line_count tx + 2 - n \<le> int k"
  shows "\<exists>p'. run_pass k req src visit p = Some (None, p') \<and> (checkEnds p', ps_seen p') = outcome tx (offers_from req tx visit n (ws, s, v))"
  using assms
proof (induction k arbitrary: n p ws s v)
  case (Suc k)
  show ?case
  proof (cases s)
    case True
    then have "ps_stopped p" using Suc.prems(1) by (simp add: pass_at_def)
    then show ?thesis using stopped_outcome Suc.prems(1) True by auto
  next
    case False
    then have at: "pass_at tx n p ws False v" using Suc.prems(1) by simp
    note d = pass_atD [OF at]
    show ?thesis
    proof (cases "ps_next p \<ge> length (ps_windows p) \<and> ps_active p = []")
      case True
      then have "ps_next p = length ws" using d(3,6) by simp
      then show ?thesis using idle_outcome [OF at Suc.prems(2)] True False by simp
    next
      case more: False
      obtain p1 m where p1: "(if ps_active p = [] then approach src (ps_windows p ! ps_next p) p else Inr p) = Inr p1"
        "pass_at tx m p1 ws False v" "ps_hasCursor p1" "n \<le> m"
        "offers_from req tx visit n (ws, False, v) = offers_from req tx visit m (ws, False, v)"
      proof (cases "ps_active p = []")
        case True
        then show ?thesis using that approach_ok [OF at Suc.prems(2) _ True, of req visit] more d(3) by (auto simp: not_le)
      next
        case act: False
        then show ?thesis using that [of p n] at d(8) by auto
      qed
      define p2 where "p2 = reach p1"
      have p2: "pass_at tx m p2 ws False v" "ps_hasCursor p2" "\<forall>i < length ws. ps_next p2 \<le> i \<longrightarrow> m < sw_first (ws ! i)"
        using reach_ok [OF p1(2) Suc.prems(2) p1(3)] by (simp_all add: p2_def)
      note d2 = pass_atD [OF p2(1)]
      have rest: "ps_rest p2 = drop (nat (line_offset tx m)) tx" using d2(7) [OF p2(2)] by (simp add: cursor_at_def)
      have run: "run_pass (Suc k) req src visit p =
          (if ps_active p2 = []
           then (case skip_line (line_room src) (ps_rest p2) 0 of (len, ended, rest') \<Rightarrow>
                   if len = 0 then Some (None, p2)
                   else let p3 = advance len (p2\<lparr>ps_rest := rest'\<rparr>)
                        in if ended then Some (None, p3) else run_pass k req src visit p3)
           else (case readLine req src visit p2 of (ended, p3) \<Rightarrow>
                   if ended then Some (None, p3) else run_pass k req src visit p3))"
        using d(1) more by (subst run_pass.simps(2)) (simp only: p1(1) p2_def [symmetric] Let_def sum.case if_False simp_thms)
      show ?thesis
      proof (cases "m \<le> line_count tx")
        case False
        then have m: "m = line_count tx + 1" using d2(5) by simp
        then have "ps_rest p2 = []" using rest past_last_line [of tx m] by simp
        then have "run_pass (Suc k) req src visit p = Some (None, p2)"
          unfolding run by (simp add: skip_line_ok readLine_def readText_ok Let_def line_text_def)
        then show ?thesis using ended_outcome [OF p2(1) Suc.prems(2) m] p1(5) \<open>\<not> s\<close> by simp
      next
        case line: True
        let ?l = "raw_lines tx ! nat (m - 1)"
        obtain p3 ws' s' v' where p3: "run_pass (Suc k) req src visit p = (if ends_text ?l then Some (None, p3) else run_pass k req src visit p3)"
          "pass_at tx (m + 1) p3 ws' s' v'" "map shape ws' = map shape ws"
          "offers_from req tx visit m (ws, False, v) = offers_from req tx visit (m + 1) (ws', s', v')"
        proof (cases "ps_active p2 = []")
          case True
          from skip_ok [OF p2(1,2) True line p2(3), of "line_room src" req visit] obtain len rest' where
            sk: "skip_line (line_room src) (ps_rest p2) 0 = (len, ends_text ?l, rest')" "len \<noteq> 0"
            "pass_at tx (m + 1) (advance len (p2\<lparr>ps_rest := rest'\<rparr>)) ws False v"
            "offers_from req tx visit m (ws, False, v) = offers_from req tx visit (m + 1) (ws, False, v)" by blast
          show ?thesis by (rule that [OF _ sk(3) refl sk(4)]) (unfold run, simp add: True sk(1,2) Let_def)
        next
          case act: False
          from readLine_ok [OF p2(1,2) line p2(3), of req src visit] obtain p3 ws' s' v' where
            rl: "readLine req src visit p2 = (ends_text ?l, p3)" "pass_at tx (m + 1) p3 ws' s' v'" "map shape ws' = map shape ws"
            "offers_from req tx visit m (ws, False, v) = offers_from req tx visit (m + 1) (ws', s', v')" by blast
          show ?thesis by (rule that [OF _ rl(2-4)]) (unfold run, simp add: act rl(1))
        qed
        have shapes: "good_shapes tx (map shape ws')" using Suc.prems(2) by (simp add: p3(3))
        show ?thesis
        proof (cases "ends_text ?l")
          case True
          then have "m + 1 = line_count tx + 1" using line_at_last [OF d2(4) line] by simp
          then show ?thesis using ended_outcome [OF p3(2) shapes, of req visit] p3(1,4) p1(5) True \<open>\<not> s\<close> by simp
        next
          case next_line: False
          have "1 \<le> k" "\<not> s' \<Longrightarrow> line_count tx + 2 - (m + 1) \<le> int k" using Suc.prems(4) p1(4) line \<open>\<not> s\<close> by simp_all
          from Suc.IH [OF p3(2) shapes this] show ?thesis using p3(1,4) p1(5) next_line \<open>\<not> s\<close> by simp
        qed
      qed
    qed
  qed
qed simp

end

end
