(* ===== verification/IndexFacts.thy ===== *)
theory IndexFacts
  imports LineIndex
begin

text \<open>What the walk over a text puts into its line index.\<close>

section \<open>The walk reads the lines\<close>

lemma walk_from_lines: "walk_from room step rest s = fold (walk_line step) (raw_lines rest) s"
proof (induction rest arbitrary: s rule: length_induct)
  case (1 rest)
  show ?case
  proof (cases rule: raw_lines_cases [of rest])
    case none
    then show ?thesis by (subst walk_from.simps) (simp add: nextLine_ok)
  next
    case last
    have "walk_from room step [] (walk_line step rest s) = walk_line step rest s" by (subst walk_from.simps) (simp add: nextLine_ok)
    then show ?thesis using last by (subst walk_from.simps) (simp add: nextLine_ok)
  next
    case (full l more)
    have "l \<noteq> []" using full(2) by (auto simp: full_line_def)
    then have "walk_from room step more (walk_line step l s) = fold (walk_line step) (raw_lines more) (walk_line step l s)"
      using 1 full(1) by simp
    then show ?thesis using full \<open>l \<noteq> []\<close> by (subst walk_from.simps) (simp add: nextLine_ok)
  qed
qed

section \<open>Checkpoints\<close>

definition blank_line :: "bytes \<Rightarrow> bool" where
  "blank_line l \<longleftrightarrow> \<not> hasNonWhitespace (stripLineEnd l)"

definition walked_index :: "bytes \<Rightarrow> int \<Rightarrow> nat \<Rightarrow> walk_state \<Rightarrow> bool" where
  "walked_index tx step k s \<longleftrightarrow> wl_line s = int k \<and> wl_offset s = line_offset tx (int k + 1) \<and>
     sorted_wrt (\<lambda>a b. ByteOffset a + step \<le> ByteOffset b) (wl_index s) \<and> sorted_wrt (\<lambda>a b. LineNumber a < LineNumber b) (wl_index s) \<and>
     (\<forall>e \<in> set (wl_index s). 1 \<le> LineNumber e \<and> LineNumber e \<le> int k \<and> ByteOffset e = line_offset tx (LineNumber e)) \<and>
     (if wl_due s then wl_next s = wl_offset s + step \<and> (\<forall>e \<in> set (wl_index s). ByteOffset e + step \<le> wl_offset s)
      else wl_index s \<noteq> [] \<and> wl_next s = ByteOffset (last (wl_index s)) + step \<and> wl_offset s < wl_next s) \<and>
     (\<forall>n. 1 \<le> n \<and> n \<le> int k \<longrightarrow> (\<exists>e \<in> set (wl_index s). LineNumber e \<le> n \<and> line_offset tx n < ByteOffset e + step))"

definition walked_stats :: "bytes \<Rightarrow> nat \<Rightarrow> line_stats \<Rightarrow> bool" where
  "walked_stats tx k a \<longleftrightarrow>
     la_emptyCount a = int (length (filter blank_line (take k (raw_lines tx)))) \<and>
     la_count a = int (length (filter (\<lambda>l. \<not> blank_line l) (take k (raw_lines tx)))) \<and>
     (\<forall>l \<in> set (take k (raw_lines tx)). \<not> blank_line l \<longrightarrow> int (length (stripLineEnd l)) \<le> la_maxLength a) \<and>
     (la_maxLength a = 0 \<or>
       1 \<le> la_maxLineNumber a \<and> la_maxLineNumber a \<le> int k \<and> la_maxLineOffset a = line_offset tx (la_maxLineNumber a) \<and>
       la_maxLength a = int (length (stripLineEnd (raw_lines tx ! nat (la_maxLineNumber a - 1)))))"

lemma walk_line_index:
  assumes "walked_index tx step k s" and "k < length (raw_lines tx)" and "0 < step"
  shows "walked_index tx step (Suc k) (walk_line step (raw_lines tx ! k) s)"
proof -
  let ?l = "raw_lines tx ! k"
  have k: "1 \<le> int k + 1" "int k + 1 \<le> line_count tx" using assms(2) by (simp_all add: line_count_def)
  have off: "line_offset tx (int (Suc k) + 1) = line_offset tx (int k + 1) + int (length ?l)"
    using line_offset_next [OF k] by (simp add: add.commute)
  have l: "0 < int (length ?l)" using line_at_nonempty [OF k] by simp
  have w: "wl_line s = int k" "wl_offset s = line_offset tx (int k + 1)"
    "sorted_wrt (\<lambda>a b. ByteOffset a + step \<le> ByteOffset b) (wl_index s)" "sorted_wrt (\<lambda>a b. LineNumber a < LineNumber b) (wl_index s)"
    "\<forall>e \<in> set (wl_index s). 1 \<le> LineNumber e \<and> LineNumber e \<le> int k \<and> ByteOffset e = line_offset tx (LineNumber e)"
    "\<forall>n. 1 \<le> n \<and> n \<le> int k \<longrightarrow> (\<exists>e \<in> set (wl_index s). LineNumber e \<le> n \<and> line_offset tx n < ByteOffset e + step)"
    and due: "wl_due s \<Longrightarrow> wl_next s = wl_offset s + step \<and> (\<forall>e \<in> set (wl_index s). ByteOffset e + step \<le> wl_offset s)"
    and not_due: "\<not> wl_due s \<Longrightarrow> wl_index s \<noteq> [] \<and> wl_next s = ByteOffset (last (wl_index s)) + step \<and> wl_offset s < wl_next s"
    using assms(1) by (auto simp: walked_index_def)
  define new where "new = \<lparr>LineNumber = int k + 1, ByteOffset = wl_offset s, FrameIndex = None\<rparr>"
  define es where "es = (if wl_due s then wl_index s @ [new] else wl_index s)"
  let ?s = "walk_line step ?l s"
  have s: "wl_index ?s = es" "wl_line ?s = int k + 1" "wl_offset ?s = wl_offset s + int (length ?l)"
    "wl_due ?s \<longleftrightarrow> wl_offset s + int (length ?l) \<ge> wl_next s"
    "wl_next ?s = (if wl_offset s + int (length ?l) \<ge> wl_next s then wl_offset s + int (length ?l) + step else wl_next s)"
    by (auto simp: walk_line_def Let_def es_def new_def w(1))
  have last_es: "es \<noteq> []" "wl_next s = ByteOffset (last es) + step"
    using due not_due by (auto simp: es_def new_def)
  have spaced: "sorted_wrt (\<lambda>a b. ByteOffset a + step \<le> ByteOffset b) es"
    using w(3) due by (auto simp: es_def sorted_wrt_append new_def)
  have below: "ByteOffset e + step \<le> ByteOffset (last es) + step" if "e \<in> set es" for e
  proof (cases "e = last es")
    case False
    then have "e \<in> set (butlast es)" using that last_es(1) by (metis append_butlast_last_id rotate1.simps(2) set_ConsD set_rotate1)
    moreover have "sorted_wrt (\<lambda>a b. ByteOffset a + step \<le> ByteOffset b) (butlast es @ [last es])" using spaced last_es(1) by simp
    ultimately show ?thesis using assms(3) by (fastforce simp: sorted_wrt_append)
  qed simp
  have near: "\<exists>e \<in> set es. LineNumber e \<le> int k + 1 \<and> line_offset tx (int k + 1) < ByteOffset e + step"
  proof (cases "wl_due s")
    case True
    then show ?thesis using w(2) assms(3) by (auto simp: es_def new_def)
  next
    case False
    then have "last (wl_index s) \<in> set (wl_index s)" using not_due by simp
    moreover from this have "LineNumber (last (wl_index s)) \<le> int k + 1" using w(5) by force
    ultimately show ?thesis using w(2) not_due [OF False] False by (auto simp: es_def intro!: bexI [of _ "last (wl_index s)"])
  qed
  have "\<exists>e \<in> set es. LineNumber e \<le> n \<and> line_offset tx n < ByteOffset e + step" if "1 \<le> n" "n \<le> int k + 1" for n
  proof (cases "n = int k + 1")
    case False
    then obtain e where "e \<in> set (wl_index s)" "LineNumber e \<le> n" "line_offset tx n < ByteOffset e + step" using w(6) \<open>1 \<le> n\<close> \<open>n \<le> int k + 1\<close> by force
    then show ?thesis by (auto simp: es_def)
  qed (use near in simp)
  moreover have "sorted_wrt (\<lambda>a b. LineNumber a < LineNumber b) es"
    using w(4,5) by (auto simp: es_def sorted_wrt_append new_def)
  moreover have "\<forall>e \<in> set es. 1 \<le> LineNumber e \<and> LineNumber e \<le> int k + 1 \<and> ByteOffset e = line_offset tx (LineNumber e)"
    using w(2,5) by (auto simp: es_def new_def)
  moreover have "if wl_due ?s then wl_next ?s = wl_offset ?s + step \<and> (\<forall>e \<in> set es. ByteOffset e + step \<le> wl_offset ?s)
      else es \<noteq> [] \<and> wl_next ?s = ByteOffset (last es) + step \<and> wl_offset ?s < wl_next ?s"
    using below last_es unfolding s by force
  ultimately show ?thesis unfolding walked_index_def s(1,2) using spaced off w(2) s(3) by (simp add: add.commute)
qed

lemma walk_line_stats:
  assumes "walked_stats tx k (wl_stats s)" and "wl_line s = int k" and "wl_offset s = line_offset tx (int k + 1)" and "k < length (raw_lines tx)"
  shows "walked_stats tx (Suc k) (wl_stats (walk_line step (raw_lines tx ! k) s))"
proof -
  let ?l = "raw_lines tx ! k"
  have "wl_stats (walk_line step ?l s) = stats_observe (int (length (stripLineEnd ?l))) (blank_line ?l) (int k + 1) (line_offset tx (int k + 1)) (wl_stats s)"
    by (simp add: walk_line_def Let_def blank_line_def assms(2,3))
  moreover have "take (Suc k) (raw_lines tx) = take k (raw_lines tx) @ [?l]" using assms(4) by (simp add: take_Suc_conv_app_nth)
  ultimately show ?thesis using assms(1) by (fastforce simp: walked_stats_def stats_observe_def Let_def)
qed

lemma walk_start_ok: "walked_index tx step 0 (walk_start step)" "walked_stats tx 0 (wl_stats (walk_start step))"
  by (simp_all add: walked_index_def walked_stats_def walk_start_def no_stats_def)

lemma walked_all:
  assumes "0 < step" and "k \<le> length (raw_lines tx)"
  shows "walked_index tx step k (fold (walk_line step) (take k (raw_lines tx)) (walk_start step)) \<and>
    walked_stats tx k (wl_stats (fold (walk_line step) (take k (raw_lines tx)) (walk_start step)))"
  using assms(2)
proof (induction k)
  case 0
  then show ?case by (simp add: walk_start_ok)
next
  case (Suc k)
  let ?s = "fold (walk_line step) (take k (raw_lines tx)) (walk_start step)"
  have IH: "walked_index tx step k ?s" "walked_stats tx k (wl_stats ?s)" using Suc by auto
  have k: "k < length (raw_lines tx)" using Suc.prems by simp
  have "wl_line ?s = int k" "wl_offset ?s = line_offset tx (int k + 1)" using IH(1) by (simp_all add: walked_index_def)
  then show ?case using walk_line_index [OF IH(1) k assms(1)] walk_line_stats [OF IH(2) _ _ k] k by (simp add: take_Suc_conv_app_nth)
qed

section \<open>Line endings\<close>

text \<open>The sample: whole lines until they reach \<^verbatim>\<open>lineEndingSampleBytes\<close>.\<close>

fun sampled_lines :: "int \<Rightarrow> bytes list \<Rightarrow> bytes" where
  "sampled_lines n [] = []"
| "sampled_lines n (l # ls) = (if n \<ge> lineEndingSampleBytes then [] else l @ sampled_lines (n + int (length l)) ls)"

definition tally_of :: "bytes \<Rightarrow> line_ending_tally" where
  "tally_of bs = \<lparr>tl_crlf = count_crlf bs, tl_cr = count_byte cr bs - count_crlf bs, tl_lf = count_byte nl bs - count_crlf bs,
     tl_sampled = int (length bs)\<rparr>"

definition add_tally :: "line_ending_tally \<Rightarrow> line_ending_tally \<Rightarrow> line_ending_tally" where
  "add_tally t u = \<lparr>tl_crlf = tl_crlf t + tl_crlf u, tl_cr = tl_cr t + tl_cr u, tl_lf = tl_lf t + tl_lf u, tl_sampled = tl_sampled t + tl_sampled u\<rparr>"

lemma count_crlf_append: "full_line l \<Longrightarrow> count_crlf (l @ bs) = count_crlf l + count_crlf bs"
proof (induction l rule: count_crlf.induct)
  case (1 a b cs)
  show ?case
  proof (cases "a = cr \<and> b = nl")
    case True
    then have "cs = []" using 1(3) by (cases cs) (auto simp: full_line_def)
    then show ?thesis using True by simp
  next
    case False
    then have "full_line (b # cs)" using 1(3) by (auto simp: full_line_def)
    then have "count_crlf ((b # cs) @ bs) = count_crlf (b # cs) + count_crlf bs" by (rule 1(2) [OF False])
    then show ?thesis unfolding append_Cons count_crlf.simps(1) if_not_P [OF False] .
  qed
next
  case "2_2"
  then show ?case by (cases bs) (auto simp: full_line_def)
qed (simp add: full_line_def)

lemma tally_of_append: "full_line l \<Longrightarrow> tally_of (l @ bs) = add_tally (tally_of l) (tally_of bs)"
  by (simp add: tally_of_def add_tally_def count_crlf_append count_byte_def)

lemma tally_lines:
  assumes "\<forall>i. i + 1 < length ls \<longrightarrow> full_line (ls ! i)"
  shows "fold tally_observe ls t = add_tally t (tally_of (sampled_lines (tl_sampled t) ls))"
  using assms
proof (induction ls arbitrary: t)
  case Nil
  then show ?case by (simp add: add_tally_def tally_of_def count_byte_def)
next
  case (Cons l ls)
  have more: "\<forall>i. i + 1 < length ls \<longrightarrow> full_line (ls ! i)" using Cons.prems by (auto dest: spec [of _ "Suc _"])
  show ?case
  proof (cases "tl_sampled t \<ge> lineEndingSampleBytes")
    case True
    then have "tally_observe l t = t" by (simp add: tally_observe_def)
    moreover have "sampled_lines (tl_sampled t) ls = []" using True by (cases ls) simp_all
    ultimately show ?thesis using Cons.IH [OF more, of t] True by simp
  next
    case False
    have t: "tally_observe l t = add_tally t (tally_of l)" using False by (simp add: tally_observe_def add_tally_def tally_of_def Let_def)
    have n: "tl_sampled (tally_of l) = int (length l)" by (simp add: tally_of_def)
    have "tally_of (l @ sampled_lines (tl_sampled t + int (length l)) ls) =
        add_tally (tally_of l) (tally_of (sampled_lines (tl_sampled t + int (length l)) ls))"
    proof (cases ls)
      case Nil
      then show ?thesis by (simp add: add_tally_def tally_of_def count_byte_def)
    next
      case (Cons l' ls')
      then have "full_line l" using Cons.prems [rule_format, of 0] by simp
      then show ?thesis by (rule tally_of_append)
    qed
    then show ?thesis using Cons.IH [OF more, of "add_tally t (tally_of l)"] False by (simp add: t n add_tally_def)
  qed
qed

lemma add_no_tally: "add_tally no_tally u = u" "tl_sampled no_tally = 0"
  by (simp_all add: add_tally_def no_tally_def)

lemma walk_tally: "wl_tally (fold (walk_line step) ls s) = fold tally_observe ls (wl_tally s)"
  by (induction ls arbitrary: s) (simp_all add: walk_line_def Let_def)

section \<open>The index of a text\<close>

definition spaced_index :: "bytes \<Rightarrow> int \<Rightarrow> line_index_entry list \<Rightarrow> bool" where
  "spaced_index tx step es \<longleftrightarrow> sorted_wrt (\<lambda>a b. ByteOffset a + step \<le> ByteOffset b) es \<and>
     (\<forall>n. 1 \<le> n \<and> n \<le> line_count tx \<longrightarrow> (\<exists>e \<in> set es. LineNumber e \<le> n \<and> line_offset tx n < ByteOffset e + step))"

lemma walked_spaced: "walked_index tx step (length (raw_lines tx)) s \<Longrightarrow> spaced_index tx step (wl_index s)"
  unfolding walked_index_def spaced_index_def line_count_def by (elim conjE) (intro conjI, assumption+)

lemma walkLines_ok:
  assumes "0 < step"
  shows "names_lines tx (wk_LineIndex (walkLines step tx))" "spaced_index tx step (wk_LineIndex (walkLines step tx))"
    "wk_LineCount (walkLines step tx) = line_count tx" "wk_TotalBytes (walkLines step tx) = int (length tx)"
    "wk_EmptyLineCount (walkLines step tx) = int (length (filter blank_line (raw_lines tx)))"
    "walked_stats tx (length (raw_lines tx)) (wk_LineStats (walkLines step tx))"
    "wk_LineEnding (walkLines step tx) = tally_style (tally_of (sampled_lines 0 (raw_lines tx)))"
proof -
  let ?s = "fold (walk_line step) (raw_lines tx) (walk_start step)"
  have w: "walked_index tx step (length (raw_lines tx)) ?s" and st: "walked_stats tx (length (raw_lines tx)) (wl_stats ?s)"
    using walked_all [OF assms, of "length (raw_lines tx)" tx] by simp_all
  have wk: "walkLines step tx = \<lparr>wk_LineIndex = wl_index ?s, wk_LineCount = wl_line ?s, wk_EmptyLineCount = la_emptyCount (wl_stats ?s),
      wk_LineStats = wl_stats ?s, wk_LineEnding = tally_style (wl_tally ?s), wk_TotalBytes = wl_offset ?s\<rparr>"
    by (simp add: walkLines_def walk_from_lines Let_def)
  show "names_lines tx (wk_LineIndex (walkLines step tx))" "wk_LineCount (walkLines step tx) = line_count tx"
    using w by (simp_all add: wk names_lines_def walked_index_def line_count_def)
  show "spaced_index tx step (wk_LineIndex (walkLines step tx))" using walked_spaced [OF w] by (simp add: wk)
  show "wk_TotalBytes (walkLines step tx) = int (length tx)"
    using w by (simp add: wk walked_index_def line_offset_def)
  show "wk_EmptyLineCount (walkLines step tx) = int (length (filter blank_line (raw_lines tx)))"
    "walked_stats tx (length (raw_lines tx)) (wk_LineStats (walkLines step tx))"
    using st by (simp_all add: wk walked_stats_def)
  have full: "\<forall>i. i + 1 < length (raw_lines tx) \<longrightarrow> full_line (raw_lines tx ! i)" using raw_lines_last_full by blast
  show "wk_LineEnding (walkLines step tx) = tally_style (tally_of (sampled_lines 0 (raw_lines tx)))"
    using tally_lines [OF full, of no_tally] by (simp add: wk walk_tally walk_start_def add_no_tally)
qed

end
