(* ===== verification/FrameIndex.thy ===== *)
theory FrameIndex
  imports LineIndex SeekTable
begin

text \<open>
  The line index of a seekable file, \<^verbatim>\<open>internal/seekableindex/build.go\<close>: which lines each frame holds, and the checkpoints in
  the frames. The decoder of a frame is a parameter; the copy of the text to a writer is left out.
\<close>

section \<open>Building the index\<close>

definition CheckpointLineInterval :: int where "CheckpointLineInterval = 10000"

text \<open>\<^verbatim>\<open>seekable.DefaultFrameSize\<close>.\<close>

definition DefaultFrameSize :: int where "DefaultFrameSize = 4 * 2 ^ 20"

record frame_line_info =
  fn_Index :: int
  fn_CompressedOffset :: int
  fn_CompressedSize :: int
  fn_DecompressedOffset :: int
  fn_DecompressedSize :: int
  fn_FirstLine :: int
  fn_LastLine :: int
  fn_LineCount :: int

record frames_result =
  fr_Frames :: "frame_line_info list"
  fr_LineIndex :: "line_index_entry list"
  fr_LineCount :: int
  fr_FrameCount :: int
  fr_FrameSizeTarget :: int
  fr_DecompressedSizeBytes :: int

datatype build_error = ReadSeekTable seek_error | DecompressFrame int string

definition linesEndedInFrame :: "int \<Rightarrow> bool \<Rightarrow> bool \<Rightarrow> int" where
  "linesEndedInFrame lineBreaks isLastFrame textEndsAtLineStart =
     (if isLastFrame \<and> \<not> textEndsAtLineStart then lineBreaks + 1 else lineBreaks)"

lemma break_at_bound: "break_at bs = Some i \<Longrightarrow> i < length bs"
  using break_at_Some by blast

function interior_from :: "bytes \<Rightarrow> frame_info \<Rightarrow> int \<Rightarrow> int \<Rightarrow> nat \<Rightarrow> line_index_entry list" where
  "interior_from data frame firstLine lineNumber lineStart =
     (case break_at (drop lineStart data) of
        None \<Rightarrow> []
      | Some breakAt \<Rightarrow>
          let start = lineStart + breakAt + 1; n = lineNumber + 1
          in if start \<ge> length data then []
             else (if (n - firstLine) mod CheckpointLineInterval = 0
                   then [\<lparr>LineNumber = n, ByteOffset = DecompressedOffset frame + int start, FrameIndex = Some (fi_Index frame)\<rparr>] else []) @
                  interior_from data frame firstLine n start)"
  by auto
termination
  by (relation "measure (\<lambda>(data, frame, firstLine, lineNumber, lineStart). length data - lineStart)") auto

declare interior_from.simps [simp del]

definition interiorCheckpoints :: "bytes \<Rightarrow> frame_info \<Rightarrow> int \<Rightarrow> line_index_entry list" where
  "interiorCheckpoints data frame firstLine = interior_from data frame firstLine firstLine 0"

text \<open>The loop's variables: the line breaks before the frame, and whether the text so far ends at the start of a line.\<close>

record build_state =
  bs_result :: frames_result
  bs_linesBefore :: int
  bs_endsAtLineStart :: bool

definition build_frame :: "bytes \<Rightarrow> frame_info \<Rightarrow> bool \<Rightarrow> build_state \<Rightarrow> build_state" where
  "build_frame data frame isLastFrame s =
     (let lineBreaks = count_byte nl data;
          endsAtLineStart = (if data \<noteq> [] then last data = nl else bs_endsAtLineStart s);
          linesEnded = linesEndedInFrame lineBreaks isLastFrame endsAtLineStart;
          firstLine = bs_linesBefore s + 1;
          lastLine = firstLine + linesEnded - 1;
          r = bs_result s
      in \<lparr>bs_result = r\<lparr>fr_Frames := fr_Frames r @ [\<lparr>fn_Index = fi_Index frame, fn_CompressedOffset = CompressedOffset frame,
              fn_CompressedSize = CompressedSize frame, fn_DecompressedOffset = DecompressedOffset frame,
              fn_DecompressedSize = DecompressedSize frame, fn_FirstLine = firstLine, fn_LastLine = lastLine, fn_LineCount = linesEnded\<rparr>],
            fr_LineIndex := fr_LineIndex r @
              (if DecompressedSize frame > 0
               then [\<lparr>LineNumber = firstLine, ByteOffset = DecompressedOffset frame, FrameIndex = Some (fi_Index frame)\<rparr>] else []) @
              (if linesEnded > CheckpointLineInterval then interiorCheckpoints data frame firstLine else []),
            fr_LineCount := fr_LineCount r + linesEnded,
            fr_DecompressedSizeBytes := fr_DecompressedSizeBytes r + DecompressedSize frame\<rparr>,
          bs_linesBefore = bs_linesBefore s + lineBreaks, bs_endsAtLineStart = endsAtLineStart\<rparr>)"

fun build_frames :: "(int \<Rightarrow> string + bytes) \<Rightarrow> frame_info list \<Rightarrow> build_state \<Rightarrow> build_error + build_state" where
  "build_frames decode [] s = Inr s"
| "build_frames decode (frame # frames) s =
     (case decode (fi_Index frame) of
        Inl e \<Rightarrow> Inl (DecompressFrame (fi_Index frame) e)
      | Inr data \<Rightarrow> build_frames decode frames (build_frame data frame (frames = []) s))"

definition build_start :: "frame_info list \<Rightarrow> build_state" where
  "build_start frames =
     \<lparr>bs_result = \<lparr>fr_Frames = [], fr_LineIndex = [], fr_LineCount = 0, fr_FrameCount = int (length frames),
        fr_FrameSizeTarget = (case frames of [] \<Rightarrow> DefaultFrameSize | f # _ \<Rightarrow> DecompressedSize f), fr_DecompressedSizeBytes = 0\<rparr>,
      bs_linesBefore = 0, bs_endsAtLineStart = True\<rparr>"

definition build_index :: "reader \<Rightarrow> int \<Rightarrow> (int \<Rightarrow> string + bytes) \<Rightarrow> build_error + frames_result" where
  "build_index r fileSize decode =
     (case read_seek_table r fileSize of
        Inl e \<Rightarrow> Inl (ReadSeekTable e)
      | Inr table \<Rightarrow>
          (case build_frames decode (Frames table) (build_start (Frames table)) of Inl e \<Rightarrow> Inl e | Inr s \<Rightarrow> Inr (bs_result s)))"

end
