(* ===== verification/FrameFacts.thy ===== *)
theory FrameFacts
  imports FrameIndex
begin

text \<open>What the index of a seekable file says of its text: the lines of each frame, and the line a checkpoint names.\<close>

definition frames_hold :: "(int \<Rightarrow> string + bytes) \<Rightarrow> frame_info list \<Rightarrow> bytes list \<Rightarrow> bool" where
  "frames_hold decode frames parts \<longleftrightarrow> length frames = length parts \<and>
     (\<forall>i < length parts. decode (fi_Index (frames ! i)) = Inr (parts ! i) \<and>
        DecompressedOffset (frames ! i) = int (length (concat (take i parts))) \<and> DecompressedSize (frames ! i) = int (length (parts ! i)))"

text \<open>Whether a text ends at the start of a line, and how many lines it has.\<close>

definition at_line_start :: "bytes \<Rightarrow> bool" where
  "at_line_start bs \<longleftrightarrow> bs = [] \<or> last bs = nl"

lemma line_count_breaks: "line_count bs = linesEndedInFrame (line_breaks bs) True (at_line_start bs)"
proof (induction bs rule: length_induct)
  case (1 bs)
  show ?case
  proof (cases rule: raw_lines_cases [of bs])
    case last
    have "line_breaks bs = 0" using last(2) by (simp add: line_breaks_zero)
    moreover have "\<not> at_line_start bs" using last(1,2) last_in_set by (fastforce simp: at_line_start_def)
    ultimately show ?thesis using last(3) by (simp add: linesEndedInFrame_def line_count_def)
  next
    case (full l rest)
    have "length rest < length bs" using full(1,2) by (auto simp: full_line_def)
    then have "line_count rest = linesEndedInFrame (line_breaks rest) True (at_line_start rest)" using 1 by blast
    moreover have "at_line_start bs = at_line_start rest" by (cases "rest = []") (use full(1,2) in \<open>auto simp: at_line_start_def full_line_def\<close>)
    ultimately show ?thesis using full line_breaks_full [OF full(2)] by (simp add: linesEndedInFrame_def line_count_def)
  qed (simp add: linesEndedInFrame_def line_count_def at_line_start_def)
qed

lemma count_byte_nl [simp]: "count_byte nl bs = line_breaks bs"
  by (simp add: count_byte_def line_breaks_def)

text \<open>A checkpoint names the line that holds its byte, and that byte starts the line or the frame.\<close>

definition names_byte :: "bytes \<Rightarrow> frame_info list \<Rightarrow> line_index_entry \<Rightarrow> bool" where
  "names_byte tx frames e \<longleftrightarrow> 0 \<le> ByteOffset e \<and> ByteOffset e < int (length tx) \<and>
     LineNumber e = line_breaks (take (nat (ByteOffset e)) tx) + 1 \<and>
     (ByteOffset e = line_offset tx (LineNumber e) \<or> (\<exists>f \<in> set frames. ByteOffset e = DecompressedOffset f))"

definition interior_of :: "bytes \<Rightarrow> bytes \<Rightarrow> nat \<Rightarrow> line_index_entry \<Rightarrow> bool" where
  "interior_of p d start e \<longleftrightarrow> (\<exists>off. start < off \<and> off < length d \<and> d ! (off - 1) = nl \<and> ByteOffset e = int (length p + off) \<and>
     LineNumber e = line_breaks (p @ take off d) + 1)"

lemma interior_from_ok:
  assumes "DecompressedOffset frame = int (length p)" and "n = line_breaks (p @ take start d) + 1"
  shows "(\<forall>e \<in> set (interior_from d frame firstLine n start). interior_of p d start e) \<and>
    sorted_wrt (\<lambda>a b. ByteOffset a < ByteOffset b) (interior_from d frame firstLine n start)"
  using assms
proof (induction d frame firstLine n start rule: interior_from.induct)
  case (1 d frame firstLine n start)
  show ?case
  proof (cases "break_at (drop start d)")
    case None
    then show ?thesis by (subst (1 2) interior_from.simps) simp
  next
    case (Some k)
    let ?next = "start + k + 1"
    show ?thesis
    proof (cases "?next \<ge> length d")
      case True
      then show ?thesis using Some by (subst (1 2) interior_from.simps) simp
    next
      case False
      note b = break_at_Some [OF Some]
      have "k < length d - start" using b by simp
      then have len: "start + k < length d" by linarith
      have take: "take ?next d = take start d @ take k (drop start d) @ [nl]"
      proof -
        have "take (Suc k) (drop start d) = take k (drop start d) @ [drop start d ! k]" using b by (simp add: take_Suc_conv_app_nth)
        then show ?thesis using b by (simp add: take_add [of start "k + 1" d, simplified])
      qed
      have n: "n + 1 = line_breaks (p @ take ?next d) + 1" unfolding take using 1(3) b line_breaks_zero [of "take k (drop start d)"] by simp
      let ?rest = "interior_from d frame firstLine (n + 1) ?next"
      have IH: "\<forall>e \<in> set ?rest. interior_of p d ?next e" "sorted_wrt (\<lambda>a b. ByteOffset a < ByteOffset b) ?rest"
        using "1.IH" [OF Some refl refl False 1(2) n] by blast+
      have r: "interior_from d frame firstLine n start =
          (if (n + 1 - firstLine) mod CheckpointLineInterval = 0
           then [\<lparr>LineNumber = n + 1, ByteOffset = DecompressedOffset frame + int ?next, FrameIndex = Some (fi_Index frame)\<rparr>] else []) @ ?rest"
        using Some False by (subst interior_from.simps) (simp add: Let_def)
      have new: "interior_of p d start \<lparr>LineNumber = n + 1, ByteOffset = DecompressedOffset frame + int ?next, FrameIndex = Some (fi_Index frame)\<rparr>"
        unfolding interior_of_def by (rule exI [of _ ?next]) (use b False n 1(2) in simp)
      have "interior_of p d start e" if "interior_of p d ?next e" for e
        using that unfolding interior_of_def by (meson add_lessD1 trans_less_add1)
      moreover have "DecompressedOffset frame + int ?next < ByteOffset e" if "interior_of p d ?next e" for e
        using that 1(2) by (auto simp: interior_of_def)
      ultimately show ?thesis unfolding r using IH new by auto
    qed
  qed
qed

lemma interior_names:
  assumes "interior_of p d 0 e"
  shows "names_byte (p @ d @ beyond) frames e"
proof -
  obtain off where off: "0 < off" "off < length d" "d ! (off - 1) = nl" "ByteOffset e = int (length p + off)"
    "LineNumber e = line_breaks (p @ take off d) + 1"
    using assms by (auto simp: interior_of_def)
  have "last (p @ take off d) = nl"
  proof -
    have "take off d = take (off - 1) d @ [nl]" using off(1-3) take_Suc_conv_app_nth [of "off - 1" d] by simp
    then show ?thesis by simp
  qed
  then have start: "int (length (p @ take off d)) = line_offset ((p @ take off d) @ (drop off d @ beyond)) (line_breaks (p @ take off d) + 1)"
    by (intro line_start_at) simp
  have eq: "(p @ take off d) @ (drop off d @ beyond) = p @ d @ beyond" by (metis append_assoc append_take_drop_id)
  have "ByteOffset e = line_offset (p @ d @ beyond) (LineNumber e)" using start [unfolded eq] off by (simp add: min_def)
  moreover have "take (nat (ByteOffset e)) (p @ d @ beyond) = p @ take off d" using off by (simp add: nat_add_distrib)
  moreover have "0 \<le> ByteOffset e \<and> ByteOffset e < int (length (p @ d @ beyond))" using off by simp
  ultimately show ?thesis unfolding names_byte_def using off(5) by (simp only:) blast
qed

definition frame_entry :: "frame_info list \<Rightarrow> bytes list \<Rightarrow> nat \<Rightarrow> frame_line_info" where
  "frame_entry frames parts i =
     (let f = frames ! i; first = line_breaks (concat (take i parts)) + 1;
          final = (if Suc i = length parts then line_count (concat parts) else line_breaks (concat (take (Suc i) parts)))
      in \<lparr>fn_Index = fi_Index f, fn_CompressedOffset = CompressedOffset f, fn_CompressedSize = CompressedSize f,
         fn_DecompressedOffset = DecompressedOffset f, fn_DecompressedSize = DecompressedSize f,
         fn_FirstLine = first, fn_LastLine = final, fn_LineCount = final - first + 1\<rparr>)"

definition built :: "frame_info list \<Rightarrow> bytes list \<Rightarrow> nat \<Rightarrow> build_state \<Rightarrow> bool" where
  "built frames parts k s \<longleftrightarrow> (let done = concat (take k parts); r = bs_result s in
     bs_linesBefore s = line_breaks done \<and> bs_endsAtLineStart s = at_line_start done \<and>
     fr_Frames r = map (frame_entry frames parts) [0 ..< k] \<and>
     fr_LineCount r = (if k = length parts then line_count done else line_breaks done) \<and>
     fr_DecompressedSizeBytes r = int (length done) \<and>
     sorted_wrt (\<lambda>a b. ByteOffset a < ByteOffset b) (fr_LineIndex r) \<and>
     (\<forall>e \<in> set (fr_LineIndex r). names_byte (concat parts) frames e \<and> ByteOffset e < int (length done)))"

lemma build_frame_ok:
  assumes "built frames parts k s" and "frames_hold decode frames parts" and "k < length parts"
  shows "built frames parts (Suc k) (build_frame (parts ! k) (frames ! k) (Suc k = length parts) s)"
proof -
  let ?d = "parts ! k" and ?f = "frames ! k" and ?p = "concat (take k parts)" and ?last = "Suc k = length parts"
  let ?s = "build_frame ?d ?f ?last s"
  have done': "concat (take (Suc k) parts) = ?p @ ?d" using assms(3) by (simp add: take_Suc_conv_app_nth)
  have tx: "concat parts = ?p @ ?d @ concat (drop (Suc k) parts)"
    using assms(3) by (metis append_assoc append_take_drop_id concat_append done')
  have f: "DecompressedOffset ?f = int (length ?p)" "DecompressedSize ?f = int (length ?d)" "?f \<in> set frames"
    using assms(2,3) by (simp_all add: frames_hold_def)
  have b: "bs_linesBefore s = line_breaks ?p" "bs_endsAtLineStart s = at_line_start ?p"
    "fr_Frames (bs_result s) = map (frame_entry frames parts) [0 ..< k]" "fr_LineCount (bs_result s) = line_breaks ?p"
    "fr_DecompressedSizeBytes (bs_result s) = int (length ?p)"
    "sorted_wrt (\<lambda>a b. ByteOffset a < ByteOffset b) (fr_LineIndex (bs_result s))"
    "\<forall>e \<in> set (fr_LineIndex (bs_result s)). names_byte (concat parts) frames e \<and> ByteOffset e < int (length ?p)"
    using assms(1,3) by (simp_all add: built_def Let_def)
  define starts where "starts = (if ?d \<noteq> [] then last ?d = nl else bs_endsAtLineStart s)"
  have starts: "starts = at_line_start (?p @ ?d)" by (auto simp: starts_def b(2) at_line_start_def)
  define ended where "ended = linesEndedInFrame (line_breaks ?d) ?last starts"
  have "concat parts = ?p @ ?d" if ?last using tx that by simp
  then have ended: "line_breaks ?p + ended = (if ?last then line_count (concat parts) else line_breaks (?p @ ?d))"
    using line_count_breaks [of "concat parts"] starts by (auto simp: ended_def linesEndedInFrame_def)
  define e0 where "e0 = \<lparr>LineNumber = line_breaks ?p + 1, ByteOffset = DecompressedOffset ?f, FrameIndex = Some (fi_Index ?f)\<rparr>"
  define new where "new = (if DecompressedSize ?f > 0 then [e0] else []) @
      (if ended > CheckpointLineInterval then interiorCheckpoints ?d ?f (line_breaks ?p + 1) else [])"
  have ints: "\<forall>e \<in> set (interiorCheckpoints ?d ?f (line_breaks ?p + 1)). interior_of ?p ?d 0 e"
    "sorted_wrt (\<lambda>a b. ByteOffset a < ByteOffset b) (interiorCheckpoints ?d ?f (line_breaks ?p + 1))"
    unfolding interiorCheckpoints_def using interior_from_ok [OF f(1), of "line_breaks ?p + 1" 0 ?d "line_breaks ?p + 1"] by simp_all
  have int_ok: "names_byte (concat parts) frames e \<and> int (length ?p) < ByteOffset e \<and> ByteOffset e < int (length (?p @ ?d))"
    if "interior_of ?p ?d 0 e" for e
    using interior_names [OF that, of "concat (drop (Suc k) parts)" frames] that unfolding tx [symmetric] by (auto simp: interior_of_def)
  have e0_ok: "names_byte (concat parts) frames e0 \<and> ByteOffset e0 < int (length (?p @ ?d))" if "DecompressedSize ?f > 0"
  proof -
    have "length ?p < length (concat parts)" using that f(2) unfolding tx by simp
    moreover have "\<exists>g \<in> set frames. ByteOffset e0 = DecompressedOffset g" by (rule bexI [OF _ f(3)]) (simp add: e0_def)
    moreover have "take (nat (ByteOffset e0)) (concat parts) = ?p" "ByteOffset e0 = int (length ?p)" by (simp_all add: e0_def f(1) tx)
    ultimately show ?thesis using f(2) that by (simp add: names_byte_def) (simp add: e0_def)
  qed
  have ints_ok: "\<forall>e \<in> set (interiorCheckpoints ?d ?f (line_breaks ?p + 1)). names_byte (concat parts) frames e \<and>
      int (length ?p) < ByteOffset e \<and> ByteOffset e < int (length (?p @ ?d))"
    using ints(1) int_ok by blast
  have e0_at: "ByteOffset e0 = int (length ?p)" by (simp add: e0_def f(1))
  have news: "sorted_wrt (\<lambda>a b. ByteOffset a < ByteOffset b) new"
    using ints(2) ints_ok e0_at by (auto simp: new_def)
  have news2: "\<forall>e \<in> set new. names_byte (concat parts) frames e \<and> int (length ?p) \<le> ByteOffset e \<and> ByteOffset e < int (length (?p @ ?d))"
  proof
    fix e assume "e \<in> set new"
    then consider "e = e0" "DecompressedSize ?f > 0" | "e \<in> set (interiorCheckpoints ?d ?f (line_breaks ?p + 1))"
      by (auto simp: new_def split: if_splits)
    then show "names_byte (concat parts) frames e \<and> int (length ?p) \<le> ByteOffset e \<and> ByteOffset e < int (length (?p @ ?d))"
      using ints_ok e0_ok e0_at by cases (simp_all add: less_imp_le)
  qed
  have index: "fr_LineIndex (bs_result ?s) = fr_LineIndex (bs_result s) @ new"
    by (simp add: build_frame_def Let_def new_def e0_def ended_def starts_def b(1))
  have "sorted_wrt (\<lambda>a b. ByteOffset a < ByteOffset b) (fr_LineIndex (bs_result ?s))"
    unfolding index using b(6,7) news news2 by (fastforce simp: sorted_wrt_append)
  moreover have "\<forall>e \<in> set (fr_LineIndex (bs_result ?s)). names_byte (concat parts) frames e \<and> ByteOffset e < int (length (?p @ ?d))"
    unfolding index using b(7) news2 by fastforce
  moreover have "fr_Frames (bs_result ?s) = map (frame_entry frames parts) [0 ..< Suc k]"
  proof -
    have "ended = (if ?last then line_count (concat parts) else line_breaks (?p @ ?d)) - line_breaks ?p" using ended by simp
    then show ?thesis
      using b(1,3) by (simp add: build_frame_def Let_def frame_entry_def done' ended_def [symmetric] starts_def [symmetric] del: append_assoc)
  qed
  moreover have "fr_LineCount (bs_result ?s) = line_breaks ?p + ended" "bs_linesBefore ?s = line_breaks (?p @ ?d)" "bs_endsAtLineStart ?s = starts"
    "fr_DecompressedSizeBytes (bs_result ?s) = int (length (?p @ ?d))"
    using b f(2) by (simp_all add: build_frame_def Let_def ended_def starts_def)
  moreover have "?last \<Longrightarrow> ?p @ ?d = concat parts" using tx by simp
  ultimately show ?thesis unfolding built_def done' Let_def using starts ended by auto
qed

lemma build_frames_from:
  assumes "frames_hold decode frames parts" and "built frames parts k s" and "k \<le> length parts"
  shows "\<exists>s'. build_frames decode (drop k frames) s = Inr s' \<and> built frames parts (length parts) s' \<and>
    fr_FrameCount (bs_result s') = fr_FrameCount (bs_result s) \<and> fr_FrameSizeTarget (bs_result s') = fr_FrameSizeTarget (bs_result s)"
  using assms(3,2)
proof (induction k arbitrary: s rule: inc_induct)
  case base
  then show ?case using assms(1) by (simp add: frames_hold_def)
next
  case (step k)
  have len: "length frames = length parts" using assms(1) by (simp add: frames_hold_def)
  have d: "drop k frames = frames ! k # drop (Suc k) frames" using step.hyps len by (simp add: Cons_nth_drop_Suc)
  have last: "drop (Suc k) frames = [] \<longleftrightarrow> Suc k = length parts" using step.hyps len by auto
  have dec: "decode (fi_Index (frames ! k)) = Inr (parts ! k)" using assms(1) step.hyps by (simp add: frames_hold_def)
  let ?s = "build_frame (parts ! k) (frames ! k) (Suc k = length parts) s"
  have "built frames parts (Suc k) ?s" by (rule build_frame_ok [OF step.prems assms(1) step.hyps(2)])
  from step.IH [OF this] show ?case unfolding d build_frames.simps dec sum.case last
    by (simp add: build_frame_def Let_def)
qed

lemma build_start_ok: "built frames parts 0 (build_start frames)"
proof (cases "parts = []")
  case True
  then show ?thesis by (simp add: built_def build_start_def at_line_start_def line_count_def)
qed (simp add: built_def build_start_def at_line_start_def)

lemma build_index_ok:
  assumes "read_seek_table r fileSize = Inr table" and "frames_hold decode (Frames table) parts"
  shows "\<exists>res. build_index r fileSize decode = Inr res \<and> fr_Frames res = map (frame_entry (Frames table) parts) [0 ..< length parts] \<and>
    fr_LineCount res = line_count (concat parts) \<and> fr_FrameCount res = int (length parts) \<and>
    fr_DecompressedSizeBytes res = int (length (concat parts)) \<and>
    sorted_wrt (\<lambda>a b. ByteOffset a < ByteOffset b) (fr_LineIndex res) \<and>
    (\<forall>e \<in> set (fr_LineIndex res). names_byte (concat parts) (Frames table) e)"
proof -
  obtain s' where s': "build_frames decode (Frames table) (build_start (Frames table)) = Inr s'" "built (Frames table) parts (length parts) s'"
    "fr_FrameCount (bs_result s') = int (length (Frames table))"
    using build_frames_from [OF assms(2) build_start_ok le0] by (auto simp: build_start_def)
  moreover have "length (Frames table) = length parts" using assms(2) by (simp add: frames_hold_def)
  ultimately show ?thesis using assms(1) by (simp add: build_index_def built_def Let_def)
qed

end
