(* ===== verification/SpanSources.thy ===== *)
theory SpanSources
  imports SpanRun IndexFacts FrameFacts
begin

text \<open>
  The texts a pass over spans reads: a plain file, a stream that is decompressed from its first byte, and a seekable file
  entered at a frame, \<^verbatim>\<open>internal/samples/text_source.go\<close> and \<^verbatim>\<open>openAt\<close> of \<^verbatim>\<open>spans.go\<close>. Each keeps what the pass relies on.
  Opening a file succeeds, and the decoder gives the text of a stream and of a frame.
\<close>

section \<open>A plain file\<close>

definition spanBackBlock :: int where "spanBackBlock = 4096"

text \<open>
  One block, read backwards from its index \<open>i\<close>, with \<open>breaks\<close> line breaks seen: the index of the break wanted, or the
  breaks seen after the block.
\<close>

fun scan_back :: "bytes \<Rightarrow> int \<Rightarrow> int \<Rightarrow> int \<Rightarrow> int + int" where
  "scan_back [] i breaks wanted = Inl breaks"
| "scan_back (b # bs) i breaks wanted =
     (if b \<noteq> nl then scan_back bs (i - 1) breaks wanted
      else if breaks + 1 = wanted then Inr i else scan_back bs (i - 1) (breaks + 1) wanted)"

function back_blocks :: "bytes \<Rightarrow> int \<Rightarrow> int \<Rightarrow> int \<Rightarrow> int \<Rightarrow> string + int \<times> int" where
  "back_blocks tx firstLine behind end_at breaks =
     (if end_at \<le> 0 then Inr (0, 1)
      else let from = max 0 (end_at - spanBackBlock);
               piece = take (nat (end_at - from)) (drop (nat from) tx)
           in if int (length piece) < end_at - from then Inl ''read back: unexpected EOF''
              else case scan_back (rev piece) (int (length piece) - 1) breaks (behind + 1) of
                     Inr i \<Rightarrow> Inr (from + i + 1, firstLine - behind)
                   | Inl breaks' \<Rightarrow> back_blocks tx firstLine behind from breaks')"
  by auto
termination by (relation "measure (\<lambda>(tx, firstLine, behind, end_at, breaks). nat end_at)") (auto simp: spanBackBlock_def)

declare back_blocks.simps [simp del]

definition lineStartBack :: "bytes \<Rightarrow> int \<Rightarrow> int \<Rightarrow> int \<Rightarrow> string + int \<times> int" where
  "lineStartBack tx start firstLine behind = back_blocks tx firstLine behind start 0"

definition openAt_plain :: "bytes \<Rightarrow> line_span \<Rightarrow> int \<Rightarrow> string + text_cursor" where
  "openAt_plain tx sp behind =
     (case (if behind > 0 then lineStartBack tx (ls_startOffset sp) (ls_firstLine sp) behind else Inr (ls_startOffset sp, ls_firstLine sp)) of
        Inl e \<Rightarrow> Inl e
      | Inr (offset, line) \<Rightarrow> Inr \<lparr>cu_text = drop (nat offset) tx, cu_offset = offset, cu_line = line\<rparr>)"

definition plain_source :: "bytes \<Rightarrow> span_source" where
  "plain_source tx = \<lparr>so_plain = True, so_frameHolding = None, so_open = openAt_plain tx\<rparr>"

section \<open>A stream\<close>

definition stream_openAt :: "bytes \<Rightarrow> int \<Rightarrow> string + text_cursor" where
  "stream_openAt tx offset =
     (if offset > 0 \<and> int (length tx) < offset then Inl ''decompress: EOF''
      else Inr \<lparr>cu_text = drop (nat offset) tx, cu_offset = offset, cu_line = 1\<rparr>)"

definition stream_openNear :: "bytes \<Rightarrow> line_index_entry list option \<Rightarrow> int \<Rightarrow> int \<Rightarrow> string + text_cursor" where
  "stream_openNear tx idx offset before =
     (case idx of
        None \<Rightarrow> stream_openAt tx 0
      | Some es \<Rightarrow>
          (case checkpointBefore es offset before of (startOffset, startLine) \<Rightarrow>
             (case stream_openAt tx startOffset of Inl e \<Rightarrow> Inl e | Inr c \<Rightarrow> Inr (c\<lparr>cu_line := startLine\<rparr>))))"

definition streamed_source :: "bytes \<Rightarrow> line_index_entry list option \<Rightarrow> span_source" where
  "streamed_source tx idx =
     \<lparr>so_plain = False, so_frameHolding = None, so_open = \<lambda>sp before. stream_openNear tx idx (ls_startOffset sp) before\<rparr>"

section \<open>A seekable file\<close>

text \<open>The frame table of the index, the seek table and the text of each frame.\<close>

record seekable_text =
  sx_frames :: "frame_line_info list"
  sx_table :: "frame_info list"
  sx_parts :: "bytes list"

definition frameHolding :: "seekable_text \<Rightarrow> int \<Rightarrow> nat" where
  "frameHolding s offset =
     min (search_from (\<lambda>i. DecompressedEnd (sx_table s ! i) > offset) 0 (length (sx_table s))) (length (sx_table s) - 1)"

definition endsNoLine :: "frame_line_info \<Rightarrow> bool" where
  "endsNoLine frame \<longleftrightarrow> fn_LastLine frame < fn_FirstLine frame"

text \<open>The cursor's text: the bytes pending, then the frames from the next one on.\<close>

definition cursorFrom :: "seekable_text \<Rightarrow> nat \<Rightarrow> bytes \<Rightarrow> int \<Rightarrow> int \<Rightarrow> text_cursor" where
  "cursorFrom s nextFrame pending offset line =
     \<lparr>cu_text = pending @ concat (drop nextFrame (sx_parts s)), cu_offset = offset, cu_line = line\<rparr>"

definition lineAfterFirstBreak :: "seekable_text \<Rightarrow> nat \<Rightarrow> int" where
  "lineAfterFirstBreak s frame = (if frame = 0 then 1 else fn_FirstLine (sx_frames s ! frame) + 1)"

definition cursorAtFrame :: "seekable_text \<Rightarrow> nat \<Rightarrow> string + text_cursor" where
  "cursorAtFrame s frame =
     (if frame = 0 then Inr (cursorFrom s 0 [] 0 1)
      else let data = sx_parts s ! frame
           in case break_at data of
                None \<Rightarrow> Inl ''frame holds no line break''
              | Some lineBreak \<Rightarrow>
                  Inr (cursorFrom s (frame + 1) (drop (lineBreak + 1) data)
                    (fn_DecompressedOffset (sx_frames s ! frame) + int lineBreak + 1) (lineAfterFirstBreak s frame)))"

primrec start_before :: "seekable_text \<Rightarrow> nat \<Rightarrow> int \<Rightarrow> nat \<Rightarrow> nat" where
  "start_before s holding before 0 = 0"
| "start_before s holding before (Suc start) =
     (if endsNoLine (sx_frames s ! Suc start) \<or>
         fn_FirstLine (sx_frames s ! holding) - fn_FirstLine (sx_frames s ! Suc start) - 1 < before
      then start_before s holding before start else Suc start)"

definition seekable_openNear :: "seekable_text \<Rightarrow> int \<Rightarrow> int \<Rightarrow> string + text_cursor" where
  "seekable_openNear s offset before =
     (let holding = frameHolding s offset
      in if holding = 0 then Inr (cursorFrom s 0 [] 0 1) else cursorAtFrame s (start_before s holding before (holding - 1)))"

definition seekable_source :: "seekable_text \<Rightarrow> span_source" where
  "seekable_source s =
     \<lparr>so_plain = False, so_frameHolding = Some (\<lambda>offset. int (frameHolding s offset)),
      so_open = \<lambda>sp before. seekable_openNear s (ls_startOffset sp) before\<rparr>"

section \<open>Choosing the source\<close>

record file_index =
  ui_LineIndex :: "line_index_entry list"
  ui_Frames :: "frame_line_info list option"
  ui_LineCount :: "int option"

datatype file_kind = PlainFile | Stream | SeekableFile

text \<open>The index is trusted only when it agrees with the seek table of the file, which may be unreadable.\<close>

definition seekableTextFor :: "file_index option \<Rightarrow> frame_info list option \<Rightarrow> bytes list \<Rightarrow> seekable_text option" where
  "seekableTextFor idx table parts =
     (case idx of
        None \<Rightarrow> None
      | Some u \<Rightarrow>
          (case (ui_Frames u, ui_LineCount u) of
             (Some frames, Some lineCount) \<Rightarrow>
               if frames = [] \<or> fn_LastLine (last frames) \<noteq> lineCount then None
               else (case table of
                       None \<Rightarrow> None
                     | Some fs \<Rightarrow>
                         if length fs \<noteq> length frames \<or>
                           list_ex (\<lambda>(f, g). DecompressedOffset f \<noteq> fn_DecompressedOffset g) (zip fs frames) then None
                         else Some \<lparr>sx_frames = frames, sx_table = fs, sx_parts = parts\<rparr>)
           | _ \<Rightarrow> None))"

definition textSourceFor :: "file_kind \<Rightarrow> bytes \<Rightarrow> file_index option \<Rightarrow> frame_info list option \<Rightarrow> bytes list \<Rightarrow> span_source" where
  "textSourceFor kind tx idx table parts =
     (case kind of
        PlainFile \<Rightarrow> plain_source tx
      | SeekableFile \<Rightarrow> (case seekableTextFor idx table parts of Some s \<Rightarrow> seekable_source s | None \<Rightarrow> streamed_source tx None)
      | Stream \<Rightarrow> streamed_source tx (map_option ui_LineIndex idx))"

section \<open>What the pass relies on\<close>

lemma scan_back_ok:
  "breaks < wanted \<Longrightarrow> (case scan_back (rev p) (int (length p) - 1) breaks wanted of
     Inl n \<Rightarrow> n = breaks + line_breaks p \<and> n < wanted
   | Inr i \<Rightarrow> 0 \<le> i \<and> i < int (length p) \<and> p ! nat i = nl \<and> breaks + line_breaks (drop (nat i) p) = wanted)"
proof (induction p arbitrary: breaks rule: rev_induct)
  case (snoc b p)
  show ?case
  proof (cases "b = nl \<and> breaks + 1 = wanted")
    case True
    then show ?thesis by simp
  next
    case False
    define breaks' where "breaks' = breaks + (if b = nl then 1 else 0)"
    have "scan_back (rev (p @ [b])) (int (length (p @ [b])) - 1) breaks wanted = scan_back (rev p) (int (length p) - 1) breaks' wanted"
      using False by (auto simp: breaks'_def)
    moreover have "breaks' < wanted" using snoc.prems False by (auto simp: breaks'_def)
    ultimately show ?thesis using snoc.IH [of breaks'] by (auto simp: breaks'_def nth_append split: sum.splits)
  qed
qed simp

lemma back_blocks_ok:
  assumes "0 \<le> end_at" and "end_at \<le> int (length tx)" and "breaks < behind + 1"
    and "line_breaks (take (nat end_at) tx) + breaks = firstLine - 1" and "behind < firstLine"
  shows "\<exists>m. back_blocks tx firstLine behind end_at breaks = Inr (line_offset tx m, m) \<and> m = firstLine - behind"
  using assms
proof (induction tx firstLine behind end_at breaks rule: back_blocks.induct)
  case (1 tx firstLine behind end_at breaks)
  show ?case
  proof (cases "end_at \<le> 0")
    case True
    then have "firstLine - behind = 1" using "1.prems" by simp
    then show ?thesis using True by (subst back_blocks.simps) simp
  next
    case False
    define low where "low = max 0 (end_at - spanBackBlock)"
    define piece where "piece = take (nat (end_at - low)) (drop (nat low) tx)"
    have low: "0 \<le> low" "low < end_at" using False by (auto simp: low_def spanBackBlock_def)
    have len: "int (length piece) = end_at - low" using low "1.prems"(2) by (simp add: piece_def)
    have split: "take (nat end_at) tx = take (nat low) tx @ piece"
      using low take_add [of "nat low" "nat (end_at - low)" tx] by (simp add: piece_def nat_add_distrib [symmetric])
    have run: "back_blocks tx firstLine behind end_at breaks =
        (case scan_back (rev piece) (int (length piece) - 1) breaks (behind + 1) of
           Inr i \<Rightarrow> Inr (low + i + 1, firstLine - behind) | Inl breaks' \<Rightarrow> back_blocks tx firstLine behind low breaks')"
      using False len by (subst back_blocks.simps, unfold Let_def low_def [symmetric] piece_def [symmetric]) (simp only: if_False less_irrefl)
    note sb = scan_back_ok [OF "1.prems"(3), of piece]
    show ?thesis
    proof (cases "scan_back (rev piece) (int (length piece) - 1) breaks (behind + 1)")
      case (Inl breaks')
      then have b: "breaks' = breaks + line_breaks piece" "breaks' < behind + 1" using sb by simp_all
      have "\<exists>m. back_blocks tx firstLine behind low breaks' = Inr (line_offset tx m, m) \<and> m = firstLine - behind"
      proof (rule "1.IH" [OF False low_def piece_def _ Inl low(1)])
        show "\<not> int (length piece) < end_at - low" using len by simp
        show "low \<le> int (length tx)" using low "1.prems"(2) by simp
        show "line_breaks (take (nat low) tx) + breaks' = firstLine - 1" using "1.prems"(4) unfolding split b(1) by simp
      qed (use b(2) "1.prems"(5) in simp_all)
      then show ?thesis unfolding run Inl by simp
    next
      case (Inr i)
      then have i: "0 \<le> i" "i < int (length piece)" "piece ! nat i = nl" "breaks + line_breaks (drop (nat i) piece) = behind + 1" using sb by simp_all
      let ?a = "take (nat low) tx @ take (nat i + 1) piece" and ?r = "drop (nat i + 1) piece @ drop (nat end_at) tx"
      have n: "nat i < length piece" using i(1,2) by simp
      have cut: "tx = ?a @ ?r" by (metis append_assoc append_take_drop_id split)
      have last: "take (nat i + 1) piece = take (nat i) piece @ [nl]" "drop (nat i) piece = nl # drop (nat i + 1) piece"
        using n i(3) by (simp_all add: take_Suc_conv_app_nth Cons_nth_drop_Suc [symmetric])
      have "line_breaks piece = line_breaks (take (nat i) piece) + line_breaks (drop (nat i) piece)"
        by (metis append_take_drop_id line_breaks_simps(3))
      then have "line_breaks ?a + 1 = firstLine - behind" using "1.prems"(4) i(4) unfolding split last by simp
      moreover have "int (length ?a) = line_offset (?a @ ?r) (line_breaks ?a + 1)" by (rule line_start_at) (unfold last(1), simp)
      moreover have "int (length ?a) = low + i + 1" using low "1.prems"(2) i(1) n by simp
      ultimately have "line_offset tx (firstLine - behind) = low + i + 1" using cut by simp
      then show ?thesis unfolding run Inr by simp
    qed
  qed
qed

lemma plain_entry: "text_entry tx (plain_source tx)"
proof
  fix sp :: line_span and behind :: int
  assume a: "1 \<le> ls_firstLine sp" "ls_firstLine sp \<le> line_count tx" "ls_startOffset sp = line_offset tx (ls_firstLine sp)" "0 \<le> behind"
    "behind < ls_firstLine sp"
  let ?n = "ls_firstLine sp"
  have "(if behind > 0 then lineStartBack tx (ls_startOffset sp) ?n behind else Inr (ls_startOffset sp, ?n)) = Inr (line_offset tx (?n - behind), ?n - behind)"
  proof (cases "behind > 0")
    case True
    have "\<exists>m. back_blocks tx ?n behind (line_offset tx ?n) 0 = Inr (line_offset tx m, m) \<and> m = ?n - behind"
      by (rule back_blocks_ok) (use a breaks_before_line [OF a(1,2)] line_offset_inside [OF a(1,2)] in auto)
    then show ?thesis using True a(3) by (auto simp: lineStartBack_def)
  qed (use a in simp)
  then show "\<exists>m. so_open (plain_source tx) sp behind = Inr (line_cursor tx m) \<and> 1 \<le> m \<and> m \<le> ?n - behind \<and> (so_plain (plain_source tx) \<longrightarrow> m = ?n - behind)"
    using a(5) by (intro exI [of _ "?n - behind"]) (simp add: plain_source_def openAt_plain_def line_cursor_def)
qed

lemma streamed_entry:
  assumes "\<And>es. idx = Some es \<Longrightarrow> names_lines tx es"
  shows "text_entry tx (streamed_source tx idx)"
proof
  fix sp :: line_span and behind :: int
  assume a: "1 \<le> ls_firstLine sp" "ls_firstLine sp \<le> line_count tx" "ls_startOffset sp = line_offset tx (ls_firstLine sp)" "0 \<le> behind"
    "behind < ls_firstLine sp"
  show "\<exists>m. so_open (streamed_source tx idx) sp behind = Inr (line_cursor tx m) \<and> 1 \<le> m \<and> m \<le> ls_firstLine sp - behind \<and>
      (so_plain (streamed_source tx idx) \<longrightarrow> m = ls_firstLine sp - behind)"
  proof (cases idx)
    case None
    then show ?thesis using a(5)
      by (intro exI [of _ 1]) (simp add: streamed_source_def stream_openNear_def stream_openAt_def line_cursor_def)
  next
    case (Some es)
    obtain m where m: "checkpointBefore es (line_offset tx (ls_firstLine sp)) behind = (line_offset tx m, m)" "1 \<le> m" "m \<le> ls_firstLine sp - behind"
      using checkpointBefore_ok [OF assms [OF Some] a(1,2,4,5)] by blast
    have "line_offset tx m < int (length tx)" using line_offset_inside m(2,3) a(2,4) by simp
    then show ?thesis using m Some a(3)
      by (intro exI [of _ m]) (simp add: streamed_source_def stream_openNear_def stream_openAt_def line_cursor_def)
  qed
qed

lemma search_frame:
  assumes "length (sx_table s) = length parts" and "\<And>i. i < length parts \<Longrightarrow>
      DecompressedOffset (sx_table s ! i) = int (length (concat (take i parts))) \<and> DecompressedSize (sx_table s ! i) = int (length (parts ! i))" and "int (length (concat parts)) < 2 ^ 63" and "0 \<le> offset" and "offset < int (length (concat parts))"
  shows "frameHolding s offset < length parts" "int (length (concat (take (frameHolding s offset) parts))) \<le> offset"
proof -
  let ?P = "\<lambda>i. DecompressedEnd (sx_table s ! i) > offset" and ?n = "length parts"
  have grows: "length (concat (take i parts)) \<le> length (concat (take j parts))" if "i \<le> j" for i j
    using take_add [of i "j - i" parts] that by simp
  have end_at: "DecompressedEnd (sx_table s ! i) = int (length (concat (take (Suc i) parts)))" if "i < ?n" for i
  proof -
    have "length (concat (take (Suc i) parts)) \<le> length (concat parts)" using grows [of "Suc i" ?n] that by simp
    then show ?thesis using assms(2) [OF that] assms(3) that by (simp add: DecompressedEnd_def take_Suc_conv_app_nth int64_id)
  qed
  have n: "0 < ?n" using assms(4,5) by auto
  have "stays_true ?P ?n" unfolding stays_true_def
  proof (intro allI impI)
    fix a b assume "a \<le> b" "b < ?n" "offset < DecompressedEnd (sx_table s ! a)"
    then show "offset < DecompressedEnd (sx_table s ! b)" using end_at [of a] end_at [of b] grows [of "Suc a" "Suc b"] by simp
  qed
  from search_from_ok [OF le0 this] obtain r where r: "r = search_from ?P 0 ?n" "first_at ?P 0 ?n r" by blast
  have "?P (?n - 1)" using end_at [of "?n - 1"] n assms(5) by simp
  moreover have "\<not> ?n - 1 < r \<or> \<not> ?P (?n - 1)" using r(2) by (simp add: first_at_def)
  ultimately have "r \<le> ?n - 1" by simp
  then have h: "frameHolding s offset = r" unfolding frameHolding_def assms(1) r(1) [symmetric] by simp
  show "frameHolding s offset < ?n" using \<open>r \<le> ?n - 1\<close> n unfolding h by linarith
  show "int (length (concat (take (frameHolding s offset) parts))) \<le> offset"
  proof (cases r)
    case 0
    then show ?thesis using assms(4) h by simp
  next
    case (Suc i)
    then have "i < ?n" using \<open>r \<le> ?n - 1\<close> n by simp
    moreover have "\<not> ?P i" using r(2) Suc by (simp add: first_at_def)
    ultimately show ?thesis using end_at [of i] h Suc by simp
  qed
qed

lemma start_before_ok:
  "start_before s holding before k \<le> k \<and> (start_before s holding before k = 0 \<or>
     \<not> endsNoLine (sx_frames s ! start_before s holding before k) \<and>
     fn_FirstLine (sx_frames s ! start_before s holding before k) + 1 \<le> fn_FirstLine (sx_frames s ! holding) - before)"
  by (induction k) auto

definition frames_fit :: "bytes \<Rightarrow> seekable_text \<Rightarrow> bool" where
  "frames_fit tx s \<longleftrightarrow> tx = concat (sx_parts s) \<and> int (length tx) < 2 ^ 63 \<and> length (sx_table s) = length (sx_parts s) \<and>
     (\<forall>i < length (sx_parts s). DecompressedOffset (sx_table s ! i) = int (length (concat (take i (sx_parts s)))) \<and>
        DecompressedSize (sx_table s ! i) = int (length (sx_parts s ! i))) \<and>
     sx_frames s = map (frame_entry (sx_table s) (sx_parts s)) [0 ..< length (sx_parts s)]"

lemma cursorAtFrame_ok:
  assumes "frames_fit tx s" and "0 < i" and "Suc i < length (sx_parts s)" and "\<not> endsNoLine (sx_frames s ! i)"
  shows "cursorAtFrame s i = Inr (line_cursor tx (fn_FirstLine (sx_frames s ! i) + 1))"
proof -
  let ?p = "concat (take i (sx_parts s))" and ?d = "sx_parts s ! i" and ?r = "concat (drop (Suc i) (sx_parts s))"
  have i: "i < length (sx_parts s)" using assms(3) by simp
  have fr: "sx_frames s ! i = frame_entry (sx_table s) (sx_parts s) i" using assms(1) i by (simp add: frames_fit_def)
  have tk: "concat (take (Suc i) (sx_parts s)) = ?p @ ?d" using i by (simp add: take_Suc_conv_app_nth)
  have tx: "tx = ?p @ ?d @ ?r" using assms(1) tk by (metis append_assoc append_take_drop_id concat_append frames_fit_def)
  have first: "fn_FirstLine (sx_frames s ! i) = line_breaks ?p + 1" and off: "fn_DecompressedOffset (sx_frames s ! i) = int (length ?p)"
    using assms(1) i by (simp_all add: fr frame_entry_def Let_def frames_fit_def)
  have "0 < line_breaks ?d" using assms(3,4) by (simp add: fr endsNoLine_def frame_entry_def Let_def tk)
  then obtain k where k: "break_at ?d = Some k" using line_breaks_zero [of ?d] break_at_None [of ?d] by fastforce
  note b = break_at_Some [OF k]
  have d: "take (k + 1) ?d = take k ?d @ [nl]" using b by (simp add: take_Suc_conv_app_nth)
  let ?a = "?p @ take (k + 1) ?d"
  have at: "tx = ?a @ (drop (k + 1) ?d @ ?r)" using tx by (metis append_assoc append_take_drop_id)
  have breaks: "line_breaks ?a = line_breaks ?p + 1" unfolding d using b line_breaks_zero [of "take k ?d"] by simp
  have "int (length ?a) = line_offset (?a @ (drop (k + 1) ?d @ ?r)) (line_breaks ?a + 1)" by (rule line_start_at) (unfold d, simp)
  then have lo: "line_offset tx (line_breaks ?p + 1 + 1) = int (length ?a)" using breaks at [symmetric] by simp
  have len: "length ?a = length ?p + k + 1" using b by simp
  have dropped: "drop (length xs) (xs @ ys) = ys" for xs ys :: bytes by simp
  have "drop (length ?a) tx = drop (k + 1) ?d @ ?r" using dropped [of ?a "drop (k + 1) ?d @ ?r"] unfolding at [symmetric] .
  moreover have lo': "line_offset tx (fn_FirstLine (sx_frames s ! i) + 1) = int (length ?p + k + 1)" by (simp only: lo len first)
  ultimately have dr: "drop (nat (line_offset tx (fn_FirstLine (sx_frames s ! i) + 1))) tx = drop (k + 1) ?d @ ?r"
    by (simp only: nat_int len)
  have "line_cursor tx (fn_FirstLine (sx_frames s ! i) + 1) =
      \<lparr>cu_text = drop (k + 1) ?d @ ?r, cu_offset = int (length ?p + k + 1), cu_line = fn_FirstLine (sx_frames s ! i) + 1\<rparr>"
    unfolding line_cursor_def dr unfolding lo' ..
  then show ?thesis using assms(2) k by (simp add: cursorAtFrame_def cursorFrom_def lineAfterFirstBreak_def off Let_def)
qed

lemma seekable_entry:
  assumes "frames_fit tx s"
  shows "text_entry tx (seekable_source s)"
proof
  fix sp :: line_span and behind :: int
  assume a: "1 \<le> ls_firstLine sp" "ls_firstLine sp \<le> line_count tx" "ls_startOffset sp = line_offset tx (ls_firstLine sp)" "0 \<le> behind"
    "behind < ls_firstLine sp"
  let ?n = "ls_firstLine sp" and ?ps = "sx_parts s"
  define h where "h = frameHolding s (line_offset tx ?n)"
  have fit: "tx = concat ?ps" "int (length tx) < 2 ^ 63" using assms unfolding frames_fit_def by blast+
  have whole: "cursorFrom s 0 [] 0 1 = line_cursor tx 1" using fit(1) by (simp add: cursorFrom_def line_cursor_def)
  obtain m where m: "seekable_openNear s (line_offset tx ?n) behind = Inr (line_cursor tx m)" "1 \<le> m" "m \<le> ?n - behind"
  proof (cases "h = 0")
    case True
    then show ?thesis using that [of 1] a(5) whole by (simp add: seekable_openNear_def h_def [symmetric])
  next
    case False
    have inside: "h < length ?ps" "int (length (concat (take h ?ps))) \<le> line_offset tx ?n"
      unfolding h_def using search_frame [of s ?ps "line_offset tx ?n"] assms fit line_offset_inside [OF a(1,2)] by (auto simp: frames_fit_def)
    define st where "st = start_before s h behind (h - 1)"
    have first: "fn_FirstLine (sx_frames s ! i) = line_breaks (concat (take i ?ps)) + 1" if "i < length ?ps" for i
      using assms that by (simp add: frames_fit_def frame_entry_def Let_def)
    have "take (length (concat (take h ?ps))) tx = concat (take h ?ps)"
      by (metis append_eq_conv_conj append_take_drop_id concat_append fit(1))
    then have "line_breaks (concat (take h ?ps)) \<le> line_breaks (take (nat (line_offset tx ?n)) tx)"
      using line_breaks_mono [of "length (concat (take h ?ps))" "nat (line_offset tx ?n)" tx] inside(2) by (simp add: nat_le_iff le_nat_iff)
    then have fh: "fn_FirstLine (sx_frames s ! h) \<le> ?n" using first [OF inside(1)] breaks_before_line [OF a(1,2)] by simp
    have enters: "seekable_openNear s (line_offset tx ?n) behind = cursorAtFrame s st"
      using False by (simp add: seekable_openNear_def h_def [symmetric] st_def Let_def)
    note sb = start_before_ok [of s h behind "h - 1", folded st_def]
    show ?thesis
    proof (cases "st = 0")
      case True
      then show ?thesis using that [of 1] a(5) enters whole by (simp add: cursorAtFrame_def)
    next
      case st: False
      have "Suc st < length ?ps" using sb False inside(1) by linarith
      then have "cursorAtFrame s st = Inr (line_cursor tx (fn_FirstLine (sx_frames s ! st) + 1))"
        using cursorAtFrame_ok [OF assms] st sb by blast
      then show ?thesis using that enters sb st fh first [of st] \<open>Suc st < length ?ps\<close> by simp
    qed
  qed
  then show "\<exists>m. so_open (seekable_source s) sp behind = Inr (line_cursor tx m) \<and> 1 \<le> m \<and> m \<le> ?n - behind \<and>
      (so_plain (seekable_source s) \<longrightarrow> m = ?n - behind)"
    using a(3) by (auto simp: seekable_source_def)
qed

end
