(* ===== verification/SpanProps.thy ===== *)
theory SpanProps
  imports SpanSources
begin

text \<open>The line index of a text, the index of a seekable file, and the lines around findings.\<close>

section \<open>The sources in use\<close>

interpretation plain_file: text_entry tx "plain_source tx" for tx
  by (rule plain_entry)

interpretation whole_stream: text_entry tx "streamed_source tx None" for tx
  by (rule streamed_entry) simp

text \<open>An index that fits the text: its checkpoints name lines, or its frame table is the one built from the frames.\<close>

definition index_fits :: "file_kind \<Rightarrow> bytes \<Rightarrow> file_index option \<Rightarrow> frame_info list option \<Rightarrow> bytes list \<Rightarrow> bool" where
  "index_fits kind tx idx table parts \<longleftrightarrow> (case kind of
     PlainFile \<Rightarrow> True
   | Stream \<Rightarrow> (\<forall>u. idx = Some u \<longrightarrow> names_lines tx (ui_LineIndex u))
   | SeekableFile \<Rightarrow> (\<forall>u frames fs. idx = Some u \<longrightarrow> ui_Frames u = Some frames \<longrightarrow> table = Some fs \<longrightarrow>
       frames_fit tx \<lparr>sx_frames = frames, sx_table = fs, sx_parts = parts\<rparr>))"

lemma seekableTextFor_some:
  "seekableTextFor idx table parts = Some s \<Longrightarrow> \<exists>u frames fs. idx = Some u \<and> ui_Frames u = Some frames \<and> table = Some fs \<and>
    s = \<lparr>sx_frames = frames, sx_table = fs, sx_parts = parts\<rparr>"
  by (auto simp: seekableTextFor_def split: option.splits if_splits)

lemma source_entry:
  assumes "index_fits kind tx idx table parts"
  shows "text_entry tx (textSourceFor kind tx idx table parts)"
proof (cases kind)
  case PlainFile
  then show ?thesis by (simp add: textSourceFor_def plain_entry)
next
  case Stream
  then show ?thesis using assms by (auto simp: textSourceFor_def index_fits_def intro!: streamed_entry)
next
  case SeekableFile
  show ?thesis
  proof (cases "seekableTextFor idx table parts")
    case None
    then show ?thesis using SeekableFile by (simp add: textSourceFor_def whole_stream.text_entry_axioms)
  next
    case (Some s)
    then have "frames_fit tx s" using seekableTextFor_some [OF Some] assms SeekableFile by (auto simp: index_fits_def)
    then show ?thesis using SeekableFile Some by (simp add: textSourceFor_def seekable_entry)
  qed
qed

section \<open>The pass gives what the spans are to get\<close>

definition spans_known :: "bytes \<Rightarrow> spans_request \<Rightarrow> bool" where
  "spans_known tx req \<longleftrightarrow> sorted (map ls_firstLine (rq_spans req)) \<and> (\<forall>s \<in> set (rq_spans req). 1 \<le> ls_firstLine s \<and>
     ls_firstLine s \<le> line_count tx \<and> ls_startOffset s = line_offset tx (ls_firstLine s) \<and> ls_firstLine s \<le> ls_lastLine s \<and>
     (rq_textLines req > 0 \<longrightarrow> ls_lastLine s \<le> rq_textLines req))"

lemma window_shape: "shape (window_of req s) = (s, max 1 (ls_firstLine s - max (rq_before req) 0),
    if rq_textLines req > 0 then min (ls_lastLine s + max (rq_after req) 0) (rq_textLines req) else ls_lastLine s + max (rq_after req) 0)"
  by (simp add: shape_def window_of_def Let_def)

lemma windows_good:
  assumes "spans_known tx req"
  shows "good_shapes tx (map shape (map (window_of req) (rq_spans req)))"
proof -
  have "sorted (map (\<lambda>s. max 1 (ls_firstLine s - max (rq_before req) 0)) (rq_spans req))"
    using assms unfolding sorted_map spans_known_def by (elim conjE sorted_wrt_mono_rel [rotated]) auto
  then have ordered: "sorted (map (\<lambda>(s, f, l). f) (map shape (map (window_of req) (rq_spans req))))"
    by (simp only: map_map comp_def window_shape prod.case)
  have each: "case shape (window_of req s) of (s, f, l) \<Rightarrow> 1 \<le> f \<and> f \<le> ls_firstLine s \<and> ls_firstLine s \<le> line_count tx \<and>
      ls_startOffset s = line_offset tx (ls_firstLine s) \<and> ls_firstLine s \<le> ls_lastLine s \<and> ls_lastLine s \<le> l"
    if "s \<in> set (rq_spans req)" for s
  proof -
    have "1 \<le> ls_firstLine s" "ls_firstLine s \<le> line_count tx" "ls_startOffset s = line_offset tx (ls_firstLine s)"
      "ls_firstLine s \<le> ls_lastLine s" "rq_textLines req > 0 \<longrightarrow> ls_lastLine s \<le> rq_textLines req"
      using assms that unfolding spans_known_def by blast+
    then show ?thesis unfolding window_shape prod.case by auto
  qed
  show ?thesis unfolding good_shapes_def
  proof (intro conjI ballI, rule ordered)
    fix x assume "x \<in> set (map shape (map (window_of req) (rq_spans req)))"
    then obtain s where "s \<in> set (rq_spans req)" "x = shape (window_of req s)" unfolding set_map by blast
    then show "case x of (s, f, l) \<Rightarrow> 1 \<le> f \<and> f \<le> ls_firstLine s \<and> ls_firstLine s \<le> line_count tx \<and>
      ls_startOffset s = line_offset tx (ls_firstLine s) \<and> ls_firstLine s \<le> ls_lastLine s \<and> ls_lastLine s \<le> l"
      using each by (simp only:)
  qed
qed

lemma readLineSpans_ok:
  assumes "text_entry tx src" and "spans_known tx req" and "nat (line_count tx) < n"
  shows "readLineSpans n req src visit v = Some (spans_of_text req tx visit v)"
proof (cases "rq_spans req = []")
  case True
  then show ?thesis by (simp add: readLineSpans_def spans_of_text_outcome outcome_def offers_from_def offer_lines_none)
next
  case False
  let ?ws = "map (window_of req) (rq_spans req)"
  have at: "pass_at tx 1 (new_span_pass req v) ?ws False v"
    by (auto simp: pass_at_def new_span_pass_def fits_window_def line_count_def window_of_def Let_def)
  have "\<exists>p'. run_pass n req src visit (new_span_pass req v) = Some (None, p') \<and>
      (checkEnds p', ps_seen p') = outcome tx (offers_from req tx visit 1 (?ws, False, v))"
    by (rule text_entry.run_pass_ok [OF assms(1) at windows_good [OF assms(2)]]) (use assms(3) in simp_all)
  moreover have "(if rq_textLines req > 0 then find (\<lambda>s. ls_lastLine s > rq_textLines req) (rq_spans req) else None) = None"
    using assms(2) by (auto simp: find_None_iff spans_known_def)
  ultimately show ?thesis using False by (auto simp: readLineSpans_def spans_of_text_outcome)
qed

lemma frame_index_facts:
  assumes "read_seek_table r fileSize = Inr table" and "frames_hold decode (Frames table) parts" and "int (length (concat parts)) < 2 ^ 63"
  shows "\<exists>res. build_index r fileSize decode = Inr res \<and> fr_LineCount res = line_count (concat parts) \<and>
    fr_FrameCount res = int (length parts) \<and> fr_DecompressedSizeBytes res = int (length (concat parts)) \<and>
    sorted_wrt (\<lambda>a b. ByteOffset a < ByteOffset b) (fr_LineIndex res) \<and>
    (\<forall>e \<in> set (fr_LineIndex res). names_byte (concat parts) (Frames table) e) \<and>
    (let u = \<lparr>ui_LineIndex = fr_LineIndex res, ui_Frames = Some (fr_Frames res), ui_LineCount = Some (fr_LineCount res)\<rparr> in
      index_fits SeekableFile (concat parts) (Some u) (Some (Frames table)) parts \<and>
      (parts \<noteq> [] \<longrightarrow> seekableTextFor (Some u) (Some (Frames table)) parts \<noteq> None))"
proof -
  obtain res where res: "build_index r fileSize decode = Inr res" "fr_Frames res = map (frame_entry (Frames table) parts) [0 ..< length parts]"
    "fr_LineCount res = line_count (concat parts)" "fr_FrameCount res = int (length parts)"
    "fr_DecompressedSizeBytes res = int (length (concat parts))" "sorted_wrt (\<lambda>a b. ByteOffset a < ByteOffset b) (fr_LineIndex res)"
    "\<forall>e \<in> set (fr_LineIndex res). names_byte (concat parts) (Frames table) e"
    using build_index_ok [OF assms(1,2)] by blast
  have len: "length (Frames table) = length parts" using assms(2) by (simp add: frames_hold_def)
  have fit: "frames_fit (concat parts) \<lparr>sx_frames = fr_Frames res, sx_table = Frames table, sx_parts = parts\<rparr>"
    using assms(2,3) unfolding frames_fit_def frames_hold_def res(2) by simp
  have "seekableTextFor (Some \<lparr>ui_LineIndex = fr_LineIndex res, ui_Frames = Some (fr_Frames res), ui_LineCount = Some (fr_LineCount res)\<rparr>)
      (Some (Frames table)) parts \<noteq> None" if "parts \<noteq> []"
  proof -
    have n: "0 < length parts" using that by simp
    have "fn_LastLine (last (fr_Frames res)) = line_count (concat parts)"
      using n by (simp add: res(2) last_map frame_entry_def Let_def)
    moreover have "\<not> list_ex (\<lambda>(f, g). DecompressedOffset f \<noteq> fn_DecompressedOffset g) (zip (Frames table) (fr_Frames res))"
      using len by (auto simp: list_ex_iff res(2) set_zip frame_entry_def Let_def)
    moreover have "fr_Frames res \<noteq> []" "length (Frames table) = length (fr_Frames res)" using n len by (simp_all add: res(2))
    ultimately show ?thesis by (simp add: seekableTextFor_def res(3))
  qed
  then show ?thesis using res fit by (auto simp: index_fits_def Let_def)
qed

section \<open>Properties\<close>

text \<open>
  Claim C10. The walk of a text makes a line index in which every checkpoint names a line and the offset it starts at, in
  order; two checkpoints are at least a step apart, and every line starts less than a step behind a checkpoint at or before
  it. The counts are those of the text, the line ending is the one of its first lines, and the pass over spans may enter
  the text through the index.
\<close>

theorem line_index_of_text:
  assumes "0 < step"
  shows "names_lines tx (wk_LineIndex (walkLines step tx)) \<and> spaced_index tx step (wk_LineIndex (walkLines step tx)) \<and>
    wk_LineCount (walkLines step tx) = line_count tx \<and> wk_TotalBytes (walkLines step tx) = int (length tx) \<and>
    wk_EmptyLineCount (walkLines step tx) = int (length (filter blank_line (raw_lines tx))) \<and>
    walked_stats tx (length (raw_lines tx)) (wk_LineStats (walkLines step tx)) \<and>
    wk_LineEnding (walkLines step tx) = tally_style (tally_of (sampled_lines 0 (raw_lines tx))) \<and>
    (\<forall>u. ui_LineIndex u = wk_LineIndex (walkLines step tx) \<longrightarrow> index_fits Stream tx (Some u) None [])"
  using walkLines_ok [OF assms, of tx] by (simp add: index_fits_def)

theorem line_index_of_text_witness:
  "map (\<lambda>e. (LineNumber e, ByteOffset e)) (wk_LineIndex (walkLines 4 [97, 13, 10, 98, 10, 32, 10, 99, 99, 99])) = [(1, 0), (3, 5)] \<and>
    names_lines [97, 13, 10, 98, 10, 32, 10, 99, 99, 99] (wk_LineIndex (walkLines 4 [97, 13, 10, 98, 10, 32, 10, 99, 99, 99]))"
  using line_index_of_text [of 4 "[97, 13, 10, 98, 10, 32, 10, 99, 99, 99]"]
  by (simp add: walkLines_def walk_from_lines walk_start_def walk_line_def Let_def)

text \<open>
  Claim C11. When the decoder gives the text of every frame, the index of a seekable file counts the lines of the text, its
  checkpoints name the line that holds their byte, in order, its frame table gives the lines of each frame, so a pass over
  spans may enter the text through it, and the check of the table against the seek table lets it pass.
\<close>

theorem frame_index_of_text:
  assumes "read_seek_table r fileSize = Inr table" and "frames_hold decode (Frames table) parts" and "int (length (concat parts)) < 2 ^ 63"
  shows "\<exists>res. build_index r fileSize decode = Inr res \<and> fr_LineCount res = line_count (concat parts) \<and>
    fr_FrameCount res = int (length parts) \<and> fr_DecompressedSizeBytes res = int (length (concat parts)) \<and>
    sorted_wrt (\<lambda>a b. ByteOffset a < ByteOffset b) (fr_LineIndex res) \<and>
    (\<forall>e \<in> set (fr_LineIndex res). names_byte (concat parts) (Frames table) e) \<and>
    (let u = \<lparr>ui_LineIndex = fr_LineIndex res, ui_Frames = Some (fr_Frames res), ui_LineCount = Some (fr_LineCount res)\<rparr> in
      index_fits SeekableFile (concat parts) (Some u) (Some (Frames table)) parts \<and>
      (parts \<noteq> [] \<longrightarrow> seekableTextFor (Some u) (Some (Frames table)) parts \<noteq> None))"
  by (rule frame_index_facts [OF assms])

text \<open>
  Claim C9. Whatever the file is (plain, a stream with or without an index, a seekable file with or without a frame table),
  one pass hands every span exactly the lines of its window, in order, each cut as asked, until its visitor has had enough,
  and says which span runs past the end of the text: the answer of going through all the lines of the text. One round more
  than the text has lines is enough.
\<close>

theorem line_spans_of_text:
  assumes "index_fits kind tx idx table parts" and "spans_known tx req" and "nat (line_count tx) < n"
  shows "readLineSpans n req (textSourceFor kind tx idx table parts) visit v = Some (spans_of_text req tx visit v)"
  by (rule readLineSpans_ok [OF source_entry [OF assms(1)] assms(2,3)])

section \<open>Witnesses\<close>

theorem frame_index_of_text_witness:
  "\<exists>res. build_index (file_reader one_file) (int (length one_file)) (\<lambda>_. Inr [97, 10, 98]) = Inr res \<and> fr_LineCount res = 2"
proof -
  have "frames_hold (\<lambda>_. Inr [97, 10, 98]) one_table [[97, 10, 98]]" by (simp add: frames_hold_def one_table_def)
  moreover have "line_count [97, 10, 98] = 2" by (simp add: line_count_def)
  ultimately show ?thesis using frame_index_of_text [OF one_file_read, of "\<lambda>_. Inr [97, 10, 98]" "[[97, 10, 98]]"] by auto
qed

text \<open>Five lines in four frames, two of which a line crosses.\<close>

definition four_parts :: "bytes list" where
  "four_parts = [[97, 10, 98], [99, 10], [100, 101], [102, 10, 103, 10, 104]]"

definition four_table :: "frame_info list" where
  "four_table = map (\<lambda>(i, off, n). \<lparr>fi_Index = i, CompressedOffset = 20 * i, CompressedSize = 20, DecompressedOffset = off, DecompressedSize = n\<rparr>)
     [(0, 0, 3), (1, 3, 2), (2, 5, 2), (3, 7, 5)]"

definition four_index :: file_index where
  "four_index = \<lparr>ui_LineIndex = [], ui_Frames = Some (map (frame_entry four_table four_parts) [0 ..< 4]), ui_LineCount = Some 5\<rparr>"

definition one_span :: spans_request where
  "one_span = \<lparr>rq_spans = [\<lparr>ls_firstLine = 4, ls_lastLine = 5, ls_startOffset = 9\<rparr>], rq_before = 1, rq_after = 2, rq_keepBytes = 1,
     rq_textLines = 0, rq_textBytes = 0\<rparr>"

definition note_line :: "(nat \<times> int \<times> bytes \<times> int) list visitor" where
  "note_line i line seen = (SpanContinue, seen @ [(i, sn_number line, sn_text line, sn_length line)])"

theorem line_spans_of_text_witness:
  "readLineSpans 6 one_span (textSourceFor SeekableFile (concat four_parts) (Some four_index) (Some four_table) four_parts) note_line [] =
    Some (None, [(0, 3, [100], 3), (0, 4, [103], 1), (0, 5, [104], 1)])"
proof -
  have "frames_fit (concat four_parts)
      \<lparr>sx_frames = map (frame_entry four_table four_parts) [0 ..< 4], sx_table = four_table, sx_parts = four_parts\<rparr>"
    by code_simp
  then have "index_fits SeekableFile (concat four_parts) (Some four_index) (Some four_table) four_parts"
    by (simp add: index_fits_def four_index_def)
  moreover have "spans_known (concat four_parts) one_span" by code_simp
  moreover have "nat (line_count (concat four_parts)) < 6" by code_simp
  moreover have "spans_of_text one_span (concat four_parts) note_line [] = (None, [(0, 3, [100], 3), (0, 4, [103], 1), (0, 5, [104], 1)])"
    by code_simp
  ultimately show ?thesis using line_spans_of_text [of SeekableFile "concat four_parts" "Some four_index" "Some four_table" four_parts one_span 6 note_line "[]"] by simp
qed

end
