(* ===== verification/Spec2Isabelle.thy ===== *)
theory Spec2Isabelle
  imports Prelude TaskProps Lines ChunkWalk ScanPlan Findings ByteScans Runs Blocks SigLines ScanWalk
    ScanRef ScanMerge ScanReplay ScanBlocks ScanRuns ScanEdges ScanText ScanOrder ScanFinish SeekTable AhoCorasick KeywordDfa Gate
    Keywords KeywordFacts Redact RedactScan RedactMask RedactLoop RedactFacts RedactProps SlotQueue FileLocks Chunker GapProps PathProps SpanProps
begin

text \<open>
  A verification of rx, a log search tool in Go: it scans log files for signatures (patterns of errors, secrets,
  stack traces), serves the findings from a cache, traces regular expressions through files, and runs such work as
  background tasks behind a web API. The theories below are a shallow embedding of the parts that hold its own
  logic. Go packages are named by their directory under \<^verbatim>\<open>src/\<close>.

  \<^bold>\<open>How the program's parts fit together.\<close> A request names a path. \<^verbatim>\<open>internal/paths\<close> decides whether it may be
  served, pins the file it leads to and walks directories. Work that takes long becomes a task of
  \<^verbatim>\<open>internal/tasks\<close>, which holds the paths it works on. \<^verbatim>\<open>internal/findings\<close> lets a bounded number of scans run and
  locks one cached file at a time. A scan of \<^verbatim>\<open>internal/sigscan\<close> cuts the text into chunks, asks the keyword gate for
  every line which signatures may match (its clauses come from \<^verbatim>\<open>internal/signatures/keywords.go\<close>), walks every
  chunk with all signatures at once, and merges the chunks in text order. Excerpts of a redacting signature are
  masked before they are stored. Compressed files are read through the seek table of \<^verbatim>\<open>internal/seekable\<close>, and
  \<^verbatim>\<open>internal/trace\<close> cuts a plain file into tasks at line starts.

  \<^bold>\<open>Conventions.\<close> A struct is a \<^verbatim>\<open>record\<close> with the field names of the source behind a short prefix, a tagged value a
  \<^verbatim>\<open>datatype\<close>, bytes are \<^verbatim>\<open>8 word\<close>. An \<^verbatim>\<open>int\<close> or \<^verbatim>\<open>int64\<close> of Go is an \<^verbatim>\<open>int\<close> where it counts bytes, lines or
  nanoseconds of one file, and a word where wrap-around matters (the generations of the gate). A Go map is a map, or
  an association list where its order shows. An error is \<^verbatim>\<open>Inl\<close>, a result \<^verbatim>\<open>Inr\<close>. Code that is not in the
  repository is an argument: the matcher of a regular expression, the regex parser, the parser of timestamps, the
  reader and writer of bytes, the answers of the operating system, comparisons of floating-point numbers. A buffer
  that Go reuses is a fresh list.

  \<^bold>\<open>Prelude.\<close> Shared names, facts on lists, options and association lists, the collections of hints, and the
  locale of a system whose steps keep an invariant, which the task manager, the scan slots and the file locks interpret.
  The other interfaces are locales too: a sink of findings (\<^verbatim>\<open>Findings\<close>), a walk whose lines and times are moved
  (\<^verbatim>\<open>ScanRef\<close>), a reader of a file (\<^verbatim>\<open>SeekTable\<close>, \<^verbatim>\<open>Chunker\<close>), a text entered at the start of a line (\<^verbatim>\<open>SpanRun\<close>); each is interpreted on the functions of the model.

  \<^bold>\<open>Tasks\<close> (\<^verbatim>\<open>internal/tasks/manager.go\<close>). \<^verbatim>\<open>Tasks\<close> has the task table, the locks on paths and the watches, one
  function for each method of \<^verbatim>\<open>Manager\<close>, \<^verbatim>\<open>Update\<close> with any status included; time is an argument. \<^verbatim>\<open>TaskInvariant\<close> states the invariant and that every
  method keeps it; \<^verbatim>\<open>TaskSteps\<close> makes the methods steps of a relation (each runs under the mutex, so concurrent calls
  are a sequence of steps in any order); \<^verbatim>\<open>TaskProps\<close> has the properties: two unfinished tasks never hold one path, a
  task ends once, the cap on finished tasks, cancelling and sweeping. That a settled task is never cancelled holds
  as long as no \<^verbatim>\<open>Update\<close> sets that status itself, which no caller in the repository does.

  \<^bold>\<open>Signature scan\<close> (\<^verbatim>\<open>internal/sigscan\<close>).
  \<^item> \<^verbatim>\<open>Lines\<close> (\<^verbatim>\<open>lines.go\<close>): the splitter, equal to cutting the text at newlines, whatever pieces it is fed.
  \<^item> \<^verbatim>\<open>ChunkWalk\<close>, \<^verbatim>\<open>ScanPlan\<close> (\<^verbatim>\<open>chunks.go\<close>, \<^verbatim>\<open>scan.go\<close>): the chunk plans, the cursors, and \<^verbatim>\<open>mergeInOrder\<close>. Every line
    belongs to one chunk; the merge sees the chunks in order, whatever order their walks end in. The reader of a file
    may fail in any way, and \<^verbatim>\<open>mergeInOrder\<close> may receive failed workers, the end of a stream and the end of the context.
  \<^item> \<^verbatim>\<open>Findings\<close> (\<^verbatim>\<open>times.go\<close>, \<^verbatim>\<open>result.go\<close>), \<^verbatim>\<open>Runs\<close> (\<^verbatim>\<open>run.go\<close>), \<^verbatim>\<open>Blocks\<close> (\<^verbatim>\<open>block.go\<close>, \<^verbatim>\<open>jsonblock.go\<close>),
    \<^verbatim>\<open>ByteScans\<close> (\<^verbatim>\<open>measures.go\<close>, \<^verbatim>\<open>randomentropy.go\<close>), \<^verbatim>\<open>SigLines\<close> (\<^verbatim>\<open>matchers.go\<close>): the kinds of signatures, each
    with its state per chunk and what it does on a line.
  \<^item> \<^verbatim>\<open>ScanWalk\<close> (\<^verbatim>\<open>walk.go\<close>, \<^verbatim>\<open>merge.go\<close>): the walk of a chunk and the merge with the second walk of a chunk that a
    block enters. \<^verbatim>\<open>ScanRef\<close> states the reference, one walk over the whole text. \<^verbatim>\<open>ScanMerge\<close>, \<^verbatim>\<open>ScanReplay\<close>,
    \<^verbatim>\<open>ScanBlocks\<close>, \<^verbatim>\<open>ScanEdges\<close>, \<^verbatim>\<open>ScanRuns\<close> prove one chunk after another, and \<^verbatim>\<open>ScanText\<close> the whole for one
    signature up to the end of the text: the merge holds what the reference finds, however the text is cut and wherever
    a walk stops early. \<^verbatim>\<open>ScanOrder\<close> shows that findings come in the order of their lines.
  \<^item> \<^verbatim>\<open>ScanFinish\<close> (\<^verbatim>\<open>finish\<close> and \<^verbatim>\<open>result\<close> of \<^verbatim>\<open>merge.go\<close>): all signatures of an engine, the share of an unprefixed run, the
    masked ranges of the body recorders and the excerpts they hide. Its property states the answer of a scan against the
    reference walks: the findings, the counts, the masked ranges and what a finding inside one shows.
  \<^item> \<^verbatim>\<open>GapKeeper\<close>, \<^verbatim>\<open>Intervals\<close>, \<^verbatim>\<open>TimeGap\<close> (\<^verbatim>\<open>timegaps.go\<close>): the time-gap measure; \<^verbatim>\<open>GapRef\<close>, \<^verbatim>\<open>GapScan\<close> and
    \<^verbatim>\<open>GapProps\<close> show that the chunks give the silences of the whole text, and how close the median of the buckets is.
  \<^item> \<^verbatim>\<open>AhoCorasick\<close>, \<^verbatim>\<open>KeywordDfa\<close> (\<^verbatim>\<open>ac.go\<close>): classes, trie, failure links, tables. The automaton reports the keywords
    that end at a byte, and building it fails exactly when a bound is passed. \<^verbatim>\<open>Gate\<close> (\<^verbatim>\<open>gate.go\<close>): clauses over keywords with stamps on a 32-bit generation, which is
    cleared when it wraps around.
  \<^item> \<^verbatim>\<open>Keywords\<close> (\<^verbatim>\<open>internal/signatures/keywords.go\<close>): the clauses of an anchor. \<^verbatim>\<open>KeywordFacts\<close> writes out what a
    syntax tree matches and shows that a line the regex matches passes the gate.
  \<^item> \<^verbatim>\<open>Redact\<close> (\<^verbatim>\<open>redact.go\<close>, the excerpts of \<^verbatim>\<open>matchers.go\<close>): the copies of the secret values of a line are found by
    automata that share one pass. \<^verbatim>\<open>RedactScan\<close> is one automaton, \<^verbatim>\<open>RedactMask\<close> the runs, \<^verbatim>\<open>RedactLoop\<close> the loop,
    \<^verbatim>\<open>RedactFacts\<close> the limits and the text, \<^verbatim>\<open>RedactProps\<close> the properties: no copy is left, the work is bounded,
    excerpts are valid text.

  \<^bold>\<open>Findings\<close> (\<^verbatim>\<open>internal/findings/queue.go\<close>). \<^verbatim>\<open>SlotQueue\<close> and \<^verbatim>\<open>FileLocks\<close>: the critical sections as functions, their
  interleavings as step relations, and what holds in every reachable state: never more scans than slots, a waiting
  caller is let in, one holder of a file.

  \<^bold>\<open>Seek table\<close> (\<^verbatim>\<open>internal/seekable/format.go\<close>, \<^verbatim>\<open>format_io.go\<close>). \<^verbatim>\<open>SeekTable\<close>: a table that is accepted describes the
  frames of the file one after another; a table that the writer accepts is read back, or refused for a frame larger than
  a reader may hold; reading the table of a file below 16 GiB fails only in the documented ways and does not depend on
  anything outside the file (the entries of a larger file can wrap a 64-bit sum around).

  \<^bold>\<open>Trace\<close> (\<^verbatim>\<open>internal/trace/chunker.go\<close>). \<^verbatim>\<open>Chunker\<close>: the tasks tile the file and start at line starts.

  \<^bold>\<open>Paths\<close> (\<^verbatim>\<open>internal/paths\<close>). \<^verbatim>\<open>PathNames\<close> writes out the used part of \<^verbatim>\<open>path/filepath\<close>. \<^verbatim>\<open>Sandbox\<close>
  (\<^verbatim>\<open>security.go\<close>, \<^verbatim>\<open>hidden.go\<close>), \<^verbatim>\<open>Pinned\<close> (\<^verbatim>\<open>pinned.go\<close>) and \<^verbatim>\<open>DirWalk\<close> (\<^verbatim>\<open>walk.go\<close>, \<^verbatim>\<open>reason.go\<close>) have the operations. The
  operating system is a function of the number of the call, so the file system may change between any two calls.
  \<^verbatim>\<open>PinFacts\<close>, \<^verbatim>\<open>WalkFacts\<close> and \<^verbatim>\<open>WalkSafe\<close> carry \<^verbatim>\<open>PathProps\<close>: a pinned file was reached below a root without
  following a link, a walk reports only files at places that are served, and it ends. What is served is stated as the
  documentation has it, also for a search root \<open>/\<close>; there the code refuses all but \<open>/\<close> itself, which
  \<^verbatim>\<open>slash_root_refuses_served\<close> shows.

  \<^bold>\<open>Lines of a text\<close> (\<^verbatim>\<open>internal/samples\<close>, \<^verbatim>\<open>internal/index\<close>, \<^verbatim>\<open>internal/seekableindex\<close>). \<^verbatim>\<open>TextReader\<close> has the lines of a
  text and the readers that meet them in pieces of a buffer (\<^verbatim>\<open>spans.go\<close>, \<^verbatim>\<open>line_pass.go\<close>). \<^verbatim>\<open>LineIndex\<close>
  (\<^verbatim>\<open>builder.go\<close>, \<^verbatim>\<open>linestats.go\<close>, \<^verbatim>\<open>lookup.go\<close>) walks a text into checkpoints and looks them up; \<^verbatim>\<open>IndexFacts\<close> shows what
  the index holds. \<^verbatim>\<open>FrameIndex\<close> (\<^verbatim>\<open>build.go\<close>) gives the lines of every frame of a seekable file, with \<^verbatim>\<open>FrameFacts\<close>.
  \<^verbatim>\<open>Spans\<close> (\<^verbatim>\<open>spans.go\<close>) is the pass that hands findings the lines around them, and the reference it is compared with;
  \<^verbatim>\<open>SpanFacts\<close> relates one line of both, \<^verbatim>\<open>SpanPass\<close> the state, \<^verbatim>\<open>SpanRun\<close> the whole pass, inside the locale of a
  text that is entered at the start of a line. \<^verbatim>\<open>SpanSources\<close> (\<^verbatim>\<open>text_source.go\<close>) has the three sources that
  interpret it, and \<^verbatim>\<open>SpanProps\<close> the properties: the index is right, and the pass gives the lines of the text whatever the
  source and its index.

  \<^bold>\<open>Bounds and fuel.\<close> Loops over data recurse on it. Where the source loops on a condition, the definition has a
  measure (the bytes left, the states of an automaton not yet seen, the directories not yet listed) or a fuel the
  statement bounds: the states of the automaton for the queue of failure links, the length matched for a fall back, the
  positions times the values for the rounds of the masking, the bytes left of a file for the reads of its cursor, the
  places of the file tree and the links in it for a walk of directories, one more than the lines of the text for the
  pass over spans. A theorem about such a loop says that it returns.

  \<^bold>\<open>Not modelled.\<close> Goroutines are not modelled as such: where their order shows, a theorem holds for every order.
  Left out are the parts whose answer is decided outside this repository or which only move bytes: the zstd, gzip,
  bzip2 and xz decoders and what wraps them (\<^verbatim>\<open>compression\<close>, \<^verbatim>\<open>compressfile\<close>, the rest of
  \<^verbatim>\<open>seekable\<close>); ripgrep and the parsing of its output (the rest of \<^verbatim>\<open>trace\<close>); the command line, the web
  API, hooks, metrics, the frontend and the printing of answers; environment variables (\<^verbatim>\<open>config\<close>); cache files and their keys
  (the rest of \<^verbatim>\<open>index\<close> and of \<^verbatim>\<open>findings\<close>, \<^verbatim>\<open>cachefill\<close>); the YAML loader of signatures. The parsers of timestamps, the
  journal reader, the log chains and the rest of the samples are the program's own logic and were left for lack of room. Of the
  scan itself the time-backwards, density and long-line measures, the masks merged for a trace and the validation of signatures
  are not modelled. A walk of a chunk reads the flag of a full store once per line, where the source loads it at each
  use; a replay does not look at the scan's context; and the comparison of the share of stamped lines, which rounds
  floating-point numbers, is an argument. Buffers and places in the window that the merge gives back are left out.
\<close>

end
